(* ===== verification/Prelude.thy ===== *)
theory Prelude
  imports "HOL-Library.Word"
begin

text \<open>
  Generic definitions and lemmas the components share: bitmaps of 64-bit words read and
  written by slot number (the runtime's \<open>extc_rc_bit\<close> and \<open>extc_rc_word\<close>), the list of set
  bits of a word in ascending order (the \<open>ctz\<close> loops), facts on division and remainder by
  powers of two, and the collections that the component proofs extend.
\<close>

unbundle bit_operations_syntax

named_theorems heap_simps \<open>field updates of the reclamation heap\<close>
named_theorems layout_simps \<open>slot geometry\<close>

type_synonym addr = nat
type_synonym bitmap = "64 word list"

section \<open>Arithmetic\<close>

lemma nat_mult_div_cancel_lt:
  fixes k a b :: nat
  assumes "b < a"
  shows "(k * a + b) div a = k"
  using assms by simp

lemma aligned_lt_eq:
  fixes a b d :: nat
  assumes "a mod d = 0" "b mod d = 0" "a < b + d" "b < a + d" "0 < d"
  shows "a = b"
proof -
  obtain x y where "a = d * x" "b = d * y" using assms(1,2) by (metis mod_0_imp_dvd dvdE)
  with assms(3-5) have "d * x < d * (y + 1)" "d * y < d * (x + 1)" by (simp_all add: algebra_simps)
  then have "x < y + 1" "y < x + 1" using mult_less_cancel1 by blast+
  then show ?thesis using \<open>a = d * x\<close> \<open>b = d * y\<close> by simp
qed

section \<open>Bitmaps: \<open>extc_rc_bit\<close> and \<open>extc_rc_word\<close>\<close>

definition rcBit :: "nat \<Rightarrow> 64 word" where
  "rcBit i = push_bit (i mod 64) 1"

definition rcWord :: "nat \<Rightarrow> nat" where
  "rcWord i = i div 64"

definition bmGet :: "bitmap \<Rightarrow> nat \<Rightarrow> bool" where
  "bmGet b i = (b ! rcWord i AND rcBit i \<noteq> 0)"

definition bmSet :: "bitmap \<Rightarrow> nat \<Rightarrow> bitmap" where
  "bmSet b i = b[rcWord i := b ! rcWord i OR rcBit i]"

definition bmClr :: "bitmap \<Rightarrow> nat \<Rightarrow> bitmap" where
  "bmClr b i = b[rcWord i := b ! rcWord i AND NOT (rcBit i)]"

lemma rcBit_bit: "bit (rcBit i) n \<longleftrightarrow> n = i mod 64"
proof -
  have "bit (rcBit i) n \<longleftrightarrow> n = i mod 64 \<and> n < 64"
    unfolding rcBit_def by (auto simp: bit_simps)
  then show ?thesis by auto
qed

lemma and_rcBit: "w AND rcBit i \<noteq> 0 \<longleftrightarrow> bit w (i mod 64)"
proof -
  have "w AND rcBit i = 0 \<longleftrightarrow> (\<forall>n. \<not> bit (w AND rcBit i) n)"
    by (metis bit_0_eq bit_eqI bot_apply bot_bool_def)
  then show ?thesis by (auto simp: bit_and_iff rcBit_bit)
qed

lemma bmGet_bit: "bmGet b i \<longleftrightarrow> bit (b ! (i div 64)) (i mod 64)"
  by (simp add: bmGet_def and_rcBit rcWord_def)

lemma idx64_eq: "i div 64 = j div 64 \<Longrightarrow> (i mod 64 = j mod 64) = (i = (j::nat))"
  by (metis div_mult_mod_eq)

lemma bmSet_length [simp]: "length (bmSet b i) = length b"
  by (simp add: bmSet_def)

lemma bmClr_length [simp]: "length (bmClr b i) = length b"
  by (simp add: bmClr_def)

lemma bmGet_bmSet:
  "rcWord i < length b \<Longrightarrow> bmGet (bmSet b i) j \<longleftrightarrow> j = i \<or> bmGet b j"
proof (cases "i div 64 = j div 64")
  case True
  then show "rcWord i < length b \<Longrightarrow> ?thesis"
    using idx64_eq[OF True] by (auto simp: bmGet_bit bmSet_def rcWord_def bit_or_iff rcBit_bit)
next
  case False
  then show "rcWord i < length b \<Longrightarrow> ?thesis"
    by (auto simp: bmGet_bit bmSet_def rcWord_def)
qed

lemma bmGet_bmClr:
  "rcWord i < length b \<Longrightarrow> bmGet (bmClr b i) j \<longleftrightarrow> j \<noteq> i \<and> bmGet b j"
proof (cases "i div 64 = j div 64")
  case True
  have "j mod 64 < 64" by simp
  then show "rcWord i < length b \<Longrightarrow> ?thesis"
    using idx64_eq[OF True] True
    by (auto simp: bmGet_bit bmClr_def rcWord_def bit_and_iff bit_not_iff rcBit_bit)
next
  case False
  then show "rcWord i < length b \<Longrightarrow> ?thesis"
    by (auto simp: bmGet_bit bmClr_def rcWord_def)
qed

lemma bmGet_replicate0 [simp]: "rcWord i < n \<Longrightarrow> \<not> bmGet (replicate n 0) i"
  by (simp add: bmGet_bit rcWord_def)

lemma bm_eqI:
  assumes "length a = length b"
      and "\<And>i. rcWord i < length a \<Longrightarrow> bmGet a i = bmGet b i"
  shows "a = b"
proof (rule nth_equalityI[OF assms(1)])
  fix k assume k: "k < length a"
  show "a ! k = b ! k"
  proof (rule bit_eqI)
    fix n :: nat
    assume "possible_bit TYPE(64 word) n"
    then have "n < 64" by simp
    then have "(64 * k + n) div 64 = k" "(64 * k + n) mod 64 = n" by simp_all
    with assms(2)[of "64 * k + n"] k show "bit (a ! k) n = bit (b ! k) n"
      by (simp add: bmGet_bit rcWord_def)
  qed
qed

section \<open>The set bits of a word, lowest first (the \<open>ctz\<close> loops)\<close>

definition setBits :: "64 word \<Rightarrow> nat list" where
  "setBits w = filter (bit w) [0..<64]"

lemma setBits_mem [simp]: "n \<in> set (setBits w) \<longleftrightarrow> bit w n"
  using bit_imp_le_length[of w n] by (auto simp: setBits_def)

lemma setBits_distinct [simp]: "distinct (setBits w)"
  by (simp add: setBits_def)

lemma setBits_lt: "n \<in> set (setBits w) \<Longrightarrow> n < 64"
  by (simp add: setBits_def)

lemma setBits_0 [simp]: "setBits 0 = []"
  by (simp add: setBits_def)

lemma setBits_Nil: "setBits w = [] \<longleftrightarrow> w = 0"
proof
  assume "setBits w = []"
  then have "\<And>n. \<not> bit w n" using setBits_mem[of _ w] by auto
  then show "w = 0" by (simp add: bit_eq_iff)
qed simp

section \<open>Lists\<close>

lemma nth_list_update_if: "i < length xs \<Longrightarrow> xs[i := v] ! j = (if j = i then v else xs ! j)"
  by simp

lemma sum_list_map_upd_distinct:
  fixes f g :: "'a \<Rightarrow> int"
  assumes "distinct xs" "x \<in> set xs" "\<And>y. y \<in> set xs \<Longrightarrow> y \<noteq> x \<Longrightarrow> g y = f y"
  shows "sum_list (map g xs) = sum_list (map f xs) + (g x - f x)"
  using assms
proof (induction xs)
  case (Cons a xs)
  show ?case
  proof (cases "a = x")
    case True
    with Cons.prems have "map g xs = map f xs" by (intro map_cong) auto
    then show ?thesis using True by (simp del: map_eq_conv)
  next
    case False
    with Cons show ?thesis by auto
  qed
qed simp

end
