(* ===== verification/Rc_Layout.thy ===== *)
theory Rc_Layout
  imports Prelude
begin

text \<open>
  Slot geometry of the reclamation runtime (the text array \<open>RECLAIM_RT\<close> of
  \<open>src/back/reclaim.c\<close>): the configuration constants, the rounding of a payload to a slot
  (\<open>extc_rc_slotSize\<close>), the chunk a slab hands out (\<open>extc_rc_slabNew\<close>), the reciprocal division
  that turns an offset into a slot number (\<open>extc_rc_rcpOf\<close>, \<open>extc_rc_slotOfOff\<close>) and the bucket
  of a size class. \<open>size_t\<close> is 64 bits wide; \<open>sizeof(ExtcRcSlab)\<close> is its LP64 value.
\<close>

section \<open>Constants\<close>

definition RC_SLAB_BITS :: nat where "RC_SLAB_BITS = 20"
definition RC_SLAB_SIZE :: nat where "RC_SLAB_SIZE = 2 ^ RC_SLAB_BITS"
definition RC_SIZEOF_SLAB :: nat where "RC_SIZEOF_SLAB = 192"
definition RC_SLAB_HDR :: nat where
  "RC_SLAB_HDR = (RC_SIZEOF_SLAB + 63) div 64 * 64"
definition RC_CHUNK_MIN :: nat where "RC_CHUNK_MIN = 64 * 1024"
definition RC_SLOTS_MIN :: nat where "RC_SLOTS_MIN = 1024"
definition RC_REUSE_MAX_SLOT :: nat where "RC_REUSE_MAX_SLOT = 0xFFFE"
definition RC_RCP_SHIFT :: nat where "RC_RCP_SHIFT = 42"
definition RC_HOLD_SAT :: nat where "RC_HOLD_SAT = 65535"
definition RC_FLOOR :: int where "RC_FLOOR = 2 ^ 20"
definition RC_SCALE_MAX :: int where "RC_SCALE_MAX = 2 ^ 40"
definition RC_SCALE_MUL :: int where "RC_SCALE_MUL = 4"
definition RC_CLS_BUCKETS :: nat where "RC_CLS_BUCKETS = 32"

lemmas layout_consts = RC_SLAB_BITS_def RC_SLAB_SIZE_def RC_SIZEOF_SLAB_def RC_SLAB_HDR_def
  RC_CHUNK_MIN_def RC_SLOTS_MIN_def RC_REUSE_MAX_SLOT_def RC_RCP_SHIFT_def

section \<open>From a pointer to its slab and slot\<close>

text \<open>\<open>p & ~(SLAB_SIZE - 1)\<close>, the address of the aligned block that holds \<open>p\<close>.\<close>

definition slabOf :: "addr \<Rightarrow> addr" where
  "slabOf p = p - p mod RC_SLAB_SIZE"

definition rcpOf :: "nat \<Rightarrow> nat" where
  "rcpOf ss = 2 ^ RC_RCP_SHIFT div ss + 1"

text \<open>\<open>(uint64_t)off * s->rcp >> 42\<close>, the product taken modulo \<open>2 ^ 64\<close>.\<close>

definition slotOfRcp :: "nat \<Rightarrow> nat \<Rightarrow> nat" where
  "slotOfRcp rcp off = (off * rcp) mod 2 ^ 64 div 2 ^ RC_RCP_SHIFT"

lemma rcp_exact_nat:
  fixes off ss :: nat
  assumes "0 < ss" "ss \<le> 2 ^ 20" "off < 2 ^ 20"
  shows "(off * (2 ^ 42 div ss + 1)) div 2 ^ 42 = off div ss"
proof (rule div_nat_eqI)
  let ?Q = "2 ^ 42 div ss + 1 :: nat"
  define e where "e = ss - 2 ^ 42 mod ss"
  have "ss * (2 ^ 42 div ss) + 2 ^ 42 mod ss = 2 ^ 42" by (rule mult_div_mod_eq)
  moreover have "2 ^ 42 mod ss < ss" using assms(1) by (rule mod_less_divisor)
  ultimately have Q: "ss * ?Q = 2 ^ 42 + e"
    unfolding e_def distrib_left by linarith
  have e: "e \<le> 2 ^ 20" using assms(2) by (simp add: e_def)
  have "ss * (2 ^ 42 * (off div ss)) \<le> 2 ^ 42 * off" by simp
  also have "\<dots> \<le> off * (ss * ?Q)" unfolding Q by (simp add: algebra_simps)
  also have "\<dots> = ss * (off * ?Q)" by (simp only: mult.left_commute)
  finally show "2 ^ 42 * (off div ss) \<le> off * ?Q"
    using assms(1) by (simp only: mult_le_cancel1)
  have "off + 1 \<le> ss * Suc (off div ss)"
    using assms(1) dividend_less_times_div[of ss off] by (simp add: algebra_simps)
  then have B: "(off + 1) * 2 ^ 42 \<le> ss * (2 ^ 42 * Suc (off div ss))"
    by (metis mult.assoc mult.commute mult_le_mono1)
  have "off * e \<le> 2 ^ 20 * 2 ^ 20" using assms(3) e by (intro mult_le_mono) auto
  then have "off * e < 2 ^ 42" by simp
  then have "off * (ss * ?Q) < (off + 1) * 2 ^ 42" unfolding Q by (simp add: algebra_simps)
  then have "ss * (off * ?Q) < (off + 1) * 2 ^ 42" by (simp only: mult.left_commute)
  from less_le_trans[OF this B]
  have "ss * (off * ?Q) < ss * (2 ^ 42 * Suc (off div ss))" .
  then show "off * ?Q < 2 ^ 42 * Suc (off div ss)"
    using mult_less_cancel1 by blast
qed

lemma slotOfRcp_exact:
  assumes "16 \<le> ss" "ss \<le> RC_SLAB_SIZE" "off < RC_SLAB_SIZE"
  shows "slotOfRcp (rcpOf ss) off = off div ss"
proof -
  have ss: "ss \<le> 2 ^ 20" "off < 2 ^ 20" using assms by (simp_all add: layout_consts)
  have "2 ^ 42 div ss \<le> 2 ^ 42 div 16" using assms(1) by (intro div_le_mono2) auto
  then have "off * (2 ^ 42 div ss + 1) \<le> 2 ^ 20 * (2 ^ 38 + 1)"
    using ss(2) by (intro mult_le_mono) auto
  then have "off * (2 ^ 42 div ss + 1) < 2 ^ 64" by simp
  moreover have "(off * (2 ^ 42 div ss + 1)) div 2 ^ 42 = off div ss"
    using assms(1) ss by (intro rcp_exact_nat) auto
  ultimately show ?thesis
    by (simp add: slotOfRcp_def rcpOf_def RC_RCP_SHIFT_def)
qed

lemma slabOf_add:
  assumes "a mod RC_SLAB_SIZE = 0" "d < RC_SLAB_SIZE"
  shows "slabOf (a + d) = a"
proof -
  have "(a + d) mod RC_SLAB_SIZE = d" using assms by (metis mod_add_left_eq add_0 mod_less)
  then show ?thesis by (simp add: slabOf_def)
qed

lemma slabOf_le: "slabOf p \<le> p"
  by (simp add: slabOf_def)

lemma slabOf_aligned: "slabOf p mod RC_SLAB_SIZE = 0"
  by (simp add: slabOf_def minus_mod_eq_mult_div)

lemma slabOf_bound: "p < slabOf p + RC_SLAB_SIZE"
proof -
  have "p mod RC_SLAB_SIZE < RC_SLAB_SIZE" by (simp add: layout_consts)
  then show ?thesis by (simp add: slabOf_def)
qed

section \<open>The size of a slot\<close>

text \<open>None is the trap \<open>slot size overflow\<close>.\<close>

definition slotSize :: "64 word \<Rightarrow> 64 word option" where
  "slotSize n = (let s = (n + 7) AND NOT 7 in
     if s \<le> 16 \<and> n > 16 then None
     else Some (if s > 16 then s else 16))"

lemma and_not7_unat: "unat ((x :: 64 word) AND NOT 7) = unat x - unat x mod 8"
proof -
  have "(x AND NOT (mask 3)) = x - (x AND mask 3)"
    by (subst disjunctive_diff_eq_and_not) (auto simp: bit_eq_iff bit_simps)
  moreover have "x AND mask 3 \<le> x" by (simp add: word_and_le2)
  ultimately have "unat (x AND NOT (mask 3)) = unat x - unat (x AND mask 3)"
    by (simp add: unat_sub)
  moreover have "unat (x AND mask 3) = unat x mod 8"
    by (simp add: unat_mod_distrib take_bit_eq_mod flip: take_bit_eq_mask)
  ultimately show ?thesis by (simp add: mask_numeral)
qed

section \<open>How many slots a slab hands out\<close>

text \<open>The doubling loop of \<open>extc_rc_slabNew\<close>: from 64 KiB up until 1024 slots fit.\<close>

function chunkGrow :: "nat \<Rightarrow> nat \<Rightarrow> nat" where
  "chunkGrow ss chunk =
    (if 0 < chunk \<and> chunk < RC_SLAB_SIZE \<and> chunk div ss < RC_SLOTS_MIN
     then chunkGrow ss (chunk * 2) else chunk)"
  by pat_completeness auto
termination
  by (relation "measure (\<lambda>(ss, chunk). RC_SLAB_SIZE - chunk)") auto

declare chunkGrow.simps [simp del]

definition slabChunk :: "nat \<Rightarrow> nat" where
  "slabChunk ss = chunkGrow ss (if RC_CHUNK_MIN > RC_SLAB_SIZE then RC_SLAB_SIZE else RC_CHUNK_MIN)"

definition slabCap :: "nat \<Rightarrow> nat" where
  "slabCap ss = (slabChunk ss - RC_SLAB_HDR) div ss"

definition slabBig :: "nat \<Rightarrow> bool" where
  "slabBig ss = (slabCap ss < 2)"

definition slabSlots :: "nat \<Rightarrow> nat" where
  "slabSlots ss = (if slabBig ss then 1 else slabCap ss)"

definition slabWords :: "nat \<Rightarrow> nat" where
  "slabWords nslots = (nslots + 63) div 64"

text \<open>The hash bucket of a size class: the top five bits of \<open>(ss >> 3) * phi\<close>.\<close>

definition classBucket :: "nat \<Rightarrow> nat" where
  "classBucket ss = (ss div 8 * 0x9E3779B97F4A7C15) mod 2 ^ 64 div 2 ^ 59"

lemma classBucket_lt: "classBucket ss < RC_CLS_BUCKETS"
proof -
  have "(ss div 8 * 0x9E3779B97F4A7C15) mod 2 ^ 64 < (2 :: nat) ^ 64" by simp
  then show ?thesis unfolding classBucket_def RC_CLS_BUCKETS_def
    by (intro less_mult_imp_div_less) simp
qed

lemma chunk_cases:
  "slabChunk ss = 65536 \<and> 65536 div ss \<ge> 1024 \<or>
   slabChunk ss = 131072 \<and> 131072 div ss \<ge> 1024 \<and> 65536 div ss < 1024 \<or>
   slabChunk ss = 262144 \<and> 262144 div ss \<ge> 1024 \<and> 131072 div ss < 1024 \<or>
   slabChunk ss = 524288 \<and> 524288 div ss \<ge> 1024 \<and> 262144 div ss < 1024 \<or>
   slabChunk ss = 1048576 \<and> 524288 div ss < 1024"
  by (auto simp: slabChunk_def chunkGrow.simps[of ss 65536] chunkGrow.simps[of ss 131072]
      chunkGrow.simps[of ss 262144] chunkGrow.simps[of ss 524288] chunkGrow.simps[of ss 1048576]
      layout_consts)

lemma slabWords_enough: "i < n \<Longrightarrow> rcWord i < slabWords n"
  by (simp add: rcWord_def slabWords_def)

end
