(* ===== verification/Open_Addressing.thy ===== *)
theory Open_Addressing
  imports Prelude "HOL-Library.Multiset"
begin

text \<open>
  Linear-probing tables without tombstones, the shape of the slab registry, the pin table, the
  type-number index of a slab (all in \<open>src/back/reclaim.c\<close>) and the node table of
  \<open>src/plan/results.c\<close>: the probe loop, the insertion into a free cell, Knuth's back-shift
  deletion and the rehash into a larger table. The capacity is a power of two, so the ring step
  is \<open>(i + 1) & (cap - 1)\<close>. A loop that does not end within \<open>cap\<close> steps never ends; such a run
  is the value None, and the lemmas show that it does not occur in a table with a free cell.
\<close>

section \<open>The ring of cells\<close>

definition ringNext :: "nat \<Rightarrow> nat \<Rightarrow> nat" where
  "ringNext cap i = (i + 1) AND (cap - 1)"

definition ringDist :: "nat \<Rightarrow> nat \<Rightarrow> nat \<Rightarrow> nat" where
  "ringDist cap a b = (if a \<le> b then b - a else b + cap - a)"

definition pow2 :: "nat \<Rightarrow> bool" where
  "pow2 cap \<longleftrightarrow> (\<exists>n. cap = 2 ^ n)"

lemma and_pow2: "pow2 cap \<Longrightarrow> x AND (cap - 1) = x mod cap"
  by (metis mask_eq_exp_minus_1 pow2_def take_bit_eq_mask take_bit_eq_mod)

lemma pow2_pos: "pow2 cap \<Longrightarrow> 0 < cap"
  by (auto simp: pow2_def)

lemma and_pow2_lt: "pow2 cap \<Longrightarrow> x AND (cap - 1) < cap"
  using pow2_pos[of cap] by (simp only: and_pow2) simp

lemma pow2_double: "pow2 cap \<Longrightarrow> pow2 (cap * 2)"
  unfolding pow2_def by (metis power_Suc2)

lemma ringNext_if:
  assumes "pow2 cap" "i < cap"
  shows "ringNext cap i = (if i + 1 = cap then 0 else i + 1)"
  using assms unfolding ringNext_def and_pow2[OF assms(1)] by auto

lemma ringNext_lt: "pow2 cap \<Longrightarrow> ringNext cap i < cap"
  using pow2_pos[of cap] unfolding ringNext_def by (simp only: and_pow2) simp

lemma ringDist_lt: "a < cap \<Longrightarrow> b < cap \<Longrightarrow> ringDist cap a b < cap"
  by (auto simp: ringDist_def)

lemma ringDist_0: "a < cap \<Longrightarrow> b < cap \<Longrightarrow> ringDist cap a b = 0 \<longleftrightarrow> a = b"
  by (auto simp: ringDist_def)

lemma ringDist_next:
  assumes "pow2 cap" "i < cap" "z < cap" "z \<noteq> i"
  shows "ringDist cap i z = Suc (ringDist cap (ringNext cap i) z)"
  using assms by (auto simp: ringNext_if ringDist_def)

section \<open>The loops\<close>

type_synonym 'e table = "'e option list"

text \<open>\<open>while (tab[i] && key(tab[i]) != k) i = (i + 1) & (cap - 1);\<close>\<close>

fun oaProbe :: "('e \<Rightarrow> 'k) \<Rightarrow> 'e table \<Rightarrow> 'k \<Rightarrow> nat \<Rightarrow> nat \<Rightarrow> nat option" where
  "oaProbe key tab k i 0 = None"
| "oaProbe key tab k i (Suc n) =
    (case tab ! i of
       None \<Rightarrow> Some i
     | Some e \<Rightarrow> if key e = k then Some i
                 else oaProbe key tab k (ringNext (length tab) i) n)"

text \<open>\<open>while (tab[j]) j = (j + 1) & (cap - 1);\<close>\<close>

fun oaFree :: "'e table \<Rightarrow> nat \<Rightarrow> nat \<Rightarrow> nat option" where
  "oaFree tab i 0 = None"
| "oaFree tab i (Suc n) =
    (case tab ! i of
       None \<Rightarrow> Some i
     | Some e \<Rightarrow> oaFree tab (ringNext (length tab) i) n)"

text \<open>Back-shift deletion; \<open>move hole j h\<close> decides whether the entry in cell \<open>j\<close>, whose probe
  starts at \<open>h\<close>, moves into the hole.\<close>

fun oaErase :: "(nat \<Rightarrow> nat \<Rightarrow> nat \<Rightarrow> bool) \<Rightarrow> ('e \<Rightarrow> nat) \<Rightarrow> 'e table \<Rightarrow> nat \<Rightarrow> nat \<Rightarrow> nat
    \<Rightarrow> 'e table option" where
  "oaErase move home tab hole j 0 = None"
| "oaErase move home tab hole j (Suc n) =
    (let j' = ringNext (length tab) j in
     case tab ! j' of
       None \<Rightarrow> Some (tab[hole := None])
     | Some e \<Rightarrow> if move hole j' (home e)
                 then oaErase move home (tab[hole := Some e]) j' j' n
                 else oaErase move home tab hole j' n)"

text \<open>The rehash: every entry of the old table, in cell order, goes to the first free cell of
  the new one.\<close>

fun oaRehash :: "('e \<Rightarrow> nat) \<Rightarrow> 'e table \<Rightarrow> 'e table \<Rightarrow> 'e table option" where
  "oaRehash home [] nt = Some nt"
| "oaRehash home (None # ts) nt = oaRehash home ts nt"
| "oaRehash home (Some e # ts) nt =
    (case oaFree nt (home e) (length nt) of
       None \<Rightarrow> None
     | Some j \<Rightarrow> oaRehash home ts (nt[j := Some e]))"

section \<open>What a table holds\<close>

definition entries :: "'e table \<Rightarrow> 'e list" where
  "entries tab = List.map_filter id tab"

lemma entries_simps [simp]:
  "entries [] = []"
  "entries (None # t) = entries t"
  "entries (Some e # t) = e # entries t"
  by (simp_all add: entries_def List.map_filter_def)

lemma entries_append [simp]: "entries (a @ b) = entries a @ entries b"
  by (simp add: entries_def List.map_filter_def)

lemma entries_replicate [simp]: "entries (replicate n None) = []"
  by (induction n) auto

lemma entries_mem: "e \<in> set (entries tab) \<longleftrightarrow> Some e \<in> set tab"
  by (force simp: entries_def List.map_filter_def)

lemma entries_le: "length (entries tab) \<le> length tab"
  by (simp add: entries_def List.map_filter_def)

lemma entries_full: "None \<notin> set tab \<Longrightarrow> length (entries tab) = length tab"
  by (induction tab) (auto simp: option.collapse split: option.splits, metis entries_simps(3) length_Cons not_Some_eq)

lemma free_cell:
  assumes "length (entries tab) < length tab"
  obtains z where "z < length tab" "tab ! z = None"
  using assms entries_full[of tab] by (metis in_set_conv_nth nat_neq_iff)

lemma mset_entries: "mset (entries tab) = image_mset the (filter_mset (\<lambda>x. x \<noteq> None) (mset tab))"
  by (simp add: entries_def List.map_filter_def o_def flip: mset_filter mset_map)

lemma entries_upd_None:
  assumes "j < length tab" "tab ! j = None"
  shows "mset (entries (tab[j := Some e])) = add_mset e (mset (entries tab))"
  using assms by (simp add: mset_entries mset_update)

lemma entries_del:
  assumes "j < length tab" "tab ! j = Some e"
  shows "mset (entries tab) = add_mset e (mset (entries (tab[j := None])))"
proof -
  have "tab = (tab[j := None])[j := Some e]" using assms by (metis list_update_id list_update_overwrite)
  then have "mset (entries tab) = mset (entries ((tab[j := None])[j := Some e]))" by simp
  also have "\<dots> = add_mset e (mset (entries (tab[j := None])))"
    by (rule entries_upd_None) (use assms in simp_all)
  finally show ?thesis .
qed

section \<open>A probe start per key\<close>

text \<open>\<open>wfTab\<close>: no free cell lies on the ring between an entry's probe start and its cell, and
  the keys are distinct.\<close>

definition wfPath :: "('e \<Rightarrow> nat) \<Rightarrow> 'e table \<Rightarrow> bool" where
  "wfPath home tab \<longleftrightarrow> (\<forall>y<length tab. \<forall>e. tab ! y = Some e \<longrightarrow>
     (\<forall>z<length tab. ringDist (length tab) (home e) z < ringDist (length tab) (home e) y
        \<longrightarrow> tab ! z \<noteq> None))"

definition wfTab :: "('e \<Rightarrow> 'k) \<Rightarrow> ('k \<Rightarrow> nat \<Rightarrow> nat) \<Rightarrow> 'e table \<Rightarrow> bool" where
  "wfTab key hash tab \<longleftrightarrow> pow2 (length tab) \<and>
     wfPath (\<lambda>e. hash (key e) (length tab)) tab \<and>
     distinct (map key (entries tab))"

definition tabLookup :: "('e \<Rightarrow> 'k) \<Rightarrow> 'e table \<Rightarrow> 'k \<Rightarrow> 'e option" where
  "tabLookup key tab k = find (\<lambda>e. key e = k) (entries tab)"

lemma distinct_keys_eq:
  assumes "distinct (map key xs)" "a \<in> set xs" "b \<in> set xs" "key a = key b"
  shows "a = b"
  using assms by (auto simp: distinct_map inj_on_def)

lemma tabLookup_Some:
  assumes "distinct (map key (entries tab))"
  shows "tabLookup key tab k = Some e \<longleftrightarrow> Some e \<in> set tab \<and> key e = k"
proof
  assume "tabLookup key tab k = Some e"
  then have "e \<in> set (entries tab) \<and> key e = k"
    by (auto simp: tabLookup_def find_Some_iff)
  then show "Some e \<in> set tab \<and> key e = k" by (simp add: entries_mem)
next
  assume a: "Some e \<in> set tab \<and> key e = k"
  then have e: "e \<in> set (entries tab)" by (simp add: entries_mem)
  obtain e' where e': "tabLookup key tab k = Some e'"
    using a e by (cases "tabLookup key tab k") (auto simp: tabLookup_def find_None_iff)
  then have "e' \<in> set (entries tab) \<and> key e' = k"
    by (auto simp: tabLookup_def find_Some_iff)
  with a e assms e' show "tabLookup key tab k = Some e"
    using distinct_keys_eq[of key "entries tab" e' e] by simp
qed

lemma tabLookup_None: "tabLookup key tab k = None \<longleftrightarrow> (\<forall>e. Some e \<in> set tab \<longrightarrow> key e \<noteq> k)"
  by (auto simp: tabLookup_def find_None_iff entries_mem)

section \<open>The loops, independent of the hash\<close>

lemma probe_sound:
  assumes "pow2 (length tab)" "i < length tab" "oaProbe key tab k i n = Some j"
  shows "j < length tab \<and> (\<forall>e. tab ! j = Some e \<longrightarrow> key e = k) \<and>
    (\<forall>z<length tab. ringDist (length tab) i z < ringDist (length tab) i j
       \<longrightarrow> (\<exists>e. tab ! z = Some e \<and> key e \<noteq> k))"
  using assms
proof (induction n arbitrary: i)
  case (Suc n)
  let ?c = "length tab"
  show ?case
  proof (cases "tab ! i = None \<or> (\<exists>e. tab ! i = Some e \<and> key e = k)")
    case True
    then have "j = i" using Suc.prems(3) by (auto split: option.splits)
    then show ?thesis using True Suc.prems(2) by (auto simp: ringDist_def)
  next
    case False
    then obtain e where e: "tab ! i = Some e" "key e \<noteq> k" by auto
    let ?i = "ringNext ?c i"
    have r: "oaProbe key tab k ?i n = Some j" using Suc.prems(3) e by simp
    note IH = Suc.IH[OF Suc.prems(1) ringNext_lt[OF Suc.prems(1)] r]
    have "j \<noteq> i" using IH e by auto
    then have dj: "ringDist ?c i j = Suc (ringDist ?c ?i j)"
      using IH Suc.prems(1,2) ringDist_next by blast
    have "tab ! z \<noteq> None \<and> (\<forall>e. tab ! z = Some e \<longrightarrow> key e \<noteq> k)"
      if z: "z < ?c" "ringDist ?c i z < ringDist ?c i j" for z
    proof (cases "z = i")
      case False
      then have "ringDist ?c ?i z < ringDist ?c ?i j"
        using z dj ringDist_next[OF Suc.prems(1,2) z(1)] by simp
      then show ?thesis using IH z(1) by auto
    qed (use e in auto)
    then show ?thesis using IH by blast
  qed
qed simp

lemma probe_total:
  assumes "pow2 (length tab)" "i < length tab" "z < length tab" "tab ! z = None"
      and "ringDist (length tab) i z < n"
  shows "\<exists>j. oaProbe key tab k i n = Some j"
  using assms
proof (induction n arbitrary: i)
  case (Suc n)
  show ?case
  proof (cases "z = i")
    case False
    have "ringDist (length tab) (ringNext (length tab) i) z < n"
      using Suc.prems ringDist_next[OF Suc.prems(1,2,3) False] by simp
    from Suc.IH[OF Suc.prems(1) ringNext_lt[OF Suc.prems(1)] Suc.prems(3,4) this]
    show ?thesis by (simp split: option.splits)
  qed (use Suc.prems in simp)
qed simp

text \<open>The free-cell loop is the probe for a key no entry has.\<close>

lemma oaFree_probe: "oaFree tab i n = oaProbe (\<lambda>_. False) tab True i n"
  by (induction tab i n rule: oaFree.induct) (simp_all split: option.splits)

lemma wfPath_insert:
  assumes "wfPath home tab" "j < length tab" "tab ! j = None"
      and "\<forall>z<length tab. ringDist (length tab) (home e) z < ringDist (length tab) (home e) j
             \<longrightarrow> tab ! z \<noteq> None"
  shows "wfPath home (tab[j := Some e])"
  using assms unfolding wfPath_def by (auto simp: nth_list_update)

section \<open>Tables over a hash\<close>

locale hash_home =
  fixes key :: "'e \<Rightarrow> 'k" and hash :: "'k \<Rightarrow> nat \<Rightarrow> nat"
  assumes hash_lt: "pow2 cap \<Longrightarrow> hash k cap < cap"
begin

lemma find_total:
  assumes "pow2 (length tab)" "length (entries tab) < length tab"
  shows "\<exists>j. oaProbe key tab k (hash k (length tab)) (length tab) = Some j"
proof -
  obtain z where "z < length tab" "tab ! z = None" using free_cell[OF assms(2)] .
  then show ?thesis
    by (intro probe_total[OF assms(1) hash_lt[OF assms(1)]] ringDist_lt hash_lt[OF assms(1)])
qed

lemma find_sound:
  assumes wf: "wfTab key hash tab"
      and f: "oaProbe key tab k (hash k (length tab)) n = Some j"
  shows "j < length tab \<and> tab ! j = tabLookup key tab k"
proof -
  let ?c = "length tab" and ?h = "hash k (length tab)"
  have p2: "pow2 ?c" and pa: "wfPath (\<lambda>e. hash (key e) ?c) tab"
    and dk: "distinct (map key (entries tab))" using wf by (auto simp: wfTab_def)
  note h = hash_lt[OF p2, of k]
  note ps = probe_sound[OF p2 h f]
  show ?thesis
  proof (cases "tab ! j")
    case (Some e)
    then have "Some e \<in> set tab \<and> key e = k" using ps by (metis nth_mem)
    then show ?thesis using ps Some tabLookup_Some[OF dk] by metis
  next
    case None
    have "\<not> (Some e \<in> set tab \<and> key e = k)" for e
    proof
      assume e: "Some e \<in> set tab \<and> key e = k"
      then obtain y where y: "y < ?c" "tab ! y = Some e" by (metis in_set_conv_nth)
      have "\<not> ringDist ?c ?h y < ringDist ?c ?h j" using ps y e by force
      moreover have "\<not> ringDist ?c ?h j < ringDist ?c ?h y"
        using pa y e None ps unfolding wfPath_def by metis
      ultimately have "ringDist ?c ?h y = ringDist ?c ?h j" by simp
      then have "y = j" using h y(1) ps by (auto simp: ringDist_def split: if_splits)
      then show False using y None by simp
    qed
    then have "tabLookup key tab k = None" by (auto simp: tabLookup_None)
    then show ?thesis using ps None by simp
  qed
qed

lemma insert_new:
  assumes wf: "wfTab key hash tab" and new: "tabLookup key tab (key e) = None"
      and f: "oaProbe key tab (key e) (hash (key e) (length tab)) n = Some j"
  shows "wfTab key hash (tab[j := Some e])"
    and "mset (entries (tab[j := Some e])) = add_mset e (mset (entries tab))"
    and "tab ! j = None"
proof -
  let ?c = "length tab" and ?t = "tab[j := Some e]"
  have p2: "pow2 ?c" and pa: "wfPath (\<lambda>e. hash (key e) ?c) tab"
    and dk: "distinct (map key (entries tab))" using wf by (auto simp: wfTab_def)
  show free: "tab ! j = None" using find_sound[OF wf f] new by simp
  have j: "j < ?c" using find_sound[OF wf f] by simp
  show m: "mset (entries ?t) = add_mset e (mset (entries tab))"
    by (rule entries_upd_None[OF j free])
  have "wfPath (\<lambda>e. hash (key e) ?c) ?t"
    using probe_sound[OF p2 hash_lt[OF p2] f] by (intro wfPath_insert[OF pa j free]) force
  moreover have "distinct (map key (entries ?t))"
  proof -
    have "mset (map key (entries ?t)) = mset (map key (e # entries tab))" using m by simp
    moreover have "distinct (map key (e # entries tab))"
      using dk new by (auto simp: tabLookup_None entries_mem)
    ultimately show ?thesis by (metis mset_eq_imp_distinct_iff)
  qed
  ultimately show "wfTab key hash ?t" using p2 by (simp add: wfTab_def)
qed

lemma free_insert:
  assumes wf: "wfTab key hash t" and room: "length (entries t) < length t"
      and new: "key e \<notin> key ` set (entries t)"
  shows "\<exists>j. oaFree t (hash (key e) (length t)) (length t) = Some j \<and>
           wfTab key hash (t[j := Some e]) \<and>
           mset (entries (t[j := Some e])) = add_mset e (mset (entries t))"
proof -
  let ?c = "length t" and ?h = "hash (key e) (length t)"
  have p2: "pow2 ?c" and pa: "wfPath (\<lambda>e. hash (key e) ?c) t"
    and dk: "distinct (map key (entries t))" using wf by (auto simp: wfTab_def)
  obtain z where z: "z < ?c" "t ! z = None" using free_cell[OF room] .
  have h: "?h < ?c" by (rule hash_lt[OF p2])
  from probe_total[OF p2 h z ringDist_lt[OF h z(1)], where key = "\<lambda>_. False" and k = True]
  obtain j where j: "oaFree t ?h ?c = Some j" unfolding oaFree_probe by blast
  have pr: "j < ?c \<and> (\<forall>e. t ! j = Some e \<longrightarrow> False = True) \<and>
      (\<forall>z<?c. ringDist ?c ?h z < ringDist ?c ?h j \<longrightarrow> (\<exists>e. t ! z = Some e \<and> False \<noteq> True))"
    by (rule probe_sound[OF p2 hash_lt[OF p2] j[unfolded oaFree_probe]])
  then have fr: "t ! j = None" by (cases "t ! j") auto
  have m: "mset (entries (t[j := Some e])) = add_mset e (mset (entries t))"
    using pr fr by (simp add: entries_upd_None)
  have "wfPath (\<lambda>e. hash (key e) ?c) (t[j := Some e])"
    by (rule wfPath_insert[OF pa _ fr]) (use pr in auto)
  moreover have "distinct (map key (entries (t[j := Some e])))"
  proof -
    have "mset (map key (entries (t[j := Some e]))) = mset (map key (e # entries t))" using m by simp
    moreover have "distinct (map key (e # entries t))" using dk new by auto
    ultimately show ?thesis by (metis mset_eq_imp_distinct_iff)
  qed
  ultimately show ?thesis using j m p2 by (auto simp: wfTab_def)
qed

lemma rehash_ok:
  assumes "length nt = c" "wfTab key hash nt" "distinct (map key (entries nt @ entries ts))"
      and "length (entries nt) + length (entries ts) < c"
  shows "\<exists>nt'. oaRehash (\<lambda>e. hash (key e) c) ts nt = Some nt' \<and> wfTab key hash nt' \<and>
           length nt' = c \<and> mset (entries nt') = mset (entries nt) + mset (entries ts)"
  using assms
proof (induction ts arbitrary: nt)
  case (Cons x ts)
  show ?case
  proof (cases x)
    case None
    then show ?thesis using Cons by simp
  next
    case (Some e)
    have "length (entries nt) < length nt" "key e \<notin> key ` set (entries nt)"
      using Cons.prems(1,3,4) Some by auto
    from free_insert[OF Cons.prems(2) this] Cons.prems(1) obtain j where
      j: "oaFree nt (hash (key e) c) c = Some j" and w: "wfTab key hash (nt[j := Some e])"
      and m: "mset (entries (nt[j := Some e])) = add_mset e (mset (entries nt))" by auto
    have "mset (map key (entries (nt[j := Some e]) @ entries ts)) =
        mset (map key (entries nt @ entries (x # ts)))" using m Some by simp
    then have d: "distinct (map key (entries (nt[j := Some e]) @ entries ts))"
      using Cons.prems(3) by (metis mset_eq_imp_distinct_iff)
    have "length (entries (nt[j := Some e])) = Suc (length (entries nt))"
      using m by (metis size_add_mset size_mset)
    then have "length (entries (nt[j := Some e])) + length (entries ts) < c"
      using Cons.prems(4) Some by simp
    from Cons.IH[OF _ w d this] Cons.prems(1) j m Some show ?thesis by simp
  qed
qed simp_all

end

section \<open>Back-shift deletion\<close>

lemma ring_step:
  "pow2 c \<Longrightarrow> i < c \<Longrightarrow> j < c \<Longrightarrow> Suc (ringDist c i j) < c \<Longrightarrow>
     ringDist c i (ringNext c j) = Suc (ringDist c i j)"
  by (auto simp: ringNext_if ringDist_def split: if_splits)

lemma ring_inj: "i < c \<Longrightarrow> a < c \<Longrightarrow> b < c \<Longrightarrow> ringDist c i a = ringDist c i b \<Longrightarrow> a = b"
  by (auto simp: ringDist_def split: if_splits)

lemma ring_through:
  "h < c \<Longrightarrow> a < c \<Longrightarrow> b < c \<Longrightarrow> ringDist c h a < ringDist c h b \<Longrightarrow> ringDist c a b \<le> ringDist c h b"
  by (auto simp: ringDist_def split: if_splits)

lemma ring_before:
  "h < c \<Longrightarrow> a < c \<Longrightarrow> b < c \<Longrightarrow> a \<noteq> b \<Longrightarrow> ringDist c a b \<le> ringDist c h b \<Longrightarrow>
     ringDist c h a < ringDist c h b"
  by (auto simp: ringDist_def split: if_splits)

lemma ring_split:
  "h < c \<Longrightarrow> a < c \<Longrightarrow> b < c \<Longrightarrow> ringDist c h a \<le> ringDist c h b \<Longrightarrow>
     ringDist c h b = ringDist c h a + ringDist c a b"
  by (auto simp: ringDist_def split: if_splits)

lemma ring_join:
  "i < c \<Longrightarrow> a < c \<Longrightarrow> y < c \<Longrightarrow> ringDist c i a + ringDist c a y < c \<Longrightarrow>
     ringDist c i y = ringDist c i a + ringDist c a y"
  by (auto simp: ringDist_def split: if_splits)

lemma ring_segment:
  assumes "i < c" "h < c" "a < c" "y < c" "z < c" "y \<noteq> z"
      and "ringDist c i a < ringDist c i z" "ringDist c h a < ringDist c h y"
      and "ringDist c h y \<le> ringDist c h z"
  shows "ringDist c i a < ringDist c i y \<and> ringDist c i y < ringDist c i z"
proof -
  have "ringDist c h y = ringDist c h a + ringDist c a y"
    "ringDist c h z = ringDist c h a + ringDist c a z"
    "ringDist c i z = ringDist c i a + ringDist c a z"
    by (rule ring_split; use assms in linarith)+
  moreover have "ringDist c h y \<noteq> ringDist c h z" using ring_inj[OF assms(2,4,5)] assms(6) by blast
  moreover have "ringDist c i z < c" by (rule ringDist_lt[OF assms(1,5)])
  ultimately show ?thesis using ring_join[OF assms(1,3,4)] assms(8,9) by linarith
qed

lemma mset_entries_move:
  assumes "hole < length t" "j < length t" "hole \<noteq> j" "t ! j = Some e"
  shows "mset (entries (t[hole := Some e, j := None])) = mset (entries (t[hole := None]))"
proof -
  let ?u = "t[hole := None]"
  have "mset (entries ?u) = add_mset e (mset (entries (?u[j := None])))"
    by (rule entries_del) (use assms in auto)
  moreover have "mset (entries (?u[j := None, hole := Some e])) =
      add_mset e (mset (entries (?u[j := None])))"
    by (rule entries_upd_None) (use assms in auto)
  moreover have "?u[j := None, hole := Some e] = t[hole := Some e, j := None]"
    using assms(3) by (metis list_update_overwrite list_update_swap)
  ultimately show ?thesis by simp
qed

text \<open>The state of the deletion when cell \<open>j\<close> has just been examined: \<open>z\<close> is the first free cell
  after the deleted one, everything in between but the hole is occupied, and only entries still
  to be examined may have the hole on their probe path.\<close>

definition eraseInv :: "('e \<Rightarrow> nat) \<Rightarrow> 'e table \<Rightarrow> nat \<Rightarrow> nat \<Rightarrow> nat \<Rightarrow> nat \<Rightarrow> bool" where
  "eraseInv home t i z hole j \<longleftrightarrow> (let c = length t; u = t[hole := None] in
     i < c \<and> z < c \<and> hole < c \<and> j < c \<and> z \<noteq> hole \<and> t ! z = None \<and>
     ringDist c i hole \<le> ringDist c i j \<and> ringDist c i j < ringDist c i z \<and>
     (\<forall>x<c. ringDist c i x < ringDist c i z \<longrightarrow> x \<noteq> hole \<longrightarrow> u ! x \<noteq> None) \<and>
     (\<forall>y<c. \<forall>e. u ! y = Some e \<longrightarrow> (\<forall>x<c. ringDist c (home e) x < ringDist c (home e) y \<longrightarrow>
        u ! x \<noteq> None \<or>
        x = hole \<and> ringDist c i j < ringDist c i y \<and> ringDist c i y < ringDist c i z)))"

lemma eraseInv_keep:
  assumes inv: "eraseInv home t i z hole j" and c: "c = length t"
      and h: "home e < c" and j': "j' < c" "ringDist c i j' = Suc (ringDist c i j)"
      and e: "t ! j' = Some e"
      and stay: "\<not> ringDist c hole j' \<le> ringDist c (home e) j'"
  shows "eraseInv home t i z hole j'"
proof -
  let ?u = "t[hole := None]"
  note I = inv[unfolded eraseInv_def Let_def, folded c]
  have ic: "i < c" "z < c" "hole < c" "j < c" using I by auto
  have "j' \<noteq> z" using I e by auto
  then have lt: "ringDist c i j' < ringDist c i z"
    using ring_inj[OF ic(1) j'(1) ic(2)] j'(2) I by fastforce
  have path: "?u ! x \<noteq> None \<or> x = hole \<and> ringDist c i j' < ringDist c i y \<and> ringDist c i y < ringDist c i z"
    if y: "y < c" "?u ! y = Some e'" and x: "x < c" "ringDist c (home e') x < ringDist c (home e') y"
    for x y e'
  proof (cases "?u ! x = None")
    case True
    then have X: "x = hole" "ringDist c i j < ringDist c i y" "ringDist c i y < ringDist c i z"
      using I y x by blast+
    have "y \<noteq> hole" using y by (metis c ic(3) nth_list_update_eq option.discI)
    have "y \<noteq> j'"
    proof
      assume "y = j'"
      then have "e' = e" using y e \<open>y \<noteq> hole\<close> by simp
      then show False using stay ring_through[OF h ic(3) j'(1)] x X \<open>y = j'\<close> by simp
    qed
    then have "ringDist c i y \<noteq> ringDist c i j'" using ring_inj[OF ic(1) y(1) j'(1)] by blast
    with X j'(2) show ?thesis by simp
  qed simp
  show ?thesis
    unfolding eraseInv_def Let_def c[symmetric] using I j' lt path by (simp add: c)
qed

lemma eraseInv_move:
  assumes inv: "eraseInv home t i z hole j" and c: "c = length t"
      and h: "\<And>e. home e < c" and j': "j' < c" "ringDist c i j' = Suc (ringDist c i j)"
      and e: "t ! j' = Some e"
      and move: "ringDist c hole j' \<le> ringDist c (home e) j'"
  shows "eraseInv home (t[hole := Some e]) i z j' j'"
proof -
  let ?u = "t[hole := None]" and ?v = "t[hole := Some e, j' := None]"
  note I = inv[unfolded eraseInv_def Let_def, folded c]
  have ic: "i < c" "z < c" "hole < c" "j < c" "z \<noteq> hole" "t ! z = None"
    and occ: "\<And>x. x < c \<Longrightarrow> ringDist c i x < ringDist c i z \<Longrightarrow> x \<noteq> hole \<Longrightarrow> ?u ! x \<noteq> None"
    and pa: "\<And>y e x. y < c \<Longrightarrow> ?u ! y = Some e \<Longrightarrow> x < c \<Longrightarrow>
        ringDist c (home e) x < ringDist c (home e) y \<Longrightarrow> x \<noteq> hole \<Longrightarrow> ?u ! x \<noteq> None"
    using I by blast+
  have "j' \<noteq> z" using ic e by auto
  then have lt: "ringDist c i j' < ringDist c i z"
    using ring_inj[OF ic(1) j'(1) ic(2)] j'(2) I by fastforce
  have hj: "hole \<noteq> j'" using I j'(2) by auto
  have v: "?v ! x = (if x = j' then None else if x = hole then Some e else ?u ! x)" if "x < c" for x
    using that hj c by (auto simp: nth_list_update)
  have path: "?v ! x \<noteq> None \<or> x = j' \<and> ringDist c i j' < ringDist c i y \<and> ringDist c i y < ringDist c i z"
    if y: "y < c" "?v ! y = Some e'" and x: "x < c" "ringDist c (home e') x < ringDist c (home e') y"
    for x y e'
  proof (cases "x = hole")
    case True
    then show ?thesis using v[OF x(1)] hj by simp
  next
    case False
    have "y \<noteq> j'" using y v[OF y(1)] by (auto split: if_splits)
    show ?thesis
    proof (cases "y = hole")
      case True
      then have e': "e' = e" using y v[OF y(1)] hj by simp
      have b: "ringDist c (home e) hole < ringDist c (home e) j'"
        by (rule ring_before[OF h ic(3) j'(1) hj move])
      have "?u ! j' = Some e" using e hj by simp
      then have "?u ! x \<noteq> None" using pa[OF j'(1) _ x(1) _ False] x b True e' by simp
      moreover have "x \<noteq> j'" using x b True e' by auto
      ultimately show ?thesis using v[OF x(1)] False by simp
    next
      case yh: False
      then have yu: "?u ! y = Some e'" using y v[OF y(1)] \<open>y \<noteq> j'\<close> by simp
      have ux: "?u ! x \<noteq> None" by (rule pa[OF y(1) yu x False])
      show ?thesis
      proof (cases "x = j'")
        case True
        have "\<not> ringDist c (home e') z < ringDist c (home e') y"
          using pa[OF y(1) yu ic(2) _ ic(5)] ic(5,6) by auto
        moreover have "y \<noteq> z" using yu ic(5,6) by auto
        ultimately have "ringDist c i j' < ringDist c i y \<and> ringDist c i y < ringDist c i z"
          using ring_segment[OF ic(1) h j'(1) y(1) ic(2) _ lt] x(2) True by simp
        then show ?thesis using True by simp
      qed (use ux v[OF x(1)] False in simp)
    qed
  qed
  have occ': "?v ! x \<noteq> None" if "x < c" "ringDist c i x < ringDist c i z" "x \<noteq> j'" for x
    using v[OF that(1)] occ[OF that(1,2)] that(3) by auto
  have z': "t[hole := Some e] ! z = None" using ic by simp
  show ?thesis
    unfolding eraseInv_def Let_def length_list_update c[symmetric]
    using ic(1,2) j'(1) lt path occ' z' \<open>j' \<noteq> z\<close> by blast
qed

lemma eraseInv_end:
  assumes inv: "eraseInv home t i z hole j" and c: "c = length t"
      and j': "j' < c" "ringDist c i j' = Suc (ringDist c i j)" "t ! j' = None"
  shows "wfPath home (t[hole := None])"
proof -
  let ?u = "t[hole := None]"
  note I = inv[unfolded eraseInv_def Let_def, folded c]
  have ic: "i < c" "z < c" using I by auto
  have "j' \<noteq> hole" using I j'(2) by auto
  then have "\<not> ringDist c i j' < ringDist c i z" using I j' by fastforce
  then have "ringDist c i z = Suc (ringDist c i j)" using I j'(2) by linarith
  then show ?thesis
    unfolding wfPath_def length_list_update c[symmetric] using I by fastforce
qed

lemma erase_loop:
  assumes "eraseInv home t i z hole j" "c = length t" "pow2 c" "\<And>e. home e < c"
      and mv: "\<And>a b h. a < c \<Longrightarrow> b < c \<Longrightarrow> h < c \<Longrightarrow> a \<noteq> b \<Longrightarrow>
                 move a b h \<longleftrightarrow> ringDist c a b \<le> ringDist c h b"
      and "ringDist c i z \<le> ringDist c i j + n"
  shows "\<exists>t'. oaErase move home t hole j n = Some t' \<and> length t' = c \<and> wfPath home t' \<and>
           mset (entries t') = mset (entries (t[hole := None]))"
  using assms(1,2,6)
proof (induction n arbitrary: t hole j)
  case 0
  then show ?case by (simp add: eraseInv_def Let_def)
next
  case (Suc n)
  note I = Suc.prems(1)[unfolded eraseInv_def Let_def, folded Suc.prems(2)]
  let ?j = "ringNext c j"
  have ic: "i < c" "z < c" "j < c" "hole < c" using I by auto
  have lt: "Suc (ringDist c i j) < c" using I ringDist_lt[OF ic(1,2)] by linarith
  have j': "?j < c" "ringDist c i ?j = Suc (ringDist c i j)"
    using ringNext_lt[OF assms(3)] ring_step[OF assms(3) ic(1,3) lt] by auto
  have hj: "hole \<noteq> ?j" using I j'(2) by auto
  have fuel: "ringDist c i z \<le> ringDist c i ?j + n" using Suc.prems(3) j'(2) by simp
  show ?case
  proof (cases "t ! ?j")
    case None
    then show ?thesis
      using eraseInv_end[OF Suc.prems(1,2) j' None] Suc.prems(2) by (simp add: Let_def)
  next
    case (Some e)
    show ?thesis
    proof (cases "move hole ?j (home e)")
      case True
      then have m: "ringDist c hole ?j \<le> ringDist c (home e) ?j"
        using mv[OF ic(4) j'(1) assms(4) hj] by simp
      have "mset (entries (t[hole := Some e, ?j := None])) = mset (entries (t[hole := None]))"
        by (rule mset_entries_move) (use ic(4) j'(1) hj Some Suc.prems(2) in auto)
      then show ?thesis
        using Suc.IH[OF eraseInv_move[OF Suc.prems(1,2) assms(4) j' Some m] _ fuel]
          True Some Suc.prems(2) by (simp add: Let_def)
    next
      case False
      then have m: "\<not> ringDist c hole ?j \<le> ringDist c (home e) ?j"
        using mv[OF ic(4) j'(1) assms(4) hj] by simp
      show ?thesis
        using Suc.IH[OF eraseInv_keep[OF Suc.prems(1,2) assms(4) j' Some m] Suc.prems(2) fuel]
          False Some Suc.prems(2) by (simp add: Let_def)
    qed
  qed
qed

lemma eraseInv_start:
  assumes wf: "wfPath home t" and c: "c = length t" and h: "\<And>e. home e < c"
      and i: "i < c" "t ! i \<noteq> None" and f: "f < c" "t ! f = None"
  shows "\<exists>z. eraseInv home t i z i i"
proof -
  define z where "z = arg_min (ringDist c i) (\<lambda>z. z < c \<and> t ! z = None)"
  have z: "z < c" "t ! z = None" and
    min: "\<And>x. x < c \<Longrightarrow> t ! x = None \<Longrightarrow> ringDist c i z \<le> ringDist c i x"
    using arg_min_nat_lemma[of "\<lambda>z. z < c \<and> t ! z = None" f "ringDist c i"] f
    unfolding z_def by auto
  have zi: "z \<noteq> i" using z i by auto
  have pos: "ringDist c i i = 0" "0 < ringDist c i z"
    using ringDist_0[OF i(1) z(1)] zi by (auto simp: ringDist_def)
  let ?u = "t[i := None]"
  have path: "?u ! x \<noteq> None \<or> x = i \<and> ringDist c i i < ringDist c i y \<and> ringDist c i y < ringDist c i z"
    if y: "y < c" "?u ! y = Some e" and x: "x < c" "ringDist c (home e) x < ringDist c (home e) y"
    for x y e
  proof (cases "x = i")
    case True
    have yi: "y \<noteq> i" using y by (metis c nth_list_update_eq option.discI)
    then have yt: "t ! y = Some e" using y by simp
    then have "\<not> ringDist c (home e) z < ringDist c (home e) y"
      using wf y(1) z unfolding wfPath_def c by blast
    moreover have "y \<noteq> z" using yt z by auto
    ultimately show ?thesis
      using ring_segment[OF i(1) h i(1) y(1) z(1)] x(2) pos True by simp
  next
    case False
    have "y \<noteq> i" using y by (metis c nth_list_update_eq option.discI)
    then have "t ! x \<noteq> None" using y x wf unfolding wfPath_def c by simp
    then show ?thesis using False by simp
  qed
  have occ: "?u ! x \<noteq> None" if "x < c" "ringDist c i x < ringDist c i z" "x \<noteq> i" for x
    using min[OF that(1)] that by force
  have "eraseInv home t i z i i"
    unfolding eraseInv_def Let_def c[symmetric]
    by (intro conjI allI impI path occ; (rule i z zi order_refl; fail)?; (use pos in simp; fail)?)
  then show ?thesis by blast
qed

text \<open>The interface of a table with deletion: a hash into the ring and a move test that moves an
  entry exactly when the hole lies on its probe path.\<close>

locale probe_table = hash_home key hash
  for key :: "'e \<Rightarrow> 'k" and hash :: "'k \<Rightarrow> nat \<Rightarrow> nat" +
  fixes move :: "nat \<Rightarrow> nat \<Rightarrow> nat \<Rightarrow> bool"
  assumes move_law: "\<And>c a b h. pow2 c \<Longrightarrow> a < c \<Longrightarrow> b < c \<Longrightarrow> h < c \<Longrightarrow> a \<noteq> b \<Longrightarrow>
      move a b h \<longleftrightarrow> ringDist c a b \<le> ringDist c h b"
begin

lemma erase_ok:
  assumes wf: "wfTab key hash tab" and room: "length (entries tab) < length tab"
      and j: "j < length tab" "tab ! j = Some e"
  shows "\<exists>t'. oaErase move (\<lambda>e. hash (key e) (length tab)) tab j j (length tab) = Some t' \<and>
           length t' = length tab \<and> wfTab key hash t' \<and>
           mset (entries tab) = add_mset e (mset (entries t'))"
proof -
  let ?c = "length tab" and ?h = "\<lambda>e. hash (key e) (length tab)"
  have p2: "pow2 ?c" and pa: "wfPath ?h tab" and dk: "distinct (map key (entries tab))"
    using wf by (auto simp: wfTab_def)
  have h: "\<And>e. ?h e < ?c" by (rule hash_lt[OF p2])
  obtain f where f: "f < ?c" "tab ! f = None" using free_cell[OF room] .
  obtain z where inv: "eraseInv ?h tab j z j j"
    using eraseInv_start[OF pa refl h j(1) _ f] j(2) by auto
  have "ringDist ?c j z \<le> ringDist ?c j j + ?c"
    using inv ringDist_lt[OF j(1), of z] unfolding eraseInv_def Let_def by linarith
  from erase_loop[OF inv refl p2 h move_law[OF p2] this]
  obtain t' where t': "oaErase move ?h tab j j ?c = Some t'" "length t' = ?c" "wfPath ?h t'"
    "mset (entries t') = mset (entries (tab[j := None]))" by blast
  have m: "mset (entries tab) = add_mset e (mset (entries t'))"
    using entries_del[OF j] t'(4) by simp
  then have "mset (map key (entries tab)) = mset (key e # map key (entries t'))" by simp
  then have "distinct (key e # map key (entries t'))" using dk by (metis mset_eq_imp_distinct_iff)
  then show ?thesis using t' m p2 by (auto simp: wfTab_def)
qed

end

text \<open>Lookups after an insertion and after a deletion, from the multisets of entries.\<close>

lemma set_entries_mset: "mset (entries a) = M \<Longrightarrow> Some e \<in> set a \<longleftrightarrow> e \<in># M"
  by (metis entries_mem set_mset_mset)

lemma tabLookup_add:
  assumes "wfTab key hash a" "wfTab key hash b"
      and "mset (entries b) = add_mset e (mset (entries a))"
  shows "tabLookup key b = (tabLookup key a)(key e \<mapsto> e)"
proof
  fix k
  have da: "distinct (map key (entries a))" and db: "distinct (map key (entries b))"
    using assms(1,2) by (auto simp: wfTab_def)
  have sb: "Some x \<in> set b \<longleftrightarrow> x = e \<or> Some x \<in> set a" for x
    using set_entries_mset[OF assms(3)] by (simp add: entries_mem)
  show "tabLookup key b k = ((tabLookup key a)(key e \<mapsto> e)) k"
  proof (cases "k = key e")
    case True
    then show ?thesis using tabLookup_Some[OF db] sb by simp
  next
    case False
    show ?thesis
    proof (cases "tabLookup key a k")
      case None
      then have "tabLookup key b k = None" using False sb by (auto simp: tabLookup_None)
      then show ?thesis using None False by simp
    next
      case (Some x)
      then show ?thesis using False sb tabLookup_Some[OF da, of k x] tabLookup_Some[OF db, of k x] by simp
    qed
  qed
qed

lemma tabLookup_del:
  assumes "wfTab key hash a" "wfTab key hash b"
      and "mset (entries b) = add_mset e (mset (entries a))"
  shows "tabLookup key a = (tabLookup key b)(key e := None)"
proof
  fix k
  have e: "tabLookup key a (key e) = None"
  proof -
    have "distinct (map key (entries b))" using assms(2) by (simp add: wfTab_def)
    moreover have "mset (map key (entries b)) = mset (key e # map key (entries a))" using assms(3) by simp
    ultimately have "distinct (key e # map key (entries a))" by (metis mset_eq_imp_distinct_iff)
    then have "key e \<notin> key ` set (entries a)" by simp
    then show ?thesis by (auto simp: tabLookup_None image_iff simp flip: entries_mem)
  qed
  show "tabLookup key a k = ((tabLookup key b)(key e := None)) k"
    using tabLookup_add[OF assms] e by simp
qed

lemma tabLookup_same:
  assumes "wfTab key hash a" "wfTab key hash' b" "mset (entries b) = mset (entries a)"
  shows "tabLookup key b = tabLookup key a"
proof
  fix k
  have "distinct (map key (entries a))" "distinct (map key (entries b))"
    using assms(1,2) by (auto simp: wfTab_def)
  moreover have "\<And>x. Some x \<in> set b \<longleftrightarrow> Some x \<in> set a"
    using set_entries_mset[OF assms(3)] by (simp add: entries_mem)
  ultimately have "tabLookup key b k = Some x \<longleftrightarrow> tabLookup key a k = Some x" for x
    by (simp add: tabLookup_Some)
  then show "tabLookup key b k = tabLookup key a k" by (metis option.exhaust)
qed

text \<open>Replacing an entry by one with the same key.\<close>

lemma replace_entry:
  assumes wf: "wfTab key hash t" and i: "i < length t" "t ! i = Some e" and k: "key e' = key e"
  shows "wfTab key hash (t[i := Some e'])"
    and "tabLookup key (t[i := Some e']) = (tabLookup key t)(key e \<mapsto> e')"
    and "length (entries (t[i := Some e'])) = length (entries t)"
    and "set (entries (t[i := Some e'])) \<subseteq> insert e' (set (entries t))"
proof -
  let ?u = "t[i := Some e']" and ?r = "entries (t[i := None])"
  have dk: "distinct (map key (entries t))" using wf by (simp add: wfTab_def)
  have m0: "mset (entries t) = add_mset e (mset ?r)" by (rule entries_del[OF i])
  have "mset (entries ((t[i := None])[i := Some e'])) = add_mset e' (mset ?r)"
    by (rule entries_upd_None) (use i(1) in auto)
  then have m1: "mset (entries ?u) = add_mset e' (mset ?r)" by simp
  have mk: "mset (map key (entries ?u)) = mset (map key (entries t))" using m0 m1 k by simp
  have dk': "distinct (map key (entries ?u))" using dk mk by (metis mset_eq_imp_distinct_iff)
  have "wfPath (\<lambda>e. hash (key e) (length t)) ?u"
    using wf i k unfolding wfTab_def wfPath_def by (auto simp: nth_list_update)
  then show "wfTab key hash ?u" using wf dk' by (simp add: wfTab_def)
  show "length (entries ?u) = length (entries t)" using m0 m1 by (metis size_add_mset size_mset)
  show "set (entries ?u) \<subseteq> insert e' (set (entries t))"
    using mset_eq_setD[OF m0[folded mset.simps(2)]] mset_eq_setD[OF m1[folded mset.simps(2)]] by auto
  have dr: "distinct (map key (e # ?r))" using dk m0 by (metis mset.simps(2) mset_eq_imp_distinct_iff mset_map)
  have mem: "Some x \<in> set ?u \<longleftrightarrow> x = e' \<or> (Some x \<in> set t \<and> key x \<noteq> key e)" for x
    using set_entries_mset[OF m1, of x] set_entries_mset[OF m0, of x] dr by (auto simp: image_iff)
  show "tabLookup key ?u = (tabLookup key t)(key e \<mapsto> e')"
  proof
    fix u
    have "tabLookup key ?u u = Some x \<longleftrightarrow> ((tabLookup key t)(key e \<mapsto> e')) u = Some x" for x
      using tabLookup_Some[OF dk', of u x] tabLookup_Some[OF dk, of u x] mem[of x] k by auto
    then show "tabLookup key ?u u = ((tabLookup key t)(key e \<mapsto> e')) u" by (metis option.exhaust)
  qed
qed

lemma wfTab_cong:
  assumes "wfTab key hash t" "\<And>e. e \<in> set (entries t) \<Longrightarrow> key' e = key e"
  shows "wfTab key' hash t"
proof -
  have "map key' (entries t) = map key (entries t)" using assms(2) by simp
  moreover have "key' e = key e" if "y < length t" "t ! y = Some e" for y e
    using assms(2) that by (metis entries_mem nth_mem)
  ultimately have "distinct (map key' (entries t))" "wfPath (\<lambda>e. hash (key' e) (length t)) t"
    using assms(1) unfolding wfTab_def wfPath_def by (metis, metis)
  then show ?thesis using assms(1) by (simp add: wfTab_def)
qed

lemma wfTab_empty: "pow2 n \<Longrightarrow> wfTab key hash (replicate n None)"
  by (simp add: wfTab_def wfPath_def)

end
