(* ===== verification/Rc_TypeTab.thy ===== *)
theory Rc_TypeTab
  imports Open_Addressing
begin

text \<open>
  The type table of a slab (\<open>extc_rc_typeIdx\<close> and its helpers in \<open>src/back/reclaim.c\<close>): the map
  between descriptor pointers and the 16-bit type numbers kept per slot. Number 0 is the null
  descriptor, number 1 the conservative one, further numbers are handed out in order of first
  use; up to eight of them are found by a linear scan, more through a probing index. A result of
  None is the trap of a full table.
\<close>

definition RC_CONSERVATIVE :: nat where "RC_CONSERVATIVE = 2 ^ 64 - 1"
definition RC_TTAB_LINEAR_MAX :: nat where "RC_TTAB_LINEAR_MAX = 8"

record ttab =
  tt_tab :: "nat list"
  tt_cap :: nat
  tt_hash :: "nat table"
  tt_lastTd :: nat
  tt_lastTid :: nat

definition ttabNew :: ttab where
  "ttabNew = \<lparr>tt_tab = [0, RC_CONSERVATIVE], tt_cap = 8, tt_hash = [], tt_lastTd = 0, tt_lastTid = 0\<rparr>"

definition ttabProbeOf :: "nat \<Rightarrow> nat \<Rightarrow> nat" where
  "ttabProbeOf td cap = ((td div 8) * 2654435761 mod 2 ^ 64) AND (cap - 1)"

definition ttabIndexBuild :: "ttab \<Rightarrow> nat \<Rightarrow> ttab option" where
  "ttabIndexBuild tt cap =
    (case oaRehash (\<lambda>k. ttabProbeOf (tt_tab tt ! k) cap)
            (map Some [2..<length (tt_tab tt)]) (replicate cap None) of
       None \<Rightarrow> None
     | Some nt \<Rightarrow> Some (tt\<lparr>tt_hash := nt\<rparr>))"

text \<open>The lookup of a descriptor: through the index when there is one, else a linear scan. The
  outer option is the loop that does not end, the inner one a descriptor not in the table.\<close>

definition ttabFind :: "ttab \<Rightarrow> nat \<Rightarrow> nat option option" where
  "ttabFind tt td =
    (if tt_hash tt \<noteq> [] then
       (case oaProbe (\<lambda>k. tt_tab tt ! k) (tt_hash tt) td
               (ttabProbeOf td (length (tt_hash tt))) (length (tt_hash tt)) of
          None \<Rightarrow> None
        | Some i \<Rightarrow> Some (tt_hash tt ! i))
     else Some (find (\<lambda>k. tt_tab tt ! k = td) [2..<length (tt_tab tt)]))"

definition ttabAppend :: "ttab \<Rightarrow> nat \<Rightarrow> ttab" where
  "ttabAppend tt td = tt\<lparr>
     tt_cap := (if length (tt_tab tt) = tt_cap tt then tt_cap tt * 2 else tt_cap tt),
     tt_tab := tt_tab tt @ [td]\<rparr>"

definition ttabIndexAdd :: "ttab \<Rightarrow> nat \<Rightarrow> nat \<Rightarrow> ttab option" where
  "ttabIndexAdd tt td k =
    (if tt_hash tt = [] then
       (if length (tt_tab tt) - 2 > RC_TTAB_LINEAR_MAX then ttabIndexBuild tt 32 else Some tt)
     else if length (tt_tab tt) - 2 > length (tt_hash tt) div 2 then
       ttabIndexBuild tt (length (tt_hash tt) * 2)
     else (case oaFree (tt_hash tt) (ttabProbeOf td (length (tt_hash tt))) (length (tt_hash tt)) of
             None \<Rightarrow> None
           | Some i \<Rightarrow> Some (tt\<lparr>tt_hash := (tt_hash tt)[i := Some k]\<rparr>)))"

definition typeIdxSlow :: "ttab \<Rightarrow> nat \<Rightarrow> (nat \<times> ttab) option" where
  "typeIdxSlow tt td =
    (case ttabFind tt td of
       None \<Rightarrow> None
     | Some (Some k) \<Rightarrow> Some (k, tt)
     | Some None \<Rightarrow>
         if length (tt_tab tt) = 0xFFFF then None
         else (let k = length (tt_tab tt)
               in case ttabIndexAdd (ttabAppend tt td) td k of
                    None \<Rightarrow> None
                  | Some tt' \<Rightarrow> Some (k, tt')))"

definition typeIdx :: "ttab \<Rightarrow> nat \<Rightarrow> (nat \<times> ttab) option" where
  "typeIdx tt td =
    (if td = 0 then Some (0, tt)
     else if td = tt_lastTd tt then Some (tt_lastTid tt, tt)
     else (case (if td = RC_CONSERVATIVE then Some (1, tt) else typeIdxSlow tt td) of
             None \<Rightarrow> None
           | Some (k, tt') \<Rightarrow> Some (k, tt'\<lparr>tt_lastTd := td, tt_lastTid := k\<rparr>)))"

definition ttType :: "ttab \<Rightarrow> nat \<Rightarrow> nat" where
  "ttType tt k = (if k \<noteq> 0 then tt_tab tt ! k else 0)"

interpretation tth: hash_home "\<lambda>k. t ! k" ttabProbeOf for t :: "nat list"
  by unfold_locales (simp only: ttabProbeOf_def and_pow2_lt)

definition ttOk :: "ttab \<Rightarrow> bool" where
  "ttOk tt \<longleftrightarrow> (let t = tt_tab tt; n = length t in
     2 \<le> n \<and> n \<le> 0xFFFF \<and> n \<le> tt_cap tt \<and> t ! 0 = 0 \<and> t ! 1 = RC_CONSERVATIVE \<and>
     distinct t \<and>
     (tt_hash tt \<noteq> [] \<longrightarrow> wfTab (\<lambda>k. t ! k) ttabProbeOf (tt_hash tt) \<and>
        set (entries (tt_hash tt)) = {2..<n} \<and> 2 * (n - 2) \<le> length (tt_hash tt)) \<and>
     (tt_hash tt = [] \<longrightarrow> n - 2 \<le> RC_TTAB_LINEAR_MAX) \<and>
     (tt_lastTd tt \<noteq> 0 \<longrightarrow> tt_lastTid tt < n \<and> tt_lastTid tt \<noteq> 0 \<and> t ! tt_lastTid tt = tt_lastTd tt))"

lemma ttOk_new: "ttOk ttabNew"
  by (simp add: ttOk_def ttabNew_def RC_CONSERVATIVE_def)

lemma entries_length:
  assumes "wfTab key hash h" "set (entries h) = {2..<n}"
  shows "length (entries h) = n - 2"
proof -
  have "distinct (entries h)" using assms(1) by (simp add: wfTab_def distinct_map)
  then show ?thesis using assms(2) distinct_card[of "entries h"] by simp
qed

lemma entries_map_Some [simp]: "entries (map Some xs) = xs"
  by (induction xs) auto

lemma ttabFind_ok:
  assumes ok: "ttOk tt" and td: "td \<noteq> 0" "td \<noteq> RC_CONSERVATIVE"
  shows "ttabFind tt td = Some (find (\<lambda>k. tt_tab tt ! k = td) [2..<length (tt_tab tt)])"
proof (cases "tt_hash tt = []")
  case False
  let ?t = "tt_tab tt" and ?h = "tt_hash tt"
  let ?f = "find (\<lambda>k. ?t ! k = td) [2..<length ?t]"
  have wf: "wfTab (\<lambda>k. ?t ! k) ttabProbeOf ?h" and m: "set (entries ?h) = {2..<length ?t}"
    and ld: "2 * (length ?t - 2) \<le> length ?h" and dt: "distinct ?t"
    using ok False by (auto simp: ttOk_def Let_def)
  have p2: "pow2 (length ?h)" using wf by (simp add: wfTab_def)
  have "length (entries ?h) = length ?t - 2" by (rule entries_length[OF wf m])
  then have "length (entries ?h) < length ?h" using ld pow2_pos[OF p2] by linarith
  from tth.find_total[OF p2 this] obtain i where
    i: "oaProbe (\<lambda>k. ?t ! k) ?h td (ttabProbeOf td (length ?h)) (length ?h) = Some i" by blast
  have hi: "?h ! i = tabLookup (\<lambda>k. ?t ! k) ?h td" using tth.find_sound[OF wf i] by simp
  have dk: "distinct (map (\<lambda>k. ?t ! k) (entries ?h))" using wf by (simp add: wfTab_def)
  have mem: "Some k \<in> set ?h \<longleftrightarrow> 2 \<le> k \<and> k < length ?t" for k
    using m entries_mem[of k ?h] by auto
  have "tabLookup (\<lambda>k. ?t ! k) ?h td = ?f"
  proof (cases ?f)
    case None
    then have "\<forall>k. Some k \<in> set ?h \<longrightarrow> ?t ! k \<noteq> td" using mem by (auto simp: find_None_iff)
    then show ?thesis unfolding None by (simp add: tabLookup_None)
  next
    case (Some k)
    then have "2 \<le> k \<and> k < length ?t \<and> ?t ! k = td" by (auto simp: find_Some_iff)
    then show ?thesis using Some tabLookup_Some[OF dk, of td k] mem[of k] by simp
  qed
  then show ?thesis using False i hi by (simp add: ttabFind_def)
qed (simp add: ttabFind_def)

lemma ttabIndexBuild_ok:
  assumes "pow2 cap" "distinct (tt_tab tt)" "length (tt_tab tt) - 2 < cap"
  shows "\<exists>nt. ttabIndexBuild tt cap = Some (tt\<lparr>tt_hash := nt\<rparr>) \<and> length nt = cap \<and>
           wfTab (\<lambda>k. tt_tab tt ! k) ttabProbeOf nt \<and>
           set (entries nt) = {2..<length (tt_tab tt)}"
proof -
  have "distinct (map (\<lambda>k. tt_tab tt ! k) [2..<length (tt_tab tt)])"
    using assms(2) by (auto simp: distinct_map inj_on_def nth_eq_iff_index_eq)
  then obtain nt where nt: "oaRehash (\<lambda>k. ttabProbeOf (tt_tab tt ! k) cap)
        (map Some [2..<length (tt_tab tt)]) (replicate cap None) = Some nt"
      "wfTab (\<lambda>k. tt_tab tt ! k) ttabProbeOf nt" "length nt = cap"
      "mset (entries nt) = mset [2..<length (tt_tab tt)]"
    using tth.rehash_ok[where nt = "replicate cap None" and c = cap and t = "tt_tab tt"
        and ts = "map Some [2..<length (tt_tab tt)]"] assms(1,3)
    by (auto simp: wfTab_empty)
  have "set (entries nt) = {2..<length (tt_tab tt)}" using mset_eq_setD[OF nt(4)] by simp
  then show ?thesis using nt by (auto simp: ttabIndexBuild_def)
qed

lemma ttabIndexAdd_ok:
  fixes tt :: ttab and td :: nat
  defines "u \<equiv> ttabAppend tt td"
  assumes ok: "ttOk tt" and td: "td \<notin> set (tt_tab tt)" and n: "length (tt_tab tt) < 0xFFFF"
  shows "\<exists>tt'. ttabIndexAdd u td (length (tt_tab tt)) = Some tt' \<and> tt_tab tt' = tt_tab tt @ [td] \<and>
     tt_lastTd tt' = tt_lastTd tt \<and> tt_lastTid tt' = tt_lastTid tt \<and> ttOk tt'"
proof -
  let ?t = "tt_tab tt" and ?h = "tt_hash tt" and ?s = "tt_tab tt @ [td]"
  have u: "tt_tab u = ?s" "tt_hash u = ?h" "tt_lastTd u = tt_lastTd tt"
    "tt_lastTid u = tt_lastTid tt" "length ?s \<le> tt_cap u"
    using ok by (auto simp: u_def ttabAppend_def ttOk_def Let_def)
  have B: "2 \<le> length ?t" "distinct ?s" "?s ! 0 = 0" "?s ! 1 = RC_CONSERVATIVE"
    "tt_lastTd tt \<noteq> 0 \<longrightarrow> tt_lastTid tt < length ?s \<and> tt_lastTid tt \<noteq> 0 \<and> ?s ! tt_lastTid tt = tt_lastTd tt"
    using ok td by (auto simp: ttOk_def Let_def nth_append)
  have okI: "ttOk (u\<lparr>tt_hash := nt\<rparr>)"
    if "nt \<noteq> [] \<Longrightarrow> wfTab (\<lambda>k. ?s ! k) ttabProbeOf nt \<and> set (entries nt) = {2..<length ?s} \<and>
          2 * (length ?s - 2) \<le> length nt"
      and "nt = [] \<Longrightarrow> length ?s - 2 \<le> RC_TTAB_LINEAR_MAX" for nt
    unfolding ttOk_def Let_def using that u B n by simp
  have build: "\<exists>nt. ttabIndexBuild u c = Some (u\<lparr>tt_hash := nt\<rparr>) \<and> ttOk (u\<lparr>tt_hash := nt\<rparr>)"
    if c: "pow2 c" "2 * (length ?s - 2) \<le> c" for c
  proof -
    have "length (tt_tab u) - 2 < c" unfolding u(1) using c pow2_pos[OF c(1)] by linarith
    from ttabIndexBuild_ok[OF c(1) _ this] u B c(2) okI show ?thesis by fastforce
  qed
  consider (small) "?h = []" "\<not> length ?s - 2 > RC_TTAB_LINEAR_MAX"
    | (first) "?h = []" "length ?s - 2 > RC_TTAB_LINEAR_MAX"
    | (grow) "?h \<noteq> []" "length ?s - 2 > length ?h div 2"
    | (add) "?h \<noteq> []" "\<not> length ?s - 2 > length ?h div 2" by blast
  then show ?thesis
  proof cases
    case small
    moreover have "u\<lparr>tt_hash := []\<rparr> = u" using small u by simp
    ultimately have "ttOk u" using okI[of "[]"] by simp
    then show ?thesis using small u by (auto simp: ttabIndexAdd_def)
  next
  case first
    have "length ?s - 2 \<le> 9" using ok first(1) by (auto simp: ttOk_def Let_def RC_TTAB_LINEAR_MAX_def)
    then have "pow2 32" "2 * (length ?s - 2) \<le> 32" by (auto simp: pow2_def intro: exI[of _ 5])
    from build[OF this] show ?thesis using first u by (auto simp: ttabIndexAdd_def)
  next
    case grow
    have wf: "wfTab (\<lambda>k. ?t ! k) ttabProbeOf ?h" and ld: "2 * (length ?t - 2) \<le> length ?h"
      using ok grow by (auto simp: ttOk_def Let_def)
    have p2: "pow2 (length ?h)" using wf by (simp add: wfTab_def)
    have "length ?s = Suc (length ?t)" by simp
    then have "2 * (length ?s - 2) \<le> length ?h * 2" using ld pow2_pos[OF p2] B(1) by presburger
    from build[OF pow2_double[OF p2] this] show ?thesis
      using grow u by (auto simp: ttabIndexAdd_def)
  next
    case add
    have wf: "wfTab (\<lambda>k. ?t ! k) ttabProbeOf ?h" and m: "set (entries ?h) = {2..<length ?t}"
      using ok add(1) by (auto simp: ttOk_def Let_def)
    have wf': "wfTab (\<lambda>k. ?s ! k) ttabProbeOf ?h"
      by (rule wfTab_cong[OF wf]) (use m in \<open>auto simp: nth_append\<close>)
    have ld: "2 * (length ?s - 2) \<le> length ?h" using add(2) by linarith
    have "length (entries ?h) = length ?t - 2" by (rule entries_length[OF wf m])
    then have room: "length (entries ?h) < length ?h" using ld B(1) by simp
    have "?s ! length ?t \<notin> (\<lambda>k. ?s ! k) ` set (entries ?h)"
      using m td by (auto simp: nth_append)
    from tth.free_insert[OF wf' room this] obtain j where
      j: "oaFree ?h (ttabProbeOf td (length ?h)) (length ?h) = Some j"
      and w: "wfTab (\<lambda>k. ?s ! k) ttabProbeOf (?h[j := Some (length ?t)])"
      and ms: "mset (entries (?h[j := Some (length ?t)])) = add_mset (length ?t) (mset (entries ?h))"
      by auto
    have "set (entries (?h[j := Some (length ?t)])) = {2..<length ?s}"
      using mset_eq_setD[OF ms[folded mset.simps(2)]] m B(1) by auto
    then have "ttOk (u\<lparr>tt_hash := ?h[j := Some (length ?t)]\<rparr>)"
      using w ld add(1) by (intro okI) auto
    then show ?thesis using add u j by (auto simp: ttabIndexAdd_def)
  qed
qed


lemma typeIdxSlow_ok:
  assumes ok: "ttOk tt" and td: "td \<noteq> 0" "td \<noteq> RC_CONSERVATIVE"
      and room: "td \<in> set (tt_tab tt) \<or> length (tt_tab tt) < 0xFFFF"
  shows "\<exists>k tt'. typeIdxSlow tt td = Some (k, tt') \<and> ttOk tt' \<and> k \<noteq> 0 \<and> k < length (tt_tab tt') \<and>
     tt_tab tt' ! k = td \<and> (\<exists>ext. tt_tab tt' = tt_tab tt @ ext)"
proof (cases "find (\<lambda>k. tt_tab tt ! k = td) [2..<length (tt_tab tt)]")
  case (Some k)
  then have "2 \<le> k \<and> k < length (tt_tab tt) \<and> tt_tab tt ! k = td" by (auto simp: find_Some_iff)
  then show ?thesis using ttabFind_ok[OF ok td] Some ok by (auto simp: typeIdxSlow_def)
next
  case None
  have t01: "tt_tab tt ! 0 = 0" "tt_tab tt ! 1 = RC_CONSERVATIVE" using ok by (auto simp: ttOk_def Let_def)
  have new: "td \<notin> set (tt_tab tt)"
  proof
    assume "td \<in> set (tt_tab tt)"
    then obtain k where k: "k < length (tt_tab tt)" "tt_tab tt ! k = td" by (metis in_set_conv_nth)
    then have "k \<noteq> 0" "k \<noteq> 1" using t01 td by metis+
    then have "k \<in> set [2..<length (tt_tab tt)]" using k by auto
    then show False using None k by (auto simp: find_None_iff)
  qed
  then have "length (tt_tab tt) < 0xFFFF" using room by simp
  from ttabIndexAdd_ok[OF ok new this] obtain tt' where
    "ttabIndexAdd (ttabAppend tt td) td (length (tt_tab tt)) = Some tt'"
    "tt_tab tt' = tt_tab tt @ [td]" "ttOk tt'" by blast
  then show ?thesis using ttabFind_ok[OF ok td] None \<open>length (tt_tab tt) < 0xFFFF\<close> ok
    by (auto simp: typeIdxSlow_def Let_def ttOk_def)
qed

text \<open>The law the heap relies on: the number handed out names the descriptor, and the numbers
  handed out before keep their meaning.\<close>

lemma typeIdx_ok:
  assumes ok: "ttOk tt" and room: "td \<in> set (tt_tab tt) \<or> length (tt_tab tt) < 0xFFFF"
  shows "\<exists>k tt'. typeIdx tt td = Some (k, tt') \<and> ttOk tt' \<and> k < length (tt_tab tt') \<and>
     ttType tt' k = td \<and> (\<exists>ext. tt_tab tt' = tt_tab tt @ ext)"
proof -
  consider "td = 0" | "td \<noteq> 0" "td = tt_lastTd tt" | "td \<noteq> 0" "td \<noteq> tt_lastTd tt" by blast
  then show ?thesis
  proof cases
    case 1
    then show ?thesis using ok by (auto simp: typeIdx_def ttType_def ttOk_def Let_def)
  next
    case 2
    then show ?thesis using ok by (auto simp: typeIdx_def ttType_def ttOk_def Let_def)
  next
    case 3
    have upd: "ttOk (t\<lparr>tt_lastTd := td, tt_lastTid := k\<rparr>)"
      if "ttOk t" "k \<noteq> 0" "k < length (tt_tab t)" "tt_tab t ! k = td" for t k
      using that by (simp add: ttOk_def Let_def)
    have b: "2 \<le> length (tt_tab tt)" "tt_tab tt ! 1 = RC_CONSERVATIVE"
      using ok by (auto simp: ttOk_def Let_def)
    show ?thesis
    proof (cases "td = RC_CONSERVATIVE")
      case True
      then show ?thesis using 3 b upd[OF ok, of 1] by (simp add: typeIdx_def ttType_def)
    next
      case False
      from typeIdxSlow_ok[OF ok 3(1) False room] 3 False upd show ?thesis
        by (fastforce simp: typeIdx_def ttType_def)
    qed
  qed
qed

lemma ttType_extend:
  "tt_tab tt' = tt_tab tt @ ext \<Longrightarrow> k < length (tt_tab tt) \<Longrightarrow> ttType tt' k = ttType tt k"
  by (simp add: ttType_def nth_append)

end
