(* ===== verification/Rc_Slab.thy ===== *)
theory Rc_Slab
  imports Rc_Layout Rc_TypeTab
begin

text \<open>
  The slab header (\<open>struct ExtcRcSlab\<close> of \<open>src/back/reclaim.c\<close>) and the arithmetic that goes
  from a pointer to a slot. Headers are looked up by address; a null pointer is the address 0.
  The chain \<open>next\<close> of a region and the chain \<open>availNext\<close> of a size class are lists of header
  addresses in the region (theory Rc_Heap), so the two link fields have no counterpart here.
\<close>

record slab =
  sl_region :: addr
  sl_occ :: bitmap
  sl_mark :: bitmap
  sl_rsbit :: bitmap
  sl_rscnt :: "nat list option"
  sl_tid :: "nat list"
  sl_tt :: ttab
  sl_data :: addr
  sl_big :: bool
  sl_free :: int
  sl_bump :: nat
  sl_ss :: nat
  sl_rcp :: nat
  sl_nslots :: nat
  sl_nwords :: nat
  sl_epoch :: nat
  sl_avail :: bool

definition offOf :: "slab \<Rightarrow> addr \<Rightarrow> nat" where
  "offOf s p = (p + (2 ^ 64 - sl_data s)) mod 2 ^ 64"

definition slotOfOff :: "slab \<Rightarrow> nat \<Rightarrow> nat" where
  "slotOfOff s off = slotOfRcp (sl_rcp s) off"

definition slotOf :: "slab \<Rightarrow> addr \<Rightarrow> nat" where
  "slotOf s p = slotOfOff s (offOf s p)"

text \<open>The head-of-slot test made after every lookup.\<close>

definition slotHead :: "slab \<Rightarrow> addr \<Rightarrow> bool" where
  "slotHead s p = (let off = offOf s p; k = slotOfOff s off
                   in k < sl_nslots s \<and> k * sl_ss s = off)"

definition slotAddr :: "slab \<Rightarrow> nat \<Rightarrow> addr" where
  "slotAddr s i = sl_data s + i * sl_ss s"

definition typeOf :: "slab \<Rightarrow> nat \<Rightarrow> nat" where
  "typeOf s i = ttType (sl_tt s) (sl_tid s ! i)"

definition occAt :: "slab \<Rightarrow> nat \<Rightarrow> bool" where
  "occAt s i = bmGet (sl_occ s) i"

section \<open>A header at an address\<close>

text \<open>The geometry of a header: what \<open>extc_rc_slabNew\<close> establishes and nothing changes.\<close>

definition geomOk :: "addr \<Rightarrow> slab \<Rightarrow> bool" where
  "geomOk a s \<longleftrightarrow>
     16 \<le> sl_ss s \<and> sl_ss s mod 8 = 0 \<and> sl_rcp s = rcpOf (sl_ss s) \<and>
     sl_data s mod 8 = 0 \<and> 0 < a \<and> 0 < sl_data s \<and>
     0 < sl_nslots s \<and> sl_nslots s \<le> RC_REUSE_MAX_SLOT \<and>
     sl_nwords s = slabWords (sl_nslots s) \<and>
     sl_data s + sl_nslots s * sl_ss s \<le> 2 ^ 64 \<and>
     (if sl_big s then sl_nslots s = 1
      else a mod RC_SLAB_SIZE = 0 \<and> sl_data s = a + RC_SLAB_HDR \<and>
           RC_SLAB_HDR + sl_nslots s * sl_ss s \<le> RC_SLAB_SIZE)"

lemma slotAddr_bounds:
  assumes "geomOk a s" "i < sl_nslots s"
  shows "sl_data s \<le> slotAddr s i" "slotAddr s i + sl_ss s \<le> sl_data s + sl_nslots s * sl_ss s"
proof -
  have "Suc i * sl_ss s \<le> sl_nslots s * sl_ss s" using assms(2) by (intro mult_le_mono1) simp
  then show "sl_data s \<le> slotAddr s i"
    "slotAddr s i + sl_ss s \<le> sl_data s + sl_nslots s * sl_ss s"
    by (simp_all add: slotAddr_def)
qed

lemma slotAddr_inj:
  assumes "geomOk a s"
  shows "slotAddr s i = slotAddr s j \<longleftrightarrow> i = j"
  using assms by (auto simp: slotAddr_def geomOk_def)

lemma slotAddr_even:
  assumes "geomOk a s"
  shows "slotAddr s i mod 8 = 0"
proof -
  have "8 dvd sl_data s" "8 dvd sl_ss s" using assms by (auto simp: geomOk_def)
  then have "8 dvd slotAddr s i" by (simp add: slotAddr_def)
  then show ?thesis by simp
qed

lemma offOf_ge: "sl_data s \<le> p \<Longrightarrow> p < 2 ^ 64 \<Longrightarrow> offOf s p = p - sl_data s"
proof -
  assume a: "sl_data s \<le> p" "p < 2 ^ 64"
  then have "p + (2 ^ 64 - sl_data s) = (p - sl_data s) + 2 ^ 64" by simp
  then have "offOf s p = (p - sl_data s) mod 2 ^ 64" unfolding offOf_def by simp
  then show ?thesis using a by simp
qed

lemma offOf_lt: "p < sl_data s \<Longrightarrow> sl_data s < 2 ^ 64 \<Longrightarrow> offOf s p = 2 ^ 64 - (sl_data s - p)"
  by (simp add: offOf_def)

lemma slotOf_big:
  assumes "geomOk a s" "sl_big s"
  shows "slotOf s (sl_data s) = 0"
proof -
  have "sl_data s < 2 ^ 64" using assms by (auto simp: geomOk_def)
  then show ?thesis by (simp add: slotOf_def slotOfOff_def slotOfRcp_def offOf_ge)
qed

lemma slotOf_slotAddr:
  assumes g: "geomOk a s" and i: "i < sl_nslots s"
  shows "slotOf s (slotAddr s i) = i"
proof (cases "sl_big s")
  case True
  then show ?thesis using slotOf_big[OF g True] g i by (simp add: geomOk_def slotAddr_def)
next
  case False
  note b = slotAddr_bounds[OF g i]
  have ss: "16 \<le> sl_ss s" "0 < sl_ss s" and top: "RC_SLAB_HDR + sl_nslots s * sl_ss s \<le> RC_SLAB_SIZE"
    "sl_data s + sl_nslots s * sl_ss s \<le> 2 ^ 64" and rcp: "sl_rcp s = rcpOf (sl_ss s)"
    using g False by (auto simp: geomOk_def)
  have "slotAddr s i < 2 ^ 64" using b top ss by linarith
  then have off: "offOf s (slotAddr s i) = i * sl_ss s" using b by (simp add: offOf_ge slotAddr_def)
  have lt: "i * sl_ss s < RC_SLAB_SIZE" using b(2) top ss by (simp add: slotAddr_def)
  have "sl_ss s \<le> RC_SLAB_SIZE" using b(2) top by (simp add: slotAddr_def)
  from slotOfRcp_exact[OF ss(1) this lt] show ?thesis
    using off ss rcp by (simp add: slotOf_def slotOfOff_def)
qed

text \<open>The head-of-slot test of an ordinary slab accepts exactly the slot addresses.\<close>

lemma slotHead_iff:
  assumes g: "geomOk a s" and n: "\<not> sl_big s" and p: "slabOf p = a" "p < 2 ^ 64"
  shows "slotHead s p \<longleftrightarrow> (\<exists>i < sl_nslots s. p = slotAddr s i)"
proof
  assume "\<exists>i < sl_nslots s. p = slotAddr s i"
  then obtain i where i: "i < sl_nslots s" "p = slotAddr s i" by blast
  have "offOf s p = i * sl_ss s"
    using offOf_ge[of s p] slotAddr_bounds[OF g i(1)] i p by (simp add: slotAddr_def)
  then show "slotHead s p"
    using slotOf_slotAddr[OF g i(1)] i by (simp add: slotHead_def slotOf_def Let_def)
next
  assume h: "slotHead s p"
  define k where "k = slotOfOff s (offOf s p)"
  have k: "k < sl_nslots s" "k * sl_ss s = offOf s p"
    using h by (auto simp: slotHead_def k_def Let_def)
  have d: "sl_data s = a + RC_SLAB_HDR" "RC_SLAB_HDR + sl_nslots s * sl_ss s \<le> RC_SLAB_SIZE"
    "sl_data s + sl_nslots s * sl_ss s \<le> 2 ^ 64"
    using g n by (auto simp: geomOk_def)
  have "sl_data s \<le> p"
  proof (rule ccontr)
    assume "\<not> sl_data s \<le> p"
    then have "offOf s p \<ge> 2 ^ 64 - RC_SLAB_HDR"
      using offOf_lt[of p s] d p slabOf_le[of p] slotAddr_bounds[OF g k(1)] g
      by (simp add: geomOk_def slotAddr_def)
    moreover have "k * sl_ss s \<le> sl_nslots s * sl_ss s" using k(1) by simp
    ultimately have "2 ^ 64 - RC_SLAB_HDR \<le> RC_SLAB_SIZE" using d(2) k(2) by linarith
    then show False by (simp add: layout_consts)
  qed
  then have "p = slotAddr s k" using k(2) offOf_ge[of s p] p by (simp add: slotAddr_def)
  then show "\<exists>i < sl_nslots s. p = slotAddr s i" using k(1) by blast
qed

lemma slabOf_slotAddr:
  assumes g: "geomOk a s" and n: "\<not> sl_big s" and i: "i < sl_nslots s"
  shows "slabOf (slotAddr s i) = a"
proof -
  have "a mod RC_SLAB_SIZE = 0" "sl_data s = a + RC_SLAB_HDR" "16 \<le> sl_ss s"
    "RC_SLAB_HDR + sl_nslots s * sl_ss s \<le> RC_SLAB_SIZE"
    using g n by (auto simp: geomOk_def)
  then show ?thesis
    using slabOf_add[of a "RC_SLAB_HDR + i * sl_ss s"] slotAddr_bounds[OF g i]
    by (simp add: slotAddr_def algebra_simps)
qed

lemma slotAddr_top:
  assumes g: "geomOk a s" and i: "i < sl_nslots s"
  shows "slotAddr s i < 2 ^ 64"
  using slotAddr_bounds[OF g i] g by (auto simp: geomOk_def)

end
