(* ===== verification/Rc_Registry.thy ===== *)
theory Rc_Registry
  imports Rc_Slab
begin

text \<open>
  The slab registry of \<open>src/back/reclaim.c\<close>: two probing tables (ordinary slabs by base address,
  oversized blocks by payload address), published as generations, with a mirror of the current
  table, a direct-mapped hit cache \<open>extc_rc_ownMap\<close> and the one-entry cache \<open>extc_rc_ownHot\<close>
  in front of them. The model is a run of one thread: the two reads of \<open>extc_rc_regSeq\<close> around
  a probe agree, and the lock is not contended. A result of None is a loop that does not end.
\<close>

record regtab =
  rg_tab :: "addr table"
  rg_cap :: nat
  rg_n :: nat

record registry =
  og_own :: regtab
  og_big :: regtab
  og_mirTab :: "addr table"
  og_mirCap :: nat
  og_map :: "addr list"
  og_hot :: addr
  og_seq :: nat

definition OWNMAP_SIZE :: nat where "OWNMAP_SIZE = 2 ^ 12"

definition registryNew :: registry where
  "registryNew = \<lparr>og_own = \<lparr>rg_tab = [], rg_cap = 0, rg_n = 0\<rparr>,
     og_big = \<lparr>rg_tab = [], rg_cap = 0, rg_n = 0\<rparr>, og_mirTab = [], og_mirCap = 0,
     og_map = replicate OWNMAP_SIZE 0, og_hot = 0, og_seq = 0\<rparr>"

definition ownHashOf :: "addr \<Rightarrow> nat" where
  "ownHashOf base = ((base div 2 ^ RC_SLAB_BITS) * 2654435761 mod 2 ^ 64) AND (OWNMAP_SIZE - 1)"

definition ownKeyOf :: "(addr \<Rightarrow> slab) \<Rightarrow> addr \<Rightarrow> addr" where
  "ownKeyOf sl s = (if sl_big (sl s) then sl_data (sl s) else s)"

definition ownProbeOf :: "bool \<Rightarrow> addr \<Rightarrow> nat \<Rightarrow> nat" where
  "ownProbeOf big key cap =
    (let h = (if big then key div 2 ^ 4 else key div 2 ^ RC_SLAB_BITS)
     in (h * 2654435761 mod 2 ^ 64) AND (cap - 1))"

definition ownSlotOf :: "(addr \<Rightarrow> slab) \<Rightarrow> addr table \<Rightarrow> nat \<Rightarrow> addr \<Rightarrow> bool \<Rightarrow> nat option" where
  "ownSlotOf sl tab cap key big = oaProbe (ownKeyOf sl) tab key (ownProbeOf big key cap) cap"

definition ownNextReg :: "(addr \<Rightarrow> slab) \<Rightarrow> regtab \<Rightarrow> bool \<Rightarrow> regtab option" where
  "ownNextReg sl cur big =
    (let nc = (if rg_cap cur \<noteq> 0 then rg_cap cur * 2 else if big then 16 else 64)
     in case oaRehash (\<lambda>s. ownProbeOf big (ownKeyOf sl s) nc) (rg_tab cur) (replicate nc None) of
          None \<Rightarrow> None
        | Some nt \<Rightarrow> Some \<lparr>rg_tab = nt, rg_cap = nc, rg_n = rg_n cur\<rparr>)"

text \<open>The move test of \<open>extc_rc_ownErase\<close>.\<close>

definition ownMove :: "nat \<Rightarrow> nat \<Rightarrow> nat \<Rightarrow> bool" where
  "ownMove i j h = (if i \<le> j then h \<le> i \<or> h > j else h \<le> i \<and> h > j)"

definition ownErase :: "(addr \<Rightarrow> slab) \<Rightarrow> addr table \<Rightarrow> nat \<Rightarrow> nat \<Rightarrow> bool \<Rightarrow> addr table option" where
  "ownErase sl tab cap i big =
     oaErase ownMove (\<lambda>s. ownProbeOf big (ownKeyOf sl s) cap) tab i i cap"

text \<open>One table of \<open>extc_rc_ownAdd\<close>: a new generation when it would be more than half full,
  then the cell the probe for the key stops at.\<close>

definition regInsert :: "(addr \<Rightarrow> slab) \<Rightarrow> regtab \<Rightarrow> addr \<Rightarrow> bool \<Rightarrow> regtab option" where
  "regInsert sl rg s big =
    (case (if rg_cap rg = 0 \<or> (rg_n rg + 1) * 2 > rg_cap rg then ownNextReg sl rg big else Some rg) of
       None \<Rightarrow> None
     | Some rg' \<Rightarrow>
        (case ownSlotOf sl (rg_tab rg') (rg_cap rg') (if big then sl_data (sl s) else s) big of
           None \<Rightarrow> None
         | Some i \<Rightarrow> Some (rg'\<lparr>rg_tab := (rg_tab rg')[i := Some s], rg_n := rg_n rg' + 1\<rparr>)))"

definition seqNext :: "registry \<Rightarrow> registry" where
  "seqNext g = g\<lparr>og_seq := (og_seq g + 1) mod 2 ^ 32\<rparr>"

definition ownAdd :: "(addr \<Rightarrow> slab) \<Rightarrow> registry \<Rightarrow> addr \<Rightarrow> registry option" where
  "ownAdd sl g s =
    (if sl_big (sl s) then
       (case regInsert sl (og_big g) s True of
          None \<Rightarrow> None
        | Some rg \<Rightarrow> Some (seqNext (g\<lparr>og_big := rg\<rparr>)))
     else
       (case regInsert sl (og_own g) s False of
          None \<Rightarrow> None
        | Some rg \<Rightarrow> Some (seqNext (g\<lparr>og_own := rg, og_mirTab := rg_tab rg, og_mirCap := rg_cap rg,
                            og_map := (og_map g)[ownHashOf s := s]\<rparr>))))"

text \<open>One table of \<open>extc_rc_ownDel\<close>.\<close>

definition regDelete :: "(addr \<Rightarrow> slab) \<Rightarrow> regtab \<Rightarrow> addr \<Rightarrow> bool \<Rightarrow> regtab option" where
  "regDelete sl rg s big =
    (if rg_cap rg = 0 then Some rg
     else (case ownSlotOf sl (rg_tab rg) (rg_cap rg) (if big then sl_data (sl s) else s) big of
             None \<Rightarrow> None
           | Some i \<Rightarrow>
               if rg_tab rg ! i = Some s then
                 (case ownErase sl (rg_tab rg) (rg_cap rg) i big of
                    None \<Rightarrow> None
                  | Some t \<Rightarrow> Some (rg\<lparr>rg_tab := t, rg_n := rg_n rg - 1\<rparr>))
               else Some rg))"

definition ownDel :: "(addr \<Rightarrow> slab) \<Rightarrow> registry \<Rightarrow> addr \<Rightarrow> registry option" where
  "ownDel sl g s =
    (if sl_big (sl s) then
       (case regDelete sl (og_big g) s True of
          None \<Rightarrow> None
        | Some rg \<Rightarrow> Some (seqNext (g\<lparr>og_big := rg\<rparr>)))
     else
       (case regDelete sl (og_own g) s False of
          None \<Rightarrow> None
        | Some rg \<Rightarrow> Some (seqNext (g\<lparr>og_hot := (if og_hot g = s then 0 else og_hot g),
              og_own := rg, og_mirTab := rg_tab rg,
              og_map := (if og_map g ! ownHashOf s = s then (og_map g)[ownHashOf s := 0] else og_map g)\<rparr>))))"

text \<open>A cell read as a pointer: 0 when it is free.\<close>

definition cellPtr :: "addr option \<Rightarrow> addr" where
  "cellPtr c = (case c of None \<Rightarrow> 0 | Some s \<Rightarrow> s)"

definition ownFind :: "(addr \<Rightarrow> slab) \<Rightarrow> registry \<Rightarrow> addr \<Rightarrow> bool \<Rightarrow> addr option" where
  "ownFind sl g key big =
    (let rg = (if big then og_big g else og_own g)
     in if rg_cap rg = 0 then Some 0
        else map_option (\<lambda>i. cellPtr (rg_tab rg ! i)) (ownSlotOf sl (rg_tab rg) (rg_cap rg) key big))"

definition ownProbeFast :: "(addr \<Rightarrow> slab) \<Rightarrow> registry \<Rightarrow> addr \<Rightarrow> bool \<Rightarrow> addr option" where
  "ownProbeFast sl g key big =
    (if big then
       (if rg_cap (og_big g) = 0 then Some 0
        else map_option (\<lambda>i. cellPtr (rg_tab (og_big g) ! i))
               (ownSlotOf sl (rg_tab (og_big g)) (rg_cap (og_big g)) key True))
     else if og_mirCap g = 0 then Some 0
     else map_option (\<lambda>i. cellPtr (og_mirTab g ! i)) (ownSlotOf sl (og_mirTab g) (og_mirCap g) key False))"

definition ownBig :: "(addr \<Rightarrow> slab) \<Rightarrow> registry \<Rightarrow> addr \<Rightarrow> addr option" where
  "ownBig sl g p =
    (if rg_cap (og_big g) = 0 then Some 0
     else map_option (\<lambda>i. let s = cellPtr (rg_tab (og_big g) ! i)
                          in if s \<noteq> 0 \<and> sl_data (sl s) = p then s else 0)
            (ownSlotOf sl (rg_tab (og_big g)) (rg_cap (og_big g)) p True))"

text \<open>\<open>extc_rc_ownSlab\<close> (its copy \<open>extc_rc_ownSlabMark\<close> has the same body): the slab of a
  registered slot head, else 0, with the updated one-entry cache.\<close>

definition ownSlab :: "(addr \<Rightarrow> slab) \<Rightarrow> registry \<Rightarrow> addr \<Rightarrow> (addr \<times> registry) option" where
  "ownSlab sl g p =
    (let base = slabOf p; hot = og_hot g; big = map_option (\<lambda>s. (s, g)) (ownBig sl g p)
     in if hot \<noteq> 0 \<and> hot = base then
          (if slotHead (sl hot) p then Some (hot, g) else big)
        else
          (let s = og_map g ! ownHashOf base
           in if s \<noteq> 0 \<and> s = base then
                (if slotHead (sl s) p then Some (s, g\<lparr>og_hot := s\<rparr>) else big)
              else (case ownProbeFast sl g base False of
                      None \<Rightarrow> None
                    | Some s \<Rightarrow>
                        if s \<noteq> 0 \<and> slotHead (sl s) p then Some (s, g\<lparr>og_hot := s\<rparr>) else big)))"

section \<open>The registry tables are probing tables\<close>

lemma ownMove_law:
  assumes "a < c" "b < c" "h < c" "a \<noteq> b"
  shows "ownMove a b h \<longleftrightarrow> ringDist c a b \<le> ringDist c h b"
  using assms by (auto simp: ownMove_def ringDist_def)

interpretation own: probe_table "ownKeyOf sl" "ownProbeOf big" ownMove
  for sl :: "addr \<Rightarrow> slab" and big :: bool
proof unfold_locales
  show "ownProbeOf big k cap < cap" if "pow2 cap" for cap k
    using and_pow2_lt[OF that] by (simp only: ownProbeOf_def Let_def)
qed (rule ownMove_law)

text \<open>What a table of the registry stands for: the map from keys to slab headers.\<close>

definition regAbs :: "(addr \<Rightarrow> slab) \<Rightarrow> regtab \<Rightarrow> addr \<Rightarrow> addr option" where
  "regAbs sl rg = tabLookup (ownKeyOf sl) (rg_tab rg)"

definition regTabOk :: "(addr \<Rightarrow> slab) \<Rightarrow> bool \<Rightarrow> regtab \<Rightarrow> bool" where
  "regTabOk sl big rg \<longleftrightarrow>
     rg_cap rg = length (rg_tab rg) \<and> rg_n rg = length (entries (rg_tab rg)) \<and>
     2 * rg_n rg \<le> rg_cap rg \<and>
     (rg_cap rg \<noteq> 0 \<longrightarrow> wfTab (ownKeyOf sl) (ownProbeOf big) (rg_tab rg)) \<and>
     (\<forall>s\<in>set (entries (rg_tab rg)). s \<noteq> 0 \<and> sl_big (sl s) = big)"

lemma regTabOk_find:
  assumes ok: "regTabOk sl big rg" and c: "rg_cap rg \<noteq> 0"
  shows "\<exists>i. ownSlotOf sl (rg_tab rg) (rg_cap rg) key big = Some i \<and> i < length (rg_tab rg) \<and>
           rg_tab rg ! i = regAbs sl rg key"
proof -
  have wf: "wfTab (ownKeyOf sl) (ownProbeOf big) (rg_tab rg)" and cap: "rg_cap rg = length (rg_tab rg)"
    and "2 * length (entries (rg_tab rg)) \<le> length (rg_tab rg)" "length (rg_tab rg) \<noteq> 0"
    using ok c by (simp_all add: regTabOk_def)
  then have room: "length (entries (rg_tab rg)) < length (rg_tab rg)" by linarith
  from wf have p2: "pow2 (length (rg_tab rg))" by (simp add: wfTab_def)
  from own.find_total[OF p2 room] obtain i where
    i: "oaProbe (ownKeyOf sl) (rg_tab rg) key (ownProbeOf big key (length (rg_tab rg)))
          (length (rg_tab rg)) = Some i" by blast
  then show ?thesis using own.find_sound[OF wf i] cap by (simp add: ownSlotOf_def regAbs_def)
qed

lemma regAbs_key:
  assumes "regTabOk sl big rg" "regAbs sl rg k = Some s"
  shows "s \<noteq> 0 \<and> sl_big (sl s) = big \<and> ownKeyOf sl s = k \<and> s \<in> set (entries (rg_tab rg))"
proof -
  have "s \<in> set (entries (rg_tab rg)) \<and> ownKeyOf sl s = k"
    using assms(2) by (auto simp: regAbs_def tabLookup_def find_Some_iff)
  then show ?thesis using assms(1) by (auto simp: regTabOk_def)
qed

lemma ownNextReg_ok:
  assumes ok: "regTabOk sl big rg"
  shows "\<exists>rg'. ownNextReg sl rg big = Some rg' \<and> regTabOk sl big rg' \<and> rg_n rg' = rg_n rg \<and>
           2 * (rg_n rg' + 1) \<le> rg_cap rg' \<and> regAbs sl rg' = regAbs sl rg"
proof -
  let ?t = "rg_tab rg"
  define nc :: nat where "nc = (if rg_cap rg \<noteq> 0 then rg_cap rg * 2 else if big then 16 else 64)"
  have n: "rg_cap rg = length ?t" "rg_n rg = length (entries ?t)" "2 * rg_n rg \<le> rg_cap rg"
    using ok by (auto simp: regTabOk_def)
  have wf: "rg_cap rg \<noteq> 0 \<Longrightarrow> wfTab (ownKeyOf sl) (ownProbeOf big) ?t"
    using ok by (auto simp: regTabOk_def)
  have p2: "pow2 nc"
  proof (cases "rg_cap rg = 0")
    case True
    have "(16 :: nat) = 2 ^ 4" "(64 :: nat) = 2 ^ 6" by simp_all
    then show ?thesis unfolding nc_def pow2_def using True by (metis (full_types))
  next
    case False
    then show ?thesis using wf n pow2_double by (auto simp: nc_def wfTab_def)
  qed
  have ld: "2 * (rg_n rg + 1) \<le> nc" using n(3) unfolding nc_def by (cases "rg_cap rg = 0") (simp, simp, presburger)
  have dk: "distinct (map (ownKeyOf sl) (entries ?t))"
    using wf n by (cases "rg_cap rg = 0") (auto simp: wfTab_def)
  have "length (entries ?t) < nc" using ld n by auto
  then obtain nt where nt: "oaRehash (\<lambda>s. ownProbeOf big (ownKeyOf sl s) nc) ?t (replicate nc None) = Some nt"
    "wfTab (ownKeyOf sl) (ownProbeOf big) nt" "length nt = nc" "mset (entries nt) = mset (entries ?t)"
    using own.rehash_ok[of "replicate nc None" nc sl big ?t] wfTab_empty[OF p2] dk by auto
  let ?r = "\<lparr>rg_tab = nt, rg_cap = nc, rg_n = rg_n rg\<rparr>"
  have "length (entries nt) = rg_n rg" "set (entries nt) = set (entries ?t)"
    using nt(4) n by (metis size_mset) (metis nt(4) set_mset_mset)
  then have okr: "regTabOk sl big ?r" using ok nt ld by (auto simp: regTabOk_def)
  have "regAbs sl ?r = regAbs sl rg"
  proof (cases "rg_cap rg = 0")
    case True
    then have "entries nt = []" using nt(4) n by simp
    then show ?thesis using True n by (auto simp: regAbs_def tabLookup_def)
  next
    case False
    from tabLookup_same[OF wf[OF False] nt(2,4)] show ?thesis by (simp add: regAbs_def)
  qed
  moreover have "ownNextReg sl rg big = Some ?r"
    unfolding ownNextReg_def Let_def nc_def[symmetric] using nt(1) by simp
  ultimately show ?thesis using okr ld by auto
qed

lemma regInsert_ok:
  assumes ok: "regTabOk sl big rg" and s: "s \<noteq> 0" "sl_big (sl s) = big"
      and new: "regAbs sl rg (ownKeyOf sl s) = None"
  shows "\<exists>rg'. regInsert sl rg s big = Some rg' \<and> regTabOk sl big rg' \<and>
           regAbs sl rg' = (regAbs sl rg)(ownKeyOf sl s \<mapsto> s)"
proof -
  have k: "(if big then sl_data (sl s) else s) = ownKeyOf sl s" using s by (simp add: ownKeyOf_def)
  obtain r where r: "(if rg_cap rg = 0 \<or> (rg_n rg + 1) * 2 > rg_cap rg then ownNextReg sl rg big
      else Some rg) = Some r" "regTabOk sl big r" "2 * (rg_n r + 1) \<le> rg_cap r" "regAbs sl r = regAbs sl rg"
    using ownNextReg_ok[OF ok] ok by (cases "rg_cap rg = 0 \<or> (rg_n rg + 1) * 2 > rg_cap rg") auto
  have c: "rg_cap r \<noteq> 0" using r(3) by auto
  have wf: "wfTab (ownKeyOf sl) (ownProbeOf big) (rg_tab r)" and cap: "rg_cap r = length (rg_tab r)"
    using r(2) c by (auto simp: regTabOk_def)
  obtain i where i: "ownSlotOf sl (rg_tab r) (rg_cap r) (ownKeyOf sl s) big = Some i"
    using regTabOk_find[OF r(2) c] by blast
  have new': "tabLookup (ownKeyOf sl) (rg_tab r) (ownKeyOf sl s) = None"
    using new r(4) by (simp add: regAbs_def)
  have i': "oaProbe (ownKeyOf sl) (rg_tab r) (ownKeyOf sl s)
      (ownProbeOf big (ownKeyOf sl s) (length (rg_tab r))) (length (rg_tab r)) = Some i"
    using i cap by (simp add: ownSlotOf_def)
  note ins = own.insert_new[OF wf new' i']
  let ?r = "r\<lparr>rg_tab := (rg_tab r)[i := Some s], rg_n := rg_n r + 1\<rparr>"
  have ln: "length (entries ((rg_tab r)[i := Some s])) = Suc (length (entries (rg_tab r)))"
    using ins(2) by (metis size_add_mset size_mset)
  have st: "set (entries ((rg_tab r)[i := Some s])) = insert s (set (entries (rg_tab r)))"
    using ins(2) by (metis set_mset_add_mset_insert set_mset_mset)
  have "regTabOk sl big ?r" using r(2,3) ins(1) s ln st c by (simp add: regTabOk_def)
  moreover have "regAbs sl ?r = (regAbs sl rg)(ownKeyOf sl s \<mapsto> s)"
    using tabLookup_add[OF wf ins(1,2)] r(4) by (simp add: regAbs_def)
  ultimately show ?thesis using r(1) i k by (simp add: regInsert_def)
qed

lemma regDelete_ok:
  assumes ok: "regTabOk sl big rg" and s: "sl_big (sl s) = big"
      and reg: "regAbs sl rg (ownKeyOf sl s) \<in> {None, Some s}"
  shows "\<exists>rg'. regDelete sl rg s big = Some rg' \<and> regTabOk sl big rg' \<and> rg_cap rg' = rg_cap rg \<and>
           regAbs sl rg' = (regAbs sl rg)(ownKeyOf sl s := None)"
proof (cases "rg_cap rg = 0")
  case True
  then have "regAbs sl rg = (regAbs sl rg)(ownKeyOf sl s := None)"
    using ok by (auto simp: regTabOk_def regAbs_def tabLookup_def)
  then show ?thesis using True ok by (simp add: regDelete_def)
next
  case c: False
  have k: "(if big then sl_data (sl s) else s) = ownKeyOf sl s" using s by (simp add: ownKeyOf_def)
  obtain i where i: "ownSlotOf sl (rg_tab rg) (rg_cap rg) (ownKeyOf sl s) big = Some i"
    "i < length (rg_tab rg)" "rg_tab rg ! i = regAbs sl rg (ownKeyOf sl s)"
    using regTabOk_find[OF ok c] by blast
  show ?thesis
  proof (cases "regAbs sl rg (ownKeyOf sl s)")
    case None
    then show ?thesis using c i k ok by (auto simp: regDelete_def fun_upd_idem)
  next
    case (Some x)
    then have cell: "rg_tab rg ! i = Some s" using reg i(3) by simp
    have wf: "wfTab (ownKeyOf sl) (ownProbeOf big) (rg_tab rg)" and cap: "rg_cap rg = length (rg_tab rg)"
      and ld: "2 * length (entries (rg_tab rg)) \<le> length (rg_tab rg)" "length (rg_tab rg) \<noteq> 0"
      using ok c by (simp_all add: regTabOk_def)
    have room: "length (entries (rg_tab rg)) < length (rg_tab rg)" using ld by linarith
    from own.erase_ok[OF wf room i(2) cell] obtain t where
      t: "ownErase sl (rg_tab rg) (rg_cap rg) i big = Some t" "length t = length (rg_tab rg)"
      "wfTab (ownKeyOf sl) (ownProbeOf big) t" "mset (entries (rg_tab rg)) = add_mset s (mset (entries t))"
      using cap by (auto simp: ownErase_def)
    let ?r = "rg\<lparr>rg_tab := t, rg_n := rg_n rg - 1\<rparr>"
    have "length (entries (rg_tab rg)) = Suc (length (entries t))"
      using t(4) by (metis size_add_mset size_mset)
    moreover have "set (entries (rg_tab rg)) = insert s (set (entries t))"
      using t(4) by (metis set_mset_add_mset_insert set_mset_mset)
    ultimately have "regTabOk sl big ?r" using ok t cap c by (simp add: regTabOk_def)
    moreover have "regAbs sl ?r = (regAbs sl rg)(ownKeyOf sl s := None)"
      using tabLookup_del[OF t(3) wf t(4)] by (simp add: regAbs_def)
    ultimately show ?thesis using c i t(1) k cell by (simp add: regDelete_def)
  qed
qed

section \<open>The whole registry\<close>

definition registryOk :: "(addr \<Rightarrow> slab) \<Rightarrow> registry \<Rightarrow> bool" where
  "registryOk sl g \<longleftrightarrow>
     regTabOk sl False (og_own g) \<and> regTabOk sl True (og_big g) \<and>
     og_mirTab g = rg_tab (og_own g) \<and> og_mirCap g = rg_cap (og_own g) \<and>
     length (og_map g) = OWNMAP_SIZE \<and>
     (\<forall>i<OWNMAP_SIZE. og_map g ! i \<noteq> 0 \<longrightarrow>
        ownHashOf (og_map g ! i) = i \<and> regAbs sl (og_own g) (og_map g ! i) = Some (og_map g ! i)) \<and>
     (og_hot g \<noteq> 0 \<longrightarrow> regAbs sl (og_own g) (og_hot g) = Some (og_hot g))"

lemma ownHashOf_lt: "ownHashOf b < OWNMAP_SIZE"
proof -
  have "pow2 OWNMAP_SIZE" unfolding pow2_def OWNMAP_SIZE_def by blast
  from and_pow2_lt[OF this] show ?thesis by (simp only: ownHashOf_def)
qed

lemma registryOk_new: "registryOk sl registryNew"
  by (simp add: registryOk_def registryNew_def regTabOk_def)

lemma ownAdd_ordinary:
  assumes ok: "registryOk sl g" and s: "s \<noteq> 0" "\<not> sl_big (sl s)"
      and new: "regAbs sl (og_own g) s = None"
  shows "\<exists>g'. ownAdd sl g s = Some g' \<and> registryOk sl g' \<and>
           regAbs sl (og_own g') = (regAbs sl (og_own g))(s \<mapsto> s) \<and> og_big g' = og_big g"
proof -
  have k: "ownKeyOf sl s = s" using s by (simp add: ownKeyOf_def)
  obtain rg where rg: "regInsert sl (og_own g) s False = Some rg" "regTabOk sl False rg"
    "regAbs sl rg = (regAbs sl (og_own g))(s \<mapsto> s)"
    using regInsert_ok[of sl False "og_own g" s] ok s new k by (auto simp: registryOk_def)
  let ?g = "seqNext (g\<lparr>og_own := rg, og_mirTab := rg_tab rg, og_mirCap := rg_cap rg,
                       og_map := (og_map g)[ownHashOf s := s]\<rparr>)"
  have "registryOk sl ?g"
    using ok rg ownHashOf_lt[of s] by (auto simp: registryOk_def seqNext_def nth_list_update)
  then show ?thesis using rg s by (simp add: ownAdd_def seqNext_def)
qed

lemma ownAdd_big:
  assumes ok: "registryOk sl g" and s: "s \<noteq> 0" "sl_big (sl s)"
      and new: "regAbs sl (og_big g) (sl_data (sl s)) = None"
  shows "\<exists>g'. ownAdd sl g s = Some g' \<and> registryOk sl g' \<and>
           regAbs sl (og_big g') = (regAbs sl (og_big g))(sl_data (sl s) \<mapsto> s) \<and> og_own g' = og_own g"
proof -
  have k: "ownKeyOf sl s = sl_data (sl s)" using s by (simp add: ownKeyOf_def)
  obtain rg where rg: "regInsert sl (og_big g) s True = Some rg" "regTabOk sl True rg"
    "regAbs sl rg = (regAbs sl (og_big g))(sl_data (sl s) \<mapsto> s)"
    using regInsert_ok[of sl True "og_big g" s] ok s new k by (auto simp: registryOk_def)
  then have "registryOk sl (seqNext (g\<lparr>og_big := rg\<rparr>))"
    using ok by (simp add: registryOk_def seqNext_def)
  then show ?thesis using rg s by (simp add: ownAdd_def seqNext_def)
qed

lemma ownDel_ordinary:
  assumes ok: "registryOk sl g" and s: "\<not> sl_big (sl s)"
      and reg: "regAbs sl (og_own g) s = Some s"
  shows "\<exists>g'. ownDel sl g s = Some g' \<and> registryOk sl g' \<and>
           regAbs sl (og_own g') = (regAbs sl (og_own g))(s := None) \<and> og_big g' = og_big g"
proof -
  have k: "ownKeyOf sl s = s" using s by (simp add: ownKeyOf_def)
  obtain rg where rg: "regDelete sl (og_own g) s False = Some rg" "regTabOk sl False rg"
    "rg_cap rg = rg_cap (og_own g)" "regAbs sl rg = (regAbs sl (og_own g))(s := None)"
    using regDelete_ok[of sl False "og_own g" s] ok s reg k by (auto simp: registryOk_def)
  let ?g = "seqNext (g\<lparr>og_hot := (if og_hot g = s then 0 else og_hot g),
      og_own := rg, og_mirTab := rg_tab rg,
      og_map := (if og_map g ! ownHashOf s = s then (og_map g)[ownHashOf s := 0] else og_map g)\<rparr>)"
  have "registryOk sl ?g"
    using ok rg ownHashOf_lt[of s] unfolding registryOk_def seqNext_def
    by (auto simp: nth_list_update)
  then show ?thesis using rg s by (simp add: ownDel_def seqNext_def)
qed

lemma ownDel_big:
  assumes ok: "registryOk sl g" and s: "sl_big (sl s)"
      and reg: "regAbs sl (og_big g) (sl_data (sl s)) = Some s"
  shows "\<exists>g'. ownDel sl g s = Some g' \<and> registryOk sl g' \<and>
           regAbs sl (og_big g') = (regAbs sl (og_big g))(sl_data (sl s) := None) \<and> og_own g' = og_own g"
proof -
  have k: "ownKeyOf sl s = sl_data (sl s)" using s by (simp add: ownKeyOf_def)
  obtain rg where rg: "regDelete sl (og_big g) s True = Some rg" "regTabOk sl True rg"
    "regAbs sl rg = (regAbs sl (og_big g))(sl_data (sl s) := None)"
    using regDelete_ok[of sl True "og_big g" s] ok s reg k by (auto simp: registryOk_def)
  then have "registryOk sl (seqNext (g\<lparr>og_big := rg\<rparr>))"
    using ok by (simp add: registryOk_def seqNext_def)
  then show ?thesis using rg s by (simp add: ownDel_def seqNext_def)
qed

text \<open>The lookup without caches, over the two maps a registry stands for.\<close>

definition ownSlabSpec :: "(addr \<Rightarrow> slab) \<Rightarrow> (addr \<Rightarrow> addr option) \<Rightarrow> (addr \<Rightarrow> addr option) \<Rightarrow> addr \<Rightarrow> addr" where
  "ownSlabSpec sl own big p =
    (case own (slabOf p) of
       Some s \<Rightarrow> if slotHead (sl s) p then s else cellPtr (big p)
     | None \<Rightarrow> cellPtr (big p))"

lemma ownBig_ok:
  assumes ok: "registryOk sl g"
  shows "ownBig sl g p = Some (cellPtr (regAbs sl (og_big g) p))"
proof (cases "rg_cap (og_big g) = 0")
  case True
  then show ?thesis using ok
    by (auto simp: ownBig_def registryOk_def regTabOk_def regAbs_def tabLookup_def cellPtr_def)
next
  case False
  have okb: "regTabOk sl True (og_big g)" using ok by (simp add: registryOk_def)
  obtain i where i: "ownSlotOf sl (rg_tab (og_big g)) (rg_cap (og_big g)) p True = Some i"
    "rg_tab (og_big g) ! i = regAbs sl (og_big g) p" using regTabOk_find[OF okb False] by blast
  have "sl_data (sl s) = p" if "regAbs sl (og_big g) p = Some s" for s
    using regAbs_key[OF okb that] by (auto simp: ownKeyOf_def)
  then show ?thesis using False i
    by (auto simp: ownBig_def Let_def cellPtr_def split: option.splits)
qed

lemma ownProbeFast_ok:
  assumes ok: "registryOk sl g"
  shows "ownProbeFast sl g b False = Some (cellPtr (regAbs sl (og_own g) b))"
proof (cases "rg_cap (og_own g) = 0")
  case True
  then show ?thesis using ok
    by (auto simp: ownProbeFast_def registryOk_def regTabOk_def regAbs_def tabLookup_def cellPtr_def)
next
  case False
  have okb: "regTabOk sl False (og_own g)" using ok by (simp add: registryOk_def)
  obtain i where "ownSlotOf sl (rg_tab (og_own g)) (rg_cap (og_own g)) b False = Some i"
    "rg_tab (og_own g) ! i = regAbs sl (og_own g) b" using regTabOk_find[OF okb False] by blast
  then show ?thesis using False ok by (simp add: ownProbeFast_def registryOk_def)
qed

lemma regAbs_own_self:
  assumes ok: "registryOk sl g" and s: "regAbs sl (og_own g) b = Some s"
  shows "s = b \<and> s \<noteq> 0"
  using regAbs_key[of sl False "og_own g" b s] ok s by (auto simp: registryOk_def ownKeyOf_def)

lemma registryOk_hot:
  "registryOk sl g \<Longrightarrow> regAbs sl (og_own g) s = Some s \<Longrightarrow> registryOk sl (g\<lparr>og_hot := s\<rparr>)"
  by (simp add: registryOk_def)

lemma ownSlab_spec:
  assumes ok: "registryOk sl g"
  shows "\<exists>h. ownSlab sl g p =
           Some (ownSlabSpec sl (regAbs sl (og_own g)) (regAbs sl (og_big g)) p, g\<lparr>og_hot := h\<rparr>) \<and>
         registryOk sl (g\<lparr>og_hot := h\<rparr>)"
proof -
  let ?b = "slabOf p" and ?own = "regAbs sl (og_own g)" and ?big = "regAbs sl (og_big g)"
  have id: "g\<lparr>og_hot := og_hot g\<rparr> = g" by simp
  have hot: "?own ?b = Some ?b" if "og_hot g \<noteq> 0" "og_hot g = ?b"
    using ok that by (auto simp: registryOk_def)
  have mp: "?own ?b = Some ?b" if "og_map g ! ownHashOf ?b \<noteq> 0" "og_map g ! ownHashOf ?b = ?b"
    using ok that ownHashOf_lt[of ?b] by (auto simp: registryOk_def)
  show ?thesis
  proof (cases "?own ?b")
    case None
    then have "ownSlab sl g p = Some (cellPtr (?big p), g)"
      using hot mp ownProbeFast_ok[OF ok, of ?b] ownBig_ok[OF ok, of p]
      by (auto simp: ownSlab_def Let_def cellPtr_def)
    then show ?thesis using None ok id by (intro exI[of _ "og_hot g"]) (simp add: ownSlabSpec_def)
  next
    case (Some s)
    then have s: "s = ?b" "?b \<noteq> 0" using regAbs_own_self[OF ok Some] by auto
    show ?thesis
    proof (cases "slotHead (sl ?b) p")
      case True
      then have "ownSlab sl g p = Some (?b, g\<lparr>og_hot := ?b\<rparr>)"
        using s Some ownProbeFast_ok[OF ok, of ?b] id
        by (auto simp: ownSlab_def Let_def cellPtr_def)
      then show ?thesis using True s Some registryOk_hot[OF ok, of ?b]
        by (intro exI[of _ ?b]) (simp add: ownSlabSpec_def)
    next
      case False
      then have "ownSlab sl g p = Some (cellPtr (?big p), g)"
        using s Some ownProbeFast_ok[OF ok, of ?b] ownBig_ok[OF ok, of p]
        by (auto simp: ownSlab_def Let_def cellPtr_def)
      then show ?thesis using False s Some ok id
        by (intro exI[of _ "og_hot g"]) (simp add: ownSlabSpec_def)
    qed
  qed
qed

end
