(* ===== verification/Rc_Heap.thy ===== *)
theory Rc_Heap
  imports Rc_Registry
begin

text \<open>
  The state of the reclamation runtime of \<open>src/back/reclaim.c\<close> and the operations on slots that
  marking, sweeping and the stores share. Memory is a map from byte addresses to the 64-bit word
  stored there; headers and regions are looked up by address. The registry appears as the two
  maps its tables stand for (\<open>hp_own\<close>, \<open>hp_big\<close>): theory Rc_Registry shows that every insertion,
  deletion and cached lookup of the real tables is the corresponding operation on these maps.
  The chain of slabs of a region and the chains of a size class are lists of header addresses;
  a cursor into the chain (\<open>swSlab\<close>, \<open>seedSlab\<close>) is the remaining suffix of the list. The model
  is the default configuration without holder counts (\<open>EXTC_RC_NOCOUNT = 1\<close>) and without the
  timing counters.
\<close>

record region =
  r_slabs :: "addr list"
  r_bumpSlab :: addr
  r_hot :: "addr list"
  r_cls :: "(nat \<times> addr list) list list"
  r_bump :: addr
  r_bumpEnd :: addr
  r_bytes :: int
  r_allocBytes :: int
  r_visited :: int
  r_roundVisited :: int
  r_live :: int
  r_thr :: int
  r_floor :: int
  r_scale :: int
  r_sweeps :: nat
  r_freed :: nat
  r_sweeping :: bool
  r_swRest :: "addr list"
  r_swWord :: nat
  r_swId :: nat
  r_swFreed :: nat
  r_marking :: bool
  r_markDone :: bool
  r_markedBytes :: int
  r_markTick :: int
  r_markStart :: int
  r_wbDebt :: nat
  r_seedRest :: "addr list"
  r_seedWord :: nat
  r_seedsDone :: bool
  r_seedAny :: bool
  r_foreign :: bool
  r_rid :: int
  r_noSweep :: bool
  r_part :: bool
  r_owe :: bool
  r_stk :: "nat list"
  r_mscap :: nat
  r_scanObj :: addr
  r_scanOff :: nat

record pin =
  pn_v :: addr
  pn_rg :: addr
  pn_n :: nat

record heap =
  hp_mem :: "addr \<Rightarrow> 64 word"
  hp_desc :: "nat \<Rightarrow> nat list"
  hp_slab :: "addr \<Rightarrow> slab"
  hp_own :: "addr \<Rightarrow> addr option"
  hp_big :: "addr \<Rightarrow> addr option"
  hp_reg :: "addr \<Rightarrow> region"
  hp_partN :: nat
  hp_wb :: int
  hp_rsInc :: int
  hp_rsDec :: int
  hp_rsHwm :: int
  hp_shGen :: nat
  hp_shCache :: "nat \<Rightarrow> addr"
  hp_pins :: "pin table"
  hp_pinN :: nat
  hp_relN :: int
  hp_relSlots :: int

definition updSlab :: "addr \<Rightarrow> (slab \<Rightarrow> slab) \<Rightarrow> heap \<Rightarrow> heap" where
  "updSlab a f h = h\<lparr>hp_slab := (hp_slab h)(a := f (hp_slab h a))\<rparr>"

definition updReg :: "addr \<Rightarrow> (region \<Rightarrow> region) \<Rightarrow> heap \<Rightarrow> heap" where
  "updReg r f h = h\<lparr>hp_reg := (hp_reg h)(r := f (hp_reg h r))\<rparr>"

definition ldPtr :: "heap \<Rightarrow> addr \<Rightarrow> addr" where
  "ldPtr h a = unat (hp_mem h a)"

definition stPtr :: "addr \<Rightarrow> addr \<Rightarrow> heap \<Rightarrow> heap" where
  "stPtr a v h = h\<lparr>hp_mem := (hp_mem h)(a := of_nat v)\<rparr>"

definition hOwn :: "heap \<Rightarrow> addr \<Rightarrow> addr" where
  "hOwn h p = ownSlabSpec (hp_slab h) (hp_own h) (hp_big h) p"

text \<open>\<open>extc_rc_owns\<close>: a slot of the runtime that is still occupied.\<close>

definition owns :: "heap \<Rightarrow> addr \<Rightarrow> bool" where
  "owns h p = (let s = hOwn h p in
     if s = 0 then False else occAt (hp_slab h s) (slotOf (hp_slab h s) p))"

definition regionOfOwn :: "heap \<Rightarrow> addr \<Rightarrow> addr" where
  "regionOfOwn h p = (let s = hOwn h p in if s = 0 then 0 else sl_region (hp_slab h s))"

text \<open>\<open>extc_rc_notePart\<close>.\<close>

definition notePart :: "addr \<Rightarrow> heap \<Rightarrow> heap" where
  "notePart r h = (if r \<noteq> 0 \<and> \<not> r_part (hp_reg h r)
     then (updReg r (\<lambda>x. x\<lparr>r_part := True\<rparr>) h)\<lparr>hp_partN := hp_partN h + 1\<rparr> else h)"

section \<open>Cross-region edges: \<open>rscnt\<close> and \<open>rsbit\<close>\<close>

definition rsAlloc :: "slab \<Rightarrow> slab" where
  "rsAlloc s = (case sl_rscnt s of
     Some _ \<Rightarrow> s | None \<Rightarrow> s\<lparr>sl_rscnt := Some (replicate (sl_nslots s) 0)\<rparr>)"

definition rsCell :: "slab \<Rightarrow> nat \<Rightarrow> nat" where
  "rsCell s i = (case sl_rscnt s of None \<Rightarrow> 0 | Some c \<Rightarrow> c ! i)"

definition rsPut :: "nat \<Rightarrow> nat \<Rightarrow> slab \<Rightarrow> slab" where
  "rsPut i v s = s\<lparr>sl_rscnt := map_option (\<lambda>c. c[i := v]) (sl_rscnt s)\<rparr>"

text \<open>\<open>extc_rc_rsIncSlab\<close>: a saturated count stays; the first edge sets the registration bit.\<close>

definition rsIncSlab :: "addr \<Rightarrow> addr \<Rightarrow> heap \<Rightarrow> heap" where
  "rsIncSlab s t h = (let i = slotOf (hp_slab h s) t in
     if \<not> occAt (hp_slab h s) i then h
     else (let h1 = updSlab s rsAlloc h; c = rsCell (hp_slab h1 s) i in
       if c = RC_HOLD_SAT then h1
       else (let h2 = updSlab s (rsPut i ((c + 1) mod 2 ^ 16)) h1;
                 h3 = (if c = 0 then
                         updReg (sl_region (hp_slab h2 s)) (\<lambda>x. x\<lparr>r_seedAny := True\<rparr>)
                           (updSlab s (\<lambda>x. x\<lparr>sl_rsbit := bmSet (sl_rsbit x) i\<rparr>) h2)
                       else h2);
                 inc = hp_rsInc h3 + 1
             in h3\<lparr>hp_rsInc := inc,
                   hp_rsHwm := (if inc - hp_rsDec h3 > hp_rsHwm h3 then inc - hp_rsDec h3
                                else hp_rsHwm h3)\<rparr>)))"

definition rsInc :: "addr \<Rightarrow> heap \<Rightarrow> heap" where
  "rsInc t h = (let s = hOwn h t in if s = 0 then h else rsIncSlab s t h)"

text \<open>\<open>extc_rc_rsDecSlab\<close>: the last edge clears the registration bit.\<close>

definition rsDecSlab :: "addr \<Rightarrow> addr \<Rightarrow> heap \<Rightarrow> heap" where
  "rsDecSlab s t h = (let i = slotOf (hp_slab h s) t; c = rsCell (hp_slab h s) i in
     if \<not> occAt (hp_slab h s) i then h
     else if sl_rscnt (hp_slab h s) = None \<or> c = 0 \<or> c = RC_HOLD_SAT then h
     else (let h1 = updSlab s (rsPut i (c - 1)) h;
               h2 = (if c - 1 = 0 then updSlab s (\<lambda>x. x\<lparr>sl_rsbit := bmClr (sl_rsbit x) i\<rparr>) h1 else h1)
           in h2\<lparr>hp_rsDec := hp_rsDec h2 + 1\<rparr>))"

definition rsDec :: "addr \<Rightarrow> heap \<Rightarrow> heap" where
  "rsDec t h = (let s = hOwn h t in if s = 0 then h else rsDecSlab s t h)"

definition rsCount :: "heap \<Rightarrow> addr \<Rightarrow> nat" where
  "rsCount h p = (let s = hOwn h p; i = slotOf (hp_slab h s) p in
     if s = 0 then 0 else if \<not> occAt (hp_slab h s) i then 0 else rsCell (hp_slab h s) i)"

definition rsRegister :: "addr \<Rightarrow> heap \<Rightarrow> heap" where
  "rsRegister p h = (if \<not> owns h p then h
     else (let s = hOwn h p; i = slotOf (hp_slab h s) p in
       if bmGet (sl_rsbit (hp_slab h s)) i then h
       else updReg (sl_region (hp_slab h s)) (\<lambda>x. x\<lparr>r_seedAny := True\<rparr>)
              (updSlab s (\<lambda>x. x\<lparr>sl_rsbit := bmSet (sl_rsbit x) i\<rparr>) h)))"

definition isRegistered :: "heap \<Rightarrow> addr \<Rightarrow> bool" where
  "isRegistered h p = (let s = hOwn h p in
     if s = 0 then False else bmGet (sl_rsbit (hp_slab h s)) (slotOf (hp_slab h s) p))"

section \<open>The reference fields of a slot\<close>

text \<open>The words the marking, the release and the unlinking read: every word of a slot with the
  conservative descriptor, none without a descriptor, else the listed offsets.\<close>

definition slotWords :: "slab \<Rightarrow> nat" where
  "slotWords s = sl_ss s div 8"

definition fieldAddrs :: "heap \<Rightarrow> addr \<Rightarrow> nat \<Rightarrow> addr list" where
  "fieldAddrs h s i = (let sl = hp_slab h s; p = slotAddr sl i; t = typeOf sl i in
     if t = RC_CONSERVATIVE then map (\<lambda>w. p + 8 * w) [0..<slotWords sl]
     else if t = 0 then []
     else map (\<lambda>off. p + off) (hp_desc h t))"

definition fieldVals :: "heap \<Rightarrow> addr \<Rightarrow> nat \<Rightarrow> addr list" where
  "fieldVals h s i = map (ldPtr h) (fieldAddrs h s i)"

text \<open>\<open>extc_rc_unlinkChildren\<close>: the edges of a dying slot into other regions are withdrawn.\<close>

definition unlinkChild :: "addr \<Rightarrow> addr \<Rightarrow> heap \<Rightarrow> heap" where
  "unlinkChild s c h = (if c = 0 then h
     else (let cs = hOwn h c in
       if cs \<noteq> 0 \<and> sl_region (hp_slab h cs) \<noteq> sl_region (hp_slab h s) then rsDecSlab cs c h else h))"

definition unlinkChildren :: "addr \<Rightarrow> nat \<Rightarrow> heap \<Rightarrow> heap" where
  "unlinkChildren s i h = fold (unlinkChild s) (fieldVals h s i) h"

section \<open>Size classes\<close>

definition classChain :: "region \<Rightarrow> nat \<Rightarrow> addr list option" where
  "classChain r ss = map_of (r_cls r ! classBucket ss) ss"

text \<open>Replaces the chain of a class that exists.\<close>

fun chainPut :: "nat \<Rightarrow> addr list \<Rightarrow> (nat \<times> addr list) list \<Rightarrow> (nat \<times> addr list) list" where
  "chainPut ss c [] = []"
| "chainPut ss c ((k, x) # cs) = (if k = ss then (k, c) # cs else (k, x) # chainPut ss c cs)"

definition setChain :: "nat \<Rightarrow> addr list \<Rightarrow> region \<Rightarrow> region" where
  "setChain ss c r = r\<lparr>r_cls := (r_cls r)[classBucket ss := chainPut ss c (r_cls r ! classBucket ss)]\<rparr>"

definition classNeed :: "nat \<Rightarrow> region \<Rightarrow> region" where
  "classNeed ss r = (case classChain r ss of
     Some _ \<Rightarrow> r
   | None \<Rightarrow> r\<lparr>r_cls := (r_cls r)[classBucket ss := (ss, []) # r_cls r ! classBucket ss]\<rparr>)"

definition classPush :: "addr \<Rightarrow> addr \<Rightarrow> heap \<Rightarrow> heap" where
  "classPush r s h = (let ss = sl_ss (hp_slab h s) in
     updSlab s (\<lambda>x. x\<lparr>sl_avail := True\<rparr>)
       (updReg r (\<lambda>x. let y = classNeed ss x in setChain ss (s # the (classChain y ss)) y) h))"

section \<open>Giving a slot back\<close>

definition freeSlotLink :: "addr \<Rightarrow> nat \<Rightarrow> heap \<Rightarrow> heap" where
  "freeSlotLink s i h =
    (let h1 = (if hp_rsInc h \<noteq> 0 then unlinkChildren s i h else h)
     in updSlab s (\<lambda>x. x\<lparr>sl_tid := (sl_tid x)[i := nat ((sl_free x + 1) mod 2 ^ 16)],
                          sl_free := int i\<rparr>) h1)"

definition clearRs :: "nat \<Rightarrow> slab \<Rightarrow> slab" where
  "clearRs i s = s\<lparr>sl_rscnt := map_option (\<lambda>c. c[i := 0]) (sl_rscnt s)\<rparr>"

definition freeSlot :: "addr \<Rightarrow> nat \<Rightarrow> heap \<Rightarrow> heap" where
  "freeSlot s i h =
    (let h1 = freeSlotLink s i h;
         h2 = updSlab s (\<lambda>x. clearRs i (x\<lparr>sl_occ := bmClr (sl_occ x) i, sl_rsbit := bmClr (sl_rsbit x) i\<rparr>)) h1;
         r = sl_region (hp_slab h2 s);
         h3 = updReg r (\<lambda>x. x\<lparr>r_bytes := r_bytes x - int (sl_ss (hp_slab h2 s)), r_freed := r_freed x + 1\<rparr>) h2
     in if sl_avail (hp_slab h3 s) then h3 else classPush r s h3)"

text \<open>\<open>extc_rc_freeSlotWord\<close>: the dead slots of one 64-slot word, lowest first.\<close>

definition linkSlot :: "nat \<Rightarrow> slab \<Rightarrow> slab" where
  "linkSlot i x = x\<lparr>sl_tid := (sl_tid x)[i := nat ((sl_free x + 1) mod 2 ^ 16)], sl_free := int i\<rparr>"

definition freeSlotWord :: "addr \<Rightarrow> nat \<Rightarrow> 64 word \<Rightarrow> heap \<Rightarrow> heap \<times> nat" where
  "freeSlotWord s w dead h =
    (let is = map (\<lambda>b. w * 64 + b) (setBits dead);
         h1 = (if hp_rsInc h \<noteq> 0 then fold (unlinkChildren s) is h else h);
         h2 = updSlab s (fold linkSlot is) h1;
         h3 = updSlab s (fold clearRs is) h2;
         h4 = updSlab s (\<lambda>x. x\<lparr>sl_occ := (sl_occ x)[w := sl_occ x ! w AND NOT dead],
                               sl_rsbit := (sl_rsbit x)[w := sl_rsbit x ! w AND NOT dead]\<rparr>) h3;
         n = length is;
         r = sl_region (hp_slab h4 s);
         h5 = updReg r (\<lambda>x. x\<lparr>r_bytes := r_bytes x - int n * int (sl_ss (hp_slab h4 s)),
                               r_freed := r_freed x + n\<rparr>) h4
     in (if sl_avail (hp_slab h5 s) then h5 else classPush r s h5, n))"

section \<open>Opening a slab\<close>

text \<open>What the C allocator answers when a slab is opened: the address of the header (of the
  aligned block), the address of the payload of an oversized block, and whether the bitmaps and
  tables could be allocated. An address 0 is a failed allocation.\<close>

record mallocs =
  ma_hdr :: addr
  ma_data :: addr
  ma_meta :: bool

definition slabInit :: "addr \<Rightarrow> nat \<Rightarrow> mallocs \<Rightarrow> slab" where
  "slabInit r ss m = (let big = slabBig ss; n = slabSlots ss in
     \<lparr>sl_region = r, sl_occ = replicate (slabWords n) 0, sl_mark = replicate (slabWords n) 0,
      sl_rsbit = replicate (slabWords n) 0, sl_rscnt = None, sl_tid = replicate n 0,
      sl_tt = ttabNew, sl_data = (if big then ma_data m else ma_hdr m + RC_SLAB_HDR), sl_big = big,
      sl_free = -1, sl_bump = 0, sl_ss = ss, sl_rcp = rcpOf ss, sl_nslots = n,
      sl_nwords = slabWords n, sl_epoch = 0, sl_avail = False\<rparr>)"

definition slabNew :: "addr \<Rightarrow> nat \<Rightarrow> mallocs \<Rightarrow> heap \<Rightarrow> (addr \<times> heap) option" where
  "slabNew r ss m h =
    (let s = slabInit r ss m; a = ma_hdr m in
     if a = 0 \<or> (sl_big s \<and> ma_data m = 0) then None
     else if sl_nslots s > RC_REUSE_MAX_SLOT then None
     else if \<not> ma_meta m then None
     else Some (a, h\<lparr>hp_slab := (hp_slab h)(a := s),
                     hp_own := (if sl_big s then hp_own h else (hp_own h)(a \<mapsto> a)),
                     hp_big := (if sl_big s then (hp_big h)(sl_data s \<mapsto> a) else hp_big h)\<rparr>))"

section \<open>Field updates\<close>

lemma updSlab_simps [simp]:
  "hp_mem (updSlab a f h) = hp_mem h" "hp_desc (updSlab a f h) = hp_desc h"
  "hp_slab (updSlab a f h) = (hp_slab h)(a := f (hp_slab h a))"
  "hp_own (updSlab a f h) = hp_own h" "hp_big (updSlab a f h) = hp_big h"
  "hp_reg (updSlab a f h) = hp_reg h" "hp_partN (updSlab a f h) = hp_partN h"
  "hp_wb (updSlab a f h) = hp_wb h" "hp_rsInc (updSlab a f h) = hp_rsInc h"
  "hp_rsDec (updSlab a f h) = hp_rsDec h" "hp_rsHwm (updSlab a f h) = hp_rsHwm h"
  "hp_shGen (updSlab a f h) = hp_shGen h" "hp_shCache (updSlab a f h) = hp_shCache h"
  "hp_pins (updSlab a f h) = hp_pins h" "hp_pinN (updSlab a f h) = hp_pinN h"
  by (simp_all add: updSlab_def)

lemma updReg_simps [simp]:
  "hp_mem (updReg r f h) = hp_mem h" "hp_desc (updReg r f h) = hp_desc h"
  "hp_reg (updReg r f h) = (hp_reg h)(r := f (hp_reg h r))"
  "hp_own (updReg r f h) = hp_own h" "hp_big (updReg r f h) = hp_big h"
  "hp_slab (updReg r f h) = hp_slab h" "hp_partN (updReg r f h) = hp_partN h"
  "hp_wb (updReg r f h) = hp_wb h" "hp_rsInc (updReg r f h) = hp_rsInc h"
  "hp_rsDec (updReg r f h) = hp_rsDec h" "hp_rsHwm (updReg r f h) = hp_rsHwm h"
  "hp_shGen (updReg r f h) = hp_shGen h" "hp_shCache (updReg r f h) = hp_shCache h"
  "hp_pins (updReg r f h) = hp_pins h" "hp_pinN (updReg r f h) = hp_pinN h"
  by (simp_all add: updReg_def)

section \<open>Well-formed heaps\<close>

definition slabShape :: "slab \<Rightarrow> bool" where
  "slabShape x \<longleftrightarrow>
     length (sl_occ x) = sl_nwords x \<and> length (sl_mark x) = sl_nwords x \<and>
     length (sl_rsbit x) = sl_nwords x \<and> length (sl_tid x) = sl_nslots x \<and>
     (\<forall>c. sl_rscnt x = Some c \<longrightarrow> length c = sl_nslots x) \<and> ttOk (sl_tt x) \<and>
     (\<forall>i. rcWord i < sl_nwords x \<longrightarrow> occAt x i \<longrightarrow> i < sl_nslots x \<and> sl_tid x ! i < length (tt_tab (sl_tt x)))"

definition registered :: "heap \<Rightarrow> addr \<Rightarrow> bool" where
  "registered h s \<longleftrightarrow> hp_own h s = Some s \<or> (\<exists>d. hp_big h d = Some s)"

text \<open>The header of an oversized block comes from \<open>calloc\<close>; that it does not lie on a block boundary
  is an assumption on the allocator: the de-duplication test of the marking compares a block base
  with a header address.\<close>

definition heapWf :: "heap \<Rightarrow> bool" where
  "heapWf h \<longleftrightarrow>
     (\<forall>b s. hp_own h b = Some s \<longrightarrow> s = b \<and> geomOk b (hp_slab h b) \<and> \<not> sl_big (hp_slab h b) \<and>
        slabShape (hp_slab h b)) \<and>
     (\<forall>d s. hp_big h d = Some s \<longrightarrow> geomOk s (hp_slab h s) \<and> sl_big (hp_slab h s) \<and>
        sl_data (hp_slab h s) = d \<and> hp_own h (slabOf d) = None \<and> slabShape (hp_slab h s) \<and>
        s mod RC_SLAB_SIZE \<noteq> 0)"

lemma registered_wf:
  assumes "heapWf h" "registered h s"
  shows "geomOk s (hp_slab h s)" "slabShape (hp_slab h s)" "s \<noteq> 0"
  using assms by (auto simp: heapWf_def registered_def geomOk_def)

lemma hOwn_slotAddr:
  assumes wf: "heapWf h" and s: "registered h s" and i: "i < sl_nslots (hp_slab h s)"
  shows "hOwn h (slotAddr (hp_slab h s) i) = s"
proof (cases "hp_own h s = Some s")
  case True
  then have g: "geomOk s (hp_slab h s)" "\<not> sl_big (hp_slab h s)" using wf by (auto simp: heapWf_def)
  have "slabOf (slotAddr (hp_slab h s) i) = s" by (rule slabOf_slotAddr[OF g i])
  moreover have "slotHead (hp_slab h s) (slotAddr (hp_slab h s) i)"
    using slotHead_iff[OF g _ slotAddr_top[OF g(1) i]] slabOf_slotAddr[OF g i] i by blast
  ultimately show ?thesis using True by (simp add: hOwn_def ownSlabSpec_def)
next
  case False
  then obtain d where d: "hp_big h d = Some s" using s by (auto simp: registered_def)
  then have b: "geomOk s (hp_slab h s)" "sl_big (hp_slab h s)" "sl_data (hp_slab h s) = d"
    "hp_own h (slabOf d) = None" using wf unfolding heapWf_def by blast+
  then have "i = 0" using i by (simp add: geomOk_def)
  then show ?thesis using b d by (simp add: hOwn_def ownSlabSpec_def slotAddr_def cellPtr_def)
qed

lemma hOwn_obj:
  assumes wf: "heapWf h" and p: "p < 2 ^ 64" and s: "hOwn h p = s" "s \<noteq> 0"
  shows "registered h s \<and> slotOf (hp_slab h s) p < sl_nslots (hp_slab h s) \<and>
         p = slotAddr (hp_slab h s) (slotOf (hp_slab h s) p)"
proof -
  have main: "registered h s \<and> (\<exists>i < sl_nslots (hp_slab h s). p = slotAddr (hp_slab h s) i)"
  proof (cases "\<exists>b. hp_own h (slabOf p) = Some b \<and> slotHead (hp_slab h b) p")
    case True
    then obtain b where b: "hp_own h (slabOf p) = Some b" "slotHead (hp_slab h b) p" by blast
    then have bs: "b = slabOf p" using wf by (auto simp: heapWf_def)
    then have "b = s" using b s by (simp add: hOwn_def ownSlabSpec_def)
    moreover have g: "geomOk b (hp_slab h b)" "\<not> sl_big (hp_slab h b)"
      using wf b bs by (auto simp: heapWf_def)
    moreover have "\<exists>i < sl_nslots (hp_slab h b). p = slotAddr (hp_slab h b) i"
      using slotHead_iff[OF g bs[symmetric] p] b(2) by blast
    ultimately show ?thesis using b bs by (auto simp: registered_def)
  next
    case False
    then have "hp_big h p = Some s"
      using s by (auto simp: hOwn_def ownSlabSpec_def cellPtr_def split: option.splits if_splits)
    then have "geomOk s (hp_slab h s)" "sl_big (hp_slab h s)" "sl_data (hp_slab h s) = p" "registered h s"
      using wf by (auto simp: heapWf_def registered_def)
    then show ?thesis by (auto simp: geomOk_def slotAddr_def intro!: exI[of _ 0])
  qed
  then obtain i where i: "i < sl_nslots (hp_slab h s)" "p = slotAddr (hp_slab h s) i" by blast
  have "slotOf (hp_slab h s) p = i"
    using slotOf_slotAddr[OF registered_wf(1)[OF wf] i(1)] main i(2) by simp
  then show ?thesis using main i by simp
qed

text \<open>The fields of a header that a lookup depends on, and heaps that agree on them.\<close>

definition headOf :: "slab \<Rightarrow> addr \<times> addr \<times> bool \<times> nat \<times> nat \<times> nat \<times> nat" where
  "headOf x = (sl_region x, sl_data x, sl_big x, sl_ss x, sl_rcp x, sl_nslots x, sl_nwords x)"

definition sameHeads :: "heap \<Rightarrow> heap \<Rightarrow> bool" where
  "sameHeads h h' \<longleftrightarrow> hp_own h' = hp_own h \<and> hp_big h' = hp_big h \<and>
     (\<forall>a. headOf (hp_slab h' a) = headOf (hp_slab h a))"

lemma sameHeads_refl [simp]: "sameHeads h h"
  by (simp add: sameHeads_def)

lemma sameHeads_trans: "sameHeads a b \<Longrightarrow> sameHeads b c \<Longrightarrow> sameHeads a c"
  by (simp add: sameHeads_def)

lemma headOf_eqD:
  assumes "headOf x = headOf y"
  shows "sl_region x = sl_region y" "sl_data x = sl_data y" "sl_big x = sl_big y" "sl_ss x = sl_ss y"
    "sl_rcp x = sl_rcp y" "sl_nslots x = sl_nslots y" "sl_nwords x = sl_nwords y"
    "slotOf x = slotOf y" "slotAddr x = slotAddr y" "slotHead x = slotHead y" "geomOk a x = geomOk a y"
    "slotWords x = slotWords y"
  using assms
  by (auto simp: headOf_def fun_eq_iff slotOf_def slotOfOff_def offOf_def slotAddr_def slotHead_def
      geomOk_def slotWords_def)

lemma sameHeads_hOwn:
  assumes "sameHeads h h'"
  shows "hOwn h' p = hOwn h p"
proof -
  have "slotHead (hp_slab h' s) p = slotHead (hp_slab h s) p" for s
    using assms headOf_eqD(10) unfolding sameHeads_def by metis
  then show ?thesis
    using assms by (simp add: hOwn_def ownSlabSpec_def sameHeads_def split: option.split)
qed

lemma sameHeads_updReg [simp]: "sameHeads h (updReg r f h)"
  by (simp add: sameHeads_def)

lemma sameHeads_updSlab: "(\<And>x. headOf (f x) = headOf x) \<Longrightarrow> sameHeads h (updSlab a f h)"
  by (simp add: sameHeads_def)

end
