(* ===== verification/Rc_Pins.thy ===== *)
theory Rc_Pins
  imports Rc_Heap
begin

text \<open>
  The pin table of \<open>src/back/reclaim.c\<close>: the values stored into slots whose host cannot be
  proved (\<open>extc_rc_storeRefUnknown\<close>) are kept alive as roots, counted per value. An
  open-addressing table over \<open>hp_pins\<close>, at most half full, with back-shift deletion. The
  outcome of the \<open>calloc\<close> of \<open>extc_rc_pinGrow\<close> is an argument. A result of None is a loop that
  does not end.
\<close>

definition pinHashOf :: "addr \<Rightarrow> nat" where
  "pinHashOf v = ((v div 8) * 0x9E3779B97F4A7C15 mod 2 ^ 64) div 2 ^ 32"

definition pinHome :: "addr \<Rightarrow> nat \<Rightarrow> nat" where
  "pinHome v cap = pinHashOf v AND (cap - 1)"

definition pinMove :: "nat \<Rightarrow> nat \<Rightarrow> nat \<Rightarrow> bool" where
  "pinMove hole j k =
    (let inRange = (if hole \<le> j then k > hole \<and> k \<le> j else k > hole \<or> k \<le> j) in \<not> inRange)"

definition pinEraseAt :: "nat \<Rightarrow> heap \<Rightarrow> heap option" where
  "pinEraseAt i h =
    (case oaErase pinMove (\<lambda>e. pinHome (pn_v e) (length (hp_pins h))) (hp_pins h) i i
            (length (hp_pins h)) of
       None \<Rightarrow> None
     | Some t \<Rightarrow> Some (h\<lparr>hp_pins := t, hp_pinN := hp_pinN h - 1\<rparr>))"

text \<open>The inner option is the failed \<open>calloc\<close>.\<close>

definition pinGrow :: "bool \<Rightarrow> heap \<Rightarrow> heap option option" where
  "pinGrow mem h =
    (let cap = (if length (hp_pins h) \<noteq> 0 then length (hp_pins h) * 2 else 128)
     in if \<not> mem then Some None
        else (case oaRehash (\<lambda>e. pinHome (pn_v e) cap) (hp_pins h) (replicate cap None) of
                None \<Rightarrow> None
              | Some t \<Rightarrow> Some (Some (h\<lparr>hp_pins := t\<rparr>))))"

definition pinProbe :: "addr \<Rightarrow> heap \<Rightarrow> nat option" where
  "pinProbe v h = oaProbe pn_v (hp_pins h) v (pinHome v (length (hp_pins h))) (length (hp_pins h))"

definition pinPut :: "addr \<Rightarrow> heap \<Rightarrow> heap option" where
  "pinPut v h =
    (case pinProbe v h of
       None \<Rightarrow> None
     | Some i \<Rightarrow>
        (case hp_pins h ! i of
           Some e \<Rightarrow> Some (h\<lparr>hp_pins := (hp_pins h)[i := Some (e\<lparr>pn_n := pn_n e + 1\<rparr>)]\<rparr>)
         | None \<Rightarrow> Some (h\<lparr>hp_pins := (hp_pins h)[i := Some \<lparr>pn_v = v, pn_rg = regionOfOwn h v, pn_n = 1\<rparr>],
                           hp_pinN := hp_pinN h + 1\<rparr>)))"

text \<open>The flag is the return value: False when the value could not be pinned.\<close>

definition pinAdd :: "bool \<Rightarrow> addr \<Rightarrow> heap \<Rightarrow> (bool \<times> heap) option" where
  "pinAdd mem v h =
    (if v = 0 \<or> \<not> owns h v then Some (True, h)
     else if (hp_pinN h + 1) * 2 > length (hp_pins h) then
       (case pinGrow mem h of
          None \<Rightarrow> None
        | Some None \<Rightarrow> Some (False, h)
        | Some (Some h1) \<Rightarrow> map_option (Pair True) (pinPut v h1))
     else map_option (Pair True) (pinPut v h))"

definition pinSub :: "addr \<Rightarrow> heap \<Rightarrow> heap option" where
  "pinSub v h =
    (if v = 0 then Some h
     else if hp_pinN h = 0 then Some h
     else (case pinProbe v h of
             None \<Rightarrow> None
           | Some i \<Rightarrow>
              (case hp_pins h ! i of
                 None \<Rightarrow> Some h
               | Some e \<Rightarrow>
                   if pn_n e > 1 then Some (h\<lparr>hp_pins := (hp_pins h)[i := Some (e\<lparr>pn_n := pn_n e - 1\<rparr>)]\<rparr>)
                   else pinEraseAt i h)))"

text \<open>The loop of \<open>extc_rc_pinDropRegion\<close>; every turn either advances the cell or removes an
  entry, so \<open>cap + pinN\<close> turns are enough.\<close>

fun pinDropLoop :: "addr \<Rightarrow> nat \<Rightarrow> nat \<Rightarrow> heap \<Rightarrow> heap option" where
  "pinDropLoop r i 0 h = None"
| "pinDropLoop r i (Suc n) h =
    (if i < length (hp_pins h) then
       (case hp_pins h ! i of
          None \<Rightarrow> pinDropLoop r (i + 1) n h
        | Some e \<Rightarrow>
            if pn_rg e = r then
              (case pinEraseAt i h of None \<Rightarrow> None | Some h1 \<Rightarrow> pinDropLoop r i n h1)
            else pinDropLoop r (i + 1) n h)
     else Some h)"

definition pinDropRegion :: "addr \<Rightarrow> heap \<Rightarrow> heap option" where
  "pinDropRegion r h =
    (if hp_pinN h = 0 then Some h
     else pinDropLoop r 0 (length (hp_pins h) + hp_pinN h + 1) h)"

section \<open>The table is a probing table\<close>

interpretation pins: probe_table pn_v pinHome pinMove
proof unfold_locales
  show "pinHome k cap < cap" if "pow2 cap" for cap k
    using and_pow2_lt[OF that] by (simp only: pinHome_def)
  show "pinMove a b h \<longleftrightarrow> ringDist c a b \<le> ringDist c h b"
    if "pow2 c" "a < c" "b < c" "h < c" "a \<noteq> b" for c a b h
    using that by (auto simp: pinMove_def ringDist_def Let_def)
qed

text \<open>How often a value is pinned.\<close>

definition pinCount :: "heap \<Rightarrow> addr \<Rightarrow> nat" where
  "pinCount h v = (case tabLookup pn_v (hp_pins h) v of None \<Rightarrow> 0 | Some e \<Rightarrow> pn_n e)"

definition pinsOk :: "heap \<Rightarrow> bool" where
  "pinsOk h \<longleftrightarrow>
     hp_pinN h = length (entries (hp_pins h)) \<and> 2 * hp_pinN h \<le> length (hp_pins h) \<and>
     (hp_pins h \<noteq> [] \<longrightarrow> wfTab pn_v pinHome (hp_pins h)) \<and>
     (\<forall>e\<in>set (entries (hp_pins h)). pn_v e \<noteq> 0 \<and> 0 < pn_n e)"

lemma pinProbe_ok:
  assumes "pinsOk h" "hp_pins h \<noteq> []"
  shows "\<exists>i. pinProbe v h = Some i \<and> i < length (hp_pins h) \<and>
           hp_pins h ! i = tabLookup pn_v (hp_pins h) v"
proof -
  have wf: "wfTab pn_v pinHome (hp_pins h)" and "2 * length (entries (hp_pins h)) \<le> length (hp_pins h)"
    "length (hp_pins h) \<noteq> 0" using assms by (auto simp: pinsOk_def)
  then have room: "length (entries (hp_pins h)) < length (hp_pins h)" by linarith
  from wf have p2: "pow2 (length (hp_pins h))" by (simp add: wfTab_def)
  obtain i where "pinProbe v h = Some i" using pins.find_total[OF p2 room] by (auto simp: pinProbe_def)
  then show ?thesis using pins.find_sound[OF wf] by (auto simp: pinProbe_def)
qed

lemma pinGrow_ok:
  assumes ok: "pinsOk h"
  shows "\<exists>t. pinGrow True h = Some (Some (h\<lparr>hp_pins := t\<rparr>)) \<and> pinsOk (h\<lparr>hp_pins := t\<rparr>) \<and>
           (hp_pinN h + 1) * 2 \<le> length t \<and> tabLookup pn_v t = tabLookup pn_v (hp_pins h)"
proof -
  let ?t = "hp_pins h"
  define nc :: nat where "nc = (if length ?t \<noteq> 0 then length ?t * 2 else 128)"
  have n: "hp_pinN h = length (entries ?t)" "2 * hp_pinN h \<le> length ?t"
    and wf: "?t \<noteq> [] \<Longrightarrow> wfTab pn_v pinHome ?t" using ok by (auto simp: pinsOk_def)
  have p2: "pow2 nc"
  proof (cases "?t = []")
    case True
    have "(128 :: nat) = 2 ^ 7" by simp
    then show ?thesis unfolding nc_def pow2_def using True by (metis list.size(3))
  next
    case False
    then show ?thesis using wf pow2_double by (auto simp: nc_def wfTab_def)
  qed
  have ld: "(hp_pinN h + 1) * 2 \<le> nc"
  proof (cases "length ?t = 0")
    case False
    then have "(hp_pinN h + 1) * 2 \<le> length ?t * 2" using n(2) by presburger
    then show ?thesis using False by (simp add: nc_def)
  qed (use n(2) in \<open>simp add: nc_def\<close>)
  have dk: "distinct (map pn_v (entries ?t))"
    using wf by (cases "?t = []") (auto simp: wfTab_def)
  have "length (entries ?t) < nc" using ld n by auto
  then obtain t where t: "oaRehash (\<lambda>e. pinHome (pn_v e) nc) ?t (replicate nc None) = Some t"
    "wfTab pn_v pinHome t" "length t = nc" "mset (entries t) = mset (entries ?t)"
    using pins.rehash_ok[of "replicate nc None" nc ?t] wfTab_empty[OF p2] dk by auto
  have st: "length (entries t) = hp_pinN h" "set (entries t) = set (entries ?t)"
    using t(4) n by (metis size_mset) (metis t(4) set_mset_mset)
  have g: "pinGrow True h = Some (Some (h\<lparr>hp_pins := t\<rparr>))"
    unfolding pinGrow_def Let_def nc_def[symmetric] using t(1) by simp
  have okt: "pinsOk (h\<lparr>hp_pins := t\<rparr>)" using ok t(2,3) st ld by (auto simp: pinsOk_def)
  have "tabLookup pn_v t = tabLookup pn_v ?t"
  proof (cases "?t = []")
    case True
    then have "entries t = []" using t(4) by simp
    then show ?thesis using True by (auto simp: tabLookup_def)
  qed (use tabLookup_same[OF wf t(2,4)] in simp)
  then show ?thesis using g okt ld t(3) by blast
qed

lemma pinPut_ok:
  assumes ok: "pinsOk h" and v: "v \<noteq> 0" and room: "(hp_pinN h + 1) * 2 \<le> length (hp_pins h)"
  shows "\<exists>t n. pinPut v h = Some (h\<lparr>hp_pins := t, hp_pinN := n\<rparr>) \<and>
           pinsOk (h\<lparr>hp_pins := t, hp_pinN := n\<rparr>) \<and>
           (\<forall>u. pinCount (h\<lparr>hp_pins := t, hp_pinN := n\<rparr>) u = pinCount h u + (if u = v then 1 else 0))"
proof -
  let ?t = "hp_pins h"
  have ne: "?t \<noteq> []" using room by auto
  have wf: "wfTab pn_v pinHome ?t" using ok ne by (auto simp: pinsOk_def)
  obtain i where i: "pinProbe v h = Some i" "i < length ?t" "?t ! i = tabLookup pn_v ?t v"
    using pinProbe_ok[OF ok ne] by blast
  show ?thesis
  proof (cases "?t ! i")
    case None
    let ?e = "\<lparr>pn_v = v, pn_rg = regionOfOwn h v, pn_n = 1\<rparr>"
    have new: "tabLookup pn_v ?t (pn_v ?e) = None" using None i by simp
    have pr: "oaProbe pn_v ?t (pn_v ?e) (pinHome (pn_v ?e) (length ?t)) (length ?t) = Some i"
      using i(1) by (simp add: pinProbe_def)
    note ins = pins.insert_new[OF wf new pr]
    have "length (entries (?t[i := Some ?e])) = Suc (length (entries ?t))"
      "set (entries (?t[i := Some ?e])) = insert ?e (set (entries ?t))"
      using ins(2) by (metis size_add_mset size_mset, metis set_mset_add_mset_insert set_mset_mset)
    then have okt: "pinsOk (h\<lparr>hp_pins := ?t[i := Some ?e], hp_pinN := hp_pinN h + 1\<rparr>)"
      using ok ins(1) v room by (auto simp: pinsOk_def)
    have "tabLookup pn_v (?t[i := Some ?e]) = (tabLookup pn_v ?t)(v \<mapsto> ?e)"
      using tabLookup_add[OF wf ins(1,2)] by simp
    then have "pinCount (h\<lparr>hp_pins := ?t[i := Some ?e], hp_pinN := hp_pinN h + 1\<rparr>) u =
        pinCount h u + (if u = v then 1 else 0)" for u
      using new by (simp add: pinCount_def)
    then show ?thesis using okt i None
      by (intro exI[of _ "?t[i := Some ?e]"] exI[of _ "hp_pinN h + 1"]) (simp add: pinPut_def)
  next
    case (Some e)
    let ?e = "e\<lparr>pn_n := pn_n e + 1\<rparr>" and ?u = "?t[i := Some (e\<lparr>pn_n := pn_n e + 1\<rparr>)]"
    have lk: "tabLookup pn_v ?t v = Some e" using Some i by simp
    have ev: "pn_v e = v" using lk by (auto simp: tabLookup_def find_Some_iff)
    have "pn_v ?e = pn_v e" by simp
    note re = replace_entry[OF wf i(2) Some this]
    have okt: "pinsOk (h\<lparr>hp_pins := ?u, hp_pinN := hp_pinN h\<rparr>)"
      using ok re ev v by (auto simp: pinsOk_def)
    have "pinCount (h\<lparr>hp_pins := ?u, hp_pinN := hp_pinN h\<rparr>) u =
        pinCount h u + (if u = v then 1 else 0)" for u
      using lk re(2) ev by (simp add: pinCount_def)
    moreover have "pinPut v h = Some (h\<lparr>hp_pins := ?u, hp_pinN := hp_pinN h\<rparr>)"
      using i(1) Some by (simp add: pinPut_def)
    ultimately show ?thesis using okt by blast
  qed
qed

lemma pinAdd_ok:
  assumes ok: "pinsOk h" and v: "v \<noteq> 0" "owns h v"
  shows "\<exists>h'. pinAdd True v h = Some (True, h') \<and> pinsOk h' \<and>
           (\<forall>u. pinCount h' u = pinCount h u + (if u = v then 1 else 0))"
proof (cases "(hp_pinN h + 1) * 2 > length (hp_pins h)")
  case True
  from pinGrow_ok[OF ok] obtain t where t: "pinGrow True h = Some (Some (h\<lparr>hp_pins := t\<rparr>))"
    "pinsOk (h\<lparr>hp_pins := t\<rparr>)" "(hp_pinN h + 1) * 2 \<le> length t"
    "tabLookup pn_v t = tabLookup pn_v (hp_pins h)" by blast
  have c: "pinCount (h\<lparr>hp_pins := t\<rparr>) u = pinCount h u" for u using t(4) by (simp add: pinCount_def)
  obtain t2 n where p: "pinPut v (h\<lparr>hp_pins := t\<rparr>) = Some (h\<lparr>hp_pins := t2, hp_pinN := n\<rparr>)"
    "pinsOk (h\<lparr>hp_pins := t2, hp_pinN := n\<rparr>)"
    "\<forall>u. pinCount (h\<lparr>hp_pins := t2, hp_pinN := n\<rparr>) u = pinCount h u + (if u = v then 1 else 0)"
    using pinPut_ok[OF t(2) v(1)] t(3) c by auto
  then show ?thesis using t(1) v True by (simp add: pinAdd_def)
next
  case False
  then obtain t n where "pinPut v h = Some (h\<lparr>hp_pins := t, hp_pinN := n\<rparr>)"
    "pinsOk (h\<lparr>hp_pins := t, hp_pinN := n\<rparr>)"
    "\<forall>u. pinCount (h\<lparr>hp_pins := t, hp_pinN := n\<rparr>) u = pinCount h u + (if u = v then 1 else 0)"
    using pinPut_ok[OF ok v(1)] by force
  then show ?thesis using v False by (simp add: pinAdd_def)
qed

lemma pinEraseAt_ok:
  assumes ok: "pinsOk h" and i: "i < length (hp_pins h)" "hp_pins h ! i = Some e"
  shows "\<exists>t. pinEraseAt i h = Some (h\<lparr>hp_pins := t, hp_pinN := hp_pinN h - 1\<rparr>) \<and>
           pinsOk (h\<lparr>hp_pins := t, hp_pinN := hp_pinN h - 1\<rparr>) \<and> length t = length (hp_pins h) \<and>
           mset (entries (hp_pins h)) = add_mset e (mset (entries t)) \<and>
           tabLookup pn_v t = (tabLookup pn_v (hp_pins h))(pn_v e := None)"
proof -
  have ne: "hp_pins h \<noteq> []" using i by auto
  have wf: "wfTab pn_v pinHome (hp_pins h)" and "2 * length (entries (hp_pins h)) \<le> length (hp_pins h)"
    "length (hp_pins h) \<noteq> 0" using ok ne by (auto simp: pinsOk_def)
  then have room: "length (entries (hp_pins h)) < length (hp_pins h)" by linarith
  from pins.erase_ok[OF wf room i] obtain t where t:
    "oaErase pinMove (\<lambda>e. pinHome (pn_v e) (length (hp_pins h))) (hp_pins h) i i (length (hp_pins h)) = Some t"
    "length t = length (hp_pins h)" "wfTab pn_v pinHome t"
    "mset (entries (hp_pins h)) = add_mset e (mset (entries t))" by blast
  have "length (entries (hp_pins h)) = Suc (length (entries t))"
    using t(4) by (metis size_add_mset size_mset)
  moreover have "set (entries (hp_pins h)) = insert e (set (entries t))"
    using t(4) by (metis set_mset_add_mset_insert set_mset_mset)
  ultimately have "pinsOk (h\<lparr>hp_pins := t, hp_pinN := hp_pinN h - 1\<rparr>)"
    using ok t by (auto simp: pinsOk_def)
  then show ?thesis using t tabLookup_del[OF t(3) wf t(4)]
    by (intro exI[of _ t]) (simp add: pinEraseAt_def)
qed

lemma pinSub_ok:
  assumes ok: "pinsOk h"
  shows "\<exists>h'. pinSub v h = Some h' \<and> pinsOk h' \<and>
           (\<forall>u. pinCount h' u = pinCount h u - (if u = v \<and> v \<noteq> 0 then 1 else 0))"
proof -
  have zero: "pinCount h 0 = 0"
  proof (cases "tabLookup pn_v (hp_pins h) 0")
    case (Some e)
    then have "e \<in> set (entries (hp_pins h))" "pn_v e = 0"
      by (auto simp: tabLookup_def find_Some_iff)
    then show ?thesis using ok by (auto simp: pinsOk_def)
  qed (simp add: pinCount_def)
  show ?thesis
  proof (cases "v = 0 \<or> hp_pinN h = 0")
    case True
    then have "pinCount h v = 0"
      using zero ok by (auto simp: pinCount_def pinsOk_def tabLookup_def)
    then show ?thesis using True ok by (auto simp: pinSub_def)
  next
    case False
    then have ne: "hp_pins h \<noteq> []" using ok by (auto simp: pinsOk_def)
    then have wf: "wfTab pn_v pinHome (hp_pins h)" using ok by (auto simp: pinsOk_def)
    obtain i where i: "pinProbe v h = Some i" "i < length (hp_pins h)"
      "hp_pins h ! i = tabLookup pn_v (hp_pins h) v" using pinProbe_ok[OF ok ne] by blast
    show ?thesis
    proof (cases "hp_pins h ! i")
      case None
      then have "pinCount h v = 0" using i by (simp add: pinCount_def)
      then show ?thesis using None False i ok by (auto simp: pinSub_def)
    next
      case (Some e)
      have lk: "tabLookup pn_v (hp_pins h) v = Some e" using Some i by simp
      then have ev: "pn_v e = v" "e \<in> set (entries (hp_pins h))" by (auto simp: tabLookup_def find_Some_iff)
      have pos: "0 < pn_n e" using ok ev by (auto simp: pinsOk_def)
      show ?thesis
      proof (cases "pn_n e > 1")
        case True
        let ?e = "e\<lparr>pn_n := pn_n e - 1\<rparr>"
        have "pn_v ?e = pn_v e" by simp
        note re = replace_entry[OF wf i(2) Some this]
        have "pinsOk (h\<lparr>hp_pins := (hp_pins h)[i := Some ?e]\<rparr>)"
          using ok re ev True False by (auto simp: pinsOk_def)
        then show ?thesis using True False i Some re(2) lk ev by (simp add: pinSub_def pinCount_def)
      next
        case n: False
        then have "pn_n e = 1" using pos by simp
        then show ?thesis using n False i Some pinEraseAt_ok[OF ok i(2) Some] lk ev
          by (auto simp: pinSub_def pinCount_def)
      qed
    qed
  qed
qed

end
