(* ===== verification/Rc_Mark.thy ===== *)
theory Rc_Mark
  imports Rc_Pins
begin

text \<open>
  The marking of \<open>src/back/reclaim.c\<close>: the mark stack, the start of a round
  (\<open>extc_rc_markBegin\<close>), the scan of one object (the macro \<open>EXTC_RC_MARK_SCAN\<close>), the resumable
  scan of a long conservative object (\<open>extc_rc_markResume\<close>), one bounded step
  (\<open>extc_rc_markStep\<close>) and the drain (\<open>extc_rc_mark\<close>). The stack is a list with its top first; an
  odd entry is one the write barrier pushed, to be scanned even if it is already marked. The
  model is the default budget form (\<open>EXTC_RC_WORK_BUDGET = 0\<close>) without the pause instrumentation.
\<close>

definition RC_SEED_PUSHES :: nat where "RC_SEED_PUSHES = 256"
definition RC_SEED_WORDS :: nat where "RC_SEED_WORDS = 512"
definition RC_MARK_EVERY :: nat where "RC_MARK_EVERY = 64"
definition RC_MARK_WINDOW :: int where "RC_MARK_WINDOW = 2 * 2 ^ 20"
definition RC_MARK_STEP :: nat where "RC_MARK_STEP = 8"
definition RC_MARK_BATCH_MAX :: nat where "RC_MARK_BATCH_MAX = 256"
definition RC_MARK_BATCH_POP :: nat where "RC_MARK_BATCH_POP = 200"
definition RC_MARK_SHALLOW :: nat where "RC_MARK_SHALLOW = 64"
definition RC_SCAN_CHUNK :: nat where "RC_SCAN_CHUNK = 65536"
definition RC_ASSIST_CAP :: nat where "RC_ASSIST_CAP = 512"
definition RC_UNBOUNDED :: nat where "RC_UNBOUNDED = 0xffffffff"

section \<open>The mark stack\<close>

definition growCap :: "region \<Rightarrow> nat" where
  "growCap x = (if length (r_stk x) = r_mscap x
     then (if r_mscap x \<noteq> 0 then r_mscap x * 2 else 1024) else r_mscap x)"

definition markPush :: "addr \<Rightarrow> nat \<Rightarrow> heap \<Rightarrow> heap" where
  "markPush r o' = updReg r (\<lambda>x. x\<lparr>r_mscap := growCap x, r_stk := o' # r_stk x\<rparr>)"

definition markPushFast :: "addr \<Rightarrow> nat \<Rightarrow> heap \<Rightarrow> heap" where
  "markPushFast r o' h =
    (if length (r_stk (hp_reg h r)) < r_mscap (hp_reg h r)
     then updReg r (\<lambda>x. x\<lparr>r_stk := o' # r_stk x\<rparr>) h else markPush r o' h)"

definition markPushForce :: "addr \<Rightarrow> addr \<Rightarrow> heap \<Rightarrow> heap" where
  "markPushForce r o' = markPush r (o' OR 1)"

text \<open>The object a stack entry names: its low bit is the force flag.\<close>

definition rawObj :: "nat \<Rightarrow> addr" where
  "rawObj raw = raw - raw mod 2"

definition rawForce :: "nat \<Rightarrow> bool" where
  "rawForce raw = odd raw"

section \<open>Starting a round\<close>

definition pinSeed :: "addr \<Rightarrow> heap \<Rightarrow> heap" where
  "pinSeed r h = (if hp_pinN h = 0 then h
     else fold (\<lambda>c h. case c of None \<Rightarrow> h
                 | Some e \<Rightarrow> if pn_rg e = r then markPush r (pn_v e) h else h) (hp_pins h) h)"

definition markBegin :: "addr \<Rightarrow> addr list \<Rightarrow> heap \<Rightarrow> heap" where
  "markBegin r roots h =
    (let h1 = updReg r (\<lambda>x. x\<lparr>r_stk := [], r_scanObj := 0, r_scanOff := 0\<rparr>) h;
         h2 = fold (\<lambda>p h. if p \<noteq> 0 \<and> owns h p then markPush r p h else h) roots h1;
         h3 = pinSeed r h2
     in updReg r (\<lambda>x. x\<lparr>r_seedRest := r_slabs x, r_seedWord := 0,
                        r_seedsDone := (r_slabs x = [] \<or> \<not> r_seedAny x)\<rparr>) h3)"

section \<open>Scanning\<close>

text \<open>The de-duplication before a push: a child in the same block whose slot is marked already.\<close>

definition markDup :: "heap \<Rightarrow> addr \<Rightarrow> addr \<Rightarrow> bool" where
  "markDup h s child =
    (if slabOf child = s then
       (let ci = slotOf (hp_slab h s) child
        in ci < sl_nslots (hp_slab h s) \<and> bmGet (sl_mark (hp_slab h s)) ci)
     else False)"

definition markChild :: "addr \<Rightarrow> addr \<Rightarrow> addr \<Rightarrow> heap \<Rightarrow> heap" where
  "markChild r s child h =
    (if child \<noteq> 0 \<and> \<not> markDup h s child then markPushFast r child h else h)"

text \<open>What a step threads through its scans: the heap, the slab of the last object, whether a
  long object was split, and the number of objects marked.\<close>

record scan =
  sc_heap :: heap
  sc_last :: addr
  sc_split :: bool
  sc_marked :: nat

definition scanSlab :: "heap \<Rightarrow> addr \<Rightarrow> addr \<Rightarrow> addr" where
  "scanSlab h lastS p =
    (if lastS \<noteq> 0 \<and> slabOf p = lastS \<and> slotHead (hp_slab h lastS) p then lastS else hOwn h p)"

definition markScan :: "addr \<Rightarrow> nat \<Rightarrow> scan \<Rightarrow> scan" where
  "markScan r raw c =
    (let h = sc_heap c; p = rawObj raw; force = rawForce raw;
         s = scanSlab h (sc_last c) p;
         c1 = c\<lparr>sc_last := (if s \<noteq> 0 then s else sc_last c)\<rparr>
     in if s = 0 \<or> sl_region (hp_slab h s) \<noteq> r then c1
        else (let i = slotOf (hp_slab h s) p in
          if \<not> force \<and> bmGet (sl_mark (hp_slab h s)) i then c1
          else if \<not> occAt (hp_slab h s) i then c1
          else (let h1 = updReg r (\<lambda>x. x\<lparr>r_markedBytes := r_markedBytes x + int (sl_ss (hp_slab h s))\<rparr>)
                           (updSlab s (\<lambda>x. x\<lparr>sl_mark := bmSet (sl_mark x) i\<rparr>) h);
                    t = typeOf (hp_slab h1 s) i;
                    words = slotWords (hp_slab h1 s);
                    c2 = c1\<lparr>sc_marked := sc_marked c1 + 1\<rparr>
                in if t = RC_CONSERVATIVE \<and> words > RC_SCAN_CHUNK then
                     c2\<lparr>sc_heap := updReg r (\<lambda>x. x\<lparr>r_scanObj := p, r_scanOff := 0\<rparr>) h1, sc_split := True\<rparr>
                   else if t = RC_CONSERVATIVE then
                     c2\<lparr>sc_heap := fold (\<lambda>w. markChild r s (ldPtr h1 (p + 8 * w))) [0..<words] h1\<rparr>
                   else if t = 0 then c2\<lparr>sc_heap := h1\<rparr>
                   else c2\<lparr>sc_heap := fold (\<lambda>off. markChild r s (ldPtr h1 (p + off))) (hp_desc h1 t) h1\<rparr>)))"

definition markResume :: "addr \<Rightarrow> heap \<Rightarrow> heap" where
  "markResume r h =
    (let p = r_scanObj (hp_reg h r); s = hOwn h p
     in if s = 0 \<or> sl_region (hp_slab h s) \<noteq> r then updReg r (\<lambda>x. x\<lparr>r_scanObj := 0\<rparr>) h
        else (let words = slotWords (hp_slab h s);
                  st = r_scanOff (hp_reg h r);
                  en = (if st + RC_SCAN_CHUNK > words then words else st + RC_SCAN_CHUNK);
                  h1 = fold (\<lambda>w. markChild r s (ldPtr h (p + 8 * w))) [st..<en] h
              in if en < words then updReg r (\<lambda>x. x\<lparr>r_scanObj := p, r_scanOff := en mod 2 ^ 32\<rparr>) h1
                 else updReg r (\<lambda>x. x\<lparr>r_scanObj := 0\<rparr>) h1))"

section \<open>Seeds\<close>

text \<open>One word of the registration bitmap: its occupied registered slots are pushed and the
  cursor moves on.\<close>

definition seedBits :: "heap \<Rightarrow> addr \<Rightarrow> nat \<Rightarrow> nat list" where
  "seedBits h s w = setBits (sl_rsbit (hp_slab h s) ! w AND sl_occ (hp_slab h s) ! w)"

definition seedWordStep :: "addr \<Rightarrow> heap \<Rightarrow> heap" where
  "seedWordStep r h =
    (case r_seedRest (hp_reg h r) of
       [] \<Rightarrow> h
     | s # rest \<Rightarrow>
         (let w = r_seedWord (hp_reg h r);
              h1 = fold (\<lambda>b. markPush r (slotAddr (hp_slab h s) (w * 64 + b))) (seedBits h s w) h
          in updReg r (\<lambda>x. if w + 1 \<ge> sl_nwords (hp_slab h s)
                           then x\<lparr>r_seedRest := rest, r_seedWord := 0\<rparr>
                           else x\<lparr>r_seedWord := w + 1\<rparr>) h1))"

definition seedPushed :: "addr \<Rightarrow> heap \<Rightarrow> nat" where
  "seedPushed r h = (case r_seedRest (hp_reg h r) of
     [] \<Rightarrow> 0 | s # _ \<Rightarrow> length (seedBits h s (r_seedWord (hp_reg h r))))"

function seedLoop :: "addr \<Rightarrow> nat \<Rightarrow> nat \<Rightarrow> heap \<Rightarrow> heap" where
  "seedLoop r pushes words h =
    (if pushes < RC_SEED_PUSHES \<and> words < RC_SEED_WORDS \<and> r_seedRest (hp_reg h r) \<noteq> []
     then seedLoop r (pushes + seedPushed r h) (words + 1) (seedWordStep r h)
     else h)"
  by pat_completeness auto
termination
  by (relation "measure (\<lambda>(r, pushes, words, h). RC_SEED_WORDS - words)") auto

declare seedLoop.simps [simp del]

definition seedPhase :: "addr \<Rightarrow> heap \<Rightarrow> heap" where
  "seedPhase r h =
    (if r_seedsDone (hp_reg h r) then h
     else (let h1 = seedLoop r 0 0 h
           in if r_seedRest (hp_reg h1 r) = [] then updReg r (\<lambda>x. x\<lparr>r_seedsDone := True\<rparr>) h1 else h1))"

section \<open>One step\<close>

text \<open>A batch is scanned up to the first split; what is left goes back onto the stack in its
  order.\<close>

fun scanBatch :: "addr \<Rightarrow> nat list \<Rightarrow> scan \<Rightarrow> scan" where
  "scanBatch r [] c = c"
| "scanBatch r (x # xs) c =
    (if sc_split c then c\<lparr>sc_heap := fold (markPush r) (rev (x # xs)) (sc_heap c)\<rparr>
     else scanBatch r xs (markScan r x c))"

definition popN :: "addr \<Rightarrow> nat \<Rightarrow> heap \<Rightarrow> heap" where
  "popN r n = updReg r (\<lambda>x. x\<lparr>r_stk := drop n (r_stk x)\<rparr>)"

definition batchLim :: "nat \<Rightarrow> heap \<Rightarrow> addr \<Rightarrow> nat" where
  "batchLim budget h r = min (min RC_MARK_BATCH_POP budget) (length (r_stk (hp_reg h r)))"

text \<open>The walk: a shallow stack is taken one entry at a time (the inner \<open>do ... while\<close> repeats
  under the conditions of the outer loop), a deep one in batches.\<close>

function walk :: "addr \<Rightarrow> nat \<Rightarrow> scan \<Rightarrow> scan" where
  "walk r budget c =
    (let h = sc_heap c; stk = r_stk (hp_reg h r) in
     if stk \<noteq> [] \<and> budget > 0 \<and> \<not> sc_split c then
       (if length stk \<le> RC_MARK_SHALLOW then
          walk r (budget - 1) (markScan r (hd stk) (c\<lparr>sc_heap := popN r 1 h\<rparr>))
        else
          (let lim = batchLim budget h r in
           walk r (budget - lim) (scanBatch r (take lim stk) (c\<lparr>sc_heap := popN r lim h\<rparr>))))
     else c)"
  by pat_completeness auto
termination
  by (relation "measure (\<lambda>(r, budget, c). budget)")
     (auto simp: batchLim_def RC_MARK_BATCH_POP_def)

declare walk.simps [simp del]

lemma walk_stop:
  "stk = r_stk (hp_reg (sc_heap c) r) \<Longrightarrow> \<not> (stk \<noteq> [] \<and> b > 0 \<and> \<not> sc_split c) \<Longrightarrow> walk r b c = c"
  by (auto simp: walk.simps[of r b c] Let_def)

lemma walk_shallow:
  assumes "stk = r_stk (hp_reg (sc_heap c) r)" "stk \<noteq> []" "b > 0" "\<not> sc_split c"
      and "length stk \<le> RC_MARK_SHALLOW"
  shows "walk r b c = walk r (b - 1) (markScan r (hd stk) (c\<lparr>sc_heap := popN r 1 (sc_heap c)\<rparr>))"
  using assms by (simp add: walk.simps[of r b c] Let_def)

lemma walk_deep:
  assumes "stk = r_stk (hp_reg (sc_heap c) r)" "stk \<noteq> []" "b > 0" "\<not> sc_split c"
      and "\<not> length stk \<le> RC_MARK_SHALLOW" "l = batchLim b (sc_heap c) r"
  shows "walk r b c = walk r (b - l) (scanBatch r (take l stk) (c\<lparr>sc_heap := popN r l (sc_heap c)\<rparr>))"
  using assms by (simp add: walk.simps[of r b c] Let_def)

definition markStep :: "addr \<Rightarrow> nat \<Rightarrow> heap \<Rightarrow> heap \<times> nat" where
  "markStep r budget h =
    (let resume = r_scanObj (hp_reg h r) \<noteq> 0;
         h1 = (if resume then markResume r h else h);
         h2 = seedPhase r h1;
         c = walk r (if resume then 0 else budget)
               \<lparr>sc_heap = h2, sc_last = 0, sc_split = False, sc_marked = 0\<rparr>
     in (sc_heap c, sc_marked c))"

text \<open>The drain loops repeat the step while there is something left to do.\<close>

definition markPending :: "heap \<Rightarrow> addr \<Rightarrow> bool" where
  "markPending h r = (\<not> r_seedsDone (hp_reg h r) \<or> r_stk (hp_reg h r) \<noteq> [] \<or> r_scanObj (hp_reg h r) \<noteq> 0)"

end
