(* ===== verification/Rc_Reach.thy ===== *)
theory Rc_Reach
  imports Rc_Mark
begin

text \<open>
  Objects of a region seen by address, the reference edges between them and what is reachable
  from a set of starting values, and the frame of the marking: it changes mark bitmaps and the
  marking fields of one region, and nothing else.
\<close>

definition inReg :: "heap \<Rightarrow> addr \<Rightarrow> addr \<Rightarrow> bool" where
  "inReg h r p \<longleftrightarrow> p < 2 ^ 64 \<and> hOwn h p \<noteq> 0 \<and> sl_region (hp_slab h (hOwn h p)) = r \<and> owns h p"

definition marked :: "heap \<Rightarrow> addr \<Rightarrow> bool" where
  "marked h p \<longleftrightarrow> bmGet (sl_mark (hp_slab h (hOwn h p))) (slotOf (hp_slab h (hOwn h p)) p)"

definition objFields :: "heap \<Rightarrow> addr \<Rightarrow> addr list" where
  "objFields h p = fieldVals h (hOwn h p) (slotOf (hp_slab h (hOwn h p)) p)"

inductive reach :: "heap \<Rightarrow> addr \<Rightarrow> addr set \<Rightarrow> addr \<Rightarrow> bool" for h r B where
  base: "p \<in> B \<Longrightarrow> inReg h r p \<Longrightarrow> reach h r B p"
| step: "reach h r B p \<Longrightarrow> v \<in> set (objFields h p) \<Longrightarrow> v \<noteq> 0 \<Longrightarrow> inReg h r (rawObj v) \<Longrightarrow>
           reach h r B (rawObj v)"

inductive_cases reachE: "reach h r B p"

lemma reach_inReg: "reach h r B p \<Longrightarrow> inReg h r p"
  by (induction rule: reach.induct) auto

lemma rawObj_le: "rawObj v \<le> v"
  by (simp add: rawObj_def)

lemma rawObj_even: "even v \<Longrightarrow> rawObj v = v"
  by (simp add: rawObj_def even_iff_mod_2_eq_zero)

lemma rawObj_even2: "even (rawObj v)"
  by (simp add: rawObj_def)

lemma ldPtr_lt: "ldPtr h a < 2 ^ 64"
  using unsigned_less[of "hp_mem h a", where 'a = nat] by (simp add: ldPtr_def)

lemma objFields_lt: "v \<in> set (objFields h p) \<Longrightarrow> v < 2 ^ 64"
  unfolding objFields_def fieldVals_def using ldPtr_lt by force

section \<open>The frame of the marking\<close>

definition eraseMark :: "slab \<Rightarrow> slab" where
  "eraseMark x = x\<lparr>sl_mark := []\<rparr>"

definition eraseReg :: "region \<Rightarrow> region" where
  "eraseReg x = x\<lparr>r_stk := [], r_mscap := 0, r_markedBytes := 0, r_scanObj := 0, r_scanOff := 0,
     r_seedRest := [], r_seedWord := 0, r_seedsDone := False\<rparr>"

definition markFrame :: "addr \<Rightarrow> heap \<Rightarrow> heap \<Rightarrow> bool" where
  "markFrame r h h' \<longleftrightarrow>
     h'\<lparr>hp_slab := hp_slab h, hp_reg := hp_reg h\<rparr> = h \<and>
     (\<forall>a. eraseMark (hp_slab h' a) = eraseMark (hp_slab h a) \<and>
          length (sl_mark (hp_slab h' a)) = length (sl_mark (hp_slab h a))) \<and>
     eraseReg (hp_reg h' r) = eraseReg (hp_reg h r) \<and>
     (\<forall>q. q \<noteq> r \<longrightarrow> hp_reg h' q = hp_reg h q)"

lemma markFrame_refl [simp]: "markFrame r h h"
  by (simp add: markFrame_def)

lemma markFrame_trans: "markFrame r a b \<Longrightarrow> markFrame r b c \<Longrightarrow> markFrame r a c"
  unfolding markFrame_def by (cases a; cases b; cases c) auto

lemma markFrame_fields:
  assumes "markFrame r h h'"
  shows "hp_mem h' = hp_mem h" "hp_desc h' = hp_desc h" "hp_own h' = hp_own h" "hp_big h' = hp_big h"
    "hp_pins h' = hp_pins h" "hp_pinN h' = hp_pinN h" "hp_wb h' = hp_wb h" "hp_rsInc h' = hp_rsInc h"
    "hp_partN h' = hp_partN h"
  using assms unfolding markFrame_def by (cases h; cases h'; simp)+

lemma eraseMark_fields:
  assumes "eraseMark x = eraseMark y"
  shows "sl_occ x = sl_occ y" "sl_rsbit x = sl_rsbit y" "sl_tid x = sl_tid y" "sl_tt x = sl_tt y"
    "headOf x = headOf y" "sl_rscnt x = sl_rscnt y" "sl_epoch x = sl_epoch y" "sl_free x = sl_free y"
    "sl_bump x = sl_bump y" "sl_avail x = sl_avail y"
  using assms by (cases x; cases y; simp add: eraseMark_def headOf_def)+

lemma eraseReg_fields:
  assumes "eraseReg x = eraseReg y"
  shows "r_slabs x = r_slabs y" "r_seedAny x = r_seedAny y" "r_marking x = r_marking y"
    "r_sweeping x = r_sweeping y" "r_noSweep x = r_noSweep y" "r_bytes x = r_bytes y"
    "r_allocBytes x = r_allocBytes y" "r_freed x = r_freed y" "r_swRest x = r_swRest y"
    "r_owe x = r_owe y" "r_live x = r_live y" "r_swId x = r_swId y" "r_cls x = r_cls y"
  using assms by (cases x; cases y; simp add: eraseReg_def)+

lemma markFrame_slab:
  assumes "markFrame r h h'"
  shows "eraseMark (hp_slab h' a) = eraseMark (hp_slab h a)"
    and "length (sl_mark (hp_slab h' a)) = length (sl_mark (hp_slab h a))"
  using assms by (auto simp: markFrame_def)

lemma markFrame_heads: "markFrame r h h' \<Longrightarrow> sameHeads h h'"
  using markFrame_fields(3,4) eraseMark_fields(5) markFrame_slab(1)
  unfolding sameHeads_def by metis

lemma markFrame_slabFields:
  assumes "markFrame r h h'"
  shows "sl_occ (hp_slab h' a) = sl_occ (hp_slab h a)" "sl_rsbit (hp_slab h' a) = sl_rsbit (hp_slab h a)"
    "sl_tid (hp_slab h' a) = sl_tid (hp_slab h a)" "sl_tt (hp_slab h' a) = sl_tt (hp_slab h a)"
    "sl_rscnt (hp_slab h' a) = sl_rscnt (hp_slab h a)" "headOf (hp_slab h' a) = headOf (hp_slab h a)"
  by (rule eraseMark_fields[OF markFrame_slab(1)[OF assms]])+

lemma markFrame_hOwn: "markFrame r h h' \<Longrightarrow> hOwn h' p = hOwn h p"
  by (rule sameHeads_hOwn[OF markFrame_heads])

lemma markFrame_slotOf: "markFrame r h h' \<Longrightarrow> slotOf (hp_slab h' a) = slotOf (hp_slab h a)"
  by (rule headOf_eqD(8)[OF markFrame_slabFields(6)])

lemma markFrame_owns: "markFrame r h h' \<Longrightarrow> owns h' p = owns h p"
  by (simp add: owns_def Let_def markFrame_hOwn markFrame_slotOf occAt_def markFrame_slabFields(1))

lemma markFrame_region: "markFrame r h h' \<Longrightarrow> sl_region (hp_slab h' a) = sl_region (hp_slab h a)"
  by (rule headOf_eqD(1)[OF markFrame_slabFields(6)])

lemma markFrame_inReg: "markFrame r h h' \<Longrightarrow> inReg h' q p = inReg h q p"
  by (simp add: inReg_def markFrame_hOwn markFrame_owns markFrame_region)

lemma markFrame_fieldVals: "markFrame r h h' \<Longrightarrow> fieldVals h' s i = fieldVals h s i"
  using headOf_eqD(9,12)[OF markFrame_slabFields(6)] markFrame_fields(1,2)
  by (simp add: fieldVals_def fieldAddrs_def Let_def typeOf_def ldPtr_def markFrame_slabFields)

lemma markFrame_objFields: "markFrame r h h' \<Longrightarrow> objFields h' p = objFields h p"
  by (simp add: objFields_def markFrame_hOwn markFrame_slotOf markFrame_fieldVals)

lemma markFrame_reach: "markFrame r h h' \<Longrightarrow> reach h' q B p = reach h q B p"
proof -
  assume f: "markFrame r h h'"
  have "reach h' q B p" if "reach h q B p"
    using that by (induction rule: reach.induct)
      (auto intro: reach.intros simp: markFrame_inReg[OF f] markFrame_objFields[OF f])
  moreover have "reach h q B p" if "reach h' q B p"
    using that by (induction rule: reach.induct)
      (auto intro: reach.intros simp: markFrame_inReg[OF f] markFrame_objFields[OF f])
  ultimately show ?thesis by blast
qed

lemma slabShape_cong:
  assumes "eraseMark x = eraseMark y" "length (sl_mark x) = length (sl_mark y)"
  shows "slabShape x = slabShape y"
  using eraseMark_fields[OF assms(1)] headOf_eqD[OF eraseMark_fields(5)[OF assms(1)]] assms(2)
  by (simp add: slabShape_def occAt_def)

lemma markFrame_wf:
  assumes f: "markFrame r h h'" and wf: "heapWf h"
  shows "heapWf h'"
proof -
  have "geomOk a (hp_slab h' b) = geomOk a (hp_slab h b)" "sl_big (hp_slab h' b) = sl_big (hp_slab h b)"
    "sl_data (hp_slab h' b) = sl_data (hp_slab h b)" for a b
    using headOf_eqD[OF markFrame_slabFields(6)[OF f]] by auto
  moreover have "slabShape (hp_slab h' b) = slabShape (hp_slab h b)" for b
    by (rule slabShape_cong[OF markFrame_slab[OF f]])
  ultimately show ?thesis
    using wf unfolding heapWf_def markFrame_fields(3)[OF f] markFrame_fields(4)[OF f] by metis
qed

lemma markFrame_registered: "markFrame r h h' \<Longrightarrow> registered h' s = registered h s"
  by (simp add: registered_def markFrame_fields(3,4))

section \<open>Objects and slots\<close>

lemma inReg_obj:
  assumes "heapWf h" "inReg h r p"
  shows "registered h (hOwn h p)" "slotOf (hp_slab h (hOwn h p)) p < sl_nslots (hp_slab h (hOwn h p))"
    "p = slotAddr (hp_slab h (hOwn h p)) (slotOf (hp_slab h (hOwn h p)) p)"
  using hOwn_obj[OF assms(1), of p "hOwn h p"] assms(2) by (auto simp: inReg_def)

lemma inReg_even:
  assumes "heapWf h" "inReg h r p"
  shows "even p" "p mod 8 = 0"
proof -
  note o = inReg_obj[OF assms]
  have "p mod 8 = 0"
    using slotAddr_even[OF registered_wf(1)[OF assms(1) o(1)]] o(3) by metis
  then show "p mod 8 = 0" "even p" by presburger+
qed

lemma slot_wf:
  assumes "heapWf h" "registered h s" "i < sl_nslots (hp_slab h s)"
  shows "rcWord i < sl_nwords (hp_slab h s)"
  using registered_wf[OF assms(1,2)] slabWords_enough[OF assms(3)] by (simp add: geomOk_def)

end
