(* ===== verification/Rc_MarkSafe.thy ===== *)
theory Rc_MarkSafe
  imports Rc_Reach
begin

text \<open>
  Correctness of the marking: the invariant between marked objects, the stack and the resumable
  scan; it is kept by every scan, seed word, batch and step. When nothing is left to do, the
  marked objects of the region are exactly the objects reachable from the starting values.
\<close>

section \<open>Pushing\<close>

abbreviation stk :: "heap \<Rightarrow> addr \<Rightarrow> nat list" where
  "stk h r \<equiv> r_stk (hp_reg h r)"

definition pushAll :: "addr \<Rightarrow> nat list \<Rightarrow> heap \<Rightarrow> heap" where
  "pushAll r vs h = fold (markPush r) vs h"

lemma markPushFast_eq: "markPushFast r v h = markPush r v h"
  by (auto simp: markPushFast_def markPush_def growCap_def updReg_def)

lemma markPush_simps [simp]:
  "hp_slab (markPush r v h) = hp_slab h" "hp_own (markPush r v h) = hp_own h"
  "hp_big (markPush r v h) = hp_big h" "hp_mem (markPush r v h) = hp_mem h"
  "stk (markPush r v h) r = v # stk h r"
  by (simp_all add: markPush_def)

text \<open>What the pushes and the cursor updates leave alone: everything but the marking fields of the
  region, the bitmaps included.\<close>

definition cursorFrame :: "addr \<Rightarrow> heap \<Rightarrow> heap \<Rightarrow> bool" where
  "cursorFrame r h h' \<longleftrightarrow> markFrame r h h' \<and> hp_slab h' = hp_slab h"

lemma cursorFrame_refl [simp]: "cursorFrame r h h"
  by (simp add: cursorFrame_def)

lemma cursorFrame_trans: "cursorFrame r a b \<Longrightarrow> cursorFrame r b c \<Longrightarrow> cursorFrame r a c"
  using markFrame_trans by (auto simp: cursorFrame_def)

lemma cursorFrame_updReg:
  assumes "\<And>x. eraseReg (f x) = eraseReg x"
  shows "cursorFrame r h (updReg r f h)"
  using assms by (cases h) (auto simp: cursorFrame_def markFrame_def updReg_def)

lemma markPush_frame: "cursorFrame r h (markPush r v h)"
  unfolding markPush_def by (rule cursorFrame_updReg) (simp add: eraseReg_def)

lemma pushAll_props:
  "cursorFrame r h (pushAll r vs h) \<and> stk (pushAll r vs h) r = rev vs @ stk h r \<and>
   r_scanObj (hp_reg (pushAll r vs h) r) = r_scanObj (hp_reg h r) \<and>
   r_scanOff (hp_reg (pushAll r vs h) r) = r_scanOff (hp_reg h r) \<and>
   r_seedRest (hp_reg (pushAll r vs h) r) = r_seedRest (hp_reg h r) \<and>
   r_seedWord (hp_reg (pushAll r vs h) r) = r_seedWord (hp_reg h r) \<and>
   r_seedsDone (hp_reg (pushAll r vs h) r) = r_seedsDone (hp_reg h r) \<and>
   r_markedBytes (hp_reg (pushAll r vs h) r) = r_markedBytes (hp_reg h r)"
proof (induction vs arbitrary: h)
  case (Cons v vs)
  have "cursorFrame r h (pushAll r vs (markPush r v h))"
    using cursorFrame_trans[OF markPush_frame] Cons by blast
  then show ?case using Cons[of "markPush r v h"]
    by (simp add: pushAll_def markPush_def)
qed (simp add: pushAll_def)

lemmas pushAll_simps =
  pushAll_props[THEN conjunct1] pushAll_props[THEN conjunct2, THEN conjunct1]
  pushAll_props[THEN conjunct2, THEN conjunct2, THEN conjunct1]
  pushAll_props[THEN conjunct2, THEN conjunct2, THEN conjunct2]

definition wanted :: "heap \<Rightarrow> addr \<Rightarrow> addr \<Rightarrow> bool" where
  "wanted h s v \<longleftrightarrow> v \<noteq> 0 \<and> \<not> markDup h s v"

lemma wanted_cong: "hp_slab h' = hp_slab h \<Longrightarrow> wanted h' s v = wanted h s v"
  by (simp add: wanted_def markDup_def)

lemma markChild_eq: "markChild r s v h = (if wanted h s v then markPush r v h else h)"
  by (simp add: markChild_def wanted_def markPushFast_eq)

lemma fold_markChild:
  "fold (\<lambda>x. markChild r s (f x)) xs h = pushAll r (filter (wanted h s) (map f xs)) h"
proof (induction xs arbitrary: h)
  case (Cons x xs)
  have "wanted (markPush r (f x) h) s = wanted h s" by (rule ext, rule wanted_cong) simp
  then show ?case
    using Cons by (simp add: markChild_eq pushAll_def)
qed (simp add: pushAll_def)

section \<open>One scan\<close>

definition markIt :: "addr \<Rightarrow> addr \<Rightarrow> nat \<Rightarrow> heap \<Rightarrow> heap" where
  "markIt r s i h = updReg r (\<lambda>x. x\<lparr>r_markedBytes := r_markedBytes x + int (sl_ss (hp_slab h s))\<rparr>)
     (updSlab s (\<lambda>x. x\<lparr>sl_mark := bmSet (sl_mark x) i\<rparr>) h)"

lemma markIt_frame: "markFrame r h (markIt r s i h)"
  by (cases h) (auto simp: markFrame_def markIt_def updReg_def updSlab_def eraseMark_def eraseReg_def)

lemma markIt_reg [simp]:
  "stk (markIt r s i h) r = stk h r"
  "r_scanObj (hp_reg (markIt r s i h) r) = r_scanObj (hp_reg h r)"
  "r_scanOff (hp_reg (markIt r s i h) r) = r_scanOff (hp_reg h r)"
  "r_seedRest (hp_reg (markIt r s i h) r) = r_seedRest (hp_reg h r)"
  "r_seedWord (hp_reg (markIt r s i h) r) = r_seedWord (hp_reg h r)"
  "r_seedsDone (hp_reg (markIt r s i h) r) = r_seedsDone (hp_reg h r)"
  by (simp_all add: markIt_def)

lemma markIt_marked:
  assumes wf: "heapWf h" and p: "inReg h r p" and q: "inReg h r' q"
  shows "marked (markIt r (hOwn h p) (slotOf (hp_slab h (hOwn h p)) p) h) q \<longleftrightarrow> q = p \<or> marked h q"
proof -
  let ?s = "hOwn h p" and ?i = "slotOf (hp_slab h (hOwn h p)) p"
  let ?h = "markIt r ?s ?i h"
  note f = markIt_frame[of r h ?s ?i]
  note op = inReg_obj[OF wf p] and oq = inReg_obj[OF wf q]
  have len: "rcWord ?i < length (sl_mark (hp_slab h ?s))"
    using slot_wf[OF wf op(1,2)] registered_wf(2)[OF wf op(1)] by (simp add: slabShape_def)
  show ?thesis
  proof (cases "hOwn h q = ?s")
    case True
    then have "slotOf (hp_slab h ?s) q = ?i \<longleftrightarrow> q = p" using op(3) oq(3) by metis
    then show ?thesis using True bmGet_bmSet[OF len]
      unfolding marked_def markFrame_hOwn[OF f] markFrame_slotOf[OF f]
      by (auto simp: markIt_def)
  next
    case False
    then have "q \<noteq> p" by auto
    then show ?thesis using False
      unfolding marked_def markFrame_hOwn[OF f] markFrame_slotOf[OF f]
      by (simp add: markIt_def)
  qed
qed

lemma scanSlab_eq:
  assumes wf: "heapWf h" and p: "p < 2 ^ 64" and l: "lastS = 0 \<or> registered h lastS"
  shows "scanSlab h lastS p = hOwn h p"
proof (cases "lastS \<noteq> 0 \<and> slabOf p = lastS \<and> slotHead (hp_slab h lastS) p")
  case True
  then have reg: "registered h lastS" using l by simp
  have "hOwn h p = lastS"
  proof (cases "hp_own h lastS = Some lastS")
    case T: True
    then show ?thesis using True by (simp add: hOwn_def ownSlabSpec_def)
  next
    case False
    then obtain d where d: "hp_big h d = Some lastS" using reg by (auto simp: registered_def)
    then have b: "geomOk lastS (hp_slab h lastS)" "sl_big (hp_slab h lastS)"
      "sl_data (hp_slab h lastS) = d" "hp_own h (slabOf d) = None"
      using wf unfolding heapWf_def by blast+
    have "offOf (hp_slab h lastS) p = 0"
      using True b(1,2) by (auto simp: slotHead_def Let_def geomOk_def)
    moreover have "d < 2 ^ 64" using b by (auto simp: geomOk_def)
    ultimately have "p = d"
      using p b(3) offOf_ge[of "hp_slab h lastS" p] offOf_lt[of p "hp_slab h lastS"]
      by (cases "d \<le> p") auto
    then show ?thesis using b d by (simp add: hOwn_def ownSlabSpec_def cellPtr_def)
  qed
  then show ?thesis using True by (simp add: scanSlab_def)
next
  case False
  then show ?thesis unfolding scanSlab_def by (simp only: if_False)
qed

text \<open>A scan either drops its entry, or marks the object and leaves a cursor (a long conservative
  object), or marks it and pushes the wanted values of its fields.\<close>

definition scanDrops :: "heap \<Rightarrow> addr \<Rightarrow> nat \<Rightarrow> bool" where
  "scanDrops h r raw \<longleftrightarrow> \<not> inReg h r (rawObj raw) \<or> \<not> rawForce raw \<and> marked h (rawObj raw)"

definition longObj :: "heap \<Rightarrow> addr \<Rightarrow> bool" where
  "longObj h p \<longleftrightarrow> (let s = hp_slab h (hOwn h p) in
     typeOf s (slotOf s p) = RC_CONSERVATIVE \<and> slotWords s > RC_SCAN_CHUNK)"

lemma objFields_eq:
  assumes "heapWf h" "inReg h r p" "s = hOwn h p" "i = slotOf (hp_slab h s) p" "t = typeOf (hp_slab h s) i"
  shows "objFields h p =
    (if t = RC_CONSERVATIVE then map (\<lambda>w. ldPtr h (p + 8 * w)) [0..<slotWords (hp_slab h s)]
     else if t = 0 then [] else map (\<lambda>off. ldPtr h (p + off)) (hp_desc h t))"
  using inReg_obj(3)[OF assms(1,2)] assms(3-5)
  by (simp add: objFields_def fieldVals_def fieldAddrs_def Let_def o_def)

lemma markScan_eq:
  fixes r :: addr
  assumes wf: "heapWf h" and h: "h = sc_heap c" and raw: "raw < 2 ^ 64"
      and l: "sc_last c = 0 \<or> registered h (sc_last c)"
  defines "p \<equiv> rawObj raw" and "s \<equiv> hOwn h (rawObj raw)"
  defines "h1 \<equiv> markIt r s (slotOf (hp_slab h s) p) h"
  shows "\<exists>last. (last = 0 \<or> registered h last) \<and>
    markScan r raw c =
      (if scanDrops h r raw then c\<lparr>sc_last := last\<rparr>
       else if longObj h p then
         c\<lparr>sc_heap := updReg r (\<lambda>x. x\<lparr>r_scanObj := p, r_scanOff := 0\<rparr>) h1, sc_last := last,
           sc_split := True, sc_marked := sc_marked c + 1\<rparr>
       else c\<lparr>sc_heap := pushAll r (filter (wanted h1 s) (objFields h p)) h1, sc_last := last,
              sc_marked := sc_marked c + 1\<rparr>)"
proof -
  have p64: "p < 2 ^ 64" using raw rawObj_le[of raw] by (simp add: p_def)
  have s: "scanSlab h (sc_last c) p = s" unfolding s_def p_def[symmetric] by (rule scanSlab_eq[OF wf p64 l])
  define last where "last = (if s \<noteq> 0 then s else sc_last c)"
  have lastok: "last = 0 \<or> registered h last"
    using l hOwn_obj[OF wf p64, of s] by (auto simp: last_def s_def p_def)
  have c1: "c\<lparr>sc_last := if s \<noteq> 0 then s else sc_last c\<rparr> = c\<lparr>sc_last := last\<rparr>" by (simp add: last_def)
  let ?i = "slotOf (hp_slab h s) p"
  have ir: "inReg h r p \<longleftrightarrow> s \<noteq> 0 \<and> sl_region (hp_slab h s) = r \<and> occAt (hp_slab h s) ?i"
    using p64 by (auto simp: inReg_def owns_def s_def p_def Let_def)
  have mk: "marked h p = bmGet (sl_mark (hp_slab h s)) ?i" by (simp add: marked_def s_def p_def)
  have drops: "scanDrops h r raw \<longleftrightarrow> s = 0 \<or> sl_region (hp_slab h s) \<noteq> r \<or>
      \<not> rawForce raw \<and> bmGet (sl_mark (hp_slab h s)) ?i \<or> \<not> occAt (hp_slab h s) ?i"
    unfolding scanDrops_def p_def[symmetric] ir mk by blast
  have upd: "typeOf (hp_slab h1 s) ?i = typeOf (hp_slab h s) ?i"
    "slotWords (hp_slab h1 s) = slotWords (hp_slab h s)" "hp_desc h1 = hp_desc h" "ldPtr h1 = ldPtr h"
    by (simp_all add: h1_def markIt_def typeOf_def slotWords_def ldPtr_def fun_eq_iff)
  have lo: "longObj h p \<longleftrightarrow> typeOf (hp_slab h s) ?i = RC_CONSERVATIVE \<and> slotWords (hp_slab h s) > RC_SCAN_CHUNK"
    by (simp add: longObj_def Let_def s_def p_def)
  have "markScan r raw c =
      (if scanDrops h r raw then c\<lparr>sc_last := last\<rparr>
       else if longObj h p then
         c\<lparr>sc_heap := updReg r (\<lambda>x. x\<lparr>r_scanObj := p, r_scanOff := 0\<rparr>) h1, sc_last := last,
           sc_split := True, sc_marked := sc_marked c + 1\<rparr>
       else c\<lparr>sc_heap := pushAll r (filter (wanted h1 s) (objFields h p)) h1, sc_last := last,
              sc_marked := sc_marked c + 1\<rparr>)"
  proof (cases "scanDrops h r raw")
    case True
    then show ?thesis
      unfolding markScan_def Let_def h[symmetric] p_def[symmetric] s c1
      using drops by auto
  next
    case False
    then have nd: "s \<noteq> 0" "sl_region (hp_slab h s) = r" "occAt (hp_slab h s) ?i"
      "rawForce raw \<or> \<not> bmGet (sl_mark (hp_slab h s)) ?i" and ip: "inReg h r p"
      using drops ir by auto
    have sd: "s = hOwn h p" by (simp add: s_def p_def)
    note of = objFields_eq[OF wf ip sd refl refl]
    show ?thesis
      unfolding markScan_def Let_def h[symmetric] p_def[symmetric] s c1
      using nd False lo upd
      by (simp add: of fold_markChild flip: markIt_def h1_def)
        (auto simp: pushAll_def)
  qed
  then show ?thesis using lastok by blast
qed

section \<open>The de-duplication is sound\<close>

lemma hOwn_same_block:
  assumes wf: "heapWf h" and s: "registered h s" "slabOf p = s" and p: "p < 2 ^ 64" "hOwn h p \<noteq> 0"
  shows "hOwn h p = s \<and> \<not> sl_big (hp_slab h s)"
proof -
  have "s mod RC_SLAB_SIZE = 0" using s(2) slabOf_aligned by metis
  moreover have "hp_big h d = Some s \<Longrightarrow> s mod RC_SLAB_SIZE \<noteq> 0" for d
    using wf unfolding heapWf_def by (elim conjE allE[of _ d] allE[of _ s]) simp
  ultimately have "hp_big h d \<noteq> Some s" for d by metis
  then have o: "hp_own h s = Some s" using s(1) by (auto simp: registered_def)
  then have "hp_big h p = None" using wf s(2) unfolding heapWf_def by (metis not_None_eq option.discI)
  moreover have "\<not> sl_big (hp_slab h s)" using o wf by (auto simp: heapWf_def)
  ultimately show ?thesis using p(2) s(2) o
    by (simp add: hOwn_def ownSlabSpec_def cellPtr_def split: if_splits)
qed

lemma slotOf_odd:
  assumes g: "geomOk s (hp_slab h s)" "\<not> sl_big (hp_slab h s)" and i: "i < sl_nslots (hp_slab h s)"
  shows "slotOf (hp_slab h s) (slotAddr (hp_slab h s) i + 1) = i"
proof -
  let ?x = "hp_slab h s"
  have ss: "16 \<le> sl_ss ?x" and top: "RC_SLAB_HDR + sl_nslots ?x * sl_ss ?x \<le> RC_SLAB_SIZE"
    and rcp: "sl_rcp ?x = rcpOf (sl_ss ?x)"
    and t64: "sl_data ?x + sl_nslots ?x * sl_ss ?x \<le> 2 ^ 64"
    using g by (auto simp: geomOk_def)
  note b = slotAddr_bounds[OF g(1) i]
  have "slotAddr ?x i + 1 < 2 ^ 64" using b t64 ss by linarith
  then have off: "offOf ?x (slotAddr ?x i + 1) = i * sl_ss ?x + 1"
    using b by (simp add: offOf_ge slotAddr_def)
  have lt: "i * sl_ss ?x + 1 < RC_SLAB_SIZE" "sl_ss ?x \<le> RC_SLAB_SIZE"
    using b(2) top ss by (simp_all add: slotAddr_def)
  show ?thesis
    unfolding slotOf_def slotOfOff_def off rcp slotOfRcp_exact[OF ss lt(2,1)]
    using nat_mult_div_cancel_lt[of 1 "sl_ss ?x" i] ss by simp
qed

lemma slabOf_Suc:
  assumes "even w"
  shows "slabOf (Suc w) = slabOf w"
proof -
  have "even RC_SLAB_SIZE" by (simp add: layout_consts)
  moreover have "even (w mod RC_SLAB_SIZE)" using assms calculation by (simp add: dvd_mod)
  ultimately have "Suc (w mod RC_SLAB_SIZE) \<noteq> RC_SLAB_SIZE" by (metis even_Suc)
  then show ?thesis by (simp add: slabOf_def mod_Suc)
qed

lemma rawObj_odd: "odd v \<Longrightarrow> v = Suc (rawObj v)"
  by (simp add: rawObj_def odd_iff_mod_2_eq_one)

lemma dup_marked:
  assumes wf: "heapWf h" and s: "registered h s" and d: "markDup h s v"
      and p: "inReg h r (rawObj v)"
  shows "marked h (rawObj v)"
proof -
  have sv: "slabOf v = s" and mk: "bmGet (sl_mark (hp_slab h s)) (slotOf (hp_slab h s) v)"
    using d by (auto simp: markDup_def Let_def split: if_splits)
  have sp: "slabOf (rawObj v) = s"
  proof (cases "even v")
    case False
    then show ?thesis using sv slabOf_Suc[OF rawObj_even2, of v] rawObj_odd by simp
  qed (use sv rawObj_even in simp)
  have o: "hOwn h (rawObj v) = s" "\<not> sl_big (hp_slab h s)"
    using hOwn_same_block[OF wf s sp] p by (auto simp: inReg_def)
  define i where "i = slotOf (hp_slab h s) (rawObj v)"
  have i: "i < sl_nslots (hp_slab h s)" "rawObj v = slotAddr (hp_slab h s) i"
    using inReg_obj[OF wf p] o by (auto simp: i_def)
  have g: "geomOk s (hp_slab h s)" by (rule registered_wf(1)[OF wf s])
  have "slotOf (hp_slab h s) v = i"
  proof (cases "even v")
    case True
    then show ?thesis by (simp add: i_def rawObj_even)
  next
    case False
    then have "v = slotAddr (hp_slab h s) i + 1" using i(2) rawObj_odd[OF False] by simp
    then show ?thesis using slotOf_odd[OF g o(2) i(1)] by simp
  qed
  then show ?thesis using mk o i_def by (simp add: marked_def)
qed

end
