(* ===== verification/Rc_MarkInv.thy ===== *)
theory Rc_MarkInv
  imports Rc_MarkSafe
begin

text \<open>
  The invariant of a marking round. \<open>ex\<close> lists entries that were taken from the stack and are
  still to be scanned. Soundness: what is marked or on the stack is reachable. Completeness: a
  field of a marked object is marked, on the stack, still to be read by the resumable scan, or
  its object waits for a forced scan.
\<close>

definition onStack :: "heap \<Rightarrow> addr \<Rightarrow> nat list \<Rightarrow> nat set" where
  "onStack h r ex = set (stk h r) \<union> set ex"

definition covered :: "heap \<Rightarrow> addr \<Rightarrow> nat list \<Rightarrow> addr \<Rightarrow> bool" where
  "covered h r ex c \<longleftrightarrow> (inReg h r c \<longrightarrow> marked h c \<or> c \<in> rawObj ` onStack h r ex)"

definition scanLeft :: "heap \<Rightarrow> addr \<Rightarrow> addr \<Rightarrow> addr \<Rightarrow> bool" where
  "scanLeft h r p v \<longleftrightarrow> r_scanObj (hp_reg h r) \<noteq> 0 \<and> p = r_scanObj (hp_reg h r) \<and>
     v \<in> set (drop (r_scanOff (hp_reg h r)) (objFields h p))"

definition forcedIn :: "heap \<Rightarrow> addr \<Rightarrow> nat list \<Rightarrow> addr \<Rightarrow> bool" where
  "forcedIn h r ex p \<longleftrightarrow> (\<exists>raw\<in>onStack h r ex. rawForce raw \<and> rawObj raw = p)"

definition markSound :: "heap \<Rightarrow> addr \<Rightarrow> addr set \<Rightarrow> nat list \<Rightarrow> bool" where
  "markSound h r B ex \<longleftrightarrow>
     (\<forall>raw\<in>onStack h r ex. raw < 2 ^ 64 \<and> (inReg h r (rawObj raw) \<longrightarrow> reach h r B (rawObj raw))) \<and>
     (\<forall>p. inReg h r p \<longrightarrow> marked h p \<longrightarrow> reach h r B p) \<and>
     (r_scanObj (hp_reg h r) \<noteq> 0 \<longrightarrow> inReg h r (r_scanObj (hp_reg h r)) \<and>
        marked h (r_scanObj (hp_reg h r)) \<and> longObj h (r_scanObj (hp_reg h r)))"

definition markClosed :: "heap \<Rightarrow> addr \<Rightarrow> nat list \<Rightarrow> bool" where
  "markClosed h r ex \<longleftrightarrow>
     (\<forall>p v. inReg h r p \<longrightarrow> marked h p \<longrightarrow> v \<in> set (objFields h p) \<longrightarrow> v \<noteq> 0 \<longrightarrow>
        covered h r ex (rawObj v) \<or> scanLeft h r p v \<or> forcedIn h r ex p)"

definition markInv :: "heap \<Rightarrow> addr \<Rightarrow> addr set \<Rightarrow> nat list \<Rightarrow> bool" where
  "markInv h r B ex \<longleftrightarrow> heapWf h \<and> markSound h r B ex \<and> markClosed h r ex"

lemma markInvI: "heapWf h \<Longrightarrow> markSound h r B ex \<Longrightarrow> markClosed h r ex \<Longrightarrow> markInv h r B ex"
  by (simp add: markInv_def)

lemma cursorFrame_marked: "cursorFrame r h h' \<Longrightarrow> marked h' p = marked h p"
  using markFrame_hOwn[of r h h' p] by (simp add: marked_def cursorFrame_def)

text \<open>Entries move freely between the stack and the list \<open>ex\<close>.\<close>

lemma markInv_onStack:
  assumes "cursorFrame r h h'" "onStack h' r ex' = onStack h r ex"
      and "r_scanObj (hp_reg h' r) = r_scanObj (hp_reg h r)"
      and "r_scanOff (hp_reg h' r) = r_scanOff (hp_reg h r)"
  shows "markInv h' r B ex' = markInv h r B ex" and "covered h' r ex' c = covered h r ex c"
proof -
  have f: "markFrame r h h'" and sl: "hp_slab h' = hp_slab h" using assms(1) by (auto simp: cursorFrame_def)
  have m: "marked h' p = marked h p" for p by (simp add: marked_def markFrame_hOwn[OF f] sl)
  have l: "longObj h' p = longObj h p" for p by (simp add: longObj_def markFrame_hOwn[OF f] sl)
  have w: "heapWf h' = heapWf h"
    unfolding heapWf_def markFrame_fields(3)[OF f] markFrame_fields(4)[OF f] sl ..
  show "covered h' r ex' c = covered h r ex c" for c
    by (simp add: covered_def markFrame_inReg[OF f] m assms(2))
  then show "markInv h' r B ex' = markInv h r B ex"
    unfolding markInv_def markSound_def markClosed_def scanLeft_def forcedIn_def
      assms(2,3,4) w m l markFrame_inReg[OF f] markFrame_reach[OF f] markFrame_objFields[OF f] by simp
qed

section \<open>The scan keeps the invariant\<close>

lemma covered_drop:
  assumes "covered h r (raw # ex) c" "scanDrops h r raw"
  shows "covered h r ex c \<or> forcedIn h r [raw] c"
  using assms by (auto simp: covered_def scanDrops_def forcedIn_def onStack_def)

lemma scan_drop:
  assumes inv: "markInv h r B (raw # ex)" and d: "scanDrops h r raw"
  shows "markInv h r B ex" and "covered h r (raw # ex) c \<Longrightarrow> covered h r ex c"
proof -
  have cov: "covered h r ex c" if "covered h r (raw # ex) c" for c
    using that d by (auto simp: covered_def scanDrops_def onStack_def)
  then show "covered h r (raw # ex) c \<Longrightarrow> covered h r ex c" .
  have "forcedIn h r ex p" if "forcedIn h r (raw # ex) p" "inReg h r p" for p
    using that d by (auto simp: forcedIn_def scanDrops_def onStack_def)
  then have "markClosed h r ex" using inv cov unfolding markInv_def markClosed_def by blast
  moreover have "markSound h r B ex" using inv by (simp add: markInv_def markSound_def onStack_def)
  ultimately show "markInv h r B ex" using inv by (simp add: markInv_def)
qed

lemma longObj_cong: "markFrame r h h' \<Longrightarrow> longObj h' p = longObj h p"
  using headOf_eqD(12)[OF markFrame_slabFields(6)]
  by (simp add: longObj_def Let_def markFrame_hOwn markFrame_slotOf typeOf_def markFrame_slabFields)

text \<open>The state after an object has been marked and \<open>vs\<close> pushed, with \<open>cur\<close> the cursor: the
  invariant for the rest follows when the values not pushed are covered or left to the cursor.\<close>

lemma scan_mark:
  fixes r :: addr and h :: heap
  assumes inv: "markInv h r B (raw # ex)" and nd: "\<not> scanDrops h r raw"
      and idle: "r_scanObj (hp_reg h r) = 0"
  defines "p \<equiv> rawObj raw" and "s \<equiv> hOwn h (rawObj raw)"
  defines "h1 \<equiv> markIt r s (slotOf (hp_slab h s) p) h"
  assumes fr: "cursorFrame r h1 h2" and st: "stk h2 r = rev vs @ stk h r"
      and vs: "set vs \<subseteq> set (objFields h p)"
      and cur: "r_scanObj (hp_reg h2 r) = 0 \<or>
                r_scanObj (hp_reg h2 r) = p \<and> r_scanOff (hp_reg h2 r) = 0 \<and> longObj h p"
      and rest: "\<And>v. v \<in> set (objFields h p) \<Longrightarrow> v \<noteq> 0 \<Longrightarrow> v \<notin> set vs \<Longrightarrow> inReg h r (rawObj v) \<Longrightarrow>
                   marked h2 (rawObj v) \<or> r_scanObj (hp_reg h2 r) = p"
      and p0: "\<And>v. v \<in> set vs \<Longrightarrow> v \<noteq> 0"
  shows "markInv h2 r B ex" and "covered h r (raw # ex) c \<Longrightarrow> covered h2 r ex c"
proof -
  have wf: "heapWf h" and ip: "inReg h r p" using inv nd by (auto simp: markInv_def scanDrops_def p_def)
  have f1: "markFrame r h h1" by (simp add: h1_def markIt_frame)
  have f: "markFrame r h h2" using markFrame_trans[OF f1] fr by (simp add: cursorFrame_def)
  have sl: "hp_slab h2 = hp_slab h1" using fr by (simp add: cursorFrame_def)
  note tr = markFrame_inReg[OF f] markFrame_reach[OF f] markFrame_objFields[OF f]
  have mk: "marked h2 q \<longleftrightarrow> q = p \<or> marked h q" if "inReg h r q" for q
  proof -
    have "marked h2 q = marked h1 q"
      by (simp add: marked_def sl markFrame_hOwn[OF f] markFrame_hOwn[OF f1])
    then show ?thesis using markIt_marked[OF wf ip that] by (simp add: h1_def s_def p_def)
  qed
  have on: "onStack h2 r ex = set vs \<union> set (stk h r) \<union> set ex" using st by (simp add: onStack_def)
  have on0: "onStack h r (raw # ex) = insert raw (set (stk h r) \<union> set ex)" by (auto simp: onStack_def)
  have cov: "covered h2 r ex c" if "covered h r (raw # ex) c" for c
    using that mk by (auto simp: covered_def tr on on0 p_def)
  then show "covered h r (raw # ex) c \<Longrightarrow> covered h2 r ex c" .
  have rp: "reach h r B p" using inv ip by (auto simp: markInv_def markSound_def on0 p_def)
  have snd: "markSound h2 r B ex"
    unfolding markSound_def tr
  proof (intro conjI ballI allI impI)
    fix w assume w: "w \<in> onStack h2 r ex"
    show "w < 2 ^ 64"
      using w vs inv objFields_lt[of w h p] by (auto simp: on on0 markInv_def markSound_def)
    assume iw: "inReg h r (rawObj w)"
    show "reach h r B (rawObj w)"
    proof (cases "w \<in> set vs")
      case True
      then show ?thesis using reach.step[OF rp _ p0[OF True] iw] vs by blast
    next
      case False
      then show ?thesis using w inv iw by (auto simp: on on0 markInv_def markSound_def)
    qed
  next
    fix q assume "inReg h r q" "marked h2 q"
    then show "reach h r B q" using mk rp inv by (auto simp: markInv_def markSound_def)
  next
    assume "r_scanObj (hp_reg h2 r) \<noteq> 0"
    then have c: "r_scanObj (hp_reg h2 r) = p" "longObj h p" using cur by auto
    then show "inReg h r (r_scanObj (hp_reg h2 r))" "marked h2 (r_scanObj (hp_reg h2 r))"
      "longObj h2 (r_scanObj (hp_reg h2 r))"
      using ip mk[OF ip] longObj_cong[OF f] by simp_all
  qed
  have "markClosed h2 r ex"
    unfolding markClosed_def tr
  proof (intro allI impI)
    fix q v assume q: "inReg h r q" "marked h2 q" and v: "v \<in> set (objFields h q)" "v \<noteq> 0"
    have pcase: "covered h2 r ex (rawObj v) \<or> scanLeft h2 r p v" if "q = p"
    proof (cases "v \<in> set vs \<or> \<not> inReg h r (rawObj v)")
      case True
      then show ?thesis by (auto simp: covered_def on tr)
    next
      case False
      then have "marked h2 (rawObj v) \<or> r_scanObj (hp_reg h2 r) = p" using rest v that by blast
      moreover have "p \<noteq> 0" using ip registered_wf(1)[OF wf inReg_obj(1)[OF wf ip]]
          inReg_obj(3)[OF wf ip] by (metis geomOk_def slotAddr_def add_gr_0 neq0_conv)
      ultimately show ?thesis using cur v that by (auto simp: covered_def scanLeft_def tr)
    qed
    show "covered h2 r ex (rawObj v) \<or> scanLeft h2 r q v \<or> forcedIn h2 r ex q"
    proof (cases "q = p")
      case False
      then have "marked h q" using mk q by blast
      then have "covered h r (raw # ex) (rawObj v) \<or> scanLeft h r q v \<or> forcedIn h r (raw # ex) q"
        using inv q(1) v unfolding markInv_def markClosed_def by blast
      moreover have "\<not> scanLeft h r q v" using idle by (simp add: scanLeft_def)
      moreover have "forcedIn h2 r ex q" if "forcedIn h r (raw # ex) q"
        using that False by (auto simp: forcedIn_def on on0 p_def)
      ultimately show ?thesis using cov by blast
    qed (use pcase in blast)
  qed
  then show "markInv h2 r B ex" using snd markFrame_wf[OF f wf] by (simp add: markInv_def)
qed

section \<open>Batches and the walk\<close>

text \<open>What a walk carries along: the invariant, the validity of the slab cache, an idle cursor
  unless a split happened, the seed cursor, the frame since \<open>h0\<close>, and that the values of \<open>C\<close>
  stay covered.\<close>

definition scanOk :: "addr \<Rightarrow> addr set \<Rightarrow> addr set \<Rightarrow> heap \<Rightarrow> nat list \<Rightarrow> scan \<Rightarrow> bool" where
  "scanOk r B C h0 ex c \<longleftrightarrow> (let h = sc_heap c in
     markInv h r B ex \<and> (sc_last c = 0 \<or> registered h (sc_last c)) \<and>
     (\<not> sc_split c \<longrightarrow> r_scanObj (hp_reg h r) = 0) \<and> markFrame r h0 h \<and>
     r_seedRest (hp_reg h r) = r_seedRest (hp_reg h0 r) \<and>
     r_seedWord (hp_reg h r) = r_seedWord (hp_reg h0 r) \<and>
     r_seedsDone (hp_reg h r) = r_seedsDone (hp_reg h0 r) \<and>
     (\<forall>x\<in>C. covered h r ex x))"

lemma scan_one:
  assumes ok: "scanOk r B C h0 (raw # ex) c" and sp: "\<not> sc_split c"
  shows "scanOk r B C h0 ex (markScan r raw c)"
proof -
  define h where "h = sc_heap c"
  define p where "p = rawObj raw"
  define s where "s = hOwn h (rawObj raw)"
  define h1 where "h1 = markIt r s (slotOf (hp_slab h s) p) h"
  have inv: "markInv h r B (raw # ex)" and idle: "r_scanObj (hp_reg h r) = 0"
    and last: "sc_last c = 0 \<or> registered h (sc_last c)" and f0: "markFrame r h0 h"
    and cov: "\<And>x. x \<in> C \<Longrightarrow> covered h r (raw # ex) x"
    and sd: "r_seedRest (hp_reg h r) = r_seedRest (hp_reg h0 r)"
      "r_seedWord (hp_reg h r) = r_seedWord (hp_reg h0 r)"
      "r_seedsDone (hp_reg h r) = r_seedsDone (hp_reg h0 r)"
    using ok sp by (auto simp: scanOk_def h_def Let_def)
  have wf: "heapWf h" and raw: "raw < 2 ^ 64"
    using inv by (auto simp: markInv_def markSound_def onStack_def)
  obtain l where l: "l = 0 \<or> registered h l" and eq: "markScan r raw c =
      (if scanDrops h r raw then c\<lparr>sc_last := l\<rparr>
       else if longObj h p then
         c\<lparr>sc_heap := updReg r (\<lambda>x. x\<lparr>r_scanObj := p, r_scanOff := 0\<rparr>) h1, sc_last := l,
           sc_split := True, sc_marked := sc_marked c + 1\<rparr>
       else c\<lparr>sc_heap := pushAll r (filter (wanted h1 s) (objFields h p)) h1, sc_last := l,
              sc_marked := sc_marked c + 1\<rparr>)"
    using markScan_eq[OF wf h_def raw last, of r] unfolding h_def p_def s_def h1_def by blast
  have f1: "markFrame r h h1" by (simp add: h1_def markIt_frame)
  show ?thesis
  proof (cases "scanDrops h r raw")
    case True
    then show ?thesis
      using eq scan_drop[OF inv True] l f0 sd idle cov unfolding scanOk_def Let_def
      by (simp add: h_def)
  next
    case nd: False
    note sm = scan_mark[OF inv nd idle, folded p_def s_def, folded h1_def]
    show ?thesis
    proof (cases "longObj h p")
      case True
      let ?h2 = "updReg r (\<lambda>x. x\<lparr>r_scanObj := p, r_scanOff := 0\<rparr>) h1"
      have fr: "cursorFrame r h1 ?h2" by (rule cursorFrame_updReg) (simp add: eraseReg_def)
      have f2: "markFrame r h ?h2" using markFrame_trans[OF f1] fr by (simp add: cursorFrame_def)
      have "markInv ?h2 r B ex" "\<And>x. covered h r (raw # ex) x \<Longrightarrow> covered ?h2 r ex x"
        using sm[OF fr, of "[]"] True by (auto simp: h1_def)
      then show ?thesis
        using eq nd True l markFrame_trans[OF f0 f2] sd cov markFrame_registered[OF f2]
        unfolding scanOk_def Let_def by (simp add: h1_def)
    next
      case False
      let ?vs = "filter (wanted h1 s) (objFields h p)"
      let ?h2 = "pushAll r ?vs h1"
      note pa = pushAll_simps[where r = r and vs = ?vs and h = h1]
      have fr: "cursorFrame r h1 ?h2" by (rule pa)
      have f2: "markFrame r h ?h2" using markFrame_trans[OF f1] fr by (simp add: cursorFrame_def)
      have wf1: "heapWf h1" by (rule markFrame_wf[OF f1 wf])
      have ip: "inReg h r p" using nd by (simp add: scanDrops_def p_def)
      have rs: "registered h1 s"
        using inReg_obj(1)[OF wf ip] markFrame_registered[OF f1] by (simp add: s_def p_def)
      have rest: "marked ?h2 (rawObj v) \<or> r_scanObj (hp_reg ?h2 r) = p"
        if v: "v \<in> set (objFields h p)" "v \<noteq> 0" "v \<notin> set ?vs" and iv: "inReg h r (rawObj v)" for v
      proof -
        have "markDup h1 s v" using v by (simp add: wanted_def)
        moreover have "inReg h1 r (rawObj v)" using iv by (simp add: markFrame_inReg[OF f1])
        ultimately have "marked h1 (rawObj v)" by (rule dup_marked[OF wf1 rs])
        then show ?thesis using cursorFrame_marked[OF fr] by simp
      qed
      have k1: "stk h1 r = stk h r" "r_scanObj (hp_reg h1 r) = r_scanObj (hp_reg h r)"
        by (simp_all add: h1_def)
      have st2: "stk ?h2 r = rev ?vs @ stk h r" using pa(2) k1 by simp
      have cu2: "r_scanObj (hp_reg ?h2 r) = 0" using pa(3) k1 idle by simp
      have "markInv ?h2 r B ex" "\<And>x. covered h r (raw # ex) x \<Longrightarrow> covered ?h2 r ex x"
        by (rule sm[OF fr st2 _ disjI1[OF cu2] rest]; simp add: wanted_def)+
      then show ?thesis
        using eq nd False l markFrame_trans[OF f0 f2] sd cov markFrame_registered[OF f2] pa idle
        unfolding scanOk_def Let_def by (simp add: h1_def)
    qed
  qed
qed

lemma scan_batch:
  "scanOk r B C h0 (xs @ ex) c \<Longrightarrow> scanOk r B C h0 ex (scanBatch r xs c)"
proof (induction r xs c rule: scanBatch.induct)
  case (2 r x xs c)
  show ?case
  proof (cases "sc_split c")
    case True
    let ?h = "sc_heap c" and ?h' = "pushAll r (rev (x # xs)) (sc_heap c)"
    note pa = pushAll_simps[where r = r and vs = "rev (x # xs)" and h = ?h]
    have on: "onStack ?h' r ex = onStack ?h r ((x # xs) @ ex)"
      by (simp only: onStack_def pa(2)) auto
    have "markFrame r h0 ?h'"
      using "2.prems" pa(1) markFrame_trans by (auto simp: scanOk_def Let_def cursorFrame_def)
    moreover have "registered ?h' s = registered ?h s" for s
      using pa(1) markFrame_registered by (auto simp: cursorFrame_def)
    ultimately show ?thesis
      using "2.prems" True pa markInv_onStack[OF pa(1) on]
      unfolding scanOk_def Let_def by (simp add: pushAll_def)
  next
    case False
    then show ?thesis using "2.IH"[OF False] scan_one[of r B C h0 x "xs @ ex" c] "2.prems" by simp
  qed
qed simp

lemma popN_frame: "cursorFrame r h (popN r n h)"
  unfolding popN_def by (rule cursorFrame_updReg) (simp add: eraseReg_def)

lemma scan_pop:
  assumes ok: "scanOk r B C h0 [] c"
  shows "scanOk r B C h0 (take n (stk (sc_heap c) r)) (c\<lparr>sc_heap := popN r n (sc_heap c)\<rparr>)"
proof -
  let ?h = "sc_heap c" and ?h' = "popN r n (sc_heap c)"
  have "set (stk ?h r) = set (take n (stk ?h r)) \<union> set (drop n (stk ?h r))"
    by (metis append_take_drop_id set_append)
  then have on: "onStack ?h' r (take n (stk ?h r)) = onStack ?h r []"
    by (auto simp: onStack_def popN_def)
  have f: "markFrame r ?h ?h'" using popN_frame by (simp add: cursorFrame_def)
  have "markFrame r h0 ?h'" using ok markFrame_trans[OF _ f] by (auto simp: scanOk_def Let_def)
  then show ?thesis
    using ok markInv_onStack[OF popN_frame on] markFrame_registered[OF f]
    unfolding scanOk_def Let_def by (simp add: popN_def)
qed

lemma scan_walk: "scanOk r B C h0 [] c \<Longrightarrow> scanOk r B C h0 [] (walk r b c)"
proof (induction r b c rule: walk.induct)
  case (1 r b c)
  let ?h = "sc_heap c" and ?stk = "stk (sc_heap c) r"
  show ?case
  proof (cases "?stk \<noteq> [] \<and> b > 0 \<and> \<not> sc_split c")
    case False
    then show ?thesis using "1.prems" walk_stop[OF refl False] by simp
  next
    case True
    show ?thesis
    proof (cases "length ?stk \<le> RC_MARK_SHALLOW")
      case sh: True
      have "take 1 ?stk = [hd ?stk]" using True by (cases ?stk) auto
      then have "scanOk r B C h0 [] (markScan r (hd ?stk) (c\<lparr>sc_heap := popN r 1 ?h\<rparr>))"
        using scan_one[of r B C h0 "hd ?stk" "[]"] scan_pop[OF "1.prems", of 1] True by simp
      then have "scanOk r B C h0 [] (walk r (b - 1) (markScan r (hd ?stk) (c\<lparr>sc_heap := popN r 1 ?h\<rparr>)))"
        by (rule "1.IH"(1)[OF refl refl True sh])
      moreover have "walk r b c = walk r (b - 1) (markScan r (hd ?stk) (c\<lparr>sc_heap := popN r 1 ?h\<rparr>))"
        by (rule walk_shallow) (use True sh in auto)
      ultimately show ?thesis by simp
    next
      case dp: False
      let ?l = "batchLim b ?h r"
      have "scanOk r B C h0 [] (scanBatch r (take ?l ?stk) (c\<lparr>sc_heap := popN r ?l ?h\<rparr>))"
        using scan_batch[of r B C h0 "take ?l ?stk" "[]"] scan_pop[OF "1.prems", of ?l] by simp
      then have "scanOk r B C h0 [] (walk r (b - ?l) (scanBatch r (take ?l ?stk) (c\<lparr>sc_heap := popN r ?l ?h\<rparr>)))"
        by (rule "1.IH"(2)[OF refl refl True dp refl])
      moreover have "walk r b c = walk r (b - ?l) (scanBatch r (take ?l ?stk) (c\<lparr>sc_heap := popN r ?l ?h\<rparr>))"
        by (rule walk_deep) (use True dp in auto)
      ultimately show ?thesis by simp
    qed
  qed
qed

end
