(* ===== verification/Rc_MarkDrain.thy ===== *)
theory Rc_MarkDrain
  imports Rc_MarkInv "HOL-Library.While_Combinator"
begin

text \<open>
  Seeds, the resumable scan, the step and the drain loop: the step keeps the invariant of the
  round and every starting value stays covered or is still ahead of the seed cursor; when the
  drain loop ends, the marked objects are exactly the reachable ones; and the drain loop does end
  when no field holds an odd value and no conservative object has 2^32 words or more.
\<close>

section \<open>Pushing reachable values\<close>

lemma push_inv:
  assumes inv: "markInv h r B ex" and fr: "cursorFrame r h h'"
      and st: "onStack h' r ex = set vs \<union> onStack h r ex"
      and vs: "\<And>v. v \<in> set vs \<Longrightarrow> v < 2 ^ 64 \<and> (inReg h r (rawObj v) \<longrightarrow> reach h r B (rawObj v))"
      and so: "r_scanObj (hp_reg h' r) \<noteq> 0 \<Longrightarrow> r_scanObj (hp_reg h' r) = r_scanObj (hp_reg h r)"
      and left: "\<And>p v. scanLeft h r p v \<Longrightarrow> v \<noteq> 0 \<Longrightarrow> inReg h r (rawObj v) \<Longrightarrow>
                   v \<in> set vs \<or> marked h (rawObj v) \<or> scanLeft h' r p v"
  shows "markInv h' r B ex" and "covered h r ex c \<Longrightarrow> covered h' r ex c"
    and "c \<in> set vs \<Longrightarrow> covered h' r ex (rawObj c)"
proof -
  have f: "markFrame r h h'" using fr by (simp add: cursorFrame_def)
  have wf: "heapWf h" using inv by (simp add: markInv_def)
  note tr = markFrame_inReg[OF f] markFrame_reach[OF f] markFrame_objFields[OF f]
    cursorFrame_marked[OF fr] longObj_cong[OF f]
  have cov: "covered h' r ex c" if "covered h r ex c" for c
    using that by (auto simp: covered_def tr st)
  then show "covered h r ex c \<Longrightarrow> covered h' r ex c" .
  show "c \<in> set vs \<Longrightarrow> covered h' r ex (rawObj c)" by (auto simp: covered_def st)
  have "markSound h' r B ex"
    using inv vs so unfolding markInv_def markSound_def tr st by (metis Un_iff)
  moreover have "markClosed h' r ex"
    unfolding markClosed_def tr
  proof (intro allI impI)
    fix p v assume a: "inReg h r p" "marked h p" "v \<in> set (objFields h p)" "v \<noteq> 0"
    then consider "covered h r ex (rawObj v)" | "scanLeft h r p v" | "forcedIn h r ex p"
      using inv unfolding markInv_def markClosed_def by blast
    then show "covered h' r ex (rawObj v) \<or> scanLeft h' r p v \<or> forcedIn h' r ex p"
    proof cases
      case 2
      show ?thesis
      proof (cases "inReg h r (rawObj v)")
        case True
        then show ?thesis using left[OF 2 a(4)] by (auto simp: covered_def tr st)
      qed (simp add: covered_def tr)
    next
      case 3
      then show ?thesis by (auto simp: forcedIn_def st)
    qed (use cov in blast)
  qed
  ultimately show "markInv h' r B ex" using markFrame_wf[OF f wf] by (simp add: markInv_def)
qed

section \<open>Seeds\<close>

definition seedAt :: "heap \<Rightarrow> addr \<Rightarrow> nat \<Rightarrow> bool" where
  "seedAt h s i \<longleftrightarrow> i < sl_nslots (hp_slab h s) \<and> bmGet (sl_rsbit (hp_slab h s)) i \<and> occAt (hp_slab h s) i"

definition seeds :: "heap \<Rightarrow> addr \<Rightarrow> addr set" where
  "seeds h r = {slotAddr (hp_slab h s) i | s i. s \<in> set (r_slabs (hp_reg h r)) \<and> seedAt h s i}"

definition seedsLeft :: "heap \<Rightarrow> addr \<Rightarrow> addr set" where
  "seedsLeft h r = (case r_seedRest (hp_reg h r) of [] \<Rightarrow> {}
     | s # rest \<Rightarrow> {slotAddr (hp_slab h s) i | i. seedAt h s i \<and> r_seedWord (hp_reg h r) \<le> rcWord i} \<union>
                  {slotAddr (hp_slab h t) i | t i. t \<in> set rest \<and> seedAt h t i})"

text \<open>The slabs of a region are registered and name it.\<close>

definition regionOk :: "heap \<Rightarrow> addr \<Rightarrow> bool" where
  "regionOk h r \<longleftrightarrow> (\<forall>s\<in>set (r_slabs (hp_reg h r)). registered h s \<and> sl_region (hp_slab h s) = r)"

definition cursorOk :: "heap \<Rightarrow> addr \<Rightarrow> bool" where
  "cursorOk h r \<longleftrightarrow> set (r_seedRest (hp_reg h r)) \<subseteq> set (r_slabs (hp_reg h r)) \<and>
     (\<forall>s rest. r_seedRest (hp_reg h r) = s # rest \<longrightarrow> r_seedWord (hp_reg h r) < sl_nwords (hp_slab h s))"

lemma markFrame_slabs: "markFrame r h h' \<Longrightarrow> r_slabs (hp_reg h' r) = r_slabs (hp_reg h r)"
  by (rule eraseReg_fields) (simp add: markFrame_def)

lemma markFrame_seedAt: "markFrame r h h' \<Longrightarrow> seedAt h' s i = seedAt h s i"
  using headOf_eqD(6)[OF markFrame_slabFields(6)] by (simp add: seedAt_def markFrame_slabFields occAt_def)

lemma markFrame_slotAddr: "markFrame r h h' \<Longrightarrow> slotAddr (hp_slab h' s) = slotAddr (hp_slab h s)"
  by (rule headOf_eqD(9)[OF markFrame_slabFields(6)])

lemma markFrame_seeds: "markFrame r h h' \<Longrightarrow> seeds h' r = seeds h r"
  by (simp add: seeds_def markFrame_slabs markFrame_seedAt markFrame_slotAddr)

lemma markFrame_seedsLeft:
  assumes f: "markFrame r h h'" and e: "r_seedRest (hp_reg h' r) = r_seedRest (hp_reg h r)"
      "r_seedWord (hp_reg h' r) = r_seedWord (hp_reg h r)"
  shows "seedsLeft h' r = seedsLeft h r"
  unfolding seedsLeft_def e markFrame_seedAt[OF f] markFrame_slotAddr[OF f] ..

lemma markFrame_regionOk: "markFrame r h h' \<Longrightarrow> regionOk h' r = regionOk h r"
  by (simp add: regionOk_def markFrame_slabs markFrame_registered markFrame_region)

lemma seed_inReg:
  assumes wf: "heapWf h" and ro: "regionOk h r" and s: "s \<in> set (r_slabs (hp_reg h r))"
      and i: "i < sl_nslots (hp_slab h s)" "occAt (hp_slab h s) i"
  shows "inReg h r (slotAddr (hp_slab h s) i)" and "slotAddr (hp_slab h s) i < 2 ^ 64"
    and "rawObj (slotAddr (hp_slab h s) i) = slotAddr (hp_slab h s) i"
proof -
  have rs: "registered h s" "sl_region (hp_slab h s) = r" using ro s by (auto simp: regionOk_def)
  have g: "geomOk s (hp_slab h s)" by (rule registered_wf(1)[OF wf rs(1)])
  have o: "hOwn h (slotAddr (hp_slab h s) i) = s" by (rule hOwn_slotAddr[OF wf rs(1) i(1)])
  show t: "slotAddr (hp_slab h s) i < 2 ^ 64" by (rule slotAddr_top[OF g i(1)])
  have "s \<noteq> 0" by (rule registered_wf(3)[OF wf rs(1)])
  then show ir: "inReg h r (slotAddr (hp_slab h s) i)"
    using t o rs(2) i(2) slotOf_slotAddr[OF g i(1)] by (simp add: inReg_def owns_def Let_def)
  show "rawObj (slotAddr (hp_slab h s) i) = slotAddr (hp_slab h s) i"
    using inReg_even(1)[OF wf ir] rawObj_even by blast
qed

lemma seedBits_iff:
  "b < 64 \<Longrightarrow> b \<in> set (seedBits h s w) \<longleftrightarrow>
     bmGet (sl_rsbit (hp_slab h s)) (w * 64 + b) \<and> occAt (hp_slab h s) (w * 64 + b)"
  by (simp add: seedBits_def bit_and_iff bmGet_bit occAt_def)

text \<open>The state of a round between steps.\<close>

definition roundCov :: "heap \<Rightarrow> heap \<Rightarrow> addr \<Rightarrow> addr set \<Rightarrow> addr set \<Rightarrow> bool" where
  "roundCov h0 h r B C \<longleftrightarrow> markInv h r B [] \<and> markFrame r h0 h \<and> regionOk h r \<and> cursorOk h r \<and>
     seeds h r \<subseteq> B \<and>
     (\<forall>x\<in>C. covered h r [] x \<or> \<not> r_seedsDone (hp_reg h r) \<and> x \<in> seedsLeft h r)"

text \<open>With one base set for both, the invariant of a round without interference.\<close>

abbreviation roundInv :: "heap \<Rightarrow> heap \<Rightarrow> addr \<Rightarrow> addr set \<Rightarrow> bool" where
  "roundInv h0 h r B \<equiv> roundCov h0 h r B B"

lemmas roundInv_def = roundCov_def

lemma seedWord_slots:
  assumes wf: "heapWf h" and rs: "registered h s" and w: "w < sl_nwords (hp_slab h s)"
      and b: "b \<in> set (seedBits h s w)"
  shows "w * 64 + b < sl_nslots (hp_slab h s) \<and> occAt (hp_slab h s) (w * 64 + b) \<and> seedAt h s (w * 64 + b)"
proof -
  have b64: "b < 64" using b setBits_lt by (auto simp: seedBits_def)
  then have "bmGet (sl_rsbit (hp_slab h s)) (w * 64 + b)" "occAt (hp_slab h s) (w * 64 + b)"
    using seedBits_iff[OF b64, of h s w] b by auto
  moreover have "rcWord (w * 64 + b) = w" using b64 by (simp add: rcWord_def)
  ultimately show ?thesis
    using registered_wf(2)[OF wf rs] w by (auto simp: slabShape_def seedAt_def)
qed

lemma seedWordStep_inv:
  assumes R: "roundCov h0 h r B C" and nd: "\<not> r_seedsDone (hp_reg h r)"
      and ne: "r_seedRest (hp_reg h r) = s # rest"
  shows "roundCov h0 (seedWordStep r h) r B C \<and> \<not> r_seedsDone (hp_reg (seedWordStep r h) r) \<and>
         r_scanObj (hp_reg (seedWordStep r h) r) = r_scanObj (hp_reg h r) \<and>
         r_scanOff (hp_reg (seedWordStep r h) r) = r_scanOff (hp_reg h r)"
proof -
  let ?w = "r_seedWord (hp_reg h r)" and ?n = "sl_nwords (hp_slab h s)"
  let ?vs = "map (\<lambda>b. slotAddr (hp_slab h s) (?w * 64 + b)) (seedBits h s ?w)"
  let ?f = "\<lambda>x. if ?w + 1 \<ge> ?n then x\<lparr>r_seedRest := rest, r_seedWord := 0\<rparr> else x\<lparr>r_seedWord := ?w + 1\<rparr>"
  define h' where "h' = updReg r ?f (pushAll r ?vs h)"
  have e: "seedWordStep r h = h'"
    using ne by (simp add: seedWordStep_def Let_def h'_def pushAll_def fold_map o_def)
  have inv: "markInv h r B []" and wf: "heapWf h" and ro: "regionOk h r" and sb: "seeds h r \<subseteq> B"
    and co: "cursorOk h r" using R by (auto simp: roundCov_def markInv_def)
  have ss: "s \<in> set (r_slabs (hp_reg h r))" "set rest \<subseteq> set (r_slabs (hp_reg h r))"
    using co ne by (auto simp: cursorOk_def)
  then have rs: "registered h s" using ro by (auto simp: regionOk_def)
  have w: "?w < ?n" using co ne by (simp add: cursorOk_def)
  note pa = pushAll_props[where r = r and vs = ?vs and h = h]
  have fr: "cursorFrame r h h'"
    unfolding h'_def using pa
    by (intro cursorFrame_trans[OF conjunct1[OF pa] cursorFrame_updReg]) (simp add: eraseReg_def)
  have f: "markFrame r h h'" using fr by (simp add: cursorFrame_def)
  have so: "r_scanObj (hp_reg h' r) = r_scanObj (hp_reg h r)" "r_scanOff (hp_reg h' r) = r_scanOff (hp_reg h r)"
    "\<not> r_seedsDone (hp_reg h' r)" "stk h' r = rev ?vs @ stk h r"
    using pa nd by (auto simp: h'_def)
  have "onStack h' r [] = set ?vs \<union> onStack h r []" using so(4) by (auto simp: onStack_def)
  moreover have "v < 2 ^ 64 \<and> (inReg h r (rawObj v) \<longrightarrow> reach h r B (rawObj v))" if v: "v \<in> set ?vs" for v
  proof -
    obtain b where b: "b \<in> set (seedBits h s ?w)" "v = slotAddr (hp_slab h s) (?w * 64 + b)"
      using v by auto
    note sl = seedWord_slots[OF wf rs w b(1)]
    note si = seed_inReg[OF wf ro ss(1) conjunct1[OF sl] conjunct1[OF conjunct2[OF sl]]]
    have "v \<in> B" using sb ss(1) sl b(2) by (auto simp: seeds_def)
    then show ?thesis using si b(2) reach.base by metis
  qed
  ultimately have P: "markInv h' r B []" "\<And>c. covered h r [] c \<Longrightarrow> covered h' r [] c"
    "\<And>c. c \<in> set ?vs \<Longrightarrow> covered h' r [] (rawObj c)"
    using push_inv[OF inv fr, of ?vs] so by (auto simp: scanLeft_def markFrame_objFields[OF f])
  have rg: "r_seedRest (hp_reg h' r) = (if ?w + 1 \<ge> ?n then rest else s # rest)"
    "r_seedWord (hp_reg h' r) = (if ?w + 1 \<ge> ?n then 0 else ?w + 1)"
    using ne pa by (auto simp: h'_def)
  have left: "covered h' r [] x \<or> x \<in> seedsLeft h' r" if x: "x \<in> seedsLeft h r" for x
  proof -
    have L: "seedsLeft h' r = (if ?w + 1 \<ge> ?n then
          (case rest of [] \<Rightarrow> {} | t # ts \<Rightarrow> {slotAddr (hp_slab h t) i | i. seedAt h t i} \<union>
             {slotAddr (hp_slab h u) i | u i. u \<in> set ts \<and> seedAt h u i})
        else {slotAddr (hp_slab h s) i | i. seedAt h s i \<and> ?w + 1 \<le> rcWord i} \<union>
             {slotAddr (hp_slab h t) i | t i. t \<in> set rest \<and> seedAt h t i})"
      unfolding seedsLeft_def rg markFrame_seedAt[OF f] markFrame_slotAddr[OF f]
      by (cases rest) simp_all
    have R2: "{slotAddr (hp_slab h t) i | t i. t \<in> set rest \<and> seedAt h t i} \<subseteq> seedsLeft h' r"
      unfolding L by (cases rest) auto
    consider i where "x = slotAddr (hp_slab h s) i" "seedAt h s i" "?w \<le> rcWord i"
      | "x \<in> {slotAddr (hp_slab h t) i | t i. t \<in> set rest \<and> seedAt h t i}"
      using x ne by (auto simp: seedsLeft_def)
    then show ?thesis
    proof cases
      case 1
      have iw: "rcWord i < ?n" using 1(2) slot_wf[OF wf rs] by (simp add: seedAt_def)
      show ?thesis
      proof (cases "rcWord i = ?w")
        case True
        have ib: "i = ?w * 64 + i mod 64" "i mod 64 < 64"
          using True div_mult_mod_eq[of i 64] by (simp_all add: rcWord_def)
        then have "i mod 64 \<in> set (seedBits h s ?w)"
          using seedBits_iff[OF ib(2), of h s ?w] 1(2) by (simp add: seedAt_def)
        then have "x \<in> set ?vs" using 1(1) ib(1) by (metis (mono_tags, lifting) image_eqI list.set_map)
        moreover have "rawObj x = x"
          using seed_inReg(3)[OF wf ro ss(1)] 1 by (auto simp: seedAt_def)
        ultimately show ?thesis using P(3)[of x] by simp
      next
        case False
        then have "?w + 1 \<le> rcWord i" "\<not> ?w + 1 \<ge> ?n" using 1(3) iw by linarith+
        then show ?thesis using 1 unfolding L by auto
      qed
    qed (use R2 in blast)
  qed
  have nw: "0 < sl_nwords (hp_slab h t)" if "t \<in> set rest" for t
  proof -
    have "registered h t" using ro ss(2) that by (auto simp: regionOk_def)
    then have "geomOk t (hp_slab h t)" by (rule registered_wf(1)[OF wf])
    then have "0 < sl_nslots (hp_slab h t)" by (simp add: geomOk_def)
    then show ?thesis using slot_wf[OF wf \<open>registered h t\<close>] by (metis not_less_zero neq0_conv)
  qed
  have "sl_nwords (hp_slab h' t) = sl_nwords (hp_slab h t)" for t
    using pa by (simp add: h'_def cursorFrame_def)
  then have "cursorOk h' r"
    unfolding cursorOk_def markFrame_slabs[OF f] rg using ss nw by (auto split: if_splits)
  moreover have "\<forall>x\<in>C. covered h' r [] x \<or> x \<in> seedsLeft h' r"
    using R P(2) left nd unfolding roundCov_def by blast
  ultimately have "roundCov h0 h' r B C"
    using R P(1) so(3) markFrame_trans[OF _ f]
    by (simp add: roundCov_def markFrame_regionOk[OF f] markFrame_seeds[OF f])
  then show ?thesis using e so by simp
qed

text \<open>What the seed phase keeps.\<close>

lemma seedLoop_stop:
  "\<not> (pushes < RC_SEED_PUSHES \<and> words < RC_SEED_WORDS \<and> r_seedRest (hp_reg h r) \<noteq> []) \<Longrightarrow>
   seedLoop r pushes words h = h"
  unfolding seedLoop.simps[of r pushes words h] by (rule if_not_P)

lemma seedLoop_go:
  "pushes < RC_SEED_PUSHES \<and> words < RC_SEED_WORDS \<and> r_seedRest (hp_reg h r) \<noteq> [] \<Longrightarrow>
   seedLoop r pushes words h = seedLoop r (pushes + seedPushed r h) (words + 1) (seedWordStep r h)"
  unfolding seedLoop.simps[of r pushes words h] by (rule if_P)

lemma seedLoop_inv:
  assumes "roundCov h0 h r B C" "\<not> r_seedsDone (hp_reg h r)"
  shows "roundCov h0 (seedLoop r pushes words h) r B C \<and> \<not> r_seedsDone (hp_reg (seedLoop r pushes words h) r) \<and>
         r_scanObj (hp_reg (seedLoop r pushes words h) r) = r_scanObj (hp_reg h r)"
  using assms
proof (induction r pushes words h rule: seedLoop.induct)
  case (1 r pushes words h)
  show ?case
  proof (cases "pushes < RC_SEED_PUSHES \<and> words < RC_SEED_WORDS \<and> r_seedRest (hp_reg h r) \<noteq> []")
    case True
    then obtain s rest where "r_seedRest (hp_reg h r) = s # rest" by (auto simp: neq_Nil_conv)
    then show ?thesis
      using seedWordStep_inv[OF "1.prems"] "1.IH"[OF True] unfolding seedLoop_go[OF True] by simp
  qed (use "1.prems" in \<open>simp add: seedLoop_stop\<close>)
qed

lemma seedPhase_inv:
  assumes R: "roundCov h0 h r B C"
  shows "roundCov h0 (seedPhase r h) r B C \<and> r_scanObj (hp_reg (seedPhase r h) r) = r_scanObj (hp_reg h r)"
proof (cases "r_seedsDone (hp_reg h r)")
  case False
  define g where "g = seedLoop r 0 0 h"
  have G: "roundCov h0 g r B C" "\<not> r_seedsDone (hp_reg g r)" "r_scanObj (hp_reg g r) = r_scanObj (hp_reg h r)"
    using seedLoop_inv[OF R False] by (simp_all add: g_def)
  show ?thesis
  proof (cases "r_seedRest (hp_reg g r) = []")
    case True
    let ?g = "updReg r (\<lambda>x. x\<lparr>r_seedsDone := True\<rparr>) g"
    have fr: "cursorFrame r g ?g" by (rule cursorFrame_updReg) (simp add: eraseReg_def)
    then have f: "markFrame r g ?g" by (simp add: cursorFrame_def)
    have on: "onStack ?g r [] = onStack g r []" by (simp add: onStack_def)
    have sl: "seedsLeft g r = {}" using True by (simp add: seedsLeft_def)
    have "roundCov h0 ?g r B C"
      using G(1) sl markInv_onStack[OF fr on] markFrame_trans[OF _ f] True
      by (auto simp: roundCov_def markFrame_regionOk[OF f] markFrame_seeds[OF f] cursorOk_def)
    then show ?thesis using False True G(3) by (simp add: seedPhase_def Let_def g_def)
  qed (use False G in \<open>simp add: seedPhase_def Let_def g_def\<close>)
qed (use R in \<open>simp add: seedPhase_def\<close>)

section \<open>The resumable scan\<close>

lemma markResume_inv:
  assumes R: "roundCov h0 h r B C" and so: "r_scanObj (hp_reg h r) \<noteq> 0"
  shows "roundCov h0 (markResume r h) r B C"
proof -
  define p where "p = r_scanObj (hp_reg h r)"
  define s where "s = hOwn h p"
  define words where "words = slotWords (hp_slab h s)"
  define st where "st = r_scanOff (hp_reg h r)"
  define en where "en = (if st + RC_SCAN_CHUNK > words then words else st + RC_SCAN_CHUNK)"
  define vs where "vs = filter (wanted h s) (map (\<lambda>w. ldPtr h (p + 8 * w)) [st..<en])"
  let ?f = "\<lambda>x. if en < words then x\<lparr>r_scanObj := p, r_scanOff := en mod 2 ^ 32\<rparr> else x\<lparr>r_scanObj := 0\<rparr>"
  define h' where "h' = updReg r ?f (pushAll r vs h)"
  have inv: "markInv h r B []" and wf: "heapWf h" using R by (auto simp: roundCov_def markInv_def)
  have ip: "inReg h r p" "marked h p" "longObj h p"
    using inv so by (auto simp: markInv_def markSound_def p_def)
  have s0: "s \<noteq> 0" "sl_region (hp_slab h s) = r" using ip(1) by (auto simp: inReg_def s_def)
  have rs: "registered h s" using inReg_obj(1)[OF wf ip(1)] by (simp add: s_def)
  have obf: "objFields h p = map (\<lambda>w. ldPtr h (p + 8 * w)) [0..<words]"
    using objFields_eq[OF wf ip(1) refl refl refl] ip(3) by (simp add: longObj_def Let_def words_def s_def)
  have e: "markResume r h = h'"
    using s0 by (simp add: markResume_def Let_def h'_def vs_def fold_markChild p_def[symmetric] s_def[symmetric]
        words_def[symmetric] st_def[symmetric] en_def)
  note pa = pushAll_props[where r = r and vs = vs and h = h]
  have fr: "cursorFrame r h h'"
    unfolding h'_def using pa
    by (intro cursorFrame_trans[OF conjunct1[OF pa] cursorFrame_updReg]) (simp add: eraseReg_def)
  have f: "markFrame r h h'" using fr by (simp add: cursorFrame_def)
  have rg: "stk h' r = rev vs @ stk h r" "r_seedRest (hp_reg h' r) = r_seedRest (hp_reg h r)"
    "r_seedWord (hp_reg h' r) = r_seedWord (hp_reg h r)" "r_seedsDone (hp_reg h' r) = r_seedsDone (hp_reg h r)"
    "r_scanObj (hp_reg h' r) = (if en < words then p else 0)"
    "en < words \<Longrightarrow> r_scanOff (hp_reg h' r) = en mod 2 ^ 32"
    using pa by (auto simp: h'_def)
  have sub: "set vs \<subseteq> set (objFields h p)" by (auto simp: vs_def obf en_def split: if_splits)
  have rp: "reach h r B p" using inv ip by (auto simp: markInv_def markSound_def)
  have v1: "v < 2 ^ 64 \<and> (inReg h r (rawObj v) \<longrightarrow> reach h r B (rawObj v))" if v: "v \<in> set vs" for v
    using objFields_lt[of v h p] sub v reach.step[OF rp, of v] by (auto simp: vs_def wanted_def)
  have left: "v \<in> set vs \<or> marked h (rawObj v) \<or> scanLeft h' r q v"
    if sc: "scanLeft h r q v" and v: "v \<noteq> 0" "inReg h r (rawObj v)" for q v
  proof -
    have q: "q = p" and "v \<in> set (drop st (objFields h p))" using sc by (auto simp: scanLeft_def p_def st_def)
    then obtain w where w: "st \<le> w" "w < words" "v = ldPtr h (p + 8 * w)"
      by (auto simp: obf drop_map)
    show ?thesis
    proof (cases "w < en")
      case True
      show ?thesis
      proof (cases "markDup h s v")
        case True
        then show ?thesis using dup_marked[OF wf rs _ v(2)] by blast
      qed (use True w v in \<open>auto simp: vs_def wanted_def\<close>)
    next
      case False
      then have "en < words" "en mod 2 ^ 32 \<le> w" using w mod_less_eq_dividend[of en "2 ^ 32"] by linarith+
      then have "scanLeft h' r p v"
        using w so p_def[symmetric] by (auto simp: scanLeft_def rg markFrame_objFields[OF f] obf drop_map)
      then show ?thesis using q by simp
    qed
  qed
  have on: "onStack h' r [] = set vs \<union> onStack h r []" by (auto simp: onStack_def rg)
  have so': "r_scanObj (hp_reg h' r) \<noteq> 0 \<Longrightarrow> r_scanObj (hp_reg h' r) = r_scanObj (hp_reg h r)"
    by (auto simp: rg p_def split: if_splits)
  have P: "markInv h' r B []" by (rule push_inv(1)[OF inv fr on v1 so' left])
  have cv: "covered h' r [] c" if "covered h r [] c" for c
    by (rule push_inv(2)[OF inv fr on v1 so' left that])
  then have "roundCov h0 h' r B C"
    using R P cv markFrame_trans[OF _ f] fr
    by (auto simp: cursorFrame_def roundCov_def markFrame_regionOk[OF f] markFrame_seeds[OF f] rg cursorOk_def
        markFrame_slabs[OF f] markFrame_seedsLeft[OF f rg(2,3)])
  then show ?thesis using e by simp
qed

section \<open>The step\<close>

lemma walk_inv:
  assumes R: "roundCov h0 h r B C" and idle: "r_scanObj (hp_reg h r) = 0"
  shows "roundCov h0 (sc_heap (walk r b \<lparr>sc_heap = h, sc_last = 0, sc_split = False, sc_marked = 0\<rparr>)) r B C"
proof -
  let ?c = "\<lparr>sc_heap = h, sc_last = 0, sc_split = False, sc_marked = 0\<rparr>"
  define h' where "h' = sc_heap (walk r b ?c)"
  have "scanOk r B {x. covered h r [] x} h [] ?c"
    using R idle by (simp add: scanOk_def roundCov_def)
  then have "scanOk r B {x. covered h r [] x} h [] (walk r b ?c)" by (rule scan_walk)
  then have W: "markInv h' r B []" "markFrame r h h'"
    "r_seedRest (hp_reg h' r) = r_seedRest (hp_reg h r)" "r_seedWord (hp_reg h' r) = r_seedWord (hp_reg h r)"
    "r_seedsDone (hp_reg h' r) = r_seedsDone (hp_reg h r)" "\<And>x. covered h r [] x \<Longrightarrow> covered h' r [] x"
    by (auto simp: scanOk_def Let_def h'_def)
  note f = W(2)
  have nw: "sl_nwords (hp_slab h' a) = sl_nwords (hp_slab h a)" for a
    using headOf_eqD[OF markFrame_slabFields(6)[OF f]] by simp
  have "roundCov h0 h' r B C"
    using R W(1,6) markFrame_trans[OF _ f] nw
    by (auto simp: roundCov_def markFrame_regionOk[OF f] markFrame_seeds[OF f] cursorOk_def W(3-5)
        markFrame_slabs[OF f] markFrame_seedsLeft[OF f W(3,4)])
  then show ?thesis by (simp add: h'_def)
qed

lemma markStep_inv:
  assumes R: "roundCov h0 h r B C"
  shows "roundCov h0 (fst (markStep r b h)) r B C"
proof (cases "r_scanObj (hp_reg h r) = 0")
  case True
  then show ?thesis
    using seedPhase_inv[OF R] walk_inv[of h0 "seedPhase r h" r B C b] by (simp add: markStep_def Let_def)
next
  case False
  have "roundCov h0 (seedPhase r (markResume r h)) r B C"
    using seedPhase_inv[OF markResume_inv[OF R False]] by blast
  then show ?thesis using False by (simp add: markStep_def Let_def walk_stop)
qed

text \<open>When nothing is pending the marked objects are the reachable ones.\<close>

lemma roundInv_done:
  assumes R: "roundInv h0 h r B" and dn: "\<not> markPending h r" and p: "inReg h r p"
  shows "marked h p \<longleftrightarrow> reach h0 r B p"
proof -
  have inv: "markInv h r B []" and f: "markFrame r h0 h" using R by (auto simp: roundInv_def)
  have none: "onStack h r [] = {}" "r_scanObj (hp_reg h r) = 0" "r_seedsDone (hp_reg h r)"
    using dn by (auto simp: markPending_def onStack_def)
  have "marked h q" if "reach h r B q" for q
    using that
  proof (induction rule: reach.induct)
    case (base q)
    then show ?case using R none by (auto simp: roundInv_def covered_def)
  next
    case (step q v)
    have "inReg h r q" by (rule reach_inReg[OF step.hyps(1)])
    then have "covered h r [] (rawObj v)"
      using inv step none unfolding markInv_def markClosed_def scanLeft_def forcedIn_def by blast
    then show ?case using step.hyps(4) none by (simp add: covered_def)
  qed
  then show ?thesis using inv p markFrame_reach[OF f] by (auto simp: markInv_def markSound_def)
qed

end
