(* ===== verification/Rc_MarkTerm.thy ===== *)
theory Rc_MarkTerm
  imports Rc_MarkDrain
begin

text \<open>
  Termination of the drain loop of \<open>src/back/reclaim.c\<close>. Each step makes progress in this order:
  words of the registration bitmaps still to be seeded; unmarked objects plus forced stack
  entries; words left to the resumable scan; stack entries. Two facts about the data are needed,
  and neither is checked by the code: no field of the region's objects holds an odd value (an odd
  value would be popped as a forced entry), and no object has 2^32 words or more (the cursor of
  the resumable scan is a 32-bit number).
\<close>

definition evenFields :: "heap \<Rightarrow> addr \<Rightarrow> bool" where
  "evenFields h r \<longleftrightarrow> (\<forall>p. inReg h r p \<longrightarrow> (\<forall>v\<in>set (objFields h p). even v))"

definition shortObjs :: "heap \<Rightarrow> addr \<Rightarrow> bool" where
  "shortObjs h r \<longleftrightarrow> (\<forall>p. inReg h r p \<longrightarrow> slotWords (hp_slab h (hOwn h p)) < 2 ^ 32)"

definition freshObjs :: "heap \<Rightarrow> addr \<Rightarrow> addr set" where
  "freshObjs h r = {p. inReg h r p \<and> \<not> marked h p}"

definition room :: "heap \<Rightarrow> addr \<Rightarrow> nat list \<Rightarrow> nat" where
  "room h r ex = card (freshObjs h r) + length (filter odd (ex @ stk h r))"

definition pend :: "heap \<Rightarrow> addr \<Rightarrow> nat list \<Rightarrow> nat" where
  "pend h r ex = length ex + length (stk h r)"

definition scanRest :: "heap \<Rightarrow> addr \<Rightarrow> nat" where
  "scanRest h r = (if r_scanObj (hp_reg h r) = 0 then 0
     else Suc (slotWords (hp_slab h (hOwn h (r_scanObj (hp_reg h r)))) - r_scanOff (hp_reg h r)))"

definition seedWork :: "heap \<Rightarrow> addr \<Rightarrow> nat" where
  "seedWork h r = (if r_seedsDone (hp_reg h r) then 0
     else Suc (case r_seedRest (hp_reg h r) of [] \<Rightarrow> 0
       | s # rest \<Rightarrow> (sl_nwords (hp_slab h s) - r_seedWord (hp_reg h r)) +
           sum_list (map (\<lambda>t. sl_nwords (hp_slab h t)) rest)))"

lemma finite_fresh: "finite (freshObjs h r)"
  by (rule finite_subset[of _ "{..<2 ^ 64}"]) (auto simp: freshObjs_def inReg_def)

lemma markFrame_slotWords: "markFrame r h h' \<Longrightarrow> slotWords (hp_slab h' a) = slotWords (hp_slab h a)"
  by (rule headOf_eqD(12)[OF markFrame_slabFields(6)])

lemma markFrame_nwords: "markFrame r h h' \<Longrightarrow> sl_nwords (hp_slab h' a) = sl_nwords (hp_slab h a)"
  using headOf_eqD[OF markFrame_slabFields(6)[of r h h' a]] by simp

lemma markFrame_evenFields: "markFrame r h h' \<Longrightarrow> evenFields h' r = evenFields h r"
  by (simp add: evenFields_def markFrame_inReg markFrame_objFields)

lemma markFrame_shortObjs: "markFrame r h h' \<Longrightarrow> shortObjs h' r = shortObjs h r"
  by (simp add: shortObjs_def markFrame_inReg markFrame_hOwn markFrame_slotWords)

lemma cursorFrame_fresh: "cursorFrame r h h' \<Longrightarrow> freshObjs h' r = freshObjs h r"
  using cursorFrame_marked[of r h h'] markFrame_inReg[of r h h']
  by (auto simp: freshObjs_def cursorFrame_def)

section \<open>The seed cursor\<close>

lemma seedWordStep_work:
  assumes R: "roundCov h0 h r B C" and nd: "\<not> r_seedsDone (hp_reg h r)"
      and ne: "r_seedRest (hp_reg h r) \<noteq> []"
  shows "seedWork (seedWordStep r h) r < seedWork h r"
proof -
  obtain s rest where e: "r_seedRest (hp_reg h r) = s # rest" using ne by (cases "r_seedRest (hp_reg h r)") auto
  let ?w = "r_seedWord (hp_reg h r)" and ?n = "sl_nwords (hp_slab h s)"
  let ?vs = "map (\<lambda>b. slotAddr (hp_slab h s) (?w * 64 + b)) (seedBits h s ?w)"
  define g where "g = pushAll r ?vs h"
  have g: "hp_slab g = hp_slab h" "\<not> r_seedsDone (hp_reg g r)"
    using pushAll_props[where r = r and vs = ?vs and h = h] nd by (auto simp: g_def cursorFrame_def)
  have w: "?w < ?n" using R e by (simp add: roundInv_def cursorOk_def)
  have st: "seedWordStep r h = updReg r (\<lambda>x. if ?w + 1 \<ge> ?n then x\<lparr>r_seedRest := rest, r_seedWord := 0\<rparr>
      else x\<lparr>r_seedWord := ?w + 1\<rparr>) g"
    using e by (simp add: seedWordStep_def Let_def g_def pushAll_def fold_map o_def)
  have gr: "r_seedRest (hp_reg g r) = s # rest"
    using pushAll_props[where r = r and vs = ?vs and h = h] e by (auto simp: g_def)
  show ?thesis
  proof (cases "?w + 1 \<ge> ?n")
    case True
    then show ?thesis using nd e w g unfolding seedWork_def st by (cases rest) simp_all
  next
    case False
    then show ?thesis using nd e w g gr unfolding seedWork_def st by simp
  qed
qed

lemma seedLoop_work:
  assumes "roundCov h0 h r B C" "\<not> r_seedsDone (hp_reg h r)"
  shows "seedWork (seedLoop r pushes words h) r \<le> seedWork h r"
  using assms
proof (induction r pushes words h rule: seedLoop.induct)
  case (1 r pushes words h)
  show ?case
  proof (cases "pushes < RC_SEED_PUSHES \<and> words < RC_SEED_WORDS \<and> r_seedRest (hp_reg h r) \<noteq> []")
    case True
    obtain s rest where e: "r_seedRest (hp_reg h r) = s # rest" using True by (cases "r_seedRest (hp_reg h r)") auto
    show ?thesis
      using "1.IH"[OF True] seedWordStep_inv[OF "1.prems" e] seedWordStep_work[OF "1.prems"] True
      unfolding seedLoop_go[OF True] by linarith
  qed (simp add: seedLoop_stop)
qed

lemma seedPhase_work:
  assumes R: "roundCov h0 h r B C" and nd: "\<not> r_seedsDone (hp_reg h r)"
  shows "seedWork (seedPhase r h) r < seedWork h r"
proof -
  let ?g = "seedLoop r 0 0 h"
  have G: "\<not> r_seedsDone (hp_reg ?g r)" using seedLoop_inv[OF R nd] by blast
  show ?thesis
  proof (cases "r_seedRest (hp_reg ?g r) = []")
    case True
    then have "seedWork (seedPhase r h) r = 0" using nd by (simp add: seedPhase_def Let_def seedWork_def)
    then show ?thesis using nd by (simp add: seedWork_def)
  next
    case False
    have ne: "r_seedRest (hp_reg h r) \<noteq> []"
    proof
      assume "r_seedRest (hp_reg h r) = []"
      then have "?g = h" by (simp add: seedLoop_stop)
      then show False using False \<open>r_seedRest (hp_reg h r) = []\<close> by simp
    qed
    then obtain s rest where e: "r_seedRest (hp_reg h r) = s # rest" by (cases "r_seedRest (hp_reg h r)") auto
    have go: "0 < RC_SEED_PUSHES \<and> 0 < RC_SEED_WORDS \<and> r_seedRest (hp_reg h r) \<noteq> []"
      using ne by (simp add: RC_SEED_PUSHES_def RC_SEED_WORDS_def)
    have st: "roundCov h0 (seedWordStep r h) r B C" "\<not> r_seedsDone (hp_reg (seedWordStep r h) r)"
      using seedWordStep_inv[OF R nd e] by auto
    have "seedWork ?g r < seedWork h r"
      unfolding seedLoop_go[OF go] using seedLoop_work[OF st] seedWordStep_work[OF R nd ne]
      by (rule order.strict_trans1)
    then show ?thesis using nd False by (simp add: seedPhase_def Let_def)
  qed
qed

section \<open>Scans\<close>

text \<open>Progress of a scan, weak and strict.\<close>

definition strictly :: "addr \<Rightarrow> nat list \<Rightarrow> scan \<Rightarrow> nat list \<Rightarrow> scan \<Rightarrow> bool" where
  "strictly r ex c ex' c' \<longleftrightarrow> room (sc_heap c') r ex' < room (sc_heap c) r ex \<or>
     room (sc_heap c') r ex' = room (sc_heap c) r ex \<and> pend (sc_heap c') r ex' < pend (sc_heap c) r ex \<and>
     sc_split c' = sc_split c"

definition weakly :: "addr \<Rightarrow> nat list \<Rightarrow> scan \<Rightarrow> nat list \<Rightarrow> scan \<Rightarrow> bool" where
  "weakly r ex c ex' c' \<longleftrightarrow> strictly r ex c ex' c' \<or>
     room (sc_heap c') r ex' = room (sc_heap c) r ex \<and> pend (sc_heap c') r ex' = pend (sc_heap c) r ex \<and>
     sc_split c' = sc_split c"

lemma strictly_weakly: "strictly r a c b d \<Longrightarrow> weakly r b d e f \<Longrightarrow> strictly r a c e f"
  by (auto simp: strictly_def weakly_def)

lemma weakly_refl [simp]: "weakly r ex c ex c"
  by (simp add: weakly_def)

lemma weakly_trans: "weakly r a c b d \<Longrightarrow> weakly r b d e f \<Longrightarrow> weakly r a c e f"
  by (auto simp: strictly_def weakly_def)

lemma even_pushes: "evenFields h r \<Longrightarrow> inReg h r p \<Longrightarrow> filter odd (rev (filter P (objFields h p))) = []"
  by (auto simp: evenFields_def filter_empty_conv)

lemma room_drop: "room h r ex \<le> room h r (raw # ex)" and pend_drop: "pend h r ex < pend h r (raw # ex)"
  by (simp_all add: room_def pend_def)

lemma markIt_fresh:
  assumes wf: "heapWf h" and p: "inReg h r p"
  shows "freshObjs (markIt r (hOwn h p) (slotOf (hp_slab h (hOwn h p)) p) h) r = freshObjs h r - {p}"
  using markIt_marked[OF wf p] markFrame_inReg[OF markIt_frame] by (auto simp: freshObjs_def)

lemma room_scan:
  assumes wf: "heapWf h" and nd: "\<not> scanDrops h r raw"
      and f: "freshObjs h' r = freshObjs h r - {rawObj raw}"
      and s: "stk h' r = vs @ stk h r" "filter odd vs = []"
  shows "room h' r ex < room h r (raw # ex)"
proof -
  have ip: "inReg h r (rawObj raw)" and d: "rawForce raw \<or> \<not> marked h (rawObj raw)"
    using nd by (auto simp: scanDrops_def)
  have k: "length (filter odd (ex @ stk h' r)) = length (filter odd (ex @ stk h r))" using s by simp
  show ?thesis
  proof (cases "marked h (rawObj raw)")
    case True
    then have "freshObjs h' r = freshObjs h r" using f by (auto simp: freshObjs_def)
    then show ?thesis using True d k by (simp add: room_def rawForce_def)
  next
    case False
    then have "rawObj raw \<in> freshObjs h r" using ip by (simp add: freshObjs_def)
    then have "freshObjs h' r \<subset> freshObjs h r" using f by blast
    then have "card (freshObjs h' r) < card (freshObjs h r)"
      by (rule psubset_card_mono[OF finite_fresh])
    then show ?thesis using k by (simp add: room_def)
  qed
qed

lemma scan_one_progress:
  assumes ok: "scanOk r B C h0 (raw # ex) c" and sp: "\<not> sc_split c" and ev: "evenFields h0 r"
  shows "strictly r (raw # ex) c ex (markScan r raw c)"
proof -
  define h where "h = sc_heap c"
  define p where "p = rawObj raw"
  define s where "s = hOwn h (rawObj raw)"
  define h1 where "h1 = markIt r s (slotOf (hp_slab h s) p) h"
  have inv: "markInv h r B (raw # ex)" and last: "sc_last c = 0 \<or> registered h (sc_last c)"
    and f0: "markFrame r h0 h"
    using ok sp by (auto simp: scanOk_def h_def Let_def)
  have wf: "heapWf h" and raw: "raw < 2 ^ 64"
    using inv by (auto simp: markInv_def markSound_def onStack_def)
  have evh: "evenFields h r" using ev by (simp add: markFrame_evenFields[OF f0])
  obtain l where eq: "markScan r raw c =
      (if scanDrops h r raw then c\<lparr>sc_last := l\<rparr>
       else if longObj h p then
         c\<lparr>sc_heap := updReg r (\<lambda>x. x\<lparr>r_scanObj := p, r_scanOff := 0\<rparr>) h1, sc_last := l,
           sc_split := True, sc_marked := sc_marked c + 1\<rparr>
       else c\<lparr>sc_heap := pushAll r (filter (wanted h1 s) (objFields h p)) h1, sc_last := l,
              sc_marked := sc_marked c + 1\<rparr>)"
    using markScan_eq[OF wf h_def raw last, of r] unfolding h_def p_def s_def h1_def by blast
  show ?thesis
  proof (cases "scanDrops h r raw")
    case True
    then show ?thesis
      using eq room_drop[of h r ex raw] pend_drop[of h r ex raw] by (auto simp: strictly_def h_def)
  next
    case nd: False
    then have ip: "inReg h r p" by (simp add: scanDrops_def p_def)
    have fr1: "freshObjs h1 r = freshObjs h r - {rawObj raw}"
      using markIt_fresh[OF wf ip] by (simp add: h1_def s_def p_def)
    define vs where "vs = (if longObj h p then [] else filter (wanted h1 s) (objFields h p))"
    have h2: "cursorFrame r h1 (sc_heap (markScan r raw c))" "stk (sc_heap (markScan r raw c)) r = rev vs @ stk h r"
      using eq nd pushAll_simps(1,2)[where r = r and h = h1 and vs = vs]
      by (auto simp: vs_def h1_def intro!: cursorFrame_updReg simp: eraseReg_def)
    have "filter odd (rev vs) = []" using even_pushes[OF evh ip] by (simp add: vs_def)
    then show ?thesis
      using room_scan[OF wf nd _ h2(2), of ex] cursorFrame_fresh[OF h2(1)] fr1
      by (simp add: strictly_def h_def)
  qed
qed

lemma scan_batch_progress:
  assumes "scanOk r B C h0 (xs @ ex) c" "evenFields h0 r"
  shows "weakly r (xs @ ex) c ex (scanBatch r xs c)"
    and "xs \<noteq> [] \<Longrightarrow> \<not> sc_split c \<Longrightarrow> strictly r (xs @ ex) c ex (scanBatch r xs c)"
proof -
  have one: "strictly r (x # xs @ ex) c ex (scanBatch r (x # xs) c)"
    if w: "weakly r (xs @ ex) (markScan r x c) ex (scanBatch r xs (markScan r x c))"
      and k: "scanOk r B C h0 (x # xs @ ex) c" "\<not> sc_split c" for x xs c
    using strictly_weakly[OF scan_one_progress[OF k assms(2)] w] k by simp
  have W: "weakly r (xs @ ex) c ex (scanBatch r xs c)" if "scanOk r B C h0 (xs @ ex) c" for xs c
    using that
  proof (induction xs arbitrary: c)
    case (Cons x xs c)
    show ?case
    proof (cases "sc_split c")
      case True
      let ?h = "sc_heap c" and ?h' = "pushAll r (rev (x # xs)) (sc_heap c)"
      have "cursorFrame r ?h ?h'" "stk ?h' r = x # xs @ stk ?h r"
        using pushAll_simps(1,2)[where r = r and vs = "rev (x # xs)" and h = ?h] by simp_all
      then have "room ?h' r ex = room ?h r (x # xs @ ex)" "pend ?h' r ex = pend ?h r (x # xs @ ex)"
        using cursorFrame_fresh by (simp_all add: room_def pend_def)
      then show ?thesis using True by (simp add: weakly_def pushAll_def)
    next
      case False
      have k: "scanOk r B C h0 (x # xs @ ex) c" using Cons.prems by simp
      have "weakly r (xs @ ex) (markScan r x c) ex (scanBatch r xs (markScan r x c))"
        by (rule Cons.IH[OF scan_one[OF k False]])
      then show ?thesis
        using strictly_weakly[OF scan_one_progress[OF k False assms(2)]] False by (simp add: weakly_def)
    qed
  qed simp
  show "weakly r (xs @ ex) c ex (scanBatch r xs c)" by (rule W[OF assms(1)])
  assume "xs \<noteq> []" and sp: "\<not> sc_split c"
  then obtain y ys where e: "xs = y # ys" by (cases xs) auto
  then have k: "scanOk r B C h0 (y # ys @ ex) c" using assms(1) by simp
  show "strictly r (xs @ ex) c ex (scanBatch r xs c)"
    using one[OF W[OF scan_one[OF k sp]] k sp] e by simp
qed

lemma scan_pop_progress:
  "room (popN r n h) r (take n (stk h r)) = room h r []"
  "pend (popN r n h) r (take n (stk h r)) = pend h r []"
  using cursorFrame_fresh[OF popN_frame, of r n h]
  by (simp_all add: room_def pend_def popN_def del: filter_append)

lemma walk_progress:
  "scanOk r B C h0 [] c \<Longrightarrow> evenFields h0 r \<Longrightarrow>
   weakly r [] c [] (walk r b c) \<and>
   (stk (sc_heap c) r \<noteq> [] \<and> b > 0 \<and> \<not> sc_split c \<longrightarrow> strictly r [] c [] (walk r b c))"
proof (induction r b c rule: walk.induct)
  case (1 r b c)
  let ?h = "sc_heap c" and ?stk = "stk (sc_heap c) r"
  show ?case
  proof (cases "?stk \<noteq> [] \<and> b > 0 \<and> \<not> sc_split c")
    case False
    then show ?thesis using walk_stop[OF refl False] by auto
  next
    case True
    note pop = scan_pop[OF "1.prems"(1)] and popm = scan_pop_progress[of r _ ?h]
    show ?thesis
    proof (cases "length ?stk \<le> RC_MARK_SHALLOW")
      case sh: True
      let ?c = "c\<lparr>sc_heap := popN r 1 ?h\<rparr>"
      let ?d = "markScan r (hd ?stk) ?c"
      have t1: "take 1 ?stk = [hd ?stk]" using True by (cases ?stk) auto
      have k: "scanOk r B C h0 [hd ?stk] ?c" using pop[of 1] t1 by simp
      have "strictly r [hd ?stk] ?c [] ?d"
        using scan_one_progress[OF k _ "1.prems"(2)] True by simp
      then have s: "strictly r [] c [] ?d" using popm[of 1] t1 by (simp add: strictly_def)
      have "scanOk r B C h0 [] ?d" using scan_one[OF k] True by simp
      then have "weakly r [] ?d [] (walk r (b - 1) ?d)"
        using "1.IH"(1)[OF refl refl True sh _ "1.prems"(2)] by blast
      moreover have "walk r b c = walk r (b - 1) ?d" by (rule walk_shallow) (use True sh in auto)
      ultimately show ?thesis using strictly_weakly[OF s] by (simp add: weakly_def)
    next
      case dp: False
      let ?l = "batchLim b ?h r"
      let ?c = "c\<lparr>sc_heap := popN r ?l ?h\<rparr>"
      let ?d = "scanBatch r (take ?l ?stk) ?c"
      have k: "scanOk r B C h0 (take ?l ?stk @ []) ?c" using pop[of ?l] by simp
      have "0 < ?l" using True by (simp add: batchLim_def RC_MARK_BATCH_POP_def)
      then have "take ?l ?stk \<noteq> []" using True by simp
      then have "strictly r (take ?l ?stk) ?c [] ?d"
        using scan_batch_progress(2)[OF k "1.prems"(2)] True by simp
      then have s: "strictly r [] c [] ?d" using popm[of ?l] by (simp add: strictly_def)
      have "scanOk r B C h0 [] ?d" using scan_batch[OF k] by simp
      then have "weakly r [] ?d [] (walk r (b - ?l) ?d)"
        using "1.IH"(2)[OF refl refl True dp refl _ "1.prems"(2)] by blast
      moreover have "walk r b c = walk r (b - ?l) ?d" by (rule walk_deep) (use True dp in auto)
      ultimately show ?thesis using strictly_weakly[OF s] by (simp add: weakly_def)
    qed
  qed
qed

section \<open>The drain loop\<close>

definition drainLoop :: "addr \<Rightarrow> nat \<Rightarrow> heap \<times> nat \<Rightarrow> (heap \<times> nat) option" where
  "drainLoop r budget = while_option (\<lambda>(h, m). markPending h r)
     (\<lambda>(h, m). let (h', k) = markStep r budget h in (h', m + k))"

text \<open>The measure of a state between two steps.\<close>

definition drainMeas :: "addr \<Rightarrow> heap \<Rightarrow> nat \<times> nat \<times> nat \<times> nat" where
  "drainMeas r h = (seedWork h r, room h r [], scanRest h r, pend h r [])"

definition drainRel :: "((nat \<times> nat \<times> nat \<times> nat) \<times> nat \<times> nat \<times> nat \<times> nat) set" where
  "drainRel = less_than <*lex*> less_than <*lex*> less_than <*lex*> less_than"

lemma markResume_progress:
  assumes R: "roundCov h0 h r B C" and so: "r_scanObj (hp_reg h r) \<noteq> 0"
      and ev: "evenFields h r" and sh: "shortObjs h r"
  shows "room (markResume r h) r [] = room h r [] \<and> scanRest (markResume r h) r < scanRest h r \<and>
         seedWork (markResume r h) r = seedWork h r \<and>
         r_seedsDone (hp_reg (markResume r h) r) = r_seedsDone (hp_reg h r)"
proof -
  define p where "p = r_scanObj (hp_reg h r)"
  define s where "s = hOwn h p"
  define words where "words = slotWords (hp_slab h s)"
  define st where "st = r_scanOff (hp_reg h r)"
  define en where "en = (if st + RC_SCAN_CHUNK > words then words else st + RC_SCAN_CHUNK)"
  define vs where "vs = filter (wanted h s) (map (\<lambda>w. ldPtr h (p + 8 * w)) [st..<en])"
  define h' where "h' = markResume r h"
  have inv: "markInv h r B []" and wf: "heapWf h" using R by (auto simp: roundInv_def markInv_def)
  have ip: "inReg h r p" "longObj h p" using inv so by (auto simp: markInv_def markSound_def p_def)
  have s0: "s \<noteq> 0" "sl_region (hp_slab h s) = r" using ip(1) by (auto simp: inReg_def s_def)
  have obf: "objFields h p = map (\<lambda>w. ldPtr h (p + 8 * w)) [0..<words]"
    using objFields_eq[OF wf ip(1) refl refl refl] ip(2) by (simp add: longObj_def Let_def words_def s_def)
  have e: "h' = updReg r (\<lambda>x. if en < words then x\<lparr>r_scanObj := p, r_scanOff := en mod 2 ^ 32\<rparr>
      else x\<lparr>r_scanObj := 0\<rparr>) (pushAll r vs h)"
    using s0 by (simp add: markResume_def Let_def h'_def vs_def fold_markChild p_def[symmetric] s_def[symmetric]
        words_def[symmetric] st_def[symmetric] en_def)
  note pa = pushAll_props[where r = r and vs = vs and h = h]
  have fr: "cursorFrame r h h'"
    unfolding e using pa
    by (intro cursorFrame_trans[OF conjunct1[OF pa] cursorFrame_updReg]) (simp add: eraseReg_def)
  then have sl: "hp_slab h' = hp_slab h" and f: "markFrame r h h'" by (simp_all add: cursorFrame_def)
  have rg: "stk h' r = rev vs @ stk h r" "r_seedRest (hp_reg h' r) = r_seedRest (hp_reg h r)"
    "r_seedWord (hp_reg h' r) = r_seedWord (hp_reg h r)" "r_seedsDone (hp_reg h' r) = r_seedsDone (hp_reg h r)"
    "r_scanObj (hp_reg h' r) = (if en < words then p else 0)"
    "en < words \<Longrightarrow> r_scanOff (hp_reg h' r) = en mod 2 ^ 32"
    using pa by (auto simp: e)
  have "set vs \<subseteq> set (objFields h p)" by (auto simp: vs_def obf en_def split: if_splits)
  then have "filter odd (rev vs) = []" using ev ip(1) unfolding evenFields_def filter_empty_conv by auto
  then have "room h' r [] = room h r []"
    using cursorFrame_fresh[OF fr] rg(1) by (simp add: room_def)
  moreover have "seedWork h' r = seedWork h r" unfolding seedWork_def rg(2-4) sl ..
  moreover have "scanRest h' r < scanRest h r"
  proof (cases "en < words")
    case True
    then have "en = st + RC_SCAN_CHUNK" "words < 2 ^ 32"
      using sh ip(1) by (auto simp: en_def shortObjs_def words_def s_def split: if_splits)
    moreover have "0 < RC_SCAN_CHUNK" by (simp add: RC_SCAN_CHUNK_def)
    moreover have "scanRest h' r = Suc (words - en mod 2 ^ 32)"
      using True so by (simp add: scanRest_def rg sl p_def words_def s_def markFrame_hOwn[OF f])
    moreover have "scanRest h r = Suc (words - st)"
      using so by (simp add: scanRest_def p_def words_def s_def st_def)
    ultimately show ?thesis using True by simp
  next
    case False
    then have "scanRest h' r = 0" by (simp add: scanRest_def rg)
    then show ?thesis using so by (simp add: scanRest_def)
  qed
  ultimately show ?thesis using rg(4) by (simp add: h'_def)
qed

lemma step_meas:
  assumes R: "roundCov h0 h r B C" and pd: "markPending h r" and b: "b > 0"
      and ev: "evenFields h0 r" and sh: "shortObjs h0 r"
  shows "(drainMeas r (fst (markStep r b h)), drainMeas r h) \<in> drainRel"
proof -
  have f0: "markFrame r h0 h" using R by (simp add: roundInv_def)
  have ev': "evenFields h r" and sh': "shortObjs h r"
    using ev sh by (simp_all add: markFrame_evenFields[OF f0] markFrame_shortObjs[OF f0])
  define g where "g = (if r_scanObj (hp_reg h r) \<noteq> 0 then markResume r h else h)"
  have Rg: "roundCov h0 g r B C" using R markResume_inv by (simp add: g_def)
  have sg: "seedWork g r = seedWork h r" "r_seedsDone (hp_reg g r) = r_seedsDone (hp_reg h r)"
    using markResume_progress[OF R _ ev' sh'] by (simp_all add: g_def)
  define k where "k = seedPhase r g"
  have Rk: "roundCov h0 k r B C" "r_scanObj (hp_reg k r) = r_scanObj (hp_reg g r)"
    using seedPhase_inv[OF Rg] by (simp_all add: k_def)
  let ?c = "\<lparr>sc_heap = k, sc_last = 0, sc_split = False, sc_marked = 0\<rparr>"
  let ?b = "if r_scanObj (hp_reg h r) \<noteq> 0 then 0 else b"
  define d where "d = walk r ?b ?c"
  have st: "fst (markStep r b h) = sc_heap d" by (simp add: markStep_def Let_def d_def k_def g_def)
  have idle: "r_scanObj (hp_reg k r) = 0" if "r_scanObj (hp_reg h r) = 0" using that Rk by (simp add: g_def)
  have stop: "d = ?c" if "r_scanObj (hp_reg h r) \<noteq> 0" unfolding d_def using that by (simp add: walk_stop)
  have ok: "scanOk r B {x. covered k r [] x} k [] ?c" if "r_scanObj (hp_reg h r) = 0"
    using Rk idle[OF that] by (simp add: scanOk_def roundInv_def)
  have okd: "scanOk r B {x. covered k r [] x} k [] d" if "r_scanObj (hp_reg h r) = 0"
    unfolding d_def by (rule scan_walk[OF ok[OF that]])
  have sd: "seedWork (sc_heap d) r = seedWork k r"
  proof (cases "r_scanObj (hp_reg h r) = 0")
    case True
    then have fr: "markFrame r k (sc_heap d)"
      and e: "r_seedRest (hp_reg (sc_heap d) r) = r_seedRest (hp_reg k r)"
        "r_seedWord (hp_reg (sc_heap d) r) = r_seedWord (hp_reg k r)"
        "r_seedsDone (hp_reg (sc_heap d) r) = r_seedsDone (hp_reg k r)"
      using okd by (auto simp: scanOk_def Let_def)
    show ?thesis unfolding seedWork_def e markFrame_nwords[OF fr] ..
  qed (simp add: stop)
  show ?thesis
  proof (cases "r_seedsDone (hp_reg h r)")
    case False
    then have "seedWork k r < seedWork g r" using seedPhase_work[OF Rg] sg by (simp add: k_def)
    then show ?thesis using sd sg st by (simp add: drainMeas_def drainRel_def)
  next
    case True
    then have kg: "k = g" using sg by (simp add: k_def seedPhase_def)
    show ?thesis
    proof (cases "r_scanObj (hp_reg h r) = 0")
      case False
      then show ?thesis
        using markResume_progress[OF R False ev' sh'] stop[OF False] kg sd st
        by (simp add: drainMeas_def drainRel_def g_def)
    next
      case idle0: True
      have gh: "k = h" using kg idle0 by (simp add: g_def)
      have ne: "stk h r \<noteq> []" using pd True idle0 by (simp add: markPending_def)
      have evk: "evenFields k r" using ev' gh by simp
      have "strictly r [] ?c [] d"
        using walk_progress[OF ok[OF idle0] evk, of b] ne b idle0 gh by (simp add: d_def)
      moreover have "\<not> sc_split d \<Longrightarrow> scanRest (sc_heap d) r = 0"
        using okd[OF idle0] by (simp add: scanOk_def Let_def scanRest_def)
      ultimately show ?thesis
        using sd st gh idle0 by (auto simp: drainMeas_def drainRel_def strictly_def scanRest_def)
    qed
  qed
qed

lemma drain_ends:
  assumes R: "roundCov h0 h r B C" and b: "b > 0" and ev: "evenFields h0 r" and sh: "shortObjs h0 r"
  shows "\<exists>h' m'. drainLoop r b (h, m) = Some (h', m')"
proof -
  let ?P = "\<lambda>(h :: heap, m :: nat). roundCov h0 h r B C"
  have "\<exists>t. drainLoop r b (h, m) = Some t"
    unfolding drainLoop_def
  proof (rule wf_rel_while_option_Some[where P = ?P and R = "inv_image drainRel (\<lambda>(h, m). drainMeas r h)"])
    show "wf (inv_image drainRel (\<lambda>(h :: heap, m :: nat). drainMeas r h))"
      by (auto simp: drainRel_def intro!: wf_inv_image wf_lex_prod)
  next
    fix s assume "?P s \<and> (case s of (h, m) \<Rightarrow> markPending h r)"
    then show "((case s of (h, m) \<Rightarrow> let (h', k) = markStep r b h in (h', m + k)), s)
        \<in> inv_image drainRel (\<lambda>(h, m). drainMeas r h)"
      using step_meas[OF _ _ b ev sh] by (auto simp: inv_image_def split: prod.splits) (metis fst_conv)
  next
    fix s assume "?P s \<and> (case s of (h, m) \<Rightarrow> markPending h r)"
    then show "?P (case s of (h, m) \<Rightarrow> let (h', k) = markStep r b h in (h', m + k))"
      using markStep_inv by (auto split: prod.splits) (metis fst_conv)
  qed (use R in simp)
  then show ?thesis by auto
qed

lemma drain_inv:
  assumes R: "roundCov h0 h r B C" and d: "drainLoop r b (h, m) = Some (h', m')"
  shows "roundCov h0 h' r B C \<and> \<not> markPending h' r"
proof -
  have "case (h', m') of (h, m :: nat) \<Rightarrow> roundCov h0 h r B C"
    by (rule while_option_rule[OF _ d[unfolded drainLoop_def]])
      (use R markStep_inv in \<open>auto split: prod.splits; metis fst_conv\<close>)+
  then show ?thesis using while_option_stop[OF d[unfolded drainLoop_def]] by simp
qed

section \<open>The start of a round\<close>

definition mark :: "addr \<Rightarrow> addr list \<Rightarrow> heap \<Rightarrow> (heap \<times> nat) option" where
  "mark r roots h = drainLoop r RC_UNBOUNDED (markBegin r roots h, 0)"

text \<open>The values a round starts from: the explicit roots that are objects, the pinned values of
  the region, the registered slots.\<close>

definition pinned :: "heap \<Rightarrow> addr \<Rightarrow> addr list" where
  "pinned h r = concat (map (\<lambda>c. case c of None \<Rightarrow> [] | Some e \<Rightarrow> if pn_rg e = r then [pn_v e] else []) (hp_pins h))"

definition baseSet :: "heap \<Rightarrow> addr \<Rightarrow> addr list \<Rightarrow> addr set" where
  "baseSet h r roots = {p \<in> set roots. p \<noteq> 0 \<and> owns h p} \<union> rawObj ` set (pinned h r) \<union> seeds h r"

definition roundReady :: "heap \<Rightarrow> addr \<Rightarrow> bool" where
  "roundReady h r \<longleftrightarrow> heapWf h \<and> regionOk h r \<and> (\<forall>p. inReg h r p \<longrightarrow> \<not> marked h p) \<and>
     (\<not> r_seedAny (hp_reg h r) \<longrightarrow> seeds h r = {}) \<and>
     (hp_pinN h = 0 \<longrightarrow> pinned h r = []) \<and> (\<forall>v\<in>set (pinned h r). v < 2 ^ 64)"

lemma pushAll_append: "pushAll r (xs @ ys) h = pushAll r ys (pushAll r xs h)"
  by (simp add: pushAll_def)

lemma cursorFrame_owns: "cursorFrame r h h' \<Longrightarrow> owns h' p = owns h p"
  using markFrame_owns[of r h h' p] by (simp add: cursorFrame_def)

lemma fold_rootPush:
  "fold (\<lambda>p h. if p \<noteq> 0 \<and> owns h p then markPush r p h else h) roots h =
   pushAll r (filter (\<lambda>p. p \<noteq> 0 \<and> owns h p) roots) h"
proof (induction roots arbitrary: h)
  case (Cons p ps)
  have "owns (markPush r p h) = owns h" using cursorFrame_owns[OF markPush_frame] by blast
  then show ?case using Cons by (simp add: pushAll_def)
qed (simp add: pushAll_def)

lemma fold_pinPush:
  "fold (\<lambda>c h. case c of None \<Rightarrow> h | Some e \<Rightarrow> if pn_rg e = r then markPush r (pn_v e) h else h) cs h =
   pushAll r (concat (map (\<lambda>c. case c of None \<Rightarrow> [] | Some e \<Rightarrow> if pn_rg e = r then [pn_v e] else []) cs)) h"
  by (induction cs arbitrary: h) (auto simp: pushAll_def split: option.split)

lemma pinSeed_eq: "(hp_pinN h = 0 \<longrightarrow> pinned h r = []) \<Longrightarrow> pinSeed r h = pushAll r (pinned h r) h"
  unfolding pinSeed_def fold_pinPush pinned_def[symmetric] by (auto simp: pushAll_def)

lemma markBegin_inv:
  assumes rd: "roundReady h r" and roots: "\<forall>p\<in>set roots. p < 2 ^ 64"
  shows "roundInv h (markBegin r roots h) r (baseSet h r roots)"
proof -
  let ?B = "baseSet h r roots"
  define h1 where "h1 = updReg r (\<lambda>x. x\<lparr>r_stk := [], r_scanObj := 0, r_scanOff := 0\<rparr>) h"
  define vs where "vs = filter (\<lambda>p. p \<noteq> 0 \<and> owns h p) roots @ pinned h r"
  define h3 where "h3 = pushAll r vs h1"
  have wf: "heapWf h" and ro: "regionOk h r" and clean: "\<And>p. inReg h r p \<Longrightarrow> \<not> marked h p"
    and pz: "hp_pinN h = 0 \<longrightarrow> pinned h r = []" and p64: "\<forall>v\<in>set (pinned h r). v < 2 ^ 64"
    and sa: "\<not> r_seedAny (hp_reg h r) \<longrightarrow> seeds h r = {}"
    using rd by (auto simp: roundReady_def)
  have fr1: "cursorFrame r h h1" unfolding h1_def by (rule cursorFrame_updReg) (simp add: eraseReg_def)
  let ?h2 = "pushAll r (filter (\<lambda>p. p \<noteq> 0 \<and> owns h p) roots) h1"
  have fr2: "cursorFrame r h1 ?h2" using pushAll_simps(1) by blast
  have fr12: "markFrame r h ?h2" using cursorFrame_trans[OF fr1 fr2] by (simp add: cursorFrame_def)
  have "owns h1 = owns h" using cursorFrame_owns[OF fr1] by blast
  moreover have "pinned ?h2 r = pinned h r" "hp_pinN ?h2 = hp_pinN h"
    using markFrame_fields(5,6)[OF fr12] by (simp_all add: pinned_def)
  ultimately have h3: "pinSeed r (fold (\<lambda>p h. if p \<noteq> 0 \<and> owns h p then markPush r p h else h) roots h1) = h3"
    using pinSeed_eq[of ?h2 r] pz unfolding fold_rootPush h3_def vs_def pushAll_append by simp
  define h' where "h' = markBegin r roots h"
  have e: "h' = updReg r (\<lambda>x. x\<lparr>r_seedRest := r_slabs x, r_seedWord := 0,
      r_seedsDone := (r_slabs x = [] \<or> \<not> r_seedAny x)\<rparr>) h3"
    unfolding h'_def markBegin_def Let_def h1_def[symmetric] h3 ..
  note pa = pushAll_props[where r = r and vs = vs and h = h1, folded h3_def]
  have fr3: "cursorFrame r h h3" using cursorFrame_trans[OF fr1] pa by blast
  have fr: "cursorFrame r h h'"
    unfolding e by (rule cursorFrame_trans[OF fr3 cursorFrame_updReg]) (simp add: eraseReg_def)
  then have f: "markFrame r h h'" and sl: "hp_slab h' = hp_slab h" by (simp_all add: cursorFrame_def)
  have s3: "r_slabs (hp_reg h3 r) = r_slabs (hp_reg h r)" "r_seedAny (hp_reg h3 r) = r_seedAny (hp_reg h r)"
    using eraseReg_fields(1,2)[of "hp_reg h3 r" "hp_reg h r"] fr3 by (simp_all add: cursorFrame_def markFrame_def)
  have rg: "stk h' r = rev vs" "r_scanObj (hp_reg h' r) = 0" "r_seedRest (hp_reg h' r) = r_slabs (hp_reg h r)"
    "r_seedWord (hp_reg h' r) = 0"
    "r_seedsDone (hp_reg h' r) = (r_slabs (hp_reg h r) = [] \<or> \<not> r_seedAny (hp_reg h r))"
    using pa s3 by (simp_all add: e h1_def)
  have on: "onStack h' r [] = set vs" by (simp add: onStack_def rg)
  have rt: "rawObj p = p" if "p \<in> set roots" "owns h p" for p
  proof -
    have "p < 2 ^ 64" "hOwn h p \<noteq> 0" using that roots by (auto simp: owns_def Let_def split: if_splits)
    then have "inReg h (sl_region (hp_slab h (hOwn h p))) p" using that(2) by (simp add: inReg_def)
    then show ?thesis using inReg_even(1)[OF wf] rawObj_even by blast
  qed
  have vB: "rawObj v \<in> ?B" if "v \<in> set vs" for v
    using that rt by (auto simp: vs_def baseSet_def)
  have v64: "\<forall>v\<in>set vs. v < 2 ^ 64" using roots p64 by (auto simp: vs_def)
  have Bv: "x \<in> rawObj ` set vs \<or> x \<in> seeds h r" if x: "x \<in> ?B" for x
  proof (cases "x \<in> set roots \<and> x \<noteq> 0 \<and> owns h x")
    case True
    then have "x = rawObj x" "x \<in> set vs" using rt by (simp_all add: vs_def)
    then show ?thesis by blast
  next
    case False
    then have "x \<in> rawObj ` set (pinned h r) \<or> x \<in> seeds h r" using x unfolding baseSet_def by blast
    then show ?thesis by (auto simp: vs_def)
  qed
  note tr = markFrame_inReg[OF f] markFrame_reach[OF f] cursorFrame_marked[OF fr]
  have "markSound h' r ?B []"
    unfolding markSound_def tr on rg
    using v64 vB clean reach.base[of _ ?B h r] by blast
  moreover have "markClosed h' r []" unfolding markClosed_def tr using clean by blast
  ultimately have inv: "markInv h' r ?B []" using markFrame_wf[OF f wf] by (simp add: markInv_def)
  have nw: "0 < sl_nwords (hp_slab h t)" if "t \<in> set (r_slabs (hp_reg h r))" for t
  proof -
    have t: "registered h t" using ro that by (simp add: regionOk_def)
    have "0 < sl_nslots (hp_slab h t)" using registered_wf(1)[OF wf t] by (simp add: geomOk_def)
    then show ?thesis using slot_wf[OF wf t] by (metis not_less_zero neq0_conv)
  qed
  have co: "cursorOk h' r"
    using nw unfolding cursorOk_def markFrame_slabs[OF f] rg sl by (metis list.set_intros(1) order_refl)
  have seedsub: "seeds h r \<subseteq> ?B" by (simp add: baseSet_def)
  have "covered h' r [] x \<or> \<not> r_seedsDone (hp_reg h' r) \<and> x \<in> seedsLeft h' r" if x: "x \<in> ?B" for x
  proof -
    consider "x \<in> rawObj ` set vs" | "x \<in> seeds h r"
      using Bv[OF x] by blast
    then show ?thesis
    proof cases
      case 1
      then show ?thesis by (auto simp: covered_def on)
    next
      case 2
      then have "\<not> r_seedsDone (hp_reg h' r)" using sa rg(5) by (auto simp: seeds_def)
      moreover have "x \<in> seedsLeft h' r"
        using 2 unfolding seedsLeft_def rg seeds_def markFrame_seedAt[OF f] markFrame_slotAddr[OF f]
        by (cases "r_slabs (hp_reg h r)") auto
      ultimately show ?thesis by simp
    qed
  qed
  then show ?thesis
    using inv f co seedsub ro unfolding roundInv_def h'_def[symmetric]
    by (simp add: markFrame_regionOk[OF f] markFrame_seeds[OF f])
qed

end
