(* ===== verification/Rc_Sweep.thy ===== *)
theory Rc_Sweep
  imports Rc_MarkTerm
begin

text \<open>
  The sweep of \<open>src/back/reclaim.c\<close>: one word of the bitmaps at a time
  (\<open>extc_rc_sweepWord\<close>), a bounded step (\<open>extc_rc_sweepStep\<close>), the closing of a round with the
  threshold (\<open>extc_rc_thrUpd\<close>), and the generation number of the shade cache that every path which
  clears mark bits advances (\<open>extc_rc_shadeNextGen\<close>).
\<close>

definition RC_SWEEP_BUDGET :: nat where "RC_SWEEP_BUDGET = 8"
definition INT64_MAX :: int where "INT64_MAX = 2 ^ 63 - 1"

definition shadeNextGen :: "heap \<Rightarrow> heap" where
  "shadeNextGen h = (let g = (hp_shGen h + 1) mod 2 ^ 64
     in h\<lparr>hp_shGen := g, hp_shCache := (if g mod 2048 = 0 then (\<lambda>_. 0) else hp_shCache h)\<rparr>)"

definition thrUpd :: "region \<Rightarrow> region" where
  "thrUpd x = (let scale = (if r_scale x > 0 then r_scale x else 1);
                   thr = (if r_live x * 2 < r_floor x then r_floor x else r_live x * 2)
     in if scale > 1 \<and> thr > INT64_MAX div scale then x\<lparr>r_thr := 0\<rparr>
        else x\<lparr>r_thr := thr * scale\<rparr>)"

definition sweepBegin :: "addr \<Rightarrow> heap \<Rightarrow> heap" where
  "sweepBegin r h = updReg r (\<lambda>x. x\<lparr>r_sweeping := True, r_swId := (r_swId x + 1) mod 2 ^ 32,
     r_swRest := r_slabs x, r_swWord := 0, r_swFreed := 0\<rparr>) (shadeNextGen h)"

definition sweepWord :: "addr \<Rightarrow> heap \<Rightarrow> heap \<times> bool" where
  "sweepWord r h = (case r_swRest (hp_reg h r) of
     [] \<Rightarrow> (h, True)
   | s # rest \<Rightarrow>
       (let w = r_swWord (hp_reg h r);
            dead = sl_occ (hp_slab h s) ! w AND NOT (sl_mark (hp_slab h s) ! w);
            h1 = (if dead \<noteq> 0 then
                    (let (g, n) = freeSlotWord s w dead h
                     in updReg r (\<lambda>x. x\<lparr>r_swFreed := r_swFreed x + n\<rparr>) g)
                  else h);
            h2 = updSlab s (\<lambda>x. x\<lparr>sl_mark := (sl_mark x)[w := 0]\<rparr>) h1;
            h3 = (if w + 1 \<ge> sl_nwords (hp_slab h2 s) then
                    updReg r (\<lambda>x. x\<lparr>r_swRest := rest, r_swWord := 0\<rparr>)
                      (updSlab s (\<lambda>x. x\<lparr>sl_epoch := r_swId (hp_reg h2 r)\<rparr>) h2)
                  else updReg r (\<lambda>x. x\<lparr>r_swWord := w + 1\<rparr>) h2)
        in (h3, r_swRest (hp_reg h3 r) = [])))"

function sweepLoop :: "addr \<Rightarrow> nat \<Rightarrow> heap \<Rightarrow> heap" where
  "sweepLoop r left h =
    (if left > 0 \<and> r_swRest (hp_reg h r) \<noteq> []
     then (case sweepWord r h of (h', bottom) \<Rightarrow> if bottom then h' else sweepLoop r (left - 1) h')
     else h)"
  by pat_completeness auto
termination
  by (relation "measure (\<lambda>(r, left, h). left)") auto

declare sweepLoop.simps [simp del]

definition endRound :: "region \<Rightarrow> region" where
  "endRound x =
    (let sc = (if r_swFreed x = 0
               then min ((if r_scale x > 0 then r_scale x else 1) * RC_SCALE_MUL) RC_SCALE_MAX else 0);
         y = thrUpd (x\<lparr>r_sweeping := False, r_scale := sc\<rparr>)
     in y\<lparr>r_sweeps := r_sweeps y + 1\<rparr>)"

definition sweepStep :: "addr \<Rightarrow> nat \<Rightarrow> heap \<Rightarrow> heap \<times> bool" where
  "sweepStep r budget h =
    (if \<not> r_sweeping (hp_reg h r) then (h, False)
     else (let h1 = sweepLoop r budget h
           in if r_swRest (hp_reg h1 r) \<noteq> [] then (h1, False) else (updReg r endRound h1, True)))"

section \<open>Withdrawing the edges of dying slots\<close>

text \<open>The unlinking changes the edge counts and registration bits of slabs of other regions, and
  nothing else.\<close>

definition eraseEdge :: "slab \<Rightarrow> slab" where
  "eraseEdge x = x\<lparr>sl_rsbit := [], sl_rscnt := None\<rparr>"

definition edgeEq :: "slab \<Rightarrow> slab \<Rightarrow> bool" where
  "edgeEq x y \<longleftrightarrow> eraseEdge x = eraseEdge y \<and> length (sl_rsbit x) = length (sl_rsbit y) \<and>
     map_option length (sl_rscnt x) = map_option length (sl_rscnt y)"

definition edgeFrame :: "addr \<Rightarrow> heap \<Rightarrow> heap \<Rightarrow> bool" where
  "edgeFrame q h h' \<longleftrightarrow> h'\<lparr>hp_slab := hp_slab h, hp_rsDec := hp_rsDec h\<rparr> = h \<and>
     (\<forall>a. edgeEq (hp_slab h' a) (hp_slab h a) \<and> (sl_region (hp_slab h a) = q \<longrightarrow> hp_slab h' a = hp_slab h a))"

lemma edgeEq_refl [simp]: "edgeEq x x"
  by (simp add: edgeEq_def)

lemma edgeEq_trans: "edgeEq x y \<Longrightarrow> edgeEq y z \<Longrightarrow> edgeEq x z"
  by (simp add: edgeEq_def)

lemma edgeEq_fields:
  assumes "edgeEq x y"
  shows "sl_region x = sl_region y" "sl_occ x = sl_occ y" "sl_mark x = sl_mark y" "sl_tid x = sl_tid y"
    "sl_tt x = sl_tt y" "headOf x = headOf y" "sl_free x = sl_free y" "sl_bump x = sl_bump y"
    "sl_epoch x = sl_epoch y" "sl_avail x = sl_avail y"
  using assms by (cases x; cases y; simp add: edgeEq_def eraseEdge_def headOf_def)+

lemma edgeFrame_refl [simp]: "edgeFrame q h h"
  by (simp add: edgeFrame_def)

lemma edgeFrame_trans:
  assumes "edgeFrame q a b" "edgeFrame q b c"
  shows "edgeFrame q a c"
proof -
  have "c\<lparr>hp_slab := hp_slab a, hp_rsDec := hp_rsDec a\<rparr> = a"
    using assms unfolding edgeFrame_def by (cases a; cases b; cases c) auto
  moreover have "edgeEq (hp_slab c x) (hp_slab a x)" for x
    using assms edgeEq_trans unfolding edgeFrame_def by blast
  moreover have "sl_region (hp_slab a x) = q \<longrightarrow> hp_slab c x = hp_slab a x" for x
    using assms unfolding edgeFrame_def by metis
  ultimately show ?thesis by (simp add: edgeFrame_def)
qed

lemma edgeFrame_updSlab:
  assumes "sl_region (hp_slab h s) \<noteq> q" "\<And>x. edgeEq (f x) x"
  shows "edgeFrame q h (updSlab s f h)"
  using assms by (simp add: edgeFrame_def updSlab_def)

lemma edgeFrame_if: "edgeFrame q h x \<Longrightarrow> edgeFrame q h y \<Longrightarrow> edgeFrame q h (if b then x else y)"
  by simp

lemma edgeFrame_rsDec: "edgeFrame q h (h\<lparr>hp_rsDec := n\<rparr>)"
  by (simp add: edgeFrame_def)

lemma rsPut_edge: "edgeEq (rsPut i v x) x"
  by (simp add: edgeEq_def eraseEdge_def rsPut_def option.map_comp o_def)

lemma clrBit_edge: "edgeEq (x\<lparr>sl_rsbit := bmClr (sl_rsbit x) i\<rparr>) x"
  by (simp add: edgeEq_def eraseEdge_def)

lemma rsDecSlab_edge:
  assumes n: "sl_region (hp_slab h s) \<noteq> q"
  shows "edgeFrame q h (rsDecSlab s t h)"
proof -
  let ?i = "slotOf (hp_slab h s) t" and ?c = "rsCell (hp_slab h s) (slotOf (hp_slab h s) t)"
  let ?h1 = "updSlab s (rsPut ?i (?c - 1)) h"
  have e1: "edgeFrame q h ?h1" by (rule edgeFrame_updSlab[OF n rsPut_edge])
  have "sl_region (hp_slab ?h1 s) \<noteq> q" using n by (simp add: rsPut_def)
  then have e2: "edgeFrame q ?h1 (updSlab s (\<lambda>x. x\<lparr>sl_rsbit := bmClr (sl_rsbit x) ?i\<rparr>) ?h1)"
    by (rule edgeFrame_updSlab[OF _ clrBit_edge])
  show ?thesis
    unfolding rsDecSlab_def Let_def
    by (intro edgeFrame_if edgeFrame_refl edgeFrame_trans[OF edgeFrame_if[OF edgeFrame_trans[OF e1 e2] e1] edgeFrame_rsDec])
qed

lemma unlinkChild_edge: "edgeFrame (sl_region (hp_slab h s)) h (unlinkChild s c h)"
  by (auto simp: unlinkChild_def Let_def rsDecSlab_edge)

lemma fold_edge:
  assumes "\<And>x h. sl_region (hp_slab h s) = q \<Longrightarrow> edgeFrame q h (f x h)" and "sl_region (hp_slab h s) = q"
  shows "edgeFrame q h (fold f xs h)"
  using assms(2)
proof (induction xs arbitrary: h)
  case (Cons x xs)
  have e: "edgeFrame q h (f x h)" by (rule assms(1)[OF Cons.prems])
  then have "sl_region (hp_slab (f x h) s) = q" using Cons.prems by (simp add: edgeFrame_def)
  then show ?case using edgeFrame_trans[OF e] Cons.IH by simp
qed simp

lemma unlinkChildren_edge: "edgeFrame (sl_region (hp_slab h s)) h (unlinkChildren s i h)"
  unfolding unlinkChildren_def by (rule fold_edge[where s = s]) (use unlinkChild_edge in metis, rule refl)

lemma unlinkAll_edge: "edgeFrame (sl_region (hp_slab h s)) h (fold (unlinkChildren s) is h)"
  by (rule fold_edge[where s = s]) (use unlinkChildren_edge in metis, rule refl)

section \<open>One word of dead slots\<close>

definition freedSlab :: "nat \<Rightarrow> 64 word \<Rightarrow> slab \<Rightarrow> slab" where
  "freedSlab w dead x =
    (let is = map (\<lambda>b. w * 64 + b) (setBits dead); y = fold clearRs is (fold linkSlot is x)
     in y\<lparr>sl_occ := (sl_occ y)[w := sl_occ y ! w AND NOT dead],
          sl_rsbit := (sl_rsbit y)[w := sl_rsbit y ! w AND NOT dead], sl_avail := True\<rparr>)"

lemma fold_linkSlot:
  "sl_occ (fold linkSlot is x) = sl_occ x \<and> sl_mark (fold linkSlot is x) = sl_mark x \<and>
   sl_rsbit (fold linkSlot is x) = sl_rsbit x \<and> sl_rscnt (fold linkSlot is x) = sl_rscnt x \<and>
   headOf (fold linkSlot is x) = headOf x \<and> sl_tt (fold linkSlot is x) = sl_tt x \<and>
   sl_epoch (fold linkSlot is x) = sl_epoch x \<and> sl_bump (fold linkSlot is x) = sl_bump x \<and>
   length (sl_tid (fold linkSlot is x)) = length (sl_tid x) \<and>
   (\<forall>j. j \<notin> set is \<longrightarrow> sl_tid (fold linkSlot is x) ! j = sl_tid x ! j)"
  by (induction "is" arbitrary: x) (auto simp: linkSlot_def headOf_def)

lemma fold_clearRs:
  "sl_occ (fold clearRs is x) = sl_occ x \<and> sl_mark (fold clearRs is x) = sl_mark x \<and>
   sl_rsbit (fold clearRs is x) = sl_rsbit x \<and> sl_tid (fold clearRs is x) = sl_tid x \<and>
   headOf (fold clearRs is x) = headOf x \<and> sl_tt (fold clearRs is x) = sl_tt x \<and>
   sl_epoch (fold clearRs is x) = sl_epoch x \<and> sl_bump (fold clearRs is x) = sl_bump x \<and>
   sl_free (fold clearRs is x) = sl_free x \<and>
   map_option length (sl_rscnt (fold clearRs is x)) = map_option length (sl_rscnt x)"
  by (induction "is" arbitrary: x) (auto simp: clearRs_def headOf_def option.map_comp o_def)

lemma freedSlab_fields:
  "sl_occ (freedSlab w dead x) = (sl_occ x)[w := sl_occ x ! w AND NOT dead]"
  "sl_mark (freedSlab w dead x) = sl_mark x" "headOf (freedSlab w dead x) = headOf x"
  "sl_tt (freedSlab w dead x) = sl_tt x" "sl_epoch (freedSlab w dead x) = sl_epoch x"
  "sl_bump (freedSlab w dead x) = sl_bump x"
  "length (sl_rsbit (freedSlab w dead x)) = length (sl_rsbit x)"
  "length (sl_tid (freedSlab w dead x)) = length (sl_tid x)"
  "map_option length (sl_rscnt (freedSlab w dead x)) = map_option length (sl_rscnt x)"
  using fold_linkSlot[of "map (\<lambda>b. w * 64 + b) (setBits dead)" x]
    fold_clearRs[of "map (\<lambda>b. w * 64 + b) (setBits dead)" "fold linkSlot (map (\<lambda>b. w * 64 + b) (setBits dead)) x"]
  by (simp_all add: freedSlab_def Let_def headOf_def)

lemma freedSlab_tid:
  assumes "\<not> (rcWord j = w \<and> bit dead (j mod 64))"
  shows "sl_tid (freedSlab w dead x) ! j = sl_tid x ! j"
proof -
  have "j \<notin> set (map (\<lambda>b. w * 64 + b) (setBits dead))"
  proof
    assume "j \<in> set (map (\<lambda>b. w * 64 + b) (setBits dead))"
    then obtain b where b: "bit dead b" "j = w * 64 + b" by auto
    then have "b < 64" using setBits_lt[of b dead] by simp
    then show False using assms b by (simp add: rcWord_def)
  qed
  then show ?thesis
    using fold_linkSlot[of "map (\<lambda>b. w * 64 + b) (setBits dead)" x] fold_clearRs[of "map (\<lambda>b. w * 64 + b) (setBits dead)"]
    by (simp add: freedSlab_def Let_def)
qed

text \<open>Everything a region record holds but the accounts and chains that freeing touches.\<close>

definition eraseFree :: "region \<Rightarrow> region" where
  "eraseFree x = x\<lparr>r_bytes := 0, r_freed := 0, r_cls := []\<rparr>"

lemma eraseFree_class [simp]:
  "eraseFree (setChain ss c x) = eraseFree x" "eraseFree (classNeed ss x) = eraseFree x"
  "r_bytes (setChain ss c x) = r_bytes x" "r_bytes (classNeed ss x) = r_bytes x"
  "r_freed (setChain ss c x) = r_freed x" "r_freed (classNeed ss x) = r_freed x"
  by (simp_all add: eraseFree_def setChain_def classNeed_def split: option.split)

lemma eraseFree_fields:
  assumes "eraseFree x = eraseFree y"
  shows "r_slabs x = r_slabs y" "r_swRest x = r_swRest y" "r_swWord x = r_swWord y" "r_swId x = r_swId y"
    "r_swFreed x = r_swFreed y" "r_sweeping x = r_sweeping y" "r_noSweep x = r_noSweep y"
    "r_marking x = r_marking y" "r_live x = r_live y" "r_scale x = r_scale y" "r_floor x = r_floor y"
    "r_seedAny x = r_seedAny y"
  using assms by (cases x; cases y; simp add: eraseFree_def)+

lemma freeSlotWord_eq:
  fixes h :: heap
  assumes "freeSlotWord s w dead h = (h', n)"
  defines "q \<equiv> sl_region (hp_slab h s)"
  shows "\<exists>g R. edgeFrame q h g \<and> n = length (setBits dead) \<and>
    h' = g\<lparr>hp_slab := (hp_slab g)(s := freedSlab w dead (hp_slab h s)), hp_reg := (hp_reg g)(q := R)\<rparr> \<and>
    eraseFree R = eraseFree (hp_reg h q) \<and>
    r_bytes R = r_bytes (hp_reg h q) - int n * int (sl_ss (hp_slab h s)) \<and>
    r_freed R = r_freed (hp_reg h q) + n"
proof -
  let ?is = "map (\<lambda>b. w * 64 + b) (setBits dead)" and ?x = "hp_slab h s"
  define g where "g = (if hp_rsInc h \<noteq> 0 then fold (unlinkChildren s) ?is h else h)"
  have ge: "edgeFrame q h g" unfolding g_def q_def using unlinkAll_edge[of h s] by simp
  have gs: "hp_slab g s = ?x" using ge by (simp add: edgeFrame_def q_def)
  have gr: "hp_reg g = hp_reg h" using ge unfolding edgeFrame_def by (cases g; cases h) simp
  define F where "F x = (let y = fold clearRs ?is (fold linkSlot ?is x) in
      y\<lparr>sl_occ := (sl_occ y)[w := sl_occ y ! w AND NOT dead],
        sl_rsbit := (sl_rsbit y)[w := sl_rsbit y ! w AND NOT dead]\<rparr>)" for x
  have FF: "freedSlab w dead ?x = (F ?x)\<lparr>sl_avail := True\<rparr>" by (simp add: F_def freedSlab_def Let_def)
  have Fh: "sl_region (F ?x) = q" "sl_ss (F ?x) = sl_ss ?x"
    using headOf_eqD(1,4)[OF freedSlab_fields(3)[of w dead ?x]] FF by (simp_all add: q_def)
  have Fav: "(F ?x)\<lparr>sl_avail := True\<rparr> = F ?x" if "sl_avail (F ?x)"
    using that by (cases "F ?x") simp
  define R0 where "R0 = (hp_reg h q)\<lparr>r_bytes := r_bytes (hp_reg h q) - int n * int (sl_ss ?x),
      r_freed := r_freed (hp_reg h q) + n\<rparr>"
  define R1 where "R1 = (let y = classNeed (sl_ss ?x) R0 in
      setChain (sl_ss ?x) (s # the (classChain y (sl_ss ?x))) y)"
  define h5 where "h5 = g\<lparr>hp_slab := (hp_slab g)(s := F ?x), hp_reg := (hp_reg g)(q := R0)\<rparr>"
  have n: "n = length (setBits dead)" using assms(1) by (auto simp: freeSlotWord_def Let_def)
  have st: "updSlab s (\<lambda>x. x\<lparr>sl_occ := (sl_occ x)[w := sl_occ x ! w AND NOT dead],
          sl_rsbit := (sl_rsbit x)[w := sl_rsbit x ! w AND NOT dead]\<rparr>)
        (updSlab s (fold clearRs ?is) (updSlab s (fold linkSlot ?is) g)) =
      g\<lparr>hp_slab := (hp_slab g)(s := F ?x)\<rparr>"
    by (simp add: updSlab_def F_def Let_def gs)
  have "h' = (if sl_avail (hp_slab h5 s) then h5 else classPush q s h5)"
    using assms(1)[unfolded freeSlotWord_def Let_def, folded g_def, unfolded st] Fh
    by (auto simp: updReg_def h5_def R0_def n gr)
  also have "\<dots> = g\<lparr>hp_slab := (hp_slab g)(s := freedSlab w dead ?x),
      hp_reg := (hp_reg g)(q := if sl_avail (F ?x) then R0 else R1)\<rparr>"
  proof (cases "sl_avail (F ?x)")
    case True
    then have "freedSlab w dead ?x = F ?x" using FF Fav by metis
    then show ?thesis using True by (simp add: h5_def)
  qed (simp add: h5_def classPush_def Let_def updReg_def updSlab_def FF Fh R1_def)
  finally have "h' = \<dots>" .
  moreover have "eraseFree R0 = eraseFree (hp_reg h q)" by (simp add: R0_def eraseFree_def)
  ultimately show ?thesis
    using ge n by (intro exI[of _ g] exI[of _ "if sl_avail (F ?x) then R0 else R1"])
      (simp add: R1_def Let_def, simp add: R0_def)
qed

section \<open>The invariant of a sweep\<close>

definition processed :: "heap \<Rightarrow> addr \<Rightarrow> addr \<Rightarrow> nat \<Rightarrow> bool" where
  "processed h r s w \<longleftrightarrow> s \<notin> set (r_swRest (hp_reg h r)) \<or>
     s = hd (r_swRest (hp_reg h r)) \<and> w < r_swWord (hp_reg h r)"

text \<open>What may differ between a slab during a sweep and the slab at its start.\<close>

definition eraseSweep :: "slab \<Rightarrow> slab" where
  "eraseSweep x = x\<lparr>sl_occ := [], sl_mark := [], sl_rsbit := [], sl_rscnt := None, sl_tid := [],
     sl_free := 0, sl_epoch := 0, sl_avail := False\<rparr>"

definition sweptAs :: "bool \<Rightarrow> nat \<Rightarrow> slab \<Rightarrow> slab \<Rightarrow> bool" where
  "sweptAs b w x x0 \<longleftrightarrow>
     sl_occ x ! w = (if b then sl_occ x0 ! w AND sl_mark x0 ! w else sl_occ x0 ! w) \<and>
     sl_mark x ! w = (if b then 0 else sl_mark x0 ! w)"

definition sweepInv :: "heap \<Rightarrow> heap \<Rightarrow> addr \<Rightarrow> bool" where
  "sweepInv h0 h r \<longleftrightarrow> heapWf h \<and> regionOk h r \<and> distinct (r_slabs (hp_reg h r)) \<and>
     hp_mem h = hp_mem h0 \<and> hp_desc h = hp_desc h0 \<and> hp_own h = hp_own h0 \<and> hp_big h = hp_big h0 \<and>
     hp_pins h = hp_pins h0 \<and> hp_pinN h = hp_pinN h0 \<and> hp_wb h = hp_wb h0 \<and>
     (\<forall>k. k \<noteq> r \<longrightarrow> hp_reg h k = hp_reg h0 k) \<and> r_slabs (hp_reg h r) = r_slabs (hp_reg h0 r) \<and>
     (\<exists>pre. r_slabs (hp_reg h r) = pre @ r_swRest (hp_reg h r)) \<and>
     (\<forall>s rest. r_swRest (hp_reg h r) = s # rest \<longrightarrow> r_swWord (hp_reg h r) < sl_nwords (hp_slab h s)) \<and>
     (\<forall>a. eraseSweep (hp_slab h a) = eraseSweep (hp_slab h0 a)) \<and>
     (\<forall>a. a \<notin> set (r_slabs (hp_reg h r)) \<longrightarrow> sl_occ (hp_slab h a) = sl_occ (hp_slab h0 a) \<and>
        sl_mark (hp_slab h a) = sl_mark (hp_slab h0 a) \<and> sl_tid (hp_slab h a) = sl_tid (hp_slab h0 a)) \<and>
     (\<forall>s\<in>set (r_slabs (hp_reg h r)). \<forall>w. w < sl_nwords (hp_slab h s) \<longrightarrow>
        sweptAs (processed h r s w) w (hp_slab h s) (hp_slab h0 s)) \<and>
     (\<forall>s\<in>set (r_slabs (hp_reg h r)). \<forall>i. rcWord i < sl_nwords (hp_slab h s) \<longrightarrow> occAt (hp_slab h s) i \<longrightarrow>
        sl_tid (hp_slab h s) ! i = sl_tid (hp_slab h0 s) ! i) \<and>
     (\<forall>s\<in>set (r_slabs (hp_reg h r)). \<forall>i. bmGet (sl_rsbit (hp_slab h s)) i \<longrightarrow> bmGet (sl_rsbit (hp_slab h0 s)) i)"

lemma eraseSweep_fields:
  assumes "eraseSweep x = eraseSweep y"
  shows "headOf x = headOf y" "sl_tt x = sl_tt y" "sl_bump x = sl_bump y" "sl_region x = sl_region y"
    "sl_nwords x = sl_nwords y" "sl_ss x = sl_ss y"
  using assms by (cases x; cases y; simp add: eraseSweep_def headOf_def)+

lemma edgeEq_sweep: "edgeEq x y \<Longrightarrow> eraseSweep x = eraseSweep y"
  by (cases x; cases y) (simp add: edgeEq_def eraseEdge_def eraseSweep_def)

lemma freedSlab_sweep: "eraseSweep (freedSlab w dead x) = eraseSweep x"
proof -
  have e: "eraseSweep x = eraseSweep y"
    if "headOf x = headOf y" "sl_tt x = sl_tt y" "sl_bump x = sl_bump y" for x y
    using that by (cases x; cases y) (simp add: eraseSweep_def headOf_def)
  show ?thesis by (rule e) (simp_all add: freedSlab_fields)
qed

lemma slabShape_edge: "edgeEq x y \<Longrightarrow> slabShape x = slabShape y"
  using headOf_eqD(6,7)[OF edgeEq_fields(6)[of x y]] edgeEq_fields[of x y]
  unfolding slabShape_def edgeEq_def occAt_def by (cases "sl_rscnt x"; cases "sl_rscnt y") simp_all

text \<open>A slab after one word of dead slots was given back and its marks were cleared.\<close>

definition sweptWord :: "nat \<Rightarrow> slab \<Rightarrow> slab" where
  "sweptWord w x = (let dead = sl_occ x ! w AND NOT (sl_mark x ! w)
     in (if dead \<noteq> 0 then freedSlab w dead x else x)\<lparr>sl_mark := (sl_mark x)[w := 0]\<rparr>)"

lemma occ_dead: "o' AND (NOT o' OR m) = o' AND (m :: 64 word)"
  by (rule bit_eqI) (auto simp: bit_and_iff bit_not_iff bit_or_iff)

lemma occ_live:
  assumes "o' AND NOT m = (0 :: 64 word)"
  shows "o' AND m = o'"
proof (rule bit_eqI)
  fix n :: nat assume n: "possible_bit TYPE(64 word) n"
  have "\<not> bit (o' AND NOT m) n" using assms by simp
  then show "bit (o' AND m) n = bit o' n" using n by (auto simp: bit_and_iff bit_not_iff)
qed

lemma sweptWord_fields:
  shows "w < length (sl_occ x) \<Longrightarrow> sl_occ (sweptWord w x) = (sl_occ x)[w := sl_occ x ! w AND sl_mark x ! w]"
    and "sl_mark (sweptWord w x) = (sl_mark x)[w := 0]"
    and "eraseSweep (sweptWord w x) = eraseSweep x"
    and "length (sl_tid (sweptWord w x)) = length (sl_tid x)"
    and "length (sl_rsbit (sweptWord w x)) = length (sl_rsbit x)"
    and "map_option length (sl_rscnt (sweptWord w x)) = map_option length (sl_rscnt x)"
    and "sl_epoch (sweptWord w x) = sl_epoch x"
    and "length (sl_occ (sweptWord w x)) = length (sl_occ x)"
proof -
  let ?d = "sl_occ x ! w AND NOT (sl_mark x ! w)"
  show "sl_occ (sweptWord w x) = (sl_occ x)[w := sl_occ x ! w AND sl_mark x ! w]" if "w < length (sl_occ x)"
    using occ_live[of "sl_occ x ! w" "sl_mark x ! w"]
    by (auto simp: sweptWord_def Let_def freedSlab_fields occ_dead)
  show "eraseSweep (sweptWord w x) = eraseSweep x"
    using freedSlab_sweep[of w ?d x] by (auto simp: sweptWord_def Let_def eraseSweep_def)
qed (auto simp: sweptWord_def Let_def freedSlab_fields)

lemma sweptWord_rsbit:
  assumes "bmGet (sl_rsbit (sweptWord w x)) i"
  shows "bmGet (sl_rsbit x) i"
proof -
  let ?d = "sl_occ x ! w AND NOT (sl_mark x ! w)"
  let ?is = "map (\<lambda>b. w * 64 + b) (setBits ?d)"
  have "sl_rsbit (freedSlab w ?d x) = (sl_rsbit x)[w := sl_rsbit x ! w AND NOT ?d]"
    using fold_linkSlot[of ?is x] fold_clearRs[of ?is "fold linkSlot ?is x"]
    by (simp only: freedSlab_def Let_def) simp
  then show ?thesis
    using assms by (cases "w < length (sl_rsbit x)"; cases "i div 64 = w")
      (auto simp: sweptWord_def Let_def bmGet_bit bit_and_iff list_update_beyond split: if_splits)
qed

lemma sweptWord_occAt:
  assumes "slabShape x" "rcWord i < sl_nwords x"
  shows "occAt (sweptWord w x) i \<longleftrightarrow> occAt x i \<and> (rcWord i = w \<longrightarrow> bmGet (sl_mark x) i)"
proof (cases "w < length (sl_occ x)")
  case True
  then show ?thesis
    using assms
    by (cases "i div 64 = w")
      (auto simp: occAt_def sweptWord_fields(1)[OF True] bmGet_bit rcWord_def slabShape_def bit_and_iff)
next
  case False
  then have "rcWord i \<noteq> w" using assms by (auto simp: slabShape_def)
  moreover have "sl_occ (sweptWord w x) = sl_occ x"
    using False by (auto simp: sweptWord_def Let_def freedSlab_fields list_update_beyond)
  ultimately show ?thesis by (simp add: occAt_def)
qed

lemma sweptWord_tid:
  assumes "slabShape x" "rcWord i < sl_nwords x" "occAt (sweptWord w x) i"
  shows "sl_tid (sweptWord w x) ! i = sl_tid x ! i"
proof -
  have "\<not> (rcWord i = w \<and> bit (sl_occ x ! w AND NOT (sl_mark x ! w)) (i mod 64))"
    using assms sweptWord_occAt[OF assms(1,2), of w]
    by (auto simp: bmGet_bit rcWord_def bit_and_iff bit_not_iff)
  then show ?thesis using freedSlab_tid by (simp add: sweptWord_def Let_def)
qed

lemma sweptWord_shape:
  assumes "slabShape x"
  shows "slabShape (sweptWord w x)"
proof -
  note f = sweptWord_fields[where w = w and x = x]
  note h = headOf_eqD(6,7)[OF eraseSweep_fields(1)[OF f(3)]] eraseSweep_fields(2)[OF f(3)]
  have l: "length (sl_mark (sweptWord w x)) = length (sl_mark x)" by (simp add: f(2))
  have c: "\<forall>c. sl_rscnt (sweptWord w x) = Some c \<longrightarrow> length c = sl_nslots x"
    using f(6) assms by (cases "sl_rscnt x") (auto simp: slabShape_def)
  show ?thesis
    unfolding slabShape_def h
    using assms f(4,5,8) l c sweptWord_occAt[OF assms, of _ w] sweptWord_tid[OF assms, of _ w]
    by (auto simp: slabShape_def)
qed

lemma sweepWord_eq:
  fixes h :: heap
  assumes ne: "r_swRest (hp_reg h r) = s # rest" and rg: "sl_region (hp_slab h s) = r"
  defines "w \<equiv> r_swWord (hp_reg h r)" and "x \<equiv> hp_slab h s"
  defines "n \<equiv> length (setBits (sl_occ x ! w AND NOT (sl_mark x ! w)))"
  defines "fin \<equiv> w + 1 \<ge> sl_nwords x"
  shows "\<exists>g R. edgeFrame r h g \<and>
    sweepWord r h = (g\<lparr>hp_slab := (hp_slab g)(s := if fin then (sweptWord w x)\<lparr>sl_epoch := r_swId (hp_reg h r)\<rparr>
                                                 else sweptWord w x),
                       hp_reg := (hp_reg h)(r := R)\<rparr>, fin \<and> rest = []) \<and>
    r_swRest R = (if fin then rest else s # rest) \<and> r_swWord R = (if fin then 0 else w + 1) \<and>
    eraseFree R = eraseFree ((hp_reg h r)\<lparr>r_swRest := r_swRest R, r_swWord := r_swWord R,
      r_swFreed := r_swFreed (hp_reg h r) + n\<rparr>) \<and>
    r_bytes R = r_bytes (hp_reg h r) - int n * int (sl_ss x) \<and> r_freed R = r_freed (hp_reg h r) + n"
proof -
  let ?d = "sl_occ x ! w AND NOT (sl_mark x ! w)"
  obtain g h1 R1 where G: "edgeFrame r h g"
    "h1 = g\<lparr>hp_slab := (hp_slab g)(s := if ?d \<noteq> 0 then freedSlab w ?d x else x), hp_reg := (hp_reg h)(r := R1)\<rparr>"
    "(if ?d \<noteq> 0 then (let (g, n) = freeSlotWord s w ?d h
        in updReg r (\<lambda>x. x\<lparr>r_swFreed := r_swFreed x + n\<rparr>) g) else h) = h1"
    "eraseFree R1 = eraseFree ((hp_reg h r)\<lparr>r_swFreed := r_swFreed (hp_reg h r) + n\<rparr>)"
    "r_bytes R1 = r_bytes (hp_reg h r) - int n * int (sl_ss x)" "r_freed R1 = r_freed (hp_reg h r) + n"
  proof (cases "?d = 0")
    case True
    then have "n = 0" by (simp add: n_def)
    then show ?thesis using True by (intro that[of h h "hp_reg h r"]) (simp_all add: x_def)
  next
    case False
    obtain f m where fw: "freeSlotWord s w ?d h = (f, m)" by fastforce
    obtain g R where g: "edgeFrame r h g" "m = n"
      "f = g\<lparr>hp_slab := (hp_slab g)(s := freedSlab w ?d x), hp_reg := (hp_reg g)(r := R)\<rparr>"
      "eraseFree R = eraseFree (hp_reg h r)" "r_bytes R = r_bytes (hp_reg h r) - int n * int (sl_ss x)"
      "r_freed R = r_freed (hp_reg h r) + n"
      using freeSlotWord_eq[OF fw] unfolding rg x_def n_def by blast
    have gr: "hp_reg g = hp_reg h" using g(1) unfolding edgeFrame_def by (cases g; cases h) simp
    have fr: "eraseFree (R\<lparr>r_swFreed := r_swFreed R + n\<rparr>) = eraseFree ((hp_reg h r)\<lparr>r_swFreed := r_swFreed (hp_reg h r) + n\<rparr>)"
      using g(4) by (cases R; cases "hp_reg h r") (simp add: eraseFree_def)
    show ?thesis
      by (rule that[OF g(1) _ _ fr])
        (use False fw g gr in \<open>simp_all add: updReg_def\<close>)
  qed
  have ss: "sl_nwords (sweptWord w x) = sl_nwords x"
    by (rule eraseSweep_fields(5)[OF sweptWord_fields(3)])
  have fs: "sl_mark (if ?d \<noteq> 0 then freedSlab w ?d x else x) = sl_mark x" by (simp add: freedSlab_fields)
  define h2 where "h2 = updSlab s (\<lambda>x. x\<lparr>sl_mark := (sl_mark x)[w := 0]\<rparr>) h1"
  have h2: "h2 = g\<lparr>hp_slab := (hp_slab g)(s := sweptWord w x), hp_reg := (hp_reg h)(r := R1)\<rparr>"
    using fs by (simp add: h2_def G(2) updSlab_def sweptWord_def Let_def)
  have id: "r_swId R1 = r_swId (hp_reg h r)" using eraseFree_fields(4)[OF G(4)] by simp
  define h3 where "h3 = (if w + 1 \<ge> sl_nwords (hp_slab h2 s) then
        updReg r (\<lambda>x. x\<lparr>r_swRest := rest, r_swWord := 0\<rparr>)
          (updSlab s (\<lambda>x. x\<lparr>sl_epoch := r_swId (hp_reg h2 r)\<rparr>) h2)
      else updReg r (\<lambda>x. x\<lparr>r_swWord := w + 1\<rparr>) h2)"
  have sw: "sweepWord r h = (h3, r_swRest (hp_reg h3 r) = [])"
    by (simp only: sweepWord_def ne list.case Let_def w_def[symmetric] x_def[symmetric]
        G(3)[unfolded Let_def] h2_def h3_def)
  define R where "R = (if fin then R1\<lparr>r_swRest := rest, r_swWord := 0\<rparr> else R1\<lparr>r_swWord := w + 1\<rparr>)"
  have r1: "r_swRest R1 = s # rest" using eraseFree_fields(2)[OF G(4)] ne by simp
  have h3: "h3 = g\<lparr>hp_slab := (hp_slab g)(s := if fin then (sweptWord w x)\<lparr>sl_epoch := r_swId (hp_reg h r)\<rparr>
                                                 else sweptWord w x), hp_reg := (hp_reg h)(r := R)\<rparr>"
    unfolding h3_def h2 by (simp add: ss fin_def R_def id updReg_def updSlab_def)
  have er: "eraseFree (R1\<lparr>r_swRest := a, r_swWord := b\<rparr>) =
      eraseFree ((hp_reg h r)\<lparr>r_swRest := a, r_swWord := b, r_swFreed := r_swFreed (hp_reg h r) + n\<rparr>)" for a b
    using G(4) by (cases R1; cases "hp_reg h r") (simp add: eraseFree_def)
  have Rk: "R = R1\<lparr>r_swRest := r_swRest R, r_swWord := r_swWord R\<rparr>"
    unfolding R_def using r1 by (cases R1) auto
  have "eraseFree R = eraseFree ((hp_reg h r)\<lparr>r_swRest := r_swRest R, r_swWord := r_swWord R,
      r_swFreed := r_swFreed (hp_reg h r) + n\<rparr>)"
    by (rule trans[OF arg_cong[where f = eraseFree, OF Rk] er])
  then show ?thesis
    using G(1,5,6) sw h3 r1 by (intro exI[of _ g] exI[of _ R]) (simp add: R_def)
qed

lemma heapWf_step:
  assumes wf: "heapWf h" and o: "hp_own h' = hp_own h" "hp_big h' = hp_big h"
      and hd: "\<And>a. headOf (hp_slab h' a) = headOf (hp_slab h a)"
      and sh: "\<And>a. registered h a \<Longrightarrow> slabShape (hp_slab h a) \<Longrightarrow> slabShape (hp_slab h' a)"
  shows "heapWf h'"
proof -
  have e: "geomOk b (hp_slab h' a) = geomOk b (hp_slab h a)" "sl_big (hp_slab h' a) = sl_big (hp_slab h a)"
    "sl_data (hp_slab h' a) = sl_data (hp_slab h a)" for a b
    using headOf_eqD[OF hd] by auto
  show ?thesis
    unfolding heapWf_def o e
  proof (intro conjI allI impI)
    fix b s assume b: "hp_own h b = Some s"
    then have k: "s = b \<and> geomOk b (hp_slab h b) \<and> \<not> sl_big (hp_slab h b) \<and> slabShape (hp_slab h b)"
      using wf unfolding heapWf_def by blast
    then show "s = b" "geomOk b (hp_slab h b)" "\<not> sl_big (hp_slab h b)" by auto
    show "slabShape (hp_slab h' b)" using sh[of b] k b by (auto simp: registered_def)
  next
    fix d s assume d: "hp_big h d = Some s"
    then have k: "geomOk s (hp_slab h s) \<and> sl_big (hp_slab h s) \<and> sl_data (hp_slab h s) = d \<and>
        hp_own h (slabOf d) = None \<and> slabShape (hp_slab h s) \<and> s mod RC_SLAB_SIZE \<noteq> 0"
      using wf unfolding heapWf_def by blast
    then show "geomOk s (hp_slab h s)" "sl_big (hp_slab h s)" "sl_data (hp_slab h s) = d"
      "hp_own h (slabOf d) = None" "s mod RC_SLAB_SIZE \<noteq> 0" by auto
    show "slabShape (hp_slab h' s)" using sh[of s] k d by (auto simp: registered_def)
  qed
qed

lemma sweepWord_inv:
  assumes I: "sweepInv h0 h r" and ne: "r_swRest (hp_reg h r) = s # rest"
  shows "sweepInv h0 (fst (sweepWord r h)) r"
proof -
  define w where "w = r_swWord (hp_reg h r)"
  define x where "x = hp_slab h s"
  define n where "n = length (setBits (sl_occ x ! w AND NOT (sl_mark x ! w)))"
  define fin where "fin = (w + 1 \<ge> sl_nwords x)"
  define h' where "h' = fst (sweepWord r h)"
  obtain pre where pre: "r_slabs (hp_reg h r) = pre @ s # rest"
    using I ne unfolding sweepInv_def by metis
  have wf: "heapWf h" and ro: "regionOk h r" and di: "distinct (r_slabs (hp_reg h r))"
    and wl: "w < sl_nwords x"
    using I ne by (auto simp: sweepInv_def w_def x_def)
  have sr: "registered h s" "sl_region x = r" using ro pre by (auto simp: regionOk_def x_def)
  have sx: "slabShape x" using registered_wf(2)[OF wf sr(1)] by (simp add: x_def)
  define x' where "x' = (if fin then (sweptWord w x)\<lparr>sl_epoch := r_swId (hp_reg h r)\<rparr> else sweptWord w x)"
  obtain g R where g: "edgeFrame r h g" and h': "h' = g\<lparr>hp_slab := (hp_slab g)(s := x'), hp_reg := (hp_reg h)(r := R)\<rparr>"
    and R: "r_swRest R = (if fin then rest else s # rest)" "r_swWord R = (if fin then 0 else w + 1)"
    "eraseFree R = eraseFree ((hp_reg h r)\<lparr>r_swRest := r_swRest R, r_swWord := r_swWord R,
      r_swFreed := r_swFreed (hp_reg h r) + n\<rparr>)"
    using sweepWord_eq[OF ne sr(2)[unfolded x_def]]
    unfolding w_def[symmetric] x_def[symmetric] n_def[symmetric] fin_def[symmetric] x'_def[symmetric]
    by (auto simp: h'_def)
  have gf: "hp_mem h' = hp_mem h" "hp_desc h' = hp_desc h" "hp_own h' = hp_own h" "hp_big h' = hp_big h"
    "hp_pins h' = hp_pins h" "hp_pinN h' = hp_pinN h" "hp_wb h' = hp_wb h" "hp_reg h' = (hp_reg h)(r := R)"
    using g unfolding h' edgeFrame_def by (cases g; cases h; simp)+
  have x'f: "sl_occ x' = (sl_occ x)[w := sl_occ x ! w AND sl_mark x ! w]" "sl_mark x' = (sl_mark x)[w := 0]"
    "eraseSweep x' = eraseSweep x" "slabShape x'" "sl_tid x' = sl_tid (sweptWord w x)" "occAt x' = occAt (sweptWord w x)"
    using sweptWord_fields(1-3)[of w x] sweptWord_shape[OF sx, of w] wl sx
    by (auto simp: x'_def slabShape_def eraseSweep_def occAt_def fun_eq_iff)
  have sl: "hp_slab h' s = x'" "\<And>a. a \<noteq> s \<Longrightarrow> edgeEq (hp_slab h' a) (hp_slab h a)"
    using g by (simp_all add: h' edgeFrame_def)
  have es: "eraseSweep (hp_slab h' a) = eraseSweep (hp_slab h a)" for a
    using sl edgeEq_sweep x'f(3) by (cases "a = s") (auto simp: x_def)
  note hd = eraseSweep_fields[OF es]
  have wf': "heapWf h'"
    by (rule heapWf_step[OF wf gf(3,4) hd(1)])
      (metis sl slabShape_edge x'f(4))
  have rs: "r_slabs R = r_slabs (hp_reg h r)" using eraseFree_fields(1)[OF R(3)] by simp
  have reg': "registered h' a = registered h a" for a by (simp add: registered_def gf)
  have ro': "regionOk h' r" using ro by (simp add: regionOk_def gf rs reg' hd(4))
  have nd: "s \<notin> set rest" "s \<notin> set pre" using di pre by auto
  have pr: "processed h' r t v \<longleftrightarrow> processed h r t v \<or> t = s \<and> v = w" if "v < sl_nwords (hp_slab h t)" for t v
    using that nd wl by (auto simp: processed_def gf R ne fin_def x_def w_def neq_Nil_conv)
  have occt: "occAt (hp_slab h' s) i \<Longrightarrow> rcWord i < sl_nwords x \<Longrightarrow> sl_tid (hp_slab h' s) ! i = sl_tid x ! i \<and> occAt x i" for i
    using sweptWord_tid[OF sx, of i w] sweptWord_occAt[OF sx, of i w] by (simp add: sl x'f)
  have A: "sweptAs (processed h' r t v) v (hp_slab h' t) (hp_slab h0 t)"
    if t: "t \<in> set (r_slabs (hp_reg h r))" and v: "v < sl_nwords (hp_slab h t)" for t v
  proof -
    have a0: "sweptAs (processed h r t v) v (hp_slab h t) (hp_slab h0 t)"
      using I t v unfolding sweepInv_def by blast
    show ?thesis
    proof (cases "t = s")
      case False
      then have "sl_occ (hp_slab h' t) = sl_occ (hp_slab h t)" "sl_mark (hp_slab h' t) = sl_mark (hp_slab h t)"
        using edgeEq_fields(2,3)[OF sl(2)] by auto
      then show ?thesis using a0 False pr[OF v] by (simp add: sweptAs_def)
    next
      case True
      have l: "w < length (sl_occ x)" "w < length (sl_mark x)" using wl sx by (auto simp: slabShape_def)
      have np: "\<not> processed h r s w" by (simp add: processed_def ne w_def)
      show ?thesis
      proof (cases "v = w")
        case v: True
        then show ?thesis using a0 np l True pr[of v t] wl by (simp add: sweptAs_def sl x'f x_def)
      next
        case F: False
        then have "processed h' r t v = processed h r t v" using pr[OF v] by blast
        then show ?thesis using a0 F l True by (simp add: sweptAs_def sl x'f x_def)
      qed
    qed
  qed
  have T: "sl_tid (hp_slab h' t) ! i = sl_tid (hp_slab h0 t) ! i"
    if t: "t \<in> set (r_slabs (hp_reg h r))" and i: "rcWord i < sl_nwords (hp_slab h t)" "occAt (hp_slab h' t) i" for t i
  proof -
    have "sl_tid (hp_slab h' t) ! i = sl_tid (hp_slab h t) ! i \<and> occAt (hp_slab h t) i"
    proof (cases "t = s")
      case True
      then show ?thesis using occt i by (simp add: x_def)
    next
      case False
      show ?thesis using edgeEq_fields(2,4)[OF sl(2)[OF False]] i by (simp add: occAt_def)
    qed
    then show ?thesis using I t i unfolding sweepInv_def by metis
  qed
  have O: "sl_occ (hp_slab h' a) = sl_occ (hp_slab h0 a) \<and> sl_mark (hp_slab h' a) = sl_mark (hp_slab h0 a) \<and>
      sl_tid (hp_slab h' a) = sl_tid (hp_slab h0 a)" if "a \<notin> set (r_slabs (hp_reg h r))" for a
  proof -
    have "a \<noteq> s" using that pre by auto
    then show ?thesis using edgeEq_fields(2-4)[OF sl(2)] I that unfolding sweepInv_def by metis
  qed
  have B: "bmGet (sl_rsbit (hp_slab h0 t)) i"
    if t: "t \<in> set (r_slabs (hp_reg h r))" and b: "bmGet (sl_rsbit (hp_slab h' t)) i" for t i
  proof -
    have "bmGet (sl_rsbit (hp_slab h t)) i"
    proof (cases "t = s")
      case True
      then have "bmGet (sl_rsbit (sweptWord w x)) i" using b by (simp add: sl x'_def split: if_splits)
      then show ?thesis using sweptWord_rsbit True by (simp add: x_def)
    next
      case False
      have "sl_region (hp_slab h t) = r" using ro t by (simp add: regionOk_def)
      then show ?thesis using b g False by (simp add: h' edgeFrame_def)
    qed
    then show ?thesis using I t unfolding sweepInv_def by (elim conjE) simp
  qed
  have P: "\<exists>pre. r_slabs R = pre @ r_swRest R" using pre by (auto simp: rs R intro: exI[of _ "pre @ [s]"])
  have W: "r_swWord R < sl_nwords (hp_slab h' t)" if "r_swRest R = t # ts" for t ts
  proof (cases fin)
    case True
    then have "t \<in> set (r_slabs (hp_reg h r))" using that pre by (simp add: R)
    then have rt: "registered h t" using ro by (simp add: regionOk_def)
    have "0 < sl_nslots (hp_slab h t)" using registered_wf(1)[OF wf rt] by (simp add: geomOk_def)
    then have "0 < sl_nwords (hp_slab h t)" using slot_wf[OF wf rt] by (metis not_less_zero neq0_conv)
    then show ?thesis using True hd(5) by (simp add: R)
  qed (use that hd(5) in \<open>simp add: R fin_def x_def\<close>)
  have E: "eraseSweep (hp_slab h' a) = eraseSweep (hp_slab h0 a)" for a
    using es I unfolding sweepInv_def by metis
  have K: "\<forall>k. k \<noteq> r \<longrightarrow> hp_reg h k = hp_reg h0 k" "r_slabs (hp_reg h r) = r_slabs (hp_reg h0 r)"
    "hp_mem h = hp_mem h0" "hp_desc h = hp_desc h0" "hp_own h = hp_own h0" "hp_big h = hp_big h0"
    "hp_pins h = hp_pins h0" "hp_pinN h = hp_pinN h0" "hp_wb h = hp_wb h0"
    using I unfolding sweepInv_def by blast+
  show ?thesis
    unfolding h'_def[symmetric] sweepInv_def
    using wf' ro' di A T O P W E K B by (simp add: gf rs hd(5))
qed

section \<open>The accounts\<close>

definition occCount :: "slab \<Rightarrow> nat" where
  "occCount x = sum_list (map (\<lambda>w. length (setBits w)) (sl_occ x))"

definition liveSlots :: "heap \<Rightarrow> addr \<Rightarrow> int" where
  "liveSlots h r = sum_list (map (\<lambda>s. int (occCount (hp_slab h s))) (r_slabs (hp_reg h r)))"

definition liveBytes :: "heap \<Rightarrow> addr \<Rightarrow> int" where
  "liveBytes h r = sum_list (map (\<lambda>s. int (sl_ss (hp_slab h s)) * int (occCount (hp_slab h s))) (r_slabs (hp_reg h r)))"

definition swLeft :: "heap \<Rightarrow> addr \<Rightarrow> nat" where
  "swLeft h r = (case r_swRest (hp_reg h r) of [] \<Rightarrow> 0
     | s # rest \<Rightarrow> (sl_nwords (hp_slab h s) - r_swWord (hp_reg h r)) +
         sum_list (map (\<lambda>t. sl_nwords (hp_slab h t)) rest))"

lemma setBits_split: "length (setBits (a AND m)) + length (setBits (a AND NOT m)) = length (setBits a)"
proof -
  have 1: "setBits (a AND m) = filter (bit m) (setBits a)"
    by (simp add: setBits_def bit_and_iff conj_commute cong: filter_cong)
  have "bit (NOT m) i = (\<not> bit m i)" if "i < 64" for i
    using that by (simp add: bit_not_iff)
  then have 2: "setBits (a AND NOT m) = filter (\<lambda>i. \<not> bit m i) (setBits a)"
    unfolding setBits_def filter_filter by (intro filter_cong) (auto simp: bit_and_iff)
  show ?thesis unfolding 1 2 by (rule sum_length_filter_compl)
qed

lemma occCount_swept:
  assumes "w < length (sl_occ x)"
  shows "int (occCount (sweptWord w x)) =
    int (occCount x) - int (length (setBits (sl_occ x ! w AND NOT (sl_mark x ! w))))"
proof -
  let ?f = "\<lambda>w. length (setBits w)"
  let ?o = "sl_occ x" and ?v = "sl_occ x ! w AND sl_mark x ! w"
  have "occCount (sweptWord w x) = sum_list ((map ?f ?o)[w := ?f ?v])"
    by (simp add: occCount_def sweptWord_fields(1)[OF assms] map_update)
  also have "\<dots> = occCount x + ?f ?v - ?f (?o ! w)"
    using assms by (simp add: sum_list_update occCount_def)
  finally have "occCount (sweptWord w x) = occCount x + ?f ?v - ?f (?o ! w)" .
  moreover have "?f (?o ! w) \<le> occCount x"
    unfolding occCount_def using assms by (intro member_le_sum_list) auto
  ultimately show ?thesis using setBits_split[of "?o ! w" "sl_mark x ! w"] by linarith
qed

lemma sweepWord_acct:
  assumes I: "sweepInv h0 h r" and ne: "r_swRest (hp_reg h r) = s # rest"
  defines "h' \<equiv> fst (sweepWord r h)"
  shows "r_bytes (hp_reg h' r) - liveBytes h' r = r_bytes (hp_reg h r) - liveBytes h r"
    and "int (r_freed (hp_reg h' r)) + liveSlots h' r = int (r_freed (hp_reg h r)) + liveSlots h r"
    and "int (r_swFreed (hp_reg h' r)) + liveSlots h' r = int (r_swFreed (hp_reg h r)) + liveSlots h r"
    and "swLeft h' r < swLeft h r"
    and "snd (sweepWord r h) = (r_swRest (hp_reg h' r) = [])"
    and "r_sweeping (hp_reg h' r) = r_sweeping (hp_reg h r)" "r_live (hp_reg h' r) = r_live (hp_reg h r)"
    and "r_scale (hp_reg h' r) = r_scale (hp_reg h r)" "r_floor (hp_reg h' r) = r_floor (hp_reg h r)"
    and "r_marking (hp_reg h' r) = r_marking (hp_reg h r)" "r_noSweep (hp_reg h' r) = r_noSweep (hp_reg h r)"
    and "r_seedAny (hp_reg h' r) = r_seedAny (hp_reg h r)"
proof -
  define w where "w = r_swWord (hp_reg h r)"
  define x where "x = hp_slab h s"
  define n where "n = length (setBits (sl_occ x ! w AND NOT (sl_mark x ! w)))"
  define fin where "fin = (w + 1 \<ge> sl_nwords x)"
  obtain pre where pre: "r_slabs (hp_reg h r) = pre @ s # rest" using I ne unfolding sweepInv_def by metis
  have wf: "heapWf h" and ro: "regionOk h r" and di: "distinct (r_slabs (hp_reg h r))" and wl: "w < sl_nwords x"
    using I ne by (auto simp: sweepInv_def w_def x_def)
  have sr: "registered h s" "sl_region x = r" using ro pre by (auto simp: regionOk_def x_def)
  have lo: "w < length (sl_occ x)"
    using registered_wf(2)[OF wf sr(1)] wl by (simp add: slabShape_def x_def)
  define x' where "x' = (if fin then (sweptWord w x)\<lparr>sl_epoch := r_swId (hp_reg h r)\<rparr> else sweptWord w x)"
  obtain g R where g: "edgeFrame r h g"
    and sw: "sweepWord r h = (g\<lparr>hp_slab := (hp_slab g)(s := x'), hp_reg := (hp_reg h)(r := R)\<rparr>, fin \<and> rest = [])"
    and R: "r_swRest R = (if fin then rest else s # rest)" "r_swWord R = (if fin then 0 else w + 1)"
    "eraseFree R = eraseFree ((hp_reg h r)\<lparr>r_swRest := r_swRest R, r_swWord := r_swWord R,
      r_swFreed := r_swFreed (hp_reg h r) + n\<rparr>)"
    "r_bytes R = r_bytes (hp_reg h r) - int n * int (sl_ss x)" "r_freed R = r_freed (hp_reg h r) + n"
    using sweepWord_eq[OF ne sr(2)[unfolded x_def]]
    unfolding w_def[symmetric] x_def[symmetric] n_def[symmetric] fin_def[symmetric] x'_def[symmetric]
    by blast
  have h': "h' = g\<lparr>hp_slab := (hp_slab g)(s := x'), hp_reg := (hp_reg h)(r := R)\<rparr>" by (simp add: h'_def sw)
  have rr: "hp_reg h' r = R" by (simp add: h')
  note er = eraseFree_fields[OF R(3)]
  show "r_sweeping (hp_reg h' r) = r_sweeping (hp_reg h r)" "r_live (hp_reg h' r) = r_live (hp_reg h r)"
    "r_scale (hp_reg h' r) = r_scale (hp_reg h r)" "r_floor (hp_reg h' r) = r_floor (hp_reg h r)"
    "r_marking (hp_reg h' r) = r_marking (hp_reg h r)" "r_noSweep (hp_reg h' r) = r_noSweep (hp_reg h r)"
    "r_seedAny (hp_reg h' r) = r_seedAny (hp_reg h r)"
    using er by (simp_all add: rr)
  show "snd (sweepWord r h) = (r_swRest (hp_reg h' r) = [])" by (simp add: sw rr R)
  have x'o: "occCount x' = occCount (sweptWord w x)" by (simp add: x'_def occCount_def)
  have es: "eraseSweep x' = eraseSweep x"
    using sweptWord_fields(3)[of w x] by (simp add: x'_def eraseSweep_def)
  have oth: "occCount (hp_slab h' a) = occCount (hp_slab h a)" "sl_ss (hp_slab h' a) = sl_ss (hp_slab h a)"
    "sl_nwords (hp_slab h' a) = sl_nwords (hp_slab h a)" if "a \<noteq> s" for a
  proof -
    have "edgeEq (hp_slab h' a) (hp_slab h a)" using g that by (simp add: h' edgeFrame_def)
    then show "occCount (hp_slab h' a) = occCount (hp_slab h a)" "sl_ss (hp_slab h' a) = sl_ss (hp_slab h a)"
      "sl_nwords (hp_slab h' a) = sl_nwords (hp_slab h a)"
      using edgeEq_fields headOf_eqD(4,7) by (metis occCount_def)+
  qed
  have hs: "hp_slab h' s = x'" by (simp add: h')
  have sl: "r_slabs R = r_slabs (hp_reg h r)" using er(1) by simp
  have ins: "s \<in> set (r_slabs (hp_reg h r))" using pre by simp
  have ls: "liveSlots h' r = liveSlots h r - int n"
    unfolding liveSlots_def rr sl
    using sum_list_map_upd_distinct[OF di ins, of "\<lambda>s. int (occCount (hp_slab h' s))" "\<lambda>s. int (occCount (hp_slab h s))"]
      oth hs x'o occCount_swept[OF lo] by (simp add: x_def n_def)
  have oc: "int (occCount (hp_slab h' s)) = int (occCount (hp_slab h s)) - int n"
    "sl_ss (hp_slab h' s) = sl_ss (hp_slab h s)"
    using occCount_swept[OF lo] hs x'o eraseSweep_fields(6)[OF es] by (simp_all add: x_def n_def)
  have "liveBytes h' r = liveBytes h r - int (sl_ss x) * int n"
    unfolding liveBytes_def rr sl
    using sum_list_map_upd_distinct[OF di ins, of "\<lambda>s. int (sl_ss (hp_slab h' s)) * int (occCount (hp_slab h' s))"
        "\<lambda>s. int (sl_ss (hp_slab h s)) * int (occCount (hp_slab h s))"]
      oth unfolding oc by (simp add: right_diff_distrib x_def)
  then show "r_bytes (hp_reg h' r) - liveBytes h' r = r_bytes (hp_reg h r) - liveBytes h r"
    by (simp add: rr R algebra_simps)
  show "int (r_freed (hp_reg h' r)) + liveSlots h' r = int (r_freed (hp_reg h r)) + liveSlots h r"
    "int (r_swFreed (hp_reg h' r)) + liveSlots h' r = int (r_swFreed (hp_reg h r)) + liveSlots h r"
    using ls er(5) by (simp_all add: rr R)
  have nr: "s \<notin> set rest" using di pre by auto
  have nw: "sl_nwords x' = sl_nwords x" by (rule eraseSweep_fields(5)[OF es])
  have sr': "sum_list (map (\<lambda>t. sl_nwords (hp_slab h' t)) rest) = sum_list (map (\<lambda>t. sl_nwords (hp_slab h t)) rest)"
    using nr oth(3) by (metis (mono_tags, lifting) map_eq_conv)
  show "swLeft h' r < swLeft h r"
  proof (cases fin)
    case True
    have "swLeft h' r \<le> sum_list (map (\<lambda>t. sl_nwords (hp_slab h' t)) rest)"
      by (cases rest) (simp_all add: swLeft_def rr R True)
    moreover have "swLeft h r = (sl_nwords x - w) + sum_list (map (\<lambda>t. sl_nwords (hp_slab h t)) rest)"
      by (simp add: swLeft_def ne x_def w_def)
    ultimately show ?thesis using wl sr' by linarith
  next
    case False
    then show ?thesis using wl sr' nw by (simp add: swLeft_def rr R ne hs x_def w_def)
  qed
qed

text \<open>What a sweep keeps: the invariant, and the accounts relative to the start.\<close>

definition sweepKept :: "heap \<Rightarrow> heap \<Rightarrow> addr \<Rightarrow> bool" where
  "sweepKept h0 h r \<longleftrightarrow> sweepInv h0 h r \<and>
     r_bytes (hp_reg h r) - liveBytes h r = r_bytes (hp_reg h0 r) - liveBytes h0 r \<and>
     int (r_freed (hp_reg h r)) + liveSlots h r = int (r_freed (hp_reg h0 r)) + liveSlots h0 r \<and>
     int (r_swFreed (hp_reg h r)) + liveSlots h r = int (r_swFreed (hp_reg h0 r)) + liveSlots h0 r \<and>
     r_sweeping (hp_reg h r) = r_sweeping (hp_reg h0 r) \<and> r_live (hp_reg h r) = r_live (hp_reg h0 r) \<and>
     r_scale (hp_reg h r) = r_scale (hp_reg h0 r) \<and> r_floor (hp_reg h r) = r_floor (hp_reg h0 r) \<and>
     r_marking (hp_reg h r) = r_marking (hp_reg h0 r) \<and> r_noSweep (hp_reg h r) = r_noSweep (hp_reg h0 r) \<and>
     r_seedAny (hp_reg h r) = r_seedAny (hp_reg h0 r)"

lemma sweepWord_kept:
  assumes "sweepKept h0 h r" "r_swRest (hp_reg h r) \<noteq> []"
  shows "sweepKept h0 (fst (sweepWord r h)) r"
proof -
  obtain s rest where ne: "r_swRest (hp_reg h r) = s # rest" using assms(2) by (cases "r_swRest (hp_reg h r)") auto
  have I: "sweepInv h0 h r" using assms(1) by (simp add: sweepKept_def)
  show ?thesis using assms(1) sweepWord_inv[OF I ne] sweepWord_acct[OF I ne] by (simp add: sweepKept_def)
qed

lemma sweepLoop_stop: "\<not> (left > 0 \<and> r_swRest (hp_reg h r) \<noteq> []) \<Longrightarrow> sweepLoop r left h = h"
  unfolding sweepLoop.simps[of r left h] by (rule if_not_P)

lemma sweepLoop_go:
  "left > 0 \<and> r_swRest (hp_reg h r) \<noteq> [] \<Longrightarrow> sweepLoop r left h =
     (case sweepWord r h of (h', bottom) \<Rightarrow> if bottom then h' else sweepLoop r (left - 1) h')"
  unfolding sweepLoop.simps[of r left h] by (rule if_P)

lemma sweepLoop_kept:
  "sweepKept h0 h r \<Longrightarrow> sweepKept h0 (sweepLoop r left h) r \<and>
     (r_swRest (hp_reg h r) \<noteq> [] \<and> left > 0 \<longrightarrow> swLeft (sweepLoop r left h) r < swLeft h r) \<and>
     swLeft (sweepLoop r left h) r \<le> swLeft h r"
proof (induction r left h rule: sweepLoop.induct)
  case (1 r left h)
  show ?case
  proof (cases "left > 0 \<and> r_swRest (hp_reg h r) \<noteq> []")
    case True
    obtain s rest where ne: "r_swRest (hp_reg h r) = s # rest" using True by (cases "r_swRest (hp_reg h r)") auto
    have I: "sweepInv h0 h r" using "1.prems" by (simp add: sweepKept_def)
    obtain g b where sw: "sweepWord r h = (g, b)" by fastforce
    have k: "sweepKept h0 g r" using sweepWord_kept[OF "1.prems"] True sw by simp
    have d: "swLeft g r < swLeft h r" using sweepWord_acct(4)[OF I ne] sw by simp
    show ?thesis
    proof (cases b)
      case b: True
      then show ?thesis unfolding sweepLoop_go[OF True] sw using k d by simp
    next
      case b: False
      have "sweepLoop r left h = sweepLoop r (left - 1) g" unfolding sweepLoop_go[OF True] sw using b by simp
      then show ?thesis using "1.IH"[OF True sw[symmetric] _ k] b d by simp
    qed
  qed (use "1.prems" in \<open>auto simp: sweepLoop_stop\<close>)
qed

lemma swLeft_pos:
  assumes "sweepInv h0 h r" "r_swRest (hp_reg h r) \<noteq> []"
  shows "0 < swLeft h r"
  using assms by (cases "r_swRest (hp_reg h r)") (auto simp: swLeft_def sweepInv_def)

section \<open>The outcome of a complete sweep\<close>

lemma sweepInvD:
  assumes "sweepInv h0 h r"
  shows "a \<notin> set (r_slabs (hp_reg h r)) \<Longrightarrow> sl_occ (hp_slab h a) = sl_occ (hp_slab h0 a) \<and>
        sl_mark (hp_slab h a) = sl_mark (hp_slab h0 a) \<and> sl_tid (hp_slab h a) = sl_tid (hp_slab h0 a)"
    and "heapWf h" "hp_mem h = hp_mem h0" "hp_desc h = hp_desc h0" "r_slabs (hp_reg h r) = r_slabs (hp_reg h0 r)"
    and "s \<in> set (r_slabs (hp_reg h r)) \<Longrightarrow> w < sl_nwords (hp_slab h s) \<Longrightarrow>
        sweptAs (processed h r s w) w (hp_slab h s) (hp_slab h0 s)"
    and "s \<in> set (r_slabs (hp_reg h r)) \<Longrightarrow> rcWord i < sl_nwords (hp_slab h s) \<Longrightarrow> occAt (hp_slab h s) i \<Longrightarrow>
        sl_tid (hp_slab h s) ! i = sl_tid (hp_slab h0 s) ! i"
    and "s \<in> set (r_slabs (hp_reg h r)) \<Longrightarrow> bmGet (sl_rsbit (hp_slab h s)) i \<Longrightarrow> bmGet (sl_rsbit (hp_slab h0 s)) i"
  using assms unfolding sweepInv_def by (elim conjE, simp)+

lemma sweepInv_occ:
  assumes I: "sweepInv h0 h r" and e: "r_swRest (hp_reg h r) = []" and wf0: "heapWf h0"
      and s: "s \<in> set (r_slabs (hp_reg h r))" and i: "rcWord i < sl_nwords (hp_slab h s)"
  shows "occAt (hp_slab h s) i \<longleftrightarrow> occAt (hp_slab h0 s) i \<and> bmGet (sl_mark (hp_slab h0 s)) i"
    and "\<not> bmGet (sl_mark (hp_slab h s)) i"
proof -
  have "sweptAs True (rcWord i) (hp_slab h s) (hp_slab h0 s)"
    using sweepInvD(6)[OF I s i] e by (simp add: processed_def)
  then show "occAt (hp_slab h s) i \<longleftrightarrow> occAt (hp_slab h0 s) i \<and> bmGet (sl_mark (hp_slab h0 s)) i"
    "\<not> bmGet (sl_mark (hp_slab h s)) i"
    by (auto simp: sweptAs_def occAt_def bmGet_bit rcWord_def bit_and_iff)
qed

lemma sweepInv_heads:
  assumes I: "sweepInv h0 h r"
  shows "sameHeads h0 h" "hOwn h p = hOwn h0 p" "slotOf (hp_slab h a) = slotOf (hp_slab h0 a)"
    "sl_region (hp_slab h a) = sl_region (hp_slab h0 a)" "registered h a = registered h0 a"
    "sl_nwords (hp_slab h a) = sl_nwords (hp_slab h0 a)" "slotAddr (hp_slab h a) = slotAddr (hp_slab h0 a)"
    "sl_tt (hp_slab h a) = sl_tt (hp_slab h0 a)" "slotWords (hp_slab h a) = slotWords (hp_slab h0 a)"
proof -
  have es: "eraseSweep (hp_slab h b) = eraseSweep (hp_slab h0 b)" for b using I unfolding sweepInv_def by blast
  have o: "hp_own h = hp_own h0" "hp_big h = hp_big h0" using I unfolding sweepInv_def by blast+
  show sh: "sameHeads h0 h" using o eraseSweep_fields(1)[OF es] by (simp add: sameHeads_def)
  show "hOwn h p = hOwn h0 p" by (rule sameHeads_hOwn[OF sh])
  note hd = headOf_eqD[OF eraseSweep_fields(1)[OF es]]
  show "slotOf (hp_slab h a) = slotOf (hp_slab h0 a)" "sl_region (hp_slab h a) = sl_region (hp_slab h0 a)"
    "sl_nwords (hp_slab h a) = sl_nwords (hp_slab h0 a)" "slotAddr (hp_slab h a) = slotAddr (hp_slab h0 a)"
    "slotWords (hp_slab h a) = slotWords (hp_slab h0 a)"
    using hd by auto
  show "registered h a = registered h0 a" by (simp add: registered_def o)
  show "sl_tt (hp_slab h a) = sl_tt (hp_slab h0 a)" by (rule eraseSweep_fields(2)[OF es])
qed

text \<open>All slabs of a region are on its chain.\<close>

definition regionFull :: "heap \<Rightarrow> addr \<Rightarrow> bool" where
  "regionFull h r \<longleftrightarrow> regionOk h r \<and> distinct (r_slabs (hp_reg h r)) \<and>
     (\<forall>s. registered h s \<and> sl_region (hp_slab h s) = r \<longrightarrow> s \<in> set (r_slabs (hp_reg h r)))"

lemma sweep_outcome:
  assumes I: "sweepInv h0 h r" and e: "r_swRest (hp_reg h r) = []" and wf0: "heapWf h0"
      and full: "regionFull h0 r" and p: "p < 2 ^ 64"
  shows "inReg h r p \<longleftrightarrow> inReg h0 r p \<and> marked h0 p"
    and "inReg h r p \<Longrightarrow> \<not> marked h p"
    and "inReg h r p \<Longrightarrow> objFields h p = objFields h0 p"
    and "k \<noteq> r \<Longrightarrow> inReg h k p = inReg h0 k p"
    and "k \<noteq> r \<Longrightarrow> inReg h k p \<Longrightarrow> objFields h p = objFields h0 p"
proof -
  note hd = sweepInv_heads[OF I]
  let ?s = "hOwn h0 p" and ?i = "slotOf (hp_slab h0 (hOwn h0 p)) p"
  have wf: "heapWf h" and m: "hp_mem h = hp_mem h0" "hp_desc h = hp_desc h0"
    and rsl: "r_slabs (hp_reg h r) = r_slabs (hp_reg h0 r)" by (rule sweepInvD[OF I])+
  have obj: "registered h0 ?s" "?i < sl_nslots (hp_slab h0 ?s)" "rcWord ?i < sl_nwords (hp_slab h ?s)"
    if "?s \<noteq> 0"
  proof -
    show a: "registered h0 ?s" "?i < sl_nslots (hp_slab h0 ?s)" using hOwn_obj[OF wf0 p refl that] by auto
    show "rcWord ?i < sl_nwords (hp_slab h ?s)" using slot_wf[OF wf0 a] by (simp add: hd)
  qed
  have ow: "owns h p \<longleftrightarrow> ?s \<noteq> 0 \<and> occAt (hp_slab h ?s) ?i" "owns h0 p \<longleftrightarrow> ?s \<noteq> 0 \<and> occAt (hp_slab h0 ?s) ?i"
    by (simp_all add: owns_def Let_def hd)
  have mem: "?s \<in> set (r_slabs (hp_reg h r))" if "?s \<noteq> 0" "sl_region (hp_slab h0 ?s) = r"
    using full obj(1)[OF that(1)] that(2) by (simp add: regionFull_def rsl)
  have notmem: "?s \<notin> set (r_slabs (hp_reg h r))" if "sl_region (hp_slab h0 ?s) \<noteq> r"
    using full that unfolding regionFull_def regionOk_def rsl by blast
  show ir: "inReg h r p \<longleftrightarrow> inReg h0 r p \<and> marked h0 p"
  proof (cases "?s \<noteq> 0 \<and> sl_region (hp_slab h0 ?s) = r")
    case True
    then have "occAt (hp_slab h ?s) ?i \<longleftrightarrow> occAt (hp_slab h0 ?s) ?i \<and> bmGet (sl_mark (hp_slab h0 ?s)) ?i"
      using sweepInv_occ(1)[OF I e wf0 mem obj(3)] by blast
    then show ?thesis using True by (simp add: inReg_def ow hd(2,4) marked_def p)
  qed (auto simp: inReg_def hd(2,4))
  show "\<not> marked h p" if "inReg h r p"
  proof -
    have "?s \<noteq> 0 \<and> sl_region (hp_slab h0 ?s) = r" using that by (simp add: inReg_def hd(2,4))
    then show ?thesis using sweepInv_occ(2)[OF I e wf0 mem obj(3)] by (simp add: marked_def hd(2,3))
  qed
  have fv: "objFields h p = objFields h0 p" if "sl_tid (hp_slab h ?s) ! ?i = sl_tid (hp_slab h0 ?s) ! ?i"
    using that by (simp add: objFields_def fieldVals_def fieldAddrs_def Let_def typeOf_def hd(2-) m ldPtr_def)
  show "objFields h p = objFields h0 p" if "inReg h r p"
  proof (rule fv)
    have "?s \<noteq> 0" "sl_region (hp_slab h0 ?s) = r" "occAt (hp_slab h ?s) ?i"
      using that by (simp_all add: inReg_def ow hd(2,4))
    then show "sl_tid (hp_slab h ?s) ! ?i = sl_tid (hp_slab h0 ?s) ! ?i"
      using sweepInvD(7)[OF I mem obj(3)] by simp
  qed
  have ot: "sl_occ (hp_slab h ?s) = sl_occ (hp_slab h0 ?s) \<and> sl_tid (hp_slab h ?s) = sl_tid (hp_slab h0 ?s)"
    if "sl_region (hp_slab h0 ?s) \<noteq> r"
    using sweepInvD(1)[OF I notmem[OF that]] by simp
  show "inReg h k p = inReg h0 k p" if "k \<noteq> r"
    using ot that by (cases "sl_region (hp_slab h0 ?s) = r") (simp_all add: inReg_def ow hd(2,4) occAt_def)
  show "objFields h p = objFields h0 p" if "k \<noteq> r" "inReg h k p"
    using ot that by (intro fv) (simp add: inReg_def hd(2,4))
qed

end
