(* ===== verification/Rc_Collect.thy ===== *)
theory Rc_Collect
  imports Rc_Sweep
begin

text \<open>
  The rounds of \<open>src/back/reclaim.c\<close>: the budgets of a step, the start and the end of a round, the
  settling, the contract entry \<open>extc_rc_collect\<close>, the pressure entry \<open>extc_rc_maybeCollect\<close>, the
  owed collection and the accessors. A call that aborts through \<open>extc_rc_oops\<close> is the value
  \<open>Inl Trap\<close>; a call whose drain loop does not end is \<open>Inl Hang\<close>; a dereference of the null
  pointer is \<open>Inl Fault\<close>.
\<close>

datatype rcErr = Trap | Hang | Fault

type_synonym 'a rc = "rcErr + 'a"

definition rcBind :: "'a rc \<Rightarrow> ('a \<Rightarrow> 'b rc) \<Rightarrow> 'b rc" where
  "rcBind m f = (case m of Inl e \<Rightarrow> Inl e | Inr x \<Rightarrow> f x)"

definition orHang :: "'a option \<Rightarrow> 'a rc" where
  "orHang m = (case m of None \<Rightarrow> Inl Hang | Some x \<Rightarrow> Inr x)"

lemma rcBind_simps [simp]: "rcBind (Inl e) f = Inl e" "rcBind (Inr x) f = f x"
  by (simp_all add: rcBind_def)

lemma orHang_simps [simp]: "orHang None = Inl Hang" "orHang (Some x) = Inr x"
  by (simp_all add: orHang_def)

lemma rcBind_Inr: "rcBind m f = Inr y \<longleftrightarrow> (\<exists>x. m = Inr x \<and> f x = Inr y)"
  by (cases m) auto

section \<open>Budgets and triggers\<close>

definition stepBudget :: "region \<Rightarrow> nat" where
  "stepBudget x = RC_MARK_STEP + (if r_wbDebt x > 64 then 64 else r_wbDebt x)"

definition advanceBudget :: "region \<Rightarrow> nat" where
  "advanceBudget x =
    (let debt = (if r_wbDebt x > RC_ASSIST_CAP then RC_ASSIST_CAP else r_wbDebt x);
         b = RC_MARK_EVERY * RC_MARK_STEP + debt;
         b2 = (if r_allocBytes x - r_markStart x > RC_MARK_WINDOW then b * 8 else b)
     in if b2 > RC_MARK_BATCH_MAX then RC_MARK_BATCH_MAX else b2)"

definition markAdvance :: "addr \<Rightarrow> heap \<Rightarrow> heap" where
  "markAdvance r h =
    (let h1 = updReg r (\<lambda>x. x\<lparr>r_markTick := r_markTick x - 1\<rparr>) h
     in if r_markTick (hp_reg h1 r) > 0 then h1
        else (let h2 = updReg r (\<lambda>x. x\<lparr>r_markTick := int RC_MARK_EVERY\<rparr>) h1;
                  h3 = fst (markStep r (advanceBudget (hp_reg h2 r)) h2)
              in updReg r (\<lambda>x. if r_seedsDone x \<and> r_stk x = [] \<and> r_scanObj x = 0
                               then x\<lparr>r_wbDebt := 0, r_markDone := True\<rparr> else x\<lparr>r_wbDebt := 0\<rparr>) h3))"

definition budgetOk :: "region \<Rightarrow> bool" where
  "budgetOk x = (let need = (if r_live x > r_floor x then r_live x else r_floor x)
                 in r_allocBytes x - r_visited x \<ge> need)"

definition roundOk :: "region \<Rightarrow> bool" where
  "roundOk x = (let need = (if r_live x > r_floor x then r_live x else r_floor x)
                in r_allocBytes x - r_roundVisited x \<ge> need)"

definition shouldSweep :: "region \<Rightarrow> bool" where
  "shouldSweep x = (if r_noSweep x then False else r_bytes x > r_thr x \<and> roundOk x)"

section \<open>Rounds\<close>

definition rcBegin :: "addr \<Rightarrow> addr list \<Rightarrow> heap \<Rightarrow> heap" where
  "rcBegin r roots h =
    (let h1 = updReg r (\<lambda>x. x\<lparr>r_marking := True, r_visited := r_allocBytes x,
                  r_roundVisited := r_allocBytes x, r_markedBytes := 0,
                  r_markTick := int RC_MARK_EVERY, r_markStart := r_allocBytes x\<rparr>) (shadeNextGen h)
     in markBegin r roots (h1\<lparr>hp_wb := hp_wb h1 + 1\<rparr>))"

definition rcFinish :: "addr \<Rightarrow> heap \<Rightarrow> heap rc" where
  "rcFinish r h =
    (if \<not> r_marking (hp_reg h r) \<or> markPending h r then Inr h
     else (let h1 = updReg r (\<lambda>x. (thrUpd (x\<lparr>r_marking := False,
                        r_live := (if r_markedBytes x > 0 then r_markedBytes x else r_live x)\<rparr>))
                      \<lparr>r_markDone := False\<rparr>) h;
               h2 = h1\<lparr>hp_wb := hp_wb h1 - 1\<rparr>;
               h3 = updReg r (\<lambda>x. x\<lparr>r_visited := r_allocBytes x, r_roundVisited := r_allocBytes x\<rparr>) h2
           in if hp_wb h1 < 1 then Inl Trap
              else Inr (fst (sweepStep r RC_SWEEP_BUDGET (sweepBegin r h3)))))"

definition sweepAll :: "addr \<Rightarrow> heap \<Rightarrow> (heap \<times> bool) option" where
  "sweepAll r h = while_option (\<lambda>(h, b). \<not> b) (\<lambda>(h, b). sweepStep r RC_UNBOUNDED h) (h, False)"

definition rcSettle :: "addr \<Rightarrow> heap \<Rightarrow> heap rc" where
  "rcSettle r h =
    (if r = 0 then Inr h
     else rcBind (if r_marking (hp_reg h r) \<and> \<not> r_noSweep (hp_reg h r)
                  then rcBind (orHang (drainLoop r RC_UNBOUNDED (h, 0))) (\<lambda>(h1, _). rcFinish r h1)
                  else Inr h)
       (\<lambda>h1. if \<not> r_sweeping (hp_reg h1 r) then Inr h1
             else if r_noSweep (hp_reg h1 r) then Inr (updReg r (\<lambda>x. x\<lparr>r_sweeping := False\<rparr>) h1)
             else rcBind (orHang (sweepAll r h1)) (\<lambda>(h2, _). Inr h2)))"

definition sweep :: "addr \<Rightarrow> heap \<Rightarrow> (heap \<times> nat) rc" where
  "sweep r h = rcBind (rcSettle r (sweepBegin r h)) (\<lambda>h1. Inr (h1, r_swFreed (hp_reg h1 r)))"

definition rcStep :: "addr \<Rightarrow> addr list \<Rightarrow> heap \<Rightarrow> (heap \<times> nat) rc" where
  "rcStep r roots h =
    (let h1 = (if \<not> r_marking (hp_reg h r) then rcBegin r roots h else h);
         h2 = fst (markStep r (stepBudget (hp_reg h1 r)) h1);
         h3 = updReg r (\<lambda>x. x\<lparr>r_wbDebt := 0\<rparr>) h2
     in rcBind (rcFinish r h3) (\<lambda>h4. Inr (h4, r_swFreed (hp_reg h4 r))))"

definition collect :: "addr \<Rightarrow> addr list \<Rightarrow> heap \<Rightarrow> (heap \<times> nat) rc" where
  "collect r roots h =
    rcBind (orHang (drainLoop r RC_UNBOUNDED (if \<not> r_marking (hp_reg h r) then rcBegin r roots h else h, 0)))
      (\<lambda>(h1, _). rcBind (rcFinish r (updReg r (\<lambda>x. x\<lparr>r_wbDebt := 0\<rparr>) h1))
        (\<lambda>h2. rcBind (rcSettle r h2) (\<lambda>h3. Inr (h3, r_swFreed (hp_reg h3 r)))))"

definition maybeCollect :: "addr \<Rightarrow> addr list \<Rightarrow> heap \<Rightarrow> (heap \<times> int) rc" where
  "maybeCollect r roots h =
    (let h1 = (if r_marking (hp_reg h r) \<and> markPending h r then markAdvance r h else h); x = hp_reg h1 r
     in if r_marking x \<and> markPending h1 r then Inr (h1, 0)
        else if r_sweeping x then
          (if r_noSweep x then Inr (updReg r (\<lambda>x. x\<lparr>r_sweeping := False\<rparr>) h1, -1)
           else (let (h2, b) = sweepStep r RC_SWEEP_BUDGET h1 in Inr (h2, if b then 1 else 0)))
        else if \<not> r_marking x \<and> (\<not> shouldSweep x \<or> \<not> roundOk x) then Inr (h1, -1)
        else rcBind (rcStep r roots h1) (\<lambda>(h2, n). Inr (h2, int n)))"

definition owe :: "addr \<Rightarrow> heap \<Rightarrow> heap" where
  "owe r = updReg r (\<lambda>x. x\<lparr>r_owe := True\<rparr>)"

definition checkOwed :: "addr \<Rightarrow> addr list \<Rightarrow> heap \<Rightarrow> (heap \<times> int) rc" where
  "checkOwed r roots h =
    (let x = hp_reg h r in
     if r_sweeping x then
       (if r_noSweep x then Inr (updReg r (\<lambda>x. x\<lparr>r_sweeping := False\<rparr>) h, -1)
        else (let (h2, b) = sweepStep r RC_SWEEP_BUDGET h in Inr (h2, if b then 1 else 0)))
     else if \<not> r_owe x then Inr (h, -1)
     else if r_noSweep x then Inr (updReg r (\<lambda>x. x\<lparr>r_owe := False\<rparr>) h, -1)
     else if r_marking x then Inr (markAdvance r (updReg r (\<lambda>x. x\<lparr>r_owe := False\<rparr>) h), 0)
     else if r_roundVisited x \<noteq> 0 \<and> \<not> roundOk x then Inr (h, -1)
     else rcBind (rcStep r roots (updReg r (\<lambda>x. x\<lparr>r_owe := False\<rparr>) h)) (\<lambda>(h2, n). Inr (h2, int n)))"

text \<open>The accessors settle the region before they read it; the hint does not.\<close>

definition rcQuery :: "(region \<Rightarrow> 'a) \<Rightarrow> addr \<Rightarrow> heap \<Rightarrow> (heap \<times> 'a) rc" where
  "rcQuery f r h = rcBind (rcSettle r h) (\<lambda>h1. Inr (h1, f (hp_reg h1 r)))"

definition rcBytes :: "addr \<Rightarrow> heap \<Rightarrow> (heap \<times> int) rc" where "rcBytes = rcQuery r_bytes"
definition rcLive :: "addr \<Rightarrow> heap \<Rightarrow> (heap \<times> int) rc" where "rcLive = rcQuery r_live"
definition rcScale :: "addr \<Rightarrow> heap \<Rightarrow> (heap \<times> int) rc" where "rcScale = rcQuery r_scale"
definition rcSweeps :: "addr \<Rightarrow> heap \<Rightarrow> (heap \<times> nat) rc" where "rcSweeps = rcQuery r_sweeps"
definition rcFreedSlots :: "addr \<Rightarrow> heap \<Rightarrow> (heap \<times> nat) rc" where "rcFreedSlots = rcQuery r_freed"

definition garbageHint :: "addr \<Rightarrow> heap \<Rightarrow> int" where
  "garbageHint r h = r_bytes (hp_reg h r) - r_live (hp_reg h r)"

definition slabCount :: "addr \<Rightarrow> heap \<Rightarrow> nat" where
  "slabCount r h = length (r_slabs (hp_reg h r))"

end
