(* ===== verification/Rc_CollectSafe.thy ===== *)
theory Rc_CollectSafe
  imports Rc_Collect
begin

text \<open>
  What a whole round does: after \<open>extc_rc_collect\<close> the objects of the region are exactly the ones
  reachable from the roots, the pins and the registered slots at its start; their fields, their
  descriptors and every other region are untouched; the marks are clear again; and the accounts
  agree with the bitmaps.
\<close>

section \<open>Heaps that agree on what the objects are\<close>

definition coreEq :: "addr \<Rightarrow> heap \<Rightarrow> heap \<Rightarrow> bool" where
  "coreEq r h h' \<longleftrightarrow> hp_mem h' = hp_mem h \<and> hp_desc h' = hp_desc h \<and> hp_slab h' = hp_slab h \<and>
     hp_own h' = hp_own h \<and> hp_big h' = hp_big h \<and> hp_pins h' = hp_pins h \<and> hp_pinN h' = hp_pinN h \<and>
     r_slabs (hp_reg h' r) = r_slabs (hp_reg h r) \<and> r_seedAny (hp_reg h' r) = r_seedAny (hp_reg h r)"

lemma coreEq_refl [simp]: "coreEq r h h"
  by (simp add: coreEq_def)

lemma coreEq_trans: "coreEq r a b \<Longrightarrow> coreEq r b c \<Longrightarrow> coreEq r a c"
  by (simp add: coreEq_def)

lemma coreEq_simps:
  assumes "coreEq r h h'"
  shows "heapWf h' = heapWf h" "hOwn h' p = hOwn h p" "owns h' p = owns h p" "inReg h' k p = inReg h k p"
    "marked h' p = marked h p" "objFields h' p = objFields h p" "regionOk h' r = regionOk h r"
    "regionFull h' r = regionFull h r" "seeds h' r = seeds h r" "pinned h' k = pinned h k"
    "evenFields h' k = evenFields h k" "shortObjs h' k = shortObjs h k" "registered h' a = registered h a"
    "liveSlots h' r = liveSlots h r" "liveBytes h' r = liveBytes h r"
proof -
  have e: "hp_mem h' = hp_mem h" "hp_desc h' = hp_desc h" "hp_slab h' = hp_slab h" "hp_own h' = hp_own h"
    "hp_big h' = hp_big h" "hp_pins h' = hp_pins h" "r_slabs (hp_reg h' r) = r_slabs (hp_reg h r)"
    using assms by (auto simp: coreEq_def)
  show "heapWf h' = heapWf h" unfolding heapWf_def e ..
  show o: "hOwn h' p = hOwn h p" for p by (simp add: hOwn_def e)
  show w: "owns h' p = owns h p" for p by (simp add: owns_def o e)
  show i: "inReg h' k p = inReg h k p" for k p by (simp add: inReg_def o w e)
  show "marked h' p = marked h p" by (simp add: marked_def o e)
  show f: "objFields h' p = objFields h p" for p
    by (simp add: objFields_def fieldVals_def fieldAddrs_def Let_def o e ldPtr_def)
  show g: "registered h' a = registered h a" for a by (simp add: registered_def e)
  show k: "regionOk h' r = regionOk h r" by (simp add: regionOk_def g e)
  show "regionFull h' r = regionFull h r" by (simp add: regionFull_def k g e)
  show "seeds h' r = seeds h r" by (simp add: seeds_def seedAt_def e)
  show "pinned h' k = pinned h k" by (simp add: pinned_def e)
  show "evenFields h' k = evenFields h k" by (simp add: evenFields_def i f)
  show "shortObjs h' k = shortObjs h k" by (simp add: shortObjs_def i o e)
  show "liveSlots h' r = liveSlots h r" "liveBytes h' r = liveBytes h r"
    by (simp_all add: liveSlots_def liveBytes_def e)
qed

lemma coreEq_reach:
  assumes "coreEq r h h'"
  shows "reach h' k B p = reach h k B p"
proof -
  note e = coreEq_simps[OF assms]
  have "reach h' k B p" if "reach h k B p"
    using that by (induction rule: reach.induct) (auto intro: reach.intros simp: e)
  moreover have "reach h k B p" if "reach h' k B p"
    using that by (induction rule: reach.induct) (auto intro: reach.intros simp: e)
  ultimately show ?thesis by blast
qed

lemma coreEq_ready: "coreEq r h h' \<Longrightarrow> roundReady h' r = roundReady h r"
  using coreEq_simps[of r h h'] by (simp add: roundReady_def) (simp add: coreEq_def)

lemma coreEq_base: "coreEq r h h' \<Longrightarrow> baseSet h' r roots = baseSet h r roots"
  by (simp add: baseSet_def coreEq_simps)

lemma coreEq_updReg:
  assumes "\<And>x. r_slabs (f x) = r_slabs x" "\<And>x. r_seedAny (f x) = r_seedAny x"
  shows "coreEq r h (updReg k f h)"
  using assms by (simp add: coreEq_def)

lemma coreEq_shade: "coreEq r h (shadeNextGen h)"
  by (simp add: coreEq_def shadeNextGen_def Let_def)

lemma coreEq_wb: "coreEq r h (h\<lparr>hp_wb := n\<rparr>)"
  by (simp add: coreEq_def)

lemma thrUpd_fields [simp]:
  "r_slabs (thrUpd x) = r_slabs x" "r_seedAny (thrUpd x) = r_seedAny x" "r_bytes (thrUpd x) = r_bytes x"
  "r_freed (thrUpd x) = r_freed x" "r_swFreed (thrUpd x) = r_swFreed x" "r_swRest (thrUpd x) = r_swRest x"
  "r_swWord (thrUpd x) = r_swWord x" "r_marking (thrUpd x) = r_marking x" "r_noSweep (thrUpd x) = r_noSweep x"
  "r_sweeping (thrUpd x) = r_sweeping x" "r_live (thrUpd x) = r_live x" "r_scale (thrUpd x) = r_scale x"
  "r_floor (thrUpd x) = r_floor x" "r_sweeps (thrUpd x) = r_sweeps x" "r_swId (thrUpd x) = r_swId x"
  by (simp_all add: thrUpd_def Let_def)

lemma endRound_fields [simp]:
  "r_slabs (endRound x) = r_slabs x" "r_seedAny (endRound x) = r_seedAny x" "r_bytes (endRound x) = r_bytes x"
  "r_freed (endRound x) = r_freed x" "r_swFreed (endRound x) = r_swFreed x" "r_live (endRound x) = r_live x"
  "r_marking (endRound x) = r_marking x" "r_noSweep (endRound x) = r_noSweep x" "\<not> r_sweeping (endRound x)"
  by (simp_all add: endRound_def Let_def)

section \<open>The sweep from its start to its end\<close>

lemma sweepKept_begin:
  assumes wf: "heapWf h" and full: "regionFull h r"
      and st: "r_swRest (hp_reg h r) = r_slabs (hp_reg h r)" "r_swWord (hp_reg h r) = 0"
  shows "sweepKept h h r"
proof -
  have ro: "regionOk h r" "distinct (r_slabs (hp_reg h r))" using full by (simp_all add: regionFull_def)
  have nw: "0 < sl_nwords (hp_slab h s)" if "s \<in> set (r_slabs (hp_reg h r))" for s
  proof -
    have rs: "registered h s" using ro that by (simp add: regionOk_def)
    have "0 < sl_nslots (hp_slab h s)" using registered_wf(1)[OF wf rs] by (simp add: geomOk_def)
    then show ?thesis using slot_wf[OF wf rs] by (metis not_less_zero neq0_conv)
  qed
  have "\<not> processed h r s w" if "s \<in> set (r_slabs (hp_reg h r))" for s w
    using that by (simp add: processed_def st)
  then have "sweepInv h h r"
    using wf ro nw by (auto simp: sweepInv_def st sweptAs_def)
  then show ?thesis by (simp add: sweepKept_def)
qed

definition sweepDone :: "heap \<Rightarrow> heap \<Rightarrow> addr \<Rightarrow> bool" where
  "sweepDone h0 h r \<longleftrightarrow> (\<exists>g. sweepKept h0 g r \<and> r_swRest (hp_reg g r) = [] \<and> h = updReg r endRound g)"

lemma sweepStep_kept:
  assumes k: "sweepKept h0 h r" and sw: "r_sweeping (hp_reg h0 r)" and st: "sweepStep r b h = (h', fin)" and b: "b > 0"
  shows "if fin then sweepDone h0 h' r else sweepKept h0 h' r \<and> swLeft h' r < swLeft h r"
proof -
  define g where "g = sweepLoop r b h"
  note L = sweepLoop_kept[OF k, of b, folded g_def]
  have sh: "r_sweeping (hp_reg h r)" using k sw by (simp add: sweepKept_def)
  show ?thesis
  proof (cases "r_swRest (hp_reg g r) = []")
    case True
    then have "h' = updReg r endRound g" "fin" using st sh by (simp_all add: sweepStep_def g_def Let_def)
    then show ?thesis using L True by (auto simp: sweepDone_def)
  next
    case False
    then have e: "h' = g" "\<not> fin" using st sh by (simp_all add: sweepStep_def g_def Let_def)
    have "r_swRest (hp_reg h r) \<noteq> []" using False sweepLoop_stop[of b h r] by (auto simp: g_def)
    then show ?thesis using L e b by simp
  qed
qed

lemma sweepAll_ends:
  assumes k: "sweepKept h0 h r" and sw: "r_sweeping (hp_reg h0 r)"
  shows "\<exists>h'. sweepAll r h = Some (h', True) \<and> sweepDone h0 h' r"
proof -
  let ?P = "\<lambda>(g, b). if b then sweepDone h0 g r else sweepKept h0 g r"
  let ?c = "\<lambda>(h, b). sweepStep r RC_UNBOUNDED h" and ?b = "\<lambda>(h, b). \<not> b"
  let ?m = "\<lambda>(g, b). if b then 0 else Suc (swLeft g r)"
  have ub: "RC_UNBOUNDED > 0" by (simp add: RC_UNBOUNDED_def)
  have step: "?P (?c s) \<and> ?m (?c s) < ?m s" if P: "?P s" and nb: "?b s" for s
  proof -
    obtain g where s: "s = (g, False)" using nb by (cases s) auto
    obtain g' fin where st: "sweepStep r RC_UNBOUNDED g = (g', fin)" by fastforce
    have "if fin then sweepDone h0 g' r else sweepKept h0 g' r \<and> swLeft g' r < swLeft g r"
      using sweepStep_kept[OF _ sw st ub] P s by simp
    then show ?thesis using s st by (auto split: if_splits)
  qed
  have "\<exists>t. while_option ?b ?c (h, False) = Some t"
    by (rule measure_while_option_Some[where P = ?P and f = ?m]) (use step k in auto)
  then obtain t where t: "while_option ?b ?c (h, False) = Some t" by blast
  have "?P t" by (rule while_option_rule[where P = ?P, OF _ t]) (use step k in auto)
  moreover have "\<not> ?b t" by (rule while_option_stop[OF t])
  ultimately show ?thesis using t by (cases t) (auto simp: sweepAll_def)
qed

text \<open>What the end of a sweep leaves, in terms of its start.\<close>

lemma sweepDone_core:
  assumes "sweepDone h0 h r"
  obtains g where "sweepKept h0 g r" "r_swRest (hp_reg g r) = []" "coreEq r g h" "hp_reg h r = endRound (hp_reg g r)"
    "\<And>k. k \<noteq> r \<Longrightarrow> hp_reg h k = hp_reg g k" "hp_wb h = hp_wb g"
proof -
  obtain g where g: "sweepKept h0 g r" "r_swRest (hp_reg g r) = []" "h = updReg r endRound g"
    using assms by (auto simp: sweepDone_def)
  show ?thesis by (rule that[of g]) (use g in \<open>simp_all add: coreEq_updReg\<close>)
qed

lemma sweepDone_outcome:
  assumes d: "sweepDone h0 h r" and wf0: "heapWf h0" and full: "regionFull h0 r" and p: "p < 2 ^ 64"
  shows "inReg h r p \<longleftrightarrow> inReg h0 r p \<and> marked h0 p"
    and "inReg h r p \<Longrightarrow> \<not> marked h p"
    and "inReg h r p \<Longrightarrow> objFields h p = objFields h0 p"
    and "k \<noteq> r \<Longrightarrow> inReg h k p = inReg h0 k p"
    and "k \<noteq> r \<Longrightarrow> inReg h k p \<Longrightarrow> objFields h p = objFields h0 p"
proof -
  obtain g where g: "sweepKept h0 g r" "r_swRest (hp_reg g r) = []" "coreEq r g h"
    using sweepDone_core[OF d] by metis
  have I: "sweepInv h0 g r" using g(1) by (simp add: sweepKept_def)
  note S = sweep_outcome[OF I g(2) wf0 full p] and e = coreEq_simps[OF g(3)]
  show "inReg h r p \<longleftrightarrow> inReg h0 r p \<and> marked h0 p" "inReg h r p \<Longrightarrow> \<not> marked h p"
    "inReg h r p \<Longrightarrow> objFields h p = objFields h0 p" "k \<noteq> r \<Longrightarrow> inReg h k p = inReg h0 k p"
    "k \<noteq> r \<Longrightarrow> inReg h k p \<Longrightarrow> objFields h p = objFields h0 p"
    using S unfolding e by blast+
qed

lemma sweepDone_ready:
  assumes d: "sweepDone h0 h r" and wf0: "heapWf h0" and full: "regionFull h0 r"
      and seed: "\<not> r_seedAny (hp_reg h0 r) \<longrightarrow> seeds h0 r = {}"
      and pin: "hp_pinN h0 = 0 \<longrightarrow> pinned h0 r = []" "\<forall>v\<in>set (pinned h0 r). v < 2 ^ 64"
  shows "roundReady h r \<and> regionFull h r"
proof -
  obtain g where g: "sweepKept h0 g r" "r_swRest (hp_reg g r) = []" "coreEq r g h"
    using sweepDone_core[OF d] by metis
  have I: "sweepInv h0 g r" and sa: "r_seedAny (hp_reg g r) = r_seedAny (hp_reg h0 r)"
    using g(1) by (simp_all add: sweepKept_def)
  note e = coreEq_simps[OF g(3)] and hd = sweepInv_heads[OF I] and D = sweepInvD[OF I]
  have ro: "regionOk g r" using I unfolding sweepInv_def by (elim conjE)
  have nm: "\<not> marked h p" if "inReg h r p" for p
    using sweepDone_outcome(2)[OF d wf0 full] that by (simp add: inReg_def)
  have "seeds g r \<subseteq> seeds h0 r"
  proof
    fix a assume "a \<in> seeds g r"
    then obtain s i where a: "a = slotAddr (hp_slab g s) i" "s \<in> set (r_slabs (hp_reg g r))" "seedAt g s i"
      by (auto simp: seeds_def)
    have rs: "registered g s" using ro a(2) by (simp add: regionOk_def)
    have "i < sl_nslots (hp_slab g s)" using a(3) by (simp add: seedAt_def)
    then have "rcWord i < sl_nwords (hp_slab g s)" by (rule slot_wf[OF D(2) rs])
    then have "occAt (hp_slab h0 s) i" "bmGet (sl_rsbit (hp_slab h0 s)) i"
      using sweepInv_occ(1)[OF I g(2) wf0 a(2)] D(8)[OF a(2)] a(3) by (auto simp: seedAt_def)
    moreover have "sl_nslots (hp_slab g s) = sl_nslots (hp_slab h0 s)"
      using hd(1) headOf_eqD(6) unfolding sameHeads_def by blast
    ultimately have "seedAt h0 s i" using a(3) by (simp add: seedAt_def)
    then show "a \<in> seeds h0 r" using a(1,2) D(5) by (auto simp: seeds_def hd)
  qed
  then have "\<not> r_seedAny (hp_reg h r) \<longrightarrow> seeds h r = {}"
    using seed sa g(3) by (auto simp: e coreEq_def)
  moreover have "pinned h r = pinned h0 r" "hp_pinN h = hp_pinN h0"
    using I g(3) unfolding sweepInv_def by (auto simp: pinned_def coreEq_def)
  ultimately have "roundReady h r"
    using nm pin ro D(2) by (simp add: roundReady_def e)
  moreover have "regionFull h r"
    unfolding e(8) using full ro by (simp add: regionFull_def D(5) hd)
  ultimately show ?thesis by simp
qed

section \<open>Finishing and settling\<close>

lemma rcFinish_run:
  assumes wf: "heapWf h" and full: "regionFull h r" and m: "r_marking (hp_reg h r)" "\<not> markPending h r"
      and wb: "hp_wb h \<ge> 1"
  shows "\<exists>g h'. rcFinish r h = Inr h' \<and> coreEq r h g \<and> (sweepDone g h' r \<or> sweepKept g h' r) \<and>
    r_sweeping (hp_reg g r) \<and> \<not> r_marking (hp_reg g r) \<and> hp_wb g = hp_wb h - 1 \<and>
    r_noSweep (hp_reg g r) = r_noSweep (hp_reg h r) \<and> r_swFreed (hp_reg g r) = 0 \<and>
    r_bytes (hp_reg g r) = r_bytes (hp_reg h r) \<and> r_freed (hp_reg g r) = r_freed (hp_reg h r) \<and>
    r_live (hp_reg g r) = (if r_markedBytes (hp_reg h r) > 0 then r_markedBytes (hp_reg h r) else r_live (hp_reg h r)) \<and>
    (\<forall>k. k \<noteq> r \<longrightarrow> hp_reg g k = hp_reg h k)"
proof -
  define h1 where "h1 = updReg r (\<lambda>x. (thrUpd (x\<lparr>r_marking := False,
      r_live := (if r_markedBytes x > 0 then r_markedBytes x else r_live x)\<rparr>))\<lparr>r_markDone := False\<rparr>) h"
  define h2 where "h2 = h1\<lparr>hp_wb := hp_wb h1 - 1\<rparr>"
  define h3 where "h3 = updReg r (\<lambda>x. x\<lparr>r_visited := r_allocBytes x, r_roundVisited := r_allocBytes x\<rparr>) h2"
  define g where "g = sweepBegin r h3"
  have w1: "hp_wb h1 = hp_wb h" by (simp add: h1_def)
  obtain h' fin where st: "sweepStep r RC_SWEEP_BUDGET g = (h', fin)" by fastforce
  have e: "rcFinish r h = Inr h'"
    using m wb w1 st unfolding rcFinish_def Let_def h1_def[symmetric] h2_def[symmetric] h3_def[symmetric] g_def[symmetric]
    by simp
  have c: "coreEq r h g"
    unfolding g_def sweepBegin_def h3_def h2_def h1_def
    by (intro coreEq_trans[OF coreEq_trans[OF coreEq_trans[OF coreEq_trans[OF coreEq_updReg coreEq_wb] coreEq_updReg]
      coreEq_shade] coreEq_updReg]) simp_all
  note cs = coreEq_simps[OF c]
  have rest: "r_swRest (hp_reg g r) = r_slabs (hp_reg g r)" "r_swWord (hp_reg g r) = 0" "r_sweeping (hp_reg g r)"
    "r_swFreed (hp_reg g r) = 0"
    by (simp_all add: g_def sweepBegin_def)
  have k: "sweepKept g g r" by (rule sweepKept_begin) (use wf full rest cs in simp_all)
  have "0 < RC_SWEEP_BUDGET" by (simp add: RC_SWEEP_BUDGET_def)
  then have "sweepDone g h' r \<or> sweepKept g h' r"
    using sweepStep_kept[OF k rest(3) st] by (cases fin) auto
  moreover have "\<not> r_marking (hp_reg g r)" "hp_wb g = hp_wb h - 1" "r_noSweep (hp_reg g r) = r_noSweep (hp_reg h r)"
    "r_bytes (hp_reg g r) = r_bytes (hp_reg h r)" "r_freed (hp_reg g r) = r_freed (hp_reg h r)"
    "r_live (hp_reg g r) = (if r_markedBytes (hp_reg h r) > 0 then r_markedBytes (hp_reg h r) else r_live (hp_reg h r))"
    "\<forall>k. k \<noteq> r \<longrightarrow> hp_reg g k = hp_reg h k"
    by (simp_all add: g_def sweepBegin_def shadeNextGen_def Let_def h3_def h2_def h1_def)
  ultimately show ?thesis using e c rest by blast
qed

lemma rcSettle_run:
  assumes d: "sweepDone g h r \<or> sweepKept g h r" and s: "r_sweeping (hp_reg g r)"
      and m: "\<not> r_marking (hp_reg g r)" "\<not> r_noSweep (hp_reg g r)"
  shows "\<exists>h'. rcSettle r h = Inr h' \<and> (r \<noteq> 0 \<longrightarrow> sweepDone g h' r)"
proof (cases "sweepDone g h r")
  case True
  obtain f where f: "sweepKept g f r" "hp_reg h r = endRound (hp_reg f r)" using sweepDone_core[OF True] by metis
  then have "\<not> r_marking (hp_reg h r)" "\<not> r_sweeping (hp_reg h r)" using m by (simp_all add: sweepKept_def)
  then have "rcSettle r h = Inr h" by (simp add: rcSettle_def)
  then show ?thesis using True by blast
next
  case False
  then have k: "sweepKept g h r" using d by blast
  then have x: "\<not> r_marking (hp_reg h r)" "r_sweeping (hp_reg h r)" "\<not> r_noSweep (hp_reg h r)"
    using m s by (simp_all add: sweepKept_def)
  obtain h' where h': "sweepAll r h = Some (h', True)" "sweepDone g h' r" using sweepAll_ends[OF k s] by blast
  show ?thesis using x h' by (cases "r = 0") (simp_all add: rcSettle_def)
qed

section \<open>A whole round\<close>

text \<open>What a region has to satisfy to be collected.\<close>

definition collectable :: "heap \<Rightarrow> addr \<Rightarrow> bool" where
  "collectable h r \<longleftrightarrow> r \<noteq> 0 \<and> roundReady h r \<and> regionFull h r \<and> evenFields h r \<and> shortObjs h r \<and>
     \<not> r_marking (hp_reg h r) \<and> \<not> r_sweeping (hp_reg h r) \<and> \<not> r_noSweep (hp_reg h r) \<and> hp_wb h \<ge> 0"

text \<open>The objects of a region.\<close>

definition objects :: "heap \<Rightarrow> addr \<Rightarrow> addr set" where
  "objects h r = {p. inReg h r p}"

lemma markFrame_liveSlots:
  assumes f: "markFrame r h h'"
  shows "liveSlots h' r = liveSlots h r" "liveBytes h' r = liveBytes h r"
  unfolding liveSlots_def liveBytes_def occCount_def markFrame_slabs[OF f] markFrame_slabFields(1)[OF f]
    headOf_eqD(4)[OF markFrame_slabFields(6)[OF f]] by simp_all

lemma markFrame_full: "markFrame r h h' \<Longrightarrow> regionFull h' r = regionFull h r"
  by (simp add: regionFull_def markFrame_regionOk markFrame_slabs markFrame_registered markFrame_region)

text \<open>The second half of a round, from a drained marking \<open>b\<close> of a region in flight.\<close>

lemma finish_settle:
  assumes wf: "heapWf b" and full: "regionFull b r" and m: "r_marking (hp_reg b r)" "\<not> markPending b r"
    and wb: "hp_wb b \<ge> 1" and ns: "\<not> r_noSweep (hp_reg b r)" and r0: "r \<noteq> 0"
  shows "\<exists>g h'. rcBind (rcFinish r (updReg r (\<lambda>x. x\<lparr>r_wbDebt := 0\<rparr>) b)) (\<lambda>h2. rcSettle r h2) = Inr h' \<and>
    coreEq r b g \<and> sweepDone g h' r \<and> hp_wb g = hp_wb b - 1 \<and> \<not> r_marking (hp_reg g r) \<and>
    \<not> r_noSweep (hp_reg g r) \<and> r_swFreed (hp_reg g r) = 0 \<and> r_bytes (hp_reg g r) = r_bytes (hp_reg b r)"
proof -
  define d where "d = updReg r (\<lambda>x. x\<lparr>r_wbDebt := 0\<rparr>) b"
  have cd: "coreEq r b d" unfolding d_def by (rule coreEq_updReg) simp_all
  have fd: "r_marking (hp_reg d r)" "\<not> markPending d r" "hp_wb d = hp_wb b"
    "r_noSweep (hp_reg d r) = r_noSweep (hp_reg b r)" "r_bytes (hp_reg d r) = r_bytes (hp_reg b r)"
    using m by (simp_all add: d_def markPending_def)
  have wfd: "heapWf d" and fulld: "regionFull d r" using wf full by (simp_all add: coreEq_simps[OF cd])
  have wb1: "hp_wb d \<ge> 1" using fd(3) wb by simp
  obtain g e where fin: "rcFinish r d = Inr e" "coreEq r d g" "sweepDone g e r \<or> sweepKept g e r"
    "r_sweeping (hp_reg g r)" "\<not> r_marking (hp_reg g r)" "hp_wb g = hp_wb d - 1"
    "r_noSweep (hp_reg g r) = r_noSweep (hp_reg d r)" "r_swFreed (hp_reg g r) = 0"
    "r_bytes (hp_reg g r) = r_bytes (hp_reg d r)"
    using rcFinish_run[OF wfd fulld fd(1,2) wb1] by blast
  have nsw: "\<not> r_noSweep (hp_reg g r)" using fin(7) fd(4) ns by simp
  obtain h' where h': "rcSettle r e = Inr h'" "sweepDone g h' r"
    using rcSettle_run[OF fin(3-5) nsw] r0 by blast
  show ?thesis
    using fin(1,5,6,8,9) h' nsw fd(3,5) coreEq_trans[OF cd fin(2)] unfolding d_def
    by (intro exI[of _ g] exI[of _ h']) simp
qed

lemma finish_objects:
  assumes wf: "heapWf b" and full: "regionFull b r" and cg: "coreEq r b g" and sd: "sweepDone g h' r"
  shows "objects h' r = {p \<in> objects b r. marked b p} \<and> (\<forall>p\<in>objects h' r. objFields h' p = objFields b p) \<and>
    (\<forall>k. k \<noteq> r \<longrightarrow> objects h' k = objects b k \<and> (\<forall>p\<in>objects b k. objFields h' p = objFields b p))"
proof -
  note cgs = coreEq_simps[OF cg]
  have wfg: "heapWf g" and fullg: "regionFull g r" using wf full by (simp_all add: cgs)
  note out = sweepDone_outcome[OF sd wfg fullg]
  have p64: "inReg k' q p \<Longrightarrow> p < 2 ^ 64" for k' q p by (simp add: inReg_def)
  have obr: "inReg h' r p \<longleftrightarrow> inReg b r p \<and> marked b p" for p
    using out(1)[of p] p64 unfolding cgs by blast
  have obk: "inReg h' k p = inReg b k p" if "k \<noteq> r" for k p
    using out(4)[of p k] that p64 unfolding cgs by blast
  have of1: "objFields h' p = objFields b p" if "inReg h' k p" for k p
    using out(3)[of p] out(5)[of p k] that p64 unfolding cgs by (cases "k = r") blast+
  show ?thesis unfolding objects_def using obr of1 obk by blast
qed

lemma collect_tail:
  assumes wf: "heapWf b" and full: "regionFull b r" and m: "r_marking (hp_reg b r)" "\<not> markPending b r"
      and wb: "hp_wb b \<ge> 1" and ns: "\<not> r_noSweep (hp_reg b r)" and r0: "r \<noteq> 0"
      and seed: "\<not> r_seedAny (hp_reg b r) \<longrightarrow> seeds b r = {}"
      and pin: "hp_pinN b = 0 \<longrightarrow> pinned b r = []" "\<forall>v\<in>set (pinned b r). v < 2 ^ 64"
  shows "\<exists>h'. rcBind (rcFinish r (updReg r (\<lambda>x. x\<lparr>r_wbDebt := 0\<rparr>) b)) (\<lambda>h2. rcSettle r h2) = Inr h' \<and>
    objects h' r = {p \<in> objects b r. marked b p} \<and> roundReady h' r \<and> regionFull h' r \<and>
    (\<forall>p\<in>objects h' r. objFields h' p = objFields b p) \<and>
    (\<forall>k. k \<noteq> r \<longrightarrow> objects h' k = objects b k \<and> (\<forall>p\<in>objects b k. objFields h' p = objFields b p)) \<and>
    (\<forall>p. hOwn h' p = hOwn b p \<and> slotWords (hp_slab h' p) = slotWords (hp_slab b p)) \<and>
    hp_wb h' = hp_wb b - 1 \<and> \<not> r_marking (hp_reg h' r) \<and> \<not> r_sweeping (hp_reg h' r) \<and> \<not> r_noSweep (hp_reg h' r) \<and>
    int (r_swFreed (hp_reg h' r)) = liveSlots b r - liveSlots h' r \<and>
    r_bytes (hp_reg h' r) - liveBytes h' r = r_bytes (hp_reg b r) - liveBytes b r"
proof -
  obtain g h' where e: "rcBind (rcFinish r (updReg r (\<lambda>x. x\<lparr>r_wbDebt := 0\<rparr>) b)) (\<lambda>h2. rcSettle r h2) = Inr h'"
    and cg: "coreEq r b g" and sd': "sweepDone g h' r" and wbg: "hp_wb g = hp_wb b - 1"
    and gm: "\<not> r_marking (hp_reg g r)" and nsw: "\<not> r_noSweep (hp_reg g r)"
    and g0: "r_swFreed (hp_reg g r) = 0" "r_bytes (hp_reg g r) = r_bytes (hp_reg b r)"
    using finish_settle[OF wf full m wb ns r0] by blast
  note cgs = coreEq_simps[OF cg]
  have wfg: "heapWf g" and fullg: "regionFull g r" using wf full by (simp_all add: cgs)
  have sd: "\<not> r_seedAny (hp_reg g r) \<longrightarrow> seeds g r = {}"
    "hp_pinN g = 0 \<longrightarrow> pinned g r = []" "\<forall>v\<in>set (pinned g r). v < 2 ^ 64"
    using seed pin cg by (simp_all add: cgs coreEq_def)
  have rdy: "roundReady h' r \<and> regionFull h' r" by (rule sweepDone_ready[OF sd' wfg fullg sd])
  obtain q where q: "sweepKept g q r" "coreEq r q h'" "hp_reg h' r = endRound (hp_reg q r)" "hp_wb h' = hp_wb q"
    using sweepDone_core[OF sd'] by metis
  have I: "sweepInv g q r" using q(1) by (simp add: sweepKept_def)
  have wbq: "hp_wb q = hp_wb g" using I unfolding sweepInv_def by (elim conjE)
  have ls: "liveSlots h' r = liveSlots q r" "liveBytes h' r = liveBytes q r"
    "liveSlots g r = liveSlots b r" "liveBytes g r = liveBytes b r"
    using coreEq_simps(14,15)[OF q(2)] by (simp_all add: cgs)
  have n: "int (r_swFreed (hp_reg h' r)) = liveSlots b r - liveSlots h' r"
    "r_bytes (hp_reg h' r) - liveBytes h' r = r_bytes (hp_reg b r) - liveBytes b r"
    using q(1) g0 ls by (simp_all add: sweepKept_def q(3))
  have "hp_slab h' = hp_slab q" "hp_slab g = hp_slab b" using q(2) cg by (simp_all add: coreEq_def)
  then have hd: "hOwn h' p = hOwn b p \<and> slotWords (hp_slab h' p) = slotWords (hp_slab b p)" for p
    using coreEq_simps(2)[OF q(2)] by (simp add: sweepInv_heads(2,9)[OF I] cgs)
  have fl: "\<not> r_marking (hp_reg h' r)" "\<not> r_sweeping (hp_reg h' r)" "\<not> r_noSweep (hp_reg h' r)"
    using q(1,3) gm nsw by (simp_all add: sweepKept_def)
  show ?thesis
    using e finish_objects[OF wf full cg sd'] rdy hd fl n q(4) wbq wbg by (intro exI[of _ h']) simp
qed

lemma collect_eq:
  "collect r roots h =
    rcBind (orHang (drainLoop r RC_UNBOUNDED (if \<not> r_marking (hp_reg h r) then rcBegin r roots h else h, 0)))
      (\<lambda>(b, _). rcBind (rcBind (rcFinish r (updReg r (\<lambda>x. x\<lparr>r_wbDebt := 0\<rparr>) b)) (\<lambda>h2. rcSettle r h2))
        (\<lambda>h3. Inr (h3, r_swFreed (hp_reg h3 r))))"
  unfolding collect_def by (simp add: rcBind_def split: sum.split)

text \<open>The start of a round, up to the call of \<open>markBegin\<close>.\<close>

definition rcOpen :: "addr \<Rightarrow> heap \<Rightarrow> heap" where
  "rcOpen r h =
    (let h1 = updReg r (\<lambda>x. x\<lparr>r_marking := True, r_visited := r_allocBytes x,
                  r_roundVisited := r_allocBytes x, r_markedBytes := 0,
                  r_markTick := int RC_MARK_EVERY, r_markStart := r_allocBytes x\<rparr>) (shadeNextGen h)
     in h1\<lparr>hp_wb := hp_wb h1 + 1\<rparr>)"

lemma rcBegin_open: "rcBegin r roots h = markBegin r roots (rcOpen r h)"
  by (simp add: rcBegin_def rcOpen_def Let_def)

lemma rcOpen_core: "coreEq r h (rcOpen r h)"
  unfolding rcOpen_def Let_def
  by (intro coreEq_trans[OF coreEq_trans[OF coreEq_shade coreEq_updReg] coreEq_wb]) simp_all

lemma rcOpen_fields:
  "r_marking (hp_reg (rcOpen r h) r)" "r_noSweep (hp_reg (rcOpen r h) r) = r_noSweep (hp_reg h r)"
  "r_bytes (hp_reg (rcOpen r h) r) = r_bytes (hp_reg h r)" "hp_wb (rcOpen r h) = hp_wb h + 1"
  by (simp_all add: rcOpen_def shadeNextGen_def Let_def)

lemma collect_run:
  assumes c: "collectable h r" and roots: "\<forall>p\<in>set roots. p < 2 ^ 64"
  shows "\<exists>h' n. collect r roots h = Inr (h', n) \<and>
    objects h' r = {p. reach h r (baseSet h r roots) p} \<and>
    (\<forall>p\<in>objects h' r. objFields h' p = objFields h p) \<and>
    (\<forall>k. k \<noteq> r \<longrightarrow> objects h' k = objects h k \<and> (\<forall>p\<in>objects h k. objFields h' p = objFields h p)) \<and>
    collectable h' r \<and> hp_wb h' = hp_wb h \<and>
    int n = liveSlots h r - liveSlots h' r \<and>
    r_bytes (hp_reg h' r) - liveBytes h' r = r_bytes (hp_reg h r) - liveBytes h r"
proof -
  let ?B = "baseSet h r roots" and ?a = "rcOpen r h"
  have rd: "roundReady h r" and full: "regionFull h r" and ev: "evenFields h r" and sh: "shortObjs h r"
    and fl: "\<not> r_marking (hp_reg h r)" "\<not> r_noSweep (hp_reg h r)" "hp_wb h \<ge> 0" and r0: "r \<noteq> 0"
    using c by (auto simp: collectable_def)
  note ca = rcOpen_core[of r h] and fa = rcOpen_fields[of r h]
  note cas = coreEq_simps[OF ca]
  have R0: "roundInv ?a (markBegin r roots ?a) r ?B"
    using markBegin_inv[of ?a r roots] rd roots coreEq_ready[OF ca] coreEq_base[OF ca] by simp
  have eva: "evenFields ?a r" "shortObjs ?a r" using ev sh by (simp_all add: cas)
  have ub: "RC_UNBOUNDED > 0" by (simp add: RC_UNBOUNDED_def)
  obtain b m where dr: "drainLoop r RC_UNBOUNDED (markBegin r roots ?a, 0) = Some (b, m)"
    using drain_ends[OF R0 ub eva] by blast
  have Rb: "roundInv ?a b r ?B" and np: "\<not> markPending b r" using drain_inv[OF R0 dr] by auto
  have f: "markFrame r ?a b" using Rb by (simp add: roundInv_def)
  have br: "eraseReg (hp_reg b r) = eraseReg (hp_reg ?a r)" using f by (simp add: markFrame_def)
  note bf = eraseReg_fields[OF br] markFrame_fields[OF f]
  have wfb: "heapWf b" using Rb by (simp add: roundInv_def markInv_def)
  have fullb: "regionFull b r" using full by (simp add: markFrame_full[OF f] cas)
  have mb: "r_marking (hp_reg b r)" "\<not> r_noSweep (hp_reg b r)" "hp_wb b \<ge> 1"
    using bf fa fl by simp_all
  have pb: "pinned b r = pinned h r" using bf ca by (simp add: pinned_def coreEq_def)
  have sb: "\<not> r_seedAny (hp_reg b r) \<longrightarrow> seeds b r = {}"
    using rd ca bf by (simp add: roundReady_def markFrame_seeds[OF f] cas coreEq_def)
  have pb1: "hp_pinN b = 0 \<longrightarrow> pinned b r = []" "\<forall>v\<in>set (pinned b r). v < 2 ^ 64"
    using rd ca bf by (simp_all add: pb roundReady_def coreEq_def)
  obtain h' where h': "rcBind (rcFinish r (updReg r (\<lambda>x. x\<lparr>r_wbDebt := 0\<rparr>) b)) (\<lambda>h2. rcSettle r h2) = Inr h'"
    "objects h' r = {p \<in> objects b r. marked b p}" "roundReady h' r" "regionFull h' r"
    "\<forall>p\<in>objects h' r. objFields h' p = objFields b p"
    "\<forall>k. k \<noteq> r \<longrightarrow> objects h' k = objects b k \<and> (\<forall>p\<in>objects b k. objFields h' p = objFields b p)"
    "\<forall>p. hOwn h' p = hOwn b p \<and> slotWords (hp_slab h' p) = slotWords (hp_slab b p)"
    "hp_wb h' = hp_wb b - 1" "\<not> r_marking (hp_reg h' r)" "\<not> r_sweeping (hp_reg h' r)" "\<not> r_noSweep (hp_reg h' r)"
    "int (r_swFreed (hp_reg h' r)) = liveSlots b r - liveSlots h' r"
    "r_bytes (hp_reg h' r) - liveBytes h' r = r_bytes (hp_reg b r) - liveBytes b r"
    using collect_tail[OF wfb fullb mb(1) np mb(3,2) r0 sb pb1] by blast
  have run: "collect r roots h = Inr (h', r_swFreed (hp_reg h' r))"
    using fl(1) dr h'(1) by (simp add: collect_eq rcBegin_open)
  have inb: "inReg b k p = inReg h k p" for k p by (simp add: markFrame_inReg[OF f] cas)
  have ofb: "objFields b p = objFields h p" for p by (simp add: markFrame_objFields[OF f] cas)
  have mg: "marked b p \<longleftrightarrow> reach h r ?B p" if "inReg h r p" for p
    using roundInv_done[OF Rb np, of p] that coreEq_reach[OF ca] by (simp add: inb)
  have obr: "objects h' r = {p. reach h r ?B p}"
    using h'(2) mg reach_inReg[of h r ?B] by (auto simp: objects_def inb)
  have obk: "objects b k = objects h k" for k by (simp add: objects_def inb)
  have ev': "evenFields h' r"
    unfolding evenFields_def
  proof (intro allI impI)
    fix p assume p: "inReg h' r p"
    then have "objFields h' p = objFields h p" "inReg h r p"
      using h'(2,5) ofb inb by (auto simp: objects_def)
    then show "\<forall>v\<in>set (objFields h' p). even v" using ev by (simp add: evenFields_def)
  qed
  have sh': "shortObjs h' r"
    unfolding shortObjs_def
  proof (intro allI impI)
    fix p assume "inReg h' r p"
    then have "inReg h r p" using h'(2) inb by (auto simp: objects_def)
    then have "slotWords (hp_slab ?a (hOwn ?a p)) < 2 ^ 32" using eva(2) by (simp add: shortObjs_def cas)
    then show "slotWords (hp_slab h' (hOwn h' p)) < 2 ^ 32"
      using h'(7) by (simp add: markFrame_hOwn[OF f] markFrame_slotWords[OF f])
  qed
  have wb: "hp_wb h' = hp_wb h" using h'(8) bf fa by simp
  have col: "collectable h' r" using h'(3,4,9-11) ev' sh' r0 wb fl by (simp add: collectable_def)
  have acc: "int (r_swFreed (hp_reg h' r)) = liveSlots h r - liveSlots h' r"
    "r_bytes (hp_reg h' r) - liveBytes h' r = r_bytes (hp_reg h r) - liveBytes h r"
    using h'(12,13) markFrame_liveSlots[OF f] bf fa by (simp_all add: cas)
  show ?thesis
    using run obr h'(5,6) col wb acc ofb obk
    by (intro exI[of _ h'] exI[of _ "r_swFreed (hp_reg h' r)"]) simp
qed

end
