(* ===== verification/Rc_Alloc.thy ===== *)
theory Rc_Alloc
  imports Rc_CollectSafe
begin

text \<open>
  Allocation of \<open>src/back/reclaim.c\<close>: the choice of a slab (\<open>allocHot\<close>, the chain of the size
  class, a new slab), the choice of a slot (the chain of freed slots in \<open>tid\<close>, else the bump
  index), the marking of a slot born during a round, the bump regions, and the birth and death of
  a region.
\<close>

section \<open>One slot of a slab\<close>

definition slabFull :: "slab \<Rightarrow> bool" where
  "slabFull x \<longleftrightarrow> sl_free x < 0 \<and> sl_bump x \<ge> sl_nslots x"

definition takeSlot :: "slab \<Rightarrow> nat \<times> slab" where
  "takeSlot x = (if sl_free x \<ge> 0
     then (let i = nat (sl_free x) in (i, x\<lparr>sl_free := int (sl_tid x ! i) - 1\<rparr>))
     else (let i = sl_bump x in (i, clearRs i (x\<lparr>sl_bump := sl_bump x + 1\<rparr>))))"

section \<open>The choice of a slab\<close>

definition allocHot :: "region \<Rightarrow> nat \<Rightarrow> addr" where
  "allocHot x ss = (if ss div 8 < 32 then r_hot x ! (ss div 8) else 0)"

text \<open>Full slabs at the head of the chain leave it.\<close>

fun classSkip :: "addr \<Rightarrow> nat \<Rightarrow> addr list \<Rightarrow> heap \<Rightarrow> addr \<times> heap" where
  "classSkip r ss [] h = (0, h)"
| "classSkip r ss (s # rest) h =
    (if slabFull (hp_slab h s)
     then classSkip r ss rest (updSlab s (\<lambda>x. x\<lparr>sl_avail := False\<rparr>) (updReg r (setChain ss rest) h))
     else (s, h))"

definition pickSlab :: "addr \<Rightarrow> nat \<Rightarrow> heap \<Rightarrow> addr \<times> heap" where
  "pickSlab r ss h =
    (let s = allocHot (hp_reg h r) ss
     in if s = 0 \<or> slabFull (hp_slab h s)
        then (case classChain (hp_reg h r) ss of None \<Rightarrow> (0, h) | Some c \<Rightarrow> classSkip r ss c h)
        else (s, h))"

definition openSlab :: "addr \<Rightarrow> nat \<Rightarrow> mallocs \<Rightarrow> heap \<Rightarrow> (addr \<times> heap) option" where
  "openSlab r ss m h = (case slabNew r ss m h of
     None \<Rightarrow> None
   | Some (s, h1) \<Rightarrow> Some (s, classPush r s (updReg r (\<lambda>x. x\<lparr>r_slabs := s # r_slabs x\<rparr>) h1)))"

section \<open>\<open>extc_rc_alloc\<close>\<close>

definition zeroMem :: "addr \<Rightarrow> nat \<Rightarrow> heap \<Rightarrow> heap" where
  "zeroMem p n h = h\<lparr>hp_mem := (\<lambda>a. if p \<le> a \<and> a < p + n then 0 else hp_mem h a)\<rparr>"

text \<open>The work an allocation does for the round in flight.\<close>

definition allocAssist :: "addr \<Rightarrow> heap \<Rightarrow> heap rc" where
  "allocAssist r h =
    (let h1 = notePart r h;
         h2 = (if r_sweeping (hp_reg h1 r) then
                 (if r_noSweep (hp_reg h1 r) then updReg r (\<lambda>x. x\<lparr>r_sweeping := False\<rparr>) h1
                  else fst (sweepStep r RC_SWEEP_BUDGET h1))
               else h1)
     in if r_marking (hp_reg h2 r) then
          (let h3 = (if markPending h2 r then markAdvance r h2 else h2)
           in if \<not> markPending h3 r then rcFinish r h3 else Inr h3)
        else Inr h2)"

text \<open>A slot born during marking is black; one born during a sweep is black where the sweep has
  still to pass: neither in a slab stamped with this sweep nor before the cursor.\<close>

definition birthMark :: "region \<Rightarrow> addr \<Rightarrow> slab \<Rightarrow> nat \<Rightarrow> bool" where
  "birthMark x s y i \<longleftrightarrow> r_marking x \<or>
     r_sweeping x \<and> sl_epoch y \<noteq> r_swId x \<and>
       (r_swRest x = [] \<or> s \<noteq> hd (r_swRest x) \<or> rcWord i \<ge> r_swWord x)"

definition placeSlot :: "addr \<Rightarrow> addr \<Rightarrow> nat \<Rightarrow> nat \<Rightarrow> heap \<Rightarrow> (heap \<times> addr) rc" where
  "placeSlot r s ss td h =
    (let (i, x) = takeSlot (hp_slab h s);
         p = slotAddr x i;
         h1 = zeroMem p ss (updSlab s (\<lambda>_. x) h);
         h2 = updSlab s (\<lambda>x. x\<lparr>sl_occ := bmSet (sl_occ x) i,
                sl_mark := (if birthMark (hp_reg h1 r) s x i then bmSet (sl_mark x) i else sl_mark x)\<rparr>) h1
     in (case typeIdx (sl_tt (hp_slab h2 s)) td of
           None \<Rightarrow> Inl Trap
         | Some (k, tt) \<Rightarrow>
             Inr (updReg r (\<lambda>x. x\<lparr>r_bytes := r_bytes x + int ss, r_allocBytes := r_allocBytes x + int ss\<rparr>)
                    (updSlab s (\<lambda>x. x\<lparr>sl_tt := tt, sl_tid := (sl_tid x)[i := k]\<rparr>) h2), p)))"

definition alloc :: "addr \<Rightarrow> 64 word \<Rightarrow> nat \<Rightarrow> mallocs \<Rightarrow> heap \<Rightarrow> (heap \<times> addr) rc" where
  "alloc r n td m h =
    rcBind (allocAssist r h) (\<lambda>h1.
      (case slotSize n of
         None \<Rightarrow> Inl Trap
       | Some ssw \<Rightarrow>
           (let ss = unat ssw; (s0, h2) = pickSlab r ss h1
            in (case (if s0 = 0 then openSlab r ss m h2 else Some (s0, h2)) of
                  None \<Rightarrow> Inl Trap
                | Some (s, h3) \<Rightarrow>
                    placeSlot r s ss td
                      (if ss div 8 < 32 then updReg r (\<lambda>x. x\<lparr>r_hot := (r_hot x)[ss div 8 := s]\<rparr>) h3 else h3)))))"

section \<open>Bump regions\<close>

definition rcBump :: "addr \<Rightarrow> 64 word \<Rightarrow> mallocs \<Rightarrow> heap \<Rightarrow> (heap \<times> addr) rc" where
  "rcBump r n m h =
    (case slotSize n of
       None \<Rightarrow> Inl Trap
     | Some ssw \<Rightarrow>
         (let ss = unat ssw; x = hp_reg h r
          in rcBind
               (if r_bump x = 0 \<or> r_bumpEnd x - r_bump x < ss then
                  (case slabNew r ss m h of
                     None \<Rightarrow> Inl Trap
                   | Some (s, h1) \<Rightarrow>
                       Inr (updReg r (\<lambda>x. x\<lparr>r_slabs := s # r_slabs x, r_bumpSlab := s,
                              r_bump := sl_data (hp_slab h1 s),
                              r_bumpEnd := sl_data (hp_slab h1 s) + sl_nslots (hp_slab h1 s) * sl_ss (hp_slab h1 s)\<rparr>) h1))
                else Inr h)
               (\<lambda>h2. let p = r_bump (hp_reg h2 r)
                     in Inr (zeroMem p ss (updReg r (\<lambda>x. x\<lparr>r_bump := r_bump x + ss\<rparr>) h2), p))))"

definition bumpReset :: "addr \<Rightarrow> heap \<Rightarrow> heap" where
  "bumpReset r h = (let b = r_bumpSlab (hp_reg h r); y = hp_slab h b in
     if b = 0 then h
     else updReg r (\<lambda>x. x\<lparr>r_bump := sl_data y, r_bumpEnd := sl_data y + sl_nslots y * sl_ss y\<rparr>) h)"

section \<open>Birth and death of a region\<close>

definition regionZero :: region where
  "regionZero = \<lparr>r_slabs = [], r_bumpSlab = 0, r_hot = replicate 32 0, r_cls = replicate RC_CLS_BUCKETS [],
     r_bump = 0, r_bumpEnd = 0, r_bytes = 0, r_allocBytes = 0, r_visited = 0, r_roundVisited = 0, r_live = 0,
     r_thr = 0, r_floor = 0, r_scale = 0, r_sweeps = 0, r_freed = 0, r_sweeping = False, r_swRest = [],
     r_swWord = 0, r_swId = 0, r_swFreed = 0, r_marking = False, r_markDone = False, r_markedBytes = 0,
     r_markTick = 0, r_markStart = 0, r_wbDebt = 0, r_seedRest = [], r_seedWord = 0, r_seedsDone = False,
     r_seedAny = False, r_foreign = False, r_rid = 0, r_noSweep = False, r_part = False, r_owe = False,
     r_stk = [], r_mscap = 0, r_scanObj = 0, r_scanOff = 0\<rparr>"

definition regionNew :: "int \<Rightarrow> addr \<Rightarrow> heap \<Rightarrow> (heap \<times> addr) rc" where
  "regionNew rid a h = (if a = 0 then Inl Trap
     else Inr (h\<lparr>hp_reg := (hp_reg h)(a := thrUpd (regionZero\<lparr>r_rid := rid, r_floor := RC_FLOOR\<rparr>))\<rparr>, a))"

definition regionFloor :: "addr \<Rightarrow> int \<Rightarrow> heap \<Rightarrow> heap" where
  "regionFloor r b = updReg r (\<lambda>x. thrUpd (x\<lparr>r_floor := (if b > 0 then b else 1)\<rparr>))"

definition rcAbort :: "addr \<Rightarrow> heap \<Rightarrow> heap rc" where
  "rcAbort r h =
    rcBind (if r_marking (hp_reg h r) then
              (let h1 = (updReg r (\<lambda>x. x\<lparr>r_marking := False, r_markDone := False\<rparr>) h)\<lparr>hp_wb := hp_wb h - 1\<rparr>
               in if hp_wb h < 1 then Inl Trap else Inr h1)
            else Inr h)
      (\<lambda>h1. Inr (updReg r (\<lambda>x. x\<lparr>r_sweeping := False\<rparr>) h1))"

text \<open>The occupied slots of a slab, in the order of the bitmap walk.\<close>

definition occSlots :: "slab \<Rightarrow> nat list" where
  "occSlots x = concat (map (\<lambda>w. map (\<lambda>b. w * 64 + b) (setBits (sl_occ x ! w))) [0..<sl_nwords x])"

definition dropSlab :: "addr \<Rightarrow> heap \<Rightarrow> heap" where
  "dropSlab s h =
    (let h1 = (if hp_rsInc h \<noteq> 0 then fold (unlinkChildren s) (occSlots (hp_slab h s)) h else h);
         y = hp_slab h1 s
     in (if sl_big y then h1\<lparr>hp_big := (hp_big h1)(sl_data y := None)\<rparr>
         else h1\<lparr>hp_own := (hp_own h1)(s := None)\<rparr>))"

definition regionFree :: "addr \<Rightarrow> heap \<Rightarrow> heap rc" where
  "regionFree r h =
    (if r = 0 then Inr h
     else (let h0 = shadeNextGen h
       in if \<not> r_part (hp_reg h0 r) \<and> (\<exists>s\<in>set (r_slabs (hp_reg h0 r)). \<exists>w\<in>set (sl_occ (hp_slab h0 s)). w \<noteq> 0)
          then Inl Trap
          else rcBind (rcAbort r h0)
            (\<lambda>h1. rcBind (orHang (pinDropRegion r h1))
              (\<lambda>h2. Inr (fold dropSlab (r_slabs (hp_reg h2 r)) h2)))))"

end
