(* ===== verification/Rc_Example.thy ===== *)
theory Rc_Example
  imports Rc_Alloc
begin

text \<open>
  A concrete heap for the closed instances of the properties: one region at address 8 with one
  slab of four 16-byte slots at 2^20. The object in slot 0 has one reference field and points to
  the object in slot 1; the object in slot 2 is garbage; slot 3 is free. The parameter is the
  word of mark bits.
\<close>

definition exA :: addr where "exA = 2 ^ 20"
definition exX :: addr where "exX = exA + 192"
definition exY :: addr where "exY = exA + 208"
definition exZ :: addr where "exZ = exA + 224"

definition exSlab :: "64 word \<Rightarrow> slab" where
  "exSlab m = \<lparr>sl_region = 8, sl_occ = [7], sl_mark = [m], sl_rsbit = [0], sl_rscnt = None,
     sl_tid = [2, 0, 0, 0],
     sl_tt = \<lparr>tt_tab = [0, RC_CONSERVATIVE, 1000], tt_cap = 8, tt_hash = [], tt_lastTd = 0, tt_lastTid = 0\<rparr>,
     sl_data = exX, sl_big = False, sl_free = -1, sl_bump = 3, sl_ss = 16, sl_rcp = rcpOf 16,
     sl_nslots = 4, sl_nwords = 1, sl_epoch = 0, sl_avail = True\<rparr>"

definition exRegion :: region where
  "exRegion = regionZero\<lparr>r_slabs := [exA], r_bytes := 48, r_allocBytes := 48, r_floor := RC_FLOOR,
     r_thr := RC_FLOOR, r_part := True\<rparr>"

definition exHeap :: "64 word \<Rightarrow> heap" where
  "exHeap m = \<lparr>hp_mem = (\<lambda>_. 0)(exX := of_nat exY), hp_desc = (\<lambda>_. [])(1000 := [0]),
     hp_slab = (\<lambda>_. exSlab m), hp_own = [exA \<mapsto> exA], hp_big = Map.empty,
     hp_reg = (\<lambda>_. exRegion), hp_partN = 1, hp_wb = 0, hp_rsInc = 0, hp_rsDec = 0, hp_rsHwm = 0,
     hp_shGen = 1, hp_shCache = (\<lambda>_. 0), hp_pins = [], hp_pinN = 0, hp_relN = 0, hp_relSlots = 0\<rparr>"

lemmas ex_addrs = exA_def exX_def exY_def exZ_def

lemma ex_slab [simp]:
  "sl_region (exSlab m) = 8" "sl_nslots (exSlab m) = 4" "sl_nwords (exSlab m) = 1" "sl_ss (exSlab m) = 16"
  "sl_mark (exSlab m) = [m]" "sl_rsbit (exSlab m) = [0]" "sl_tid (exSlab m) = [2, 0, 0, 0]" "sl_occ (exSlab m) = [7]"
  "sl_rscnt (exSlab m) = None" "tt_tab (sl_tt (exSlab m)) = [0, RC_CONSERVATIVE, 1000]"
  by (simp_all add: exSlab_def)

lemma ex_geom: "geomOk exA (exSlab m)"
  by (simp add: geomOk_def exSlab_def ex_addrs layout_consts slabWords_def)

lemma ex_occ: "rcWord i < 1 \<Longrightarrow> occAt (exSlab m) i \<longleftrightarrow> i < 3"
proof -
  assume "rcWord i < 1"
  then have i: "i < 64" by (simp add: rcWord_def)
  have "bit (7 :: 64 word) i \<longleftrightarrow> i < 3"
  proof -
    have "bit (mask 3 :: 64 word) i \<longleftrightarrow> i < 3" using i by (simp only: bit_mask_iff) auto
    then show ?thesis by (simp add: mask_eq_exp_minus_1)
  qed
  then show ?thesis using i by (simp add: occAt_def bmGet_bit exSlab_def)
qed

lemma ex_shape: "slabShape (exSlab m)"
proof -
  have "ttOk (sl_tt (exSlab m))" by (simp add: ttOk_def exSlab_def RC_CONSERVATIVE_def RC_TTAB_LINEAR_MAX_def)
  moreover have "i < 4 \<and> sl_tid (exSlab m) ! i < 3" if "rcWord i < 1" "occAt (exSlab m) i" for i
    using ex_occ[OF that(1)] that(2) by (auto simp: less_Suc_eq numeral_3_eq_3)
  ultimately show ?thesis unfolding slabShape_def by (simp del: One_nat_def add: numeral_3_eq_3)
qed

lemma ex_wf: "heapWf (exHeap m)"
  using ex_geom ex_shape by (auto simp: heapWf_def exHeap_def exSlab_def split: if_splits)

lemma ex_reg: "registered (exHeap m) s \<longleftrightarrow> s = exA"
  by (auto simp: registered_def exHeap_def)

lemma ex_heap [simp]:
  "hp_slab (exHeap m) a = exSlab m" "hp_reg (exHeap m) k = exRegion" "hp_wb (exHeap m) = 0"
  "hp_pins (exHeap m) = []" "hp_pinN (exHeap m) = 0" "hp_rsInc (exHeap m) = 0"
  by (simp_all add: exHeap_def)

lemma ex_region [simp]:
  "r_slabs exRegion = [exA]" "\<not> r_seedAny exRegion" "\<not> r_marking exRegion" "\<not> r_sweeping exRegion"
  "\<not> r_noSweep exRegion"
  by (simp_all add: exRegion_def regionZero_def)

lemma ex_slotAddr: "slotAddr (exSlab m) i = exX + i * 16"
  by (simp add: slotAddr_def exSlab_def)

lemma ex_obj:
  assumes "i < 4"
  shows "hOwn (exHeap m) (exX + i * 16) = exA" "slotOf (exSlab m) (exX + i * 16) = i"
  using hOwn_slotAddr[OF ex_wf, of m exA i] slotOf_slotAddr[OF ex_geom, of i m] assms
  by (simp_all add: ex_reg ex_slotAddr)

lemma ex_inReg: "inReg (exHeap m) 8 p \<longleftrightarrow> p \<in> {exX, exY, exZ}"
proof
  assume p: "inReg (exHeap m) 8 p"
  have s: "hOwn (exHeap m) p = exA" using inReg_obj(1)[OF ex_wf p] by (simp add: ex_reg)
  obtain i where i: "i < 4" "p = exX + i * 16"
    using inReg_obj(2,3)[OF ex_wf p] by (auto simp: s ex_slotAddr)
  have "occAt (exSlab m) i" using p ex_obj[OF i(1)] by (simp add: inReg_def owns_def Let_def i(2) exA_def)
  then have "i < 3" using ex_occ[of i m] i(1) by (simp add: rcWord_def)
  then show "p \<in> {exX, exY, exZ}" using i(2) by (auto simp: ex_addrs less_Suc_eq numeral_3_eq_3)
next
  assume "p \<in> {exX, exY, exZ}"
  then have "p = exX + 0 * 16 \<or> p = exX + 1 * 16 \<or> p = exX + 2 * 16" by (auto simp: ex_addrs)
  then obtain i where i: "i < 3" "p = exX + i * 16"
    by (metis numeral_3_eq_3 zero_less_Suc one_less_numeral_iff semiring_norm(77) less_Suc_eq numeral_2_eq_2 One_nat_def)
  have "occAt (exSlab m) i" using ex_occ[of i m] i(1) by (simp add: rcWord_def)
  moreover have "p < 2 ^ 64" using i by (simp add: ex_addrs)
  moreover have "exA \<noteq> 0" by (simp add: exA_def)
  moreover have "hOwn (exHeap m) p = exA" "slotOf (exSlab m) p = i" using ex_obj[of i m] i by simp_all
  ultimately show "inReg (exHeap m) 8 p" by (simp add: inReg_def owns_def Let_def)
qed

lemma ex_desc: "hp_desc (exHeap m) k = (if k = 1000 then [0] else [])"
  by (simp add: exHeap_def)

lemma ex_fields:
  "objFields (exHeap m) exX = [exY]" "objFields (exHeap m) exY = []" "objFields (exHeap m) exZ = []"
proof -
  have o: "hOwn (exHeap m) exX = exA" "slotOf (exSlab m) exX = 0" "hOwn (exHeap m) exY = exA"
    "slotOf (exSlab m) exY = 1" "hOwn (exHeap m) exZ = exA" "slotOf (exSlab m) exZ = 2"
    using ex_obj[of 0 m] ex_obj[of 1 m] ex_obj[of 2 m] by (simp_all add: ex_addrs)
  have t: "typeOf (exSlab m) 0 = 1000" "typeOf (exSlab m) (Suc 0) = 0" "typeOf (exSlab m) 2 = 0"
    by (simp_all add: typeOf_def ttType_def exSlab_def)
  have "ldPtr (exHeap m) exX = exY" by (simp add: ldPtr_def exHeap_def ex_addrs)
  then show "objFields (exHeap m) exX = [exY]" "objFields (exHeap m) exY = []" "objFields (exHeap m) exZ = []"
    by (simp_all add: objFields_def fieldVals_def fieldAddrs_def Let_def o t ex_slotAddr RC_CONSERVATIVE_def ex_desc)
qed

lemma ex_marked:
  "marked (exHeap m) exX = bit m 0" "marked (exHeap m) exY = bit m 1" "marked (exHeap m) exZ = bit m 2"
  using ex_obj[of 0 m] ex_obj[of 1 m] ex_obj[of 2 m]
  by (simp_all add: marked_def bmGet_bit ex_addrs)

lemma ex_full: "regionFull (exHeap m) 8"
  by (simp add: regionFull_def regionOk_def ex_reg)

lemma ex_seeds: "seeds (exHeap m) 8 = {}"
  by (auto simp: seeds_def seedAt_def bmGet_bit)

lemma ex_ready: "roundReady (exHeap 0) 8"
  using ex_wf ex_full ex_seeds ex_marked[of 0]
  by (auto simp: roundReady_def regionFull_def ex_inReg pinned_def)

lemma ex_even: "evenFields (exHeap m) 8"
proof -
  have "even exY" by (simp add: ex_addrs)
  then show ?thesis by (auto simp: evenFields_def ex_inReg ex_fields)
qed

lemma ex_short: "shortObjs (exHeap m) 8"
  by (simp add: shortObjs_def slotWords_def)

lemma ex_collectable: "collectable (exHeap 0) 8"
  using ex_ready ex_full ex_even ex_short by (simp add: collectable_def)

lemma ex_base: "baseSet (exHeap m) 8 [exX] = {exX}"
proof -
  have "owns (exHeap m) exX" "exX \<noteq> 0" using ex_inReg[of m exX] by (simp_all add: inReg_def ex_addrs)
  then show ?thesis by (auto simp: baseSet_def ex_seeds pinned_def)
qed

lemma ex_reach: "reach (exHeap m) 8 {exX} p \<longleftrightarrow> p = exX \<or> p = exY"
proof
  show "reach (exHeap m) 8 {exX} p \<Longrightarrow> p = exX \<or> p = exY"
  proof (induction rule: reach.induct)
    case (step p v)
    have "even exY" by (simp add: ex_addrs)
    then show ?case using step by (auto simp: ex_fields rawObj_even)
  qed simp
  have x: "reach (exHeap m) 8 {exX} exX" by (rule reach.base) (simp_all add: ex_inReg)
  have "rawObj exY = exY" by (rule rawObj_even) (simp add: ex_addrs)
  then have "reach (exHeap m) 8 {exX} exY"
    using reach.step[OF x, of exY] by (simp add: ex_fields ex_inReg) (simp add: ex_addrs)
  then show "p = exX \<or> p = exY \<Longrightarrow> reach (exHeap m) 8 {exX} p" using x by blast
qed

lemma ex_roots: "\<forall>p\<in>set [exX]. p < 2 ^ 64" "\<forall>p\<in>set ([] :: addr list). p < 2 ^ 64"
  by (simp_all add: ex_addrs)

end
