(* ===== verification/Rc_AllocSafe.thy ===== *)
theory Rc_AllocSafe
  imports Rc_Example
begin

text \<open>
  The free slots of a slab and what an allocation does to the objects: the chain of freed slots
  and the slots past the bump index are exactly the unoccupied slots, every slot handed out is a
  fresh object with the descriptor it was asked for and zeroed words, and nothing else changes.
\<close>

section \<open>The chain of freed slots\<close>

fun freeChain :: "nat list \<Rightarrow> int \<Rightarrow> nat list \<Rightarrow> bool" where
  "freeChain tid f [] = (f = -1)"
| "freeChain tid f (i # is) = (f = int i \<and> freeChain tid (int (tid ! i) - 1) is)"

definition slotsOk :: "slab \<Rightarrow> bool" where
  "slotsOk x \<longleftrightarrow> sl_bump x \<le> sl_nslots x \<and>
     (\<exists>is. freeChain (sl_tid x) (sl_free x) is \<and> distinct is \<and>
        set is = {i. i < sl_bump x \<and> \<not> occAt x i}) \<and>
     (\<forall>i. sl_bump x \<le> i \<longrightarrow> i < sl_nslots x \<longrightarrow> \<not> occAt x i)"

lemma freeChain_cong: "(\<And>i. i \<in> set is \<Longrightarrow> tid' ! i = tid ! i) \<Longrightarrow> freeChain tid' f is = freeChain tid f is"
  by (induction "is" arbitrary: f) auto

lemma freeChain_upd: "i \<notin> set is \<Longrightarrow> freeChain (tid[i := k]) f is = freeChain tid f is"
  by (rule freeChain_cong) (metis nth_list_update_neq)

lemma slotsOk_new: "slotsOk (slabInit r ss m)"
proof -
  have "\<not> occAt (slabInit r ss m) i" if "i < slabSlots ss" for i
    using slabWords_enough[OF that] by (simp add: occAt_def slabInit_def Let_def)
  then show ?thesis by (auto simp: slotsOk_def slabInit_def Let_def intro!: exI[of _ "[]"])
qed

text \<open>Taking a slot and setting its occupation bit.\<close>

definition occupy :: "nat \<Rightarrow> nat \<Rightarrow> slab \<Rightarrow> slab" where
  "occupy i k x = x\<lparr>sl_occ := bmSet (sl_occ x) i, sl_tid := (sl_tid x)[i := k]\<rparr>"

lemma occAt_occupy:
  "rcWord i < length (sl_occ x) \<Longrightarrow> occAt (occupy i k x) j \<longleftrightarrow> j = i \<or> occAt x j"
  by (simp add: occAt_def occupy_def bmGet_bmSet)

lemma clearRs_simps [simp]:
  "sl_occ (clearRs i x) = sl_occ x" "sl_tid (clearRs i x) = sl_tid x" "sl_free (clearRs i x) = sl_free x"
  "sl_bump (clearRs i x) = sl_bump x" "sl_nslots (clearRs i x) = sl_nslots x" "sl_mark (clearRs i x) = sl_mark x"
  "headOf (clearRs i x) = headOf x" "sl_tt (clearRs i x) = sl_tt x" "sl_epoch (clearRs i x) = sl_epoch x"
  "sl_rsbit (clearRs i x) = sl_rsbit x" "occAt (clearRs i x) = occAt x"
  by (simp_all add: clearRs_def headOf_def occAt_def fun_eq_iff)

lemma takeSlot_ok:
  assumes ok: "slotsOk x" and nf: "\<not> slabFull x" and t: "takeSlot x = (i, y)"
      and len: "length (sl_occ x) = sl_nwords x" "sl_nwords x = slabWords (sl_nslots x)"
  shows "i < sl_nslots x \<and> \<not> occAt x i \<and> slotsOk (occupy i k y)"
proof -
  obtain "is" where c: "freeChain (sl_tid x) (sl_free x) is" "distinct is" "set is = {i. i < sl_bump x \<and> \<not> occAt x i}"
    and b: "sl_bump x \<le> sl_nslots x" and hi: "\<And>i. sl_bump x \<le> i \<Longrightarrow> i < sl_nslots x \<Longrightarrow> \<not> occAt x i"
    using ok by (auto simp: slotsOk_def)
  show ?thesis
  proof (cases "sl_free x \<ge> 0")
    case True
    then obtain js where i: "is = i # js" and y: "y = x\<lparr>sl_free := int (sl_tid x ! i) - 1\<rparr>"
      using t c(1) by (cases "is") (auto simp: takeSlot_def Let_def)
    have ii: "i < sl_bump x" "\<not> occAt x i" using c(3) i by auto
    then have il: "i < sl_nslots x" using b by simp
    have w: "rcWord i < length (sl_occ y)" using slabWords_enough[OF il] len y by simp
    have nj: "i \<notin> set js" using c(2) i by simp
    have "freeChain (sl_tid (occupy i k y)) (sl_free (occupy i k y)) js"
      using c(1) i freeChain_upd[OF nj] by (simp add: occupy_def y)
    moreover have "set js = {j. j < sl_bump y \<and> \<not> occAt (occupy i k y) j}"
    proof -
      have "j \<in> set js \<longleftrightarrow> j \<noteq> i \<and> j \<in> set is" for j using nj i by auto
      moreover have "sl_bump y = sl_bump x" "occAt y = occAt x" by (simp_all add: y occAt_def fun_eq_iff)
      ultimately show ?thesis by (simp add: set_eq_iff occAt_occupy[OF w] c(3)) blast
    qed
    moreover have "\<not> occAt (occupy i k y) j" if "sl_bump y \<le> j" "j < sl_nslots y" for j
    proof -
      have "sl_bump y = sl_bump x" "occAt y = occAt x" "sl_nslots y = sl_nslots x"
        by (simp_all add: y occAt_def fun_eq_iff)
      then show ?thesis using hi[of j] that ii(1) by (simp add: occAt_occupy[OF w])
    qed
    moreover have "sl_bump (occupy i k y) = sl_bump y" "sl_nslots (occupy i k y) = sl_nslots y"
      "sl_bump y = sl_bump x" "sl_nslots y = sl_nslots x"
      by (simp_all add: occupy_def y)
    moreover have "distinct js" using c(2) i by simp
    ultimately have "slotsOk (occupy i k y)"
      using b unfolding slotsOk_def by (intro conjI exI[of _ js]) simp_all
    then show ?thesis using il ii by simp
  next
    case False
    then have e: "is = []" "sl_free x = -1" using c(1) by (cases "is"; auto)+
    have i: "i = sl_bump x" and y: "y = clearRs i (x\<lparr>sl_bump := sl_bump x + 1\<rparr>)"
      using t False by (auto simp: takeSlot_def Let_def)
    have il: "i < sl_nslots x" using nf False i by (simp add: slabFull_def)
    have w: "rcWord i < length (sl_occ y)" using slabWords_enough[OF il] len y by simp
    have oy: "occAt y = occAt x" by (simp add: y occAt_def fun_eq_iff)
    have all: "occAt x j" if "j < sl_bump x" for j using c(3) e that by auto
    have "{j. j < sl_bump x + 1 \<and> \<not> occAt (occupy i k y) j} = {}"
    proof -
      have "occAt (occupy i k y) j" if "j < sl_bump x + 1" for j
      proof -
        have "j = i \<or> occAt y j" using all[of j] that i oy by (cases "j < sl_bump x") simp_all
        then show ?thesis using occAt_occupy[OF w, of k j] by blast
      qed
      then show ?thesis by blast
    qed
    moreover have "\<not> occAt (occupy i k y) j" if "sl_bump x + 1 \<le> j" "j < sl_nslots x" for j
    proof -
      have "j \<noteq> i \<and> \<not> occAt y j" using hi[of j] that i oy by simp
      then show ?thesis using occAt_occupy[OF w, of k j] by blast
    qed
    ultimately show ?thesis
      using il hi[of i] i e(2)
      by (auto simp: slotsOk_def occupy_def y intro!: exI[of _ "[]"])
  qed
qed

text \<open>Giving a slot back and taking one again returns the same slot.\<close>

lemma takeSlot_linkSlot:
  assumes "i < length (sl_tid x)" "-1 \<le> sl_free x" "sl_free x < 2 ^ 16 - 1"
  shows "takeSlot (linkSlot i x) = (i, (linkSlot i x)\<lparr>sl_free := sl_free x\<rparr>)"
  using assms by (simp add: takeSlot_def linkSlot_def Let_def)

lemma linkSlot_ok:
  assumes ok: "slotsOk x" and i: "i < sl_bump x" "occAt x i" and n: "sl_nslots x \<le> RC_REUSE_MAX_SLOT"
      and len: "length (sl_occ x) = sl_nwords x" "sl_nwords x = slabWords (sl_nslots x)"
        "length (sl_tid x) = sl_nslots x"
  shows "slotsOk ((linkSlot i x)\<lparr>sl_occ := bmClr (sl_occ x) i\<rparr>)"
proof -
  obtain "is" where c: "freeChain (sl_tid x) (sl_free x) is" "distinct is" "set is = {i. i < sl_bump x \<and> \<not> occAt x i}"
    and b: "sl_bump x \<le> sl_nslots x" and hi: "\<And>i. sl_bump x \<le> i \<Longrightarrow> i < sl_nslots x \<Longrightarrow> \<not> occAt x i"
    using ok by (auto simp: slotsOk_def)
  let ?y = "(linkSlot i x)\<lparr>sl_occ := bmClr (sl_occ x) i\<rparr>"
  have il: "i < sl_nslots x" using i b by simp
  have w: "rcWord i < length (sl_occ x)" using slabWords_enough[OF il] len by simp
  have oc: "occAt ?y j \<longleftrightarrow> j \<noteq> i \<and> occAt x j" for j
    by (simp add: occAt_def bmGet_bmClr[OF w])
  have ni: "i \<notin> set is" using c(3) i by simp
  have f: "-1 \<le> sl_free x" "sl_free x < int (sl_nslots x)"
  proof -
    have "-1 \<le> sl_free x \<and> sl_free x < int (sl_nslots x)"
    proof (cases "is")
      case Nil
      then show ?thesis using c(1) by simp
    next
      case (Cons j js)
      then have "j < sl_bump x" using c(3) by (metis (mono_tags) list.set_intros(1) mem_Collect_eq)
      then show ?thesis using c(1) b Cons by simp
    qed
    then show "-1 \<le> sl_free x" "sl_free x < int (sl_nslots x)" by auto
  qed
  then have "int (nat ((sl_free x + 1) mod 65536)) = sl_free x + 1"
    using n by (simp add: RC_REUSE_MAX_SLOT_def)
  then have "freeChain (sl_tid ?y) (sl_free ?y) (i # is)"
    using c(1) freeChain_upd[OF ni] il len f(1) by (simp add: linkSlot_def)
  moreover have "set (i # is) = {j. j < sl_bump x \<and> \<not> occAt ?y j}"
  proof -
    have "j \<in> set (i # is) \<longleftrightarrow> j < sl_bump x \<and> \<not> occAt ?y j" for j
      using i(1) unfolding oc list.set(2) c(3) by blast
    then show ?thesis by blast
  qed
  moreover have "\<not> occAt ?y j" if "sl_bump x \<le> j" "j < sl_nslots x" for j using hi[OF that] by (simp add: oc)
  moreover have "sl_bump ?y = sl_bump x" "sl_nslots ?y = sl_nslots x" by (simp_all add: linkSlot_def)
  moreover have "distinct (i # is)" using c(2) ni by simp
  ultimately show ?thesis using b unfolding slotsOk_def by (intro conjI exI[of _ "i # is"]) simp_all
qed

section \<open>Placing an object\<close>

lemma takeSlot_fields:
  assumes "takeSlot x = (i, y)"
  shows "headOf y = headOf x" "sl_occ y = sl_occ x" "sl_mark y = sl_mark x" "sl_rsbit y = sl_rsbit x"
    "sl_tid y = sl_tid x" "sl_tt y = sl_tt x" "sl_epoch y = sl_epoch x"
    "map_option length (sl_rscnt y) = map_option length (sl_rscnt x)"
  using assms
  by (auto simp: takeSlot_def Let_def clearRs_def headOf_def option.map_comp o_def split: if_splits)

text \<open>The slab after an object with the type index \<open>k\<close> was placed in slot \<open>i\<close>.\<close>

definition placed :: "nat \<Rightarrow> nat \<Rightarrow> ttab \<Rightarrow> bool \<Rightarrow> slab \<Rightarrow> slab" where
  "placed i k tt m y = (occupy i k y)\<lparr>sl_mark := (if m then bmSet (sl_mark y) i else sl_mark y), sl_tt := tt\<rparr>"

lemma updSlab_comp: "updSlab s f (updSlab s g h) = updSlab s (\<lambda>x. f (g x)) h"
  by (simp add: updSlab_def)

lemma updSlab_cong: "f (hp_slab h s) = g (hp_slab h s) \<Longrightarrow> updSlab s f h = updSlab s g h"
  by (simp add: updSlab_def)

lemma updSlab_zero: "updSlab s f (zeroMem p n h) = zeroMem p n (updSlab s f h)"
  by (simp add: updSlab_def zeroMem_def cong: if_cong)

lemma zeroMem_simps [simp]:
  "hp_slab (zeroMem p n h) = hp_slab h" "hp_reg (zeroMem p n h) = hp_reg h" "hp_own (zeroMem p n h) = hp_own h"
  "hp_big (zeroMem p n h) = hp_big h" "hp_desc (zeroMem p n h) = hp_desc h"
  by (simp_all add: zeroMem_def)

lemma placeSlot_eq:
  assumes t: "takeSlot (hp_slab h s) = (i, y)" and ty: "typeIdx (sl_tt (hp_slab h s)) td = Some (k, tt)"
  shows "placeSlot r s ss td h =
    Inr (updReg r (\<lambda>x. x\<lparr>r_bytes := r_bytes x + int ss, r_allocBytes := r_allocBytes x + int ss\<rparr>)
          (zeroMem (slotAddr (hp_slab h s) i) ss
            (updSlab s (\<lambda>_. placed i k tt (birthMark (hp_reg h r) s y i) y) h)), slotAddr (hp_slab h s) i)"
proof -
  let ?p = "slotAddr (hp_slab h s) i" and ?b = "birthMark (hp_reg h r) s y i"
  have e: "slotAddr y = slotAddr (hp_slab h s)" "sl_tt y = sl_tt (hp_slab h s)"
    by (rule headOf_eqD(9)[OF takeSlot_fields(1)[OF t]], rule takeSlot_fields(6)[OF t])
  let ?f = "\<lambda>x. x\<lparr>sl_occ := bmSet (sl_occ x) i, sl_mark := (if birthMark (hp_reg h r) s x i then bmSet (sl_mark x) i else sl_mark x)\<rparr>"
  let ?g = "\<lambda>x. x\<lparr>sl_tt := tt, sl_tid := (sl_tid x)[i := k]\<rparr>"
  let ?h2 = "updSlab s ?f (zeroMem ?p ss (updSlab s (\<lambda>_. y) h))"
  have tt: "sl_tt (hp_slab ?h2 s) = sl_tt (hp_slab h s)" by (simp add: e)
  have "updSlab s ?g ?h2 = zeroMem ?p ss (updSlab s (\<lambda>_. ?g (?f y)) h)"
    unfolding updSlab_zero updSlab_comp ..
  also have "?g (?f y) = placed i k tt ?b y" by (simp add: placed_def occupy_def)
  finally have h3: "updSlab s ?g ?h2 = zeroMem ?p ss (updSlab s (\<lambda>_. placed i k tt ?b y) h)" .
  show ?thesis
    unfolding placeSlot_def t Let_def prod.case e(1)
    by (simp only: zeroMem_simps(2) updSlab_simps(6) tt ty option.case prod.case h3)
qed

lemma placed_shape:
  assumes sh: "slabShape x" and t: "takeSlot x = (i, y)" and i: "i < sl_nslots x" "rcWord i < sl_nwords x"
      and k: "ttOk tt" "k < length (tt_tab tt)" "tt_tab tt = tt_tab (sl_tt x) @ ext"
  shows "slabShape (placed i k tt m y)" and "headOf (placed i k tt m y) = headOf x"
    and "occAt (placed i k tt m y) j \<longleftrightarrow> j = i \<or> occAt x j"
    and "j \<noteq> i \<Longrightarrow> sl_tid (placed i k tt m y) ! j = sl_tid x ! j" "sl_tid (placed i k tt m y) ! i = k"
proof -
  note f = takeSlot_fields[OF t]
  have w: "rcWord i < length (sl_occ y)" using sh i f(2) by (simp add: slabShape_def)
  show oc: "occAt (placed i k tt m y) j \<longleftrightarrow> j = i \<or> occAt x j" for j
    using occAt_occupy[OF w, of k j] f(2) by (simp add: placed_def occAt_def)
  show hd: "headOf (placed i k tt m y) = headOf x"
    using f(1) by (simp add: placed_def occupy_def headOf_def)
  show tj: "j \<noteq> i \<Longrightarrow> sl_tid (placed i k tt m y) ! j = sl_tid x ! j" for j
    by (simp add: placed_def occupy_def f(5))
  show ti: "sl_tid (placed i k tt m y) ! i = k"
    using sh i by (simp add: placed_def occupy_def f(5) slabShape_def)
  have len: "length (sl_occ (placed i k tt m y)) = length (sl_occ x)"
    "length (sl_mark (placed i k tt m y)) = length (sl_mark x)"
    "length (sl_rsbit (placed i k tt m y)) = length (sl_rsbit x)"
    "length (sl_tid (placed i k tt m y)) = length (sl_tid x)" "sl_tt (placed i k tt m y) = tt"
    "map_option length (sl_rscnt (placed i k tt m y)) = map_option length (sl_rscnt x)"
    using f by (simp_all add: placed_def occupy_def)
  have c: "\<forall>c. sl_rscnt (placed i k tt m y) = Some c \<longrightarrow> length c = sl_nslots x"
    using len(6) sh by (cases "sl_rscnt x") (auto simp: slabShape_def)
  have b: "j < sl_nslots x \<and> sl_tid (placed i k tt m y) ! j < length (tt_tab tt)"
    if "rcWord j < sl_nwords x" "occAt (placed i k tt m y) j" for j
  proof (cases "j = i")
    case False
    then have "j < sl_nslots x \<and> sl_tid x ! j < length (tt_tab (sl_tt x))"
      using that sh by (simp add: oc slabShape_def)
    then show ?thesis using tj[OF False] k(3) by simp
  qed (use i ti k in simp)
  show "slabShape (placed i k tt m y)"
    unfolding slabShape_def headOf_eqD(6,7)[OF hd] using sh len c b k(1) by (simp add: slabShape_def)
qed

lemma updSlab_heads: "headOf z = headOf (hp_slab h s) \<Longrightarrow> sameHeads h (updSlab s (\<lambda>_. z) h)"
  by (simp add: sameHeads_def)

lemma placeSlot_ok:
  assumes wf: "heapWf h" and s: "registered h s" "sl_region (hp_slab h s) = r" and ok: "slotsOk (hp_slab h s)"
      and nf: "\<not> slabFull (hp_slab h s)" and ss: "ss = sl_ss (hp_slab h s)"
      and room: "td \<in> set (tt_tab (sl_tt (hp_slab h s))) \<or> length (tt_tab (sl_tt (hp_slab h s))) < 0xFFFF"
  shows "\<exists>h' p. placeSlot r s ss td h = Inr (h', p) \<and> heapWf h' \<and> slotsOk (hp_slab h' s) \<and>
    \<not> owns h p \<and> inReg h' r p \<and> hOwn h' p = s \<and>
    (\<forall>q k. q \<noteq> p \<longrightarrow> inReg h' k q = inReg h k q) \<and>
    typeOf (hp_slab h' s) (slotOf (hp_slab h' s) p) = td \<and>
    (\<forall>a. hp_mem h' a = (if p \<le> a \<and> a < p + ss then 0 else hp_mem h a)) \<and>
    (\<forall>q k. inReg h k q \<longrightarrow> fieldAddrs h' (hOwn h' q) (slotOf (hp_slab h' (hOwn h' q)) q) =
        fieldAddrs h (hOwn h q) (slotOf (hp_slab h (hOwn h q)) q)) \<and>
    (birthMark (hp_reg h r) s (hp_slab h s) (slotOf (hp_slab h' s) p) \<longrightarrow> marked h' p) \<and>
    r_bytes (hp_reg h' r) = r_bytes (hp_reg h r) + int ss"
proof -
  let ?x = "hp_slab h s"
  have g: "geomOk s ?x" and sh: "slabShape ?x" by (rule registered_wf[OF wf s(1)])+
  obtain i y where t: "takeSlot ?x = (i, y)" by fastforce
  have ttok: "ttOk (sl_tt ?x)" using sh by (simp add: slabShape_def)
  obtain k tt ext where ty: "typeIdx (sl_tt ?x) td = Some (k, tt)" "ttOk tt" "k < length (tt_tab tt)"
    "ttType tt k = td" "tt_tab tt = tt_tab (sl_tt ?x) @ ext"
    using typeIdx_ok[OF ttok room] by blast
  have lens: "length (sl_occ ?x) = sl_nwords ?x" "sl_nwords ?x = slabWords (sl_nslots ?x)"
    using sh g by (simp_all add: slabShape_def geomOk_def)
  note tk = takeSlot_ok[OF ok nf t lens]
  have i: "i < sl_nslots ?x" "\<not> occAt ?x i" "slotsOk (occupy i k y)" using tk[of k] by auto
  have iw: "rcWord i < sl_nwords ?x" by (rule slot_wf[OF wf s(1) i(1)])
  define m where "m = birthMark (hp_reg h r) s y i"
  define z where "z = placed i k tt m y"
  define p where "p = slotAddr ?x i"
  define h' where "h' = updReg r (\<lambda>x. x\<lparr>r_bytes := r_bytes x + int ss, r_allocBytes := r_allocBytes x + int ss\<rparr>)
          (zeroMem p ss (updSlab s (\<lambda>_. z) h))"
  have run: "placeSlot r s ss td h = Inr (h', p)"
    using placeSlot_eq[OF t ty(1)] by (simp add: h'_def p_def z_def m_def)
  note pl = placed_shape[OF sh t i(1) iw ty(2,3,5), where m = m, folded z_def]
  have sl: "hp_slab h' = (hp_slab h)(s := z)" "hp_own h' = hp_own h" "hp_big h' = hp_big h" "hp_desc h' = hp_desc h"
    by (simp_all add: h'_def zeroMem_def)
  have heads: "sameHeads h h'" using pl(2) by (simp add: sameHeads_def sl)
  have ho: "hOwn h' q = hOwn h q" for q by (rule sameHeads_hOwn[OF heads])
  have hd: "headOf (hp_slab h' a) = headOf (hp_slab h a)" for a using heads by (simp add: sameHeads_def)
  have so: "slotOf (hp_slab h' a) = slotOf (hp_slab h a)" "slotAddr (hp_slab h' a) = slotAddr (hp_slab h a)"
    "sl_region (hp_slab h' a) = sl_region (hp_slab h a)" "slotWords (hp_slab h' a) = slotWords (hp_slab h a)" for a
    using headOf_eqD[OF hd[of a]] by auto
  have wf': "heapWf h'"
    by (rule heapWf_step[OF wf sl(2,3) hd]) (use pl(1) in \<open>simp add: sl\<close>)
  have slots': "slotsOk (hp_slab h' s)"
    using i(3) by (simp add: sl z_def placed_def slotsOk_def occAt_def)
  have po: "hOwn h p = s" "slotOf ?x p = i" "p < 2 ^ 64"
    using hOwn_slotAddr[OF wf s(1) i(1)] slotOf_slotAddr[OF g i(1)] slotAddr_top[OF g i(1)] by (simp_all add: p_def)
  have s0: "s \<noteq> 0" by (rule registered_wf(3)[OF wf s(1)])
  have no: "\<not> owns h p" using i(2) by (simp add: owns_def Let_def po)
  have zf: "slotOf z = slotOf ?x" "sl_region z = sl_region ?x"
    using headOf_eqD(8)[OF pl(2)] headOf_eqD(1)[OF pl(2)] by simp_all
  have inp: "inReg h' r p"
    using po s(2) s0 pl(3)[of i] by (simp add: inReg_def owns_def Let_def ho sl zf)
  have oth: "inReg h' k' q = inReg h k' q" if q: "q \<noteq> p" for q k'
  proof (cases "q < 2 ^ 64 \<and> hOwn h q = s")
    case True
    then have "slotOf ?x q \<noteq> i" using q hOwn_obj[OF wf, of q s] s0 by (auto simp: p_def)
    then show ?thesis using True pl(3) by (simp add: inReg_def owns_def Let_def ho sl zf)
  next
    case False
    then show ?thesis by (cases "q < 2 ^ 64") (simp_all add: inReg_def owns_def Let_def ho sl)
  qed
  have ti: "typeOf z i = td"
    using pl(5) ty(4) by (simp add: typeOf_def z_def placed_def)
  have fa: "fieldAddrs h' (hOwn h' q) (slotOf (hp_slab h' (hOwn h' q)) q) =
        fieldAddrs h (hOwn h q) (slotOf (hp_slab h (hOwn h q)) q)" if q: "inReg h k' q" for q k'
  proof -
    let ?j = "slotOf (hp_slab h (hOwn h q)) q"
    have "typeOf (hp_slab h' (hOwn h q)) ?j = typeOf (hp_slab h (hOwn h q)) ?j"
    proof (cases "hOwn h q = s")
      case True
      have oj: "occAt ?x ?j" using q True by (simp add: inReg_def owns_def Let_def)
      then have ij: "?j \<noteq> i" using i(2) True by metis
      have jl: "?j < sl_nslots ?x" using inReg_obj(2)[OF wf q] True by simp
      have "sl_tid ?x ! ?j < length (tt_tab (sl_tt ?x))"
        using sh oj slot_wf[OF wf s(1) jl] unfolding slabShape_def by blast
      then show ?thesis
        using True pl(4)[OF ij] ttType_extend[OF ty(5)] by (simp add: typeOf_def sl) (simp add: z_def placed_def)
    qed (simp add: sl)
    then show ?thesis by (simp add: fieldAddrs_def Let_def ho so sl(4))
  qed
  have mk: "marked h' p" if "birthMark (hp_reg h r) s ?x i"
  proof -
    have "birthMark (hp_reg h r) s y i" using that takeSlot_fields(7)[OF t] by (simp add: birthMark_def)
    then have "m" by (simp add: m_def)
    moreover have "rcWord i < length (sl_mark y)"
      using iw sh takeSlot_fields(3)[OF t] by (simp add: slabShape_def)
    ultimately have "bmGet (sl_mark z) i" by (simp add: z_def placed_def bmGet_bmSet)
    then show ?thesis using po by (simp add: marked_def ho sl zf)
  qed
  have mem: "hp_mem h' a = (if p \<le> a \<and> a < p + ss then 0 else hp_mem h a)" for a
    by (simp add: h'_def zeroMem_def)
  have by': "r_bytes (hp_reg h' r) = r_bytes (hp_reg h r) + int ss" by (simp add: h'_def zeroMem_def)
  have sp: "slotOf (hp_slab h' s) p = i" using po by (simp add: so)
  have tp: "typeOf (hp_slab h' s) i = td" using ti by (simp add: sl)
  show ?thesis
    using run wf' slots' no inp oth fa mk mem by' po(1) tp
    by (intro exI[of _ h'] exI[of _ p]) (simp add: ho sp)
qed

end
