(* ===== verification/Rc_Runs.thy ===== *)
theory Rc_Runs
  imports Rc_AllocSafe
begin

text \<open>
  Runs of the reclamation runtime as sequences of steps: a marking round advanced by any sequence
  of budgets, the work bound of a step, and the sweep in flight seen by a slab that is born while
  it runs.
\<close>

section \<open>Marking in any interleaving of budgets\<close>

inductive markRun :: "heap \<Rightarrow> addr \<Rightarrow> addr list \<Rightarrow> heap \<Rightarrow> bool" for h r roots where
  start: "markRun h r roots (markBegin r roots h)"
| step: "markRun h r roots g \<Longrightarrow> markRun h r roots (fst (markStep r b g))"

inductive_cases markRunE: "markRun h r roots g"
inductive_simps markRun_iff: "markRun h r roots g"

lemma markRun_inv:
  assumes "markRun h r roots g" "roundReady h r" "\<forall>p\<in>set roots. p < 2 ^ 64"
  shows "roundInv h g r (baseSet h r roots)"
  using assms(1)
proof (induction rule: markRun.induct)
  case start
  then show ?case by (rule markBegin_inv[OF assms(2,3)])
next
  case (step g b)
  show ?case by (rule markStep_inv[OF step.IH])
qed

section \<open>The work of a step\<close>

lemma markScan_count: "sc_marked (markScan r raw c) \<le> sc_marked c + 1"
  by (simp add: markScan_def Let_def)

lemma scanBatch_count: "sc_marked (scanBatch r xs c) \<le> sc_marked c + length xs"
proof (induction r xs c rule: scanBatch.induct)
  case (2 r x xs c)
  then show ?case using markScan_count[of r x c] by (cases "sc_split c") auto
qed simp

lemma walk_count: "sc_marked (walk r b c) \<le> sc_marked c + b"
proof (induction r b c rule: walk.induct)
  case (1 r b c)
  let ?h = "sc_heap c" and ?stk = "stk (sc_heap c) r"
  show ?case
  proof (cases "?stk \<noteq> [] \<and> b > 0 \<and> \<not> sc_split c")
    case False
    then show ?thesis using walk_stop[OF refl False] by simp
  next
    case True
    show ?thesis
    proof (cases "length ?stk \<le> RC_MARK_SHALLOW")
      case sh: True
      let ?d = "markScan r (hd ?stk) (c\<lparr>sc_heap := popN r 1 ?h\<rparr>)"
      have "walk r b c = walk r (b - 1) ?d" by (rule walk_shallow) (use True sh in auto)
      moreover have "sc_marked (walk r (b - 1) ?d) \<le> sc_marked ?d + (b - 1)"
        by (rule "1.IH"(1)[OF refl refl True sh])
      ultimately show ?thesis
        using markScan_count[of r "hd ?stk" "c\<lparr>sc_heap := popN r 1 ?h\<rparr>"] True by simp
    next
      case dp: False
      let ?l = "batchLim b ?h r"
      let ?d = "scanBatch r (take ?l ?stk) (c\<lparr>sc_heap := popN r ?l ?h\<rparr>)"
      have "walk r b c = walk r (b - ?l) ?d" by (rule walk_deep) (use True dp in auto)
      moreover have "sc_marked (walk r (b - ?l) ?d) \<le> sc_marked ?d + (b - ?l)"
        by (rule "1.IH"(2)[OF refl refl True dp refl])
      moreover have "?l \<le> b" "length (take ?l ?stk) = ?l" by (auto simp: batchLim_def)
      ultimately show ?thesis
        using scanBatch_count[of r "take ?l ?stk" "c\<lparr>sc_heap := popN r ?l ?h\<rparr>"] by simp
    qed
  qed
qed

lemma markStep_count: "snd (markStep r b h) \<le> b"
  using walk_count[of r _ "\<lparr>sc_heap = _, sc_last = 0, sc_split = False, sc_marked = 0\<rparr>"]
  unfolding markStep_def Let_def by (auto intro: order_trans)

section \<open>A stale mark\<close>

text \<open>A round whose only root is marked already pops it and ends.\<close>

lemma drain_stale:
  assumes wf: "heapWf h" and x: "inReg h r x" "marked h x" "x \<noteq> 0"
      and pn: "pinned h r = []" and sa: "\<not> r_seedAny (hp_reg h r)"
  shows "drainLoop r RC_UNBOUNDED (markBegin r [x] h, 0) = Some (popN r 1 (markBegin r [x] h), 0)"
proof -
  define g where "g = markBegin r [x] h"
  define h1 where "h1 = updReg r (\<lambda>x. x\<lparr>r_stk := [], r_scanObj := 0, r_scanOff := 0\<rparr>) h"
  have fr1: "cursorFrame r h h1" unfolding h1_def by (rule cursorFrame_updReg) (simp add: eraseReg_def)
  have ow: "owns h1 x" using cursorFrame_owns[OF fr1] x(1) by (simp add: inReg_def)
  have fr2: "cursorFrame r h1 (markPush r x h1)" by (rule markPush_frame)
  have f2: "markFrame r h (markPush r x h1)"
    using cursorFrame_trans[OF fr1 fr2] by (simp add: cursorFrame_def)
  have "pinned (markPush r x h1) r = []" using pn markFrame_fields(5)[OF f2] by (simp add: pinned_def)
  then have "pinSeed r (markPush r x h1) = markPush r x h1"
    using pinSeed_eq[of "markPush r x h1" r] by (simp add: pushAll_def)
  then have g: "g = updReg r (\<lambda>x. x\<lparr>r_seedRest := r_slabs x, r_seedWord := 0,
      r_seedsDone := (r_slabs x = [] \<or> \<not> r_seedAny x)\<rparr>) (markPush r x h1)"
    using ow x(3) by (simp add: g_def markBegin_def Let_def h1_def[symmetric])
  have fr: "cursorFrame r h g"
    unfolding g by (rule cursorFrame_trans[OF cursorFrame_trans[OF fr1 fr2] cursorFrame_updReg])
      (simp add: eraseReg_def)
  then have f: "markFrame r h g" by (simp add: cursorFrame_def)
  have gr: "stk g r = [x]" "r_scanObj (hp_reg g r) = 0" "r_seedsDone (hp_reg g r)"
    using sa by (simp_all add: g h1_def markPush_def)
  let ?c = "\<lparr>sc_heap = g, sc_last = 0, sc_split = False, sc_marked = 0\<rparr>"
  let ?p = "popN r 1 g"
  let ?c1 = "?c\<lparr>sc_heap := ?p\<rparr>"
  have fp: "markFrame r h ?p" using markFrame_trans[OF f] popN_frame[where r = r and n = 1 and h = g] by (simp add: cursorFrame_def)
  have wfp: "heapWf ?p" by (rule markFrame_wf[OF fp wf])
  have x64: "x < 2 ^ 64" using x(1) by (simp add: inReg_def)
  have ev: "even x" by (rule inReg_even(1)[OF wf x(1)])
  have "marked ?p x" using x(2) cursorFrame_marked[OF fr] cursorFrame_marked[OF popN_frame] by simp
  then have dr: "scanDrops ?p r x" using ev by (simp add: scanDrops_def rawForce_def rawObj_even)
  have "\<exists>l. markScan r x ?c1 = ?c1\<lparr>sc_last := l\<rparr>"
    using markScan_eq[OF wfp, of ?c1 x r] x64 dr by auto
  then obtain l where ms: "markScan r x ?c1 = ?c1\<lparr>sc_last := l\<rparr>" by blast
  have ub: "RC_UNBOUNDED > 0" by (simp add: RC_UNBOUNDED_def)
  have "walk r RC_UNBOUNDED ?c = walk r (RC_UNBOUNDED - 1) (?c1\<lparr>sc_last := l\<rparr>)"
    using walk_shallow[of "[x]" ?c r RC_UNBOUNDED] gr ub ms by (simp add: RC_MARK_SHALLOW_def)
  also have "\<dots> = ?c1\<lparr>sc_last := l\<rparr>" by (rule walk_stop[OF refl]) (simp add: popN_def gr)
  finally have st: "markStep r RC_UNBOUNDED g = (?p, 0)"
    using gr by (simp add: markStep_def Let_def seedPhase_def)
  have "markPending g r" "\<not> markPending ?p r" using gr by (simp_all add: markPending_def popN_def)
  then show ?thesis
    unfolding drainLoop_def g_def[symmetric] by (simp add: while_option_unfold st)
qed

text \<open>So the collection that follows frees every unmarked object of the region, reachable or not.\<close>

lemma collect_stale:
  assumes wf: "heapWf h" and full: "regionFull h r" and fl: "r \<noteq> 0" "\<not> r_marking (hp_reg h r)" "\<not> r_noSweep (hp_reg h r)" "hp_wb h \<ge> 0"
      and x: "inReg h r x" "marked h x" "x \<noteq> 0" and pn: "pinned h r = []" and sa: "\<not> r_seedAny (hp_reg h r)" "seeds h r = {}"
  shows "\<exists>h' n. collect r [x] h = Inr (h', n) \<and> objects h' r = {p \<in> objects h r. marked h p}"
proof -
  let ?a = "rcOpen r h"
  note ca = rcOpen_core[of r h] and fa = rcOpen_fields[of r h]
  note cas = coreEq_simps[OF ca]
  define b where "b = popN r 1 (markBegin r [x] ?a)"
  have sa': "\<not> r_seedAny (hp_reg ?a r)" using sa(1) ca by (simp add: coreEq_def)
  have dr: "drainLoop r RC_UNBOUNDED (markBegin r [x] ?a, 0) = Some (b, 0)"
    unfolding b_def by (rule drain_stale) (use wf x pn sa' cas in simp_all)
  have np: "\<not> markPending b r"
    using while_option_stop[OF dr[unfolded drainLoop_def]] by simp
  have fm: "cursorFrame r ?a (markBegin r [x] ?a)"
  proof -
    have 1: "cursorFrame r g (fold (\<lambda>p h. if p \<noteq> 0 \<and> owns h p then markPush r p h else h) [x] g)" for g
      by (simp add: markPush_frame)
    have 2: "cursorFrame r g (pinSeed r g)" if "pinned g r = []" for g
      using pinSeed_eq[of g r] that by (simp add: pushAll_def)
    let ?u = "updReg r (\<lambda>x. x\<lparr>r_stk := [], r_scanObj := 0, r_scanOff := 0\<rparr>) ?a"
    have u: "cursorFrame r ?a ?u" by (rule cursorFrame_updReg) (simp add: eraseReg_def)
    let ?v = "fold (\<lambda>p h. if p \<noteq> 0 \<and> owns h p then markPush r p h else h) [x] ?u"
    have v: "cursorFrame r ?a ?v" by (rule cursorFrame_trans[OF u 1])
    then have "pinned ?v r = []"
      using markFrame_fields(5)[of r ?a ?v] pn by (simp add: cursorFrame_def pinned_def cas(10)[symmetric, unfolded pinned_def])
    note w = cursorFrame_trans[OF v 2[OF this]]
    show ?thesis
      unfolding markBegin_def Let_def by (rule cursorFrame_trans[OF w cursorFrame_updReg]) (simp add: eraseReg_def)
  qed
  have fr: "cursorFrame r ?a b" unfolding b_def by (rule cursorFrame_trans[OF fm popN_frame])
  then have f: "markFrame r ?a b" by (simp add: cursorFrame_def)
  have br: "eraseReg (hp_reg b r) = eraseReg (hp_reg ?a r)" using f by (simp add: markFrame_def)
  note bf = eraseReg_fields[OF br] markFrame_fields[OF f]
  have wfb: "heapWf b" using markFrame_wf[OF f] wf by (simp add: cas)
  have fullb: "regionFull b r" using full by (simp add: markFrame_full[OF f] cas)
  have mb: "r_marking (hp_reg b r)" "\<not> r_noSweep (hp_reg b r)" "hp_wb b \<ge> 1" using bf fa fl by simp_all
  have pb: "pinned b r = []" using bf pn cas(10)[of r] by (simp add: pinned_def)
  have sb: "\<not> r_seedAny (hp_reg b r) \<longrightarrow> seeds b r = {}" using sa(2) by (simp add: markFrame_seeds[OF f] cas)
  obtain h' where h': "rcBind (rcFinish r (updReg r (\<lambda>x. x\<lparr>r_wbDebt := 0\<rparr>) b)) (\<lambda>h2. rcSettle r h2) = Inr h'"
    "objects h' r = {p \<in> objects b r. marked b p}"
    using collect_tail[OF wfb fullb mb(1) np mb(3,2) fl(1) sb] pb by auto
  have "collect r [x] h = Inr (h', r_swFreed (hp_reg h' r))"
    using fl(2) dr h'(1) by (simp add: collect_eq rcBegin_open)
  moreover have "objects b r = objects h r" by (simp add: objects_def markFrame_inReg[OF f] cas)
  moreover have "marked b p = marked h p" for p using cursorFrame_marked[OF fr] by (simp add: cas)
  ultimately show ?thesis using h'(2) by auto
qed

section \<open>A slab born during a sweep\<close>

text \<open>A sweep in flight never visits a slab that is not ahead of its cursor.\<close>

definition notAhead :: "addr \<Rightarrow> addr \<Rightarrow> bitmap \<Rightarrow> heap \<Rightarrow> bool" where
  "notAhead r s m h \<longleftrightarrow> s \<notin> set (r_swRest (hp_reg h r)) \<and> sl_mark (hp_slab h s) = m \<and>
     (\<forall>t\<in>set (r_swRest (hp_reg h r)). sl_region (hp_slab h t) = r)"

lemma sweepWord_notAhead:
  assumes n: "notAhead r s m h" and ne: "r_swRest (hp_reg h r) \<noteq> []"
  shows "notAhead r s m (fst (sweepWord r h))"
proof -
  obtain t rest where e: "r_swRest (hp_reg h r) = t # rest" using ne by (cases "r_swRest (hp_reg h r)") auto
  have rg: "sl_region (hp_slab h t) = r" "s \<noteq> t" using n e by (auto simp: notAhead_def)
  have ep: "eraseSweep (y\<lparr>sl_epoch := k\<rparr>) = eraseSweep y" for y k by (simp add: eraseSweep_def)
  obtain g R x' where g: "edgeFrame r h g"
    "fst (sweepWord r h) = g\<lparr>hp_slab := (hp_slab g)(t := x'), hp_reg := (hp_reg h)(r := R)\<rparr>"
    "set (r_swRest R) \<subseteq> set (t # rest)" "eraseSweep x' = eraseSweep (hp_slab h t)"
  proof -
    let ?w = "r_swWord (hp_reg h r)" and ?x = "hp_slab h t"
    let ?x' = "if ?w + 1 \<ge> sl_nwords ?x then (sweptWord ?w ?x)\<lparr>sl_epoch := r_swId (hp_reg h r)\<rparr> else sweptWord ?w ?x"
    obtain g R where o: "edgeFrame r h g"
      "sweepWord r h = (g\<lparr>hp_slab := (hp_slab g)(t := ?x'), hp_reg := (hp_reg h)(r := R)\<rparr>, ?w + 1 \<ge> sl_nwords ?x \<and> rest = [])"
      "r_swRest R = (if ?w + 1 \<ge> sl_nwords ?x then rest else t # rest)"
      using sweepWord_eq[OF e rg(1)] by blast
    show ?thesis
    proof (rule that)
      show "eraseSweep ?x' = eraseSweep ?x" using ep sweptWord_fields(3) by (cases "?w + 1 \<ge> sl_nwords ?x") simp_all
      show "set (r_swRest R) \<subseteq> set (t # rest)" using o(3) by (auto split: if_splits)
    qed (use o(1,2) in simp_all)
  qed
  have xr: "sl_region x' = r" using eraseSweep_fields(4)[OF g(4)] rg(1) by simp
  have eq: "edgeEq (hp_slab g a) (hp_slab h a)" for a using g(1) by (simp add: edgeFrame_def)
  have N: "s \<notin> set (t # rest)" "sl_mark (hp_slab h s) = m" "\<And>u. u \<in> set (t # rest) \<Longrightarrow> sl_region (hp_slab h u) = r"
    using n unfolding notAhead_def e by blast+
  let ?k = "g\<lparr>hp_slab := (hp_slab g)(t := x'), hp_reg := (hp_reg h)(r := R)\<rparr>"
  have kr: "hp_reg ?k r = R" by simp
  show ?thesis
    unfolding notAhead_def g(2) kr
  proof (intro conjI ballI)
    show "s \<notin> set (r_swRest R)" using N(1) g(3) by blast
    show "sl_mark (hp_slab ?k s) = m" using rg(2) N(2) edgeEq_fields(3)[OF eq] by simp
    fix u assume "u \<in> set (r_swRest R)"
    then have "sl_region (hp_slab h u) = r" using g(3) N(3) by blast
    then show "sl_region (hp_slab ?k u) = r" using xr edgeEq_fields(1)[OF eq] by simp
  qed
qed

lemma sweepLoop_notAhead: "notAhead r s m h \<Longrightarrow> notAhead r s m (sweepLoop r left h)"
proof (induction r left h rule: sweepLoop.induct)
  case (1 r left h)
  show ?case
  proof (cases "left > 0 \<and> r_swRest (hp_reg h r) \<noteq> []")
    case True
    obtain g b where sw: "sweepWord r h = (g, b)" by fastforce
    have k: "notAhead r s m g" using sweepWord_notAhead[OF "1.prems"] True sw by simp
    show ?thesis
    proof (cases b)
      case True
      then show ?thesis unfolding sweepLoop_go[OF \<open>left > 0 \<and> r_swRest (hp_reg h r) \<noteq> []\<close>] sw using k by simp
    next
      case False
      show ?thesis
        unfolding sweepLoop_go[OF True] sw using "1.IH"[OF True sw[symmetric] False k] False by simp
    qed
  qed (use "1.prems" in \<open>simp add: sweepLoop_stop\<close>)
qed

lemma sweepStep_notAhead: "notAhead r s m h \<Longrightarrow> sl_mark (hp_slab (fst (sweepStep r b h)) s) = m"
  using sweepLoop_notAhead[of r s m h b] by (auto simp: sweepStep_def Let_def notAhead_def)

text \<open>A slab opened for an allocation, and its first slot.\<close>

lemma classNeed_fields [simp]:
  "r_sweeping (classNeed ss x) = r_sweeping x" "r_swRest (classNeed ss x) = r_swRest x"
  "r_swId (classNeed ss x) = r_swId x" "r_swWord (classNeed ss x) = r_swWord x"
  "r_marking (classNeed ss x) = r_marking x"
  by (simp_all add: classNeed_def split: option.split)

lemma openSlab_new:
  assumes "openSlab r ss m h = Some (s, h1)"
  shows "hp_slab h1 = (hp_slab h)(s := (slabInit r ss m)\<lparr>sl_avail := True\<rparr>)"
    "r_sweeping (hp_reg h1 r) = r_sweeping (hp_reg h r)" "r_swRest (hp_reg h1 r) = r_swRest (hp_reg h r)"
    "r_swId (hp_reg h1 r) = r_swId (hp_reg h r)" "r_swWord (hp_reg h1 r) = r_swWord (hp_reg h r)"
    "r_marking (hp_reg h1 r) = r_marking (hp_reg h r)"
  using assms
  by (auto simp: openSlab_def slabNew_def classPush_def Let_def setChain_def split: option.splits if_splits)

lemma slabInit_fresh:
  "sl_free (slabInit r ss m) = -1" "sl_bump (slabInit r ss m) = 0" "sl_epoch (slabInit r ss m) = 0"
  "sl_region (slabInit r ss m) = r" "sl_mark (slabInit r ss m) = replicate (slabWords (slabSlots ss)) 0"
  by (simp_all add: slabInit_def Let_def)

lemma slabSlots_pos: "0 < slabSlots ss"
  by (simp add: slabSlots_def slabBig_def)

lemma placeSlot_first:
  assumes x: "sl_free (hp_slab h s) = -1" "sl_bump (hp_slab h s) = 0" "0 < length (sl_mark (hp_slab h s))"
      and p: "placeSlot r s ss td h = Inr (h2, p)"
  shows "p = slotAddr (hp_slab h2 s) 0" "a \<noteq> s \<Longrightarrow> hp_slab h2 a = hp_slab h a"
    "sl_region (hp_slab h2 a) = sl_region (hp_slab h a)"
    "r_swRest (hp_reg h2 r) = r_swRest (hp_reg h r)"
    "birthMark (hp_reg h r) s (hp_slab h s) 0 \<Longrightarrow> bmGet (sl_mark (hp_slab h2 s)) 0"
proof -
  obtain y where t: "takeSlot (hp_slab h s) = (0, y)" using x by (simp add: takeSlot_def)
  note f = takeSlot_fields[OF t] and e = headOf_eqD[OF takeSlot_fields(1)[OF t]]
  have tt: "typeIdx (sl_tt (hp_slab h s)) td \<noteq> None"
  proof
    assume n: "typeIdx (sl_tt (hp_slab h s)) td = None"
    have "placeSlot r s ss td h = Inl Trap"
      unfolding placeSlot_def t Let_def by (simp add: f(6) n)
    then show False using p by simp
  qed
  then obtain k tt where ty: "typeIdx (sl_tt (hp_slab h s)) td = Some (k, tt)" by auto
  let ?b = "birthMark (hp_reg h r) s y 0"
  from placeSlot_eq[OF t ty, of r ss] p
  have h2: "h2 = updReg r (\<lambda>x. x\<lparr>r_bytes := r_bytes x + int ss, r_allocBytes := r_allocBytes x + int ss\<rparr>)
          (zeroMem (slotAddr (hp_slab h s) 0) ss (updSlab s (\<lambda>_. placed 0 k tt ?b y) h))"
    and pp: "p = slotAddr (hp_slab h s) 0" by auto
  have sl: "hp_slab h2 = (hp_slab h)(s := placed 0 k tt ?b y)" by (simp add: h2)
  have hd: "headOf (placed 0 k tt ?b y) = headOf (hp_slab h s)"
    using f(1) by (simp add: placed_def occupy_def headOf_def)
  show "p = slotAddr (hp_slab h2 s) 0" using headOf_eqD(9)[OF hd] by (simp add: pp sl)
  show "a \<noteq> s \<Longrightarrow> hp_slab h2 a = hp_slab h a" by (simp add: sl)
  show "sl_region (hp_slab h2 a) = sl_region (hp_slab h a)" using headOf_eqD(1)[OF hd] by (simp add: sl)
  show "r_swRest (hp_reg h2 r) = r_swRest (hp_reg h r)" by (simp add: h2)
  assume "birthMark (hp_reg h r) s (hp_slab h s) 0"
  then have "?b" using f(7) by (simp add: birthMark_def)
  then show "bmGet (sl_mark (hp_slab h2 s)) 0"
    using x(3) f(3) by (simp add: sl placed_def bmGet_bmSet rcWord_def)
qed

end
