(* ===== verification/Rc_Claims.thy ===== *)
theory Rc_Claims
  imports Rc_Runs
begin

text \<open>
  The properties of the reclamation runtime, each stated over the model's own operations, with
  closed instances on the concrete heap of \<open>Rc_Example\<close>.
\<close>

section \<open>Collection\<close>



text \<open>C2: the number \<open>extc_rc_collect\<close> returns is the number of objects it freed, the counter of
  marking and sweeping regions is back to what it was, and the byte counter of the region goes
  down by the slot sizes of what was freed.\<close>

theorem collect_accounts:
  assumes "collectable h r" "\<forall>p\<in>set roots. p < 2 ^ 64" "collect r roots h = Inr (h', n)"
  shows "int n = liveSlots h r - liveSlots h' r \<and> hp_wb h' = hp_wb h \<and>
    r_bytes (hp_reg h r) - r_bytes (hp_reg h' r) = liveBytes h r - liveBytes h' r"
  using collect_run[OF assms(1,2)] assms(3) by auto

theorem collect_accounts_witness:
  "\<exists>h' n. collect 8 [exX] (exHeap 0) = Inr (h', n) \<and> int n = liveSlots (exHeap 0) 8 - liveSlots h' 8 \<and> hp_wb h' = 0"
proof -
  obtain h' n where "collect 8 [exX] (exHeap 0) = Inr (h', n)"
    using collect_run[OF ex_collectable ex_roots(1)] by blast
  then show ?thesis using collect_accounts[OF ex_collectable ex_roots(1)] by (auto simp: exHeap_def)
qed

section \<open>Marking\<close>



text \<open>C4: incremental marking. Whatever budgets the steps of a round are given, and in whatever
  number, once nothing is pending the marks are exactly the reachable objects; and at every moment
  in between only reachable objects are marked.\<close>

theorem mark_incremental:
  assumes "markRun h r roots g" "roundReady h r" "\<forall>p\<in>set roots. p < 2 ^ 64" "inReg h r p"
  shows "(marked g p \<longrightarrow> reach h r (baseSet h r roots) p) \<and>
    (\<not> markPending g r \<longrightarrow> (marked g p \<longleftrightarrow> reach h r (baseSet h r roots) p))"
proof -
  note R = markRun_inv[OF assms(1-3)]
  then have f: "markFrame r h g" and inv: "markInv g r (baseSet h r roots) []"
    by (simp_all add: roundInv_def)
  have p: "inReg g r p" using assms(4) f by (simp add: markFrame_inReg)
  have "marked g p \<longrightarrow> reach g r (baseSet h r roots) p" using inv p by (simp add: markInv_def markSound_def)
  then show ?thesis using roundInv_done[OF R _ p] f by (simp add: markFrame_reach)
qed

theorem mark_incremental_witness:
  "\<not> marked (fst (markStep 8 1 (markBegin 8 [exX] (exHeap 0)))) exZ"
proof -
  have m: "markRun (exHeap 0) 8 [exX] (fst (markStep 8 1 (markBegin 8 [exX] (exHeap 0))))"
    by (rule markRun.step[OF markRun.start])
  have "exZ \<noteq> exX" "exZ \<noteq> exY" by (simp_all add: ex_addrs)
  then show ?thesis
    using mark_incremental[OF m ex_ready ex_roots(1), of exZ] by (simp add: ex_base ex_reach ex_inReg)
qed


lemma ex_pending: "markPending (markBegin 8 [exX] (exHeap 0)) 8"
proof -
  let ?u = "updReg 8 (\<lambda>x. x\<lparr>r_stk := [], r_scanObj := 0, r_scanOff := 0\<rparr>) (exHeap 0)"
  have "cursorFrame 8 (exHeap 0) ?u" by (rule cursorFrame_updReg) (simp add: eraseReg_def)
  then have "owns ?u exX" using cursorFrame_owns ex_inReg[of 0 exX] by (auto simp: inReg_def)
  moreover have "exX \<noteq> 0" by (simp add: ex_addrs)
  ultimately show ?thesis
    by (simp add: markPending_def markBegin_def Let_def pinSeed_def exHeap_def) (simp add: markPush_def updReg_def)
qed


text \<open>The bounds on what the mutator pays. A mark step marks at most as many objects as its
  budget, and the budgets of the explicit step and of the step an allocation makes are at most
  72 and 256 whatever debt the write barrier has left.\<close>

theorem mark_work_bound:
  "snd (markStep r b h) \<le> b \<and> stepBudget x \<le> 72 \<and> advanceBudget x \<le> 256"
proof -
  have "stepBudget x \<le> 72" by (simp add: stepBudget_def RC_MARK_STEP_def)
  moreover have "advanceBudget x \<le> 256" by (simp add: advanceBudget_def Let_def RC_MARK_BATCH_MAX_def)
  ultimately show ?thesis using markStep_count by blast
qed

section \<open>Marks that outlive their round\<close>

text \<open>C6: the collector relies on the marks being clear when a round starts. An object that still
  carries the mark of an earlier round is taken as scanned already: on this concrete heap the root
  is marked, its child is reachable, and \<open>extc_rc_collect\<close> frees the child.\<close>

theorem stale_mark_loses_child:
  "reach (exHeap 1) 8 (baseSet (exHeap 1) 8 [exX]) exY \<and>
   (\<exists>h' n. collect 8 [exX] (exHeap 1) = Inr (h', n) \<and> objects h' 8 = {exX})"
proof -
  have r: "r_marking (hp_reg (exHeap 1) 8) = False" "r_noSweep (hp_reg (exHeap 1) 8) = False"
    "r_seedAny (hp_reg (exHeap 1) 8) = False" "hp_wb (exHeap 1) = 0" "pinned (exHeap 1) 8 = []"
    by (simp_all add: exHeap_def exRegion_def regionZero_def pinned_def)
  have b: "bit (1 :: 64 word) 1 = False" "bit (1 :: 64 word) 2 = False" "bit (1 :: 64 word) 0 = True" by simp_all
  have e: "{p \<in> objects (exHeap 1) 8. marked (exHeap 1) p} = {exX}"
    using ex_marked[of 1] b by (auto simp: objects_def ex_inReg)
  have "exX \<noteq> 0" by (simp add: ex_addrs)
  then have "\<exists>h' n. collect 8 [exX] (exHeap 1) = Inr (h', n) \<and>
      objects h' 8 = {p \<in> objects (exHeap 1) 8. marked (exHeap 1) p}"
    by (intro collect_stale) (simp_all add: ex_wf ex_full r ex_inReg ex_marked ex_seeds)
  then show ?thesis unfolding e by (simp add: ex_base ex_reach)
qed

text \<open>An object placed in a slab that was opened while its region is being swept is born marked,
  and no step of that sweep, whatever its budget, clears the mark: the new slab stands before the
  cursor. The next round then starts with a marked object, the situation of the property before.\<close>

theorem newborn_mark_outlives_sweep:
  assumes "openSlab r ss m h = Some (s, h1)" "placeSlot r s ss td h1 = Inr (h2, p)"
      "r_sweeping (hp_reg h r)" "r_swId (hp_reg h r) \<noteq> 0"
      "s \<notin> set (r_swRest (hp_reg h r))" "\<forall>t\<in>set (r_swRest (hp_reg h r)). sl_region (hp_slab h t) = r"
  shows "p = slotAddr (hp_slab h2 s) 0 \<and> bmGet (sl_mark (hp_slab (fst (sweepStep r b h2)) s)) 0"
proof -
  note n = openSlab_new[OF assms(1)]
  let ?x = "(slabInit r ss m)\<lparr>sl_avail := True\<rparr>"
  have x: "hp_slab h1 s = ?x" by (simp add: n(1))
  have "0 < slabWords (slabSlots ss)" using slabWords_enough[OF slabSlots_pos, of ss] by simp
  then have fr: "sl_free (hp_slab h1 s) = -1" "sl_bump (hp_slab h1 s) = 0" "0 < length (sl_mark (hp_slab h1 s))"
    by (simp_all add: x slabInit_fresh)
  note q = placeSlot_first[OF fr assms(2)]
  have bm: "birthMark (hp_reg h1 r) s (hp_slab h1 s) 0"
    using assms(3-5) n x slabInit_fresh by (cases "r_swRest (hp_reg h r)") (auto simp: birthMark_def)
  have "sl_region (hp_slab h2 t) = r" if "t \<in> set (r_swRest (hp_reg h r))" for t
    using q(3)[of t] assms(5,6) that by (cases "t = s") (auto simp: n(1))
  then have "notAhead r s (sl_mark (hp_slab h2 s)) h2"
    using assms(5) n(3) q(4) by (simp add: notAhead_def)
  from sweepStep_notAhead[OF this, of b] show ?thesis using q(1,5) bm by simp
qed

definition exSweeping :: heap where
  "exSweeping = updReg 8 (\<lambda>x. x\<lparr>r_sweeping := True, r_swId := 1, r_swRest := [exA]\<rparr>) (exHeap 0)"

lemma ex_slots: "slabBig 16 = False" "slabSlots 16 = 4084"
proof -
  have "slabChunk 16 = 65536"
    by (simp add: slabChunk_def layout_consts chunkGrow.simps[of 16 65536])
  then show "slabBig 16 = False" "slabSlots 16 = 4084"
    by (simp_all add: slabBig_def slabSlots_def slabCap_def layout_consts)
qed

theorem newborn_mark_outlives_sweep_witness:
  "\<exists>s h1 h2 p. openSlab 8 16 \<lparr>ma_hdr = 2 ^ 21, ma_data = 0, ma_meta = True\<rparr> exSweeping = Some (s, h1) \<and>
     placeSlot 8 s 16 0 h1 = Inr (h2, p) \<and> bmGet (sl_mark (hp_slab (fst (sweepStep 8 32 h2)) s)) 0"
proof -
  let ?m = "\<lparr>ma_hdr = 2 ^ 21, ma_data = 0, ma_meta = True\<rparr>"
  have nb: "sl_big (slabInit 8 16 ?m) = False" "sl_nslots (slabInit 8 16 ?m) = 4084"
    by (simp_all add: slabInit_def Let_def ex_slots)
  have "\<exists>h1. openSlab 8 16 ?m exSweeping = Some (2 ^ 21, h1)"
    unfolding openSlab_def slabNew_def Let_def nb by (simp add: RC_REUSE_MAX_SLOT_def)
  then obtain h1 where o: "openSlab 8 16 ?m exSweeping = Some (2 ^ 21, h1)" by blast
  have x: "sl_free (hp_slab h1 (2 ^ 21)) = -1" "sl_bump (hp_slab h1 (2 ^ 21)) = 0"
    by (simp_all add: openSlab_new(1)[OF o] slabInit_fresh)
  then obtain y where tk: "takeSlot (hp_slab h1 (2 ^ 21)) = (0, y)" by (simp add: takeSlot_def)
  have ty: "typeIdx (sl_tt (hp_slab h1 (2 ^ 21))) 0 = Some (0, sl_tt (hp_slab h1 (2 ^ 21)))" by (simp add: typeIdx_def)
  obtain h2 p where q: "placeSlot 8 (2 ^ 21) 16 0 h1 = Inr (h2, p)"
    using placeSlot_eq[OF tk ty, of 8 16] by blast
  have reg: "r_sweeping (hp_reg exSweeping 8)" "r_swId (hp_reg exSweeping 8) = 1" "r_swRest (hp_reg exSweeping 8) = [exA]"
    "sl_region (hp_slab exSweeping exA) = 8"
    by (simp_all add: exSweeping_def exHeap_def)
  have "bmGet (sl_mark (hp_slab (fst (sweepStep 8 32 h2)) (2 ^ 21))) 0"
    using newborn_mark_outlives_sweep[OF o q, of 32] reg by (simp add: exA_def)
  then show ?thesis using o q by blast
qed

section \<open>Allocation\<close>

text \<open>C7: the slot an allocation takes. On a slab of the region that is not full, placing an object
  returns the address of a slot that held no object, occupied afterwards, with the descriptor asked
  for and every byte zero; every other object is still there with its fields at the same addresses,
  the byte counter grows by the slot size, and the chain of free slots stays exact.\<close>

theorem place_fresh:
  assumes "heapWf h" "registered h s" "sl_region (hp_slab h s) = r" "slotsOk (hp_slab h s)"
      "\<not> slabFull (hp_slab h s)" "ss = sl_ss (hp_slab h s)"
      "td \<in> set (tt_tab (sl_tt (hp_slab h s))) \<or> length (tt_tab (sl_tt (hp_slab h s))) < 0xFFFF"
  shows "\<exists>h' p. placeSlot r s ss td h = Inr (h', p) \<and> heapWf h' \<and> slotsOk (hp_slab h' s) \<and>
    \<not> owns h p \<and> inReg h' r p \<and> (\<forall>q k. q \<noteq> p \<longrightarrow> inReg h' k q = inReg h k q) \<and>
    typeOf (hp_slab h' s) (slotOf (hp_slab h' s) p) = td \<and>
    (\<forall>a. hp_mem h' a = (if p \<le> a \<and> a < p + ss then 0 else hp_mem h a)) \<and>
    (\<forall>q k. inReg h k q \<longrightarrow> fieldAddrs h' (hOwn h' q) (slotOf (hp_slab h' (hOwn h' q)) q) =
        fieldAddrs h (hOwn h q) (slotOf (hp_slab h (hOwn h q)) q)) \<and>
    r_bytes (hp_reg h' r) = r_bytes (hp_reg h r) + int ss"
proof -
  obtain h' p where "placeSlot r s ss td h = Inr (h', p) \<and> heapWf h' \<and> slotsOk (hp_slab h' s) \<and>
    \<not> owns h p \<and> inReg h' r p \<and> hOwn h' p = s \<and>
    (\<forall>q k. q \<noteq> p \<longrightarrow> inReg h' k q = inReg h k q) \<and>
    typeOf (hp_slab h' s) (slotOf (hp_slab h' s) p) = td \<and>
    (\<forall>a. hp_mem h' a = (if p \<le> a \<and> a < p + ss then 0 else hp_mem h a)) \<and>
    (\<forall>q k. inReg h k q \<longrightarrow> fieldAddrs h' (hOwn h' q) (slotOf (hp_slab h' (hOwn h' q)) q) =
        fieldAddrs h (hOwn h q) (slotOf (hp_slab h (hOwn h q)) q)) \<and>
    (birthMark (hp_reg h r) s (hp_slab h s) (slotOf (hp_slab h' s) p) \<longrightarrow> marked h' p) \<and>
    r_bytes (hp_reg h' r) = r_bytes (hp_reg h r) + int ss"
    using placeSlot_ok[OF assms] by (elim exE)
  then show ?thesis by (intro exI[of _ h'] exI[of _ p]) (elim conjE, intro conjI; assumption)
qed

lemma ex_slotsOk: "slotsOk (exSlab m)"
proof -
  have "\<not> occAt (exSlab m) 3" using ex_occ[of 3 m] by (simp add: rcWord_def)
  then have "\<not> occAt (exSlab m) i" if "3 \<le> i" "i < 4" for i using that by (cases "i = 3") auto
  moreover have "occAt (exSlab m) i" if "i < 3" for i using ex_occ[of i m] that by (simp add: rcWord_def)
  moreover have "sl_bump (exSlab m) = 3" "sl_free (exSlab m) = -1" by (simp_all add: exSlab_def)
  ultimately show ?thesis unfolding slotsOk_def by (auto intro!: exI[of _ "[]"])
qed

theorem place_fresh_witness:
  "\<exists>h' p. placeSlot 8 exA 16 1000 (exHeap 0) = Inr (h', p) \<and> \<not> owns (exHeap 0) p \<and> inReg h' 8 p"
proof -
  have s: "hp_slab (exHeap 0) exA = exSlab 0" by (simp add: exHeap_def)
  have nf: "\<not> slabFull (exSlab 0)" by (simp add: slabFull_def exSlab_def)
  show ?thesis
    using place_fresh[where h = "exHeap 0" and s = exA and r = 8 and ss = 16 and td = 1000] ex_wf by (simp add: s ex_reg ex_slotsOk nf) blast
qed

text \<open>C8: giving a slot back puts it at the head of the chain of free slots, so the next allocation
  in the slab takes that very slot and the rest of the chain is what it was; the chain stays exact:
  distinct, and precisely the slots below the bump index that hold no object.\<close>

theorem free_then_take:
  assumes "slotsOk x" "i < sl_bump x" "occAt x i" "sl_nslots x \<le> RC_REUSE_MAX_SLOT"
      "length (sl_occ x) = sl_nwords x" "sl_nwords x = slabWords (sl_nslots x)" "length (sl_tid x) = sl_nslots x"
  shows "slotsOk ((linkSlot i x)\<lparr>sl_occ := bmClr (sl_occ x) i\<rparr>) \<and>
    takeSlot (linkSlot i x) = (i, (linkSlot i x)\<lparr>sl_free := sl_free x\<rparr>)"
proof -
  obtain js where c: "freeChain (sl_tid x) (sl_free x) js" "set js = {i. i < sl_bump x \<and> \<not> occAt x i}"
    and b: "sl_bump x \<le> sl_nslots x"
    using assms(1) by (auto simp: slotsOk_def)
  have "-1 \<le> sl_free x \<and> sl_free x < 2 ^ 16 - 1"
  proof (cases js)
    case Nil
    then show ?thesis using c(1) by simp
  next
    case (Cons j ks)
    then have "j < sl_bump x" using c(2) by (metis (mono_tags) list.set_intros(1) mem_Collect_eq)
    then show ?thesis using c(1) b Cons assms(4) by (simp add: RC_REUSE_MAX_SLOT_def)
  qed
  then show ?thesis using linkSlot_ok[OF assms] takeSlot_linkSlot[of i x] assms(2,7) b by simp
qed

theorem free_then_take_witness: "fst (takeSlot (linkSlot 1 (exSlab 0))) = 1"
proof -
  have "occAt (exSlab 0) 1" using ex_occ[of 1 0] by (simp add: rcWord_def)
  then have "takeSlot (linkSlot 1 (exSlab 0)) = (1, (linkSlot 1 (exSlab 0))\<lparr>sl_free := sl_free (exSlab 0)\<rparr>)"
    using free_then_take[OF ex_slotsOk, of 1 0]
    by (simp add: RC_REUSE_MAX_SLOT_def slabWords_def) (simp add: exSlab_def)
  then show ?thesis by simp
qed

section \<open>The slab registry\<close>

text \<open>C9: the lookup of the slab that owns an address gives, through its two caches and two open
  addressing tables, what the maps alone say: the aligned slab when the address is the head of one
  of its slots, else the oversized slab whose data starts there, else nothing. The caches stay
  consistent with the tables.\<close>

theorem registry_lookup:
  assumes "registryOk sl g"
  shows "\<exists>h. ownSlab sl g p =
           Some (ownSlabSpec sl (regAbs sl (og_own g)) (regAbs sl (og_big g)) p, g\<lparr>og_hot := h\<rparr>) \<and>
         registryOk sl (g\<lparr>og_hot := h\<rparr>)"
  by (rule ownSlab_spec[OF assms])

theorem registry_lookup_witness:
  "\<exists>h. ownSlab (\<lambda>_. exSlab 0) registryNew exX = Some (0, registryNew\<lparr>og_hot := h\<rparr>)"
proof -
  have "regAbs sl (og_own registryNew) = Map.empty" "regAbs sl (og_big registryNew) = Map.empty" for sl
    by (simp_all add: registryNew_def regAbs_def fun_eq_iff tabLookup_def)
  then show ?thesis
    using registry_lookup[OF registryOk_new[of "\<lambda>_. exSlab 0"], of exX]
    by (auto simp: ownSlabSpec_def cellPtr_def)
qed

text \<open>C10: registering a slab and removing it again, for both kinds of slab. Both operations run to an end,
  growing the table when it would be more than half full. An ordinary slab goes into the first table
  under its own address, an oversized one into the second under the address of its data; the registry then stands for
  the map with the slab added and afterwards for the map it stood for before, and the table of the
  other kind is untouched.\<close>

theorem registry_add_del:
  assumes "registryOk sl g" "s \<noteq> 0"
    "(if sl_big (sl s) then regAbs sl (og_big g) (sl_data (sl s)) else regAbs sl (og_own g) s) = None"
  shows "\<exists>g1 g2. ownAdd sl g s = Some g1 \<and> registryOk sl g1 \<and> ownDel sl g1 s = Some g2 \<and> registryOk sl g2 \<and>
    (if sl_big (sl s)
     then regAbs sl (og_big g1) = (regAbs sl (og_big g))(sl_data (sl s) \<mapsto> s) \<and> og_own g1 = og_own g \<and>
       regAbs sl (og_big g2) = regAbs sl (og_big g) \<and> og_own g2 = og_own g
     else regAbs sl (og_own g1) = (regAbs sl (og_own g))(s \<mapsto> s) \<and> og_big g1 = og_big g \<and>
       regAbs sl (og_own g2) = regAbs sl (og_own g) \<and> og_big g2 = og_big g)"
proof (cases "sl_big (sl s)")
  case False
  have n: "regAbs sl (og_own g) s = None" using assms(3) False by simp
  obtain g1 where g1: "ownAdd sl g s = Some g1" "registryOk sl g1"
    "regAbs sl (og_own g1) = (regAbs sl (og_own g))(s \<mapsto> s)" "og_big g1 = og_big g"
    using ownAdd_ordinary[OF assms(1,2) False n] by blast
  have s: "regAbs sl (og_own g1) s = Some s" using g1(3) by simp
  obtain g2 where g2: "ownDel sl g1 s = Some g2" "registryOk sl g2"
    "regAbs sl (og_own g2) = (regAbs sl (og_own g1))(s := None)" "og_big g2 = og_big g1"
    using ownDel_ordinary[OF g1(2) False s] by blast
  have "(regAbs sl (og_own g1))(s := None) = regAbs sl (og_own g)" using n g1(3) by (auto simp: fun_eq_iff)
  then show ?thesis using g1 g2 False by auto
next
  case True
  let ?d = "sl_data (sl s)"
  have n: "regAbs sl (og_big g) ?d = None" using assms(3) True by simp
  obtain g1 where g1: "ownAdd sl g s = Some g1" "registryOk sl g1"
    "regAbs sl (og_big g1) = (regAbs sl (og_big g))(?d \<mapsto> s)" "og_own g1 = og_own g"
    using ownAdd_big[OF assms(1,2) True n] by blast
  have s: "regAbs sl (og_big g1) ?d = Some s" using g1(3) by simp
  obtain g2 where g2: "ownDel sl g1 s = Some g2" "registryOk sl g2"
    "regAbs sl (og_big g2) = (regAbs sl (og_big g1))(?d := None)" "og_own g2 = og_own g1"
    using ownDel_big[OF g1(2) True s] by blast
  have "(regAbs sl (og_big g1))(?d := None) = regAbs sl (og_big g)" using n g1(3) by (auto simp: fun_eq_iff)
  then show ?thesis using g1 g2 True by auto
qed

text \<open>An ordinary slab, and an oversized one whose data starts at another address.\<close>

theorem registry_add_del_witness:
  "(\<exists>g1. ownAdd (\<lambda>_. exSlab 0) registryNew exA = Some g1 \<and> regAbs (\<lambda>_. exSlab 0) (og_own g1) exA = Some exA) \<and>
   (\<exists>g1. ownAdd (\<lambda>_. (exSlab 0)\<lparr>sl_big := True\<rparr>) registryNew exA = Some g1 \<and>
      regAbs (\<lambda>_. (exSlab 0)\<lparr>sl_big := True\<rparr>) (og_big g1) (sl_data (exSlab 0)) = Some exA \<and> og_own g1 = og_own registryNew)"
proof
  have e: "regAbs sl (og_own registryNew) a = None" "regAbs sl (og_big registryNew) a = None" for sl a
    by (simp_all add: registryNew_def regAbs_def tabLookup_def)
  have b: "\<not> sl_big (exSlab 0)" "exA \<noteq> 0" by (simp_all add: exSlab_def exA_def)
  show "\<exists>g1. ownAdd (\<lambda>_. exSlab 0) registryNew exA = Some g1 \<and> regAbs (\<lambda>_. exSlab 0) (og_own g1) exA = Some exA"
    using registry_add_del[OF registryOk_new, of exA "\<lambda>_. exSlab 0"] b e by auto
  show "\<exists>g1. ownAdd (\<lambda>_. (exSlab 0)\<lparr>sl_big := True\<rparr>) registryNew exA = Some g1 \<and>
      regAbs (\<lambda>_. (exSlab 0)\<lparr>sl_big := True\<rparr>) (og_big g1) (sl_data (exSlab 0)) = Some exA \<and> og_own g1 = og_own registryNew"
    using registry_add_del[OF registryOk_new, of exA "\<lambda>_. (exSlab 0)\<lparr>sl_big := True\<rparr>"] b e by auto
qed

section \<open>Pins, type indices and slot geometry\<close>

text \<open>C11: the pin table counts. Pinning an object adds one to its count and to no other, unpinning
  takes it away again, and the table invariant holds after both: the number of pins of every value
  is what it was.\<close>

theorem pin_balance:
  assumes "pinsOk h" "v \<noteq> 0" "owns h v"
  shows "\<exists>h1 h2. pinAdd True v h = Some (True, h1) \<and> pinCount h1 v = pinCount h v + 1 \<and>
    pinSub v h1 = Some h2 \<and> pinsOk h2 \<and> (\<forall>u. pinCount h2 u = pinCount h u)"
proof -
  obtain h1 where h1: "pinAdd True v h = Some (True, h1)" "pinsOk h1"
    "\<forall>u. pinCount h1 u = pinCount h u + (if u = v then 1 else 0)" using pinAdd_ok[OF assms] by blast
  obtain h2 where h2: "pinSub v h1 = Some h2" "pinsOk h2"
    "\<forall>u. pinCount h2 u = pinCount h1 u - (if u = v \<and> v \<noteq> 0 then 1 else 0)" using pinSub_ok[OF h1(2), of v] by blast
  show ?thesis using h1 h2 assms(2) by (intro exI[of _ h1] exI[of _ h2]) simp
qed

theorem pin_balance_witness:
  "\<exists>h1 h2. pinAdd True exX (exHeap 0) = Some (True, h1) \<and> pinSub exX h1 = Some h2 \<and> pinCount h2 exX = 0"
proof -
  have "pinsOk (exHeap 0)" "pinCount (exHeap 0) exX = 0"
    by (simp_all add: pinsOk_def pinCount_def exHeap_def tabLookup_def)
  moreover have "owns (exHeap 0) exX" "exX \<noteq> 0" using ex_inReg[of 0 exX] by (simp_all add: inReg_def ex_addrs)
  ultimately show ?thesis using pin_balance[of "exHeap 0" exX] by auto
qed

text \<open>The type index of a slab. Looking a descriptor up gives an index that stands for that
  descriptor, the table only grows, and the index built past eight types keeps answering the same
  as the linear scan; the one failure is the trap at 65535 types.\<close>

theorem type_index:
  assumes "ttOk tt" "td \<in> set (tt_tab tt) \<or> length (tt_tab tt) < 0xFFFF"
  shows "\<exists>k tt'. typeIdx tt td = Some (k, tt') \<and> ttOk tt' \<and> k < length (tt_tab tt') \<and>
     ttType tt' k = td \<and> (\<exists>ext. tt_tab tt' = tt_tab tt @ ext)"
  by (rule typeIdx_ok[OF assms])

theorem type_index_witness: "\<exists>k tt'. typeIdx ttabNew 4096 = Some (k, tt') \<and> ttType tt' k = 4096"
  using type_index[OF ttOk_new, of 4096] by (auto simp: ttabNew_def)

text \<open>C12: the division-free slot number. In every slab with a valid geometry the slot number read
  off an address through the multiplication by the rounded reciprocal, modulo \<open>2 ^ 64\<close>, is exact on
  slot heads, and an address of the slab's block passes the slot-head test exactly when it is the
  address of one of its slots.\<close>

theorem slot_number_exact:
  assumes "geomOk a s" "\<not> sl_big s"
  shows "(\<forall>i < sl_nslots s. slotOf s (slotAddr s i) = i) \<and>
    (\<forall>p<2 ^ 64. slabOf p = a \<longrightarrow> (slotHead s p \<longleftrightarrow> (\<exists>i < sl_nslots s. p = slotAddr s i)))"
  using slotOf_slotAddr[OF assms(1)] slotHead_iff[OF assms] by blast

theorem slot_number_exact_witness: "slotOf (exSlab 0) (slotAddr (exSlab 0) 3) = 3"
proof -
  have "\<not> sl_big (exSlab 0)" by (simp add: exSlab_def)
  from slot_number_exact[OF ex_geom this] show ?thesis by simp
qed

text \<open>The slot size is the request rounded up to eight bytes and to at least sixteen; the trap
  \<open>slot size overflow\<close> is taken exactly by the requests whose rounding wraps at \<open>2 ^ 64\<close>.\<close>

theorem slot_size:
  "slotSize n = (if unat n > 2 ^ 64 - 8 then None
     else Some (of_nat (max 16 ((unat n + 7) div 8 * 8))))"
proof (cases "unat n > 2 ^ 64 - 8")
  case True
  have n: "unat n < 2 ^ 64" using unsigned_less[of n] by simp
  then have "(unat n + 7) mod 2 ^ 64 = unat n + 7 - 2 ^ 64" using True by (simp add: mod_if)
  then have u: "unat (n + 7) < 8" using True n by (simp add: unat_word_ariths)
  have "unat ((n + 7) AND NOT 7) = 0" unfolding and_not7_unat using u by simp
  then have "(n + 7) AND NOT 7 = 0" by (simp add: unat_eq_0)
  moreover have "n > 16" using True by (simp add: word_less_nat_alt)
  ultimately show ?thesis using True by (simp add: slotSize_def)
next
  case False
  let ?m = "(n + 7) AND NOT 7"
  have u: "unat (n + 7) = unat n + 7" using False by (simp add: unat_word_ariths)
  have m: "unat ?m = (unat n + 7) div 8 * 8" unfolding and_not7_unat u by (rule minus_mod_eq_div_mult)
  have le: "unat n \<le> unat ?m" unfolding m by presburger
  have e: "?m = of_nat ((unat n + 7) div 8 * 8)" by (simp add: m[symmetric])
  show ?thesis
  proof (cases "?m \<le> 16")
    case True
    then have "unat ?m \<le> 16" by (simp add: word_le_nat_alt)
    then have "max 16 ((unat n + 7) div 8 * 8) = 16" "\<not> n > 16" using m le by (simp_all add: word_less_nat_alt)
    moreover have "\<not> ?m > 16" using True by (rule leD)
    ultimately show ?thesis using False by (simp add: slotSize_def Let_def)
  next
    case big: False
    then have "unat ?m > 16" by (simp add: word_le_nat_alt)
    then have "max 16 ((unat n + 7) div 8 * 8) = (unat n + 7) div 8 * 8" using m by simp
    then show ?thesis using big False e by (simp add: slotSize_def Let_def)
  qed
qed

text \<open>The capacity of a slab. Whatever the slot size, the slots of an aligned slab lie inside its
  1 MiB block after the header, at least two of them and at most 4084, so that every slot number
  fits the 16-bit link of the chain of free slots; every other slot size takes an oversized slab of
  one slot.\<close>

theorem slab_capacity:
  assumes "16 \<le> ss"
  shows "if slabBig ss then slabSlots ss = 1
    else 2 \<le> slabSlots ss \<and> slabSlots ss \<le> 4084 \<and> RC_SLAB_HDR + slabSlots ss * ss \<le> RC_SLAB_SIZE"
proof (cases "slabBig ss")
  case False
  let ?c = "slabChunk ss"
  have c: "slabSlots ss = (?c - 192) div ss" "2 \<le> slabSlots ss" and hdr: "RC_SLAB_HDR = 192" "RC_SLAB_SIZE = 1048576"
    using False by (simp_all add: slabSlots_def slabBig_def slabCap_def layout_consts)
  have size: "192 < ?c" "?c \<le> 1048576" using chunk_cases[of ss] by auto
  have low: "k \<le> ss" if "2 ^ n div ss < 1024" "(2::nat) ^ n = k * 1024" "0 < k" for n k
  proof (rule ccontr)
    assume "\<not> k \<le> ss"
    then have "k * 1024 div k \<le> 2 ^ n div ss" unfolding that(2) using assms by (intro div_le_mono2) auto
    then show False using that by simp
  qed
  have up: "(C - 192) div ss \<le> (C - 192) div k" if "k \<le> ss" "0 < k" for C k :: nat
    using that by (rule div_le_mono2[rotated])
  have "(?c - 192) div ss \<le> 4084"
    using chunk_cases[of ss]
  proof (elim disjE)
    assume "?c = 65536 \<and> 65536 div ss \<ge> 1024"
    then show ?thesis using up[of 16 65536] assms by simp
  next
    assume "?c = 131072 \<and> 131072 div ss \<ge> 1024 \<and> 65536 div ss < 1024"
    then show ?thesis using low[of 16 64] up[of 64 131072] by simp
  next
    assume "?c = 262144 \<and> 262144 div ss \<ge> 1024 \<and> 131072 div ss < 1024"
    then show ?thesis using low[of 17 128] up[of 128 262144] by simp
  next
    assume "?c = 524288 \<and> 524288 div ss \<ge> 1024 \<and> 262144 div ss < 1024"
    then show ?thesis using low[of 18 256] up[of 256 524288] by simp
  next
    assume "?c = 1048576 \<and> 524288 div ss < 1024"
    then show ?thesis using low[of 19 512] up[of 512 1048576] by simp
  qed
  then have "slabSlots ss \<le> 4084" by (simp only: c(1))
  moreover have "slabSlots ss * ss \<le> ?c - 192" unfolding c(1) by (rule div_times_less_eq_dividend)
  then have "slabSlots ss * ss + 192 \<le> ?c" using size(1) by linarith
  ultimately show ?thesis using c(2) size(2) hdr False by simp
qed (simp add: slabSlots_def)

theorem slab_capacity_witness: "2 \<le> slabSlots 16 \<and> slabSlots 16 \<le> 4084"
  using slab_capacity[of 16] ex_slots by simp

end
