(* ===== verification/Rc_Barrier.thy ===== *)
theory Rc_Barrier
  imports Rc_Runs
begin

text \<open>
  The write barrier of \<open>src/back/reclaim.c\<close> and the stores that carry it: the generation-keyed
  shade cache, the colouring of a new or overwritten value, the reference stores with the
  accounting of cross-region edges, the stores into slots of unknown host, whole-value stores,
  and the chain of frame roots. The build is the default one, without holder counts.
\<close>

section \<open>The shade cache\<close>

definition shadeHash :: "heap \<Rightarrow> addr \<Rightarrow> nat" where
  "shadeHash h v = (v div 8 + hp_shGen h) mod 2 ^ 64 mod 2048"

definition shadeKnown :: "heap \<Rightarrow> addr \<Rightarrow> bool" where
  "shadeKnown h v \<longleftrightarrow> hp_shCache h (shadeHash h v) = v"

definition shadeRemember :: "addr \<Rightarrow> heap \<Rightarrow> heap" where
  "shadeRemember v h = h\<lparr>hp_shCache := (hp_shCache h)(shadeHash h v := v)\<rparr>"

section \<open>Colouring\<close>

definition shadeSlow :: "addr \<Rightarrow> heap \<Rightarrow> heap" where
  "shadeSlow v h =
    (let s = hOwn h v; r = sl_region (hp_slab h s)
     in if s = 0 \<or> r = 0 \<or> hp_partN h > 1 \<and> \<not> r_marking (hp_reg h r) then h
        else (let i = slotOf (hp_slab h s) v
              in if bmGet (sl_mark (hp_slab h s)) i then shadeRemember v h
                 else if \<not> occAt (hp_slab h s) i then h
                 else markPushForce r v
                        (updReg r (\<lambda>x. x\<lparr>r_wbDebt := r_wbDebt x + 1\<rparr>)
                          (shadeRemember v
                            (updSlab s (\<lambda>x. x\<lparr>sl_mark := bmSet (sl_mark x) i\<rparr>) h)))))"

definition shade :: "addr \<Rightarrow> heap \<Rightarrow> heap" where
  "shade v h =
    (if hp_wb h = 0 \<or> v = 0 then h
     else if shadeKnown h v then h
     else shadeSlow v h)"

definition shadeOld :: "addr \<Rightarrow> heap \<Rightarrow> heap" where
  "shadeOld slot h = (if hp_wb h = 0 \<or> slot = 0 then h else shade (ldPtr h slot) h)"

section \<open>Stores\<close>

definition initRef :: "addr \<Rightarrow> addr \<Rightarrow> heap \<Rightarrow> heap rc" where
  "initRef slot v h = (if slot = 0 then Inl Fault else Inr (stPtr slot v h))"

definition initRefNoHold :: "addr \<Rightarrow> addr \<Rightarrow> heap \<Rightarrow> heap rc" where
  "initRefNoHold slot v h = (if slot = 0 then Inl Fault else Inr (stPtr slot v h))"

definition storeRef :: "addr \<Rightarrow> addr \<Rightarrow> heap \<Rightarrow> heap rc" where
  "storeRef slot v h =
    (let h1 = shade v h
     in if slot = 0 then Inl Fault else Inr (stPtr slot v (shadeOld slot h1)))"

definition storeRefSameRegion :: "addr \<Rightarrow> addr \<Rightarrow> heap \<Rightarrow> heap rc" where
  "storeRefSameRegion slot v h =
    (if slot \<noteq> 0 then Inr (stPtr slot v (shade v (shadeOld slot h))) else storeRef slot v h)"

text \<open>The accounting of the edge that is written and of the edge that is overwritten, from a host
  in region \<open>host\<close>.\<close>

definition crossEdge :: "addr \<Rightarrow> addr \<Rightarrow> addr \<Rightarrow> heap \<Rightarrow> heap" where
  "crossEdge host slot v h =
    (let sv = (if v \<noteq> 0 then hOwn h v else 0);
         h1 = (if sv \<noteq> 0 \<and> sl_region (hp_slab h sv) \<noteq> host
               then updReg host (\<lambda>x. x\<lparr>r_foreign := True\<rparr>) (rsIncSlab sv v h) else h)
     in if r_foreign (hp_reg h1 host)
        then (let old = ldPtr h1 slot; sold = (if old \<noteq> 0 then hOwn h1 old else 0)
              in if sold \<noteq> 0 \<and> sl_region (hp_slab h1 sold) \<noteq> host then rsDecSlab sold old h1 else h1)
        else h1)"

definition storeRefOwnedReg :: "addr \<Rightarrow> addr \<Rightarrow> addr \<Rightarrow> heap \<Rightarrow> heap rc" where
  "storeRefOwnedReg slot v host h =
    (let h1 = shadeOld slot (shade v h)
     in if slot = 0 then storeRef slot v h1
        else Inr (stPtr slot v (if hp_partN h1 > 1 \<and> host \<noteq> 0 then crossEdge host slot v h1 else h1)))"

definition storeRefOwned :: "addr \<Rightarrow> addr \<Rightarrow> addr \<Rightarrow> heap \<Rightarrow> heap rc" where
  "storeRefOwned slot v owner h =
    (let h1 = shadeOld slot (shade v h)
     in if slot = 0 then storeRef slot v h1
        else (let so = (if owner \<noteq> 0 then hOwn h1 owner else 0)
              in Inr (stPtr slot v (if hp_partN h1 > 1 \<and> so \<noteq> 0
                                    then crossEdge (sl_region (hp_slab h1 so)) slot v h1 else h1))))"

text \<open>A host that is not known at compile time: the value is pinned, and when it cannot be the
  region of the target leaves the sweep.\<close>

definition storeRefUnknown :: "bool \<Rightarrow> addr \<Rightarrow> addr \<Rightarrow> heap \<Rightarrow> heap rc" where
  "storeRefUnknown mem slot v h =
    (let h1 = shade v h
     in if slot = 0 then Inl Fault
        else (let old = ldPtr h1 slot
              in rcBind (if old \<noteq> 0 then orHang (pinSub old h1) else Inr h1)
                   (\<lambda>h2. rcBind (orHang (pinAdd mem v h2))
                     (\<lambda>(ok, h3). let r = regionOfOwn h3 v
                        in storeRef slot v (if \<not> ok \<and> r \<noteq> 0
                             then updReg r (\<lambda>x. x\<lparr>r_noSweep := True\<rparr>) h3 else h3)))))"

definition slabOfInterior :: "heap \<Rightarrow> addr \<Rightarrow> addr" where
  "slabOfInterior h p =
    (case hp_own h (slabOf p) of
       None \<Rightarrow> 0
     | Some s \<Rightarrow> if offOf (hp_slab h s) p \<ge> sl_nslots (hp_slab h s) * sl_ss (hp_slab h s) then 0 else s)"

definition storeRefSlot :: "bool \<Rightarrow> addr \<Rightarrow> addr \<Rightarrow> heap \<Rightarrow> heap rc" where
  "storeRefSlot mem slot v h =
    (let ss = (if slot \<noteq> 0 then slabOfInterior h slot else 0)
     in if ss \<noteq> 0 \<and> sl_region (hp_slab h ss) \<noteq> 0
        then storeRefOwnedReg slot v (sl_region (hp_slab h ss)) h
        else storeRefUnknown mem slot v h)"

section \<open>Whole-value stores\<close>

definition consWord :: "addr \<Rightarrow> bool \<Rightarrow> addr \<Rightarrow> heap \<Rightarrow> heap" where
  "consWord r hostKnown nw h =
    (let h1 = shade nw h
     in if \<not> owns h1 nw then h1
        else (let rv = regionOfOwn h1 nw
              in if hostKnown then
                   (if r \<noteq> 0 \<and> rv \<noteq> 0 \<and> rv \<noteq> r
                    then updReg r (\<lambda>x. x\<lparr>r_foreign := True\<rparr>) (rsInc nw h1) else h1)
                 else if rv \<noteq> 0 then updReg rv (\<lambda>x. x\<lparr>r_noSweep := True\<rparr>) h1
                 else h1))"

definition storeStructCons :: "addr \<Rightarrow> nat \<Rightarrow> addr \<Rightarrow> bool \<Rightarrow> heap \<Rightarrow> heap" where
  "storeStructCons dst bytes owner hostKnown h =
    (let r = (if hostKnown then regionOfOwn h owner else 0)
     in fold (\<lambda>i h. consWord r hostKnown (ldPtr h (dst + 8 * i)) h) [0..<bytes div 8] (notePart r h))"

definition storeStructRooted :: "addr \<Rightarrow> nat \<Rightarrow> heap \<Rightarrow> heap" where
  "storeStructRooted dst bytes h = fold (\<lambda>i h. shade (ldPtr h (dst + 8 * i)) h) [0..<bytes div 8] h"

definition isLive :: "addr \<Rightarrow> heap \<Rightarrow> bool" where
  "isLive p h = owns h p"

section \<open>The chain of frame roots\<close>

record frameRoot =
  fr_addr :: "addr list"
  fr_bad :: bool

definition framePush :: "addr list \<Rightarrow> frameRoot list \<Rightarrow> frameRoot list" where
  "framePush addrs chain = \<lparr>fr_addr = addrs, fr_bad = False\<rparr> # chain"

definition framePop :: "frameRoot list \<Rightarrow> frameRoot list" where
  "framePop chain = (case chain of [] \<Rightarrow> [] | _ # parent \<Rightarrow> parent)"

definition frameBad :: "frameRoot list \<Rightarrow> frameRoot list" where
  "frameBad chain = (case chain of [] \<Rightarrow> [] | f # parent \<Rightarrow> f\<lparr>fr_bad := True\<rparr> # parent)"

definition chainBad :: "frameRoot list \<Rightarrow> bool" where
  "chainBad chain = (\<exists>f\<in>set chain. fr_bad f)"

end
