(* ===== verification/Rc_Interleave.thy ===== *)
theory Rc_Interleave
  imports Rc_Barrier
begin

text \<open>
  Marking while the program runs. What the barrier and the stores leave alone, the shade cache,
  and the invariant of a round whose steps alternate with stores: everything the round started
  from, everything overwritten and everything stored stays covered.
\<close>

section \<open>The shade cache\<close>

text \<open>Every entry was written in a generation of the current block of 2048, at the cell of that
  generation.\<close>

definition cacheOk :: "heap \<Rightarrow> bool" where
  "cacheOk h \<longleftrightarrow> hp_shGen h < 2 ^ 64 \<and>
     (\<forall>j<2048. hp_shCache h j \<noteq> 0 \<longrightarrow>
        (\<exists>g\<le>hp_shGen h. g div 2048 = hp_shGen h div 2048 \<and> j = (hp_shCache h j div 8 + g) mod 2048))"

lemma shadeHash_eq: "shadeHash h v = (v div 8 + hp_shGen h) mod 2048"
  by (simp add: shadeHash_def mod_mod_cancel)

lemma shadeHash_lt: "shadeHash h v < 2048"
  by (simp add: shadeHash_eq)

lemma shadeRemember_cacheOk: "cacheOk h \<Longrightarrow> cacheOk (shadeRemember v h)"
  unfolding cacheOk_def shadeRemember_def using shadeHash_eq[of h v] by auto

lemma nextGen_forgets:
  assumes ok: "cacheOk h" and v: "v \<noteq> 0"
  shows "cacheOk (shadeNextGen h) \<and> \<not> shadeKnown (shadeNextGen h) v"
proof -
  define G where "G = hp_shGen h"
  define G' where "G' = (G + 1) mod 2 ^ 64"
  have Gb: "G < 2 ^ 64" using ok by (simp add: cacheOk_def G_def)
  have gen: "hp_shGen (shadeNextGen h) = G'"
    "hp_shCache (shadeNextGen h) = (if G' mod 2048 = 0 then (\<lambda>_. 0) else hp_shCache h)"
    by (simp_all add: shadeNextGen_def Let_def G'_def G_def)
  have G'b: "G' < 2 ^ 64" by (simp add: G'_def)
  show ?thesis
  proof (cases "G' mod 2048 = 0")
    case True
    then show ?thesis using v G'b by (simp add: cacheOk_def shadeKnown_def gen)
  next
    case False
    have "G + 1 \<noteq> 2 ^ 64" using False by (auto simp: G'_def)
    then have s: "G' = G + 1" using Gb by (simp add: G'_def)
    have d: "G' div 2048 = G div 2048" using False s by (simp add: div_Suc mod_Suc split: if_splits)
    have old: "\<exists>g\<le>G. g div 2048 = G div 2048 \<and> j = (hp_shCache h j div 8 + g) mod 2048"
      if "j < 2048" "hp_shCache h j \<noteq> 0" for j using ok that by (simp add: cacheOk_def G_def)
    have "cacheOk (shadeNextGen h)"
      unfolding cacheOk_def gen using False G'b old d s by (auto intro: le_SucI)
    moreover have "\<not> shadeKnown (shadeNextGen h) v"
    proof
      assume "shadeKnown (shadeNextGen h) v"
      then have k: "hp_shCache h ((v div 8 + G') mod 2048) = v"
        using False by (simp add: shadeKnown_def shadeHash_eq gen)
      then obtain g where g: "g \<le> G" "g div 2048 = G div 2048"
        "(v div 8 + G') mod 2048 = (v div 8 + g) mod 2048" using old[of "(v div 8 + G') mod 2048"] v by auto
      have gl: "g \<le> G'" using g(1) s by simp
      then have "2048 dvd (v div 8 + G') - (v div 8 + g)"
        using g(3) mod_eq_dvd_iff_nat[of "v div 8 + g" "v div 8 + G'" 2048] by simp
      then have "2048 dvd G' - g" by simp
      moreover have "G' - g < 2048"
      proof -
        have "G' = g div 2048 * 2048 + G' mod 2048" using div_mult_mod_eq[of G' 2048] g(2) d by simp
        moreover have "G' mod 2048 < 2048" by simp
        moreover have "g div 2048 * 2048 \<le> g" by simp
        ultimately show ?thesis by linarith
      qed
      ultimately have "G' = g" using gl by (auto dest: nat_dvd_not_less)
      then show False using g(1) s by simp
    qed
    ultimately show ?thesis by simp
  qed
qed

section \<open>The frame of the mutator\<close>

definition mutFrame :: "addr \<Rightarrow> heap \<Rightarrow> heap \<Rightarrow> bool" where
  "mutFrame r h h' \<longleftrightarrow> sameHeads h h' \<and> hp_desc h' = hp_desc h \<and> hp_wb h' = hp_wb h \<and> heapWf h' \<and>
     (\<forall>a. sl_occ (hp_slab h' a) = sl_occ (hp_slab h a) \<and> sl_tid (hp_slab h' a) = sl_tid (hp_slab h a) \<and>
          sl_tt (hp_slab h' a) = sl_tt (hp_slab h a)) \<and>
     (let y = hp_reg h r; z = hp_reg h' r in
        r_slabs z = r_slabs y \<and> r_seedRest z = r_seedRest y \<and> r_seedWord z = r_seedWord y \<and>
        r_seedsDone z = r_seedsDone y \<and> r_scanObj z = r_scanObj y \<and> r_scanOff z = r_scanOff y \<and>
        r_marking z = r_marking y)"

lemma mutFrame_refl: "heapWf h \<Longrightarrow> mutFrame r h h"
  by (simp add: mutFrame_def)

lemma mutFrame_trans: "mutFrame r a b \<Longrightarrow> mutFrame r b c \<Longrightarrow> mutFrame r a c"
  by (simp add: mutFrame_def sameHeads_def Let_def)

lemma mutFrameD:
  assumes f: "mutFrame r h h'"
  shows "sameHeads h h'" "heapWf h'" "hOwn h' p = hOwn h p" "owns h' p = owns h p" "inReg h' k p = inReg h k p"
    "typeOf (hp_slab h' a) = typeOf (hp_slab h a)" "headOf (hp_slab h' a) = headOf (hp_slab h a)"
    "fieldAddrs h' a i = fieldAddrs h a i" "longObj h' p = longObj h p"
    "occAt (hp_slab h' a) = occAt (hp_slab h a)" "registered h' a = registered h a" "hp_wb h' = hp_wb h"
    "r_marking (hp_reg h' r) = r_marking (hp_reg h r)"
proof -
  show s: "sameHeads h h'" and "heapWf h'" "hp_wb h' = hp_wb h" "r_marking (hp_reg h' r) = r_marking (hp_reg h r)"
    using f by (simp_all add: mutFrame_def Let_def)
  show hd: "headOf (hp_slab h' a) = headOf (hp_slab h a)" for a using s by (simp add: sameHeads_def)
  note e = headOf_eqD[OF hd]
  show ho: "hOwn h' p = hOwn h p" for p by (rule sameHeads_hOwn[OF s])
  have sl: "sl_occ (hp_slab h' a) = sl_occ (hp_slab h a)" "sl_tid (hp_slab h' a) = sl_tid (hp_slab h a)"
    "sl_tt (hp_slab h' a) = sl_tt (hp_slab h a)" for a using f by (simp_all add: mutFrame_def)
  show oc: "occAt (hp_slab h' a) = occAt (hp_slab h a)" for a by (simp add: occAt_def sl fun_eq_iff)
  show ow: "owns h' p = owns h p" by (simp add: owns_def Let_def ho e oc)
  then show "inReg h' k p = inReg h k p" by (simp add: inReg_def ho e)
  show ty: "typeOf (hp_slab h' a) = typeOf (hp_slab h a)" for a by (simp add: typeOf_def sl fun_eq_iff)
  have "hp_desc h' = hp_desc h" using f by (simp add: mutFrame_def)
  then show "fieldAddrs h' a i = fieldAddrs h a i" by (simp add: fieldAddrs_def Let_def ty e)
  show "longObj h' p = longObj h p" by (simp add: longObj_def Let_def ho ty e)
  show "registered h' a = registered h a" using s by (simp add: registered_def sameHeads_def)
qed

lemma mutFrame_region:
  assumes "mutFrame r h h'"
  shows "r_slabs (hp_reg h' r) = r_slabs (hp_reg h r)" "r_seedRest (hp_reg h' r) = r_seedRest (hp_reg h r)"
    "r_seedWord (hp_reg h' r) = r_seedWord (hp_reg h r)" "r_seedsDone (hp_reg h' r) = r_seedsDone (hp_reg h r)"
    "r_scanObj (hp_reg h' r) = r_scanObj (hp_reg h r)" "r_scanOff (hp_reg h' r) = r_scanOff (hp_reg h r)"
  using assms by (simp_all add: mutFrame_def Let_def)

lemma mutFrame_objAddrs:
  assumes "mutFrame r h h'"
  shows "objFields h' p = map (ldPtr h') (fieldAddrs h (hOwn h p) (slotOf (hp_slab h (hOwn h p)) p))"
  using headOf_eqD(8)[OF mutFrameD(7)[OF assms]] by (simp add: objFields_def fieldVals_def mutFrameD[OF assms])

text \<open>When the invariant of a round survives a mutation: what is marked or on the stack stays, a
  newly marked object waits for a forced scan, a field that changed is covered, and a seed that is
  no longer ahead of the cursor is covered.\<close>

lemma roundCov_mut:
  assumes R: "roundCov h0 h r UNIV C" and f: "mutFrame r h h'"
      and st: "set (stk h r) \<subseteq> set (stk h' r)" "\<And>raw. raw \<in> set (stk h' r) \<Longrightarrow> raw < 2 ^ 64"
      and mk: "\<And>p. inReg h r p \<Longrightarrow> marked h p \<Longrightarrow> marked h' p"
      and new: "\<And>p. inReg h r p \<Longrightarrow> marked h' p \<Longrightarrow> \<not> marked h p \<Longrightarrow> forcedIn h' r [] p"
      and fld: "\<And>p v. inReg h r p \<Longrightarrow> marked h p \<Longrightarrow> v \<in> set (objFields h' p) \<Longrightarrow> v \<noteq> 0 \<Longrightarrow>
        covered h' r [] (rawObj v) \<or> v \<in> set (objFields h p) \<and> (scanLeft h r p v \<longrightarrow> scanLeft h' r p v)"
      and sd: "\<And>x. x \<in> seedsLeft h r \<Longrightarrow> x \<in> seedsLeft h' r \<or> covered h' r [] x"
  shows "roundCov h' h' r UNIV C" and "\<And>x. covered h r [] x \<Longrightarrow> covered h' r [] x"
proof -
  note D = mutFrameD[OF f] and E = mutFrame_region[OF f]
  have inv: "markInv h r UNIV []" and ro: "regionOk h r" and co: "cursorOk h r"
    and cc: "\<forall>x\<in>C. covered h r [] x \<or> \<not> r_seedsDone (hp_reg h r) \<and> x \<in> seedsLeft h r"
    using R by (simp_all add: roundCov_def)
  have so: "markSound h r UNIV []" and cl: "markClosed h r []" using inv by (simp_all add: markInv_def)
  have on: "onStack h r [] \<subseteq> onStack h' r []" using st(1) by (simp add: onStack_def)
  show cv: "covered h' r [] x" if "covered h r [] x" for x
    using that mk[of x] on by (auto simp: covered_def D)
  have fc: "forcedIn h r [] p \<Longrightarrow> forcedIn h' r [] p" for p using on by (auto simp: forcedIn_def)
  have all: "inReg h' r p \<Longrightarrow> reach h' r UNIV p" for p by (rule reach.base) auto
  have "markSound h' r UNIV []"
    unfolding markSound_def
  proof (intro conjI ballI allI impI)
    show "raw < 2 ^ 64" if "raw \<in> onStack h' r []" for raw using st(2) that by (simp add: onStack_def)
    show "reach h' r UNIV (rawObj raw)" if "inReg h' r (rawObj raw)" for raw using that by (rule all)
    show "reach h' r UNIV p" if "inReg h' r p" for p using that by (rule all)
    assume s: "r_scanObj (hp_reg h' r) \<noteq> 0"
    then have o: "inReg h r (r_scanObj (hp_reg h r))" "marked h (r_scanObj (hp_reg h r))"
      "longObj h (r_scanObj (hp_reg h r))" using so E(5) by (auto simp: markSound_def)
    show "inReg h' r (r_scanObj (hp_reg h' r))" using o(1) by (simp add: E D)
    show "marked h' (r_scanObj (hp_reg h' r))" using mk[OF o(1,2)] by (simp add: E)
    show "longObj h' (r_scanObj (hp_reg h' r))" using o(3) by (simp add: E D)
  qed
  moreover have "markClosed h' r []"
    unfolding markClosed_def
  proof (intro allI impI)
    fix p v assume a: "inReg h' r p" "marked h' p" "v \<in> set (objFields h' p)" "v \<noteq> 0"
    have p: "inReg h r p" using a(1) D by simp
    show "covered h' r [] (rawObj v) \<or> scanLeft h' r p v \<or> forcedIn h' r [] p"
    proof (cases "marked h p")
      case True
      from fld[OF p True a(3,4)] consider "covered h' r [] (rawObj v)"
        | "v \<in> set (objFields h p)" "scanLeft h r p v \<longrightarrow> scanLeft h' r p v" by blast
      then show ?thesis
      proof cases
        case 2
        then have "covered h r [] (rawObj v) \<or> scanLeft h r p v \<or> forcedIn h r [] p"
          using cl p True a(4) by (simp add: markClosed_def)
        then show ?thesis using 2 cv fc by blast
      qed simp
    qed (use new[OF p a(2)] in simp)
  qed
  ultimately have "markInv h' r UNIV []" using D(2) by (simp add: markInv_def)
  moreover have "regionOk h' r" using ro headOf_eqD(1)[OF D(7)] by (simp add: regionOk_def E D)
  moreover have "cursorOk h' r" using co headOf_eqD(7)[OF D(7)] by (simp add: cursorOk_def E)
  moreover have "\<forall>x\<in>C. covered h' r [] x \<or> \<not> r_seedsDone (hp_reg h' r) \<and> x \<in> seedsLeft h' r"
    using cc cv sd E(4) by blast
  ultimately show "roundCov h' h' r UNIV C" by (simp add: roundCov_def)
qed

section \<open>Colouring a value\<close>

definition shadeSound :: "heap \<Rightarrow> addr \<Rightarrow> bool" where
  "shadeSound h r \<longleftrightarrow> cacheOk h \<and>
     (\<forall>v. v \<noteq> 0 \<longrightarrow> shadeKnown h v \<longrightarrow> inReg h r v \<longrightarrow> marked h v)"

text \<open>The heap after an unmarked object was coloured.\<close>

definition shaded :: "addr \<Rightarrow> heap \<Rightarrow> heap" where
  "shaded v h = (let s = hOwn h v in
     markPushForce (sl_region (hp_slab h s)) v
       (updReg (sl_region (hp_slab h s)) (\<lambda>x. x\<lparr>r_wbDebt := r_wbDebt x + 1\<rparr>)
         (shadeRemember v
           (updSlab s (\<lambda>x. x\<lparr>sl_mark := bmSet (sl_mark x) (slotOf (hp_slab h s) v)\<rparr>) h))))"

lemma shadeSlow_cases:
  obtains "shadeSlow v h = h" "hOwn h v = 0 \<or> sl_region (hp_slab h (hOwn h v)) = 0 \<or>
      hp_partN h > 1 \<and> \<not> r_marking (hp_reg h (sl_region (hp_slab h (hOwn h v)))) \<or> \<not> owns h v"
  | "shadeSlow v h = shadeRemember v h" "marked h v"
  | "shadeSlow v h = shaded v h" "owns h v" "\<not> marked h v"
proof -
  let ?s = "hOwn h v"
  let ?out = "?s = 0 \<or> sl_region (hp_slab h ?s) = 0 \<or>
      hp_partN h > 1 \<and> \<not> r_marking (hp_reg h (sl_region (hp_slab h ?s)))"
  consider "?out" | "\<not> ?out" "marked h v" | "\<not> ?out" "\<not> marked h v" "\<not> owns h v" | "\<not> ?out" "\<not> marked h v" "owns h v"
    by blast
  then show ?thesis
  proof cases
    case 1
    then have "shadeSlow v h = h" by (simp add: shadeSlow_def Let_def)
    then show ?thesis using 1 that(1) by blast
  next
    case 2
    then have "shadeSlow v h = shadeRemember v h"
      unfolding shadeSlow_def Let_def marked_def by (auto cong: if_cong)
    then show ?thesis using 2 that(2) by blast
  next
    case 3
    then have "shadeSlow v h = h"
      unfolding shadeSlow_def Let_def marked_def owns_def by (auto cong: if_cong)
    then show ?thesis using 3 that(1) by blast
  next
    case 4
    then have "shadeSlow v h = shaded v h"
      unfolding shadeSlow_def Let_def marked_def owns_def shaded_def by (auto cong: if_cong)
    then show ?thesis using 4 that(3) by blast
  qed
qed

lemma shadeRemember_frame:
  assumes "heapWf h"
  shows "mutFrame r h (shadeRemember v h)" "marked (shadeRemember v h) p = marked h p"
proof -
  have "sameHeads h (shadeRemember v h)" by (simp add: sameHeads_def shadeRemember_def)
  moreover from sameHeads_hOwn[OF this] show "marked (shadeRemember v h) p = marked h p"
    by (simp add: marked_def shadeRemember_def)
  moreover have "heapWf (shadeRemember v h)"
    by (rule heapWf_step[OF assms]) (simp_all add: shadeRemember_def)
  ultimately show "mutFrame r h (shadeRemember v h)" by (simp add: mutFrame_def shadeRemember_def)
qed

lemma shaded_simps [simp]:
  "hp_mem (shaded v h) = hp_mem h" "hp_own (shaded v h) = hp_own h" "hp_big (shaded v h) = hp_big h"
  "hp_desc (shaded v h) = hp_desc h" "hp_wb (shaded v h) = hp_wb h" "hp_partN (shaded v h) = hp_partN h"
  "hp_shGen (shaded v h) = hp_shGen h" "hp_shCache (shaded v h) = (hp_shCache h)(shadeHash h v := v)"
  "hp_slab (shaded v h) = (hp_slab h)(hOwn h v := (hp_slab h (hOwn h v))
     \<lparr>sl_mark := bmSet (sl_mark (hp_slab h (hOwn h v))) (slotOf (hp_slab h (hOwn h v)) v)\<rparr>)"
  by (simp_all add: shaded_def Let_def markPushForce_def markPush_def shadeRemember_def updReg_def shadeHash_def)

lemma shaded_region:
  "stk (shaded v h) r = (if r = sl_region (hp_slab h (hOwn h v)) then (v OR 1) # stk h r else stk h r)"
  "r_marking (hp_reg (shaded v h) r) = r_marking (hp_reg h r)" "r_slabs (hp_reg (shaded v h) r) = r_slabs (hp_reg h r)"
  "r_seedRest (hp_reg (shaded v h) r) = r_seedRest (hp_reg h r)" "r_seedWord (hp_reg (shaded v h) r) = r_seedWord (hp_reg h r)"
  "r_seedsDone (hp_reg (shaded v h) r) = r_seedsDone (hp_reg h r)" "r_scanObj (hp_reg (shaded v h) r) = r_scanObj (hp_reg h r)"
  "r_scanOff (hp_reg (shaded v h) r) = r_scanOff (hp_reg h r)"
  by (simp_all add: shaded_def Let_def markPushForce_def markPush_def shadeRemember_def updReg_def)

lemma slabShape_mark: "length m = length (sl_mark x) \<Longrightarrow> slabShape (x\<lparr>sl_mark := m\<rparr>) = slabShape x"
  by (simp add: slabShape_def occAt_def)

lemma shaded_frame:
  assumes wf: "heapWf h" and v: "v < 2 ^ 64" "owns h v"
  shows "mutFrame r h (shaded v h)" "inReg h k p \<Longrightarrow> marked (shaded v h) p \<longleftrightarrow> p = v \<or> marked h p"
proof -
  let ?s = "hOwn h v" and ?h = "shaded v h"
  have s0: "?s \<noteq> 0" using v(2) by (auto simp: owns_def Let_def split: if_splits)
  have iv: "inReg h (sl_region (hp_slab h ?s)) v" using v s0 by (simp add: inReg_def)
  have sh: "sameHeads h ?h" by (simp add: sameHeads_def headOf_def)
  have "heapWf ?h"
    by (rule heapWf_step[OF wf]) (auto simp: headOf_def slabShape_mark)
  then show "mutFrame r h ?h" using sh by (simp add: mutFrame_def shaded_region)
  assume p: "inReg h k p"
  have ho: "hOwn ?h p = hOwn h p" by (rule sameHeads_hOwn[OF sh])
  show "marked ?h p \<longleftrightarrow> p = v \<or> marked h p"
  proof (cases "hOwn h p = ?s")
    case True
    have i: "slotOf (hp_slab h ?s) v < sl_nslots (hp_slab h ?s)" "registered h ?s"
      using inReg_obj[OF wf iv] by auto
    have w: "rcWord (slotOf (hp_slab h ?s) v) < length (sl_mark (hp_slab h ?s))"
      using slot_wf[OF wf i(2,1)] registered_wf(2)[OF wf i(2)] by (simp add: slabShape_def)
    have so: "slotOf (x\<lparr>sl_mark := m\<rparr>) = slotOf x" for x :: slab and m by (rule headOf_eqD(8)) (simp add: headOf_def)
    have "slotOf (hp_slab h ?s) p = slotOf (hp_slab h ?s) v \<longleftrightarrow> p = v"
      using inReg_obj(3)[OF wf p] inReg_obj(3)[OF wf iv] True by metis
    then show ?thesis using True by (simp add: marked_def ho so bmGet_bmSet[OF w])
  qed (auto simp: marked_def ho)
qed

lemma rawObj_force: "even v \<Longrightarrow> rawObj (v OR 1) = v" "even v \<Longrightarrow> rawForce (v OR 1)"
  "even v \<Longrightarrow> v < 2 ^ 64 \<Longrightarrow> v OR 1 < 2 ^ 64"
proof -
  assume e: "even v"
  have o: "v OR 1 = v + 1" unfolding or_one_eq using e by simp
  show "rawObj (v OR 1) = v" "rawForce (v OR 1)" unfolding o using e by (simp_all add: rawObj_def rawForce_def mod_Suc even_iff_mod_2_eq_zero)
  assume "v < 2 ^ 64"
  then show "v OR 1 < 2 ^ 64" unfolding o using e by (cases "v = 2 ^ 64 - 1") simp_all
qed

text \<open>What one call of the barrier does to a region that is being marked.\<close>

definition shadeStep :: "addr \<Rightarrow> addr \<Rightarrow> heap \<Rightarrow> heap \<Rightarrow> bool" where
  "shadeStep r v h h' \<longleftrightarrow> mutFrame r h h' \<and> hp_mem h' = hp_mem h \<and>
     (\<forall>a. sl_rsbit (hp_slab h' a) = sl_rsbit (hp_slab h a)) \<and>
     set (stk h r) \<subseteq> set (stk h' r) \<and> set (stk h' r) \<subseteq> insert (v OR 1) (set (stk h r)) \<and>
     (\<forall>p. inReg h r p \<longrightarrow> marked h p \<longrightarrow> marked h' p) \<and>
     (\<forall>p. inReg h r p \<longrightarrow> marked h' p \<longrightarrow> \<not> marked h p \<longrightarrow> p = v \<and> (v OR 1) \<in> set (stk h' r)) \<and>
     (inReg h r v \<longrightarrow> marked h' v) \<and> shadeSound h' r"

lemma shade_step:
  assumes wf: "heapWf h" and r: "r \<noteq> 0" "r_marking (hp_reg h r)" "hp_wb h \<noteq> 0"
      and so: "shadeSound h r" and v: "v < 2 ^ 64"
  shows "shadeStep r v h (shade v h)"
proof -
  have refl: "shadeStep r v h h" if "inReg h r v \<longrightarrow> marked h v"
    using that so mutFrame_refl[OF wf] by (auto simp: shadeStep_def)
  have z: "\<not> inReg h r v" if "v = 0"
  proof
    assume i: "inReg h r v"
    have "geomOk (hOwn h v) (hp_slab h (hOwn h v))" by (rule registered_wf(1)[OF wf inReg_obj(1)[OF wf i]])
    then have "0 < sl_data (hp_slab h (hOwn h v))" by (simp add: geomOk_def)
    then show False using inReg_obj(3)[OF wf i] that by (simp add: slotAddr_def)
  qed
  have known: "cacheOk h" "\<And>u. u \<noteq> 0 \<Longrightarrow> shadeKnown h u \<Longrightarrow> inReg h r u \<Longrightarrow> marked h u"
    using so by (simp_all add: shadeSound_def)
  have sound: "shadeSound h' r"
    if c: "hp_shGen h' = hp_shGen h" "hp_shCache h' = (hp_shCache h)(shadeHash h v := v)"
      and f: "mutFrame r h h'" and m: "\<And>p. inReg h r p \<Longrightarrow> marked h p \<Longrightarrow> marked h' p" "inReg h r v \<Longrightarrow> marked h' v" for h'
  proof -
    have sh: "shadeHash h' u = shadeHash h u" for u by (simp add: shadeHash_def c)
    have "cacheOk h'"
      using shadeRemember_cacheOk[OF known(1), of v] by (simp add: cacheOk_def shadeRemember_def c)
    moreover have "marked h' u" if "u \<noteq> 0" "shadeKnown h' u" "inReg h' r u" for u
    proof (cases "u = v")
      case False
      then have "shadeKnown h u" using that(2) by (auto simp: shadeKnown_def sh c split: if_splits)
      then show ?thesis using known(2) m(1) that(1,3) by (simp add: mutFrameD[OF f])
    qed (use m(2) that(3) in \<open>simp add: mutFrameD[OF f]\<close>)
    ultimately show ?thesis by (simp add: shadeSound_def)
  qed
  show ?thesis
  proof (cases "v = 0 \<or> shadeKnown h v")
    case True
    then have "shade v h = h" by (auto simp: shade_def)
    moreover have "inReg h r v \<longrightarrow> marked h v" using True z known(2) by blast
    ultimately show ?thesis using refl by simp
  next
    case False
    then have e: "shade v h = shadeSlow v h" using r(3) by (simp add: shade_def)
    show ?thesis
      unfolding e
    proof (rule shadeSlow_cases[of v h])
      assume "shadeSlow v h = h" and o: "hOwn h v = 0 \<or> sl_region (hp_slab h (hOwn h v)) = 0 \<or>
        hp_partN h > 1 \<and> \<not> r_marking (hp_reg h (sl_region (hp_slab h (hOwn h v)))) \<or> \<not> owns h v"
      moreover have "\<not> inReg h r v" using o r by (auto simp: inReg_def)
      ultimately show "shadeStep r v h (shadeSlow v h)" using refl by simp
    next
      assume s: "shadeSlow v h = shadeRemember v h" and m: "marked h v"
      note f = shadeRemember_frame[OF wf, of r v] shadeRemember_frame(2)[OF wf, of v]
      have sd: "shadeSound (shadeRemember v h) r" by (rule sound) (simp_all add: shadeRemember_def f[unfolded shadeRemember_def] m)
      moreover have "hp_mem (shadeRemember v h) = hp_mem h" "hp_slab (shadeRemember v h) = hp_slab h"
        "hp_reg (shadeRemember v h) = hp_reg h" by (simp_all add: shadeRemember_def)
      ultimately show "shadeStep r v h (shadeSlow v h)"
        using f(1) m unfolding s shadeStep_def by (auto simp: f(3))
    next
      assume s: "shadeSlow v h = shaded v h" and m: "owns h v" "\<not> marked h v"
      note f = shaded_frame[OF wf v m(1)]
      have sd: "shadeSound (shaded v h) r" by (rule sound) (use f in simp_all)
      have "p = v \<and> (v OR 1) \<in> set (stk (shaded v h) r)" if "inReg h r p" "marked (shaded v h) p" "\<not> marked h p" for p
        using f(2)[OF that(1)] that by (auto simp: shaded_region inReg_def)
      moreover have "sl_rsbit (hp_slab (shaded v h) a) = sl_rsbit (hp_slab h a)" for a by simp
      ultimately show "shadeStep r v h (shadeSlow v h)"
        unfolding s shadeStep_def using f sd by (auto simp: shaded_region)
    qed
  qed
qed

lemma shadeStep_round:
  assumes R: "roundCov h0 h r UNIV C" and s: "shadeStep r v h h'" and v: "even v" "v < 2 ^ 64"
  shows "roundCov h' h' r UNIV C" and "covered h r [] x \<Longrightarrow> covered h' r [] x" and "covered h' r [] v"
proof -
  have f: "mutFrame r h h'" using s by (simp add: shadeStep_def)
  note D = mutFrameD[OF f]
  have lt: "raw < 2 ^ 64" if "raw \<in> set (stk h r)" for raw
    using R that by (simp add: roundCov_def markInv_def markSound_def onStack_def)
  have ofl: "objFields h' p = objFields h p" for p
    using mutFrame_objAddrs[OF f, of p] s
    by (simp add: objFields_def fieldVals_def shadeStep_def ldPtr_def)
  have sl: "seedsLeft h' r = seedsLeft h r"
    using s headOf_eqD(6,9)[OF D(7)]
    by (simp add: seedsLeft_def seedAt_def mutFrame_region[OF f] D shadeStep_def cong: list.case_cong)
  have sc: "scanLeft h' r p u = scanLeft h r p u" for p u
    by (simp add: scanLeft_def ofl mutFrame_region[OF f])
  have st: "set (stk h r) \<subseteq> set (stk h' r)" "\<And>raw. raw \<in> set (stk h' r) \<Longrightarrow> raw < 2 ^ 64"
    using s lt rawObj_force(3)[OF v] by (auto simp: shadeStep_def)
  have mk: "\<And>p. inReg h r p \<Longrightarrow> marked h p \<Longrightarrow> marked h' p" using s by (simp add: shadeStep_def)
  have new: "forcedIn h' r [] p" if "inReg h r p" "marked h' p" "\<not> marked h p" for p
  proof -
    have "p = v \<and> (v OR 1) \<in> set (stk h' r)" using s that unfolding shadeStep_def by blast
    then show ?thesis using rawObj_force(1,2)[OF v(1)] by (auto simp: forcedIn_def onStack_def)
  qed
  have fld: "covered h' r [] (rawObj u) \<or> u \<in> set (objFields h p) \<and> (scanLeft h r p u \<longrightarrow> scanLeft h' r p u)"
    if "inReg h r p" "marked h p" "u \<in> set (objFields h' p)" "u \<noteq> 0" for p u
    using that(3) unfolding ofl sc by blast
  have sd: "y \<in> seedsLeft h' r \<or> covered h' r [] y" if "y \<in> seedsLeft h r" for y using that by (simp add: sl)
  note M = roundCov_mut[OF R f st mk new fld sd]
  show "roundCov h' h' r UNIV C" by (rule M(1))
  show "covered h r [] x \<Longrightarrow> covered h' r [] x" by (rule M(2))
  have "inReg h r v \<longrightarrow> marked h' v" using s unfolding shadeStep_def by blast
  then show "covered h' r [] v" using D(5)[of r v] by (simp add: covered_def)
qed

section \<open>Stores\<close>

lemma stPtr_simps [simp]:
  "hp_slab (stPtr a v h) = hp_slab h" "hp_reg (stPtr a v h) = hp_reg h" "hp_own (stPtr a v h) = hp_own h"
  "hp_big (stPtr a v h) = hp_big h" "hp_wb (stPtr a v h) = hp_wb h" "hp_desc (stPtr a v h) = hp_desc h"
  "hp_shGen (stPtr a v h) = hp_shGen h" "hp_shCache (stPtr a v h) = hp_shCache h" "hp_partN (stPtr a v h) = hp_partN h"
  by (simp_all add: stPtr_def)

lemma ldPtr_stPtr: "v < 2 ^ 64 \<Longrightarrow> ldPtr (stPtr a v h) b = (if b = a then v else ldPtr h b)"
  by (simp add: ldPtr_def stPtr_def unsigned_of_nat take_bit_nat_eq_self_iff)

lemma stPtr_frame: "heapWf h \<Longrightarrow> mutFrame r h (stPtr a v h)"
proof -
  assume wf: "heapWf h"
  have "heapWf (stPtr a v h)" by (rule heapWf_step[OF wf]) simp_all
  then show ?thesis by (simp add: mutFrame_def sameHeads_def)
qed

lemma marked_cong: "sameHeads h h' \<Longrightarrow> (\<And>a. sl_mark (hp_slab h' a) = sl_mark (hp_slab h a)) \<Longrightarrow> marked h' p = marked h p"
  using sameHeads_hOwn[of h h' p] headOf_eqD(8)[of "hp_slab h' (hOwn h p)" "hp_slab h (hOwn h p)"]
  by (simp add: marked_def sameHeads_def)

lemma stPtr_round:
  assumes R: "roundCov h0 h r UNIV C" and v: "v < 2 ^ 64" "even v" "covered h r [] v"
      and old: "even (ldPtr h a)" "covered h r [] (ldPtr h a)"
  shows "roundCov (stPtr a v h) (stPtr a v h) r UNIV C" and "covered h r [] x \<Longrightarrow> covered (stPtr a v h) r [] x"
proof -
  let ?h = "stPtr a v h"
  have wf: "heapWf h" using R by (simp add: roundCov_def markInv_def)
  note f = stPtr_frame[OF wf, of r a v]
  note D = mutFrameD[OF f]
  have mk: "marked ?h p = marked h p" for p by (rule marked_cong[OF D(1)]) simp
  have on: "onStack ?h r [] = onStack h r []" by (simp add: onStack_def)
  have cv: "covered ?h r [] x = covered h r [] x" for x by (simp add: covered_def D(5) mk on)
  have lt: "raw < 2 ^ 64" if "raw \<in> set (stk h r)" for raw
    using R that by (simp add: roundCov_def markInv_def markSound_def onStack_def)
  have ev: "rawObj u = u" if "even u" for u using that by (rule rawObj_even)
  have fld: "covered ?h r [] (rawObj u) \<or> u \<in> set (objFields h p) \<and> (scanLeft h r p u \<longrightarrow> scanLeft ?h r p u)"
    if "inReg h r p" "marked h p" and u: "u \<in> set (objFields ?h p)" and "u \<noteq> 0" for p u
  proof -
    define as where "as = fieldAddrs h (hOwn h p) (slotOf (hp_slab h (hOwn h p)) p)"
    have fo: "objFields ?h p = map (ldPtr ?h) as" "objFields h p = map (ldPtr h) as"
      using mutFrame_objAddrs[OF f] by (simp_all add: as_def objFields_def fieldVals_def)
    from u obtain b where b: "b \<in> set as" "u = ldPtr ?h b" by (auto simp: fo)
    show ?thesis
    proof (cases "b = a")
      case True
      then have "u = v" using b(2) v(1) by (simp add: ldPtr_stPtr)
      then show ?thesis using v(2,3) by (simp add: cv ev)
    next
      case False
      then have u1: "u = ldPtr h b" using b(2) v(1) by (simp add: ldPtr_stPtr)
      have "scanLeft ?h r p u \<or> covered h r [] (rawObj u)" if s: "scanLeft h r p u"
      proof -
        let ?k = "r_scanOff (hp_reg h r)"
        obtain c where c: "c \<in> set (drop ?k as)" "u = ldPtr h c" using s by (auto simp: scanLeft_def fo drop_map)
        show ?thesis
        proof (cases "c = a")
          case True
          then show ?thesis using c(2) old by (simp add: ev)
        next
          case False
          then have "u = ldPtr ?h c" using c(2) v(1) by (simp add: ldPtr_stPtr)
          then have "u \<in> set (drop ?k (objFields ?h p))" unfolding fo(1) drop_map using c(1) by auto
          then show ?thesis using s unfolding scanLeft_def by simp
        qed
      qed
      then show ?thesis using b(1) u1 by (auto simp: fo cv)
    qed
  qed
  have st: "set (stk h r) \<subseteq> set (stk ?h r)" "\<And>raw. raw \<in> set (stk ?h r) \<Longrightarrow> raw < 2 ^ 64" using lt by simp_all
  have sl: "seedsLeft ?h r = seedsLeft h r" by (simp add: seedsLeft_def seedAt_def occAt_def cong: list.case_cong)
  have sd: "y \<in> seedsLeft ?h r \<or> covered ?h r [] y" if "y \<in> seedsLeft h r" for y using that by (simp add: sl)
  have m1: "marked ?h p" if "inReg h r p" "marked h p" for p using that by (simp add: mk)
  have m2: "forcedIn ?h r [] p" if "inReg h r p" "marked ?h p" "\<not> marked h p" for p using that by (simp add: mk)
  show "roundCov ?h ?h r UNIV C" by (rule roundCov_mut(1)[OF R f st m1 m2 fld sd])
  show "covered h r [] x \<Longrightarrow> covered ?h r [] x" by (simp add: cv)
qed

section \<open>The accounting of edges\<close>

text \<open>What changes only the registration bits and counts, losing at most the seed \<open>x\<close>.\<close>

definition edgeStep :: "addr \<Rightarrow> addr \<Rightarrow> heap \<Rightarrow> heap \<Rightarrow> bool" where
  "edgeStep r x h h' \<longleftrightarrow> mutFrame r h h' \<and> hp_mem h' = hp_mem h \<and> hp_shGen h' = hp_shGen h \<and>
     hp_shCache h' = hp_shCache h \<and> hp_partN h' = hp_partN h \<and> stk h' r = stk h r \<and>
     (\<forall>a. sl_mark (hp_slab h' a) = sl_mark (hp_slab h a)) \<and>
     (\<forall>a i. seedAt h a i \<longrightarrow> seedAt h' a i \<or> registered h a \<and> slotAddr (hp_slab h a) i = x)"

lemma edgeStep_refl: "heapWf h \<Longrightarrow> edgeStep r x h h"
  by (simp add: edgeStep_def mutFrame_refl)

lemma edgeStep_trans:
  assumes "edgeStep r x a b" "edgeStep r x b c"
  shows "edgeStep r x a c"
proof -
  have f: "mutFrame r a b" "mutFrame r b c" using assms by (simp_all add: edgeStep_def)
  have "slotAddr (hp_slab b s) = slotAddr (hp_slab a s)" for s by (rule headOf_eqD(9)[OF mutFrameD(7)[OF f(1)]])
  then show ?thesis
    using assms mutFrame_trans[OF f] mutFrameD(11)[OF f(1)] unfolding edgeStep_def by (simp, blast)
qed

lemma edgeStep_updReg:
  assumes "heapWf h" "\<And>y. r_slabs (f y) = r_slabs y" "\<And>y. r_seedRest (f y) = r_seedRest y"
      "\<And>y. r_seedWord (f y) = r_seedWord y" "\<And>y. r_seedsDone (f y) = r_seedsDone y"
      "\<And>y. r_scanObj (f y) = r_scanObj y" "\<And>y. r_scanOff (f y) = r_scanOff y"
      "\<And>y. r_marking (f y) = r_marking y" "\<And>y. r_stk (f y) = r_stk y"
  shows "edgeStep r x h (updReg k f h)"
proof -
  have "heapWf (updReg k f h)" by (rule heapWf_step[OF assms(1)]) simp_all
  then have "mutFrame r h (updReg k f h)" by (simp add: mutFrame_def sameHeads_def updReg_def assms)
  then show ?thesis by (simp add: edgeStep_def seedAt_def updReg_def assms)
qed

lemma edgeStep_updSlab:
  assumes wf: "heapWf h" and e: "eraseEdge (f (hp_slab h s)) = eraseEdge (hp_slab h s)"
      and len: "length (sl_rsbit (f (hp_slab h s))) = length (sl_rsbit (hp_slab h s))"
        "\<And>c. registered h s \<Longrightarrow> sl_rscnt (f (hp_slab h s)) = Some c \<Longrightarrow> length c = sl_nslots (hp_slab h s)"
      and bit: "\<And>i. seedAt h s i \<Longrightarrow> bmGet (sl_rsbit (f (hp_slab h s))) i \<or> registered h s \<and> slotAddr (hp_slab h s) i = x"
  shows "edgeStep r x h (updSlab s f h)"
proof -
  let ?y = "f (hp_slab h s)" and ?z = "hp_slab h s"
  have fl: "sl_occ ?y = sl_occ ?z" "sl_mark ?y = sl_mark ?z" "sl_tid ?y = sl_tid ?z" "sl_tt ?y = sl_tt ?z"
    "headOf ?y = headOf ?z"
    using e by (cases ?y; cases ?z; simp add: eraseEdge_def headOf_def)+
  note hd = headOf_eqD[OF fl(5)]
  have sh: "slabShape ?y" if "registered h s" "slabShape ?z"
    using that len fl hd unfolding slabShape_def occAt_def by simp
  have "heapWf (updSlab s f h)"
    by (rule heapWf_step[OF wf]) (use sh fl(5) in auto)
  then have "mutFrame r h (updSlab s f h)" using fl by (simp add: mutFrame_def sameHeads_def)
  moreover have "seedAt h a i \<longrightarrow> seedAt (updSlab s f h) a i \<or> registered h a \<and> slotAddr (hp_slab h a) i = x" for a i
    using bit[of i] fl hd by (auto simp: seedAt_def occAt_def)
  ultimately show ?thesis using fl by (simp add: edgeStep_def)
qed

lemma bmSet_mono: "bmGet b j \<Longrightarrow> bmGet (bmSet b i) j"
  by (cases "rcWord i < length b") (simp_all add: bmGet_bmSet, simp add: bmSet_def list_update_beyond)

lemma rsInc_edge:
  assumes wf: "heapWf h"
  shows "edgeStep r x h (rsIncSlab s t h)"
proof -
  let ?i = "slotOf (hp_slab h s) t"
  have shp: "length c = sl_nslots (hp_slab g s)" if "heapWf g" "registered g s" "sl_rscnt (hp_slab g s) = Some c" for g c
    using registered_wf(2)[OF that(1,2)] that(3) by (simp add: slabShape_def)
  define h1 where "h1 = updSlab s rsAlloc h"
  have e1: "edgeStep r x h h1"
    unfolding h1_def
    by (rule edgeStep_updSlab[OF wf])
      (use shp[OF wf] in \<open>auto simp: rsAlloc_def eraseEdge_def seedAt_def split: option.splits\<close>)
  have wf1: "heapWf h1" using e1 by (simp add: edgeStep_def mutFrame_def)
  define c where "c = rsCell (hp_slab h1 s) ?i"
  define h2 where "h2 = updSlab s (rsPut ?i ((c + 1) mod 2 ^ 16)) h1"
  have e2: "edgeStep r x h1 h2"
    unfolding h2_def
    by (rule edgeStep_updSlab[OF wf1]) (use shp[OF wf1] in \<open>auto simp: rsPut_def eraseEdge_def seedAt_def\<close>)
  have wf2: "heapWf h2" using e2 by (simp add: edgeStep_def mutFrame_def)
  define h3 where "h3 = (if c = 0 then updReg (sl_region (hp_slab h2 s)) (\<lambda>x. x\<lparr>r_seedAny := True\<rparr>)
      (updSlab s (\<lambda>x. x\<lparr>sl_rsbit := bmSet (sl_rsbit x) ?i\<rparr>) h2) else h2)"
  have e3: "edgeStep r x h2 h3"
  proof (cases "c = 0")
    case True
    let ?k = "updSlab s (\<lambda>x. x\<lparr>sl_rsbit := bmSet (sl_rsbit x) ?i\<rparr>) h2"
    have a: "edgeStep r x h2 ?k"
      by (rule edgeStep_updSlab[OF wf2])
        (use shp[OF wf2] bmSet_mono in \<open>auto simp: eraseEdge_def seedAt_def\<close>)
    have "heapWf ?k" using a by (simp add: edgeStep_def mutFrame_def)
    then have "edgeStep r x ?k h3" unfolding h3_def using True by (simp add: edgeStep_updReg)
    then show ?thesis using edgeStep_trans[OF a] by blast
  qed (simp add: h3_def edgeStep_refl[OF wf2])
  have wf3: "heapWf h3" using e3 by (simp add: edgeStep_def mutFrame_def)
  have e4: "edgeStep r x h3 (h3\<lparr>hp_rsInc := n, hp_rsHwm := m\<rparr>)" for n m
  proof -
    have "heapWf (h3\<lparr>hp_rsInc := n, hp_rsHwm := m\<rparr>)" by (rule heapWf_step[OF wf3]) simp_all
    then show ?thesis by (simp add: edgeStep_def mutFrame_def sameHeads_def seedAt_def)
  qed
  note all = edgeStep_trans[OF e1 edgeStep_trans[OF e2 edgeStep_trans[OF e3 e4]]]
  consider "\<not> occAt (hp_slab h s) ?i" | "occAt (hp_slab h s) ?i" "c = RC_HOLD_SAT" | "occAt (hp_slab h s) ?i" "c \<noteq> RC_HOLD_SAT"
    by blast
  then show ?thesis
  proof cases
    case 1
    then show ?thesis using edgeStep_refl[OF wf] by (simp add: rsIncSlab_def Let_def)
  next
    case 2
    then have "rsIncSlab s t h = h1"
      unfolding rsIncSlab_def Let_def h1_def[symmetric] c_def[symmetric] by simp
    then show ?thesis using e1 by simp
  next
    case 3
    let ?n = "hp_rsInc h3 + 1"
    have "rsIncSlab s t h = h3\<lparr>hp_rsInc := ?n,
        hp_rsHwm := (if ?n - hp_rsDec h3 > hp_rsHwm h3 then ?n - hp_rsDec h3 else hp_rsHwm h3)\<rparr>"
      using 3 unfolding rsIncSlab_def Let_def h1_def[symmetric] c_def[symmetric] h2_def[symmetric] h3_def[symmetric]
      by (simp only: if_False not_True_eq_False if_True)
    then show ?thesis using all by (simp only:)
  qed
qed

lemma rsDec_edge:
  assumes wf: "heapWf h" and s: "s = hOwn h x" "s \<noteq> 0" "x < 2 ^ 64"
  shows "edgeStep r x h (rsDecSlab s x h)"
proof -
  let ?i = "slotOf (hp_slab h s) x"
  have shp: "length c = sl_nslots (hp_slab g s)" if "heapWf g" "registered g s" "sl_rscnt (hp_slab g s) = Some c" for g c
    using registered_wf(2)[OF that(1,2)] that(3) by (simp add: slabShape_def)
  have ob: "registered h s" "?i < sl_nslots (hp_slab h s)" "slotAddr (hp_slab h s) ?i = x"
    using hOwn_obj[OF wf s(3), of s] s by auto
  define c where "c = rsCell (hp_slab h s) ?i"
  define h1 where "h1 = updSlab s (rsPut ?i (c - 1)) h"
  have e1: "edgeStep r x h h1"
    unfolding h1_def
    by (rule edgeStep_updSlab[OF wf]) (use shp[OF wf] in \<open>auto simp: rsPut_def eraseEdge_def seedAt_def\<close>)
  have wf1: "heapWf h1" using e1 by (simp add: edgeStep_def mutFrame_def)
  define h2 where "h2 = (if c - 1 = 0 then updSlab s (\<lambda>x. x\<lparr>sl_rsbit := bmClr (sl_rsbit x) ?i\<rparr>) h1 else h1)"
  have f1: "mutFrame r h h1" using e1 by (simp add: edgeStep_def)
  have w: "rcWord ?i < length (sl_rsbit (hp_slab h1 s))"
    using slot_wf[OF wf ob(1,2)] registered_wf(2)[OF wf ob(1)] by (simp add: slabShape_def h1_def rsPut_def)
  have e2: "edgeStep r x h1 h2"
  proof (cases "c - 1 = 0")
    case True
    have r1: "registered h1 s" "slotAddr (hp_slab h1 s) = slotAddr (hp_slab h s)"
      using ob(1) mutFrameD(11)[OF f1] headOf_eqD(9)[OF mutFrameD(7)[OF f1]] by simp_all
    have "bmGet (bmClr (sl_rsbit (hp_slab h1 s)) ?i) j \<or> registered h1 s \<and> slotAddr (hp_slab h1 s) j = x"
      if "seedAt h1 s j" for j
      using that ob(3) r1 by (cases "j = ?i") (simp_all add: bmGet_bmClr[OF w] seedAt_def)
    then have "edgeStep r x h1 (updSlab s (\<lambda>x. x\<lparr>sl_rsbit := bmClr (sl_rsbit x) ?i\<rparr>) h1)"
      by (intro edgeStep_updSlab[OF wf1]) (use shp[OF wf1] in \<open>auto simp: eraseEdge_def\<close>)
    then show ?thesis using True by (simp add: h2_def)
  qed (simp add: h2_def edgeStep_refl[OF wf1])
  have wf2: "heapWf h2" using e2 by (simp add: edgeStep_def mutFrame_def)
  have e3: "edgeStep r x h2 (h2\<lparr>hp_rsDec := n\<rparr>)" for n
  proof -
    have "heapWf (h2\<lparr>hp_rsDec := n\<rparr>)" by (rule heapWf_step[OF wf2]) simp_all
    then show ?thesis by (simp add: edgeStep_def mutFrame_def sameHeads_def seedAt_def)
  qed
  note all = edgeStep_trans[OF e1 edgeStep_trans[OF e2 e3]]
  show ?thesis
  proof (cases "\<not> occAt (hp_slab h s) ?i \<or> sl_rscnt (hp_slab h s) = None \<or> c = 0 \<or> c = RC_HOLD_SAT")
    case True
    then have "rsDecSlab s x h = h" by (auto simp: rsDecSlab_def Let_def c_def)
    then show ?thesis using edgeStep_refl[OF wf] by simp
  next
    case False
    then have "rsDecSlab s x h = h2\<lparr>hp_rsDec := hp_rsDec h2 + 1\<rparr>"
      unfolding rsDecSlab_def Let_def c_def[symmetric] h1_def[symmetric] h2_def[symmetric] by auto
    then show ?thesis using all by simp
  qed
qed

lemma edge_round:
  assumes R: "roundCov h0 h r UNIV C" and e: "edgeStep r x h h'" and x: "covered h r [] x"
  shows "roundCov h' h' r UNIV C" and "covered h r [] y \<Longrightarrow> covered h' r [] y"
proof -
  have f: "mutFrame r h h'" and mem: "hp_mem h' = hp_mem h" and stk: "stk h' r = stk h r"
    and mk: "\<And>a. sl_mark (hp_slab h' a) = sl_mark (hp_slab h a)"
    and sd: "\<And>a i. seedAt h a i \<Longrightarrow> seedAt h' a i \<or> slotAddr (hp_slab h a) i = x"
    using e by (auto simp: edgeStep_def)
  note D = mutFrameD[OF f]
  have m: "marked h' p = marked h p" for p by (rule marked_cong[OF D(1) mk])
  have on: "onStack h' r [] = onStack h r []" by (simp add: onStack_def stk)
  have cv: "covered h' r [] c = covered h r [] c" for c by (simp add: covered_def D(5) m on)
  have ofl: "objFields h' p = objFields h p" for p
    using mutFrame_objAddrs[OF f, of p] by (simp add: objFields_def fieldVals_def ldPtr_def mem)
  have sc: "scanLeft h' r p u = scanLeft h r p u" for p u by (simp add: scanLeft_def ofl mutFrame_region[OF f])
  have lt: "raw < 2 ^ 64" if "raw \<in> set (stk h r)" for raw
    using R that by (simp add: roundCov_def markInv_def markSound_def onStack_def)
  have st: "set (stk h r) \<subseteq> set (stk h' r)" "\<And>raw. raw \<in> set (stk h' r) \<Longrightarrow> raw < 2 ^ 64" using lt stk by simp_all
  have m1: "marked h' p" if "inReg h r p" "marked h p" for p using that by (simp add: m)
  have m2: "forcedIn h' r [] p" if "inReg h r p" "marked h' p" "\<not> marked h p" for p using that by (simp add: m)
  have fld: "covered h' r [] (rawObj u) \<or> u \<in> set (objFields h p) \<and> (scanLeft h r p u \<longrightarrow> scanLeft h' r p u)"
    if "inReg h r p" "marked h p" "u \<in> set (objFields h' p)" "u \<noteq> 0" for p u
    using that(3) unfolding ofl sc by blast
  have sa: "slotAddr (hp_slab h' a) = slotAddr (hp_slab h a)" for a by (rule headOf_eqD(9)[OF D(7)])
  have cx: "covered h' r [] x" using x by (simp add: cv)
  have sl: "z \<in> seedsLeft h' r \<or> covered h' r [] z" if z: "z \<in> seedsLeft h r" for z
  proof (cases "r_seedRest (hp_reg h r)")
    case (Cons s rest)
    from z consider i where "z = slotAddr (hp_slab h s) i" "seedAt h s i" "r_seedWord (hp_reg h r) \<le> rcWord i"
      | u i where "z = slotAddr (hp_slab h u) i" "u \<in> set rest" "seedAt h u i"
      by (auto simp: seedsLeft_def Cons)
    then show ?thesis
    proof cases
      case 1
      then show ?thesis using sd[OF 1(2)] cx by (auto simp: seedsLeft_def mutFrame_region[OF f] Cons sa)
    next
      case 2
      then show ?thesis using sd[OF 2(3)] cx by (auto simp: seedsLeft_def mutFrame_region[OF f] Cons sa)
    qed
  qed (use z in \<open>simp add: seedsLeft_def\<close>)
  show "roundCov h' h' r UNIV C" by (rule roundCov_mut(1)[OF R f st m1 m2 fld sl])
  show "covered h r [] y \<Longrightarrow> covered h' r [] y" by (simp add: cv)
qed

lemma crossEdge_step:
  assumes wf: "heapWf h"
  shows "edgeStep r (ldPtr h slot) h (crossEdge host slot v h)"
proof -
  let ?old = "ldPtr h slot" and ?sv = "if v \<noteq> 0 then hOwn h v else 0"
  define h1 where "h1 = (if ?sv \<noteq> 0 \<and> sl_region (hp_slab h ?sv) \<noteq> host
               then updReg host (\<lambda>x. x\<lparr>r_foreign := True\<rparr>) (rsIncSlab ?sv v h) else h)"
  have i: "edgeStep r ?old h (rsIncSlab ?sv v h)" by (rule rsInc_edge[OF wf])
  then have "heapWf (rsIncSlab ?sv v h)" by (simp add: edgeStep_def mutFrame_def)
  then have "edgeStep r ?old (rsIncSlab ?sv v h) (updReg host (\<lambda>x. x\<lparr>r_foreign := True\<rparr>) (rsIncSlab ?sv v h))"
    by (rule edgeStep_updReg) simp_all
  then have e1: "edgeStep r ?old h h1" using edgeStep_trans[OF i] edgeStep_refl[OF wf] by (simp add: h1_def)
  then have wf1: "heapWf h1" and f1: "mutFrame r h h1" and m1: "ldPtr h1 slot = ?old"
    by (simp_all add: edgeStep_def mutFrame_def ldPtr_def)
  let ?sold = "if ?old \<noteq> 0 then hOwn h1 ?old else 0"
  have "crossEdge host slot v h = (if r_foreign (hp_reg h1 host) \<and> ?sold \<noteq> 0 \<and> sl_region (hp_slab h1 ?sold) \<noteq> host
      then rsDecSlab ?sold ?old h1 else h1)"
    unfolding crossEdge_def Let_def h1_def[symmetric] m1 by simp
  moreover have "edgeStep r ?old h1 (rsDecSlab ?sold ?old h1)" if "?sold \<noteq> 0"
    by (rule rsDec_edge[OF wf1 _ that ldPtr_lt]) (use that in \<open>simp split: if_splits\<close>)
  ultimately have "edgeStep r ?old h1 (crossEdge host slot v h)" using edgeStep_refl[OF wf1] by simp
  then show ?thesis by (rule edgeStep_trans[OF e1])
qed

section \<open>Marks only grow\<close>

definition markMono :: "heap \<Rightarrow> heap \<Rightarrow> bool" where
  "markMono h h' \<longleftrightarrow> (\<forall>a i. bmGet (sl_mark (hp_slab h a)) i \<longrightarrow> bmGet (sl_mark (hp_slab h' a)) i)"

lemma markMono_refl [simp]: "markMono h h"
  by (simp add: markMono_def)

lemma markMono_trans: "markMono a b \<Longrightarrow> markMono b c \<Longrightarrow> markMono a c"
  by (simp add: markMono_def)

lemma markMono_cursor: "hp_slab h' = hp_slab h \<Longrightarrow> markMono h h'"
  by (simp add: markMono_def)

lemma fold_markChild_slab: "hp_slab (fold (\<lambda>w. markChild r s (f w)) xs h) = hp_slab h"
  by (induction xs arbitrary: h) (simp_all add: markChild_def markPushFast_eq)

lemma markScan_mono: "markMono (sc_heap c) (sc_heap (markScan r raw c))"
proof -
  let ?h = "sc_heap c" and ?p = "rawObj raw"
  let ?s = "scanSlab ?h (sc_last c) ?p"
  let ?i = "slotOf (hp_slab ?h ?s) ?p"
  define h1 where "h1 = updReg r (\<lambda>x. x\<lparr>r_markedBytes := r_markedBytes x + int (sl_ss (hp_slab ?h ?s))\<rparr>)
                          (updSlab ?s (\<lambda>x. x\<lparr>sl_mark := bmSet (sl_mark x) ?i\<rparr>) ?h)"
  have m1: "markMono ?h h1" by (simp add: markMono_def h1_def bmSet_mono)
  have m2: "markMono ?h (updReg r g h1)" for g using m1 by (simp add: markMono_def)
  have fl: "markMono a (fold (\<lambda>w. markChild r s (f w)) xs b) = markMono a b" for a b s f xs
    by (simp add: markMono_def fold_markChild_slab)
  show ?thesis
    unfolding markScan_def Let_def h1_def[symmetric] using m1 m2 by (auto simp: fl)
qed

lemma scanBatch_mono: "markMono (sc_heap c) (sc_heap (scanBatch r xs c))"
proof (induction r xs c rule: scanBatch.induct)
  case (2 r x xs c)
  have "hp_slab (fold (markPush r) ys h) = hp_slab h" for ys h by (induction ys arbitrary: h) simp_all
  then have f: "markMono h (fold (markPush r) ys h)" for ys h by (simp add: markMono_cursor)
  show ?case
  proof (cases "sc_split c")
    case True
    then show ?thesis using f[of "sc_heap c" "rev (x # xs)"] by simp
  next
    case False
    then show ?thesis using 2 markMono_trans[OF markScan_mono] by simp
  qed
qed simp

lemma walk_mono: "markMono (sc_heap c) (sc_heap (walk r b c))"
proof (induction r b c rule: walk.induct)
  case (1 r b c)
  let ?h = "sc_heap c" and ?stk = "stk (sc_heap c) r"
  have pop: "markMono ?h (popN r n ?h)" for n by (rule markMono_cursor) (simp add: popN_def)
  show ?case
  proof (cases "?stk \<noteq> [] \<and> b > 0 \<and> \<not> sc_split c")
    case False
    then show ?thesis using walk_stop[OF refl False] by simp
  next
    case True
    show ?thesis
    proof (cases "length ?stk \<le> RC_MARK_SHALLOW")
      case sh: True
      let ?d = "markScan r (hd ?stk) (c\<lparr>sc_heap := popN r 1 ?h\<rparr>)"
      have w: "walk r b c = walk r (b - 1) ?d" by (rule walk_shallow) (use True sh in auto)
      have "markMono (popN r 1 ?h) (sc_heap ?d)"
        using markScan_mono[of "c\<lparr>sc_heap := popN r 1 ?h\<rparr>" r "hd ?stk"] by simp
      moreover have "markMono (sc_heap ?d) (sc_heap (walk r (b - 1) ?d))" by (rule "1.IH"(1)[OF refl refl True sh])
      ultimately show ?thesis unfolding w using markMono_trans pop by blast
    next
      case dp: False
      let ?l = "batchLim b ?h r"
      let ?d = "scanBatch r (take ?l ?stk) (c\<lparr>sc_heap := popN r ?l ?h\<rparr>)"
      have w: "walk r b c = walk r (b - ?l) ?d" by (rule walk_deep) (use True dp in auto)
      have "markMono (popN r ?l ?h) (sc_heap ?d)"
        using scanBatch_mono[of "c\<lparr>sc_heap := popN r ?l ?h\<rparr>" r "take ?l ?stk"] by simp
      moreover have "markMono (sc_heap ?d) (sc_heap (walk r (b - ?l) ?d))" by (rule "1.IH"(2)[OF refl refl True dp refl])
      ultimately show ?thesis unfolding w using markMono_trans pop by blast
    qed
  qed
qed

lemma seedLoop_slab: "hp_slab (seedLoop r p w h) = hp_slab h"
proof (induction r p w h rule: seedLoop.induct)
  case (1 r p w h)
  have "hp_slab (fold (\<lambda>b. markPush r (f b)) ys g) = hp_slab g" for f ys g by (induction ys arbitrary: g) simp_all
  then have f: "hp_slab (fold (\<lambda>b. markPush r (f b)) ys g) = hp_slab g" for f ys g .
  have "hp_slab (seedWordStep r h) = hp_slab h"
    by (cases "r_seedRest (hp_reg h r)") (simp_all add: seedWordStep_def Let_def f)
  then show ?case
    using 1 by (cases "p < RC_SEED_PUSHES \<and> w < RC_SEED_WORDS \<and> r_seedRest (hp_reg h r) \<noteq> []")
      (simp_all add: seedLoop_go seedLoop_stop)
qed

lemma markStep_mono: "markMono h (fst (markStep r b h))"
proof -
  have a: "hp_slab (markResume r h) = hp_slab h" by (simp add: markResume_def Let_def fold_markChild_slab)
  have s: "hp_slab (seedPhase r g) = hp_slab g" for g by (simp add: seedPhase_def Let_def seedLoop_slab)
  let ?g = "seedPhase r (if r_scanObj (hp_reg h r) \<noteq> 0 then markResume r h else h)"
  have "markMono h ?g" by (rule markMono_cursor) (simp add: a s)
  moreover have "markMono ?g (sc_heap (walk r n \<lparr>sc_heap = ?g, sc_last = 0, sc_split = False, sc_marked = 0\<rparr>))" for n
    using walk_mono[of "\<lparr>sc_heap = ?g, sc_last = 0, sc_split = False, sc_marked = 0\<rparr>" r n] by simp
  ultimately show ?thesis unfolding markStep_def Let_def fst_conv using markMono_trans by blast
qed

end
