(* ===== verification/Rc_MutRun.thy ===== *)
theory Rc_MutRun
  imports Rc_Interleave
begin

text \<open>A marking round with the program running in between: an inductive relation whose steps are the
  increments of the round (markStep) and the stores of reference fields (storeRef, storeRefSameRegion,
  storeRefOwnedReg and storeRefOwned of back/reclaim.c), the invariant every step keeps, and what it says
  once the round has nothing pending.\<close>

section \<open>Rounds with stores in between\<close>

definition mutOk :: "addr \<Rightarrow> addr set \<Rightarrow> heap \<Rightarrow> bool" where
  "mutOk r C h \<longleftrightarrow> roundCov h h r UNIV C \<and> hp_wb h \<noteq> 0 \<and> r_marking (hp_reg h r) \<and> r \<noteq> 0 \<and> shadeSound h r"

lemma mutOk_wf: "mutOk r C h \<Longrightarrow> heapWf h"
  by (simp add: mutOk_def roundCov_def markInv_def)

lemma roundCov_widen: "roundCov h0 h r B C \<Longrightarrow> roundCov h h r UNIV C"
  by (auto simp: roundCov_def markInv_def markSound_def intro: reach.base)

lemma roundCov_add: "roundCov h0 h r UNIV C \<Longrightarrow> covered h r [] x \<Longrightarrow> roundCov h0 h r UNIV (insert x C)"
  by (simp add: roundCov_def)

text \<open>Each part of a store keeps the round, keeps what is covered, and says what it covers.\<close>

lemma mutOk_shade:
  assumes m: "mutOk r C h" and v: "even v" "v < 2 ^ 64"
  shows "mutOk r (insert v C) (shade v h)" "hp_mem (shade v h) = hp_mem h" "covered (shade v h) r [] v"
    "covered h r [] x \<Longrightarrow> covered (shade v h) r [] x" "mutFrame r h (shade v h)"
proof -
  have R: "roundCov h h r UNIV C" using m by (simp add: mutOk_def)
  have s: "shadeStep r v h (shade v h)"
    by (rule shade_step[OF mutOk_wf[OF m]]) (use m v in \<open>auto simp: mutOk_def\<close>)
  note S = shadeStep_round[OF R s v]
  have f: "mutFrame r h (shade v h)" "shadeSound (shade v h) r" using s by (simp_all add: shadeStep_def)
  show "mutOk r (insert v C) (shade v h)"
    using m f(2) roundCov_add[OF S(1,3)] mutFrameD(12,13)[OF f(1)] by (simp add: mutOk_def)
  show "hp_mem (shade v h) = hp_mem h" using s by (simp add: shadeStep_def)
  show "covered (shade v h) r [] v" by (rule S(3))
  show "covered h r [] x \<Longrightarrow> covered (shade v h) r [] x" by (rule S(2))
  show "mutFrame r h (shade v h)" by (rule f(1))
qed

lemma mutOk_shadeOld:
  assumes m: "mutOk r C h" and v: "even (ldPtr h a)" "a \<noteq> 0"
  shows "mutOk r (insert (ldPtr h a) C) (shadeOld a h)" "hp_mem (shadeOld a h) = hp_mem h"
    "covered (shadeOld a h) r [] (ldPtr h a)" "covered h r [] x \<Longrightarrow> covered (shadeOld a h) r [] x"
    "mutFrame r h (shadeOld a h)"
proof -
  have "shadeOld a h = shade (ldPtr h a) h" using m v(2) by (simp add: shadeOld_def mutOk_def)
  then show "mutOk r (insert (ldPtr h a) C) (shadeOld a h)" "hp_mem (shadeOld a h) = hp_mem h"
    "covered (shadeOld a h) r [] (ldPtr h a)" "covered h r [] x \<Longrightarrow> covered (shadeOld a h) r [] x"
    "mutFrame r h (shadeOld a h)"
    using mutOk_shade[OF m v(1) ldPtr_lt] by simp_all
qed

lemma mutOk_edge:
  assumes m: "mutOk r C h" and e: "edgeStep r x h h'" and x: "covered h r [] x"
  shows "mutOk r C h'" "hp_mem h' = hp_mem h" "covered h r [] y \<Longrightarrow> covered h' r [] y"
proof -
  have R: "roundCov h h r UNIV C" using m by (simp add: mutOk_def)
  note E = edge_round[OF R e x]
  have f: "mutFrame r h h'" and k: "hp_shGen h' = hp_shGen h" "hp_shCache h' = hp_shCache h" "hp_mem h' = hp_mem h"
    and mk: "\<And>a. sl_mark (hp_slab h' a) = sl_mark (hp_slab h a)"
    using e by (simp_all add: edgeStep_def)
  have "marked h' p = marked h p" for p by (rule marked_cong[OF mutFrameD(1)[OF f] mk])
  then have "shadeSound h' r"
    using m by (simp add: mutOk_def shadeSound_def cacheOk_def shadeKnown_def shadeHash_def k mutFrameD(5)[OF f])
  then show "mutOk r C h'" using m E(1) mutFrameD(12,13)[OF f] by (simp add: mutOk_def)
  show "hp_mem h' = hp_mem h" by (rule k(3))
  show "covered h r [] y \<Longrightarrow> covered h' r [] y" by (rule E(2))
qed

lemma mutOk_stPtr:
  assumes m: "mutOk r C h" and v: "v < 2 ^ 64" "even v" "covered h r [] v"
      and old: "even (ldPtr h a)" "covered h r [] (ldPtr h a)"
  shows "mutOk r C (stPtr a v h)"
proof -
  have R: "roundCov h h r UNIV C" using m by (simp add: mutOk_def)
  note f = stPtr_frame[OF mutOk_wf[OF m], of r a v]
  have "marked (stPtr a v h) p = marked h p" for p by (rule marked_cong[OF mutFrameD(1)[OF f]]) simp
  then have "shadeSound (stPtr a v h) r"
    using m by (simp add: mutOk_def shadeSound_def cacheOk_def shadeKnown_def shadeHash_def mutFrameD(5)[OF f])
  then show ?thesis using m stPtr_round(1)[OF R v old] mutFrameD(12,13)[OF f] by (simp add: mutOk_def)
qed

lemma ldPtr_mem: "hp_mem h' = hp_mem h \<Longrightarrow> ldPtr h' a = ldPtr h a"
  by (simp add: ldPtr_def)

text \<open>The stores of the reference fields.\<close>

definition refStore :: "addr \<Rightarrow> addr \<Rightarrow> heap \<Rightarrow> heap \<Rightarrow> bool" where
  "refStore a v h h' \<longleftrightarrow> storeRef a v h = Inr h' \<or> storeRefSameRegion a v h = Inr h' \<or>
     (\<exists>host. storeRefOwnedReg a v host h = Inr h') \<or> (\<exists>owner. storeRefOwned a v owner h = Inr h')"

lemma refStore_shape:
  assumes "refStore a v h h'"
  shows "a \<noteq> 0 \<and> (h' = stPtr a v (shade v (shadeOld a h)) \<or>
    (let g = shadeOld a (shade v h) in h' = stPtr a v g \<or> (\<exists>host. h' = stPtr a v (crossEdge host a v g))))"
proof (cases "a = 0")
  case True
  then show ?thesis
    using assms by (auto simp: refStore_def storeRef_def storeRefSameRegion_def storeRefOwnedReg_def storeRefOwned_def Let_def)
next
  case False
  from assms consider "storeRef a v h = Inr h'" | "storeRefSameRegion a v h = Inr h'"
    | host where "storeRefOwnedReg a v host h = Inr h'" | owner where "storeRefOwned a v owner h = Inr h'"
    by (auto simp: refStore_def)
  then show ?thesis
  proof cases
    case 3
    then show ?thesis using False by (auto simp: storeRefOwnedReg_def Let_def split: if_splits)
  next
    case 4
    then show ?thesis using False by (auto simp: storeRefOwned_def Let_def split: if_splits)
  qed (use False in \<open>auto simp: storeRef_def storeRefSameRegion_def Let_def\<close>)
qed

lemma mutOk_store:
  assumes m: "mutOk r C h" and s: "refStore a v h h'" and v: "even v" "v < 2 ^ 64" and old: "even (ldPtr h a)"
  shows "mutOk r (insert v (insert (ldPtr h a) C)) h' \<and> mutFrame r h h' \<and>
    (\<forall>b. ldPtr h' b = (if b = a then v else ldPtr h b))"
proof -
  let ?o = "ldPtr h a" and ?D = "insert v (insert (ldPtr h a) C)"
  have a: "a \<noteq> 0" using refStore_shape[OF s] by simp
  have fin: "mutOk r ?D (stPtr a v g) \<and> mutFrame r h (stPtr a v g) \<and>
      (\<forall>b. ldPtr (stPtr a v g) b = (if b = a then v else ldPtr h b))"
    if "mutOk r ?D g" "hp_mem g = hp_mem h" "covered g r [] v" "covered g r [] ?o" "mutFrame r h g" for g
  proof -
    have "mutOk r ?D (stPtr a v g)"
      by (rule mutOk_stPtr[OF that(1) v(2,1) that(3)]) (use that old in \<open>simp_all add: ldPtr_mem[OF that(2)]\<close>)
    then show ?thesis
      using mutFrame_trans[OF that(5) stPtr_frame[OF mutOk_wf[OF that(1)]]]
      by (simp add: ldPtr_stPtr[OF v(2)] ldPtr_mem[OF that(2)])
  qed
  from refStore_shape[OF s] consider (new_last) "h' = stPtr a v (shade v (shadeOld a h))"
    | (plain) "h' = stPtr a v (shadeOld a (shade v h))"
    | (cross) host where "h' = stPtr a v (crossEdge host a v (shadeOld a (shade v h)))"
    by (auto simp: Let_def)
  then show ?thesis
  proof cases
    case new_last
    note A = mutOk_shadeOld[OF m old a]
    note B = mutOk_shade[OF A(1) v]
    show ?thesis
      unfolding new_last by (rule fin[OF B(1)]) (use A(2,3) B(2,3,4) mutFrame_trans[OF A(5) B(5)] in auto)
  next
    case plain
    note A = mutOk_shade[OF m v]
    have old': "even (ldPtr (shade v h) a)" and oe: "ldPtr (shade v h) a = ?o" by (simp_all add: ldPtr_mem[OF A(2)] old)
    note B = mutOk_shadeOld[OF A(1) old' a, unfolded oe]
    show ?thesis
      unfolding plain
      by (rule fin) (use B(1,2,3) A(2) B(4)[OF A(3)] mutFrame_trans[OF A(5) B(5)] in \<open>auto simp: insert_commute\<close>)
  next
    case (cross host)
    note A = mutOk_shade[OF m v]
    have old': "even (ldPtr (shade v h) a)" and oe: "ldPtr (shade v h) a = ?o" by (simp_all add: ldPtr_mem[OF A(2)] old)
    note B = mutOk_shadeOld[OF A(1) old' a, unfolded oe]
    let ?g = "shadeOld a (shade v h)"
    have go: "ldPtr ?g a = ?o" by (rule ldPtr_mem) (simp add: A(2) B(2))
    note X = crossEdge_step[OF mutOk_wf[OF B(1)], of r a host v, unfolded go]
    note E = mutOk_edge[OF B(1) X B(3)]
    have "mutFrame r h (crossEdge host a v ?g)"
      using mutFrame_trans[OF mutFrame_trans[OF A(5) B(5)]] X by (simp add: edgeStep_def)
    then show ?thesis
      unfolding cross by (intro fin) (use E B A E(3)[OF B(3)] E(3)[OF B(4)[OF A(3)]] in \<open>auto simp: insert_commute\<close>)
  qed
qed

text \<open>What the end of a round rests on: reference fields hold even values, objects are short.\<close>

definition tame :: "addr \<Rightarrow> heap \<Rightarrow> bool" where
  "tame r h \<longleftrightarrow> evenFields h r \<and> shortObjs h r"

lemma tame_store:
  assumes t: "tame r h" and f: "mutFrame r h h'" and v: "even v"
      and l: "\<forall>b. ldPtr h' b = (if b = a then v else ldPtr h b)"
  shows "tame r h'"
proof -
  have "even w" if "inReg h r p" "w \<in> set (objFields h' p)" for p w
    using that t v unfolding mutFrame_objAddrs[OF f] by (auto simp: l tame_def evenFields_def objFields_def fieldVals_def)
  then show ?thesis
    using t headOf_eqD(12)[OF mutFrameD(7)[OF f]]
    by (simp add: tame_def evenFields_def shortObjs_def mutFrameD(3,5)[OF f])
qed

lemma tame_mark: "markFrame r h h' \<Longrightarrow> tame r h' \<longleftrightarrow> tame r h"
  by (simp add: tame_def markFrame_evenFields markFrame_shortObjs)

lemma tame_core: "coreEq r h h' \<Longrightarrow> tame r h' \<longleftrightarrow> tame r h"
  by (simp add: tame_def coreEq_simps)

lemma mutFrame_full: "mutFrame r h h' \<Longrightarrow> regionFull h' r = regionFull h r"
  using mutFrame_region(1)[of r h h'] headOf_eqD(1)[OF mutFrameD(7)[of r h h']] mutFrameD(11)[of r h h']
  by (simp add: regionFull_def regionOk_def)

lemma mutOk_step:
  assumes m: "mutOk r C h"
  shows "mutOk r C (fst (markStep r b h))"
proof -
  let ?g = "fst (markStep r b h)"
  have R: "roundCov h ?g r UNIV C" by (rule markStep_inv) (use m in \<open>simp add: mutOk_def\<close>)
  then have f: "markFrame r h ?g" by (simp add: roundCov_def)
  have k: "hp_shGen ?g = hp_shGen h" "hp_shCache ?g = hp_shCache h" "hp_wb ?g = hp_wb h"
    using f unfolding markFrame_def by (cases h; cases ?g; simp)+
  have "r_marking (hp_reg ?g r) = r_marking (hp_reg h r)"
    by (rule eraseReg_fields(3)) (use f in \<open>simp add: markFrame_def\<close>)
  moreover have "marked ?g p" if "marked h p" for p
    using markStep_mono[where h = h and r = r and b = b] that
    by (simp add: marked_def markMono_def markFrame_hOwn[OF f] markFrame_slotOf[OF f])
  then have "shadeSound ?g r"
    using m by (simp add: mutOk_def shadeSound_def cacheOk_def shadeKnown_def shadeHash_def k markFrame_inReg[OF f])
  ultimately show ?thesis using m roundCov_widen[OF R] k by (simp add: mutOk_def)
qed

lemma mutOk_begin:
  assumes rd: "roundReady h r" and roots: "\<forall>p\<in>set roots. p < 2 ^ 64" and r0: "r \<noteq> 0"
      and c: "cacheOk h" and wb: "hp_wb h \<ge> 0"
  shows "mutOk r (baseSet h r roots) (rcBegin r roots h)"
proof -
  let ?a = "rcOpen r h" and ?g = "markBegin r roots (rcOpen r h)"
  note ca = rcOpen_core[of r h]
  have R: "roundInv ?a ?g r (baseSet h r roots)"
    using markBegin_inv[of ?a r roots] rd roots by (simp add: coreEq_ready[OF ca] coreEq_base[OF ca])
  then have f: "markFrame r ?a ?g" by (simp add: roundInv_def)
  have k: "hp_shGen ?g = hp_shGen ?a" "hp_shCache ?g = hp_shCache ?a" "hp_wb ?g = hp_wb ?a"
    using f unfolding markFrame_def by (cases ?a; cases ?g; simp)+
  have n: "hp_shGen ?a = hp_shGen (shadeNextGen h)" "hp_shCache ?a = hp_shCache (shadeNextGen h)"
    by (simp_all add: rcOpen_def Let_def updReg_def)
  have "cacheOk ?g" "\<And>v. v \<noteq> 0 \<Longrightarrow> \<not> shadeKnown ?g v"
    using nextGen_forgets[OF c] nextGen_forgets[OF c, of 1]
    by (simp_all add: cacheOk_def shadeKnown_def shadeHash_def k n)
  then have "shadeSound ?g r" by (auto simp: shadeSound_def)
  moreover have "r_marking (hp_reg ?g r) = r_marking (hp_reg ?a r)"
    by (rule eraseReg_fields(3)) (use f in \<open>simp add: markFrame_def\<close>)
  ultimately show ?thesis
    using roundCov_widen[OF R] r0 wb rcOpen_fields[of r h] k by (simp add: mutOk_def rcBegin_open)
qed

inductive mutRun :: "heap \<Rightarrow> addr \<Rightarrow> addr list \<Rightarrow> heap \<Rightarrow> addr set \<Rightarrow> bool" for h r roots where
  begin_round: "mutRun h r roots (rcBegin r roots h) (baseSet h r roots)"
| mark_step: "mutRun h r roots g C \<Longrightarrow> mutRun h r roots (fst (markStep r b g)) C"
| store: "mutRun h r roots g C \<Longrightarrow> refStore a v g g' \<Longrightarrow> even v \<Longrightarrow> v < 2 ^ 64 \<Longrightarrow> even (ldPtr g a) \<Longrightarrow>
    mutRun h r roots g' (insert v (insert (ldPtr g a) C))"

lemma mutRun_drain:
  assumes "mutRun h r roots g C" "drainLoop r b (g, m) = Some (g', m')"
  shows "mutRun h r roots g' C"
proof -
  have "case (g', m') of (g, m :: nat) \<Rightarrow> mutRun h r roots g C"
    by (rule while_option_rule[OF _ assms(2)[unfolded drainLoop_def]])
      (use assms(1) mutRun.mark_step in \<open>auto split: prod.splits; metis fst_conv\<close>)+
  then show ?thesis by simp
qed

lemma mutRun_ok:
  assumes "mutRun h r roots g C" "roundReady h r" "\<forall>p\<in>set roots. p < 2 ^ 64" "r \<noteq> 0" "cacheOk h" "hp_wb h \<ge> 0"
  shows "mutOk r C g \<and> (tame r h \<longrightarrow> tame r g) \<and> (regionFull h r \<longrightarrow> regionFull g r) \<and> hp_wb g \<ge> 1"
  using assms(1)
proof (induction rule: mutRun.induct)
  case begin_round
  have c: "coreEq r h (rcOpen r h)" by (rule rcOpen_core)
  have f: "markFrame r (rcOpen r h) (rcBegin r roots h)"
    using markBegin_inv[of "rcOpen r h" r roots] assms(2,3) by (simp add: coreEq_ready[OF c] roundInv_def rcBegin_open)
  have "hp_wb (rcBegin r roots h) \<ge> 1"
    using rcOpen_fields[of r h] assms(6) markFrame_fields(7)[OF f] by simp
  then show ?case
    using mutOk_begin[OF assms(2-6)] tame_mark[OF f] tame_core[OF c] markFrame_full[OF f] coreEq_simps(8)[OF c] by blast
next
  case (mark_step g C b)
  have f: "markFrame r g (fst (markStep r b g))"
    using markStep_inv[of g g r UNIV C b] mark_step.IH by (simp add: mutOk_def roundCov_def)
  have "hp_wb (fst (markStep r b g)) \<ge> 1" using mark_step.IH markFrame_fields(7)[OF f] by simp
  then show ?case using mutOk_step[of r C g b] mark_step.IH tame_mark[OF f] markFrame_full[OF f] by blast
next
  case (store g C a v g')
  have m: "mutOk r C g" and t: "tame r h \<Longrightarrow> tame r g" using store.IH by auto
  note M = mutOk_store[OF m store.hyps(2-5)]
  then have f: "mutFrame r g g'" by blast
  have "tame r g \<Longrightarrow> tame r g'" using tame_store[OF _ f store.hyps(3)] M by blast
  moreover have "hp_wb g' \<ge> 1" using store.IH mutFrameD(12)[OF f] by simp
  ultimately show ?case using M t store.IH mutFrame_full[OF f] by blast
qed

lemma roundCov_done:
  assumes R: "roundCov h0 g r B C" and dn: "\<not> markPending g r" and p: "reach g r C p"
  shows "marked g p"
proof -
  have none: "onStack g r [] = {}" "r_scanObj (hp_reg g r) = 0" "r_seedsDone (hp_reg g r)"
    using dn by (auto simp: markPending_def onStack_def)
  show ?thesis
    using p
  proof (induction rule: reach.induct)
    case (base p)
    then show ?case using R none by (auto simp: roundCov_def covered_def)
  next
    case (step p v)
    have "covered g r [] (rawObj v) \<or> scanLeft g r p v \<or> forcedIn g r [] p"
      using R step reach_inReg[OF step.hyps(1)] by (simp add: roundCov_def markInv_def markClosed_def)
    then show ?case using step.hyps(4) none by (auto simp: covered_def scanLeft_def forcedIn_def)
  qed
qed

text \<open>What a collection called on such a round frees.\<close>

lemma mutRun_collect:
  assumes m: "mutOk r C g" and t: "tame r g" and full: "regionFull g r" and wb: "hp_wb g \<ge> 1"
      and ns: "\<not> r_noSweep (hp_reg g r)"
  shows "\<exists>h' n. collect r roots g = Inr (h', n) \<and> {p. reach g r C p} \<subseteq> objects h' r \<and>
    (\<forall>p\<in>objects h' r. p \<in> objects g r \<and> objFields h' p = objFields g p) \<and>
    (\<forall>k. k \<noteq> r \<longrightarrow> objects h' k = objects g k)"
proof -
  have R: "roundCov g g r UNIV C" and mk: "r_marking (hp_reg g r)" and r0: "r \<noteq> 0" using m by (simp_all add: mutOk_def)
  have ub: "RC_UNBOUNDED > 0" by (simp add: RC_UNBOUNDED_def)
  obtain b k where d: "drainLoop r RC_UNBOUNDED (g, 0) = Some (b, k)"
    using drain_ends[OF R ub, of 0] t by (auto simp: tame_def)
  note D = drain_inv[OF R d]
  have f: "markFrame r g b" and np: "\<not> markPending b r" using D by (simp_all add: roundCov_def)
  have wf: "heapWf b" using D by (simp add: roundCov_def markInv_def)
  have fb: "regionFull b r" using full markFrame_full[OF f] by simp
  have mb: "r_marking (hp_reg b r)" and nb: "\<not> r_noSweep (hp_reg b r)"
    using mk ns eraseReg_fields[of "hp_reg b r" "hp_reg g r"] f by (simp_all add: markFrame_def)
  have wbb: "hp_wb b \<ge> 1" using wb markFrame_fields(7)[OF f] by simp
  obtain e h' where e: "rcBind (rcFinish r (updReg r (\<lambda>x. x\<lparr>r_wbDebt := 0\<rparr>) b)) (\<lambda>h2. rcSettle r h2) = Inr h'"
    "coreEq r b e" "sweepDone e h' r"
    using finish_settle[OF wf fb mb np wbb nb r0] by blast
  note O = finish_objects[OF wf fb e(2,3)]
  have "marked b p \<and> p \<in> objects b r" if "reach g r C p" for p
    using roundCov_done[OF _ np] D that markFrame_reach[OF f] reach_inReg[OF that]
    by (auto simp: objects_def markFrame_inReg[OF f])
  then have "{p. reach g r C p} \<subseteq> objects h' r" using O by blast
  moreover have "collect r roots g = Inr (h', r_swFreed (hp_reg h' r))"
    unfolding collect_eq using mk d e(1) by simp
  moreover have "objects b k = objects g k" for k by (simp add: objects_def markFrame_inReg[OF f])
  ultimately show ?thesis using O by (simp add: markFrame_objFields[OF f])
qed

end
