(* ===== verification/Rc_EdgeCount.thy ===== *)
theory Rc_EdgeCount
  imports Rc_Interleave
begin

text \<open>
  The counts of references from other regions (\<open>rscnt\<close>, \<open>rsbit\<close> of \<open>src/back/reclaim.c\<close>) refine a
  saturating counter: an object is registered as a root of its region exactly as long as its count
  is positive, and a count that has once reached the maximum never goes down again.
\<close>

section \<open>The abstract counter\<close>

datatype edgeOp = Gain | Lose

fun satStep :: "edgeOp \<Rightarrow> nat \<Rightarrow> nat" where
  "satStep Gain c = (if c = RC_HOLD_SAT then c else c + 1)"
| "satStep Lose c = (if c = RC_HOLD_SAT then c else c - 1)"

fun edgeDo :: "addr \<Rightarrow> edgeOp \<Rightarrow> heap \<Rightarrow> heap" where
  "edgeDo p Gain h = rsInc p h"
| "edgeDo p Lose h = rsDec p h"

text \<open>What relates the two: an occupied slot of a well-formed heap whose registration bit says
  whether its count is positive.\<close>

definition counted :: "addr \<Rightarrow> nat \<Rightarrow> heap \<Rightarrow> bool" where
  "counted p c h \<longleftrightarrow> heapWf h \<and> p < 2 ^ 64 \<and> owns h p \<and> rsCount h p = c \<and> c \<le> RC_HOLD_SAT \<and>
     (isRegistered h p \<longleftrightarrow> 0 < c)"

lemma satStep_bound: "c \<le> RC_HOLD_SAT \<Longrightarrow> satStep e c \<le> RC_HOLD_SAT"
  by (cases e) (auto simp: RC_HOLD_SAT_def)

lemma satStep_stuck: "fold satStep es RC_HOLD_SAT = RC_HOLD_SAT"
proof (induction es)
  case (Cons e es)
  then show ?case by (cases e) simp_all
qed simp

section \<open>The steps\<close>

text \<open>What an object's slab and slot are, and what one step does to the slab that holds it.\<close>

lemma counted_slot:
  assumes "counted p c h"
  defines "s \<equiv> hOwn h p" and "i \<equiv> slotOf (hp_slab h (hOwn h p)) p"
  shows "registered h s" "s \<noteq> 0" "occAt (hp_slab h s) i" "i < sl_nslots (hp_slab h s)"
    "rcWord i < length (sl_rsbit (hp_slab h s))" "rsCell (hp_slab h s) i = c"
    "bmGet (sl_rsbit (hp_slab h s)) i \<longleftrightarrow> 0 < c"
    "sl_rscnt (hp_slab h s) = Some xs \<Longrightarrow> length xs = sl_nslots (hp_slab h s)"
proof -
  have wf: "heapWf h" and ow: "owns h p" and p: "p < 2 ^ 64" using assms(1) by (simp_all add: counted_def)
  show s0: "s \<noteq> 0" and oc: "occAt (hp_slab h s) i"
    using ow by (simp_all add: owns_def Let_def s_def i_def split: if_splits)
  show rs: "registered h s" and ii: "i < sl_nslots (hp_slab h s)"
    using hOwn_obj[OF wf, of p s] s0 p by (simp_all add: s_def i_def)
  have sh: "slabShape (hp_slab h s)" by (rule registered_wf(2)[OF wf rs])
  then show "rcWord i < length (sl_rsbit (hp_slab h s))"
    using slot_wf[OF wf rs ii] by (simp add: slabShape_def)
  show "sl_rscnt (hp_slab h s) = Some xs \<Longrightarrow> length xs = sl_nslots (hp_slab h s)"
    using sh by (simp add: slabShape_def)
  show "rsCell (hp_slab h s) i = c" "bmGet (sl_rsbit (hp_slab h s)) i \<longleftrightarrow> 0 < c"
    using assms(1) s0 oc by (auto simp: counted_def rsCount_def isRegistered_def Let_def s_def i_def)
qed

text \<open>A later heap with the same headers counts \<open>d\<close> when its slab does.\<close>

lemma counted_step:
  assumes k: "counted p c h" and e: "edgeStep r x h h'"
      and cell: "rsCell (hp_slab h' (hOwn h p)) (slotOf (hp_slab h (hOwn h p)) p) = d" "d \<le> RC_HOLD_SAT"
      and bit: "bmGet (sl_rsbit (hp_slab h' (hOwn h p))) (slotOf (hp_slab h (hOwn h p)) p) \<longleftrightarrow> 0 < d"
  shows "counted p d h'"
proof -
  have f: "mutFrame r h h'" using e by (simp add: edgeStep_def)
  note D = mutFrameD[OF f]
  have "slotOf (hp_slab h' a) = slotOf (hp_slab h a)" for a by (rule headOf_eqD(8)[OF D(7)])
  then show ?thesis
    using k cell bit counted_slot(2,3)[OF k] D(2)
    by (simp add: counted_def rsCount_def isRegistered_def Let_def D(3,4,10))
qed

lemma rsInc_counted:
  assumes k: "counted p c h"
  shows "counted p (satStep Gain c) (rsInc p h)"
proof -
  define s where "s = hOwn h p"
  define i where "i = slotOf (hp_slab h s) p"
  note S = counted_slot[OF k, folded s_def, folded i_def]
  have wf: "heapWf h" and cb: "c \<le> RC_HOLD_SAT" using k by (simp_all add: counted_def)
  have al: "rsCell (rsAlloc (hp_slab h s)) i = c" "sl_rsbit (rsAlloc (hp_slab h s)) = sl_rsbit (hp_slab h s)"
    "\<exists>xs. sl_rscnt (rsAlloc (hp_slab h s)) = Some xs \<and> length xs = sl_nslots (hp_slab h s)"
    using S(4,6,8) by (auto simp: rsAlloc_def rsCell_def split: option.splits)
  then obtain xs where xs: "sl_rscnt (rsAlloc (hp_slab h s)) = Some xs" "length xs = sl_nslots (hp_slab h s)" by blast
  have e: "edgeStep 0 0 h (rsInc p h)"
    using rsInc_edge[OF wf] S(2) by (simp add: rsInc_def Let_def s_def)
  have h': "rsInc p h = rsIncSlab s p h" using S(2) by (simp add: rsInc_def Let_def s_def)
  show ?thesis
  proof (rule counted_step[OF k e, folded s_def, folded i_def])
    show "satStep Gain c \<le> RC_HOLD_SAT" by (rule satStep_bound[OF cb])
    show "rsCell (hp_slab (rsInc p h) s) i = satStep Gain c"
      using S(3,4) al xs cb
      by (auto simp: h' rsIncSlab_def Let_def i_def[symmetric] rsPut_def rsCell_def RC_HOLD_SAT_def)
    show "bmGet (sl_rsbit (hp_slab (rsInc p h) s)) i \<longleftrightarrow> 0 < satStep Gain c"
      using S(3,5,7) al cb
      by (auto simp: h' rsIncSlab_def Let_def i_def[symmetric] rsPut_def RC_HOLD_SAT_def bmGet_bmSet)
  qed
qed

lemma rsDec_counted:
  assumes k: "counted p c h"
  shows "counted p (satStep Lose c) (rsDec p h)"
proof -
  define s where "s = hOwn h p"
  define i where "i = slotOf (hp_slab h s) p"
  note S = counted_slot[OF k, folded s_def, folded i_def]
  have wf: "heapWf h" and cb: "c \<le> RC_HOLD_SAT" and p: "p < 2 ^ 64" using k by (simp_all add: counted_def)
  have e: "edgeStep 0 p h (rsDec p h)"
    using rsDec_edge[OF wf _ _ p, of s 0] S(2) by (simp add: rsDec_def Let_def s_def)
  have h': "rsDec p h = rsDecSlab s p h" using S(2) by (simp add: rsDec_def Let_def s_def)
  have z: "sl_rscnt (hp_slab h s) = None \<Longrightarrow> c = 0" using S(6) by (simp add: rsCell_def)
  show ?thesis
  proof (rule counted_step[OF k e, folded s_def, folded i_def])
    show "satStep Lose c \<le> RC_HOLD_SAT" by (rule satStep_bound[OF cb])
    show "rsCell (hp_slab (rsDec p h) s) i = satStep Lose c"
      using S(3,4,6,8) z
      by (auto simp: h' rsDecSlab_def Let_def i_def[symmetric] rsPut_def rsCell_def split: option.splits)
    show "bmGet (sl_rsbit (hp_slab (rsDec p h) s)) i \<longleftrightarrow> 0 < satStep Lose c"
      using S(3,5,6,7) z
      by (auto simp: h' rsDecSlab_def Let_def i_def[symmetric] rsPut_def bmGet_bmClr RC_HOLD_SAT_def)
  qed
qed

lemma edgeDo_counted: "counted p c h \<Longrightarrow> counted p (satStep e c) (edgeDo p e h)"
  using rsInc_counted rsDec_counted by (cases e) simp_all

lemma edgeDos_counted: "counted p c h \<Longrightarrow> counted p (fold satStep es c) (fold (edgeDo p) es h)"
  by (induction es arbitrary: c h) (simp_all add: edgeDo_counted)

text \<open>Below the maximum the counter is the difference.\<close>

lemma satStep_exact:
  assumes "\<forall>k\<le>length es. length (filter (\<lambda>e. e = Lose) (take k es)) \<le> c + length (filter (\<lambda>e. e = Gain) (take k es))"
      and "c + length (filter (\<lambda>e. e = Gain) es) < RC_HOLD_SAT"
  shows "fold satStep es c + length (filter (\<lambda>e. e = Lose) es) = c + length (filter (\<lambda>e. e = Gain) es)"
  using assms
proof (induction es arbitrary: c)
  case (Cons e es)
  have step: "\<And>k. k \<le> length es \<Longrightarrow> length (filter (\<lambda>e. e = Lose) (take (Suc k) (e # es))) \<le>
      c + length (filter (\<lambda>e. e = Gain) (take (Suc k) (e # es)))"
    using Cons.prems(1) by (metis Suc_le_mono length_Cons)
  show ?case
  proof (cases e)
    case Gain
    then show ?thesis using Cons.IH[of "c + 1"] step Cons.prems(2) by simp
  next
    case Lose
    have c: "0 < c" using step[of 0] Lose by simp
    have "length (filter (\<lambda>e. e = Lose) (take k es)) \<le> c - 1 + length (filter (\<lambda>e. e = Gain) (take k es))" if "k \<le> length es" for k
      using step[OF that] Lose c by simp
    then show ?thesis using Cons.IH[of "c - 1"] Lose c Cons.prems(2) by simp
  qed
qed simp

end
