(* ===== verification/Rc_BarrierClaims.thy ===== *)
theory Rc_BarrierClaims
  imports Rc_MutRun Rc_EdgeCount Rc_Example
begin

text \<open>
  The properties of the write barrier: collections whose marking the program interrupts with stores,
  the shade cache over its generations, the counts of edges between regions, the host a slot address
  resolves to.
\<close>

lemma shade_noSweep: "r_noSweep (hp_reg (shade v h) k) = r_noSweep (hp_reg h k)"
  by (simp add: shade_def shadeSlow_def Let_def shadeRemember_def markPushForce_def markPush_def)

lemma shadeOld_noSweep: "r_noSweep (hp_reg (shadeOld a h) k) = r_noSweep (hp_reg h k)"
  by (simp add: shadeOld_def shade_noSweep)

section \<open>Stores in the middle of a round\<close>

lemma ex_cacheOk: "cacheOk (exHeap m)"
  by (simp add: cacheOk_def exHeap_def)

text \<open>The store of the closed instances: once a round has begun on the example heap, the reference
  field of the object at \<open>exX\<close> is redirected to the object that was garbage.\<close>

lemma ex_store_run:
  obtains g where "mutRun (exHeap 0) 8 [exX] g {exZ, exY, exX}" "\<not> r_noSweep (hp_reg g 8)"
proof -
  let ?o = "rcOpen 8 (exHeap 0)" and ?b = "rcBegin 8 [exX] (exHeap 0)"
  note c = rcOpen_core[of 8 "exHeap 0"]
  have f: "markFrame 8 ?o ?b"
    using markBegin_inv[of ?o 8 "[exX]"] ex_ready ex_roots(1)
    by (simp add: coreEq_ready[OF c] roundInv_def rcBegin_open)
  have "hp_mem ?b = hp_mem (exHeap 0)" using markFrame_fields(1)[OF f] c by (simp add: coreEq_def)
  then have l: "ldPtr ?b exX = exY" by (simp add: ldPtr_def exHeap_def ex_addrs)
  have "r_noSweep (hp_reg ?b 8) = r_noSweep (hp_reg ?o 8)"
    by (rule eraseReg_fields(5)) (use f in \<open>simp add: markFrame_def\<close>)
  then have n: "\<not> r_noSweep (hp_reg ?b 8)" by (simp add: rcOpen_def Let_def shadeNextGen_def)
  let ?g = "stPtr exX exZ (shade exZ (shadeOld exX ?b))"
  have "refStore exX exZ ?b ?g" by (simp add: refStore_def storeRefSameRegion_def exX_def exA_def)
  moreover have "mutRun (exHeap 0) 8 [exX] ?b {exX}"
    using mutRun.begin_round[of "exHeap 0" 8 "[exX]"] by (simp add: ex_base)
  ultimately have "mutRun (exHeap 0) 8 [exX] ?g (insert exZ (insert (ldPtr ?b exX) {exX}))"
    by (intro mutRun.store) (simp_all add: l, simp_all add: ex_addrs)
  moreover have "\<not> r_noSweep (hp_reg ?g 8)" using n by (simp add: shade_noSweep shadeOld_noSweep)
  ultimately show ?thesis using that l by simp
qed

text \<open>C14: marking with the program running. A round is begun and then marking steps of any budget
  and stores of references alternate in any order; the stores are those of \<open>extc_rc_storeRef\<close>,
  \<open>extc_rc_storeRefSameRegion\<close>, \<open>extc_rc_storeRefOwnedReg\<close> and \<open>extc_rc_storeRefOwned\<close>. When
  nothing is pending, everything that can now be reached from the roots of the round, from a value
  that was stored or from a value that was overwritten carries a mark.\<close>

theorem mark_with_stores:
  assumes "mutRun h r roots g C" "roundReady h r" "\<forall>p\<in>set roots. p < 2 ^ 64" "r \<noteq> 0" "cacheOk h"
      "hp_wb h \<ge> 0" "\<not> markPending g r" "reach g r C p"
  shows "marked g p"
  using mutRun_ok[OF assms(1-6)] roundCov_done[OF _ assms(7,8)] unfolding mutOk_def by blast

theorem mark_with_stores_witness:
  "\<exists>g C. mutRun (exHeap 0) 8 [exX] g C \<and> exZ \<in> C \<and> (\<forall>p. reach g 8 C p \<longrightarrow> marked g p)"
proof -
  obtain g where g: "mutRun (exHeap 0) 8 [exX] g {exZ, exY, exX}" using ex_store_run by blast
  have b: "0 < RC_UNBOUNDED" and w: "hp_wb (exHeap 0) \<ge> 0" "(8 :: nat) \<noteq> 0" by (simp_all add: RC_UNBOUNDED_def)
  note M = mutRun_ok[OF g ex_ready ex_roots(1) w(2) ex_cacheOk w(1)]
  then have R: "roundCov g g 8 UNIV {exZ, exY, exX}" and t: "evenFields g 8" "shortObjs g 8"
    using ex_even ex_short by (simp_all add: mutOk_def tame_def)
  obtain k n where d: "drainLoop 8 RC_UNBOUNDED (g, 0) = Some (k, n)" using drain_ends[OF R b t] by blast
  have np: "\<not> markPending k 8" using drain_inv[OF R d] by blast
  note K = mutRun_drain[OF g d]
  show ?thesis
    using mark_with_stores[OF K ex_ready ex_roots(1) w(2) ex_cacheOk w(1) np] K by blast
qed



section \<open>The shade cache\<close>

text \<open>Advancing the generation forgets everything. The cache of values known to be marked is
  indexed by a hash that includes the generation number, and cleared whenever 2048 generations have
  passed; so after \<open>extc_rc_shadeNextGen\<close> no value is known, also when the number wraps at
  \<open>2 ^ 64\<close>.\<close>

theorem shade_generation:
  assumes "cacheOk h" "v \<noteq> 0"
  shows "\<not> shadeKnown (shadeNextGen h) v \<and> cacheOk (shadeNextGen h)"
  using nextGen_forgets[OF assms] by simp

theorem shade_generation_witness:
  "\<not> shadeKnown (shadeNextGen (shadeRemember exX (exHeap 0))) exX \<and> shadeKnown (shadeRemember exX (exHeap 0)) exX"
proof -
  have "shadeKnown (shadeRemember exX (exHeap 0)) exX" by (simp add: shadeKnown_def shadeRemember_def shadeHash_def)
  moreover have "exX \<noteq> 0" by (simp add: ex_addrs)
  ultimately show ?thesis using shade_generation[OF shadeRemember_cacheOk[OF ex_cacheOk]] by blast
qed

section \<open>Edges between regions\<close>

text \<open>C15: the counts of references from other regions implement a saturating counter. Whatever
  sequence of gained and lost references an unreferenced object sees, its count is that of the
  abstract counter, it is registered as a root of its region exactly while the count is positive,
  and once the count has reached 65535 the object stays registered for good.\<close>

theorem edge_counter:
  assumes "heapWf h" "p < 2 ^ 64" "owns h p" "rsCount h p = 0" "\<not> isRegistered h p"
  shows "let h' = fold (edgeDo p) es h; c = fold satStep es 0 in
    heapWf h' \<and> owns h' p \<and> rsCount h' p = c \<and> (isRegistered h' p \<longleftrightarrow> 0 < c) \<and>
    (c = RC_HOLD_SAT \<longrightarrow> isRegistered (fold (edgeDo p) fs h') p)"
proof -
  have "counted p 0 h" using assms by (simp add: counted_def)
  note k = edgeDos_counted[OF this, of es]
  have "isRegistered (fold (edgeDo p) fs (fold (edgeDo p) es h)) p" if "fold satStep es 0 = RC_HOLD_SAT"
    using edgeDos_counted[OF k, of fs] unfolding that satStep_stuck by (simp add: counted_def RC_HOLD_SAT_def)
  then show ?thesis using k by (simp add: counted_def Let_def)
qed

theorem edge_counter_witness:
  "rsCount (fold (edgeDo exY) [Gain, Gain, Lose] (exHeap 0)) exY = 1"
proof -
  have i: "inReg (exHeap 0) 8 exY" by (simp add: ex_inReg)
  have o1: "hOwn (exHeap 0) exY = exA" "slotOf (exSlab 0) exY = 1" using ex_obj[of 1 0] by (simp_all add: ex_addrs)
  have "exA \<noteq> 0" by (simp add: exA_def)
  moreover have "occAt (exSlab 0) 1" using ex_occ[of 1 0] by (simp add: rcWord_def)
  ultimately have "rsCount (exHeap 0) exY = 0" "\<not> isRegistered (exHeap 0) exY"
    by (simp_all add: rsCount_def isRegistered_def o1 rsCell_def bmGet_bit)
  moreover have "exY < 2 ^ 64" "owns (exHeap 0) exY" using i by (simp_all add: inReg_def)
  ultimately show ?thesis
    using edge_counter[OF ex_wf, of exY 0 "[Gain, Gain, Lose]"] by (simp add: Let_def RC_HOLD_SAT_def)
qed

lemma slab_own: "heapWf h \<Longrightarrow> hp_own h a = Some x \<Longrightarrow> x = a \<and> x \<noteq> 0"
proof -
  assume w: "heapWf h" "hp_own h a = Some x"
  then have "x = a" "geomOk a (hp_slab h a)" unfolding heapWf_def by blast+
  then show ?thesis by (simp add: geomOk_def)
qed

lemma in_data_area:
  assumes "heapWf h" "q < 2 ^ 64" "hp_own h b = Some b"
  shows "offOf (hp_slab h b) q < sl_nslots (hp_slab h b) * sl_ss (hp_slab h b) \<longleftrightarrow>
      sl_data (hp_slab h b) \<le> q \<and> q < sl_data (hp_slab h b) + sl_nslots (hp_slab h b) * sl_ss (hp_slab h b)"
proof -
  define d and n where "d = sl_data (hp_slab h b)" and "n = sl_nslots (hp_slab h b) * sl_ss (hp_slab h b)"
  have "geomOk b (hp_slab h b)" using assms(1,3) unfolding heapWf_def by blast
  then have g: "0 < d" "d + n \<le> 2 ^ 64" by (simp_all add: geomOk_def d_def n_def)
  show ?thesis unfolding d_def[symmetric] n_def[symmetric] offOf_def
  proof (cases "d \<le> q")
    case True
    then have e: "(q + (2 ^ 64 - d)) = q - d + 2 ^ 64" using g by simp
    have "(q + (2 ^ 64 - d)) mod 2 ^ 64 = q - d" unfolding e using assms(2) by simp
    then show "(q + (2 ^ 64 - d)) mod 2 ^ 64 < n \<longleftrightarrow> d \<le> q \<and> q < d + n" using True by auto
  next
    case False
    then have "(q + (2 ^ 64 - d)) mod 2 ^ 64 = q + (2 ^ 64 - d)" using g by simp
    then show "(q + (2 ^ 64 - d)) mod 2 ^ 64 < n \<longleftrightarrow> d \<le> q \<and> q < d + n" using False g by simp
  qed
qed

lemma data_area_block:
  assumes "heapWf h" "hp_own h b = Some b" "sl_data (hp_slab h b) \<le> q"
    "q < sl_data (hp_slab h b) + sl_nslots (hp_slab h b) * sl_ss (hp_slab h b)"
  shows "b = slabOf q"
proof -
  have "geomOk b (hp_slab h b) \<and> \<not> sl_big (hp_slab h b)" using assms(1,2) unfolding heapWf_def by blast
  then have g: "b mod RC_SLAB_SIZE = 0" "sl_data (hp_slab h b) = b + RC_SLAB_HDR"
    "RC_SLAB_HDR + sl_nslots (hp_slab h b) * sl_ss (hp_slab h b) \<le> RC_SLAB_SIZE"
    by (simp_all add: geomOk_def)
  have "slabOf (b + (q - b)) = b" by (rule slabOf_add[OF g(1)]) (use assms g in linarith)
  then show ?thesis using assms(3) g by simp
qed

text \<open>The region a slot address belongs to. For every byte of the data area of a block,
  \<open>extc_rc_slabOfInterior\<close> finds the block, and it finds a block for no other address.\<close>

theorem interior_host:
  assumes "heapWf h" "q < 2 ^ 64"
  shows "slabOfInterior h q = s \<and> s \<noteq> 0 \<longleftrightarrow> hp_own h s = Some s \<and>
    sl_data (hp_slab h s) \<le> q \<and> q < sl_data (hp_slab h s) + sl_nslots (hp_slab h s) * sl_ss (hp_slab h s)"
proof
  assume "slabOfInterior h q = s \<and> s \<noteq> 0"
  then have "hp_own h s = Some s" "offOf (hp_slab h s) q < sl_nslots (hp_slab h s) * sl_ss (hp_slab h s)"
    using slab_own[OF assms(1)] by (auto simp: slabOfInterior_def split: option.splits if_splits)
  then show "hp_own h s = Some s \<and> sl_data (hp_slab h s) \<le> q \<and>
      q < sl_data (hp_slab h s) + sl_nslots (hp_slab h s) * sl_ss (hp_slab h s)"
    using in_data_area[OF assms] by simp
next
  assume r: "hp_own h s = Some s \<and> sl_data (hp_slab h s) \<le> q \<and>
      q < sl_data (hp_slab h s) + sl_nslots (hp_slab h s) * sl_ss (hp_slab h s)"
  then have "slabOf q = s" using data_area_block[OF assms(1)] by blast
  then show "slabOfInterior h q = s \<and> s \<noteq> 0"
    using r slab_own[OF assms(1), of s s] in_data_area[OF assms, of s] by (simp add: slabOfInterior_def)
qed

theorem interior_host_witness: "slabOfInterior (exHeap 0) (exX + 5) = exA"
proof -
  have "hp_own (exHeap 0) exA = Some exA" by (simp add: exHeap_def)
  moreover have "sl_data (exSlab 0) = exX" by (simp add: exSlab_def)
  moreover have "exX + 5 < 2 ^ 64" by (simp add: ex_addrs)
  ultimately show ?thesis using interior_host[OF ex_wf, of "exX + 5" 0 exA] by simp
qed

end
