(* ===== verification/Lexer.thy ===== *)
theory Lexer
  imports Main
begin

text \<open>
  The scanner, \<open>src/front/lexer.c\<close>: the state with its cursor and position counters, one definition
  per scanning function, and the main loop. The error of the compilation context is part of the
  state, and only the first one is kept (\<open>ctxError\<close> of \<open>src/base/base.c\<close>); the tokens are appended to
  \<open>lx_out\<close>. The length of a token is the length of its text. The value of a floating-point token is
  \<open>strtod\<close> of its text and is not stored again. Positions are unbounded numbers.
\<close>

section \<open>Tables\<close>

definition KEYWORDS :: "string list" where
  "KEYWORDS = [''fn'', ''let'', ''var'', ''if'', ''else'', ''while'', ''for'', ''return'', ''match'',
     ''break'', ''continue'', ''struct'', ''type'', ''true'', ''false'', ''ref'', ''mut'',
     ''use'', ''extern'']"

definition BUILTIN_TYPES :: "string list" where
  "BUILTIN_TYPES = [''i8'', ''i16'', ''i32'', ''i64'', ''u8'', ''u16'', ''u32'', ''u64'',
     ''f32'', ''f64'', ''bool'', ''void'']"

definition PUNCTS :: "string list" where
  "PUNCTS = [''->'', ''=='', ''!='', ''<='', ''>='', ''&&'', ''||'', ''...'', ''..'', ''::'', ''=>'', ''??'',
     ''+='', ''-='', ''*='', ''/='', ''%='',
     ''|'', ''&'', ''^'', ''~'', ''@'',
     ''+'', ''-'', ''*'', ''/'', ''%'', ''='', ''<'', ''>'', ''!'', ''?'',
     ''('', '')'', ''{'', ''}'', ''['', '']'', '','', '':'', '';'', ''.'']"

definition inList :: "string list \<Rightarrow> string \<Rightarrow> bool" where
  "inList xs s \<longleftrightarrow> s \<in> set xs"

definition isKeyword :: "string \<Rightarrow> bool" where "isKeyword s = inList KEYWORDS s"
definition isBuiltinType :: "string \<Rightarrow> bool" where "isBuiltinType s = inList BUILTIN_TYPES s"

text \<open>\<open>lexIsPunct\<close>; the NULL pointer is \<open>None\<close>.\<close>

definition lexIsPunct :: "string option \<Rightarrow> bool" where
  "lexIsPunct v = (case v of None \<Rightarrow> False | Some s \<Rightarrow> s \<noteq> [] \<and> inList PUNCTS s)"

section \<open>Character classes\<close>

abbreviation ordc :: "char \<Rightarrow> nat" where "ordc c \<equiv> of_char c"

definition isDigit :: "char \<Rightarrow> bool" where "isDigit c \<longleftrightarrow> 48 \<le> ordc c \<and> ordc c \<le> 57"

definition isHex :: "char \<Rightarrow> bool" where
  "isHex c \<longleftrightarrow> isDigit c \<or> 97 \<le> ordc c \<and> ordc c \<le> 102 \<or> 65 \<le> ordc c \<and> ordc c \<le> 70"

definition isAlpha :: "char \<Rightarrow> bool" where
  "isAlpha c \<longleftrightarrow> 97 \<le> ordc c \<and> ordc c \<le> 122 \<or> 65 \<le> ordc c \<and> ordc c \<le> 90 \<or> c = CHR ''_''"

definition isAlnum :: "char \<Rightarrow> bool" where "isAlnum c \<longleftrightarrow> isAlpha c \<or> isDigit c"

section \<open>Tokens, errors and the state\<close>

datatype tokenKind =
  TK_EOF | TK_NEWLINE | TK_IDENT | TK_INT | TK_FLOAT | TK_STRING | TK_FSTRING
| TK_KEYWORD | TK_TYPE | TK_PUNCT

fun tokenKindName :: "tokenKind \<Rightarrow> string" where
  "tokenKindName TK_EOF = ''EOF''"
| "tokenKindName TK_NEWLINE = ''NEWLINE''"
| "tokenKindName TK_IDENT = ''IDENT''"
| "tokenKindName TK_INT = ''INT''"
| "tokenKindName TK_FLOAT = ''FLOAT''"
| "tokenKindName TK_STRING = ''STRING''"
| "tokenKindName TK_FSTRING = ''FSTRING''"
| "tokenKindName TK_KEYWORD = ''KEYWORD''"
| "tokenKindName TK_TYPE = ''TYPE''"
| "tokenKindName TK_PUNCT = ''PUNCT''"

record token =
  t_kind :: tokenKind
  t_text :: string
  t_ival :: int
  t_line :: nat
  t_col :: nat

text \<open>The messages of the scanner.\<close>

datatype lexErr =
  HexNeedsDigit | IntRange | ReservedIdent | UntermString | EscNeedsHex
| UnknownEscape char string | UntermChar | EmptyChar | MultiByteChar | UnexpectedChar char | UntermComment

type_synonym diag = "nat \<times> nat \<times> lexErr"

record lexer =
  lx_src :: string
  lx_pos :: nat
  lx_line :: nat
  lx_col :: nat
  lx_out :: "token list"
  lx_err :: "diag option"

definition NUL :: char where "NUL = CHR 0x00"
definition NL :: char where "NL = CHR 0x0A"
definition TAB :: char where "TAB = CHR 0x09"
definition CR :: char where "CR = CHR 0x0D"
definition DQ :: char where "DQ = CHR 0x22"
definition SQ :: char where "SQ = CHR 0x27"
definition BS :: char where "BS = CHR 0x5C"

definition LLONG_MAX :: int where "LLONG_MAX = 2 ^ 63 - 1"

definition ctxErr :: "nat \<Rightarrow> nat \<Rightarrow> lexErr \<Rightarrow> lexer \<Rightarrow> lexer" where
  "ctxErr l c e lx = (case lx_err lx of Some _ \<Rightarrow> lx | None \<Rightarrow> lx\<lparr>lx_err := Some (l, c, e)\<rparr>)"

definition lxPeek :: "lexer \<Rightarrow> nat \<Rightarrow> char" where
  "lxPeek lx k = (let j = lx_pos lx + k in if j < length (lx_src lx) then lx_src lx ! j else NUL)"

definition lxAdvance :: "lexer \<Rightarrow> lexer" where
  "lxAdvance lx = (if lxPeek lx 0 = NL then lx\<lparr>lx_pos := lx_pos lx + 1, lx_line := lx_line lx + 1, lx_col := 1\<rparr>
                   else lx\<lparr>lx_pos := lx_pos lx + 1, lx_col := lx_col lx + 1\<rparr>)"

fun lxAdvanceN :: "nat \<Rightarrow> lexer \<Rightarrow> lexer" where
  "lxAdvanceN 0 lx = lx"
| "lxAdvanceN (Suc n) lx = lxAdvanceN n (lxAdvance lx)"

definition lxPushAt :: "tokenKind \<Rightarrow> string \<Rightarrow> int \<Rightarrow> nat \<Rightarrow> nat \<Rightarrow> lexer \<Rightarrow> lexer" where
  "lxPushAt k txt v l c lx =
     lx\<lparr>lx_out := lx_out lx @ [\<lparr>t_kind = k, t_text = txt, t_ival = v, t_line = l, t_col = c\<rparr>]\<rparr>"

definition lxLast :: "lexer \<Rightarrow> token option" where
  "lxLast lx = (if lx_out lx = [] then None else Some (List.last (lx_out lx)))"

text \<open>The bytes from \<open>start\<close> up to the cursor.\<close>

definition lxText :: "nat \<Rightarrow> lexer \<Rightarrow> string" where
  "lxText start lx = take (lx_pos lx - start) (drop start (lx_src lx))"

lemma lxAdvance_simps [simp]:
  "lx_pos (lxAdvance lx) = Suc (lx_pos lx)" "lx_src (lxAdvance lx) = lx_src lx"
  "lx_out (lxAdvance lx) = lx_out lx" "lx_err (lxAdvance lx) = lx_err lx"
  by (simp_all add: lxAdvance_def)

text \<open>\<open>while (P (lxPeek lx 0)) lxAdvance lx\<close>, for the classes used: none of them holds of the NUL that
  \<open>lxPeek\<close> returns past the end, which is the bound made explicit here.\<close>

function skipWhile :: "(char \<Rightarrow> bool) \<Rightarrow> lexer \<Rightarrow> lexer" where
  "skipWhile P lx = (if lx_pos lx < length (lx_src lx) \<and> P (lxPeek lx 0) then skipWhile P (lxAdvance lx) else lx)"
  by pat_completeness auto
termination
  by (relation "measure (\<lambda>(P, lx). length (lx_src lx) - lx_pos lx)") auto

declare skipWhile.simps [simp del]

section \<open>Numbers\<close>

definition hexDigit :: "char \<Rightarrow> int" where
  "hexDigit h = (if isDigit h then int (ordc h) - 48
     else if 97 \<le> ordc h then int (ordc h) - 97 + 10 else int (ordc h) + 32 - 97 + 10)"

fun hexAcc :: "int \<Rightarrow> string \<Rightarrow> int option" where
  "hexAcc v [] = Some v"
| "hexAcc v (h # hs) = (let d = hexDigit h in
     if v > (LLONG_MAX - d) div 16 then None else hexAcc (v * 16 + d) hs)"

text \<open>\<open>strtoll\<close> of a text of decimal digits, before the saturation.\<close>

definition decVal :: "string \<Rightarrow> int" where
  "decVal s = foldl (\<lambda>v c. v * 10 + (int (ordc c) - 48)) 0 s"

definition lexHex :: "nat \<Rightarrow> nat \<Rightarrow> lexer \<Rightarrow> lexer" where
  "lexHex line col lx =
    (let start = lx_pos lx; a = lxAdvance (lxAdvance lx); b = skipWhile isHex a
     in if lx_pos b = lx_pos a then ctxErr line col HexNeedsDigit b
        else (case hexAcc 0 (lxText (lx_pos a) b) of
                None \<Rightarrow> ctxErr line col IntRange b
              | Some v \<Rightarrow> lxPushAt TK_INT (lxText start b) v line col b))"

definition lexFrac :: "lexer \<Rightarrow> lexer \<times> bool" where
  "lexFrac a = (if lxPeek a 0 = CHR ''.'' \<and> isDigit (lxPeek a 1)
                then (skipWhile isDigit (lxAdvance a), True) else (a, False))"

definition lexExp :: "lexer \<Rightarrow> bool \<Rightarrow> lexer \<times> bool" where
  "lexExp b f = (if lxPeek b 0 = CHR ''e'' \<or> lxPeek b 0 = CHR ''E''
     then (let k = (if lxPeek b 1 = CHR ''+'' \<or> lxPeek b 1 = CHR ''-'' then 2 else 1)
           in if isDigit (lxPeek b k) then (skipWhile isDigit (lxAdvanceN k b), True) else (b, f))
     else (b, f))"

text \<open>The end of a number that is not hexadecimal, and whether it is a floating-point number.\<close>

definition numEnd :: "lexer \<Rightarrow> lexer \<times> bool" where
  "numEnd lx = (let r = lexFrac (skipWhile isDigit lx) in lexExp (fst r) (snd r))"

definition pushNumber :: "nat \<Rightarrow> nat \<Rightarrow> nat \<Rightarrow> lexer \<times> bool \<Rightarrow> lexer" where
  "pushNumber line col start r =
    (let c = fst r; txt = lxText start c
     in if snd r then lxPushAt TK_FLOAT txt 0 line col c
        else if decVal txt > LLONG_MAX
             then ctxErr line col IntRange (lxPushAt TK_INT txt LLONG_MAX line col c)
             else lxPushAt TK_INT txt (decVal txt) line col c)"

definition lexNumber :: "lexer \<Rightarrow> lexer" where
  "lexNumber lx =
    (if lxPeek lx 0 = CHR ''0'' \<and> (lxPeek lx 1 = CHR ''x'' \<or> lxPeek lx 1 = CHR ''X'')
     then lexHex (lx_line lx) (lx_col lx) lx
     else pushNumber (lx_line lx) (lx_col lx) (lx_pos lx) (numEnd lx))"

section \<open>Identifiers\<close>

definition identKind :: "string \<Rightarrow> tokenKind" where
  "identKind s = (if inList KEYWORDS s then TK_KEYWORD else if inList BUILTIN_TYPES s then TK_TYPE else TK_IDENT)"

definition lexIdent :: "nat \<Rightarrow> nat \<Rightarrow> lexer \<Rightarrow> lexer" where
  "lexIdent line col lx =
    (let start = lx_pos lx; a = skipWhile isAlnum lx; txt = lxText start a;
         b = (if length txt \<ge> 2 \<and> txt ! 0 = CHR ''_'' \<and> txt ! 1 = CHR ''_''
              then ctxErr line col ReservedIdent a else a)
     in lxPushAt (identKind txt) txt 0 line col b)"

section \<open>Escapes, strings and character literals\<close>

text \<open>The \<open>\\x\<close> escape: one or two hexadecimal digits. Returns the number of digits too.\<close>

definition lexEscHex :: "lexer \<Rightarrow> lexer \<times> int \<times> nat" where
  "lexEscHex lx =
    (if \<not> isHex (lxPeek lx 0) then (lx, 0, 0)
     else (let v = hexDigit (lxPeek lx 0); a = lxAdvance lx
           in if \<not> isHex (lxPeek a 0) then (a, v, 1)
              else (lxAdvance a, v * 16 + hexDigit (lxPeek a 0), 2)))"

text \<open>The escapes that stand for themselves, with their bytes.\<close>

definition simpleEscapes :: "(char \<times> int) list" where
  "simpleEscapes = [(CHR ''n'', 10), (CHR ''t'', 9), (CHR ''r'', 13), (CHR ''0'', 0), (BS, 92), (SQ, 39), (DQ, 34),
     (CHR ''a'', 7), (CHR ''b'', 8), (CHR ''f'', 12), (CHR ''v'', 11)]"

definition lexEscape :: "nat \<Rightarrow> nat \<Rightarrow> string \<Rightarrow> lexer \<Rightarrow> lexer \<times> int" where
  "lexEscape line col what lx =
    (let c = lxPeek lx 0; a = lxAdvance lx
     in case map_of simpleEscapes c of
          Some v \<Rightarrow> (a, v)
        | None \<Rightarrow>
            if c = CHR ''x'' then
              (case lexEscHex a of (b, v, n) \<Rightarrow> if n = 0 then (ctxErr line col EscNeedsHex b, -1) else (b, v))
            else (ctxErr line col (UnknownEscape c what) a, -1))"

lemma ctxErr_simps [simp]:
  "lx_pos (ctxErr l c e lx) = lx_pos lx" "lx_src (ctxErr l c e lx) = lx_src lx"
  "lx_out (ctxErr l c e lx) = lx_out lx" "lx_line (ctxErr l c e lx) = lx_line lx" "lx_col (ctxErr l c e lx) = lx_col lx"
  by (simp_all add: ctxErr_def split: option.split)

lemma lexEscape_moves:
  "lx_src (fst (lexEscape l c w lx)) = lx_src lx" "lx_pos lx < lx_pos (fst (lexEscape l c w lx))"
  "lx_out (fst (lexEscape l c w lx)) = lx_out lx"
  by (simp_all add: lexEscape_def lexEscHex_def Let_def split: option.split)

lemma lexEscape_less:
  assumes "lx_pos lx < length (lx_src lx)"
  shows "length (lx_src (fst (lexEscape l c w (lxAdvance lx)))) - lx_pos (fst (lexEscape l c w (lxAdvance lx)))
    < length (lx_src lx) - lx_pos lx"
  using lexEscape_moves(1)[of l c w "lxAdvance lx"] lexEscape_moves(2)[where lx = "lxAdvance lx" and l = l and c = c and w = w] assms by simp

text \<open>The loop of \<open>lexString\<close>: the second component says that it was left at the closing quote or at the
  end, and not through an error.\<close>

function strLoop :: "nat \<Rightarrow> nat \<Rightarrow> lexer \<Rightarrow> lexer \<times> bool" where
  "strLoop line col lx =
    (if lx_pos lx < length (lx_src lx) \<and> lxPeek lx 0 \<noteq> DQ then
       (if lxPeek lx 0 = NL then (ctxErr line col UntermString lx, False)
        else if lxPeek lx 0 = BS then
          (let r = lexEscape line col ''a string literal'' (lxAdvance lx)
           in if snd r < 0 then (fst r, False) else strLoop line col (fst r))
        else strLoop line col (lxAdvance lx))
     else (lx, True))"
  by pat_completeness auto
termination
  by (relation "measure (\<lambda>(l, c, lx). length (lx_src lx) - lx_pos lx)") (auto intro: lexEscape_less)

declare strLoop.simps [simp del]

definition lexString :: "nat \<Rightarrow> nat \<Rightarrow> lexer \<Rightarrow> lexer" where
  "lexString line col lx =
    (let a = lxAdvance lx; start = lx_pos a
     in case strLoop line col a of (b, ok) \<Rightarrow>
          if \<not> ok then b
          else if lx_pos b \<ge> length (lx_src b) then ctxErr line col UntermString b
          else lxAdvance (lxPushAt TK_STRING (lxText start b) 0 line col b))"

text \<open>The closing quote of a character literal on the same line, skipping what a backslash protects.\<close>

function closeQuote :: "string \<Rightarrow> nat \<Rightarrow> nat option" where
  "closeQuote src p =
    (if p < length src \<and> src ! p \<noteq> NL then
       (if src ! p = BS then closeQuote src (p + 2)
        else if src ! p = SQ then Some p
        else closeQuote src (p + 1))
     else None)"
  by pat_completeness auto
termination
  by (relation "measure (\<lambda>(src, p). length src - p)") auto

declare closeQuote.simps [simp del]

definition pushChar :: "nat \<Rightarrow> nat \<Rightarrow> nat \<Rightarrow> nat \<Rightarrow> int \<Rightarrow> lexer \<Rightarrow> lexer" where
  "pushChar line col start close v lx =
    (let a = lx\<lparr>lx_pos := close + 1\<rparr> in lxPushAt TK_INT (lxText start a) v line col a)"

definition lexChar :: "nat \<Rightarrow> nat \<Rightarrow> lexer \<Rightarrow> lexer" where
  "lexChar line col lx =
    (let start = lx_pos lx
     in case closeQuote (lx_src lx) (start + 1) of
          None \<Rightarrow> ctxErr line col UntermChar lx
        | Some close \<Rightarrow>
            if close = start + 1 then ctxErr line col EmptyChar lx
            else if lx_src lx ! (start + 1) = BS then
              (let r = lexEscape line col ''a character literal'' (lx\<lparr>lx_pos := start + 2\<rparr>)
               in if snd r < 0 then fst r
                  else if lx_pos (fst r) \<noteq> close then ctxErr line col MultiByteChar (fst r)
                  else pushChar line col start close (snd r) (fst r))
            else if close = start + 2 then
              pushChar line col start close (int (ordc (lx_src lx ! (start + 1)))) lx
            else ctxErr line col MultiByteChar lx)"

section \<open>Punctuation\<close>

definition punctAt :: "lexer \<Rightarrow> string option" where
  "punctAt lx = List.find (\<lambda>p. lx_pos lx + length p \<le> length (lx_src lx) \<and>
                               take (length p) (drop (lx_pos lx) (lx_src lx)) = p) PUNCTS"

definition lexPunct :: "nat \<Rightarrow> nat \<Rightarrow> lexer \<Rightarrow> lexer \<times> bool" where
  "lexPunct line col lx =
    (case punctAt lx of
       Some p \<Rightarrow> (lxPushAt TK_PUNCT p 0 line col (lxAdvanceN (length p) lx), True)
     | None \<Rightarrow> (ctxErr line col (UnexpectedChar (lxPeek lx 0)) lx, False))"

section \<open>The main loop\<close>

definition pushNewline :: "nat \<Rightarrow> nat \<Rightarrow> lexer \<Rightarrow> lexer" where
  "pushNewline line col lx =
    (case lxLast lx of
       Some t \<Rightarrow> if t_kind t = TK_NEWLINE then lx else lxPushAt TK_NEWLINE [NL] 0 line col lx
     | None \<Rightarrow> lxPushAt TK_NEWLINE [NL] 0 line col lx)"

function skipComment :: "lexer \<Rightarrow> lexer" where
  "skipComment lx =
    (if lx_pos lx < length (lx_src lx) \<and> \<not> (lxPeek lx 0 = CHR ''*'' \<and> lxPeek lx 1 = CHR ''/'')
     then skipComment (lxAdvance lx) else lx)"
  by pat_completeness auto
termination
  by (relation "measure (\<lambda>lx. length (lx_src lx) - lx_pos lx)") auto

declare skipComment.simps [simp del]

definition asFString :: "lexer \<Rightarrow> lexer" where
  "asFString lx = (case lxLast lx of
     Some t \<Rightarrow> if t_kind t = TK_STRING
               then lx\<lparr>lx_out := butlast (lx_out lx) @ [t\<lparr>t_kind := TK_FSTRING\<rparr>]\<rparr> else lx
   | None \<Rightarrow> lx)"

text \<open>\<open>if (ctx->hasError) return; continue;\<close>\<close>

definition orStop :: "lexer \<Rightarrow> lexer \<times> bool" where
  "orStop lx = (lx, lx_err lx = None)"

text \<open>One turn of the loop of \<open>lexRange\<close>; the second component says whether it goes on.\<close>

definition lexStep :: "lexer \<Rightarrow> lexer \<times> bool" where
  "lexStep lx =
    (let c = lxPeek lx 0; line = lx_line lx; col = lx_col lx
     in if c = CHR '' '' \<or> c = TAB \<or> c = CR then (lxAdvance lx, True)
        else if c = NL then (pushNewline line col (lxAdvance lx), True)
        else if c = CHR ''/'' \<and> lxPeek lx 1 = CHR ''/'' then (skipWhile (\<lambda>c. c \<noteq> NL) lx, True)
        else if c = CHR ''/'' \<and> lxPeek lx 1 = CHR ''*'' then
          (let a = skipComment (lxAdvance (lxAdvance lx))
           in if lx_pos a \<ge> length (lx_src a) then (ctxErr line col UntermComment a, False)
              else (lxAdvance (lxAdvance a), True))
        else if isDigit c then orStop (lexNumber lx)
        else if isAlpha c then
          (if c = CHR ''f'' \<and> lx_pos lx + 1 < length (lx_src lx) \<and> lx_src lx ! (lx_pos lx + 1) = DQ
           then (let a = lexString line col (lxAdvance lx)
                 in if lx_err a \<noteq> None then (a, False) else (asFString a, True))
           else (lexIdent line col lx, True))
        else if c = DQ then orStop (lexString line col lx)
        else if c = SQ then orStop (lexChar line col lx)
        else lexPunct line col lx)"

section \<open>The cursor only moves forward\<close>

definition moves :: "lexer \<Rightarrow> lexer \<Rightarrow> bool" where
  "moves lx lx' \<longleftrightarrow> lx_src lx' = lx_src lx \<and> lx_pos lx \<le> lx_pos lx'"

named_theorems moves

lemma moves_refl [moves]: "moves lx lx" by (simp add: moves_def)

lemma moves_trans: "moves a b \<Longrightarrow> moves b c \<Longrightarrow> moves a c" by (simp add: moves_def)

lemma moves_advance [moves]: "moves lx (lxAdvance lx)" by (simp add: moves_def)

lemma moves_ctxErr [moves]: "moves lx (ctxErr l c e lx)" by (simp add: moves_def)

lemma lxPushAt_simps [simp]:
  "lx_pos (lxPushAt k s v l c lx) = lx_pos lx" "lx_src (lxPushAt k s v l c lx) = lx_src lx"
  "lx_err (lxPushAt k s v l c lx) = lx_err lx" "lx_line (lxPushAt k s v l c lx) = lx_line lx"
  "lx_col (lxPushAt k s v l c lx) = lx_col lx"
  by (simp_all add: lxPushAt_def)

lemma moves_push [moves]: "moves lx (lxPushAt k s v l c lx)" by (simp add: moves_def)

lemma skipWhile_spec:
  "lx_src (skipWhile P lx) = lx_src lx \<and> lx_pos lx \<le> lx_pos (skipWhile P lx) \<and>
   lx_out (skipWhile P lx) = lx_out lx \<and> lx_err (skipWhile P lx) = lx_err lx \<and>
   (lx_pos lx \<le> length (lx_src lx) \<longrightarrow> lx_pos (skipWhile P lx) \<le> length (lx_src lx))"
proof (induction P lx rule: skipWhile.induct)
  case (1 P lx)
  show ?case
  proof (cases "lx_pos lx < length (lx_src lx) \<and> P (lxPeek lx 0)")
    case True
    then show ?thesis using 1 by (simp add: skipWhile.simps[of P lx])
  next
    case False
    then have "skipWhile P lx = lx" by (subst skipWhile.simps) (simp only: if_False)
    then show ?thesis by simp
  qed
qed

lemma skipWhile_simps [simp]:
  "lx_src (skipWhile P lx) = lx_src lx" "lx_out (skipWhile P lx) = lx_out lx" "lx_err (skipWhile P lx) = lx_err lx"
  using skipWhile_spec[of P lx] by simp_all

lemma moves_skip [moves]: "moves lx (skipWhile P lx)"
  using skipWhile_spec[of P lx] by (simp add: moves_def)

lemma skipWhile_first:
  assumes "lx_pos lx < length (lx_src lx)" "P (lxPeek lx 0)"
  shows "lx_pos lx < lx_pos (skipWhile P lx)"
proof -
  have "skipWhile P lx = skipWhile P (lxAdvance lx)" by (subst skipWhile.simps) (simp add: assms)
  then show ?thesis using moves_skip[of "lxAdvance lx" P] by (simp add: moves_def)
qed

lemma advanceN_simps [simp]:
  "lx_pos (lxAdvanceN n lx) = lx_pos lx + n" "lx_src (lxAdvanceN n lx) = lx_src lx"
  "lx_out (lxAdvanceN n lx) = lx_out lx" "lx_err (lxAdvanceN n lx) = lx_err lx"
  by (induction n lx rule: lxAdvanceN.induct) simp_all

lemma moves_frac: "moves a (fst (lexFrac a))"
  using moves_trans[OF moves_advance moves_skip, of a isDigit] by (simp add: lexFrac_def moves_refl)

lemma moves_exp: "moves b (fst (lexExp b f))"
proof -
  have "moves b (skipWhile isDigit (lxAdvanceN k b))" for k
    by (rule moves_trans[OF _ moves_skip]) (simp add: moves_def)
  then show ?thesis by (simp add: lexExp_def Let_def moves_refl)
qed

lemma moves_hex: "moves (lxAdvance lx) (lexHex l c lx)"
  using moves_trans[OF moves_advance moves_skip, of "lxAdvance lx" isHex]
  by (auto simp: lexHex_def Let_def moves_def split: option.splits)

lemma numEnd_moves: "moves (skipWhile isDigit lx) (fst (numEnd lx))"
  using moves_trans[OF moves_frac moves_exp] by (simp add: numEnd_def Let_def)

lemma lexNumber_moves:
  assumes "lx_pos lx < length (lx_src lx)" "isDigit (lxPeek lx 0)"
  shows "lx_src (lexNumber lx) = lx_src lx" "lx_pos lx < lx_pos (lexNumber lx)"
  using moves_hex[of lx "lx_line lx" "lx_col lx"] numEnd_moves[of lx] skipWhile_first[of lx isDigit, OF assms]
  by (auto simp: lexNumber_def pushNumber_def Let_def moves_def)

lemma lexIdent_moves:
  assumes "lx_pos lx < length (lx_src lx)" "isAlpha (lxPeek lx 0)"
  shows "lx_src (lexIdent l c lx) = lx_src lx" "lx_pos lx < lx_pos (lexIdent l c lx)"
  using skipWhile_first[OF assms(1), of isAlnum] assms(2) by (simp_all add: lexIdent_def Let_def isAlnum_def)

lemma strLoop_moves: "moves lx (fst (strLoop l c lx)) \<and> lx_out (fst (strLoop l c lx)) = lx_out lx"
proof (induction l c lx rule: strLoop.induct)
  case (1 l c lx)
  let ?r = "lexEscape l c ''a string literal'' (lxAdvance lx)"
  have e: "moves lx (fst ?r)" "lx_out (fst ?r) = lx_out lx"
    using lexEscape_moves(1,3)[of l c "''a string literal''" "lxAdvance lx"]
      lexEscape_moves(2)[where l = l and c = c and w = "''a string literal''" and lx = "lxAdvance lx"]
    by (simp_all add: moves_def)
  show ?case
  proof (cases "lx_pos lx < length (lx_src lx) \<and> lxPeek lx 0 \<noteq> DQ")
    case in_body: True
    consider "lxPeek lx 0 = NL" | "lxPeek lx 0 \<noteq> NL" "lxPeek lx 0 = BS" "snd ?r < 0"
      | "lxPeek lx 0 \<noteq> NL" "lxPeek lx 0 = BS" "\<not> snd ?r < 0" | "lxPeek lx 0 \<noteq> NL" "lxPeek lx 0 \<noteq> BS" by blast
    then show ?thesis
    proof cases
      case 3
      then show ?thesis
        using 1(1)[OF in_body 3(1,2) refl 3(3)] in_body e moves_trans by (simp add: strLoop.simps[of l c lx] Let_def)
    next
      case 4
      then show ?thesis
        using 1(2)[OF in_body 4] in_body moves_trans[OF moves_advance] by (simp add: strLoop.simps[of l c lx] Let_def)
    qed (use in_body e in \<open>simp_all add: strLoop.simps[of l c lx] Let_def moves\<close>)
  qed (auto simp: strLoop.simps[of l c lx] moves)
qed

lemma lexString_moves: "lx_src (lexString l c lx) = lx_src lx" "lx_pos lx < lx_pos (lexString l c lx)"
  using strLoop_moves[of "lxAdvance lx" l c] by (auto simp: lexString_def Let_def moves_def split: prod.splits)

lemma closeQuote_bounds: "closeQuote src p = Some q \<Longrightarrow> p \<le> q \<and> q < length src"
proof (induction src p rule: closeQuote.induct)
  case (1 src p)
  show ?case using 1(3) 1(1,2) by (auto simp: closeQuote.simps[of src p] split: if_splits)
qed

lemma pushChar_simps [simp]:
  "lx_src (pushChar l c s q v lx) = lx_src lx" "lx_pos (pushChar l c s q v lx) = q + 1"
  "lx_err (pushChar l c s q v lx) = lx_err lx"
  by (simp_all add: pushChar_def Let_def)

lemma ctxErr_some [simp]: "lx_err (ctxErr l c e lx) \<noteq> None"
  by (simp add: ctxErr_def split: option.split)

text \<open>An escape that fails has reported an error.\<close>

lemma hexDigit_nonneg: "isHex h \<Longrightarrow> 0 \<le> hexDigit h"
  by (auto simp: hexDigit_def isHex_def isDigit_def)

lemma lexEscape_fails: "snd (lexEscape l c w lx) < 0 \<Longrightarrow> lx_err (fst (lexEscape l c w lx)) \<noteq> None"
proof -
  let ?a = "lxAdvance lx"
  have x: "snd (snd (lexEscHex ?a)) \<noteq> 0 \<Longrightarrow> 0 \<le> fst (snd (lexEscHex ?a))"
    using hexDigit_nonneg[of "lxPeek ?a 0"] hexDigit_nonneg[of "lxPeek (lxAdvance ?a) 0"]
    by (simp add: lexEscHex_def Let_def split: if_splits)
  have v: "0 \<le> v" if "map_of simpleEscapes k = Some v" for k v
    using map_of_SomeD[OF that] by (auto simp: simpleEscapes_def)
  assume "snd (lexEscape l c w lx) < 0"
  then show ?thesis
    using x v[of "lxPeek lx 0"]
    by (simp add: lexEscape_def Let_def del: not_None_eq split: if_splits prod.splits option.splits)
qed

lemma lexChar_moves:
  "lx_src (lexChar l c lx) = lx_src lx" "lx_err (lexChar l c lx) = None \<Longrightarrow> lx_pos lx < lx_pos (lexChar l c lx)"
proof -
  let ?r = "lexEscape l c ''a character literal'' (lx\<lparr>lx_pos := lx_pos lx + 2\<rparr>)"
  have e: "lx_src (fst ?r) = lx_src lx" using lexEscape_moves(1)[of l c "''a character literal''"] by simp
  show "lx_src (lexChar l c lx) = lx_src lx"
    using e by (simp add: lexChar_def Let_def split: option.split)
  show "lx_err (lexChar l c lx) = None \<Longrightarrow> lx_pos lx < lx_pos (lexChar l c lx)"
    using closeQuote_bounds[of "lx_src lx" "lx_pos lx + 1"] lexEscape_fails[of l c "''a character literal''"]
    by (auto simp: lexChar_def Let_def simp del: not_None_eq split: option.splits if_splits)
qed

lemma PUNCTS_nonempty: "p \<in> set PUNCTS \<Longrightarrow> p \<noteq> []"
  by (auto simp: PUNCTS_def)

lemma punctAt_mem: "punctAt lx = Some p \<Longrightarrow> p \<in> set PUNCTS"
  unfolding punctAt_def by (auto simp: find_Some_iff)

lemma lexPunct_moves:
  "lx_src (fst (lexPunct l c lx)) = lx_src lx" "snd (lexPunct l c lx) \<Longrightarrow> lx_pos lx < lx_pos (fst (lexPunct l c lx))"
  using PUNCTS_nonempty punctAt_mem[of lx] by (auto simp: lexPunct_def split: option.splits)

lemma moves_comment: "moves lx (skipComment lx) \<and> lx_out (skipComment lx) = lx_out lx \<and> lx_err (skipComment lx) = lx_err lx"
proof (induction lx rule: skipComment.induct)
  case (1 lx)
  show ?case
  proof (cases "lx_pos lx < length (lx_src lx) \<and> \<not> (lxPeek lx 0 = CHR ''*'' \<and> lxPeek lx 1 = CHR ''/'')")
    case True
    then show ?thesis using 1[OF True] moves_trans[OF moves_advance] by (simp add: skipComment.simps[of lx])
  next
    case False
    then have "skipComment lx = lx" by (subst skipComment.simps) (simp only: if_False)
    then show ?thesis by (simp add: moves)
  qed
qed

lemma pushNewline_simps [simp]:
  "lx_src (pushNewline l c lx) = lx_src lx" "lx_pos (pushNewline l c lx) = lx_pos lx" "lx_err (pushNewline l c lx) = lx_err lx"
  by (simp_all add: pushNewline_def split: option.split)

lemma asFString_simps [simp]:
  "lx_src (asFString lx) = lx_src lx" "lx_pos (asFString lx) = lx_pos lx" "lx_err (asFString lx) = lx_err lx"
  by (simp_all add: asFString_def split: option.split)

text \<open>A turn of the main loop keeps the source, and moves on when the loop goes on.\<close>

lemma lexStep_moves:
  assumes "lx_pos lx < length (lx_src lx)"
  shows "lx_src (fst (lexStep lx)) = lx_src lx \<and> (snd (lexStep lx) \<longrightarrow> lx_pos lx < lx_pos (fst (lexStep lx)))"
proof -
  let ?c = "lxPeek lx 0"
  have cm: "lx_src (skipComment (lxAdvance (lxAdvance lx))) = lx_src lx"
    "lx_pos lx < lx_pos (skipComment (lxAdvance (lxAdvance lx)))"
    using moves_comment[of "lxAdvance (lxAdvance lx)"] by (simp_all add: moves_def)
  note fs = lexString_moves(1)[of "lx_line lx" "lx_col lx" "lxAdvance lx"]
    lexString_moves(2)[where l = "lx_line lx" and c = "lx_col lx" and lx = "lxAdvance lx"]
  show ?thesis
    unfolding lexStep_def Let_def
    using cm fs lexNumber_moves[OF assms] lexIdent_moves[OF assms] lexString_moves lexChar_moves lexPunct_moves
      skipWhile_first[OF assms, of "\<lambda>c. c \<noteq> NL"]
    by (auto simp: orStop_def)
qed

function lexLoop :: "lexer \<Rightarrow> lexer \<times> bool" where
  "lexLoop lx =
    (if lx_pos lx < length (lx_src lx)
     then (if snd (lexStep lx) then lexLoop (fst (lexStep lx)) else (fst (lexStep lx), False))
     else (lx, True))"
  by pat_completeness auto
termination
proof (relation "measure (\<lambda>lx. length (lx_src lx) - lx_pos lx)", goal_cases)
  case (2 lx)
  then show ?case using lexStep_moves[of lx] by auto
qed simp

declare lexLoop.simps [simp del]

text \<open>\<open>lexRange\<close> and \<open>lexAll\<close>: the context's error and the token vector come in and go out.\<close>

definition lexRange :: "diag option \<Rightarrow> string \<Rightarrow> nat \<Rightarrow> nat \<Rightarrow> token list \<Rightarrow> token list \<times> diag option" where
  "lexRange err src line0 col0 out =
    (let r = lexLoop \<lparr>lx_src = src, lx_pos = 0, lx_line = line0, lx_col = col0, lx_out = out, lx_err = err\<rparr>;
         lx = fst r
     in if \<not> snd r then (lx_out lx, lx_err lx)
        else (let a = pushNewline (lx_line lx) (lx_col lx) lx;
                  b = lxPushAt TK_EOF [] 0 (lx_line lx) (lx_col lx) a
              in (lx_out b, lx_err b)))"

definition lexAll :: "string \<Rightarrow> token list \<times> diag option" where
  "lexAll src = lexRange None src 1 1 []"

end
