(* ===== verification/Lexer_Print.thy ===== *)
theory Lexer_Print
  imports Lexer
begin

text \<open>
  Printing tokens and scanning them back: what the scanning functions do in front of a known piece
  of source text, and the induction over a printed list of tokens.
\<close>

section \<open>The text in front of the cursor\<close>

definition ahead :: "lexer \<Rightarrow> string" where
  "ahead lx = drop (lx_pos lx) (lx_src lx)"

lemma ahead_Cons:
  assumes "ahead lx = c # r"
  shows "lx_pos lx < length (lx_src lx)" "lxPeek lx 0 = c" "ahead (lxAdvance lx) = r"
proof -
  show p: "lx_pos lx < length (lx_src lx)" using assms by (cases "lx_pos lx < length (lx_src lx)") (simp_all add: ahead_def)
  then have d: "drop (lx_pos lx) (lx_src lx) = lx_src lx ! lx_pos lx # drop (Suc (lx_pos lx)) (lx_src lx)"
    by (simp add: Cons_nth_drop_Suc)
  show "lxPeek lx 0 = c" "ahead (lxAdvance lx) = r" using assms p d by (simp_all add: ahead_def lxPeek_def)
qed

lemma peek_advance: "lxPeek (lxAdvance lx) k = lxPeek lx (Suc k)"
  by (simp add: lxPeek_def Let_def)

lemma ahead_peek1: "ahead lx = c # d # r \<Longrightarrow> lxPeek lx 1 = d"
  using ahead_Cons(2)[OF ahead_Cons(3)] peek_advance[of lx 0] by simp

lemma ahead_end: "ahead lx = [] \<Longrightarrow> \<not> lx_pos lx < length (lx_src lx)"
  by (simp add: ahead_def)

lemma ahead_advanceN: "ahead lx = w @ r \<Longrightarrow> ahead (lxAdvanceN (length w) lx) = r"
proof (induction w arbitrary: lx)
  case (Cons c w)
  then show ?case using ahead_Cons(3)[of lx c "w @ r"] by simp
qed simp

lemma skipWhile_ahead:
  assumes "ahead lx = w @ c # r" "\<forall>x\<in>set w. P x" "\<not> P c"
  shows "ahead (skipWhile P lx) = c # r \<and> lx_pos (skipWhile P lx) = lx_pos lx + length w"
  using assms
proof (induction w arbitrary: lx)
  case Nil
  then have "lxPeek lx 0 = c" using ahead_Cons(2)[of lx c r] by simp
  then have "skipWhile P lx = lx" using Nil by (subst skipWhile.simps) simp
  then show ?case using Nil by simp
next
  case (Cons x w)
  note A = ahead_Cons[of lx x "w @ c # r"]
  have "skipWhile P lx = skipWhile P (lxAdvance lx)" using A Cons.prems by (subst skipWhile.simps) simp
  then show ?case using Cons.IH[of "lxAdvance lx"] A Cons.prems by simp
qed

text \<open>The text of a token that starts where \<open>w\<close> is ahead and ends behind it.\<close>

lemma lxText_ahead:
  assumes "ahead lx = w @ r" "lx_src a = lx_src lx" "lx_pos a = lx_pos lx + length w"
  shows "lxText (lx_pos lx) a = w"
  using assms by (simp add: lxText_def ahead_def)

section \<open>Printing\<close>

definition spell :: "token \<Rightarrow> string" where
  "spell t = (case t_kind t of
     TK_STRING \<Rightarrow> DQ # t_text t @ [DQ] | TK_FSTRING \<Rightarrow> CHR ''f'' # DQ # t_text t @ [DQ] | _ \<Rightarrow> t_text t)"

definition printToks :: "token list \<Rightarrow> string" where
  "printToks ts = concat (map (\<lambda>t. spell t @ '' '') ts)"

text \<open>Which tokens a program can hold on one line: what the text of each kind looks like.\<close>

definition plainStr :: "string \<Rightarrow> bool" where
  "plainStr s \<longleftrightarrow> DQ \<notin> set s \<and> NL \<notin> set s \<and> BS \<notin> set s"

definition identText :: "string \<Rightarrow> bool" where
  "identText s \<longleftrightarrow> s \<noteq> [] \<and> isAlpha (s ! 0) \<and> (\<forall>c\<in>set s. isAlnum c) \<and>
     \<not> (2 \<le> length s \<and> s ! 0 = CHR ''_'' \<and> s ! 1 = CHR ''_'')"

definition tokOk :: "token \<Rightarrow> bool" where
  "tokOk t = (case t_kind t of
     TK_IDENT \<Rightarrow> identText (t_text t) \<and> \<not> inList KEYWORDS (t_text t) \<and> \<not> inList BUILTIN_TYPES (t_text t) \<and> t_ival t = 0
   | TK_KEYWORD \<Rightarrow> inList KEYWORDS (t_text t) \<and> t_ival t = 0
   | TK_TYPE \<Rightarrow> inList BUILTIN_TYPES (t_text t) \<and> t_ival t = 0
   | TK_INT \<Rightarrow> t_text t \<noteq> [] \<and> (\<forall>c\<in>set (t_text t). isDigit c) \<and> t_ival t = decVal (t_text t) \<and> t_ival t \<le> LLONG_MAX
   | TK_PUNCT \<Rightarrow> t_text t \<in> set PUNCTS \<and> t_ival t = 0
   | TK_STRING \<Rightarrow> plainStr (t_text t) \<and> t_ival t = 0
   | TK_FSTRING \<Rightarrow> plainStr (t_text t) \<and> t_ival t = 0
   | _ \<Rightarrow> False)"

definition tokKey :: "token \<Rightarrow> tokenKind \<times> string \<times> int" where
  "tokKey t = (t_kind t, t_text t, t_ival t)"

text \<open>A turn of the loop that scans exactly one token and stops in front of the blank.\<close>

definition scansTok :: "lexer \<Rightarrow> token \<Rightarrow> string \<Rightarrow> bool" where
  "scansTok lx t r \<longleftrightarrow> snd (lexStep lx) \<and> ahead (fst (lexStep lx)) = CHR '' '' # r \<and>
     lx_err (fst (lexStep lx)) = None \<and> map tokKey (lx_out (fst (lexStep lx))) = map tokKey (lx_out lx) @ [tokKey t]"

lemma ahead_push [simp]: "ahead (lxPushAt k s v l c lx) = ahead lx"
  by (simp add: ahead_def)

lemma out_push [simp]: "map tokKey (lx_out (lxPushAt k s v l c lx)) = map tokKey (lx_out lx) @ [(k, s, v)]"
  by (simp add: lxPushAt_def tokKey_def)

lemma blank_class [simp]:
  "\<not> isDigit (CHR '' '')" "\<not> isAlnum (CHR '' '')" "\<not> isAlpha (CHR '' '')" "\<not> isHex (CHR '' '')"
  by (simp_all add: isDigit_def isAlnum_def isAlpha_def isHex_def)

lemma alpha_not_blank:
  assumes "isAlpha c"
  shows "c \<noteq> CHR '' ''" "c \<noteq> TAB" "c \<noteq> CR" "c \<noteq> NL" "c \<noteq> CHR ''/''" "\<not> isDigit c" "c \<noteq> DQ" "c \<noteq> SQ"
  using assms by (auto simp: isAlpha_def isDigit_def TAB_def CR_def NL_def DQ_def SQ_def)

lemma digit_not_blank:
  assumes "isDigit c"
  shows "c \<noteq> CHR '' ''" "c \<noteq> TAB" "c \<noteq> CR" "c \<noteq> NL" "c \<noteq> CHR ''/''" "c \<noteq> DQ" "c \<noteq> SQ" "\<not> isAlpha c"
    "c \<noteq> CHR ''.''" "c \<noteq> CHR ''e''" "c \<noteq> CHR ''E''" "c \<noteq> CHR ''x''" "c \<noteq> CHR ''X''"
  using assms by (auto simp: isAlpha_def isDigit_def TAB_def CR_def NL_def DQ_def SQ_def)

lemma keyword_ident: "inList KEYWORDS s \<or> inList BUILTIN_TYPES s \<Longrightarrow> identText s"
  by (auto simp: inList_def KEYWORDS_def BUILTIN_TYPES_def identText_def isAlpha_def isAlnum_def isDigit_def)

lemma scans_ident:
  assumes w: "ahead lx = w @ CHR '' '' # r" and t: "identText w" and e: "lx_err lx = None"
      and k: "tokKey t = (identKind w, w, 0)"
  shows "scansTok lx t r"
proof -
  obtain c u where wc: "w = c # u" using t by (cases w) (auto simp: identText_def)
  have c: "isAlpha c" using t wc by (simp add: identText_def)
  note A = ahead_Cons[of lx c "u @ CHR '' '' # r"]
  have pk: "lxPeek lx 0 = c" using A w wc by simp
  have nodq: "\<not> (lx_pos lx + 1 < length (lx_src lx) \<and> lx_src lx ! (lx_pos lx + 1) = DQ)"
  proof
    assume q: "lx_pos lx + 1 < length (lx_src lx) \<and> lx_src lx ! (lx_pos lx + 1) = DQ"
    have "lxPeek lx 1 = DQ" using q by (simp add: lxPeek_def)
    moreover have "lxPeek lx 1 = (u @ CHR '' '' # r) ! 0"
      using w wc ahead_peek1[of lx c] by (cases u) auto
    ultimately have "DQ \<in> set w \<or> DQ = CHR '' ''" using wc by (cases u) auto
    moreover have "\<not> isAlnum DQ" by (simp add: isAlnum_def isAlpha_def isDigit_def DQ_def)
    ultimately show False using t by (auto simp: identText_def DQ_def)
  qed
  have S: "ahead (skipWhile isAlnum lx) = CHR '' '' # r \<and> lx_pos (skipWhile isAlnum lx) = lx_pos lx + length w"
    by (rule skipWhile_ahead[OF w]) (use t in \<open>simp_all add: identText_def\<close>)
  have "lxText (lx_pos lx) (skipWhile isAlnum lx) = w" using lxText_ahead[OF w] S by simp
  moreover have "lexStep lx = (lexIdent (lx_line lx) (lx_col lx) lx, True)"
    using alpha_not_blank[OF c] c nodq by (auto simp: lexStep_def Let_def pk)
  ultimately show ?thesis
    using S t e k by (simp add: scansTok_def lexIdent_def Let_def identText_def)
qed

lemma scans_int:
  assumes w: "ahead lx = w @ CHR '' '' # r" and d: "w \<noteq> []" "\<forall>c\<in>set w. isDigit c" and e: "lx_err lx = None"
      and v: "decVal w \<le> LLONG_MAX" and k: "tokKey t = (TK_INT, w, decVal w)"
  shows "scansTok lx t r"
proof -
  obtain c u where wc: "w = c # u" using d(1) by (cases w) auto
  have c: "isDigit c" using d wc by simp
  note A = ahead_Cons[of lx c "u @ CHR '' '' # r"]
  have pk: "lxPeek lx 0 = c" using A w wc by simp
  have p1: "lxPeek lx 1 = (u @ CHR '' '' # r) ! 0" using w wc ahead_peek1[of lx c] by (cases u) auto
  have nx: "lxPeek lx 1 \<noteq> CHR ''x'' \<and> lxPeek lx 1 \<noteq> CHR ''X''"
    unfolding p1 using d wc digit_not_blank by (cases u) auto
  let ?s = "skipWhile isDigit lx"
  have S: "ahead ?s = CHR '' '' # r \<and> lx_pos ?s = lx_pos lx + length w"
    by (rule skipWhile_ahead[OF w d(2)]) simp
  have ps: "lxPeek ?s 0 = CHR '' ''" using ahead_Cons(2) S by blast
  have ne: "numEnd lx = (?s, False)" by (simp add: numEnd_def lexFrac_def lexExp_def ps)
  have "lxText (lx_pos lx) ?s = w" using lxText_ahead[OF w] S by simp
  then have n: "lexNumber lx = lxPushAt TK_INT w (decVal w) (lx_line lx) (lx_col lx) ?s"
    using nx v by (simp add: lexNumber_def pushNumber_def ne)
  have "lexStep lx = orStop (lexNumber lx)"
    using digit_not_blank[OF c] c by (simp add: lexStep_def Let_def pk)
  then show ?thesis using S e k by (simp add: scansTok_def orStop_def n)
qed

lemma strLoop_plain:
  assumes "ahead lx = w @ DQ # r" "plainStr w"
  shows "snd (strLoop l c lx) \<and> ahead (fst (strLoop l c lx)) = DQ # r \<and>
    lx_pos (fst (strLoop l c lx)) = lx_pos lx + length w \<and> lx_err (fst (strLoop l c lx)) = lx_err lx"
  using assms
proof (induction w arbitrary: lx)
  case Nil
  then have "lxPeek lx 0 = DQ" using ahead_Cons(2)[of lx DQ r] by simp
  then have "strLoop l c lx = (lx, True)" by (subst strLoop.simps) simp
  then show ?case using Nil by simp
next
  case (Cons x w)
  note A = ahead_Cons[of lx x "w @ DQ # r"]
  have "strLoop l c lx = strLoop l c (lxAdvance lx)"
    using A Cons.prems by (subst strLoop.simps) (auto simp: plainStr_def)
  moreover have "plainStr w" using Cons.prems(2) by (simp add: plainStr_def)
  ultimately show ?case using Cons.IH[of "lxAdvance lx"] A Cons.prems by simp
qed

lemma lexString_plain:
  assumes "ahead lx = DQ # w @ DQ # r" "plainStr w"
  shows "ahead (lexString l c lx) = r" "lx_err (lexString l c lx) = lx_err lx"
    "map tokKey (lx_out (lexString l c lx)) = map tokKey (lx_out lx) @ [(TK_STRING, w, 0)]"
    "\<exists>ts t. lx_out (lexString l c lx) = ts @ [t] \<and> map tokKey ts = map tokKey (lx_out lx) \<and> tokKey t = (TK_STRING, w, 0)"
proof -
  note A = ahead_Cons[OF assms(1)]
  let ?a = "lxAdvance lx"
  note S = strLoop_plain[OF A(3) assms(2), of l c]
  let ?b = "fst (strLoop l c ?a)"
  have b: "lx_pos ?b < length (lx_src ?b)" using ahead_Cons(1)[of ?b DQ r] S by simp
  have src: "lx_src ?b = lx_src ?a" and out: "lx_out ?b = lx_out lx"
    using strLoop_moves[of ?a l c] by (simp_all add: moves_def)
  have "lxText (lx_pos ?a) ?b = w" by (rule lxText_ahead[OF A(3) src]) (use S in simp)
  then have e: "lexString l c lx = lxAdvance (lxPushAt TK_STRING w 0 l c ?b)"
    using S b by (simp add: lexString_def Let_def split: prod.split) (metis fst_conv snd_conv not_less)
  have "ahead (lxPushAt TK_STRING w 0 l c ?b) = DQ # r" using S by simp
  from ahead_Cons(3)[OF this] show "ahead (lexString l c lx) = r" by (simp add: e)
  show "lx_err (lexString l c lx) = lx_err lx" using S by (simp add: e)
  show "map tokKey (lx_out (lexString l c lx)) = map tokKey (lx_out lx) @ [(TK_STRING, w, 0)]"
    using out_push[of TK_STRING w 0 l c ?b] by (simp add: e out)
  show "\<exists>ts t. lx_out (lexString l c lx) = ts @ [t] \<and> map tokKey ts = map tokKey (lx_out lx) \<and> tokKey t = (TK_STRING, w, 0)"
    by (simp add: e lxPushAt_def out tokKey_def)
qed

lemma scans_string:
  assumes w: "ahead lx = DQ # w @ DQ # CHR '' '' # r" "plainStr w" and e: "lx_err lx = None"
      and k: "tokKey t = (TK_STRING, w, 0)"
  shows "scansTok lx t r"
proof -
  have pk: "lxPeek lx 0 = DQ" by (rule ahead_Cons(2)[OF w(1)])
  have "lexStep lx = orStop (lexString (lx_line lx) (lx_col lx) lx)"
    by (simp add: lexStep_def Let_def pk) (simp add: DQ_def NL_def TAB_def CR_def isDigit_def isAlpha_def)
  then show ?thesis using lexString_plain[OF w] e k by (simp add: scansTok_def orStop_def)
qed

lemma scans_fstring:
  assumes w: "ahead lx = CHR ''f'' # DQ # w @ DQ # CHR '' '' # r" "plainStr w" and e: "lx_err lx = None"
      and k: "tokKey t = (TK_FSTRING, w, 0)"
  shows "scansTok lx t r"
proof -
  note A = ahead_Cons[OF w(1)]
  have p1: "lxPeek lx 1 = DQ" using ahead_peek1[OF w(1)] .
  then have q: "lx_pos lx + 1 < length (lx_src lx) \<and> lx_src lx ! (lx_pos lx + 1) = DQ"
    by (simp add: lxPeek_def NUL_def DQ_def split: if_splits)
  let ?a = "lexString (lx_line lx) (lx_col lx) (lxAdvance lx)"
  note L = lexString_plain[OF A(3) w(2), where l = "lx_line lx" and c = "lx_col lx"]
  have "lexStep lx = (asFString ?a, True)"
    using L(2) e q by (simp add: lexStep_def Let_def A(2) isDigit_def isAlpha_def NL_def TAB_def CR_def)
  moreover have "map tokKey (lx_out (asFString ?a)) = map tokKey (lx_out lx) @ [(TK_FSTRING, w, 0)]"
    using L(4) by (auto simp: asFString_def lxLast_def tokKey_def)
  moreover have "ahead (asFString ?a) = ahead ?a" by (simp add: ahead_def)
  ultimately show ?thesis using L(1,2) e k by (simp add: scansTok_def)
qed

section \<open>Punctuation\<close>

lemma punct_match:
  assumes "p \<noteq> []"
  shows "lx_pos lx + length p \<le> length (lx_src lx) \<and> take (length p) (drop (lx_pos lx) (lx_src lx)) = p \<longleftrightarrow>
     take (length p) (ahead lx) = p"
proof -
  have "lx_pos lx + length p \<le> length (lx_src lx)" if "take (length p) (drop (lx_pos lx) (lx_src lx)) = p"
    using arg_cong[OF that, of length] assms by (cases p) auto
  then show ?thesis by (auto simp: ahead_def)
qed

lemma punctAt_ahead: "punctAt lx = List.find (\<lambda>p. take (length p) (ahead lx) = p) PUNCTS"
  unfolding punctAt_def by (rule find_cong[OF refl]) (use punct_match PUNCTS_nonempty in blast)

text \<open>The facts of the table the scanner relies on, by evaluation.\<close>

lemma PUNCTS_first: "list_all (\<lambda>w. List.find (\<lambda>p. take (length p) w = p) PUNCTS = Some w) PUNCTS"
  unfolding PUNCTS_def by code_simp

lemma PUNCTS_chars: "list_all (\<lambda>w. list_all (\<lambda>c. c \<noteq> CHR '' '' \<and> c \<noteq> CHR 0x09 \<and> c \<noteq> CHR 0x0D \<and>
    c \<noteq> CHR 0x0A \<and> c \<noteq> CHR 0x22 \<and> c \<noteq> CHR 0x27) w) PUNCTS"
  unfolding PUNCTS_def by code_simp

lemma PUNCTS_class: "list_all (\<lambda>w. list_all (\<lambda>c. \<not> isDigit c \<and> \<not> isAlpha c) w) PUNCTS"
  by (simp add: PUNCTS_def isDigit_def isAlpha_def)

lemma PUNCTS_slash: "list_all (\<lambda>w. w \<noteq> [] \<and> (hd w = CHR ''/'' \<longrightarrow> tl w = [] \<or> hd (tl w) = CHR ''='')) PUNCTS"
  unfolding PUNCTS_def by code_simp

lemma take_blank:
  assumes "b \<notin> set p"
  shows "take (length p) (w @ b # r) = p \<longleftrightarrow> take (length p) w = p"
proof (cases "length p \<le> length w")
  case False
  then have "b \<in> set (take (length p) (w @ b # r))"
    by (cases "length p - length w") auto
  then have "take (length p) (w @ b # r) \<noteq> p" using assms by metis
  moreover have "take (length p) w \<noteq> p" using False by (auto dest: arg_cong[where f = length])
  ultimately show ?thesis by simp
qed simp

lemma punctAt_blank:
  assumes "ahead lx = w @ CHR '' '' # r" "w \<in> set PUNCTS"
  shows "punctAt lx = Some w"
proof -
  have "CHR '' '' \<notin> set p" if "p \<in> set PUNCTS" for p using PUNCTS_chars that by (auto simp: list_all_iff)
  then have "punctAt lx = List.find (\<lambda>p. take (length p) w = p) PUNCTS"
    unfolding punctAt_ahead assms(1) by (intro find_cong[OF refl] take_blank) blast
  then show ?thesis using PUNCTS_first assms(2) by (simp add: list_all_iff)
qed

text \<open>No punctuation mark begins with a character that the earlier branches of the loop claim, and the
  two that begin with a slash do not open a comment in front of a blank.\<close>

lemma punct_head:
  assumes "w \<in> set PUNCTS"
  shows "\<exists>c u. w = c # u \<and> c \<notin> {CHR '' '', TAB, CR, NL, DQ, SQ} \<and> \<not> isDigit c \<and> \<not> isAlpha c \<and>
    (c = CHR ''/'' \<longrightarrow> (u @ CHR '' '' # r) ! 0 \<noteq> CHR ''/'' \<and> (u @ CHR '' '' # r) ! 0 \<noteq> CHR ''*'')"
proof -
  obtain c u where w: "w = c # u" using PUNCTS_slash assms by (cases w) (auto simp: list_all_iff)
  have "c \<in> set w" using w by simp
  then have "c \<notin> {CHR '' '', TAB, CR, NL, DQ, SQ}" "\<not> isDigit c" "\<not> isAlpha c"
    using PUNCTS_chars PUNCTS_class assms by (auto simp: list_all_iff TAB_def CR_def NL_def DQ_def SQ_def)
  moreover have "c = CHR ''/'' \<longrightarrow> u = [] \<or> hd u = CHR ''=''" using PUNCTS_slash assms w by (auto simp: list_all_iff)
  ultimately show ?thesis using w by (intro exI[of _ c] exI[of _ u]) (cases u; auto)
qed

lemma scans_punct:
  assumes w: "ahead lx = w @ CHR '' '' # r" and m: "w \<in> set PUNCTS" and e: "lx_err lx = None"
      and k: "tokKey t = (TK_PUNCT, w, 0)"
  shows "scansTok lx t r"
proof -
  obtain c u where c: "w = c # u" "c \<notin> {CHR '' '', TAB, CR, NL, DQ, SQ}" "\<not> isDigit c" "\<not> isAlpha c"
    "c = CHR ''/'' \<longrightarrow> (u @ CHR '' '' # r) ! 0 \<noteq> CHR ''/'' \<and> (u @ CHR '' '' # r) ! 0 \<noteq> CHR ''*''"
    using punct_head[OF m] by blast
  have pk: "lxPeek lx 0 = c" using ahead_Cons(2)[of lx c "u @ CHR '' '' # r"] w c(1) by simp
  have "lxPeek lx 1 = (u @ CHR '' '' # r) ! 0" using w c(1) ahead_peek1[of lx c] by (cases u) auto
  then have "lexStep lx = lexPunct (lx_line lx) (lx_col lx) lx"
    using c by (auto simp: lexStep_def Let_def pk)
  then show ?thesis
    using punctAt_blank[OF w m] ahead_advanceN[OF w] e k by (simp add: scansTok_def lexPunct_def)
qed

section \<open>Scanning a printed list of tokens\<close>

lemma scans_tok:
  assumes w: "ahead lx = spell t @ CHR '' '' # r" and t: "tokOk t" and e: "lx_err lx = None"
  shows "scansTok lx t r"
proof (cases "t_kind t")
  case TK_IDENT
  then show ?thesis using assms scans_ident[of lx "t_text t" r t]
    by (simp add: spell_def tokOk_def tokKey_def identKind_def)
next
  case TK_KEYWORD
  then show ?thesis using assms scans_ident[of lx "t_text t" r t] keyword_ident
    by (simp add: spell_def tokOk_def tokKey_def identKind_def)
next
  case TK_TYPE
  then have "inList BUILTIN_TYPES (t_text t)" using t by (simp add: tokOk_def)
  then have "\<not> inList KEYWORDS (t_text t)" by (auto simp: inList_def BUILTIN_TYPES_def KEYWORDS_def)
  then show ?thesis using TK_TYPE assms scans_ident[of lx "t_text t" r t] keyword_ident
    by (simp add: spell_def tokOk_def tokKey_def identKind_def)
next
  case TK_INT
  then show ?thesis using assms scans_int[of lx "t_text t" r t]
    by (simp add: spell_def tokOk_def tokKey_def)
next
  case TK_PUNCT
  then show ?thesis using assms scans_punct[of lx "t_text t" r t]
    by (simp add: spell_def tokOk_def tokKey_def)
next
  case TK_STRING
  then show ?thesis using assms scans_string[of lx "t_text t" r t]
    by (simp add: spell_def tokOk_def tokKey_def)
next
  case TK_FSTRING
  then show ?thesis using assms scans_fstring[of lx "t_text t" r t]
    by (simp add: spell_def tokOk_def tokKey_def)
qed (use t in \<open>simp_all add: tokOk_def\<close>)

lemma blank_step:
  assumes "ahead lx = CHR '' '' # r"
  shows "lexStep lx = (lxAdvance lx, True)"
  using ahead_Cons(2)[OF assms] by (simp add: lexStep_def Let_def)

lemma lexLoop_go: "lx_pos lx < length (lx_src lx) \<Longrightarrow> snd (lexStep lx) \<Longrightarrow> lexLoop lx = lexLoop (fst (lexStep lx))"
  by (subst lexLoop.simps) simp

lemma spell_nonempty: "tokOk t \<Longrightarrow> spell t \<noteq> []"
  by (cases "t_kind t")
    (auto simp: spell_def tokOk_def identText_def dest!: keyword_ident[OF disjI1] keyword_ident[OF disjI2] PUNCTS_nonempty)

lemma lexLoop_print:
  assumes "ahead lx = printToks ts" "\<forall>t\<in>set ts. tokOk t" "lx_err lx = None"
  shows "snd (lexLoop lx) \<and> lx_err (fst (lexLoop lx)) = None \<and>
    map tokKey (lx_out (fst (lexLoop lx))) = map tokKey (lx_out lx) @ map tokKey ts"
  using assms
proof (induction ts arbitrary: lx)
  case Nil
  then have "ahead lx = []" by (simp add: printToks_def)
  then show ?case using Nil ahead_end[of lx] by (subst (1 2 3) lexLoop.simps) simp
next
  case (Cons t ts)
  have a: "ahead lx = spell t @ CHR '' '' # printToks ts" using Cons.prems(1) by (simp add: printToks_def)
  have S: "scansTok lx t (printToks ts)" by (rule scans_tok[OF a]) (use Cons.prems in auto)
  obtain c u where "spell t = c # u" using spell_nonempty[of t] Cons.prems(2) by (cases "spell t") auto
  then have p: "lx_pos lx < length (lx_src lx)" using ahead_Cons(1)[of lx c] a by simp
  let ?a = "fst (lexStep lx)" let ?b = "lxAdvance ?a"
  note B = ahead_Cons[of ?a "CHR '' ''" "printToks ts"]
  have A: "ahead ?a = CHR '' '' # printToks ts" "lx_err ?a = None"
    "map tokKey (lx_out ?a) = map tokKey (lx_out lx) @ [tokKey t]" using S by (simp_all add: scansTok_def)
  have "lexLoop lx = lexLoop ?a" by (rule lexLoop_go[OF p]) (use S in \<open>simp add: scansTok_def\<close>)
  also have "\<dots> = lexLoop ?b"
    using lexLoop_go[of ?a] B(1)[OF A(1)] blank_step[OF A(1)] by simp
  finally show ?case using Cons.IH[of ?b] Cons.prems(2) A B(3)[OF A(1)] by simp
qed

end
