(* ===== verification/Lexer_Pos.thy ===== *)
theory Lexer_Pos
  imports Lexer_Print
begin

text \<open>
  Positions and shape of the scanner's output: the line and the column follow the cursor through every
  scanning function that moves it with \<open>lxAdvance\<close>, every token is emitted at the position of the turn
  that scans it, and a turn emits at most one token.
\<close>

section \<open>The position of an offset\<close>

definition lineOf :: "string \<Rightarrow> nat \<Rightarrow> nat" where
  "lineOf src p = 1 + count_list (take p src) NL"

definition colOf :: "string \<Rightarrow> nat \<Rightarrow> nat" where
  "colOf src p = 1 + length (takeWhile (\<lambda>c. c \<noteq> NL) (rev (take p src)))"

definition tracked :: "lexer \<Rightarrow> bool" where
  "tracked lx \<longleftrightarrow> lx_pos lx \<le> length (lx_src lx) \<and> lx_line lx = lineOf (lx_src lx) (lx_pos lx) \<and>
     lx_col lx = colOf (lx_src lx) (lx_pos lx)"

named_theorems tracks

lemma tracked_advance [tracks]:
  assumes "tracked lx" "lx_pos lx < length (lx_src lx)"
  shows "tracked (lxAdvance lx)"
  using assms by (auto simp: tracked_def lxAdvance_def lxPeek_def lineOf_def colOf_def take_Suc_conv_app_nth)

lemma tracked_same [tracks]: "tracked lx \<Longrightarrow> tracked (ctxErr l c e lx)" "tracked lx \<Longrightarrow> tracked (lxPushAt k s v l c lx)"
  "tracked lx \<Longrightarrow> tracked (pushNewline l c lx)" "tracked lx \<Longrightarrow> tracked (asFString lx)"
  by (simp_all add: tracked_def pushNewline_def asFString_def split: option.split)

lemma peek_nonNUL: "lxPeek lx k \<noteq> NUL \<Longrightarrow> lx_pos lx + k < length (lx_src lx)"
  by (simp add: lxPeek_def Let_def split: if_splits)

lemma peek_class:
  "isDigit (lxPeek lx k) \<Longrightarrow> lx_pos lx + k < length (lx_src lx)" "isHex (lxPeek lx k) \<Longrightarrow> lx_pos lx + k < length (lx_src lx)"
  by (rule peek_nonNUL; auto simp: isDigit_def isHex_def NUL_def)+

lemma tracked_skip [tracks]: "tracked lx \<Longrightarrow> tracked (skipWhile P lx)"
proof (induction P lx rule: skipWhile.induct)
  case (1 P lx)
  show ?case
  proof (cases "lx_pos lx < length (lx_src lx) \<and> P (lxPeek lx 0)")
    case True
    then show ?thesis using 1 tracked_advance by (subst skipWhile.simps) simp
  next
    case False
    then show ?thesis using 1(2) by (subst skipWhile.simps) (simp only: if_False)
  qed
qed

lemma tracked_advanceN [tracks]: "tracked lx \<Longrightarrow> lx_pos lx + n \<le> length (lx_src lx) \<Longrightarrow> tracked (lxAdvanceN n lx)"
proof (induction n lx rule: lxAdvanceN.induct)
  case (2 n lx)
  then show ?case using tracked_advance[of lx] by simp
qed simp

lemma tracked_comment [tracks]: "tracked lx \<Longrightarrow> tracked (skipComment lx)"
proof (induction lx rule: skipComment.induct)
  case (1 lx)
  show ?case
  proof (cases "lx_pos lx < length (lx_src lx) \<and> \<not> (lxPeek lx 0 = CHR ''*'' \<and> lxPeek lx 1 = CHR ''/'')")
    case True
    then show ?thesis using 1 tracked_advance by (subst skipComment.simps) simp
  next
    case False
    then show ?thesis using 1(2) by (subst skipComment.simps) (simp only: if_False)
  qed
qed

lemma skipComment_stop:
  "lx_pos (skipComment lx) < length (lx_src (skipComment lx)) \<Longrightarrow>
   lxPeek (skipComment lx) 0 = CHR ''*'' \<and> lxPeek (skipComment lx) 1 = CHR ''/''"
proof (induction lx rule: skipComment.induct)
  case (1 lx)
  show ?case
  proof (cases "lx_pos lx < length (lx_src lx) \<and> \<not> (lxPeek lx 0 = CHR ''*'' \<and> lxPeek lx 1 = CHR ''/'')")
    case True
    then have "skipComment lx = skipComment (lxAdvance lx)" by (subst skipComment.simps) simp
    then show ?thesis using 1 True by simp
  next
    case False
    then have "skipComment lx = lx" by (subst skipComment.simps) (simp only: if_False)
    then show ?thesis using 1(2) False by simp
  qed
qed

lemma tracked_two:
  assumes "tracked lx" "lxPeek lx 0 \<noteq> NUL" "lxPeek lx 1 \<noteq> NUL"
  shows "tracked (lxAdvance (lxAdvance lx))"
  using peek_nonNUL[OF assms(2)] peek_nonNUL[OF assms(3)] assms(1) by (auto intro!: tracks)

lemma tracked_frac [tracks]: "tracked a \<Longrightarrow> tracked (fst (lexFrac a))"
  using peek_class(1)[of a 1] by (auto simp: lexFrac_def intro!: tracks)

lemma tracked_exp [tracks]: "tracked a \<Longrightarrow> tracked (fst (lexExp a f))"
proof -
  assume t: "tracked a"
  have "tracked (lxAdvanceN k a)" if "isDigit (lxPeek a k)" for k
    using peek_class(1)[OF that] t by (intro tracks) simp_all
  then show ?thesis using t by (simp add: lexExp_def Let_def tracked_skip)
qed

lemma tracked_numEnd: "tracked lx \<Longrightarrow> tracked (fst (numEnd lx))"
  by (simp add: numEnd_def Let_def tracks)

lemma tracked_hex: "tracked (lxAdvance (lxAdvance lx)) \<Longrightarrow> tracked (lexHex l c lx)"
  using tracked_skip[of "lxAdvance (lxAdvance lx)" isHex]
  by (simp add: lexHex_def Let_def tracked_same split: option.split)

lemma tracked_pushNumber: "tracked (fst r) \<Longrightarrow> tracked (pushNumber l c s r)"
  by (simp add: pushNumber_def Let_def tracked_same)

lemma tracked_number: "tracked lx \<Longrightarrow> tracked (lexNumber lx)"
proof -
  assume t: "tracked lx"
  have "tracked (lxAdvance (lxAdvance lx))" if "lxPeek lx 0 = CHR ''0''" "lxPeek lx 1 = CHR ''x'' \<or> lxPeek lx 1 = CHR ''X''"
    by (rule tracked_two[OF t]) (use that in \<open>auto simp: NUL_def\<close>)
  then show ?thesis
    using tracked_pushNumber[OF tracked_numEnd[OF t]] by (auto simp: lexNumber_def intro: tracked_hex)
qed

lemma tracked_ident: "tracked lx \<Longrightarrow> tracked (lexIdent l c lx)"
  by (auto simp: lexIdent_def Let_def intro!: tracks)

lemma tracked_escHex: "tracked a \<Longrightarrow> tracked (fst (lexEscHex a))"
  using peek_class(2)[of a 0] peek_class(2)[of "lxAdvance a" 0] tracked_advance[of a] tracked_advance[of "lxAdvance a"]
  by (simp add: lexEscHex_def Let_def)

lemma tracked_escape:
  assumes t: "tracked lx" and ok: "\<not> snd (lexEscape l c w lx) < 0"
  shows "tracked (fst (lexEscape l c w lx))"
proof -
  have "map_of simpleEscapes NUL = None" by (simp add: simpleEscapes_def NUL_def BS_def SQ_def DQ_def)
  then have n: "lxPeek lx 0 \<noteq> NUL" using ok by (auto simp: lexEscape_def Let_def NUL_def)
  then have a: "tracked (lxAdvance lx)" using peek_nonNUL[OF n] t by (intro tracks) simp_all
  show ?thesis
    using a tracked_escHex[OF a] by (auto simp: lexEscape_def Let_def tracked_same split: option.split prod.split)
qed

lemma tracked_strLoop: "tracked lx \<Longrightarrow> snd (strLoop l c lx) \<Longrightarrow> tracked (fst (strLoop l c lx))"
proof (induction l c lx rule: strLoop.induct)
  case (1 l c lx)
  let ?r = "lexEscape l c ''a string literal'' (lxAdvance lx)"
  show ?case
  proof (cases "lx_pos lx < length (lx_src lx) \<and> lxPeek lx 0 \<noteq> DQ")
    case in_body: True
    then have ta: "tracked (lxAdvance lx)" using 1(3) tracked_advance by blast
    consider "lxPeek lx 0 = NL" | "lxPeek lx 0 \<noteq> NL" "lxPeek lx 0 = BS" "snd ?r < 0"
      | "lxPeek lx 0 \<noteq> NL" "lxPeek lx 0 = BS" "\<not> snd ?r < 0" | "lxPeek lx 0 \<noteq> NL" "lxPeek lx 0 \<noteq> BS" by blast
    then show ?thesis
    proof cases
      case 3
      have e: "strLoop l c lx = strLoop l c (fst ?r)" using in_body 3 by (simp add: strLoop.simps[of l c lx] Let_def)
      show ?thesis
        unfolding e by (rule 1(1)[OF in_body 3(1,2) refl 3(3) tracked_escape[OF ta 3(3)]]) (use 1(4) e in simp)
    next
      case 4
      have e: "strLoop l c lx = strLoop l c (lxAdvance lx)" using in_body 4 by (simp add: strLoop.simps[of l c lx])
      show ?thesis unfolding e by (rule 1(2)[OF in_body 4 ta]) (use 1(4) e in simp)
    qed (use 1(4) in_body in \<open>simp_all add: strLoop.simps[of l c lx] Let_def\<close>)
  next
    case False
    then have "strLoop l c lx = (lx, True)" by (subst strLoop.simps) (simp only: if_False)
    then show ?thesis using 1(3) by simp
  qed
qed

lemma strLoop_fails: "\<not> snd (strLoop l c lx) \<Longrightarrow> lx_err (fst (strLoop l c lx)) \<noteq> None"
proof (induction l c lx rule: strLoop.induct)
  case (1 l c lx)
  let ?r = "lexEscape l c ''a string literal'' (lxAdvance lx)"
  show ?case
  proof (cases "lx_pos lx < length (lx_src lx) \<and> lxPeek lx 0 \<noteq> DQ")
    case in_body: True
    consider "lxPeek lx 0 = NL" | "lxPeek lx 0 \<noteq> NL" "lxPeek lx 0 = BS" "snd ?r < 0"
      | "lxPeek lx 0 \<noteq> NL" "lxPeek lx 0 = BS" "\<not> snd ?r < 0" | "lxPeek lx 0 \<noteq> NL" "lxPeek lx 0 \<noteq> BS" by blast
    then show ?thesis
    proof cases
      case 1
      then have "strLoop l c lx = (ctxErr l c UntermString lx, False)" using in_body by (simp add: strLoop.simps[of l c lx])
      then show ?thesis by (simp del: not_None_eq)
    next
      case 2
      then have "strLoop l c lx = (fst ?r, False)" using in_body by (simp add: strLoop.simps[of l c lx] Let_def)
      then show ?thesis using lexEscape_fails[OF 2(3)] by simp
    next
      case 3
      have e: "strLoop l c lx = strLoop l c (fst ?r)" using in_body 3 by (simp add: strLoop.simps[of l c lx] Let_def)
      show ?thesis unfolding e by (rule 1(1)[OF in_body 3(1,2) refl 3(3)]) (use 1(3) e in simp)
    next
      case 4
      have e: "strLoop l c lx = strLoop l c (lxAdvance lx)" using in_body 4 by (simp add: strLoop.simps[of l c lx])
      show ?thesis unfolding e by (rule 1(2)[OF in_body 4]) (use 1(3) e in simp)
    qed
  next
    case False
    then have "strLoop l c lx = (lx, True)" by (subst strLoop.simps) (simp only: if_False)
    then show ?thesis using 1(3) by simp
  qed
qed

lemma lexString_cases:
  "lx_err (lexString l c lx) = None \<Longrightarrow> snd (strLoop l c (lxAdvance lx)) \<and>
     lx_pos (fst (strLoop l c (lxAdvance lx))) < length (lx_src lx) \<and>
     lexString l c lx = lxAdvance (lxPushAt TK_STRING (lxText (Suc (lx_pos lx)) (fst (strLoop l c (lxAdvance lx)))) 0 l c
       (fst (strLoop l c (lxAdvance lx))))"
proof -
  let ?s = "strLoop l c (lxAdvance lx)"
  assume ok: "lx_err (lexString l c lx) = None"
  have src: "lx_src (fst ?s) = lx_src lx" using strLoop_moves[of "lxAdvance lx" l c] by (simp add: moves_def)
  have e: "lexString l c lx = (if \<not> snd ?s then fst ?s
      else if lx_pos (fst ?s) \<ge> length (lx_src (fst ?s)) then ctxErr l c UntermString (fst ?s)
      else lxAdvance (lxPushAt TK_STRING (lxText (Suc (lx_pos lx)) (fst ?s)) 0 l c (fst ?s)))"
    by (simp add: lexString_def Let_def split: prod.split)
  have s: "snd ?s" using ok strLoop_fails[of l c "lxAdvance lx"] by (cases "snd ?s") (simp_all add: e)
  moreover have "\<not> lx_pos (fst ?s) \<ge> length (lx_src (fst ?s))"
    using ok s ctxErr_some[of l c UntermString "fst ?s"] by (auto simp add: e simp del: ctxErr_some)
  ultimately show ?thesis using src by (simp add: e)
qed

lemma tracked_string:
  assumes t: "tracked lx" and p: "lx_pos lx < length (lx_src lx)" and ok: "lx_err (lexString l c lx) = None"
  shows "tracked (lexString l c lx)"
proof -
  let ?s = "strLoop l c (lxAdvance lx)"
  have ta: "tracked (lxAdvance lx)" using t p by (intro tracks)
  note C = lexString_cases[OF ok]
  have "lx_src (fst ?s) = lx_src lx" using strLoop_moves[of "lxAdvance lx" l c] by (simp add: moves_def)
  then show ?thesis using C tracked_strLoop[OF ta] by (simp add: tracks)
qed

section \<open>What a turn emits\<close>

definition lastNL :: "token list \<Rightarrow> bool" where
  "lastNL ts \<longleftrightarrow> ts \<noteq> [] \<and> t_kind (List.last ts) = TK_NEWLINE"

definition emitOk :: "lexer \<Rightarrow> token \<Rightarrow> bool" where
  "emitOk lx u \<longleftrightarrow> t_line u = lx_line lx \<and> t_col u = lx_col lx \<and> t_kind u \<noteq> TK_EOF \<and>
     (t_kind u = TK_NEWLINE \<longrightarrow> \<not> lastNL (lx_out lx)) \<and> 0 \<le> t_ival u \<and> t_ival u \<le> LLONG_MAX \<and>
     take (length (spell u)) (ahead lx) = spell u"

definition emits :: "lexer \<Rightarrow> lexer \<Rightarrow> bool" where
  "emits lx lx' \<longleftrightarrow> lx_out lx' = lx_out lx \<or> (\<exists>u. lx_out lx' = lx_out lx @ [u] \<and> emitOk lx u)"

lemma emits_none: "lx_out lx' = lx_out lx \<Longrightarrow> emits lx lx'" by (simp add: emits_def)

lemma emits_push:
  assumes "lx_out a = lx_out lx" "k \<notin> {TK_EOF, TK_NEWLINE, TK_STRING, TK_FSTRING}"
      "take (length s) (ahead lx) = s" "0 \<le> v" "v \<le> LLONG_MAX"
  shows "emits lx (lxPushAt k s v (lx_line lx) (lx_col lx) a)"
  using assms by (cases k) (simp_all add: emits_def emitOk_def lxPushAt_def spell_def)

lemma emits_ctxErr: "emits lx a \<Longrightarrow> emits lx (ctxErr l c e a)"
  by (simp add: emits_def)

lemma take_self: "take (length (take k xs)) xs = take k xs"
  by (cases "k \<le> length xs") auto

lemma text_prefix: "lx_src a = lx_src lx \<Longrightarrow> take (length (lxText (lx_pos lx) a)) (ahead lx) = lxText (lx_pos lx) a"
  using take_self by (simp add: lxText_def ahead_def del: length_take)

lemma LLONG_nonneg: "0 \<le> LLONG_MAX" by (simp add: LLONG_MAX_def)

lemma hexAcc_bounds: "hexAcc v s = Some w \<Longrightarrow> 0 \<le> v \<Longrightarrow> v \<le> LLONG_MAX \<Longrightarrow> \<forall>c\<in>set s. isHex c \<Longrightarrow> 0 \<le> w \<and> w \<le> LLONG_MAX"
proof (induction v s rule: hexAcc.induct)
  case (2 v h hs)
  have d: "0 \<le> hexDigit h" using hexDigit_nonneg 2(5) by simp
  have n: "\<not> v > (LLONG_MAX - hexDigit h) div 16" using 2(2) by (simp add: Let_def split: if_splits)
  then have "v * 16 \<le> LLONG_MAX - hexDigit h" by presburger
  then show ?case using 2 n d by (simp add: Let_def)
qed auto

lemma skipWhile_text: "\<forall>c\<in>set (lxText (lx_pos lx) (skipWhile P lx)). P c"
proof (induction P lx rule: skipWhile.induct)
  case (1 P lx)
  show ?case
  proof (cases "lx_pos lx < length (lx_src lx) \<and> P (lxPeek lx 0)")
    case True
    let ?b = "skipWhile P (lxAdvance lx)"
    have e: "skipWhile P lx = ?b" using True by (subst skipWhile.simps) simp
    have "lx_pos ?b - lx_pos lx = Suc (lx_pos ?b - Suc (lx_pos lx))"
      using moves_skip[of "lxAdvance lx" P] by (simp add: moves_def)
    then have "lxText (lx_pos lx) ?b = lxPeek lx 0 # lxText (lx_pos (lxAdvance lx)) ?b"
      using True by (simp add: lxText_def lxPeek_def Cons_nth_drop_Suc[symmetric])
    then show ?thesis using 1 True e by simp
  next
    case False
    then have "skipWhile P lx = lx" by (subst skipWhile.simps) (simp only: if_False)
    then show ?thesis by (simp add: lxText_def)
  qed
qed

lemma decVal_nonneg: "\<forall>c\<in>set s. isDigit c \<Longrightarrow> 0 \<le> decVal s"
proof (induction s rule: rev_induct)
  case (snoc c s)
  then show ?case by (simp add: decVal_def isDigit_def)
qed (simp add: decVal_def)

lemma numEnd_int: "\<not> snd (numEnd lx) \<Longrightarrow> fst (numEnd lx) = skipWhile isDigit lx"
  by (auto simp: numEnd_def Let_def lexFrac_def lexExp_def split: if_splits)

lemma numEnd_frame: "lx_src (fst (numEnd lx)) = lx_src lx" "lx_out (fst (numEnd lx)) = lx_out lx"
  by (simp_all add: numEnd_def Let_def lexFrac_def lexExp_def)

lemma emits_hex: "emits lx (lexHex (lx_line lx) (lx_col lx) lx)"
proof -
  let ?a = "lxAdvance (lxAdvance lx)" let ?b = "skipWhile isHex ?a"
  have "emits lx (lxPushAt TK_INT (lxText (lx_pos lx) ?b) v (lx_line lx) (lx_col lx) ?b)"
    if "hexAcc 0 (lxText (lx_pos ?a) ?b) = Some v" for v
    by (rule emits_push)
      (use hexAcc_bounds[OF that] skipWhile_text[of ?a isHex] LLONG_nonneg text_prefix[of ?b lx] in simp_all)
  then show ?thesis by (simp add: lexHex_def Let_def emits_none split: option.split)
qed

lemma emits_number: "emits lx (lexNumber lx)"
proof -
  let ?r = "numEnd lx" let ?s = "lxText (lx_pos lx) (fst ?r)"
  have p: "take (length ?s) (ahead lx) = ?s" by (rule text_prefix[OF numEnd_frame(1)])
  have "0 \<le> decVal ?s" if "\<not> snd ?r"
    unfolding numEnd_int[OF that] by (rule decVal_nonneg) (use skipWhile_text[of lx isDigit] in simp)
  then have "emits lx (pushNumber (lx_line lx) (lx_col lx) (lx_pos lx) ?r)"
    unfolding pushNumber_def Let_def using LLONG_nonneg
    by (auto intro!: emits_push emits_ctxErr simp: numEnd_frame p)
  then show ?thesis by (simp add: lexNumber_def emits_hex)
qed

lemma emits_ident: "emits lx (lexIdent (lx_line lx) (lx_col lx) lx)"
  unfolding lexIdent_def Let_def
  by (intro emits_push) (simp_all add: identKind_def text_prefix[of "skipWhile isAlnum lx" lx] LLONG_nonneg)

lemma strLoop_quote:
  "snd (strLoop l c lx) \<Longrightarrow> lx_pos (fst (strLoop l c lx)) < length (lx_src (fst (strLoop l c lx))) \<Longrightarrow>
   lxPeek (fst (strLoop l c lx)) 0 = DQ"
proof (induction l c lx rule: strLoop.induct)
  case (1 l c lx)
  let ?r = "lexEscape l c ''a string literal'' (lxAdvance lx)"
  show ?case
  proof (cases "lx_pos lx < length (lx_src lx) \<and> lxPeek lx 0 \<noteq> DQ")
    case in_body: True
    consider "lxPeek lx 0 = NL" | "lxPeek lx 0 \<noteq> NL" "lxPeek lx 0 = BS" "snd ?r < 0"
      | "lxPeek lx 0 \<noteq> NL" "lxPeek lx 0 = BS" "\<not> snd ?r < 0" | "lxPeek lx 0 \<noteq> NL" "lxPeek lx 0 \<noteq> BS" by blast
    then show ?thesis
    proof cases
      case 3
      have e: "strLoop l c lx = strLoop l c (fst ?r)" using in_body 3 by (simp add: strLoop.simps[of l c lx] Let_def)
      show ?thesis unfolding e by (rule 1(1)[OF in_body 3(1,2) refl 3(3)]) (use 1(3,4) e in simp_all)
    next
      case 4
      have e: "strLoop l c lx = strLoop l c (lxAdvance lx)" using in_body 4 by (simp add: strLoop.simps[of l c lx])
      show ?thesis unfolding e by (rule 1(2)[OF in_body 4]) (use 1(3,4) e in simp_all)
    qed (use 1(3) in_body in \<open>simp_all add: strLoop.simps[of l c lx] Let_def\<close>)
  next
    case False
    then have "strLoop l c lx = (lx, True)" by (subst strLoop.simps) (simp only: if_False)
    then show ?thesis using 1(4) False by simp
  qed
qed

text \<open>A string literal that is scanned: its text between the two quotes.\<close>

lemma lexString_out:
  assumes "lx_err (lexString l c lx) = None" "lxPeek lx 0 = DQ"
  shows "\<exists>w. lx_out (lexString l c lx) = lx_out lx @ [\<lparr>t_kind = TK_STRING, t_text = w, t_ival = 0, t_line = l, t_col = c\<rparr>] \<and>
    take (length w + 2) (ahead lx) = DQ # w @ [DQ]"
proof -
  let ?a = "lxAdvance lx" let ?b = "fst (strLoop l c (lxAdvance lx))"
  note C = lexString_cases[OF assms(1)] and M = strLoop_moves[of "lxAdvance lx" l c]
  let ?w = "lxText (Suc (lx_pos lx)) ?b"
  have src: "lx_src ?b = lx_src lx" and out: "lx_out ?b = lx_out lx" and le: "Suc (lx_pos lx) \<le> lx_pos ?b"
    using M by (simp_all add: moves_def)
  have q: "lx_src lx ! lx_pos ?b = DQ" using strLoop_quote[of l c ?a] C src by (simp add: lxPeek_def)
  let ?p = "lx_pos lx" and ?q = "lx_pos ?b" and ?s = "lx_src lx"
  have lt: "?q < length ?s" using C src by simp
  have d0: "?s ! ?p = DQ" using assms(2) le lt by (simp add: lxPeek_def)
  have lw: "length ?w = ?q - Suc ?p" using le lt by (simp add: lxText_def src)
  have "ahead lx = DQ # drop (Suc ?p) ?s"
    using le lt d0 by (simp add: ahead_def Cons_nth_drop_Suc[symmetric])
  moreover have "drop (Suc ?p) ?s = ?w @ drop ?q ?s"
    using append_take_drop_id[of "?q - Suc ?p" "drop (Suc ?p) ?s"] le by (simp add: lxText_def src)
  moreover have "drop ?q ?s = DQ # drop (Suc ?q) ?s" using lt q by (simp add: Cons_nth_drop_Suc[symmetric])
  ultimately have "take (length ?w + 2) (ahead lx) = DQ # ?w @ [DQ]" by simp
  then show ?thesis using C out by (intro exI[of _ ?w]) (simp add: lxPushAt_def)
qed

lemma emits_string: "lx_err (lexString (lx_line lx) (lx_col lx) lx) = None \<Longrightarrow> lxPeek lx 0 = DQ \<Longrightarrow>
    emits lx (lexString (lx_line lx) (lx_col lx) lx)"
  using lexString_out[of "lx_line lx" "lx_col lx" lx]
  by (auto simp: emits_def emitOk_def spell_def LLONG_nonneg)

lemma emits_fstring:
  assumes e: "lx_err (lexString (lx_line lx) (lx_col lx) (lxAdvance lx)) = None" and c: "lxPeek lx 0 = CHR ''f''"
      and q: "lxPeek lx 1 = DQ"
  shows "emits lx (asFString (lexString (lx_line lx) (lx_col lx) (lxAdvance lx)))"
proof -
  have p: "lxPeek (lxAdvance lx) 0 = DQ" using q by (simp add: peek_advance)
  have "ahead lx = CHR ''f'' # ahead (lxAdvance lx)"
    using peek_nonNUL[of lx 0] c by (simp add: ahead_def lxPeek_def NUL_def Cons_nth_drop_Suc[symmetric] split: if_splits)
  then show ?thesis
    using lexString_out[OF e p]
    by (auto simp: emits_def emitOk_def spell_def LLONG_nonneg asFString_def lxLast_def)
qed

lemma emits_pushChar:
  assumes "lx_src a = lx_src lx" "lx_out a = lx_out lx" "0 \<le> v" "v \<le> LLONG_MAX"
  shows "emits lx (pushChar (lx_line lx) (lx_col lx) (lx_pos lx) q v a)"
  unfolding pushChar_def Let_def
  by (rule emits_push) (use assms text_prefix[of "a\<lparr>lx_pos := q + 1\<rparr>" lx] in simp_all)

lemma escape_byte: "snd (lexEscape l c w lx) \<le> 255"
proof -
  have h: "hexDigit k \<le> 15" if "isHex k" for k using that by (auto simp: hexDigit_def isHex_def isDigit_def)
  have v: "v \<le> 255" if "map_of simpleEscapes k = Some v" for k v
    using map_of_SomeD[OF that] by (auto simp: simpleEscapes_def)
  let ?a = "lxAdvance lx"
  have "fst (snd (lexEscHex ?a)) \<le> 255"
    using h[of "lxPeek ?a 0"] h[of "lxPeek (lxAdvance ?a) 0"] by (auto simp: lexEscHex_def Let_def)
  then show ?thesis using v[of "lxPeek lx 0"] by (auto simp: lexEscape_def Let_def split: option.split prod.split)
qed

lemma emits_char: "emits lx (lexChar (lx_line lx) (lx_col lx) lx)"
proof -
  let ?r = "lexEscape (lx_line lx) (lx_col lx) ''a character literal'' (lx\<lparr>lx_pos := lx_pos lx + 2\<rparr>)"
  have r: "lx_src (fst ?r) = lx_src lx" "lx_out (fst ?r) = lx_out lx" using lexEscape_moves(1,3) by simp_all
  have b: "int (ordc k) \<le> LLONG_MAX" for k :: char
  proof -
    have "ordc k < 256" by (rule nat_of_char_less_256)
    then show ?thesis by (simp add: LLONG_MAX_def del: nat_of_char_less_256)
  qed
  have "snd ?r \<le> LLONG_MAX" using escape_byte[of "lx_line lx" "lx_col lx"] by (rule order.trans) (simp add: LLONG_MAX_def)
  then have e: "emits lx (pushChar (lx_line lx) (lx_col lx) (lx_pos lx) q (snd ?r) (fst ?r))" if "\<not> snd ?r < 0" for q
    using that r by (intro emits_pushChar) simp_all
  have d: "emits lx (pushChar (lx_line lx) (lx_col lx) (lx_pos lx) q (int (ordc k)) lx)" for q k
    using b by (intro emits_pushChar) simp_all
  show ?thesis
    unfolding lexChar_def Let_def using e d r by (auto intro: emits_none emits_ctxErr split: option.split)
qed

lemma emits_punct: "emits lx (fst (lexPunct (lx_line lx) (lx_col lx) lx))"
proof (cases "punctAt lx")
  case (Some p)
  have "take (length p) (ahead lx) = p" using Some unfolding punctAt_ahead by (auto simp: find_Some_iff)
  then show ?thesis by (simp add: lexPunct_def Some emits_push LLONG_nonneg)
qed (simp add: lexPunct_def emits_none)

lemma emits_newline:
  assumes "lxPeek lx 0 = NL"
  shows "emits lx (pushNewline (lx_line lx) (lx_col lx) (lxAdvance lx))"
proof -
  have "take 1 (ahead lx) = [NL]"
    using peek_nonNUL[of lx 0] assms by (simp add: ahead_def lxPeek_def NUL_def NL_def Cons_nth_drop_Suc[symmetric] split: if_splits)
  then show ?thesis
    by (auto simp: pushNewline_def lxLast_def emits_def emitOk_def lxPushAt_def lastNL_def spell_def LLONG_nonneg)
qed

section \<open>Errors stay\<close>

lemma err_ctxErr: "lx_err lx \<noteq> None \<Longrightarrow> lx_err (ctxErr l c e lx) = lx_err lx"
  by (auto simp: ctxErr_def)

lemma err_escape: "lx_err lx \<noteq> None \<Longrightarrow> lx_err (fst (lexEscape l c w lx)) = lx_err lx"
  by (auto simp: lexEscape_def lexEscHex_def Let_def err_ctxErr split: option.split)

lemma err_strLoop: "lx_err lx \<noteq> None \<Longrightarrow> lx_err (fst (strLoop l c lx)) = lx_err lx"
proof (induction l c lx rule: strLoop.induct)
  case (1 l c lx)
  let ?r = "lexEscape l c ''a string literal'' (lxAdvance lx)"
  have r: "lx_err (fst ?r) = lx_err lx" using err_escape[of "lxAdvance lx"] 1(3) by simp
  show ?case
    using 1 r by (subst strLoop.simps) (simp add: Let_def err_ctxErr del: not_None_eq)
qed

lemma err_string: "lx_err lx \<noteq> None \<Longrightarrow> lx_err (lexString l c lx) = lx_err lx"
proof -
  assume e: "lx_err lx \<noteq> None"
  have s: "lx_err (fst (strLoop l c (lxAdvance lx))) = lx_err lx" using err_strLoop[of "lxAdvance lx"] e by simp
  then have "lx_err (ctxErr l c UntermString (fst (strLoop l c (lxAdvance lx)))) = lx_err lx" using e err_ctxErr by metis
  then show ?thesis using s by (simp add: lexString_def Let_def split: prod.split) (metis fst_conv)
qed

lemma err_numEnd: "lx_err (fst (numEnd lx)) = lx_err lx"
  by (simp add: numEnd_def Let_def lexFrac_def lexExp_def)

lemma lexStep_err: "lx_err (fst (lexStep lx)) = None \<Longrightarrow> lx_err lx = None"
proof (rule ccontr)
  assume n: "lx_err (fst (lexStep lx)) = None" and e: "lx_err lx \<noteq> None"
  have num: "lx_err (lexNumber lx) \<noteq> None"
    using e by (simp add: lexNumber_def lexHex_def pushNumber_def Let_def err_numEnd err_ctxErr del: not_None_eq split: option.split)
  have id: "lx_err (lexIdent l c lx) \<noteq> None" for l c
    using e by (simp add: lexIdent_def Let_def err_ctxErr del: not_None_eq)
  have st: "lx_err (lexString l c lx) \<noteq> None" "lx_err (lexString l c (lxAdvance lx)) \<noteq> None" for l c
    using e err_string[of lx] err_string[of "lxAdvance lx"] by simp_all
  have "lx_err (fst (lexEscape l c w (lx\<lparr>lx_pos := q\<rparr>))) = lx_err lx" for l c w q
    using err_escape[of "lx\<lparr>lx_pos := q\<rparr>"] e by simp
  then have ch: "lx_err (lexChar l c lx) \<noteq> None" for l c
    using e by (simp add: lexChar_def Let_def err_ctxErr del: not_None_eq split: option.split)
  have pu: "lx_err (fst (lexPunct l c lx)) \<noteq> None" for l c
    using e by (simp add: lexPunct_def err_ctxErr del: not_None_eq split: option.split)
  have cm: "lx_err (skipComment (lxAdvance (lxAdvance lx))) = lx_err lx" using moves_comment by simp
  have "lx_err (fst (lexStep lx)) \<noteq> None"
    unfolding lexStep_def Let_def
    using e num id st ch pu cm by (simp add: orStop_def err_ctxErr del: not_None_eq)
  then show False using n by simp
qed

section \<open>A turn of the main loop, branch by branch\<close>

lemma lexStep_cases:
  fixes lx :: lexer
  defines "c \<equiv> lxPeek lx 0" and "l \<equiv> lx_line lx" and "k \<equiv> lx_col lx"
  obtains (blank) "c \<in> {CHR '' '', TAB, CR}" "lexStep lx = (lxAdvance lx, True)"
  | (newline) "c = NL" "lexStep lx = (pushNewline l k (lxAdvance lx), True)"
  | (line_comment) "lexStep lx = (skipWhile (\<lambda>c. c \<noteq> NL) lx, True)"
  | (comment) "c = CHR ''/''" "lxPeek lx 1 = CHR ''*''"
      "lexStep lx = (let a = skipComment (lxAdvance (lxAdvance lx)) in
         if lx_pos a \<ge> length (lx_src a) then (ctxErr l k UntermComment a, False) else (lxAdvance (lxAdvance a), True))"
  | (number) "isDigit c" "lexStep lx = orStop (lexNumber lx)"
  | (fstring) "c = CHR ''f''" "lxPeek lx 1 = DQ"
      "lexStep lx = (let a = lexString l k (lxAdvance lx) in if lx_err a \<noteq> None then (a, False) else (asFString a, True))"
  | (ident) "isAlpha c" "lexStep lx = (lexIdent l k lx, True)"
  | (str) "c = DQ" "lexStep lx = orStop (lexString l k lx)"
  | (chr) "c = SQ" "lexStep lx = orStop (lexChar l k lx)"
  | (punct) "lexStep lx = lexPunct l k lx"
proof -
  note d = lexStep_def Let_def l_def k_def
  have fq: "lxPeek lx 1 = DQ" if "lx_pos lx + 1 < length (lx_src lx) \<and> lx_src lx ! (lx_pos lx + 1) = DQ"
    using that by (simp add: lxPeek_def)
  show thesis
  proof (cases "c = CHR '' '' \<or> c = TAB \<or> c = CR")
    case True
    then show thesis by (intro blank) (auto simp: d c_def)
  next
    case n1: False
    show thesis
    proof (cases "c = NL")
      case True
      then show thesis using n1 by (intro newline) (simp_all add: d c_def)
    next
      case n2: False
      consider "c = CHR ''/'' \<and> lxPeek lx 1 = CHR ''/''" | "c = CHR ''/'' \<and> lxPeek lx 1 = CHR ''*''"
        | "\<not> (c = CHR ''/'' \<and> lxPeek lx 1 = CHR ''/'')" "\<not> (c = CHR ''/'' \<and> lxPeek lx 1 = CHR ''*'')" by blast
      then show thesis
      proof cases
        case 1
        then show thesis using n1 n2 by (intro line_comment) (simp add: d c_def)
      next
        case 2
        then show thesis using n1 n2 by (intro comment) (simp_all add: d c_def)
      next
        case n3: 3
        note n = n1 n2 n3
        let ?f = "c = CHR ''f'' \<and> lx_pos lx + 1 < length (lx_src lx) \<and> lx_src lx ! (lx_pos lx + 1) = DQ"
        consider "isDigit c" | "\<not> isDigit c" "isAlpha c" ?f | "\<not> isDigit c" "isAlpha c" "\<not> ?f"
          | "\<not> isDigit c" "\<not> isAlpha c" "c = DQ" | "\<not> isDigit c" "\<not> isAlpha c" "c \<noteq> DQ" "c = SQ"
          | "\<not> isDigit c" "\<not> isAlpha c" "c \<noteq> DQ" "c \<noteq> SQ" by blast
        then show thesis
        proof cases
          case 1
          then show thesis using n by (intro number) (simp_all only: d c_def if_False if_True simp_thms)
        next
          case 2
          have e: "lexStep lx = (let a = lexString l k (lxAdvance lx) in if lx_err a \<noteq> None then (a, False) else (asFString a, True))"
            using n 2 by (simp only: d c_def if_False if_True simp_thms)
          show thesis by (rule fstring[OF _ _ e]) (use 2 fq in auto)
        next
          case 3
          then show thesis using n by (intro ident) (simp_all only: d c_def if_False if_True simp_thms)
        next
          case 4
          then show thesis using n by (intro str) (simp_all only: d c_def if_False if_True simp_thms)
        next
          case 5
          then show thesis using n by (intro chr) (simp_all only: d c_def if_False if_True simp_thms)
        next
          case 6
          then show thesis using n by (intro punct) (simp only: d c_def if_False if_True)
        qed
      qed
    qed
  qed
qed

lemma lexStep_emits:
  assumes e: "lx_err (fst (lexStep lx)) = None"
  shows "emits lx (fst (lexStep lx))"
proof (cases rule: lexStep_cases[of lx])
  case comment
  have "lx_out (skipComment (lxAdvance (lxAdvance lx))) = lx_out lx" using moves_comment by simp
  then show ?thesis using comment(3) by (simp add: Let_def emits_none)
next
  case fstring
  have n: "lx_err (lexString (lx_line lx) (lx_col lx) (lxAdvance lx)) = None"
  proof (rule ccontr)
    assume "\<not> ?thesis"
    then show False using e fstring(3) by (simp add: Let_def del: not_None_eq)
  qed
  show ?thesis using emits_fstring[OF n fstring(1,2)] fstring(3) n by simp
qed (use e emits_number emits_ident emits_string emits_char emits_punct emits_newline in \<open>simp_all add: orStop_def emits_none\<close>)

lemma lexStep_tracked:
  assumes t: "tracked lx" and p: "lx_pos lx < length (lx_src lx)" and q: "lxPeek lx 0 \<noteq> SQ"
      and e: "lx_err (fst (lexStep lx)) = None" and g: "snd (lexStep lx)"
  shows "tracked (fst (lexStep lx))"
proof (cases rule: lexStep_cases[of lx])
  case comment
  let ?a = "skipComment (lxAdvance (lxAdvance lx))"
  have "tracked (lxAdvance (lxAdvance lx))" by (rule tracked_two[OF t]) (use comment in \<open>simp_all add: NUL_def\<close>)
  then have ta: "tracked ?a" by (rule tracked_comment)
  have s: "lx_pos ?a < length (lx_src ?a)" "lexStep lx = (lxAdvance (lxAdvance ?a), True)"
    using comment(3) g by (simp_all add: Let_def split: if_splits)
  have "lxPeek ?a 0 = CHR ''*''" "lxPeek ?a 1 = CHR ''/''" using skipComment_stop[of "lxAdvance (lxAdvance lx)"] s(1) by simp_all
  then have "tracked (lxAdvance (lxAdvance ?a))" by (intro tracked_two[OF ta]) (simp_all add: NUL_def)
  then show ?thesis using s by simp
next
  case fstring
  have n: "lx_err (lexString (lx_line lx) (lx_col lx) (lxAdvance lx)) = None"
  proof (rule ccontr)
    assume "\<not> ?thesis"
    then show False using e fstring(3) by (simp add: Let_def del: not_None_eq)
  qed
  have "tracked (lxAdvance lx)" using t p by (rule tracked_advance)
  moreover have "lx_pos (lxAdvance lx) < length (lx_src (lxAdvance lx))"
    using peek_nonNUL[of lx 1] fstring(2) by (simp add: NUL_def DQ_def)
  ultimately show ?thesis using tracked_string n fstring(3) by (simp add: tracked_same)
next
  case punct
  then obtain w where w: "punctAt lx = Some w" using g by (cases "punctAt lx") (simp_all add: lexPunct_def)
  then have "lx_pos lx + length w \<le> length (lx_src lx)" unfolding punctAt_def by (auto simp: find_Some_iff)
  then show ?thesis using t by (simp add: punct lexPunct_def w tracks)
next
  case str
  then show ?thesis using tracked_string[OF t p] e by (simp add: orStop_def)
qed (use t p q tracked_advance in \<open>simp_all add: orStop_def tracked_number tracked_ident tracks\<close>)

end
