(* ===== verification/Lexer_Claims.thy ===== *)
theory Lexer_Claims
  imports Lexer_Pos
begin

text \<open>The properties of the scanner.\<close>

section \<open>The loop\<close>

lemma lexLoop_inv:
  assumes step: "\<And>lx. P lx \<Longrightarrow> lx_pos lx < length (lx_src lx) \<Longrightarrow> snd (lexStep lx) \<Longrightarrow> P (fst (lexStep lx))"
      and P: "P lx" and ok: "snd (lexLoop lx)"
  shows "P (fst (lexLoop lx))"
  using P ok
proof (induction lx rule: lexLoop.induct)
  case (1 lx)
  show ?case
  proof (cases "lx_pos lx < length (lx_src lx) \<and> snd (lexStep lx)")
    case True
    then have e: "lexLoop lx = lexLoop (fst (lexStep lx))" by (simp add: lexLoop_go)
    show ?thesis unfolding e by (rule 1(1)) (use True step 1(2,3) e in auto)
  next
    case False
    then have "lexLoop lx = (if lx_pos lx < length (lx_src lx) then (fst (lexStep lx), False) else (lx, True))"
      by (subst lexLoop.simps) auto
    then show ?thesis using 1(2,3) by (auto split: if_splits)
  qed
qed

text \<open>What every token satisfies on a run that reports no error: it is one of the source's, at its place.\<close>

definition tokAt :: "string \<Rightarrow> token \<Rightarrow> bool" where
  "tokAt src u \<longleftrightarrow> (\<exists>p \<le> length src. t_line u = lineOf src p \<and> t_col u = colOf src p \<and>
     take (length (spell u)) (drop p src) = spell u)"

fun noTwo :: "token list \<Rightarrow> bool" where
  "noTwo (a # b # ts) \<longleftrightarrow> \<not> (t_kind a = TK_NEWLINE \<and> t_kind b = TK_NEWLINE) \<and> noTwo (b # ts)"
| "noTwo _ \<longleftrightarrow> True"

lemma noTwo_append: "noTwo (ts @ [u]) \<longleftrightarrow> noTwo ts \<and> \<not> (lastNL ts \<and> t_kind u = TK_NEWLINE)"
  by (induction ts rule: noTwo.induct) (auto simp: lastNL_def)

definition outOk :: "token list \<Rightarrow> bool" where
  "outOk ts \<longleftrightarrow> noTwo ts \<and> (\<forall>u\<in>set ts. t_kind u \<noteq> TK_EOF \<and> 0 \<le> t_ival u \<and> t_ival u \<le> LLONG_MAX)"

lemma outOk_emits: "emits lx lx' \<Longrightarrow> outOk (lx_out lx) \<Longrightarrow> outOk (lx_out lx')"
  by (auto simp: emits_def emitOk_def outOk_def noTwo_append)

text \<open>A character literal: an integer token that is spelled with an apostrophe. Scanning one does not keep
  the column (\<open>char_literal_column\<close> below), so the positions are right up to the first of them.\<close>

definition charLit :: "token \<Rightarrow> bool" where
  "charLit u \<longleftrightarrow> t_kind u = TK_INT \<and> take 1 (t_text u) = [SQ]"

definition rightlyPlaced :: "string \<Rightarrow> lexer \<Rightarrow> bool" where
  "rightlyPlaced src lx \<longleftrightarrow> (\<forall>pre u post. lx_out lx = pre @ u # post \<and> \<not> list_ex charLit pre \<longrightarrow> tokAt src u) \<and>
     (\<not> list_ex charLit (lx_out lx) \<longrightarrow> tracked lx)"

definition runInv :: "string \<Rightarrow> lexer \<Rightarrow> bool" where
  "runInv src lx \<longleftrightarrow> lx_src lx = src \<and> (lx_err lx = None \<longrightarrow> outOk (lx_out lx) \<and> rightlyPlaced src lx)"

lemma lexChar_emits:
  assumes p: "lx_pos lx < length (lx_src lx)" and c: "lxPeek lx 0 = SQ" and e: "lx_err (lexChar l k lx) = None"
  shows "\<exists>u. lx_out (lexChar l k lx) = lx_out lx @ [u] \<and> charLit u"
proof -
  let ?r = "lexEscape l k ''a character literal'' (lx\<lparr>lx_pos := lx_pos lx + 2\<rparr>)"
  have r: "lx_src (fst ?r) = lx_src lx" "lx_out (fst ?r) = lx_out lx" using lexEscape_moves(1,3) by simp_all
  have P: "\<exists>u. lx_out (pushChar l k (lx_pos lx) q v a) = lx_out lx @ [u] \<and> charLit u"
    if "lx_src a = lx_src lx" "lx_out a = lx_out lx" "lx_pos lx \<le> q" for q v a
  proof -
    have "take 1 (take (Suc q - lx_pos lx) (drop (lx_pos lx) (lx_src lx))) = [SQ]"
      using p c that(3) by (cases "drop (lx_pos lx) (lx_src lx)") (auto simp: lxPeek_def take_Cons' drop_eq_Nil nth_via_drop)
    then show ?thesis using that by (simp add: pushChar_def Let_def lxPushAt_def lxText_def charLit_def)
  qed
  obtain q where q: "closeQuote (lx_src lx) (lx_pos lx + 1) = Some q"
    using e by (cases "closeQuote (lx_src lx) (lx_pos lx + 1)") (simp_all add: lexChar_def del: not_None_eq)
  have "lx_pos lx \<le> q" using closeQuote_bounds[OF q] by simp
  note P1 = P[OF r this] and P2 = P[OF refl refl this]
  show ?thesis
  proof (cases "lx_src lx ! (lx_pos lx + 1) = BS")
    case True
    have "q \<noteq> lx_pos lx + 1" "\<not> snd ?r < 0" "lx_pos (fst ?r) = q"
      using e q True lexEscape_fails[of l k "''a character literal''" "lx\<lparr>lx_pos := lx_pos lx + 2\<rparr>"]
      by (auto simp: lexChar_def Let_def simp del: not_None_eq split: if_splits)
    then show ?thesis using P1 q True by (simp add: lexChar_def Let_def)
  next
    case False
    have "q = lx_pos lx + 2" using e q False by (simp add: lexChar_def Let_def del: not_None_eq split: if_splits)
    then show ?thesis using P2 q False by (simp add: lexChar_def Let_def)
  qed
qed

lemma rightlyPlaced_step:
  assumes p: "lx_pos lx < length (lx_src lx)" and g: "snd (lexStep lx)" and e: "lx_err (fst (lexStep lx)) = None"
    and s: "lx_src lx = src" and I: "rightlyPlaced src lx"
  shows "rightlyPlaced src (fst (lexStep lx))"
proof -
  let ?lx = "fst (lexStep lx)"
  note E = lexStep_emits[OF e]
  have old: "tokAt src u" if "lx_out lx = pre @ u # post" "\<not> list_ex charLit pre" for pre u post
    using I that by (auto simp: rightlyPlaced_def)
  have new: "tokAt src u" if "emitOk lx u" "tracked lx" for u
    unfolding tokAt_def
    by (rule exI[of _ "lx_pos lx"]) (use that s in \<open>simp add: emitOk_def tracked_def ahead_def\<close>)
  have t: "tracked lx" if "\<not> list_ex charLit (lx_out lx)" using I that by (simp add: rightlyPlaced_def)
  have A: "tokAt src u" if o: "lx_out ?lx = pre @ u # post" "\<not> list_ex charLit pre" for pre u post
  proof (cases "lx_out ?lx = lx_out lx")
    case True
    show ?thesis by (rule old[of pre u post]) (use o True in simp_all)
  next
    case False
    then obtain v where v: "lx_out ?lx = lx_out lx @ [v]" "emitOk lx v" using E by (auto simp: emits_def)
    show ?thesis
    proof (cases post rule: rev_cases)
      case Nil
      then have "u = v" "pre = lx_out lx" using o(1) v(1) by simp_all
      then show ?thesis using new v(2) t o(2) by simp
    next
      case (snoc post' w)
      then have "lx_out lx = pre @ u # post'" using o(1) v(1) by simp
      then show ?thesis by (rule old) (rule o(2))
    qed
  qed
  have B: "tracked ?lx" if n: "\<not> list_ex charLit (lx_out ?lx)"
  proof -
    have "\<not> list_ex charLit (lx_out lx)" using n E by (auto simp: emits_def)
    then have tr: "tracked lx" by (rule t)
    have "lxPeek lx 0 \<noteq> SQ"
    proof
      assume c: "lxPeek lx 0 = SQ"
      have ls: "lexStep lx = orStop (lexChar (lx_line lx) (lx_col lx) lx)"
        by (simp add: lexStep_def Let_def c SQ_def NL_def TAB_def CR_def DQ_def isDigit_def isAlpha_def)
      then have "lx_err (lexChar (lx_line lx) (lx_col lx) lx) = None" using e by (simp add: orStop_def)
      from lexChar_emits[OF p c this] ls n show False by (auto simp: orStop_def)
    qed
    then show ?thesis using lexStep_tracked[OF tr p _ e g] by blast
  qed
  show ?thesis using A B unfolding rightlyPlaced_def by blast
qed

lemma runInv_step:
  assumes I: "runInv src lx" and p: "lx_pos lx < length (lx_src lx)" and g: "snd (lexStep lx)"
  shows "runInv src (fst (lexStep lx))"
proof -
  have s: "lx_src lx = src" "lx_src (fst (lexStep lx)) = src" using I lexStep_moves[OF p] by (simp_all add: runInv_def)
  have "outOk (lx_out (fst (lexStep lx))) \<and> rightlyPlaced src (fst (lexStep lx))" if e: "lx_err (fst (lexStep lx)) = None"
  proof
    have e0: "lx_err lx = None" by (rule lexStep_err[OF e])
    show "outOk (lx_out (fst (lexStep lx)))"
      by (rule outOk_emits[OF lexStep_emits[OF e]]) (use I e0 in \<open>simp add: runInv_def\<close>)
    show "rightlyPlaced src (fst (lexStep lx))" by (rule rightlyPlaced_step[OF p g e s(1)]) (use I e0 in \<open>simp add: runInv_def\<close>)
  qed
  then show ?thesis using s by (simp add: runInv_def)
qed

text \<open>The loop is left early only with an error.\<close>

lemma lexStep_stops:
  assumes "lx_pos lx < length (lx_src lx)" "\<not> snd (lexStep lx)"
  shows "lx_err (fst (lexStep lx)) \<noteq> None"
proof (cases rule: lexStep_cases[of lx])
  case comment
  then show ?thesis using assms(2) by (simp add: Let_def del: not_None_eq split: if_splits)
next
  case fstring
  then show ?thesis using assms(2) by (simp add: Let_def del: not_None_eq split: if_splits)
next
  case punct
  then show ?thesis using assms(2) by (simp add: lexPunct_def del: not_None_eq split: option.splits)
qed (use assms(2) in \<open>simp_all add: orStop_def\<close>)

lemma lexLoop_ok: "\<not> snd (lexLoop lx) \<Longrightarrow> lx_err (fst (lexLoop lx)) \<noteq> None"
proof (induction lx rule: lexLoop.induct)
  case (1 lx)
  show ?case
  proof (cases "lx_pos lx < length (lx_src lx) \<and> snd (lexStep lx)")
    case True
    then have e: "lexLoop lx = lexLoop (fst (lexStep lx))" by (simp add: lexLoop_go)
    show ?thesis unfolding e by (rule 1(1)) (use True 1(2) e in simp_all)
  next
    case False
    then have "lexLoop lx = (if lx_pos lx < length (lx_src lx) then (fst (lexStep lx), False) else (lx, True))"
      by (subst lexLoop.simps) auto
    then show ?thesis using 1(2) lexStep_stops[of lx] False by (simp del: not_None_eq split: if_splits)
  qed
qed

lemma lexLoop_end: "snd (lexLoop lx) \<Longrightarrow> length (lx_src (fst (lexLoop lx))) \<le> lx_pos (fst (lexLoop lx))"
proof (induction lx rule: lexLoop.induct)
  case (1 lx)
  show ?case
  proof (cases "lx_pos lx < length (lx_src lx) \<and> snd (lexStep lx)")
    case True
    then have e: "lexLoop lx = lexLoop (fst (lexStep lx))" by (simp add: lexLoop_go)
    show ?thesis unfolding e by (rule 1(1)) (use True 1(2) e in simp_all)
  next
    case False
    then have "lexLoop lx = (if lx_pos lx < length (lx_src lx) then (fst (lexStep lx), False) else (lx, True))"
      by (subst lexLoop.simps) auto
    then show ?thesis using 1(2) by (simp split: if_splits)
  qed
qed

text \<open>The result of a run, over the state the loop ends in.\<close>

definition lexEnd :: "string \<Rightarrow> lexer \<times> bool" where
  "lexEnd src = lexLoop \<lparr>lx_src = src, lx_pos = 0, lx_line = 1, lx_col = 1, lx_out = [], lx_err = None\<rparr>"

lemma lexAll_eq:
  "lexAll src = (let lx = fst (lexEnd src) in
     if snd (lexEnd src) then
       (lx_out (pushNewline (lx_line lx) (lx_col lx) lx) @
         [\<lparr>t_kind = TK_EOF, t_text = [], t_ival = 0, t_line = lx_line lx, t_col = lx_col lx\<rparr>], lx_err lx)
     else (lx_out lx, lx_err lx))"
  by (simp add: lexAll_def lexRange_def lexEnd_def Let_def lxPushAt_def)

lemma lexAll_ok:
  assumes "lexAll src = (out, None)"
  obtains lx where "runInv src lx" "lx_err lx = None"
    "out = lx_out (pushNewline (lx_line lx) (lx_col lx) lx) @
       [\<lparr>t_kind = TK_EOF, t_text = [], t_ival = 0, t_line = lx_line lx, t_col = lx_col lx\<rparr>]"
    "length src \<le> lx_pos lx"
proof -
  let ?i = "\<lparr>lx_src = src, lx_pos = 0, lx_line = 1, lx_col = 1, lx_out = [], lx_err = None\<rparr>"
  have i: "runInv src ?i" by (simp add: runInv_def outOk_def rightlyPlaced_def tracked_def lineOf_def colOf_def)
  have e: "lx_err (fst (lexEnd src)) = None" using assms by (simp add: lexAll_eq Let_def split: if_splits)
  have ok: "snd (lexEnd src)" using lexLoop_ok[of ?i] e unfolding lexEnd_def by blast
  have I: "runInv src (fst (lexEnd src))"
    unfolding lexEnd_def
    by (rule lexLoop_inv[where P = "runInv src", OF _ i ok[unfolded lexEnd_def]]) (rule runInv_step)
  have "out = fst (lexAll src)" using assms by simp
  also have "\<dots> = lx_out (pushNewline (lx_line (fst (lexEnd src))) (lx_col (fst (lexEnd src))) (fst (lexEnd src))) @
      [\<lparr>t_kind = TK_EOF, t_text = [], t_ival = 0, t_line = lx_line (fst (lexEnd src)), t_col = lx_col (fst (lexEnd src))\<rparr>]"
    unfolding lexAll_eq Let_def using ok by simp
  finally show thesis by (rule that[OF I e]) (use lexLoop_end[OF ok[unfolded lexEnd_def]] I in \<open>simp add: runInv_def lexEnd_def\<close>)
qed

lemma pushNewline_new:
  "\<not> lastNL (lx_out lx) \<Longrightarrow> lx_out (pushNewline l c lx) =
     lx_out lx @ [\<lparr>t_kind = TK_NEWLINE, t_text = [NL], t_ival = 0, t_line = l, t_col = c\<rparr>]"
  by (auto simp: pushNewline_def lxLast_def lxPushAt_def lastNL_def)

section \<open>Round trip\<close>

lemma scan_printed:
  assumes "\<forall>t\<in>set ts. tokOk t"
  shows "\<exists>out. lexAll (printToks ts) = (out, None) \<and>
    map tokKey out = map tokKey ts @ [(TK_NEWLINE, [NL], 0), (TK_EOF, [], 0)]"
proof -
  let ?lx = "fst (lexEnd (printToks ts))"
  have L: "snd (lexEnd (printToks ts))" "lx_err ?lx = None" "map tokKey (lx_out ?lx) = map tokKey ts"
    using lexLoop_print[of "\<lparr>lx_src = printToks ts, lx_pos = 0, lx_line = 1, lx_col = 1, lx_out = [], lx_err = None\<rparr>" ts] assms
    by (simp_all add: ahead_def lexEnd_def)
  have "t_kind u \<noteq> TK_NEWLINE" if "u \<in> set (lx_out ?lx)" for u
  proof -
    have "tokKey u \<in> tokKey ` set ts" using that L(3) by (metis image_set imageI list.set_map)
    then show ?thesis using assms by (auto simp: tokKey_def tokOk_def)
  qed
  then have n: "\<not> lastNL (lx_out ?lx)" by (auto simp: lastNL_def)
  show ?thesis using L by (simp add: lexAll_eq Let_def pushNewline_new[OF n] tokKey_def)
qed



section \<open>Shape and positions\<close>

text \<open>C21: the shape the parser relies on. When no error is reported the tokens end with a newline and
  the end marker, the end marker occurs nowhere else, two newline tokens never follow each other, and
  the value of every integer token is between 0 and 2^63 - 1.\<close>

theorem scan_shape:
  assumes "lexAll src = (out, None)"
  shows "\<exists>ts nl eof. out = ts @ [nl, eof] \<and> t_kind nl = TK_NEWLINE \<and> t_kind eof = TK_EOF \<and>
    noTwo (ts @ [nl]) \<and> (\<forall>u\<in>set ts. t_kind u \<noteq> TK_EOF \<and> 0 \<le> t_ival u \<and> t_ival u < 2 ^ 63)"
proof -
  obtain lx where lx: "runInv src lx" "lx_err lx = None"
    "out = lx_out (pushNewline (lx_line lx) (lx_col lx) lx) @
       [\<lparr>t_kind = TK_EOF, t_text = [], t_ival = 0, t_line = lx_line lx, t_col = lx_col lx\<rparr>]"
    "length src \<le> lx_pos lx"
    by (rule lexAll_ok[OF assms])
  have o: "outOk (lx_out lx)" using lx(1,2) by (simp add: runInv_def)
  have b: "t_kind u \<noteq> TK_EOF \<and> 0 \<le> t_ival u \<and> t_ival u < 2 ^ 63" if "u \<in> set (lx_out lx)" for u
    using o that by (auto simp: outOk_def LLONG_MAX_def)
  show ?thesis
  proof (cases "lastNL (lx_out lx)")
    case True
    then obtain ts nl where t: "lx_out lx = ts @ [nl]" "t_kind nl = TK_NEWLINE"
      by (cases "lx_out lx" rule: rev_cases) (auto simp: lastNL_def)
    have "lx_out (pushNewline (lx_line lx) (lx_col lx) lx) = ts @ [nl]" using t by (simp add: pushNewline_def lxLast_def)
    then have "out = ts @ [nl, \<lparr>t_kind = TK_EOF, t_text = [], t_ival = 0, t_line = lx_line lx, t_col = lx_col lx\<rparr>]"
      using lx(3) by simp
    moreover have "noTwo (ts @ [nl])" using o t by (simp add: outOk_def)
    moreover have "\<forall>u\<in>set ts. t_kind u \<noteq> TK_EOF \<and> 0 \<le> t_ival u \<and> t_ival u < 2 ^ 63" using b t by simp
    ultimately show ?thesis using t(2)
      by (intro exI[of _ ts] exI[of _ nl] exI[of _ "\<lparr>t_kind = TK_EOF, t_text = [], t_ival = 0, t_line = lx_line lx, t_col = lx_col lx\<rparr>"]) simp
  next
    case False
    then show ?thesis
      unfolding lx(3) pushNewline_new[OF False] using o b False by (simp add: outOk_def noTwo_append)
  qed
qed

lemma ex_scan: "\<exists>out. lexAll ''ref x'' = (out, None)"
proof -
  have "snd (lexAll ''ref x'') = None" by code_simp
  then show ?thesis by (cases "lexAll ''ref x''") simp
qed

theorem scan_shape_witness:
  "\<exists>ts nl eof. fst (lexAll ''ref x'') = ts @ [nl, eof] \<and> t_kind nl = TK_NEWLINE \<and> t_kind eof = TK_EOF"
proof -
  obtain out where "lexAll ''ref x'' = (out, None)" using ex_scan by blast
  then show ?thesis using scan_shape[of "''ref x''" out] by auto
qed

text \<open>C22: tokens are at the position they report. On a source that is scanned without an error, every token
  up to and including the first character literal has the line and the column of an offset of the
  source, counted from the line breaks before it, and its spelling is what the source holds there;
  the closing newline and the end marker, which the source need not hold, may be at its end. On a
  source without character literals this is every token, whatever its strings and comments hold.
  After a character literal the column is too small (\<open>char_literal_column\<close>).\<close>

theorem tokens_located:
  assumes "lexAll src = (out, None)" "out = pre @ u # post" "\<forall>v \<in> set pre. \<not> (t_kind v = TK_INT \<and> take 1 (t_text v) = [SQ])"
  shows "\<exists>p \<le> length src. t_line u = lineOf src p \<and> t_col u = colOf src p \<and>
    (take (length (spell u)) (drop p src) = spell u \<or> p = length src \<and> t_kind u \<in> {TK_NEWLINE, TK_EOF})"
proof -
  obtain lx where lx: "runInv src lx" "lx_err lx = None"
    "out = lx_out (pushNewline (lx_line lx) (lx_col lx) lx) @
       [\<lparr>t_kind = TK_EOF, t_text = [], t_ival = 0, t_line = lx_line lx, t_col = lx_col lx\<rparr>]"
    "length src \<le> lx_pos lx"
    by (rule lexAll_ok[OF assms(1)])
  have pre: "\<not> list_ex charLit pre" using assms(3) by (auto simp: list_ex_iff charLit_def)
  have P: "rightlyPlaced src lx" using lx(1,2) by (simp add: runInv_def)
  let ?n = "\<lparr>t_kind = TK_NEWLINE, t_text = [NL], t_ival = 0, t_line = lx_line lx, t_col = lx_col lx\<rparr>"
  let ?f = "\<lparr>t_kind = TK_EOF, t_text = [], t_ival = 0, t_line = lx_line lx, t_col = lx_col lx\<rparr>"
  have C: "\<exists>ns. out = lx_out lx @ ns \<and> set ns \<subseteq> {?n, ?f}"
    using lx(3) pushNewline_new[of lx "lx_line lx" "lx_col lx"]
    by (cases "lastNL (lx_out lx)") (auto simp: lastNL_def pushNewline_def lxLast_def)
  then obtain ns where ns: "out = lx_out lx @ ns" "set ns \<subseteq> {?n, ?f}" by blast
  show ?thesis
  proof (cases "length pre < length (lx_out lx)")
    case True
    have "take (length (lx_out lx)) (pre @ u # post) = lx_out lx" using ns(1) assms(2) by simp
    moreover have "take (length (lx_out lx)) (pre @ u # post) = pre @ u # take (length (lx_out lx) - Suc (length pre)) post"
      using True by (simp add: take_Cons' Suc_diff_Suc)
    ultimately have "lx_out lx = pre @ u # take (length (lx_out lx) - Suc (length pre)) post" by simp
    then have "tokAt src u" using P pre unfolding rightlyPlaced_def by blast
    then show ?thesis unfolding tokAt_def by blast
  next
    case False
    have f: "take (length (lx_out lx)) pre = lx_out lx"
      using ns(1) assms(2) False by (metis append_eq_append_conv_if not_less)
    then obtain zs where z1: "pre = lx_out lx @ zs" by (metis append_take_drop_id)
    have "ns = zs @ u # post" using ns(1) assms(2) z1 by simp
    then have z: "pre = lx_out lx @ zs" "u \<in> set ns" using z1 by simp_all
    then have "tracked lx" using P pre by (simp add: rightlyPlaced_def)
    moreover have "lx_src lx = src" using lx(1) by (simp add: runInv_def)
    ultimately have T: "lx_pos lx = length src" "lx_line lx = lineOf src (length src)" "lx_col lx = colOf src (length src)"
      using lx(4) by (auto simp: tracked_def)
    have "u = ?n \<or> u = ?f" using z(2) ns(2) by blast
    then show ?thesis using T by (intro exI[of _ "length src"]) auto
  qed
qed

text \<open>The apostrophe in the comment is no obstacle; the literal itself is located, the name after it is not.\<close>

theorem tokens_located_witness:
  "let src = ''/*'' @ [SQ] @ ''*/x '' @ [SQ] @ ''b'' @ [SQ] @ ''y'' in
     length (fst (lexAll src)) = 5 \<and>
     (\<exists>p \<le> length src. t_col (fst (lexAll src) ! 1) = colOf src p \<and> t_text (fst (lexAll src) ! 1) = [SQ] @ ''b'' @ [SQ])"
proof -
  let ?src = "''/*'' @ [SQ] @ ''*/x '' @ [SQ] @ ''b'' @ [SQ] @ ''y''"
  have k: "map (\<lambda>u. (t_kind u, t_text u)) (fst (lexAll ?src)) = [(TK_IDENT, ''x''), (TK_INT, [SQ] @ ''b'' @ [SQ]),
      (TK_IDENT, ''y''), (TK_NEWLINE, [NL]), (TK_EOF, [])]" "snd (lexAll ?src) = None" by code_simp+
  then obtain out where o: "lexAll ?src = (out, None)" by (cases "lexAll ?src") simp
  have m: "map (\<lambda>u. (t_kind u, t_text u)) out = [(TK_IDENT, ''x''), (TK_INT, [SQ] @ ''b'' @ [SQ]),
      (TK_IDENT, ''y''), (TK_NEWLINE, [NL]), (TK_EOF, [])]" using k(1) unfolding o by simp
  then obtain a u post where u: "out = [a] @ u # post" "t_kind a = TK_IDENT" "t_text u = [SQ] @ ''b'' @ [SQ]" "length out = 5"
    by (auto simp: map_eq_Cons_conv)
  have "\<exists>p \<le> length ?src. t_line u = lineOf ?src p \<and> t_col u = colOf ?src p \<and>
    (take (length (spell u)) (drop p ?src) = spell u \<or> p = length ?src \<and> t_kind u \<in> {TK_NEWLINE, TK_EOF})"
    by (rule tokens_located[OF o u(1)]) (use u(2) in simp)
  then show ?thesis using u unfolding Let_def o fst_conv by auto
qed

lemma PUNCTS_longest:
  "list_all (\<lambda>w. list_all (\<lambda>p. take (length p) w = p \<longrightarrow> List.find (\<lambda>q. take (length q) w = q) PUNCTS = Some w) PUNCTS) PUNCTS"
  using PUNCTS_first by (simp add: list_all_iff)

text \<open>Longest match. When \<open>lexPunct\<close> accepts, it takes the longest punctuation mark that the source
  has at the cursor; when there is none it reports an unexpected character.\<close>

theorem longest_punct:
  "case lexPunct l c lx of (lx', ok) \<Rightarrow>
     (ok \<longrightarrow> (\<exists>p. p \<in> set PUNCTS \<and> take (length p) (ahead lx) = p \<and> lx_pos lx' = lx_pos lx + length p \<and>
        lx_out lx' = lx_out lx @ [\<lparr>t_kind = TK_PUNCT, t_text = p, t_ival = 0, t_line = l, t_col = c\<rparr>] \<and>
        (\<forall>q\<in>set PUNCTS. take (length q) (ahead lx) = q \<longrightarrow> length q \<le> length p))) \<and>
     (\<not> ok \<longrightarrow> (\<forall>q\<in>set PUNCTS. take (length q) (ahead lx) \<noteq> q) \<and> lx_err lx' \<noteq> None)"
proof (cases "punctAt lx")
  case None
  then have "\<forall>q\<in>set PUNCTS. take (length q) (ahead lx) \<noteq> q" unfolding punctAt_ahead by (auto simp: find_None_iff)
  then show ?thesis by (simp add: lexPunct_def None del: not_None_eq)
next
  case (Some p)
  have p: "p \<in> set PUNCTS" "take (length p) (ahead lx) = p"
    using Some unfolding punctAt_ahead by (auto simp: find_Some_iff)
  have "length q \<le> length p" if q: "q \<in> set PUNCTS" "take (length q) (ahead lx) = q" for q
  proof (rule ccontr)
    assume l: "\<not> length q \<le> length p"
    have pq: "take (length p) q = p" using p(2) q(2) l by (metis min.absorb1 nat_le_linear take_take)
    have "List.find (\<lambda>x. take (length x) q = x) PUNCTS = Some q" using PUNCTS_first q(1) by (simp add: list_all_iff)
    then obtain i where i: "i < length PUNCTS" "PUNCTS ! i = q" "\<forall>j<i. take (length (PUNCTS ! j)) q \<noteq> PUNCTS ! j"
      by (auto simp: find_Some_iff)
    obtain k where k: "k < length PUNCTS" "PUNCTS ! k = p" "\<forall>j<k. take (length (PUNCTS ! j)) (ahead lx) \<noteq> PUNCTS ! j"
      using Some unfolding punctAt_ahead by (auto simp: find_Some_iff)
    have "\<not> k < i" using i(3) k(2) pq by metis
    moreover have "\<not> i < k" using k(3) i(2) q(2) by metis
    ultimately have "p = q" using i(2) k(2) by (metis nat_neq_iff)
    then show False using l by simp
  qed
  then show ?thesis using p by (simp add: lexPunct_def Some) (simp add: lxPushAt_def)
qed

theorem longest_punct_witness:
  "3 \<le> lx_pos (fst (lexPunct 1 1 \<lparr>lx_src = ''...x'', lx_pos = 0, lx_line = 1, lx_col = 1, lx_out = [], lx_err = None\<rparr>))"
proof -
  let ?lx = "\<lparr>lx_src = ''...x'', lx_pos = 0, lx_line = 1, lx_col = 1, lx_out = [], lx_err = None\<rparr>"
  obtain lx' ok where e: "lexPunct 1 1 ?lx = (lx', ok)" by fastforce
  have d: "''...'' \<in> set PUNCTS" "take (length ''...'') (ahead ?lx) = ''...''" by (simp_all add: PUNCTS_def ahead_def)
  note L = longest_punct[where l = 1 and c = 1 and lx = ?lx, unfolded e prod.case]
  have ok: ok using L d by blast
  then obtain p :: string where p: "lx_pos lx' = lx_pos ?lx + length p"
    "\<forall>q\<in>set PUNCTS. take (length q) (ahead ?lx) = q \<longrightarrow> length q \<le> length p"
    using L by blast
  have "length ''...'' \<le> length p" using p(2) d by blast
  then show ?thesis using p(1) e by simp
qed

definition hexVal :: "string \<Rightarrow> int" where
  "hexVal s = foldl (\<lambda>v h. v * 16 + hexDigit h) 0 s"

lemma hexAcc_exact:
  "\<forall>c\<in>set s. isHex c \<Longrightarrow> 0 \<le> v \<Longrightarrow> v \<le> LLONG_MAX \<Longrightarrow>
   hexAcc v s = (let n = foldl (\<lambda>v h. v * 16 + hexDigit h) v s in if n \<le> LLONG_MAX then Some n else None)"
proof (induction s arbitrary: v)
  case (Cons h s)
  have d: "0 \<le> hexDigit h" using hexDigit_nonneg Cons.prems(1) by simp
  have mono: "v \<le> foldl (\<lambda>v h. v * 16 + hexDigit h) v s" if "0 \<le> v" for v
    using that Cons.prems(1)
  proof (induction s arbitrary: v)
    case (Cons h s)
    have "0 \<le> hexDigit h" using hexDigit_nonneg Cons.prems(2) by simp
    then show ?case using Cons.IH[of "v * 16 + hexDigit h"] Cons.prems by simp
  qed simp
  show ?case
  proof (cases "v > (LLONG_MAX - hexDigit h) div 16")
    case True
    then have "v * 16 + hexDigit h > LLONG_MAX" by presburger
    moreover have "v * 16 + hexDigit h \<le> foldl (\<lambda>v h. v * 16 + hexDigit h) (v * 16 + hexDigit h) s"
      by (rule mono) (use Cons.prems d in simp)
    ultimately show ?thesis using True by (simp add: Let_def)
  next
    case False
    then have "v * 16 + hexDigit h \<le> LLONG_MAX" by presburger
    then show ?thesis using False Cons.IH[of "v * 16 + hexDigit h"] Cons.prems d by (simp add: Let_def)
  qed
qed (simp add: Let_def)

text \<open>Hexadecimal literals. For a non-empty run of hexadecimal digits the accumulation with its
  overflow test gives the value of the digits exactly when that value fits a signed 64-bit integer,
  and an error otherwise.\<close>

theorem hex_literal:
  assumes "\<forall>c\<in>set s. isHex c"
  shows "hexAcc 0 s = (if hexVal s < 2 ^ 63 then Some (hexVal s) else None)"
  using hexAcc_exact[OF assms, of 0] by (simp add: hexVal_def Let_def LLONG_MAX_def)

theorem hex_literal_witness:
  "hexAcc 0 ''7fffffffffffffff'' = Some (2 ^ 63 - 1) \<and> hexAcc 0 ''8000000000000000'' = None"
proof -
  have a: "\<forall>c\<in>set ''7fffffffffffffff''. isHex c" "\<forall>c\<in>set ''8000000000000000''. isHex c"
    by (simp_all add: isHex_def isDigit_def)
  have b: "hexVal ''7fffffffffffffff'' = 2 ^ 63 - 1" "hexVal ''8000000000000000'' = 2 ^ 63"
    by (simp_all add: hexVal_def hexDigit_def isDigit_def)
  show ?thesis unfolding hex_literal[OF a(1)] hex_literal[OF a(2)] b by simp
qed

text \<open>A character literal does not advance the column. After \<open>'a'\<close> the column counter still has
  the value of the opening quote, so the next token on the line reports column 2 where the source has
  it in column 5.\<close>

theorem char_literal_column:
  "\<exists>out u. lexAll (SQ # CHR ''a'' # SQ # '' x'') = (out, None) \<and> u \<in> set out \<and> t_text u = ''x'' \<and>
     t_col u = 2 \<and> colOf (SQ # CHR ''a'' # SQ # '' x'') 4 = 5"
proof -
  let ?s = "SQ # CHR ''a'' # SQ # '' x''"
  have v: "snd (lexAll ?s) = None" "map (\<lambda>u. (t_text u, t_col u)) (fst (lexAll ?s)) = [([SQ, CHR ''a'', SQ], 1), (''x'', 2), ([NL], 3), ([], 3)]"
    by code_simp+
  obtain out where o: "lexAll ?s = (out, None)"
    "map (\<lambda>u. (t_text u, t_col u)) out = [([SQ, CHR ''a'', SQ], 1), (''x'', 2), ([NL], 3), ([], 3)]"
    using v by (cases "lexAll ?s") simp
  have "(''x'', 2) \<in> set (map (\<lambda>u. (t_text u, t_col u)) out)" unfolding o(2) by simp
  then obtain u where "u \<in> set out" "t_text u = ''x''" "t_col u = 2" by auto
  moreover have "colOf ?s 4 = 5" by (simp add: colOf_def SQ_def NL_def)
  ultimately show ?thesis using o(1) by blast
qed

end
