(* ===== verification/Types.thy ===== *)
theory Types
  imports Main
begin

text \<open>The type table of types/types.c: type nodes in an arena, interning, resolution of the names
  the parser leaves, substitution, equality, mangling and rendering. A node is a tree whose
  constructors are the kinds of \<open>TypeKind\<close>, each carrying the address of the node in the arena, so
  that the comparison of pointers in \<open>ttEquals\<close> is the comparison of addresses. The declarations
  (StructDef, TypeDef) are objects of their own, named by a number and stored in the table, because
  looking a name up writes the node of the declaration back into it. The strings are lists of
  characters; the arena never frees.\<close>

section \<open>Nodes and declarations\<close>

text \<open>The first argument of each constructor is the address. \<open>TRef\<close> has the flags nullable and mut,
  \<open>TGeneric\<close> the struct, the arguments, mut and the address of the view it shadows.
  Pointers are not NULL: the early returns for NULL of the C functions are left out.\<close>

datatype ty =
    TUnres nat string "ty list" bool
  | TVoid nat
  | TBuiltin nat string
  | TStruct nat nat
  | TEnum nat nat "ty list"
  | TRef nat ty bool bool
  | TParam nat string nat
  | TGeneric nat nat "ty list" bool "nat option"
  | TArray nat int ty
  | TFn nat "ty list" ty
  | TDyn nat string
  | TErr nat

fun adrOf :: "ty \<Rightarrow> nat" where
  "adrOf (TUnres p _ _ _) = p"
| "adrOf (TVoid p) = p"
| "adrOf (TBuiltin p _) = p"
| "adrOf (TStruct p _) = p"
| "adrOf (TEnum p _ _) = p"
| "adrOf (TRef p _ _ _) = p"
| "adrOf (TParam p _ _) = p"
| "adrOf (TGeneric p _ _ _ _) = p"
| "adrOf (TArray p _ _) = p"
| "adrOf (TFn p _ _) = p"
| "adrOf (TDyn p _) = p"
| "adrOf (TErr p) = p"

record funcDef =
  fd_name :: string
  fd_params :: "ty list"

record structDef =
  sd_name :: string
  sd_srcName :: "string option"
  sd_params :: "string list"
  sd_frozen :: bool
  sd_fields :: "(string \<times> ty) list"
  sd_methods :: "funcDef list"
  sd_type :: "ty option"

record typeDef =
  td_name :: string
  td_srcName :: "string option"
  td_params :: "string list"
  td_variants :: "(string \<times> ty list) list"
  td_type :: "ty option"

datatype tyErr =
    Ambiguous string nat
  | UnknownType string
  | ArgCount string nat nat
  | NotGeneric string
  | MutQualifies string
  | NeedsArgs string
  | ArrayOfParam string
  | FnRet string
  | FnArg nat string

record typeTable =
  tt_arena :: "ty list"
  tt_builtins :: "ty list"
  tt_structs :: "nat list"
  tt_enums :: "nat list"
  tt_aliases :: "(string \<times> string) list"
  tt_instances :: "ty list"
  tt_enumInstances :: "ty list"
  tt_viewShadows :: "ty list"
  tt_fnTypes :: "ty list"
  tt_void :: ty
  tt_error :: ty
  tt_sdef :: "nat \<Rightarrow> structDef"
  tt_edef :: "nat \<Rightarrow> typeDef"
  tt_mholder :: "nat \<Rightarrow> nat option"
  tt_err :: "tyErr option"

definition ttErr :: "tyErr \<Rightarrow> typeTable \<Rightarrow> typeTable" where
  "ttErr e T = (if tt_err T = None then T\<lparr>tt_err := Some e\<rparr> else T)"

text \<open>A new node of the arena: \<open>mk\<close> builds it from its address.\<close>

definition mkNode :: "(nat \<Rightarrow> ty) \<Rightarrow> typeTable \<Rightarrow> ty \<times> typeTable" where
  "mkNode mk T = (let t = mk (length (tt_arena T)) in (t, T\<lparr>tt_arena := tt_arena T @ [t]\<rparr>))"

definition typeParam :: "string \<Rightarrow> nat \<Rightarrow> typeTable \<Rightarrow> ty \<times> typeTable" where
  "typeParam n i = mkNode (\<lambda>p. TParam p n i)"

section \<open>Questions about one type\<close>

definition BUILTIN_NAMES :: "string list" where
  "BUILTIN_NAMES = [''i8'', ''i16'', ''i32'', ''i64'', ''u8'', ''u16'', ''u32'', ''u64'', ''f32'', ''f64'', ''bool'']"

definition ttIsBuiltinName :: "string \<Rightarrow> bool" where
  "ttIsBuiltinName n \<longleftrightarrow> n \<in> set BUILTIN_NAMES"

fun ttIsParam :: "ty \<Rightarrow> string \<Rightarrow> bool" where
  "ttIsParam (TParam _ q _) n \<longleftrightarrow> q = n"
| "ttIsParam _ _ \<longleftrightarrow> False"

fun ttIsError :: "ty \<Rightarrow> bool" where
  "ttIsError (TErr _) \<longleftrightarrow> True"
| "ttIsError _ \<longleftrightarrow> False"

fun ttBase :: "ty \<Rightarrow> ty" where
  "ttBase (TRef _ t _ _) = ttBase t"
| "ttBase t = t"

fun ttHasParam :: "ty \<Rightarrow> bool" where
  "ttHasParam (TParam _ _ _) \<longleftrightarrow> True"
| "ttHasParam (TRef _ t _ _) \<longleftrightarrow> ttHasParam t"
| "ttHasParam (TArray _ _ t) \<longleftrightarrow> ttHasParam t"
| "ttHasParam (TFn _ ts r) \<longleftrightarrow> ttHasParam r \<or> list_ex ttHasParam ts"
| "ttHasParam (TGeneric _ _ ts _ _) \<longleftrightarrow> list_ex ttHasParam ts"
| "ttHasParam (TEnum _ _ ts) \<longleftrightarrow> list_ex ttHasParam ts"
| "ttHasParam _ \<longleftrightarrow> False"

text \<open>Equality: the same pointer, or the same shape for the kinds that are built on demand.\<close>

fun ttEquals :: "ty \<Rightarrow> ty \<Rightarrow> bool" where
  "ttEquals (TDyn p n) b \<longleftrightarrow> p = adrOf b \<or> (case b of TDyn _ n' \<Rightarrow> n = n' | _ \<Rightarrow> False)"
| "ttEquals (TRef p i nu m) b \<longleftrightarrow> p = adrOf b \<or>
     (case b of TRef _ j nu' m' \<Rightarrow> m = m' \<and> nu = nu' \<and> ttEquals i j | _ \<Rightarrow> False)"
| "ttEquals (TArray p n i) b \<longleftrightarrow> p = adrOf b \<or>
     (case b of TArray _ n' j \<Rightarrow> n = n' \<and> ttEquals i j | _ \<Rightarrow> False)"
| "ttEquals (TParam p n i) b \<longleftrightarrow> p = adrOf b \<or>
     (case b of TParam _ n' i' \<Rightarrow> i = i' \<and> n = n' | _ \<Rightarrow> False)"
| "ttEquals (TFn p ts r) b \<longleftrightarrow> p = adrOf b \<or>
     (case b of TFn _ us s \<Rightarrow> ttEquals r s \<and> list_all2 ttEquals ts us | _ \<Rightarrow> False)"
| "ttEquals (TGeneric p s ts m x) b \<longleftrightarrow> p = adrOf b \<or>
     (case b of TGeneric _ s' us m' _ \<Rightarrow> m = m' \<and> s = s' \<and> list_all2 ttEquals ts us | _ \<Rightarrow> False)"
| "ttEquals (TEnum p e ts) b \<longleftrightarrow> p = adrOf b \<or>
     (case b of TEnum _ e' us \<Rightarrow> e = e' \<and> list_all2 ttEquals ts us | _ \<Rightarrow> False)"
| "ttEquals (TUnres p _ _ _) b \<longleftrightarrow> p = adrOf b"
| "ttEquals (TVoid p) b \<longleftrightarrow> p = adrOf b"
| "ttEquals (TBuiltin p _) b \<longleftrightarrow> p = adrOf b"
| "ttEquals (TStruct p _) b \<longleftrightarrow> p = adrOf b"
| "ttEquals (TErr p) b \<longleftrightarrow> p = adrOf b"

definition ttIs :: "ty \<Rightarrow> string \<Rightarrow> bool" where
  "ttIs t n \<longleftrightarrow> (case ttBase t of TBuiltin _ m \<Rightarrow> m = n | _ \<Rightarrow> False)"

record intDesc =
  in_name :: string
  in_bits :: nat
  in_sgn :: bool

definition INTS :: "intDesc list" where
  "INTS = map (\<lambda>(n, b, s). \<lparr>in_name = n, in_bits = b, in_sgn = s\<rparr>)
     [(''i8'', 8, True), (''i16'', 16, True), (''i32'', 32, True), (''i64'', 64, True),
      (''u8'', 8, False), (''u16'', 16, False), (''u32'', 32, False), (''u64'', 64, False)]"

definition intInfo :: "ty \<Rightarrow> intDesc option" where
  "intInfo t = (case ttBase t of TBuiltin _ n \<Rightarrow> List.find (\<lambda>i. in_name i = n) INTS | _ \<Rightarrow> None)"

definition ttIsInteger :: "ty \<Rightarrow> bool" where "ttIsInteger t \<longleftrightarrow> intInfo t \<noteq> None"

definition ttIsFloat :: "ty \<Rightarrow> bool" where
  "ttIsFloat t \<longleftrightarrow> (case ttBase t of TBuiltin _ n \<Rightarrow> n = ''f32'' \<or> n = ''f64'' | _ \<Rightarrow> False)"

definition ttIsNumeric :: "ty \<Rightarrow> bool" where "ttIsNumeric t \<longleftrightarrow> ttIsInteger t \<or> ttIsFloat t"

definition ttIntBits :: "ty \<Rightarrow> nat" where
  "ttIntBits t = (case intInfo t of Some i \<Rightarrow> in_bits i | None \<Rightarrow> 0)"

definition ttIntSigned :: "ty \<Rightarrow> bool" where
  "ttIntSigned t \<longleftrightarrow> (case intInfo t of Some i \<Rightarrow> in_sgn i | None \<Rightarrow> False)"

fun isRef :: "ty \<Rightarrow> bool" where
  "isRef (TRef _ _ _ _) \<longleftrightarrow> True"
| "isRef _ \<longleftrightarrow> False"

definition intWiden :: "intDesc \<Rightarrow> intDesc \<Rightarrow> bool" where
  "intWiden f t \<longleftrightarrow> (if in_sgn f = in_sgn t then in_bits f \<le> in_bits t
     else if \<not> in_sgn f \<and> in_sgn t then in_bits f < in_bits t else False)"

definition ttCanWiden :: "ty \<Rightarrow> ty \<Rightarrow> bool" where
  "ttCanWiden f t \<longleftrightarrow>
     (if ttIsError f \<or> ttIsError t then True
      else if ttEquals f t then True
      else if isRef f \<or> isRef t then False
      else case (intInfo f, intInfo t) of
          (Some fi, Some ti) \<Rightarrow> intWiden fi ti
        | (Some fi, None) \<Rightarrow> ttIsFloat t \<and> in_bits fi \<le> (if ttIs t ''f32'' then 24 else 53)
        | (None, _) \<Rightarrow> ttIsFloat f \<and> ttIsFloat t \<and> ttIs f ''f32'' \<and> ttIs t ''f64'')"

section \<open>Names\<close>

definition ttDispName :: "string option \<Rightarrow> string option \<Rightarrow> string" where
  "ttDispName src n = (case src of Some (c # cs) \<Rightarrow> c # cs
     | _ \<Rightarrow> (case n of Some m \<Rightarrow> m | None \<Rightarrow> ''?''))"

fun showNat :: "nat \<Rightarrow> string" where
  "showNat n = (if n < 10 then [char_of (48 + n)] else showNat (n div 10) @ [char_of (48 + n mod 10)])"

declare showNat.simps [simp del]

definition showInt :: "int \<Rightarrow> string" where
  "showInt i = (if i < 0 then CHR ''-'' # showNat (nat (- i)) else showNat (nat i))"

fun ttMangle :: "typeTable \<Rightarrow> ty \<Rightarrow> string" where
  "ttMangle T (TRef _ t _ _) = ''Ref_'' @ ttMangle T t"
| "ttMangle T (TArray _ n t) = ''array_'' @ showInt n @ ''_'' @ ttMangle T t"
| "ttMangle T (TGeneric _ s ts _ _) = sd_name (tt_sdef T s) @ concat (map (\<lambda>t. CHR ''_'' # ttMangle T t) ts)"
| "ttMangle T (TParam _ n _) = n"
| "ttMangle T (TVoid _) = ''void''"
| "ttMangle T (TErr _) = ''Error''"
| "ttMangle T (TFn _ ts r) = ''extc_fn_'' @ ttMangle T r @ concat (map (\<lambda>t. ''__'' @ ttMangle T t) ts)"
| "ttMangle T (TEnum _ e ts) = td_name (tt_edef T e) @ concat (map (\<lambda>t. CHR ''_'' # ttMangle T t) ts)"
| "ttMangle T (TStruct _ s) = sd_name (tt_sdef T s)"
| "ttMangle T (TBuiltin _ n) = n"
| "ttMangle T (TUnres _ n _ _) = n"
| "ttMangle T (TDyn _ n) = n"

fun commas :: "string list \<Rightarrow> string" where
  "commas [] = []"
| "commas [s] = s"
| "commas (s # ss) = s @ '', '' @ commas ss"

definition sdShow :: "typeTable \<Rightarrow> nat \<Rightarrow> string" where
  "sdShow T s = ttDispName (sd_srcName (tt_sdef T s)) (Some (sd_name (tt_sdef T s)))"

definition edShow :: "typeTable \<Rightarrow> nat \<Rightarrow> string" where
  "edShow T e = ttDispName (td_srcName (tt_edef T e)) (Some (td_name (tt_edef T e)))"

fun ttRender :: "typeTable \<Rightarrow> ty \<Rightarrow> string" where
  "ttRender T (TRef _ t nu m) = (if nu then ''?'' else []) @ (if m then ''mut ref '' else ''ref '') @ ttRender T t"
| "ttRender T (TGeneric _ s ts m _) =
     (if m then ''mut '' else []) @ sdShow T s @ ''<'' @ commas (map (ttRender T) ts) @ ''>''"
| "ttRender T (TArray _ n t) = ''['' @ showInt n @ '']'' @ ttRender T t"
| "ttRender T (TParam _ n _) = n"
| "ttRender T (TVoid _) = ''void''"
| "ttRender T (TErr _) = ''<error>''"
| "ttRender T (TFn _ ts r) = ''fn('' @ commas (map (ttRender T) ts) @ '') -> '' @ ttRender T r"
| "ttRender T (TEnum _ e ts) = edShow T e @ (if ts = [] then [] else ''<'' @ commas (map (ttRender T) ts) @ ''>'')"
| "ttRender T (TStruct _ s) = sdShow T s"
| "ttRender T (TBuiltin _ n) = n"
| "ttRender T (TUnres _ n _ _) = n"
| "ttRender T (TDyn _ n) = n"

definition ttShow :: "typeTable \<Rightarrow> ty \<Rightarrow> string" where "ttShow T t = ttRender T t"

end
