(* ===== verification/Types_Table.thy ===== *)
theory Types_Table
  imports Types
begin

text \<open>The operations of types/types.c that build types: the table itself, lookup by name, the interning
  constructors, the writable shadows of views, substitution and the resolution of what the parser
  wrote. Each returns the type together with the table it leaves.\<close>

section \<open>The table and its declarations\<close>

definition addStruct :: "nat \<Rightarrow> typeTable \<Rightarrow> typeTable" where
  "addStruct s T = (if list_ex (\<lambda>j. sd_name (tt_sdef T j) = sd_name (tt_sdef T s)) (tt_structs T) then T
     else T\<lparr>tt_structs := tt_structs T @ [s]\<rparr>)"

definition addEnum :: "nat \<Rightarrow> typeTable \<Rightarrow> typeTable" where
  "addEnum e T = (if list_ex (\<lambda>j. td_name (tt_edef T j) = td_name (tt_edef T e)) (tt_enums T) then T
     else T\<lparr>tt_enums := tt_enums T @ [e]\<rparr>)"

definition ttRegister :: "nat list \<Rightarrow> nat list \<Rightarrow> typeTable \<Rightarrow> typeTable" where
  "ttRegister ss es T = fold addEnum es (fold addStruct ss T)"

definition ttNew :: "(nat \<Rightarrow> structDef) \<Rightarrow> (nat \<Rightarrow> typeDef) \<Rightarrow> (nat \<Rightarrow> nat option) \<Rightarrow> nat list \<Rightarrow> nat list \<Rightarrow> typeTable" where
  "ttNew sd td mh ss es =
     (let bs = map (\<lambda>i. TBuiltin i (BUILTIN_NAMES ! i)) [0..<length BUILTIN_NAMES];
          v = TVoid (length bs); er = TErr (length bs + 1)
      in ttRegister ss es \<lparr>tt_arena = bs @ [v, er], tt_builtins = bs, tt_structs = [], tt_enums = [],
        tt_aliases = [], tt_instances = [], tt_enumInstances = [], tt_viewShadows = [], tt_fnTypes = [],
        tt_void = v, tt_error = er, tt_sdef = sd, tt_edef = td, tt_mholder = mh, tt_err = None\<rparr>)"

definition structNode :: "nat \<Rightarrow> typeTable \<Rightarrow> ty \<times> typeTable" where
  "structNode s T = (case sd_type (tt_sdef T s) of Some t \<Rightarrow> (t, T)
     | None \<Rightarrow> let (t, T1) = mkNode (\<lambda>p. TStruct p s) T
         in (t, T1\<lparr>tt_sdef := (tt_sdef T1)(s := (tt_sdef T1 s)\<lparr>sd_type := Some t\<rparr>)\<rparr>))"

definition enumNode :: "nat \<Rightarrow> typeTable \<Rightarrow> ty \<times> typeTable" where
  "enumNode e T = (case td_type (tt_edef T e) of Some t \<Rightarrow> (t, T)
     | None \<Rightarrow> let (t, T1) = mkNode (\<lambda>p. TEnum p e []) T
         in (t, T1\<lparr>tt_edef := (tt_edef T1)(e := (tt_edef T1 e)\<lparr>td_type := Some t\<rparr>)\<rparr>))"

definition isBuiltinNode :: "string \<Rightarrow> ty \<Rightarrow> bool" where
  "isBuiltinNode n t \<longleftrightarrow> (case t of TBuiltin _ m \<Rightarrow> m = n | _ \<Rightarrow> False)"

definition ttFromName :: "string \<Rightarrow> typeTable \<Rightarrow> ty option \<times> typeTable" where
  "ttFromName n T = (if n = ''void'' then (Some (tt_void T), T)
     else case List.find (isBuiltinNode n) (tt_builtins T) of Some t \<Rightarrow> (Some t, T)
     | None \<Rightarrow> (case List.find (\<lambda>s. sd_name (tt_sdef T s) = n) (tt_structs T) of
         Some s \<Rightarrow> (let (t, T1) = structNode s T in (Some t, T1))
       | None \<Rightarrow> (case List.find (\<lambda>e. td_name (tt_edef T e) = n) (tt_enums T) of
           Some e \<Rightarrow> (let (t, T1) = enumNode e T in (Some t, T1))
         | None \<Rightarrow> (None, T))))"

section \<open>Interning constructors\<close>

definition sameArray :: "int \<Rightarrow> ty \<Rightarrow> ty \<Rightarrow> bool" where
  "sameArray n e c \<longleftrightarrow> (case c of TArray _ m i \<Rightarrow> m = n \<and> ttEquals i e | _ \<Rightarrow> False)"

definition ttArray :: "int \<Rightarrow> ty \<Rightarrow> typeTable \<Rightarrow> ty \<times> typeTable" where
  "ttArray n e T = (case List.find (sameArray n e) (tt_instances T) of Some c \<Rightarrow> (c, T)
     | None \<Rightarrow> let (t, T1) = mkNode (\<lambda>p. TArray p n e) T in (t, T1\<lparr>tt_instances := tt_instances T1 @ [t]\<rparr>))"

definition ttRef :: "ty \<Rightarrow> typeTable \<Rightarrow> ty \<times> typeTable" where
  "ttRef t = mkNode (\<lambda>p. TRef p t False False)"

definition refLike :: "bool \<Rightarrow> bool \<Rightarrow> ty \<Rightarrow> typeTable \<Rightarrow> ty \<times> typeTable" where
  "refLike nu m t = mkNode (\<lambda>p. TRef p t nu m)"

definition sameGeneric :: "nat \<Rightarrow> ty list \<Rightarrow> ty \<Rightarrow> bool" where
  "sameGeneric s args c \<longleftrightarrow> (case c of TGeneric _ s' us _ _ \<Rightarrow> s' = s \<and> list_all2 ttEquals us args | _ \<Rightarrow> False)"

definition ttGeneric :: "nat \<Rightarrow> ty list \<Rightarrow> typeTable \<Rightarrow> ty \<times> typeTable" where
  "ttGeneric s args T =
     (if list_ex ttHasParam args then mkNode (\<lambda>p. TGeneric p s args False None) T
      else case List.find (sameGeneric s args) (tt_instances T) of Some c \<Rightarrow> (c, T)
      | None \<Rightarrow> let (t, T1) = mkNode (\<lambda>p. TGeneric p s args False None) T
          in (t, T1\<lparr>tt_instances := tt_instances T1 @ [t]\<rparr>))"

definition sameFn :: "ty list \<Rightarrow> ty \<Rightarrow> ty \<Rightarrow> bool" where
  "sameFn ts r c \<longleftrightarrow> (case c of TFn _ us s \<Rightarrow> ttEquals s r \<and> list_all2 ttEquals us ts | _ \<Rightarrow> False)"

definition ttFn :: "ty list \<Rightarrow> ty option \<Rightarrow> typeTable \<Rightarrow> ty \<times> typeTable" where
  "ttFn ts ret T =
     (let r = (case ret of Some r \<Rightarrow> r | None \<Rightarrow> tt_void T)
      in if ttHasParam r \<or> list_ex ttHasParam ts then mkNode (\<lambda>p. TFn p ts r) T
      else case List.find (sameFn ts r) (tt_fnTypes T) of Some c \<Rightarrow> (c, T)
      | None \<Rightarrow> let (t, T1) = mkNode (\<lambda>p. TFn p ts r) T in (t, T1\<lparr>tt_fnTypes := tt_fnTypes T1 @ [t]\<rparr>))"

definition sameEnum :: "nat \<Rightarrow> ty list \<Rightarrow> ty \<Rightarrow> bool" where
  "sameEnum e args c \<longleftrightarrow> (case c of TEnum _ e' us \<Rightarrow> e' = e \<and> list_all2 ttEquals us args | _ \<Rightarrow> False)"

definition ttEnumGeneric :: "nat \<Rightarrow> ty list \<Rightarrow> typeTable \<Rightarrow> ty \<times> typeTable" where
  "ttEnumGeneric e args T =
     (if list_ex ttHasParam args then mkNode (\<lambda>p. TEnum p e args) T
      else case List.find (sameEnum e args) (tt_enumInstances T) of Some c \<Rightarrow> (c, T)
      | None \<Rightarrow> let (t, T1) = mkNode (\<lambda>p. TEnum p e args) T
          in (t, T1\<lparr>tt_enumInstances := tt_enumInstances T1 @ [t]\<rparr>))"

section \<open>Views\<close>

definition shadows :: "nat \<Rightarrow> ty \<Rightarrow> bool" where
  "shadows b c \<longleftrightarrow> (case c of TGeneric _ _ _ _ x \<Rightarrow> x = Some b | _ \<Rightarrow> False)"

definition ttViewMut :: "ty \<Rightarrow> bool \<Rightarrow> typeTable \<Rightarrow> ty \<times> typeTable" where
  "ttViewMut b mu T = (case b of
       TGeneric p s ts m x \<Rightarrow>
         (if \<not> mu \<or> m then (b, T)
          else case List.find (shadows p) (tt_viewShadows T) of Some c \<Rightarrow> (c, T)
          | None \<Rightarrow> let (t, T1) = mkNode (\<lambda>q. TGeneric q s ts True (Some p)) T
              in (t, T1\<lparr>tt_viewShadows := tt_viewShadows T1 @ [t]\<rparr>))
     | _ \<Rightarrow> (b, T))"

fun ttViewReadonly :: "ty \<Rightarrow> typeTable \<Rightarrow> ty \<times> typeTable"
  and ttViewReadonlys :: "ty list \<Rightarrow> typeTable \<Rightarrow> ty list \<times> typeTable" where
  "ttViewReadonly (TGeneric p s ts m x) T =
     (let (us, T1) = ttViewReadonlys ts T
      in if m \<or> map adrOf us \<noteq> map adrOf ts then ttGeneric s us T1 else (TGeneric p s ts m x, T1))"
| "ttViewReadonly t T = (t, T)"
| "ttViewReadonlys [] T = ([], T)"
| "ttViewReadonlys (t # ts) T =
     (let (u, T1) = ttViewReadonly t T; (us, T2) = ttViewReadonlys ts T1 in (u # us, T2))"

definition ttIsViewType :: "typeTable \<Rightarrow> ty \<Rightarrow> bool" where
  "ttIsViewType T t \<longleftrightarrow> (case t of
     TGeneric _ s ts _ _ \<Rightarrow> length ts = 1 \<and> sd_name (tt_sdef T s) = ''slice'' | _ \<Rightarrow> False)"

fun ttViewDowngradable :: "ty \<Rightarrow> ty \<Rightarrow> bool" where
  "ttViewDowngradable (TGeneric p s ts m x) got \<longleftrightarrow> ttEquals (TGeneric p s ts m x) got \<or>
     (case got of TGeneric _ s' us m' _ \<Rightarrow>
        s = s' \<and> \<not> (m' \<noteq> m \<and> m) \<and> list_all2 ttViewDowngradable ts us
      | _ \<Rightarrow> False)"
| "ttViewDowngradable want got \<longleftrightarrow> ttEquals want got"

section \<open>Substitution\<close>

definition lookupArg :: "string list \<Rightarrow> ty list \<Rightarrow> string \<Rightarrow> ty option" where
  "lookupArg ps as n = (case map_of (zip ps as) n of Some a \<Rightarrow> Some a
     | None \<Rightarrow> if length ps = 2 \<and> length as = 1 then Some (as ! 0) else None)"

fun substGo :: "string list \<Rightarrow> ty list \<Rightarrow> ty \<Rightarrow> typeTable \<Rightarrow> ty \<times> typeTable"
  and substGos :: "string list \<Rightarrow> ty list \<Rightarrow> ty list \<Rightarrow> typeTable \<Rightarrow> ty list \<times> typeTable" where
  "substGo ps as (TParam p n i) T = (case lookupArg ps as n of Some a \<Rightarrow> (a, T) | None \<Rightarrow> (TParam p n i, T))"
| "substGo ps as (TRef p t nu m) T = (let (u, T1) = substGo ps as t T in refLike nu m u T1)"
| "substGo ps as (TArray p n t) T = (let (u, T1) = substGo ps as t T in ttArray n u T1)"
| "substGo ps as (TFn p ts r) T =
     (let (us, T1) = substGos ps as ts T; (s, T2) = substGo ps as r T1 in ttFn us (Some s) T2)"
| "substGo ps as (TGeneric p s ts m x) T =
     (let (us, T1) = substGos ps as ts T; (g, T2) = ttGeneric s us T1 in ttViewMut g m T2)"
| "substGo ps as (TEnum p e ts) T =
     (if ts = [] then (TEnum p e ts, T)
      else let (us, T1) = substGos ps as ts T in ttEnumGeneric e us T1)"
| "substGo ps as t T = (t, T)"
| "substGos ps as [] T = ([], T)"
| "substGos ps as (t # ts) T =
     (let (u, T1) = substGo ps as t T; (us, T2) = substGos ps as ts T1 in (u # us, T2))"

definition ttSubstitute :: "ty \<Rightarrow> string list \<Rightarrow> ty list \<Rightarrow> typeTable \<Rightarrow> ty \<times> typeTable" where
  "ttSubstitute t ps as T = (if ps = [] then (t, T) else substGo ps as t T)"

section \<open>The C boundary\<close>

definition ttCrossesC :: "typeTable \<Rightarrow> ty \<Rightarrow> bool \<Rightarrow> bool" where
  "ttCrossesC T t isReturn \<longleftrightarrow> (case t of
       TRef _ _ _ _ \<Rightarrow> True
     | TBuiltin _ _ \<Rightarrow> True
     | TFn _ _ _ \<Rightarrow> True
     | TStruct _ s \<Rightarrow> sd_frozen (tt_sdef T s)
     | TGeneric _ s _ _ _ \<Rightarrow> sd_frozen (tt_sdef T s)
     | TVoid _ \<Rightarrow> isReturn
     | _ \<Rightarrow> False)"

section \<open>Resolution\<close>

text \<open>The position of a name among the type parameters in scope.\<close>

fun paramIndex :: "string list \<Rightarrow> string \<Rightarrow> nat option" where
  "paramIndex [] n = None"
| "paramIndex (p # ps) n = (if p = n then Some 0 else map_option Suc (paramIndex ps n))"

text \<open>The declaration a bare name stands for; \<open>None\<close> when an error was reported.\<close>

definition resolveBase :: "string \<Rightarrow> typeTable \<Rightarrow> ty option \<times> typeTable" where
  "resolveBase n T =
     (let (b0, T1) = ttFromName n T;
          hits = map snd (filter (\<lambda>a. fst a = n) (tt_aliases T1))
      in if b0 = None \<and> length hits \<ge> 2 then (None, ttErr (Ambiguous n (length hits)) T1)
      else let nm = (if b0 = None \<and> hits \<noteq> [] then hd hits else n);
               (b, T2) = ttFromName nm T1
           in case b of Some t \<Rightarrow> (Some t, T2) | None \<Rightarrow> (None, ttErr (UnknownType n) T2))"

text \<open>The tests before the type arguments are resolved: how many the declaration takes.\<close>

definition headErr :: "typeTable \<Rightarrow> string \<Rightarrow> ty \<Rightarrow> nat \<Rightarrow> tyErr option" where
  "headErr T n b k = (case b of
       TEnum _ e _ \<Rightarrow> (if length (td_params (tt_edef T e)) \<noteq> k
         then Some (ArgCount n (length (td_params (tt_edef T e))) k) else None)
     | TStruct _ s \<Rightarrow> (let a = length (sd_params (tt_sdef T s));
           coro = sd_name (tt_sdef T s) = ''coroutine''
         in if a \<noteq> k \<and> \<not> (coro \<and> a = 2 \<and> k = 1) then Some (ArgCount n a k) else None)
     | _ \<Rightarrow> Some (NotGeneric n))"

text \<open>The instance for resolved arguments.\<close>

definition instantiateHead :: "string \<Rightarrow> ty \<Rightarrow> ty list \<Rightarrow> bool \<Rightarrow> typeTable \<Rightarrow> ty \<times> typeTable" where
  "instantiateHead n b args m T = (case b of
       TEnum _ e _ \<Rightarrow> ttEnumGeneric e args T
     | TStruct _ s \<Rightarrow>
         (let (g, T1) = ttGeneric s args T
          in if \<not> m then (g, T1)
          else if \<not> ttIsViewType T1 g then (tt_error T1, ttErr (MutQualifies n) T1)
          else ttViewMut g True T1)
     | _ \<Rightarrow> (tt_error T, T))"

definition needsArgs :: "typeTable \<Rightarrow> ty \<Rightarrow> bool" where
  "needsArgs T b \<longleftrightarrow> (case b of TStruct _ s \<Rightarrow> sd_params (tt_sdef T s) \<noteq> []
     | TEnum _ e _ \<Rightarrow> td_params (tt_edef T e) \<noteq> [] | _ \<Rightarrow> False)"

fun paramName :: "ty \<Rightarrow> string option" where
  "paramName (TParam _ n _) = Some n"
| "paramName _ = None"

text \<open>What a function type may carry; left undecided while a type parameter is in the signature.\<close>

definition fnCheck :: "ty \<Rightarrow> typeTable \<Rightarrow> typeTable" where
  "fnCheck f T = (case f of
       TFn _ ts r \<Rightarrow> (if ttHasParam f then T
         else let T1 = (if ttCrossesC T r True then T else ttErr (FnRet (ttShow T r)) T)
              in fold (\<lambda>i T. if ttCrossesC T (ts ! i) False then T
                   else ttErr (FnArg (i + 1) (ttShow T (ts ! i))) T) [0..<length ts] T1)
     | _ \<Rightarrow> T)"

fun ttResolve :: "string list \<Rightarrow> ty \<Rightarrow> typeTable \<Rightarrow> ty \<times> typeTable"
  and ttResolves :: "string list \<Rightarrow> ty list \<Rightarrow> typeTable \<Rightarrow> ty list \<times> typeTable" where
  "ttResolve ps (TUnres p n ts m) T = (case paramIndex ps n of Some i \<Rightarrow> typeParam n i T
     | None \<Rightarrow> (case resolveBase n T of (None, T1) \<Rightarrow> (tt_error T1, T1)
       | (Some b, T1) \<Rightarrow>
           (if ts = [] then (if needsArgs T1 b then (tt_error T1, ttErr (NeedsArgs n) T1) else (b, T1))
            else case headErr T1 n b (length ts) of Some e \<Rightarrow> (tt_error T1, ttErr e T1)
            | None \<Rightarrow> (case ttResolves ps ts T1 of (args, T2) \<Rightarrow> instantiateHead n b args m T2))))"
| "ttResolve ps (TRef p t nu m) T = (case ttResolve ps t T of (u, T1) \<Rightarrow> refLike nu m u T1)"
| "ttResolve ps (TArray p k t) T = (case ttResolve ps t T of (u, T1) \<Rightarrow>
     (case paramName u of Some n \<Rightarrow> (tt_error T1, ttErr (ArrayOfParam n) T1) | None \<Rightarrow> ttArray k u T1))"
| "ttResolve ps (TFn p ts r) T = (case ttResolves ps ts T of (us, T1) \<Rightarrow>
     (case ttResolve ps r T1 of (s, T2) \<Rightarrow> (case ttFn us (Some s) T2 of (f, T3) \<Rightarrow> (f, fnCheck f T3))))"
| "ttResolve ps t T = (t, T)"
| "ttResolves ps [] T = ([], T)"
| "ttResolves ps (t # ts) T =
     (case ttResolve ps t T of (u, T1) \<Rightarrow> (case ttResolves ps ts T1 of (us, T2) \<Rightarrow> (u # us, T2)))"

end
