(* ===== verification/Types_Wf.thy ===== *)
theory Types_Wf
  imports Types_Table
begin

text \<open>What the pointers of the type table mean. \<open>erase\<close> forgets the addresses of a node; \<open>canon\<close> says
  that a node is one the table has built; \<open>tblOk\<close> is the invariant of the table and \<open>ext\<close> the order in
  which tables grow. Every operation yields a canonical node of a known shape in a grown table.\<close>

fun erase :: "ty \<Rightarrow> ty" where
  "erase (TUnres _ n ts m) = TUnres 0 n (map erase ts) m"
| "erase (TVoid _) = TVoid 0"
| "erase (TBuiltin _ n) = TBuiltin 0 n"
| "erase (TStruct _ s) = TStruct 0 s"
| "erase (TEnum _ e ts) = TEnum 0 e (map erase ts)"
| "erase (TRef _ t nu m) = TRef 0 (erase t) nu m"
| "erase (TParam _ n i) = TParam 0 n i"
| "erase (TGeneric _ s ts m _) = TGeneric 0 s (map erase ts) m None"
| "erase (TArray _ n t) = TArray 0 n (erase t)"
| "erase (TFn _ ts r) = TFn 0 (map erase ts) (erase r)"
| "erase (TDyn _ n) = TDyn 0 n"
| "erase (TErr _) = TErr 0"

definition node :: "typeTable \<Rightarrow> ty \<Rightarrow> bool" where
  "node T t \<longleftrightarrow> adrOf t < length (tt_arena T) \<and> tt_arena T ! adrOf t = t"

fun canon :: "typeTable \<Rightarrow> ty \<Rightarrow> bool" where
  "canon T (TUnres p n ts m) \<longleftrightarrow> False"
| "canon T (TVoid p) \<longleftrightarrow> node T (TVoid p) \<and> tt_void T = TVoid p"
| "canon T (TBuiltin p n) \<longleftrightarrow> node T (TBuiltin p n) \<and> TBuiltin p n \<in> set (tt_builtins T)"
| "canon T (TStruct p s) \<longleftrightarrow> node T (TStruct p s) \<and> sd_type (tt_sdef T s) = Some (TStruct p s)"
| "canon T (TEnum p e ts) \<longleftrightarrow> node T (TEnum p e ts) \<and> list_all (canon T) ts"
| "canon T (TRef p t nu m) \<longleftrightarrow> node T (TRef p t nu m) \<and> canon T t"
| "canon T (TParam p n i) \<longleftrightarrow> node T (TParam p n i)"
| "canon T (TGeneric p s ts m x) \<longleftrightarrow> node T (TGeneric p s ts m x) \<and> list_all (canon T) ts"
| "canon T (TArray p n t) \<longleftrightarrow> node T (TArray p n t) \<and> canon T t"
| "canon T (TFn p ts r) \<longleftrightarrow> node T (TFn p ts r) \<and> list_all (canon T) ts \<and> canon T r"
| "canon T (TDyn p n) \<longleftrightarrow> node T (TDyn p n)"
| "canon T (TErr p) \<longleftrightarrow> node T (TErr p) \<and> tt_error T = TErr p"

lemma canon_node: "canon T t \<Longrightarrow> node T t"
  by (cases t) auto

text \<open>The invariant: what the tables of instances hold is canonical and no type is in them twice, the
  writable shadows belong to nodes of the arena, and the builtin types and the nodes cached in the
  declarations are what they should be.\<close>

definition storedOk :: "typeTable \<Rightarrow> bool" where
  "storedOk T \<longleftrightarrow> (\<forall>c \<in> set (tt_instances T) \<union> set (tt_enumInstances T) \<union> set (tt_viewShadows T) \<union> set (tt_fnTypes T).
     canon T c)"

definition plain :: "ty \<Rightarrow> bool" where
  "plain t \<longleftrightarrow> (case t of TGeneric _ _ ts m _ \<Rightarrow> \<not> m \<and> \<not> list_ex ttHasParam ts | _ \<Rightarrow> True)"

definition uniqOk :: "ty list \<Rightarrow> ty list \<Rightarrow> ty list \<Rightarrow> bool" where
  "uniqOk xs es fs \<longleftrightarrow> distinct (map erase xs) \<and> distinct (map erase es) \<and> distinct (map erase fs) \<and>
     (\<forall>c \<in> set es \<union> set fs. \<not> ttHasParam c) \<and>
     (\<forall>c \<in> set xs. plain c)"

definition shadowOk :: "ty list \<Rightarrow> ty list \<Rightarrow> bool" where
  "shadowOk A xs \<longleftrightarrow> (\<forall>c \<in> set xs. \<forall>b. shadows b c \<longrightarrow>
     (\<exists>q s ts m x. c = TGeneric q s ts True (Some b) \<and> b < length A \<and> A ! b = TGeneric b s ts m x))"

definition baseOk :: "typeTable \<Rightarrow> bool" where
  "baseOk T \<longleftrightarrow> (\<exists>p. tt_void T = TVoid p) \<and> node T (tt_void T) \<and> (\<exists>p. tt_error T = TErr p) \<and> node T (tt_error T) \<and>
     (\<forall>t \<in> set (tt_builtins T). node T t \<and> (\<exists>p n. t = TBuiltin p n)) \<and>
     (\<forall>p q n. TBuiltin p n \<in> set (tt_builtins T) \<longrightarrow> TBuiltin q n \<in> set (tt_builtins T) \<longrightarrow> p = q) \<and>
     (\<forall>s t. sd_type (tt_sdef T s) = Some t \<longrightarrow> node T t \<and> (\<exists>p. t = TStruct p s)) \<and>
     (\<forall>e t. td_type (tt_edef T e) = Some t \<longrightarrow> node T t \<and> (\<exists>p. t = TEnum p e []))"

definition tblOk :: "typeTable \<Rightarrow> bool" where
  "tblOk T \<longleftrightarrow> storedOk T \<and> uniqOk (tt_instances T) (tt_enumInstances T) (tt_fnTypes T) \<and>
     shadowOk (tt_arena T) (tt_viewShadows T) \<and> baseOk T"

section \<open>Equality\<close>

lemma canon_same: "node T a \<Longrightarrow> node T b \<Longrightarrow> adrOf a = adrOf b \<Longrightarrow> a = b"
  by (metis node_def)

lemma list_all2_erase:
  "(\<And>a b. a \<in> set ts \<Longrightarrow> canon T a \<Longrightarrow> canon T b \<Longrightarrow> ttEquals a b \<longleftrightarrow> erase a = erase b) \<Longrightarrow>
   list_all (canon T) ts \<Longrightarrow> list_all (canon T) us \<Longrightarrow> list_all2 ttEquals ts us \<longleftrightarrow> map erase ts = map erase us"
proof (induction ts arbitrary: us)
  case (Cons t ts)
  then show ?case by (cases us) auto
qed auto

lemma canon_builtin: "tblOk T \<Longrightarrow> canon T (TBuiltin p n) \<Longrightarrow> canon T (TBuiltin q n) \<Longrightarrow> p = q"
  unfolding tblOk_def baseOk_def canon.simps by blast

lemma ttEquals_ptr: "adrOf a = adrOf b \<Longrightarrow> ttEquals a b"
  by (cases a) auto

lemma ttEquals_refl [simp]: "ttEquals a a"
  by (rule ttEquals_ptr) simp

lemma canon_ptr: "canon T a \<Longrightarrow> canon T b \<Longrightarrow> adrOf a = adrOf b \<Longrightarrow> a = b"
  using canon_same canon_node by blast

text \<open>Nodes at different addresses are compared by shape; the nodes of an interned kind then differ.\<close>

lemma apart_erase:
  assumes "tblOk T" "canon T a" "canon T b" "adrOf a \<noteq> adrOf b"
  shows "(\<exists>p. a = TVoid p) \<or> (\<exists>p n. a = TBuiltin p n) \<or> (\<exists>p s. a = TStruct p s) \<or> (\<exists>p. a = TErr p) \<Longrightarrow>
    erase a \<noteq> erase b"
  using assms canon_builtin[OF assms(1)] by (cases b) auto

lemma ptr_erase: "canon T a \<Longrightarrow> canon T b \<Longrightarrow> adrOf a = adrOf b \<Longrightarrow> ttEquals a b \<longleftrightarrow> erase a = erase b"
  using canon_ptr ttEquals_refl by metis

lemma apart_equals:
  assumes "tblOk T" "canon T a" "canon T b" "adrOf a \<noteq> adrOf b" "\<not> ttEquals a b"
    "(\<exists>p. a = TVoid p) \<or> (\<exists>p n. a = TBuiltin p n) \<or> (\<exists>p s. a = TStruct p s) \<or> (\<exists>p. a = TErr p)"
  shows "ttEquals a b \<longleftrightarrow> erase a = erase b"
  using apart_erase[OF assms(1-4,6)] assms(5) by simp

theorem ttEquals_erase:
  assumes T: "tblOk T"
  shows "canon T a \<Longrightarrow> canon T b \<Longrightarrow> ttEquals a b \<longleftrightarrow> erase a = erase b"
proof (induction a arbitrary: b)
  case (TEnum p e ts)
  then show ?case using ptr_erase[OF TEnum.prems] list_all2_erase[of ts T] by (cases "p = adrOf b"; cases b) auto
next
  case (TGeneric p s ts m x)
  then show ?case using ptr_erase[OF TGeneric.prems] list_all2_erase[of ts T] by (cases "p = adrOf b"; cases b) auto
next
  case (TFn p ts r)
  then show ?case using ptr_erase[OF TFn.prems] list_all2_erase[of ts T] by (cases "p = adrOf b"; cases b) auto
next
  case (TRef p t nu m)
  then show ?case using ptr_erase[OF TRef.prems] by (cases "p = adrOf b"; cases b) auto
next
  case (TArray p n t)
  then show ?case using ptr_erase[OF TArray.prems] by (cases "p = adrOf b"; cases b) auto
next
  case (TParam p n i)
  then show ?case using ptr_erase[OF TParam.prems] by (cases "p = adrOf b"; cases b) auto
next
  case (TDyn p n)
  then show ?case using ptr_erase[OF TDyn.prems] by (cases "p = adrOf b"; cases b) auto
next
  case (TVoid p)
  then show ?case using ptr_erase[OF TVoid.prems] apart_equals[OF T TVoid.prems] by (cases "p = adrOf b") simp_all
next
  case (TBuiltin p n)
  then show ?case using ptr_erase[OF TBuiltin.prems] apart_equals[OF T TBuiltin.prems] by (cases "p = adrOf b") simp_all
next
  case (TStruct p s)
  then show ?case using ptr_erase[OF TStruct.prems] apart_equals[OF T TStruct.prems] by (cases "p = adrOf b") simp_all
next
  case (TErr p)
  then show ?case using ptr_erase[OF TErr.prems] apart_equals[OF T TErr.prems] by (cases "p = adrOf b") simp_all
qed simp

end
