(* ===== verification/Types_Build.thy ===== *)
theory Types_Build
  imports Types_Wf
begin

text \<open>Every operation of the type table builds a canonical node of the shape its arguments say, in a
  table that has only grown.\<close>

section \<open>Growing tables\<close>

definition prefixOf :: "'a list \<Rightarrow> 'a list \<Rightarrow> bool" where
  "prefixOf xs ys \<longleftrightarrow> (\<exists>zs. ys = xs @ zs)"

lemma prefixOf_refl [simp]: "prefixOf xs xs" by (simp add: prefixOf_def)
lemma prefixOf_append [simp]: "prefixOf xs (xs @ zs)" by (simp add: prefixOf_def)
lemma prefixOf_trans: "prefixOf xs ys \<Longrightarrow> prefixOf ys zs \<Longrightarrow> prefixOf xs zs" by (auto simp: prefixOf_def)

definition sdGrows :: "structDef \<Rightarrow> structDef \<Rightarrow> bool" where
  "sdGrows d d' \<longleftrightarrow> d'\<lparr>sd_type := None\<rparr> = d\<lparr>sd_type := None\<rparr> \<and> (sd_type d \<noteq> None \<longrightarrow> sd_type d' = sd_type d)"

definition tdGrows :: "typeDef \<Rightarrow> typeDef \<Rightarrow> bool" where
  "tdGrows d d' \<longleftrightarrow> d'\<lparr>td_type := None\<rparr> = d\<lparr>td_type := None\<rparr> \<and> (td_type d \<noteq> None \<longrightarrow> td_type d' = td_type d)"

definition ext :: "typeTable \<Rightarrow> typeTable \<Rightarrow> bool" where
  "ext T T' \<longleftrightarrow> prefixOf (tt_arena T) (tt_arena T') \<and> tt_builtins T' = tt_builtins T \<and>
     tt_void T' = tt_void T \<and> tt_error T' = tt_error T \<and> tt_structs T' = tt_structs T \<and>
     tt_enums T' = tt_enums T \<and> tt_aliases T' = tt_aliases T \<and> tt_mholder T' = tt_mholder T \<and>
     (\<forall>s. sdGrows (tt_sdef T s) (tt_sdef T' s)) \<and> (\<forall>e. tdGrows (tt_edef T e) (tt_edef T' e)) \<and>
     prefixOf (tt_instances T) (tt_instances T') \<and> prefixOf (tt_enumInstances T) (tt_enumInstances T') \<and>
     prefixOf (tt_viewShadows T) (tt_viewShadows T') \<and> prefixOf (tt_fnTypes T) (tt_fnTypes T')"

lemma sdGrows_refl [simp]: "sdGrows d d" by (simp add: sdGrows_def)
lemma tdGrows_refl [simp]: "tdGrows d d" by (simp add: tdGrows_def)

lemma sdGrows_trans: "sdGrows a b \<Longrightarrow> sdGrows b c \<Longrightarrow> sdGrows a c" by (auto simp: sdGrows_def)
lemma tdGrows_trans: "tdGrows a b \<Longrightarrow> tdGrows b c \<Longrightarrow> tdGrows a c" by (auto simp: tdGrows_def)

lemma sdGrows_fields:
  assumes "sdGrows d d'"
  shows "sd_name d' = sd_name d" "sd_params d' = sd_params d" "sd_frozen d' = sd_frozen d"
    "sd_methods d' = sd_methods d" "sd_srcName d' = sd_srcName d" "sd_type d = Some t \<Longrightarrow> sd_type d' = Some t"
    "sd_fields d' = sd_fields d"
proof -
  have e: "d'\<lparr>sd_type := None\<rparr> = d\<lparr>sd_type := None\<rparr>" using assms by (simp add: sdGrows_def)
  show "sd_name d' = sd_name d" using arg_cong[OF e, of sd_name] by simp
  show "sd_params d' = sd_params d" using arg_cong[OF e, of sd_params] by simp
  show "sd_frozen d' = sd_frozen d" using arg_cong[OF e, of sd_frozen] by simp
  show "sd_methods d' = sd_methods d" using arg_cong[OF e, of sd_methods] by simp
  show "sd_fields d' = sd_fields d" using arg_cong[OF e, of sd_fields] by simp
  show "sd_srcName d' = sd_srcName d" using arg_cong[OF e, of sd_srcName] by simp
  show "sd_type d = Some t \<Longrightarrow> sd_type d' = Some t" using assms by (simp add: sdGrows_def)
qed

lemma tdGrows_fields:
  assumes "tdGrows d d'"
  shows "td_name d' = td_name d" "td_params d' = td_params d" "td_variants d' = td_variants d"
    "td_srcName d' = td_srcName d" "td_type d = Some t \<Longrightarrow> td_type d' = Some t"
proof -
  have e: "d'\<lparr>td_type := None\<rparr> = d\<lparr>td_type := None\<rparr>" using assms by (simp add: tdGrows_def)
  show "td_name d' = td_name d" using arg_cong[OF e, of td_name] by simp
  show "td_params d' = td_params d" using arg_cong[OF e, of td_params] by simp
  show "td_variants d' = td_variants d" using arg_cong[OF e, of td_variants] by simp
  show "td_srcName d' = td_srcName d" using arg_cong[OF e, of td_srcName] by simp
  show "td_type d = Some t \<Longrightarrow> td_type d' = Some t" using assms by (simp add: tdGrows_def)
qed

lemma ext_refl [simp]: "ext T T" by (simp add: ext_def)

lemma ext_trans: "ext A B \<Longrightarrow> ext B C \<Longrightarrow> ext A C"
  unfolding ext_def
  by (elim conjE, intro conjI allI) (simp | blast intro: prefixOf_trans sdGrows_trans tdGrows_trans)+

lemma extD:
  assumes "ext T T'"
  shows "tt_builtins T' = tt_builtins T" "tt_void T' = tt_void T" "tt_error T' = tt_error T"
    "tt_structs T' = tt_structs T" "tt_enums T' = tt_enums T" "tt_aliases T' = tt_aliases T"
    "tt_mholder T' = tt_mholder T" "sdGrows (tt_sdef T s) (tt_sdef T' s)" "tdGrows (tt_edef T e) (tt_edef T' e)"
  using assms unfolding ext_def by blast+

lemma ext_node: "ext T T' \<Longrightarrow> node T t \<Longrightarrow> node T' t"
  by (auto simp: ext_def prefixOf_def node_def nth_append)

lemma ext_canon: "ext T T' \<Longrightarrow> canon T t \<Longrightarrow> canon T' t"
proof (induction t)
  case (TStruct p s)
  then show ?case using ext_node extD(8)[of T T' s] by (auto dest: sdGrows_fields(6))
qed (auto simp: ext_node extD list_all_iff)

lemma ext_canons: "ext T T' \<Longrightarrow> list_all (canon T) ts \<Longrightarrow> list_all (canon T') ts"
  using ext_canon by (auto simp: list_all_iff)

section \<open>New nodes\<close>

lemma canon_cong:
  "tt_arena T' = tt_arena T \<Longrightarrow> tt_void T' = tt_void T \<Longrightarrow> tt_error T' = tt_error T \<Longrightarrow>
   tt_builtins T' = tt_builtins T \<Longrightarrow> tt_sdef T' = tt_sdef T \<Longrightarrow> canon T' t = canon T t"
  by (induction t) (auto simp: node_def list_all_iff)

lemma canon_upd [simp]:
  "canon (T\<lparr>tt_instances := a\<rparr>) t = canon T t" "canon (T\<lparr>tt_enumInstances := a\<rparr>) t = canon T t"
  "canon (T\<lparr>tt_viewShadows := a\<rparr>) t = canon T t" "canon (T\<lparr>tt_fnTypes := a\<rparr>) t = canon T t"
  "canon (T\<lparr>tt_err := er\<rparr>) t = canon T t" "canon (T\<lparr>tt_edef := ed\<rparr>) t = canon T t"
  by (rule canon_cong; simp)+

lemma canon_upd_fun [simp]:
  "canon (T\<lparr>tt_instances := a\<rparr>) = canon T" "canon (T\<lparr>tt_enumInstances := a\<rparr>) = canon T"
  "canon (T\<lparr>tt_viewShadows := a\<rparr>) = canon T" "canon (T\<lparr>tt_fnTypes := a\<rparr>) = canon T"
  "canon (T\<lparr>tt_err := er\<rparr>) = canon T" "canon (T\<lparr>tt_edef := ed\<rparr>) = canon T"
  by (rule ext; simp)+

lemma node_upd [simp]:
  "node (T\<lparr>tt_instances := a\<rparr>) t = node T t" "node (T\<lparr>tt_enumInstances := a\<rparr>) t = node T t"
  "node (T\<lparr>tt_viewShadows := a\<rparr>) t = node T t" "node (T\<lparr>tt_fnTypes := a\<rparr>) t = node T t"
  "node (T\<lparr>tt_err := er\<rparr>) t = node T t" "node (T\<lparr>tt_edef := ed\<rparr>) t = node T t"
  "node (T\<lparr>tt_sdef := sd\<rparr>) t = node T t"
  by (simp_all add: node_def)

text \<open>The table after one more node.\<close>

abbreviation grow :: "typeTable \<Rightarrow> ty \<Rightarrow> typeTable" where
  "grow T t \<equiv> T\<lparr>tt_arena := tt_arena T @ [t]\<rparr>"

lemma mkNode_eq: "mkNode mk T = (mk (length (tt_arena T)), grow T (mk (length (tt_arena T))))"
  by (simp add: mkNode_def Let_def)

lemma ext_grow: "ext T (grow T t)" by (simp add: ext_def)

lemma node_grow [simp]: "adrOf t = length (tt_arena T) \<Longrightarrow> node (grow T t) t" by (simp add: node_def)

lemma shadowOk_grow: "shadowOk A xs \<Longrightarrow> shadowOk (A @ ys) xs"
  unfolding shadowOk_def by (metis length_append nth_append trans_less_add1)

lemma baseOk_ext:
  assumes "baseOk T" "ext T T'"
    "\<And>s t. sd_type (tt_sdef T' s) = Some t \<Longrightarrow> sd_type (tt_sdef T s) = Some t \<or> node T' t \<and> (\<exists>p. t = TStruct p s)"
    "\<And>e t. td_type (tt_edef T' e) = Some t \<Longrightarrow> td_type (tt_edef T e) = Some t \<or> node T' t \<and> (\<exists>p. t = TEnum p e [])"
  shows "baseOk T'"
  using assms(1,3,4) ext_node[OF assms(2)] unfolding baseOk_def extD[OF assms(2)] by metis

lemma storedOk_ext:
  assumes "storedOk T" "ext T T'" "tt_instances T' = tt_instances T" "tt_enumInstances T' = tt_enumInstances T"
    "tt_viewShadows T' = tt_viewShadows T" "tt_fnTypes T' = tt_fnTypes T"
  shows "storedOk T'"
  using assms(1) ext_canon[OF assms(2)] unfolding storedOk_def assms(3-6) by blast

lemma tblOk_grow: "tblOk T \<Longrightarrow> tblOk (grow T t)"
  using baseOk_ext[OF _ ext_grow] storedOk_ext[OF _ ext_grow] shadowOk_grow by (simp add: tblOk_def)

section \<open>What an operation builds\<close>

definition builds :: "typeTable \<Rightarrow> ty \<times> typeTable \<Rightarrow> ty \<Rightarrow> bool" where
  "builds T r g \<longleftrightarrow> tblOk (snd r) \<and> ext T (snd r) \<and> canon (snd r) (fst r) \<and> erase (fst r) = g \<and>
     tt_err (snd r) = tt_err T"

lemma buildsD:
  "builds T (t, T') g \<Longrightarrow> tblOk T' \<and> ext T T' \<and> canon T' t \<and> erase t = g \<and> tt_err T' = tt_err T"
  by (simp add: builds_def)

lemma builds_old: "tblOk T \<Longrightarrow> canon T t \<Longrightarrow> erase t = g \<Longrightarrow> builds T (t, T) g"
  by (simp add: builds_def)

lemma builds_ext: "ext S T \<Longrightarrow> tt_err T = tt_err S \<Longrightarrow> builds T r g \<Longrightarrow> builds S r g"
  using ext_trans by (auto simp: builds_def)

lemma builds_node:
  assumes "tblOk T" "adrOf t = length (tt_arena T)" "canon (grow T t) t" "erase t = g"
  shows "builds T (t, grow T t) g"
  using assms tblOk_grow ext_grow by (simp add: builds_def)

lemma baseOk_upd [simp]:
  "baseOk (T\<lparr>tt_instances := a\<rparr>) = baseOk T" "baseOk (T\<lparr>tt_enumInstances := a\<rparr>) = baseOk T"
  "baseOk (T\<lparr>tt_viewShadows := a\<rparr>) = baseOk T" "baseOk (T\<lparr>tt_fnTypes := a\<rparr>) = baseOk T"
  "baseOk (T\<lparr>tt_err := er\<rparr>) = baseOk T"
  by (simp_all add: baseOk_def)

definition freshIn :: "ty \<Rightarrow> ty list \<Rightarrow> bool" where
  "freshIn g xs \<longleftrightarrow> g \<notin> erase ` set xs"

lemma uniqOk_push:
  assumes "uniqOk xs es fs"
  shows "freshIn (erase t) xs \<Longrightarrow> plain t \<Longrightarrow> uniqOk (xs @ [t]) es fs"
    "freshIn (erase t) es \<Longrightarrow> \<not> ttHasParam t \<Longrightarrow> uniqOk xs (es @ [t]) fs"
    "freshIn (erase t) fs \<Longrightarrow> \<not> ttHasParam t \<Longrightarrow> uniqOk xs es (fs @ [t])"
  using assms by (auto simp: uniqOk_def freshIn_def)

lemma storedOk_push:
  assumes "storedOk T" "canon T t"
  shows "storedOk (T\<lparr>tt_instances := tt_instances T @ [t]\<rparr>)" "storedOk (T\<lparr>tt_enumInstances := tt_enumInstances T @ [t]\<rparr>)"
    "storedOk (T\<lparr>tt_viewShadows := tt_viewShadows T @ [t]\<rparr>)" "storedOk (T\<lparr>tt_fnTypes := tt_fnTypes T @ [t]\<rparr>)"
  using assms by (auto simp: storedOk_def)

lemma tblOk_push:
  assumes "tblOk T" "canon T t"
  shows "freshIn (erase t) (tt_instances T) \<Longrightarrow> plain t \<Longrightarrow> tblOk (T\<lparr>tt_instances := tt_instances T @ [t]\<rparr>)"
    "freshIn (erase t) (tt_enumInstances T) \<Longrightarrow> \<not> ttHasParam t \<Longrightarrow>
      tblOk (T\<lparr>tt_enumInstances := tt_enumInstances T @ [t]\<rparr>)"
    "freshIn (erase t) (tt_fnTypes T) \<Longrightarrow> \<not> ttHasParam t \<Longrightarrow> tblOk (T\<lparr>tt_fnTypes := tt_fnTypes T @ [t]\<rparr>)"
  using assms uniqOk_push storedOk_push[of T t] by (simp_all add: tblOk_def)

lemma tblOk_push_shadow:
  assumes "tblOk T" "canon T (TGeneric q s ts True (Some p))" "node T (TGeneric p s ts m x)"
  shows "tblOk (T\<lparr>tt_viewShadows := tt_viewShadows T @ [TGeneric q s ts True (Some p)]\<rparr>)"
  using assms storedOk_push(3)[OF _ assms(2)] by (auto simp: tblOk_def shadowOk_def node_def shadows_def)

lemma ext_push:
  "ext T (T\<lparr>tt_instances := tt_instances T @ [t]\<rparr>)" "ext T (T\<lparr>tt_enumInstances := tt_enumInstances T @ [t]\<rparr>)"
  "ext T (T\<lparr>tt_fnTypes := tt_fnTypes T @ [t]\<rparr>)" "ext T (T\<lparr>tt_viewShadows := tt_viewShadows T @ [t]\<rparr>)"
  by (simp_all add: ext_def)

text \<open>A new node that is also entered into one of the tables of instances.\<close>

lemma builds_push:
  assumes "builds T (t, T1) g"
  shows "freshIn g (tt_instances T1) \<Longrightarrow> plain t \<Longrightarrow> builds T (t, T1\<lparr>tt_instances := tt_instances T1 @ [t]\<rparr>) g"
    "freshIn g (tt_enumInstances T1) \<Longrightarrow> \<not> ttHasParam t \<Longrightarrow>
      builds T (t, T1\<lparr>tt_enumInstances := tt_enumInstances T1 @ [t]\<rparr>) g"
    "freshIn g (tt_fnTypes T1) \<Longrightarrow> \<not> ttHasParam t \<Longrightarrow>
      builds T (t, T1\<lparr>tt_fnTypes := tt_fnTypes T1 @ [t]\<rparr>) g"
  using assms tblOk_push[of T1 t] ext_push[of T1 t] ext_trans[of T T1] by (simp_all add: builds_def)

lemma builds_push_shadow:
  assumes "builds T (TGeneric q s ts True (Some p), T1) g" "node T1 (TGeneric p s ts m x)"
  shows "builds T (TGeneric q s ts True (Some p), T1\<lparr>tt_viewShadows := tt_viewShadows T1 @ [TGeneric q s ts True (Some p)]\<rparr>) g"
  using assms tblOk_push_shadow[of T1 q s ts p m x] ext_push(4)[of T1] ext_trans[of T T1] by (simp add: builds_def)

text \<open>A node that is found again.\<close>

lemma find_mem: "List.find P xs = Some c \<Longrightarrow> c \<in> set xs \<and> P c"
  by (auto simp: find_Some_iff)

lemma tblOk_canon:
  assumes "tblOk T"
  shows "c \<in> set (tt_instances T) \<Longrightarrow> canon T c" "c \<in> set (tt_enumInstances T) \<Longrightarrow> canon T c"
    "c \<in> set (tt_viewShadows T) \<Longrightarrow> canon T c" "c \<in> set (tt_fnTypes T) \<Longrightarrow> canon T c"
  using assms unfolding tblOk_def storedOk_def by blast+

lemma ttEquals_list:
  assumes "tblOk T" "list_all (canon T) ts" "list_all (canon T) us"
  shows "list_all2 ttEquals ts us \<longleftrightarrow> map erase ts = map erase us"
  by (rule list_all2_erase[OF _ assms(2,3)]) (rule ttEquals_erase[OF assms(1)])

lemma same_erase:
  assumes "tblOk T" "canon T c"
  shows "canon T e \<Longrightarrow> sameArray n e c \<longleftrightarrow> erase c = TArray 0 n (erase e)"
    "list_all (canon T) ts \<Longrightarrow> sameEnum d ts c \<longleftrightarrow> erase c = TEnum 0 d (map erase ts)"
    "list_all (canon T) ts \<Longrightarrow> canon T r \<Longrightarrow> sameFn ts r c \<longleftrightarrow> erase c = TFn 0 (map erase ts) (erase r)"
    "list_all (canon T) ts \<Longrightarrow> sameGeneric s ts c \<longleftrightarrow> (\<exists>m. erase c = TGeneric 0 s (map erase ts) m None)"
  using assms ttEquals_erase[OF assms(1)] ttEquals_list[OF assms(1)]
  by (cases c; auto simp: sameArray_def sameEnum_def sameFn_def sameGeneric_def)+

text \<open>Searching a table of instances for a shape: it is found, or it does not occur.\<close>

definition searched :: "(ty \<Rightarrow> bool) \<Rightarrow> ty list \<Rightarrow> ty \<Rightarrow> bool" where
  "searched P xs g \<longleftrightarrow> (case List.find P xs of Some c \<Rightarrow> c \<in> set xs \<and> erase c = g | None \<Rightarrow> freshIn g xs)"

lemma find_shape: "(\<And>c. c \<in> set xs \<Longrightarrow> P c \<longleftrightarrow> erase c = g) \<Longrightarrow> searched P xs g"
  by (auto simp: searched_def find_None_iff find_Some_iff freshIn_def split: option.split)

section \<open>The constructors\<close>

lemma typeParam_builds: "tblOk T \<Longrightarrow> builds T (typeParam n i T) (TParam 0 n i)"
  unfolding typeParam_def mkNode_eq by (rule builds_node) simp_all

lemma refLike_builds: "tblOk T \<Longrightarrow> canon T t \<Longrightarrow> builds T (refLike nu m t T) (TRef 0 (erase t) nu m)"
  unfolding refLike_def mkNode_eq by (rule builds_node) (use ext_canon[OF ext_grow] in simp_all)

lemma ttRef_builds: "tblOk T \<Longrightarrow> canon T t \<Longrightarrow> builds T (ttRef t T) (TRef 0 (erase t) False False)"
  unfolding ttRef_def mkNode_eq by (rule builds_node) (use ext_canon[OF ext_grow] in simp_all)

text \<open>Interning: the node found, or a new one that is entered.\<close>

lemma intern_builds:
  assumes "tblOk T" "searched P xs g" "\<And>c. c \<in> set xs \<Longrightarrow> canon T c" "freshIn g xs \<Longrightarrow> builds T (t, T') g"
  shows "builds T (case List.find P xs of Some c \<Rightarrow> (c, T) | None \<Rightarrow> (t, T')) g"
  using assms builds_old[OF assms(1)] by (auto simp: searched_def split: option.splits)

lemma ttArray_builds:
  assumes T: "tblOk T" and t: "canon T t"
  shows "builds T (ttArray n t T) (TArray 0 n (erase t))"
proof -
  let ?t = "TArray (length (tt_arena T)) n t" and ?g = "TArray 0 n (erase t)"
  have new: "builds T (?t, grow T ?t) ?g"
    by (rule builds_node) (use T t ext_canon[OF ext_grow] in simp_all)
  have "searched (sameArray n t) (tt_instances T) ?g"
    by (rule find_shape) (rule same_erase(1)[OF T tblOk_canon(1)[OF T] t])
  from intern_builds[OF T this tblOk_canon(1)[OF T] builds_push(1)[OF new]] show ?thesis
    unfolding ttArray_def mkNode_eq Let_def prod.case by (simp add: plain_def)
qed

lemma ttEnumGeneric_builds:
  assumes T: "tblOk T" and ts: "list_all (canon T) ts"
  shows "builds T (ttEnumGeneric e ts T) (TEnum 0 e (map erase ts))"
proof -
  let ?t = "TEnum (length (tt_arena T)) e ts" and ?g = "TEnum 0 e (map erase ts)"
  have new: "builds T (?t, grow T ?t) ?g"
    by (rule builds_node) (use T ts ext_canons[OF ext_grow] in simp_all)
  have "searched (sameEnum e ts) (tt_enumInstances T) ?g"
    by (rule find_shape) (rule same_erase(2)[OF T tblOk_canon(2)[OF T] ts])
  from intern_builds[OF T this tblOk_canon(2)[OF T] builds_push(2)[OF new]] new show ?thesis
    unfolding ttEnumGeneric_def mkNode_eq Let_def prod.case by (cases "list_ex ttHasParam ts") simp_all
qed

lemma ttFn_builds:
  assumes T: "tblOk T" and ts: "list_all (canon T) ts" and r: "canon T r"
  shows "builds T (ttFn ts (Some r) T) (TFn 0 (map erase ts) (erase r))"
proof -
  let ?t = "TFn (length (tt_arena T)) ts r" and ?g = "TFn 0 (map erase ts) (erase r)"
  have new: "builds T (?t, grow T ?t) ?g"
    by (rule builds_node) (use T ts r ext_canons[OF ext_grow] ext_canon[OF ext_grow] in simp_all)
  have "searched (sameFn ts r) (tt_fnTypes T) ?g"
    by (rule find_shape) (rule same_erase(3)[OF T tblOk_canon(4)[OF T] ts r])
  from intern_builds[OF T this tblOk_canon(4)[OF T] builds_push(3)[OF new]] new show ?thesis
    unfolding ttFn_def mkNode_eq Let_def prod.case option.case by (cases "ttHasParam r \<or> list_ex ttHasParam ts") auto
qed

lemma instance_plain:
  "tblOk T \<Longrightarrow> c \<in> set (tt_instances T) \<Longrightarrow> (\<exists>m. erase c = TGeneric 0 s ts m None) \<longleftrightarrow> erase c = TGeneric 0 s ts False None"
proof -
  assume "tblOk T" "c \<in> set (tt_instances T)"
  then have "plain c" unfolding tblOk_def uniqOk_def by blast
  then show ?thesis by (cases c) (auto simp: plain_def)
qed

lemma ttGeneric_builds:
  assumes T: "tblOk T" and ts: "list_all (canon T) ts"
  shows "builds T (ttGeneric s ts T) (TGeneric 0 s (map erase ts) False None)"
proof -
  let ?t = "TGeneric (length (tt_arena T)) s ts False None" and ?g = "TGeneric 0 s (map erase ts) False None"
  have new: "builds T (?t, grow T ?t) ?g"
    by (rule builds_node) (use T ts ext_canons[OF ext_grow] in simp_all)
  have "searched (sameGeneric s ts) (tt_instances T) ?g"
  proof (rule find_shape)
    fix c assume c: "c \<in> set (tt_instances T)"
    show "sameGeneric s ts c \<longleftrightarrow> erase c = ?g"
      unfolding same_erase(4)[OF T tblOk_canon(1)[OF T c] ts] by (rule instance_plain[OF T c])
  qed
  from intern_builds[OF T this tblOk_canon(1)[OF T] builds_push(1)[OF new]] new show ?thesis
    unfolding ttGeneric_def mkNode_eq Let_def prod.case by (cases "list_ex ttHasParam ts") (simp_all add: plain_def)
qed

section \<open>Nodes of declarations\<close>

lemma structNode_builds:
  assumes T: "tblOk T"
  shows "builds T (structNode s T) (TStruct 0 s)"
proof (cases "sd_type (tt_sdef T s)")
  case None
  let ?t = "TStruct (length (tt_arena T)) s"
  let ?T = "(grow T ?t)\<lparr>tt_sdef := (tt_sdef T)(s := (tt_sdef T s)\<lparr>sd_type := Some ?t\<rparr>)\<rparr>"
  have e: "ext T ?T" using None by (simp add: ext_def sdGrows_def)
  have n: "node ?T ?t" by (simp add: node_def)
  have "baseOk ?T" by (rule baseOk_ext[OF _ e]) (use T n in \<open>auto simp: tblOk_def split: if_splits\<close>)
  moreover have "storedOk ?T" by (rule storedOk_ext[OF _ e]) (use T in \<open>simp_all add: tblOk_def\<close>)
  ultimately have "tblOk ?T" using T shadowOk_grow by (simp add: tblOk_def)
  then show ?thesis using e n by (simp add: structNode_def None mkNode_eq Let_def builds_def)
next
  case (Some t)
  then have "node T t \<and> (\<exists>p. t = TStruct p s)" using T unfolding tblOk_def baseOk_def by blast
  then show ?thesis using Some T by (auto simp: structNode_def builds_def)
qed

lemma enumNode_builds:
  assumes T: "tblOk T"
  shows "builds T (enumNode e T) (TEnum 0 e [])"
proof (cases "td_type (tt_edef T e)")
  case None
  let ?t = "TEnum (length (tt_arena T)) e []"
  let ?T = "(grow T ?t)\<lparr>tt_edef := (tt_edef T)(e := (tt_edef T e)\<lparr>td_type := Some ?t\<rparr>)\<rparr>"
  have e: "ext T ?T" using None by (simp add: ext_def tdGrows_def)
  have n: "node ?T ?t" by (simp add: node_def)
  have "baseOk ?T" by (rule baseOk_ext[OF _ e]) (use T n in \<open>auto simp: tblOk_def split: if_splits\<close>)
  moreover have "storedOk ?T" by (rule storedOk_ext[OF _ e]) (use T in \<open>simp_all add: tblOk_def\<close>)
  ultimately have "tblOk ?T" using T shadowOk_grow by (simp add: tblOk_def)
  then show ?thesis using e n by (simp add: enumNode_def None mkNode_eq Let_def builds_def)
next
  case (Some t)
  then have "node T t \<and> (\<exists>p. t = TEnum p e [])" using T unfolding tblOk_def baseOk_def by blast
  then show ?thesis using Some T by (auto simp: enumNode_def builds_def)
qed

section \<open>Views\<close>

fun mutErased :: "bool \<Rightarrow> ty \<Rightarrow> ty" where
  "mutErased mu (TGeneric p s ts m x) = TGeneric p s ts (m \<or> mu) x"
| "mutErased mu t = t"

lemma ttViewMut_builds:
  assumes T: "tblOk T" and b: "canon T b"
  shows "builds T (ttViewMut b mu T) (mutErased mu (erase b))"
proof (cases "\<exists>p s ts x. b = TGeneric p s ts False x \<and> mu")
  case True
  then obtain p s ts x where b0: "b = TGeneric p s ts False x" and mu: "mu = True" by blast
  let ?t = "TGeneric (length (tt_arena T)) s ts True (Some p)"
  have N: "node T (TGeneric p s ts False x)" "list_all (canon T) ts" using b b0 by simp_all
  show ?thesis
  proof (cases "List.find (shadows p) (tt_viewShadows T)")
    case None
    have new: "builds T (?t, grow T ?t) (TGeneric 0 s (map erase ts) True None)"
      by (rule builds_node) (use T N ext_canons[OF ext_grow] in simp_all)
    from builds_push_shadow[OF this ext_node[OF ext_grow N(1)]] show ?thesis
      unfolding ttViewMut_def by (simp only: ty.case b0 mu None option.case mkNode_eq Let_def prod.case not_True_eq_False
        simp_thms if_False erase.simps mutErased.simps)
  next
    case (Some c)
    have c: "c \<in> set (tt_viewShadows T)" "shadows p c" using find_mem[OF Some] by simp_all
    then obtain q s' ts' m' x' where s: "c = TGeneric q s' ts' True (Some p)" "tt_arena T ! p = TGeneric p s' ts' m' x'"
      using T unfolding tblOk_def shadowOk_def by blast
    then have "s' = s" "ts' = ts" using N(1) by (simp_all add: node_def)
    then have "builds T (c, T) (TGeneric 0 s (map erase ts) True None)"
      using builds_old[OF T tblOk_canon(3)[OF T c(1)] refl] s(1) by simp
    then show ?thesis using Some by (simp add: ttViewMut_def b0 mu)
  qed
next
  case False
  then have "ttViewMut b mu T = (b, T)" "mutErased mu (erase b) = erase b"
    by (cases b; auto simp: ttViewMut_def)+
  then show ?thesis using builds_old[OF T b] by simp
qed

end
