(* ===== verification/Types_Subst.thy ===== *)
theory Types_Subst
  imports Types_Build
begin

text \<open>Substitution and the read-only form of a view, as functions on types without addresses, and the
  proof that the table's operations build what those functions say.\<close>

definition buildsL :: "typeTable \<Rightarrow> ty list \<times> typeTable \<Rightarrow> ty list \<Rightarrow> bool" where
  "buildsL T r gs \<longleftrightarrow> tblOk (snd r) \<and> ext T (snd r) \<and> list_all (canon (snd r)) (fst r) \<and> map erase (fst r) = gs \<and>
     tt_err (snd r) = tt_err T"

lemma buildsL_Nil: "tblOk T \<Longrightarrow> buildsL T ([], T) []"
  by (simp add: buildsL_def)

lemma buildsL_Cons:
  assumes "builds T (u, T1) g" "buildsL T1 (us, T2) gs"
  shows "buildsL T (u # us, T2) (g # gs)"
  using assms ext_canon[of T1 T2 u] ext_trans[of T T1 T2] by (simp add: builds_def buildsL_def)

lemma buildsL_then:
  assumes "buildsL T (us, T1) gs" "builds T1 r g"
  shows "builds T r g"
  by (rule builds_ext[OF _ _ assms(2)]) (use assms(1) in \<open>simp_all add: buildsL_def\<close>)

lemma buildsLD:
  "buildsL T (us, T') gs \<Longrightarrow> tblOk T' \<and> ext T T' \<and> list_all (canon T') us \<and> map erase us = gs \<and> tt_err T' = tt_err T"
  by (simp add: buildsL_def)

section \<open>Read-only views\<close>

fun roErased :: "ty \<Rightarrow> ty" where
  "roErased (TGeneric p s ts m x) = TGeneric p s (map roErased ts) False x"
| "roErased t = t"

lemma canon_map_adr:
  "list_all (canon T) us \<Longrightarrow> list_all (canon T) ts \<Longrightarrow> map adrOf us = map adrOf ts \<Longrightarrow> us = ts"
proof (induction us arbitrary: ts)
  case (Cons u us)
  then show ?case using canon_ptr[of T u] by (cases ts) auto
qed simp

lemma ttViewReadonly_builds:
  "tblOk T \<Longrightarrow> canon T t \<Longrightarrow> builds T (ttViewReadonly t T) (roErased (erase t))"
  "tblOk T \<Longrightarrow> list_all (canon T) ts \<Longrightarrow> buildsL T (ttViewReadonlys ts T) (map (\<lambda>t. roErased (erase t)) ts)"
proof (induction t T and ts T rule: ttViewReadonly_ttViewReadonlys.induct)
  case (1 p s ts m x T)
  obtain us T1 where r: "ttViewReadonlys ts T = (us, T1)" by fastforce
  have B: "buildsL T (us, T1) (map (\<lambda>t. roErased (erase t)) ts)" using 1 r by simp
  note D = buildsLD[OF B]
  show ?case
  proof (cases "m \<or> map adrOf us \<noteq> map adrOf ts")
    case True
    have "builds T1 (ttGeneric s us T1) (TGeneric 0 s (map erase us) False None)"
      by (rule ttGeneric_builds) (use D in simp_all)
    then show ?thesis using buildsL_then[OF B] D True r by (simp add: comp_def)
  next
    case False
    have ts: "list_all (canon T1) ts" "canon T1 (TGeneric p s ts m x)"
      using ext_canons[of T T1 ts] ext_canon[of T T1 "TGeneric p s ts m x"] D 1(3) by simp_all
    then have "us = ts" using canon_map_adr[of T1 us ts] D False by simp
    then have "map erase ts = map (\<lambda>t. roErased (erase t)) ts" using D by simp
    then show ?thesis using False r D ts by (simp add: builds_def comp_def)
  qed
next
  case (4 t ts T)
  obtain u T1 where u: "ttViewReadonly t T = (u, T1)" by fastforce
  obtain us T2 where us: "ttViewReadonlys ts T1 = (us, T2)" by fastforce
  have B: "builds T (u, T1) (roErased (erase t))" using 4 u by simp
  note D = buildsD[OF B]
  have "buildsL T1 (us, T2) (map (\<lambda>t. roErased (erase t)) ts)"
    using 4(2)[OF u[symmetric] refl] 4(4) D ext_canons[of T T1 ts] us by simp
  then show ?case using buildsL_Cons[OF B] u us by simp
qed (simp_all add: builds_old buildsL_Nil del: canon.simps)

lemma ttViewReadonly_same:
  "roErased (erase t) = erase t \<Longrightarrow> ttViewReadonly t T = (t, T)"
  "map (\<lambda>t. roErased (erase t)) ts = map erase ts \<Longrightarrow> ttViewReadonlys ts T = (ts, T)"
  by (induction t T and ts T rule: ttViewReadonly_ttViewReadonlys.induct) (simp_all add: comp_def)

lemma roErased_idem [simp]: "roErased (roErased t) = roErased t"
  by (induction t) auto

section \<open>Substitution\<close>

text \<open>The type a substitution denotes, in its own terms. A parameter stands for the argument at the
  first position its name has in the parameter list, and a name outside the list for itself. Only
  where two parameters got one argument, the short form \<open>coroutine<T>\<close>, does every other name stand
  for that argument.\<close>

definition argFor :: "string list \<Rightarrow> ty list \<Rightarrow> string \<Rightarrow> ty option" where
  "argFor ps as n = (case filter (\<lambda>k. ps ! k = n) [0..<min (length ps) (length as)] of
       k # _ \<Rightarrow> Some (as ! k)
     | [] \<Rightarrow> (case (ps, as) of ([_, _], [a]) \<Rightarrow> Some a | _ \<Rightarrow> None))"

fun substErased :: "string list \<Rightarrow> ty list \<Rightarrow> ty \<Rightarrow> ty" where
  "substErased ps as (TParam p n i) = (case argFor ps as n of Some a \<Rightarrow> a | None \<Rightarrow> TParam p n i)"
| "substErased ps as (TRef p t nu m) = TRef p (substErased ps as t) nu m"
| "substErased ps as (TArray p n t) = TArray p n (substErased ps as t)"
| "substErased ps as (TFn p ts r) = TFn p (map (substErased ps as) ts) (substErased ps as r)"
| "substErased ps as (TGeneric p s ts m x) = TGeneric p s (map (substErased ps as) ts) m x"
| "substErased ps as (TEnum p e ts) = TEnum p e (map (substErased ps as) ts)"
| "substErased ps as t = t"

lemma map_of_zip_filter:
  "map_of (zip ps as) n = (case filter (\<lambda>k. ps ! k = n) [0..<min (length ps) (length as)] of
     k # _ \<Rightarrow> Some (as ! k) | [] \<Rightarrow> None)"
proof (induction ps as rule: list_induct2')
  case (4 p ps a as)
  have "filter (\<lambda>k. (p # ps) ! k = n) [0..<min (length (p # ps)) (length (a # as))] =
      (if p = n then [0] else []) @ map Suc (filter (\<lambda>k. ps ! k = n) [0..<min (length ps) (length as)])"
    by (simp add: upt_conv_Cons map_Suc_upt[symmetric] filter_map comp_def del: upt_Suc)
  with 4 show ?case by (auto split: list.split)
qed simp_all

lemma lookupArg_argFor: "lookupArg ps as n = argFor ps as n"
proof -
  have l: "length ps = 2 \<longleftrightarrow> (\<exists>x y. ps = [x, y])" "length as = 1 \<longleftrightarrow> (\<exists>a. as = [a])"
    by (auto simp: length_Suc_conv numeral_2_eq_2)
  have "(if length ps = 2 \<and> length as = 1 then Some (as ! 0) else None) =
      (case (ps, as) of ([_, _], [a]) \<Rightarrow> Some a | _ \<Rightarrow> None)"
    using l by (auto split: list.split)
  then show ?thesis by (simp add: lookupArg_def argFor_def map_of_zip_filter split: list.split)
qed

lemma argFor_first: "k < length ps \<Longrightarrow> k < length as \<Longrightarrow> ps ! k \<notin> set (take k ps) \<Longrightarrow> argFor ps as (ps ! k) = Some (as ! k)"
proof -
  assume k: "k < length ps" "k < length as" "ps ! k \<notin> set (take k ps)"
  let ?m = "min (length ps) (length as)"
  have s: "[0..<?m] = [0..<k] @ k # [Suc k..<?m]" using k upt_add_eq_append[of 0 k "?m - k"] by (simp add: upt_conv_Cons)
  have "filter (\<lambda>j. ps ! j = ps ! k) [0..<k] = []" using k(1,3) by (auto simp: filter_empty_conv in_set_conv_nth)
  then show ?thesis unfolding argFor_def s by simp
qed

lemma argFor_other: "n \<notin> set ps \<Longrightarrow> length ps = length as \<Longrightarrow> argFor ps as n = None"
  unfolding lookupArg_argFor[symmetric] by (auto simp: lookupArg_def map_of_eq_None_iff dest: set_zip_leftD split: option.split)

lemma argFor_map: "argFor ps (map f as) n = map_option f (argFor ps as n)"
proof -
  have "map_of (zip ps (map f as)) n = map_option f (map_of (zip ps as) n)"
  proof (induction ps as rule: list_induct2')
    case (4 p ps a as)
    then show ?case by simp
  qed simp_all
  then show ?thesis unfolding lookupArg_argFor[symmetric] by (cases as) (auto simp: lookupArg_def split: option.split)
qed

lemma argFor_mem: "argFor ps as n = Some a \<Longrightarrow> a \<in> set as"
  unfolding lookupArg_argFor[symmetric]
  by (auto simp: lookupArg_def split: option.splits if_splits dest: map_of_SomeD set_zip_rightD)

lemma substGo_builds:
  "tblOk T \<Longrightarrow> list_all (canon T) as \<Longrightarrow> canon T t \<Longrightarrow>
     builds T (substGo ps as t T) (substErased ps (map erase as) (erase t))"
  "tblOk T \<Longrightarrow> list_all (canon T) as \<Longrightarrow> list_all (canon T) ts \<Longrightarrow>
     buildsL T (substGos ps as ts T) (map (\<lambda>t. substErased ps (map erase as) (erase t)) ts)"
proof (induction ps as t T and ps as ts T rule: substGo_substGos.induct)
  case (1 ps as p n i T)
  then show ?case
    by (auto simp: lookupArg_argFor argFor_map builds_def list_all_iff split: option.split dest: argFor_mem)
next
  case (2 ps as p t nu m T)
  obtain u T1 where u: "substGo ps as t T = (u, T1)" by fastforce
  have B: "builds T (u, T1) (substErased ps (map erase as) (erase t))" using 2 u by simp
  note D = buildsD[OF B]
  show ?case using builds_ext[OF _ _ refLike_builds[of T1 u nu m]] D u by simp
next
  case (3 ps as p n t T)
  obtain u T1 where u: "substGo ps as t T = (u, T1)" by fastforce
  have B: "builds T (u, T1) (substErased ps (map erase as) (erase t))" using 3 u by simp
  note D = buildsD[OF B]
  show ?case using builds_ext[OF _ _ ttArray_builds[of T1 u n]] D u by simp
next
  case (4 ps as p ts r T)
  obtain us T1 where us: "substGos ps as ts T = (us, T1)" by fastforce
  obtain s T2 where s: "substGo ps as r T1 = (s, T2)" by fastforce
  have B: "buildsL T (us, T1) (map (\<lambda>t. substErased ps (map erase as) (erase t)) ts)" using 4 us by simp
  note D = buildsLD[OF B]
  have C: "builds T1 (s, T2) (substErased ps (map erase as) (erase r))"
    using 4(2)[OF us[symmetric] refl] 4(4,5) D ext_canons[of T T1 as] ext_canon[of T T1 r] s by simp
  note E = buildsD[OF C]
  have "builds T2 (ttFn us (Some s) T2) (TFn 0 (map erase us) (erase s))"
    by (rule ttFn_builds) (use D E ext_canons[of T1 T2 us] in simp_all)
  then show ?case using builds_ext[of T T2] ext_trans[of T T1 T2] D E us s by (simp add: comp_def)
next
  case (5 ps as p s ts m x T)
  obtain us T1 where us: "substGos ps as ts T = (us, T1)" by fastforce
  have B: "buildsL T (us, T1) (map (\<lambda>t. substErased ps (map erase as) (erase t)) ts)" using 5 us by simp
  note D = buildsLD[OF B]
  obtain g T2 where g: "ttGeneric s us T1 = (g, T2)" by fastforce
  have C: "builds T1 (g, T2) (TGeneric 0 s (map erase us) False None)"
    using ttGeneric_builds[of T1 us s] D g by simp
  note E = buildsD[OF C]
  have "builds T2 (ttViewMut g m T2) (mutErased m (erase g))" by (rule ttViewMut_builds) (use E in simp_all)
  then show ?case using builds_ext[of T T2] ext_trans[of T T1 T2] D E us g by (simp add: comp_def)
next
  case (6 ps as p e ts T)
  obtain us T1 where us: "substGos ps as ts T = (us, T1)" by fastforce
  show ?case
  proof (cases "ts = []")
    case True
    then show ?thesis using 6 by (simp add: builds_def)
  next
    case False
    have B: "buildsL T (us, T1) (map (\<lambda>t. substErased ps (map erase as) (erase t)) ts)" using 6 us False by simp
    note D = buildsLD[OF B]
    have "builds T1 (ttEnumGeneric e us T1) (TEnum 0 e (map erase us))"
      by (rule ttEnumGeneric_builds) (use D in simp_all)
    then show ?thesis using buildsL_then[OF B] D us False by (simp add: comp_def)
  qed
next
  case (9 ps as t ts T)
  obtain u T1 where u: "substGo ps as t T = (u, T1)" by fastforce
  obtain us T2 where us: "substGos ps as ts T1 = (us, T2)" by fastforce
  have B: "builds T (u, T1) (substErased ps (map erase as) (erase t))" using 9 u by simp
  note D = buildsD[OF B]
  have "buildsL T1 (us, T2) (map (\<lambda>t. substErased ps (map erase as) (erase t)) ts)"
    using 9(2)[OF u[symmetric] refl] 9(4,5) D ext_canons[of T T1 ts] ext_canons[of T T1 as] us by simp
  then show ?case using buildsL_Cons[OF B] u us by simp
qed (simp_all add: builds_old buildsL_Nil del: canon.simps)

end
