(* ===== verification/Types_Views.thy ===== *)
theory Types_Views
  imports Types_Subst
begin

text \<open>Which types can be used for which: dropping the mut of views, widening of numbers, and the C names
  of types.\<close>

section \<open>Dropping mut\<close>

text \<open>The order on types without addresses: the same type, but the mut of a view, and of the views among
  its arguments, may be missing on the left.\<close>

fun weaker :: "ty \<Rightarrow> ty \<Rightarrow> bool" where
  "weaker (TGeneric p s ts m x) g \<longleftrightarrow> (case g of TGeneric _ s' us m' _ \<Rightarrow>
     s = s' \<and> (m \<longrightarrow> m') \<and> list_all2 weaker ts us | _ \<Rightarrow> False)"
| "weaker t g \<longleftrightarrow> t = g"

lemma weaker_refl [simp]: "weaker t t"
  by (induction t) (auto intro: list_all2_refl simp: list_all2_same)

lemma weaker_trans: "weaker a b \<Longrightarrow> weaker b c \<Longrightarrow> weaker a c"
proof (induction a arbitrary: b c)
  case (TGeneric p s ts m x)
  then obtain q us m' y where b: "b = TGeneric q s us m' y" "m \<longrightarrow> m'" "list_all2 weaker ts us"
    by (cases b) auto
  then obtain r vs m'' z where c: "c = TGeneric r s vs m'' z" "m' \<longrightarrow> m''" "list_all2 weaker us vs"
    using TGeneric.prems(2) by (cases c) auto
  have "list_all2 weaker ts vs" using b(3) c(3) TGeneric.IH
    by (auto simp: list_all2_conv_all_nth)
  then show ?case using b c by simp
qed auto

lemma weaker_erase_antisym: "weaker (erase a) (erase b) \<Longrightarrow> weaker (erase b) (erase a) \<Longrightarrow> erase a = erase b"
proof (induction a arbitrary: b)
  case (TGeneric p s ts m x)
  then obtain q us m' y where b: "b = TGeneric q s us m' y" "m = m'" "list_all2 weaker (map erase ts) (map erase us)"
    "list_all2 weaker (map erase us) (map erase ts)"
    by (cases b) auto
  have "map erase ts = map erase us"
  proof (rule nth_equalityI)
    fix i assume i: "i < length (map erase ts)"
    then have "erase (ts ! i) = erase (us ! i)"
      using TGeneric.IH[of "ts ! i" "us ! i"] b(3,4) by (auto simp: list_all2_conv_all_nth)
    then show "map erase ts ! i = map erase us ! i" using i b(3) by (auto simp: list_all2_conv_all_nth)
  qed (use b(3) in \<open>auto simp: list_all2_conv_all_nth\<close>)
  then show ?case using b by simp
qed auto

lemma weaker_of_eq: "erase a = erase b \<Longrightarrow> weaker (erase a) (erase b)"
  by simp

lemma downgradable_list:
  "(\<And>a b. a \<in> set ts \<Longrightarrow> canon T a \<Longrightarrow> canon T b \<Longrightarrow> ttViewDowngradable a b \<longleftrightarrow> weaker (erase a) (erase b)) \<Longrightarrow>
   list_all (canon T) ts \<Longrightarrow> list_all (canon T) us \<Longrightarrow>
   list_all2 ttViewDowngradable ts us \<longleftrightarrow> list_all2 weaker (map erase ts) (map erase us)"
proof (induction ts arbitrary: us)
  case (Cons t ts)
  then show ?case by (cases us) auto
qed auto

lemma ttViewDowngradable_weaker:
  assumes T: "tblOk T"
  shows "canon T a \<Longrightarrow> canon T b \<Longrightarrow> ttViewDowngradable a b \<longleftrightarrow> weaker (erase a) (erase b)"
proof (induction a arbitrary: b)
  case (TGeneric p s ts m x)
  note E = ttEquals_erase[OF T TGeneric.prems]
  show ?case
  proof (cases "ttEquals (TGeneric p s ts m x) b")
    case True
    then show ?thesis using E weaker_refl[of "erase b"] by (simp del: erase.simps weaker.simps)
  next
    case False
    then show ?thesis using TGeneric.prems downgradable_list[of ts T, OF TGeneric.IH]
      by (cases b) auto
  qed
qed (simp_all only: ttViewDowngradable.simps erase.simps weaker.simps ttEquals_erase[OF T])

lemma roErased_weaker: "weaker (roErased t) t"
proof (induction t)
  case (TGeneric p s ts m x)
  then show ?case by (auto simp: list_all2_conv_all_nth)
qed auto

section \<open>Names\<close>

lemma ttMangle_erase: "ttMangle T (erase t) = ttMangle T t"
  by (induction t) (simp_all add: comp_def cong: map_cong)

lemma ttMangle_weaker: "weaker a b \<Longrightarrow> ttMangle T a = ttMangle T b"
proof (induction a arbitrary: b)
  case (TGeneric p s ts m x)
  then obtain q us m' y where b: "b = TGeneric q s us m' y" "list_all2 weaker ts us" by (cases b) auto
  have "map (\<lambda>t. CHR ''_'' # ttMangle T t) ts = map (\<lambda>t. CHR ''_'' # ttMangle T t) us"
  proof (rule nth_equalityI)
    fix i assume "i < length (map (\<lambda>t. CHR ''_'' # ttMangle T t) ts)"
    then show "map (\<lambda>t. CHR ''_'' # ttMangle T t) ts ! i = map (\<lambda>t. CHR ''_'' # ttMangle T t) us ! i"
      using TGeneric.IH[of "ts ! i" "us ! i"] b(2) by (auto simp: list_all2_conv_all_nth)
  qed (use b(2) in \<open>auto simp: list_all2_conv_all_nth\<close>)
  then show ?case using b(1) by simp
qed auto

lemma ttMangle_downgradable:
  assumes "tblOk T" "canon T a" "canon T b" "ttViewDowngradable a b"
  shows "ttMangle T a = ttMangle T b"
  using ttMangle_weaker[of "erase a" "erase b" T] ttViewDowngradable_weaker[OF assms(1-3)] assms(4)
  by (simp add: ttMangle_erase)

section \<open>Parameters\<close>

fun paramsOf :: "ty \<Rightarrow> string set" where
  "paramsOf (TParam _ n _) = {n}"
| "paramsOf (TRef _ t _ _) = paramsOf t"
| "paramsOf (TArray _ _ t) = paramsOf t"
| "paramsOf (TFn _ ts r) = (\<Union>t\<in>set ts. paramsOf t) \<union> paramsOf r"
| "paramsOf (TGeneric _ _ ts _ _) = (\<Union>t\<in>set ts. paramsOf t)"
| "paramsOf (TEnum _ _ ts) = (\<Union>t\<in>set ts. paramsOf t)"
| "paramsOf _ = {}"

lemma ttHasParam_iff: "ttHasParam t \<longleftrightarrow> paramsOf t \<noteq> {}"
  by (induction t) (auto simp: list_ex_iff)

lemma paramsOf_erase: "paramsOf (erase t) = paramsOf t"
  by (induction t) auto

lemma paramsOf_subst:
  assumes "length ps = length as" "\<forall>a\<in>set as. paramsOf a = {}"
  shows "paramsOf t \<subseteq> set ps \<Longrightarrow> paramsOf (substErased ps as t) = {}"
proof (induction t)
  case (TParam p n i)
  then have "n \<in> fst ` set (zip ps as)" using assms(1) by (metis insert_subset paramsOf.simps(1) map_fst_zip set_map)
  then obtain a where "map_of (zip ps as) n = Some a" by (metis map_of_eq_None_iff option.exhaust)
  moreover then have "a \<in> set as" by (auto dest: map_of_SomeD set_zip_rightD)
  ultimately show ?case using assms(2) by (simp add: lookupArg_argFor[symmetric] lookupArg_def)
qed auto

lemma substErased_closed: "paramsOf t = {} \<Longrightarrow> substErased ps as t = t"
  by (induction t) (auto simp: map_idI)

end
