(* ===== verification/Types_Resolve.thy ===== *)
theory Types_Resolve
  imports Types_Views
begin

text \<open>Resolution as a function from the written type to a type without addresses, and the proof that
  \<open>ttResolve\<close> builds what it says whatever the table already holds.\<close>

section \<open>The type a spelling denotes\<close>

text \<open>What a name declares: \<open>void\<close>, a built-in type, then a struct of that name, then an enum. This and
  the definitions up to \<open>resErased\<close> use none of the functions that \<open>ttResolve\<close> is made of.\<close>

definition nameErased :: "typeTable \<Rightarrow> string \<Rightarrow> ty option" where
  "nameErased T n = (if n = ''void'' then Some (TVoid 0)
     else if TBuiltin 0 n \<in> erase ` set (tt_builtins T) then Some (TBuiltin 0 n)
     else case filter (\<lambda>s. sd_name (tt_sdef T s) = n) (tt_structs T) of s # _ \<Rightarrow> Some (TStruct 0 s)
     | [] \<Rightarrow> (case filter (\<lambda>e. td_name (tt_edef T e) = n) (tt_enums T) of e # _ \<Rightarrow> Some (TEnum 0 e []) | [] \<Rightarrow> None))"

text \<open>A bare name may stand for an exported name of exactly one imported module.\<close>

definition baseErased :: "typeTable \<Rightarrow> string \<Rightarrow> ty option" where
  "baseErased T n = (case nameErased T n of Some b \<Rightarrow> Some b
     | None \<Rightarrow> (case map snd (filter (\<lambda>a. fst a = n) (tt_aliases T)) of [m] \<Rightarrow> nameErased T m | _ \<Rightarrow> None))"

text \<open>How many type arguments a declaration takes. \<open>coroutine<A, B>\<close> may be written with one.\<close>

definition arities :: "typeTable \<Rightarrow> ty \<Rightarrow> nat list" where
  "arities T b = (case b of
       TStruct _ s \<Rightarrow> (if sd_name (tt_sdef T s) = ''coroutine'' \<and> length (sd_params (tt_sdef T s)) = 2
         then [1, 2] else [length (sd_params (tt_sdef T s))])
     | TEnum _ e _ \<Rightarrow> [length (td_params (tt_edef T e))]
     | _ \<Rightarrow> [0])"

text \<open>A declaration with its arguments. Only \<open>slice<T>\<close> may be qualified by \<open>mut\<close>.\<close>

definition instErased :: "typeTable \<Rightarrow> ty \<Rightarrow> ty list \<Rightarrow> bool \<Rightarrow> ty" where
  "instErased T b args m = (case b of
       TEnum _ e _ \<Rightarrow> TEnum 0 e args
     | TStruct _ s \<Rightarrow> (if m \<and> \<not> (length args = 1 \<and> sd_name (tt_sdef T s) = ''slice'') then TErr 0
         else TGeneric 0 s args m None)
     | _ \<Rightarrow> TErr 0)"

text \<open>A name in scope as a type parameter is that parameter, with the first position it has in the list.
  Another name is its declaration, with exactly as many arguments as the declaration takes. An array
  of a type parameter is not a type. \<open>TErr\<close> stands for a spelling without a meaning.\<close>

fun resErased :: "typeTable \<Rightarrow> string list \<Rightarrow> ty \<Rightarrow> ty" where
  "resErased T ps (TUnres p n ts m) = (case filter (\<lambda>i. ps ! i = n) [0..<length ps] of i # _ \<Rightarrow> TParam 0 n i
     | [] \<Rightarrow> (case baseErased T n of None \<Rightarrow> TErr 0
       | Some b \<Rightarrow> (if length ts \<notin> set (arities T b) then TErr 0
           else if ts = [] then b
           else instErased T b (map (resErased T ps) ts) m)))"
| "resErased T ps (TRef p t nu m) = TRef 0 (resErased T ps t) nu m"
| "resErased T ps (TArray p k t) = (case resErased T ps t of TParam _ _ _ \<Rightarrow> TErr 0 | u \<Rightarrow> TArray 0 k u)"
| "resErased T ps (TFn p ts r) = TFn 0 (map (resErased T ps) ts) (resErased T ps r)"
| "resErased T ps t = erase t"

section \<open>The tests of \<open>ttResolve\<close> in these terms\<close>

definition declNode :: "ty \<Rightarrow> bool" where
  "declNode t \<longleftrightarrow> (case t of TVoid _ \<Rightarrow> True | TBuiltin _ _ \<Rightarrow> True | TStruct _ _ \<Rightarrow> True | TEnum _ _ ts \<Rightarrow> ts = [] | _ \<Rightarrow> False)"

lemma paramIndex_filter:
  "paramIndex ps n = (case filter (\<lambda>i. ps ! i = n) [0..<length ps] of i # _ \<Rightarrow> Some i | [] \<Rightarrow> None)"
proof (induction ps)
  case (Cons p ps)
  have "filter (\<lambda>i. (p # ps) ! i = n) [0..<length (p # ps)] =
      (if p = n then [0] else []) @ map Suc (filter (\<lambda>i. ps ! i = n) [0..<length ps])"
    by (simp add: upt_conv_Cons map_Suc_upt[symmetric] filter_map comp_def del: upt_Suc)
  with Cons show ?case by (auto split: list.split)
qed simp

lemma find_filter: "List.find P xs = (case filter P xs of x # _ \<Rightarrow> Some x | [] \<Rightarrow> None)"
  by (induction xs) auto

lemma arities_tests:
  "declNode b \<Longrightarrow> 0 \<in> set (arities T b) \<longleftrightarrow> \<not> needsArgs T b"
  "declNode b \<Longrightarrow> k \<noteq> 0 \<Longrightarrow> k \<in> set (arities T b) \<longleftrightarrow> headErr T n b k = None"
  by (cases b; auto simp: declNode_def arities_def needsArgs_def headErr_def Let_def)+

lemma builtin_erased: "TBuiltin 0 n \<in> erase ` set (tt_builtins T) \<longleftrightarrow> list_ex (isBuiltinNode n) (tt_builtins T)"
proof -
  have "erase t = TBuiltin 0 n \<longleftrightarrow> isBuiltinNode n t" for t by (cases t) (auto simp: isBuiltinNode_def)
  then show ?thesis by (auto simp: list_ex_iff image_iff eq_commute[of "TBuiltin 0 n"])
qed

lemma nameErased_code:
  "nameErased T n = (if n = ''void'' then Some (TVoid 0)
     else if list_ex (isBuiltinNode n) (tt_builtins T) then Some (TBuiltin 0 n)
     else case List.find (\<lambda>s. sd_name (tt_sdef T s) = n) (tt_structs T) of Some s \<Rightarrow> Some (TStruct 0 s)
     | None \<Rightarrow> map_option (\<lambda>e. TEnum 0 e []) (List.find (\<lambda>e. td_name (tt_edef T e) = n) (tt_enums T)))"
  by (simp add: nameErased_def builtin_erased find_filter split: list.split)

text \<open>The meaning of a spelling, with the tests of the code.\<close>

lemma resErased_paramAt: "paramIndex ps n = Some i \<Longrightarrow> resErased T ps (TUnres p n ts m) = TParam 0 n i"
  by (simp add: paramIndex_filter split: list.splits)

lemma resErased_named:
  assumes "paramIndex ps n = None"
  shows "baseErased T n = None \<Longrightarrow> resErased T ps (TUnres p n ts m) = TErr 0"
    "baseErased T n = Some b \<Longrightarrow> declNode b \<Longrightarrow> resErased T ps (TUnres p n [] m) = (if needsArgs T b then TErr 0 else b)"
    "baseErased T n = Some b \<Longrightarrow> declNode b \<Longrightarrow> ts \<noteq> [] \<Longrightarrow> resErased T ps (TUnres p n ts m) =
       (if headErr T n b (length ts) \<noteq> None then TErr 0 else instErased T b (map (resErased T ps) ts) m)"
  using assms arities_tests(1)[of b T] arities_tests(2)[of b "length ts" T n]
  by (simp_all add: paramIndex_filter split: list.splits)

lemma resErased_array:
  "resErased T ps (TArray p k t) = (case paramName (resErased T ps t) of Some n \<Rightarrow> TErr 0 | None \<Rightarrow> TArray 0 k (resErased T ps t))"
  by (cases "resErased T ps t") simp_all

fun noErr :: "ty \<Rightarrow> bool" where
  "noErr (TErr _) \<longleftrightarrow> False"
| "noErr (TUnres _ _ _ _) \<longleftrightarrow> False"
| "noErr (TRef _ t _ _) \<longleftrightarrow> noErr t"
| "noErr (TArray _ _ t) \<longleftrightarrow> noErr t"
| "noErr (TFn _ ts r) \<longleftrightarrow> list_all noErr ts \<and> noErr r"
| "noErr (TGeneric _ _ ts _ _) \<longleftrightarrow> list_all noErr ts"
| "noErr (TEnum _ _ ts) \<longleftrightarrow> list_all noErr ts"
| "noErr _ \<longleftrightarrow> True"

lemma noErr_erase: "noErr (erase t) \<longleftrightarrow> noErr t"
  by (induction t) (auto simp: list_all_iff)

text \<open>What the parser hands over: unresolved names, and references, arrays and functions of them.\<close>

fun rawTy :: "typeTable \<Rightarrow> ty \<Rightarrow> bool" where
  "rawTy T (TUnres p n ts m) \<longleftrightarrow> list_all (rawTy T) ts"
| "rawTy T (TRef p t nu m) \<longleftrightarrow> rawTy T t"
| "rawTy T (TArray p k t) \<longleftrightarrow> rawTy T t"
| "rawTy T (TFn p ts r) \<longleftrightarrow> list_all (rawTy T) ts \<and> rawTy T r"
| "rawTy T t \<longleftrightarrow> canon T t \<and> noErr t"

lemma rawTy_ext: "ext T T' \<Longrightarrow> rawTy T t \<Longrightarrow> rawTy T' t"
  by (induction t) (auto simp: list_all_iff ext_node extD dest: ext_canon sdGrows_fields(6)[OF extD(8)])

section \<open>Growing tables keep the meaning of names\<close>

lemma arities_ext: "ext T T' \<Longrightarrow> arities T' b = arities T b"
  using sdGrows_fields[OF extD(8), of T T'] tdGrows_fields[OF extD(9), of T T'] by (cases b) (simp_all add: arities_def)

lemma nameErased_ext: "ext T T' \<Longrightarrow> nameErased T' n = nameErased T n"
proof -
  assume e: "ext T T'"
  have n: "sd_name (tt_sdef T' s) = sd_name (tt_sdef T s)" "td_name (tt_edef T' d) = td_name (tt_edef T d)" for s d
    using sdGrows_fields(1)[OF extD(8)[OF e]] tdGrows_fields(1)[OF extD(9)[OF e]] by blast+
  show ?thesis unfolding nameErased_def n extD(1,4,5)[OF e] ..
qed

lemma baseErased_ext: "ext T T' \<Longrightarrow> baseErased T' n = baseErased T n"
  unfolding baseErased_def extD(6) nameErased_ext ..

lemma headErr_ext: "ext T T' \<Longrightarrow> headErr T' n b k = headErr T n b k"
  using sdGrows_fields[OF extD(8), of T T'] tdGrows_fields[OF extD(9), of T T'] by (cases b) (simp_all add: headErr_def)

lemma needsArgs_ext: "ext T T' \<Longrightarrow> needsArgs T' b = needsArgs T b"
  using sdGrows_fields[OF extD(8), of T T'] tdGrows_fields[OF extD(9), of T T'] by (cases b) (simp_all add: needsArgs_def)

lemma instErased_ext: "ext T T' \<Longrightarrow> instErased T' b args m = instErased T b args m"
  using sdGrows_fields[OF extD(8), of T T'] by (cases b) (simp_all add: instErased_def)

lemma resErased_ext: "ext T T' \<Longrightarrow> resErased T' ps t = resErased T ps t"
proof (induction t)
  case (TUnres p n ts m)
  then have "map (resErased T' ps) ts = map (resErased T ps) ts" by simp
  with TUnres.prems show ?case
    by (simp add: baseErased_ext arities_ext instErased_ext split: option.split list.split cong: map_cong)
next
  case (TFn p ts r)
  then show ?case by (simp cong: map_cong)
qed (simp_all split: option.split)

section \<open>What resolution leaves behind\<close>

definition made :: "typeTable \<Rightarrow> ty \<times> typeTable \<Rightarrow> ty \<Rightarrow> bool" where
  "made T r g \<longleftrightarrow> tblOk (snd r) \<and> ext T (snd r) \<and> canon (snd r) (fst r) \<and> erase (fst r) = g \<and>
     (tt_err T \<noteq> None \<longrightarrow> tt_err (snd r) = tt_err T) \<and> (tt_err (snd r) = None \<longrightarrow> noErr (fst r))"

definition madeL :: "typeTable \<Rightarrow> ty list \<times> typeTable \<Rightarrow> ty list \<Rightarrow> bool" where
  "madeL T r gs \<longleftrightarrow> tblOk (snd r) \<and> ext T (snd r) \<and> list_all (canon (snd r)) (fst r) \<and> map erase (fst r) = gs \<and>
     (tt_err T \<noteq> None \<longrightarrow> tt_err (snd r) = tt_err T) \<and> (tt_err (snd r) = None \<longrightarrow> list_all noErr (fst r))"

lemma builds_made: "builds T r g \<Longrightarrow> (tt_err T = None \<Longrightarrow> noErr g) \<Longrightarrow> made T r g"
  by (auto simp: builds_def made_def noErr_erase)

lemma made_trans:
  assumes "ext T T1" "tt_err T \<noteq> None \<longrightarrow> tt_err T1 = tt_err T" "made T1 r g"
  shows "made T r g"
  using assms ext_trans[of T T1 "snd r"] by (auto simp: made_def)

lemma ttErr_fields:
  "tblOk (ttErr e T) = tblOk T" "ext T (ttErr e T)" "canon (ttErr e T) = canon T" "tt_err (ttErr e T) \<noteq> None"
  "tt_err T \<noteq> None \<longrightarrow> tt_err (ttErr e T) = tt_err T" "tt_error (ttErr e T) = tt_error T"
  by (auto simp: ttErr_def tblOk_def storedOk_def ext_def)

lemma tblOk_error: "tblOk T \<Longrightarrow> canon T (tt_error T) \<and> erase (tt_error T) = TErr 0"
  unfolding tblOk_def baseOk_def by auto

text \<open>A reported error: the error type in an otherwise unchanged table.\<close>

lemma made_error: "tblOk T \<Longrightarrow> made T (tt_error T, ttErr e T) (TErr 0)"
  using tblOk_error[of T] ttErr_fields[where T = T and e = e] by (auto simp: made_def)

section \<open>Names\<close>

lemma find_ex: "List.find P xs = None \<longleftrightarrow> \<not> list_ex P xs"
  by (auto simp: find_None_iff list_ex_iff)

lemma ttFromName_spec:
  assumes T: "tblOk T"
  obtains t T1 where "ttFromName n T = (Some t, T1)" "builds T (t, T1) (erase t)" "nameErased T n = Some (erase t)" "declNode t"
    | "ttFromName n T = (None, T)" "nameErased T n = None"
proof -
  have v: "builds T (tt_void T, T) (TVoid 0)" "\<exists>p. tt_void T = TVoid p"
    using T unfolding tblOk_def baseOk_def builds_def by auto
  have bt: "builds T (t, T) (TBuiltin 0 n)" "declNode t" if "List.find (isBuiltinNode n) (tt_builtins T) = Some t" for t
  proof -
    have m: "t \<in> set (tt_builtins T)" "isBuiltinNode n t" using find_mem[OF that] by simp_all
    from m(2) obtain p where "t = TBuiltin p n" by (cases t) (auto simp: isBuiltinNode_def)
    moreover have "node T t" using T m(1) unfolding tblOk_def baseOk_def by blast
    ultimately show "builds T (t, T) (TBuiltin 0 n)" "declNode t" using T m(1) by (auto simp: builds_def declNode_def)
  qed
  note fx = find_ex[of "isBuiltinNode n" "tt_builtins T"]
  show thesis
  proof (cases "n = ''void''")
    case True
    show ?thesis by (rule that(1)[of "tt_void T" T]) (use v True in \<open>auto simp: ttFromName_def nameErased_code declNode_def\<close>)
  next
    case nv: False
    show ?thesis
    proof (cases "List.find (isBuiltinNode n) (tt_builtins T)")
      case (Some t)
      have "erase t = TBuiltin 0 n" using bt(1)[OF Some] by (simp add: builds_def)
      then show ?thesis using that(1)[of t T] nv Some bt[OF Some] fx by (simp add: ttFromName_def nameErased_code)
    next
      case nb: None
      show ?thesis
      proof (cases "List.find (\<lambda>s. sd_name (tt_sdef T s) = n) (tt_structs T)")
        case (Some s)
        obtain t T1 where t: "structNode s T = (t, T1)" by fastforce
        have B: "builds T (t, T1) (TStruct 0 s)" using structNode_builds[OF T, of s] t by simp
        then have e: "erase t = TStruct 0 s" by (simp add: builds_def)
        then have "declNode t" by (cases t) (auto simp: declNode_def)
        then show ?thesis using that(1)[of t T1] nv nb Some B t e fx by (simp add: ttFromName_def nameErased_code)
      next
        case ns: None
        show ?thesis
        proof (cases "List.find (\<lambda>e. td_name (tt_edef T e) = n) (tt_enums T)")
          case (Some e)
          obtain t T1 where t: "enumNode e T = (t, T1)" by fastforce
          have B: "builds T (t, T1) (TEnum 0 e [])" using enumNode_builds[OF T, of e] t by simp
          then have e: "erase t = TEnum 0 e []" by (simp add: builds_def)
          then have "declNode t" by (cases t) (auto simp: declNode_def)
          then show ?thesis using that(1)[of t T1] nv nb ns Some B t e fx by (simp add: ttFromName_def nameErased_code)
        next
          case None
          then show ?thesis using that(2) nv nb ns fx by (simp add: ttFromName_def nameErased_code)
        qed
      qed
    qed
  qed
qed

lemma resolveBase_spec:
  assumes T: "tblOk T"
  obtains b T1 where "resolveBase n T = (Some b, T1)" "builds T (b, T1) (erase b)" "baseErased T n = Some (erase b)" "declNode b"
    | e T1 where "resolveBase n T = (None, ttErr e T1)" "tblOk T1" "ext T T1" "tt_err T1 = tt_err T" "baseErased T n = None"
proof -
  let ?hits = "map snd (filter (\<lambda>a. fst a = n) (tt_aliases T))"
  show thesis
  proof (rule ttFromName_spec[OF T, of n])
    fix t T1 assume F: "ttFromName n T = (Some t, T1)" "builds T (t, T1) (erase t)" "nameErased T n = Some (erase t)" "declNode t"
    note D = buildsD[OF F(2)]
    have E: "ext T T1" "tblOk T1" "tt_err T1 = tt_err T" using D by simp_all
    have N: "nameErased T1 n = Some (erase t)" using nameErased_ext[OF E(1), of n] F(3) by simp
    show thesis
    proof (rule ttFromName_spec[OF E(2), of n])
      fix u T2 assume G: "ttFromName n T1 = (Some u, T2)" "builds T1 (u, T2) (erase u)" "nameErased T1 n = Some (erase u)" "declNode u"
      have "builds T (u, T2) (erase u)" by (rule builds_ext[OF E(1,3) G(2)])
      moreover have "resolveBase n T = (Some u, T2)" using F(1) G(1) by (simp add: resolveBase_def)
      moreover have "baseErased T n = Some (erase u)" using F(3) G(3) N by (simp add: baseErased_def)
      ultimately show thesis using that(1) G(4) by blast
    qed (use N in simp)
  next
    assume F: "ttFromName n T = (None, T)" "nameErased T n = None"
    consider "length ?hits \<ge> 2" | "?hits = []" | m where "?hits = [m]"
      by (cases ?hits rule: list.exhaust; cases "tl ?hits") auto
    then show thesis
    proof cases
      case 1
      then have "baseErased T n = None"
        using F(2) by (cases ?hits; cases "tl ?hits") (simp_all add: baseErased_def)
      then show ?thesis using that(2)[of "Ambiguous n (length ?hits)" T] 1 F T by (simp add: resolveBase_def)
    next
      case 2
      then show ?thesis using that(2)[of "UnknownType n" T] F T by (simp add: resolveBase_def baseErased_def)
    next
      case (3 m)
      have l: "length (filter (\<lambda>a. fst a = n) (tt_aliases T)) = 1" using arg_cong[OF 3, of length] by simp
      have h: "resolveBase n T = (case ttFromName m T of (b, T2) \<Rightarrow> case b of Some t \<Rightarrow> (Some t, T2) | None \<Rightarrow> (None, ttErr (UnknownType n) T2))"
        "baseErased T n = nameErased T m"
        using F 3 l by (simp_all add: resolveBase_def baseErased_def Let_def)
      show thesis
        by (rule ttFromName_spec[OF T, of m]) (use that h T in auto)
    qed
  qed
qed

section \<open>Function types and instances\<close>

definition errOnly :: "typeTable \<Rightarrow> typeTable \<Rightarrow> bool" where
  "errOnly T T' \<longleftrightarrow> T' = T \<or> tt_err T = None \<and> (\<exists>e. T' = T\<lparr>tt_err := Some e\<rparr>)"

lemma errOnly_refl: "errOnly T T"
  by (simp add: errOnly_def)

lemma errOnly_trans: "errOnly A B \<Longrightarrow> errOnly B C \<Longrightarrow> errOnly A C"
  by (auto simp: errOnly_def)

lemma errOnly_ttErr: "errOnly T (ttErr e T)"
  by (auto simp: ttErr_def errOnly_def)

lemma errOnly_fold: "(\<And>x T. errOnly T (f x T)) \<Longrightarrow> errOnly T (fold f xs T)"
proof (induction xs arbitrary: T)
  case (Cons x xs)
  then show ?case using errOnly_trans[of T "f x T"] by simp
qed (simp add: errOnly_refl)

lemma fnCheck_errOnly: "errOnly T (fnCheck f T)"
proof (cases f)
  case (TFn p ts r)
  define T1 where "T1 = (if ttCrossesC T r True then T else ttErr (FnRet (ttShow T r)) T)"
  define F where "F = fold (\<lambda>i T. if ttCrossesC T (ts ! i) False then T
      else ttErr (FnArg (i + 1) (ttShow T (ts ! i))) T) [0..<length ts]"
  have e: "fnCheck f T = (if ttHasParam f then T else F T1)"
    unfolding fnCheck_def TFn ty.case Let_def T1_def F_def ..
  have "errOnly T T1" by (simp add: T1_def errOnly_refl errOnly_ttErr)
  moreover have "errOnly T1 (F T1)" unfolding F_def by (rule errOnly_fold) (simp add: errOnly_refl errOnly_ttErr)
  ultimately have "errOnly T (F T1)" by (rule errOnly_trans)
  then show ?thesis by (simp add: e errOnly_refl)
qed (simp_all add: fnCheck_def errOnly_refl)

lemma made_errOnly:
  assumes "made T (t, T1) g" "errOnly T1 T2"
  shows "made T (t, T2) g"
proof (cases "T2 = T1")
  case False
  then obtain e where e: "T2 = T1\<lparr>tt_err := Some e\<rparr>" "tt_err T1 = None" using assms(2) by (auto simp: errOnly_def)
  have "tblOk T2 = tblOk T1" "ext T1 T2" by (simp_all add: e(1) tblOk_def storedOk_def ext_def)
  then show ?thesis using assms(1) e ext_trans[of T T1 T2] by (auto simp: made_def)
qed (use assms(1) in simp)

lemma instantiateHead_made:
  assumes T: "tblOk T" and b: "declNode b" "headErr T n (erase b) k = None" and a: "list_all (canon T) args"
    and n: "tt_err T = None \<longrightarrow> list_all noErr args"
  shows "made T (instantiateHead n b args m T) (instErased T (erase b) (map erase args) m)"
proof (cases b)
  case (TEnum p e ts)
  then show ?thesis using builds_made[OF ttEnumGeneric_builds[OF T a, of e]] n
    by (simp add: instantiateHead_def instErased_def list_all_iff noErr_erase)
next
  case (TStruct p s)
  obtain g T1 where g: "ttGeneric s args T = (g, T1)" by fastforce
  have B: "builds T (g, T1) (TGeneric 0 s (map erase args) False None)" using ttGeneric_builds[OF T a, of s] g by simp
  note D = buildsD[OF B]
  obtain q us x where G: "g = TGeneric q s us False x" "map erase us = map erase args" using D by (cases g) auto
  have l: "length us = length args" using arg_cong[OF G(2), of length] by simp
  have "sd_name (tt_sdef T1 s) = sd_name (tt_sdef T s)" using sdGrows_fields(1)[OF extD(8)] D by blast
  then have v: "ttIsViewType T1 g \<longleftrightarrow> length args = 1 \<and> sd_name (tt_sdef T s) = ''slice''"
    using G l by (simp add: ttIsViewType_def)
  have ne: "tt_err T = None \<Longrightarrow> list_all noErr (map erase args)" using n by (simp add: list_all_iff noErr_erase)
  show ?thesis
  proof (cases "m \<and> ttIsViewType T1 g")
    case True
    have "builds T1 (ttViewMut g True T1) (mutErased True (erase g))" by (rule ttViewMut_builds) (use D in simp_all)
    then have "builds T (ttViewMut g True T1) (TGeneric 0 s (map erase args) True None)"
      using builds_ext[of T T1] D by simp
    then show ?thesis using builds_made ne True v g TStruct by (simp add: instantiateHead_def instErased_def)
  next
    case False
    have "made T (tt_error T1, ttErr (MutQualifies n) T1) (TErr 0)"
      by (rule made_trans[OF _ _ made_error]) (use D in simp_all)
    moreover have "made T (g, T1) (TGeneric 0 s (map erase args) False None)"
      by (rule builds_made[OF B]) (use ne in simp)
    ultimately show ?thesis using False v g TStruct by (auto simp: instantiateHead_def instErased_def)
  qed
qed (use b in \<open>simp_all add: declNode_def headErr_def\<close>)

section \<open>Resolution builds the type its spelling denotes\<close>

lemma madeL_Nil: "tblOk T \<Longrightarrow> madeL T ([], T) []"
  by (simp add: madeL_def)

lemma madeL_Cons:
  assumes "made T (u, T1) g" "madeL T1 (us, T2) gs"
  shows "madeL T (u # us, T2) (g # gs)"
  using assms ext_canon[of T1 T2 u] ext_trans[of T T1 T2] by (auto simp: made_def madeL_def)

lemma madeD:
  "made T (t, T') g \<Longrightarrow> tblOk T' \<and> ext T T' \<and> canon T' t \<and> erase t = g \<and>
     (tt_err T \<noteq> None \<longrightarrow> tt_err T' = tt_err T) \<and> (tt_err T' = None \<longrightarrow> noErr t)"
  by (simp add: made_def)

lemma madeLD:
  "madeL T (ts, T') gs \<Longrightarrow> tblOk T' \<and> ext T T' \<and> list_all (canon T') ts \<and> map erase ts = gs \<and>
     (tt_err T \<noteq> None \<longrightarrow> tt_err T' = tt_err T) \<and> (tt_err T' = None \<longrightarrow> list_all noErr ts)"
  by (simp add: madeL_def)

lemma paramName_erase: "paramName (erase t) = paramName t"
  by (cases t) auto

lemma made_step:
  assumes "made T (u, T1) g" "builds T1 r k" "noErr u \<Longrightarrow> noErr k"
  shows "made T r k"
  using assms ext_trans[of T T1 "snd r"] by (auto simp: made_def builds_def noErr_erase)

lemma ttResolve_made:
  "tblOk T \<Longrightarrow> rawTy T t \<Longrightarrow> made T (ttResolve ps t T) (resErased T ps t)"
  "tblOk T \<Longrightarrow> list_all (rawTy T) ts \<Longrightarrow> madeL T (ttResolves ps ts T) (map (resErased T ps) ts)"
proof (induction ps t T and ps ts T rule: ttResolve_ttResolves.induct)
  case (1 ps p n ts m T)
  show ?case
  proof (cases "paramIndex ps n")
    case (Some i)
    then show ?thesis using builds_made[OF typeParam_builds[OF 1(2)]] by (simp add: resErased_paramAt del: resErased.simps(1))
  next
    case None
    note R = resErased_named[OF None, of T]
    show ?thesis
    proof (rule resolveBase_spec[OF 1(2), of n])
      fix e T1 assume r: "resolveBase n T = (None, ttErr e T1)" "tblOk T1" "ext T T1" "tt_err T1 = tt_err T" "baseErased T n = None"
      have "made T (tt_error T1, ttErr e T1) (TErr 0)"
        by (rule made_trans[OF r(3) _ made_error[OF r(2)]]) (simp add: r(4))
      then show ?thesis using None r by (simp add: ttErr_fields R(1) del: resErased.simps(1))
    next
      fix b T1 assume r: "resolveBase n T = (Some b, T1)" "builds T (b, T1) (erase b)" "baseErased T n = Some (erase b)" "declNode b"
      note D = buildsD[OF r(2)]
      have de: "declNode (erase b)" using r(4) by (cases b) (simp_all add: declNode_def)
      have E: "ext T T1" "tblOk T1" "tt_err T1 = tt_err T" using D by simp_all
      have nb: "noErr b" "needsArgs T1 b = needsArgs T (erase b)" "headErr T1 n b k = headErr T n (erase b) k" for k
        using r(4) needsArgs_ext[OF E(1), of b] headErr_ext[OF E(1), of n b k]
        by (cases b; simp add: declNode_def needsArgs_def headErr_def)+
      have er: "made T (tt_error T1, ttErr x T1) (TErr 0)" for x
        by (rule made_trans[OF E(1) _ made_error[OF E(2)]]) (simp add: E(3))
      show ?thesis
      proof (cases "ts = []")
        case True
        have "made T (b, T1) (erase b)" by (rule builds_made[OF r(2)]) (simp add: noErr_erase nb)
        then show ?thesis using True None r(1,3) nb er by (simp add: R(2)[OF r(3) de] del: resErased.simps(1))
      next
        case ne: False
        show ?thesis
        proof (cases "headErr T n (erase b) (length ts)")
          case (Some x)
          then show ?thesis using ne None r(1,3) nb er by (simp add: R(3)[OF r(3) de] del: resErased.simps(1))
        next
          case h: None
          obtain us T2 where us: "ttResolves ps ts T1 = (us, T2)" by fastforce
          have "list_all (rawTy T1) ts" using 1(3) rawTy_ext[OF E(1)] by (auto simp: list_all_iff)
          then have L: "madeL T1 (us, T2) (map (resErased T ps) ts)"
            using 1(1)[OF None r(1)[symmetric] refl ne] nb h E us resErased_ext[OF E(1)] by simp
          note F = madeLD[OF L]
          have X: "ext T T2" using ext_trans[OF E(1)] F by blast
          have "made T2 (instantiateHead n b us m T2) (instErased T2 (erase b) (map erase us) m)"
            by (rule instantiateHead_made[where k = "length ts"]) (use F r(4) h headErr_ext[OF X] in simp_all)
          then have "made T (instantiateHead n b us m T2) (instErased T2 (erase b) (map erase us) m)"
            by (rule made_trans[OF X, rotated]) (use F E(3) in simp)
          then show ?thesis using ne None h r(1,3) nb us F instErased_ext[OF X] by (simp add: R(3)[OF r(3) de] del: resErased.simps(1))
        qed
      qed
    qed
  qed
next
  case (2 ps p t nu m T)
  obtain u T1 where u: "ttResolve ps t T = (u, T1)" by fastforce
  have B: "made T (u, T1) (resErased T ps t)" using 2 u by simp
  note D = madeD[OF B]
  have "builds T1 (refLike nu m u T1) (TRef 0 (erase u) nu m)" by (rule refLike_builds) (use D in simp_all)
  moreover have "noErr u \<Longrightarrow> noErr (TRef 0 (erase u) nu m)" by (simp add: noErr_erase)
  ultimately show ?case using made_step[OF B] u D by simp
next
  case (3 ps p k t T)
  obtain u T1 where u: "ttResolve ps t T = (u, T1)" by fastforce
  have B: "made T (u, T1) (resErased T ps t)" using 3 u by simp
  note D = madeD[OF B]
  have pe: "paramName (resErased T ps t) = paramName u" using D paramName_erase[of u] by simp
  show ?case
  proof (cases "paramName u")
    case None
    have "builds T1 (ttArray k u T1) (TArray 0 k (erase u))" by (rule ttArray_builds) (use D in simp_all)
    moreover have "noErr u \<Longrightarrow> noErr (TArray 0 k (erase u))" by (simp add: noErr_erase)
    ultimately show ?thesis using made_step[OF B] u D None pe by (simp add: resErased_array del: resErased.simps(3))
  next
    case (Some n)
    have "made T (tt_error T1, ttErr (ArrayOfParam n) T1) (TErr 0)"
      by (rule made_trans[OF _ _ made_error]) (use D in simp_all)
    then show ?thesis using u Some pe by (simp add: resErased_array del: resErased.simps(3))
  qed
next
  case (4 ps p ts r T)
  obtain us T1 where us: "ttResolves ps ts T = (us, T1)" by fastforce
  obtain s T2 where s: "ttResolve ps r T1 = (s, T2)" by fastforce
  obtain f T3 where f: "ttFn us (Some s) T2 = (f, T3)" by fastforce
  have B: "madeL T (us, T1) (map (resErased T ps) ts)" using 4 us by simp
  note D = madeLD[OF B]
  have "rawTy T1 r" using 4(4) D rawTy_ext[of T T1 r] by simp
  then have C: "made T1 (s, T2) (resErased T ps r)"
    using 4(2)[OF us[symmetric]] D resErased_ext[of T T1] s by simp
  note E = madeD[OF C]
  have F: "builds T2 (f, T3) (TFn 0 (map erase us) (erase s))"
    using ttFn_builds[of T2 us s] D E ext_canons[of T1 T2 us] f by simp
  have S: "made T (s, T2) (resErased T ps r)" by (rule made_trans[OF _ _ C]) (use D in simp_all)
  have "noErr f" if "tt_err T2 = None"
  proof -
    have "tt_err T1 = None" using E that by (metis not_None_eq)
    then have "list_all noErr us" "noErr s" using D E that by blast+
    then have "noErr (TFn 0 (map erase us) (erase s))" by (simp add: noErr_erase list_all_iff)
    then show ?thesis using noErr_erase[of f] buildsD[OF F] by simp
  qed
  then have "made T (f, T3) (TFn 0 (map erase us) (erase s))"
    using ext_trans[of T T2 T3] madeD[OF S] buildsD[OF F] by (simp add: made_def)
  then show ?case using made_errOnly[OF _ fnCheck_errOnly] us s f D E by simp
next
  case (7 ps t ts T)
  obtain u T1 where u: "ttResolve ps t T = (u, T1)" by fastforce
  obtain us T2 where us: "ttResolves ps ts T1 = (us, T2)" by fastforce
  have B: "made T (u, T1) (resErased T ps t)" using 7 u by simp
  note D = madeD[OF B]
  have "list_all (rawTy T1) ts" using 7(4) D rawTy_ext[of T T1] by (auto simp: list_all_iff)
  then have "madeL T1 (us, T2) (map (resErased T ps) ts)"
    using 7(2)[OF u[symmetric]] D resErased_ext[of T T1] us by simp
  then show ?case using madeL_Cons[OF B] u us by simp
qed (simp_all add: made_def madeL_Nil)

section \<open>Resolution reports nothing about a proper type\<close>

text \<open>A proper type without function types; what a function type may carry is a test of its own.\<close>

fun silent :: "ty \<Rightarrow> bool" where
  "silent (TErr _) \<longleftrightarrow> False"
| "silent (TUnres _ _ _ _) \<longleftrightarrow> False"
| "silent (TFn _ _ _) \<longleftrightarrow> False"
| "silent (TRef _ t _ _) \<longleftrightarrow> silent t"
| "silent (TArray _ _ t) \<longleftrightarrow> silent t"
| "silent (TGeneric _ _ ts _ _) \<longleftrightarrow> list_all silent ts"
| "silent (TEnum _ _ ts) \<longleftrightarrow> list_all silent ts"
| "silent _ \<longleftrightarrow> True"

lemma silent_erase: "silent (erase t) \<longleftrightarrow> silent t"
  by (induction t) (auto simp: list_all_iff)

lemma instantiateHead_silent:
  assumes T: "tblOk T" and b: "declNode b" and a: "list_all (canon T) args"
    and s: "silent (instErased T (erase b) (map erase args) m)"
  shows "tt_err (snd (instantiateHead n b args m T)) = tt_err T" "list_all silent args"
proof -
  show "list_all silent args"
    using b s by (cases b) (auto simp: declNode_def instErased_def list_all_iff silent_erase split: if_splits)
  show "tt_err (snd (instantiateHead n b args m T)) = tt_err T"
  proof (cases b)
    case (TEnum p e ts)
    then show ?thesis using ttEnumGeneric_builds[OF T a, of e] by (simp add: instantiateHead_def builds_def)
  next
    case (TStruct p s)
    obtain g T1 where g: "ttGeneric s args T = (g, T1)" by fastforce
    have B: "builds T (g, T1) (TGeneric 0 s (map erase args) False None)" using ttGeneric_builds[OF T a, of s] g by simp
    note D = buildsD[OF B]
    obtain q us x where G: "g = TGeneric q s us False x" "map erase us = map erase args" using D by (cases g) auto
    have l: "length us = length args" using arg_cong[OF G(2), of length] by simp
    have "sd_name (tt_sdef T1 s) = sd_name (tt_sdef T s)" using sdGrows_fields(1)[OF extD(8)] D by blast
    then have "m \<Longrightarrow> ttIsViewType T1 g"
      using G l assms(4) TStruct by (auto simp: ttIsViewType_def instErased_def split: if_splits)
    moreover have "builds T1 (ttViewMut g True T1) (mutErased True (erase g))" by (rule ttViewMut_builds) (use D in simp_all)
    ultimately show ?thesis using g D TStruct by (auto simp: instantiateHead_def builds_def)
  qed (use b s in \<open>simp_all add: declNode_def instErased_def\<close>)
qed

lemma ttResolve_silent:
  "tblOk T \<Longrightarrow> rawTy T t \<Longrightarrow> silent (resErased T ps t) \<Longrightarrow> tt_err (snd (ttResolve ps t T)) = tt_err T"
  "tblOk T \<Longrightarrow> list_all (rawTy T) ts \<Longrightarrow> list_all silent (map (resErased T ps) ts) \<Longrightarrow>
     tt_err (snd (ttResolves ps ts T)) = tt_err T"
proof (induction ps t T and ps ts T rule: ttResolve_ttResolves.induct)
  case (1 ps p n ts m T)
  show ?case
  proof (cases "paramIndex ps n")
    case (Some i)
    then show ?thesis using typeParam_builds[OF 1(2), of n i] by (simp add: builds_def)
  next
    case None
    note R = resErased_named[OF None, of T]
    show ?thesis
    proof (rule resolveBase_spec[OF 1(2), of n])
      fix e T1 assume "baseErased T n = None"
      then show ?thesis using 1(4) R(1) by simp
    next
      fix b T1 assume r: "resolveBase n T = (Some b, T1)" "builds T (b, T1) (erase b)" "baseErased T n = Some (erase b)" "declNode b"
      note D = buildsD[OF r(2)]
      have E: "ext T T1" "tblOk T1" "tt_err T1 = tt_err T" using D by simp_all
      have de: "declNode (erase b)" using r(4) by (cases b) (simp_all add: declNode_def)
      have nb: "needsArgs T1 b = needsArgs T (erase b)" "headErr T1 n b k = headErr T n (erase b) k" for k
        using r(4) needsArgs_ext[OF E(1), of b] headErr_ext[OF E(1), of n b k]
        by (cases b; simp add: declNode_def needsArgs_def headErr_def)+
      show ?thesis
      proof (cases "ts = []")
        case True
        have "\<not> needsArgs T (erase b)" using 1(4) R(2)[OF r(3) de] True by (auto simp del: resErased.simps(1) split: if_splits)
        then show ?thesis using True None r(1) nb E by simp
      next
        case ne: False
        have h: "headErr T n (erase b) (length ts) = None" and
          s: "silent (instErased T (erase b) (map (resErased T ps) ts) m)"
          using 1(4) R(3)[OF r(3) de ne] by (auto simp del: resErased.simps(1) split: if_splits)
        obtain us T2 where us: "ttResolves ps ts T1 = (us, T2)" by fastforce
        have rw: "list_all (rawTy T1) ts" using 1(3) rawTy_ext[OF E(1)] by (auto simp: list_all_iff)
        note F = madeLD[OF ttResolve_made(2)[OF E(2) rw, of ps, unfolded us]]
        have me: "map erase us = map (resErased T ps) ts" using F resErased_ext[OF E(1)] by simp
        have X: "ext T T2" using ext_trans[OF E(1)] F by blast
        have "silent (instErased T2 (erase b) (map erase us) m)" using s me instErased_ext[OF X] by simp
        note I = instantiateHead_silent[OF _ r(4) _ this]
        have "list_all silent us" using I(2) F by simp
        then have "list_all silent (map erase us)" by (simp add: list_all_iff silent_erase)
        then have "list_all silent (map (resErased T1 ps) ts)" using F by metis
        then have "tt_err T2 = tt_err T1" using 1(1)[OF None r(1)[symmetric] refl ne _ E(2) rw] nb(2) h us by simp
        moreover have "ttResolve ps (TUnres p n ts m) T = instantiateHead n b us m T2"
          using ne None h r(1) nb(2) us by simp
        ultimately show ?thesis using I(1)[of n] F E(3) by metis
      qed
    qed
  qed
next
  case (2 ps p t nu m T)
  obtain u T1 where u: "ttResolve ps t T = (u, T1)" by fastforce
  have B: "made T (u, T1) (resErased T ps t)" using ttResolve_made(1)[of T t ps] 2 u by simp
  note D = madeD[OF B]
  have "builds T1 (refLike nu m u T1) (TRef 0 (erase u) nu m)" by (rule refLike_builds) (use D in simp_all)
  then show ?case using 2 u by (simp add: builds_def)
next
  case (3 ps p k t T)
  obtain u T1 where u: "ttResolve ps t T = (u, T1)" by fastforce
  have B: "made T (u, T1) (resErased T ps t)" using ttResolve_made(1)[of T t ps] 3 u by simp
  note D = madeD[OF B]
  have pe: "paramName (resErased T ps t) = paramName u" using D paramName_erase[of u] by simp
  then have "paramName u = None" "silent (resErased T ps t)"
    using 3(4) by (auto simp: resErased_array simp del: resErased.simps(3) split: option.splits)
  moreover have "builds T1 (ttArray k u T1) (TArray 0 k (erase u))" by (rule ttArray_builds) (use D in simp_all)
  ultimately show ?case using 3 u by (simp add: builds_def)
next
  case (7 ps t ts T)
  obtain u T1 where u: "ttResolve ps t T = (u, T1)" by fastforce
  obtain us T2 where us: "ttResolves ps ts T1 = (us, T2)" by fastforce
  have B: "made T (u, T1) (resErased T ps t)" using ttResolve_made(1)[of T t ps] 7 u by simp
  note D = madeD[OF B]
  have "list_all (rawTy T1) ts" using 7(4) D rawTy_ext[of T T1] by (auto simp: list_all_iff)
  moreover have "list_all silent (map (resErased T1 ps) ts)" using 7(5) D resErased_ext[of T T1] by (simp add: list_all_iff)
  ultimately show ?case using 7 u us D by simp
qed (simp_all)

end
