(* ===== verification/Types_Layer.thy ===== *)
theory Types_Layer
  imports Types_Resolve
begin

text \<open>The questions of types/typelayer.c: which operators a type supports, and which method of a type
  implements one. A method is looked up with the parameters of its owner substituted, so the search
  threads the table.\<close>

section \<open>Operators\<close>

definition isCmpOp :: "string \<Rightarrow> bool" where
  "isCmpOp op \<longleftrightarrow> op \<in> set [''=='', ''!='', ''<'', ''<='', ''>'', ''>='']"

definition isLogicOp :: "string \<Rightarrow> bool" where
  "isLogicOp op \<longleftrightarrow> op = ''&&'' \<or> op = ''||''"

definition isEqualityOp :: "string \<Rightarrow> bool" where
  "isEqualityOp op \<longleftrightarrow> op = ''=='' \<or> op = ''!=''"

definition isArithOp :: "string \<Rightarrow> bool" where
  "isArithOp op \<longleftrightarrow> op \<in> set [''+'', ''-'', ''*'', ''/'', ''%'']"

definition isOverloadableOp :: "string \<Rightarrow> bool" where
  "isOverloadableOp op \<longleftrightarrow> isCmpOp op \<or> isArithOp op \<or> op = ''<<'' \<or> op = ''>>''"

section \<open>Types and their declarations\<close>

definition mentionsParam :: "ty \<Rightarrow> bool" where
  "mentionsParam t \<longleftrightarrow> (case t of TParam _ _ _ \<Rightarrow> True | _ \<Rightarrow> ttHasParam t)"

definition isProtoType :: "typeTable \<Rightarrow> ty \<Rightarrow> string \<Rightarrow> nat \<Rightarrow> bool" where
  "isProtoType T t n k \<longleftrightarrow> (case t of
       TGeneric _ s ts _ _ \<Rightarrow> length ts = k \<and> sd_name (tt_sdef T s) = n
     | TEnum _ e ts \<Rightarrow> length ts = k \<and> td_name (tt_edef T e) = n
     | _ \<Rightarrow> False)"

definition structOf :: "ty \<Rightarrow> nat option" where
  "structOf t = (case t of TStruct _ s \<Rightarrow> Some s | TGeneric _ s _ _ _ \<Rightarrow> Some s | _ \<Rightarrow> None)"

definition enumHasPayload :: "typeDef \<Rightarrow> bool" where
  "enumHasPayload d \<longleftrightarrow> list_ex (\<lambda>v. length (snd v) > 0) (td_variants d)"

definition cmpIsNative :: "typeTable \<Rightarrow> ty \<Rightarrow> bool" where
  "cmpIsNative T t \<longleftrightarrow> (if ttIsError t then True
     else if ttIsInteger t \<or> ttIsFloat t \<or> ttIs t ''bool'' then True
     else case ttBase t of TEnum _ e _ \<Rightarrow> \<not> enumHasPayload (tt_edef T e) | _ \<Rightarrow> False)"

section \<open>Methods\<close>

definition findMethod :: "typeTable \<Rightarrow> ty \<Rightarrow> string \<Rightarrow> funcDef option" where
  "findMethod T t n = (case (case tt_mholder T (adrOf t) of Some s \<Rightarrow> Some s | None \<Rightarrow> structOf t) of
       None \<Rightarrow> None | Some s \<Rightarrow> List.find (\<lambda>m. fd_name m = n) (sd_methods (tt_sdef T s)))"

text \<open>The parameters of the owner and the arguments of the receiver, when they fit.\<close>

definition ownerSubst :: "typeTable \<Rightarrow> ty \<Rightarrow> nat \<Rightarrow> (string list \<times> ty list) option" where
  "ownerSubst T t s = (case ttBase t of
       TGeneric _ s' ts _ _ \<Rightarrow> (if s' = s \<and> length (sd_params (tt_sdef T s)) = length ts
         then Some (sd_params (tt_sdef T s), ts) else None)
     | _ \<Rightarrow> None)"

definition paramTy :: "(string list \<times> ty list) option \<Rightarrow> ty \<Rightarrow> typeTable \<Rightarrow> ty \<times> typeTable" where
  "paramTy sub p T = (case sub of Some (ps, as) \<Rightarrow> ttSubstitute p ps as T | None \<Rightarrow> (p, T))"

fun opLoop :: "(string list \<times> ty list) option \<Rightarrow> string \<Rightarrow> ty option \<Rightarrow> funcDef list \<Rightarrow> typeTable \<Rightarrow> funcDef option \<times> typeTable" where
  "opLoop sub n rhs [] T = (None, T)"
| "opLoop sub n rhs (m # ms) T =
     (if fd_name m \<noteq> n then opLoop sub n rhs ms T
      else case rhs of None \<Rightarrow> (Some m, T)
      | Some r \<Rightarrow> (if length (fd_params m) < 2 then (Some m, T)
          else case paramTy sub (fd_params m ! 1) T of (pt, T1) \<Rightarrow>
            (if ttEquals (ttBase pt) (ttBase r) then (Some m, T1) else opLoop sub n rhs ms T1)))"

definition findOperator :: "ty \<Rightarrow> string \<Rightarrow> ty option \<Rightarrow> typeTable \<Rightarrow> funcDef option \<times> typeTable" where
  "findOperator t n rhs T = (case structOf t of None \<Rightarrow> (None, T)
     | Some s \<Rightarrow> opLoop (ownerSubst T t s) n rhs (sd_methods (tt_sdef T s)) T)"

definition findOp :: "ty \<Rightarrow> string \<Rightarrow> ty option \<Rightarrow> string option \<Rightarrow> typeTable \<Rightarrow> funcDef option \<times> typeTable" where
  "findOp b sy rhs fallback T = (case findOperator b sy rhs T of
       (Some m, T1) \<Rightarrow> (Some m, T1)
     | (None, T1) \<Rightarrow> (case fallback of Some f \<Rightarrow> findOperator b f rhs T1 | None \<Rightarrow> (None, T1)))"

text \<open>Whether a type supports an operator; the equality of arrays is derived from their elements.\<close>

fun structOp :: "ty \<Rightarrow> string \<Rightarrow> ty option \<Rightarrow> typeTable \<Rightarrow> bool \<times> typeTable" where
  "structOp t op rhs T = (if structOf (ttBase t) = None then (False, T)
     else case findOp (ttBase t) op rhs (if op = ''!='' then Some ''=='' else None) T of (m, T1) \<Rightarrow> (m \<noteq> None, T1))"

definition nativeOp :: "typeTable \<Rightarrow> ty \<Rightarrow> string \<Rightarrow> bool" where
  "nativeOp T t op \<longleftrightarrow> (if isEqualityOp op then cmpIsNative T t else ttIsNumeric t) \<and> (op \<noteq> ''%'' \<or> ttIsInteger t)"

fun typeSupportsOp :: "ty \<Rightarrow> string \<Rightarrow> ty option \<Rightarrow> typeTable \<Rightarrow> bool \<times> typeTable" where
  "typeSupportsOp (TArray p n i) op rhs T =
     (if nativeOp T (TArray p n i) op then (True, T)
      else if isEqualityOp op then (case rhs of None \<Rightarrow> (False, T)
        | Some r \<Rightarrow> (if ttEquals (TArray p n i) (ttBase r) then typeSupportsOp i op (Some i) T else (False, T)))
      else structOp (TArray p n i) op rhs T)"
| "typeSupportsOp t op rhs T = (if ttIsError t then (True, T) else if nativeOp T t op then (True, T)
     else structOp t op rhs T)"

section \<open>The table does not influence the answers\<close>

text \<open>What a search for a method finds, read off the declarations alone.\<close>

fun subErased :: "(string list \<times> ty list) option \<Rightarrow> ty \<Rightarrow> ty" where
  "subErased None t = t"
| "subErased (Some (ps, as)) t = (if ps = [] then t else substErased ps (map erase as) t)"

definition takes :: "(string list \<times> ty list) option \<Rightarrow> ty option \<Rightarrow> funcDef \<Rightarrow> bool" where
  "takes sub rhs m \<longleftrightarrow> (case rhs of None \<Rightarrow> True | Some r \<Rightarrow> length (fd_params m) < 2 \<or>
     ttBase (subErased sub (erase (fd_params m ! 1))) = ttBase (erase r))"

definition canonSub :: "typeTable \<Rightarrow> (string list \<times> ty list) option \<Rightarrow> bool" where
  "canonSub T sub \<longleftrightarrow> (case sub of None \<Rightarrow> True | Some (ps, as) \<Rightarrow> list_all (canon T) as)"

definition canonMethods :: "typeTable \<Rightarrow> funcDef list \<Rightarrow> bool" where
  "canonMethods T ms \<longleftrightarrow> (\<forall>m\<in>set ms. list_all (canon T) (fd_params m))"

lemma canonSub_ext: "ext T T' \<Longrightarrow> canonSub T sub \<Longrightarrow> canonSub T' sub"
  by (auto simp: canonSub_def ext_canons split: option.splits)

lemma canonMethods_ext: "ext T T' \<Longrightarrow> canonMethods T ms \<Longrightarrow> canonMethods T' ms"
  using ext_canons by (auto simp: canonMethods_def)

lemma erase_base: "erase (ttBase t) = ttBase (erase t)"
  by (induction t) auto

lemma canon_base: "canon T t \<Longrightarrow> canon T (ttBase t)"
  by (induction t) auto

lemma paramTy_builds:
  assumes "tblOk T" "canonSub T sub" "canon T p"
  shows "builds T (paramTy sub p T) (subErased sub (erase p))"
  using assms substGo_builds(1)[of T _ p] builds_old[of T p]
  by (cases sub) (auto simp: paramTy_def canonSub_def ttSubstitute_def)

lemma opLoop_spec:
  "tblOk T \<Longrightarrow> canonSub T sub \<Longrightarrow> canonMethods T ms \<Longrightarrow> (\<forall>r. rhs = Some r \<longrightarrow> canon T r) \<Longrightarrow>
   (fst (opLoop sub n rhs ms T) = List.find (\<lambda>m. fd_name m = n \<and> takes sub rhs m) ms) \<and>
   tblOk (snd (opLoop sub n rhs ms T)) \<and> ext T (snd (opLoop sub n rhs ms T))"
proof (induction ms arbitrary: T)
  case (Cons m ms)
  have ms: "canonMethods T ms" using Cons.prems(3) by (simp add: canonMethods_def)
  show ?case
  proof (cases "fd_name m = n \<and> rhs \<noteq> None \<and> \<not> length (fd_params m) < 2")
    case True
    then obtain r where r: "rhs = Some r" "canon T r" using Cons.prems(4) by auto
    obtain pt T1 where pt: "paramTy sub (fd_params m ! 1) T = (pt, T1)" by fastforce
    have "canon T (fd_params m ! 1)" using Cons.prems(3) True by (simp add: canonMethods_def list_all_length)
    then have B: "builds T (pt, T1) (subErased sub (erase (fd_params m ! 1)))"
      using paramTy_builds[OF Cons.prems(1,2)] pt by metis
    note D = buildsD[OF B]
    have E: "ext T T1" "tblOk T1" using D by simp_all
    have "ttEquals (ttBase pt) (ttBase r) \<longleftrightarrow> erase (ttBase pt) = erase (ttBase r)"
      by (rule ttEquals_erase[OF E(2)]) (use D canon_base ext_canon[OF E(1) r(2)] in blast)+
    then have q: "ttEquals (ttBase pt) (ttBase r) \<longleftrightarrow> takes sub rhs m"
      using True D by (simp add: takes_def r(1) erase_base)
    have I: "(fst (opLoop sub n rhs ms T1) = List.find (\<lambda>m. fd_name m = n \<and> takes sub rhs m) ms) \<and>
        tblOk (snd (opLoop sub n rhs ms T1)) \<and> ext T1 (snd (opLoop sub n rhs ms T1))"
      by (rule Cons.IH[OF E(2) canonSub_ext[OF E(1) Cons.prems(2)] canonMethods_ext[OF E(1) ms]])
        (use Cons.prems(4) ext_canon[OF E(1)] in blast)
    show ?thesis using True r(1) pt q E I ext_trans[OF E(1)] by simp
  next
    case False
    then have "fd_name m = n \<Longrightarrow> takes sub rhs m" by (auto simp: takes_def split: option.split)
    then show ?thesis using False Cons.prems(1) Cons.IH[OF Cons.prems(1,2) ms Cons.prems(4)] by (auto split: option.split)
  qed
qed simp

lemma ownerSubst_canon: "canon T t \<Longrightarrow> canonSub T (ownerSubst T t s)"
  using canon_base[of T t] by (cases "ttBase t") (auto simp: ownerSubst_def canonSub_def)

lemma ownerSubst_ext: "ext T T' \<Longrightarrow> ownerSubst T' t s = ownerSubst T t s"
  unfolding ownerSubst_def sdGrows_fields(2)[OF extD(8)] ..

definition finds :: "typeTable \<Rightarrow> ty \<Rightarrow> string \<Rightarrow> ty option \<Rightarrow> funcDef option" where
  "finds T t n rhs = (case structOf t of None \<Rightarrow> None
     | Some s \<Rightarrow> List.find (\<lambda>m. fd_name m = n \<and> takes (ownerSubst T t s) rhs m) (sd_methods (tt_sdef T s)))"

definition canonOps :: "typeTable \<Rightarrow> ty \<Rightarrow> bool" where
  "canonOps T t \<longleftrightarrow> canon T t \<and> (\<forall>s. structOf t = Some s \<longrightarrow> canonMethods T (sd_methods (tt_sdef T s)))"

lemma canonOps_ext:
  assumes "ext T T'" "canonOps T t"
  shows "canonOps T' t"
  using assms(2) ext_canon[OF assms(1)] canonMethods_ext[OF assms(1)] sdGrows_fields(4)[OF extD(8)[OF assms(1)]]
  by (auto simp: canonOps_def)

lemma finds_ext:
  assumes "ext T T'"
  shows "finds T' t n rhs = finds T t n rhs"
  unfolding finds_def ownerSubst_ext[OF assms] sdGrows_fields(4)[OF extD(8)[OF assms]] ..

lemma findOperator_spec:
  assumes "tblOk T" "canonOps T t" "\<forall>r. rhs = Some r \<longrightarrow> canon T r"
  shows "fst (findOperator t n rhs T) = finds T t n rhs \<and> tblOk (snd (findOperator t n rhs T)) \<and>
    ext T (snd (findOperator t n rhs T))"
  using assms opLoop_spec[OF assms(1) ownerSubst_canon _ assms(3)]
  by (cases "structOf t") (simp_all add: findOperator_def finds_def canonOps_def)

lemma findOp_spec:
  assumes "tblOk T" "canonOps T t" "\<forall>r. rhs = Some r \<longrightarrow> canon T r"
  shows "fst (findOp t n rhs f T) = (case finds T t n rhs of Some m \<Rightarrow> Some m
    | None \<Rightarrow> (case f of Some k \<Rightarrow> finds T t k rhs | None \<Rightarrow> None))"
proof -
  obtain m T1 where m: "findOperator t n rhs T = (m, T1)" by fastforce
  have S: "m = finds T t n rhs" "tblOk T1" "ext T T1" using findOperator_spec[OF assms, of n] m by simp_all
  have c: "\<forall>r. rhs = Some r \<longrightarrow> canon T1 r" using assms(3) ext_canon[OF S(3)] by blast
  have "fst (findOperator t k rhs T1) = finds T t k rhs" for k
    using findOperator_spec[OF S(2) canonOps_ext[OF S(3) assms(2)] c, of k] finds_ext[OF S(3)] by simp
  then show ?thesis using m S(1) by (auto simp: findOp_def split: option.split)
qed

lemma structOp_spec:
  assumes "tblOk T" "canonOps T (ttBase t)" "\<forall>r. rhs = Some r \<longrightarrow> canon T r"
  shows "fst (structOp t op rhs T) \<longleftrightarrow> finds T (ttBase t) op rhs \<noteq> None \<or>
    op = ''!='' \<and> finds T (ttBase t) ''=='' rhs \<noteq> None"
proof -
  have n: "finds T (ttBase t) k rhs = None" if "structOf (ttBase t) = None" for k using that by (simp add: finds_def)
  show ?thesis using findOp_spec[OF assms, of op "if op = ''!='' then Some ''=='' else None"] n
    by (auto split: prod.splits option.splits)
qed

end
