(* ===== verification/Types_Claims.thy ===== *)
theory Types_Claims
  imports Types_Layer
begin

text \<open>The properties of the type table.\<close>

section \<open>The empty table, and an example\<close>

lemma canon_names: "canon (T\<lparr>tt_structs := a\<rparr>) t = canon T t" "canon (T\<lparr>tt_enums := b\<rparr>) t = canon T t"
  by (rule canon_cong; simp)+

lemma tblOk_names: "tblOk (T\<lparr>tt_structs := a\<rparr>) = tblOk T" "tblOk (T\<lparr>tt_enums := b\<rparr>) = tblOk T"
  by (simp_all add: tblOk_def storedOk_def canon_names baseOk_def node_def)

lemma tblOk_register: "tblOk (ttRegister ss es T) = tblOk T"
proof -
  have s: "tblOk (fold addStruct ss T) = tblOk T" for T
    by (induction ss arbitrary: T) (auto simp: addStruct_def tblOk_names)
  have e: "tblOk (fold addEnum es T) = tblOk T" for T
    by (induction es arbitrary: T) (auto simp: addEnum_def tblOk_names)
  show ?thesis by (simp add: ttRegister_def s e)
qed

lemma tblOk_new:
  assumes "\<forall>s. sd_type (sd s) = None" "\<forall>e. td_type (td e) = None"
  shows "tblOk (ttNew sd td mh ss es)"
proof -
  have b: "map (\<lambda>i. TBuiltin i (BUILTIN_NAMES ! i)) [0..<length BUILTIN_NAMES] =
    [TBuiltin 0 ''i8'', TBuiltin 1 ''i16'', TBuiltin 2 ''i32'', TBuiltin 3 ''i64'', TBuiltin 4 ''u8'',
     TBuiltin 5 ''u16'', TBuiltin 6 ''u32'', TBuiltin 7 ''u64'', TBuiltin 8 ''f32'', TBuiltin 9 ''f64'', TBuiltin 10 ''bool'']"
    by code_simp
  have l: "length BUILTIN_NAMES = 11" by code_simp
  show ?thesis unfolding ttNew_def Let_def tblOk_register b unfolding l
    using assms by (auto simp: tblOk_def storedOk_def uniqOk_def shadowOk_def baseOk_def node_def nth_Cons')
qed

definition exStruct :: "string \<Rightarrow> string list \<Rightarrow> structDef" where
  "exStruct n ps = \<lparr>sd_name = n, sd_srcName = None, sd_params = ps, sd_frozen = False, sd_fields = [], sd_methods = [], sd_type = None\<rparr>"

definition exSdef :: "nat \<Rightarrow> structDef" where
  "exSdef s = (if s = 0 then exStruct ''slice'' [''T'']
     else if s = 1 then exStruct ''A'' [''X'', ''Y''] else if s = 2 then exStruct ''A_i32'' [''Z''] else exStruct ''p'' [])"

definition exTab :: typeTable where
  "exTab = ttNew exSdef (\<lambda>_. \<lparr>td_name = ''e'', td_srcName = None, td_params = [], td_variants = [], td_type = None\<rparr>)
     (\<lambda>_. None) [0, 1, 2, 3] []"

lemma exTab_ok: "tblOk exTab"
  unfolding exTab_def by (rule tblOk_new) (simp_all add: exSdef_def exStruct_def)

definition nm :: "string \<Rightarrow> ty list \<Rightarrow> ty" where "nm n ts = TUnres 0 n ts False"
definition mnm :: "string \<Rightarrow> ty list \<Rightarrow> ty" where "mnm n ts = TUnres 0 n ts True"

abbreviation i32 :: ty where "i32 \<equiv> TBuiltin 2 ''i32''"
abbreviation u8 :: ty where "u8 \<equiv> TBuiltin 4 ''u8''"

lemma ex_canon: "canon exTab i32" "canon exTab u8"
  by code_simp+

section \<open>Equality and interning\<close>

text \<open>C23: equality of types. The test of \<open>ttEquals\<close>, which compares pointers for some kinds and walks the
  others, holds of two types of the table exactly when they are the same type: the same constructor
  applied to the same declaration, flags and arguments.\<close>

theorem type_equality:
  assumes "tblOk T" "canon T a" "canon T b"
  shows "ttEquals a b \<longleftrightarrow> erase a = erase b"
  by (rule ttEquals_erase[OF assms])

theorem type_equality_witness:
  "ttEquals (TRef 13 i32 False True) (TRef 14 i32 False True) \<and> \<not> ttEquals i32 u8"
proof -
  let ?r1 = "refLike False True i32 exTab" and ?r2 = "refLike False True i32 (snd (refLike False True i32 exTab))"
  have e: "fst ?r1 = TRef 13 i32 False True" "fst ?r2 = TRef 14 i32 False True" by code_simp+
  have b1: "builds exTab ?r1 (TRef 0 (erase i32) False True)" by (rule refLike_builds[OF exTab_ok ex_canon(1)])
  then have T1: "tblOk (snd ?r1)" "ext exTab (snd ?r1)" "canon (snd ?r1) (fst ?r1)" by (simp_all only: builds_def)
  have b2: "builds (snd ?r1) ?r2 (TRef 0 (erase i32) False True)"
    by (rule refLike_builds[OF T1(1) ext_canon[OF T1(2) ex_canon(1)]])
  then have T2: "tblOk (snd ?r2)" "ext (snd ?r1) (snd ?r2)" "canon (snd ?r2) (fst ?r2)" by (simp_all only: builds_def)
  have "ttEquals (fst ?r1) (fst ?r2)"
    using type_equality[OF T2(1) ext_canon[OF T2(2) T1(3)] T2(3)] b1 b2 by (simp only: builds_def)
  moreover have "\<not> ttEquals i32 u8" using type_equality[OF exTab_ok ex_canon] by simp
  ultimately show ?thesis unfolding e by blast
qed

lemma instance_entered:
  "\<not> list_ex ttHasParam as \<Longrightarrow> ttGeneric s as T = (t, T1) \<Longrightarrow> t \<in> set (tt_instances T1)"
  by (auto simp: ttGeneric_def mkNode_eq Let_def split: option.splits dest: find_mem)

lemma instance_unique:
  assumes "tblOk T" "c \<in> set (tt_instances T)" "d \<in> set (tt_instances T)" "erase c = erase d"
  shows "c = d"
proof -
  have "distinct (map erase (tt_instances T))" using assms(1) by (simp add: tblOk_def uniqOk_def)
  then have "inj_on erase (set (tt_instances T))" by (simp add: distinct_map)
  then show ?thesis by (rule inj_onD[OF _ assms(4,2,3)])
qed

text \<open>C24: a generic type is built once. However much the table has grown in between, asking again for
  the instance of the same declaration with equal arguments, none of which mentions a type parameter,
  gives the same pointer and leaves the table as it is.\<close>

theorem interned_once:
  assumes "tblOk T" "list_all (canon T) as" "\<not> list_ex ttHasParam as" "ttGeneric s as T = (t, T1)"
    "ext T1 T2" "tblOk T2" "list_all (canon T2) bs" "list_all2 ttEquals as bs"
  shows "ttGeneric s bs T2 = (t, T2)"
proof -
  have B: "builds T (t, T1) (TGeneric 0 s (map erase as) False None)"
    using ttGeneric_builds[OF assms(1,2), of s] assms(4) by simp
  have as2: "list_all (canon T2) as"
    by (rule ext_canons[OF ext_trans[OF _ assms(5)] assms(2)]) (use buildsD[OF B] in simp)
  have m: "map erase as = map erase bs" using ttEquals_list[OF assms(6) as2 assms(7)] assms(8) by simp
  have "list_ex ttHasParam bs = list_ex ttHasParam (map erase bs)" "list_ex ttHasParam as = list_ex ttHasParam (map erase as)"
    by (simp_all add: list_ex_iff ttHasParam_iff paramsOf_erase)
  then have nb: "\<not> list_ex ttHasParam bs" using m assms(3) by simp
  have mem: "t \<in> set (tt_instances T2)"
    using instance_entered[OF assms(3,4)] assms(5) by (auto simp: ext_def prefixOf_def)
  obtain c T3 where c: "ttGeneric s bs T2 = (c, T3)" by fastforce
  have C: "builds T2 (c, T3) (TGeneric 0 s (map erase bs) False None)"
    using ttGeneric_builds[OF assms(6,7), of s] c by simp
  then have ec: "erase c = erase t" using B m by (simp add: builds_def)
  have "sameGeneric s bs t" using same_erase(4)[OF assms(6) tblOk_canon(1)[OF assms(6) mem] assms(7)] buildsD[OF B] m by auto
  then have "List.find (sameGeneric s bs) (tt_instances T2) \<noteq> None" using mem by (auto simp: find_None_iff)
  then obtain d where d: "List.find (sameGeneric s bs) (tt_instances T2) = Some d" by blast
  then have cd: "c = d" "T3 = T2" using c nb by (auto simp: ttGeneric_def)
  have "c = t" by (rule instance_unique[OF assms(6) _ mem ec]) (use find_mem[OF d] cd in simp)
  then show ?thesis using c cd by simp
qed

theorem interned_once_witness:
  "\<exists>t T1. ttGeneric 1 [i32, u8] exTab = (t, T1) \<and> ttGeneric 1 [i32, u8] (snd (ttRef t T1)) = (t, snd (ttRef t T1))"
proof -
  obtain t T1 where g: "ttGeneric 1 [i32, u8] exTab = (t, T1)" by fastforce
  have a: "list_all (canon exTab) [i32, u8]" using ex_canon by simp
  have B: "builds exTab (t, T1) (TGeneric 0 1 (map erase [i32, u8]) False None)"
    using ttGeneric_builds[OF exTab_ok a, of 1] g by simp
  note D = buildsD[OF B]
  have "builds T1 (ttRef t T1) (TRef 0 (erase t) False False)" by (rule ttRef_builds) (use D in simp_all)
  then have E: "ext T1 (snd (ttRef t T1))" "tblOk (snd (ttRef t T1))" by (simp_all add: builds_def)
  have "list_all (canon (snd (ttRef t T1))) [i32, u8]"
    by (rule ext_canons[OF ext_trans[OF _ E(1)] a]) (use D in simp)
  then show ?thesis using interned_once[OF exTab_ok a _ g E] g by simp
qed

section \<open>Substitution and resolution\<close>

text \<open>C26: substitution. \<open>ttSubstitute\<close> builds the type in which the parameter at each position of the
  list is replaced by the argument at the same position, wherever it occurs; it keeps the table's
  invariant and only adds to it. A parameter that is not in a list of the right length stays, and with
  closed arguments for all the parameters of the type no parameter is left.\<close>

theorem substitution:
  assumes "tblOk T" "canon T t" "list_all (canon T) as" "ps \<noteq> []"
  shows "case ttSubstitute t ps as T of (u, T') \<Rightarrow> tblOk T' \<and> ext T T' \<and> canon T' u \<and>
      erase u = substErased ps (map erase as) (erase t) \<and>
      (\<forall>q k i. t = TParam q (ps ! k) i \<and> k < length ps \<and> k < length as \<and> ps ! k \<notin> set (take k ps) \<longrightarrow> erase u = erase (as ! k)) \<and>
      (\<forall>q n i. t = TParam q n i \<and> n \<notin> set ps \<and> length ps = length as \<longrightarrow> erase u = TParam 0 n i) \<and>
      (length ps = length as \<and> paramsOf t \<subseteq> set ps \<and> \<not> list_ex ttHasParam as \<longrightarrow> \<not> ttHasParam u)"
proof -
  obtain u T' where u: "ttSubstitute t ps as T = (u, T')" by fastforce
  have B: "builds T (u, T') (substErased ps (map erase as) (erase t))"
    using substGo_builds(1)[OF assms(1,3,2), of ps] u assms(4) by (simp add: ttSubstitute_def)
  have "paramsOf u = {}" if "length ps = length as" "paramsOf t \<subseteq> set ps" "\<not> list_ex ttHasParam as"
    using paramsOf_subst[of ps "map erase as" "erase t"] that buildsD[OF B]
    by (auto simp: paramsOf_erase list_ex_iff ttHasParam_iff dest: arg_cong[where f = paramsOf])
  moreover have "erase u = erase (as ! k)" if "t = TParam q (ps ! k) i" "k < length ps" "k < length as" "ps ! k \<notin> set (take k ps)" for q k i
    using buildsD[OF B] that argFor_first[of k ps "map erase as"] by simp
  moreover have "erase u = TParam 0 n i" if "t = TParam q n i" "n \<notin> set ps" "length ps = length as" for q n i
    using buildsD[OF B] that argFor_other[of n ps "map erase as"] by simp
  ultimately show ?thesis using buildsD[OF B] unfolding u prod.case ttHasParam_iff by blast
qed

theorem substitution_witness:
  "\<exists>T u T'. ttSubstitute (TParam 13 ''V'' 1) [''K'', ''V''] [i32, u8] T = (u, T') \<and> erase u = TBuiltin 0 ''u8'' \<and> tblOk T'"
proof -
  let ?T = "snd (typeParam ''V'' 1 exTab)" and ?t = "TParam 13 ''V'' 1"
  have e: "fst (typeParam ''V'' 1 exTab) = ?t" by code_simp
  have "builds exTab (typeParam ''V'' 1 exTab) (TParam 0 ''V'' 1)" by (rule typeParam_builds[OF exTab_ok])
  then have T: "tblOk ?T" "ext exTab ?T" "canon ?T ?t" unfolding builds_def e by blast+
  have a: "list_all (canon ?T) [i32, u8]" by (rule ext_canons[OF T(2)]) (use ex_canon in simp)
  obtain u T' where u: "ttSubstitute ?t [''K'', ''V''] [i32, u8] ?T = (u, T')" by fastforce
  let ?ps = "[''K'', ''V'']" and ?as = "[i32, u8]"
  note S = substitution[OF T(1,3) a, of ?ps, unfolded u prod.case]
  have "\<forall>q k i. ?t = TParam q (?ps ! k) i \<and> k < length ?ps \<and> k < length ?as \<and> ?ps ! k \<notin> set (take k ?ps) \<longrightarrow>
      erase u = erase (?as ! k)" using S by blast
  from spec[OF spec[OF spec[OF this, of 13], of 1], of 1] have "erase u = erase (?as ! 1)" by simp
  moreover have "tblOk T'" using S by blast
  moreover have "erase ([i32, u8] ! 1) = TBuiltin 0 ''u8''" by code_simp
  ultimately show ?thesis using u by auto
qed

text \<open>C25: resolution. For what the parser wrote, \<open>ttResolve\<close> builds the type that the spelling denotes
  under the declarations: a parameter of the list in scope with its position there, or the declared
  type of that name with as many arguments as its declaration takes. \<open>resErased\<close> says this without the
  tests of the code. The table's invariant is kept; an error is reported whenever the result is not a
  proper type, and none when it is a proper type without function types; an error that was already
  reported is kept.\<close>

theorem resolution:
  assumes "tblOk T" "rawTy T t"
  shows "case ttResolve ps t T of (u, T') \<Rightarrow> tblOk T' \<and> ext T T' \<and> canon T' u \<and> erase u = resErased T ps t \<and>
      (tt_err T' = None \<longrightarrow> noErr u) \<and> (silent u \<longrightarrow> tt_err T' = tt_err T) \<and> (tt_err T \<noteq> None \<longrightarrow> tt_err T' = tt_err T)"
  using ttResolve_made(1)[OF assms, of ps] ttResolve_silent(1)[OF assms, of ps] silent_erase[of "fst (ttResolve ps t T)"]
  by (auto simp: made_def)

theorem resolution_witness:
  "\<exists>u T'. ttResolve [''K'', ''V''] (nm ''A'' [nm ''V'' [], nm ''u8'' []]) exTab = (u, T') \<and> tt_err T' = None \<and>
     erase u = TGeneric 0 1 [TParam 0 ''V'' 1, TBuiltin 0 ''u8''] False None \<and>
     erase (fst (ttResolve [] (nm ''A'' [nm ''u8'' []]) exTab)) = TErr 0 \<and>
     tt_err (snd (ttResolve [] (nm ''A'' [nm ''u8'' []]) exTab)) \<noteq> None"
proof -
  let ?t = "nm ''A'' [nm ''V'' [], nm ''u8'' []]" and ?s = "nm ''A'' [nm ''u8'' []]"
  obtain u T' where u: "ttResolve [''K'', ''V''] ?t exTab = (u, T')" by fastforce
  obtain v S where v: "ttResolve [] ?s exTab = (v, S)" by fastforce
  have rt: "rawTy exTab ?t" and rs: "rawTy exTab ?s" by (simp_all add: nm_def)
  note R = resolution[OF exTab_ok rt, of "[''K'', ''V'']", unfolded u prod.case]
    and Q = resolution[OF exTab_ok rs, of "[]", unfolded v prod.case]
  have "resErased exTab [''K'', ''V''] ?t = TGeneric 0 1 [TParam 0 ''V'' 1, TBuiltin 0 ''u8''] False None" by code_simp
  then have e: "erase u = TGeneric 0 1 [TParam 0 ''V'' 1, TBuiltin 0 ''u8''] False None" using R by metis
  then have "silent u" using silent_erase[of u] by simp
  moreover have "tt_err exTab = None" by code_simp
  ultimately have n: "tt_err T' = None" using R by metis
  have "resErased exTab [] ?s = TErr 0" by code_simp
  then have f: "erase v = TErr 0" using Q by metis
  then have "\<not> noErr v" using noErr_erase[of v] by simp
  then have "tt_err S \<noteq> None" using Q by blast
  then show ?thesis using u v e n f by auto
qed

text \<open>A spelling always means the same type. Resolving the same text again, in a table that has grown
  since the first time, gives a type equal to the first one.\<close>

theorem same_spelling:
  assumes "tblOk T" "rawTy T t" "ttResolve ps t T = (u, T1)" "ext T1 T2" "tblOk T2" "ttResolve ps t T2 = (v, T3)"
  shows "ttEquals u v"
proof -
  have A: "made T (u, T1) (resErased T ps t)" using ttResolve_made(1)[OF assms(1,2), of ps] assms(3) by simp
  have x: "ext T T2" using madeD[OF A] ext_trans[OF _ assms(4)] by blast
  have B: "made T2 (v, T3) (resErased T2 ps t)"
    using ttResolve_made(1)[OF assms(5) rawTy_ext[OF x assms(2)], of ps] assms(6) by simp
  have "canon T3 u" using ext_canon[OF ext_trans[OF assms(4)]] madeD[OF A] madeD[OF B] by blast
  then show ?thesis using ttEquals_erase[of T3 u v] madeD[OF A] madeD[OF B] resErased_ext[OF x] by simp
qed

theorem same_spelling_witness:
  "let r = ttResolve [] (mnm ''slice'' [nm ''i32'' []]) exTab in ttEquals (fst r) (fst (ttResolve [] (mnm ''slice'' [nm ''i32'' []]) (snd r)))"
proof -
  let ?t = "mnm ''slice'' [nm ''i32'' []]"
  obtain u T1 where u: "ttResolve [] ?t exTab = (u, T1)" by fastforce
  obtain v T2 where v: "ttResolve [] ?t T1 = (v, T2)" by fastforce
  have r: "rawTy exTab ?t" by (simp add: nm_def mnm_def)
  have "made exTab (u, T1) (resErased exTab [] ?t)" using ttResolve_made(1)[OF exTab_ok r, of "[]"] u by simp
  then have "tblOk T1" by (simp add: made_def)
  from same_spelling[OF exTab_ok r u ext_refl this v] show ?thesis using u v by simp
qed

section \<open>Views\<close>

text \<open>Dropping the mut of a view is an order. \<open>ttViewDowngradable\<close> is reflexive and transitive on the
  types of the table, two types that can each be used for the other are equal, and types related by
  it have the same C name, so that no conversion is generated.\<close>

theorem view_order:
  assumes "tblOk T" "canon T a" "canon T b" "canon T c"
  shows "ttViewDowngradable a a \<and>
    (ttViewDowngradable a b \<and> ttViewDowngradable b c \<longrightarrow> ttViewDowngradable a c) \<and>
    (ttViewDowngradable a b \<and> ttViewDowngradable b a \<longrightarrow> ttEquals a b) \<and>
    (ttViewDowngradable a b \<longrightarrow> ttMangle T a = ttMangle T b)"
  using ttViewDowngradable_weaker[OF assms(1)] assms(2-4) weaker_trans[of "erase a" "erase b" "erase c"]
    weaker_erase_antisym[of a b] ttEquals_erase[OF assms(1-3)] ttMangle_downgradable[OF assms(1-3)]
  by simp

text \<open>The read-only form of a view. \<open>ttViewReadonly\<close> gives a type that the original can be used for,
  without mut on it or on the views among its arguments, and it is the identity on what it has
  produced.\<close>

theorem readonly_view:
  assumes "tblOk T" "canon T t"
  shows "case ttViewReadonly t T of (u, T') \<Rightarrow> tblOk T' \<and> ext T T' \<and> canon T' u \<and> ttViewDowngradable u t \<and>
      erase u = roErased (erase t) \<and> ttViewReadonly u T' = (u, T')"
proof -
  obtain u T' where u: "ttViewReadonly t T = (u, T')" by fastforce
  have B: "builds T (u, T') (roErased (erase t))" using ttViewReadonly_builds(1)[OF assms] u by simp
  note D = buildsD[OF B]
  have "canon T' t" using ext_canon assms(2) D by blast
  then have "ttViewDowngradable u t" using ttViewDowngradable_weaker[of T' u t] D roErased_weaker by simp
  moreover have "ttViewReadonly u T' = (u, T')" by (rule ttViewReadonly_same(1)) (use D in simp)
  ultimately show ?thesis using u D by simp
qed

text \<open>An example: a writable view of writable views, as the parser hands it over.\<close>

definition exInner :: ty where "exInner = mnm ''slice'' [mnm ''slice'' [nm ''i32'' []]]"
definition exOuter :: ty where "exOuter = mnm ''slice'' [nm ''slice'' [nm ''i32'' []]]"

definition exT1 :: typeTable where "exT1 = snd (ttResolve [] exInner exTab)"
definition exGot :: ty where "exGot = fst (ttResolve [] exInner exTab)"
definition exWant :: ty where "exWant = fst (ttResolve [] exOuter exT1)"
definition exT2 :: typeTable where "exT2 = snd (ttResolve [] exOuter exT1)"

lemma ex_views:
  "tblOk exT1" "ext exTab exT1" "canon exT1 exGot" "tblOk exT2" "ext exT1 exT2" "canon exT2 exWant" "canon exT2 exGot"
proof -
  have r: "rawTy exTab exInner" "rawTy exTab exOuter" by (simp_all add: exInner_def exOuter_def nm_def mnm_def)
  have "made exTab (exGot, exT1) (resErased exTab [] exInner)"
    using ttResolve_made(1)[OF exTab_ok r(1), of "[]"] by (simp add: exGot_def exT1_def)
  note A = madeD[OF this]
  show a: "tblOk exT1" "ext exTab exT1" "canon exT1 exGot" using A by simp_all
  have "made exT1 (exWant, exT2) (resErased exT1 [] exOuter)"
    using ttResolve_made(1)[OF a(1) rawTy_ext[OF a(2) r(2)], of "[]"] by (simp add: exWant_def exT2_def)
  note B = madeD[OF this]
  show b: "tblOk exT2" "ext exT1 exT2" "canon exT2 exWant" using B by simp_all
  show "canon exT2 exGot" by (rule ext_canon[OF b(2) a(3)])
qed

lemma ex_forged: "ttViewDowngradable exWant exGot" "\<not> ttViewDowngradable exGot exWant" "tt_err exT2 = None"
  by code_simp+

theorem view_order_witness: "ttMangle exT2 exWant = ttMangle exT2 exGot \<and> ttViewDowngradable exGot exGot"
  using view_order[OF ex_views(4,6,7,7)] view_order[OF ex_views(4,7,7,7)] ex_forged(1) by blast

theorem readonly_view_witness:
  "case ttViewReadonly exGot exT1 of (u, T') \<Rightarrow> erase u = roErased (erase exGot) \<and> ttViewReadonly u T' = (u, T')"
  using readonly_view[OF ex_views(1,3)] by auto

text \<open>The mut of an element is dropped under a writable view. A writable view of writable views is
  accepted where a writable view of read-only views is expected, although the other direction is
  refused: through the result a read-only view can be stored in a place that its owner reads as
  writable.\<close>

theorem mut_dropped_under_mut:
  "ttRender exT2 exGot = ''mut slice<mut slice<i32>>'' \<and> ttRender exT2 exWant = ''mut slice<slice<i32>>'' \<and>
   ttViewDowngradable exWant exGot \<and> \<not> ttViewDowngradable exGot exWant \<and> tt_err exT2 = None"
  by (intro conjI; code_simp)

section \<open>Names\<close>

definition exP :: "ty \<times> typeTable" where "exP = ttResolve [] (nm ''A'' [nm ''i32'' [], nm ''u8'' []]) exTab"
definition exQ :: "ty \<times> typeTable" where "exQ = ttResolve [] (nm ''A_i32'' [nm ''u8'' []]) (snd exP)"

text \<open>C names are not unique. The instance \<open>A<i32, u8>\<close> and the instance \<open>A_i32<u8>\<close> of another
  declaration are different types with the same mangled name, and both are resolved without an error.\<close>

theorem mangle_collides:
  "\<not> ttEquals (fst exP) (fst exQ) \<and> ttMangle (snd exQ) (fst exP) = ttMangle (snd exQ) (fst exQ) \<and>
   tt_err (snd exQ) = None"
  by (intro conjI; code_simp)

text \<open>\<open>mut\<close> on a name without type arguments. The resolution of \<open>mut i32\<close> is \<open>i32\<close> itself and no error
  is reported, while \<open>mut\<close> on an instance that is not a view is refused.\<close>

theorem plain_mut_accepted:
  "fst (ttResolve [] (mnm ''i32'' []) exTab) = i32 \<and> tt_err (snd (ttResolve [] (mnm ''i32'' []) exTab)) = None \<and>
   tt_err (snd (ttResolve [] (mnm ''A_i32'' [nm ''u8'' []]) exTab)) = Some (MutQualifies ''A_i32'')"
  by (intro conjI; code_simp)

section \<open>Operators\<close>

fun elemOf :: "ty \<Rightarrow> ty" where
  "elemOf (TArray _ _ i) = elemOf i"
| "elemOf t = t"

lemma array_not_native: "\<not> nativeOp T (TArray p n i) ''==''" "\<not> nativeOp T (TArray p n i) ''!=''"
  by (simp_all add: nativeOp_def isEqualityOp_def cmpIsNative_def ttIsInteger_def intInfo_def ttIsFloat_def ttIs_def)

lemma supports_ne:
  assumes "tblOk T"
  shows "canon T t \<Longrightarrow> canonOps T (ttBase (elemOf t)) \<Longrightarrow> \<forall>r. rhs = Some r \<longrightarrow> canon T r \<Longrightarrow>
    fst (typeSupportsOp t ''=='' rhs T) \<Longrightarrow> fst (typeSupportsOp t ''!='' rhs T)"
proof (induction t arbitrary: rhs)
  case (TArray p n i)
  obtain r where r: "rhs = Some r" "ttEquals (TArray p n i) (ttBase r)" "fst (typeSupportsOp i ''=='' (Some i) T)"
    using TArray.prems(4) array_not_native(1) by (auto simp: isEqualityOp_def split: option.splits if_splits simp del: structOp.simps ttEquals.simps)
  have "fst (typeSupportsOp i ''!='' (Some i) T)" using TArray.IH[of "Some i"] TArray.prems r(3) by simp
  then show ?case using r(1,2) array_not_native(2) by (simp add: isEqualityOp_def del: structOp.simps ttEquals.simps)
next
qed (use structOp_spec[OF assms] in \<open>simp_all add: nativeOp_def isEqualityOp_def split: if_splits del: structOp.simps\<close>)

text \<open>\<open>!=\<close> comes with \<open>==\<close>. A type that supports \<open>==\<close> with an operand supports \<open>!=\<close> with it, whether
  natively, through the elements of an array or through a method; and an array supports \<open>==\<close> only with
  the same array type.\<close>

theorem equality_operators:
  assumes "tblOk T" "canon T t" "canonOps T (ttBase (elemOf t))" "\<forall>r. rhs = Some r \<longrightarrow> canon T r"
    "fst (typeSupportsOp t ''=='' rhs T)"
  shows "fst (typeSupportsOp t ''!='' rhs T) \<and>
    (\<forall>p n i. t = TArray p n i \<longrightarrow> (\<exists>r. rhs = Some r \<and> ttEquals t (ttBase r)))"
  using supports_ne[OF assms] assms(5) array_not_native(1)
  by (auto simp: isEqualityOp_def split: option.splits if_splits simp del: structOp.simps ttEquals.simps)

theorem equality_operators_witness:
  "let (a, T) = ttArray 2 i32 exTab in fst (typeSupportsOp a ''!='' (Some a) T)"
proof -
  obtain a T where a: "ttArray 2 i32 exTab = (a, T)" by fastforce
  have "builds exTab (a, T) (TArray 0 2 (erase i32))" using ttArray_builds[OF exTab_ok ex_canon(1), of 2] a by simp
  note D = buildsD[OF this]
  have e: "fst (ttArray 2 i32 exTab) = TArray 13 2 i32" by code_simp
  then have a2: "a = TArray 13 2 i32" using a by simp
  have c: "canon T i32" using ext_canon ex_canon(1) D by blast
  then have "canonOps T (ttBase (elemOf a))" by (simp add: a2 canonOps_def structOf_def del: canon.simps)
  moreover have "fst (typeSupportsOp (TArray 13 2 i32) ''=='' (Some (TArray 13 2 i32)) (snd (ttArray 2 i32 exTab)))" by code_simp
  ultimately show ?thesis using equality_operators[of T a "Some a"] D a a2 by simp
qed

end
