(* ===== verification/Types_Widen.thy ===== *)
theory Types_Widen
  imports Types Complex_Main
begin

text \<open>Implicit widening between the numeric builtin types, compared with the sets of numbers the types can
  hold: an interval of integers, or the numbers of a binary format with a bounded significand and
  exponent.\<close>

definition intVals :: "nat \<Rightarrow> bool \<Rightarrow> real set" where
  "intVals b s = (if s then {of_int n | n. - (2 ^ (b - 1)) \<le> n \<and> n < (2 ^ (b - 1) :: int)}
     else {of_int n | n. 0 \<le> n \<and> n < (2 ^ b :: int)})"

definition floatVals :: "nat \<Rightarrow> int \<Rightarrow> int \<Rightarrow> real set" where
  "floatVals m lo hi = {of_int k * 2 powi e | k e. \<bar>k\<bar> < 2 ^ m \<and> lo \<le> e \<and> e \<le> hi}"

text \<open>The finite numbers of the binary32 and binary64 formats.\<close>

definition numVals :: "string \<Rightarrow> real set" where
  "numVals n = (if n = ''f32'' then floatVals 24 (-149) 104 else if n = ''f64'' then floatVals 53 (-1074) 971
     else case List.find (\<lambda>i. in_name i = n) INTS of Some i \<Rightarrow> intVals (in_bits i) (in_sgn i) | None \<Rightarrow> {})"

definition intNames :: "string list" where "intNames = map in_name INTS"

section \<open>Integers in a binary format\<close>

lemma int_in_float: "\<bar>n\<bar> < 2 ^ m \<Longrightarrow> lo \<le> 0 \<Longrightarrow> 0 \<le> hi \<Longrightarrow> of_int n \<in> floatVals m lo hi"
  unfolding floatVals_def by (intro CollectI exI[of _ n] exI[of _ 0]) simp

lemma odd_not_in_float:
  assumes "odd n" "2 ^ m < n"
  shows "of_int n \<notin> floatVals m lo hi"
proof
  assume "of_int n \<in> floatVals m lo hi"
  then obtain k e where k: "(of_int n :: real) = of_int k * 2 powi e" "\<bar>k\<bar> < 2 ^ m" by (auto simp: floatVals_def)
  show False
  proof (cases "0 \<le> e")
    case True
    then have "(of_int n :: real) = of_int (k * 2 ^ nat e)" using k(1) by (simp add: power_int_def)
    then have n: "n = k * 2 ^ nat e" by (simp only: of_int_eq_iff)
    then have "nat e = 0" using assms(1) by (cases "nat e") simp_all
    then show False using n assms(2) k(2) by simp
  next
    case False
    then have "(of_int n :: real) * 2 ^ nat (- e) = of_int k" using k(1) by (simp add: power_int_def field_simps)
    then have "(of_int (n * 2 ^ nat (- e)) :: real) = of_int k" by simp
    then have e: "n * 2 ^ nat (- e) = k" by (simp only: of_int_eq_iff)
    have "0 \<le> n" using assms(2) zero_less_power[of "2 :: int" m] by linarith
    then have "n * 1 \<le> n * 2 ^ nat (- e)" by (intro mult_left_mono) simp_all
    then show False using e assms(2) k(2) by simp
  qed
qed

lemma half_not_int: "(1 / 2 :: real) \<notin> intVals b s"
proof
  assume "(1 / 2 :: real) \<in> intVals b s"
  then obtain n :: int where "(1 / 2 :: real) = of_int n" by (auto simp: intVals_def split: if_splits)
  then have "(of_int 1 :: real) = of_int (2 * n)" by simp
  then have "(1 :: int) = 2 * n" by (simp only: of_int_eq_iff)
  then show False by presburger
qed

lemma half_in_float: "1 \<le> m \<Longrightarrow> lo \<le> -1 \<Longrightarrow> -1 \<le> hi \<Longrightarrow> 1 / 2 \<in> floatVals m lo hi"
  unfolding floatVals_def by (intro CollectI exI[of _ 1] exI[of _ "-1"]) (simp add: power_int_def)

lemma float_mono: "m \<le> m' \<Longrightarrow> lo' \<le> lo \<Longrightarrow> hi \<le> hi' \<Longrightarrow> floatVals m lo hi \<subseteq> floatVals m' lo' hi'"
proof
  fix x assume le: "m \<le> m'" "lo' \<le> lo" "hi \<le> hi'" and x: "x \<in> floatVals m lo hi"
  obtain k e where k: "x = of_int k * 2 powi e" "\<bar>k\<bar> < 2 ^ m" "lo \<le> e" "e \<le> hi" using x by (auto simp: floatVals_def)
  have "(2 :: int) ^ m \<le> 2 ^ m'" using le(1) by (rule power_increasing) simp
  then have "\<bar>k\<bar> < 2 ^ m'" using k(2) by linarith
  then show "x \<in> floatVals m' lo' hi'" unfolding floatVals_def using k le
    by (intro CollectI) (rule exI[of _ k], rule exI[of _ e], simp)
qed

section \<open>The intervals\<close>

lemma intVals_sub:
  assumes "0 < b" "0 < b'"
  shows "intVals b s \<subseteq> intVals b' s' \<longleftrightarrow> (if s = s' then b \<le> b' else \<not> s \<and> b < b')"
proof -
  have iv: "({of_int n | n. lo \<le> n \<and> n < hi} :: real set) \<subseteq> {of_int n | n. lo' \<le> n \<and> n < hi'} \<longleftrightarrow> lo' \<le> lo \<and> hi \<le> hi'"
    if "lo < hi" for lo hi lo' hi' :: int
  proof
    assume s: "({of_int n | n. lo \<le> n \<and> n < hi} :: real set) \<subseteq> {of_int n | n. lo' \<le> n \<and> n < hi'}"
    have "(of_int lo :: real) \<in> {of_int n | n. lo \<le> n \<and> n < hi}" "(of_int (hi - 1) :: real) \<in> {of_int n | n. lo \<le> n \<and> n < hi}"
      using that by (intro CollectI exI[of _ lo] exI[of _ "hi - 1"]; simp)+
    then have "(of_int lo :: real) \<in> {of_int n | n. lo' \<le> n \<and> n < hi'}" "(of_int (hi - 1) :: real) \<in> {of_int n | n. lo' \<le> n \<and> n < hi'}"
      using s by blast+
    then obtain a c where "(of_int lo :: real) = of_int a" "lo' \<le> a" "(of_int (hi - 1) :: real) = of_int c" "c < hi'" by blast
    then have "lo' \<le> lo" "hi - 1 < hi'" by (simp_all only: of_int_eq_iff)
    then show "lo' \<le> lo \<and> hi \<le> hi'" by simp
  qed (fastforce)
  have p: "(2 :: int) ^ x \<le> 2 ^ y \<longleftrightarrow> x \<le> y" for x y :: nat by simp
  have q: "0 < (2 :: int) ^ x" for x :: nat by simp
  have d: "b - 1 \<le> b' - 1 \<longleftrightarrow> b \<le> b'" "b \<le> b' - 1 \<longleftrightarrow> b < b'" using assms by auto
  show ?thesis
  proof (cases s; cases s')
    assume s: s s'
    show ?thesis unfolding intVals_def using s iv[of "- (2 ^ (b - 1))" "2 ^ (b - 1)" "- (2 ^ (b' - 1))" "2 ^ (b' - 1)"] p q d
      by simp
  next
    assume s: "\<not> s" s'
    show ?thesis unfolding intVals_def using s iv[of 0 "2 ^ b" "- (2 ^ (b' - 1))" "2 ^ (b' - 1)"] p q d by simp
  next
    assume s: s "\<not> s'"
    show ?thesis unfolding intVals_def using s iv[of "- (2 ^ (b - 1))" "2 ^ (b - 1)" 0 "2 ^ b'"] q[of "b - 1"] by simp
  next
    assume s: "\<not> s" "\<not> s'"
    show ?thesis unfolding intVals_def using s iv[of 0 "2 ^ b" 0 "2 ^ b'"] p q by simp
  qed
qed

lemma int_float_sub:
  assumes "0 < b" "b \<noteq> m + 1" "lo \<le> 0" "0 \<le> hi" "0 < m"
  shows "intVals b s \<subseteq> floatVals m lo hi \<longleftrightarrow> b \<le> m"
proof
  assume b: "b \<le> m"
  show "intVals b s \<subseteq> floatVals m lo hi"
  proof
    fix x assume "x \<in> intVals b s"
    then obtain n :: int where n: "x = of_int n" "\<bar>n\<bar> < 2 ^ b"
    proof (cases s)
      case True
      assume "x \<in> intVals b s" and t: "\<And>n. x = of_int n \<Longrightarrow> \<bar>n\<bar> < 2 ^ b \<Longrightarrow> thesis"
      then obtain n :: int where n: "x = of_int n" "- (2 ^ (b - 1)) \<le> n" "n < 2 ^ (b - 1)" using True by (auto simp: intVals_def)
      have "(2 :: int) ^ (b - 1) < 2 ^ b" using assms(1) by (intro power_strict_increasing) simp_all
      then have "\<bar>n\<bar> < 2 ^ b" using n(2,3) by linarith
      then show thesis using t[OF n(1)] by simp
    qed (auto simp: intVals_def)
    have "(2 :: int) ^ b \<le> 2 ^ m" using b by (rule power_increasing) simp
    then have "\<bar>n\<bar> < 2 ^ m" using n(2) by linarith
    then show "x \<in> floatVals m lo hi" using int_in_float[of n m lo hi] assms(3,4) n(1) by simp
  qed
next
  assume s: "intVals b s \<subseteq> floatVals m lo hi"
  show "b \<le> m"
  proof (rule ccontr)
    assume "\<not> b \<le> m"
    then have b: "m + 1 < b" using assms(2) by simp
    then have "(2 :: int) ^ (m + 1) \<le> 2 ^ (b - 1)" by (intro power_increasing) simp_all
    then have l2: "(2 :: int) ^ m + 1 < 2 ^ (b - 1)" proof -
      assume "(2 :: int) ^ (m + 1) \<le> 2 ^ (b - 1)"
      then have "2 * (2 :: int) ^ m \<le> 2 ^ (b - 1)" by simp
      moreover have "1 < (2 :: int) ^ m" using assms(5) by (intro one_less_power) simp_all
      ultimately show ?thesis by linarith
    qed
    have le: "(2 :: int) ^ (b - 1) \<le> 2 ^ b" by (rule power_increasing) simp_all
    have g: "0 < (2 :: int) ^ m" "0 < (2 :: int) ^ (b - 1)" by simp_all
    have "(of_int (2 ^ m + 1) :: real) \<in> intVals b s"
    proof (cases s)
      case True
      have "- (2 ^ (b - 1)) \<le> (2 :: int) ^ m + 1" using g by linarith
      then show ?thesis unfolding intVals_def using True l2 by (auto intro!: exI[of _ "2 ^ m + 1"])
    next
      case f: False
      have "2 ^ m + 1 < (2 :: int) ^ b" using l2 le by linarith
      then show ?thesis unfolding intVals_def using f g by (auto intro!: exI[of _ "2 ^ m + 1"])
    qed
    moreover have "odd ((2 :: int) ^ m + 1)" using assms(5) by simp
    ultimately show False using s odd_not_in_float[of "2 ^ m + 1" m lo hi] by auto
  qed
qed

section \<open>Widening is inclusion\<close>

lemma intInfo_cases:
  assumes "i \<in> set INTS"
  shows "in_bits i \<in> {8, 16, 32, 64}" "List.find (\<lambda>j. in_name j = in_name i) INTS = Some i"
    "in_name i \<noteq> ''f32''" "in_name i \<noteq> ''f64''"
proof -
  have "list_all (\<lambda>i. in_bits i \<in> {8, 16, 32, 64} \<and> List.find (\<lambda>j. in_name j = in_name i) INTS = Some i \<and>
      in_name i \<noteq> ''f32'' \<and> in_name i \<noteq> ''f64'') INTS" by code_simp
  then show "in_bits i \<in> {8, 16, 32, 64}" "List.find (\<lambda>j. in_name j = in_name i) INTS = Some i"
    "in_name i \<noteq> ''f32''" "in_name i \<noteq> ''f64''"
    using assms by (simp_all only: list_all_iff) blast+
qed

lemma numVals_int: "i \<in> set INTS \<Longrightarrow> numVals (in_name i) = intVals (in_bits i) (in_sgn i)"
  using intInfo_cases[of i] by (simp add: numVals_def)

lemma intWiden_sub:
  assumes "i \<in> set INTS" "j \<in> set INTS"
  shows "intWiden i j \<longleftrightarrow> numVals (in_name i) \<subseteq> numVals (in_name j)"
proof -
  have "0 < in_bits i" "0 < in_bits j" using intInfo_cases(1)[OF assms(1)] intInfo_cases(1)[OF assms(2)] by auto
  from intVals_sub[OF this] show ?thesis by (auto simp: numVals_int assms intWiden_def)
qed

lemma int_to_float:
  assumes "i \<in> set INTS"
  shows "numVals (in_name i) \<subseteq> numVals ''f32'' \<longleftrightarrow> in_bits i \<le> 24"
    "numVals (in_name i) \<subseteq> numVals ''f64'' \<longleftrightarrow> in_bits i \<le> 53"
proof -
  have "0 < in_bits i" "in_bits i \<noteq> 24 + 1" "in_bits i \<noteq> 53 + 1" using intInfo_cases(1)[OF assms] by auto
  then show "numVals (in_name i) \<subseteq> numVals ''f32'' \<longleftrightarrow> in_bits i \<le> 24"
    "numVals (in_name i) \<subseteq> numVals ''f64'' \<longleftrightarrow> in_bits i \<le> 53"
    using int_float_sub[of "in_bits i" 24 "-149" 104 "in_sgn i"] int_float_sub[of "in_bits i" 53 "-1074" 971 "in_sgn i"]
    by (simp_all only: numVals_int[OF assms]) (simp_all add: numVals_def)
qed

lemma float_to_int:
  assumes "i \<in> set INTS"
  shows "\<not> numVals ''f32'' \<subseteq> numVals (in_name i)" "\<not> numVals ''f64'' \<subseteq> numVals (in_name i)"
proof -
  have "1 / 2 \<in> numVals ''f32''" "1 / 2 \<in> numVals ''f64''" by (simp_all add: numVals_def half_in_float)
  then show "\<not> numVals ''f32'' \<subseteq> numVals (in_name i)" "\<not> numVals ''f64'' \<subseteq> numVals (in_name i)"
    using half_not_int numVals_int[OF assms] by blast+
qed

lemma float_to_float:
  "numVals ''f32'' \<subseteq> numVals ''f64''" "\<not> numVals ''f64'' \<subseteq> numVals ''f32''"
proof -
  show "numVals ''f32'' \<subseteq> numVals ''f64''" by (simp add: numVals_def float_mono)
  have "odd ((2 :: int) ^ 24 + 1)" "\<bar>(2 :: int) ^ 24 + 1\<bar> < 2 ^ 53" by simp_all
  then have "(of_int (2 ^ 24 + 1) :: real) \<in> numVals ''f64''" "(of_int (2 ^ 24 + 1) :: real) \<notin> numVals ''f32''"
    using int_in_float[of "2 ^ 24 + 1" 53 "-1074" 971] odd_not_in_float[of "2 ^ 24 + 1" 24 "-149" 104]
    by (simp_all add: numVals_def)
  then show "\<not> numVals ''f64'' \<subseteq> numVals ''f32''" by blast
qed

lemma numeric_names:
  assumes "ttIsNumeric (TBuiltin p n)"
  shows "(\<exists>i \<in> set INTS. n = in_name i \<and> intInfo (TBuiltin p n) = Some i) \<or>
    (n = ''f32'' \<or> n = ''f64'') \<and> intInfo (TBuiltin p n) = None"
proof (cases "List.find (\<lambda>i. in_name i = n) INTS")
  case None
  then show ?thesis using assms by (auto simp: ttIsNumeric_def ttIsInteger_def ttIsFloat_def intInfo_def)
next
  case (Some i)
  then have "i \<in> set INTS" "in_name i = n" by (auto simp: find_Some_iff)
  then show ?thesis using Some by (auto simp: intInfo_def)
qed

text \<open>C27: implicit widening loses nothing, and everything that loses nothing is allowed. Between two
  different numeric builtin types \<open>ttCanWiden\<close> accepts exactly when every number of the source type is a
  number of the target type, floats being the numbers of the binary32 and binary64 formats.\<close>

theorem widening_lossless:
  assumes "ttIsNumeric (TBuiltin p n)" "ttIsNumeric (TBuiltin q m)" "p \<noteq> q" "n \<noteq> m"
  shows "ttCanWiden (TBuiltin p n) (TBuiltin q m) \<longleftrightarrow> numVals n \<subseteq> numVals m"
proof -
  have W: "ttCanWiden (TBuiltin p n) (TBuiltin q m) \<longleftrightarrow> (case (intInfo (TBuiltin p n), intInfo (TBuiltin q m)) of
      (Some fi, Some ti) \<Rightarrow> intWiden fi ti
    | (Some fi, None) \<Rightarrow> (m = ''f32'' \<or> m = ''f64'') \<and> in_bits fi \<le> (if m = ''f32'' then 24 else 53)
    | (None, _) \<Rightarrow> (n = ''f32'' \<or> n = ''f64'') \<and> (m = ''f32'' \<or> m = ''f64'') \<and> n = ''f32'' \<and> m = ''f64'')"
    using assms(3) by (simp add: ttCanWiden_def ttIsFloat_def ttIs_def split: option.split)
  from numeric_names[OF assms(1)] numeric_names[OF assms(2)] show ?thesis unfolding W
  proof (elim disjE bexE conjE)
    fix i j assume "i \<in> set INTS" "n = in_name i" "intInfo (TBuiltin p n) = Some i"
      "j \<in> set INTS" "m = in_name j" "intInfo (TBuiltin q m) = Some j"
    then show "(case (intInfo (TBuiltin p n), intInfo (TBuiltin q m)) of
      (Some fi, Some ti) \<Rightarrow> intWiden fi ti
    | (Some fi, None) \<Rightarrow> (m = ''f32'' \<or> m = ''f64'') \<and> in_bits fi \<le> (if m = ''f32'' then 24 else 53)
    | (None, _) \<Rightarrow> (n = ''f32'' \<or> n = ''f64'') \<and> (m = ''f32'' \<or> m = ''f64'') \<and> n = ''f32'' \<and> m = ''f64'') \<longleftrightarrow>
      numVals n \<subseteq> numVals m"
      using intWiden_sub[of i j] by simp
  qed (use assms(4) in \<open>auto simp: int_to_float float_to_int float_to_float intInfo_cases(3,4)\<close>)
qed

theorem widening_lossless_witness:
  "numVals ''u32'' \<subseteq> numVals ''f64'' \<and> \<not> numVals ''i64'' \<subseteq> numVals ''f64''"
proof -
  have n: "ttIsNumeric (TBuiltin p ''u32'')" "ttIsNumeric (TBuiltin p ''i64'')" "ttIsNumeric (TBuiltin p ''f64'')" for p
    by (simp_all add: ttIsNumeric_def ttIsInteger_def ttIsFloat_def intInfo_def INTS_def)
  have "ttCanWiden (TBuiltin 6 ''u32'') (TBuiltin 9 ''f64'')" "\<not> ttCanWiden (TBuiltin 3 ''i64'') (TBuiltin 9 ''f64'')"
    by code_simp+
  then show ?thesis
    using widening_lossless[OF n(1) n(3), of 6 9] widening_lossless[OF n(2) n(3), of 3 9] by simp
qed

end
