(* ===== verification/Types_Walk.thy ===== *)
theory Types_Walk
  imports Types_Layer
begin

text \<open>The walks over the inside of a type in check/check_lookup.c: whether it can hold a reference, a
  function, or has no zero value. A walk substitutes the arguments of an instance into the fields and
  payloads of its declaration, which builds nodes, so it threads the table; it gives up with the
  answer "yes" below 64 levels.\<close>

definition ZERO_VALUE_DEPTH_LIMIT :: nat where "ZERO_VALUE_DEPTH_LIMIT = 64"

text \<open>A variant is its name and the types of its payload.\<close>

definition findVariant :: "typeDef option \<Rightarrow> string \<Rightarrow> (string \<times> ty list) option" where
  "findVariant td n = (case td of None \<Rightarrow> None | Some d \<Rightarrow> List.find (\<lambda>v. fst v = n) (td_variants d))"

definition payloadType :: "ty \<Rightarrow> string \<times> ty list \<Rightarrow> nat \<Rightarrow> typeTable \<Rightarrow> ty \<times> typeTable" where
  "payloadType et v k T = (let pt = snd v ! k in
     case et of TEnum _ e ts \<Rightarrow> (let ps = td_params (tt_edef T e) in
         if length ps > 0 \<and> length ts = length ps then ttSubstitute pt ps ts T else (pt, T))
     | _ \<Rightarrow> (pt, T))"

text \<open>A loop that stops at the first hit.\<close>

fun anyOf :: "('a \<Rightarrow> typeTable \<Rightarrow> bool \<times> typeTable) \<Rightarrow> 'a list \<Rightarrow> typeTable \<Rightarrow> bool \<times> typeTable" where
  "anyOf f [] T = (False, T)"
| "anyOf f (x # xs) T = (let (b, T1) = f x T in if b then (True, T1) else anyOf f xs T1)"

lemma anyOf_cong [fundef_cong]:
  "xs = ys \<Longrightarrow> T = T' \<Longrightarrow> (\<And>x S. x \<in> set ys \<Longrightarrow> f x S = g x S) \<Longrightarrow> anyOf f xs T = anyOf g ys T'"
proof (induction xs arbitrary: ys T T')
  case (Cons x xs)
  then show ?case by (auto split: prod.split)
qed simp

definition payloadsOf :: "typeDef \<Rightarrow> ((string \<times> ty list) \<times> nat) list" where
  "payloadsOf d = concat (map (\<lambda>v. map (Pair v) [0..<length (snd v)]) (td_variants d))"

text \<open>The parameters and arguments to substitute into the fields: none (NULL) unless they fit.\<close>

definition fieldSubst :: "typeTable \<Rightarrow> ty \<Rightarrow> nat \<Rightarrow> string list \<times> ty list" where
  "fieldSubst T t s = (case t of TGeneric _ _ ts _ _ \<Rightarrow>
       (if length ts = length (sd_params (tt_sdef T s)) then (sd_params (tt_sdef T s), ts) else ([], []))
     | _ \<Rightarrow> ([], []))"

definition fieldType :: "ty \<Rightarrow> nat \<Rightarrow> ty \<Rightarrow> typeTable \<Rightarrow> ty \<times> typeTable" where
  "fieldType t s ft T = (case fieldSubst T t s of (ps, as) \<Rightarrow> ttSubstitute ft ps as T)"

function typeContainsRefAt :: "ty \<Rightarrow> nat \<Rightarrow> typeTable \<Rightarrow> bool \<times> typeTable" where
  "typeContainsRefAt t d T = (if d > ZERO_VALUE_DEPTH_LIMIT then (True, T) else case t of
       TRef _ _ _ _ \<Rightarrow> (True, T)
     | TArray _ _ i \<Rightarrow> typeContainsRefAt i (d + 1) T
     | TEnum _ e _ \<Rightarrow> anyOf (\<lambda>(v, i) T. let (p, T1) = payloadType t v i T in typeContainsRefAt p (d + 1) T1)
         (payloadsOf (tt_edef T e)) T
     | _ \<Rightarrow> (case structOf t of None \<Rightarrow> (False, T)
       | Some s \<Rightarrow> anyOf (\<lambda>f T. let (p, T1) = fieldType t s (snd f) T in typeContainsRefAt p (d + 1) T1)
           (sd_fields (tt_sdef T s)) T))"
  by pat_completeness auto
termination by (relation "measure (\<lambda>(t, d, T). ZERO_VALUE_DEPTH_LIMIT + 1 - d)") auto

definition typeContainsRef :: "ty \<Rightarrow> typeTable \<Rightarrow> bool \<times> typeTable" where
  "typeContainsRef t = typeContainsRefAt t 0"

function typeHoldsCountedRef :: "ty \<Rightarrow> typeTable \<Rightarrow> bool \<times> typeTable" where
  "typeHoldsCountedRef t T = (if ttIsViewType T t
     then (case t of TGeneric _ _ ts _ _ \<Rightarrow> anyOf typeHoldsCountedRef ts T | _ \<Rightarrow> (False, T))
     else typeContainsRef t T)"
  by pat_completeness auto
termination by (relation "measure (\<lambda>(t, T). size t)") (auto simp: less_Suc_eq_le size_list_estimation')

function typeContainsFnAt :: "ty \<Rightarrow> nat \<Rightarrow> typeTable \<Rightarrow> bool \<times> typeTable" where
  "typeContainsFnAt t d T = (if d > ZERO_VALUE_DEPTH_LIMIT then (True, T) else case t of
       TFn _ _ _ \<Rightarrow> (True, T)
     | TArray _ _ i \<Rightarrow> typeContainsFnAt i (d + 1) T
     | TEnum _ e _ \<Rightarrow> anyOf (\<lambda>(v, i) T. let (p, T1) = payloadType t v i T in typeContainsFnAt p (d + 1) T1)
         (payloadsOf (tt_edef T e)) T
     | _ \<Rightarrow> (case structOf t of None \<Rightarrow> (False, T)
       | Some s \<Rightarrow> anyOf (\<lambda>f T. let (p, T1) = fieldType t s (snd f) T in typeContainsFnAt p (d + 1) T1)
           (sd_fields (tt_sdef T s)) T))"
  by pat_completeness auto
termination by (relation "measure (\<lambda>(t, d, T). ZERO_VALUE_DEPTH_LIMIT + 1 - d)") auto

definition typeContainsFn :: "ty \<Rightarrow> typeTable \<Rightarrow> bool \<times> typeTable" where
  "typeContainsFn t = typeContainsFnAt t 0"

text \<open>The zero value of an enum is its first variant with a zeroed payload.\<close>

function typeLacksZeroValueAt :: "ty \<Rightarrow> nat \<Rightarrow> typeTable \<Rightarrow> bool \<times> typeTable" where
  "typeLacksZeroValueAt t d T = (if d > ZERO_VALUE_DEPTH_LIMIT then (True, T) else case t of
       TRef _ _ nu _ \<Rightarrow> (\<not> nu, T)
     | TFn _ _ _ \<Rightarrow> (True, T)
     | TArray _ _ i \<Rightarrow> typeLacksZeroValueAt i (d + 1) T
     | TEnum _ e _ \<Rightarrow> (case td_variants (tt_edef T e) of [] \<Rightarrow> (False, T)
         | v0 # _ \<Rightarrow> anyOf (\<lambda>i T. let (p, T1) = payloadType t v0 i T in typeLacksZeroValueAt p (d + 1) T1)
             [0..<length (snd v0)] T)
     | _ \<Rightarrow> (case structOf t of None \<Rightarrow> (False, T)
       | Some s \<Rightarrow> anyOf (\<lambda>f T. let (p, T1) = fieldType t s (snd f) T in typeLacksZeroValueAt p (d + 1) T1)
           (sd_fields (tt_sdef T s)) T))"
  by pat_completeness auto
termination by (relation "measure (\<lambda>(t, d, T). ZERO_VALUE_DEPTH_LIMIT + 1 - d)") auto

definition typeLacksZeroValue :: "ty \<Rightarrow> typeTable \<Rightarrow> bool \<times> typeTable" where
  "typeLacksZeroValue t = typeLacksZeroValueAt t 0"

declare typeContainsRefAt.simps [simp del] typeHoldsCountedRef.simps [simp del]
  typeContainsFnAt.simps [simp del] typeLacksZeroValueAt.simps [simp del]

section \<open>The parts of a type\<close>

text \<open>The components of a type as trees without addresses: the element of an array, the payloads of an
  enum, the fields of a struct, with the arguments of an instance in place of the parameters.\<close>

definition payE :: "typeTable \<Rightarrow> nat \<Rightarrow> ty list \<Rightarrow> ty \<Rightarrow> ty" where
  "payE T e ts p = (let ps = td_params (tt_edef T e) in
     if ps \<noteq> [] \<and> length ts = length ps then substErased ps (map erase ts) (erase p) else erase p)"

definition fieldE :: "typeTable \<Rightarrow> nat \<Rightarrow> ty list \<Rightarrow> ty \<Rightarrow> ty" where
  "fieldE T s ts f = (let ps = sd_params (tt_sdef T s) in
     if ps \<noteq> [] \<and> length ts = length ps then substErased ps (map erase ts) (erase f) else erase f)"

definition partsOf :: "typeTable \<Rightarrow> ty \<Rightarrow> ty list" where
  "partsOf T t = (case t of
       TArray _ _ i \<Rightarrow> [erase i]
     | TEnum _ e ts \<Rightarrow> map (payE T e ts) (concat (map snd (td_variants (tt_edef T e))))
     | TStruct _ s \<Rightarrow> map (fieldE T s [] \<circ> snd) (sd_fields (tt_sdef T s))
     | TGeneric _ s ts _ _ \<Rightarrow> map (fieldE T s ts \<circ> snd) (sd_fields (tt_sdef T s))
     | _ \<Rightarrow> [])"

text \<open>The parts that a zero value has: of an enum, only its first variant.\<close>

definition zeroPartsOf :: "typeTable \<Rightarrow> ty \<Rightarrow> ty list" where
  "zeroPartsOf T t = (case t of
       TEnum _ e ts \<Rightarrow> map (payE T e ts) (concat (map snd (take 1 (td_variants (tt_edef T e)))))
     | _ \<Rightarrow> partsOf T t)"

definition partRel :: "(ty \<Rightarrow> ty list) \<Rightarrow> (ty \<times> ty) set" where
  "partRel ps = {(t, u). u \<in> set (ps t)}"

primrec holdsIn :: "(ty \<Rightarrow> ty list) \<Rightarrow> (ty \<Rightarrow> bool) \<Rightarrow> nat \<Rightarrow> ty \<Rightarrow> bool" where
  "holdsIn ps P 0 t \<longleftrightarrow> True"
| "holdsIn ps P (Suc n) t \<longleftrightarrow> P t \<or> list_ex (holdsIn ps P n) (ps t)"

lemma holdsIn_iff:
  "holdsIn ps P n t \<longleftrightarrow> (\<exists>k u. k < n \<and> (t, u) \<in> partRel ps ^^ k \<and> P u) \<or> (\<exists>u. (t, u) \<in> partRel ps ^^ n)"
proof (induction n arbitrary: t)
  case (Suc n)
  have s: "(t, u) \<in> partRel ps ^^ Suc k \<longleftrightarrow> (\<exists>v \<in> set (ps t). (v, u) \<in> partRel ps ^^ k)" for k u
    by (simp only: relpow_commute relpow.simps(2)) (auto simp: partRel_def relpow_commute[symmetric])
  have "(\<exists>k u. k < Suc n \<and> (t, u) \<in> partRel ps ^^ k \<and> P u) \<longleftrightarrow>
      P t \<or> (\<exists>k u. k < n \<and> (t, u) \<in> partRel ps ^^ Suc k \<and> P u)"
    unfolding less_Suc_eq_0_disj by (auto simp del: relpow.simps(2))
  then show ?case unfolding holdsIn.simps list_ex_iff Suc s by blast
qed auto

section \<open>The walks\<close>

definition declsOk :: "typeTable \<Rightarrow> bool" where
  "declsOk T \<longleftrightarrow> (\<forall>s. \<forall>f \<in> set (sd_fields (tt_sdef T s)). canon T (snd f)) \<and>
     (\<forall>e. \<forall>v \<in> set (td_variants (tt_edef T e)). list_all (canon T) (snd v))"

lemma declsOk_ext: "ext T T' \<Longrightarrow> declsOk T \<Longrightarrow> declsOk T'"
  using ext_canon[of T T'] ext_canons[of T T']
  by (simp add: declsOk_def sdGrows_fields(7)[OF extD(8)] tdGrows_fields(3)[OF extD(9)])

lemma partsOf_ext: "ext T T' \<Longrightarrow> partsOf T' = partsOf T" "ext T T' \<Longrightarrow> zeroPartsOf T' = zeroPartsOf T"
proof -
  assume x: "ext T T'"
  have p: "payE T' = payE T" "fieldE T' = fieldE T"
    by (intro ext; simp add: payE_def fieldE_def sdGrows_fields(2)[OF extD(8)[OF x]] tdGrows_fields(2)[OF extD(9)[OF x]])+
  show "partsOf T' = partsOf T" "zeroPartsOf T' = zeroPartsOf T"
    by (intro ext; simp add: zeroPartsOf_def partsOf_def p sdGrows_fields(7)[OF extD(8)[OF x]]
      tdGrows_fields(3)[OF extD(9)[OF x]] split: ty.split)+
qed

definition answers :: "typeTable \<Rightarrow> bool \<times> typeTable \<Rightarrow> bool \<Rightarrow> bool" where
  "answers T r b \<longleftrightarrow> (fst r \<longleftrightarrow> b) \<and> tblOk (snd r) \<and> ext T (snd r)"

lemma answers_same: "tblOk T \<Longrightarrow> answers T (b, T) b"
  by (simp add: answers_def)

lemma anyOf_answers:
  assumes "\<And>x S. x \<in> set xs \<Longrightarrow> ext T S \<Longrightarrow> tblOk S \<Longrightarrow> answers S (f x S) (g x)"
  shows "ext T S \<Longrightarrow> tblOk S \<Longrightarrow> answers S (anyOf f xs S) (list_ex g xs)"
  using assms
proof (induction xs arbitrary: S)
  case (Cons x xs)
  obtain b S1 where f: "f x S = (b, S1)" by fastforce
  have A: "b = g x" "tblOk S1" "ext S S1" using Cons.prems(3)[of x S] Cons.prems(1,2) f by (simp_all add: answers_def)
  show ?case
  proof (cases b)
    case False
    have "answers S1 (anyOf f xs S1) (list_ex g xs)"
      by (rule Cons.IH) (use Cons.prems ext_trans A in auto)
    then show ?thesis using False f A ext_trans by (auto simp: answers_def)
  qed (use f A in \<open>simp add: answers_def\<close>)
qed (simp add: answers_def)

text \<open>Substitute, then walk: the step of every loop.\<close>

lemma then_answers:
  assumes "builds S p u" "\<And>q S'. ext S S' \<Longrightarrow> tblOk S' \<Longrightarrow> canon S' q \<Longrightarrow> erase q = u \<Longrightarrow> answers S' (w q S') b"
  shows "answers S (let (q, S1) = p in w q S1) b"
proof -
  obtain q S1 where p: "p = (q, S1)" by fastforce
  have "answers S1 (w q S1) b" by (rule assms(2)) (use assms(1) p in \<open>simp_all add: builds_def\<close>)
  then show ?thesis using assms(1) p ext_trans by (auto simp: builds_def answers_def)
qed

lemma payloadType_builds:
  assumes "tblOk T" "declsOk T" "canon T (TEnum p e ts)" "v \<in> set (td_variants (tt_edef T e))" "k < length (snd v)"
  shows "builds T (payloadType (TEnum p e ts) v k T) (payE T e ts (snd v ! k))"
proof -
  have c: "canon T (snd v ! k)" "list_all (canon T) ts"
    using assms(2-5) by (auto simp: declsOk_def list_all_iff)
  show ?thesis
    using substGo_builds(1)[OF assms(1) c(2,1)] builds_old[OF assms(1) c(1)]
    by (auto simp: payloadType_def payE_def ttSubstitute_def Let_def)
qed

lemma fieldType_builds:
  assumes "tblOk T" "declsOk T" "f \<in> set (sd_fields (tt_sdef T s))"
  shows "builds T (fieldType (TStruct p s) s (snd f) T) (fieldE T s [] (snd f))"
    "canon T (TGeneric p s ts m x) \<Longrightarrow> builds T (fieldType (TGeneric p s ts m x) s (snd f) T) (fieldE T s ts (snd f))"
proof -
  have c: "canon T (snd f)" using assms(2,3) by (auto simp: declsOk_def)
  show "builds T (fieldType (TStruct p s) s (snd f) T) (fieldE T s [] (snd f))"
    using builds_old[OF assms(1) c] by (simp add: fieldType_def fieldSubst_def fieldE_def ttSubstitute_def Let_def)
  assume "canon T (TGeneric p s ts m x)"
  then show "builds T (fieldType (TGeneric p s ts m x) s (snd f) T) (fieldE T s ts (snd f))"
    using substGo_builds(1)[OF assms(1) _ c, of ts] builds_old[OF assms(1) c]
    by (auto simp: fieldType_def fieldSubst_def fieldE_def ttSubstitute_def Let_def)
qed

text \<open>The loops of a walk \<open>w\<close> over the parts of a type answer what \<open>h\<close> answers of some part.\<close>

definition walks :: "typeTable \<Rightarrow> (ty \<Rightarrow> typeTable \<Rightarrow> bool \<times> typeTable) \<Rightarrow> (ty \<Rightarrow> bool) \<Rightarrow> bool" where
  "walks T w h \<longleftrightarrow> (\<forall>S q. ext T S \<longrightarrow> tblOk S \<longrightarrow> canon S q \<longrightarrow> answers S (w q S) (h (erase q)))"

lemma walks_then:
  assumes "walks T w h" "ext T S" "builds S p u"
  shows "answers S (let (q, S1) = p in w q S1) (h u)"
  by (rule then_answers[OF assms(3)]) (use assms(1) ext_trans[OF assms(2)] in \<open>auto simp: walks_def\<close>)

lemma list_ex_payloads:
  "list_ex (\<lambda>(v, i). h (snd v ! i)) (payloadsOf d) \<longleftrightarrow> list_ex h (concat (map snd (td_variants d)))"
proof -
  have "list_ex h xs \<longleftrightarrow> list_ex (\<lambda>i. h (xs ! i)) [0..<length xs]" for xs :: "ty list"
    by (simp add: list_ex_iff Bex_def in_set_conv_nth) blast
  then show ?thesis by (auto simp: payloadsOf_def list_ex_iff)
qed

lemma payload_step:
  assumes "declsOk T" "canon T (TEnum p e ts)" "walks T w h" "v \<in> set (td_variants (tt_edef T e)) \<and> i < length (snd v)"
    "ext T S" "tblOk S"
  shows "answers S (let (q, S1) = payloadType (TEnum p e ts) v i S in w q S1) (h (payE T e ts (snd v ! i)))"
proof -
  have "payE S e ts = payE T e ts" by (intro HOL.ext) (simp add: payE_def tdGrows_fields(2)[OF extD(9)[OF assms(5)]])
  then have "builds S (payloadType (TEnum p e ts) v i S) (payE T e ts (snd v ! i))"
    using payloadType_builds[OF assms(6) declsOk_ext[OF assms(5,1)] ext_canon[OF assms(5,2)], of v i] assms(4)
    by (simp add: tdGrows_fields(3)[OF extD(9)[OF assms(5)]])
  from walks_then[OF assms(3,5) this] show ?thesis .
qed

lemma walk_enum:
  assumes "tblOk T" "declsOk T" "canon T (TEnum p e ts)" "walks T w h"
  shows "answers T (anyOf (\<lambda>(v, i) S. let (q, S1) = payloadType (TEnum p e ts) v i S in w q S1)
      (payloadsOf (tt_edef T e)) T) (list_ex h (partsOf T (TEnum p e ts)))"
proof -
  have "answers T (anyOf (\<lambda>(v, i) S. let (q, S1) = payloadType (TEnum p e ts) v i S in w q S1)
      (payloadsOf (tt_edef T e)) T) (list_ex (\<lambda>(v, i). (h \<circ> payE T e ts) (snd v ! i)) (payloadsOf (tt_edef T e)))"
  proof (rule anyOf_answers[OF _ ext_refl assms(1)])
    fix x S assume x: "x \<in> set (payloadsOf (tt_edef T e))" "ext T S" "tblOk S"
    obtain v i where v: "x = (v, i)" "v \<in> set (td_variants (tt_edef T e))" "i < length (snd v)"
      using x(1) by (auto simp: payloadsOf_def)
    from payload_step[OF assms(2,3,4) conjI[OF v(2,3)] x(2,3)]
    show "answers S ((case x of (v, i) \<Rightarrow> \<lambda>S. let (q, S1) = payloadType (TEnum p e ts) v i S in w q S1) S)
        ((\<lambda>(v, i). (h \<circ> payE T e ts) (snd v ! i)) x)"
      by (simp add: v(1))
  qed
  then show ?thesis
    unfolding list_ex_payloads by (simp add: partsOf_def list_ex_iff)
qed

lemma walk_fields:
  assumes "tblOk T" "declsOk T" "walks T w h" "structOf t = Some s" "canon T t"
  shows "answers T (anyOf (\<lambda>f S. let (q, S1) = fieldType t s (snd f) S in w q S1) (sd_fields (tt_sdef T s)) T)
     (list_ex h (partsOf T t))"
proof -
  define as where "as = (case t of TGeneric _ _ ts _ _ \<Rightarrow> ts | _ \<Rightarrow> [])"
  have p: "partsOf T t = map (fieldE T s as \<circ> snd) (sd_fields (tt_sdef T s))"
    using assms(4) by (cases t) (auto simp: partsOf_def structOf_def as_def)
  have "answers T (anyOf (\<lambda>f S. let (q, S1) = fieldType t s (snd f) S in w q S1) (sd_fields (tt_sdef T s)) T)
     (list_ex (h \<circ> (fieldE T s as \<circ> snd)) (sd_fields (tt_sdef T s)))"
  proof (rule anyOf_answers[OF _ ext_refl assms(1)])
    fix f S assume x: "f \<in> set (sd_fields (tt_sdef T s))" "ext T S" "tblOk S"
    have "fieldE S s as = fieldE T s as" by (intro HOL.ext) (simp add: fieldE_def sdGrows_fields(2)[OF extD(8)[OF x(2)]])
    moreover have "builds S (fieldType t s (snd f) S) (fieldE S s as (snd f))"
      using fieldType_builds[OF x(3) declsOk_ext[OF x(2) assms(2)], of f s] ext_canon[OF x(2) assms(5)] x(1) assms(4)
      by (cases t) (auto simp: structOf_def as_def sdGrows_fields(7)[OF extD(8)[OF x(2)]] simp del: canon.simps)
    ultimately have "builds S (fieldType t s (snd f) S) (fieldE T s as (snd f))" by simp
    from walks_then[OF assms(3) x(2) this]
    show "answers S (let (q, S1) = fieldType t s (snd f) S in w q S1) ((h \<circ> (fieldE T s as \<circ> snd)) f)" by simp
  qed
  then show ?thesis by (simp add: p list_ex_iff)
qed

lemma erase_erase [simp]: "erase (erase t) = erase t"
  by (induction t) simp_all

lemma partsOf_simps [simp]:
  "partsOf T (TUnres p n ts m) = []" "partsOf T (TVoid p) = []" "partsOf T (TBuiltin p n) = []"
  "partsOf T (TRef p t nu m) = []" "partsOf T (TParam p n i) = []" "partsOf T (TFn p ts r) = []"
  "partsOf T (TDyn p n) = []" "partsOf T (TErr p) = []" "partsOf T (TArray p k t) = [erase t]"
  by (simp_all add: partsOf_def)

lemma erased_args: "payE T e (map erase ts) = payE T e ts" "fieldE T s (map erase ts) = fieldE T s ts"
  by (intro HOL.ext; simp add: payE_def fieldE_def comp_def cong: if_cong)+

lemma partsOf_erase [simp]: "partsOf T (erase t) = partsOf T t"
  by (cases t) (simp_all add: partsOf_def erased_args)

lemma zeroPartsOf_erase [simp]: "zeroPartsOf T (erase t) = zeroPartsOf T t"
  using partsOf_erase[of T t] by (cases t) (simp_all add: zeroPartsOf_def erased_args del: partsOf_erase)

fun isRefTy :: "ty \<Rightarrow> bool" where
  "isRefTy (TRef _ _ _ _) \<longleftrightarrow> True"
| "isRefTy _ \<longleftrightarrow> False"

fun isFnTy :: "ty \<Rightarrow> bool" where
  "isFnTy (TFn _ _ _) \<longleftrightarrow> True"
| "isFnTy _ \<longleftrightarrow> False"

fun noZero :: "ty \<Rightarrow> bool" where
  "noZero (TRef _ _ nu _) \<longleftrightarrow> \<not> nu"
| "noZero (TFn _ _ _) \<longleftrightarrow> True"
| "noZero _ \<longleftrightarrow> False"

lemma walks_step:
  assumes "declsOk T" "\<And>S. ext T S \<Longrightarrow> ps S = ps T"
    "\<And>q S. tblOk S \<Longrightarrow> declsOk S \<Longrightarrow> canon S q \<Longrightarrow> answers S (w q S) (holdsIn (ps S) P n (erase q))"
  shows "walks T w (holdsIn (ps T) P n)"
  unfolding walks_def using assms(3) assms(2)[symmetric] declsOk_ext[OF _ assms(1)] by metis

lemma limit_levels: "Suc n = 65 - d \<Longrightarrow> \<not> ZERO_VALUE_DEPTH_LIMIT < d \<and> n = 65 - (d + 1)"
  unfolding ZERO_VALUE_DEPTH_LIMIT_def by arith

lemma typeContainsRefAt_answers:
  "tblOk T \<Longrightarrow> declsOk T \<Longrightarrow> canon T t \<Longrightarrow>
   answers T (typeContainsRefAt t d T) (holdsIn (partsOf T) isRefTy (65 - d) (erase t))"
proof (induction "65 - d" arbitrary: d t T)
  case 0
  then show ?case by (subst typeContainsRefAt.simps) (simp add: ZERO_VALUE_DEPTH_LIMIT_def answers_same)
next
  case (Suc n)
  note d = limit_levels[OF Suc.hyps(2)]
  have w: "walks T (\<lambda>q. typeContainsRefAt q (d + 1)) (holdsIn (partsOf T) isRefTy n)"
    by (rule walks_step[OF Suc.prems(2)]; ((erule partsOf_ext(1)) | (rule Suc.hyps(1)[OF conjunct2[OF d], folded conjunct2[OF d]], assumption+)))
  show ?case
    unfolding typeContainsRefAt.simps[of t d T] if_not_P[OF conjunct1[OF d]] Suc.hyps(2)[symmetric] holdsIn.simps partsOf_erase
    using walk_enum[OF Suc.prems(1,2) _ w] walk_fields[OF Suc.prems(1,2) w _ Suc.prems(3)]
      w[unfolded walks_def, rule_format, OF ext_refl Suc.prems(1)] Suc.prems(1,3)
    by (cases t) (simp_all add: answers_same structOf_def)
qed

lemma typeContainsFnAt_answers:
  "tblOk T \<Longrightarrow> declsOk T \<Longrightarrow> canon T t \<Longrightarrow>
   answers T (typeContainsFnAt t d T) (holdsIn (partsOf T) isFnTy (65 - d) (erase t))"
proof (induction "65 - d" arbitrary: d t T)
  case 0
  then show ?case by (subst typeContainsFnAt.simps) (simp add: ZERO_VALUE_DEPTH_LIMIT_def answers_same)
next
  case (Suc n)
  note d = limit_levels[OF Suc.hyps(2)]
  have w: "walks T (\<lambda>q. typeContainsFnAt q (d + 1)) (holdsIn (partsOf T) isFnTy n)"
    by (rule walks_step[OF Suc.prems(2)]; ((erule partsOf_ext(1)) | (rule Suc.hyps(1)[OF conjunct2[OF d], folded conjunct2[OF d]], assumption+)))
  show ?case
    unfolding typeContainsFnAt.simps[of t d T] if_not_P[OF conjunct1[OF d]] Suc.hyps(2)[symmetric] holdsIn.simps partsOf_erase
    using walk_enum[OF Suc.prems(1,2) _ w] walk_fields[OF Suc.prems(1,2) w _ Suc.prems(3)]
      w[unfolded walks_def, rule_format, OF ext_refl Suc.prems(1)] Suc.prems(1,3)
    by (cases t) (simp_all add: answers_same structOf_def)
qed

lemma walk_first:
  assumes "tblOk T" "declsOk T" "canon T (TEnum p e ts)" "walks T w h" "td_variants (tt_edef T e) = v # vs"
  shows "answers T (anyOf (\<lambda>i S. let (q, S1) = payloadType (TEnum p e ts) v i S in w q S1) [0..<length (snd v)] T)
    (list_ex h (zeroPartsOf T (TEnum p e ts)))"
proof -
  have "answers T (anyOf (\<lambda>i S. let (q, S1) = payloadType (TEnum p e ts) v i S in w q S1) [0..<length (snd v)] T)
    (list_ex (\<lambda>i. h (payE T e ts (snd v ! i))) [0..<length (snd v)])"
  proof (rule anyOf_answers[OF _ ext_refl assms(1)])
    fix i S assume x: "i \<in> set [0..<length (snd v)]" "ext T S" "tblOk S"
    from payload_step[OF assms(2,3,4) _ x(2,3), of v i] x(1) assms(5)
    show "answers S (let (q, S1) = payloadType (TEnum p e ts) v i S in w q S1) (h (payE T e ts (snd v ! i)))" by simp
  qed
  moreover have "list_ex (\<lambda>i. h (payE T e ts (snd v ! i))) [0..<length (snd v)] \<longleftrightarrow> list_ex (h \<circ> payE T e ts) (snd v)"
    by (simp add: list_ex_iff Bex_def in_set_conv_nth) blast
  ultimately show ?thesis by (simp add: zeroPartsOf_def assms(5) list_ex_iff)
qed

lemma zeroPartsOf_simps [simp]:
  "zeroPartsOf T (TUnres p n ts m) = []" "zeroPartsOf T (TVoid p) = []" "zeroPartsOf T (TBuiltin p n) = []"
  "zeroPartsOf T (TRef p t nu m) = []" "zeroPartsOf T (TParam p n i) = []" "zeroPartsOf T (TFn p ts r) = []"
  "zeroPartsOf T (TDyn p n) = []" "zeroPartsOf T (TErr p) = []" "zeroPartsOf T (TArray p k t) = [erase t]"
  "zeroPartsOf T (TStruct p s) = partsOf T (TStruct p s)"
  "zeroPartsOf T (TGeneric p s ts m x) = partsOf T (TGeneric p s ts m x)"
  by (simp_all add: zeroPartsOf_def)

lemma typeLacksZeroValueAt_answers:
  "tblOk T \<Longrightarrow> declsOk T \<Longrightarrow> canon T t \<Longrightarrow>
   answers T (typeLacksZeroValueAt t d T) (holdsIn (zeroPartsOf T) noZero (65 - d) (erase t))"
proof (induction "65 - d" arbitrary: d t T)
  case 0
  then show ?case by (subst typeLacksZeroValueAt.simps) (simp add: ZERO_VALUE_DEPTH_LIMIT_def answers_same)
next
  case (Suc n)
  note d = limit_levels[OF Suc.hyps(2)]
  have w: "walks T (\<lambda>q. typeLacksZeroValueAt q (d + 1)) (holdsIn (zeroPartsOf T) noZero n)"
    by (rule walks_step[OF Suc.prems(2)]; ((erule partsOf_ext(2)) | (rule Suc.hyps(1)[OF conjunct2[OF d], folded conjunct2[OF d]], assumption+)))
  have n: "td_variants (tt_edef T e) = [] \<Longrightarrow> zeroPartsOf T (TEnum p e ts) = []" for p e ts
    by (simp add: zeroPartsOf_def)
  show ?case
    unfolding typeLacksZeroValueAt.simps[of t d T] if_not_P[OF conjunct1[OF d]] Suc.hyps(2)[symmetric] holdsIn.simps zeroPartsOf_erase
    using walk_first[OF Suc.prems(1,2) _ w] walk_fields[OF Suc.prems(1,2) w _ Suc.prems(3)]
      w[unfolded walks_def, rule_format, OF ext_refl Suc.prems(1)] Suc.prems(1,3)
    by (cases t) (simp_all add: answers_same structOf_def n split: list.split)
qed

section \<open>What the answers mean\<close>

text \<open>Something reachable through at most 64 levels, or a chain of 65 levels, where the walk gives up.\<close>

definition reachesIn :: "(ty \<Rightarrow> ty list) \<Rightarrow> (ty \<Rightarrow> bool) \<Rightarrow> ty \<Rightarrow> bool" where
  "reachesIn ps P t \<longleftrightarrow> (\<exists>k u. k \<le> 64 \<and> (t, u) \<in> partRel ps ^^ k \<and> P u) \<or> (\<exists>u. (t, u) \<in> partRel ps ^^ 65)"

lemma holdsIn_reaches: "holdsIn ps P 65 t \<longleftrightarrow> reachesIn ps P t"
proof -
  have l: "k < 65 \<longleftrightarrow> k \<le> 64" for k :: nat by auto
  show ?thesis unfolding holdsIn_iff reachesIn_def l ..
qed

lemma reachesIn_all:
  assumes "(t, u) \<in> (partRel ps)\<^sup>*" "P u"
  shows "reachesIn ps P t"
proof -
  obtain k where k: "(t, u) \<in> partRel ps ^^ k" using assms(1) rtrancl_imp_relpow by blast
  show ?thesis
  proof (cases "k \<le> 64")
    case False
    then have "k = 65 + (k - 65)" by simp
    then have "(t, u) \<in> partRel ps ^^ 65 O partRel ps ^^ (k - 65)" using k by (metis relpow_add)
    then show ?thesis by (auto simp: reachesIn_def)
  qed (use k assms(2) in \<open>auto simp: reachesIn_def\<close>)
qed

lemma partRel_zero: "partRel (zeroPartsOf T) \<subseteq> partRel (partsOf T)"
proof -
  have "set (zeroPartsOf T t) \<subseteq> set (partsOf T t)" for t
    by (cases t) (auto simp: zeroPartsOf_def partsOf_def dest: in_set_takeD)
  then show ?thesis by (auto simp: partRel_def)
qed

lemma relpow_subset: "R \<subseteq> S \<Longrightarrow> R ^^ n \<subseteq> S ^^ n" for R S :: "('a \<times> 'a) set"
  by (induction n) auto

lemma reachesIn_zero:
  assumes "reachesIn (zeroPartsOf T) noZero t"
  shows "reachesIn (partsOf T) isRefTy t \<or> reachesIn (partsOf T) isFnTy t"
proof -
  have n: "noZero u \<Longrightarrow> isRefTy u \<or> isFnTy u" for u by (cases u) auto
  show ?thesis using assms n relpow_subset[OF partRel_zero[of T]] unfolding reachesIn_def by blast
qed

end
