(* ===== verification/Types_WalkClaims.thy ===== *)
theory Types_WalkClaims
  imports Types_Walk Types_Claims
begin

text \<open>The properties of the walks over the inside of a type.\<close>

text \<open>An example: an array of references.\<close>

lemma exTab_decls: "declsOk exTab"
proof -
  have "tt_sdef exTab = exSdef" "\<forall>e. td_variants (tt_edef exTab e) = []"
    by (simp_all add: exTab_def ttNew_def ttRegister_def addStruct_def Let_def)
  then show ?thesis by (simp add: declsOk_def exSdef_def exStruct_def)
qed

abbreviation exRef :: ty where "exRef \<equiv> TRef 13 i32 False True"

lemma ex_refArray:
  defines "T \<equiv> snd (ttArray 2 exRef (snd (refLike False True i32 exTab)))"
  shows "tblOk T" "declsOk T" "canon T (TArray 14 2 exRef)" "canon T exRef"
proof -
  let ?r = "refLike False True i32 exTab" and ?a = "TArray 14 2 exRef"
  let ?s = "ttArray 2 exRef (snd ?r)"
  have e: "fst ?r = exRef" "fst ?s = ?a" by code_simp+
  have "builds exTab ?r (TRef 0 (erase i32) False True)" by (rule refLike_builds[OF exTab_ok ex_canon(1)])
  then have A: "tblOk (snd ?r)" "ext exTab (snd ?r)" "canon (snd ?r) exRef" unfolding builds_def e by blast+
  have "builds (snd ?r) ?s (TArray 0 2 (erase exRef))" by (rule ttArray_builds[OF A(1,3)])
  then have B: "tblOk T" "ext (snd ?r) T" "canon T ?a" unfolding builds_def e T_def by blast+
  show "tblOk T" "declsOk T" "canon T ?a" "canon T exRef"
    using B declsOk_ext[OF ext_trans[OF A(2) B(2)] exTab_decls] ext_canon[OF B(2) A(3)] by blast+
qed

text \<open>C34: no reference is overlooked. \<open>typeContainsRef\<close> answers yes exactly when a reference is reached from
  the type through at most 64 levels of elements, payloads and fields, or when the type is nested
  more than 64 levels deep; so it answers yes for every type that holds a reference at any depth, in
  particular for a struct with a field that is itself a reference. (Two comments of \<open>check_escape.c\<close>,
  at \<open>valDepthStructural\<close> and in \<open>targetDepth\<close>, say that it answers no for such a struct; its own
  comment in \<open>check_internal.h\<close> and the code say yes.) The table keeps its invariant and only grows.\<close>

theorem contains_ref:
  assumes "tblOk T" "declsOk T" "canon T t"
  shows "case typeContainsRef t T of (b, T') \<Rightarrow> tblOk T' \<and> ext T T' \<and>
      (b \<longleftrightarrow> reachesIn (partsOf T) isRefTy (erase t)) \<and>
      ((\<exists>u. (erase t, u) \<in> (partRel (partsOf T))\<^sup>* \<and> isRefTy u) \<longrightarrow> b) \<and>
      (\<forall>p s n f. t = TStruct p s \<and> (n, f) \<in> set (sd_fields (tt_sdef T s)) \<and> isRefTy f \<longrightarrow> b)"
proof -
  have F: "\<exists>u. (erase t, u) \<in> (partRel (partsOf T))\<^sup>* \<and> isRefTy u"
    if f: "t = TStruct p s" "(n, f) \<in> set (sd_fields (tt_sdef T s))" "isRefTy f" for p s n f
  proof (intro exI conjI)
    have "erase f \<in> set (partsOf T (erase t))" using f(1,2) by (auto simp: partsOf_def fieldE_def Let_def intro!: image_eqI[of _ _ "(n, f)"])
    then show "(erase t, erase f) \<in> (partRel (partsOf T))\<^sup>*" by (intro r_into_rtrancl) (simp add: partRel_def)
    show "isRefTy (erase f)" using f(3) by (cases f) simp_all
  qed
  obtain b T' where b: "typeContainsRef t T = (b, T')" by fastforce
  have M: "tblOk T' \<and> ext T T' \<and> (b \<longleftrightarrow> reachesIn (partsOf T) isRefTy (erase t)) \<and>
      ((\<exists>u. (erase t, u) \<in> (partRel (partsOf T))\<^sup>* \<and> isRefTy u) \<longrightarrow> b)"
    using typeContainsRefAt_answers[OF assms, of 0] reachesIn_all[of "erase t" _ "partsOf T" isRefTy] b
    by (auto simp: typeContainsRef_def holdsIn_reaches answers_def split: prod.splits)
  then show ?thesis using F unfolding b prod.case by blast
qed

theorem contains_ref_witness:
  "fst (typeContainsRef (TArray 14 2 exRef) (snd (ttArray 2 exRef (snd (refLike False True i32 exTab)))))"
proof -
  have "(erase (TArray 14 2 exRef), erase exRef) \<in> (partRel (partsOf T))\<^sup>*" for T
    by (rule r_into_rtrancl) (simp add: partRel_def)
  moreover have "isRefTy (erase exRef)" by simp
  ultimately have "\<exists>u. (erase (TArray 14 2 exRef), u) \<in> (partRel (partsOf T))\<^sup>* \<and> isRefTy u" for T by blast
  then show ?thesis using contains_ref[OF ex_refArray(1-3)] by (auto split: prod.splits simp del: erase.simps)
qed

text \<open>A missing zero value has a reason. \<open>typeLacksZeroValue\<close> answers yes exactly when a reference that
  cannot be null or a function is reached through the parts that a zeroed value has, or beyond 64
  levels; and a type without a zero value contains a reference or a function, so that the diagnostic
  which tells the two apart is never wrong about both.\<close>

theorem lacks_zero:
  assumes "tblOk T" "declsOk T" "canon T t"
  shows "case typeLacksZeroValue t T of (b, T') \<Rightarrow> tblOk T' \<and> ext T T' \<and>
      (b \<longleftrightarrow> reachesIn (zeroPartsOf T) noZero (erase t)) \<and>
      (b \<longrightarrow> fst (typeContainsRef t T) \<or> fst (typeContainsFn t T))"
  using typeLacksZeroValueAt_answers[OF assms, of 0] typeContainsRefAt_answers[OF assms, of 0]
    typeContainsFnAt_answers[OF assms, of 0] reachesIn_zero[of T "erase t"]
  by (auto simp: typeLacksZeroValue_def typeContainsRef_def typeContainsFn_def holdsIn_reaches answers_def split: prod.split)

theorem lacks_zero_witness:
  "let T = snd (ttArray 2 exRef (snd (refLike False True i32 exTab))) in
     fst (typeLacksZeroValue exRef T) \<and> (fst (typeContainsRef exRef T) \<or> fst (typeContainsFn exRef T))"
proof -
  have "reachesIn (zeroPartsOf T) noZero (erase exRef)" for T
    by (rule reachesIn_all[OF rtrancl_refl]) simp
  then show ?thesis using lacks_zero[OF ex_refArray(1,2,4)] by (auto simp: Let_def split: prod.splits)
qed

end
