(* ===== verification/Ast.thy ===== *)
theory Ast
  imports Types
begin

text \<open>The syntax tree of ast/ast.h, and the questions asked of a tree alone. A node is an object in
  the arena; its number (the address) is what the side tables of the checker are addressed by. The line
  numbers, which only diagnostics read, are left out, and so are the value of a float literal and the
  parameters and captures of a lambda. Lists are the vectors of the code; an option is a pointer that
  may be NULL.\<close>

datatype expr = Expr (ex_id: nat) (ex_type: "ty option") (ex_kind: ekind)
  and ekind =
    EX_INT int
  | EX_FLOAT
  | EX_BOOL bool
  | EX_STR string
  | EX_IDENT string "nat option"
  | EX_BIN string expr expr
  | EX_UN string expr
  | EX_CALL "expr option" "expr list"
  | EX_METHOD expr string "expr list"
  | EX_FIELD expr string
  | EX_STRUCTLIT "string option" "(string \<times> expr) list"
  | EX_INDEX expr expr
  | EX_SLICE expr "expr option" "expr option"
  | EX_ARRAYLIT "expr list" bool
  | EX_REF expr
  | EX_ASSOC string "ty list" string "expr list"
  | EX_GENCALL string "ty list" "expr list"
  | EX_TRY expr
  | EX_DEREF expr
  | EX_ENUMVAL string string "expr list"
  | EX_CONV "ty option" expr
  | EX_NEW "ty option" "expr option"
  | EX_COALESCE expr expr
  | EX_SIGN expr
  | EX_NULL
  | EX_DYN string expr
  | EX_EXT expr
  | EX_LAMBDA "(string \<times> expr) list" stmt
  and stmt = Stmt (st_id: nat) (st_kind: skind)
  and skind =
    ST_VAR string "ty option" "expr option" bool
  | ST_ASSIGN expr expr "string option"
  | ST_IF expr stmt "stmt option"
  | ST_WHILE expr stmt
  | ST_RETURN "expr option"
  | ST_BREAK
  | ST_CONTINUE
  | ST_EXPR expr
  | ST_BLOCK "stmt list"
  | ST_MATCH expr "(string \<times> string option list \<times> stmt) list"
  | ST_YIELD "expr option"
  | ST_TRAP expr
  | ST_DOMAIN expr stmt

section \<open>Walking\<close>

text \<open>The callbacks of \<open>AstVisit\<close> with their context, which they may change; \<open>False\<close> stops the walk.\<close>

record 'c astVisit =
  av_expr :: "(expr \<Rightarrow> 'c \<Rightarrow> bool \<times> 'c) option"
  av_stmt :: "(stmt \<Rightarrow> 'c \<Rightarrow> bool \<times> 'c) option"

definition andThen :: "bool \<times> 'c \<Rightarrow> ('c \<Rightarrow> bool \<times> 'c) \<Rightarrow> bool \<times> 'c" where
  "andThen r k = (case r of (b, c) \<Rightarrow> if b then k c else (False, c))"

fun visitAll :: "('a \<Rightarrow> 'c \<Rightarrow> bool \<times> 'c) \<Rightarrow> 'a list \<Rightarrow> 'c \<Rightarrow> bool \<times> 'c" where
  "visitAll f [] c = (True, c)"
| "visitAll f (x # xs) c = andThen (f x c) (visitAll f xs)"

lemma andThen_cong [fundef_cong]:
  "r = r' \<Longrightarrow> (\<And>c. r' = (True, c) \<Longrightarrow> k c = k' c) \<Longrightarrow> andThen r k = andThen r' k'"
  by (auto simp: andThen_def split: prod.split)

lemma visitAll_cong [fundef_cong]:
  "xs = ys \<Longrightarrow> c = d \<Longrightarrow> (\<And>x e. x \<in> set ys \<Longrightarrow> f x e = g x e) \<Longrightarrow> visitAll f xs c = visitAll g ys d"
proof (induction xs arbitrary: ys c d)
  case (Cons x xs)
  then show ?case by (auto simp: andThen_def split: prod.split)
qed simp

definition visitExpr :: "'c astVisit \<Rightarrow> expr option \<Rightarrow> 'c \<Rightarrow> bool \<times> 'c" where
  "visitExpr v e c = (case (e, av_expr v) of (Some x, Some f) \<Rightarrow> f x c | _ \<Rightarrow> (True, c))"

definition visitExprList :: "'c astVisit \<Rightarrow> expr list \<Rightarrow> 'c \<Rightarrow> bool \<times> 'c" where
  "visitExprList v = visitAll (\<lambda>x. visitExpr v (Some x))"

abbreviation isIdent :: "expr \<Rightarrow> bool" where
  "isIdent e \<equiv> (case ex_kind e of EX_IDENT _ _ \<Rightarrow> True | _ \<Rightarrow> False)"

fun astWalkStmtChildren :: "stmt \<Rightarrow> 'c astVisit \<Rightarrow> 'c \<Rightarrow> bool \<times> 'c"
  and visitStmt :: "'c astVisit \<Rightarrow> stmt \<Rightarrow> 'c \<Rightarrow> bool \<times> 'c" where
  "visitStmt v s c = (case av_stmt v of Some f \<Rightarrow> f s c | None \<Rightarrow> astWalkStmtChildren s v c)"
| "astWalkStmtChildren (Stmt p k) v c = (case k of
       ST_VAR _ _ i _ \<Rightarrow> visitExpr v i c
     | ST_ASSIGN t x _ \<Rightarrow> andThen (visitExpr v (Some t) c) (visitExpr v (Some x))
     | ST_RETURN x \<Rightarrow> visitExpr v x c
     | ST_YIELD x \<Rightarrow> visitExpr v x c
     | ST_TRAP x \<Rightarrow> visitExpr v (Some x) c
     | ST_DOMAIN x b \<Rightarrow> andThen (visitExpr v (Some x) c) (visitStmt v b)
     | ST_EXPR x \<Rightarrow> visitExpr v (Some x) c
     | ST_IF x a b \<Rightarrow> andThen (visitExpr v (Some x) c) (\<lambda>c. andThen (visitStmt v a c)
         (\<lambda>c. case b of Some b' \<Rightarrow> visitStmt v b' c | None \<Rightarrow> (True, c)))
     | ST_WHILE x b \<Rightarrow> andThen (visitExpr v (Some x) c) (visitStmt v b)
     | ST_BLOCK ss \<Rightarrow> visitAll (visitStmt v) ss c
     | ST_MATCH x as \<Rightarrow> andThen (visitExpr v (Some x) c) (visitAll (\<lambda>(_, _, b). visitStmt v b) as)
     | ST_BREAK \<Rightarrow> (True, c)
     | ST_CONTINUE \<Rightarrow> (True, c))"

fun astWalkExprChildren :: "expr \<Rightarrow> 'c astVisit \<Rightarrow> 'c \<Rightarrow> bool \<times> 'c" where
  "astWalkExprChildren (Expr p t k) v c = (case k of
       EX_BIN _ a b \<Rightarrow> andThen (visitExpr v (Some a) c) (visitExpr v (Some b))
     | EX_INDEX a b \<Rightarrow> andThen (visitExpr v (Some a) c) (visitExpr v (Some b))
     | EX_COALESCE a b \<Rightarrow> andThen (visitExpr v (Some a) c) (visitExpr v (Some b))
     | EX_UN _ a \<Rightarrow> visitExpr v (Some a) c
     | EX_REF a \<Rightarrow> visitExpr v (Some a) c
     | EX_DEREF a \<Rightarrow> visitExpr v (Some a) c
     | EX_SIGN a \<Rightarrow> visitExpr v (Some a) c
     | EX_CONV _ a \<Rightarrow> visitExpr v (Some a) c
     | EX_TRY a \<Rightarrow> visitExpr v (Some a) c
     | EX_FIELD a _ \<Rightarrow> visitExpr v (Some a) c
     | EX_NEW _ n \<Rightarrow> visitExpr v n c
     | EX_DYN _ a \<Rightarrow> visitExpr v (Some a) c
     | EX_EXT a \<Rightarrow> visitExpr v (Some a) c
     | EX_LAMBDA is b \<Rightarrow> andThen (visitAll (\<lambda>(_, x). visitExpr v (Some x)) is c) (visitStmt v b)
     | EX_METHOD r _ as \<Rightarrow> andThen (visitExpr v (Some r) c) (visitExprList v as)
     | EX_CALL f as \<Rightarrow> andThen (case f of None \<Rightarrow> (True, c) | Some g \<Rightarrow> if \<not> isIdent g then (True, c) else visitExpr v f c)
         (visitExprList v as)
     | EX_ASSOC _ _ _ as \<Rightarrow> visitExprList v as c
     | EX_GENCALL _ _ as \<Rightarrow> visitExprList v as c
     | EX_ENUMVAL _ _ as \<Rightarrow> visitExprList v as c
     | EX_ARRAYLIT as _ \<Rightarrow> visitExprList v as c
     | EX_SLICE a lo hi \<Rightarrow> andThen (visitExpr v (Some a) c) (\<lambda>c. andThen (visitExpr v lo c) (visitExpr v hi))
     | EX_STRUCTLIT _ is \<Rightarrow> visitAll (\<lambda>(_, x). visitExpr v (Some x)) is c
     | EX_INT _ \<Rightarrow> (True, c) | EX_FLOAT \<Rightarrow> (True, c) | EX_BOOL _ \<Rightarrow> (True, c) | EX_STR _ \<Rightarrow> (True, c)
     | EX_IDENT _ _ \<Rightarrow> (True, c) | EX_NULL \<Rightarrow> (True, c))"

section \<open>Searching\<close>

text \<open>The questions of the checker walk with a callback for expressions and one for statements that call
  themselves for the children. The children are smaller, so that such a search ends.\<close>

definition walkExpr :: "expr \<Rightarrow> (expr \<Rightarrow> 'c \<Rightarrow> bool \<times> 'c) \<Rightarrow> (stmt \<Rightarrow> 'c \<Rightarrow> bool \<times> 'c) \<Rightarrow> 'c \<Rightarrow> bool \<times> 'c" where
  "walkExpr e f g = astWalkExprChildren e \<lparr>av_expr = Some f, av_stmt = Some g\<rparr>"

definition walkStmt :: "stmt \<Rightarrow> (expr \<Rightarrow> 'c \<Rightarrow> bool \<times> 'c) \<Rightarrow> (stmt \<Rightarrow> 'c \<Rightarrow> bool \<times> 'c) \<Rightarrow> 'c \<Rightarrow> bool \<times> 'c" where
  "walkStmt s f g = astWalkStmtChildren s \<lparr>av_expr = Some f, av_stmt = Some g\<rparr>"

lemma size_list_mem: "x \<in> set xs \<Longrightarrow> f x \<le> size_list f xs"
  by (induction xs) auto

lemma walkExpr_cong [fundef_cong]:
  assumes "e = e'" "c = c'" "\<And>x d. size x < size e' \<Longrightarrow> f x d = f' x d" "\<And>x d. size x < size e' \<Longrightarrow> g x d = g' x d"
  shows "walkExpr e f g c = walkExpr e' f' g' c'"
proof -
  obtain p t k where e: "e' = Expr p t k" by (cases e')
  note S = size_list_mem[of _ _ size] size_list_mem[of _ _ "size_prod (\<lambda>_. 0) size"]
  show ?thesis
    unfolding assms(1,2) e walkExpr_def
    using assms(3,4)[unfolded e]
    by (cases k)
      (auto simp: visitExpr_def visitExprList_def intro!: andThen_cong visitAll_cong dest!: S split: option.split)
qed

lemma walkStmt_cong [fundef_cong]:
  assumes "s = s'" "c = c'" "\<And>x d. size x < size s' \<Longrightarrow> f x d = f' x d" "\<And>x d. size x < size s' \<Longrightarrow> g x d = g' x d"
  shows "walkStmt s f g c = walkStmt s' f' g' c'"
proof -
  obtain p k where e: "s' = Stmt p k" by (cases s')
  note S = size_list_mem[of _ _ size] size_list_mem[of _ _ "size_prod (\<lambda>_. 0) (size_prod (\<lambda>_. 0) size)"]
  show ?thesis
    unfolding assms(1,2) e walkStmt_def
    using assms(3,4)[unfolded e]
    by (cases k)
      (auto simp: visitExpr_def visitExprList_def intro!: andThen_cong visitAll_cong dest!: S split: option.split)
qed

text \<open>The answer \<open>False\<close> means found.\<close>

function hasNewInExpr :: "expr \<Rightarrow> 'c \<Rightarrow> bool \<times> 'c" and hasNewInStmt :: "stmt \<Rightarrow> 'c \<Rightarrow> bool \<times> 'c" where
  "hasNewInExpr e c = (case ex_kind e of EX_NEW _ _ \<Rightarrow> (False, c) | EX_GENCALL _ _ _ \<Rightarrow> (False, c)
     | _ \<Rightarrow> walkExpr e hasNewInExpr hasNewInStmt c)"
| "hasNewInStmt s c = walkStmt s hasNewInExpr hasNewInStmt c"
  by pat_completeness auto
termination by (relation "measure (\<lambda>x. case x of Inl (e, c) \<Rightarrow> size e | Inr (s, c) \<Rightarrow> size s)") auto

text \<open>A call of a function that the predicate \<open>q\<close> accepts; \<open>callee\<close> is \<open>planCallee\<close>, the declaration the
  checker resolved the node to.\<close>

function needsHomeInExpr :: "(nat \<Rightarrow> nat option) \<Rightarrow> (nat \<Rightarrow> bool) \<Rightarrow> expr \<Rightarrow> 'c \<Rightarrow> bool \<times> 'c"
  and needsHomeInStmt :: "(nat \<Rightarrow> nat option) \<Rightarrow> (nat \<Rightarrow> bool) \<Rightarrow> stmt \<Rightarrow> 'c \<Rightarrow> bool \<times> 'c" where
  "needsHomeInExpr callee q e c =
     (if (case ex_kind e of EX_CALL _ _ \<Rightarrow> True | EX_METHOD _ _ _ \<Rightarrow> True | EX_ASSOC _ _ _ _ \<Rightarrow> True | _ \<Rightarrow> False) \<and>
         (case callee (ex_id e) of Some f \<Rightarrow> q f | None \<Rightarrow> False)
      then (False, c) else walkExpr e (needsHomeInExpr callee q) (needsHomeInStmt callee q) c)"
| "needsHomeInStmt callee q s c = walkStmt s (needsHomeInExpr callee q) (needsHomeInStmt callee q) c"
  by pat_completeness auto
termination by (relation "measure (\<lambda>x. case x of Inl (_, _, e, c) \<Rightarrow> size e | Inr (_, _, s, c) \<Rightarrow> size s)") auto

definition stmtCallsNeedsHome :: "(nat \<Rightarrow> nat option) \<Rightarrow> stmt \<Rightarrow> (nat \<Rightarrow> bool) \<Rightarrow> bool" where
  "stmtCallsNeedsHome callee s q \<longleftrightarrow> \<not> fst (needsHomeInStmt callee q s ())"

text \<open>\<open>cn\<close> is \<open>planCName\<close>, the generated name of the binding a name resolved to.\<close>

function cnameInExpr :: "(nat \<Rightarrow> string option) \<Rightarrow> string \<Rightarrow> expr \<Rightarrow> 'c \<Rightarrow> bool \<times> 'c"
  and cnameInStmt :: "(nat \<Rightarrow> string option) \<Rightarrow> string \<Rightarrow> stmt \<Rightarrow> 'c \<Rightarrow> bool \<times> 'c" where
  "cnameInExpr cn n e c = (case ex_kind e of EX_IDENT _ _ \<Rightarrow> (cn (ex_id e) \<noteq> Some n, c)
     | _ \<Rightarrow> walkExpr e (cnameInExpr cn n) (cnameInStmt cn n) c)"
| "cnameInStmt cn n s c = walkStmt s (cnameInExpr cn n) (cnameInStmt cn n) c"
  by pat_completeness auto
termination by (relation "measure (\<lambda>x. case x of Inl (_, _, e, c) \<Rightarrow> size e | Inr (_, _, s, c) \<Rightarrow> size s)") auto

definition stmtUsesCname :: "(nat \<Rightarrow> string option) \<Rightarrow> stmt \<Rightarrow> string \<Rightarrow> bool" where
  "stmtUsesCname cn s n \<longleftrightarrow> \<not> fst (cnameInStmt cn n s ())"

definition exprHasNew :: "expr \<Rightarrow> bool" where
  "exprHasNew e \<longleftrightarrow> \<not> fst (hasNewInExpr e ())"

definition stmtHasNew :: "stmt \<Rightarrow> bool" where
  "stmtHasNew s \<longleftrightarrow> \<not> fst (hasNewInStmt s ())"

declare hasNewInExpr.simps [simp del] hasNewInStmt.simps [simp del] needsHomeInExpr.simps [simp del]
  needsHomeInStmt.simps [simp del] cnameInExpr.simps [simp del] cnameInStmt.simps [simp del]

end
