(* ===== verification/Ast_Walk.thy ===== *)
theory Ast_Walk
  imports Ast
begin

text \<open>What the walks over the tree visit. The children of a node are listed once more, as data, without
  the exception that the walk makes for the callee of a call; a search finds exactly what is reached
  through the children that the walk visits.\<close>

section \<open>Children\<close>

type_synonym astNode = "expr + stmt"

fun exprKids :: "ekind \<Rightarrow> expr list" where
  "exprKids (EX_BIN _ a b) = [a, b]"
| "exprKids (EX_UN _ a) = [a]"
| "exprKids (EX_CALL f as) = (case f of Some g \<Rightarrow> [g] | None \<Rightarrow> []) @ as"
| "exprKids (EX_METHOD r _ as) = r # as"
| "exprKids (EX_FIELD a _) = [a]"
| "exprKids (EX_STRUCTLIT _ is) = map snd is"
| "exprKids (EX_INDEX a b) = [a, b]"
| "exprKids (EX_SLICE a lo hi) = a # (case lo of Some x \<Rightarrow> [x] | None \<Rightarrow> []) @ (case hi of Some x \<Rightarrow> [x] | None \<Rightarrow> [])"
| "exprKids (EX_ARRAYLIT as _) = as"
| "exprKids (EX_REF a) = [a]"
| "exprKids (EX_ASSOC _ _ _ as) = as"
| "exprKids (EX_GENCALL _ _ as) = as"
| "exprKids (EX_TRY a) = [a]"
| "exprKids (EX_DEREF a) = [a]"
| "exprKids (EX_ENUMVAL _ _ as) = as"
| "exprKids (EX_CONV _ a) = [a]"
| "exprKids (EX_NEW _ n) = (case n of Some x \<Rightarrow> [x] | None \<Rightarrow> [])"
| "exprKids (EX_COALESCE a b) = [a, b]"
| "exprKids (EX_SIGN a) = [a]"
| "exprKids (EX_DYN _ a) = [a]"
| "exprKids (EX_EXT a) = [a]"
| "exprKids (EX_LAMBDA is _) = map snd is"
| "exprKids _ = []"

fun lambdaBody :: "ekind \<Rightarrow> stmt list" where
  "lambdaBody (EX_LAMBDA _ b) = [b]"
| "lambdaBody _ = []"

fun stmtExprs :: "skind \<Rightarrow> expr list" where
  "stmtExprs (ST_VAR _ _ i _) = (case i of Some x \<Rightarrow> [x] | None \<Rightarrow> [])"
| "stmtExprs (ST_ASSIGN t x _) = [t, x]"
| "stmtExprs (ST_IF x _ _) = [x]"
| "stmtExprs (ST_WHILE x _) = [x]"
| "stmtExprs (ST_RETURN x) = (case x of Some y \<Rightarrow> [y] | None \<Rightarrow> [])"
| "stmtExprs (ST_EXPR x) = [x]"
| "stmtExprs (ST_MATCH x _) = [x]"
| "stmtExprs (ST_YIELD x) = (case x of Some y \<Rightarrow> [y] | None \<Rightarrow> [])"
| "stmtExprs (ST_TRAP x) = [x]"
| "stmtExprs (ST_DOMAIN x _) = [x]"
| "stmtExprs _ = []"

fun stmtStmts :: "skind \<Rightarrow> stmt list" where
  "stmtStmts (ST_IF _ a b) = a # (case b of Some x \<Rightarrow> [x] | None \<Rightarrow> [])"
| "stmtStmts (ST_WHILE _ b) = [b]"
| "stmtStmts (ST_BLOCK ss) = ss"
| "stmtStmts (ST_MATCH _ as) = map (snd \<circ> snd) as"
| "stmtStmts (ST_DOMAIN _ b) = [b]"
| "stmtStmts _ = []"

definition nodeKids :: "astNode \<Rightarrow> astNode list" where
  "nodeKids n = (case n of
       Inl e \<Rightarrow> map Inl (exprKids (ex_kind e)) @ map Inr (lambdaBody (ex_kind e))
     | Inr s \<Rightarrow> map Inl (stmtExprs (st_kind s)) @ map Inr (stmtStmts (st_kind s)))"

text \<open>The callee of a call that is not a name: the walk leaves it out.\<close>

definition hiddenCallee :: "expr \<Rightarrow> expr \<Rightarrow> bool" where
  "hiddenCallee e f \<longleftrightarrow> (\<exists>as. ex_kind e = EX_CALL (Some f) as) \<and> \<not> isIdent f"

fun walkedExprs :: "ekind \<Rightarrow> expr list" where
  "walkedExprs (EX_CALL f as) = (case f of Some g \<Rightarrow> if isIdent g then [g] else [] | None \<Rightarrow> []) @ as"
| "walkedExprs k = exprKids k"

definition walkedKids :: "astNode \<Rightarrow> astNode list" where
  "walkedKids n = (case n of
       Inl e \<Rightarrow> map Inl (walkedExprs (ex_kind e)) @ map Inr (lambdaBody (ex_kind e))
     | Inr s \<Rightarrow> nodeKids (Inr s))"

definition insideRel :: "(astNode \<times> astNode) set" where
  "insideRel = {(a, b). b \<in> set (nodeKids a)}"

definition walkedRel :: "(astNode \<times> astNode) set" where
  "walkedRel = {(a, b). b \<in> set (walkedKids a)}"

section \<open>A walk with callbacks that keep the context\<close>

lemma visitAll_pure: "(\<And>x c. x \<in> set xs \<Longrightarrow> f x c = (F x, c)) \<Longrightarrow> visitAll f xs c = (list_all F xs, c)"
  by (induction xs) (auto simp: andThen_def)

lemma andThen_pure: "r = (b, c) \<Longrightarrow> k c = (d, c) \<Longrightarrow> andThen r k = (b \<and> d, c)"
  by (simp add: andThen_def)

lemma walkExpr_pure:
  assumes "\<And>x c. size x < size e \<Longrightarrow> f x c = (F x, c)" "\<And>s c. size s < size e \<Longrightarrow> g s c = (G s, c)"
  shows "walkExpr e f g c = (list_all F (walkedExprs (ex_kind e)) \<and> list_all G (lambdaBody (ex_kind e)), c)"
proof -
  have "walkExpr e f g c = walkExpr e (\<lambda>x c. (F x, c)) (\<lambda>s c. (G s, c)) c"
    by (rule walkExpr_cong[OF refl refl]) (use assms in simp_all)
  also have "\<dots> = (list_all F (walkedExprs (ex_kind e)) \<and> list_all G (lambdaBody (ex_kind e)), c)"
  proof (cases e)
    case (Expr p t k)
    let ?v = "\<lparr>av_expr = Some (\<lambda>x c. (F x, c)), av_stmt = Some (\<lambda>x c. (G x, c))\<rparr>"
    have L: "visitExprList ?v xs d = (list_all F xs, d)"
      "visitAll (\<lambda>(_, x). visitExpr ?v (Some x)) ys d = (list_all F (map snd ys), d)" for xs ys d
      unfolding visitExprList_def
      by (subst visitAll_pure[where F = F]; simp add: visitExpr_def)
        (subst visitAll_pure[where F = "F \<circ> snd"]; auto simp: visitExpr_def list.pred_map)
    show ?thesis unfolding Expr walkExpr_def
      by (cases k) (auto simp: visitExpr_def andThen_def L L[simplified] split: option.split)
  qed
  finally show ?thesis .
qed

lemma walkStmt_pure:
  assumes "\<And>x c. size x < size s \<Longrightarrow> f x c = (F x, c)" "\<And>x c. size x < size s \<Longrightarrow> g x c = (G x, c)"
  shows "walkStmt s f g c = (list_all F (stmtExprs (st_kind s)) \<and> list_all G (stmtStmts (st_kind s)), c)"
proof -
  have "walkStmt s f g c = walkStmt s (\<lambda>x c. (F x, c)) (\<lambda>x c. (G x, c)) c"
    by (rule walkStmt_cong[OF refl refl]) (use assms in simp_all)
  also have "\<dots> = (list_all F (stmtExprs (st_kind s)) \<and> list_all G (stmtStmts (st_kind s)), c)"
  proof (cases s)
    case (Stmt p k)
    let ?v = "\<lparr>av_expr = Some (\<lambda>x c. (F x, c)), av_stmt = Some (\<lambda>x c. (G x, c))\<rparr>"
    have M: "visitAll (\<lambda>(_, _, b). visitStmt ?v b) as d = (list_all G (map (snd \<circ> snd) as), d)" for as d
      by (subst visitAll_pure[where F = "G \<circ> snd \<circ> snd"]) (auto simp: list.pred_map comp_assoc)
    show ?thesis unfolding Stmt walkStmt_def
      by (cases k) (auto simp: visitExpr_def andThen_def visitAll_pure[where F = G] M[simplified] split: option.split)
  qed
  finally show ?thesis .
qed

section \<open>Searches\<close>

definition nodeSize :: "astNode \<Rightarrow> nat" where
  "nodeSize n = (case n of Inl e \<Rightarrow> size e | Inr s \<Rightarrow> size s)"

lemma kids_smaller: "b \<in> set (nodeKids a) \<Longrightarrow> nodeSize b < nodeSize a"
proof (cases a)
  case (Inl e)
  obtain p t k where e: "e = Expr p t k" by (cases e)
  note S = size_list_mem[of _ _ size] size_list_mem[of _ _ "size_prod (\<lambda>_. 0) size"]
  assume "b \<in> set (nodeKids a)"
  then show ?thesis unfolding Inl e nodeSize_def
    by (cases k) (auto simp: nodeKids_def dest!: S split: option.splits)
next
  case (Inr s)
  obtain p k where s: "s = Stmt p k" by (cases s)
  note S = size_list_mem[of _ _ size] size_list_mem[of _ _ "size_prod (\<lambda>_. 0) (size_prod (\<lambda>_. 0) size)"]
  assume "b \<in> set (nodeKids a)"
  then show ?thesis unfolding Inr s nodeSize_def
    by (cases k) (auto simp: nodeKids_def dest!: S split: option.splits)
qed

lemma walked_kids: "set (walkedKids a) \<subseteq> set (nodeKids a)"
proof (cases a)
  case (Inl e)
  then show ?thesis by (cases "ex_kind e") (auto simp: walkedKids_def nodeKids_def split: option.splits)
qed (simp add: walkedKids_def)

text \<open>\<open>found\<close> is what a search with the test \<open>P\<close> finds.\<close>

definition found :: "(expr \<Rightarrow> bool) \<Rightarrow> astNode \<Rightarrow> bool" where
  "found P n \<longleftrightarrow> (\<exists>x. (n, Inl x) \<in> walkedRel\<^sup>* \<and> P x)"

lemma found_step:
  "found P n \<longleftrightarrow> (case n of Inl e \<Rightarrow> P e | Inr s \<Rightarrow> False) \<or> (\<exists>m \<in> set (walkedKids n). found P m)"
proof -
  have "(n, Inl x) \<in> walkedRel\<^sup>* \<longleftrightarrow> n = Inl x \<or> (\<exists>m \<in> set (walkedKids n). (m, Inl x) \<in> walkedRel\<^sup>*)" for x
    by (auto simp: walkedRel_def elim: converse_rtranclE intro: converse_rtrancl_into_rtrancl)
  then show ?thesis by (auto simp: found_def split: sum.split)
qed

text \<open>Two callbacks that test and then walk on search.\<close>

definition searches :: "(expr \<Rightarrow> bool) \<Rightarrow> (expr \<Rightarrow> 'c \<Rightarrow> bool \<times> 'c) \<Rightarrow> (stmt \<Rightarrow> 'c \<Rightarrow> bool \<times> 'c) \<Rightarrow> bool" where
  "searches P f g \<longleftrightarrow> (\<forall>e c. f e c = (if P e then (False, c) else walkExpr e f g c)) \<and> (\<forall>s c. g s c = walkStmt s f g c)"

lemma search_finds:
  assumes "searches P f g"
  shows "(case n of Inl e \<Rightarrow> f e c = (\<not> found P n, c) | Inr s \<Rightarrow> g s c = (\<not> found P n, c))"
proof (induction "nodeSize n" arbitrary: n c rule: less_induct)
  case less
  have E: "f x d = (\<not> found P (Inl x), d)" if "size x < nodeSize n" for x d
    using less[of "Inl x" d] that by (simp add: nodeSize_def)
  have G: "g x d = (\<not> found P (Inr x), d)" if "size x < nodeSize n" for x d
    using less[of "Inr x" d] that by (simp add: nodeSize_def)
  show ?case
  proof (cases n)
    case (Inl e)
    have "walkExpr e f g c = (\<not> (\<exists>m \<in> set (walkedKids n). found P m), c)"
      by (subst walkExpr_pure[where F = "\<lambda>x. \<not> found P (Inl x)" and G = "\<lambda>x. \<not> found P (Inr x)"])
        (use E G Inl in \<open>auto simp: nodeSize_def walkedKids_def list_all_iff\<close>)
    then show ?thesis using assms Inl found_step[of P n] by (simp add: searches_def)
  next
    case (Inr s)
    have "walkStmt s f g c = (\<not> (\<exists>m \<in> set (walkedKids n). found P m), c)"
      by (subst walkStmt_pure[where F = "\<lambda>x. \<not> found P (Inl x)" and G = "\<lambda>x. \<not> found P (Inr x)"])
        (use E G Inr in \<open>auto simp: nodeSize_def walkedKids_def nodeKids_def list_all_iff\<close>)
    then show ?thesis using assms Inr found_step[of P n] by (simp add: searches_def)
  qed
qed

definition isNewSite :: "expr \<Rightarrow> bool" where
  "isNewSite e \<longleftrightarrow> (case ex_kind e of EX_NEW _ _ \<Rightarrow> True | EX_GENCALL _ _ _ \<Rightarrow> True | _ \<Rightarrow> False)"

definition isCallTo :: "(nat \<Rightarrow> nat option) \<Rightarrow> (nat \<Rightarrow> bool) \<Rightarrow> expr \<Rightarrow> bool" where
  "isCallTo callee q e \<longleftrightarrow> (case ex_kind e of EX_CALL _ _ \<Rightarrow> True | EX_METHOD _ _ _ \<Rightarrow> True | EX_ASSOC _ _ _ _ \<Rightarrow> True | _ \<Rightarrow> False) \<and>
     (\<exists>f. callee (ex_id e) = Some f \<and> q f)"

definition isNameOf :: "(nat \<Rightarrow> string option) \<Rightarrow> string \<Rightarrow> expr \<Rightarrow> bool" where
  "isNameOf cn n e \<longleftrightarrow> isIdent e \<and> cn (ex_id e) = Some n"

lemma hasNew_searches: "searches isNewSite hasNewInExpr hasNewInStmt"
  by (auto simp: searches_def isNewSite_def hasNewInExpr.simps hasNewInStmt.simps split: ekind.split)

lemma needsHome_searches: "searches (isCallTo callee q) (needsHomeInExpr callee q) (needsHomeInStmt callee q)"
  by (auto simp: searches_def isCallTo_def needsHomeInExpr.simps needsHomeInStmt.simps split: option.split)

lemma cnameIn_searches: "searches (isNameOf cn n) (cnameInExpr cn n) (cnameInStmt cn n)"
proof -
  have "cnameInExpr cn n e c = (if isNameOf cn n e then (False, c) else walkExpr e (cnameInExpr cn n) (cnameInStmt cn n) c)" for e and c :: 'a
  proof (cases e)
    case (Expr p t k)
    then show ?thesis
      by (cases k; subst cnameInExpr.simps) (auto simp: isNameOf_def walkExpr_def)
  qed
  then show ?thesis by (simp add: searches_def cnameInStmt.simps)
qed

section \<open>Properties\<close>

text \<open>What a node contains, through every child.\<close>

definition inside :: "(expr \<Rightarrow> bool) \<Rightarrow> astNode \<Rightarrow> bool" where
  "inside P n \<longleftrightarrow> (\<exists>x. (n, Inl x) \<in> insideRel\<^sup>* \<and> P x)"

abbreviation contains :: "stmt \<Rightarrow> (expr \<Rightarrow> bool) \<Rightarrow> bool" where
  "contains s P \<equiv> inside P (Inr s)"

lemma inside_simps:
  "inside P (Inl (Expr p t k)) \<longleftrightarrow> P (Expr p t k) \<or> list_ex (\<lambda>x. inside P (Inl x)) (exprKids k) \<or> list_ex (\<lambda>x. inside P (Inr x)) (lambdaBody k)"
  "inside P (Inr (Stmt p' k')) \<longleftrightarrow> list_ex (\<lambda>x. inside P (Inl x)) (stmtExprs k') \<or> list_ex (\<lambda>x. inside P (Inr x)) (stmtStmts k')"
proof -
  have step: "inside P n \<longleftrightarrow> (case n of Inl e \<Rightarrow> P e | Inr s \<Rightarrow> False) \<or> (\<exists>m \<in> set (nodeKids n). inside P m)" for n
  proof -
    have "(n, Inl x) \<in> insideRel\<^sup>* \<longleftrightarrow> n = Inl x \<or> (\<exists>m \<in> set (nodeKids n). (m, Inl x) \<in> insideRel\<^sup>*)" for x
      by (auto simp: insideRel_def elim: converse_rtranclE intro: converse_rtrancl_into_rtrancl)
    then show ?thesis by (auto simp: inside_def split: sum.split)
  qed
  from step[of "Inl (Expr p t k)"] step[of "Inr (Stmt p' k')"]
  show "inside P (Inl (Expr p t k)) \<longleftrightarrow> P (Expr p t k) \<or> list_ex (\<lambda>x. inside P (Inl x)) (exprKids k) \<or> list_ex (\<lambda>x. inside P (Inr x)) (lambdaBody k)"
    "inside P (Inr (Stmt p' k')) \<longleftrightarrow> list_ex (\<lambda>x. inside P (Inl x)) (stmtExprs k') \<or> list_ex (\<lambda>x. inside P (Inr x)) (stmtStmts k')"
    by (auto simp: nodeKids_def list_ex_iff)
qed

definition namedCallees :: "stmt \<Rightarrow> bool" where
  "namedCallees s \<longleftrightarrow> \<not> contains s (\<lambda>e. \<exists>f. hiddenCallee e f)"

lemma found_contains:
  assumes "namedCallees s"
  shows "found P (Inr s) \<longleftrightarrow> contains s P"
proof -
  have sub: "walkedRel \<subseteq> insideRel" using walked_kids by (auto simp: walkedRel_def insideRel_def)
  have same: "set (walkedKids a) = set (nodeKids a)" if "(Inr s, a) \<in> insideRel\<^sup>*" for a
  proof (cases a)
    case (Inl e)
    then have "\<not> hiddenCallee e f" for f using assms that by (auto simp: namedCallees_def inside_def)
    then show ?thesis unfolding Inl walkedKids_def nodeKids_def
      by (cases "ex_kind e") (auto simp: hiddenCallee_def split: option.splits)
  qed (simp add: walkedKids_def)
  have "(Inr s, a) \<in> walkedRel\<^sup>*" if "(Inr s, a) \<in> insideRel\<^sup>*" for a
    using that
  proof (induction rule: rtrancl_induct)
    case (step b c)
    then have "(b, c) \<in> walkedRel" using same[of b] by (auto simp: insideRel_def walkedRel_def)
    then show ?case using step.IH by (rule rtrancl_into_rtrancl[rotated])
  qed simp
  then show ?thesis using rtrancl_mono[OF sub] by (auto simp: found_def inside_def)
qed

text \<open>C35: the questions asked by walking a body are answered completely. When every call in a statement
  names its callee, the searches for an allocation, for a call of a function with a given property and
  for a use of a binding answer yes exactly when the statement contains such an expression at any
  depth, also inside lambdas, slices, views and match arms.\<close>

theorem walk_complete:
  assumes "namedCallees s"
  shows "(stmtHasNew s \<longleftrightarrow> contains s isNewSite) \<and>
    (stmtCallsNeedsHome callee s q \<longleftrightarrow> contains s (isCallTo callee q)) \<and>
    (stmtUsesCname cn s n \<longleftrightarrow> contains s (isNameOf cn n))"
  using search_finds[OF hasNew_searches, where n = "Inr s" and c = "()"]
    search_finds[OF needsHome_searches[of callee q], where n = "Inr s" and c = "()"]
    search_finds[OF cnameIn_searches[of cn n], where n = "Inr s" and c = "()"]
  by (simp add: stmtCallsNeedsHome_def stmtHasNew_def stmtUsesCname_def found_contains[OF assms])

definition exBody :: stmt where
  "exBody = Stmt 4 (ST_RETURN (Some (Expr 3 None (EX_SLICE (Expr 0 None (EX_IDENT ''a'' None))
     (Some (Expr 2 None (EX_CALL (Some (Expr 1 None (EX_IDENT ''lo'' None))) []))) None))))"

theorem walk_complete_witness:
  "stmtCallsNeedsHome (\<lambda>p. if p = 2 then Some 7 else None) exBody (\<lambda>f. f = 7) \<and> \<not> stmtHasNew exBody"
proof -
  have n: "namedCallees exBody" by (simp add: namedCallees_def exBody_def inside_simps hiddenCallee_def)
  have "contains exBody (isCallTo (\<lambda>p. if p = 2 then Some 7 else None) (\<lambda>f. f = 7))" "\<not> contains exBody isNewSite"
    by (simp_all add: exBody_def inside_simps isCallTo_def isNewSite_def)
  then show ?thesis using walk_complete[OF n] by blast
qed

text \<open>A call through a field that holds a function: \<open>(mk().f)(3)\<close>, and \<open>o.f(3)\<close>, which the checker rewrites to
  the same shape. The nodes 2 and 8 are the call of \<open>mk\<close> and the name \<open>o\<close>.\<close>

definition exViaField :: "expr \<Rightarrow> stmt" where
  "exViaField obj = Stmt 6 (ST_EXPR (Expr 5 None (EX_CALL (Some (Expr 3 None (EX_FIELD obj ''f''))) [Expr 4 None (EX_INT 3)])))"

definition exMk :: expr where "exMk = Expr 2 None (EX_CALL (Some (Expr 1 None (EX_IDENT ''mk'' None))) [])"
definition exObj :: expr where "exObj = Expr 8 None (EX_IDENT ''o'' None)"
definition exCallee :: "nat \<Rightarrow> nat option" where "exCallee p = (if p = 2 then Some 7 else None)"
definition exCName :: "nat \<Rightarrow> string option" where "exCName p = (if p = 8 then Some ''o'' else None)"

text \<open>The callee of a call through a field is not walked. In \<open>(mk().f)(3)\<close> the search for calls of
  functions that need a home arena overlooks the call of \<open>mk\<close>, and in \<open>o.f(3)\<close> the search for uses of
  \<open>o\<close> overlooks the only one, so that the parameter is reported as never used.\<close>

theorem field_callee_skipped:
  "\<not> stmtCallsNeedsHome exCallee (exViaField exMk) (\<lambda>f. f = 7) \<and> contains (exViaField exMk) (isCallTo exCallee (\<lambda>f. f = 7)) \<and>
   \<not> stmtUsesCname exCName (exViaField exObj) ''o'' \<and> contains (exViaField exObj) (isNameOf exCName ''o'')"
proof (intro conjI)
  show "\<not> stmtCallsNeedsHome exCallee (exViaField exMk) (\<lambda>f. f = 7)" by code_simp
  show "\<not> stmtUsesCname exCName (exViaField exObj) ''o''" by code_simp
qed (simp_all add: exViaField_def exMk_def exObj_def inside_simps isCallTo_def isNameOf_def exCallee_def exCName_def)

end
