(* ===== verification/Check_Names.thy ===== *)
theory Check_Names
  imports Ast Types_Walk "HOL-Library.List_Lexorder" "HOL-Library.Char_ord" "HOL-Library.AList"
begin

text \<open>The state of the checker as far as names go (check/check.c, check/check_lookup.c): the stack of
  scopes, the bindings, the names that the generated C already uses, and the proofs that a nullable
  reference is not null. The order of strings is that of \<open>strcmp\<close>: lexicographic in the codes of the
  characters.\<close>

section \<open>State\<close>

text \<open>A binding is an object, named by its position in \<open>ck_syms\<close>; \<open>sy_refDepth\<close> is kept for it in a side
  table of the plan. A binding that was imported and not renamed yet has no C name.\<close>

record sym =
  sy_name :: string
  sy_cname :: "string option"
  sy_type :: "ty option"
  sy_mut :: bool
  sy_depth :: int
  sy_addressed :: bool
  sy_refDepth :: int
  sy_minPointee :: int

text \<open>The names of the module's functions, structs, types and globals.\<close>

record modNames =
  md_funcs :: "string list"
  md_structs :: "string list"
  md_types :: "string list"
  md_globals :: "string list"

text \<open>The diagnostics of the operations that are modelled, in place of their texts.\<close>

datatype ckErr =
    AlreadyDeclared string
  | ValueNotRef string ty ty
  | RefNotValue string ty ty
  | NullableGiven string ty ty
  | LiteralTooBig string int ty
  | Mismatch string ty ty
  | NotBool ty
  | NullableDeref ty string

text \<open>What the side tables of the plan hold about a node (by its number): the declaration a call was
  resolved to, the coroutine a struct is the frame of and what it yields, the signature of a lambda's
  struct, and the calls and coroutines that are boxed.\<close>

record planTables =
  pl_callee :: "nat \<Rightarrow> nat option"
  pl_coroOf :: "nat \<Rightarrow> nat option"
  pl_yieldType :: "nat \<Rightarrow> ty option"
  pl_lamSig :: "nat \<Rightarrow> string option"
  pl_boxedCoro :: "nat list"
  pl_coroBoxed :: "nat list"

text \<open>A use of a type parameter that each instance checks again: the node, the expected type and the
  function it stands in.\<close>

type_synonym deferredUse = "expr option \<times> ty \<times> nat option"

text \<open>The innermost scope is the last of \<open>ck_scopes\<close>. The table of null proofs is a vector: a buffer and
  a length, and lowering the length leaves the entries in the buffer.\<close>

record checker =
  ck_tt :: typeTable
  ck_sub :: "(string list \<times> ty list) option"
  ck_syms :: "sym list"
  ck_scopes :: "nat list list"
  ck_globals :: "nat list"
  ck_m :: modNames
  ck_nameUses :: "(string \<times> nat) list"
  ck_moduleNames :: "string list"
  ck_moduleSize :: nat
  ck_narrow :: "string list"
  ck_narrowLen :: nat
  ck_narrowMarks :: "nat list"
  ck_errors :: "ckErr list"
  ck_plan :: planTables
  ck_retyped :: "(nat \<times> ty) list"
  ck_deferredUses :: "deferredUse list"
  ck_curFunc :: "nat option"

section \<open>Names taken by the module\<close>

definition modList :: "modNames \<Rightarrow> string list" where
  "modList m = md_funcs m @ md_structs m @ md_types m @ md_globals m"

text \<open>The binary search of \<open>moduleNameTaken\<close> in the sorted table, between \<open>lo\<close> and \<open>hi\<close>.\<close>

function nameSearch :: "string list \<Rightarrow> string \<Rightarrow> nat \<Rightarrow> nat \<Rightarrow> bool" where
  "nameSearch tab name lo hi =
    (if lo < hi then
       (let mid = (lo + hi) div 2
        in if name = tab ! mid then True
           else if name < tab ! mid then nameSearch tab name lo mid
           else nameSearch tab name (mid + 1) hi)
     else False)"
  by pat_completeness auto
termination by (relation "measure (\<lambda>(tab, name, lo, hi). hi - lo)") auto

declare nameSearch.simps [simp del]

definition moduleNameTaken :: "string \<Rightarrow> checker \<Rightarrow> bool \<times> checker" where
  "moduleNameTaken name ck =
    (let want = length (md_funcs (ck_m ck)) + length (md_structs (ck_m ck)) + length (md_types (ck_m ck)) + length (md_globals (ck_m ck));
         ck1 = (if ck_moduleSize ck \<noteq> want
                then ck\<lparr>ck_moduleNames := sort (modList (ck_m ck)), ck_moduleSize := want\<rparr> else ck)
     in (nameSearch (ck_moduleNames ck1) name 0 (length (ck_moduleNames ck1)), ck1))"

definition KW :: "string list" where
  "KW = [''auto'', ''break'', ''case'', ''char'', ''const'', ''continue'', ''default'', ''do'',
         ''double'', ''else'', ''enum'', ''extern'', ''float'', ''for'', ''goto'', ''if'',
         ''inline'', ''int'', ''long'', ''register'', ''restrict'', ''return'', ''short'',
         ''signed'', ''sizeof'', ''static'', ''struct'', ''switch'', ''typedef'', ''union'',
         ''unsigned'', ''void'', ''volatile'', ''while'',
         ''_Bool'', ''_Complex'', ''_Imaginary'',
         ''bool'', ''true'', ''false'',
         ''asm'', ''typeof'']"

definition cIdentIsKeyword :: "string \<Rightarrow> bool" where
  "cIdentIsKeyword n \<longleftrightarrow> n \<in> set KW"

section \<open>Names of the generated C\<close>

definition cNameCand :: "string \<Rightarrow> nat \<Rightarrow> string" where
  "cNameCand name n = (if n = 1 then name else name @ ''__'' @ showNat n)"

lemma nameSearch_found: "nameSearch tab name lo hi \<Longrightarrow> hi \<le> length tab \<Longrightarrow> name \<in> set tab"
proof (induction tab name lo hi rule: nameSearch.induct)
  case (1 tab name lo hi)
  show ?case
  proof (cases "lo < hi")
    case True
    then have m: "(lo + hi) div 2 < length tab" "(lo + hi) div 2 \<le> length tab" using 1(4) by auto
    show ?thesis using 1(1,2)[OF True refl] 1(3,4) True m
      by (subst (asm) (3) nameSearch.simps) (auto simp: Let_def split: if_splits)
  next
    case False
    then show ?thesis using 1(3) by (subst (asm) nameSearch.simps) simp
  qed
qed

text \<open>Every name the loop can ever stumble over; the cache is rebuilt at most once.\<close>

definition takenNames :: "checker \<Rightarrow> string set" where
  "takenNames ck = set (ck_moduleNames ck) \<union> set (modList (ck_m ck)) \<union> set KW"

lemma moduleNameTaken_spec:
  assumes "moduleNameTaken n ck = (b, ck1)"
  shows "b \<Longrightarrow> n \<in> takenNames ck" "takenNames ck1 \<subseteq> takenNames ck" "ck_m ck1 = ck_m ck"
    "ck_nameUses ck1 = ck_nameUses ck"
  using assms nameSearch_found[of "ck_moduleNames ck1" n 0]
  by (auto simp: moduleNameTaken_def Let_def takenNames_def split: if_splits)

definition digitVal :: "char \<Rightarrow> nat" where "digitVal c = of_char c - 48"

lemma digit_of: "n < 10 \<Longrightarrow> (of_char (char_of (48 + n)) :: nat) = 48 + n"
  by (simp add: of_char_of)

lemma read_showNat: "foldl (\<lambda>a c. 10 * a + digitVal c) 0 (showNat n) = n"
proof (induction n rule: showNat.induct)
  case (1 n)
  have "digitVal (char_of (48 + n mod 10)) = n mod 10" using digit_of[of "n mod 10"] by (simp add: digitVal_def)
  moreover have "n < 10 \<Longrightarrow> digitVal (char_of (48 + n)) = n" using digit_of[of n] by (simp add: digitVal_def)
  ultimately show ?case using 1 by (subst showNat.simps) simp
qed

lemma showNat_inj [simp]: "showNat m = showNat n \<longleftrightarrow> m = n"
  using read_showNat by metis

lemma showNat_digits: "c \<in> set (showNat n) \<Longrightarrow> (of_char c :: nat) < 58"
proof (induction n rule: showNat.induct)
  case (1 n)
  show ?case
  proof (cases "n < 10")
    case True
    then show ?thesis using 1(2) digit_of[OF True] by (subst (asm) showNat.simps) auto
  next
    case False
    have "n mod 10 < 10" by simp
    then show ?thesis using 1 False digit_of[of "n mod 10"] by (subst (asm) (2) showNat.simps) auto
  qed
qed

lemma showNat_plain: "\<forall>c \<in> set (showNat n). c \<noteq> CHR ''_''"
  using showNat_digits by force

lemma showNat_nonempty [simp]: "showNat n \<noteq> []"
  by (subst showNat.simps) simp

lemma cNameCand_eq:
  assumes "cNameCand x m = cNameCand y n" "m \<noteq> 1" "n \<noteq> 1"
  shows "x = y \<and> m = n"
proof -
  have t: "takeWhile (\<lambda>c. c \<noteq> CHR ''_'') (rev (z @ ''__'' @ showNat k)) = rev (showNat k)" for z k
    using showNat_plain[of k] takeWhile_append2[of "rev (showNat k)" "\<lambda>c. c \<noteq> CHR ''_''"] by simp
  have e: "x @ ''__'' @ showNat m = y @ ''__'' @ showNat n" using assms by (simp add: cNameCand_def)
  then have "rev (showNat m) = rev (showNat n)" using t[of x m] t[of y n] by metis
  then show ?thesis using e by simp
qed

lemma cNameCand_inj: "inj_on (cNameCand name) {0<..}"
proof (rule inj_onI)
  fix m n assume "m \<in> {0<..}" "n \<in> {0<..}" "cNameCand name m = cNameCand name n"
  then show "m = n" using cNameCand_eq[of name m name n] by (auto simp: cNameCand_def split: if_splits)
qed

text \<open>The indices still to be skipped.\<close>

definition skips :: "string \<Rightarrow> nat \<Rightarrow> checker \<Rightarrow> nat set" where
  "skips name n ck = {k. n < k \<and> cNameCand name k \<in> takenNames ck}"

lemma skips_finite: "finite (skips name n ck)"
proof (rule finite_imageD[OF finite_subset])
  show "cNameCand name ` skips name n ck \<subseteq> takenNames ck" by (auto simp: skips_def)
  show "finite (takenNames ck)" by (simp add: takenNames_def)
  show "inj_on (cNameCand name) (skips name n ck)"
    by (rule inj_on_subset[OF cNameCand_inj]) (auto simp: skips_def)
qed

lemma skips_less:
  assumes "moduleNameTaken (cNameCand name (n + 1)) ck = (b, ck1)" "b \<or> cIdentIsKeyword (cNameCand name (n + 1))"
  shows "card (skips name (n + 1) ck1) < card (skips name n ck)"
proof (rule psubset_card_mono[OF skips_finite])
  have "cNameCand name (n + 1) \<in> takenNames ck"
    using moduleNameTaken_spec(1)[OF assms(1)] assms(2) by (auto simp: cIdentIsKeyword_def takenNames_def)
  then show "skips name (n + 1) ck1 \<subset> skips name n ck"
    using moduleNameTaken_spec(2)[OF assms(1)] by (fastforce simp: skips_def)
qed

function nameLoop :: "string \<Rightarrow> nat \<Rightarrow> checker \<Rightarrow> string \<times> nat \<times> checker" where
  "nameLoop name n ck =
    (let n1 = n + 1; cand = cNameCand name n1; (b, ck1) = moduleNameTaken cand ck
     in if b \<or> cIdentIsKeyword cand then nameLoop name n1 ck1 else (cand, n1, ck1))"
  by pat_completeness auto
termination
  by (relation "measure (\<lambda>(name, n, ck). card (skips name n ck))") (auto dest!: sym[of "(_, _)"] intro!: skips_less[simplified])

declare nameLoop.simps [simp del]

definition cNameFor :: "string \<Rightarrow> checker \<Rightarrow> string \<times> checker" where
  "cNameFor name ck =
    (let n = (case map_of (ck_nameUses ck) name of Some k \<Rightarrow> k | None \<Rightarrow> 0);
         (cand, n1, ck1) = nameLoop name n ck
     in (cand, ck1\<lparr>ck_nameUses := AList.update name n1 (ck_nameUses ck1)\<rparr>))"

section \<open>The table of the module's names\<close>

lemma nameSearch_iff:
  "sorted tab \<Longrightarrow> hi \<le> length tab \<Longrightarrow> nameSearch tab name lo hi \<longleftrightarrow> (\<exists>i. lo \<le> i \<and> i < hi \<and> tab ! i = name)"
proof (induction tab name lo hi rule: nameSearch.induct)
  case (1 tab name lo hi)
  show ?case
  proof (cases "lo < hi")
    case True
    define mid where "mid = (lo + hi) div 2"
    have m: "lo \<le> mid" "mid < hi" using True by (auto simp: mid_def)
    have S: "tab ! i \<le> tab ! j" if "i \<le> j" "j < hi" for i j
      using that 1(3,4) by (simp add: sorted_iff_nth_mono)
    have eq: "nameSearch tab name lo hi \<longleftrightarrow> name = tab ! mid \<or>
        (if name < tab ! mid then nameSearch tab name lo mid else nameSearch tab name (mid + 1) hi)"
      using True by (subst nameSearch.simps) (simp add: Let_def mid_def)
    show ?thesis
    proof (cases "name = tab ! mid")
      case False
      show ?thesis
      proof (cases "name < tab ! mid")
        case lt: True
        have "nameSearch tab name lo mid \<longleftrightarrow> (\<exists>i. lo \<le> i \<and> i < mid \<and> tab ! i = name)"
          using 1(1)[OF True refl] False lt 1(3,4) m by (simp add: mid_def)
        moreover have "(lo \<le> i \<and> i < mid \<and> tab ! i = name) \<longleftrightarrow> (lo \<le> i \<and> i < hi \<and> tab ! i = name)" for i
          using S[of mid i] lt m by (cases "mid \<le> i") auto
        ultimately show ?thesis unfolding eq using False lt by simp
      next
        case gt: False
        have "nameSearch tab name (mid + 1) hi \<longleftrightarrow> (\<exists>i. mid + 1 \<le> i \<and> i < hi \<and> tab ! i = name)"
          using 1(2)[OF True refl] False gt 1(3,4) by (simp add: mid_def)
        moreover have "(mid + 1 \<le> i \<and> i < hi \<and> tab ! i = name) \<longleftrightarrow> (lo \<le> i \<and> i < hi \<and> tab ! i = name)" for i
          using S[of i mid] gt False m by (cases "i \<le> mid") auto
        ultimately show ?thesis unfolding eq using False gt by simp
      qed
    qed (use eq m in auto)
  qed (subst nameSearch.simps, simp)
qed

text \<open>The cache is right, or its size says that it is out of date.\<close>

definition cacheOk :: "checker \<Rightarrow> bool" where
  "cacheOk ck \<longleftrightarrow> (ck_moduleSize ck = length (modList (ck_m ck)) \<longrightarrow>
     sorted (ck_moduleNames ck) \<and> set (ck_moduleNames ck) = set (modList (ck_m ck)))"

lemma moduleNameTaken_iff:
  assumes "cacheOk ck" "moduleNameTaken n ck = (b, ck1)"
  shows "b \<longleftrightarrow> n \<in> set (modList (ck_m ck))" "cacheOk ck1"
proof -
  have w: "length (md_funcs m) + length (md_structs m) + length (md_types m) + length (md_globals m) = length (modList m)" for m
    by (simp add: modList_def)
  have c: "sorted (ck_moduleNames ck1)" "set (ck_moduleNames ck1) = set (modList (ck_m ck))" "ck_m ck1 = ck_m ck"
    using assms by (auto simp: moduleNameTaken_def Let_def w cacheOk_def split: if_splits)
  show "cacheOk ck1" using c by (simp add: cacheOk_def)
  have "b = nameSearch (ck_moduleNames ck1) n 0 (length (ck_moduleNames ck1))"
    using assms(2) by (auto simp: moduleNameTaken_def Let_def)
  also have "\<dots> \<longleftrightarrow> n \<in> set (ck_moduleNames ck1)"
    using nameSearch_iff[OF c(1), of "length (ck_moduleNames ck1)" n 0] by (simp add: in_set_conv_nth)
  finally show "b \<longleftrightarrow> n \<in> set (modList (ck_m ck))" using c(2) by simp
qed

section \<open>The names given out\<close>

lemma nameLoop_spec:
  "cacheOk ck \<Longrightarrow> nameLoop name n ck = (cand, n1, ck1) \<Longrightarrow>
     n < n1 \<and> cand = cNameCand name n1 \<and> cand \<notin> set (modList (ck_m ck)) \<and> \<not> cIdentIsKeyword cand \<and>
     cacheOk ck1 \<and> ck_m ck1 = ck_m ck \<and> ck_nameUses ck1 = ck_nameUses ck"
proof (induction name n ck rule: nameLoop.induct)
  case (1 name n ck)
  obtain b ck2 where t: "moduleNameTaken (cNameCand name (n + 1)) ck = (b, ck2)" by fastforce
  note S = moduleNameTaken_iff[OF 1(2) t] moduleNameTaken_spec(3,4)[OF t]
  show ?case
  proof (cases "b \<or> cIdentIsKeyword (cNameCand name (n + 1))")
    case True
    then have "nameLoop name (n + 1) ck2 = (cand, n1, ck1)" using 1(3) t by (subst (asm) nameLoop.simps) (simp add: Let_def)
    from 1(1)[OF refl refl t[symmetric] refl True S(2) this] show ?thesis using S by auto
  next
    case False
    then show ?thesis using 1(3) t S by (subst (asm) nameLoop.simps) (auto simp: Let_def)
  qed
qed

definition usesOf :: "checker \<Rightarrow> string \<Rightarrow> nat" where
  "usesOf ck x = (case map_of (ck_nameUses ck) x of Some k \<Rightarrow> k | None \<Rightarrow> 0)"

lemma cNameFor_spec:
  assumes "cacheOk ck" "cNameFor name ck = (c, ck1)"
  shows "\<exists>n1. usesOf ck name < n1 \<and> c = cNameCand name n1 \<and> usesOf ck1 = (usesOf ck)(name := n1)"
    "c \<notin> set (modList (ck_m ck))" "\<not> cIdentIsKeyword c" "cacheOk ck1" "ck_m ck1 = ck_m ck"
proof -
  obtain n1 ck2 where l: "nameLoop name (usesOf ck name) ck = (c, n1, ck2)" "ck1 = ck2\<lparr>ck_nameUses := AList.update name n1 (ck_nameUses ck2)\<rparr>"
    using assms(2) by (auto simp: cNameFor_def Let_def usesOf_def[symmetric] split: prod.splits)
  note S = nameLoop_spec[OF assms(1) l(1)]
  show "c \<notin> set (modList (ck_m ck))" "\<not> cIdentIsKeyword c" "cacheOk ck1" "ck_m ck1 = ck_m ck"
    using S l(2) by (auto simp: cacheOk_def)
  have "usesOf ck1 = (usesOf ck)(name := n1)" using S l(2) by (simp add: usesOf_def fun_eq_iff update_conv)
  then show "\<exists>n1. usesOf ck name < n1 \<and> c = cNameCand name n1 \<and> usesOf ck1 = (usesOf ck)(name := n1)"
    using S by blast
qed

text \<open>The names of the bindings of one function, in the order of their declarations.\<close>

fun cNames :: "string list \<Rightarrow> checker \<Rightarrow> string list \<times> checker" where
  "cNames [] ck = ([], ck)"
| "cNames (x # xs) ck = (let (c, ck1) = cNameFor x ck; (cs, ck2) = cNames xs ck1 in (c # cs, ck2))"

end
