(* ===== verification/Check_Scopes.thy ===== *)
theory Check_Scopes
  imports Check_Names
begin

text \<open>Scopes, the resolution of names, places, and the proofs that a nullable reference is not null
  (check/check.c, check/check_lookup.c, the path test of check/check_escape.c).\<close>

section \<open>Scopes\<close>

definition pushScope :: "checker \<Rightarrow> checker" where
  "pushScope ck = ck\<lparr>ck_scopes := ck_scopes ck @ [[]], ck_narrowMarks := ck_narrowMarks ck @ [ck_narrowLen ck]\<rparr>"

definition popScope :: "checker \<Rightarrow> checker" where
  "popScope ck =
    (let ck1 = ck\<lparr>ck_scopes := butlast (ck_scopes ck)\<rparr>
     in if ck_narrowMarks ck1 \<noteq> []
        then ck1\<lparr>ck_narrowLen := ck_narrowMarks ck1 ! (length (ck_narrowMarks ck1) - 1), ck_narrowMarks := butlast (ck_narrowMarks ck1)\<rparr>
        else ck1)"

text \<open>A type under the substitution of the instance that is being checked.\<close>

definition tsub :: "checker \<Rightarrow> ty option \<Rightarrow> ty option \<times> checker" where
  "tsub ck t = (case (ck_sub ck, t) of
       (Some (ps, as), Some u) \<Rightarrow> (let (v, T) = ttSubstitute u ps as (ck_tt ck) in (Some v, ck\<lparr>ck_tt := T\<rparr>))
     | _ \<Rightarrow> (t, ck))"

text \<open>\<open>declare\<close>: the new binding, or the one that forbids it. The table of types is threaded through the
  question whether the type holds a reference.\<close>

definition declareSym :: "string \<Rightarrow> ty option \<Rightarrow> bool \<Rightarrow> bool \<Rightarrow> int \<Rightarrow> checker \<Rightarrow> nat \<times> checker" where
  "declareSym name t mu shadow depth ck =
    (case (if shadow then None else List.find (\<lambda>i. sy_name (ck_syms ck ! i) = name) (List.last (ck_scopes ck))) of
       Some old \<Rightarrow> (old, ck\<lparr>ck_errors := ck_errors ck @ [AlreadyDeclared name]\<rparr>)
     | None \<Rightarrow>
        (let (cn, ck1) = cNameFor name ck;
             (r, T) = (case t of Some u \<Rightarrow> typeContainsRef u (ck_tt ck1) | None \<Rightarrow> (False, ck_tt ck1));
             s = \<lparr>sy_name = name, sy_cname = Some cn, sy_type = t, sy_mut = mu, sy_depth = depth,
                  sy_addressed = False, sy_refDepth = (if r then depth else 0), sy_minPointee = -1\<rparr>;
             i = length (ck_syms ck1)
         in (i, ck1\<lparr>ck_tt := T, ck_syms := ck_syms ck1 @ [s],
                    ck_scopes := butlast (ck_scopes ck1) @ [List.last (ck_scopes ck1) @ [i]]\<rparr>)))"

definition lookup :: "checker \<Rightarrow> string \<Rightarrow> nat option" where
  "lookup ck name =
    (case List.find (\<lambda>i. sy_name (ck_syms ck ! i) = name) (concat (map rev (rev (ck_scopes ck)))) of
       Some i \<Rightarrow> Some i
     | None \<Rightarrow> List.find (\<lambda>i. sy_name (ck_syms ck ! i) = name) (ck_globals ck))"

section \<open>Places\<close>

fun isPlace :: "expr \<Rightarrow> bool" where
  "isPlace (Expr _ _ (EX_IDENT _ _)) \<longleftrightarrow> True"
| "isPlace (Expr _ _ (EX_FIELD a _)) \<longleftrightarrow> isPlace a"
| "isPlace (Expr _ _ (EX_INDEX a _)) \<longleftrightarrow> isPlace a"
| "isPlace (Expr _ _ (EX_SLICE a _ _)) \<longleftrightarrow> isPlace a"
| "isPlace _ \<longleftrightarrow> False"

datatype rootStep = ROOT_FIELD | ROOT_INDEX | ROOT_SLICE | ROOT_DEREF | ROOT_SIGN

text \<open>\<open>extcRootLeaf\<close>: the mask is a list of steps, \<open>hops\<close> counts them and \<open>mx\<close> is the limit (none when it
  is not positive).\<close>

fun rootLeafAt :: "rootStep list \<Rightarrow> int \<Rightarrow> expr \<Rightarrow> int \<Rightarrow> expr option" where
  "rootLeafAt steps mx (Expr p t k) hops =
    (if mx > 0 \<and> hops \<ge> mx then None
     else case k of
         EX_IDENT _ _ \<Rightarrow> Some (Expr p t k)
       | EX_FIELD a _ \<Rightarrow> if ROOT_FIELD \<in> set steps then rootLeafAt steps mx a (hops + 1) else None
       | EX_INDEX a _ \<Rightarrow> if ROOT_INDEX \<in> set steps then rootLeafAt steps mx a (hops + 1) else None
       | EX_SLICE a _ _ \<Rightarrow> if ROOT_SLICE \<in> set steps then rootLeafAt steps mx a (hops + 1) else None
       | EX_DEREF a \<Rightarrow> if ROOT_DEREF \<in> set steps then rootLeafAt steps mx a (hops + 1) else None
       | EX_SIGN a \<Rightarrow> if ROOT_SIGN \<in> set steps then rootLeafAt steps mx a (hops + 1) else None
       | _ \<Rightarrow> None)"

definition extcRootLeaf :: "expr \<Rightarrow> rootStep list \<Rightarrow> int \<Rightarrow> expr option" where
  "extcRootLeaf e steps mx = rootLeafAt steps mx e 0"

definition placeRoot :: "checker \<Rightarrow> expr \<Rightarrow> nat option" where
  "placeRoot ck e = (case extcRootLeaf e [ROOT_FIELD, ROOT_INDEX, ROOT_SLICE] 0 of
       None \<Rightarrow> None
     | Some l \<Rightarrow> (case ex_kind l of EX_IDENT n _ \<Rightarrow> lookup ck n | _ \<Rightarrow> None))"

fun isReadonlyRef :: "ty option \<Rightarrow> bool" where
  "isReadonlyRef (Some (TRef _ _ _ m)) \<longleftrightarrow> \<not> m"
| "isReadonlyRef _ \<longleftrightarrow> False"

fun isRefType :: "ty option \<Rightarrow> bool" where
  "isRefType (Some (TRef _ _ _ _)) \<longleftrightarrow> True"
| "isRefType _ \<longleftrightarrow> False"

fun pathHasReadonlyRef :: "expr \<Rightarrow> bool" where
  "pathHasReadonlyRef (Expr p t k) \<longleftrightarrow> isReadonlyRef t \<or>
     (case k of
        EX_DEREF a \<Rightarrow> isReadonlyRef (ex_type a) \<or> (\<not> isRefType (ex_type a) \<and> pathHasReadonlyRef a)
      | EX_FIELD a _ \<Rightarrow> pathHasReadonlyRef a
      | EX_INDEX a _ \<Rightarrow> pathHasReadonlyRef a
      | EX_SLICE a _ _ \<Rightarrow> pathHasReadonlyRef a
      | _ \<Rightarrow> False)"

definition isMutRef :: "ty option \<Rightarrow> bool" where
  "isMutRef t \<longleftrightarrow> (case t of Some (TRef _ _ _ m) \<Rightarrow> m | _ \<Rightarrow> False)"

definition isReadonlyView :: "typeTable \<Rightarrow> ty option \<Rightarrow> bool" where
  "isReadonlyView T t \<longleftrightarrow> (case t of Some (TGeneric p s ts m x) \<Rightarrow> ttIsViewType T (TGeneric p s ts m x) \<and> \<not> m | _ \<Rightarrow> False)"

definition derefOf :: "expr \<Rightarrow> expr option" where
  "derefOf e = (case ex_kind e of EX_DEREF a \<Rightarrow> Some a | _ \<Rightarrow> None)"

definition isWritablePlace :: "checker \<Rightarrow> expr \<Rightarrow> bool" where
  "isWritablePlace ck e =
    (case derefOf e of
       Some a \<Rightarrow> isMutRef (ex_type a)
     | None \<Rightarrow>
        (if pathHasReadonlyRef e then False
         else if isRefType (ex_type e) then isMutRef (ex_type e)
         else if isReadonlyView (ck_tt ck) (ex_type e) then False
         else case placeRoot ck e of Some r \<Rightarrow> sy_mut (ck_syms ck ! r) | None \<Rightarrow> False))"

fun repeatablePure :: "expr \<Rightarrow> bool" where
  "repeatablePure (Expr p t k) \<longleftrightarrow> (case k of
       EX_INT _ \<Rightarrow> True | EX_FLOAT \<Rightarrow> True | EX_BOOL _ \<Rightarrow> True | EX_STR _ \<Rightarrow> True | EX_NULL \<Rightarrow> True
     | EX_IDENT _ _ \<Rightarrow> True
     | EX_ENUMVAL _ _ _ \<Rightarrow> True
     | EX_FIELD a _ \<Rightarrow> repeatablePure a
     | EX_SIGN a \<Rightarrow> repeatablePure a
     | EX_DEREF a \<Rightarrow> repeatablePure a
     | EX_INDEX a i \<Rightarrow> repeatablePure a \<and> repeatablePure i
     | EX_UN _ a \<Rightarrow> repeatablePure a
     | EX_BIN _ a b \<Rightarrow> repeatablePure a \<and> repeatablePure b
     | _ \<Rightarrow> False)"

definition isLvalue :: "expr \<Rightarrow> bool" where
  "isLvalue e \<longleftrightarrow> (case ex_kind e of EX_IDENT _ _ \<Rightarrow> True | EX_FIELD _ _ \<Rightarrow> True | EX_DEREF _ \<Rightarrow> True | _ \<Rightarrow> False)"

text \<open>The literals of the lexer are not negative, so that the negation does not overflow.\<close>

definition asIntLit :: "expr \<Rightarrow> int option" where
  "asIntLit e = (case ex_kind e of
       EX_INT v \<Rightarrow> Some v
     | EX_UN op a \<Rightarrow> (if op = ''-'' then (case ex_kind a of EX_INT v \<Rightarrow> Some (- v) | _ \<Rightarrow> None) else None)
     | _ \<Rightarrow> None)"

section \<open>Null proofs\<close>

definition isNarrowed :: "checker \<Rightarrow> string option \<Rightarrow> bool" where
  "isNarrowed ck cn \<longleftrightarrow> (case cn of None \<Rightarrow> False | Some n \<Rightarrow> n \<in> set (take (ck_narrowLen ck) (ck_narrow ck)))"

definition pushNarrow :: "string option \<Rightarrow> checker \<Rightarrow> checker" where
  "pushNarrow cn ck = (case cn of None \<Rightarrow> ck | Some n \<Rightarrow>
     if isNarrowed ck cn then ck
     else ck\<lparr>ck_narrow := take (ck_narrowLen ck) (ck_narrow ck) @ [n] @ drop (ck_narrowLen ck + 1) (ck_narrow ck),
             ck_narrowLen := ck_narrowLen ck + 1\<rparr>)"

text \<open>The entry for the binding itself or for a path through it.\<close>

definition factAbout :: "string \<Rightarrow> string \<Rightarrow> bool" where
  "factAbout n k \<longleftrightarrow> k = n \<or> take (length n + 1) k = n @ ''.''"

fun unNarrowAt :: "string \<Rightarrow> string list \<Rightarrow> nat \<Rightarrow> nat" where
  "unNarrowAt n [] i = i"
| "unNarrowAt n (k # ks) i = (if factAbout n k then i else unNarrowAt n ks (i + 1))"

definition unNarrow :: "string option \<Rightarrow> checker \<Rightarrow> checker" where
  "unNarrow cn ck = (case cn of None \<Rightarrow> ck
     | Some n \<Rightarrow> ck\<lparr>ck_narrowLen := unNarrowAt n (take (ck_narrowLen ck) (ck_narrow ck)) 0\<rparr>)"

definition rejectNullableDeref :: "ty \<Rightarrow> string \<Rightarrow> checker \<Rightarrow> bool \<times> checker" where
  "rejectNullableDeref t what ck = (case t of
       TRef _ _ True _ \<Rightarrow> (True, ck\<lparr>ck_errors := ck_errors ck @ [NullableDeref t what]\<rparr>)
     | _ \<Rightarrow> (False, ck))"

text \<open>The name (or path) a comparison with \<open>null\<close> is about, and whether it proves it in the true branch.\<close>

fun isNullLit :: "expr \<Rightarrow> bool" where
  "isNullLit (Expr _ _ EX_NULL) \<longleftrightarrow> True"
| "isNullLit _ \<longleftrightarrow> False"

definition isNullableRef :: "ty option \<Rightarrow> bool" where
  "isNullableRef t \<longleftrightarrow> (case t of Some (TRef _ _ nu _) \<Rightarrow> nu | _ \<Rightarrow> False)"

definition targetOf :: "checker \<Rightarrow> string \<Rightarrow> expr \<Rightarrow> (string \<times> bool) option" where
  "targetOf ck op var =
    (case ex_kind var of
       EX_FIELD (Expr _ _ (EX_IDENT n _)) fld \<Rightarrow>
        (case lookup ck n of None \<Rightarrow> None
         | Some r \<Rightarrow> (let rs = ck_syms ck ! r in
            if sy_type rs = None \<or> sy_depth rs < 1 \<or> sy_addressed rs then None
            else if \<not> isNullableRef (ex_type var) then None
            else map_option (\<lambda>c. (c @ ''.'' @ fld, op = ''!='')) (sy_cname rs)))
     | EX_IDENT n _ \<Rightarrow>
        (case lookup ck n of None \<Rightarrow> None
         | Some r \<Rightarrow> (let rs = ck_syms ck ! r in
            if \<not> isNullableRef (sy_type rs) then None
            else map_option (\<lambda>c. (c, op = ''!='')) (sy_cname rs)))
     | _ \<Rightarrow> None)"

definition narrowTarget :: "checker \<Rightarrow> expr \<Rightarrow> (string \<times> bool) option" where
  "narrowTarget ck cond = (case ex_kind cond of
       EX_BIN op l r \<Rightarrow>
        (if \<not> isEqualityOp op then None
         else if isNullLit r then targetOf ck op l
         else if isNullLit l then targetOf ck op r
         else None)
     | _ \<Rightarrow> None)"

fun narrowFactsOf :: "expr \<Rightarrow> checker \<Rightarrow> checker" where
  "narrowFactsOf (Expr p t k) ck = (case k of
       EX_BIN op l r \<Rightarrow>
        (if op = ''&&'' then narrowFactsOf r (narrowFactsOf l ck)
         else (case narrowTarget ck (Expr p t k) of Some (tg, True) \<Rightarrow> pushNarrow (Some tg) ck | _ \<Rightarrow> ck))
     | _ \<Rightarrow> (case narrowTarget ck (Expr p t k) of Some (tg, True) \<Rightarrow> pushNarrow (Some tg) ck | _ \<Rightarrow> ck))"

function blockExits :: "stmt \<Rightarrow> bool" where
  "blockExits (Stmt p k) \<longleftrightarrow> (case k of
       ST_BLOCK ss \<Rightarrow> (if length ss = 0 then False else blockExits (ss ! (length ss - 1)))
     | ST_RETURN _ \<Rightarrow> True | ST_BREAK \<Rightarrow> True | ST_CONTINUE \<Rightarrow> True
     | _ \<Rightarrow> False)"
  by pat_completeness auto
termination
proof (relation "measure size")
  fix p k ss assume "k = ST_BLOCK ss" "length ss \<noteq> 0"
  then show "(ss ! (length ss - 1), Stmt p k) \<in> measure size"
    using size_list_mem[of "ss ! (length ss - 1)" ss size] by simp
qed simp

end
