(* ===== verification/Check_Assign.thy ===== *)
theory Check_Assign
  imports Check_Scopes
begin

text \<open>The gate of implicit conversion in check/check.c: what a value may be assigned to, passed for or
  stored in.\<close>

definition typeStr :: "checker \<Rightarrow> ty \<Rightarrow> string" where
  "typeStr ck t = (case structOf t of
       Some s \<Rightarrow> (case pl_lamSig (ck_plan ck) s of Some g \<Rightarrow> g | None \<Rightarrow> ttRender (ck_tt ck) t)
     | None \<Rightarrow> ttRender (ck_tt ck) t)"

definition isNumericLit :: "expr \<Rightarrow> bool" where
  "isNumericLit e \<longleftrightarrow> (case ex_kind e of EX_INT _ \<Rightarrow> True | EX_FLOAT \<Rightarrow> True | _ \<Rightarrow> False)"

definition isPrintable :: "ty \<Rightarrow> bool" where
  "isPrintable t \<longleftrightarrow> (case ttBase t of
       TBuiltin _ _ \<Rightarrow> True | TEnum _ _ _ \<Rightarrow> True | TStruct _ _ \<Rightarrow> True | TGeneric _ _ _ _ _ \<Rightarrow> True | TArray _ _ _ \<Rightarrow> True
     | _ \<Rightarrow> False)"

definition literalFits :: "expr \<Rightarrow> ty \<Rightarrow> bool" where
  "literalFits e want =
    (let w = ttBase want in
     if ttIsError w then True
     else case ex_kind e of
         EX_INT v \<Rightarrow>
          (let bits = ttIntBits w in
           if bits > 0 then
             (if bits = 64 then ttIntSigned w \<or> v \<ge> 0
              else if ttIntSigned w then - (2 ^ (bits - 1)) \<le> v \<and> v \<le> 2 ^ (bits - 1) - 1
              else if v < 0 then False
              else v \<le> 2 ^ bits - 1)
           else ttIsFloat w)
       | EX_FLOAT \<Rightarrow> ttIsFloat w
       | EX_BOOL _ \<Rightarrow> ttIs w ''bool''
       | _ \<Rightarrow> False)"

text \<open>The context's type, for an expression that cannot tell its own.\<close>

definition setType :: "ty \<Rightarrow> expr \<Rightarrow> expr" where
  "setType t e = Expr (ex_id e) (Some t) (ex_kind e)"

definition adoptContextType :: "expr \<Rightarrow> ty \<Rightarrow> expr" where
  "adoptContextType e want =
    (case ex_kind e of
       EX_NULL \<Rightarrow> (if isNullableRef (Some want) then setType want e else e)
     | k \<Rightarrow>
        (let w = ttBase want in
         case k of
           EX_ARRAYLIT _ _ \<Rightarrow> setType w e
         | EX_STRUCTLIT None _ \<Rightarrow> (case structOf w of Some _ \<Rightarrow> setType w e | None \<Rightarrow> e)
         | _ \<Rightarrow> e))"

definition expectBool :: "ty \<Rightarrow> checker \<Rightarrow> checker" where
  "expectBool t ck = (if ttIsError t then ck
     else if \<not> ttIs t ''bool'' then ck\<lparr>ck_errors := ck_errors ck @ [NotBool t]\<rparr> else ck)"

text \<open>The first step: a value whose type is not known before instantiation is noted.\<close>

definition mentions :: "ty option \<Rightarrow> bool" where
  "mentions t \<longleftrightarrow> (case t of Some u \<Rightarrow> mentionsParam u | None \<Rightarrow> False)"

definition deferUse :: "ty \<Rightarrow> ty \<Rightarrow> expr option \<Rightarrow> checker \<Rightarrow> checker" where
  "deferUse want got nd ck =
    (if (case nd of
           Some e \<Rightarrow>
             (ttIsError got \<and> (case ex_kind e of
                 EX_METHOD r _ _ \<Rightarrow> pl_callee (ck_plan ck) (ex_id e) = None \<and> mentions (ex_type r) | _ \<Rightarrow> False)) \<or>
             mentionsParam got
         | None \<Rightarrow> False)
     then ck\<lparr>ck_deferredUses := ck_deferredUses ck @ [(nd, want, ck_curFunc ck)]\<rparr> else ck)"

text \<open>The coroutine whose frame is boxed into a handle, if this is that case.\<close>

definition boxesCoro :: "checker \<Rightarrow> ty \<Rightarrow> ty \<Rightarrow> expr option \<Rightarrow> (nat \<times> nat) option" where
  "boxesCoro ck want got nd =
    (case (nd, structOf got) of
       (Some e, Some s) \<Rightarrow>
        (case (ex_kind e, pl_coroOf (ck_plan ck) s) of
           (EX_CALL _ _, Some f) \<Rightarrow>
            (if isProtoType (ck_tt ck) want ''coroutine'' 1
             then (case ((case want of TGeneric _ _ (t # _) _ _ \<Rightarrow> Some t | TEnum _ _ (t # _) \<Rightarrow> Some t | _ \<Rightarrow> None), pl_yieldType (ck_plan ck) f) of
                 (Some yt, Some ft) \<Rightarrow> (if typeStr ck yt = typeStr ck ft then Some (ex_id e, f) else None)
               | _ \<Rightarrow> None)
             else None)
         | _ \<Rightarrow> None)
     | _ \<Rightarrow> None)"

definition boxCoro :: "ty \<Rightarrow> nat \<Rightarrow> nat \<Rightarrow> checker \<Rightarrow> checker" where
  "boxCoro want p f ck = ck\<lparr>ck_plan := (ck_plan ck)\<lparr>pl_boxedCoro := p # pl_boxedCoro (ck_plan ck), pl_coroBoxed := f # pl_coroBoxed (ck_plan ck)\<rparr>,
     ck_retyped := (p, want) # ck_retyped ck\<rparr>"

definition fails :: "ckErr \<Rightarrow> checker \<Rightarrow> bool \<times> checker" where
  "fails e ck = (False, ck\<lparr>ck_errors := ck_errors ck @ [e]\<rparr>)"

text \<open>Two references.\<close>

definition isVoid :: "ty \<Rightarrow> bool" where
  "isVoid t \<longleftrightarrow> (case t of TVoid _ \<Rightarrow> True | _ \<Rightarrow> False)"

definition refNullLost :: "ty \<Rightarrow> ty \<Rightarrow> bool" where
  "refNullLost want got \<longleftrightarrow> (case (want, got) of
     (TRef _ wi wn wm, TRef _ gi gn gm) \<Rightarrow> gn \<and> \<not> wn \<and> ttEquals wi gi | _ \<Rightarrow> False)"

definition refWidens :: "ty \<Rightarrow> ty \<Rightarrow> bool" where
  "refWidens want got \<longleftrightarrow> (case (want, got) of
     (TRef _ wi wn wm, TRef _ gi gn gm) \<Rightarrow>
        (wn \<and> \<not> gn \<and> wm = gm \<and> ttEquals wi gi) \<or>
        (isVoid (ttBase wi) \<and> (\<not> gn \<or> wn) \<and> (\<not> wm \<or> gm)) \<or>
        (gm \<and> \<not> wm \<and> ttEquals wi gi)
   | _ \<Rightarrow> False)"

definition viewDrops :: "ty \<Rightarrow> ty \<Rightarrow> bool" where
  "viewDrops want got \<longleftrightarrow> (case (want, got) of
     (TGeneric _ _ _ _ _, TGeneric _ _ _ _ _) \<Rightarrow> ttViewDowngradable want got \<and> \<not> ttEquals want got | _ \<Rightarrow> False)"

definition checkAssignable :: "ty \<Rightarrow> ty \<Rightarrow> expr option \<Rightarrow> string \<Rightarrow> checker \<Rightarrow> bool \<times> checker" where
  "checkAssignable want got nd what ck0 =
    (let ck = deferUse want got nd ck0 in
     if ttIsError want \<or> ttIsError got then (True, ck)
     else if mentionsParam got then (True, ck)
     else case boxesCoro ck want got nd of
         Some (p, f) \<Rightarrow> (True, boxCoro want p f ck)
       | None \<Rightarrow>
          (if isRef want \<and> \<not> isRef got then fails (ValueNotRef what want got) ck
           else if \<not> isRef want \<and> isRef got then fails (RefNotValue what want got) ck
           else if refNullLost want got then fails (NullableGiven what want got) ck
           else if ttEquals want got then (True, ck)
           else if refWidens want got then (True, ck)
           else if viewDrops want got then (True, ck)
           else if ttCanWiden got want then (True, ck)
           else if (case nd of Some e \<Rightarrow> literalFits e want | None \<Rightarrow> False) then (True, ck)
           else (case nd of
               Some (Expr _ _ (EX_INT v)) \<Rightarrow>
                 (if ttIsInteger want then fails (LiteralTooBig what v want) ck else fails (Mismatch what want got) ck)
             | _ \<Rightarrow> fails (Mismatch what want got) ck)))"

end
