(* ===== verification/Check_Claims.thy ===== *)
theory Check_Claims
  imports Check_Assign Types_Widen Types_WalkClaims Lexer
begin

text \<open>The properties of the checker's names, scopes, null proofs and implicit conversions.\<close>

section \<open>Names of the generated C\<close>

text \<open>Each binding gets a numbered form of its name, and two bindings of one name different numbers.\<close>

lemma cNames_spec:
  "cacheOk ck \<Longrightarrow> cNames xs ck = (cs, ck1) \<Longrightarrow>
   length cs = length xs \<and> (\<forall>i < length xs. \<exists>k > usesOf ck (xs ! i). cs ! i = cNameCand (xs ! i) k) \<and>
   (\<forall>i j. i < j \<and> j < length xs \<and> xs ! i = xs ! j \<longrightarrow> cs ! i \<noteq> cs ! j) \<and>
   set cs \<inter> (set (modList (ck_m ck)) \<union> set KW) = {}"
proof (induction xs arbitrary: ck cs)
  case (Cons x xs)
  obtain c ck2 where c: "cNameFor x ck = (c, ck2)" by fastforce
  obtain ds where d: "cNames xs ck2 = (ds, ck1)" "cs = c # ds" using Cons.prems(2) c by (auto split: prod.splits)
  note S = cNameFor_spec(2-5)[OF Cons.prems(1) c]
  obtain n where n: "usesOf ck x < n" "c = cNameCand x n" "usesOf ck2 = (usesOf ck)(x := n)"
    using cNameFor_spec(1)[OF Cons.prems(1) c] by blast
  have I: "length ds = length xs" "\<forall>i < length xs. \<exists>k > usesOf ck2 (xs ! i). ds ! i = cNameCand (xs ! i) k"
      "\<forall>i j. i < j \<and> j < length xs \<and> xs ! i = xs ! j \<longrightarrow> ds ! i \<noteq> ds ! j"
      "set ds \<inter> (set (modList (ck_m ck)) \<union> set KW) = {}"
    using Cons.IH[OF S(3) d(1)] S(4) by simp_all
  have "\<exists>k > usesOf ck ((x # xs) ! i). cs ! i = cNameCand ((x # xs) ! i) k" if i: "i < length (x # xs)" for i
  proof (cases i)
    case (Suc j)
    then obtain k where k: "k > usesOf ck2 (xs ! j)" "ds ! j = cNameCand (xs ! j) k" using I(2) i by auto
    then have "usesOf ck (xs ! j) < k" using n(1,3) by (cases "xs ! j = x") auto
    then show ?thesis using k(2) Suc d(2) by auto
  qed (use n d(2) in auto)
  moreover have "cs ! i \<noteq> cs ! j" if ij: "i < j" "j < length (x # xs)" "(x # xs) ! i = (x # xs) ! j" for i j
  proof (cases i)
    case 0
    obtain j' where j: "j = Suc j'" "j' < length xs" using ij by (cases j) auto
    then have x: "xs ! j' = x" using ij 0 by simp
    then obtain k where "k > n" "ds ! j' = cNameCand x k" using I(2) j(2) n(3) by auto
    then show ?thesis using 0 j(1) d(2) n(1,2) inj_onD[OF cNameCand_inj[of x], of n k] by auto
  next
    case (Suc i')
    then obtain j' where "j = Suc j'" using ij by (cases j) auto
    then show ?thesis using I(3) ij Suc d(2) by auto
  qed
  moreover have "set cs \<inter> (set (modList (ck_m ck)) \<union> set KW) = {}"
    using I(4) d(2) S by (auto simp: cIdentIsKeyword_def)
  ultimately show ?case using I(1) d(2) by simp
qed simp


text \<open>A checker with a module that has one function.\<close>

definition exChecker :: checker where
  "exChecker = \<lparr>ck_tt = exTab, ck_sub = None, ck_syms = [], ck_scopes = [[]], ck_globals = [],
     ck_m = \<lparr>md_funcs = [''f''], md_structs = [], md_types = [], md_globals = []\<rparr>, ck_nameUses = [],
     ck_moduleNames = [], ck_moduleSize = 0, ck_narrow = [], ck_narrowLen = 0, ck_narrowMarks = [], ck_errors = [],
     ck_plan = \<lparr>pl_callee = (\<lambda>_. None), pl_coroOf = (\<lambda>_. None), pl_yieldType = (\<lambda>_. None), pl_lamSig = (\<lambda>_. None),
       pl_boxedCoro = [], pl_coroBoxed = []\<rparr>, ck_retyped = [], ck_deferredUses = [], ck_curFunc = None\<rparr>"


text \<open>A name of the source can collide with a numbered one. The lexer accepts \<open>a__2\<close>, which only
  contains the reserved underscores, and with a variable of that name and two bindings \<open>a\<close> two of the
  three bindings get the C name \<open>a__2\<close>.\<close>

theorem cname_clash:
  "fst (cNames [''a__2'', ''a'', ''a''] exChecker) = [''a__2'', ''a'', ''a__2''] \<and>
   map t_text (fst (lexAll ''a__2'')) = [''a__2'', [NL], []] \<and> snd (lexAll ''a__2'') = None"
  by (intro conjI; code_simp)

section \<open>Null proofs\<close>

definition narrowOk :: "checker \<Rightarrow> bool" where
  "narrowOk ck \<longleftrightarrow> ck_narrowLen ck \<le> length (ck_narrow ck)"

text \<open>The proofs in force, in the order in which they were recorded.\<close>

definition nullFacts :: "checker \<Rightarrow> string list" where
  "nullFacts ck = take (ck_narrowLen ck) (ck_narrow ck)"

lemma facts_isNarrowed: "isNarrowed ck (Some n) \<longleftrightarrow> n \<in> set (nullFacts ck)"
  by (simp add: isNarrowed_def nullFacts_def)

lemma facts_push:
  assumes "narrowOk ck"
  shows "nullFacts (pushNarrow (Some n) ck) = (if n \<in> set (nullFacts ck) then nullFacts ck else nullFacts ck @ [n])"
    "narrowOk (pushNarrow (Some n) ck)" "ck_narrowLen ck \<le> ck_narrowLen (pushNarrow (Some n) ck)"
    "take (ck_narrowLen ck) (ck_narrow (pushNarrow (Some n) ck)) = take (ck_narrowLen ck) (ck_narrow ck)"
  using assms by (auto simp: pushNarrow_def nullFacts_def narrowOk_def isNarrowed_def)

lemma factAbout_iff: "factAbout n k \<longleftrightarrow> k = n \<or> (\<exists>r. k = n @ ''.'' @ r)"
proof -
  have "take (length n + 1) k = n @ ''.'' \<longleftrightarrow> (\<exists>r. k = n @ ''.'' @ r)"
  proof
    assume "take (length n + 1) k = n @ ''.''"
    then have "k = (n @ ''.'') @ drop (length n + 1) k" by (metis append_take_drop_id)
    then show "\<exists>r. k = n @ ''.'' @ r" by auto
  qed auto
  then show ?thesis by (simp add: factAbout_def)
qed

lemma unNarrowAt_takeWhile: "unNarrowAt n ks i = i + length (takeWhile (\<lambda>k. \<not> factAbout n k) ks)"
  by (induction ks arbitrary: i) auto

lemma facts_kill:
  "nullFacts (unNarrow (Some n) ck) = takeWhile (\<lambda>k. \<not> factAbout n k) (nullFacts ck)"
  "ck_narrow (unNarrow (Some n) ck) = ck_narrow ck"
proof -
  let ?W = "takeWhile (\<lambda>k. \<not> factAbout n k) (nullFacts ck)"
  have "length ?W \<le> length (nullFacts ck)" by (rule length_takeWhile_le)
  then have "length ?W \<le> ck_narrowLen ck" by (simp add: nullFacts_def)
  then have "take (length ?W) (ck_narrow ck) = take (length ?W) (nullFacts ck)" by (simp add: nullFacts_def min_def)
  also have "\<dots> = ?W" by (simp add: takeWhile_eq_take[symmetric])
  finally show "nullFacts (unNarrow (Some n) ck) = ?W"
    by (simp add: unNarrow_def unNarrowAt_takeWhile nullFacts_def)
  show "ck_narrow (unNarrow (Some n) ck) = ck_narrow ck" by (simp add: unNarrow_def)
qed

text \<open>C39: null proofs come and go as they should, except at the end of a block. A binding or path counts as
  not null exactly when a proof for it is in force. Recording a proof adds it behind the others, once;
  dropping the proofs about a binding keeps exactly the proofs that were recorded before the first
  proof about the binding or a path through it, and all of these; and a block in which nothing is
  dropped ends with the proofs it began with.\<close>

theorem null_proofs:
  assumes "narrowOk ck"
  shows "(\<forall>m. isNarrowed ck (Some m) \<longleftrightarrow> m \<in> set (nullFacts ck)) \<and>
    nullFacts (pushNarrow (Some n) ck) = (if n \<in> set (nullFacts ck) then nullFacts ck else nullFacts ck @ [n]) \<and>
    nullFacts (unNarrow (Some n) ck) = takeWhile (\<lambda>k. k \<noteq> n \<and> (\<nexists>r. k = n @ ''.'' @ r)) (nullFacts ck) \<and>
    nullFacts (popScope (fold (pushNarrow \<circ> Some) ns (pushScope ck))) = nullFacts ck"
proof -
  have F: "narrowOk c \<Longrightarrow> ck_narrowLen ck \<le> ck_narrowLen c \<Longrightarrow> ck_narrowMarks c = ck_narrowMarks ck @ [ck_narrowLen ck] \<Longrightarrow>
      take (ck_narrowLen ck) (ck_narrow c) = take (ck_narrowLen ck) (ck_narrow ck) \<Longrightarrow>
      nullFacts (popScope (fold (pushNarrow \<circ> Some) ns c)) = nullFacts ck" for c
  proof (induction ns arbitrary: c)
    case Nil
    then show ?case by (simp add: popScope_def nullFacts_def)
  next
    case (Cons m ns)
    have m: "ck_narrowMarks (pushNarrow (Some m) c) = ck_narrowMarks c" by (simp add: pushNarrow_def)
    have t: "take (ck_narrowLen ck) (ck_narrow (pushNarrow (Some m) c)) = take (ck_narrowLen ck) (ck_narrow c)"
      using facts_push(4)[OF Cons.prems(1), of m] Cons.prems(2)
      by (metis min.absorb2 take_take min.commute)
    show ?case using Cons.IH[of "pushNarrow (Some m) c"] Cons.prems facts_push[OF Cons.prems(1), of m] m t by simp
  qed
  have "nullFacts (popScope (fold (pushNarrow \<circ> Some) ns (pushScope ck))) = nullFacts ck"
    by (rule F) (use assms in \<open>simp_all add: pushScope_def narrowOk_def\<close>)
  then show ?thesis using facts_push(1)[OF assms] facts_kill(1)[of n ck] facts_isNarrowed[of ck] by (simp add: factAbout_iff)
qed

theorem null_proofs_witness:
  "nullFacts (unNarrow (Some ''h'') (pushNarrow (Some ''h.p'') (pushNarrow (Some ''q'') exChecker))) = [''q''] \<and>
   isNarrowed (unNarrow (Some ''h'') (pushNarrow (Some ''h.p'') (pushNarrow (Some ''q'') exChecker))) (Some ''q'')"
proof -
  let ?a = "pushNarrow (Some ''q'') exChecker"
  let ?b = "pushNarrow (Some ''h.p'') ?a"
  have o: "narrowOk exChecker" by (simp add: narrowOk_def exChecker_def)
  note oa = facts_push(2)[OF o, of "''q''"] and ob = facts_push(2)[OF facts_push(2)[OF o, of "''q''"], of "''h.p''"]
  have "nullFacts ?a = [''q'']" using null_proofs[OF o, of "''q''"] by (simp add: nullFacts_def exChecker_def)
  then have fb: "nullFacts ?b = [''q'', ''h.p'']" using null_proofs[OF oa, of "''h.p''"] by simp
  have "nullFacts (unNarrow (Some ''h'') ?b) = takeWhile (\<lambda>k. k \<noteq> ''h'' \<and> (\<nexists>r. k = ''h'' @ ''.'' @ r)) (nullFacts ?b)"
    using null_proofs[OF ob, of "''h''"] by blast
  also have "\<dots> = [''q'']" unfolding fb by simp
  finally show ?thesis by (simp add: facts_isNarrowed)
qed

text \<open>A dropped proof comes back at the end of the block. The checker records that \<open>n\<close> is not null,
  enters a block and drops the proof there, as it does for an assignment \<open>n = null\<close>; when the block is
  left the table gets its old length back and with it the proof, although \<open>n\<close> may be null now.\<close>

theorem null_proof_returns:
  assumes "narrowOk ck"
  shows "\<not> isNarrowed (unNarrow (Some n) (pushScope (pushNarrow (Some n) ck))) (Some n) \<and>
    isNarrowed (popScope (unNarrow (Some n) (pushScope (pushNarrow (Some n) ck)))) (Some n)"
proof -
  let ?a = "pushNarrow (Some n) ck"
  have "n \<notin> set (nullFacts (unNarrow (Some n) (pushScope ?a)))"
    unfolding facts_kill(1) by (auto simp: factAbout_iff dest: set_takeWhileD)
  moreover have "nullFacts (popScope (unNarrow (Some n) (pushScope ?a))) = nullFacts ?a"
    by (simp add: nullFacts_def popScope_def unNarrow_def pushScope_def)
  ultimately show ?thesis using facts_push(1)[OF assms, of n] by (simp add: facts_isNarrowed)
qed

theorem null_proof_returns_witness:
  "isNarrowed (popScope (unNarrow (Some ''p'') (pushScope (pushNarrow (Some ''p'') exChecker)))) (Some ''p'')"
  using null_proof_returns[of exChecker "''p''"] by (simp add: narrowOk_def exChecker_def)

section \<open>Scopes\<close>

definition scopesOk :: "checker \<Rightarrow> bool" where
  "scopesOk ck \<longleftrightarrow> (\<forall>sc \<in> set (ck_scopes ck). \<forall>i \<in> set sc. i < length (ck_syms ck)) \<and> (\<forall>i \<in> set (ck_globals ck). i < length (ck_syms ck))"

lemma nameLoop_rest:
  "nameLoop name n ck = (c, n1, ck1) \<Longrightarrow> ck_scopes ck1 = ck_scopes ck \<and> ck_syms ck1 = ck_syms ck \<and> ck_globals ck1 = ck_globals ck \<and> ck_narrowMarks ck1 = ck_narrowMarks ck"
proof (induction name n ck rule: nameLoop.induct)
  case (1 name n ck)
  obtain b ck2 where t: "moduleNameTaken (cNameCand name (n + 1)) ck = (b, ck2)" by fastforce
  have r: "ck_scopes ck2 = ck_scopes ck \<and> ck_syms ck2 = ck_syms ck \<and> ck_globals ck2 = ck_globals ck \<and> ck_narrowMarks ck2 = ck_narrowMarks ck"
    using t by (auto simp: moduleNameTaken_def Let_def)
  show ?case
  proof (cases "b \<or> cIdentIsKeyword (cNameCand name (n + 1))")
    case True
    then have "nameLoop name (n + 1) ck2 = (c, n1, ck1)" using 1(2) t by (subst (asm) nameLoop.simps) (simp add: Let_def)
    from 1(1)[OF refl refl t[symmetric] refl True this] show ?thesis using r by simp
  next
    case False
    then show ?thesis using 1(2) t r by (subst (asm) nameLoop.simps) (auto simp: Let_def)
  qed
qed

text \<open>A declaration reports an error and changes nothing, or adds one binding to the innermost scope.\<close>

lemma declareSym_cases:
  assumes "declareSym n t mu sh d ck = (i, ck1)" "ck_scopes ck \<noteq> []"
  shows "(ck_scopes ck1 = ck_scopes ck \<and> ck_syms ck1 = ck_syms ck \<and> \<not> sh \<or>
     (\<exists>y. ck_syms ck1 = ck_syms ck @ [y] \<and> sy_name y = n \<and> i = length (ck_syms ck) \<and>
        ck_scopes ck1 = butlast (ck_scopes ck) @ [List.last (ck_scopes ck) @ [i]])) \<and> ck_globals ck1 = ck_globals ck"
proof (cases "if sh then None else List.find (\<lambda>i. sy_name (ck_syms ck ! i) = n) (List.last (ck_scopes ck))")
  case (Some old)
  then show ?thesis using assms(1) by (auto simp: declareSym_def split: if_splits)
next
  case None
  obtain cn ck2 where c: "cNameFor n ck = (cn, ck2)" by fastforce
  have r: "ck_scopes ck2 = ck_scopes ck" "ck_syms ck2 = ck_syms ck" "ck_globals ck2 = ck_globals ck"
    using c nameLoop_rest[of n "case map_of (ck_nameUses ck) n of Some k \<Rightarrow> k | None \<Rightarrow> 0" ck]
    by (auto simp: cNameFor_def Let_def split: prod.splits)
  show ?thesis using assms(1) None c r by (auto simp: declareSym_def Let_def split: prod.splits)
qed

text \<open>A scope and declarations in it, and the resolution of a name below the innermost scopes.\<close>

type_synonym decl = "string \<times> ty option \<times> bool \<times> bool \<times> int"

fun declares :: "decl list \<Rightarrow> checker \<Rightarrow> checker" where
  "declares [] ck = ck"
| "declares ((n, t, mu, sh, d) # ds) ck = declares ds (snd (declareSym n t mu sh d ck))"

lemma declares_outer:
  "ck_scopes ck \<noteq> [] \<Longrightarrow> ck_scopes (declares ds ck) \<noteq> [] \<and> butlast (ck_scopes (declares ds ck)) = butlast (ck_scopes ck) \<and>
     ck_globals (declares ds ck) = ck_globals ck \<and> (\<exists>ys. ck_syms (declares ds ck) = ck_syms ck @ ys)"
proof (induction ds arbitrary: ck)
  case (Cons x ds)
  obtain n t mu sh d where x: "x = (n, t, mu, sh, d)" by (cases x)
  obtain i ck1 where d: "declareSym n t mu sh d ck = (i, ck1)" by fastforce
  have "ck_scopes ck1 \<noteq> [] \<and> butlast (ck_scopes ck1) = butlast (ck_scopes ck) \<and> ck_globals ck1 = ck_globals ck \<and> (\<exists>ys. ck_syms ck1 = ck_syms ck @ ys)"
    using declareSym_cases[OF d Cons.prems] Cons.prems by auto
  then show ?case using Cons.IH[of ck1] d x by auto
qed simp

lemma find_cong_on: "(\<And>x. x \<in> set xs \<Longrightarrow> P x = Q x) \<Longrightarrow> List.find P xs = List.find Q xs"
  by (induction xs) auto

text \<open>C38: scopes nest. Whatever is declared in a new scope, after leaving it every name resolves as before;
  and a declaration that may shadow is what its name resolves to, until the scope is left.\<close>

theorem scope_roundtrip:
  assumes "scopesOk ck" "ck_scopes ck \<noteq> []"
  shows "lookup (popScope (declares ds (pushScope ck))) n = lookup ck n \<and>
    lookup (snd (declareSym n t mu True d ck)) n = Some (fst (declareSym n t mu True d ck))"
proof
  let ?c = "declares ds (pushScope ck)"
  have p: "ck_scopes (pushScope ck) \<noteq> []" by (simp add: pushScope_def)
  obtain ys where y: "ck_syms ?c = ck_syms ck @ ys" using declares_outer[OF p, of ds] by (auto simp: pushScope_def)
  have s: "ck_scopes (popScope ?c) = ck_scopes ck" "ck_globals (popScope ?c) = ck_globals ck" "ck_syms (popScope ?c) = ck_syms ck @ ys"
    using declares_outer[OF p, of ds] y by (simp_all add: popScope_def Let_def pushScope_def)
  have e: "(ck_syms ck @ ys) ! i = ck_syms ck ! i" if "i \<in> set (concat (map rev (rev (ck_scopes ck)))) \<union> set (ck_globals ck)" for i
    using that assms(1) by (auto simp: scopesOk_def nth_append)
  show "lookup (popScope ?c) n = lookup ck n"
    unfolding lookup_def s using e
    by (subst (1 2) find_cong_on[where Q = "\<lambda>i. sy_name (ck_syms ck ! i) = n"]) (auto split: option.split)
  obtain i ck1 where d: "declareSym n t mu True d ck = (i, ck1)" by fastforce
  then obtain z where "ck_syms ck1 = ck_syms ck @ [z]" "sy_name z = n" "i = length (ck_syms ck)"
      "ck_scopes ck1 = butlast (ck_scopes ck) @ [List.last (ck_scopes ck) @ [i]]"
    using declareSym_cases[OF d assms(2)] by auto
  then show "lookup (snd (declareSym n t mu True d ck)) n = Some (fst (declareSym n t mu True d ck))"
    using d by (simp add: lookup_def)
qed

theorem scope_roundtrip_witness:
  "lookup (popScope (declares [(''x'', None, True, False, 1)] (pushScope exChecker))) ''x'' = None \<and>
   lookup (snd (declareSym ''x'' None True True 1 exChecker)) ''x'' = Some 0"
proof -
  have o: "scopesOk exChecker" "ck_scopes exChecker \<noteq> []" by (simp_all add: scopesOk_def exChecker_def)
  have "lookup exChecker ''x'' = None" by code_simp
  moreover have "fst (declareSym ''x'' None True True 1 exChecker) = 0" by code_simp
  ultimately show ?thesis using scope_roundtrip[OF o, of "[(''x'', None, True, False, 1)]" "''x''" None True 1] by simp
qed

section \<open>Places\<close>

text \<open>Permission in terms of the expression's shape, without the loops of the code. \<open>partOf e a\<close>: \<open>e\<close> is a field, an
  element or a slice of \<open>a\<close>, so that a write to \<open>e\<close> changes \<open>a\<close>. \<open>reaches\<close> also looks under a dereference,
  unless its operand is a reference: there the path ends, at the reference.\<close>

inductive partOf :: "expr \<Rightarrow> expr \<Rightarrow> bool" where
  part_field: "partOf (Expr p t (EX_FIELD a f)) a"
| part_index: "partOf (Expr p t (EX_INDEX a i)) a"
| part_slice: "partOf (Expr p t (EX_SLICE a l h)) a"

inductive reaches :: "expr \<Rightarrow> expr \<Rightarrow> bool" where
  reach_part: "partOf e a \<Longrightarrow> reaches e a"
| reach_deref: "(\<nexists>q i nu m. ex_type a = Some (TRef q i nu m)) \<Longrightarrow> reaches (Expr p t (EX_DEREF a)) a"

inductive_simps partOf_simps: "partOf (Expr p t k) a"
inductive_simps reaches_simps: "reaches (Expr p t k) a"

definition refTo :: "bool \<Rightarrow> ty option \<Rightarrow> bool" where
  "refTo m t \<longleftrightarrow> (\<exists>q i nu. t = Some (TRef q i nu m))"

text \<open>A read-only reference on the way: the type of something on the path, or of what is dereferenced there.\<close>

definition crossesReadonly :: "expr \<Rightarrow> bool" where
  "crossesReadonly e \<longleftrightarrow> (\<exists>u. reaches\<^sup>*\<^sup>* e u \<and> (refTo False (ex_type u) \<or> (\<exists>a. ex_kind u = EX_DEREF a \<and> refTo False (ex_type a))))"

text \<open>Inside a binding: the name at the root of the fields, elements and slices, and the binding it stands for.\<close>

definition insideOf :: "checker \<Rightarrow> expr \<Rightarrow> nat \<Rightarrow> bool" where
  "insideOf ck e r \<longleftrightarrow> (\<exists>p t n c. partOf\<^sup>*\<^sup>* e (Expr p t (EX_IDENT n c)) \<and> lookup ck n = Some r)"

definition readonlySlice :: "typeTable \<Rightarrow> ty option \<Rightarrow> bool" where
  "readonlySlice T t \<longleftrightarrow> (\<exists>q s u x. t = Some (TGeneric q s [u] False x) \<and> sd_name (tt_sdef T s) = ''slice'')"

lemma refTo_code: "isReadonlyRef t \<longleftrightarrow> refTo False t" "isMutRef t \<longleftrightarrow> refTo True t" "isRefType t \<longleftrightarrow> refTo True t \<or> refTo False t"
  by (cases t rule: isReadonlyRef.cases; auto simp: refTo_def isMutRef_def; metis)+

lemma readonlySlice_code: "isReadonlyView T t \<longleftrightarrow> readonlySlice T t"
  by (auto simp: isReadonlyView_def readonlySlice_def ttIsViewType_def length_Suc_conv split: option.splits ty.splits)

lemma star_step: "R\<^sup>*\<^sup>* e u \<longleftrightarrow> u = e \<or> (\<exists>a. R e a \<and> R\<^sup>*\<^sup>* a u)"
  by (metis converse_rtranclpE converse_rtranclp_into_rtranclp rtranclp.rtrancl_refl)

lemma crosses_step:
  "crossesReadonly e \<longleftrightarrow> refTo False (ex_type e) \<or> (\<exists>a. ex_kind e = EX_DEREF a \<and> refTo False (ex_type a)) \<or>
     (\<exists>a. reaches e a \<and> crossesReadonly a)"
proof -
  have s: "reaches\<^sup>*\<^sup>* e u \<longleftrightarrow> u = e \<or> (\<exists>a. reaches e a \<and> reaches\<^sup>*\<^sup>* a u)" for u by (rule star_step)
  show ?thesis unfolding crossesReadonly_def s by blast
qed

lemma pathHasReadonlyRef_code: "pathHasReadonlyRef e \<longleftrightarrow> crossesReadonly e"
proof (induction e rule: pathHasReadonlyRef.induct)
  case (1 p t k)
  have r: "(\<forall>q i nu m. x \<noteq> Some (TRef q i nu m)) \<longleftrightarrow> \<not> refTo True x \<and> \<not> refTo False x" for x
    by (auto simp: refTo_def)
  show ?case using 1
    by (subst crosses_step) (cases k; simp add: refTo_code reaches_simps partOf_simps r)
qed

lemma rootLeaf_partOf:
  "rootLeafAt [ROOT_FIELD, ROOT_INDEX, ROOT_SLICE] 0 e h = Some l \<longleftrightarrow> partOf\<^sup>*\<^sup>* e l \<and> isIdent l"
proof (induction "[ROOT_FIELD, ROOT_INDEX, ROOT_SLICE]" "0 :: int" e h rule: rootLeafAt.induct)
  case (1 p t k h)
  show ?case using 1
    by (subst star_step) (cases k; auto simp: partOf_simps)
qed

lemma placeRoot_insideOf: "placeRoot ck e = Some r \<longleftrightarrow> insideOf ck e r"
proof -
  have l: "extcRootLeaf e [ROOT_FIELD, ROOT_INDEX, ROOT_SLICE] 0 = Some l \<longleftrightarrow> partOf\<^sup>*\<^sup>* e l \<and> isIdent l" for l
    by (simp add: extcRootLeaf_def rootLeaf_partOf)
  have i: "isIdent l \<longleftrightarrow> (\<exists>p t n c. l = Expr p t (EX_IDENT n c))" for l by (cases l; cases "ex_kind l") auto
  show ?thesis
  proof
    assume "placeRoot ck e = Some r"
    then obtain l where "extcRootLeaf e [ROOT_FIELD, ROOT_INDEX, ROOT_SLICE] 0 = Some l"
        "(case ex_kind l of EX_IDENT n _ \<Rightarrow> lookup ck n | _ \<Rightarrow> None) = Some r"
      by (auto simp: placeRoot_def split: option.splits)
    then show "insideOf ck e r" unfolding l i insideOf_def by (elim conjE exE) (auto intro!: exI)
  next
    assume "insideOf ck e r"
    then obtain p t n c where "extcRootLeaf e [ROOT_FIELD, ROOT_INDEX, ROOT_SLICE] 0 = Some (Expr p t (EX_IDENT n c))" "lookup ck n = Some r"
      unfolding insideOf_def l by auto
    then show "placeRoot ck e = Some r" by (simp add: placeRoot_def)
  qed
qed

text \<open>C40: writing needs permission. \<open>isWritablePlace\<close> accepts a dereference exactly when what is dereferenced is
  a \<open>mut ref\<close>. It accepts any other place exactly when no read-only reference is crossed on the way to it
  and it is itself a \<open>mut ref\<close>, or it is neither a reference nor a read-only view and is reached by
  fields, elements and slices from a binding declared with \<open>var\<close>.\<close>

theorem writable_place:
  "isWritablePlace ck e \<longleftrightarrow>
    (case ex_kind e of
       EX_DEREF a \<Rightarrow> refTo True (ex_type a)
     | _ \<Rightarrow> \<not> crossesReadonly e \<and>
        (refTo True (ex_type e) \<or>
         \<not> refTo False (ex_type e) \<and> \<not> readonlySlice (ck_tt ck) (ex_type e) \<and>
           (\<exists>r. insideOf ck e r \<and> sy_mut (ck_syms ck ! r))))"
proof -
  have r: "(case placeRoot ck e of Some r \<Rightarrow> sy_mut (ck_syms ck ! r) | None \<Rightarrow> False) \<longleftrightarrow>
      (\<exists>r. insideOf ck e r \<and> sy_mut (ck_syms ck ! r))"
    by (auto simp: placeRoot_insideOf[symmetric] split: option.split)
  have x: "\<not> (refTo True t \<and> refTo False t)" for t by (auto simp: refTo_def)
  show ?thesis
    using x[of "ex_type e"]
    by (auto simp: isWritablePlace_def derefOf_def r refTo_code readonlySlice_code pathHasReadonlyRef_code split: ekind.split)
qed

definition exVar :: checker where
  "exVar = snd (declareSym ''x'' None True False 1 exChecker)"

theorem writable_place_witness:
  "\<exists>r. insideOf exVar (Expr 1 None (EX_FIELD (Expr 0 None (EX_IDENT ''x'' None)) ''f'')) r \<and> sy_mut (ck_syms exVar ! r)"
proof -
  let ?e = "Expr 1 None (EX_FIELD (Expr 0 None (EX_IDENT ''x'' None)) ''f'')"
  have "isWritablePlace exVar ?e" by code_simp
  then show ?thesis using writable_place[of exVar ?e] by (simp add: refTo_def)
qed

text \<open>The test of the read-only view is about the place itself only. A field of an element of a read-only
  view that a \<open>var\<close> holds is writable for it, although \<open>requireMutable\<close> refuses the assignment to it;
  \<open>ref v[0].f\<close> is therefore given the type of a \<open>mut ref\<close>.\<close>

theorem readonly_view_bypassed:
  "let v = Expr 0 (Some (TGeneric 20 0 [i32] False None)) (EX_IDENT ''x'' None) in
     \<not> isWritablePlace exVar v \<and>
     isWritablePlace exVar (Expr 3 (Some i32) (EX_FIELD (Expr 2 (Some (TStruct 21 3)) (EX_INDEX v (Expr 1 None (EX_INT 0)))) ''f''))"
  by code_simp

section \<open>Literals and implicit conversions\<close>

text \<open>A literal is accepted exactly when it is a value of the type. For the 64-bit literals of the lexer
  \<open>literalFits\<close> answers yes for an integer type exactly when the value is one of the type's values.\<close>

theorem literal_fits:
  assumes "ttBase want = TBuiltin p n" "n \<in> set intNames" "ex_kind e = EX_INT v" "- (2 ^ 63) \<le> v" "v < 2 ^ 63"
  shows "literalFits e want \<longleftrightarrow> of_int v \<in> numVals n"
proof -
  obtain i where i: "i \<in> set INTS" "n = in_name i" using assms(2) by (auto simp: intNames_def)
  have b: "in_bits i \<in> {8, 16, 32, 64}" "intInfo (TBuiltin p n) = Some i" using intInfo_cases(1,2)[OF i(1)] i(2) by (simp_all add: intInfo_def)
  have of_int_mem: "(of_int v :: real) \<in> {of_int m | m. P m} \<longleftrightarrow> P v" for P by auto
  have L: "literalFits e want \<longleftrightarrow> (if in_bits i = 64 then in_sgn i \<or> v \<ge> 0
      else if in_sgn i then - (2 ^ (in_bits i - 1)) \<le> v \<and> v \<le> 2 ^ (in_bits i - 1) - 1
      else if v < 0 then False else v \<le> 2 ^ in_bits i - 1)"
    using assms(1,3) b by (auto simp: literalFits_def Let_def ttIntBits_def ttIntSigned_def)
  have V: "of_int v \<in> numVals n \<longleftrightarrow> (if in_sgn i then - (2 ^ (in_bits i - 1)) \<le> v \<and> v < 2 ^ (in_bits i - 1)
      else 0 \<le> v \<and> v < 2 ^ in_bits i)"
    unfolding i(2) numVals_int[OF i(1)] intVals_def of_int_mem by simp
  show ?thesis unfolding L V using b(1) assms(4,5) by auto
qed

theorem literal_fits_witness:
  "literalFits (Expr 0 None (EX_INT 255)) u8 \<and> \<not> literalFits (Expr 0 None (EX_INT 256)) u8 \<and> of_int 255 \<in> numVals ''u8''"
proof -
  have n: "''u8'' \<in> set intNames" by (simp add: intNames_def INTS_def)
  have "literalFits (Expr 0 None (EX_INT 255)) u8" "\<not> literalFits (Expr 0 None (EX_INT 256)) u8" by code_simp+
  moreover have "literalFits (Expr 0 None (EX_INT 255)) u8 \<longleftrightarrow> of_int 255 \<in> numVals ''u8''"
    by (rule literal_fits[of u8 4]) (use n in simp_all)
  ultimately show ?thesis by simp
qed

lemma assignable_reason:
  assumes "checkAssignable want got nd what ck = (b, ck1)" b "\<not> ttIsError want" "\<not> ttIsError got" "\<not> mentionsParam got"
    "boxesCoro (deferUse want got nd ck) want got nd = None"
  shows "(isRef want \<longleftrightarrow> isRef got) \<and> \<not> refNullLost want got \<and>
    (ttEquals want got \<or> refWidens want got \<or> viewDrops want got \<or> ttCanWiden got want \<or>
     (case nd of Some e \<Rightarrow> literalFits e want | None \<Rightarrow> False))"
  using assms by (auto simp: checkAssignable_def Let_def fails_def split: if_split_asm option.splits expr.splits ekind.splits)


text \<open>In a template a read-only reference to a type parameter passes for a writable one; the use is noted.\<close>

theorem template_accepted:
  "let want = TRef 14 (TParam 13 ''T'' 0) False True; got = TRef 15 (TParam 13 ''T'' 0) False False;
       r = checkAssignable want got (Some (Expr 0 (Some got) (EX_IDENT ''x'' None))) ''p'' exChecker
   in fst r \<and> length (ck_deferredUses (snd r)) = 1"
  by code_simp

definition exTab2 :: typeTable where
  "exTab2 = snd (refLike True False i32 (snd (refLike False True i32 exTab)))"

lemma exTab2_ok: "tblOk exTab2" "canon exTab2 exRef" "canon exTab2 (TRef 14 i32 True False)"
proof -
  let ?r = "refLike False True i32 exTab"
  let ?s = "refLike True False i32 (snd ?r)"
  have e: "fst ?r = exRef" "fst ?s = TRef 14 i32 True False" by code_simp+
  have "builds exTab ?r (TRef 0 (erase i32) False True)" by (rule refLike_builds[OF exTab_ok ex_canon(1)])
  then have A: "tblOk (snd ?r)" "ext exTab (snd ?r)" "canon (snd ?r) exRef" unfolding builds_def e by blast+
  have "builds (snd ?r) ?s (TRef 0 (erase i32) True False)" by (rule refLike_builds[OF A(1) ext_canon[OF A(2) ex_canon(1)]])
  then have B: "tblOk exTab2" "ext (snd ?r) exTab2" "canon exTab2 (TRef 14 i32 True False)" unfolding builds_def e exTab2_def by blast+
  show "tblOk exTab2" "canon exTab2 exRef" "canon exTab2 (TRef 14 i32 True False)" using B ext_canon[OF B(2) A(3)] by blast+
qed


text \<open>The erasure of a pointer's type reaches below the first level. A reference to an integer is
  accepted where a writable reference to a \<open>mut ref void\<close> is expected, because the test looks through all
  references of the target; through the result an address can be stored where the integer was.\<close>

theorem erasure_too_deep:
  "fst (checkAssignable (TRef 15 (TRef 14 (TVoid 11) False True) False True) (TRef 13 (TBuiltin 3 ''i64'') False True) None ''p''
     exChecker)"
  by code_simp

end
