(* ===== verification/Dataflow.thy ===== *)
theory Dataflow
  imports Check_Scopes
begin

text \<open>The analysis of check/check_dataflow.c: how deep the storage lives that the references of each
  binding can point at. It walks the statements of a body with a table of facts. The table of types,
  which the question whether a type holds a reference may extend, is not threaded: the lemma
  \<open>carries_stable\<close> of Dataflow_Props shows that for a type without parameters to replace the answer does
  not depend on what was added.\<close>

section \<open>Facts\<close>

definition DFA_MAX_VARS :: nat where "DFA_MAX_VARS = 256"
definition DFA_MAX_FIELDS :: nat where "DFA_MAX_FIELDS = 4"
definition DFA_ROUNDS :: nat where "DFA_ROUNDS = 64"

record varFact =
  vf_cname :: string
  vf_depth :: int
  vf_fields :: "(string \<times> int) list"

record facts =
  fa_vars :: "varFact list"
  fa_overflow :: bool

text \<open>What the analysis reads besides the tree: for a node the level it was promoted to (\<open>anMinAt\<close>) and
  its block (\<open>anLexicalLevel\<close>), for a declaration its C name (\<open>planCName\<close>).\<close>

record flowTables =
  fl_minAt :: "nat \<Rightarrow> int"
  fl_lexicalLevel :: "nat \<Rightarrow> int"
  fl_cname :: "nat \<Rightarrow> string option"

fun rowOf :: "varFact list \<Rightarrow> string \<Rightarrow> nat option" where
  "rowOf [] n = None"
| "rowOf (v # vs) n = (if vf_cname v = n then Some 0 else map_option Suc (rowOf vs n))"

definition factOf :: "facts \<Rightarrow> string option \<Rightarrow> nat option \<times> facts" where
  "factOf f cn = (case cn of None \<Rightarrow> (None, f)
     | Some n \<Rightarrow> (case rowOf (fa_vars f) n of
         Some i \<Rightarrow> (Some i, f)
       | None \<Rightarrow> (if length (fa_vars f) \<ge> DFA_MAX_VARS then (None, f\<lparr>fa_overflow := True\<rparr>)
                 else (Some (length (fa_vars f)), f\<lparr>fa_vars := fa_vars f @ [\<lparr>vf_cname = n, vf_depth = 0, vf_fields = []\<rparr>]\<rparr>))))"

definition updVar :: "nat \<Rightarrow> (varFact \<Rightarrow> varFact) \<Rightarrow> facts \<Rightarrow> facts" where
  "updVar i g f = f\<lparr>fa_vars := (fa_vars f)[i := g (fa_vars f ! i)]\<rparr>"

definition raiseDepth :: "int \<Rightarrow> varFact \<Rightarrow> varFact" where
  "raiseDepth d v = (if d > vf_depth v then v\<lparr>vf_depth := d\<rparr> else v)"

definition raiseTo :: "facts \<Rightarrow> string option \<Rightarrow> int \<Rightarrow> facts" where
  "raiseTo f cn d = (if d \<le> 0 then f else case factOf f cn of
       (None, f1) \<Rightarrow> f1
     | (Some i, f1) \<Rightarrow> updVar i (raiseDepth d) f1)"

fun raiseIn :: "(string \<times> int) list \<Rightarrow> string \<Rightarrow> int \<Rightarrow> (string \<times> int) list option" where
  "raiseIn [] fld d = None"
| "raiseIn ((n, e) # xs) fld d = (if n = fld then Some ((n, if d > e then d else e) # xs)
     else map_option (Cons (n, e)) (raiseIn xs fld d))"

definition raiseField :: "facts \<Rightarrow> string option \<Rightarrow> string \<Rightarrow> int \<Rightarrow> facts" where
  "raiseField f cn fld d = (case factOf f cn of
       (None, f1) \<Rightarrow> f1
     | (Some i, f1) \<Rightarrow>
        (let v = fa_vars f1 ! i in
         case raiseIn (vf_fields v) fld d of
           Some fs \<Rightarrow> updVar i (\<lambda>v. v\<lparr>vf_fields := fs\<rparr>) f1
         | None \<Rightarrow>
            (if length (vf_fields v) < DFA_MAX_FIELDS
             then updVar i (\<lambda>v. raiseDepth d (v\<lparr>vf_fields := vf_fields v @ [(fld, d)]\<rparr>)) f1
             else (updVar i (raiseDepth d) f1)\<lparr>fa_overflow := True\<rparr>)))"

definition joinInto :: "facts \<Rightarrow> facts \<Rightarrow> facts" where
  "joinInto dst src =
    (let f = foldl (\<lambda>f v. foldl (\<lambda>f (n, d). raiseField f (Some (vf_cname v)) n d) (raiseTo f (Some (vf_cname v)) (vf_depth v)) (vf_fields v))
               dst (fa_vars src)
     in if fa_overflow src then f\<lparr>fa_overflow := True\<rparr> else f)"

text \<open>The comparison looks at the numbers only.\<close>

definition sameRow :: "varFact \<Rightarrow> varFact \<Rightarrow> bool" where
  "sameRow x y \<longleftrightarrow> vf_depth x = vf_depth y \<and> map snd (vf_fields x) = map snd (vf_fields y)"

definition sameFacts :: "facts \<Rightarrow> facts \<Rightarrow> bool" where
  "sameFacts a b \<longleftrightarrow> list_all2 sameRow (fa_vars a) (fa_vars b)"

definition factDepthOf :: "facts \<Rightarrow> string option \<Rightarrow> int" where
  "factDepthOf f cn = (case cn of None \<Rightarrow> 0
     | Some n \<Rightarrow> (case rowOf (fa_vars f) n of Some i \<Rightarrow> vf_depth (fa_vars f ! i) | None \<Rightarrow> 0))"

section \<open>Expressions\<close>

definition identBindOf :: "expr \<Rightarrow> nat option" where
  "identBindOf e = (case ex_kind e of EX_IDENT _ s \<Rightarrow> s | _ \<Rightarrow> None)"

fun dfRootOf :: "checker \<Rightarrow> expr \<Rightarrow> nat option" where
  "dfRootOf ck (Expr p t k) = (case k of
       EX_IDENT n s \<Rightarrow> (case s of Some i \<Rightarrow> Some i | None \<Rightarrow> lookup ck n)
     | EX_FIELD a _ \<Rightarrow> dfRootOf ck a
     | EX_INDEX a _ \<Rightarrow> dfRootOf ck a
     | EX_SLICE a _ _ \<Rightarrow> dfRootOf ck a
     | _ \<Rightarrow> None)"

definition dfCarriesRef :: "checker \<Rightarrow> expr \<Rightarrow> bool" where
  "dfCarriesRef ck e = (case ex_type e of None \<Rightarrow> False
     | Some t \<Rightarrow> (if mentionsParam t then True
        else case tsub ck (Some t) of (Some u, ck1) \<Rightarrow> fst (typeContainsRef u (ck_tt ck1)) | _ \<Rightarrow> False))"

abbreviation symOf :: "checker \<Rightarrow> nat \<Rightarrow> sym" where "symOf ck i \<equiv> ck_syms ck ! i"

definition orZero :: "int \<Rightarrow> int" where "orZero d = (if d > 0 then d else 0)"

definition deepest :: "('a \<Rightarrow> int) \<Rightarrow> int \<Rightarrow> 'a list \<Rightarrow> int" where
  "deepest g d xs = foldl (\<lambda>d x. if g x > d then g x else d) d xs"

lemma deepest_cong [fundef_cong]:
  "xs = ys \<Longrightarrow> d = e \<Longrightarrow> (\<And>x. x \<in> set ys \<Longrightarrow> g x = h x) \<Longrightarrow> deepest g d xs = deepest h e ys"
  unfolding deepest_def by (rule foldl_cong) auto

text \<open>The depth of a field that the table knows, of a binding's field.\<close>

definition fieldDepth :: "facts \<Rightarrow> string option \<Rightarrow> string \<Rightarrow> int option" where
  "fieldDepth f cn fld = (case cn of None \<Rightarrow> None
     | Some n \<Rightarrow> (case rowOf (fa_vars f) n of Some i \<Rightarrow> map_of (vf_fields (fa_vars f ! i)) fld | None \<Rightarrow> None))"

fun dfExprDepth :: "checker \<Rightarrow> flowTables \<Rightarrow> facts \<Rightarrow> expr \<Rightarrow> nat \<Rightarrow> int" where
  "dfExprDepth ck fl f (Expr p t k) hops = (if hops > 32 then 0 else case k of
       EX_DYN _ a \<Rightarrow> dfExprDepth ck fl f a (hops + 1)
     | EX_IDENT _ s \<Rightarrow> (case s of None \<Rightarrow> 0
        | Some i \<Rightarrow> (case sy_cname (symOf ck i) of None \<Rightarrow> 0
           | Some n \<Rightarrow> (case rowOf (fa_vars f) n of
                Some j \<Rightarrow> vf_depth (fa_vars f ! j)
              | None \<Rightarrow> orZero (sy_refDepth (symOf ck i)))))
     | EX_NEW _ _ \<Rightarrow> (if fl_minAt fl p \<ge> 0 then fl_minAt fl p else orZero (fl_lexicalLevel fl p))
     | EX_GENCALL _ _ _ \<Rightarrow> (if fl_minAt fl p \<ge> 0 then fl_minAt fl p else orZero (fl_lexicalLevel fl p))
     | EX_FIELD a fld \<Rightarrow> (case dfRootOf ck (Expr p t k) of None \<Rightarrow> 0
        | Some r \<Rightarrow> (case fieldDepth f (sy_cname (symOf ck r)) fld of
             Some d \<Rightarrow> d
           | None \<Rightarrow> (let vd = factDepthOf f (sy_cname (symOf ck r)) in
                      if vd > 0 then vd else orZero (sy_refDepth (symOf ck r)))))
     | EX_INDEX a _ \<Rightarrow> dfExprDepth ck fl f a (hops + 1)
     | EX_DEREF a \<Rightarrow> dfExprDepth ck fl f a (hops + 1)
     | EX_SIGN a \<Rightarrow> dfExprDepth ck fl f a (hops + 1)
     | EX_SLICE a _ _ \<Rightarrow> dfExprDepth ck fl f a (hops + 1)
     | EX_TRY a \<Rightarrow> dfExprDepth ck fl f a (hops + 1)
     | EX_CONV _ a \<Rightarrow> dfExprDepth ck fl f a (hops + 1)
     | EX_UN _ a \<Rightarrow> dfExprDepth ck fl f a (hops + 1)
     | EX_EXT a \<Rightarrow> dfExprDepth ck fl f a (hops + 1)
     | EX_BIN _ a b \<Rightarrow> (let x = dfExprDepth ck fl f a (hops + 1); y = dfExprDepth ck fl f b (hops + 1) in if x > y then x else y)
     | EX_REF _ \<Rightarrow> orZero (fl_lexicalLevel fl p)
     | EX_COALESCE a b \<Rightarrow> (let x = dfExprDepth ck fl f a (hops + 1); y = dfExprDepth ck fl f b (hops + 1) in if x > y then x else y)
     | EX_STRUCTLIT _ ins \<Rightarrow> deepest (\<lambda>(_, x). dfExprDepth ck fl f x (hops + 1)) 0 ins
     | EX_LAMBDA ins _ \<Rightarrow> deepest (\<lambda>(_, x). dfExprDepth ck fl f x (hops + 1)) 0 ins
     | EX_ARRAYLIT xs _ \<Rightarrow> deepest (\<lambda>x. dfExprDepth ck fl f x (hops + 1)) 0 xs
     | EX_ENUMVAL _ _ xs \<Rightarrow> deepest (\<lambda>x. dfExprDepth ck fl f x (hops + 1)) 0 xs
     | EX_CALL _ xs \<Rightarrow> deepest (\<lambda>x. dfExprDepth ck fl f x (hops + 1)) 0 xs
     | EX_ASSOC _ _ _ xs \<Rightarrow> deepest (\<lambda>x. dfExprDepth ck fl f x (hops + 1)) 0 xs
     | EX_METHOD r _ xs \<Rightarrow> deepest (\<lambda>x. dfExprDepth ck fl f x (hops + 1)) (dfExprDepth ck fl f r (hops + 1)) xs
     | _ \<Rightarrow> 0)"

section \<open>Statements\<close>

text \<open>The loop of \<open>ST_WHILE\<close>: \<open>body\<close> is the walk over the body, \<open>rounds\<close> counts the rounds that are done.\<close>

function whileRounds :: "(facts \<Rightarrow> facts) \<Rightarrow> nat \<Rightarrow> facts \<Rightarrow> facts" where
  "whileRounds body rounds f =
    (let f1 = joinInto f (body f)
     in if sameFacts f f1 then f1
        else if rounds + 1 \<ge> DFA_ROUNDS then f1\<lparr>fa_overflow := True\<rparr>
        else whileRounds body (rounds + 1) f1)"
  by pat_completeness auto
termination by (relation "measure (\<lambda>(body, rounds, f). DFA_ROUNDS - rounds)") auto

declare whileRounds.simps [simp del]

lemma whileRounds_cong [fundef_cong]:
  assumes "r = r'" "f = f'" "\<And>x. b x = b' x"
  shows "whileRounds b r f = whileRounds b' r' f'"
proof -
  have "b = b'" using assms(3) by (intro HOL.ext)
  then show ?thesis using assms by simp
qed

text \<open>The assignment to a whole binding copies the depths of the source's fields; the row of the source is
  made when it is missing.\<close>

definition copyFields :: "facts \<Rightarrow> string option \<Rightarrow> string option \<Rightarrow> facts" where
  "copyFields f dst src = (case factOf f src of
       (None, f1) \<Rightarrow> f1
     | (Some i, f1) \<Rightarrow> foldl (\<lambda>f (n, d). raiseField f dst n d) f1 (vf_fields (fa_vars f1 ! i)))"

definition zeroField :: "facts \<Rightarrow> string option \<Rightarrow> string \<Rightarrow> facts" where
  "zeroField f cn fld = (case factOf f cn of
       (None, f1) \<Rightarrow> f1
     | (Some i, f1) \<Rightarrow> updVar i (\<lambda>v. v\<lparr>vf_fields := map (\<lambda>(n, d). if n = fld then (n, 0) else (n, d)) (vf_fields v)\<rparr>) f1)"

definition dfVar :: "checker \<Rightarrow> flowTables \<Rightarrow> nat \<Rightarrow> expr option \<Rightarrow> facts \<Rightarrow> facts" where
  "dfVar ck fl p init f = (case init of None \<Rightarrow> f
     | Some e \<Rightarrow>
        (let f1 = (case ex_kind e of
               EX_STRUCTLIT _ ins \<Rightarrow> foldl (\<lambda>f (n, x). raiseField f (fl_cname fl p) n (dfExprDepth ck fl f x 0)) f ins
             | _ \<Rightarrow> f)
         in if dfCarriesRef ck e then raiseTo f1 (fl_cname fl p) (dfExprDepth ck fl f1 e 0) else f1))"

definition dfAssign :: "checker \<Rightarrow> flowTables \<Rightarrow> expr \<Rightarrow> expr \<Rightarrow> facts \<Rightarrow> facts" where
  "dfAssign ck fl target val f = (case dfRootOf ck target of None \<Rightarrow> f
     | Some r \<Rightarrow>
        (let cn = sy_cname (symOf ck r);
             d = (if dfCarriesRef ck val then dfExprDepth ck fl f val 0 else 0)
         in case ex_kind target of
              EX_FIELD _ fld \<Rightarrow> (if d > 0 then raiseField f cn fld d else zeroField f cn fld)
            | _ \<Rightarrow>
               (let f1 = raiseTo f cn d
                in case dfRootOf ck val of None \<Rightarrow> f1 | Some s \<Rightarrow> copyFields f1 cn (sy_cname (symOf ck s)))))"

definition raiseBinds :: "facts \<Rightarrow> string option list \<Rightarrow> int \<Rightarrow> facts" where
  "raiseBinds f bs sd = foldl (\<lambda>f b. case b of Some n \<Rightarrow> raiseTo f (Some n) sd | None \<Rightarrow> f) f bs"

text \<open>The arms of a match: the bindings are raised in the incoming facts, which the next arm sees; the
  first component collects the arms.\<close>

definition matchArm :: "(stmt \<Rightarrow> facts \<Rightarrow> facts) \<Rightarrow> (facts \<Rightarrow> int) \<Rightarrow> facts \<times> facts \<Rightarrow> string \<times> string option list \<times> stmt \<Rightarrow> facts \<times> facts" where
  "matchArm walk sd af a = (case (af, a) of ((acc, f), (_, bs, b)) \<Rightarrow>
     (let f1 = raiseBinds f bs (sd f) in (joinInto acc (walk b f1), f1)))"

lemma matchArm_cong [fundef_cong]:
  "af = af' \<Longrightarrow> a = a' \<Longrightarrow> (\<And>x f. x = snd (snd a') \<Longrightarrow> w x f = w' x f) \<Longrightarrow> matchArm w sd af a = matchArm w' sd af' a'"
  by (auto simp: matchArm_def split: prod.split)

abbreviation isBlock :: "stmt \<Rightarrow> bool" where
  "isBlock s \<equiv> (case st_kind s of ST_BLOCK _ \<Rightarrow> True | _ \<Rightarrow> False)"

lemma block_size: "st_kind s = ST_BLOCK ss \<Longrightarrow> x \<in> set ss \<Longrightarrow> size x < size s"
  using size_list_mem[of x ss size] by (cases s) auto

lemma arm_size: "x \<in> set as \<Longrightarrow> size (snd (snd x)) \<le> size_list (size_prod (\<lambda>_. 0) (size_prod (\<lambda>_. 0) size)) as"
  using size_list_mem[of x as "size_prod (\<lambda>_. 0) (size_prod (\<lambda>_. 0) size)"] by (cases x) auto

function dfStmt :: "checker \<Rightarrow> flowTables \<Rightarrow> stmt \<Rightarrow> nat \<Rightarrow> facts \<Rightarrow> facts"
  and dfBlock :: "checker \<Rightarrow> flowTables \<Rightarrow> stmt \<Rightarrow> nat \<Rightarrow> facts \<Rightarrow> facts" where
  "dfBlock ck fl s d f = (case st_kind s of
       ST_BLOCK ss \<Rightarrow> foldl (\<lambda>f x. dfStmt ck fl x (d + 1) f) f ss
     | _ \<Rightarrow> dfStmt ck fl s d f)"
| "dfStmt ck fl (Stmt p k) d f = (case k of
       ST_VAR _ _ init _ \<Rightarrow> dfVar ck fl p init f
     | ST_ASSIGN t x _ \<Rightarrow> dfAssign ck fl t x f
     | ST_IF _ a b \<Rightarrow>
        (let thenF = dfBlock ck fl a d f;
             elseF = (case b of Some s \<Rightarrow> dfBlock ck fl s d f | None \<Rightarrow> f)
         in joinInto (joinInto f thenF) elseF)
     | ST_WHILE _ b \<Rightarrow> whileRounds (dfBlock ck fl b d) 0 f
     | ST_BLOCK _ \<Rightarrow> dfBlock ck fl (Stmt p k) d f
     | ST_MATCH e as \<Rightarrow>
        (let (acc, f1) = foldl (matchArm (\<lambda>b. dfBlock ck fl b d) (\<lambda>f. dfExprDepth ck fl f e 0)) (f, f) as
         in joinInto f1 acc)
     | ST_DOMAIN _ b \<Rightarrow> dfBlock ck fl b d f
     | _ \<Rightarrow> f)"
  by pat_completeness auto

termination
  by (relation "measure (\<lambda>x. case x of Inl (ck, fl, s, d, f) \<Rightarrow> 3 * size s + (if isBlock s then 2 else 0)
    | Inr (ck, fl, s, d, f) \<Rightarrow> 3 * size s + 1)") (auto dest: block_size arm_size)

declare dfStmt.simps [simp del] dfBlock.simps [simp del]

section \<open>The result\<close>

text \<open>The result has the rows of the table and the flag; the diagnostics counters are left out.\<close>

record dfResult =
  dr_vars :: "varFact list"
  dr_overflow :: bool

definition dfAnalyze :: "checker \<Rightarrow> flowTables \<Rightarrow> stmt option \<Rightarrow> dfResult" where
  "dfAnalyze ck fl body = (case body of
       None \<Rightarrow> \<lparr>dr_vars = [], dr_overflow = False\<rparr>
     | Some b \<Rightarrow>
        (let f = dfBlock ck fl b 1 \<lparr>fa_vars = [], fa_overflow = False\<rparr>
         in \<lparr>dr_vars = take DFA_MAX_VARS (fa_vars f), dr_overflow = fa_overflow f\<rparr>))"

definition factsFromResult :: "dfResult \<Rightarrow> facts" where
  "factsFromResult r = \<lparr>fa_vars = take DFA_MAX_VARS (dr_vars r), fa_overflow = dr_overflow r\<rparr>"

definition dfValueDepth :: "checker \<Rightarrow> flowTables \<Rightarrow> dfResult \<Rightarrow> expr \<Rightarrow> int" where
  "dfValueDepth ck fl r e = (if dr_overflow r then 0 else dfExprDepth ck fl (factsFromResult r) e 0)"

definition dfLookup :: "dfResult \<Rightarrow> string option \<Rightarrow> int" where
  "dfLookup r cn = (case cn of None \<Rightarrow> -1
     | Some n \<Rightarrow> (if dr_overflow r then -1
        else case rowOf (dr_vars r) n of Some i \<Rightarrow> vf_depth (dr_vars r ! i) | None \<Rightarrow> -1))"

end
