(* ===== verification/Dataflow_Props.thy ===== *)
theory Dataflow_Props
  imports Dataflow
begin

text \<open>How the tables of the analysis grow. The first lemma is why the table of types is not threaded through
  the analysis.\<close>

lemma carries_stable:
  assumes "tblOk T" "declsOk T" "canon T t" "ext T T'" "tblOk T'"
  shows "fst (typeContainsRef t T') = fst (typeContainsRef t T)"
  using typeContainsRefAt_answers[OF assms(1-3), of 0] partsOf_ext(1)[OF assms(4)]
    typeContainsRefAt_answers[OF assms(5) declsOk_ext[OF assms(4,2)] ext_canon[OF assms(4,3)], of 0]
  by (auto simp: typeContainsRef_def answers_def split: prod.splits)

section \<open>Growth\<close>

text \<open>A row grows when its depth and the depths of its fields do not fall and its fields keep their places;
  \<open>rowKeeps\<close> leaves out the depths of the fields.\<close>

definition rowKeeps :: "varFact \<Rightarrow> varFact \<Rightarrow> bool" where
  "rowKeeps v w \<longleftrightarrow> vf_cname v = vf_cname w \<and> vf_depth v \<le> vf_depth w \<and>
     (\<exists>xs. map fst (vf_fields w) = map fst (vf_fields v) @ xs)"

definition rowGrows :: "varFact \<Rightarrow> varFact \<Rightarrow> bool" where
  "rowGrows v w \<longleftrightarrow> rowKeeps v w \<and> (\<forall>k < length (vf_fields v). snd (vf_fields v ! k) \<le> snd (vf_fields w ! k))"

definition tableRel :: "(varFact \<Rightarrow> varFact \<Rightarrow> bool) \<Rightarrow> facts \<Rightarrow> facts \<Rightarrow> bool" where
  "tableRel R f g \<longleftrightarrow> (fa_overflow f \<longrightarrow> fa_overflow g) \<and> length (fa_vars f) \<le> length (fa_vars g) \<and>
     (\<forall>i < length (fa_vars f). R (fa_vars f ! i) (fa_vars g ! i))"

abbreviation keeps :: "facts \<Rightarrow> facts \<Rightarrow> bool" where "keeps \<equiv> tableRel rowKeeps"
abbreviation grows :: "facts \<Rightarrow> facts \<Rightarrow> bool" where "grows \<equiv> tableRel rowGrows"

lemma rowKeeps_refl [simp]: "rowKeeps v v" by (simp add: rowKeeps_def)
lemma rowGrows_refl [simp]: "rowGrows v v" by (simp add: rowGrows_def)

lemma rowKeeps_trans: "rowKeeps u v \<Longrightarrow> rowKeeps v w \<Longrightarrow> rowKeeps u w"
  by (auto simp: rowKeeps_def)

lemma rowKeeps_fields: "rowKeeps v w \<Longrightarrow> length (vf_fields v) \<le> length (vf_fields w)"
  unfolding rowKeeps_def by (metis length_append length_map le_add1)

lemma rowGrows_trans:
  assumes "rowGrows u v" "rowGrows v w"
  shows "rowGrows u w"
proof -
  have l: "length (vf_fields u) \<le> length (vf_fields v)" using assms(1) rowKeeps_fields by (simp add: rowGrows_def)
  have "snd (vf_fields u ! k) \<le> snd (vf_fields w ! k)" if "k < length (vf_fields u)" for k
    by (rule order.trans[of _ "snd (vf_fields v ! k)"]) (use that l assms in \<open>simp_all add: rowGrows_def\<close>)
  then show ?thesis using assms rowKeeps_trans[of u v w] by (simp add: rowGrows_def)
qed

lemma tableRel_trans:
  assumes "\<And>u v w. R u v \<Longrightarrow> R v w \<Longrightarrow> R u w" "tableRel R f g" "tableRel R g h"
  shows "tableRel R f h"
proof -
  have "R (fa_vars f ! i) (fa_vars h ! i)" if "i < length (fa_vars f)" for i
    by (rule assms(1)[of _ "fa_vars g ! i"]) (use that assms(2,3) in \<open>simp_all add: tableRel_def\<close>)
  then show ?thesis using assms(2,3) by (simp add: tableRel_def)
qed

lemma keeps_trans: "keeps f g \<Longrightarrow> keeps g h \<Longrightarrow> keeps f h"
  by (rule tableRel_trans[OF rowKeeps_trans])

lemma grows_trans: "grows f g \<Longrightarrow> grows g h \<Longrightarrow> grows f h"
  by (rule tableRel_trans[OF rowGrows_trans])

lemma keeps_refl [simp]: "keeps f f" by (simp add: tableRel_def)
lemma grows_refl [simp]: "grows f f" by (simp add: tableRel_def)

lemma grows_keeps: "grows f g \<Longrightarrow> keeps f g"
  by (auto simp: tableRel_def rowGrows_def)

lemma rowOf_Some: "rowOf vs n = Some i \<Longrightarrow> i < length vs \<and> vf_cname (vs ! i) = n"
  by (induction vs arbitrary: i) (auto split: if_splits)

lemma rowOf_None: "rowOf vs n = None \<longleftrightarrow> n \<notin> vf_cname ` set vs"
  by (induction vs) auto

lemma rowOf_append: "rowOf (vs @ ws) n = (case rowOf vs n of Some i \<Rightarrow> Some i | None \<Rightarrow> map_option (\<lambda>i. length vs + i) (rowOf ws n))"
  by (induction vs; cases "rowOf ws n") (auto split: option.splits)

lemma rowOf_names: "map vf_cname vs = map vf_cname ws \<Longrightarrow> rowOf vs n = rowOf ws n"
proof (induction vs arbitrary: ws)
  case (Cons v vs)
  then show ?case by (cases ws) auto
qed simp

lemma updVar_names:
  assumes "i < length (fa_vars f)" "vf_cname (g (fa_vars f ! i)) = vf_cname (fa_vars f ! i)"
  shows "map vf_cname (fa_vars (updVar i g f)) = map vf_cname (fa_vars f)"
  using assms by (simp add: updVar_def map_update) (metis list_update_id nth_map)

lemma rowOf_updVar:
  "i < length (fa_vars f) \<Longrightarrow> vf_cname (g (fa_vars f ! i)) = vf_cname (fa_vars f ! i) \<Longrightarrow>
     rowOf (fa_vars (updVar i g f)) n = rowOf (fa_vars f) n"
  by (rule rowOf_names) (rule updVar_names)

lemma updVar_nth: "i < length (fa_vars f) \<Longrightarrow> fa_vars (updVar i g f) ! i = g (fa_vars f ! i)"
  by (simp add: updVar_def)

lemma factOf_grows:
  assumes "factOf f cn = (r, g)"
  shows "grows f g" "r = Some i \<Longrightarrow> i < length (fa_vars g) \<and> cn = Some (vf_cname (fa_vars g ! i)) \<and> rowOf (fa_vars g) (vf_cname (fa_vars g ! i)) = Some i"
    "r = None \<Longrightarrow> cn \<noteq> None \<Longrightarrow> fa_overflow g"
  using assms rowOf_Some[of "fa_vars f"]
  by (auto simp: factOf_def tableRel_def nth_append rowOf_append split: option.splits if_splits)

lemma updVar_rel:
  assumes "\<And>v. R v v" "R (fa_vars f ! i) (g (fa_vars f ! i))"
  shows "tableRel R f (updVar i g f)"
proof -
  have "R (fa_vars f ! k) ((fa_vars f)[i := g (fa_vars f ! i)] ! k)" if "k < length (fa_vars f)" for k
    using that assms by (cases "i = k") simp_all
  then show ?thesis by (simp add: tableRel_def updVar_def)
qed

lemma raiseDepth_grows: "rowGrows v (raiseDepth d v)"
  by (auto simp: raiseDepth_def rowGrows_def rowKeeps_def)

lemma raiseTo_grows: "grows f (raiseTo f cn d)"
proof -
  obtain r g where g: "factOf f cn = (r, g)" by fastforce
  show ?thesis
  proof (cases r)
    case (Some i)
    have "grows g (updVar i (raiseDepth d) g)" by (intro updVar_rel raiseDepth_grows rowGrows_refl)
    then show ?thesis using factOf_grows(1)[OF g] grows_trans g Some by (auto simp: raiseTo_def)
  qed (use factOf_grows(1)[OF g] g in \<open>simp add: raiseTo_def\<close>)
qed

lemma raiseIn_spec:
  "raiseIn xs fld d = Some ys \<Longrightarrow> map fst ys = map fst xs \<and> (\<forall>k < length xs. snd (xs ! k) \<le> snd (ys ! k)) \<and>
     (\<exists>e. map_of ys fld = Some e \<and> d \<le> e) \<and> (\<forall>n e. map_of xs n = Some e \<longrightarrow> (\<exists>e'. map_of ys n = Some e' \<and> e \<le> e'))"
proof (induction xs arbitrary: ys)
  case (Cons x xs)
  obtain n e where x: "x = (n, e)" by fastforce
  show ?case
  proof (cases "n = fld")
    case True
    then show ?thesis using Cons.prems x by (auto simp: nth_Cons' split: if_splits)
  next
    case False
    then obtain zs where z: "raiseIn xs fld d = Some zs" "ys = (n, e) # zs" using Cons.prems x by auto
    show ?thesis using Cons.IH[OF z(1)] z(2) x False by (auto simp: nth_Cons')
  qed
qed simp

lemma raiseIn_None: "raiseIn xs fld d = None \<longleftrightarrow> fld \<notin> fst ` set xs"
  by (induction xs fld d rule: raiseIn.induct) auto

lemma overflow_grows [simp]: "tableRel R f g \<Longrightarrow> tableRel R f (g\<lparr>fa_overflow := True\<rparr>)"
  by (simp add: tableRel_def)

lemma raiseField_grows: "grows f (raiseField f cn fld d)"
proof -
  obtain r g where g: "factOf f cn = (r, g)" by fastforce
  show ?thesis
  proof (cases r)
    case (Some i)
    let ?v = "fa_vars g ! i"
    have "grows g (raiseField f cn fld d)"
    proof (cases "raiseIn (vf_fields ?v) fld d")
      case (Some fs)
      have "rowGrows ?v (?v\<lparr>vf_fields := fs\<rparr>)" using raiseIn_spec[OF Some] by (simp add: rowGrows_def rowKeeps_def)
      then have "grows g (updVar i (\<lambda>v. v\<lparr>vf_fields := fs\<rparr>) g)" by (intro updVar_rel) simp_all
      then show ?thesis using g \<open>r = Some i\<close> Some by (simp add: raiseField_def Let_def)
    next
      case None
      have "rowGrows ?v (?v\<lparr>vf_fields := vf_fields ?v @ [(fld, d)]\<rparr>)" by (simp add: rowGrows_def rowKeeps_def nth_append)
      then have a: "grows g (updVar i (\<lambda>v. raiseDepth d (v\<lparr>vf_fields := vf_fields v @ [(fld, d)]\<rparr>)) g)"
        by (intro updVar_rel) (auto intro: rowGrows_trans raiseDepth_grows)
      have b: "grows g (updVar i (raiseDepth d) g)" by (intro updVar_rel raiseDepth_grows rowGrows_refl)
      show ?thesis using a b g \<open>r = Some i\<close> None by (simp add: raiseField_def Let_def)
    qed
    then show ?thesis using factOf_grows(1)[OF g] grows_trans by blast
  qed (use factOf_grows(1)[OF g] g in \<open>simp add: raiseField_def\<close>)
qed

lemma foldl_rel:
  assumes "\<And>f. R f f" "\<And>f g h. R f g \<Longrightarrow> R g h \<Longrightarrow> R f h" "\<And>f x. x \<in> set xs \<Longrightarrow> R f (k f x)"
  shows "R f (foldl k f xs)"
  using assms(3)
proof (induction xs arbitrary: f)
  case (Cons x xs)
  then show ?case using assms(2)[of f "k f x"] by simp
qed (simp add: assms(1))

lemma foldl_grows: "(\<And>f x. x \<in> set xs \<Longrightarrow> grows f (k f x)) \<Longrightarrow> grows f (foldl k f xs)"
  by (rule foldl_rel[of grows, OF grows_refl grows_trans])

lemma foldl_keeps: "(\<And>f x. x \<in> set xs \<Longrightarrow> keeps f (k f x)) \<Longrightarrow> keeps f (foldl k f xs)"
  by (rule foldl_rel[of keeps, OF keeps_refl keeps_trans])

lemma joinInto_grows: "grows d (joinInto d s)"
proof -
  have "grows d (foldl (\<lambda>f v. foldl (\<lambda>f (n, d). raiseField f (Some (vf_cname v)) n d) (raiseTo f (Some (vf_cname v)) (vf_depth v)) (vf_fields v))
               d (fa_vars s))"
    by (rule foldl_grows, rule grows_trans[OF raiseTo_grows foldl_grows]) (auto intro: raiseField_grows)
  then show ?thesis by (simp add: joinInto_def Let_def)
qed

end
