(* ===== verification/Dataflow_Shape.thy ===== *)
theory Dataflow_Shape
  imports Dataflow_Props
begin

text \<open>Relations between the facts before and after a statement. A relation that the transfers of the
  simple statements and the join respect is respected by every statement; the locale derives this once,
  for the rows and depths that are kept and for the shape of the table.\<close>

section \<open>Relations that every transfer respects\<close>

locale flow_relation =
  fixes ck :: checker and fl :: flowTables and R :: "facts \<Rightarrow> facts \<Rightarrow> bool"
  assumes refl: "R f f"
    and trans: "R f g \<Longrightarrow> R g h \<Longrightarrow> R f h"
    and var: "R f (dfVar ck fl p init f)"
    and assign: "R f (dfAssign ck fl t x f)"
    and binds: "R f (raiseBinds f bs (dfExprDepth ck fl f e 0))"
    and join: "R f g \<Longrightarrow> R f h \<Longrightarrow> R f (joinInto g h)"
    and giveUp: "R f g \<Longrightarrow> R f (g\<lparr>fa_overflow := True\<rparr>)"
begin

lemma fold_related: "(\<And>f x. x \<in> set xs \<Longrightarrow> R f (k f x)) \<Longrightarrow> R f (foldl k f xs)"
  by (rule foldl_rel[of R, OF refl trans])

lemma rounds_related: "(\<And>f. R f (body f)) \<Longrightarrow> R f (whileRounds body n f)"
proof (induction body n f rule: whileRounds.induct)
  case (1 body n f)
  let ?g = "joinInto f (body f)"
  have g: "R f ?g" by (rule join[OF refl 1(2)])
  have "R f (whileRounds body (n + 1) ?g)" if "\<not> sameFacts f ?g" "\<not> DFA_ROUNDS \<le> n + 1"
    by (rule trans[OF g 1(1)[OF HOL.refl that 1(2)]])
  then show ?case using g giveUp[OF g] by (subst whileRounds.simps) (simp add: Let_def)
qed

lemma arms_related:
  assumes "\<And>a g. a \<in> set as \<Longrightarrow> R g (walk (snd (snd a)) g)" "R f acc" "R f g"
  shows "R f (fst (foldl (matchArm walk (\<lambda>f. dfExprDepth ck fl f e 0)) (acc, g) as)) \<and>
    R f (snd (foldl (matchArm walk (\<lambda>f. dfExprDepth ck fl f e 0)) (acc, g) as))"
  using assms
proof (induction as arbitrary: acc g)
  case (Cons a as)
  obtain n bs b where a: "a = (n, bs, b)" by (cases a) auto
  let ?g = "raiseBinds g bs (dfExprDepth ck fl g e 0)"
  have g: "R f ?g" using trans[OF Cons.prems(3) binds] .
  moreover have "R f (joinInto acc (walk b ?g))"
    using Cons.prems(1)[of a ?g] by (intro join Cons.prems(2) trans[OF g]) (simp add: a)
  moreover have "matchArm walk (\<lambda>f. dfExprDepth ck fl f e 0) (acc, g) a = (joinInto acc (walk b ?g), ?g)"
    by (simp add: matchArm_def a Let_def)
  ultimately show ?case using Cons.IH[of "joinInto acc (walk b ?g)" ?g] Cons.prems(1) by simp
qed simp

lemma walk_related:
  "ck' = ck \<Longrightarrow> fl' = fl \<Longrightarrow> R f (dfStmt ck' fl' s d f)" "ck' = ck \<Longrightarrow> fl' = fl \<Longrightarrow> R f (dfBlock ck' fl' s d f)"
proof (induction ck' fl' s d f and ck' fl' s d f rule: dfStmt_dfBlock.induct)
  case (1 ck' fl' s d f)
  show ?case
  proof (cases "st_kind s")
    case (ST_BLOCK ss)
    then show ?thesis using 1 by (auto simp: dfBlock.simps intro!: fold_related)
  qed (use 1 in \<open>simp_all add: dfBlock.simps\<close>)
next
  case (2 ck' fl' p k d f)
  note eqs = 2(7,8)
  show ?case
  proof (cases k)
    case (ST_IF c a b)
    let ?t = "dfBlock ck' fl' a d f" and ?e = "case b of Some s \<Rightarrow> dfBlock ck' fl' s d f | None \<Rightarrow> f"
    have "R f ?t" "R f ?e" using 2 ST_IF refl by (auto split: option.split)
    then have "R f (joinInto (joinInto f ?t) ?e)" by (intro join refl)
    then show ?thesis by (simp add: dfStmt.simps ST_IF Let_def)
  next
    case (ST_WHILE c b)
    then show ?thesis using 2 by (auto simp: dfStmt.simps intro!: rounds_related)
  next
    case (ST_MATCH e as)
    let ?x = "foldl (matchArm (\<lambda>b. dfBlock ck fl b d) (\<lambda>f. dfExprDepth ck fl f e 0)) (f, f) as"
    have "R f (fst ?x) \<and> R f (snd ?x)" by (rule arms_related) (use 2 ST_MATCH refl in auto)
    moreover obtain acc g where "?x = (acc, g)" by fastforce
    ultimately show ?thesis using join[of f g acc] eqs by (simp add: dfStmt.simps ST_MATCH)
  qed (use 2 var assign refl in \<open>simp_all add: dfStmt.simps\<close>)
qed

lemmas stmt_related = walk_related(1)[OF HOL.refl HOL.refl]
lemmas block_related = walk_related(2)[OF HOL.refl HOL.refl]

end

section \<open>Depths and rows are kept\<close>

lemma copyFields_grows: "grows f (copyFields f dst src)"
proof -
  obtain r g where g: "factOf f src = (r, g)" by fastforce
  have "grows g (foldl (\<lambda>f (n, d). raiseField f dst n d) g xs)" for xs
    by (rule foldl_grows) (auto intro: raiseField_grows)
  then show ?thesis using grows_trans[OF factOf_grows(1)[OF g]] factOf_grows(1)[OF g] by (simp add: copyFields_def g split: option.split)
qed

lemma zeroField_keeps: "keeps f (zeroField f cn fld)"
proof -
  obtain r g where g: "factOf f cn = (r, g)" by fastforce
  have "rowKeeps v (v\<lparr>vf_fields := map (\<lambda>(n, d). if n = fld then (n, 0) else (n, d)) (vf_fields v)\<rparr>)" for v
    unfolding rowKeeps_def by (auto intro!: exI[of _ "[]"] split: prod.split)
  then have "keeps g (updVar i (\<lambda>v. v\<lparr>vf_fields := map (\<lambda>(n, d). if n = fld then (n, 0) else (n, d)) (vf_fields v)\<rparr>) g)" for i
    by (intro updVar_rel) simp_all
  then show ?thesis using keeps_trans[OF grows_keeps[OF factOf_grows(1)[OF g]]] grows_keeps[OF factOf_grows(1)[OF g]]
    by (simp add: zeroField_def g split: option.split)
qed

lemma raiseBinds_grows: "grows f (raiseBinds f bs d)"
  unfolding raiseBinds_def by (rule foldl_grows) (auto intro: raiseTo_grows split: option.split)

lemma dfVar_grows: "grows f (dfVar ck fl p i f)"
proof -
  have a: "grows f (foldl (\<lambda>f (n, x). raiseField f c n (dfExprDepth ck fl f x 0)) f xs)" for c xs
    by (rule foldl_grows) (auto intro: raiseField_grows)
  show ?thesis using raiseTo_grows grows_trans[OF a raiseTo_grows] a
    by (auto simp: dfVar_def Let_def split: option.split ekind.split)
qed

lemma dfAssign_keeps: "keeps f (dfAssign ck fl t x f)"
proof -
  have "keeps f (copyFields (raiseTo f cn d) cn c)" for cn d c
    by (rule grows_keeps[OF grows_trans[OF raiseTo_grows copyFields_grows]])
  then show ?thesis using zeroField_keeps grows_keeps[OF raiseField_grows] grows_keeps[OF raiseTo_grows]
    by (auto simp: dfAssign_def Let_def split: option.split ekind.split)
qed

interpretation depths: flow_relation ck fl keeps for ck fl
proof
  show "keeps f h" if "keeps f g" "keeps g h" for f g h using keeps_trans[OF that] .
  show "keeps f (joinInto g h)" if "keeps f g" "keeps f h" for f g h using keeps_trans[OF that(1) grows_keeps[OF joinInto_grows]] .
qed (use dfVar_grows raiseBinds_grows in \<open>auto intro: grows_keeps dfAssign_keeps\<close>)

section \<open>The shape of the table\<close>

definition rowShape :: "varFact \<Rightarrow> bool" where
  "rowShape v \<longleftrightarrow> 0 \<le> vf_depth v \<and> length (vf_fields v) \<le> DFA_MAX_FIELDS \<and> distinct (map fst (vf_fields v)) \<and>
     (\<forall>x \<in> set (vf_fields v). 0 \<le> snd x)"

definition factsShape :: "facts \<Rightarrow> bool" where
  "factsShape f \<longleftrightarrow> length (fa_vars f) \<le> DFA_MAX_VARS \<and> distinct (map vf_cname (fa_vars f)) \<and> (\<forall>v \<in> set (fa_vars f). rowShape v)"

lemma shape_row: "factsShape f \<Longrightarrow> i < length (fa_vars f) \<Longrightarrow> rowShape (fa_vars f ! i)"
  by (simp add: factsShape_def)

lemma shape_rowOf: "factsShape f \<Longrightarrow> rowOf (fa_vars f) n = Some i \<Longrightarrow> rowShape (fa_vars f ! i)"
  using rowOf_Some shape_row by blast

lemma shape_overflow [simp]: "factsShape (f\<lparr>fa_overflow := b\<rparr>) = factsShape f"
  by (simp add: factsShape_def)

lemma factOf_shape: "factsShape f \<Longrightarrow> factOf f cn = (r, g) \<Longrightarrow> factsShape g"
  by (auto simp: factOf_def factsShape_def rowShape_def rowOf_None split: option.splits if_splits)

lemma updVar_shape:
  assumes "factsShape f" "i < length (fa_vars f)" "rowShape (g (fa_vars f ! i))" "vf_cname (g (fa_vars f ! i)) = vf_cname (fa_vars f ! i)"
  shows "factsShape (updVar i g f)"
  using assms(1,3) updVar_names[where g = g, OF assms(2,4)] set_update_subset_insert[of "fa_vars f" i "g (fa_vars f ! i)"]
  unfolding factsShape_def by (auto simp: updVar_def)

lemma raiseDepth_shape: "rowShape v \<Longrightarrow> rowShape (raiseDepth d v)" "vf_cname (raiseDepth d v) = vf_cname v"
  by (auto simp: raiseDepth_def rowShape_def)

lemma raiseTo_shape: "factsShape f \<Longrightarrow> factsShape (raiseTo f cn d)"
proof -
  assume f: "factsShape f"
  obtain r g where g: "factOf f cn = (r, g)" by fastforce
  have "factsShape (updVar i (raiseDepth d) g)" if "r = Some i" for i
    using factOf_grows(2)[OF g that] factOf_shape[OF f g] by (intro updVar_shape raiseDepth_shape shape_row) auto
  then show ?thesis using f factOf_shape[OF f g] by (simp add: raiseTo_def g split: option.split)
qed

lemma raiseIn_bounds: "raiseIn xs fld d = Some ys \<Longrightarrow> 0 \<le> d \<Longrightarrow> \<forall>x \<in> set xs. 0 \<le> snd x \<Longrightarrow> \<forall>x \<in> set ys. 0 \<le> snd x"
  by (induction xs fld d arbitrary: ys rule: raiseIn.induct) (force split: if_splits)+

lemma raiseField_shape: "factsShape f \<Longrightarrow> 0 \<le> d \<Longrightarrow> factsShape (raiseField f cn fld d)"
proof -
  assume f: "factsShape f" and d: "0 \<le> d"
  obtain r g where g: "factOf f cn = (r, g)" by fastforce
  note gs = factOf_shape[OF f g]
  show ?thesis
  proof (cases r)
    case (Some i)
    let ?v = "fa_vars g ! i"
    note i = factOf_grows(2)[OF g Some]
    have v: "rowShape ?v" using shape_row[OF gs] i by blast
    show ?thesis
    proof (cases "raiseIn (vf_fields ?v) fld d")
      case None
      have "rowShape (?v\<lparr>vf_fields := vf_fields ?v @ [(fld, d)]\<rparr>)" if "length (vf_fields ?v) < DFA_MAX_FIELDS"
        using v that d None by (auto simp: rowShape_def raiseIn_None)
      then have "factsShape (updVar i (\<lambda>v. raiseDepth d (v\<lparr>vf_fields := vf_fields v @ [(fld, d)]\<rparr>)) g)" if "length (vf_fields ?v) < DFA_MAX_FIELDS"
        using that gs i by (intro updVar_shape raiseDepth_shape) (auto simp: raiseDepth_shape)
      moreover have "factsShape (updVar i (raiseDepth d) g)" using gs i v by (intro updVar_shape raiseDepth_shape) auto
      ultimately show ?thesis by (simp add: raiseField_def g Some None Let_def)
    next
      case (Some fs)
      have "rowShape (?v\<lparr>vf_fields := fs\<rparr>)" using v raiseIn_spec[OF Some] raiseIn_bounds[OF Some d]
        by (auto simp: rowShape_def dest: map_eq_imp_length_eq)
      then have "factsShape (updVar i (\<lambda>v. v\<lparr>vf_fields := fs\<rparr>) g)" using gs i by (intro updVar_shape) auto
      then show ?thesis using \<open>r = Some i\<close> Some by (simp add: raiseField_def g Let_def)
    qed
  qed (use gs g in \<open>simp add: raiseField_def\<close>)
qed

lemma foldl_shape: "factsShape f \<Longrightarrow> (\<And>f x. x \<in> set xs \<Longrightarrow> factsShape f \<Longrightarrow> factsShape (k f x)) \<Longrightarrow> factsShape (foldl k f xs)"
  using foldl_rel[of "\<lambda>f g. factsShape f \<longrightarrow> factsShape g" xs k f] by blast

lemma joinInto_shape:
  assumes "factsShape f" "factsShape s"
  shows "factsShape (joinInto f s)"
proof -
  have "factsShape (foldl (\<lambda>f (n, d). raiseField f c n d) g (vf_fields v))" if "factsShape g" "v \<in> set (fa_vars s)" for g v c
    using assms(2) that by (intro foldl_shape) (force simp: factsShape_def[of s] rowShape_def intro!: raiseField_shape)+
  then have "factsShape (foldl (\<lambda>f v. foldl (\<lambda>f (n, d). raiseField f (Some (vf_cname v)) n d) (raiseTo f (Some (vf_cname v)) (vf_depth v)) (vf_fields v))
               f (fa_vars s))"
    by (rule foldl_shape[OF assms(1)]) (auto intro: raiseTo_shape)
  then show ?thesis by (simp add: joinInto_def Let_def)
qed

lemma zeroField_shape:
  assumes "factsShape f"
  shows "factsShape (zeroField f cn fld)"
proof -
  obtain r g where g: "factOf f cn = (r, g)" by fastforce
  let ?z = "\<lambda>v. v\<lparr>vf_fields := map (\<lambda>(n, d). if n = fld then (n, 0) else (n, d)) (vf_fields v)\<rparr>"
  have n: "map fst (map (\<lambda>(n, d). if n = fld then (n, 0) else (n, d)) xs) = map fst xs" for xs :: "(string \<times> int) list"
    by (auto split: prod.split)
  have z: "rowShape (?z v)" if "rowShape v" for v
    using that n[of "vf_fields v"] by (auto simp: rowShape_def simp del: map_map split: prod.split if_splits)
  have "factsShape (updVar i ?z g)" if "r = Some i" for i
    using factOf_grows(2)[OF g that] factOf_shape[OF assms g] by (intro updVar_shape z shape_row) auto
  then show ?thesis using factOf_shape[OF assms g] by (simp add: zeroField_def g split: option.split)
qed

lemma copyFields_shape:
  assumes "factsShape f"
  shows "factsShape (copyFields f dst src)"
proof -
  obtain r g where g: "factOf f src = (r, g)" by fastforce
  note gs = factOf_shape[OF assms g]
  have "factsShape (foldl (\<lambda>f (n, d). raiseField f dst n d) g (vf_fields (fa_vars g ! i)))" if "r = Some i" for i
  proof -
    have "rowShape (fa_vars g ! i)" using factOf_grows(2)[OF g that] shape_row[OF gs] by blast
    then show ?thesis by (intro foldl_shape[OF gs]) (force simp: rowShape_def intro!: raiseField_shape)
  qed
  then show ?thesis using gs by (simp add: copyFields_def g split: option.split)
qed

lemma deepest_nonneg: "0 \<le> d \<Longrightarrow> 0 \<le> deepest g d xs"
  unfolding deepest_def by (induction xs arbitrary: d) auto

lemma fieldDepth_nonneg: "factsShape f \<Longrightarrow> fieldDepth f cn fld = Some d \<Longrightarrow> 0 \<le> d"
  by (force simp: fieldDepth_def rowShape_def dest!: shape_rowOf map_of_SomeD split: option.splits)

lemma factDepthOf_nonneg: "factsShape f \<Longrightarrow> 0 \<le> factDepthOf f cn"
  by (auto simp: factDepthOf_def rowShape_def dest!: shape_rowOf split: option.splits)

lemma dfExprDepth_nonneg: "factsShape f \<Longrightarrow> 0 \<le> dfExprDepth ck fl f e hops"
proof (induction ck fl f e hops rule: dfExprDepth.induct)
  case (1 ck fl f p t k hops)
  have o: "0 \<le> orZero d" for d by (simp add: orZero_def)
  have r: "0 \<le> vf_depth (fa_vars f ! j)" if "rowOf (fa_vars f) n = Some j" for n j
    using shape_rowOf[OF "1.prems" that] by (simp add: rowShape_def)
  show ?case
  proof (cases k)
    case (EX_FIELD a fld)
    then show ?thesis using fieldDepth_nonneg[OF "1.prems"] factDepthOf_nonneg[OF "1.prems"] o
      by (auto simp: Let_def split: option.splits)
  qed (use 1 o r in \<open>auto intro!: deepest_nonneg simp: Let_def split: option.split\<close>)
qed

lemma dfVar_shape: "factsShape f \<Longrightarrow> factsShape (dfVar ck fl p i f)"
proof -
  assume f: "factsShape f"
  have "factsShape (foldl (\<lambda>f (n, x). raiseField f c n (dfExprDepth ck fl f x 0)) f xs)" for c xs
    by (rule foldl_shape[OF f]) (auto intro: raiseField_shape dfExprDepth_nonneg)
  then show ?thesis using f by (auto simp: dfVar_def Let_def intro: raiseTo_shape split: option.split ekind.split)
qed

lemma dfAssign_shape: "factsShape f \<Longrightarrow> factsShape (dfAssign ck fl t x f)"
  by (auto simp: dfAssign_def Let_def intro: raiseTo_shape raiseField_shape zeroField_shape copyFields_shape split: option.split ekind.split)

lemma raiseBinds_shape: "factsShape f \<Longrightarrow> factsShape (raiseBinds f bs d)"
  unfolding raiseBinds_def by (rule foldl_shape) (auto intro: raiseTo_shape split: option.split)

interpretation shapes: flow_relation ck fl "\<lambda>f g. factsShape f \<longrightarrow> factsShape g" for ck fl
  by unfold_locales (auto intro: dfVar_shape dfAssign_shape raiseBinds_shape joinInto_shape)

end
