(* ===== verification/Dataflow_Loop.thy ===== *)
theory Dataflow_Loop
  imports Dataflow_Shape
begin

text \<open>What a join covers, and what the rounds of a loop reach.\<close>

section \<open>What a join covers\<close>

definition covers :: "facts \<Rightarrow> facts \<Rightarrow> bool" where
  "covers r s \<longleftrightarrow> (\<forall>n. factDepthOf s n \<le> factDepthOf r n \<and>
     (\<forall>fld d. fieldDepth s n fld = Some d \<longrightarrow> (\<exists>e. fieldDepth r n fld = Some e \<and> d \<le> e)))"

lemma covers_trans: "covers r s \<Longrightarrow> covers s t \<Longrightarrow> covers r t"
  unfolding covers_def by (meson order.trans)

lemma rowOf_keeps:
  assumes "keeps f g" "rowOf (fa_vars f) n = Some i"
  shows "rowOf (fa_vars g) n = Some i"
proof -
  let ?m = "length (fa_vars f)"
  have l: "?m \<le> length (fa_vars g)" using assms(1) by (simp add: tableRel_def)
  have "map vf_cname (take ?m (fa_vars g)) = map vf_cname (fa_vars f)"
    using assms(1) l by (intro nth_equalityI) (auto simp: tableRel_def rowKeeps_def)
  then have "rowOf (take ?m (fa_vars g)) n = Some i" using rowOf_names assms(2) by metis
  then show ?thesis using rowOf_append[of "take ?m (fa_vars g)" "drop ?m (fa_vars g)" n] by simp
qed

lemma keeps_row: "keeps f g \<Longrightarrow> i < length (fa_vars f) \<Longrightarrow> rowKeeps (fa_vars f ! i) (fa_vars g ! i)"
  by (simp add: tableRel_def)

lemma keeps_depth:
  assumes "keeps f g" "factsShape g"
  shows "factDepthOf f n \<le> factDepthOf g n"
proof (cases "\<exists>m i. n = Some m \<and> rowOf (fa_vars f) m = Some i")
  case True
  then obtain m i where i: "n = Some m" "rowOf (fa_vars f) m = Some i" by blast
  have "vf_depth (fa_vars f ! i) \<le> vf_depth (fa_vars g ! i)"
    using keeps_row[OF assms(1)] rowOf_Some[OF i(2)] by (simp add: rowKeeps_def)
  then show ?thesis using i rowOf_keeps[OF assms(1) i(2)] by (simp add: factDepthOf_def)
next
  case False
  then have "factDepthOf f n = 0" by (auto simp: factDepthOf_def split: option.split)
  then show ?thesis using factDepthOf_nonneg[OF assms(2)] by simp
qed

lemma map_of_grows:
  "map fst ys = map fst xs @ zs \<Longrightarrow> \<forall>k < length xs. snd (xs ! k) \<le> snd (ys ! k) \<Longrightarrow> map_of xs n = Some d \<Longrightarrow>
     \<exists>e. map_of ys n = Some e \<and> (d::int) \<le> e"
proof (induction xs arbitrary: ys)
  case (Cons x xs)
  then obtain y ys' where y: "ys = y # ys'" by (cases ys) auto
  have "\<forall>k < length xs. snd (xs ! k) \<le> snd (ys' ! k)" using Cons.prems(2) y by (metis Suc_less_eq length_Cons nth_Cons_Suc)
  moreover have "fst y = fst x" "snd x \<le> snd y" using Cons.prems(1,2) y by auto
  ultimately show ?case using Cons.IH[of ys'] Cons.prems(1,3) y by (auto split: if_splits)
qed simp

lemma grows_field:
  assumes "grows f g" "fieldDepth f n fld = Some d"
  shows "\<exists>e. fieldDepth g n fld = Some e \<and> d \<le> e"
proof -
  obtain m i where i: "n = Some m" "rowOf (fa_vars f) m = Some i" "map_of (vf_fields (fa_vars f ! i)) fld = Some d"
    using assms(2) by (auto simp: fieldDepth_def split: option.splits)
  have "rowGrows (fa_vars f ! i) (fa_vars g ! i)" using assms(1) rowOf_Some[OF i(2)] by (simp add: tableRel_def)
  then have "\<exists>e. map_of (vf_fields (fa_vars g ! i)) fld = Some e \<and> d \<le> e"
    using map_of_grows[OF _ _ i(3)] by (auto simp: rowGrows_def rowKeeps_def)
  then show ?thesis using i rowOf_keeps[OF grows_keeps[OF assms(1)] i(2)] by (simp add: fieldDepth_def)
qed

lemma grows_covers: "grows f g \<Longrightarrow> factsShape g \<Longrightarrow> covers g f"
  using keeps_depth[OF grows_keeps] grows_field by (simp add: covers_def)

lemma raiseTo_depth:
  assumes "0 < d" "\<not> fa_overflow (raiseTo f (Some n) d)"
  shows "d \<le> factDepthOf (raiseTo f (Some n) d) (Some n)"
proof -
  obtain r g where g: "factOf f (Some n) = (r, g)" by fastforce
  obtain i where r: "r = Some i" using assms factOf_grows(3)[OF g] by (cases r) (auto simp: raiseTo_def g)
  note i = factOf_grows(2)[OF g r]
  have "raiseTo f (Some n) d = updVar i (raiseDepth d) g" using assms(1) r by (simp add: raiseTo_def g)
  moreover have "rowOf (fa_vars (updVar i (raiseDepth d) g)) n = Some i" using i by (simp add: rowOf_updVar raiseDepth_shape(2))
  ultimately show ?thesis using i updVar_nth[of i g "raiseDepth d"] by (simp add: factDepthOf_def raiseDepth_def)
qed

lemma raiseField_depth:
  assumes "\<not> fa_overflow (raiseField f (Some n) fld d)"
  shows "\<exists>e. fieldDepth (raiseField f (Some n) fld d) (Some n) fld = Some e \<and> d \<le> e"
proof -
  obtain r g where g: "factOf f (Some n) = (r, g)" by fastforce
  obtain i where r: "r = Some i" using assms factOf_grows(3)[OF g] by (cases r) (auto simp: raiseField_def g)
  note i = factOf_grows(2)[OF g r]
  have F: "fieldDepth (updVar i h g) (Some n) fld = map_of (vf_fields (h (fa_vars g ! i))) fld"
    if "vf_cname (h (fa_vars g ! i)) = n" for h
    using i that by (simp add: fieldDepth_def rowOf_updVar updVar_nth)
  show ?thesis
  proof (cases "raiseIn (vf_fields (fa_vars g ! i)) fld d")
    case None
    have l: "length (vf_fields (fa_vars g ! i)) < DFA_MAX_FIELDS" using assms r None by (auto simp: raiseField_def g Let_def split: if_splits)
    have "map_of (vf_fields (fa_vars g ! i)) fld = None" using None by (simp add: raiseIn_None map_of_eq_None_iff)
    moreover let ?h = "\<lambda>v. raiseDepth d (v\<lparr>vf_fields := vf_fields v @ [(fld, d)]\<rparr>)"
    have "raiseField f (Some n) fld d = updVar i ?h g" using r None l by (simp add: raiseField_def g Let_def)
    moreover have "fieldDepth (updVar i ?h g) (Some n) fld = map_of (vf_fields (?h (fa_vars g ! i))) fld"
      using i by (intro F) (simp add: raiseDepth_shape(2))
    moreover have "vf_fields (?h v) = vf_fields v @ [(fld, d)]" for v by (simp add: raiseDepth_def)
    ultimately show ?thesis by (simp add: map_add_def)
  next
    case (Some fs)
    then have "raiseField f (Some n) fld d = updVar i (\<lambda>v. v\<lparr>vf_fields := fs\<rparr>) g" using r by (simp add: raiseField_def g Let_def)
    then show ?thesis using i F[of "\<lambda>v. v\<lparr>vf_fields := fs\<rparr>"] raiseIn_spec[OF Some] by simp
  qed
qed

lemma grows_overflow: "grows f g \<Longrightarrow> \<not> fa_overflow g \<Longrightarrow> \<not> fa_overflow f"
  by (auto simp: tableRel_def)

lemma keeps_recorded:
  "d \<le> factDepthOf f n \<Longrightarrow> keeps f g \<Longrightarrow> factsShape g \<Longrightarrow> d \<le> factDepthOf g n"
  using keeps_depth order.trans by blast

lemma dfVar_records:
  assumes "dfCarriesRef ck x" "0 < dfExprDepth ck fl f x 0" "\<nexists>q ins. ex_kind x = EX_STRUCTLIT q ins"
  shows "\<not> fa_overflow (dfVar ck fl p (Some x) f) \<and> fl_cname fl p = Some n \<longrightarrow>
    dfExprDepth ck fl f x 0 \<le> factDepthOf (dfVar ck fl p (Some x) f) (Some n)"
proof -
  have "dfVar ck fl p (Some x) f = raiseTo f (fl_cname fl p) (dfExprDepth ck fl f x 0)"
    using assms(1,3) by (cases "ex_kind x") (simp_all add: dfVar_def Let_def)
  then show ?thesis using raiseTo_depth[OF assms(2)] by auto
qed

lemma dfAssign_records:
  assumes "factsShape f" "dfCarriesRef ck x" "0 < dfExprDepth ck fl f x 0"
  shows "\<not> fa_overflow (dfAssign ck fl a x f) \<and> dfRootOf ck a = Some r \<and> sy_cname (symOf ck r) = Some n \<longrightarrow>
    (case ex_kind a of
       EX_FIELD b fld \<Rightarrow> (\<exists>e. fieldDepth (dfAssign ck fl a x f) (Some n) fld = Some e \<and> dfExprDepth ck fl f x 0 \<le> e)
     | _ \<Rightarrow> dfExprDepth ck fl f x 0 \<le> factDepthOf (dfAssign ck fl a x f) (Some n))"
proof (intro impI, elim conjE)
  assume o: "\<not> fa_overflow (dfAssign ck fl a x f)" and r: "dfRootOf ck a = Some r" "sy_cname (symOf ck r) = Some n"
  let ?d = "dfExprDepth ck fl f x 0"
  let ?g = "raiseTo f (Some n) ?d"
  let ?h = "case dfRootOf ck x of None \<Rightarrow> ?g | Some s \<Rightarrow> copyFields ?g (Some n) (sy_cname (symOf ck s))"
  have W: "?d \<le> factDepthOf ?h (Some n)" if "\<not> fa_overflow ?h"
  proof -
    have gh: "grows ?g ?h" using copyFields_grows by (auto split: option.split)
    have "factsShape ?h" using copyFields_shape raiseTo_shape assms(1) by (auto split: option.split)
    then show ?thesis
      using raiseTo_depth[OF assms(3)] grows_overflow[OF gh that] keeps_recorded[OF _ grows_keeps[OF gh]] by blast
  qed
  have A: "dfAssign ck fl a x f = (case ex_kind a of EX_FIELD b fld \<Rightarrow> raiseField f (Some n) fld ?d | _ \<Rightarrow> ?h)"
    using r assms by (simp add: dfAssign_def Let_def split: ekind.split)
  show "case ex_kind a of EX_FIELD b fld \<Rightarrow> (\<exists>e. fieldDepth (dfAssign ck fl a x f) (Some n) fld = Some e \<and> ?d \<le> e)
     | _ \<Rightarrow> ?d \<le> factDepthOf (dfAssign ck fl a x f) (Some n)"
    using W o raiseField_depth[of f n _ ?d] unfolding A by (cases "ex_kind a") simp_all
qed

lemma foldl_step:
  assumes "\<And>f x. grows f (k f x)" "x \<in> set xs"
  shows "\<exists>g. grows f g \<and> grows (k g x) (foldl k f xs)"
proof -
  obtain ys zs where xs: "xs = ys @ x # zs" using split_list[OF assms(2)] by blast
  have "grows g (foldl k g ws)" for g ws by (rule foldl_grows) (rule assms(1))
  then show ?thesis using xs by (intro exI[of _ "foldl k f ys"]) simp
qed

lemma joinInto_covers:
  assumes "factsShape d" "factsShape s" "\<not> fa_overflow (joinInto d s)"
  shows "covers (joinInto d s) d \<and> covers (joinInto d s) s"
proof -
  let ?in = "\<lambda>v. foldl (\<lambda>f (n, d). raiseField f (Some (vf_cname v)) n d)"
  let ?k = "\<lambda>f v. ?in v (raiseTo f (Some (vf_cname v)) (vf_depth v)) (vf_fields v)"
  let ?r = "foldl ?k d (fa_vars s)"
  have J: "joinInto d s = ?r" using assms(3) by (simp add: joinInto_def Let_def split: if_splits)
  have inner: "grows g (?in v g xs)" for v g xs by (rule foldl_grows) (auto intro: raiseField_grows)
  then have k: "grows g (?k g v)" for g v using grows_trans[OF raiseTo_grows] by blast
  have sh: "factsShape ?r" using joinInto_shape[OF assms(1,2)] J by simp
  have row: "vf_depth v \<le> factDepthOf ?r (Some (vf_cname v)) \<and>
      (\<forall>(n, e) \<in> set (vf_fields v). \<exists>e'. fieldDepth ?r (Some (vf_cname v)) n = Some e' \<and> e \<le> e')" if "v \<in> set (fa_vars s)" for v
  proof -
    note v = that
    obtain g where g: "grows d g" "grows (?k g v) ?r" using foldl_step[of ?k, OF k v] by blast
    let ?t = "raiseTo g (Some (vf_cname v)) (vf_depth v)"
    have t: "grows ?t ?r" using grows_trans[OF inner g(2)] .
    have A: "vf_depth v \<le> factDepthOf ?r (Some (vf_cname v))"
    proof (cases "0 < vf_depth v")
      case True
      then have "vf_depth v \<le> factDepthOf ?t (Some (vf_cname v))"
        using grows_overflow[OF t] assms(3) J by (intro raiseTo_depth) auto
      then show ?thesis by (rule order.trans[OF _ keeps_depth[OF grows_keeps[OF t] sh]])
    qed (use factDepthOf_nonneg[OF sh, of "Some (vf_cname v)"] in simp)
    have B: "\<exists>e'. fieldDepth ?r (Some (vf_cname v)) n = Some e' \<and> e \<le> e'" if "(n, e) \<in> set (vf_fields v)" for n e
    proof -
      let ?f = "\<lambda>f (n, d). raiseField f (Some (vf_cname v)) n d"
      have "\<exists>h. grows ?t h \<and> grows (?f h (n, e)) (foldl ?f ?t (vf_fields v))"
        by (rule foldl_step[OF _ that]) (auto intro: raiseField_grows)
      then obtain h where h: "grows (raiseField h (Some (vf_cname v)) n e) (?in v ?t (vf_fields v))" by auto
      note u = grows_trans[OF h g(2)]
      have "\<not> fa_overflow (raiseField h (Some (vf_cname v)) n e)" using grows_overflow[OF u] assms(3) J by simp
      from raiseField_depth[OF this] obtain x where x: "fieldDepth (raiseField h (Some (vf_cname v)) n e) (Some (vf_cname v)) n = Some x" "e \<le> x" by blast
      from grows_field[OF u x(1)] x(2) show ?thesis by (elim exE) (intro exI, auto)
    qed
    show ?thesis using A B by auto
  qed
  have "covers ?r s"
    unfolding covers_def
  proof (intro allI conjI impI)
    show "factDepthOf s n \<le> factDepthOf ?r n" for n
      using row factDepthOf_nonneg[OF sh, of n] by (auto simp: factDepthOf_def[of s] dest!: rowOf_Some split: option.split)
    show "\<exists>e. fieldDepth ?r n fld = Some e \<and> x \<le> e" if "fieldDepth s n fld = Some x" for n fld x
    proof -
      note x = that
      obtain m i where i: "n = Some m" "rowOf (fa_vars s) m = Some i" "map_of (vf_fields (fa_vars s ! i)) fld = Some x"
        using x by (auto simp: fieldDepth_def[of s] split: option.splits)
      then show ?thesis using row[of "fa_vars s ! i"] rowOf_Some[OF i(2)] map_of_SomeD[OF i(3)] by auto
    qed
  qed
  then show ?thesis using grows_covers[OF joinInto_grows, of d s] sh J by simp
qed

section \<open>Loops\<close>

lemma sameFacts_eq:
  assumes "grows f g" "sameFacts f g" "\<not> fa_overflow g"
  shows "g = f"
proof -
  have l: "length (fa_vars g) = length (fa_vars f)" using assms(2) by (simp add: sameFacts_def list_all2_lengthD)
  have "fa_vars g ! i = fa_vars f ! i" if "i < length (fa_vars f)" for i
  proof -
    let ?v = "fa_vars f ! i" and ?w = "fa_vars g ! i"
    have s: "vf_depth ?v = vf_depth ?w" "map snd (vf_fields ?v) = map snd (vf_fields ?w)"
      using assms(2) that l by (auto simp: sameFacts_def list_all2_conv_all_nth sameRow_def)
    have k: "vf_cname ?v = vf_cname ?w" "\<exists>xs. map fst (vf_fields ?w) = map fst (vf_fields ?v) @ xs"
      using assms(1) that by (auto simp: tableRel_def rowGrows_def rowKeeps_def)
    have len: "length (vf_fields ?v) = length (vf_fields ?w)" using map_eq_imp_length_eq[OF s(2)] .
    obtain xs where xs: "map fst (vf_fields ?w) = map fst (vf_fields ?v) @ xs" using k(2) by blast
    then have "length (map fst (vf_fields ?w)) = length (map fst (vf_fields ?v)) + length xs" by (simp only: length_append)
    then have "xs = []" using len by simp
    then have "map fst (vf_fields ?w) = map fst (vf_fields ?v)" using xs by simp
    then have "vf_fields ?v = vf_fields ?w" using s(2) by (metis zip_map_fst_snd)
    then show ?thesis using s(1) k(1) by (intro varFact.equality) simp_all
  qed
  then have "fa_vars g = fa_vars f" using l by (intro nth_equalityI) auto
  moreover have "fa_overflow g = fa_overflow f" using grows_overflow[OF assms(1,3)] assms(3) by simp
  ultimately show ?thesis by (intro facts.equality) simp_all
qed

text \<open>One round of a loop.\<close>

definition roundOf :: "(facts \<Rightarrow> facts) \<Rightarrow> facts \<Rightarrow> facts" where
  "roundOf body f = joinInto f (body f)"

lemma roundOf_grows: "grows f (roundOf body f)"
  by (simp add: roundOf_def joinInto_grows)

lemma rounds_grow: "grows f ((roundOf body ^^ n) f)"
proof (induction n)
  case (Suc n)
  then show ?case using grows_trans[OF Suc roundOf_grows] by simp
qed simp

lemma whileRounds_fixpoint:
  "\<not> fa_overflow (whileRounds body n f) \<Longrightarrow> n < DFA_ROUNDS \<Longrightarrow>
     roundOf body (whileRounds body n f) = whileRounds body n f \<and>
     (\<exists>m \<le> DFA_ROUNDS - n. whileRounds body n f = (roundOf body ^^ m) f)"
proof (induction body n f rule: whileRounds.induct)
  case (1 body n f)
  let ?g = "joinInto f (body f)"
  have step: "whileRounds body n f = (if sameFacts f ?g then ?g else if n + 1 \<ge> DFA_ROUNDS then ?g\<lparr>fa_overflow := True\<rparr> else whileRounds body (n + 1) ?g)"
    by (subst whileRounds.simps) (simp add: Let_def)
  show ?case
  proof (cases "sameFacts f ?g")
    case True
    then have "?g = f" using 1(2) sameFacts_eq[OF joinInto_grows] by (simp add: step)
    then show ?thesis using True by (auto simp: step roundOf_def intro!: exI[of _ 0])
  next
    case False
    then have n: "\<not> n + 1 \<ge> DFA_ROUNDS" using 1(2) by (auto simp: step split: if_splits)
    let ?r = "whileRounds body (n + 1) ?g"
    have r: "whileRounds body n f = ?r" using False n by (simp add: step)
    have ih: "roundOf body ?r = ?r \<and> (\<exists>m \<le> DFA_ROUNDS - (n + 1). ?r = (roundOf body ^^ m) ?g)"
      by (rule 1(1)[OF HOL.refl False n]) (use 1(2) r n in auto)
    then obtain m where m: "m \<le> DFA_ROUNDS - (n + 1)" "?r = (roundOf body ^^ m) ?g" by blast
    have "?r = (roundOf body ^^ Suc m) f" using m(2) by (simp add: roundOf_def funpow_swap1)
    then show ?thesis using ih m(1) n unfolding r by (intro conjI exI[of _ "Suc m"]) auto
  qed
qed

lemma whileRounds_settles:
  "roundOf body ((roundOf body ^^ m) f) = (roundOf body ^^ m) f \<Longrightarrow> \<not> fa_overflow ((roundOf body ^^ m) f) \<Longrightarrow>
     n + m < DFA_ROUNDS \<Longrightarrow> whileRounds body n f = (roundOf body ^^ m) f"
proof (induction m arbitrary: n f)
  case 0
  then have "joinInto f (body f) = f" by (simp add: roundOf_def)
  moreover have "sameFacts f f" by (simp add: sameFacts_def list_all2_refl sameRow_def)
  ultimately show ?case by (subst whileRounds.simps) (simp add: Let_def)
next
  case (Suc m)
  let ?g = "roundOf body f"
  have eq: "(roundOf body ^^ Suc m) f = (roundOf body ^^ m) ?g" by (simp add: funpow_swap1)
  have "\<not> fa_overflow ?g" using grows_overflow[OF rounds_grow[of ?g m body]] Suc.prems(2) eq by simp
  then have same: "?g = f" if "sameFacts f ?g" using sameFacts_eq[OF roundOf_grows that] by blast
  have "(roundOf body ^^ m) ?g = ?g" if "?g = f" using that by (induction m) auto
  then have a: "whileRounds body n f = (roundOf body ^^ m) ?g" if "sameFacts f ?g"
    using that same by (subst whileRounds.simps) (simp add: Let_def flip: roundOf_def)
  have b: "whileRounds body n f = whileRounds body (n + 1) ?g" if "\<not> sameFacts f ?g"
    using that Suc.prems(3) by (subst whileRounds.simps) (simp add: Let_def roundOf_def)
  show ?case
  proof (cases "sameFacts f ?g")
    case False
    then show ?thesis using b Suc.IH[of ?g "n + 1"] Suc.prems unfolding eq by simp
  qed (use a eq in simp)
qed

end
