(* ===== verification/Dataflow_Claims.thy ===== *)
theory Dataflow_Claims
  imports Dataflow_Loop Check_Claims
begin

text \<open>The properties of the analysis of check/check_dataflow.c.\<close>

section \<open>Table and depths\<close>

text \<open>C30: every statement keeps the shape of the table and only adds to it. After any statement there are
  still at most 256 rows with different names, each with at most four different fields and no negative
  depth; no row has been lost or moved, the depth of no binding has fallen, and an answer that was
  marked unusable stays so.\<close>

theorem analysis_invariant:
  assumes "factsShape f"
  shows "factsShape (dfStmt ck fl s d f) \<and> keeps f (dfStmt ck fl s d f)"
  using assms shapes.stmt_related depths.stmt_related by blast

text \<open>Two bindings \<open>p\<close> and \<open>q\<close> of a reference type, an allocation on level two, and the loop
  \<open>while c { p = q; q = new ... }\<close>.\<close>

definition exFlow :: flowTables where
  "exFlow = \<lparr>fl_minAt = (\<lambda>_. -1), fl_lexicalLevel = (\<lambda>_. 2), fl_cname = (\<lambda>_. Some ''q'')\<rparr>"

definition exFlowCk :: checker where
  "exFlowCk = snd (declareSym ''q'' (Some exRef) True False 1 (snd (declareSym ''p'' (Some exRef) True False 1 exChecker)))"

definition exP :: expr where "exP = Expr 1 (Some exRef) (EX_IDENT ''p'' (Some 0))"
definition exQ :: expr where "exQ = Expr 2 (Some exRef) (EX_IDENT ''q'' (Some 1))"
definition exNew :: expr where "exNew = Expr 3 (Some exRef) (EX_NEW None None)"

definition exBody :: stmt where
  "exBody = Stmt 4 (ST_BLOCK [Stmt 5 (ST_ASSIGN exP exQ None), Stmt 6 (ST_ASSIGN exQ exNew None)])"

definition exLoop :: stmt where "exLoop = Stmt 7 (ST_WHILE (Expr 8 None (EX_BOOL True)) exBody)"

definition noFacts :: facts where "noFacts = \<lparr>fa_vars = [], fa_overflow = False\<rparr>"

lemma noFacts_shape: "factsShape noFacts" by (simp add: factsShape_def noFacts_def)

theorem analysis_invariant_witness:
  "factsShape (dfStmt exFlowCk exFlow exLoop 1 noFacts) \<and>
   map (\<lambda>v. (vf_cname v, vf_depth v)) (fa_vars (dfStmt exFlowCk exFlow exLoop 1 noFacts)) = [(''p'', 2), (''q'', 2)]"
proof
  show "factsShape (dfStmt exFlowCk exFlow exLoop 1 noFacts)" using analysis_invariant[OF noFacts_shape] by blast
  show "map (\<lambda>v. (vf_cname v, vf_depth v)) (fa_vars (dfStmt exFlowCk exFlow exLoop 1 noFacts)) = [(''p'', 2), (''q'', 2)]"
    by code_simp
qed

text \<open>A store is recorded. After a declaration with a value that carries a reference (other than a
  struct literal, whose fields are recorded first), and after an assignment of one, the binding's depth is at least the depth of the value in the facts before, unless
  the answer is marked unusable; for an assignment to a field the field's depth is.\<close>

theorem stores_recorded:
  assumes "factsShape f" "dfCarriesRef ck x" "0 < dfExprDepth ck fl f x 0"
  shows "(\<not> fa_overflow (dfStmt ck fl (Stmt p (ST_VAR v t (Some x) m)) d f) \<and> fl_cname fl p = Some n \<and> (\<nexists>q ins. ex_kind x = EX_STRUCTLIT q ins) \<longrightarrow>
      dfExprDepth ck fl f x 0 \<le> factDepthOf (dfStmt ck fl (Stmt p (ST_VAR v t (Some x) m)) d f) (Some n)) \<and>
    (\<not> fa_overflow (dfStmt ck fl (Stmt p (ST_ASSIGN a x opr)) d f) \<and> dfRootOf ck a = Some r \<and> sy_cname (symOf ck r) = Some n \<longrightarrow>
      (case ex_kind a of
         EX_FIELD b fld \<Rightarrow> (\<exists>e. fieldDepth (dfStmt ck fl (Stmt p (ST_ASSIGN a x opr)) d f) (Some n) fld = Some e \<and> dfExprDepth ck fl f x 0 \<le> e)
       | _ \<Rightarrow> dfExprDepth ck fl f x 0 \<le> factDepthOf (dfStmt ck fl (Stmt p (ST_ASSIGN a x opr)) d f) (Some n)))"
proof -
  have v: "dfStmt ck fl (Stmt p (ST_VAR v t (Some x) m)) d f = dfVar ck fl p (Some x) f"
    and a: "dfStmt ck fl (Stmt p (ST_ASSIGN a x opr)) d f = dfAssign ck fl a x f" by (simp_all add: dfStmt.simps)
  show ?thesis unfolding v a using dfVar_records[OF assms(2,3), of p n] dfAssign_records[OF assms, of a r n] by blast
qed

theorem stores_recorded_witness:
  "2 \<le> factDepthOf (dfStmt exFlowCk exFlow (Stmt 6 (ST_ASSIGN exQ exNew None)) 1 noFacts) (Some ''q'') \<and>
   2 \<le> factDepthOf (dfStmt exFlowCk exFlow (Stmt 6 (ST_VAR ''q'' None (Some exNew) True)) 1 noFacts) (Some ''q'')"
proof -
  have c: "dfCarriesRef exFlowCk exNew" by code_simp
  have d: "dfExprDepth exFlowCk exFlow noFacts exNew 0 = 2" by code_simp
  have o: "\<not> fa_overflow (dfStmt exFlowCk exFlow (Stmt 6 (ST_ASSIGN exQ exNew None)) 1 noFacts)"
    "\<not> fa_overflow (dfStmt exFlowCk exFlow (Stmt 6 (ST_VAR ''q'' None (Some exNew) True)) 1 noFacts)" by code_simp+
  have r: "dfRootOf exFlowCk exQ = Some 1" "sy_cname (symOf exFlowCk 1) = Some ''q''" "fl_cname exFlow 6 = Some ''q''" by code_simp+
  have "0 < dfExprDepth exFlowCk exFlow noFacts exNew 0" using d by simp
  from stores_recorded[OF noFacts_shape c this, where p = 6 and d = 1 and a = exQ and r = 1 and n = "''q''" and v = "''q''"
      and t = None and m = True and opr = None]
  show ?thesis using d o r by (simp add: exQ_def exNew_def)
qed

text \<open>C31: a branch takes the worse of its arms. After a conditional that did not overflow, every binding and
  every field is at least as deep as after either arm, and as before the conditional.\<close>

theorem arms_covered:
  assumes "factsShape f" "\<not> fa_overflow (dfStmt ck fl (Stmt p (ST_IF c a b)) d f)"
  shows "covers (dfStmt ck fl (Stmt p (ST_IF c a b)) d f) (dfBlock ck fl a d f) \<and>
    covers (dfStmt ck fl (Stmt p (ST_IF c a b)) d f) (case b of Some s \<Rightarrow> dfBlock ck fl s d f | None \<Rightarrow> f) \<and>
    covers (dfStmt ck fl (Stmt p (ST_IF c a b)) d f) f"
proof -
  let ?t = "dfBlock ck fl a d f" and ?e = "case b of Some s \<Rightarrow> dfBlock ck fl s d f | None \<Rightarrow> f"
  let ?g = "joinInto f ?t"
  have r: "dfStmt ck fl (Stmt p (ST_IF c a b)) d f = joinInto ?g ?e" by (simp add: dfStmt.simps Let_def)
  have sh: "factsShape ?t" "factsShape ?e" using assms(1) shapes.block_related by (auto split: option.split)
  have "\<not> fa_overflow ?g" using assms(2) r grows_overflow[OF joinInto_grows] by simp
  then have "covers ?g f \<and> covers ?g ?t" by (rule joinInto_covers[OF assms(1) sh(1)])
  moreover have "covers (joinInto ?g ?e) ?g \<and> covers (joinInto ?g ?e) ?e"
    using assms(2) r by (intro joinInto_covers joinInto_shape assms(1) sh) simp
  ultimately show ?thesis unfolding r using covers_trans by blast
qed

theorem arms_covered_witness:
  "covers (dfStmt exFlowCk exFlow (Stmt 9 (ST_IF (Expr 8 None (EX_BOOL True)) exBody None)) 1 noFacts) (dfBlock exFlowCk exFlow exBody 1 noFacts)"
proof -
  have "\<not> fa_overflow (dfStmt exFlowCk exFlow (Stmt 9 (ST_IF (Expr 8 None (EX_BOOL True)) exBody None)) 1 noFacts)" by code_simp
  then show ?thesis using arms_covered[OF noFacts_shape] by blast
qed

section \<open>Loops\<close>

text \<open>C28: a loop ends at a fixed point. The walk of a loop makes at most 64 rounds; when its answer is usable,
  one more round of the body would change nothing, and the answer covers the facts before the loop and
  after its body.\<close>

theorem loop_fixpoint:
  assumes "factsShape f" "\<not> fa_overflow (dfStmt ck fl (Stmt p (ST_WHILE c b)) d f)"
  shows "\<exists>m \<le> DFA_ROUNDS. dfStmt ck fl (Stmt p (ST_WHILE c b)) d f = (roundOf (dfBlock ck fl b d) ^^ m) f \<and>
    roundOf (dfBlock ck fl b d) ((roundOf (dfBlock ck fl b d) ^^ m) f) = (roundOf (dfBlock ck fl b d) ^^ m) f \<and>
    covers ((roundOf (dfBlock ck fl b d) ^^ m) f) f \<and>
    covers ((roundOf (dfBlock ck fl b d) ^^ m) f) (dfBlock ck fl b d ((roundOf (dfBlock ck fl b d) ^^ m) f))"
proof -
  let ?B = "dfBlock ck fl b d" and ?r = "dfStmt ck fl (Stmt p (ST_WHILE c b)) d f"
  have r: "?r = whileRounds ?B 0 f" by (simp add: dfStmt.simps)
  have s: "factsShape ?r" "factsShape (?B ?r)" using assms(1) shapes.stmt_related shapes.block_related by blast+
  have F: "roundOf ?B ?r = ?r \<and> (\<exists>m \<le> DFA_ROUNDS - 0. ?r = (roundOf ?B ^^ m) f)"
    unfolding r by (rule whileRounds_fixpoint) (use assms(2) r in \<open>simp_all add: DFA_ROUNDS_def\<close>)
  then obtain m where m: "m \<le> DFA_ROUNDS" "?r = (roundOf ?B ^^ m) f" by auto
  have "covers (joinInto ?r (?B ?r)) (?B ?r)"
    using joinInto_covers[OF s] F assms(2) by (simp add: roundOf_def)
  then have "covers ?r (?B ?r)" using F by (simp add: roundOf_def)
  moreover have "covers ?r f" using grows_covers[OF _ s(1)] rounds_grow[of f m ?B] m(2) by simp
  ultimately show ?thesis using F m by metis
qed

theorem loop_fixpoint_witness:
  "\<exists>m \<le> DFA_ROUNDS. dfStmt exFlowCk exFlow exLoop 1 noFacts = (roundOf (dfBlock exFlowCk exFlow exBody 1) ^^ m) noFacts"
proof -
  have "\<not> fa_overflow (dfStmt exFlowCk exFlow exLoop 1 noFacts)" by code_simp
  then show ?thesis using loop_fixpoint[OF noFacts_shape] unfolding exLoop_def by blast
qed

text \<open>C29: a loop that settles is walked to the end. When the rounds reach a usable table that one more round
  does not change after fewer than 64 rounds, the walk returns that table and does not give up.\<close>

theorem loop_settles:
  assumes "m < DFA_ROUNDS" "\<not> fa_overflow ((roundOf (dfBlock ck fl b d) ^^ m) f)"
    "roundOf (dfBlock ck fl b d) ((roundOf (dfBlock ck fl b d) ^^ m) f) = (roundOf (dfBlock ck fl b d) ^^ m) f"
  shows "dfStmt ck fl (Stmt p (ST_WHILE c b)) d f = (roundOf (dfBlock ck fl b d) ^^ m) f"
  using whileRounds_settles[OF assms(3,2), of 0] assms(1) by (simp add: dfStmt.simps)

definition pqFacts :: "int \<Rightarrow> int \<Rightarrow> facts" where
  "pqFacts x y = \<lparr>fa_vars = [\<lparr>vf_cname = ''p'', vf_depth = x, vf_fields = []\<rparr>, \<lparr>vf_cname = ''q'', vf_depth = y, vf_fields = []\<rparr>],
     fa_overflow = False\<rparr>"

theorem loop_settles_witness:
  "dfStmt exFlowCk exFlow exLoop 1 noFacts = (roundOf (dfBlock exFlowCk exFlow exBody 1) ^^ 2) noFacts \<and>
   factDepthOf (dfStmt exFlowCk exFlow exLoop 1 noFacts) (Some ''p'') = 2"
proof
  let ?k = "roundOf (dfBlock exFlowCk exFlow exBody 1)"
  have a: "?k noFacts = pqFacts 1 2" by code_simp
  have b: "?k (pqFacts 1 2) = pqFacts 2 2" by code_simp
  have c: "?k (pqFacts 2 2) = pqFacts 2 2" by code_simp
  have r: "(?k ^^ 2) noFacts = pqFacts 2 2" by (simp only: numeral_2_eq_2 funpow.simps o_apply id_apply a b)
  have "dfStmt exFlowCk exFlow (Stmt 7 (ST_WHILE (Expr 8 None (EX_BOOL True)) exBody)) 1 noFacts = (?k ^^ 2) noFacts"
    by (rule loop_settles) (unfold r c, simp_all add: DFA_ROUNDS_def pqFacts_def)
  then show "dfStmt exFlowCk exFlow exLoop 1 noFacts = (?k ^^ 2) noFacts" by (simp only: exLoop_def)
  then show "factDepthOf (dfStmt exFlowCk exFlow exLoop 1 noFacts) (Some ''p'') = 2"
    by (simp only: r) code_simp
qed

section \<open>The result\<close>

text \<open>The result hands out what the analysis found. For a body whose analysis did not overflow, the
  depth looked up for a binding is the one in the final facts and the depth of an expression is the one
  computed in them; otherwise both answers are the ones for "unknown".\<close>

theorem result_answers:
  "(case dfBlock ck fl b 1 noFacts of f \<Rightarrow> case dfAnalyze ck fl (Some b) of r \<Rightarrow>
     factsFromResult r = f \<and>
     dfValueDepth ck fl r e = (if fa_overflow f then 0 else dfExprDepth ck fl f e 0) \<and>
     dfLookup r (Some n) = (if fa_overflow f \<or> rowOf (fa_vars f) n = None then -1 else factDepthOf f (Some n)))"
proof -
  let ?f = "dfBlock ck fl b 1 noFacts"
  have "factsShape ?f" using noFacts_shape shapes.block_related by blast
  then have t: "take DFA_MAX_VARS (fa_vars ?f) = fa_vars ?f" by (simp add: factsShape_def)
  then have r: "dfAnalyze ck fl (Some b) = \<lparr>dr_vars = fa_vars ?f, dr_overflow = fa_overflow ?f\<rparr>"
    by (simp add: dfAnalyze_def Let_def noFacts_def)
  have F: "factsFromResult (dfAnalyze ck fl (Some b)) = ?f"
    using t by (intro facts.equality) (simp_all add: factsFromResult_def r)
  have "dfValueDepth ck fl (dfAnalyze ck fl (Some b)) e = (if fa_overflow ?f then 0 else dfExprDepth ck fl ?f e 0)"
    unfolding dfValueDepth_def F by (simp add: r)
  then show ?thesis using F by (simp add: r dfLookup_def factDepthOf_def split: option.split)
qed

section \<open>Where the depths are not upper bounds\<close>

text \<open>The depth of a binding is not the maximum over its fields. Raising a field that the table knows
  leaves the binding's own depth alone.\<close>

theorem field_above_binding:
  "(case raiseField (raiseField noFacts (Some ''h'') ''p'' 1) (Some ''h'') ''p'' 2 of f \<Rightarrow>
     fieldDepth f (Some ''h'') ''p'' = Some 2 \<and> factDepthOf f (Some ''h'') = 1)"
  by code_simp

text \<open>The transfers are not monotone. A binding without a row reads as deep as the checker recorded it;
  storing nothing in one of its fields makes its row, and then it reads as depth 0.\<close>

theorem row_hides_depth:
  "dfExprDepth exFlowCk exFlow noFacts exP 0 = 1 \<and>
   dfExprDepth exFlowCk exFlow (zeroField noFacts (Some ''p'') ''f'') exP 0 = 0 \<and>
   grows noFacts (zeroField noFacts (Some ''p'') ''f'')"
proof (intro conjI)
  show "grows noFacts (zeroField noFacts (Some ''p'') ''f'')" by (simp add: tableRel_def noFacts_def zeroField_def factOf_def updVar_def DFA_MAX_VARS_def)
qed code_simp+

end
