(* ===== verification/Results.thy ===== *)
theory Results
  imports Open_Addressing "HOL-Library.Word"
begin

unbundle bit_operations_syntax

text \<open>The storage of the checker's results (plan/results.c): a node of the tree gets a dense number when a
  result is first written for it, and its result slot is found by that number. The numbers are kept in
  an open-addressing table from node addresses to numbers, the slots in fixed blocks that are never
  moved. A result of None is a probe loop that does not end; running out of memory, which aborts, is
  left out. Of a slot only what this file reads and writes is modelled: the kind stamped by the first
  writer, its line and owner, the mark of a shared slot and the two words of flags.\<close>

section \<open>State\<close>

datatype resultKind = RKIND_NONE | RKIND_EXPR | RKIND_STMT | RKIND_FUNC | RKIND_OTHER

record nodeResults =
  nr_kind :: resultKind
  nr_line :: int
  nr_owner :: "nat option"
  nr_shared :: bool
  nr_loMask :: "64 word"
  nr_hiMask :: "64 word"

text \<open>A slot of a fresh block, which \<open>calloc\<close> has cleared.\<close>

definition clearSlot :: nodeResults where
  "clearSlot = \<lparr>nr_kind = RKIND_NONE, nr_line = 0, nr_owner = None, nr_shared = False, nr_loMask = 0, nr_hiMask = 0\<rparr>"

text \<open>The static variables; a node is its address, and 0 is NULL. The pair of tables \<open>h_keys\<close> and
  \<open>h_vals\<close> is one table of entries.\<close>

record resultStore =
  rs_nodes :: "nat list list"
  rs_results :: "nodeResults list list"
  rs_len :: nat
  rs_cap :: nat
  rs_hash :: "(nat \<times> nat) table"
  rs_hlen :: nat
  rs_owner :: "nat option"
  rs_mismatch :: nat

definition emptyStore :: resultStore where
  "emptyStore = \<lparr>rs_nodes = [], rs_results = [], rs_len = 0, rs_cap = 0, rs_hash = [], rs_hlen = 0, rs_owner = None, rs_mismatch = 0\<rparr>"

section \<open>Flags\<close>

definition resultsBit :: "nodeResults \<Rightarrow> nat \<Rightarrow> bool" where
  "resultsBit r b = (if b < 64 then drop_bit b (nr_loMask r) AND 1 \<noteq> 0 else drop_bit (b - 64) (nr_hiMask r) AND 1 \<noteq> 0)"

definition resultsSetBit :: "nodeResults \<Rightarrow> nat \<Rightarrow> nodeResults" where
  "resultsSetBit r b = (if b < 64 then r\<lparr>nr_loMask := nr_loMask r OR push_bit b 1\<rparr>
     else r\<lparr>nr_hiMask := nr_hiMask r OR push_bit (b - 64) 1\<rparr>)"

section \<open>Numbers\<close>

definition ID_BLOCK :: nat where "ID_BLOCK = 1024"

definition hashPtr :: "nat \<Rightarrow> nat" where
  "hashPtr p = (p div 2 ^ 4) * 0x9E3779B97F4A7C15 mod 2 ^ 64"

definition nodeHome :: "nat \<Rightarrow> nat \<Rightarrow> nat" where
  "nodeHome p cap = hashPtr p AND (cap - 1)"

definition nodeAt :: "resultStore \<Rightarrow> nat \<Rightarrow> nat" where
  "nodeAt s nid = rs_nodes s ! (nid div ID_BLOCK) ! (nid mod ID_BLOCK)"

definition slotAt :: "resultStore \<Rightarrow> nat \<Rightarrow> nodeResults" where
  "slotAt s nid = rs_results s ! (nid div ID_BLOCK) ! (nid mod ID_BLOCK)"

definition setAt :: "'a list list \<Rightarrow> nat \<Rightarrow> 'a \<Rightarrow> 'a list list" where
  "setAt bs nid x = bs[nid div ID_BLOCK := (bs ! (nid div ID_BLOCK))[nid mod ID_BLOCK := x]]"

definition growIds :: "resultStore \<Rightarrow> resultStore" where
  "growIds s = (let nblocks = (if rs_cap s \<noteq> 0 then rs_cap s div ID_BLOCK else 0) + 1
     in s\<lparr>rs_nodes := take (nblocks - 1) (rs_nodes s) @ [replicate ID_BLOCK 0],
          rs_results := take (nblocks - 1) (rs_results s) @ [replicate ID_BLOCK clearSlot],
          rs_cap := nblocks * ID_BLOCK\<rparr>)"

definition growHash :: "resultStore \<Rightarrow> resultStore option" where
  "growHash s = (let ncap = (if length (rs_hash s) \<noteq> 0 then length (rs_hash s) * 2 else 256)
     in map_option (\<lambda>t. s\<lparr>rs_hash := t\<rparr>) (oaRehash (\<lambda>e. nodeHome (fst e) ncap) (rs_hash s) (replicate ncap None)))"

definition wantsGrowth :: "resultStore \<Rightarrow> bool \<Rightarrow> bool" where
  "wantsGrowth s create \<longleftrightarrow> length (rs_hash s) = 0 \<or> create \<and> (rs_hlen s + 1) * 10 \<ge> length (rs_hash s) * 7"

text \<open>The entry of a new node in the free cell \<open>j\<close>.\<close>

definition addNode :: "resultStore \<Rightarrow> nat \<Rightarrow> nat \<Rightarrow> nat \<times> resultStore" where
  "addNode s node j =
    (let s1 = (if rs_len s + 1 \<ge> rs_cap s then growIds s else s);
         nid = (rs_len s1 + 1) mod 2 ^ 32
     in (nid, s1\<lparr>rs_nodes := setAt (rs_nodes s1) nid node, rs_len := rs_len s1 + 1,
                rs_hash := (rs_hash s1)[j := Some (node, nid)], rs_hlen := rs_hlen s1 + 1\<rparr>))"

definition nodeIdOf :: "resultStore \<Rightarrow> nat \<Rightarrow> bool \<Rightarrow> (nat \<times> resultStore) option" where
  "nodeIdOf s node create =
    (if node = 0 then Some (0, s)
     else case (if wantsGrowth s create then growHash s else Some s) of
       None \<Rightarrow> None
     | Some s1 \<Rightarrow>
        (case oaProbe fst (rs_hash s1) node (nodeHome node (length (rs_hash s1))) (length (rs_hash s1)) of
           None \<Rightarrow> None
         | Some j \<Rightarrow>
            (case rs_hash s1 ! j of
               Some e \<Rightarrow> Some (snd e, s1)
             | None \<Rightarrow> (if create then Some (addNode s1 node j) else Some (0, s1)))))"

section \<open>Slots\<close>

text \<open>A pointer to a slot is the number of the slot; it stays valid because blocks are never moved.\<close>

definition resultsById :: "resultStore \<Rightarrow> nat \<Rightarrow> nat option" where
  "resultsById s nid = (if nid = 0 \<or> nid > rs_len s then None else Some nid)"

definition resultsOf :: "resultStore \<Rightarrow> nat \<Rightarrow> bool \<Rightarrow> (nat option \<times> resultStore) option" where
  "resultsOf s node create = map_option (\<lambda>(nid, s1). (if nid \<noteq> 0 then Some nid else None, s1)) (nodeIdOf s node create)"

definition resultsCount :: "resultStore \<Rightarrow> nat" where "resultsCount s = rs_len s"

definition resultsEnterOwner :: "nat option \<Rightarrow> resultStore \<Rightarrow> resultStore" where
  "resultsEnterOwner f s = s\<lparr>rs_owner := f\<rparr>"

definition resultsLeaveOwner :: "resultStore \<Rightarrow> resultStore" where
  "resultsLeaveOwner s = s\<lparr>rs_owner := None\<rparr>"

definition updSlot :: "nat \<Rightarrow> (nodeResults \<Rightarrow> nodeResults) \<Rightarrow> resultStore \<Rightarrow> resultStore" where
  "updSlot nid g s = s\<lparr>rs_results := setAt (rs_results s) nid (g (slotAt s nid))\<rparr>"

text \<open>The flag is whether the slot is used as the kind it was first written as; a failed check aborts
  only when debugging is on.\<close>

definition resultsAs :: "resultStore \<Rightarrow> nat \<Rightarrow> bool \<Rightarrow> resultKind \<Rightarrow> int \<Rightarrow> (nat option \<times> bool \<times> resultStore) option" where
  "resultsAs s node create kind line =
    (case resultsOf s node create of
       None \<Rightarrow> None
     | Some (None, s1) \<Rightarrow> Some (None, True, s1)
     | Some (Some nid, s1) \<Rightarrow>
        (let r = slotAt s1 nid in
         if kind = RKIND_NONE then Some (Some nid, True, s1)
         else if nr_kind r = RKIND_NONE
         then Some (Some nid, True, updSlot nid (\<lambda>r. r\<lparr>nr_kind := kind, nr_line := line, nr_owner := rs_owner s1\<rparr>) s1)
         else (let s2 = (if nr_owner r \<noteq> None \<and> rs_owner s1 \<noteq> None \<and> nr_owner r \<noteq> rs_owner s1 \<and> \<not> nr_shared r
                         then (updSlot nid (\<lambda>r. r\<lparr>nr_shared := True\<rparr>) s1)\<lparr>rs_mismatch := rs_mismatch s1 + 1\<rparr> else s1)
               in Some (Some nid, nr_kind r = kind, s2))))"

end
