(* ===== verification/Results_Claims.thy ===== *)
theory Results_Claims
  imports Results
begin

text \<open>The properties of plan/results.c.\<close>

interpretation nodeTab: hash_home fst nodeHome
  by unfold_locales (simp only: nodeHome_def and_pow2_lt)

section \<open>The numbers\<close>

text \<open>The number of a node, and the state in which the numbers are dense.\<close>

definition numberOf :: "resultStore \<Rightarrow> nat \<Rightarrow> nat option" where
  "numberOf s n = map_option snd (tabLookup fst (rs_hash s) n)"

definition blocksOk :: "resultStore \<Rightarrow> bool" where
  "blocksOk s \<longleftrightarrow> length (rs_nodes s) = length (rs_results s) \<and> rs_cap s = length (rs_nodes s) * ID_BLOCK \<and>
     (\<forall>b \<in> set (rs_nodes s). length b = ID_BLOCK) \<and> (\<forall>b \<in> set (rs_results s). length b = ID_BLOCK) \<and>
     (rs_len s < rs_cap s \<or> rs_len s = 0) \<and> (\<forall>k. rs_len s < k \<longrightarrow> k < rs_cap s \<longrightarrow> slotAt s k = clearSlot)"

definition hashOk :: "resultStore \<Rightarrow> bool" where
  "hashOk s \<longleftrightarrow> rs_hlen s = rs_len s \<and> length (entries (rs_hash s)) = rs_len s \<and>
     (rs_hash s \<noteq> [] \<longrightarrow> wfTab fst nodeHome (rs_hash s) \<and> 256 \<le> length (rs_hash s) \<and> 10 * rs_len s < 7 * length (rs_hash s))"

definition storeOk :: "resultStore \<Rightarrow> bool" where
  "storeOk s \<longleftrightarrow> blocksOk s \<and> hashOk s \<and> set (entries (rs_hash s)) = (\<lambda>i. (nodeAt s i, i)) ` {1..rs_len s}"

lemma number_iff:
  assumes "storeOk s"
  shows "numberOf s n = Some i \<longleftrightarrow> 1 \<le> i \<and> i \<le> rs_len s \<and> nodeAt s i = n"
proof (cases "rs_hash s = []")
  case True
  then have "rs_len s = 0" using assms by (auto simp: storeOk_def hashOk_def)
  then show ?thesis using True by (auto simp: numberOf_def tabLookup_def)
next
  case False
  then have d: "distinct (map fst (entries (rs_hash s)))" using assms by (auto simp: storeOk_def hashOk_def wfTab_def)
  have "numberOf s n = Some i \<longleftrightarrow> (n, i) \<in> set (entries (rs_hash s))"
    using tabLookup_Some[OF d] by (auto simp: numberOf_def entries_mem)
  also have "\<dots> \<longleftrightarrow> 1 \<le> i \<and> i \<le> rs_len s \<and> nodeAt s i = n" using assms by (auto simp: storeOk_def)
  finally show ?thesis .
qed

lemma growHash_ok:
  assumes "hashOk s"
  shows "\<exists>t. growHash s = Some (s\<lparr>rs_hash := t\<rparr>) \<and> wfTab fst nodeHome t \<and> 256 \<le> length t \<and>
    10 * (rs_len s + 1) < 7 * length t \<and> mset (entries t) = mset (entries (rs_hash s))"
proof -
  let ?t = "rs_hash s"
  define nc :: nat where "nc = (if length ?t \<noteq> 0 then length ?t * 2 else 256)"
  have p2: "pow2 nc"
  proof (cases "?t = []")
    case True
    have "(256 :: nat) = 2 ^ 8" by simp
    then show ?thesis unfolding nc_def pow2_def using True by (metis list.size(3))
  next
    case False
    then show ?thesis using assms pow2_double by (auto simp: nc_def wfTab_def hashOk_def)
  qed
  have dk: "distinct (map fst (entries ?t))" using assms by (cases "?t = []") (auto simp: wfTab_def hashOk_def)
  have ld: "10 * (rs_len s + 1) < 7 * nc" "256 \<le> nc" using assms by (auto simp: nc_def hashOk_def)
  then have "length (entries ?t) < nc" using assms by (simp add: hashOk_def)
  then obtain t where t: "oaRehash (\<lambda>e. nodeHome (fst e) nc) ?t (replicate nc None) = Some t"
    "wfTab fst nodeHome t" "length t = nc" "mset (entries t) = mset (entries ?t)"
    using nodeTab.rehash_ok[of "replicate nc None" nc ?t] wfTab_empty[OF p2] dk by auto
  have "growHash s = Some (s\<lparr>rs_hash := t\<rparr>)" unfolding growHash_def Let_def nc_def[symmetric] using t(1) by simp
  then show ?thesis using t ld by blast
qed

lemma tabLookup_mset:
  assumes "distinct (map fst (entries t))" "mset (entries t) = mset (entries u)"
  shows "tabLookup fst t n = tabLookup fst u n"
proof -
  have d: "distinct (map fst (entries u))" using assms by (metis mset_eq_imp_distinct_iff mset_map)
  have "set (entries t) = set (entries u)" using assms(2) by (rule mset_eq_setD)
  then have "tabLookup fst t n = Some e \<longleftrightarrow> tabLookup fst u n = Some e" for e
    unfolding tabLookup_Some[OF assms(1)] tabLookup_Some[OF d] by (simp flip: entries_mem)
  then show ?thesis by (metis not_Some_eq)
qed

lemma grown_ok:
  assumes "storeOk s"
  shows "\<exists>s1. (if wantsGrowth s create then growHash s else Some s) = Some s1 \<and> storeOk s1 \<and> rs_hash s1 \<noteq> [] \<and>
    (\<forall>n. numberOf s1 n = numberOf s n) \<and> (\<exists>t. s1 = s\<lparr>rs_hash := t\<rparr>) \<and> (create \<longrightarrow> 10 * (rs_len s + 1) < 7 * length (rs_hash s1))"
proof (cases "wantsGrowth s create")
  case True
  have h: "hashOk s" using assms by (simp add: storeOk_def)
  obtain t where t: "growHash s = Some (s\<lparr>rs_hash := t\<rparr>)" "wfTab fst nodeHome t" "256 \<le> length t"
    "10 * (rs_len s + 1) < 7 * length t" "mset (entries t) = mset (entries (rs_hash s))" using growHash_ok[OF h] by blast
  let ?s = "s\<lparr>rs_hash := t\<rparr>"
  have e: "length (entries t) = length (entries (rs_hash s))" "set (entries t) = set (entries (rs_hash s))"
    using t(5) by (metis size_mset) (rule mset_eq_setD[OF t(5)])
  have "storeOk ?s" using assms t e by (auto simp: storeOk_def hashOk_def blocksOk_def nodeAt_def slotAt_def)
  moreover have "numberOf ?s n = numberOf s n" for n
    using tabLookup_mset[OF _ t(5)] t(2) by (simp add: numberOf_def wfTab_def)
  ultimately show ?thesis using True t by auto
next
  case False
  then show ?thesis using assms by (auto simp: wantsGrowth_def storeOk_def hashOk_def intro!: exI[of _ "rs_hash s"])
qed

section \<open>Blocks\<close>

definition blocks :: "'a list list \<Rightarrow> bool" where
  "blocks bs \<longleftrightarrow> (\<forall>b \<in> set bs. length b = ID_BLOCK)"

abbreviation cell :: "'a list list \<Rightarrow> nat \<Rightarrow> 'a" where
  "cell bs k \<equiv> bs ! (k div ID_BLOCK) ! (k mod ID_BLOCK)"

lemma cell_bounds: "k < length bs * ID_BLOCK \<Longrightarrow> k div ID_BLOCK < length bs \<and> k mod ID_BLOCK < ID_BLOCK"
  by (simp add: ID_BLOCK_def less_mult_imp_div_less)

lemma cell_setAt:
  assumes "blocks bs" "i < length bs * ID_BLOCK"
  shows "cell (setAt bs i x) k = (if k = i then x else cell bs k)"
proof -
  note b = cell_bounds[OF assms(2)]
  have l: "length (bs ! (i div ID_BLOCK)) = ID_BLOCK" using assms(1) b by (simp add: blocks_def)
  show ?thesis
  proof (cases "k div ID_BLOCK = i div ID_BLOCK")
    case True
    then have "k = i \<longleftrightarrow> k mod ID_BLOCK = i mod ID_BLOCK" by (metis div_mult_mod_eq)
    then show ?thesis using True b l by (auto simp: setAt_def)
  qed (use b in \<open>auto simp: setAt_def\<close>)
qed

lemma blocks_setAt:
  assumes "blocks bs"
  shows "blocks (setAt bs i x) \<and> length (setAt bs i x) = length bs"
proof (cases "i div ID_BLOCK < length bs")
  case True
  then show ?thesis using assms set_update_subset_insert[of bs "i div ID_BLOCK"] by (fastforce simp: blocks_def setAt_def)
qed (use assms in \<open>simp add: setAt_def list_update_beyond\<close>)

lemma cell_append: "blocks bs \<Longrightarrow> k < length bs * ID_BLOCK \<Longrightarrow> cell (bs @ cs) k = cell bs k"
  using cell_bounds[of k bs] by (simp add: nth_append)

lemma blocksOk_iff: "blocksOk s \<longleftrightarrow> length (rs_nodes s) = length (rs_results s) \<and> rs_cap s = length (rs_nodes s) * ID_BLOCK \<and>
     blocks (rs_nodes s) \<and> blocks (rs_results s) \<and> (rs_len s < rs_cap s \<or> rs_len s = 0) \<and>
     (\<forall>k. rs_len s < k \<longrightarrow> k < rs_cap s \<longrightarrow> slotAt s k = clearSlot)"
  by (simp add: blocksOk_def blocks_def)

lemma growIds_ok:
  assumes "blocksOk s"
  shows "blocksOk (growIds s)" "rs_cap (growIds s) = rs_cap s + ID_BLOCK"
    "k \<le> rs_len s \<Longrightarrow> 1 \<le> k \<Longrightarrow> nodeAt (growIds s) k = nodeAt s k \<and> slotAt (growIds s) k = slotAt s k"
    "rs_hash (growIds s) = rs_hash s" "rs_len (growIds s) = rs_len s" "rs_hlen (growIds s) = rs_hlen s"
    "rs_owner (growIds s) = rs_owner s" "rs_mismatch (growIds s) = rs_mismatch s"
proof -
  have n: "(if rs_cap s \<noteq> 0 then rs_cap s div ID_BLOCK else 0) = length (rs_nodes s)"
    using assms by (simp add: blocksOk_iff ID_BLOCK_def)
  have l: "length (rs_results s) = length (rs_nodes s)" using assms by (simp add: blocksOk_iff)
  have g: "growIds s = s\<lparr>rs_nodes := rs_nodes s @ [replicate ID_BLOCK 0], rs_results := rs_results s @ [replicate ID_BLOCK clearSlot],
      rs_cap := (length (rs_nodes s) + 1) * ID_BLOCK\<rparr>"
    unfolding growIds_def n Let_def using l by simp
  have c: "slotAt (growIds s) k = clearSlot" if "rs_len s < k" "k < rs_cap s + ID_BLOCK" for k
  proof (cases "k < rs_cap s")
    case True
    then show ?thesis using assms that cell_append[of "rs_results s" k] by (simp add: g blocksOk_iff slotAt_def)
  next
    case False
    then have "k div ID_BLOCK = length (rs_results s)" "k mod ID_BLOCK < ID_BLOCK"
      using that assms by (auto simp: blocksOk_iff ID_BLOCK_def)
    then show ?thesis by (simp add: g slotAt_def)
  qed
  show "blocksOk (growIds s)" "rs_cap (growIds s) = rs_cap s + ID_BLOCK" "rs_hash (growIds s) = rs_hash s"
    "rs_len (growIds s) = rs_len s" "rs_hlen (growIds s) = rs_hlen s" "rs_owner (growIds s) = rs_owner s" "rs_mismatch (growIds s) = rs_mismatch s"
    using assms c by (auto simp: g blocksOk_iff blocks_def ID_BLOCK_def)
  show "nodeAt (growIds s) k = nodeAt s k \<and> slotAt (growIds s) k = slotAt s k" if "k \<le> rs_len s" "1 \<le> k"
    using assms that cell_append[of "rs_nodes s" k] cell_append[of "rs_results s" k]
    by (auto simp: g blocksOk_iff nodeAt_def slotAt_def)
qed

text \<open>A slot that has been handed out keeps its place and its contents.\<close>

definition slotsKept :: "resultStore \<Rightarrow> resultStore \<Rightarrow> bool" where
  "slotsKept s s1 \<longleftrightarrow> rs_len s \<le> rs_len s1 \<and> (\<forall>k. 1 \<le> k \<longrightarrow> k \<le> rs_len s \<longrightarrow> nodeAt s1 k = nodeAt s k \<and> slotAt s1 k = slotAt s k)"

lemma addNode_ok:
  assumes ok: "storeOk s" and ne: "rs_hash s \<noteq> []" and room: "10 * (rs_len s + 1) < 7 * length (rs_hash s)"
    and few: "rs_len s + 1 < 2 ^ 32" and new: "numberOf s node = None"
    and j: "oaProbe fst (rs_hash s) node (nodeHome node (length (rs_hash s))) (length (rs_hash s)) = Some j"
  shows "case addNode s node j of (nid, s1) \<Rightarrow> nid = rs_len s + 1 \<and> storeOk s1 \<and> slotsKept s s1 \<and> rs_len s1 = rs_len s + 1 \<and>
     rs_owner s1 = rs_owner s \<and> rs_mismatch s1 = rs_mismatch s \<and> nodeAt s1 (rs_len s + 1) = node \<and>
     slotAt s1 (rs_len s + 1) = clearSlot"
proof -
  define s1 where "s1 = (if rs_len s + 1 \<ge> rs_cap s then growIds s else s)"
  let ?i = "rs_len s + 1" and ?t = "(rs_hash s)[j := Some (node, rs_len s + 1)]"
  have b: "blocksOk s" using ok by (simp add: storeOk_def)
  have s1: "blocksOk s1" "?i < rs_cap s1" "rs_hash s1 = rs_hash s" "rs_len s1 = rs_len s" "rs_hlen s1 = rs_hlen s"
    "rs_owner s1 = rs_owner s" "rs_mismatch s1 = rs_mismatch s"
    using b growIds_ok[OF b] by (auto simp: s1_def blocksOk_iff ID_BLOCK_def)
  have k1: "nodeAt s1 k = nodeAt s k \<and> slotAt s1 k = slotAt s k" if "1 \<le> k" "k \<le> rs_len s" for k
    using growIds_ok(3)[OF b that(2,1)] by (simp add: s1_def)
  let ?s = "s1\<lparr>rs_nodes := setAt (rs_nodes s1) ?i node, rs_len := ?i, rs_hash := ?t, rs_hlen := rs_hlen s + 1\<rparr>"
  have m: "?i mod 2 ^ 32 = ?i" using few by (rule mod_less)
  have a: "addNode s node j = (?i, ?s)"
    unfolding addNode_def s1_def[symmetric] Let_def s1(3-5) m by (rule HOL.refl)
  have cells: "cell (setAt (rs_nodes s1) ?i node) k = (if k = ?i then node else cell (rs_nodes s1) k)" for k
    using s1 by (intro cell_setAt) (auto simp: blocksOk_iff)
  have wf: "wfTab fst nodeHome (rs_hash s)" using ok ne by (simp add: storeOk_def hashOk_def)
  have n: "tabLookup fst (rs_hash s) (fst (node, ?i)) = None" using new by (simp add: numberOf_def)
  have p: "oaProbe fst (rs_hash s) (fst (node, ?i)) (nodeHome (fst (node, ?i)) (length (rs_hash s))) (length (rs_hash s)) = Some j"
    using j by simp
  note ins = nodeTab.insert_new[OF wf n p]
  have e: "length (entries ?t) = rs_len s + 1" "set (entries ?t) = insert (node, ?i) (set (entries (rs_hash s)))"
    using ins(2) ok by (metis size_add_mset size_mset storeOk_def hashOk_def Suc_eq_plus1)
      (metis ins(2) set_mset_add_mset_insert set_mset_mset)
  have "blocksOk ?s" using s1 blocks_setAt[of "rs_nodes s1" ?i node] by (simp add: blocksOk_iff slotAt_def)
  moreover have "hashOk ?s" using ok ins(1) e(1) room ne by (auto simp: hashOk_def storeOk_def)
  moreover have "set (entries ?t) = (\<lambda>i. (nodeAt ?s i, i)) ` {1..?i}"
  proof -
    have "{1..?i} = insert ?i {1..rs_len s}" by auto
    moreover have "(\<lambda>i. (nodeAt ?s i, i)) ` {1..rs_len s} = (\<lambda>i. (nodeAt s i, i)) ` {1..rs_len s}"
      using k1 cells by (intro image_cong) (auto simp: nodeAt_def)
    moreover have "nodeAt ?s ?i = node" using cells by (simp add: nodeAt_def)
    ultimately show ?thesis using e(2) ok by (simp add: storeOk_def)
  qed
  ultimately have "storeOk ?s" by (simp add: storeOk_def)
  moreover have "slotsKept s ?s" using k1 cells by (auto simp: slotsKept_def nodeAt_def slotAt_def)
  moreover have "nodeAt ?s ?i = node" using cells by (simp add: nodeAt_def)
  moreover have "slotAt ?s ?i = clearSlot" using s1 by (simp add: blocksOk_iff slotAt_def)
  ultimately show ?thesis using s1 by (simp add: a)
qed

lemma number_added:
  assumes "storeOk s" "storeOk s1" "slotsKept s s1" "rs_len s1 = rs_len s + 1" "nodeAt s1 (rs_len s + 1) = node"
    "numberOf s node = None"
  shows "numberOf s1 n = (if n = node then Some (rs_len s + 1) else numberOf s n)"
proof -
  have "numberOf s1 n = Some k \<longleftrightarrow> k = rs_len s + 1 \<and> n = node \<or> numberOf s n = Some k" for k
    using assms(3-5) unfolding number_iff[OF assms(1)] number_iff[OF assms(2)] by (auto simp: slotsKept_def le_Suc_eq)
  then have "numberOf s1 n = Some k \<longleftrightarrow> (if n = node then Some (rs_len s + 1) else numberOf s n) = Some k" for k
    using assms(6) by auto
  then show ?thesis by (metis not_Some_eq)
qed

lemma nodeIdOf_ok:
  assumes ok: "storeOk s" and node: "node \<noteq> 0" and few: "rs_len s + 1 < 2 ^ 32"
  shows "\<exists>s1. nodeIdOf s node create = Some (case numberOf s1 node of Some k \<Rightarrow> k | None \<Rightarrow> 0, s1) \<and> storeOk s1 \<and> slotsKept s s1 \<and>
     rs_owner s1 = rs_owner s \<and> rs_mismatch s1 = rs_mismatch s \<and>
     rs_len s1 = rs_len s + (if create \<and> numberOf s node = None then 1 else 0) \<and>
     (create \<longrightarrow> numberOf s node = None \<longrightarrow> slotAt s1 (rs_len s + 1) = clearSlot) \<and>
     (\<forall>n. numberOf s1 n = (if create \<and> numberOf s node = None \<and> n = node then Some (rs_len s + 1) else numberOf s n))"
proof -
  obtain g where g: "(if wantsGrowth s create then growHash s else Some s) = Some g" "storeOk g" "rs_hash g \<noteq> []"
    "\<And>n. numberOf g n = numberOf s n" "\<exists>t. g = s\<lparr>rs_hash := t\<rparr>" "create \<Longrightarrow> 10 * (rs_len s + 1) < 7 * length (rs_hash g)"
    using grown_ok[OF ok, of create] by blast
  have same: "rs_len g = rs_len s" "rs_owner g = rs_owner s" "rs_mismatch g = rs_mismatch s" "slotsKept s g"
    using g(5) by (auto simp: slotsKept_def nodeAt_def slotAt_def)
  have wf: "wfTab fst nodeHome (rs_hash g)" and room: "length (entries (rs_hash g)) < length (rs_hash g)"
    using g(2,3) by (auto simp: storeOk_def hashOk_def)
  then obtain j where j: "oaProbe fst (rs_hash g) node (nodeHome node (length (rs_hash g))) (length (rs_hash g)) = Some j"
    using nodeTab.find_total by (auto simp: wfTab_def)
  have f: "rs_hash g ! j = tabLookup fst (rs_hash g) node" using nodeTab.find_sound[OF wf j] by blast
  have I: "nodeIdOf s node create = (case rs_hash g ! j of Some e \<Rightarrow> Some (snd e, g)
      | None \<Rightarrow> (if create then Some (addNode g node j) else Some (0, g)))"
    using node g(1) j by (simp add: nodeIdOf_def)
  show ?thesis
  proof (cases "create \<and> numberOf s node = None")
    case False
    have "nodeIdOf s node create = Some (case numberOf g node of Some k \<Rightarrow> k | None \<Rightarrow> 0, g)"
      using False unfolding I f g(4)[symmetric] by (cases "tabLookup fst (rs_hash g) node") (auto simp: numberOf_def)
    then show ?thesis using False g(2,4) same by auto
  next
    case True
    then have n: "numberOf g node = None" using g(4) by simp
    obtain nid s1 where a: "addNode g node j = (nid, s1)" by fastforce
    note A = addNode_ok[OF g(2,3) _ _ n j, unfolded a same(1), simplified]
    have A: "nid = rs_len s + 1 \<and> storeOk s1 \<and> slotsKept g s1 \<and> rs_len s1 = rs_len s + 1 \<and>
        rs_owner s1 = rs_owner g \<and> rs_mismatch s1 = rs_mismatch g \<and> nodeAt s1 (rs_len s + 1) = node \<and>
        slotAt s1 (rs_len s + 1) = clearSlot"
      using A g(6) True few by simp
    have N: "numberOf s1 m = (if m = node then Some (rs_len s + 1) else numberOf s m)" for m
      using number_added[OF g(2), of s1 node m] A n same(1) g(4) by auto
    have k: "slotsKept s s1" using A g(5) by (auto simp: slotsKept_def nodeAt_def slotAt_def)
    have "rs_hash g ! j = None" using n f by (simp add: numberOf_def)
    then have "nodeIdOf s node create = Some (case numberOf s1 node of Some k \<Rightarrow> k | None \<Rightarrow> 0, s1)"
      using True a A N[of node] unfolding I by simp
    then show ?thesis using True A N k same by auto
  qed
qed

text \<open>C32: the store implements a map from nodes to dense numbers. Asking for the number of a node always
  ends; it answers the node's number, or 0; when it creates, a new node gets the next number and no other
  node's number changes. The numbers in use are exactly 1 up to the count, each of one node, and the
  slots handed out before stay where they are with their contents.\<close>

theorem node_numbers:
  assumes "storeOk s" "node \<noteq> 0" "rs_len s + 1 < 2 ^ 32"
  shows "\<exists>i s1. nodeIdOf s node create = Some (i, s1) \<and> storeOk s1 \<and> slotsKept s s1 \<and>
     i = (case numberOf s1 node of Some k \<Rightarrow> k | None \<Rightarrow> 0) \<and>
     numberOf s1 = (if create \<and> numberOf s node = None then (numberOf s)(node \<mapsto> rs_len s + 1) else numberOf s) \<and>
     ran (numberOf s1) = {1..rs_len s1} \<and> inj_on (numberOf s1) (dom (numberOf s1))"
proof -
  obtain s1 where s: "nodeIdOf s node create = Some (case numberOf s1 node of Some k \<Rightarrow> k | None \<Rightarrow> 0, s1)" "storeOk s1" "slotsKept s s1"
    "\<And>n. numberOf s1 n = (if create \<and> numberOf s node = None \<and> n = node then Some (rs_len s + 1) else numberOf s n)"
    using nodeIdOf_ok[OF assms] by blast
  have "numberOf s1 = (if create \<and> numberOf s node = None then (numberOf s)(node \<mapsto> rs_len s + 1) else numberOf s)"
    by (rule HOL.ext) (simp add: s(4))
  moreover have "ran (numberOf s1) = {1..rs_len s1}" by (auto simp: ran_def number_iff[OF s(2)])
  moreover have "inj_on (numberOf s1) (dom (numberOf s1))" by (rule inj_onI) (auto simp: number_iff[OF s(2)])
  ultimately show ?thesis using s(1-3) by blast
qed

lemma empty_ok: "storeOk emptyStore"
  by (simp add: storeOk_def blocksOk_def hashOk_def emptyStore_def)

theorem node_numbers_witness:
  "\<exists>i s1. nodeIdOf emptyStore 4096 True = Some (i, s1) \<and> storeOk s1 \<and> ran (numberOf s1) = {1..rs_len s1}"
  using node_numbers[OF empty_ok, of 4096 True] by (auto simp: emptyStore_def)

section \<open>Owners\<close>

lemma updSlot_ok:
  assumes "storeOk s" "1 \<le> i" "i \<le> rs_len s"
  shows "storeOk (updSlot i g s)" "slotAt (updSlot i g s) k = (if k = i then g (slotAt s i) else slotAt s k)"
    "numberOf (updSlot i g s) = numberOf s"
proof -
  have b: "blocks (rs_results s)" "i < length (rs_results s) * ID_BLOCK" "length (rs_results s) = length (rs_nodes s)"
    using assms by (auto simp: storeOk_def blocksOk_iff)
  show s: "slotAt (updSlot i g s) k = (if k = i then g (slotAt s i) else slotAt s k)" for k
    using cell_setAt[OF b(1,2)] by (simp add: updSlot_def slotAt_def)
  show "storeOk (updSlot i g s)"
    using assms s blocks_setAt[OF b(1)] by (auto simp: storeOk_def blocksOk_iff hashOk_def updSlot_def nodeAt_def)
  show "numberOf (updSlot i g s) = numberOf s" by (rule HOL.ext) (simp add: numberOf_def updSlot_def)
qed

lemma storeOk_more [simp]:
  "storeOk (s\<lparr>rs_owner := f\<rparr>) = storeOk s" "storeOk (s\<lparr>rs_mismatch := n\<rparr>) = storeOk s"
  "slotAt (s\<lparr>rs_owner := f\<rparr>) = slotAt s" "slotAt (s\<lparr>rs_mismatch := n\<rparr>) = slotAt s"
  "numberOf (s\<lparr>rs_owner := f\<rparr>) = numberOf s" "numberOf (s\<lparr>rs_mismatch := n\<rparr>) = numberOf s"
  by (simp_all add: storeOk_def blocksOk_def hashOk_def nodeAt_def slotAt_def numberOf_def fun_eq_iff)

text \<open>The first access to a node stamps its slot.\<close>

lemma first_access:
  assumes "storeOk s" "node \<noteq> 0" "rs_len s + 1 < 2 ^ 32" "numberOf s node = None" "kind \<noteq> RKIND_NONE"
  shows "\<exists>i s1. resultsAs s node True kind line = Some (Some i, True, s1) \<and> storeOk s1 \<and> numberOf s1 node = Some i \<and>
    rs_len s1 = rs_len s + 1 \<and> rs_mismatch s1 = rs_mismatch s \<and>
    slotAt s1 i = clearSlot\<lparr>nr_kind := kind, nr_line := line, nr_owner := rs_owner s\<rparr>"
proof -
  obtain s1 where s: "nodeIdOf s node True = Some (case numberOf s1 node of Some k \<Rightarrow> k | None \<Rightarrow> 0, s1)" "storeOk s1"
    "rs_owner s1 = rs_owner s" "rs_mismatch s1 = rs_mismatch s" "rs_len s1 = rs_len s + 1" "numberOf s1 node = Some (rs_len s + 1)"
    "slotAt s1 (rs_len s + 1) = clearSlot"
    using nodeIdOf_ok[OF assms(1-3), of True] assms(4) by auto
  let ?i = "rs_len s + 1"
  show ?thesis using s assms(5) updSlot_ok[of s1 ?i "\<lambda>r. r\<lparr>nr_kind := kind, nr_line := line, nr_owner := rs_owner s\<rparr>"]
    by (simp add: resultsAs_def resultsOf_def Let_def clearSlot_def) (simp add: updSlot_def)
qed

text \<open>Every later access finds the slot; the first one from another owner marks it and is counted.\<close>

definition crosses :: "nodeResults \<Rightarrow> nat option \<Rightarrow> bool" where
  "crosses r f \<longleftrightarrow> nr_owner r \<noteq> None \<and> f \<noteq> None \<and> nr_owner r \<noteq> f \<and> \<not> nr_shared r"

lemma later_access:
  assumes "storeOk s" "node \<noteq> 0" "rs_len s + 1 < 2 ^ 32" "numberOf s node = Some i" "kind \<noteq> RKIND_NONE" "nr_kind (slotAt s i) \<noteq> RKIND_NONE"
  shows "\<exists>s1. resultsAs s node create kind line = Some (Some i, nr_kind (slotAt s i) = kind, s1) \<and> storeOk s1 \<and> numberOf s1 node = Some i \<and>
    rs_len s1 = rs_len s \<and> rs_mismatch s1 = rs_mismatch s + (if crosses (slotAt s i) (rs_owner s) then 1 else 0) \<and>
    slotAt s1 i = (slotAt s i)\<lparr>nr_shared := nr_shared (slotAt s i) \<or> crosses (slotAt s i) (rs_owner s)\<rparr>"
proof -
  obtain s1 where s: "nodeIdOf s node create = Some (case numberOf s1 node of Some k \<Rightarrow> k | None \<Rightarrow> 0, s1)" "storeOk s1" "slotsKept s s1"
    "rs_owner s1 = rs_owner s" "rs_mismatch s1 = rs_mismatch s" "rs_len s1 = rs_len s" "numberOf s1 node = Some i"
    using nodeIdOf_ok[OF assms(1-3), of create] assms(4) by auto
  have i: "1 \<le> i" "i \<le> rs_len s" using assms(1,4) number_iff by auto
  then have k: "slotAt s1 i = slotAt s i" using s(3) by (simp add: slotsKept_def)
  show ?thesis
    using s(1,2,4-7) i k assms(5,6) updSlot_ok[OF s(2), of i "\<lambda>r. r\<lparr>nr_shared := True\<rparr>"]
    by (simp add: resultsAs_def resultsOf_def Let_def crosses_def) (auto simp: updSlot_def)
qed

text \<open>C33: a slot belongs to its first writer, and a crossing is counted once. The first access to a new node
  stamps its slot with the kind and with the function being checked; later accesses from other
  functions find the same slot, tell whether the kind agrees, leave kind and owner alone, and all
  together count one crossing when any of them came from another function.\<close>

theorem owner_crossing:
  assumes "storeOk s" "node \<noteq> 0" "rs_len s + 2 < 2 ^ 32" "numberOf s node = None" "rs_owner s = Some f"
    "k1 \<noteq> RKIND_NONE" "k2 \<noteq> RKIND_NONE" "k3 \<noteq> RKIND_NONE"
  shows "\<exists>i s1 s2 s3. resultsAs s node True k1 l1 = Some (Some i, True, s1) \<and>
    resultsAs (resultsEnterOwner (Some g) s1) node c2 k2 l2 = Some (Some i, k1 = k2, s2) \<and>
    resultsAs (resultsEnterOwner (Some h) s2) node c3 k3 l3 = Some (Some i, k1 = k3, s3) \<and>
    rs_mismatch s3 = rs_mismatch s + (if f = g \<and> f = h then 0 else 1) \<and>
    nr_kind (slotAt s3 i) = k1 \<and> nr_line (slotAt s3 i) = l1 \<and> nr_owner (slotAt s3 i) = Some f \<and> storeOk s3"
proof -
  obtain i s1 where 1: "resultsAs s node True k1 l1 = Some (Some i, True, s1)" "storeOk s1" "numberOf s1 node = Some i"
    "rs_len s1 = rs_len s + 1" "rs_mismatch s1 = rs_mismatch s"
    "slotAt s1 i = clearSlot\<lparr>nr_kind := k1, nr_line := l1, nr_owner := Some f\<rparr>"
    using first_access[OF assms(1,2) _ assms(4,6), of l1] assms(3,5) by auto
  let ?a = "resultsEnterOwner (Some g) s1"
  obtain s2 where 2: "resultsAs ?a node c2 k2 l2 = Some (Some i, k1 = k2, s2)" "storeOk s2" "numberOf s2 node = Some i"
    "rs_len s2 = rs_len s + 1" "rs_mismatch s2 = rs_mismatch s + (if f = g then 0 else 1)"
    "slotAt s2 i = clearSlot\<lparr>nr_kind := k1, nr_line := l1, nr_owner := Some f, nr_shared := f \<noteq> g\<rparr>"
    using later_access[of ?a node i k2 c2 l2] 1 assms(2,3,6,7)
    by (auto simp: resultsEnterOwner_def crosses_def clearSlot_def split: if_splits)
  let ?b = "resultsEnterOwner (Some h) s2"
  obtain s3 where "resultsAs ?b node c3 k3 l3 = Some (Some i, k1 = k3, s3)" "storeOk s3"
    "rs_mismatch s3 = rs_mismatch s + (if f = g \<and> f = h then 0 else 1)"
    "slotAt s3 i = clearSlot\<lparr>nr_kind := k1, nr_line := l1, nr_owner := Some f, nr_shared := f \<noteq> g \<or> f \<noteq> h\<rparr>"
    using later_access[of ?b node i k3 c3 l3] 2 assms(2,3,6,8)
    by (auto simp: resultsEnterOwner_def crosses_def clearSlot_def split: if_splits)
  then show ?thesis using 1(1) 2(1) by (auto simp: clearSlot_def)
qed

theorem owner_crossing_witness:
  "\<exists>i s1 s2 s3. resultsAs (resultsEnterOwner (Some 1) emptyStore) 4096 True RKIND_EXPR 7 = Some (Some i, True, s1) \<and>
    resultsAs (resultsEnterOwner (Some 2) s1) 4096 False RKIND_STMT 8 = Some (Some i, False, s2) \<and>
    resultsAs (resultsEnterOwner (Some 3) s2) 4096 False RKIND_EXPR 9 = Some (Some i, True, s3) \<and> rs_mismatch s3 = 1"
proof -
  let ?s = "resultsEnterOwner (Some 1) emptyStore"
  have "storeOk ?s" "numberOf ?s 4096 = None" "rs_owner ?s = Some 1" "rs_len ?s + 2 < 2 ^ 32" "rs_mismatch ?s = 0"
    using empty_ok by (simp_all add: resultsEnterOwner_def) (simp_all add: numberOf_def emptyStore_def tabLookup_def)
  then show ?thesis
    using owner_crossing[of ?s 4096 1 RKIND_EXPR RKIND_STMT RKIND_EXPR 7 2 False 8 3 False 9] by auto
qed

section \<open>Flags\<close>

text \<open>A flag that is set reads as set and the others as before, for all 128 flags of the two words.\<close>

theorem flag_roundtrip:
  assumes "a < 128" "b < 128"
  shows "resultsBit (resultsSetBit r a) b \<longleftrightarrow> b = a \<or> resultsBit r b"
proof -
  have r: "resultsBit r b \<longleftrightarrow> (if b < 64 then bit (nr_loMask r) b else bit (nr_hiMask r) (b - 64))" for r b
    by (simp add: resultsBit_def and_one_eq odd_iff_mod_2_eq_one[symmetric] bit_iff_odd_drop_bit)
  show ?thesis using assms unfolding r
    by (auto simp: resultsSetBit_def bit_or_iff bit_exp_iff)
qed

theorem flag_roundtrip_witness: "resultsBit (resultsSetBit (resultsSetBit clearSlot 3) 64) 3 \<and> \<not> resultsBit (resultsSetBit clearSlot 3) 64"
proof -
  have "\<not> resultsBit clearSlot 64" "\<not> resultsBit clearSlot 3" by (simp_all add: resultsBit_def clearSlot_def)
  then show ?thesis using flag_roundtrip[of 64 3] flag_roundtrip[of 3 64 clearSlot] flag_roundtrip[of 3 3 clearSlot] by simp
qed

end
