(* ===== verification/Parser.thy ===== *)
theory Parser
  imports Lexer Ast
begin

text \<open>The parser of front/parser.c for types, expressions and statements: the cursor over the tokens, one
  definition per function, and the recursion bounded by the code's own depth counters and by fuel. The
  first error is the result (the code returns NULL up to the top once it has reported one). Nodes are
  numbered in the order they are made; what the code stores in a node and the tree does not hold (the
  fields of \<open>Expr\<close> and \<open>Stmt\<close> that only later passes read) is kept by number in \<open>ps_marks\<close>.\<close>

section \<open>State and errors\<close>

datatype parseErr =
    NestingTooDeep token string
  | ExpectedTok string token
  | ExpectedIdentFor string token
  | TypeNameUpper token
  | TraitNameLower token
  | MutCannotQualify token
  | ArrayLenLiteral token
  | ArrayLenPositive int
  | ExpectedType token
  | FnTypeNeedsReturn token
  | ExpectedExpr token
  | DynNeedsCall token
  | CaptureEntry token
  | FnConvNeedsReturn token
  | FStringPlace token
  | FStringText string nat nat
  | TypeNotValue token
  | LiteralInCond token
  | MatchVariant token
  | UnknownAnnotation token
  | OverwritePlace token
  | YieldNeedsValue token
  | TrapMessage token
  | NestedDeclaration token
  | NeedsTypeOrInit token
  | ForNeedsName token
  | ForContainer
  | ScanError diag
  | ImportList token
  | ImportListAs token
  | EffectsInt token
  | EffectRange token
  | EffectUnknown token
  | EffectsWithBody string
  | EffectsOnField token
  | ThreadOnField token
  | OwnedNotImplemented token
  | ExternLib token
  | ExternNeedsFn token
  | AnnotTwice string token
  | AnnotPlace string token
  | AnnotNotImplemented token
  | AnnotUnknown token
  | AnnotNeedsFn token
  | AnnotEntry string string
  | ModuleString token
  | FuncName token
  | SubscriptName token
  | ParamNameLower token
  | TraitName token
  | TraitBody token
  | ImplAnnot token
  | ImplBody token
  | NameAfterPath token
  | TopLevel token

text \<open>Facts about a node besides the tree: the trait of a \<open>dyn\<close> call, the scalar type of a conversion
  written by name, the call mark and the module prefix of a qualified name, parameters, captures and
  return type of a lambda, the marks of declarations, the target of a yield, the step of a loop.\<close>

datatype nodeMark =
    MDyn string
  | MConvName string
  | MAssocCall bool
  | MModPrefix "string option"
  | MLambda "(string \<times> ty) list" "string list" "ty option"
  | MOverwrite
  | MGlobal
  | MYieldTo string "ty option"
  | MForStep nat
  | MForDesugar

text \<open>The tokens from the cursor on; the last one is never consumed.\<close>

record pst =
  ps_toks :: "token list"
  ps_inCond :: bool
  ps_depth :: nat
  ps_typeDepth :: nat
  ps_sawGlobal :: bool
  ps_noBody :: bool
  ps_sawBuiltin :: bool
  ps_next :: nat
  ps_marks :: "(nat \<times> nodeMark) list"

text \<open>A run that ends without fuel is \<open>Stuck\<close>.\<close>

datatype 'a pres = Parsed 'a pst | Failed parseErr | Stuck

fun pBind :: "'a pres \<Rightarrow> ('a \<Rightarrow> pst \<Rightarrow> 'b pres) \<Rightarrow> 'b pres" where
  "pBind (Parsed x s) k = k x s"
| "pBind (Failed e) k = Failed e"
| "pBind Stuck k = Stuck"

section \<open>Tokens\<close>

definition pk :: "pst \<Rightarrow> nat \<Rightarrow> token" where
  "pk s k = (if k < length (ps_toks s) then ps_toks s ! k else List.last (ps_toks s))"

definition cur :: "pst \<Rightarrow> token" where "cur s = pk s 0"

abbreviation textAt :: "pst \<Rightarrow> nat \<Rightarrow> string" where "textAt s k \<equiv> t_text (pk s k)"

definition at :: "pst \<Rightarrow> string \<Rightarrow> bool" where
  "at s v \<longleftrightarrow> \<not> (t_kind (cur s) = TK_STRING \<and> lexIsPunct (Some v)) \<and> t_text (cur s) = v"

definition atKind :: "pst \<Rightarrow> tokenKind \<Rightarrow> bool" where "atKind s k \<longleftrightarrow> t_kind (cur s) = k"

definition takeTok :: "pst \<Rightarrow> pst" where
  "takeTok s = (if length (ps_toks s) > 1 then s\<lparr>ps_toks := tl (ps_toks s)\<rparr> else s)"

definition expect :: "string \<Rightarrow> pst \<Rightarrow> unit pres" where
  "expect v s = (if at s v then Parsed () (takeTok s) else Failed (ExpectedTok v (cur s)))"

definition expectIdent :: "string \<Rightarrow> pst \<Rightarrow> token pres" where
  "expectIdent what s = (if atKind s TK_IDENT then Parsed (cur s) (takeTok s) else Failed (ExpectedIdentFor what (cur s)))"

fun dropWhileToks :: "(token \<Rightarrow> bool) \<Rightarrow> token list \<Rightarrow> token list" where
  "dropWhileToks p (t # u # ts) = (if p t then dropWhileToks p (u # ts) else t # u # ts)"
| "dropWhileToks p ts = ts"

text \<open>The last token is \<open>TK_EOF\<close>, where both loops stop.\<close>

definition skipNl :: "pst \<Rightarrow> pst" where
  "skipNl s = s\<lparr>ps_toks := dropWhileToks (\<lambda>t. t_kind t = TK_NEWLINE) (ps_toks s)\<rparr>"

definition skipJunk :: "pst \<Rightarrow> pst" where
  "skipJunk s = s\<lparr>ps_toks := dropWhileToks (\<lambda>t. t_kind t = TK_NEWLINE \<or> t_kind t \<noteq> TK_STRING \<and> t_text t = '';'') (ps_toks s)\<rparr>"

definition PARSE_DEPTH_LIMIT :: nat where "PARSE_DEPTH_LIMIT = 64"
definition PARSE_TYPE_DEPTH_LIMIT :: nat where "PARSE_TYPE_DEPTH_LIMIT = 96"

text \<open>The three wrappers that count a level around an inner parser.\<close>

definition deeper :: "string \<Rightarrow> (pst \<Rightarrow> 'a pres) \<Rightarrow> pst \<Rightarrow> 'a pres" where
  "deeper what inner s = (if ps_depth s + 1 > PARSE_DEPTH_LIMIT then Failed (NestingTooDeep (cur s) what)
     else pBind (inner (s\<lparr>ps_depth := ps_depth s + 1\<rparr>)) (\<lambda>x s1. Parsed x (s1\<lparr>ps_depth := ps_depth s1 - 1\<rparr>)))"

definition typeDeeper :: "(pst \<Rightarrow> 'a pres) \<Rightarrow> pst \<Rightarrow> 'a pres" where
  "typeDeeper inner s = (if ps_typeDepth s + 1 > PARSE_TYPE_DEPTH_LIMIT then Failed (NestingTooDeep (cur s) ''a type'')
     else pBind (inner (s\<lparr>ps_typeDepth := ps_typeDepth s + 1\<rparr>)) (\<lambda>x s1. Parsed x (s1\<lparr>ps_typeDepth := ps_typeDepth s1 - 1\<rparr>)))"

section \<open>Nodes\<close>

definition mkNodeAt :: "(nat \<Rightarrow> 'a) \<Rightarrow> pst \<Rightarrow> 'a pres" where
  "mkNodeAt f s = Parsed (f (ps_next s)) (s\<lparr>ps_next := ps_next s + 1\<rparr>)"

definition mkExpr :: "ekind \<Rightarrow> pst \<Rightarrow> expr pres" where
  "mkExpr k = mkNodeAt (\<lambda>p. Expr p None k)"

definition mkStmt :: "skind \<Rightarrow> pst \<Rightarrow> stmt pres" where
  "mkStmt k = mkNodeAt (\<lambda>p. Stmt p k)"

definition markNode :: "nat \<Rightarrow> nodeMark \<Rightarrow> pst \<Rightarrow> pst" where
  "markNode p m s = s\<lparr>ps_marks := (p, m) # ps_marks s\<rparr>"

definition mkBin :: "string \<Rightarrow> expr \<Rightarrow> expr \<Rightarrow> pst \<Rightarrow> expr pres" where
  "mkBin opr l r = mkExpr (EX_BIN opr l r)"

section \<open>Types\<close>

definition startsUpper :: "string \<Rightarrow> bool" where
  "startsUpper s \<longleftrightarrow> (case s of [] \<Rightarrow> False | c # _ \<Rightarrow> 65 \<le> ordc c \<and> ordc c \<le> 90)"

definition expectTypeName :: "string \<Rightarrow> pst \<Rightarrow> token pres" where
  "expectTypeName what s = pBind (expectIdent what s) (\<lambda>t s1. if startsUpper (t_text t) then Failed (TypeNameUpper t) else Parsed t s1)"

text \<open>The segments \<open>::name\<close> of a type name, appended to what has been read.\<close>

fun typePath :: "nat \<Rightarrow> string \<Rightarrow> pst \<Rightarrow> string pres" where
  "typePath 0 nm s = Stuck"
| "typePath (Suc n) nm s = (if at s ''::'' then
       pBind (expectTypeName ''a type name'' (takeTok s)) (\<lambda>seg s1. typePath n (nm @ ''::'' @ t_text seg) s1)
     else Parsed nm s)"

text \<open>Types separated by commas; after a comma line ends are skipped.\<close>

fun typeList :: "nat \<Rightarrow> (pst \<Rightarrow> ty pres) \<Rightarrow> pst \<Rightarrow> ty list pres" where
  "typeList 0 ty s = Stuck"
| "typeList (Suc n) ty s = pBind (ty s) (\<lambda>a s1.
     if at s1 '','' then pBind (typeList n ty (skipNl (takeTok s1))) (\<lambda>as s2. Parsed (a # as) s2)
     else Parsed [a] s1)"

text \<open>The parameters of a function type: a comma may stand before the parenthesis.\<close>

fun paramTypes :: "nat \<Rightarrow> (pst \<Rightarrow> ty pres) \<Rightarrow> pst \<Rightarrow> ty list pres" where
  "paramTypes 0 ty s = Stuck"
| "paramTypes (Suc n) ty s = (if at s '')'' then Parsed [] s else pBind (ty s) (\<lambda>a s1.
     if at s1 '','' then pBind (paramTypes n ty (skipNl (takeTok s1))) (\<lambda>as s2. Parsed (a # as) s2)
     else Parsed [a] s1))"

definition parseFnType :: "nat \<Rightarrow> (pst \<Rightarrow> ty pres) \<Rightarrow> pst \<Rightarrow> ty pres" where
  "parseFnType n ty s = pBind (expect ''('' (takeTok s)) (\<lambda>_ s. pBind (paramTypes n ty (skipNl s)) (\<lambda>ps s.
     pBind (expect '')'' s) (\<lambda>_ s.
     if \<not> at s ''->'' then Failed (FnTypeNeedsReturn (cur s))
     else pBind (ty (takeTok s)) (\<lambda>r. mkNodeAt (\<lambda>p. TFn p ps r)))))"

definition namedType :: "nat \<Rightarrow> (pst \<Rightarrow> ty pres) \<Rightarrow> pst \<Rightarrow> ty pres" where
  "namedType n ty s = pBind (typePath n (t_text (cur s)) (takeTok s)) (\<lambda>nm s.
     pBind (mkNodeAt id s) (\<lambda>p s.
     if at s ''<'' then pBind (typeList n ty (skipNl (takeTok s))) (\<lambda>ts s.
        pBind (expect ''>'' (skipNl s)) (\<lambda>_ s. Parsed (TUnres p nm ts False) s))
     else Parsed (TUnres p nm [] False) s))"

definition arrayType :: "(pst \<Rightarrow> ty pres) \<Rightarrow> pst \<Rightarrow> ty pres" where
  "arrayType ty s = (let s1 = takeTok s in
     if \<not> atKind s1 TK_INT then Failed (ArrayLenLiteral (cur s1))
     else (let n = t_ival (cur s1) in pBind (expect '']'' (takeTok s1)) (\<lambda>_ s. pBind (ty s) (\<lambda>elem s.
        if n \<le> 0 then Failed (ArrayLenPositive n) else mkNodeAt (\<lambda>p. TArray p n elem) s))))"

text \<open>\<open>mut\<close> and \<open>?\<close> change the node that the recursive call has made.\<close>

definition mutType :: "token \<Rightarrow> ty \<Rightarrow> pst \<Rightarrow> ty pres" where
  "mutType m t s = (case t of
       TRef p i nu _ \<Rightarrow> Parsed (TRef p i nu True) s
     | TUnres p n ts _ \<Rightarrow> Parsed (TUnres p n ts True) s
     | _ \<Rightarrow> Failed (MutCannotQualify m))"

definition nullableType :: "ty \<Rightarrow> pst \<Rightarrow> ty pres" where
  "nullableType t s = (case t of
       TRef p i _ m \<Rightarrow> Parsed (TRef p i True m) s
     | _ \<Rightarrow> mkNodeAt (\<lambda>p. TUnres p ''option'' [t] False) s)"

definition parseTypeInner :: "nat \<Rightarrow> (pst \<Rightarrow> ty pres) \<Rightarrow> pst \<Rightarrow> ty pres" where
  "parseTypeInner n ty s =
    (if at s ''dyn'' \<and> t_kind (pk s 1) = TK_IDENT then
       (let tn = cur (takeTok s); s1 = takeTok (takeTok s)
        in if \<not> startsUpper (t_text tn) then Failed (TraitNameLower tn) else mkNodeAt (\<lambda>p. TDyn p (t_text tn)) s1)
     else if at s ''mut'' then pBind (ty (takeTok s)) (mutType (cur s))
     else if at s ''?'' then pBind (ty (takeTok s)) nullableType
     else if at s ''ref'' then pBind (ty (takeTok s)) (\<lambda>i. mkNodeAt (\<lambda>p. TRef p i False False))
     else if at s ''['' then arrayType ty s
     else if at s ''fn'' \<and> textAt s 1 = ''('' then parseFnType n ty s
     else if atKind s TK_TYPE \<or> atKind s TK_IDENT then namedType n ty s
     else Failed (ExpectedType (cur s)))"

fun parseType :: "nat \<Rightarrow> pst \<Rightarrow> ty pres" where
  "parseType 0 s = Stuck"
| "parseType (Suc n) s = typeDeeper (parseTypeInner n (parseType n)) s"

end
