(* ===== verification/Parser_Expr.thy ===== *)
theory Parser_Expr
  imports Parser
begin

text \<open>The expression parser of front/parser.c. The functions take the parsers they call recursively as
  arguments (\<open>pe\<close> for expressions, \<open>pu\<close> for prefix expressions, \<open>pb\<close> for blocks, \<open>pt\<close> for types);
  Parser_Stmt ties the knot.\<close>

section \<open>Lists\<close>

text \<open>\<open>while (!at(close)) { item; if (accept(",")) skipNl; else break; }\<close>\<close>

fun untilList :: "nat \<Rightarrow> string \<Rightarrow> (pst \<Rightarrow> 'a pres) \<Rightarrow> pst \<Rightarrow> 'a list pres" where
  "untilList 0 close item s = Stuck"
| "untilList (Suc n) close item s = (if at s close then Parsed [] s else pBind (item s) (\<lambda>a s1.
     if at s1 '','' then pBind (untilList n close item (skipNl (takeTok s1))) (\<lambda>as s2. Parsed (a # as) s2)
     else Parsed [a] s1))"

definition withCond :: "bool \<Rightarrow> (pst \<Rightarrow> 'a pres) \<Rightarrow> pst \<Rightarrow> 'a pres" where
  "withCond b inner s = pBind (inner (s\<lparr>ps_inCond := b\<rparr>)) (\<lambda>x s1. Parsed x (s1\<lparr>ps_inCond := ps_inCond s\<rparr>))"

definition parseArgs :: "nat \<Rightarrow> (pst \<Rightarrow> expr pres) \<Rightarrow> pst \<Rightarrow> expr list pres" where
  "parseArgs n pe s = pBind (expect ''('' s) (\<lambda>_ s.
     pBind (withCond False (\<lambda>s. pBind (untilList n '')'' pe s) (\<lambda>as s. Parsed as (skipNl s))) (skipNl s)) (\<lambda>as s.
     pBind (expect '')'' s) (\<lambda>_ s. Parsed as s)))"

section \<open>Postfix expressions\<close>

fun dynMark :: "(nat \<times> nodeMark) list \<Rightarrow> nat \<Rightarrow> string option" where
  "dynMark [] p = None"
| "dynMark ((q, m) # ms) p = (case m of MDyn t \<Rightarrow> if q = p then Some t else dynMark ms p | _ \<Rightarrow> dynMark ms p)"

definition isDyn :: "expr \<Rightarrow> bool" where
  "isDyn e \<longleftrightarrow> (case ex_kind e of EX_DYN _ _ \<Rightarrow> True | _ \<Rightarrow> False)"

text \<open>The method call on a \<open>dyn\<close> value has the payload as its receiver and carries the trait; a further
  method call inherits it.\<close>

definition methodNode :: "expr \<Rightarrow> string \<Rightarrow> expr list \<Rightarrow> pst \<Rightarrow> expr pres" where
  "methodNode e name as s = (case ex_kind e of
       EX_DYN tr x \<Rightarrow> pBind (mkExpr (EX_METHOD x name as) s) (\<lambda>m s. Parsed m (markNode (ex_id m) (MDyn tr) s))
     | _ \<Rightarrow> pBind (mkExpr (EX_METHOD e name as) s) (\<lambda>m s1. Parsed m
         (case dynMark (ps_marks s) (ex_id e) of Some tr \<Rightarrow> markNode (ex_id m) (MDyn tr) s1 | None \<Rightarrow> s1)))"

definition postfixDot :: "nat \<Rightarrow> (pst \<Rightarrow> expr pres) \<Rightarrow> expr \<Rightarrow> pst \<Rightarrow> expr pres" where
  "postfixDot n pe e s = pBind (expectIdent ''a field or method name'' (takeTok s)) (\<lambda>name s1.
     if at s1 ''('' then pBind (parseArgs n pe s1) (\<lambda>as. methodNode e (t_text name) as)
     else if isDyn e \<or> dynMark (ps_marks s1) (ex_id e) \<noteq> None then Failed (DynNeedsCall (cur s))
     else mkExpr (EX_FIELD e (t_text name)) s1)"

text \<open>What stands between the brackets: an index, or the bounds of a range.\<close>

definition rangeRest :: "(pst \<Rightarrow> expr pres) \<Rightarrow> expr option \<Rightarrow> pst \<Rightarrow> (expr + expr option \<times> expr option) pres" where
  "rangeRest pe lo s = (let s1 = skipNl (takeTok s) in
     pBind (if at s1 '']'' then Parsed None s1 else pBind (pe s1) (\<lambda>e s. Parsed (Some e) s)) (\<lambda>hi s.
       Parsed (Inr (lo, hi)) (skipNl s)))"

definition bracketInside :: "(pst \<Rightarrow> expr pres) \<Rightarrow> pst \<Rightarrow> (expr + expr option \<times> expr option) pres" where
  "bracketInside pe s = (if at s ''..'' then rangeRest pe None s
     else pBind (pe s) (\<lambda>e s. let s1 = skipNl s in
       if at s1 ''..'' then rangeRest pe (Some e) s1 else Parsed (Inl e) s1))"

definition postfixBracket :: "(pst \<Rightarrow> expr pres) \<Rightarrow> expr \<Rightarrow> pst \<Rightarrow> expr pres" where
  "postfixBracket pe e s = pBind (withCond False (bracketInside pe) (skipNl (takeTok s))) (\<lambda>r s.
     pBind (expect '']'' s) (\<lambda>_. case r of
         Inl i \<Rightarrow> mkExpr (EX_INDEX e i)
       | Inr (lo, hi) \<Rightarrow> mkExpr (EX_SLICE e lo hi)))"

fun postfixLoop :: "nat \<Rightarrow> (pst \<Rightarrow> expr pres) \<Rightarrow> expr \<Rightarrow> pst \<Rightarrow> expr pres" where
  "postfixLoop 0 pe e s = Stuck"
| "postfixLoop (Suc n) pe e s =
    (if at s ''!'' then pBind (mkExpr (EX_SIGN e) (takeTok s)) (postfixLoop n pe)
     else if at s ''?'' then pBind (mkExpr (EX_TRY e) (takeTok s)) (postfixLoop n pe)
     else if at s ''.'' then pBind (postfixDot n pe e s) (postfixLoop n pe)
     else if at s ''['' then pBind (postfixBracket pe e s) (postfixLoop n pe)
     else if at s ''('' then pBind (parseArgs n pe s) (\<lambda>as s. pBind (mkExpr (EX_CALL (Some e) as) s) (postfixLoop n pe))
     else Parsed e s)"

section \<open>Literals\<close>

fun initList :: "nat \<Rightarrow> (pst \<Rightarrow> expr pres) \<Rightarrow> pst \<Rightarrow> (string \<times> expr) list pres" where
  "initList 0 pe s = Stuck"
| "initList (Suc n) pe s = (if at s ''}'' then Parsed [] s else
     pBind (expectIdent ''a field name'' s) (\<lambda>fn s. pBind (expect '':'' s) (\<lambda>_ s. pBind (pe (skipNl s)) (\<lambda>v s.
       let s1 = skipNl s; s2 = skipNl (if at s1 '','' then takeTok s1 else s1)
       in pBind (initList n pe s2) (\<lambda>is s. Parsed ((t_text fn, v) # is) s)))))"

definition parseStructLit :: "nat \<Rightarrow> (pst \<Rightarrow> expr pres) \<Rightarrow> string option \<Rightarrow> pst \<Rightarrow> expr pres" where
  "parseStructLit n pe name s = pBind (expect ''{'' s) (\<lambda>_ s. pBind (mkNodeAt id s) (\<lambda>p s.
     pBind (initList n pe (skipNl s)) (\<lambda>is s. pBind (expect ''}'' s) (\<lambda>_ s.
       Parsed (Expr p None (EX_STRUCTLIT name is)) s))))"

fun elemList :: "nat \<Rightarrow> (pst \<Rightarrow> expr pres) \<Rightarrow> pst \<Rightarrow> (expr list \<times> bool) pres" where
  "elemList 0 pe s = Stuck"
| "elemList (Suc n) pe s = (if at s '']'' then Parsed ([], False) s
     else if at s ''...'' then Parsed ([], True) (skipNl (takeTok s))
     else pBind (withCond False pe s) (\<lambda>x s. let s1 = skipNl s in
       if at s1 '','' then pBind (elemList n pe (skipNl (takeTok s1))) (\<lambda>(xs, r) s. Parsed (x # xs, r) s)
       else Parsed ([x], False) s1))"

definition parseArrayLit :: "nat \<Rightarrow> (pst \<Rightarrow> expr pres) \<Rightarrow> pst \<Rightarrow> expr pres" where
  "parseArrayLit n pe s = pBind (mkNodeAt id (takeTok s)) (\<lambda>p s. pBind (elemList n pe (skipNl s)) (\<lambda>(xs, r) s.
     pBind (expect '']'' (skipNl s)) (\<lambda>_ s. Parsed (Expr p None (EX_ARRAYLIT xs r)) s)))"

text \<open>An expression in parentheses that are the conversion's own: the condition mark is left as it is.\<close>

definition convOperand :: "(pst \<Rightarrow> expr pres) \<Rightarrow> pst \<Rightarrow> expr pres" where
  "convOperand pe s = pBind (pe (skipNl (takeTok s))) (\<lambda>x s. pBind (expect '')'' (skipNl s)) (\<lambda>_ s. Parsed x s))"

definition namedConv :: "(pst \<Rightarrow> expr pres) \<Rightarrow> string \<Rightarrow> pst \<Rightarrow> expr pres" where
  "namedConv pe ty s = pBind (convOperand pe s) (\<lambda>x s. pBind (mkExpr (EX_CONV None x) s) (\<lambda>e s.
     Parsed e (markNode (ex_id e) (MConvName ty) s)))"

definition parseNew :: "(pst \<Rightarrow> expr pres) \<Rightarrow> (pst \<Rightarrow> ty pres) \<Rightarrow> pst \<Rightarrow> expr pres" where
  "parseNew pe pt s = pBind (mkNodeAt id (skipNl (takeTok s))) (\<lambda>p s. pBind (pt s) (\<lambda>t s.
     if at s ''['' then pBind (withCond False pe (skipNl (takeTok s))) (\<lambda>n s.
       pBind (expect '']'' (skipNl s)) (\<lambda>_ s. Parsed (Expr p None (EX_NEW (Some t) (Some n))) s))
     else Parsed (Expr p None (EX_NEW (Some t) None)) s))"

section \<open>Functions as values\<close>

definition fnParenIsTypeList :: "pst \<Rightarrow> bool" where
  "fnParenIsTypeList s \<longleftrightarrow> textAt s 2 \<noteq> '')'' \<and> textAt s 3 \<noteq> '':''"

definition parseFnConv :: "nat \<Rightarrow> (pst \<Rightarrow> expr pres) \<Rightarrow> (pst \<Rightarrow> ty pres) \<Rightarrow> pst \<Rightarrow> expr pres" where
  "parseFnConv n pe pt s = pBind (parseFnType n pt s) (\<lambda>t s. pBind (expect ''('' s) (\<lambda>_ s.
     pBind (pe (skipNl s)) (\<lambda>x s. pBind (expect '')'' (skipNl s)) (\<lambda>_. mkExpr (EX_CONV (Some t) x)))))"

definition lambdaParam :: "(pst \<Rightarrow> ty pres) \<Rightarrow> pst \<Rightarrow> (string \<times> ty) pres" where
  "lambdaParam pt s = pBind (expectIdent ''a parameter name'' s) (\<lambda>pn s. pBind (expect '':'' s) (\<lambda>_ s.
     pBind (pt s) (\<lambda>t s. Parsed (t_text pn, t) s)))"

definition lambdaCapture :: "pst \<Rightarrow> string pres" where
  "lambdaCapture s = (if \<not> at s ''mut'' \<or> textAt s 1 \<noteq> ''ref'' then Failed (CaptureEntry (cur s))
     else pBind (expectIdent ''a captured variable name'' (takeTok (takeTok s))) (\<lambda>cn s. Parsed (t_text cn) s))"

definition lambdaCaptures :: "nat \<Rightarrow> pst \<Rightarrow> string list pres" where
  "lambdaCaptures n s = (if at s ''['' then pBind (untilList n '']'' lambdaCapture (skipNl (takeTok s))) (\<lambda>cs s.
       pBind (expect '']'' s) (\<lambda>_ s. Parsed cs (skipNl s)))
     else Parsed [] s)"

definition retType :: "(pst \<Rightarrow> ty pres) \<Rightarrow> pst \<Rightarrow> ty option pres" where
  "retType pt s = (if at s ''->'' then pBind (pt (takeTok s)) (\<lambda>t s. Parsed (Some t) s) else Parsed None s)"

definition parseLambda :: "nat \<Rightarrow> (pst \<Rightarrow> expr pres) \<Rightarrow> (pst \<Rightarrow> stmt pres) \<Rightarrow> (pst \<Rightarrow> ty pres) \<Rightarrow> pst \<Rightarrow> expr pres" where
  "parseLambda n pe pb pt s = pBind (mkNodeAt id (takeTok s)) (\<lambda>p s1. pBind (expect ''('' s1) (\<lambda>_ s1.
     pBind (untilList n '')'' (lambdaParam pt) (skipNl s1)) (\<lambda>ps s1. pBind (expect '')'' s1) (\<lambda>_ s1.
     pBind (lambdaCaptures n (skipNl s1)) (\<lambda>cs s1.
     pBind (retType pt s1) (\<lambda>ret s1.
     if at s1 ''('' then pBind (convOperand pe s1) (\<lambda>x s1. case ret of
           None \<Rightarrow> Failed (FnConvNeedsReturn (cur s))
         | Some r \<Rightarrow> pBind (mkNodeAt id s1) (\<lambda>q s1. pBind (mkNodeAt (\<lambda>f. TFn f (map snd ps) r) s1) (\<lambda>t s1.
             Parsed (Expr q None (EX_CONV (Some t) x)) s1)))
     else pBind (pb (skipNl s1)) (\<lambda>b s1. Parsed (Expr p None (EX_LAMBDA [] b)) (markNode p (MLambda ps cs ret) s1))))))))"

section \<open>Names\<close>

definition scalarNames :: "string list" where
  "scalarNames = [''i8'', ''i16'', ''i32'', ''i64'', ''u8'', ''u16'', ''u32'', ''u64'', ''f32'', ''f64'']"

definition isScalarTypeName :: "string \<Rightarrow> bool" where "isScalarTypeName n \<longleftrightarrow> n \<in> set scalarNames"

definition segKind :: "token \<Rightarrow> bool" where
  "segKind t \<longleftrightarrow> t_kind t = TK_IDENT \<or> t_kind t = TK_TYPE"

text \<open>The scan for a struct literal of a qualified type: the number of tokens of the path when a brace
  follows that starts a literal. The scans look ahead at most to the last token.\<close>

fun qualScan :: "nat \<Rightarrow> pst \<Rightarrow> nat \<Rightarrow> nat option" where
  "qualScan 0 s k = None"
| "qualScan (Suc n) s k =
    (if textAt s k \<noteq> ''::'' \<or> \<not> segKind (pk s (k + 1)) then None
     else if textAt s (k + 2) = ''{'' \<and> \<not> ps_inCond s then Some (k + 2)
     else if textAt s (k + 2) = ''.'' then None
     else qualScan n s (k + 2))"

fun takePath :: "nat \<Rightarrow> string \<Rightarrow> pst \<Rightarrow> string \<times> pst" where
  "takePath 0 nm s = (nm, s)"
| "takePath (Suc k) nm s = (let s1 = takeTok s in takePath k (nm @ ''::'' @ t_text (cur s1)) (takeTok s1))"

fun typeArgScan :: "nat \<Rightarrow> pst \<Rightarrow> nat \<Rightarrow> nat \<Rightarrow> nat option" where
  "typeArgScan 0 s i d = None"
| "typeArgScan (Suc n) s i d = (let t = pk s i in
     if t_kind t = TK_EOF then None
     else if t_text t = ''<'' then typeArgScan n s (i + 1) (d + 1)
     else if t_text t = ''>'' then (if d - 1 = 0 then Some (i + 1) else typeArgScan n s (i + 1) (d - 1))
     else if t_kind t \<in> {TK_IDENT, TK_TYPE, TK_INT, TK_KEYWORD} \<or> t_text t \<in> {'','', ''['', '']''} then typeArgScan n s (i + 1) d
     else None)"

fun segsFrom :: "nat \<Rightarrow> pst \<Rightarrow> nat \<Rightarrow> nat" where
  "segsFrom 0 s i = 0"
| "segsFrom (Suc n) s i = (if textAt s i = ''::'' \<and> segKind (pk s (i + 1)) then segsFrom n s (i + 2) + 1 else 0)"

definition looksLikeAssoc :: "pst \<Rightarrow> nat" where
  "looksLikeAssoc s = (let n = length (ps_toks s) in
     case (if textAt s 0 = ''<'' then typeArgScan (n + 1) s 0 0 else Some 0) of
       None \<Rightarrow> 0
     | Some i \<Rightarrow> (let g = segsFrom n s i in
         if g > 0 then g else if textAt s i = ''('' \<and> i > 0 then 1 else 0))"

definition countFollowingSegs :: "pst \<Rightarrow> nat" where
  "countFollowingSegs s = segsFrom (length (ps_toks s)) s 0"

definition assocArgs :: "nat \<Rightarrow> (pst \<Rightarrow> ty pres) \<Rightarrow> pst \<Rightarrow> ty list pres" where
  "assocArgs n pt s = (if at s ''<'' then pBind (typeList n pt (skipNl (takeTok s))) (\<lambda>ts s.
       pBind (expect ''>'' (skipNl s)) (\<lambda>_ s. Parsed ts s))
     else Parsed [] s)"

definition optArgs :: "nat \<Rightarrow> (pst \<Rightarrow> expr pres) \<Rightarrow> pst \<Rightarrow> expr list pres" where
  "optArgs n pe s = (if at s ''('' then parseArgs n pe s else Parsed [] s)"

definition parseAssoc :: "nat \<Rightarrow> (pst \<Rightarrow> expr pres) \<Rightarrow> (pst \<Rightarrow> ty pres) \<Rightarrow> string \<Rightarrow> pst \<Rightarrow> expr pres" where
  "parseAssoc n pe pt name s = pBind (assocArgs n pt s) (\<lambda>ts s.
     if \<not> at s ''::'' then pBind (parseArgs n pe s) (\<lambda>as. mkExpr (EX_GENCALL name ts as))
     else (let g = countFollowingSegs s; (pre, s1) = takePath (g - 1) name s
       in pBind (expectIdent ''a function, constant or variant name'' (takeTok s1)) (\<lambda>sym s.
          let call = (ts = [] \<and> at s ''('')
          in pBind (optArgs n pe s) (\<lambda>as s.
             pBind (mkExpr (EX_ASSOC name ts (t_text sym) as) s) (\<lambda>e s.
               Parsed e (markNode (ex_id e) (MModPrefix (if g > 1 then Some pre else None)) (markNode (ex_id e) (MAssocCall call) s)))))))"

text \<open>What follows a name; \<open>t\<close> is the name's token, which has been consumed.\<close>

definition parseName :: "nat \<Rightarrow> (pst \<Rightarrow> expr pres) \<Rightarrow> (pst \<Rightarrow> ty pres) \<Rightarrow> token \<Rightarrow> pst \<Rightarrow> expr pres" where
  "parseName n pe pt t s =
    (if isScalarTypeName (t_text t) \<and> at s ''('' then namedConv pe (t_text t) s
     else if at s ''{'' \<and> \<not> ps_inCond s then parseStructLit n pe (Some (t_text t)) s
     else case (if at s ''::'' then qualScan (length (ps_toks s)) s 0 else None) of
       Some k \<Rightarrow>
         (let (nm, s1) = takePath (k div 2) (t_text t) s
          in if at s1 ''{'' then parseStructLit n pe (Some nm) s1
             else pBind (expectIdent ''a variant name'' (takeTok s1)) (\<lambda>vn s. pBind (mkExpr (EX_IDENT nm None) s) (\<lambda>i.
               mkExpr (EX_FIELD i (t_text vn)))))
     | None \<Rightarrow>
         (if looksLikeAssoc s > 0 then parseAssoc n pe pt (t_text t) s
          else if at s ''{'' \<and> ps_inCond s \<and> t_kind (pk s 1) = TK_IDENT \<and> textAt s 2 = '':'' then Failed (LiteralInCond (cur s))
          else mkExpr (EX_IDENT (t_text t) None) s))"

section \<open>Primary expressions\<close>

definition parsePrimary :: "nat \<Rightarrow> (pst \<Rightarrow> expr pres) \<Rightarrow> (pst \<Rightarrow> stmt pres) \<Rightarrow> (pst \<Rightarrow> ty pres) \<Rightarrow> pst \<Rightarrow> expr pres" where
  "parsePrimary n pe pb pt s = (let t = cur s in
     if at s ''fn'' \<and> textAt s 1 = ''('' \<and> fnParenIsTypeList s then parseFnConv n pe pt s
     else if at s ''fn'' \<and> textAt s 1 = ''('' then parseLambda n pe pb pt s
     else if at s ''dyn'' \<and> t_kind (pk s 1) = TK_IDENT \<and> textAt s 2 = ''('' then
       (let tn = cur (takeTok s) in pBind (expect ''('' (takeTok (takeTok s))) (\<lambda>_ s. pBind (pe s) (\<lambda>x s.
          pBind (expect '')'' s) (\<lambda>_. mkExpr (EX_DYN (t_text tn) x)))))
     else if t_kind t = TK_INT then mkExpr (EX_INT (t_ival t)) (takeTok s)
     else if t_kind t = TK_FLOAT then mkExpr EX_FLOAT (takeTok s)
     else if t_kind t = TK_STRING then mkExpr (EX_STR (t_text t)) (takeTok s)
     else if t_kind t = TK_FSTRING then Failed (FStringPlace t)
     else if at s ''null'' then mkExpr EX_NULL (takeTok s)
     else if at s ''true'' \<or> at s ''false'' then mkExpr (EX_BOOL (t_text t = ''true'')) (takeTok s)
     else if at s ''new'' then parseNew pe pt s
     else if at s ''('' then pBind (withCond False pe (skipNl (takeTok s))) (\<lambda>x s. pBind (expect '')'' (skipNl s)) (\<lambda>_ s. Parsed x s))
     else if at s ''{'' then parseStructLit n pe None s
     else if at s ''['' then parseArrayLit n pe s
     else if t_kind t = TK_TYPE \<and> isScalarTypeName (t_text t) then
       (if \<not> at (takeTok s) ''('' then Failed (TypeNotValue t) else namedConv pe (t_text t) (takeTok s))
     else if t_kind t = TK_IDENT then parseName n pe pt t (takeTok s)
     else Failed (ExpectedExpr t))"

definition parsePostfix :: "nat \<Rightarrow> (pst \<Rightarrow> expr pres) \<Rightarrow> (pst \<Rightarrow> stmt pres) \<Rightarrow> (pst \<Rightarrow> ty pres) \<Rightarrow> pst \<Rightarrow> expr pres" where
  "parsePostfix n pe pb pt s = pBind (parsePrimary n pe pb pt s) (postfixLoop n pe)"

section \<open>Prefix operators\<close>

definition tokenStartsExpr :: "token \<Rightarrow> bool" where
  "tokenStartsExpr t \<longleftrightarrow> t_kind t \<in> {TK_IDENT, TK_INT, TK_FLOAT, TK_STRING, TK_TYPE} \<or>
     (if t_kind t = TK_KEYWORD then t_text t \<in> {''true'', ''false'', ''ref'', ''fn'', ''if'', ''match'', ''new''}
      else t_text t \<in> {''('', ''-'', ''!'', ''~'', ''['', ''null''})"

definition parseUnaryInner :: "(pst \<Rightarrow> expr pres) \<Rightarrow> (pst \<Rightarrow> expr pres) \<Rightarrow> pst \<Rightarrow> expr pres" where
  "parseUnaryInner pu pf s =
    (if at s ''ext'' \<and> tokenStartsExpr (pk s 1) then pBind (pu (takeTok s)) (\<lambda>x. mkExpr (EX_EXT x))
     else if at s ''!'' \<or> at s ''-'' \<or> at s ''~'' then pBind (pu (takeTok s)) (\<lambda>x. mkExpr (EX_UN (t_text (cur s)) x))
     else if at s ''*'' then pBind (pu (takeTok s)) (\<lambda>x. mkExpr (EX_DEREF x))
     else if at s ''ref'' then pBind (pu (takeTok s)) (\<lambda>x. mkExpr (EX_REF x))
     else pf s)"

section \<open>Binary operators\<close>

text \<open>One level: operands of the next level, joined from the left. The operators of a level are compared
  with the whole text of a token.\<close>

definition atAny :: "pst \<Rightarrow> string list \<Rightarrow> bool" where
  "atAny s ops \<longleftrightarrow> (\<exists>v \<in> set ops. at s v)"

fun binLoop :: "nat \<Rightarrow> string list \<Rightarrow> (pst \<Rightarrow> expr pres) \<Rightarrow> expr \<Rightarrow> pst \<Rightarrow> expr pres" where
  "binLoop 0 ops sub e s = Stuck"
| "binLoop (Suc n) ops sub e s =
    (if atAny s ops then pBind (sub (skipNl (takeTok s))) (\<lambda>r s1. pBind (mkBin (t_text (cur s)) e r s1) (binLoop n ops sub))
     else Parsed e s)"

definition binLevel :: "nat \<Rightarrow> string list \<Rightarrow> (pst \<Rightarrow> expr pres) \<Rightarrow> pst \<Rightarrow> expr pres" where
  "binLevel n ops sub s = pBind (sub s) (binLoop n ops sub)"

definition parseFactor :: "nat \<Rightarrow> (pst \<Rightarrow> expr pres) \<Rightarrow> pst \<Rightarrow> expr pres" where
  "parseFactor n pu = binLevel n [''*'', ''/'', ''%''] pu"

definition parseTerm :: "nat \<Rightarrow> (pst \<Rightarrow> expr pres) \<Rightarrow> pst \<Rightarrow> expr pres" where
  "parseTerm n pu = binLevel n [''+'', ''-''] (parseFactor n pu)"

definition atShift :: "pst \<Rightarrow> string \<Rightarrow> bool" where
  "atShift s ch \<longleftrightarrow> textAt s 0 = ch \<and> textAt s 1 = ch \<and> t_kind (pk s 1) = TK_PUNCT"

end
