(* ===== verification/Parser_Stmt.thy ===== *)
theory Parser_Stmt
  imports Parser_Expr
begin

text \<open>The binary operators above the shifts, the f-strings they splice, statements, and the recursion that
  ties expressions, blocks and statements together (front/parser.c).\<close>

section \<open>F-strings\<close>

text \<open>Number of characters before the brace that closes the slot: depth of braces, inside a string or not.\<close>

fun slotLen :: "nat \<Rightarrow> bool \<Rightarrow> string \<Rightarrow> nat option" where
  "slotLen d st [] = None"
| "slotLen d True (c # cs) =
    (if c = CHR 0x5C then (case cs of [] \<Rightarrow> None | _ # ds \<Rightarrow> map_option (\<lambda>k. k + 2) (slotLen d True ds))
     else map_option Suc (slotLen d (c \<noteq> CHR 0x22) cs))"
| "slotLen d False (c # cs) =
    (if c = CHR 0x22 then map_option Suc (slotLen d True cs)
     else if c = CHR ''{'' then map_option Suc (slotLen (d + 1) False cs)
     else if c = CHR ''}'' then (if d - 1 = 0 then Some 0 else map_option Suc (slotLen (d - 1) False cs))
     else map_option Suc (slotLen d False cs))"

text \<open>A colon outside brackets and strings.\<close>

fun topColon :: "int \<Rightarrow> bool \<Rightarrow> string \<Rightarrow> bool" where
  "topColon d st [] = False"
| "topColon d True (c # cs) =
    (if c = CHR 0x5C then (case cs of [] \<Rightarrow> False | _ # ds \<Rightarrow> topColon d True ds) else topColon d (c \<noteq> CHR 0x22) cs)"
| "topColon d False (c # cs) =
    (if c = CHR 0x22 then topColon d True cs
     else if c \<in> {CHR ''('', CHR ''['', CHR ''{''} then topColon (d + 1) False cs
     else if c \<in> {CHR '')'', CHR '']'', CHR ''}''} then topColon (d - 1) False cs
     else if c = CHR '':'' \<and> d = 0 then True
     else topColon d False cs)"

definition fmtStr :: "string \<Rightarrow> pst \<Rightarrow> expr pres" where
  "fmtStr txt = mkExpr (EX_STR txt)"

definition fmtFlush :: "expr \<Rightarrow> string \<Rightarrow> pst \<Rightarrow> expr pres" where
  "fmtFlush lhs txt s = (if txt \<noteq> [] then pBind (fmtStr txt s) (mkBin ''<<'' lhs) else Parsed lhs s)"

text \<open>The expression of a slot, parsed on the tokens of its text by a copy of the parser.\<close>

definition fmtSlot :: "(pst \<Rightarrow> expr pres) \<Rightarrow> token \<Rightarrow> nat \<Rightarrow> string \<Rightarrow> pst \<Rightarrow> expr pres" where
  "fmtSlot pe ft col inner s = (case lexRange None inner (t_line ft) (col + 1) [] of
       (toks, Some d) \<Rightarrow> Failed (ScanError d)
     | (toks, None) \<Rightarrow> pBind (pe (s\<lparr>ps_toks := toks, ps_inCond := False\<rparr>)) (\<lambda>e s1.
         if \<not> atKind (skipNl s1) TK_EOF then Failed (FStringText ''rest'' (t_line (cur (skipNl s1))) (t_col (cur (skipNl s1))))
         else Parsed e (s1\<lparr>ps_toks := ps_toks s, ps_inCond := ps_inCond s, ps_depth := ps_depth s,
            ps_typeDepth := ps_typeDepth s, ps_sawGlobal := ps_sawGlobal s\<rparr>)))"

text \<open>\<open>txt\<close> is the text collected since the last slot, \<open>src\<close> what is left of the f-string.\<close>

fun fmtGo :: "nat \<Rightarrow> (pst \<Rightarrow> expr pres) \<Rightarrow> token \<Rightarrow> expr \<Rightarrow> string \<Rightarrow> nat \<Rightarrow> string \<Rightarrow> pst \<Rightarrow> expr pres" where
  "fmtGo 0 pe ft lhs txt col src s = Stuck"
| "fmtGo (Suc n) pe ft lhs txt col src s = (case src of
       [] \<Rightarrow> fmtFlush lhs txt s
     | c # cs \<Rightarrow>
       (if c = CHR ''{'' \<and> take 1 cs = ''{'' then fmtGo n pe ft lhs (txt @ ''{'') (col + 2) (drop 1 cs) s
        else if c = CHR ''}'' \<and> take 1 cs = ''}'' then fmtGo n pe ft lhs (txt @ ''}'') (col + 2) (drop 1 cs) s
        else if c = CHR ''}'' then Failed (FStringText ''}'' (t_line ft) col)
        else if c \<noteq> CHR ''{'' then fmtGo n pe ft lhs (txt @ [c]) (col + 1) cs s
        else pBind (fmtFlush lhs txt s) (\<lambda>lhs s. case slotLen 1 False cs of
             None \<Rightarrow> Failed (FStringText ''{'' (t_line ft) col)
           | Some k \<Rightarrow>
             (if k = 0 then Failed (FStringText ''empty slot'' (t_line ft) (col + 1))
              else if topColon 0 False (take k cs) then Failed (FStringText '':'' (t_line ft) col)
              else pBind (fmtSlot pe ft col (take k cs) s) (\<lambda>e s. pBind (mkBin ''<<'' lhs e s) (\<lambda>lhs s.
                fmtGo n pe ft lhs [] (col + (k + 2)) (drop (k + 1) cs) s))))))"

definition fmtSplice :: "(pst \<Rightarrow> expr pres) \<Rightarrow> token \<Rightarrow> expr \<Rightarrow> pst \<Rightarrow> expr pres" where
  "fmtSplice pe ft lhs s = pBind (fmtGo (length (t_text ft) + 1) pe ft lhs [] (t_col ft + 2) (t_text ft) s) (\<lambda>e s.
     if ex_id e = ex_id lhs then Failed (FStringText ''empty'' (t_line ft) (t_col ft + 2)) else Parsed e s)"

section \<open>Binary operators\<close>

fun shiftLoop :: "nat \<Rightarrow> (pst \<Rightarrow> expr pres) \<Rightarrow> (pst \<Rightarrow> expr pres) \<Rightarrow> expr \<Rightarrow> pst \<Rightarrow> expr pres" where
  "shiftLoop 0 pe sub e s = Stuck"
| "shiftLoop (Suc n) pe sub e s =
    (if \<not> atShift s ''<'' \<and> \<not> atShift s ''>'' then Parsed e s
     else (let opr = (if atShift s ''<'' then ''<<'' else ''>>''); s1 = skipNl (takeTok (takeTok s))
       in if atKind s1 TK_FSTRING then
            (if opr \<noteq> ''<<'' then Failed (FStringPlace (cur s1))
             else pBind (fmtSplice pe (cur s1) e (takeTok s1)) (shiftLoop n pe sub))
          else pBind (sub s1) (\<lambda>r s. pBind (mkBin opr e r s) (shiftLoop n pe sub))))"

text \<open>From here on \<open>pe\<close> parses an expression (for the slots of f-strings) and \<open>pu\<close> a prefix expression.\<close>

definition parseShift :: "nat \<Rightarrow> (pst \<Rightarrow> expr pres) \<Rightarrow> (pst \<Rightarrow> expr pres) \<Rightarrow> pst \<Rightarrow> expr pres" where
  "parseShift n pe pu s = pBind (parseTerm n pu s) (shiftLoop n pe (parseTerm n pu))"

definition parseComparison :: "nat \<Rightarrow> (pst \<Rightarrow> expr pres) \<Rightarrow> (pst \<Rightarrow> expr pres) \<Rightarrow> pst \<Rightarrow> expr pres" where
  "parseComparison n pe pu = binLevel n [''<'', ''<='', ''>'', ''>=''] (parseShift n pe pu)"

definition parseEquality :: "nat \<Rightarrow> (pst \<Rightarrow> expr pres) \<Rightarrow> (pst \<Rightarrow> expr pres) \<Rightarrow> pst \<Rightarrow> expr pres" where
  "parseEquality n pe pu = binLevel n [''=='', ''!=''] (parseComparison n pe pu)"

definition parseBitAnd :: "nat \<Rightarrow> (pst \<Rightarrow> expr pres) \<Rightarrow> (pst \<Rightarrow> expr pres) \<Rightarrow> pst \<Rightarrow> expr pres" where
  "parseBitAnd n pe pu = binLevel n [''&''] (parseEquality n pe pu)"

definition parseBitXor :: "nat \<Rightarrow> (pst \<Rightarrow> expr pres) \<Rightarrow> (pst \<Rightarrow> expr pres) \<Rightarrow> pst \<Rightarrow> expr pres" where
  "parseBitXor n pe pu = binLevel n [''^''] (parseBitAnd n pe pu)"

definition parseBitOr :: "nat \<Rightarrow> (pst \<Rightarrow> expr pres) \<Rightarrow> (pst \<Rightarrow> expr pres) \<Rightarrow> pst \<Rightarrow> expr pres" where
  "parseBitOr n pe pu = binLevel n [''|''] (parseBitXor n pe pu)"

definition parseAnd :: "nat \<Rightarrow> (pst \<Rightarrow> expr pres) \<Rightarrow> (pst \<Rightarrow> expr pres) \<Rightarrow> pst \<Rightarrow> expr pres" where
  "parseAnd n pe pu = binLevel n [''&&''] (parseBitOr n pe pu)"

definition parseOr :: "nat \<Rightarrow> (pst \<Rightarrow> expr pres) \<Rightarrow> (pst \<Rightarrow> expr pres) \<Rightarrow> pst \<Rightarrow> expr pres" where
  "parseOr n pe pu = binLevel n [''||''] (parseAnd n pe pu)"

fun coalesceLoop :: "nat \<Rightarrow> (pst \<Rightarrow> expr pres) \<Rightarrow> expr \<Rightarrow> pst \<Rightarrow> expr pres" where
  "coalesceLoop 0 pe l s = Stuck"
| "coalesceLoop (Suc n) pe l s =
    (if at s ''??'' then pBind (pe (skipNl (takeTok s))) (\<lambda>r s. pBind (mkExpr (EX_COALESCE l r) s) (coalesceLoop n pe))
     else Parsed l s)"

definition parseCoalesceWith :: "nat \<Rightarrow> (pst \<Rightarrow> expr pres) \<Rightarrow> (pst \<Rightarrow> expr pres) \<Rightarrow> pst \<Rightarrow> expr pres" where
  "parseCoalesceWith n pe pu s = pBind (parseOr n pe pu s) (coalesceLoop n pe)"

section \<open>Statements\<close>

text \<open>\<open>while (!at("}")) { item; skipJunk; }\<close>\<close>

fun stmtList :: "nat \<Rightarrow> (pst \<Rightarrow> 'a pres) \<Rightarrow> pst \<Rightarrow> 'a list pres" where
  "stmtList 0 ps s = Stuck"
| "stmtList (Suc n) ps s = (if at s ''}'' then Parsed [] s
     else pBind (ps s) (\<lambda>x s. pBind (stmtList n ps (skipJunk s)) (\<lambda>xs s. Parsed (x # xs) s)))"

definition parseBlockInner :: "nat \<Rightarrow> (pst \<Rightarrow> stmt pres) \<Rightarrow> pst \<Rightarrow> stmt pres" where
  "parseBlockInner n ps s = pBind (expect ''{'' s) (\<lambda>_ s. pBind (mkNodeAt id s) (\<lambda>p s.
     pBind (stmtList n ps (skipJunk s)) (\<lambda>ss s. pBind (expect ''}'' s) (\<lambda>_ s. Parsed (Stmt p (ST_BLOCK ss)) s))))"

fun bindList :: "nat \<Rightarrow> pst \<Rightarrow> string option list pres" where
  "bindList 0 s = Stuck"
| "bindList (Suc n) s = (if at s '')'' then Parsed [] s
     else pBind (expectIdent ''a name to bind the payload to'' s) (\<lambda>b s. let s1 = skipNl s in
       if at s1 '','' then pBind (bindList n (skipNl (takeTok s1))) (\<lambda>bs s. Parsed (Some (t_text b) # bs) s)
       else Parsed [Some (t_text b)] s1))"

definition matchBinds :: "nat \<Rightarrow> pst \<Rightarrow> string option list pres" where
  "matchBinds n s = (if at s ''('' then pBind (bindList n (skipNl (takeTok s))) (\<lambda>bs s. pBind (expect '')'' s) (\<lambda>_ s.
       Parsed bs (skipNl s)))
     else Parsed [] s)"

text \<open>One arm of \<open>match\<close>; a body that is not a block becomes one.\<close>

definition parseArm :: "nat \<Rightarrow> (pst \<Rightarrow> stmt pres) \<Rightarrow> (pst \<Rightarrow> stmt pres) \<Rightarrow> pst \<Rightarrow> (string \<times> string option list \<times> stmt) pres" where
  "parseArm n pb ps s = (let name = cur s in
     if t_kind name \<noteq> TK_IDENT \<and> t_kind name \<noteq> TK_KEYWORD then Failed (MatchVariant name)
     else pBind (matchBinds n (skipNl (takeTok s))) (\<lambda>bs s. pBind (expect ''=>'' s) (\<lambda>_ s. let s1 = skipNl s in
       if at s1 ''{'' then pBind (pb s1) (\<lambda>b s. Parsed (t_text name, bs, b) s)
       else pBind (ps s1) (\<lambda>i s. pBind (mkStmt (ST_BLOCK [i]) s) (\<lambda>b s. Parsed (t_text name, bs, b) s)))))"

definition parseMatch :: "nat \<Rightarrow> (pst \<Rightarrow> expr pres) \<Rightarrow> (pst \<Rightarrow> stmt pres) \<Rightarrow> (pst \<Rightarrow> stmt pres) \<Rightarrow> pst \<Rightarrow> stmt pres" where
  "parseMatch n pe pb ps s = pBind (withCond True pe (takeTok s)) (\<lambda>x s. pBind (expect ''{'' s) (\<lambda>_ s.
     pBind (mkNodeAt id s) (\<lambda>p s. pBind (stmtList n (parseArm n pb ps) (skipJunk s)) (\<lambda>as s.
     pBind (expect ''}'' s) (\<lambda>_ s. Parsed (Stmt p (ST_MATCH x as)) s)))))"

definition atStmtEnd :: "pst \<Rightarrow> bool" where
  "atStmtEnd s \<longleftrightarrow> atKind s TK_NEWLINE \<or> atKind s TK_EOF \<or> at s ''}''"

text \<open>The initialiser \<open>yield e\<close> of a declaration.\<close>

definition varYield :: "(pst \<Rightarrow> expr pres) \<Rightarrow> string \<Rightarrow> ty option \<Rightarrow> pst \<Rightarrow> stmt pres" where
  "varYield pe name ann s = (let s1 = takeTok s in pBind (mkNodeAt id s1) (\<lambda>p s1.
     if atStmtEnd s1 then Failed (YieldNeedsValue (cur s))
     else pBind (pe s1) (\<lambda>v s. Parsed (Stmt p (ST_YIELD (Some v))) (markNode p (MYieldTo name ann) s))))"

definition typeAnn :: "(pst \<Rightarrow> ty pres) \<Rightarrow> pst \<Rightarrow> ty option pres" where
  "typeAnn pt s = (if at s '':'' then pBind (pt (takeTok s)) (\<lambda>t s. Parsed (Some t) s) else Parsed None s)"

text \<open>The initialiser; without one the type must be written.\<close>

definition varInit :: "(pst \<Rightarrow> expr pres) \<Rightarrow> ty option \<Rightarrow> pst \<Rightarrow> expr option pres" where
  "varInit pe ann s = (if at s ''='' then pBind (pe (skipNl (takeTok s))) (\<lambda>e s. Parsed (Some e) s)
     else if ann = None then Failed (NeedsTypeOrInit (cur s)) else Parsed None s)"

definition parseVarDecl :: "(pst \<Rightarrow> expr pres) \<Rightarrow> (pst \<Rightarrow> ty pres) \<Rightarrow> pst \<Rightarrow> stmt pres" where
  "parseVarDecl pe pt s = (let kw = cur s in pBind (expectIdent ''a variable name'' (takeTok s)) (\<lambda>name s.
     pBind (typeAnn pt s) (\<lambda>ann s.
     if at s ''='' \<and> at (skipNl (takeTok s)) ''yield'' then varYield pe (t_text name) ann (skipNl (takeTok s))
     else pBind (varInit pe ann s) (\<lambda>init s.
       pBind (mkStmt (ST_VAR (t_text name) ann init (t_text kw = ''var'')) s) (\<lambda>v s.
         Parsed v ((if ps_sawGlobal s then markNode (st_id v) MGlobal s else s)\<lparr>ps_sawGlobal := False\<rparr>))))))"

definition elsePart :: "(pst \<Rightarrow> stmt pres) \<Rightarrow> (pst \<Rightarrow> stmt pres) \<Rightarrow> pst \<Rightarrow> stmt option pres" where
  "elsePart pb pif s = (if at s ''else'' then (let s1 = skipJunk (takeTok s)
       in pBind (if at s1 ''if'' then pif s1 else pb s1) (\<lambda>b s. Parsed (Some b) s))
     else Parsed None s)"

definition parseIfWith :: "(pst \<Rightarrow> expr pres) \<Rightarrow> (pst \<Rightarrow> stmt pres) \<Rightarrow> (pst \<Rightarrow> stmt pres) \<Rightarrow> pst \<Rightarrow> stmt pres" where
  "parseIfWith pe pb pif s = pBind (withCond True pe (takeTok s)) (\<lambda>c s. pBind (pb s) (\<lambda>a s.
     pBind (elsePart pb pif (skipJunk s)) (\<lambda>b s. mkStmt (ST_IF c a b) s)))"

definition parseWhile :: "(pst \<Rightarrow> expr pres) \<Rightarrow> (pst \<Rightarrow> stmt pres) \<Rightarrow> pst \<Rightarrow> stmt pres" where
  "parseWhile pe pb s = pBind (withCond True pe (takeTok s)) (\<lambda>c s. pBind (pb s) (\<lambda>b s. mkStmt (ST_WHILE c b) s))"

subsection \<open>The loops of \<open>for\<close>\<close>

definition forIdent :: "string \<Rightarrow> pst \<Rightarrow> expr pres" where
  "forIdent name = mkExpr (EX_IDENT name None)"

definition forInt :: "int \<Rightarrow> pst \<Rightarrow> expr pres" where
  "forInt v = mkExpr (EX_INT v)"

definition forStep :: "string \<Rightarrow> string \<Rightarrow> expr \<Rightarrow> pst \<Rightarrow> stmt pres" where
  "forStep tgt opr v s = pBind (mkNodeAt id s) (\<lambda>p s. pBind (forIdent tgt s) (\<lambda>t s. Parsed (Stmt p (ST_ASSIGN t v (Some opr))) s))"

definition forBlock :: "stmt list \<Rightarrow> pst \<Rightarrow> stmt pres" where
  "forBlock ss = mkStmt (ST_BLOCK ss)"

fun forRepeatable :: "expr \<Rightarrow> bool" where
  "forRepeatable (Expr _ _ k) = (case k of
       EX_IDENT _ _ \<Rightarrow> True
     | EX_FIELD x _ \<Rightarrow> forRepeatable x
     | EX_DEREF x \<Rightarrow> forRepeatable x
     | _ \<Rightarrow> False)"

text \<open>The body with the step behind it, in a block that records which statement is the step.\<close>

definition forBody :: "stmt list \<Rightarrow> stmt \<Rightarrow> pst \<Rightarrow> stmt pres" where
  "forBody ss step s = pBind (forBlock (ss @ [step]) s) (\<lambda>b s. Parsed b (markNode (st_id b) (MForStep (st_id step)) s))"

definition forPlain :: "(pst \<Rightarrow> expr pres) \<Rightarrow> (pst \<Rightarrow> stmt pres) \<Rightarrow> (pst \<Rightarrow> stmt pres) \<Rightarrow> pst \<Rightarrow> stmt pres" where
  "forPlain pe pb ps s = pBind (ps (takeTok s)) (\<lambda>init s. pBind (expect '';'' s) (\<lambda>_ s.
     pBind (pe (skipNl s)) (\<lambda>c s. pBind (expect '';'' s) (\<lambda>_ s.
     pBind (ps (skipNl s)) (\<lambda>step s. pBind (expect '')'' s) (\<lambda>_ s.
     pBind (pb s) (\<lambda>body s. pBind (forBody [body] step s) (\<lambda>b s.
     pBind (mkStmt (ST_WHILE c b) s) (\<lambda>w s. forBlock [init, w] s)))))))))"

definition forRange :: "string \<Rightarrow> expr \<Rightarrow> expr \<Rightarrow> stmt \<Rightarrow> pst \<Rightarrow> stmt pres" where
  "forRange vn lo hi body s =
    pBind (mkStmt (ST_VAR vn None (Some lo) True) s) (\<lambda>decl s.
    pBind (mkStmt (ST_VAR ''__extc_hi'' None (Some hi) False) s) (\<lambda>hiDecl s.
    pBind (mkNodeAt id s) (\<lambda>q s. pBind (forIdent vn s) (\<lambda>i s. pBind (forIdent ''__extc_hi'' s) (\<lambda>h s.
    pBind (forInt 1 s) (\<lambda>one s. pBind (forStep vn ''+='' one s) (\<lambda>step s.
    pBind (forBody [body] step s) (\<lambda>b s.
    pBind (mkStmt (ST_WHILE (Expr q None (EX_BIN ''<'' i h)) b) s) (\<lambda>w s.
    forBlock [decl, hiDecl, w] s)))))))))"

definition forEach :: "string \<Rightarrow> expr \<Rightarrow> stmt \<Rightarrow> pst \<Rightarrow> stmt pres" where
  "forEach vn head body s =
    pBind (mkExpr (EX_SLICE head None None) s) (\<lambda>whole s.
    pBind (mkStmt (ST_VAR ''__extc_s'' None (Some whole) False) s) (\<lambda>viewDecl s.
    pBind (mkNodeAt id s) (\<lambda>z s. pBind (forInt 0 s) (\<lambda>zero s.
    pBind (mkStmt (ST_VAR ''__extc_i'' None (Some (Expr z None (EX_CONV None zero))) True) (markNode z (MConvName ''i64'') s)) (\<lambda>idxDecl s.
    pBind (mkNodeAt id s) (\<lambda>q s. pBind (forIdent ''__extc_i'' s) (\<lambda>i s.
    pBind (mkNodeAt id s) (\<lambda>r s. pBind (forIdent ''__extc_s'' s) (\<lambda>v s.
    pBind (mkNodeAt id s) (\<lambda>d s. pBind (mkNodeAt id s) (\<lambda>x s.
    pBind (forIdent ''__extc_s'' s) (\<lambda>v' s. pBind (forIdent ''__extc_i'' s) (\<lambda>i' s.
    pBind (forInt 1 s) (\<lambda>one s. pBind (forStep ''__extc_i'' ''+='' one s) (\<lambda>step s.
    pBind (forBody [Stmt d (ST_VAR vn None (Some (Expr x None (EX_INDEX v' i'))) False), body] step s) (\<lambda>b s.
    pBind (mkStmt (ST_WHILE (Expr q None (EX_BIN ''<'' i (Expr r None (EX_FIELD v ''len'')))) b) s) (\<lambda>w s.
    pBind (forBlock [viewDecl, idxDecl, w] s) (\<lambda>o' s. Parsed o' (markNode (st_id o') MForDesugar s)))))))))))))))))))"

definition forUpper :: "(pst \<Rightarrow> expr pres) \<Rightarrow> pst \<Rightarrow> expr option pres" where
  "forUpper pe s = (if at s ''..'' then pBind (withCond True pe (takeTok s)) (\<lambda>h s. Parsed (Some h) s) else Parsed None s)"

definition parseFor :: "(pst \<Rightarrow> expr pres) \<Rightarrow> (pst \<Rightarrow> stmt pres) \<Rightarrow> (pst \<Rightarrow> stmt pres) \<Rightarrow> pst \<Rightarrow> stmt pres" where
  "parseFor pe pb ps s = (let s = takeTok s in
     if at s ''('' then forPlain pe pb ps s
     else if \<not> segKind (cur s) then Failed (ForNeedsName (cur s))
     else (let vn = t_text (cur s) in pBind (expect ''in'' (takeTok s)) (\<lambda>_ s. pBind (withCond True pe s) (\<lambda>head s.
       pBind (forUpper pe s) (\<lambda>hi s.
       pBind (pb s) (\<lambda>body s. case hi of
           Some h \<Rightarrow> forRange vn head h body s
         | None \<Rightarrow> if \<not> forRepeatable head then Failed ForContainer else forEach vn head body s))))))"

subsection \<open>The statement\<close>

definition ASSIGN_OPS :: "string list" where
  "ASSIGN_OPS = [''='', ''+='', ''-='', ''*='', ''/='', ''%='']"

text \<open>What follows an expression at the start of a statement: a block on the same line, an assignment, or
  nothing. \<open>t\<close> is the first token.\<close>

definition afterExpr :: "(pst \<Rightarrow> expr pres) \<Rightarrow> (pst \<Rightarrow> stmt pres) \<Rightarrow> token \<Rightarrow> expr \<Rightarrow> pst \<Rightarrow> stmt pres" where
  "afterExpr pe pb t e s =
    (if at s ''{'' \<and> t_line (cur s) = t_line t \<and> (case ex_kind e of EX_FIELD _ _ \<Rightarrow> True | _ \<Rightarrow> False) then
       pBind (pb s) (\<lambda>b s. mkStmt (ST_DOMAIN e b) s)
     else if atAny s ASSIGN_OPS then
       (let aop = t_text (cur s); s1 = skipNl (takeTok s) in
        case (if aop = ''='' \<and> at s1 ''yield'' then ex_kind e else EX_NULL) of
          EX_IDENT name _ \<Rightarrow> pBind (mkNodeAt id (takeTok s1)) (\<lambda>p s. pBind (pe s) (\<lambda>v s.
            Parsed (Stmt p (ST_YIELD (Some v))) (markNode p (MYieldTo name None) s)))
        | _ \<Rightarrow> pBind (pe s1) (\<lambda>v s. mkStmt (ST_ASSIGN e v (if aop = ''='' then None else Some aop)) s))
     else mkStmt (ST_EXPR e) s)"

definition annotated :: "(pst \<Rightarrow> expr pres) \<Rightarrow> (pst \<Rightarrow> ty pres) \<Rightarrow> pst \<Rightarrow> stmt pres" where
  "annotated pe pt s = pBind (expectIdent ''an annotation name (only `overwrite` for now)'' (takeTok s)) (\<lambda>nm s1.
     if t_text nm \<noteq> ''overwrite'' then Failed (UnknownAnnotation nm)
     else if \<not> (at s1 ''let'' \<or> at s1 ''var'') then Failed (OverwritePlace (cur s))
     else pBind (parseVarDecl pe pt s1) (\<lambda>v s. Parsed v (markNode (st_id v) MOverwrite s)))"

definition yieldStmt :: "(pst \<Rightarrow> expr pres) \<Rightarrow> pst \<Rightarrow> stmt pres" where
  "yieldStmt pe s = pBind (mkNodeAt id (takeTok s)) (\<lambda>p s1.
     if atStmtEnd s1 then Failed (YieldNeedsValue (cur s))
     else pBind (pe s1) (\<lambda>v s. Parsed (Stmt p (ST_YIELD (Some v))) s))"

definition trapStmt :: "(pst \<Rightarrow> expr pres) \<Rightarrow> pst \<Rightarrow> stmt pres" where
  "trapStmt pe s = pBind (mkNodeAt id (takeTok s)) (\<lambda>p s. pBind (pe (takeTok s)) (\<lambda>m s.
     if \<not> at s '')'' then Failed (TrapMessage (cur s)) else Parsed (Stmt p (ST_TRAP m)) (takeTok s)))"

definition returnStmt :: "(pst \<Rightarrow> expr pres) \<Rightarrow> pst \<Rightarrow> stmt pres" where
  "returnStmt pe s = pBind (mkNodeAt id (takeTok s)) (\<lambda>p s.
     if atStmtEnd s \<or> at s '';'' then Parsed (Stmt p (ST_RETURN None)) s
     else pBind (pe s) (\<lambda>v s. Parsed (Stmt p (ST_RETURN (Some v))) s))"

definition parseStmtWith :: "nat \<Rightarrow> (pst \<Rightarrow> expr pres) \<Rightarrow> (pst \<Rightarrow> stmt pres) \<Rightarrow> (pst \<Rightarrow> stmt pres) \<Rightarrow> (pst \<Rightarrow> stmt pres) \<Rightarrow> (pst \<Rightarrow> ty pres) \<Rightarrow> pst \<Rightarrow> stmt pres" where
  "parseStmtWith n pe pb ps pif pt s0 = (let t = cur s0 in
     if at s0 ''@'' then annotated pe pt s0
     else if at s0 ''yield'' then yieldStmt pe s0
     else (let s = (if at s0 ''global'' then (takeTok s0)\<lparr>ps_sawGlobal := True\<rparr> else s0) in
       if at s ''let'' \<or> at s ''var'' then parseVarDecl pe pt s
       else if at s ''if'' then pif s
       else if at s ''while'' then parseWhile pe pb s
       else if at s ''for'' then parseFor pe pb ps s
       else if at s ''trap'' \<and> textAt s 1 = ''('' then trapStmt pe s
       else if at s ''match'' then parseMatch n pe pb ps s
       else if at s ''return'' then returnStmt pe s
       else if at s ''break'' then mkStmt ST_BREAK (takeTok s)
       else if at s ''continue'' then mkStmt ST_CONTINUE (takeTok s)
       else if at s ''struct'' \<or> at s ''fn'' then Failed (NestedDeclaration t)
       else if at s ''{'' then pb s
       else pBind (pe s) (afterExpr pe pb t)))"

section \<open>The recursion\<close>

fun parseCoalesce :: "nat \<Rightarrow> pst \<Rightarrow> expr pres"
  and parseUnary :: "nat \<Rightarrow> pst \<Rightarrow> expr pres"
  and parseBlock :: "nat \<Rightarrow> pst \<Rightarrow> stmt pres"
  and parseStmt :: "nat \<Rightarrow> pst \<Rightarrow> stmt pres"
  and parseIf :: "nat \<Rightarrow> pst \<Rightarrow> stmt pres" where
  "parseCoalesce 0 s = Stuck"
| "parseCoalesce (Suc n) s = parseCoalesceWith n (parseCoalesce n) (parseUnary n) s"
| "parseUnary 0 s = Stuck"
| "parseUnary (Suc n) s = deeper ''an expression'' (parseUnaryInner (parseUnary n)
     (parsePostfix n (parseCoalesce n) (parseBlock n) (parseType n))) s"
| "parseBlock 0 s = Stuck"
| "parseBlock (Suc n) s = deeper ''a block'' (parseBlockInner n (parseStmt n)) s"
| "parseStmt 0 s = Stuck"
| "parseStmt (Suc n) s = parseStmtWith n (parseCoalesce n) (parseBlock n) (parseStmt n) (parseIf n) (parseType n) s"
| "parseIf 0 s = Stuck"
| "parseIf (Suc n) s = parseIfWith (parseCoalesce n) (parseBlock n) (parseIf n) s"

definition parseExpr :: "nat \<Rightarrow> pst \<Rightarrow> expr pres" where
  "parseExpr n = parseCoalesce n"

end
