(* ===== verification/Parser_Total.thy ===== *)
theory Parser_Total
  imports Parser_Stmt Lexer_Claims
begin

text \<open>Progress. A parser never gets stuck when its fuel covers the tokens: \<open>fits W F s\<close> bounds the weight of
  the tokens of a state and fixes its frame, \<open>good b m p\<close> says that \<open>p\<close> started with weight at most \<open>m\<close>
  ends, keeps the frame and takes at least weight \<open>b\<close> away.\<close>

section \<open>Weights and frames\<close>

definition tokW :: "token \<Rightarrow> nat" where
  "tokW t = (if t_kind t = TK_FSTRING then length (t_text t) + 2 else 1)"

abbreviation toksW :: "token list \<Rightarrow> nat" where "toksW ts \<equiv> sum_list (map tokW ts)"

definition closedToks :: "token list \<Rightarrow> bool" where
  "closedToks ts \<longleftrightarrow> ts \<noteq> [] \<and> t_kind (List.last ts) = TK_EOF \<and> t_text (List.last ts) = []"

definition frame :: "pst \<Rightarrow> bool \<times> nat \<times> nat" where
  "frame s = (ps_inCond s, ps_depth s, ps_typeDepth s)"

definition fits :: "nat \<Rightarrow> bool \<times> nat \<times> nat \<Rightarrow> pst \<Rightarrow> bool" where
  "fits W F s \<longleftrightarrow> closedToks (ps_toks s) \<and> toksW (ps_toks s) \<le> W \<and> frame s = F"

definition post :: "('a \<Rightarrow> pst \<Rightarrow> bool) \<Rightarrow> 'a pres \<Rightarrow> bool" where
  "post Q r \<longleftrightarrow> (case r of Parsed x s \<Rightarrow> Q x s | Failed _ \<Rightarrow> True | Stuck \<Rightarrow> False)"

definition good :: "nat \<Rightarrow> nat \<Rightarrow> (pst \<Rightarrow> 'a pres) \<Rightarrow> bool" where
  "good b m p \<longleftrightarrow> (\<forall>W F s. W \<le> m \<longrightarrow> fits W F s \<longrightarrow> post (\<lambda>_. fits (W - b) F) (p s))"

definition nonEof :: "pst \<Rightarrow> bool" where
  "nonEof s \<longleftrightarrow> t_kind (cur s) \<noteq> TK_EOF \<or> t_text (cur s) \<noteq> []"

named_theorems wp
named_theorems goods

lemma tokW_pos: "1 \<le> tokW t" by (simp add: tokW_def)

lemma fits_pos: "fits W F s \<Longrightarrow> 1 \<le> W"
proof -
  assume a: "fits W F s"
  then obtain t ts where "ps_toks s = t # ts" by (auto simp: fits_def closedToks_def neq_Nil_conv)
  then show ?thesis using a tokW_pos[of t] by (simp add: fits_def)
qed

lemma fits_mono: "fits W F s \<Longrightarrow> W \<le> V \<Longrightarrow> fits V F s"
  by (simp add: fits_def)

lemma goodD: "good b m p \<Longrightarrow> fits W F s \<Longrightarrow> W \<le> m \<Longrightarrow> post (\<lambda>_. fits (W - b) F) (p s)"
  by (auto simp: good_def simp del: split_paired_All)

lemma goodI: "(\<And>W F s. W \<le> m \<Longrightarrow> fits W F s \<Longrightarrow> post (\<lambda>_. fits (W - b) F) (p s)) \<Longrightarrow> good b m p"
  by (simp add: good_def)

lemma good_mono: "good b m p \<Longrightarrow> k \<le> m \<Longrightarrow> good b k p"
  by (simp add: good_def)

lemma post_mono: "post Q r \<Longrightarrow> (\<And>x s. Q x s \<Longrightarrow> R x s) \<Longrightarrow> post R r"
  by (auto simp: post_def split: pres.splits)

lemma good_weak: "good b m p \<Longrightarrow> good 0 m p"
  by (rule goodI, rule post_mono, erule goodD) (auto intro: fits_mono)

section \<open>Rules\<close>

lemma call: "good b m p \<Longrightarrow> fits V F s \<Longrightarrow> V \<le> m \<Longrightarrow> V - b \<le> W \<Longrightarrow> post (\<lambda>_. fits W F) (p s)"
  by (auto elim!: post_mono dest!: goodD intro: fits_mono)

lemma post_bind [wp]: "post (\<lambda>_. fits V F) r \<Longrightarrow> (\<And>x s. fits V F s \<Longrightarrow> post Q (k x s)) \<Longrightarrow> post Q (pBind r k)"
  by (cases r) (auto simp: post_def)

lemma post_if [wp]: "(c \<Longrightarrow> post Q a) \<Longrightarrow> (\<not> c \<Longrightarrow> post Q b) \<Longrightarrow> post Q (if c then a else b)"
  by simp

lemma post_Parsed [wp]: "fits V F s \<Longrightarrow> V \<le> W \<Longrightarrow> post (\<lambda>_. fits W F) (Parsed x s)"
  by (auto simp: post_def intro: fits_mono)

lemma post_Failed [wp]: "post Q (Failed e)" by (simp add: post_def)

lemma post_Let [wp]: "post Q (f y) \<Longrightarrow> post Q (Let y f)" by simp

lemma post_prod [wp]: "(\<And>a b. x = (a, b) \<Longrightarrow> post Q (f a b s)) \<Longrightarrow> post Q (case_prod f x s)"
  by (cases x) simp

lemma post_option [wp]: "(x = None \<Longrightarrow> post Q a) \<Longrightarrow> (\<And>y. x = Some y \<Longrightarrow> post Q (f y)) \<Longrightarrow> post Q (case_option a f x)"
  by (cases x) simp_all

lemma post_sum [wp]:
  "(\<And>y. x = Inl y \<Longrightarrow> post Q (f y s)) \<Longrightarrow> (\<And>y. x = Inr y \<Longrightarrow> post Q (g y s)) \<Longrightarrow> post Q (case_sum f g x s)"
  by (cases x) simp_all

lemma closed_tl: "closedToks (t # ts) \<Longrightarrow> ts \<noteq> [] \<Longrightarrow> closedToks ts"
  by (simp add: closedToks_def)

lemma dropWhileToks_closed: "closedToks ts \<Longrightarrow> closedToks (dropWhileToks p ts) \<and> toksW (dropWhileToks p ts) \<le> toksW ts"
proof (induction p ts rule: dropWhileToks.induct)
  case (1 p t u ts)
  then show ?case by (auto dest: closed_tl)
qed simp_all

lemma fits_skipNl [wp]: "fits W F s \<Longrightarrow> fits W F (skipNl s)"
  using dropWhileToks_closed[of "ps_toks s"] by (auto simp: fits_def skipNl_def frame_def intro: le_trans)

lemma fits_skipJunk [wp]: "fits W F s \<Longrightarrow> fits W F (skipJunk s)"
  using dropWhileToks_closed[of "ps_toks s"] by (auto simp: fits_def skipJunk_def frame_def intro: le_trans)

lemma frame_upd [simp]:
  "frame (s\<lparr>ps_next := a\<rparr>) = frame s" "frame (s\<lparr>ps_marks := b\<rparr>) = frame s" "frame (s\<lparr>ps_sawGlobal := c\<rparr>) = frame s"
  "frame (s\<lparr>ps_sawBuiltin := c\<rparr>) = frame s" "frame (s\<lparr>ps_toks := ts\<rparr>) = frame s" "frame (s\<lparr>ps_noBody := c\<rparr>) = frame s"
  by (simp_all add: frame_def)

lemma fits_upd [wp]:
  "fits W F s \<Longrightarrow> fits W F (s\<lparr>ps_sawGlobal := c\<rparr>)" "fits W F s \<Longrightarrow> fits W F (s\<lparr>ps_sawBuiltin := c\<rparr>)"
  "fits W F s \<Longrightarrow> fits W F (s\<lparr>ps_noBody := c\<rparr>)" "fits W F s \<Longrightarrow> fits W F (markNode p m s)"
  by (simp_all add: fits_def markNode_def)

lemma fits_takeTok: "fits W F s \<Longrightarrow> fits W F (takeTok s)"
  by (cases "ps_toks s") (auto simp: fits_def takeTok_def dest: closed_tl)

lemma fits_strict: "fits W F s \<Longrightarrow> nonEof s \<Longrightarrow> fits (W - 1) F (takeTok s)"
proof -
  assume a: "fits W F s" "nonEof s"
  obtain t ts where s: "ps_toks s = t # ts" using a(1) by (auto simp: fits_def closedToks_def neq_Nil_conv)
  have "ts \<noteq> []" using a s by (auto simp: fits_def closedToks_def nonEof_def cur_def pk_def)
  then show ?thesis using a(1) s tokW_pos[of t] closed_tl[of t ts] by (cases ts) (auto simp: fits_def takeTok_def)
qed

definition takeW :: "pst \<Rightarrow> nat" where "takeW s = (if nonEof s then 1 else 0)"

lemma fits_take [wp]: "fits W F s \<Longrightarrow> fits (W - takeW s) F (takeTok s)"
  by (cases "nonEof s") (simp_all add: takeW_def fits_takeTok fits_strict[unfolded One_nat_def])

lemma fits_if [wp]:
  "fits W F s \<Longrightarrow> fits W F (if c then takeTok s else s)"
  "fits W F s \<Longrightarrow> fits W F (if c then markNode p m s else s)"
  "fits W F s \<Longrightarrow> fits W F (case x of Some y \<Rightarrow> markNode p (g y) s | None \<Rightarrow> s)"
  by (auto intro: fits_takeTok wp split: option.split)

lemmas ne = takeW_def nonEof_def at_def atKind_def segKind_def atAny_def atShift_def cur_def

section \<open>Tokens and types\<close>

lemma good_mkNodeAt [goods]: "good 0 m (mkNodeAt f)"
  by (rule goodI) (auto simp: mkNodeAt_def post_def fits_def)

lemma good_mk [goods]: "good 0 m (mkExpr k)" "good 0 m (mkStmt j)" "good 0 m (mkBin opr l r)"
  by (simp_all add: mkExpr_def mkStmt_def mkBin_def good_mkNodeAt)

lemma good_expect [goods]: "v \<noteq> [] \<Longrightarrow> good 1 m (expect v)"
  unfolding expect_def by (rule goodI, (rule order_refl | assumption | rule wp call goods | (auto simp: ne; fail))+)

lemma good_expectIdent [goods]: "good 1 m (expectIdent what)"
  unfolding expectIdent_def by (rule goodI, (rule order_refl | assumption | rule wp call goods | (auto simp: ne; fail))+)

lemma good_zero: "good b 0 p"
  using fits_pos by (force intro!: goodI)

lemma good_wrap [goods]:
  assumes "good b m p"
  shows "good b m (withCond c p)" "good b m (typeDeeper p)" "good b m (deeper w p)"
proof -
  have *: "post (\<lambda>_. fits (W - b) F) (pBind (p (f s)) (\<lambda>x s1. Parsed x (g s1)))"
    if "W \<le> m" "fits W F s" and f: "\<And>s. ps_toks (f s) = ps_toks s" "\<And>s. ps_toks (g s) = ps_toks s"
      and g: "\<And>s1. frame s1 = frame (f s) \<Longrightarrow> frame (g s1) = frame s" for W F s f g
  proof -
    have "fits W (frame (f s)) (f s)" using that(2) by (simp add: fits_def f)
    then have "post (\<lambda>_. fits (W - b) (frame (f s))) (p (f s))" using assms that(1) goodD by blast
    then show ?thesis using that(2) g by (cases "p (f s)") (auto simp: post_def fits_def f)
  qed
  show "good b m (withCond c p)"
    unfolding withCond_def by (rule goodI, rule *) (auto simp: frame_def)
  show "good b m (typeDeeper p)"
    unfolding typeDeeper_def
    by (rule goodI, rule post_if, rule post_Failed, rule *) (auto simp: frame_def)
  show "good b m (deeper w p)"
    unfolding deeper_def
    by (rule goodI, rule post_if, rule post_Failed, rule *) (auto simp: frame_def)
qed

lemma good_expectTypeName [goods]: "good 1 m (expectTypeName what)"
  unfolding expectTypeName_def by (rule goodI, (rule order_refl | assumption | rule wp call goods | (auto simp: ne; fail))+)

lemma good_typePath [goods]: "m \<le> n \<Longrightarrow> good 0 m (typePath n nm)"
proof (induction n arbitrary: m nm)
  case (Suc n)
  have IH: "\<And>nm. good 0 (m - 1) (typePath n nm)" by (intro Suc.IH) (use Suc.prems in simp_all)
  show ?case unfolding typePath.simps 
    by (insert Suc.prems, rule goodI, (rule order_refl | assumption | rule wp call goods IH | (auto simp: ne; fail))+)
qed (simp add: good_zero)

lemma good_typeList [goods]: "good 1 m ty \<Longrightarrow> m \<le> n \<Longrightarrow> good 1 m (typeList n ty)"
proof (induction n arbitrary: m)
  case (Suc n)
  have IH: "good 1 (m - 1) (typeList n ty)" by (intro Suc.IH good_mono[OF Suc.prems(1)]) (use Suc.prems in simp_all)
  show ?case unfolding typeList.simps 
    by (insert Suc.prems, rule goodI, (rule order_refl | assumption | rule wp call goods IH | (auto simp: ne; fail))+)
qed (simp add: good_zero)

lemma good_paramTypes [goods]: "good 1 m ty \<Longrightarrow> m \<le> n \<Longrightarrow> good 0 m (paramTypes n ty)"
proof (induction n arbitrary: m)
  case (Suc n)
  have IH: "good 0 (m - 1) (paramTypes n ty)" by (intro Suc.IH good_mono[OF Suc.prems(1)]) (use Suc.prems in simp_all)
  show ?case unfolding paramTypes.simps 
    by (insert Suc.prems, rule goodI, (rule order_refl | assumption | rule wp call goods IH | (auto simp: ne; fail))+)
qed (simp add: good_zero)

lemma good_fixType [goods]: "good 0 m (mutType k t)" "good 0 m (nullableType t)"
  unfolding mutType_def nullableType_def mkNodeAt_def
  by (auto intro!: goodI simp: post_def fits_def split: ty.split)

lemma good_typeParts [goods]:
  assumes "good 1 m ty" "m \<le> n"
  shows "good 1 (Suc m) (parseFnType n ty)" "good 1 (Suc m) (arrayType ty)"
  unfolding parseFnType_def arrayType_def
  by (insert assms, (rule goodI, (rule order_refl | assumption | rule wp call goods | (auto simp: ne; fail))+)+)

lemma post_namedType [wp]:
  assumes "good 1 m ty" "m \<le> n" "nonEof s" "fits W F s" "W \<le> Suc m" "W - 1 \<le> V"
  shows "post (\<lambda>_. fits V F) (namedType n ty s)"
  unfolding namedType_def
  by (insert assms, (rule order_refl | assumption | rule wp call goods | (auto simp: ne; fail))+)

lemma good_parseTypeInner [goods]: "good 1 m ty \<Longrightarrow> m \<le> n \<Longrightarrow> good 1 (Suc m) (parseTypeInner n ty)"
  unfolding parseTypeInner_def
  by (rule goodI, (rule order_refl | assumption | rule wp call goods | (auto simp: ne; fail))+)

lemma good_parseType [goods]: "m \<le> n \<Longrightarrow> good 1 m (parseType n)"
proof (induction n arbitrary: m)
  case (Suc n)
  have "good 1 (Suc (m - 1)) (parseTypeInner n (parseType n))"
    using Suc by (intro good_parseTypeInner) simp_all
  then have "good 1 m (parseTypeInner n (parseType n))" by (rule good_mono) simp
  moreover have "parseType (Suc n) = typeDeeper (parseTypeInner n (parseType n))" by (rule HOL.ext) simp
  ultimately show ?case by (simp only: good_wrap)
qed (simp add: good_zero)

section \<open>Expressions\<close>

lemma good_untilList [goods]: "good 1 m item \<Longrightarrow> m \<le> n \<Longrightarrow> good 0 m (untilList n close item)"
proof (induction n arbitrary: m)
  case (Suc n)
  have IH: "good 0 (m - 1) (untilList n close item)" by (intro Suc.IH good_mono[OF Suc.prems(1)]) (use Suc.prems in simp_all)
  show ?case unfolding untilList.simps
    by (insert Suc.prems, rule goodI, (rule order_refl | assumption | rule wp call goods IH | (auto simp: ne; fail))+)
qed (simp add: good_zero)

lemma good_initList [goods]: "good 1 m pe \<Longrightarrow> m \<le> n \<Longrightarrow> good 0 m (initList n pe)"
proof (induction n arbitrary: m)
  case (Suc n)
  have IH: "good 0 (m - 1) (initList n pe)" by (intro Suc.IH good_mono[OF Suc.prems(1)]) (use Suc.prems in simp_all)
  show ?case unfolding initList.simps
    by (insert Suc.prems, rule goodI, (rule order_refl | assumption | rule wp call goods IH | (auto simp: ne; fail))+)
qed (simp add: good_zero)

lemma good_elemList [goods]: "good 1 m pe \<Longrightarrow> m \<le> n \<Longrightarrow> good 0 m (elemList n pe)"
proof (induction n arbitrary: m)
  case (Suc n)
  have IH: "good 0 (m - 1) (elemList n pe)" by (intro Suc.IH good_mono[OF Suc.prems(1)]) (use Suc.prems in simp_all)
  show ?case unfolding elemList.simps
    by (insert Suc.prems, rule goodI, (rule order_refl | assumption | rule wp call goods IH | (auto simp: ne; fail))+)
qed (simp add: good_zero)

lemma good_seq [goods]: "good b m p \<Longrightarrow> (\<And>x. good 0 m (k x)) \<Longrightarrow> good b m (\<lambda>s. pBind (p s) k)"
  by (rule goodI, rule post_bind, (rule order_refl | assumption | rule call)+) (auto intro!: call)

lemma good_ret [goods]: "good 0 m (\<lambda>s. Parsed x (skipNl s))"
  by (rule goodI) (auto intro: wp)

lemma good_parseArgs [goods]: "good 1 m pe \<Longrightarrow> m \<le> n \<Longrightarrow> good 1 (Suc m) (parseArgs n pe)"
  unfolding parseArgs_def by (rule goodI, (rule order_refl | assumption | rule wp call goods | (auto simp: ne; fail))+)

lemma good_methodNode [goods]: "good 0 m (methodNode e name as)"
  unfolding methodNode_def mkExpr_def mkNodeAt_def
  by (auto intro!: goodI wp simp: post_def fits_def markNode_def split: ekind.split option.split)

lemma good_postfixDot [goods]: "good 1 m pe \<Longrightarrow> m \<le> n \<Longrightarrow> good 1 (Suc m) (postfixDot n pe e)"
  unfolding postfixDot_def by (rule goodI, (rule order_refl | assumption | rule wp call goods | (auto simp: ne; fail))+)

lemma good_rangeRest [goods]: "good 1 m pe \<Longrightarrow> good 0 m (rangeRest pe lo)"
  unfolding rangeRest_def by (rule goodI, (rule order_refl | assumption | rule wp call goods | (auto simp: ne; fail))+)

lemma good_bracketInside [goods]: "good 1 m pe \<Longrightarrow> good 0 m (bracketInside pe)"
  unfolding bracketInside_def by (rule goodI, (rule order_refl | assumption | rule wp call goods | (auto simp: ne; fail))+)

lemma post_postfixBracket [wp]:
  assumes "good 1 m pe" "fits W F s" "nonEof s" "W \<le> Suc m" "W - 1 \<le> V"
  shows "post (\<lambda>_. fits V F) (postfixBracket pe e s)"
  unfolding postfixBracket_def
  by (insert assms, (rule order_refl | assumption | rule wp call goods | (auto simp: ne; fail))+)

lemma good_postfixLoop [goods]: "good 1 m pe \<Longrightarrow> m \<le> n \<Longrightarrow> good 0 m (postfixLoop n pe e)"
proof (induction n arbitrary: m e)
  case (Suc n)
  have pe: "good 1 (m - 1) pe" "m - 1 \<le> n" "m \<le> Suc (m - 1)"
    using Suc.prems by (auto intro: good_mono)
  have IH: "\<And>e. good 0 (m - 1) (postfixLoop n pe e)" by (intro Suc.IH pe)
  show ?case unfolding postfixLoop.simps
    by (insert pe, rule goodI, (rule order_refl | assumption | rule wp call goods IH | (auto simp: ne; fail))+)
qed (simp add: good_zero)

lemma good_parseStructLit [goods]: "good 1 m pe \<Longrightarrow> m \<le> n \<Longrightarrow> good 1 (Suc m) (parseStructLit n pe nm)"
  unfolding parseStructLit_def by (rule goodI, (rule order_refl | assumption | rule wp call goods | (auto simp: ne; fail))+)

lemma post_parseArrayLit [wp]:
  assumes "good 1 m pe" "m \<le> n" "fits W F s" "nonEof s" "W \<le> Suc m" "W - 1 \<le> V"
  shows "post (\<lambda>_. fits V F) (parseArrayLit n pe s)"
  unfolding parseArrayLit_def
  by (insert assms, (rule order_refl | assumption | rule wp call goods | (auto simp: ne; fail))+)

lemma post_convOperand [wp]:
  assumes "good 1 m pe" "fits W F s" "nonEof s" "W \<le> Suc m" "W - 1 \<le> V"
  shows "post (\<lambda>_. fits V F) (convOperand pe s)"
  unfolding convOperand_def
  by (insert assms, (rule order_refl | assumption | rule wp call goods | (auto simp: ne; fail))+)

lemma post_namedConv [wp]:
  assumes "good 1 m pe" "fits W F s" "nonEof s" "W \<le> Suc m" "W - 1 \<le> V"
  shows "post (\<lambda>_. fits V F) (namedConv pe ty s)"
  unfolding namedConv_def
  by (insert assms, (rule order_refl | assumption | rule wp call goods | (auto simp: ne; fail))+)

lemma post_parseNew [wp]:
  assumes "good 1 m pe" "good 1 m pt" "fits W F s" "nonEof s" "W \<le> Suc m" "W - 1 \<le> V"
  shows "post (\<lambda>_. fits V F) (parseNew pe pt s)"
  unfolding parseNew_def
  by (insert assms, (rule order_refl | assumption | rule wp call goods | (auto simp: ne; fail))+)

lemma good_parseFnConv [goods]: "good 1 m pe \<Longrightarrow> good 1 m pt \<Longrightarrow> m \<le> n \<Longrightarrow> good 1 (Suc m) (parseFnConv n pe pt)"
  unfolding parseFnConv_def by (rule goodI, (rule order_refl | assumption | rule wp call goods | (auto simp: ne; fail))+)

lemma good_lambdaParam [goods]: "good 1 m pt \<Longrightarrow> good 1 m (lambdaParam pt)"
  unfolding lambdaParam_def by (rule goodI, (rule order_refl | assumption | rule wp call goods | (auto simp: ne; fail))+)

lemma good_lambdaCapture [goods]: "good 1 m (lambdaCapture)"
  unfolding lambdaCapture_def by (rule goodI, (rule order_refl | assumption | rule wp call goods | (auto simp: ne; fail))+)

lemma good_lambdaCaptures [goods]: "m \<le> n \<Longrightarrow> good 0 m (lambdaCaptures n)"
  unfolding lambdaCaptures_def by (rule goodI, (rule order_refl | assumption | rule wp call goods | (auto simp: ne; fail))+)

lemma good_retType [goods]: "good 1 m pt \<Longrightarrow> good 0 m (retType pt)"
  unfolding retType_def by (rule goodI, (rule order_refl | assumption | rule wp call goods | (auto simp: ne; fail))+)

lemma good_parseLambda [goods]: "good 1 m pe \<Longrightarrow> good 1 m pb \<Longrightarrow> good 1 m pt \<Longrightarrow> m \<le> n \<Longrightarrow> good 1 (Suc m) (parseLambda n pe pb pt)"
  unfolding parseLambda_def by (rule goodI, (rule order_refl | assumption | rule wp call goods | (auto simp: ne; fail))+)


section \<open>Names and primary expressions\<close>

lemma post_takePath [wp]:
  assumes "fits W F s" "\<And>a b. fits W F b \<Longrightarrow> post Q (f a b)"
  shows "post Q (case takePath k nm s of (a, b) \<Rightarrow> f a b)"
proof -
  have "fits W F (snd (takePath k nm s))" using assms(1)
    by (induction k nm s rule: takePath.induct) (auto simp: Let_def intro: fits_takeTok)
  then show ?thesis using assms(2) by (cases "takePath k nm s") auto
qed

lemma good_assocArgs [goods]: "good 1 m pt \<Longrightarrow> m \<le> n \<Longrightarrow> good 0 m (assocArgs n pt)"
  unfolding assocArgs_def by (rule goodI, (rule order_refl | assumption | rule wp call goods | (auto simp: ne; fail))+)

lemma good_optArgs [goods]: "good 1 m pe \<Longrightarrow> m \<le> n \<Longrightarrow> good 0 m (optArgs n pe)"
  unfolding optArgs_def by (rule goodI, (rule order_refl | assumption | rule wp call goods | (auto simp: ne; fail))+)

lemma good_parseAssoc [goods]: "good 1 m pe \<Longrightarrow> good 1 m pt \<Longrightarrow> m \<le> n \<Longrightarrow> good 0 m (parseAssoc n pe pt nm)"
  unfolding parseAssoc_def by (rule goodI, (rule order_refl | assumption | rule wp call goods | (auto simp: ne; fail))+)

lemma good_parseName [goods]: "good 1 m pe \<Longrightarrow> good 1 m pt \<Longrightarrow> m \<le> n \<Longrightarrow> good 0 m (parseName n pe pt t)"
  unfolding parseName_def by (rule goodI, (rule order_refl | assumption | rule wp call goods | (auto simp: ne; fail))+)

lemma good_parsePrimary [goods]: "good 1 m pe \<Longrightarrow> good 1 m pb \<Longrightarrow> good 1 m pt \<Longrightarrow> m \<le> n \<Longrightarrow> good 1 (Suc m) (parsePrimary n pe pb pt)"
  unfolding parsePrimary_def by (rule goodI, (rule order_refl | assumption | rule wp call goods | (auto simp: ne; fail))+)

lemma good_parsePostfix [goods]: "good 1 m pe \<Longrightarrow> good 1 m pb \<Longrightarrow> good 1 m pt \<Longrightarrow> m \<le> n \<Longrightarrow> good 1 (Suc m) (parsePostfix n pe pb pt)"
  unfolding parsePostfix_def by (rule goodI, (rule order_refl | assumption | rule wp call goods | (auto simp: ne; fail))+)

lemma good_parseUnaryInner [goods]: "good 1 m pu \<Longrightarrow> good 1 (Suc m) pf \<Longrightarrow> good 1 (Suc m) (parseUnaryInner pu pf)"
  unfolding parseUnaryInner_def by (rule goodI, (rule order_refl | assumption | rule wp call goods | (auto simp: ne; fail))+)


section \<open>The tokens of a slot\<close>

text \<open>A scan emits at most as much weight as it has read characters, and the closing newline and marker.\<close>

definition plain :: "lexer \<Rightarrow> lexer \<Rightarrow> bool" where
  "plain lx lx' \<longleftrightarrow> lx_out lx' = lx_out lx \<or> (\<exists>u. lx_out lx' = lx_out lx @ [u] \<and> t_kind u \<noteq> TK_FSTRING)"

lemma plain_push: "lx_out a = lx_out lx \<Longrightarrow> k \<noteq> TK_FSTRING \<Longrightarrow> plain lx (lxPushAt k s v l c a)"
  by (simp add: plain_def lxPushAt_def)

lemma plain_same: "lx_out a = lx_out lx \<Longrightarrow> plain lx a" by (simp add: plain_def)

lemma plain_ctxErr: "plain lx a \<Longrightarrow> plain lx (ctxErr l c e a)" by (simp add: plain_def)

lemma plain_scans:
  "plain lx (pushNewline l c (lxAdvance lx))" "plain lx (lexNumber lx)" "plain lx (lexIdent l c lx)"
  "plain lx (lexString l c lx)" "plain lx (lexChar l c lx)" "plain lx (fst (lexPunct l c lx))"
proof -
  show "plain lx (pushNewline l c (lxAdvance lx))"
    by (auto simp: pushNewline_def intro: plain_push plain_same split: option.split)
  show "plain lx (lexNumber lx)"
    by (simp add: lexNumber_def lexHex_def pushNumber_def Let_def numEnd_frame
      plain_push plain_ctxErr plain_same split: option.split)
  show "plain lx (lexIdent l c lx)"
    by (auto simp: lexIdent_def identKind_def Let_def intro!: plain_push)
  show "plain lx (lexString l c lx)"
    using strLoop_moves[of "lxAdvance lx" l c]
    by (auto simp: lexString_def Let_def plain_def lxPushAt_def split: prod.split)
  show "plain lx (lexChar l c lx)"
    using lexEscape_moves(3)[of l c "''a character literal''"]
    by (simp add: lexChar_def pushChar_def Let_def plain_push plain_ctxErr plain_same split: option.split)
  show "plain lx (fst (lexPunct l c lx))"
    by (simp add: lexPunct_def plain_push plain_ctxErr plain_same split: option.split)
qed

lemma plain_weight: "plain lx lx' \<Longrightarrow> toksW (lx_out lx') \<le> toksW (lx_out lx) + 1"
  by (auto simp: plain_def tokW_def)

lemma fstring_weight:
  assumes "lx_err (lexString l c (lxAdvance lx)) = None"
  shows "toksW (lx_out (asFString (lexString l c (lxAdvance lx)))) + lx_pos lx
    \<le> toksW (lx_out lx) + lx_pos (lexString l c (lxAdvance lx))"
proof -
  let ?b = "fst (strLoop l c (lxAdvance (lxAdvance lx)))"
  have "moves (lxAdvance (lxAdvance lx)) ?b" "lx_out ?b = lx_out lx"
    using strLoop_moves[of "lxAdvance (lxAdvance lx)" l c] by simp_all
  then have "length (lxText (Suc (Suc (lx_pos lx))) ?b) + 2 + lx_pos lx \<le> lx_pos ?b"
    by (auto simp: lxText_def moves_def)
  then show ?thesis
    using lexString_cases[OF assms] \<open>lx_out ?b = lx_out lx\<close>
    by (simp add: asFString_def lxLast_def lxPushAt_def tokW_def)
qed

lemma lexStep_weight:
  assumes p: "lx_pos lx < length (lx_src lx)" and g: "snd (lexStep lx)" and w: "toksW (lx_out lx) \<le> lx_pos lx"
  shows "toksW (lx_out (fst (lexStep lx))) \<le> lx_pos (fst (lexStep lx)) \<and>
    toksW (lx_out (fst (lexStep lx))) \<le> length (lx_src lx)"
proof -
  have adv: "lx_pos lx < lx_pos (fst (lexStep lx))" using lexStep_moves[OF p] g by blast
  have P: ?thesis if "plain lx (fst (lexStep lx))" using plain_weight[OF that] adv p w by simp
  show ?thesis
  proof (cases rule: lexStep_cases[of lx])
    case comment
    then show ?thesis using moves_comment g by (intro P) (auto simp: Let_def intro: plain_same)
  next
    case fstring
    let ?r = "lexString (lx_line lx) (lx_col lx) (lxAdvance lx)"
    have e: "lx_err ?r = None"
    proof (rule ccontr)
      assume "\<not> ?thesis"
      then show False using g fstring(3) by (simp add: Let_def del: not_None_eq)
    qed
    have "lx_src (fst (strLoop (lx_line lx) (lx_col lx) (lxAdvance (lxAdvance lx)))) = lx_src lx"
      using strLoop_moves[of "lxAdvance (lxAdvance lx)" "lx_line lx" "lx_col lx"] by (simp add: moves_def)
    then have "lx_pos ?r \<le> length (lx_src lx)" using lexString_cases[OF e] by simp
    then show ?thesis using fstring_weight[OF e] fstring(3) e w by simp
  qed (rule P, simp add: orStop_def plain_scans plain_same)+
qed

lemma lexRange_weight:
  assumes "lexRange None src l c [] = (toks, None)"
  shows "closedToks toks" "toksW toks \<le> length src + 2"
proof -
  let ?i = "\<lparr>lx_src = src, lx_pos = 0, lx_line = l, lx_col = c, lx_out = [], lx_err = None\<rparr>"
  let ?lx = "fst (lexLoop ?i)"
  let ?P = "\<lambda>lx. lx_src lx = src \<and> toksW (lx_out lx) \<le> lx_pos lx \<and> toksW (lx_out lx) \<le> length src"
  have ok: "snd (lexLoop ?i)"
    using lexLoop_ok[of ?i] assms by (auto simp: lexRange_def Let_def split: if_splits)
  have P: "?P ?lx"
    by (rule lexLoop_inv[where P = ?P, OF _ _ ok]) (use lexStep_weight lexStep_moves in auto)
  have toks: "toks = lx_out (pushNewline (lx_line ?lx) (lx_col ?lx) ?lx) @
      [\<lparr>t_kind = TK_EOF, t_text = [], t_ival = 0, t_line = lx_line ?lx, t_col = lx_col ?lx\<rparr>]"
    using assms ok by (simp add: lexRange_def Let_def lxPushAt_def)
  show "closedToks toks" by (simp add: toks closedToks_def)
  have "toksW (lx_out (pushNewline a b ?lx)) \<le> toksW (lx_out ?lx) + 1" for a b
    by (auto simp: pushNewline_def lxPushAt_def tokW_def split: option.split)
  then show "toksW toks \<le> length src + 2" using P by (auto simp: toks tokW_def intro: order_trans)
qed

end
