(* ===== verification/Parser_TotalStmt.thy ===== *)
theory Parser_TotalStmt
  imports Parser_Total
begin

text \<open>Progress of the f-strings, the binary operators, the statements, and of the recursion between them.\<close>

section \<open>F-strings\<close>

lemma slotLen_less: "slotLen d st cs = Some k \<Longrightarrow> k < length cs"
proof (induction d st cs arbitrary: k rule: slotLen.induct)
  case (2 d c cs)
  then show ?case by (fastforce split: if_splits list.splits)
next
  case (3 d c cs)
  then show ?case by (fastforce split: if_splits)
qed simp

lemma good_fmtStr [goods]: "good 0 m (fmtStr txt)" "good 0 m (fmtFlush lhs txt)"
proof -
  show *: "good 0 m (fmtStr txt)" for m by (simp add: fmtStr_def goods)
  show "good 0 m (fmtFlush lhs txt)"
    unfolding fmtFlush_def by (rule goodI, (rule order_refl | assumption | rule wp call goods * | (auto simp: ne; fail))+)
qed

lemma good_fmtSlot [goods]:
  assumes "good 1 m pe" "length inner + 2 \<le> m"
  shows "good 0 M (fmtSlot pe ft col inner)"
proof (rule goodI)
  fix W F s assume s: "fits W F s"
  let ?r = "lexRange None inner (t_line ft) (col + 1) []"
  show "post (\<lambda>_. fits (W - 0) F) (fmtSlot pe ft col inner s)"
  proof (cases "snd ?r")
    case None
    then obtain toks where r: "?r = (toks, None)" by (cases ?r) auto
    let ?s = "s\<lparr>ps_toks := toks, ps_inCond := False\<rparr>"
    have "fits (toksW toks) (frame ?s) ?s" "toksW toks \<le> m"
      using lexRange_weight[OF r] assms(2) by (simp_all add: fits_def)
    then have "post (\<lambda>_. fits (toksW toks - 1) (frame ?s)) (pe ?s)" using assms(1) goodD by blast
    then show ?thesis
      unfolding fmtSlot_def r prod.case option.case using s
      by (cases "pe ?s") (auto simp: post_def fits_def frame_def)
  qed (cases ?r; simp add: fmtSlot_def post_def)
qed

lemma good_fmtGo [goods]:
  "good 1 m pe \<Longrightarrow> length src \<le> m \<Longrightarrow> length src < n \<Longrightarrow> good 0 M (fmtGo n pe ft lhs w col src)"
proof (induction n arbitrary: lhs w col src M)
  case (Suc n)
  have IH: "\<And>lhs w col M. length ds < length src \<Longrightarrow> good 0 M (fmtGo n pe ft lhs w col ds)" for ds
    by (rule Suc.IH) (use Suc.prems in simp_all)
  show ?case
  proof (cases src)
    case Nil
    then show ?thesis by (simp add: good_fmtStr)
  next
    case (Cons c cs)
    have slot: "good 0 M (fmtSlot pe ft col (take k cs))" if "slotLen 1 False cs = Some k" for k M col
      using slotLen_less[OF that] Suc.prems Cons by (intro good_fmtSlot[where m = m]) simp_all
    show ?thesis
      unfolding fmtGo.simps Cons list.case
      by (rule goodI, (rule order_refl | assumption | rule wp call slot IH goods | (simp add: Cons; fail))+)
  qed
qed simp

lemma post_fmtSplice [wp]:
  assumes "good 1 m pe" "fits W F s" "atKind s TK_FSTRING" "W \<le> Suc m" "W - 1 \<le> V"
  shows "post (\<lambda>_. fits V F) (fmtSplice pe (cur s) e (takeTok s))"
proof -
  obtain t ts where s: "ps_toks s = t # ts" using assms(2) by (auto simp: fits_def closedToks_def neq_Nil_conv)
  then have c: "cur s = t" by (simp add: cur_def pk_def)
  have "length (t_text t) + 2 \<le> W" using assms(2,3) s c by (simp add: fits_def atKind_def tokW_def)
  then have "good 0 W (fmtGo (length (t_text t) + 1) pe t e [] (t_col t + 2) (t_text t))"
    using assms(1,4) by (intro good_fmtGo[where m = m]) simp_all
  note G = this
  show ?thesis
    unfolding fmtSplice_def c
    by (insert assms G, (rule order_refl | assumption | rule wp call goods | (auto simp: ne; fail))+)
qed

section \<open>Binary operators\<close>

lemma good_binLoop [goods]: "good 1 m sub \<Longrightarrow> m \<le> n \<Longrightarrow> good 0 m (binLoop n ops sub e)"
proof (induction n arbitrary: m e)
  case (Suc n)
  have IH: "\<And>e. good 0 (m - 1) (binLoop n ops sub e)" by (intro Suc.IH good_mono[OF Suc.prems(1)]) (use Suc.prems in simp_all)
  show ?case unfolding binLoop.simps
    by (insert Suc.prems, rule goodI, (rule order_refl | assumption | rule wp call goods IH | (auto simp: ne; fail))+)
qed (simp add: good_zero)

lemma good_binLevel [goods]: "good 1 (Suc m) sub \<Longrightarrow> m \<le> n \<Longrightarrow> good 1 (Suc m) (binLevel n ops sub)"
  unfolding binLevel_def
  by (frule good_mono[of 1 "Suc m" sub m], simp, rule goodI, (rule order_refl | assumption | rule wp call goods | (auto simp: ne; fail))+)

lemma good_shiftLoop [goods]: "good 1 m pe \<Longrightarrow> good 1 m sub \<Longrightarrow> m \<le> n \<Longrightarrow> good 0 m (shiftLoop n pe sub e)"
proof (induction n arbitrary: m e)
  case (Suc n)
  have IH: "\<And>e. good 0 (m - 1) (shiftLoop n pe sub e)" by (intro Suc.IH good_mono[OF Suc.prems(1)] good_mono[OF Suc.prems(2)]) (use Suc.prems in simp_all)
  show ?case unfolding shiftLoop.simps
    by (insert Suc.prems, rule goodI, (rule order_refl | assumption | rule wp call goods IH | (auto simp: ne; fail))+)
qed (simp add: good_zero)

lemma good_coalesceLoop [goods]: "good 1 m pe \<Longrightarrow> m \<le> n \<Longrightarrow> good 0 m (coalesceLoop n pe e)"
proof (induction n arbitrary: m e)
  case (Suc n)
  have IH: "\<And>e. good 0 (m - 1) (coalesceLoop n pe e)" by (intro Suc.IH good_mono[OF Suc.prems(1)]) (use Suc.prems in simp_all)
  show ?case unfolding coalesceLoop.simps
    by (insert Suc.prems, rule goodI, (rule order_refl | assumption | rule wp call goods IH | (auto simp: ne; fail))+)
qed (simp add: good_zero)

lemma good_parseTerm [goods]: "good 1 (Suc m) pu \<Longrightarrow> m \<le> n \<Longrightarrow> good 1 (Suc m) (parseTerm n pu)"
  unfolding parseTerm_def parseFactor_def by (intro goods)

lemma good_parseShift [goods]: "good 1 m pe \<Longrightarrow> good 1 (Suc m) pu \<Longrightarrow> m \<le> n \<Longrightarrow> good 1 (Suc m) (parseShift n pe pu)"
  unfolding parseShift_def
  by (frule good_parseTerm, assumption, frule good_mono[of 1 "Suc m" "parseTerm n pu" m], simp, rule goodI, (rule order_refl | assumption | rule wp call goods | (auto simp: ne; fail))+)

lemma good_parseOr [goods]: "good 1 m pe \<Longrightarrow> good 1 (Suc m) pu \<Longrightarrow> m \<le> n \<Longrightarrow> good 1 (Suc m) (parseOr n pe pu)"
  unfolding parseOr_def parseAnd_def parseBitOr_def parseBitXor_def parseBitAnd_def parseEquality_def parseComparison_def
  by (intro good_binLevel good_parseShift)

lemma good_parseCoalesceWith [goods]: "good 1 m pe \<Longrightarrow> good 1 (Suc m) pu \<Longrightarrow> m \<le> n \<Longrightarrow> good 1 (Suc m) (parseCoalesceWith n pe pu)"
  unfolding parseCoalesceWith_def by (rule goodI, (rule order_refl | assumption | rule wp call goods | (auto simp: ne; fail))+)

section \<open>Statements\<close>

lemma good_stmtList [goods]: "good 1 m ps \<Longrightarrow> m \<le> n \<Longrightarrow> good 0 m (stmtList n ps)"
proof (induction n arbitrary: m)
  case (Suc n)
  have IH: "good 0 (m - 1) (stmtList n ps)" by (intro Suc.IH good_mono[OF Suc.prems(1)]) (use Suc.prems in simp_all)
  show ?case unfolding stmtList.simps
    by (insert Suc.prems, rule goodI, (rule order_refl | assumption | rule wp call goods IH | (auto simp: ne; fail))+)
qed (simp add: good_zero)

lemma good_parseBlockInner [goods]: "good 1 m ps \<Longrightarrow> m \<le> n \<Longrightarrow> good 1 (Suc m) (parseBlockInner n ps)"
  unfolding parseBlockInner_def by (rule goodI, (rule order_refl | assumption | rule wp call goods | (auto simp: ne; fail))+)

lemma good_bindList [goods]: "m \<le> n \<Longrightarrow> good 0 m (bindList n)"
proof (induction n arbitrary: m)
  case (Suc n)
  have IH: "good 0 (m - 1) (bindList n)" by (intro Suc.IH) (use Suc.prems in simp_all)
  show ?case unfolding bindList.simps
    by (insert Suc.prems, rule goodI, (rule order_refl | assumption | rule wp call goods IH | (auto simp: ne; fail))+)
qed (simp add: good_zero)

lemma good_matchBinds [goods]: "m \<le> n \<Longrightarrow> good 0 m (matchBinds n)"
  unfolding matchBinds_def by (rule goodI, (rule order_refl | assumption | rule wp call goods | (auto simp: ne; fail))+)

lemma good_parseArm [goods]: "good 1 m pb \<Longrightarrow> good 1 m ps \<Longrightarrow> m \<le> n \<Longrightarrow> good 1 m (parseArm n pb ps)"
  unfolding parseArm_def by (rule goodI, (rule order_refl | assumption | rule wp call goods | (auto simp: ne; fail))+)

lemma good_parseMatch [goods]: "good 1 (Suc m) pe \<Longrightarrow> good 1 m pb \<Longrightarrow> good 1 m ps \<Longrightarrow> m \<le> n \<Longrightarrow> good 1 (Suc m) (parseMatch n pe pb ps)"
  unfolding parseMatch_def by (rule goodI, (rule order_refl | assumption | rule wp call goods | (auto simp: ne; fail))+)

lemma good_typeAnn [goods]: "good 1 m pt \<Longrightarrow> good 0 m (typeAnn pt)"
  unfolding typeAnn_def by (rule goodI, (rule order_refl | assumption | rule wp call goods | (auto simp: ne; fail))+)

lemma good_varYield [goods]: "good 1 m pe \<Longrightarrow> good 1 m (varYield pe nm ann)"
  unfolding varYield_def by (rule goodI, (rule order_refl | assumption | rule wp call goods | (auto simp: ne; fail))+)

lemma good_varInit [goods]: "good 1 m pe \<Longrightarrow> good 0 m (varInit pe ann)"
  unfolding varInit_def by (rule goodI, (rule order_refl | assumption | rule wp call goods | (auto simp: ne; fail))+)

lemma good_parseVarDecl [goods]: "good 1 m pe \<Longrightarrow> good 1 m pt \<Longrightarrow> good 1 m (parseVarDecl pe pt)"
  unfolding parseVarDecl_def by (rule goodI, (rule order_refl | assumption | rule wp call goods | (auto simp: ne; fail))+)

lemma good_elsePart [goods]: "good 1 m pb \<Longrightarrow> good 1 m pif \<Longrightarrow> good 0 m (elsePart pb pif)"
  unfolding elsePart_def by (rule goodI, (rule order_refl | assumption | rule wp call goods | (auto simp: ne; fail))+)

lemma good_parseIfWith [goods]:
  "good 1 (Suc m) pe \<Longrightarrow> good 1 m pb \<Longrightarrow> good 1 m pif \<Longrightarrow> good 1 (Suc m) (parseIfWith pe pb pif)"
  unfolding parseIfWith_def by (rule goodI, (rule order_refl | assumption | rule wp call goods | (auto simp: ne; fail))+)

lemma good_parseWhile [goods]: "good 1 m pe \<Longrightarrow> good 1 m pb \<Longrightarrow> good 1 m (parseWhile pe pb)"
  unfolding parseWhile_def by (rule goodI, (rule order_refl | assumption | rule wp call goods | (auto simp: ne; fail))+)


lemma good_forParts [goods]:
  "good 0 m (forIdent nm)" "good 0 m (forInt v)" "good 0 m (forBlock ss)"
  by (simp_all add: forIdent_def forInt_def forBlock_def goods)

lemma good_forStep [goods]: "good 0 m (forStep a opr e)"
  unfolding forStep_def by (rule goodI, (rule order_refl | assumption | rule wp call goods | (auto simp: ne; fail))+)

lemma good_forBody [goods]: "good 0 m (forBody ss step)"
  unfolding forBody_def by (rule goodI, (rule order_refl | assumption | rule wp call goods | (auto simp: ne; fail))+)

lemma good_forRange [goods]: "good 0 m (forRange vn lo hi body)"
  unfolding forRange_def by (rule goodI, (rule order_refl | assumption | rule wp call goods | (auto simp: ne; fail))+)

lemma good_forEach [goods]: "good 0 m (forEach vn c body)"
  unfolding forEach_def by (rule goodI, (rule order_refl | assumption | rule wp call goods | (auto simp: ne; fail))+)

lemma good_forUpper [goods]: "good 1 m pe \<Longrightarrow> good 0 m (forUpper pe)"
  unfolding forUpper_def by (rule goodI, (rule order_refl | assumption | rule wp call goods | (auto simp: ne; fail))+)

lemma post_forPlain [wp]:
  assumes "good 1 m pe" "good 1 m pb" "good 1 m ps" "fits W F s" "nonEof s" "W \<le> Suc m" "W - 1 \<le> V"
  shows "post (\<lambda>_. fits V F) (forPlain pe pb ps s)"
  unfolding forPlain_def
  by (insert assms, (rule order_refl | assumption | rule wp call goods | (auto simp: ne; fail))+)

lemma good_parseFor [goods]: "good 1 m pe \<Longrightarrow> good 1 m pb \<Longrightarrow> good 1 m ps \<Longrightarrow> good 1 (Suc m) (parseFor pe pb ps)"
  unfolding parseFor_def by (rule goodI, (rule order_refl | assumption | rule wp call goods | (auto simp: ne; fail))+)


lemma post_ident [wp]:
  "(\<And>a b. post Q (f a b)) \<Longrightarrow> post Q r \<Longrightarrow> post Q (case k of EX_IDENT a b \<Rightarrow> f a b | _ \<Rightarrow> r)"
  by (cases k) simp_all

lemma fits_global [wp]: "fits W F s \<Longrightarrow> fits W F (if c then (takeTok s)\<lparr>ps_sawGlobal := b\<rparr> else s)"
  by (simp add: fits_takeTok fits_upd)

lemma fits_marked [wp]: "fits W F s \<Longrightarrow> fits W F ((if c then markNode p k s else s)\<lparr>ps_sawGlobal := b\<rparr>)"
  by (simp add: fits_upd)

lemma good_afterExpr [goods]: "good 1 m pe \<Longrightarrow> good 1 m pb \<Longrightarrow> good 0 m (afterExpr pe pb t e)"
  unfolding afterExpr_def by (rule goodI, (rule order_refl | assumption | rule wp call goods | (auto simp: ne; fail))+)

lemma good_annotated [goods]: "good 1 m pe \<Longrightarrow> good 1 m pt \<Longrightarrow> good 1 m (annotated pe pt)"
  unfolding annotated_def by (rule goodI, (rule order_refl | assumption | rule wp call goods | (auto simp: ne; fail))+)

lemma good_yieldStmt [goods]: "good 1 m pe \<Longrightarrow> good 1 m (yieldStmt pe)"
  unfolding yieldStmt_def by (rule goodI, (rule order_refl | assumption | rule wp call goods | (auto simp: ne; fail))+)

lemma good_trapStmt [goods]: "good 1 m pe \<Longrightarrow> good 1 m (trapStmt pe)"
  unfolding trapStmt_def by (rule goodI, (rule order_refl | assumption | rule wp call goods | (auto simp: ne; fail))+)

lemma post_returnStmt [wp]:
  assumes "good 1 m pe" "fits W F s" "nonEof s" "W \<le> m" "W - 1 \<le> V"
  shows "post (\<lambda>_. fits V F) (returnStmt pe s)"
  unfolding returnStmt_def
  by (insert assms, (rule order_refl | assumption | rule wp call goods | (auto simp: ne; fail))+)

lemma good_parseStmtWith [goods]:
  assumes "good 1 (Suc m) pe" "good 1 (Suc m) pb" "good 1 (Suc m) pif" "good 1 (Suc m) pt" "good 1 m ps" "m \<le> n"
  shows "good 1 (Suc m) (parseStmtWith n pe pb ps pif pt)"
proof -
  have w: "good 1 m pe" "good 1 m pb" using assms by (auto intro: good_mono)
  show ?thesis unfolding parseStmtWith_def
    by (insert assms w, rule goodI, (rule order_refl | assumption | rule wp call goods | (auto simp: ne; fail))+)
qed

section \<open>The recursion\<close>

lemma parser_eqs:
  "parseCoalesce (Suc n) = parseCoalesceWith n (parseCoalesce n) (parseUnary n)"
  "parseUnary (Suc n) = deeper ''an expression'' (parseUnaryInner (parseUnary n)
     (parsePostfix n (parseCoalesce n) (parseBlock n) (parseType n)))"
  "parseBlock (Suc n) = deeper ''a block'' (parseBlockInner n (parseStmt n))"
  "parseStmt (Suc n) = parseStmtWith n (parseCoalesce n) (parseBlock n) (parseStmt n) (parseIf n) (parseType n)"
  "parseIf (Suc n) = parseIfWith (parseCoalesce n) (parseBlock n) (parseIf n)"
  by (rule HOL.ext, simp)+

text \<open>Four units of fuel for each unit of weight.\<close>

theorem parsers_good:
  "4 * m \<le> n + 2 \<Longrightarrow> good 1 m (parseCoalesce n)"
  "4 * m \<le> n + 3 \<Longrightarrow> good 1 m (parseUnary n)"
  "4 * m \<le> n + 3 \<Longrightarrow> good 1 m (parseBlock n)"
  "4 * m \<le> n \<Longrightarrow> good 1 m (parseStmt n)"
  "4 * m \<le> n + 1 \<Longrightarrow> good 1 m (parseIf n)"
proof (induction n arbitrary: m)
  case 0
  {
    case 1 then show ?case by (cases m) (simp_all add: good_zero)
  next
    case 2 then show ?case by (cases m) (simp_all add: good_zero)
  next
    case 3 then show ?case by (cases m) (simp_all add: good_zero)
  next
    case 4 then show ?case by (cases m) (simp_all add: good_zero)
  next
    case 5 then show ?case by (cases m) (simp_all add: good_zero)
  }
next
  case (Suc n)
  {
    case 1 then show ?case
      by (cases m) (auto simp: parser_eqs(1) good_zero simp del: One_nat_def intro!: good_parseCoalesceWith Suc.IH)
  next
    case 2 then show ?case
      by (cases m) (auto simp: parser_eqs(2) good_zero simp del: One_nat_def intro!: good_wrap good_parseUnaryInner good_parsePostfix good_parseType Suc.IH)
  next
    case 3 then show ?case
      by (cases m) (auto simp: parser_eqs(3) good_zero simp del: One_nat_def intro!: good_wrap good_parseBlockInner Suc.IH)
  next
    case 4 then show ?case
      by (cases m) (auto simp: parser_eqs(4) good_zero simp del: One_nat_def intro!: good_parseStmtWith good_parseType Suc.IH)
  next
    case 5 then show ?case
      by (cases m) (auto simp: parser_eqs(5) good_zero simp del: One_nat_def intro!: good_parseIfWith Suc.IH)
  }
qed


end
