(* ===== verification/Parser_Decl.thy ===== *)
theory Parser_Decl
  imports Parser_Stmt
begin

text \<open>Declarations and modules in front/parser.c. The records hold what the parser stores in the
  declarations of ast/ast.h (the fields that later passes fill are left out). The functions take the
  parsers of expressions, blocks and types as arguments; \<open>parseModule\<close> supplies them.\<close>

section \<open>Declarations\<close>

record effects =
  ef_has :: bool
  ef_addr :: nat
  ef_cont :: nat
  ef_fresh :: bool
  ef_thread :: nat

record pFunc =
  pf_name :: string
  pf_tparams :: "string list"
  pf_params :: "(string \<times> ty) list"
  pf_ret :: "ty option"
  pf_body :: "stmt option"
  pf_effects :: effects
  pf_inline :: bool
  pf_private :: bool
  pf_unchecked :: bool
  pf_builtin :: bool
  pf_extern :: "string option"
  pf_export :: bool
  pf_module :: bool
  pf_modName :: "string option"
  pf_modDesc :: "string option"

record pField =
  pl_name :: string
  pl_type :: ty
  pl_private :: bool
  pl_effects :: effects

record pStruct =
  pt_name :: string
  pt_tparams :: "string list"
  pt_fields :: "pField list"
  pt_methods :: "pFunc list"
  pt_private :: bool
  pt_noCopy :: bool
  pt_frozen :: bool
  pt_shares :: bool
  pt_pool :: bool

record pTrait =
  pr_name :: string
  pr_tparams :: "string list"
  pr_methods :: "pFunc list"

record pImpl =
  pi_type :: string
  pi_tparams :: "string list"
  pi_targs :: "ty list"
  pi_trait :: "string option"
  pi_traitArgs :: "ty list"
  pi_methods :: "pFunc list"

record pTypeDecl =
  pd_name :: string
  pd_tparams :: "string list"
  pd_variants :: "(string \<times> ty list) list"
  pd_private :: bool

record pGlobal =
  pg_name :: string
  pg_ann :: "ty option"
  pg_init :: "expr option"
  pg_mut :: bool
  pg_private :: bool

record pUse =
  pu_path :: string
  pu_short :: string
  pu_wildcard :: bool
  pu_names :: "string list"

record pModule =
  pm_uses :: "pUse list"
  pm_structs :: "pStruct list"
  pm_impls :: "pImpl list"
  pm_traits :: "pTrait list"
  pm_types :: "pTypeDecl list"
  pm_globals :: "pGlobal list"
  pm_funcs :: "pFunc list"

definition noEffects :: effects where
  "noEffects = \<lparr>ef_has = False, ef_addr = 0, ef_cont = 0, ef_fresh = False, ef_thread = 0\<rparr>"

section \<open>Imports\<close>

text \<open>The names between braces.\<close>

fun useNames :: "nat \<Rightarrow> pst \<Rightarrow> string list pres" where
  "useNames 0 s = Stuck"
| "useNames (Suc n) s = (if at s ''}'' then Parsed [] s
     else pBind (expectIdent ''a name to bring into scope (e.g. `{cin, cout}`)'' s) (\<lambda>nm s.
       if at s '','' then pBind (useNames n (takeTok s)) (\<lambda>ns s. Parsed (t_text nm # ns) s)
       else if \<not> at s ''}'' then Failed (ImportList (cur s))
       else Parsed [t_text nm] s))"

text \<open>The segments after the first one: path, short name, whether a star closes it, listed names.\<close>

fun usePath :: "nat \<Rightarrow> string \<Rightarrow> string \<Rightarrow> pst \<Rightarrow> (string \<times> string \<times> bool \<times> string list) pres" where
  "usePath 0 path short s = Stuck"
| "usePath (Suc n) path short s = (if \<not> at s ''::'' then Parsed (path, short, False, []) s
     else (let s1 = takeTok s in
       if at s1 ''*'' then Parsed (path, short, True, []) (takeTok s1)
       else if at s1 ''{'' then pBind (useNames n (takeTok s1)) (\<lambda>ns s. let s2 = takeTok s in
         if at s2 ''as'' then Failed (ImportListAs (cur s2)) else Parsed (path, short, False, ns) s2)
       else pBind (expectTypeName ''a module path segment'' s1) (\<lambda>seg s.
         usePath n (path @ ''::'' @ t_text seg) (t_text seg) s)))"

definition useAlias :: "pst \<Rightarrow> string option pres" where
  "useAlias s = (if at s ''as'' then pBind (expectIdent ''an alias name (e.g. `use std::sys::io as sysio`)'' (takeTok s)) (\<lambda>a s. Parsed (Some (t_text a)) s)
     else Parsed None s)"

definition parseUse :: "nat \<Rightarrow> pst \<Rightarrow> pUse pres" where
  "parseUse n s = pBind (expectTypeName ''a module path (e.g. `use std::io`)'' (takeTok s)) (\<lambda>first s.
     pBind (usePath n (t_text first) (t_text first) s) (\<lambda>(path, short, w, ns) s.
     pBind (useAlias s) (\<lambda>alias s.
     Parsed \<lparr>pu_path = path, pu_short = (case alias of Some a \<Rightarrow> a | None \<Rightarrow> short), pu_wildcard = w, pu_names = ns\<rparr> s)))"

section \<open>Effects\<close>

text \<open>The masks are unsigned 32-bit numbers. The second component is \<open>outSawThread\<close>.\<close>

fun effectsLoop :: "nat \<Rightarrow> effects \<Rightarrow> bool \<Rightarrow> pst \<Rightarrow> (effects \<times> bool) pres" where
  "effectsLoop 0 f saw s = Stuck"
| "effectsLoop (Suc n) f saw s = pBind (expectIdent ''`Addr`, `Cont` or `Thread`'' s) (\<lambda>nm s. pBind (expect ''='' s) (\<lambda>_ s.
     if \<not> atKind s TK_INT then Failed (EffectsInt (cur s))
     else (let bits = nat (t_ival (cur s) mod 2 ^ 32);
               k = (\<lambda>f saw s. if at s ''Addr'' \<or> at s ''Cont'' \<or> at s ''Thread'' then effectsLoop n f saw s else Parsed (f, saw) s)
       in if t_text nm = ''Addr'' then k (f\<lparr>ef_addr := bits\<rparr>) saw (takeTok s)
          else if t_text nm = ''Cont'' then k (f\<lparr>ef_cont := bits\<rparr>) saw (takeTok s)
          else if t_text nm = ''Ret'' then (if bits > 1 then Failed (EffectRange nm) else k (f\<lparr>ef_fresh := (bits = 0)\<rparr>) saw (takeTok s))
          else if t_text nm = ''Thread'' then (if bits > 1 then Failed (EffectRange nm) else k (f\<lparr>ef_thread := bits\<rparr>) True (takeTok s))
          else Failed (EffectUnknown nm))))"

definition parseEffectsClause :: "nat \<Rightarrow> effects \<Rightarrow> pst \<Rightarrow> (effects \<times> bool) pres" where
  "parseEffectsClause n f s = effectsLoop n (f\<lparr>ef_has := True, ef_thread := 1\<rparr>) False (takeTok s)"

section \<open>Functions\<close>

definition OPERATOR_NAMES :: "string list" where
  "OPERATOR_NAMES = [''=='', ''!='', ''<'', ''<='', ''>'', ''>='', ''+'', ''-'', ''*'', ''/'', ''%'']"

definition expectFuncName :: "pst \<Rightarrow> string pres" where
  "expectFuncName s =
    (if atKind s TK_IDENT then Parsed (t_text (cur s)) (takeTok s)
     else if atShift s ''<'' then Parsed ''<<'' (takeTok (takeTok s))
     else if atShift s ''>'' then Parsed ''>>'' (takeTok (takeTok s))
     else if atAny s OPERATOR_NAMES then Parsed (t_text (cur s)) (takeTok s)
     else if at s ''['' then (let s1 = takeTok s in
       if \<not> at s1 '']'' then Failed (SubscriptName (cur s1))
       else (let s2 = takeTok s1 in if at s2 ''='' then Parsed ''[]='' (takeTok s2) else Parsed ''[]'' s2))
     else Failed (FuncName (cur s)))"

text \<open>Type parameters: with \<open>upper\<close> they must start with a capital letter.\<close>

fun tparamList :: "nat \<Rightarrow> bool \<Rightarrow> string \<Rightarrow> pst \<Rightarrow> string list pres" where
  "tparamList 0 upper what s = Stuck"
| "tparamList (Suc n) upper what s = pBind (expectIdent what s) (\<lambda>tp s.
     if upper \<and> \<not> startsUpper (t_text tp) then Failed (ParamNameLower tp)
     else if at s '','' then pBind (tparamList n upper what (skipNl (takeTok s))) (\<lambda>ts s. Parsed (t_text tp # ts) s)
     else Parsed [t_text tp] s)"

definition typeParams :: "nat \<Rightarrow> bool \<Rightarrow> string \<Rightarrow> pst \<Rightarrow> string list pres" where
  "typeParams n upper what s = (if at s ''<'' then pBind (tparamList n upper what (skipNl (takeTok s))) (\<lambda>ts s.
       pBind (expect ''>'' (skipNl s)) (\<lambda>_ s. Parsed ts s))
     else Parsed [] s)"

text \<open>Annotations before a function: inline, private, unchecked. \<open>mem\<close> is whether \<open>outPrivate\<close> is given.\<close>

fun parseFuncAnnotations :: "nat \<Rightarrow> bool \<Rightarrow> bool \<times> bool \<times> bool \<Rightarrow> pst \<Rightarrow> (bool \<times> bool \<times> bool) pres" where
  "parseFuncAnnotations 0 mem fl s = Stuck"
| "parseFuncAnnotations (Suc n) mem fl s = (case fl of (inl, priv, unchk) \<Rightarrow>
     if \<not> at s ''@'' then Parsed fl s
     else (let a = cur s in pBind (expectIdent ''an annotation name'' (takeTok s)) (\<lambda>nm s.
       if t_text nm = ''inline'' then (if inl then Failed (AnnotTwice ''inline'' a) else parseFuncAnnotations n mem (True, priv, unchk) (skipNl s))
       else if t_text nm = ''builtin'' then
         (if ps_sawBuiltin s then Failed (AnnotTwice ''builtin'' a) else parseFuncAnnotations n mem fl (skipNl (s\<lparr>ps_sawBuiltin := True\<rparr>)))
       else if t_text nm = ''private'' then
         (if \<not> mem then Failed (AnnotPlace ''private'' a) else if priv then Failed (AnnotTwice ''private'' a)
          else parseFuncAnnotations n mem (inl, True, unchk) (skipNl s))
       else if t_text nm = ''unchecked'' then (if unchk then Failed (AnnotTwice ''unchecked'' a) else parseFuncAnnotations n mem (inl, priv, True) (skipNl s))
       else if t_text nm = ''recursive'' \<or> t_text nm = ''main'' then Failed (AnnotNotImplemented nm)
       else if t_text nm = ''export'' \<and> mem then Failed (AnnotPlace ''export'' a)
       else if t_text nm = ''module'' then Failed (AnnotPlace ''module'' a)
       else Failed (AnnotUnknown nm))))"

definition newFunc :: "string \<Rightarrow> string list \<Rightarrow> (string \<times> ty) list \<Rightarrow> ty option \<Rightarrow> pFunc" where
  "newFunc name ts ps ret = \<lparr>pf_name = name, pf_tparams = ts, pf_params = ps, pf_ret = ret, pf_body = None,
     pf_effects = noEffects, pf_inline = False, pf_private = False, pf_unchecked = False, pf_builtin = False,
     pf_extern = None, pf_export = False, pf_module = False, pf_modName = None, pf_modDesc = None\<rparr>"

text \<open>The signature, up to the return type.\<close>

definition funcHead :: "nat \<Rightarrow> (pst \<Rightarrow> ty pres) \<Rightarrow> pst \<Rightarrow> pFunc pres" where
  "funcHead n pt s = pBind (expectFuncName (takeTok s)) (\<lambda>name s.
     pBind (typeParams n False ''a type parameter name (uppercase, e.g. `T`)'' s) (\<lambda>ts s.
     pBind (expect ''('' s) (\<lambda>_ s. pBind (untilList n '')'' (lambdaParam pt) (skipNl s)) (\<lambda>ps s.
     pBind (expect '')'' s) (\<lambda>_ s.
     pBind (retType pt s) (\<lambda>r s.
     Parsed (newFunc name ts ps r) s))))))"

definition optEffects :: "nat \<Rightarrow> pst \<Rightarrow> effects pres" where
  "optEffects n s = (let s1 = skipJunk s in
     if at s1 ''effects'' then pBind (parseEffectsClause n noEffects s1) (\<lambda>(e, _) s. Parsed e s) else Parsed noEffects s1)"

definition parseFunc :: "nat \<Rightarrow> (pst \<Rightarrow> stmt pres) \<Rightarrow> (pst \<Rightarrow> ty pres) \<Rightarrow> pst \<Rightarrow> pFunc pres" where
  "parseFunc n pb pt s = pBind (funcHead n pt s) (\<lambda>f s. pBind (optEffects n s) (\<lambda>e s.
     if ps_noBody s then Parsed (f\<lparr>pf_effects := e\<rparr>) s
     else if ef_addr e \<noteq> 0 \<or> ef_cont e \<noteq> 0 then Failed (EffectsWithBody (pf_name f))
     else pBind (pb s) (\<lambda>b s. Parsed (f\<lparr>pf_effects := e, pf_body := Some b\<rparr>) s)))"

definition signatureOnly :: "(pst \<Rightarrow> pFunc pres) \<Rightarrow> pst \<Rightarrow> pFunc pres" where
  "signatureOnly pf s = pBind (pf (s\<lparr>ps_noBody := True\<rparr>)) (\<lambda>f s1. Parsed f (s1\<lparr>ps_noBody := ps_noBody s\<rparr>))"

text \<open>What may follow the signature of a C function.\<close>

fun externLoop :: "nat \<Rightarrow> pFunc \<Rightarrow> pst \<Rightarrow> pFunc pres" where
  "externLoop 0 f s = Stuck"
| "externLoop (Suc n) f s = (let s1 = skipJunk s in
     if at s1 ''effects'' then pBind (parseEffectsClause n (pf_effects f) s1) (\<lambda>(e, _). externLoop n (f\<lparr>pf_effects := e\<rparr>))
     else if at s1 ''owned'' then Failed (OwnedNotImplemented (cur s1))
     else Parsed f s1)"

definition parseExtern :: "nat \<Rightarrow> (pst \<Rightarrow> pFunc pres) \<Rightarrow> pst \<Rightarrow> pFunc pres" where
  "parseExtern n pf s = (let kw = cur s in pBind (expect ''!'' (takeTok s)) (\<lambda>_ s. pBind (expect ''('' s) (\<lambda>_ s.
     if \<not> atKind s TK_STRING then Failed (ExternLib (cur s))
     else (let lib = t_text (cur s) in pBind (expect '')'' (takeTok s)) (\<lambda>_ s.
       if \<not> at s ''fn'' then Failed (ExternNeedsFn kw)
       else pBind (signatureOnly pf s) (\<lambda>f s.
         externLoop n (f\<lparr>pf_extern := Some lib, pf_body := None\<rparr>) (s\<lparr>ps_noBody := False\<rparr>)))))))"

section \<open>Structs, traits, implementations, enums\<close>

definition fieldEffects :: "nat \<Rightarrow> token \<Rightarrow> ty \<Rightarrow> pst \<Rightarrow> effects pres" where
  "fieldEffects n fname t s = (if \<not> at s ''effects'' then Parsed noEffects s
     else if (case t of TFn _ _ _ \<Rightarrow> False | _ \<Rightarrow> True) then Failed (EffectsOnField (cur s))
     else pBind (parseEffectsClause n noEffects s) (\<lambda>(e, saw) s.
       if saw then Failed (ThreadOnField fname) else Parsed (e\<lparr>ef_thread := 0\<rparr>) s))"

definition structField :: "nat \<Rightarrow> (pst \<Rightarrow> ty pres) \<Rightarrow> bool \<Rightarrow> pst \<Rightarrow> pField pres" where
  "structField n pt priv s = pBind (expectIdent ''a field name'' s) (\<lambda>fname s. pBind (expect '':'' s) (\<lambda>_ s.
     pBind (pt s) (\<lambda>t s. pBind (fieldEffects n fname t s) (\<lambda>e s.
     Parsed \<lparr>pl_name = t_text fname, pl_type = t, pl_private = priv, pl_effects = e\<rparr> s))))"

text \<open>A member: a method or a field.\<close>

definition structMember :: "nat \<Rightarrow> (pst \<Rightarrow> pFunc pres) \<Rightarrow> (pst \<Rightarrow> ty pres) \<Rightarrow> pst \<Rightarrow> (pFunc + pField) pres" where
  "structMember n pf pt s = pBind (parseFuncAnnotations n True (False, False, False) s) (\<lambda>(inl, priv, unchk) s.
     if at s ''fn'' then pBind (pf s) (\<lambda>m s. Parsed (Inl (m\<lparr>pf_inline := inl, pf_private := priv, pf_unchecked := unchk\<rparr>)) s)
     else if inl then Failed (AnnotPlace ''inline'' (cur s))
     else if unchk then Failed (AnnotPlace ''unchecked'' (cur s))
     else pBind (structField n pt priv s) (\<lambda>f s. Parsed (Inr f) s))"

definition parseStruct :: "nat \<Rightarrow> (pst \<Rightarrow> pFunc pres) \<Rightarrow> (pst \<Rightarrow> ty pres) \<Rightarrow> pst \<Rightarrow> pStruct pres" where
  "parseStruct n pf pt s = pBind (expectTypeName ''a struct name'' (takeTok s)) (\<lambda>name s.
     pBind (typeParams n True ''a type parameter name'' s) (\<lambda>ts s. pBind (expect ''{'' s) (\<lambda>_ s.
     pBind (stmtList n (structMember n pf pt) (skipJunk s)) (\<lambda>ms s. pBind (expect ''}'' s) (\<lambda>_ s.
     Parsed \<lparr>pt_name = t_text name, pt_tparams = ts, pt_fields = List.map_filter (\<lambda>m. case m of Inr f \<Rightarrow> Some f | _ \<Rightarrow> None) ms,
       pt_methods = List.map_filter (\<lambda>m. case m of Inl f \<Rightarrow> Some f | _ \<Rightarrow> None) ms, pt_private = False, pt_noCopy = False,
       pt_frozen = False, pt_shares = False, pt_pool = False\<rparr> s)))))"

fun dottedTail :: "nat \<Rightarrow> string \<Rightarrow> pst \<Rightarrow> string pres" where
  "dottedTail 0 nm s = Stuck"
| "dottedTail (Suc n) nm s = (if at s ''::'' then (let s1 = takeTok s in
       if \<not> segKind (cur s1) then Failed (NameAfterPath (cur s1))
       else dottedTail n (nm @ ''::'' @ t_text (cur s1)) (takeTok s1))
     else Parsed nm s)"

definition parseDottedName :: "nat \<Rightarrow> string \<Rightarrow> pst \<Rightarrow> string pres" where
  "parseDottedName n what s = (if \<not> segKind (cur s) then Failed (ExpectedIdentFor what (cur s))
     else dottedTail n (t_text (cur s)) (takeTok s))"

text \<open>The lists in angle brackets of traits and implementations, which may span lines.\<close>

fun junkList :: "nat \<Rightarrow> (pst \<Rightarrow> 'a pres) \<Rightarrow> pst \<Rightarrow> 'a list pres" where
  "junkList 0 item s = Stuck"
| "junkList (Suc n) item s = pBind (item s) (\<lambda>x s. let s1 = skipJunk s in
     if at s1 '','' then pBind (junkList n item (skipJunk (takeTok s1))) (\<lambda>xs s. Parsed (x # xs) s)
     else Parsed [x] s1)"

definition angleList :: "nat \<Rightarrow> (pst \<Rightarrow> 'a pres) \<Rightarrow> pst \<Rightarrow> 'a list pres" where
  "angleList n item s = (if at s ''<'' then pBind (junkList n item (skipJunk (takeTok s))) (\<lambda>xs s.
       pBind (expect ''>'' s) (\<lambda>_ s. Parsed xs s))
     else Parsed [] s)"

definition tparamName :: "pst \<Rightarrow> string pres" where
  "tparamName s = pBind (expectIdent ''a type parameter name'' s) (\<lambda>t s. Parsed (t_text t) s)"

definition traitMethod :: "(pst \<Rightarrow> pFunc pres) \<Rightarrow> string list \<Rightarrow> pst \<Rightarrow> pFunc pres" where
  "traitMethod pf ts s = (if \<not> at s ''fn'' then Failed (TraitBody (cur s))
     else pBind (signatureOnly pf s) (\<lambda>m s. Parsed (m\<lparr>pf_tparams := ''Self'' # ts\<rparr>) s))"

definition parseTrait :: "nat \<Rightarrow> (pst \<Rightarrow> pFunc pres) \<Rightarrow> pst \<Rightarrow> pTrait pres" where
  "parseTrait n pf s = pBind (expectIdent ''a trait name after `trait`'' (takeTok s)) (\<lambda>name s.
     if \<not> startsUpper (t_text name) then Failed (TraitName name)
     else pBind (angleList n tparamName s) (\<lambda>ts s. pBind (expect ''{'' s) (\<lambda>_ s.
       pBind (stmtList n (traitMethod pf ts) (skipJunk s)) (\<lambda>ms s. pBind (expect ''}'' s) (\<lambda>_ s.
       Parsed \<lparr>pr_name = t_text name, pr_tparams = ts, pr_methods = ms\<rparr> s)))))"

definition implMethod :: "nat \<Rightarrow> (pst \<Rightarrow> pFunc pres) \<Rightarrow> pst \<Rightarrow> pFunc pres" where
  "implMethod n pf s = (if at s ''fn'' \<or> at s ''@'' then pBind (parseFuncAnnotations n True (False, False, False) s) (\<lambda>(inl, priv, unchk) s.
       if \<not> at s ''fn'' then Failed (AnnotNeedsFn (cur s))
       else pBind (pf s) (\<lambda>m s. Parsed (m\<lparr>pf_inline := inl, pf_private := priv, pf_unchecked := unchk\<rparr>) s))
     else Failed (ImplBody (cur s)))"

definition implFor :: "nat \<Rightarrow> pst \<Rightarrow> string option pres" where
  "implFor n s = (if at s ''for'' then pBind (parseDottedName n ''a type name after `for`'' (takeTok s)) (\<lambda>ty s. Parsed (Some ty) s)
     else Parsed None s)"

text \<open>The arguments after the first name belong to the trait when \<open>for\<close> follows, otherwise to the type; a
  second list in brackets is added to them.\<close>

definition parseImpl :: "nat \<Rightarrow> (pst \<Rightarrow> pFunc pres) \<Rightarrow> (pst \<Rightarrow> ty pres) \<Rightarrow> pst \<Rightarrow> pImpl pres" where
  "parseImpl n pf pt s = pBind (angleList n tparamName (takeTok s)) (\<lambda>ps s.
     pBind (parseDottedName n ''a type name after `impl`'' s) (\<lambda>nm s. pBind (angleList n pt s) (\<lambda>lead s.
     pBind (implFor n s) (\<lambda>forTy s.
     pBind (angleList n pt s) (\<lambda>targs s. pBind (expect ''{'' s) (\<lambda>_ s.
     pBind (stmtList n (implMethod n pf) (skipJunk s)) (\<lambda>ms s. pBind (expect ''}'' s) (\<lambda>_ s.
     Parsed (case forTy of
         Some t \<Rightarrow> \<lparr>pi_type = t, pi_tparams = ps, pi_targs = targs, pi_trait = Some nm, pi_traitArgs = lead, pi_methods = ms\<rparr>
       | None \<Rightarrow> \<lparr>pi_type = nm, pi_tparams = ps, pi_targs = lead @ targs, pi_trait = None, pi_traitArgs = [], pi_methods = ms\<rparr>) s))))))))"

fun payloadList :: "nat \<Rightarrow> (pst \<Rightarrow> ty pres) \<Rightarrow> pst \<Rightarrow> ty list pres" where
  "payloadList 0 pt s = Stuck"
| "payloadList (Suc n) pt s = (if at s '')'' then Parsed [] s
     else pBind (pt s) (\<lambda>t s. let s1 = skipNl s in
       if at s1 '','' then pBind (payloadList n pt (skipNl (takeTok s1))) (\<lambda>ts s. Parsed (t # ts) s)
       else Parsed [t] s1))"

definition variantPayload :: "nat \<Rightarrow> (pst \<Rightarrow> ty pres) \<Rightarrow> pst \<Rightarrow> ty list pres" where
  "variantPayload n pt s = (if at s ''('' then pBind (payloadList n pt (skipNl (takeTok s))) (\<lambda>ts s.
       pBind (expect '')'' s) (\<lambda>_ s. Parsed ts s))
     else Parsed [] s)"

fun variantList :: "nat \<Rightarrow> (pst \<Rightarrow> ty pres) \<Rightarrow> pst \<Rightarrow> (string \<times> ty list) list pres" where
  "variantList 0 pt s = Stuck"
| "variantList (Suc n) pt s = pBind (expectIdent ''a variant name'' s) (\<lambda>v s.
     pBind (variantPayload n pt (skipNl s)) (\<lambda>ts s. let s1 = skipNl s in
     if at s1 ''|'' then pBind (variantList n pt (skipNl (takeTok s1))) (\<lambda>vs s. Parsed ((t_text v, ts) # vs) s)
     else Parsed [(t_text v, ts)] s1))"

definition parseTypeDecl :: "nat \<Rightarrow> (pst \<Rightarrow> ty pres) \<Rightarrow> pst \<Rightarrow> pTypeDecl pres" where
  "parseTypeDecl n pt s = pBind (expectTypeName ''a type name'' (takeTok s)) (\<lambda>name s.
     pBind (typeParams n True ''a type parameter name'' s) (\<lambda>ts s. pBind (expect ''='' s) (\<lambda>_ s. let s1 = skipNl s in
     pBind (variantList n pt (skipNl (if at s1 ''|'' then takeTok s1 else s1))) (\<lambda>vs s.
     Parsed \<lparr>pd_name = t_text name, pd_tparams = ts, pd_variants = vs, pd_private = False\<rparr> s))))"

definition parseGlobalDecl :: "(pst \<Rightarrow> expr pres) \<Rightarrow> (pst \<Rightarrow> ty pres) \<Rightarrow> pst \<Rightarrow> pGlobal pres" where
  "parseGlobalDecl pe pt s = (let kw = cur s in pBind (expectIdent ''a variable name'' (takeTok s)) (\<lambda>name s.
     pBind (typeAnn pt s) (\<lambda>ann s.
     pBind (varInit pe ann s) (\<lambda>init s.
     Parsed \<lparr>pg_name = t_text name, pg_ann = ann, pg_init = init, pg_mut = (t_text kw = ''var''), pg_private = False\<rparr> s))))"

section \<open>The top level\<close>

record annots =
  an_private :: bool
  an_inline :: bool
  an_builtin :: bool
  an_unchecked :: bool
  an_noCopy :: bool
  an_pool :: bool
  an_shares :: bool
  an_frozen :: bool
  an_export :: bool
  an_module :: bool
  an_modName :: "string option"
  an_modDesc :: "string option"

definition noAnnots :: annots where
  "noAnnots = \<lparr>an_private = False, an_inline = False, an_builtin = False, an_unchecked = False, an_noCopy = False,
     an_pool = False, an_shares = False, an_frozen = False, an_export = False, an_module = False, an_modName = None, an_modDesc = None\<rparr>"

definition moduleString :: "pst \<Rightarrow> string pres" where
  "moduleString s = (let s1 = skipJunk s in
     if \<not> atKind s1 TK_STRING then Failed (ModuleString (cur s1)) else Parsed (t_text (cur s1)) (skipJunk (takeTok s1)))"

definition moduleDescr :: "pst \<Rightarrow> string option pres" where
  "moduleDescr s = (if at s '','' then pBind (moduleString (takeTok s)) (\<lambda>d s. Parsed (Some d) s) else Parsed None s)"

text \<open>The arguments of \<open>@module\<close>.\<close>

definition moduleArgs :: "pst \<Rightarrow> (string option \<times> string option) pres" where
  "moduleArgs s = (let s1 = skipJunk s in
     if \<not> at s1 ''('' then Parsed (None, None) s1
     else pBind (moduleString (takeTok s1)) (\<lambda>nm s.
       pBind (moduleDescr s) (\<lambda>d s.
       pBind (expect '')'' s) (\<lambda>_ s. Parsed (Some nm, d) (skipJunk s)))))"

fun annotLoop :: "nat \<Rightarrow> annots \<Rightarrow> pst \<Rightarrow> annots pres" where
  "annotLoop 0 a s = Stuck"
| "annotLoop (Suc n) a s = (if \<not> at s ''@'' then Parsed a s
     else (let tk = cur s in pBind (expectIdent ''an annotation name'' (takeTok s)) (\<lambda>nm s.
       if t_text nm = ''private'' then (if an_private a then Failed (AnnotTwice ''private'' tk) else annotLoop n (a\<lparr>an_private := True\<rparr>) (skipJunk s))
       else if t_text nm = ''inline'' then annotLoop n (a\<lparr>an_inline := True\<rparr>) (skipJunk s)
       else if t_text nm = ''export'' then (if an_export a then Failed (AnnotTwice ''export'' tk) else annotLoop n (a\<lparr>an_export := True\<rparr>) (skipJunk s))
       else if t_text nm = ''unchecked'' then (if an_unchecked a then Failed (AnnotTwice ''unchecked'' tk) else annotLoop n (a\<lparr>an_unchecked := True\<rparr>) (skipJunk s))
       else if t_text nm = ''noCopy'' then annotLoop n (a\<lparr>an_noCopy := True\<rparr>) (skipJunk s)
       else if t_text nm = ''poolObject'' then annotLoop n (a\<lparr>an_pool := True\<rparr>) (skipJunk s)
       else if t_text nm = ''sharesStorage'' then annotLoop n (a\<lparr>an_shares := True\<rparr>) (skipJunk s)
       else if t_text nm = ''frozen'' then (if an_frozen a then Failed (AnnotTwice ''frozen'' tk) else annotLoop n (a\<lparr>an_frozen := True\<rparr>) (skipJunk s))
       else if t_text nm = ''builtin'' then annotLoop n (a\<lparr>an_builtin := True\<rparr>) (skipJunk s)
       else if t_text nm = ''module'' then (if an_module a then Failed (AnnotTwice ''module'' tk)
         else pBind (moduleArgs s) (\<lambda>(mn, md). annotLoop n (a\<lparr>an_module := True, an_modName := mn, an_modDesc := md\<rparr>)))
       else if t_text nm = ''recursive'' \<or> t_text nm = ''main'' then Failed (AnnotNotImplemented nm)
       else Failed (AnnotUnknown nm))))"

datatype pDecl = DStruct pStruct | DImpl pImpl | DTrait pTrait | DType pTypeDecl | DGlobal pGlobal | DFunc pFunc

text \<open>The first annotation of the list that is set and does not apply.\<close>

definition rejected :: "(string \<times> bool) list \<Rightarrow> string option" where
  "rejected fs = map_option fst (List.find snd fs)"

text \<open>A run of \<open>k\<close> unless one of the annotations is set.\<close>

definition unlessSet :: "(string \<times> bool) list \<Rightarrow> (pst \<Rightarrow> 'a pres) \<Rightarrow> pst \<Rightarrow> 'a pres" where
  "unlessSet fs k s = (case rejected fs of Some x \<Rightarrow> Failed (AnnotPlace x (cur s)) | None \<Rightarrow> k s)"

definition retIsCoroutine :: "pFunc \<Rightarrow> bool" where
  "retIsCoroutine f \<longleftrightarrow> (case pf_ret f of
       Some (TUnres _ n _ _) \<Rightarrow> n = ''coroutine''
     | Some (TDyn _ n) \<Rightarrow> n = ''coroutine''
     | _ \<Rightarrow> False)"

text \<open>\<open>@module\<close> and \<open>@export\<close> need one function with a name.\<close>

definition entryFlags :: "annots \<Rightarrow> pFunc \<Rightarrow> pst \<Rightarrow> pFunc pres" where
  "entryFlags a f s =
    (if an_module a \<and> an_export a then Failed (AnnotEntry ''module'' (pf_name f))
     else if (an_module a \<or> an_export a) \<and> (pf_tparams f \<noteq> [] \<or> retIsCoroutine f) then
       Failed (AnnotEntry (if an_module a then ''module'' else ''export'') (pf_name f))
     else Parsed (f\<lparr>pf_module := an_module a, pf_modName := (if an_module a then an_modName a else None),
       pf_modDesc := (if an_module a then an_modDesc a else None), pf_export := an_export a\<rparr>) s)"

definition topFunc :: "nat \<Rightarrow> (pst \<Rightarrow> pFunc pres) \<Rightarrow> annots \<Rightarrow> pst \<Rightarrow> pFunc pres" where
  "topFunc n pf a s = unlessSet [(''frozen'', an_frozen a)] (\<lambda>s.
     pBind (parseFuncAnnotations n False (an_inline a, False, an_unchecked a) s) (\<lambda>(inl, _, unchk) s.
     if \<not> at s ''fn'' then Failed (AnnotNeedsFn (cur s))
     else (let s1 = s\<lparr>ps_sawBuiltin := False\<rparr> in pBind (if an_builtin a then signatureOnly pf s1 else pf s1) (\<lambda>f s.
       entryFlags a (f\<lparr>pf_inline := inl, pf_unchecked := unchk, pf_private := an_private a, pf_builtin := an_builtin a\<rparr>) s)))) s"

definition topDecl :: "nat \<Rightarrow> (pst \<Rightarrow> expr pres) \<Rightarrow> (pst \<Rightarrow> pFunc pres) \<Rightarrow> (pst \<Rightarrow> ty pres) \<Rightarrow> annots \<Rightarrow> pst \<Rightarrow> pDecl pres" where
  "topDecl n pe pf pt a s =
    (if at s ''struct'' then
       unlessSet [(''module'', an_module a), (''export'', an_export a), (''unchecked'', an_unchecked a)]
         (\<lambda>s. pBind (parseStruct n pf pt s) (\<lambda>d. Parsed (DStruct (d\<lparr>pt_private := an_private a, pt_noCopy := an_noCopy a,
            pt_frozen := an_frozen a, pt_shares := an_shares a, pt_pool := an_pool a\<rparr>)))) s
     else if at s ''impl'' then
       (if an_private a \<or> an_noCopy a \<or> an_shares a \<or> an_pool a \<or> an_inline a \<or> an_unchecked a \<or> an_frozen a \<or> an_export a \<or> an_module a
        then Failed (ImplAnnot (cur s)) else pBind (parseImpl n pf pt s) (\<lambda>d. Parsed (DImpl d)))
     else if at s ''trait'' then
       (if an_private a \<or> an_inline a \<or> an_unchecked a \<or> an_noCopy a \<or> an_shares a \<or> an_pool a \<or> an_frozen a \<or> an_export a \<or> an_module a
        then Failed (ImplAnnot (cur s)) else pBind (parseTrait n pf s) (\<lambda>d. Parsed (DTrait d)))
     else if at s ''type'' then
       unlessSet [(''unchecked'', an_unchecked a), (''noCopy'', an_noCopy a), (''sharesStorage'', an_shares a), (''poolObject'', an_pool a),
           (''frozen'', an_frozen a), (''export'', an_export a), (''module'', an_module a)]
         (\<lambda>s. pBind (parseTypeDecl n pt s) (\<lambda>d. Parsed (DType (d\<lparr>pd_private := an_private a\<rparr>)))) s
     else if at s ''global'' \<or> at s ''let'' \<or> at s ''var'' then
       unlessSet [(''export'', an_export a), (''module'', an_module a), (''frozen'', an_frozen a), (''unchecked'', an_unchecked a)]
         (\<lambda>s. pBind (parseGlobalDecl pe pt s) (\<lambda>d. Parsed (DGlobal (d\<lparr>pg_private := an_private a\<rparr>))))
         (if at s ''global'' then takeTok s else s)
     else if at s ''extern'' then
       unlessSet [(''export'', an_export a), (''module'', an_module a), (''frozen'', an_frozen a), (''inline'', an_inline a), (''unchecked'', an_unchecked a)]
         (\<lambda>s. pBind (parseExtern n pf s) (\<lambda>f. Parsed (DFunc (f\<lparr>pf_private := an_private a\<rparr>)))) s
     else if at s ''fn'' \<or> at s ''@'' then pBind (topFunc n pf a s) (\<lambda>f. Parsed (DFunc f))
     else Failed (TopLevel (cur s)))"

definition addDecl :: "pDecl \<Rightarrow> pModule \<Rightarrow> pModule" where
  "addDecl d m = (case d of
       DStruct x \<Rightarrow> m\<lparr>pm_structs := pm_structs m @ [x]\<rparr>
     | DImpl x \<Rightarrow> m\<lparr>pm_impls := pm_impls m @ [x]\<rparr>
     | DTrait x \<Rightarrow> m\<lparr>pm_traits := pm_traits m @ [x]\<rparr>
     | DType x \<Rightarrow> m\<lparr>pm_types := pm_types m @ [x]\<rparr>
     | DGlobal x \<Rightarrow> m\<lparr>pm_globals := pm_globals m @ [x]\<rparr>
     | DFunc x \<Rightarrow> m\<lparr>pm_funcs := pm_funcs m @ [x]\<rparr>)"

fun moduleLoop :: "nat \<Rightarrow> (annots \<Rightarrow> pst \<Rightarrow> pDecl pres) \<Rightarrow> pModule \<Rightarrow> pst \<Rightarrow> pModule pres" where
  "moduleLoop 0 td m s = Stuck"
| "moduleLoop (Suc n) td m s =
    (if atKind s TK_EOF then Parsed m s
     else if at s ''use'' then pBind (parseUse n s) (\<lambda>u s. moduleLoop n td (m\<lparr>pm_uses := pm_uses m @ [u]\<rparr>) (skipJunk s))
     else pBind (annotLoop n noAnnots s) (\<lambda>a s. pBind (td a s) (\<lambda>d s. moduleLoop n td (addDecl d m) (skipJunk s))))"

definition newParser :: "token list \<Rightarrow> pst" where
  "newParser toks = \<lparr>ps_toks = toks, ps_inCond = False, ps_depth = 0, ps_typeDepth = 0, ps_sawGlobal = False,
     ps_noBody = False, ps_sawBuiltin = False, ps_next = 0, ps_marks = []\<rparr>"

definition emptyModule :: pModule where
  "emptyModule = \<lparr>pm_uses = [], pm_structs = [], pm_impls = [], pm_traits = [], pm_types = [], pm_globals = [], pm_funcs = []\<rparr>"

definition parseModule :: "nat \<Rightarrow> token list \<Rightarrow> pModule pres" where
  "parseModule n toks = moduleLoop n (topDecl n (parseExpr n) (parseFunc n (parseBlock n) (parseType n)) (parseType n)) emptyModule (skipJunk (newParser toks))"

end
