(* ===== verification/Parser_TotalDecl.thy ===== *)
theory Parser_TotalDecl
  imports Parser_TotalStmt Parser_Decl
begin

text \<open>Progress of the parser of declarations and of a whole module.\<close>

lemma post_pair [wp]: "(\<And>a b. x = (a, b) \<Longrightarrow> post Q (f a b)) \<Longrightarrow> post Q (case_prod f x)"
  by (cases x) simp

lemma good_useNames [goods]: "m \<le> n \<Longrightarrow> good 0 m (useNames n)"
proof (induction n arbitrary: m)
  case (Suc n)
  have IH: "good 0 (m - 1) (useNames n)" by (intro Suc.IH) (use Suc.prems in simp_all)
  show ?case unfolding useNames.simps
    by (insert Suc.prems, rule goodI, (rule order_refl | assumption | rule wp call goods IH | (auto simp: ne; fail))+)
qed (simp add: good_zero)

lemma good_usePath [goods]: "m \<le> n \<Longrightarrow> good 0 m (usePath n path short)"
proof (induction n arbitrary: m path short)
  case (Suc n)
  have IH: "\<And>path short. good 0 (m - 1) (usePath n path short)" by (intro Suc.IH) (use Suc.prems in simp_all)
  show ?case unfolding usePath.simps
    by (insert Suc.prems, rule goodI, (rule order_refl | assumption | rule wp call goods IH | (auto simp: ne; fail))+)
qed (simp add: good_zero)

lemma good_useAlias [goods]: "good 0 m (useAlias)"
  unfolding useAlias_def by (rule goodI, (rule order_refl | assumption | rule wp call goods | (auto simp: ne; fail))+)

lemma good_parseUse [goods]: "m \<le> n \<Longrightarrow> good 1 m (parseUse n)"
  unfolding parseUse_def by (rule goodI, (rule order_refl | assumption | rule wp call goods | (auto simp: ne; fail))+)

lemma good_effectsLoop [goods]: "m \<le> n \<Longrightarrow> good 1 m (effectsLoop n f saw)"
proof (induction n arbitrary: m f saw)
  case (Suc n)
  have IH: "\<And>f saw. good 1 (m - 1) (effectsLoop n f saw)" by (intro Suc.IH) (use Suc.prems in simp_all)
  show ?case unfolding effectsLoop.simps
    by (insert Suc.prems, rule goodI, (rule order_refl | assumption | rule wp call goods IH | (auto simp: ne; fail))+)
qed (simp add: good_zero)

lemma post_parseEffectsClause [wp]:
  assumes "m \<le> n" "fits W F s" "nonEof s" "W \<le> Suc m" "W - 1 \<le> V"
  shows "post (\<lambda>_. fits V F) (parseEffectsClause n f s)"
  unfolding parseEffectsClause_def
  by (insert assms, (rule order_refl | assumption | rule wp call goods | (auto simp: ne; fail))+)

lemma nonEof_ops: "atAny s OPERATOR_NAMES \<Longrightarrow> takeW s = 1"
  by (auto simp: ne OPERATOR_NAMES_def)

lemma good_expectFuncName [goods]: "good 1 m expectFuncName"
  unfolding expectFuncName_def
  by (rule goodI, (rule order_refl | assumption | rule wp | (auto simp: nonEof_ops; fail) | (auto simp: ne; fail))+)

lemma good_tparamList [goods]: "m \<le> n \<Longrightarrow> good 1 m (tparamList n upper what)"
proof (induction n arbitrary: m)
  case (Suc n)
  have IH: "good 1 (m - 1) (tparamList n upper what)" by (intro Suc.IH) (use Suc.prems in simp_all)
  show ?case unfolding tparamList.simps
    by (insert Suc.prems, rule goodI, (rule order_refl | assumption | rule wp call goods IH | (auto simp: ne; fail))+)
qed (simp add: good_zero)

lemma good_typeParams [goods]: "m \<le> n \<Longrightarrow> good 0 m (typeParams n upper what)"
  unfolding typeParams_def by (rule goodI, (rule order_refl | assumption | rule wp call goods | (auto simp: ne; fail))+)

lemma good_parseFuncAnnotations [goods]: "m \<le> n \<Longrightarrow> good 0 m (parseFuncAnnotations n mem fl)"
proof (induction n arbitrary: m fl)
  case (Suc n)
  have IH: "\<And>fl. good 0 (m - 1) (parseFuncAnnotations n mem fl)" by (intro Suc.IH) (use Suc.prems in simp_all)
  show ?case unfolding parseFuncAnnotations.simps
    by (insert Suc.prems, rule goodI, (rule order_refl | assumption | rule wp call goods IH | (auto simp: ne; fail))+)
qed (simp add: good_zero)

lemma good_funcHead [goods]: "good 1 m pt \<Longrightarrow> m \<le> n \<Longrightarrow> good 1 m (funcHead n pt)"
  unfolding funcHead_def by (rule goodI, (rule order_refl | assumption | rule wp call goods | (auto simp: ne; fail))+)

lemma good_optEffects [goods]: "m \<le> n \<Longrightarrow> good 0 m (optEffects n)"
  unfolding optEffects_def by (rule goodI, (rule order_refl | assumption | rule wp call goods | (auto simp: ne; fail))+)

lemma good_parseFunc [goods]: "good 1 m pb \<Longrightarrow> good 1 m pt \<Longrightarrow> m \<le> n \<Longrightarrow> good 1 m (parseFunc n pb pt)"
  unfolding parseFunc_def by (rule goodI, (rule order_refl | assumption | rule wp call goods | (auto simp: ne; fail))+)

lemma good_signatureOnly [goods]: "good b m pf \<Longrightarrow> good b m (signatureOnly pf)"
  unfolding signatureOnly_def by (rule goodI, (rule order_refl | assumption | rule wp call goods | (auto simp: ne; fail))+)

lemma good_externLoop [goods]: "m \<le> n \<Longrightarrow> good 0 m (externLoop n f)"
proof (induction n arbitrary: m f)
  case (Suc n)
  have IH: "\<And>f. good 0 (m - 1) (externLoop n f)" by (intro Suc.IH) (use Suc.prems in simp_all)
  show ?case unfolding externLoop.simps
    by (insert Suc.prems, rule goodI, (rule order_refl | assumption | rule wp call goods IH | (auto simp: ne; fail))+)
qed (simp add: good_zero)

lemma good_parseExtern [goods]: "good 1 m pf \<Longrightarrow> m \<le> n \<Longrightarrow> good 1 m (parseExtern n pf)"
  unfolding parseExtern_def by (rule goodI, (rule order_refl | assumption | rule wp call goods | (auto simp: ne; fail))+)

lemma good_fieldEffects [goods]: "m \<le> n \<Longrightarrow> good 0 m (fieldEffects n fname t)"
  unfolding fieldEffects_def by (rule goodI, (rule order_refl | assumption | rule wp call goods | (auto simp: ne; fail))+)

lemma good_structField [goods]: "good 1 m pt \<Longrightarrow> m \<le> n \<Longrightarrow> good 1 m (structField n pt priv)"
  unfolding structField_def by (rule goodI, (rule order_refl | assumption | rule wp call goods | (auto simp: ne; fail))+)

lemma good_structMember [goods]: "good 1 m pf \<Longrightarrow> good 1 m pt \<Longrightarrow> m \<le> n \<Longrightarrow> good 1 m (structMember n pf pt)"
  unfolding structMember_def by (rule goodI, (rule order_refl | assumption | rule wp call goods | (auto simp: ne; fail))+)

lemma good_parseStruct [goods]: "good 1 m pf \<Longrightarrow> good 1 m pt \<Longrightarrow> m \<le> n \<Longrightarrow> good 1 m (parseStruct n pf pt)"
  unfolding parseStruct_def by (rule goodI, (rule order_refl | assumption | rule wp call goods | (auto simp: ne; fail))+)

lemma good_dottedTail [goods]: "m \<le> n \<Longrightarrow> good 0 m (dottedTail n nm)"
proof (induction n arbitrary: m nm)
  case (Suc n)
  have IH: "\<And>nm. good 0 (m - 1) (dottedTail n nm)" by (intro Suc.IH) (use Suc.prems in simp_all)
  show ?case unfolding dottedTail.simps
    by (insert Suc.prems, rule goodI, (rule order_refl | assumption | rule wp call goods IH | (auto simp: ne; fail))+)
qed (simp add: good_zero)

lemma good_parseDottedName [goods]: "m \<le> n \<Longrightarrow> good 1 m (parseDottedName n what)"
  unfolding parseDottedName_def by (rule goodI, (rule order_refl | assumption | rule wp call goods | (auto simp: ne; fail))+)

lemma good_junkList [goods]: "good 1 m item \<Longrightarrow> m \<le> n \<Longrightarrow> good 1 m (junkList n item)"
proof (induction n arbitrary: m)
  case (Suc n)
  have IH: "good 1 (m - 1) (junkList n item)" by (intro Suc.IH good_mono[OF Suc.prems(1)]) (use Suc.prems in simp_all)
  show ?case unfolding junkList.simps
    by (insert Suc.prems, rule goodI, (rule order_refl | assumption | rule wp call goods IH | (auto simp: ne; fail))+)
qed (simp add: good_zero)

lemma good_angleList [goods]: "good 1 m item \<Longrightarrow> m \<le> n \<Longrightarrow> good 0 m (angleList n item)"
  unfolding angleList_def by (rule goodI, (rule order_refl | assumption | rule wp call goods | (auto simp: ne; fail))+)

lemma good_tparamName [goods]: "good 1 m (tparamName)"
  unfolding tparamName_def by (rule goodI, (rule order_refl | assumption | rule wp call goods | (auto simp: ne; fail))+)

lemma good_traitMethod [goods]: "good 1 m pf \<Longrightarrow> good 1 m (traitMethod pf ts)"
  unfolding traitMethod_def by (rule goodI, (rule order_refl | assumption | rule wp call goods | (auto simp: ne; fail))+)

lemma good_parseTrait [goods]: "good 1 m pf \<Longrightarrow> m \<le> n \<Longrightarrow> good 1 m (parseTrait n pf)"
  unfolding parseTrait_def by (rule goodI, (rule order_refl | assumption | rule wp call goods | (auto simp: ne; fail))+)

lemma good_implMethod [goods]: "good 1 m pf \<Longrightarrow> m \<le> n \<Longrightarrow> good 1 m (implMethod n pf)"
  unfolding implMethod_def by (rule goodI, (rule order_refl | assumption | rule wp call goods | (auto simp: ne; fail))+)

lemma good_implFor [goods]: "m \<le> n \<Longrightarrow> good 0 m (implFor n)"
  unfolding implFor_def by (rule goodI, (rule order_refl | assumption | rule wp call goods | (auto simp: ne; fail))+)

lemma good_parseImpl [goods]: "good 1 m pf \<Longrightarrow> good 1 m pt \<Longrightarrow> m \<le> n \<Longrightarrow> good 1 m (parseImpl n pf pt)"
  unfolding parseImpl_def by (rule goodI, (rule order_refl | assumption | rule wp call goods | (auto simp: ne; fail))+)

lemma good_payloadList [goods]: "good 1 m pt \<Longrightarrow> m \<le> n \<Longrightarrow> good 0 m (payloadList n pt)"
proof (induction n arbitrary: m)
  case (Suc n)
  have IH: "good 0 (m - 1) (payloadList n pt)" by (intro Suc.IH good_mono[OF Suc.prems(1)]) (use Suc.prems in simp_all)
  show ?case unfolding payloadList.simps
    by (insert Suc.prems, rule goodI, (rule order_refl | assumption | rule wp call goods IH | (auto simp: ne; fail))+)
qed (simp add: good_zero)

lemma good_variantPayload [goods]: "good 1 m pt \<Longrightarrow> m \<le> n \<Longrightarrow> good 0 m (variantPayload n pt)"
  unfolding variantPayload_def by (rule goodI, (rule order_refl | assumption | rule wp call goods | (auto simp: ne; fail))+)

lemma good_variantList [goods]: "good 1 m pt \<Longrightarrow> m \<le> n \<Longrightarrow> good 1 m (variantList n pt)"
proof (induction n arbitrary: m)
  case (Suc n)
  have pt: "good 1 (m - 1) pt" "m - 1 \<le> n" using Suc.prems by (auto intro: good_mono)
  have IH: "good 1 (m - 1) (variantList n pt)" by (rule Suc.IH[OF pt])
  show ?case unfolding variantList.simps
    by (insert pt, rule goodI, (rule order_refl | assumption | rule wp call goods IH | (auto simp: ne; fail))+)
qed (simp add: good_zero)

lemma good_parseTypeDecl [goods]: "good 1 m pt \<Longrightarrow> m \<le> n \<Longrightarrow> good 1 m (parseTypeDecl n pt)"
  unfolding parseTypeDecl_def by (rule goodI, (rule order_refl | assumption | rule wp call goods | (auto simp: ne; fail))+)

lemma good_parseGlobalDecl [goods]: "good 1 m pe \<Longrightarrow> good 1 m pt \<Longrightarrow> good 1 m (parseGlobalDecl pe pt)"
  unfolding parseGlobalDecl_def by (rule goodI, (rule order_refl | assumption | rule wp call goods | (auto simp: ne; fail))+)

section \<open>The top level\<close>

lemma good_moduleString [goods]: "good 1 m (moduleString)"
  unfolding moduleString_def by (rule goodI, (rule order_refl | assumption | rule wp call goods | (auto simp: ne; fail))+)

lemma good_moduleDescr [goods]: "good 0 m (moduleDescr)"
  unfolding moduleDescr_def by (rule goodI, (rule order_refl | assumption | rule wp call goods | (auto simp: ne; fail))+)

lemma good_moduleArgs [goods]: "good 0 m (moduleArgs)"
  unfolding moduleArgs_def by (rule goodI, (rule order_refl | assumption | rule wp call goods | (auto simp: ne; fail))+)

lemma good_annotLoop [goods]: "m \<le> n \<Longrightarrow> good 0 m (annotLoop n a)"
proof (induction n arbitrary: m a)
  case (Suc n)
  have IH: "\<And>a. good 0 (m - 1) (annotLoop n a)" by (intro Suc.IH) (use Suc.prems in simp_all)
  show ?case unfolding annotLoop.simps
    by (insert Suc.prems, rule goodI, (rule order_refl | assumption | rule wp call goods IH | (auto simp: ne; fail))+)
qed (simp add: good_zero)

lemma post_unlessSet [wp]: "post Q (k s) \<Longrightarrow> post Q (unlessSet fs k s)"
  by (simp add: unlessSet_def post_def split: option.split)

lemma good_entryFlags [goods]: "good 0 m (entryFlags a f)"
  unfolding entryFlags_def by (rule goodI, (rule order_refl | assumption | rule wp call goods | (auto simp: ne; fail))+)

lemma good_topFunc [goods]: "good 1 m pf \<Longrightarrow> m \<le> n \<Longrightarrow> good 1 m (topFunc n pf a)"
  unfolding topFunc_def by (rule goodI, (rule order_refl | assumption | rule wp call goods | (auto simp: ne; fail))+)

lemma good_topDecl [goods]: "good 1 m pe \<Longrightarrow> good 1 m pf \<Longrightarrow> good 1 m pt \<Longrightarrow> m \<le> n \<Longrightarrow> good 1 m (topDecl n pe pf pt a)"
  unfolding topDecl_def by (rule goodI, (rule order_refl | assumption | rule wp call goods | (auto simp: ne; fail))+)

lemma good_moduleLoop [goods]: "(\<And>a. good 1 m (td a)) \<Longrightarrow> m < n \<Longrightarrow> good 0 m (moduleLoop n td d)"
proof (induction n arbitrary: m d)
  case (Suc n)
  show ?case
  proof (cases m)
    case (Suc k)
    have IH: "\<And>d. good 0 (m - 1) (moduleLoop n td d)"
      by (intro Suc.IH good_mono[OF Suc.prems(1)]) (use Suc.prems Suc in simp_all)
    have n: "m \<le> n" using Suc.prems(2) by simp
    show ?thesis unfolding moduleLoop.simps
      by (insert Suc.prems(1) n, rule goodI, (rule order_refl | assumption | rule wp call goods IH | (auto simp: ne; fail))+)
  qed (simp add: good_zero)
qed simp


end
