(* ===== verification/Parser_Fuel.thy ===== *)
theory Parser_Fuel
  imports Parser_Decl
begin

text \<open>More fuel never changes a result: a run that does not end without fuel gives the same answer with any
  larger amount. \<open>below p q\<close> says that \<open>q\<close> answers as \<open>p\<close> does wherever \<open>p\<close> answers.\<close>

definition le :: "'a pres \<Rightarrow> 'a pres \<Rightarrow> bool" where
  "le r r' \<longleftrightarrow> r = Stuck \<or> r' = r"

definition below :: "(pst \<Rightarrow> 'a pres) \<Rightarrow> (pst \<Rightarrow> 'a pres) \<Rightarrow> bool" where
  "below p q \<longleftrightarrow> (\<forall>s. le (p s) (q s))"

named_theorems les
named_theorems belows

lemma le_refl: "le r r" by (simp add: le_def)

lemma le_call: "below p q \<Longrightarrow> le (p s) (q s)" by (simp add: below_def)

lemma belowI: "(\<And>s. le (p s) (q s)) \<Longrightarrow> below p q" by (simp add: below_def)

lemma le_bind [les]: "le r r' \<Longrightarrow> (\<And>x s. le (k x s) (k' x s)) \<Longrightarrow> le (pBind r k) (pBind r' k')"
  by (cases r) (auto simp: le_def)

lemma le_if [les]: "(c \<Longrightarrow> le a a') \<Longrightarrow> (\<not> c \<Longrightarrow> le b b') \<Longrightarrow> le (if c then a else b) (if c then a' else b')"
  by simp

lemma le_Let [les]: "le (f x) (g y) \<Longrightarrow> le (Let x f) (Let y g)"
  by simp

lemma le_cases [les]:
  "(\<And>a b. le (f a b s) (g a b s)) \<Longrightarrow> le (case_prod f z s) (case_prod g z s)"
  "(\<And>a. le (f1 a) (g1 a)) \<Longrightarrow> le e1 e2 \<Longrightarrow> le (case_option e1 f1 y) (case_option e2 g1 y)"
  "(\<And>a. le (f2 a s) (g2 a s)) \<Longrightarrow> (\<And>b. le (f3 b s) (g3 b s)) \<Longrightarrow> le (case_sum f2 f3 w s) (case_sum g2 g3 w s)"
  by (cases z; cases y; cases w; simp)+

lemma le_pair [les]: "(\<And>a b. le (f a b) (g a b)) \<Longrightarrow> le (case_prod f z) (case_prod g z)"
  by (cases z) simp

lemma le_ident [les]:
  "(\<And>a b. le (f a b) (g a b)) \<Longrightarrow> le r r' \<Longrightarrow>
     le (case k of EX_IDENT a b \<Rightarrow> f a b | _ \<Rightarrow> r) (case k of EX_IDENT a b \<Rightarrow> g a b | _ \<Rightarrow> r')"
  by (cases k) simp_all

lemma le_list [les]: "le e1 e2 \<Longrightarrow> (\<And>a b. le (f a b) (g a b)) \<Longrightarrow> le (case_list e1 f z) (case_list e2 g z)"
  by (cases z) simp_all

lemma le_unlessSet [les]: "le (k s) (k' s) \<Longrightarrow> le (unlessSet fs k s) (unlessSet fs k' s)"
  by (simp add: unlessSet_def le_def split: option.split)

lemma below_same [belows]: "below p p" by (simp add: below_def le_refl)

lemma below_seq [belows]: "below p q \<Longrightarrow> (\<And>x. below (k x) (k' x)) \<Longrightarrow> below (\<lambda>s. pBind (p s) k) (\<lambda>s. pBind (q s) k')"
  by (rule belowI) (auto intro: le_bind le_call)

lemma below_deeper [belows]:
  "below p1 q1 \<Longrightarrow> below (deeper x0 p1) (deeper x0 q1)"
  unfolding deeper_def by (rule belowI, (assumption | rule le_refl belows les le_call)+)

lemma below_typeDeeper [belows]:
  "below p0 q0 \<Longrightarrow> below (typeDeeper p0) (typeDeeper q0)"
  unfolding typeDeeper_def by (rule belowI, (assumption | rule le_refl belows les le_call)+)

lemma below_typePath [belows]:
  "n \<le> n' \<Longrightarrow> below (typePath n x1) (typePath n' x1)"
proof (induction n arbitrary: n' x1)
  case (Suc n)
  then obtain k where k: "n \<le> k" "n' = Suc k" by (cases n') auto
  note IH = Suc.IH[OF k(1)]
  show ?case unfolding k(2) typePath.simps
    by (insert Suc.prems k(1), rule belowI, (assumption | rule le_refl belows les le_call IH)+)
qed (simp add: below_def le_def)

lemma below_typeList [belows]:
  "below p1 q1 \<Longrightarrow> n \<le> n' \<Longrightarrow> below (typeList n p1) (typeList n' q1)"
proof (induction n arbitrary: n')
  case (Suc n)
  then obtain k where k: "n \<le> k" "n' = Suc k" by (cases n') auto
  note IH = Suc.IH[OF Suc.prems(1) k(1)]
  show ?case unfolding k(2) typeList.simps
    by (insert Suc.prems k(1), rule belowI, (assumption | rule le_refl belows les le_call IH)+)
qed (simp add: below_def le_def)

lemma below_paramTypes [belows]:
  "below p1 q1 \<Longrightarrow> n \<le> n' \<Longrightarrow> below (paramTypes n p1) (paramTypes n' q1)"
proof (induction n arbitrary: n')
  case (Suc n)
  then obtain k where k: "n \<le> k" "n' = Suc k" by (cases n') auto
  note IH = Suc.IH[OF Suc.prems(1) k(1)]
  show ?case unfolding k(2) paramTypes.simps
    by (insert Suc.prems k(1), rule belowI, (assumption | rule le_refl belows les le_call IH)+)
qed (simp add: below_def le_def)

lemma below_parseFnType [belows]:
  "below p1 q1 \<Longrightarrow> n \<le> n' \<Longrightarrow> below (parseFnType n p1) (parseFnType n' q1)"
  unfolding parseFnType_def by (rule belowI, (assumption | rule le_refl belows les le_call)+)

lemma below_namedType [belows]:
  "below p1 q1 \<Longrightarrow> n \<le> n' \<Longrightarrow> below (namedType n p1) (namedType n' q1)"
  unfolding namedType_def by (rule belowI, (assumption | rule le_refl belows les le_call)+)

lemma below_arrayType [belows]:
  "below p0 q0 \<Longrightarrow> below (arrayType p0) (arrayType q0)"
  unfolding arrayType_def by (rule belowI, (assumption | rule le_refl belows les le_call)+)

lemma below_parseTypeInner [belows]:
  "below p1 q1 \<Longrightarrow> n \<le> n' \<Longrightarrow> below (parseTypeInner n p1) (parseTypeInner n' q1)"
  unfolding parseTypeInner_def by (rule belowI, (assumption | rule le_refl belows les le_call)+)

lemma below_untilList [belows]:
  "below p2 q2 \<Longrightarrow> n \<le> n' \<Longrightarrow> below (untilList n x1 p2) (untilList n' x1 q2)"
proof (induction n arbitrary: n' x1)
  case (Suc n)
  then obtain k where k: "n \<le> k" "n' = Suc k" by (cases n') auto
  note IH = Suc.IH[OF Suc.prems(1) k(1)]
  show ?case unfolding k(2) untilList.simps
    by (insert Suc.prems k(1), rule belowI, (assumption | rule le_refl belows les le_call IH)+)
qed (simp add: below_def le_def)

lemma below_withCond [belows]:
  "below p1 q1 \<Longrightarrow> below (withCond x0 p1) (withCond x0 q1)"
  unfolding withCond_def by (rule belowI, (assumption | rule le_refl belows les le_call)+)

lemma below_parseArgs [belows]:
  "below p1 q1 \<Longrightarrow> n \<le> n' \<Longrightarrow> below (parseArgs n p1) (parseArgs n' q1)"
  unfolding parseArgs_def by (rule belowI, (assumption | rule le_refl belows les le_call)+)

lemma below_postfixDot [belows]:
  "below p1 q1 \<Longrightarrow> n \<le> n' \<Longrightarrow> below (postfixDot n p1 x2) (postfixDot n' q1 x2)"
  unfolding postfixDot_def by (rule belowI, (assumption | rule le_refl belows les le_call)+)

lemma below_rangeRest [belows]:
  "below p0 q0 \<Longrightarrow> below (rangeRest p0 x1) (rangeRest q0 x1)"
  unfolding rangeRest_def by (rule belowI, (assumption | rule le_refl belows les le_call)+)

lemma below_bracketInside [belows]:
  "below p0 q0 \<Longrightarrow> below (bracketInside p0) (bracketInside q0)"
  unfolding bracketInside_def by (rule belowI, (assumption | rule le_refl belows les le_call)+)

lemma below_postfixBracket [belows]:
  "below p0 q0 \<Longrightarrow> below (postfixBracket p0 x1) (postfixBracket q0 x1)"
  unfolding postfixBracket_def by (rule belowI, (assumption | rule le_refl belows les le_call)+)

lemma below_postfixLoop [belows]:
  "below p1 q1 \<Longrightarrow> n \<le> n' \<Longrightarrow> below (postfixLoop n p1 x2) (postfixLoop n' q1 x2)"
proof (induction n arbitrary: n' x2)
  case (Suc n)
  then obtain k where k: "n \<le> k" "n' = Suc k" by (cases n') auto
  note IH = Suc.IH[OF Suc.prems(1) k(1)]
  show ?case unfolding k(2) postfixLoop.simps
    by (insert Suc.prems k(1), rule belowI, (assumption | rule le_refl belows les le_call IH)+)
qed (simp add: below_def le_def)

lemma below_initList [belows]:
  "below p1 q1 \<Longrightarrow> n \<le> n' \<Longrightarrow> below (initList n p1) (initList n' q1)"
proof (induction n arbitrary: n')
  case (Suc n)
  then obtain k where k: "n \<le> k" "n' = Suc k" by (cases n') auto
  note IH = Suc.IH[OF Suc.prems(1) k(1)]
  show ?case unfolding k(2) initList.simps
    by (insert Suc.prems k(1), rule belowI, (assumption | rule le_refl belows les le_call IH)+)
qed (simp add: below_def le_def)

lemma below_parseStructLit [belows]:
  "below p1 q1 \<Longrightarrow> n \<le> n' \<Longrightarrow> below (parseStructLit n p1 x2) (parseStructLit n' q1 x2)"
  unfolding parseStructLit_def by (rule belowI, (assumption | rule le_refl belows les le_call)+)

lemma below_elemList [belows]:
  "below p1 q1 \<Longrightarrow> n \<le> n' \<Longrightarrow> below (elemList n p1) (elemList n' q1)"
proof (induction n arbitrary: n')
  case (Suc n)
  then obtain k where k: "n \<le> k" "n' = Suc k" by (cases n') auto
  note IH = Suc.IH[OF Suc.prems(1) k(1)]
  show ?case unfolding k(2) elemList.simps
    by (insert Suc.prems k(1), rule belowI, (assumption | rule le_refl belows les le_call IH)+)
qed (simp add: below_def le_def)

lemma below_parseArrayLit [belows]:
  "below p1 q1 \<Longrightarrow> n \<le> n' \<Longrightarrow> below (parseArrayLit n p1) (parseArrayLit n' q1)"
  unfolding parseArrayLit_def by (rule belowI, (assumption | rule le_refl belows les le_call)+)

lemma below_convOperand [belows]:
  "below p0 q0 \<Longrightarrow> below (convOperand p0) (convOperand q0)"
  unfolding convOperand_def by (rule belowI, (assumption | rule le_refl belows les le_call)+)

lemma below_namedConv [belows]:
  "below p0 q0 \<Longrightarrow> below (namedConv p0 x1) (namedConv q0 x1)"
  unfolding namedConv_def by (rule belowI, (assumption | rule le_refl belows les le_call)+)

lemma below_parseNew [belows]:
  "below p0 q0 \<Longrightarrow> below p1 q1 \<Longrightarrow> below (parseNew p0 p1) (parseNew q0 q1)"
  unfolding parseNew_def by (rule belowI, (assumption | rule le_refl belows les le_call)+)

lemma below_parseFnConv [belows]:
  "below p1 q1 \<Longrightarrow> below p2 q2 \<Longrightarrow> n \<le> n' \<Longrightarrow> below (parseFnConv n p1 p2) (parseFnConv n' q1 q2)"
  unfolding parseFnConv_def by (rule belowI, (assumption | rule le_refl belows les le_call)+)

lemma below_lambdaParam [belows]:
  "below p0 q0 \<Longrightarrow> below (lambdaParam p0) (lambdaParam q0)"
  unfolding lambdaParam_def by (rule belowI, (assumption | rule le_refl belows les le_call)+)

lemma below_lambdaCaptures [belows]:
  "n \<le> n' \<Longrightarrow> below (lambdaCaptures n) (lambdaCaptures n')"
  unfolding lambdaCaptures_def by (rule belowI, (assumption | rule le_refl belows les le_call)+)

lemma below_retType [belows]:
  "below p0 q0 \<Longrightarrow> below (retType p0) (retType q0)"
  unfolding retType_def by (rule belowI, (assumption | rule le_refl belows les le_call)+)

lemma below_parseLambda [belows]:
  "below p1 q1 \<Longrightarrow> below p2 q2 \<Longrightarrow> below p3 q3 \<Longrightarrow> n \<le> n' \<Longrightarrow> below (parseLambda n p1 p2 p3) (parseLambda n' q1 q2 q3)"
  unfolding parseLambda_def by (rule belowI, (assumption | rule le_refl belows les le_call)+)

lemma below_assocArgs [belows]:
  "below p1 q1 \<Longrightarrow> n \<le> n' \<Longrightarrow> below (assocArgs n p1) (assocArgs n' q1)"
  unfolding assocArgs_def by (rule belowI, (assumption | rule le_refl belows les le_call)+)

lemma below_optArgs [belows]:
  "below p1 q1 \<Longrightarrow> n \<le> n' \<Longrightarrow> below (optArgs n p1) (optArgs n' q1)"
  unfolding optArgs_def by (rule belowI, (assumption | rule le_refl belows les le_call)+)

lemma below_parseAssoc [belows]:
  "below p1 q1 \<Longrightarrow> below p2 q2 \<Longrightarrow> n \<le> n' \<Longrightarrow> below (parseAssoc n p1 p2 x3) (parseAssoc n' q1 q2 x3)"
  unfolding parseAssoc_def by (rule belowI, (assumption | rule le_refl belows les le_call)+)

lemma below_parseName [belows]:
  "below p1 q1 \<Longrightarrow> below p2 q2 \<Longrightarrow> n \<le> n' \<Longrightarrow> below (parseName n p1 p2 x3) (parseName n' q1 q2 x3)"
  unfolding parseName_def by (rule belowI, (assumption | rule le_refl belows les le_call)+)

lemma below_parsePrimary [belows]:
  "below p1 q1 \<Longrightarrow> below p2 q2 \<Longrightarrow> below p3 q3 \<Longrightarrow> n \<le> n' \<Longrightarrow> below (parsePrimary n p1 p2 p3) (parsePrimary n' q1 q2 q3)"
  unfolding parsePrimary_def by (rule belowI, (assumption | rule le_refl belows les le_call)+)

lemma below_parsePostfix [belows]:
  "below p1 q1 \<Longrightarrow> below p2 q2 \<Longrightarrow> below p3 q3 \<Longrightarrow> n \<le> n' \<Longrightarrow> below (parsePostfix n p1 p2 p3) (parsePostfix n' q1 q2 q3)"
  unfolding parsePostfix_def by (rule belowI, (assumption | rule le_refl belows les le_call)+)

lemma below_parseUnaryInner [belows]:
  "below p0 q0 \<Longrightarrow> below p1 q1 \<Longrightarrow> below (parseUnaryInner p0 p1) (parseUnaryInner q0 q1)"
  unfolding parseUnaryInner_def by (rule belowI, (assumption | rule le_refl belows les le_call)+)

lemma below_binLoop [belows]:
  "below p2 q2 \<Longrightarrow> n \<le> n' \<Longrightarrow> below (binLoop n x1 p2 x3) (binLoop n' x1 q2 x3)"
proof (induction n arbitrary: n' x1 x3)
  case (Suc n)
  then obtain k where k: "n \<le> k" "n' = Suc k" by (cases n') auto
  note IH = Suc.IH[OF Suc.prems(1) k(1)]
  show ?case unfolding k(2) binLoop.simps
    by (insert Suc.prems k(1), rule belowI, (assumption | rule le_refl belows les le_call IH)+)
qed (simp add: below_def le_def)

lemma below_binLevel [belows]:
  "below p2 q2 \<Longrightarrow> n \<le> n' \<Longrightarrow> below (binLevel n x1 p2) (binLevel n' x1 q2)"
  unfolding binLevel_def by (rule belowI, (assumption | rule le_refl belows les le_call)+)

lemma below_parseFactor [belows]:
  "below p1 q1 \<Longrightarrow> n \<le> n' \<Longrightarrow> below (parseFactor n p1) (parseFactor n' q1)"
  unfolding parseFactor_def by (rule belowI, (assumption | rule le_refl belows les le_call)+)

lemma below_parseTerm [belows]:
  "below p1 q1 \<Longrightarrow> n \<le> n' \<Longrightarrow> below (parseTerm n p1) (parseTerm n' q1)"
  unfolding parseTerm_def by (rule belowI, (assumption | rule le_refl belows les le_call)+)

lemma below_fmtSlot [belows]:
  "below p0 q0 \<Longrightarrow> below (fmtSlot p0 x1 x2 x3) (fmtSlot q0 x1 x2 x3)"
  unfolding fmtSlot_def by (rule belowI, (assumption | rule le_refl belows les le_call)+)

lemma below_fmtGo [belows]:
  "below p1 q1 \<Longrightarrow> n \<le> n' \<Longrightarrow> below (fmtGo n p1 x2 x3 x4 x5 x6) (fmtGo n' q1 x2 x3 x4 x5 x6)"
proof (induction n arbitrary: n' x2 x3 x4 x5 x6)
  case (Suc n)
  then obtain k where k: "n \<le> k" "n' = Suc k" by (cases n') auto
  note IH = Suc.IH[OF Suc.prems(1) k(1)]
  show ?case unfolding k(2) fmtGo.simps
    by (insert Suc.prems k(1), rule belowI, (assumption | rule le_refl belows les le_call IH)+)
qed (simp add: below_def le_def)

lemma below_fmtSplice [belows]:
  "below p0 q0 \<Longrightarrow> below (fmtSplice p0 x1 x2) (fmtSplice q0 x1 x2)"
  unfolding fmtSplice_def by (rule belowI, (assumption | rule le_refl order_refl belows les le_call)+)

lemma below_shiftLoop [belows]:
  "below p1 q1 \<Longrightarrow> below p2 q2 \<Longrightarrow> n \<le> n' \<Longrightarrow> below (shiftLoop n p1 p2 x3) (shiftLoop n' q1 q2 x3)"
proof (induction n arbitrary: n' x3)
  case (Suc n)
  then obtain k where k: "n \<le> k" "n' = Suc k" by (cases n') auto
  note IH = Suc.IH[OF Suc.prems(1) Suc.prems(2) k(1)]
  show ?case unfolding k(2) shiftLoop.simps
    by (insert Suc.prems k(1), rule belowI, (assumption | rule le_refl belows les le_call IH)+)
qed (simp add: below_def le_def)

lemma below_parseShift [belows]:
  "below p1 q1 \<Longrightarrow> below p2 q2 \<Longrightarrow> n \<le> n' \<Longrightarrow> below (parseShift n p1 p2) (parseShift n' q1 q2)"
  unfolding parseShift_def by (rule belowI, (assumption | rule le_refl belows les le_call)+)

lemma below_parseComparison [belows]:
  "below p1 q1 \<Longrightarrow> below p2 q2 \<Longrightarrow> n \<le> n' \<Longrightarrow> below (parseComparison n p1 p2) (parseComparison n' q1 q2)"
  unfolding parseComparison_def by (rule belowI, (assumption | rule le_refl belows les le_call)+)

lemma below_parseEquality [belows]:
  "below p1 q1 \<Longrightarrow> below p2 q2 \<Longrightarrow> n \<le> n' \<Longrightarrow> below (parseEquality n p1 p2) (parseEquality n' q1 q2)"
  unfolding parseEquality_def by (rule belowI, (assumption | rule le_refl belows les le_call)+)

lemma below_parseBitAnd [belows]:
  "below p1 q1 \<Longrightarrow> below p2 q2 \<Longrightarrow> n \<le> n' \<Longrightarrow> below (parseBitAnd n p1 p2) (parseBitAnd n' q1 q2)"
  unfolding parseBitAnd_def by (rule belowI, (assumption | rule le_refl belows les le_call)+)

lemma below_parseBitXor [belows]:
  "below p1 q1 \<Longrightarrow> below p2 q2 \<Longrightarrow> n \<le> n' \<Longrightarrow> below (parseBitXor n p1 p2) (parseBitXor n' q1 q2)"
  unfolding parseBitXor_def by (rule belowI, (assumption | rule le_refl belows les le_call)+)

lemma below_parseBitOr [belows]:
  "below p1 q1 \<Longrightarrow> below p2 q2 \<Longrightarrow> n \<le> n' \<Longrightarrow> below (parseBitOr n p1 p2) (parseBitOr n' q1 q2)"
  unfolding parseBitOr_def by (rule belowI, (assumption | rule le_refl belows les le_call)+)

lemma below_parseAnd [belows]:
  "below p1 q1 \<Longrightarrow> below p2 q2 \<Longrightarrow> n \<le> n' \<Longrightarrow> below (parseAnd n p1 p2) (parseAnd n' q1 q2)"
  unfolding parseAnd_def by (rule belowI, (assumption | rule le_refl belows les le_call)+)

lemma below_parseOr [belows]:
  "below p1 q1 \<Longrightarrow> below p2 q2 \<Longrightarrow> n \<le> n' \<Longrightarrow> below (parseOr n p1 p2) (parseOr n' q1 q2)"
  unfolding parseOr_def by (rule belowI, (assumption | rule le_refl belows les le_call)+)

lemma below_coalesceLoop [belows]:
  "below p1 q1 \<Longrightarrow> n \<le> n' \<Longrightarrow> below (coalesceLoop n p1 x2) (coalesceLoop n' q1 x2)"
proof (induction n arbitrary: n' x2)
  case (Suc n)
  then obtain k where k: "n \<le> k" "n' = Suc k" by (cases n') auto
  note IH = Suc.IH[OF Suc.prems(1) k(1)]
  show ?case unfolding k(2) coalesceLoop.simps
    by (insert Suc.prems k(1), rule belowI, (assumption | rule le_refl belows les le_call IH)+)
qed (simp add: below_def le_def)

lemma below_parseCoalesceWith [belows]:
  "below p1 q1 \<Longrightarrow> below p2 q2 \<Longrightarrow> n \<le> n' \<Longrightarrow> below (parseCoalesceWith n p1 p2) (parseCoalesceWith n' q1 q2)"
  unfolding parseCoalesceWith_def by (rule belowI, (assumption | rule le_refl belows les le_call)+)

lemma below_stmtList [belows]:
  "below p1 q1 \<Longrightarrow> n \<le> n' \<Longrightarrow> below (stmtList n p1) (stmtList n' q1)"
proof (induction n arbitrary: n')
  case (Suc n)
  then obtain k where k: "n \<le> k" "n' = Suc k" by (cases n') auto
  note IH = Suc.IH[OF Suc.prems(1) k(1)]
  show ?case unfolding k(2) stmtList.simps
    by (insert Suc.prems k(1), rule belowI, (assumption | rule le_refl belows les le_call IH)+)
qed (simp add: below_def le_def)

lemma below_parseBlockInner [belows]:
  "below p1 q1 \<Longrightarrow> n \<le> n' \<Longrightarrow> below (parseBlockInner n p1) (parseBlockInner n' q1)"
  unfolding parseBlockInner_def by (rule belowI, (assumption | rule le_refl belows les le_call)+)

lemma below_bindList [belows]:
  "n \<le> n' \<Longrightarrow> below (bindList n) (bindList n')"
proof (induction n arbitrary: n')
  case (Suc n)
  then obtain k where k: "n \<le> k" "n' = Suc k" by (cases n') auto
  note IH = Suc.IH[OF k(1)]
  show ?case unfolding k(2) bindList.simps
    by (insert Suc.prems k(1), rule belowI, (assumption | rule le_refl belows les le_call IH)+)
qed (simp add: below_def le_def)

lemma below_matchBinds [belows]:
  "n \<le> n' \<Longrightarrow> below (matchBinds n) (matchBinds n')"
  unfolding matchBinds_def by (rule belowI, (assumption | rule le_refl belows les le_call)+)

lemma below_parseArm [belows]:
  "below p1 q1 \<Longrightarrow> below p2 q2 \<Longrightarrow> n \<le> n' \<Longrightarrow> below (parseArm n p1 p2) (parseArm n' q1 q2)"
  unfolding parseArm_def by (rule belowI, (assumption | rule le_refl belows les le_call)+)

lemma below_parseMatch [belows]:
  "below p1 q1 \<Longrightarrow> below p2 q2 \<Longrightarrow> below p3 q3 \<Longrightarrow> n \<le> n' \<Longrightarrow> below (parseMatch n p1 p2 p3) (parseMatch n' q1 q2 q3)"
  unfolding parseMatch_def by (rule belowI, (assumption | rule le_refl belows les le_call)+)

lemma below_varYield [belows]:
  "below p0 q0 \<Longrightarrow> below (varYield p0 x1 x2) (varYield q0 x1 x2)"
  unfolding varYield_def by (rule belowI, (assumption | rule le_refl belows les le_call)+)

lemma below_typeAnn [belows]:
  "below p0 q0 \<Longrightarrow> below (typeAnn p0) (typeAnn q0)"
  unfolding typeAnn_def by (rule belowI, (assumption | rule le_refl belows les le_call)+)

lemma below_varInit [belows]:
  "below p0 q0 \<Longrightarrow> below (varInit p0 x1) (varInit q0 x1)"
  unfolding varInit_def by (rule belowI, (assumption | rule le_refl belows les le_call)+)

lemma below_parseVarDecl [belows]:
  "below p0 q0 \<Longrightarrow> below p1 q1 \<Longrightarrow> below (parseVarDecl p0 p1) (parseVarDecl q0 q1)"
  unfolding parseVarDecl_def by (rule belowI, (assumption | rule le_refl belows les le_call)+)

lemma below_elsePart [belows]:
  "below p0 q0 \<Longrightarrow> below p1 q1 \<Longrightarrow> below (elsePart p0 p1) (elsePart q0 q1)"
  unfolding elsePart_def by (rule belowI, (assumption | rule le_refl belows les le_call)+)

lemma below_parseIfWith [belows]:
  "below p0 q0 \<Longrightarrow> below p1 q1 \<Longrightarrow> below p2 q2 \<Longrightarrow> below (parseIfWith p0 p1 p2) (parseIfWith q0 q1 q2)"
  unfolding parseIfWith_def by (rule belowI, (assumption | rule le_refl belows les le_call)+)

lemma below_parseWhile [belows]:
  "below p0 q0 \<Longrightarrow> below p1 q1 \<Longrightarrow> below (parseWhile p0 p1) (parseWhile q0 q1)"
  unfolding parseWhile_def by (rule belowI, (assumption | rule le_refl belows les le_call)+)

lemma below_forPlain [belows]:
  "below p0 q0 \<Longrightarrow> below p1 q1 \<Longrightarrow> below p2 q2 \<Longrightarrow> below (forPlain p0 p1 p2) (forPlain q0 q1 q2)"
  unfolding forPlain_def by (rule belowI, (assumption | rule le_refl belows les le_call)+)

lemma below_forUpper [belows]:
  "below p0 q0 \<Longrightarrow> below (forUpper p0) (forUpper q0)"
  unfolding forUpper_def by (rule belowI, (assumption | rule le_refl belows les le_call)+)

lemma below_parseFor [belows]:
  "below p0 q0 \<Longrightarrow> below p1 q1 \<Longrightarrow> below p2 q2 \<Longrightarrow> below (parseFor p0 p1 p2) (parseFor q0 q1 q2)"
  unfolding parseFor_def by (rule belowI, (assumption | rule le_refl belows les le_call)+)

lemma below_afterExpr [belows]:
  "below p0 q0 \<Longrightarrow> below p1 q1 \<Longrightarrow> below (afterExpr p0 p1 x2 x3) (afterExpr q0 q1 x2 x3)"
  unfolding afterExpr_def by (rule belowI, (assumption | rule le_refl belows les le_call)+)

lemma below_annotated [belows]:
  "below p0 q0 \<Longrightarrow> below p1 q1 \<Longrightarrow> below (annotated p0 p1) (annotated q0 q1)"
  unfolding annotated_def by (rule belowI, (assumption | rule le_refl belows les le_call)+)

lemma below_yieldStmt [belows]:
  "below p0 q0 \<Longrightarrow> below (yieldStmt p0) (yieldStmt q0)"
  unfolding yieldStmt_def by (rule belowI, (assumption | rule le_refl belows les le_call)+)

lemma below_trapStmt [belows]:
  "below p0 q0 \<Longrightarrow> below (trapStmt p0) (trapStmt q0)"
  unfolding trapStmt_def by (rule belowI, (assumption | rule le_refl belows les le_call)+)

lemma below_returnStmt [belows]:
  "below p0 q0 \<Longrightarrow> below (returnStmt p0) (returnStmt q0)"
  unfolding returnStmt_def by (rule belowI, (assumption | rule le_refl belows les le_call)+)

lemma below_parseStmtWith [belows]:
  "below p1 q1 \<Longrightarrow> below p2 q2 \<Longrightarrow> below p3 q3 \<Longrightarrow> below p4 q4 \<Longrightarrow> below p5 q5 \<Longrightarrow> n \<le> n' \<Longrightarrow> below (parseStmtWith n p1 p2 p3 p4 p5) (parseStmtWith n' q1 q2 q3 q4 q5)"
  unfolding parseStmtWith_def by (rule belowI, (assumption | rule le_refl belows les le_call)+)

lemma below_useNames [belows]:
  "n \<le> n' \<Longrightarrow> below (useNames n) (useNames n')"
proof (induction n arbitrary: n')
  case (Suc n)
  then obtain k where k: "n \<le> k" "n' = Suc k" by (cases n') auto
  note IH = Suc.IH[OF k(1)]
  show ?case unfolding k(2) useNames.simps
    by (insert Suc.prems k(1), rule belowI, (assumption | rule le_refl belows les le_call IH)+)
qed (simp add: below_def le_def)

lemma below_usePath [belows]:
  "n \<le> n' \<Longrightarrow> below (usePath n x1 x2) (usePath n' x1 x2)"
proof (induction n arbitrary: n' x1 x2)
  case (Suc n)
  then obtain k where k: "n \<le> k" "n' = Suc k" by (cases n') auto
  note IH = Suc.IH[OF k(1)]
  show ?case unfolding k(2) usePath.simps
    by (insert Suc.prems k(1), rule belowI, (assumption | rule le_refl belows les le_call IH)+)
qed (simp add: below_def le_def)

lemma below_parseUse [belows]:
  "n \<le> n' \<Longrightarrow> below (parseUse n) (parseUse n')"
  unfolding parseUse_def by (rule belowI, (assumption | rule le_refl belows les le_call)+)

lemma below_effectsLoop [belows]:
  "n \<le> n' \<Longrightarrow> below (effectsLoop n x1 x2) (effectsLoop n' x1 x2)"
proof (induction n arbitrary: n' x1 x2)
  case (Suc n)
  then obtain k where k: "n \<le> k" "n' = Suc k" by (cases n') auto
  note IH = Suc.IH[OF k(1)]
  show ?case unfolding k(2) effectsLoop.simps
    by (insert Suc.prems k(1), rule belowI, (assumption | rule le_refl belows les le_call IH)+)
qed (simp add: below_def le_def)

lemma below_parseEffectsClause [belows]:
  "n \<le> n' \<Longrightarrow> below (parseEffectsClause n x1) (parseEffectsClause n' x1)"
  unfolding parseEffectsClause_def by (rule belowI, (assumption | rule le_refl belows les le_call)+)

lemma below_tparamList [belows]:
  "n \<le> n' \<Longrightarrow> below (tparamList n x1 x2) (tparamList n' x1 x2)"
proof (induction n arbitrary: n' x1 x2)
  case (Suc n)
  then obtain k where k: "n \<le> k" "n' = Suc k" by (cases n') auto
  note IH = Suc.IH[OF k(1)]
  show ?case unfolding k(2) tparamList.simps
    by (insert Suc.prems k(1), rule belowI, (assumption | rule le_refl belows les le_call IH)+)
qed (simp add: below_def le_def)

lemma below_typeParams [belows]:
  "n \<le> n' \<Longrightarrow> below (typeParams n x1 x2) (typeParams n' x1 x2)"
  unfolding typeParams_def by (rule belowI, (assumption | rule le_refl belows les le_call)+)

lemma below_parseFuncAnnotations [belows]:
  "n \<le> n' \<Longrightarrow> below (parseFuncAnnotations n x1 x2) (parseFuncAnnotations n' x1 x2)"
proof (induction n arbitrary: n' x1 x2)
  case (Suc n)
  then obtain k where k: "n \<le> k" "n' = Suc k" by (cases n') auto
  note IH = Suc.IH[OF k(1)]
  show ?case unfolding k(2) parseFuncAnnotations.simps
    by (insert Suc.prems k(1), rule belowI, (assumption | rule le_refl belows les le_call IH)+)
qed (simp add: below_def le_def)

lemma below_funcHead [belows]:
  "below p1 q1 \<Longrightarrow> n \<le> n' \<Longrightarrow> below (funcHead n p1) (funcHead n' q1)"
  unfolding funcHead_def by (rule belowI, (assumption | rule le_refl belows les le_call)+)

lemma below_optEffects [belows]:
  "n \<le> n' \<Longrightarrow> below (optEffects n) (optEffects n')"
  unfolding optEffects_def by (rule belowI, (assumption | rule le_refl belows les le_call)+)

lemma below_parseFunc [belows]:
  "below p1 q1 \<Longrightarrow> below p2 q2 \<Longrightarrow> n \<le> n' \<Longrightarrow> below (parseFunc n p1 p2) (parseFunc n' q1 q2)"
  unfolding parseFunc_def by (rule belowI, (assumption | rule le_refl belows les le_call)+)

lemma below_signatureOnly [belows]:
  "below p0 q0 \<Longrightarrow> below (signatureOnly p0) (signatureOnly q0)"
  unfolding signatureOnly_def by (rule belowI, (assumption | rule le_refl belows les le_call)+)

lemma below_externLoop [belows]:
  "n \<le> n' \<Longrightarrow> below (externLoop n x1) (externLoop n' x1)"
proof (induction n arbitrary: n' x1)
  case (Suc n)
  then obtain k where k: "n \<le> k" "n' = Suc k" by (cases n') auto
  note IH = Suc.IH[OF k(1)]
  show ?case unfolding k(2) externLoop.simps
    by (insert Suc.prems k(1), rule belowI, (assumption | rule le_refl belows les le_call IH)+)
qed (simp add: below_def le_def)

lemma below_parseExtern [belows]:
  "below p1 q1 \<Longrightarrow> n \<le> n' \<Longrightarrow> below (parseExtern n p1) (parseExtern n' q1)"
  unfolding parseExtern_def by (rule belowI, (assumption | rule le_refl belows les le_call)+)

lemma below_fieldEffects [belows]:
  "n \<le> n' \<Longrightarrow> below (fieldEffects n x1 x2) (fieldEffects n' x1 x2)"
  unfolding fieldEffects_def by (rule belowI, (assumption | rule le_refl belows les le_call)+)

lemma below_structField [belows]:
  "below p1 q1 \<Longrightarrow> n \<le> n' \<Longrightarrow> below (structField n p1 x2) (structField n' q1 x2)"
  unfolding structField_def by (rule belowI, (assumption | rule le_refl belows les le_call)+)

lemma below_structMember [belows]:
  "below p1 q1 \<Longrightarrow> below p2 q2 \<Longrightarrow> n \<le> n' \<Longrightarrow> below (structMember n p1 p2) (structMember n' q1 q2)"
  unfolding structMember_def by (rule belowI, (assumption | rule le_refl belows les le_call)+)

lemma below_parseStruct [belows]:
  "below p1 q1 \<Longrightarrow> below p2 q2 \<Longrightarrow> n \<le> n' \<Longrightarrow> below (parseStruct n p1 p2) (parseStruct n' q1 q2)"
  unfolding parseStruct_def by (rule belowI, (assumption | rule le_refl belows les le_call)+)

lemma below_dottedTail [belows]:
  "n \<le> n' \<Longrightarrow> below (dottedTail n x1) (dottedTail n' x1)"
proof (induction n arbitrary: n' x1)
  case (Suc n)
  then obtain k where k: "n \<le> k" "n' = Suc k" by (cases n') auto
  note IH = Suc.IH[OF k(1)]
  show ?case unfolding k(2) dottedTail.simps
    by (insert Suc.prems k(1), rule belowI, (assumption | rule le_refl belows les le_call IH)+)
qed (simp add: below_def le_def)

lemma below_parseDottedName [belows]:
  "n \<le> n' \<Longrightarrow> below (parseDottedName n x1) (parseDottedName n' x1)"
  unfolding parseDottedName_def by (rule belowI, (assumption | rule le_refl belows les le_call)+)

lemma below_junkList [belows]:
  "below p1 q1 \<Longrightarrow> n \<le> n' \<Longrightarrow> below (junkList n p1) (junkList n' q1)"
proof (induction n arbitrary: n')
  case (Suc n)
  then obtain k where k: "n \<le> k" "n' = Suc k" by (cases n') auto
  note IH = Suc.IH[OF Suc.prems(1) k(1)]
  show ?case unfolding k(2) junkList.simps
    by (insert Suc.prems k(1), rule belowI, (assumption | rule le_refl belows les le_call IH)+)
qed (simp add: below_def le_def)

lemma below_angleList [belows]:
  "below p1 q1 \<Longrightarrow> n \<le> n' \<Longrightarrow> below (angleList n p1) (angleList n' q1)"
  unfolding angleList_def by (rule belowI, (assumption | rule le_refl belows les le_call)+)

lemma below_traitMethod [belows]:
  "below p0 q0 \<Longrightarrow> below (traitMethod p0 x1) (traitMethod q0 x1)"
  unfolding traitMethod_def by (rule belowI, (assumption | rule le_refl belows les le_call)+)

lemma below_parseTrait [belows]:
  "below p1 q1 \<Longrightarrow> n \<le> n' \<Longrightarrow> below (parseTrait n p1) (parseTrait n' q1)"
  unfolding parseTrait_def by (rule belowI, (assumption | rule le_refl belows les le_call)+)

lemma below_implMethod [belows]:
  "below p1 q1 \<Longrightarrow> n \<le> n' \<Longrightarrow> below (implMethod n p1) (implMethod n' q1)"
  unfolding implMethod_def by (rule belowI, (assumption | rule le_refl belows les le_call)+)

lemma below_implFor [belows]:
  "n \<le> n' \<Longrightarrow> below (implFor n) (implFor n')"
  unfolding implFor_def by (rule belowI, (assumption | rule le_refl belows les le_call)+)

lemma below_parseImpl [belows]:
  "below p1 q1 \<Longrightarrow> below p2 q2 \<Longrightarrow> n \<le> n' \<Longrightarrow> below (parseImpl n p1 p2) (parseImpl n' q1 q2)"
  unfolding parseImpl_def by (rule belowI, (assumption | rule le_refl belows les le_call)+)

lemma below_payloadList [belows]:
  "below p1 q1 \<Longrightarrow> n \<le> n' \<Longrightarrow> below (payloadList n p1) (payloadList n' q1)"
proof (induction n arbitrary: n')
  case (Suc n)
  then obtain k where k: "n \<le> k" "n' = Suc k" by (cases n') auto
  note IH = Suc.IH[OF Suc.prems(1) k(1)]
  show ?case unfolding k(2) payloadList.simps
    by (insert Suc.prems k(1), rule belowI, (assumption | rule le_refl belows les le_call IH)+)
qed (simp add: below_def le_def)

lemma below_variantPayload [belows]:
  "below p1 q1 \<Longrightarrow> n \<le> n' \<Longrightarrow> below (variantPayload n p1) (variantPayload n' q1)"
  unfolding variantPayload_def by (rule belowI, (assumption | rule le_refl belows les le_call)+)

lemma below_variantList [belows]:
  "below p1 q1 \<Longrightarrow> n \<le> n' \<Longrightarrow> below (variantList n p1) (variantList n' q1)"
proof (induction n arbitrary: n')
  case (Suc n)
  then obtain k where k: "n \<le> k" "n' = Suc k" by (cases n') auto
  note IH = Suc.IH[OF Suc.prems(1) k(1)]
  show ?case unfolding k(2) variantList.simps
    by (insert Suc.prems k(1), rule belowI, (assumption | rule le_refl belows les le_call IH)+)
qed (simp add: below_def le_def)

lemma below_parseTypeDecl [belows]:
  "below p1 q1 \<Longrightarrow> n \<le> n' \<Longrightarrow> below (parseTypeDecl n p1) (parseTypeDecl n' q1)"
  unfolding parseTypeDecl_def by (rule belowI, (assumption | rule le_refl belows les le_call)+)

lemma below_parseGlobalDecl [belows]:
  "below p0 q0 \<Longrightarrow> below p1 q1 \<Longrightarrow> below (parseGlobalDecl p0 p1) (parseGlobalDecl q0 q1)"
  unfolding parseGlobalDecl_def by (rule belowI, (assumption | rule le_refl belows les le_call)+)

lemma below_annotLoop [belows]:
  "n \<le> n' \<Longrightarrow> below (annotLoop n x1) (annotLoop n' x1)"
proof (induction n arbitrary: n' x1)
  case (Suc n)
  then obtain k where k: "n \<le> k" "n' = Suc k" by (cases n') auto
  note IH = Suc.IH[OF k(1)]
  show ?case unfolding k(2) annotLoop.simps
    by (insert Suc.prems k(1), rule belowI, (assumption | rule le_refl belows les le_call IH)+)
qed (simp add: below_def le_def)

lemma below_unlessSet [belows]:
  "below p1 q1 \<Longrightarrow> below (unlessSet x0 p1) (unlessSet x0 q1)"
  unfolding unlessSet_def by (rule belowI, (assumption | rule le_refl belows les le_call)+)

lemma below_topFunc [belows]:
  "below p1 q1 \<Longrightarrow> n \<le> n' \<Longrightarrow> below (topFunc n p1 x2) (topFunc n' q1 x2)"
  unfolding topFunc_def by (rule belowI, (assumption | rule le_refl belows les le_call)+)

lemma below_topDecl [belows]:
  "below p1 q1 \<Longrightarrow> below p2 q2 \<Longrightarrow> below p3 q3 \<Longrightarrow> n \<le> n' \<Longrightarrow> below (topDecl n p1 p2 p3 x4) (topDecl n' q1 q2 q3 x4)"
  unfolding topDecl_def by (rule belowI, (assumption | rule le_refl belows les le_call)+)

lemma below_moduleLoop [belows]:
  "(\<And>a. below (p1 a) (q1 a)) \<Longrightarrow> n \<le> n' \<Longrightarrow> below (moduleLoop n p1 x2) (moduleLoop n' q1 x2)"
proof (induction n arbitrary: n' x2)
  case (Suc n)
  then obtain k where k: "n \<le> k" "n' = Suc k" by (cases n') auto
  note IH = Suc.IH[OF Suc.prems(1) k(1)]
  show ?case unfolding k(2) moduleLoop.simps
    by (insert Suc.prems k(1), rule belowI, (assumption | rule le_refl belows les le_call IH)+)
qed (simp add: below_def le_def)

section \<open>The recursion\<close>

lemma below_parseType [belows]: "n \<le> n' \<Longrightarrow> below (parseType n) (parseType n')"
proof (induction n arbitrary: n')
  case (Suc n)
  then obtain k where k: "n \<le> k" "n' = Suc k" by (cases n') auto
  have "below (typeDeeper (parseTypeInner n (parseType n))) (typeDeeper (parseTypeInner k (parseType k)))"
    using Suc.IH[OF k(1)] k(1) by (intro belows)
  then show ?case by (simp add: k(2) below_def)
qed (simp add: below_def le_def)

lemma below_parsers [belows]:
  "n \<le> n' \<Longrightarrow> below (parseCoalesce n) (parseCoalesce n')"
  "n \<le> n' \<Longrightarrow> below (parseUnary n) (parseUnary n')"
  "n \<le> n' \<Longrightarrow> below (parseBlock n) (parseBlock n')"
  "n \<le> n' \<Longrightarrow> below (parseStmt n) (parseStmt n')"
  "n \<le> n' \<Longrightarrow> below (parseIf n) (parseIf n')"
proof (induction n arbitrary: n')
  case (Suc n)
  have *: "below (parseCoalesce (Suc n)) (parseCoalesce (Suc k)) \<and> below (parseUnary (Suc n)) (parseUnary (Suc k)) \<and>
    below (parseBlock (Suc n)) (parseBlock (Suc k)) \<and> below (parseStmt (Suc n)) (parseStmt (Suc k)) \<and>
    below (parseIf (Suc n)) (parseIf (Suc k))" if k: "n \<le> k" for k
  proof -
    note IH = Suc.IH[OF k]
    have "below (parseCoalesceWith n (parseCoalesce n) (parseUnary n)) (parseCoalesceWith k (parseCoalesce k) (parseUnary k))"
      by (intro belows IH k)
    moreover have "below (deeper ''an expression'' (parseUnaryInner (parseUnary n) (parsePostfix n (parseCoalesce n) (parseBlock n) (parseType n))))
        (deeper ''an expression'' (parseUnaryInner (parseUnary k) (parsePostfix k (parseCoalesce k) (parseBlock k) (parseType k))))"
      by (intro below_deeper below_parseUnaryInner below_parsePostfix below_parseType IH k)
    moreover have "below (deeper ''a block'' (parseBlockInner n (parseStmt n))) (deeper ''a block'' (parseBlockInner k (parseStmt k)))"
      by (intro below_deeper below_parseBlockInner IH k)
    moreover have "below (parseStmtWith n (parseCoalesce n) (parseBlock n) (parseStmt n) (parseIf n) (parseType n))
        (parseStmtWith k (parseCoalesce k) (parseBlock k) (parseStmt k) (parseIf k) (parseType k))"
      by (intro below_parseStmtWith below_parseType IH k)
    moreover have "below (parseIfWith (parseCoalesce n) (parseBlock n) (parseIf n)) (parseIfWith (parseCoalesce k) (parseBlock k) (parseIf k))"
      by (intro below_parseIfWith IH)
    ultimately show ?thesis by (simp add: below_def)
  qed
  {
    case 1 then show ?case using *[of "n' - 1"] by (cases n') (simp_all del: parseCoalesce.simps parseUnary.simps parseBlock.simps parseStmt.simps parseIf.simps)
  next
    case 2 then show ?case using *[of "n' - 1"] by (cases n') (simp_all del: parseCoalesce.simps parseUnary.simps parseBlock.simps parseStmt.simps parseIf.simps)
  next
    case 3 then show ?case using *[of "n' - 1"] by (cases n') (simp_all del: parseCoalesce.simps parseUnary.simps parseBlock.simps parseStmt.simps parseIf.simps)
  next
    case 4 then show ?case using *[of "n' - 1"] by (cases n') (simp_all del: parseCoalesce.simps parseUnary.simps parseBlock.simps parseStmt.simps parseIf.simps)
  next
    case 5 then show ?case using *[of "n' - 1"] by (cases n') (simp_all del: parseCoalesce.simps parseUnary.simps parseBlock.simps parseStmt.simps parseIf.simps)
  }
qed (simp_all add: below_def le_def)

lemma below_parseExpr [belows]: "n \<le> n' \<Longrightarrow> below (parseExpr n) (parseExpr n')"
  unfolding parseExpr_def by (rule below_parsers)

lemma fuel_up: "below p q \<Longrightarrow> p s \<noteq> Stuck \<Longrightarrow> q s = p s"
  by (auto simp: below_def le_def)

lemma parseModule_up:
  assumes "n \<le> n'" "parseModule n toks \<noteq> Stuck"
  shows "parseModule n' toks = parseModule n toks"
proof -
  have "below (moduleLoop n (topDecl n (parseExpr n) (parseFunc n (parseBlock n) (parseType n)) (parseType n)) emptyModule)
      (moduleLoop n' (topDecl n' (parseExpr n') (parseFunc n' (parseBlock n') (parseType n')) (parseType n')) emptyModule)"
    using assms(1) by (intro below_moduleLoop below_topDecl below_parseFunc below_parseExpr below_parsers below_parseType)
  then show ?thesis using assms(2) fuel_up unfolding parseModule_def by blast
qed

end
