(* ===== verification/Parser_Print.thy ===== *)
theory Parser_Print
  imports Parser_Stmt Lexer_Print
begin

text \<open>Printing expressions with the parentheses their operators need, and the cursor over printed tokens.\<close>

section \<open>Tokens without positions\<close>

type_synonym key = "tokenKind \<times> string \<times> int"

definition ks :: "pst \<Rightarrow> key list" where "ks s = map tokKey (ps_toks s)"

lemma ks_Cons:
  assumes "ks s = (k, t, v) # r"
  obtains u us where "ps_toks s = u # us" "t_kind u = k" "t_text u = t" "t_ival u = v" "map tokKey us = r"
  using assms by (cases "ps_toks s") (auto simp: ks_def tokKey_def)

lemma ks_cur:
  assumes "ks s = (k, t, v) # r"
  shows "t_kind (cur s) = k" "t_text (cur s) = t" "t_ival (cur s) = v" "textAt s 0 = t"
    "atKind s k' \<longleftrightarrow> k = k'" "at s w \<longleftrightarrow> \<not> (k = TK_STRING \<and> lexIsPunct (Some w)) \<and> t = w"
  using assms by (elim ks_Cons; simp add: cur_def pk_def atKind_def at_def)+

lemma ks_pk1:
  assumes "ks s = a # (k, t, v) # r"
  shows "t_kind (pk s 1) = k" "textAt s 1 = t" "t_kind (pk s (Suc 0)) = k" "textAt s (Suc 0) = t"
  using assms by (cases "ps_toks s"; auto simp: ks_def tokKey_def pk_def)+

lemma ks_take: "ks s = a # b # r \<Longrightarrow> ks (takeTok s) = b # r"
  by (auto simp: ks_def takeTok_def map_eq_Cons_conv)

lemma ks_skipNl: "ks s = (k, t, v) # r \<Longrightarrow> k \<noteq> TK_NEWLINE \<Longrightarrow> skipNl s = s"
proof (elim ks_Cons)
  fix u us assume u: "ps_toks s = u # us" "t_kind u = k" and k: "k \<noteq> TK_NEWLINE"
  have "dropWhileToks (\<lambda>t. t_kind t = TK_NEWLINE) (u # us) = u # us" using u k by (cases us) simp_all
  then show ?thesis using u by (simp add: skipNl_def)
qed

lemma ks_upd [simp]:
  "ks (s\<lparr>ps_next := a\<rparr>) = ks s" "ks (s\<lparr>ps_depth := d\<rparr>) = ks s" "ks (s\<lparr>ps_inCond := b\<rparr>) = ks s"
  by (simp_all add: ks_def)

text \<open>What the parsers of expressions leave alone.\<close>

definition fr :: "pst \<Rightarrow> bool \<times> nat \<times> (nat \<times> nodeMark) list" where
  "fr s = (ps_inCond s, ps_depth s, ps_marks s)"

lemma fr_take [simp]: "fr (takeTok s) = fr s" by (simp add: fr_def takeTok_def)
lemma fr_next [simp]: "fr (s\<lparr>ps_next := a\<rparr>) = fr s" by (simp add: fr_def)

lemma take_fields [simp]:
  "ps_inCond (takeTok s) = ps_inCond s" "ps_depth (takeTok s) = ps_depth s" "ps_marks (takeTok s) = ps_marks s"
  "ps_next (takeTok s) = ps_next s"
  by (simp_all add: takeTok_def)

section \<open>Expressions as written\<close>

text \<open>Integers keep their spelling.\<close>

datatype surf =
    SInt string
  | SStr string
  | SName string
  | SBool bool
  | SNull
  | SUn string surf
  | SDeref surf
  | SRef surf
  | SBin string surf surf
  | SCoal surf surf
  | SField surf string
  | SIndex surf surf
  | SCall surf "surf list"
  | SMethod surf string "surf list"
  | STry surf
  | SSign surf

definition opsAt :: "nat \<Rightarrow> string list" where
  "opsAt k = (if k = 1 then [''||''] else if k = 2 then [''&&''] else if k = 3 then [''|''] else if k = 4 then [''^'']
     else if k = 5 then [''&''] else if k = 6 then [''=='', ''!=''] else if k = 7 then [''<'', ''<='', ''>'', ''>='']
     else if k = 8 then [''<<'', ''>>''] else if k = 9 then [''+'', ''-''] else if k = 10 then [''*'', ''/'', ''%''] else [])"

definition opLev :: "string \<Rightarrow> nat" where
  "opLev f = the (List.find (\<lambda>k. f \<in> set (opsAt k)) [1..<11])"

definition isOp :: "string \<Rightarrow> bool" where "isOp f \<longleftrightarrow> (\<exists>k\<in>set [1..<11]. f \<in> set (opsAt k))"

definition pu :: "string \<Rightarrow> key" where "pu f = (TK_PUNCT, f, 0)"

definition opToks :: "string \<Rightarrow> key list" where
  "opToks f = (if f = ''<<'' then [pu ''<'', pu ''<''] else if f = ''>>'' then [pu ''>'', pu ''>''] else [pu f])"

text \<open>The level of an expression: 0 is \<open>??\<close>, 1 to 10 are the binary operators, 11 the prefix operators, 12
  what can stand before a postfix operator.\<close>

fun lev :: "surf \<Rightarrow> nat" where
  "lev (SBin f a b) = opLev f"
| "lev (SCoal a b) = 0"
| "lev (SUn f a) = 11"
| "lev (SDeref a) = 11"
| "lev (SRef a) = 11"
| "lev _ = 12"

fun isField :: "surf \<Rightarrow> bool" where
  "isField (SField _ _) = True"
| "isField _ = False"

text \<open>The level the left operand is printed at. Before a \<open>less than\<close> sign it always gets parentheses, because
  a name in front of one may be a name with type arguments.\<close>

definition leftLev :: "string \<Rightarrow> nat" where
  "leftLev f = (if f = ''<'' \<or> f = ''<<'' then 13 else opLev f)"

definition par :: "bool \<Rightarrow> key list \<Rightarrow> key list" where
  "par b ts = (if b then pu ''('' # ts @ [pu '')''] else ts)"

fun commas :: "key list list \<Rightarrow> key list" where
  "commas [] = []"
| "commas [ts] = ts"
| "commas (ts # us) = ts @ pu '','' # commas us"

function body :: "surf \<Rightarrow> key list" where
  "body (SInt w) = [(TK_INT, w, decVal w)]"
| "body (SStr w) = [(TK_STRING, w, 0)]"
| "body (SName w) = [(TK_IDENT, w, 0)]"
| "body (SBool b) = [(TK_KEYWORD, if b then ''true'' else ''false'', 0)]"
| "body SNull = [(TK_IDENT, ''null'', 0)]"
| "body (SUn f a) = pu f # par (lev a < 11) (body a)"
| "body (SDeref a) = pu ''*'' # par (lev a < 11) (body a)"
| "body (SRef a) = (TK_KEYWORD, ''ref'', 0) # par (lev a < 11) (body a)"
| "body (SBin f a b) = par (lev a < leftLev f) (body a) @ opToks f @ par (lev b \<le> opLev f) (body b)"
| "body (SCoal a b) = par (lev a < 1) (body a) @ pu ''??'' # body b"
| "body (SField a w) = par (lev a < 12) (body a) @ [pu ''.'', (TK_IDENT, w, 0)]"
| "body (SIndex a i) = par (lev a < 12) (body a) @ pu ''['' # body i @ [pu '']'']"
| "body (SCall a as) = par (lev a < 12 \<or> isField a) (body a) @ pu ''('' # commas (map body as) @ [pu '')'']"
| "body (SMethod a w as) = par (lev a < 12) (body a) @ pu ''.'' # (TK_IDENT, w, 0) # pu ''('' # commas (map body as) @ [pu '')'']"
| "body (STry a) = par (lev a < 12) (body a) @ [pu ''?'']"
| "body (SSign a) = par (lev a < 12) (body a) @ [pu ''!'']"
  by pat_completeness auto
termination by (relation "measure size") (auto simp: less_Suc_eq_le intro: order_trans[OF size_list_estimation'] trans_le_add2)

text \<open>The nesting the parser counts.\<close>

definition up :: "bool \<Rightarrow> nat \<Rightarrow> nat" where "up b d = (if b then Suc d else d)"

function nd :: "surf \<Rightarrow> nat" where
  "nd (SUn f a) = Suc (up (lev a < 11) (nd a))"
| "nd (SDeref a) = Suc (up (lev a < 11) (nd a))"
| "nd (SRef a) = Suc (up (lev a < 11) (nd a))"
| "nd (SBin f a b) = max (up (lev a < leftLev f) (nd a)) (up (lev b \<le> opLev f) (nd b))"
| "nd (SCoal a b) = max (up (lev a < 1) (nd a)) (nd b)"
| "nd (SField a w) = up (lev a < 12) (nd a)"
| "nd (SIndex a i) = max (up (lev a < 12) (nd a)) (Suc (nd i))"
| "nd (SCall a as) = fold (\<lambda>x d. max d (Suc (nd x))) as (up (lev a < 12 \<or> isField a) (nd a))"
| "nd (SMethod a w as) = fold (\<lambda>x d. max d (Suc (nd x))) as (up (lev a < 12) (nd a))"
| "nd (STry a) = up (lev a < 12) (nd a)"
| "nd (SSign a) = up (lev a < 12) (nd a)"
| "nd (SInt w) = 1" | "nd (SStr w) = 1" | "nd (SName w) = 1" | "nd (SBool b) = 1" | "nd SNull = 1"
  by pat_completeness auto
termination by (relation "measure size") (auto simp: less_Suc_eq_le intro: order_trans[OF size_list_estimation'] trans_le_add2)

text \<open>Which expressions are printed: names and strings that no parser function mistakes for a word of the
  grammar.\<close>

definition nameOk :: "string \<Rightarrow> bool" where
  "nameOk w \<longleftrightarrow> identText w \<and> \<not> inList KEYWORDS w \<and> \<not> inList BUILTIN_TYPES w \<and> w \<notin> {''null'', ''new'', ''dyn'', ''ext''}"

definition fieldOk :: "string \<Rightarrow> bool" where
  "fieldOk w \<longleftrightarrow> identText w \<and> \<not> inList KEYWORDS w \<and> \<not> inList BUILTIN_TYPES w"

definition intOk :: "string \<Rightarrow> bool" where
  "intOk w \<longleftrightarrow> w \<noteq> [] \<and> (\<forall>c\<in>set w. isDigit c) \<and> decVal w \<le> LLONG_MAX"

fun okS :: "surf \<Rightarrow> bool" where
  "okS (SInt w) = intOk w"
| "okS (SStr w) = (plainStr w \<and> w \<notin> {''fn'', ''dyn'', ''ext'', ''ref''})"
| "okS (SName w) = nameOk w"
| "okS (SBool b) = True"
| "okS SNull = True"
| "okS (SUn f a) = (f \<in> {''!'', ''-'', ''~''} \<and> okS a)"
| "okS (SDeref a) = okS a"
| "okS (SRef a) = okS a"
| "okS (SBin f a b) = (isOp f \<and> okS a \<and> okS b)"
| "okS (SCoal a b) = (okS a \<and> okS b)"
| "okS (SField a w) = (fieldOk w \<and> okS a)"
| "okS (SIndex a i) = (okS a \<and> okS i)"
| "okS (SCall a as) = (okS a \<and> list_all okS as)"
| "okS (SMethod a w as) = (fieldOk w \<and> okS a \<and> list_all okS as)"
| "okS (STry a) = okS a"
| "okS (SSign a) = okS a"

text \<open>The tree has the shape of the expression.\<close>

fun reads :: "surf \<Rightarrow> expr \<Rightarrow> bool" where
  "reads (SInt w) e = (ex_kind e = EX_INT (decVal w))"
| "reads (SStr w) e = (ex_kind e = EX_STR w)"
| "reads (SName w) e = (ex_kind e = EX_IDENT w None)"
| "reads (SBool b) e = (ex_kind e = EX_BOOL b)"
| "reads SNull e = (ex_kind e = EX_NULL)"
| "reads (SUn f a) e = (case ex_kind e of EX_UN g x \<Rightarrow> g = f \<and> reads a x | _ \<Rightarrow> False)"
| "reads (SDeref a) e = (case ex_kind e of EX_DEREF x \<Rightarrow> reads a x | _ \<Rightarrow> False)"
| "reads (SRef a) e = (case ex_kind e of EX_REF x \<Rightarrow> reads a x | _ \<Rightarrow> False)"
| "reads (SBin f a b) e = (case ex_kind e of EX_BIN g x y \<Rightarrow> g = f \<and> reads a x \<and> reads b y | _ \<Rightarrow> False)"
| "reads (SCoal a b) e = (case ex_kind e of EX_COALESCE x y \<Rightarrow> reads a x \<and> reads b y | _ \<Rightarrow> False)"
| "reads (SField a w) e = (case ex_kind e of EX_FIELD x g \<Rightarrow> g = w \<and> reads a x | _ \<Rightarrow> False)"
| "reads (SIndex a i) e = (case ex_kind e of EX_INDEX x y \<Rightarrow> reads a x \<and> reads i y | _ \<Rightarrow> False)"
| "reads (SCall a as) e = (case ex_kind e of EX_CALL (Some x) ys \<Rightarrow> reads a x \<and> list_all2 reads as ys | _ \<Rightarrow> False)"
| "reads (SMethod a w as) e = (case ex_kind e of EX_METHOD x g ys \<Rightarrow> g = w \<and> reads a x \<and> list_all2 reads as ys | _ \<Rightarrow> False)"
| "reads (STry a) e = (case ex_kind e of EX_TRY x \<Rightarrow> reads a x | _ \<Rightarrow> False)"
| "reads (SSign a) e = (case ex_kind e of EX_SIGN x \<Rightarrow> reads a x | _ \<Rightarrow> False)"

definition printSurf :: "surf \<Rightarrow> string" where
  "printSurf e = printToks (map (\<lambda>(k, t, v). \<lparr>t_kind = k, t_text = t, t_ival = v, t_line = 0, t_col = 0\<rparr>) (body e))"

text \<open>Fuel: every node may cost four levels of calls beside its own.\<close>

fun fb :: "surf \<Rightarrow> nat" where
  "fb (SUn f a) = fb a + 6"
| "fb (SDeref a) = fb a + 6"
| "fb (SRef a) = fb a + 6"
| "fb (SBin f a b) = fb a + fb b + 10"
| "fb (SCoal a b) = fb a + fb b + 10"
| "fb (SField a w) = fb a + 6"
| "fb (SIndex a i) = fb a + fb i + 10"
| "fb (SCall a as) = fb a + sum_list (map (\<lambda>x. fb x + 6) as) + 10"
| "fb (SMethod a w as) = fb a + sum_list (map (\<lambda>x. fb x + 6) as) + 10"
| "fb (STry a) = fb a + 6"
| "fb (SSign a) = fb a + 6"
| "fb _ = 2"

end
