(* ===== verification/Parser_Round.thy ===== *)
theory Parser_Round
  imports Parser_Print
begin

text \<open>Parsing a printed expression gives the expression back.\<close>

section \<open>Levels\<close>

definition LP :: "nat \<Rightarrow> nat \<Rightarrow> pst \<Rightarrow> expr pres" where
  "LP k n = (if k = 0 then parseCoalesce n else if k = 1 then parseOr n (parseCoalesce n) (parseUnary n)
     else if k = 2 then parseAnd n (parseCoalesce n) (parseUnary n) else if k = 3 then parseBitOr n (parseCoalesce n) (parseUnary n)
     else if k = 4 then parseBitXor n (parseCoalesce n) (parseUnary n) else if k = 5 then parseBitAnd n (parseCoalesce n) (parseUnary n)
     else if k = 6 then parseEquality n (parseCoalesce n) (parseUnary n) else if k = 7 then parseComparison n (parseCoalesce n) (parseUnary n)
     else if k = 8 then parseShift n (parseCoalesce n) (parseUnary n) else if k = 9 then parseTerm n (parseUnary n)
     else if k = 10 then parseFactor n (parseUnary n) else parseUnary n)"

definition loopK :: "nat \<Rightarrow> nat \<Rightarrow> nat \<Rightarrow> expr \<Rightarrow> pst \<Rightarrow> expr pres" where
  "loopK k n m = (if k = 8 then shiftLoop m (parseCoalesce n) (LP 9 n) else binLoop m (opsAt k) (LP (Suc k) n))"

lemma levels: "1 \<le> k \<Longrightarrow> k \<le> 10 \<Longrightarrow> k = 1 \<or> k = 2 \<or> k = 3 \<or> k = 4 \<or> k = 5 \<or> k = 6 \<or> k = 7 \<or> k = 8 \<or> k = 9 \<or> k = (10::nat)"
  by presburger

lemma LP_step: "1 \<le> k \<Longrightarrow> k \<le> 10 \<Longrightarrow> LP k n s = pBind (LP (Suc k) n s) (loopK k n n)"
  by (drule (1) levels, elim disjE)
    (simp_all add: LP_def loopK_def opsAt_def binLevel_def parseOr_def parseAnd_def parseBitOr_def parseBitXor_def parseBitAnd_def
      parseEquality_def parseComparison_def parseShift_def parseTerm_def parseFactor_def)

section \<open>What may follow\<close>

definition stops :: "nat \<Rightarrow> key list \<Rightarrow> bool" where
  "stops l r \<longleftrightarrow> (\<exists>k t v k2 t2 v2 us. r = (k, t, v) # (k2, t2, v2) # us \<and> (k = TK_PUNCT \<or> k = TK_NEWLINE) \<and>
     t \<notin> {''!'', ''?'', ''.'', ''['', ''(''} \<and> (l = 0 \<longrightarrow> t \<noteq> ''??'') \<and>
     (\<forall>j. 1 \<le> j \<longrightarrow> j \<le> 10 \<longrightarrow> l \<le> j \<longrightarrow> t \<notin> set (opsAt j)) \<and>
     (l \<le> 8 \<longrightarrow> t = ''<'' \<or> t = ''>'' \<longrightarrow> \<not> (t2 = t \<and> k2 = TK_PUNCT)))"

definition noLt :: "key list \<Rightarrow> bool" where
  "noLt r \<longleftrightarrow> fst (snd (hd r)) \<notin> {''<'', ''::'', ''{''}"

lemma stops_mono: "stops l r \<Longrightarrow> l \<le> l' \<Longrightarrow> stops l' r"
  unfolding stops_def by (elim exE conjE) (intro exI conjI, assumption, auto)

lemma loop_stop:
  assumes "1 \<le> k" "k \<le> 10" "stops k (ks s)"
  shows "loopK k n (Suc m) e s = Parsed e s"
proof -
  obtain kd t v k2 t2 v2 us where r: "ks s = (kd, t, v) # (k2, t2, v2) # us" and kd: "kd = TK_PUNCT \<or> kd = TK_NEWLINE"
    and t: "\<forall>j. 1 \<le> j \<longrightarrow> j \<le> 10 \<longrightarrow> k \<le> j \<longrightarrow> t \<notin> set (opsAt j)"
    and sh: "k \<le> 8 \<longrightarrow> t = ''<'' \<or> t = ''>'' \<longrightarrow> \<not> (t2 = t \<and> k2 = TK_PUNCT)"
    using assms(3) by (auto simp: stops_def)
  show ?thesis
  proof (cases "k = 8")
    case True
    then have "\<not> atShift s ''<''" "\<not> atShift s ''>''" using sh ks_cur(4)[OF r] ks_pk1[OF r] by (auto simp: atShift_def)
    then show ?thesis using True by (simp add: loopK_def)
  next
    case False
    have "\<not> atAny s (opsAt k)" using t assms(1,2) kd ks_cur(6)[OF r] by (auto simp: atAny_def)
    then show ?thesis using False by (simp add: loopK_def)
  qed
qed

lemma lift1:
  assumes "1 \<le> k" "k \<le> 10" "stops k (ks s')" "LP (Suc k) n s = Parsed x s'" "1 \<le> n"
  shows "LP k n s = Parsed x s'"
proof -
  obtain m where n: "n = Suc m" using assms(5) by (cases n) simp_all
  show ?thesis unfolding LP_step[OF assms(1,2)] assms(4) pBind.simps unfolding n by (rule loop_stop[OF assms(1-3)])
qed

lemma lift:
  assumes "1 \<le> i" "i \<le> j" "j \<le> 11" "stops i (ks s')" "LP j n s = Parsed x s'" "1 \<le> n"
  shows "LP i n s = Parsed x s'"
  using assms(2)
proof (induction rule: inc_induct)
  case base
  then show ?case by (rule assms(5))
next
  case (step k)
  show ?case
  proof (rule lift1)
    show "1 \<le> k" "k \<le> 10" using assms(1,3) step(1,2) by linarith+
    show "stops k (ks s')" using assms(4) step(1) by (rule stops_mono)
  qed (rule step(3) assms(6))+
qed

lemma lift0:
  assumes "stops 0 (ks s')" "LP 1 n s = Parsed x s'" "1 \<le> n"
  shows "LP 0 (Suc n) s = Parsed x s'"
proof -
  have "\<not> at s' ''??''" using assms(1) by (auto simp: stops_def ks_cur)
  then have "coalesceLoop n (parseCoalesce n) x s' = Parsed x s'" using assms(3) by (cases n) simp_all
  then show ?thesis using assms(2) by (simp add: LP_def parseCoalesceWith_def)
qed

section \<open>Operators\<close>

lemma isOp_cases:
  "isOp f \<Longrightarrow> f \<in> {''||'', ''&&'', ''|'', ''^'', ''&'', ''=='', ''!='', ''<'', ''<='', ''>'', ''>='', ''<<'', ''>>'', ''+'', ''-'', ''*'', ''/'', ''%''}"
  by (auto simp: isOp_def opsAt_def upt_rec split: if_splits)

lemma opLev_all:
  "opLev ''||'' = 1" "opLev ''&&'' = 2" "opLev ''|'' = 3" "opLev ''^'' = 4" "opLev ''&'' = 5" "opLev ''=='' = 6" "opLev ''!='' = 6"
  "opLev ''<'' = 7" "opLev ''<='' = 7" "opLev ''>'' = 7" "opLev ''>='' = 7" "opLev ''<<'' = 8" "opLev ''>>'' = 8" "opLev ''+'' = 9"
  "opLev ''-'' = 9" "opLev ''*'' = 10" "opLev ''/'' = 10" "opLev ''%'' = 10"
  by code_simp+

lemma opLev_range: "isOp f \<Longrightarrow> 1 \<le> opLev f \<and> opLev f \<le> 10"
  by (drule isOp_cases) (auto simp: opLev_all)

text \<open>A token an expression can start with.\<close>

definition startOk :: "key \<Rightarrow> bool" where
  "startOk u \<longleftrightarrow> (case u of (k, t, v) \<Rightarrow> k \<in> {TK_INT, TK_STRING, TK_IDENT, TK_KEYWORD} \<and> (k \<noteq> TK_STRING \<longrightarrow> t \<notin> set PUNCTS) \<or>
     k = TK_PUNCT \<and> t \<in> {''('', ''!'', ''-'', ''~'', ''*''})"

lemma opsAt_opLev: "t \<in> set (opsAt j) \<Longrightarrow> opLev t = j"
  by (auto simp: opsAt_def opLev_all split: if_splits)

lemma stops_op:
  assumes "isOp f" "startOk u" "opLev f < l"
  shows "stops l (opToks f @ u # r)"
proof -
  obtain k2 t2 v2 where u: "u = (k2, t2, v2)" by (cases u)
  have s: "k2 = TK_PUNCT \<longrightarrow> t2 \<noteq> ''<'' \<and> t2 \<noteq> ''>''" using assms(2) by (auto simp: startOk_def u)
  have q: "f \<notin> {''!'', ''?'', ''.'', ''['', ''(''}" using isOp_cases[OF assms(1)] by auto
  consider "f = ''<<''" | "f = ''>>''" | "opToks f = [pu f]" by (cases "f = ''<<''"; cases "f = ''>>''"; simp add: opToks_def)
  then show ?thesis
  proof cases
    case 1
    then have "9 \<le> l" using assms(3) by (simp add: opLev_all)
    then show ?thesis using 1 by (auto simp: stops_def opToks_def pu_def dest!: opsAt_opLev simp: opLev_all)
  next
    case 2
    then have "9 \<le> l" using assms(3) by (simp add: opLev_all)
    then show ?thesis using 2 by (auto simp: stops_def opToks_def pu_def dest!: opsAt_opLev simp: opLev_all)
  next
    case 3
    have "\<forall>j. 1 \<le> j \<longrightarrow> j \<le> 10 \<longrightarrow> l \<le> j \<longrightarrow> f \<notin> set (opsAt j)" using assms(3) by (auto dest: opsAt_opLev)
    then show ?thesis using s q assms(3) by (auto simp: stops_def 3 pu_def u)
  qed
qed

lemma loop_go:
  assumes "isOp f" "opLev f = k" "ks s = opToks f @ u # r" "startOk u"
  obtains s0 where "ks s0 = u # r" "fr s0 = fr s"
    "loopK k n (Suc m) e s = pBind (LP (Suc k) n s0) (\<lambda>x s1. pBind (mkBin f e x s1) (loopK k n m))"
proof -
  obtain k2 t2 v2 where u: "u = (k2, t2, v2)" by (cases u)
  have k2: "k2 \<noteq> TK_NEWLINE" "k2 \<noteq> TK_FSTRING" using assms(4) by (auto simp: startOk_def u)
  show ?thesis
  proof (cases "k = 8")
    case True
    then have "f = ''<'' @ ''<'' \<or> f = ''>'' @ ''>''" using isOp_cases[OF assms(1)] assms(2) by (auto simp: opLev_all)
    then obtain c where c: "f = c @ c" "c = ''<'' \<or> c = ''>''" by blast
    then have s: "ks s = pu c # pu c # u # r" using assms(3) by (auto simp: opToks_def)
    let ?s = "takeTok (takeTok s)"
    have t: "ks ?s = u # r" by (intro ks_take[of _ "pu c"] ks_take[of _ "pu c"] s)
    have a: "atShift s ''<'' \<longleftrightarrow> c = ''<''" "atShift s ''>'' \<longleftrightarrow> c = ''>''"
      using ks_cur(4)[OF s[unfolded pu_def]] ks_pk1[OF s[unfolded pu_def]] by (auto simp: atShift_def)
    have n: "skipNl ?s = ?s" using t k2(1) unfolding u by (rule ks_skipNl)
    have f: "\<not> atKind ?s TK_FSTRING" using ks_cur(5)[OF t[unfolded u]] k2 by simp
    have g: "(if atShift s ''<'' then ''<<'' else ''>>'') = f" "\<not> (\<not> atShift s ''<'' \<and> \<not> atShift s ''>'')"
      unfolding a c(1) using c(2) by auto
    have "shiftLoop (Suc m) (parseCoalesce n) (LP 9 n) e s =
        pBind (LP 9 n ?s) (\<lambda>x s1. pBind (mkBin f e x s1) (shiftLoop m (parseCoalesce n) (LP 9 n)))"
      unfolding shiftLoop.simps g(1) n Let_def using f g(2) by auto
    moreover have "Suc k = 9" "loopK k n m = shiftLoop m (parseCoalesce n) (LP 9 n)" for m
      using True by (simp, simp only: loopK_def refl if_True)
    ultimately have e: "loopK k n (Suc m) e s = pBind (LP (Suc k) n ?s) (\<lambda>x s1. pBind (mkBin f e x s1) (loopK k n m))"
      by (simp only:)
    show ?thesis by (rule that[OF t _ e]) simp
  next
    case False
    have "f \<noteq> ''<<''" "f \<noteq> ''>>''" using False assms(2) opLev_all(12,13) by metis+
    then have f: "f \<in> set (opsAt k)" "opToks f = [pu f]"
      using assms(1) unfolding assms(2)[symmetric] by (auto simp: isOp_def opToks_def dest: opsAt_opLev)
    then have s: "ks s = pu f # u # r" using assms(3) by simp
    have t: "ks (takeTok s) = u # r" by (rule ks_take[OF s])
    have n: "skipNl (takeTok s) = takeTok s" using t k2(1) unfolding u by (rule ks_skipNl)
    have "atAny s (opsAt k)" "t_text (cur s) = f" using f ks_cur[OF s[unfolded pu_def]] by (auto simp: atAny_def)
    then have "loopK k n (Suc m) e s = pBind (LP (Suc k) n (takeTok s)) (\<lambda>x s1. pBind (mkBin f e x s1) (loopK k n m))"
      using n False by (simp add: loopK_def)
    then show ?thesis by (rule that[OF t fr_take])
  qed
qed

lemma stops_close: "f \<in> {'')'', '']'', '',''} \<Longrightarrow> stops l (pu f # u # r)"
  by (cases u) (auto simp: stops_def pu_def dest!: opsAt_opLev simp: opsAt_def)

lemma stops_coal: "1 \<le> l \<Longrightarrow> stops l (pu ''??'' # u # r)"
  by (cases u) (auto simp: stops_def pu_def opsAt_def)

section \<open>The first token\<close>

text \<open>A token at which no prefix operator is read.\<close>

definition prim :: "key \<Rightarrow> bool" where
  "prim u \<longleftrightarrow> (case u of (k, t, v) \<Rightarrow> startOk u \<and> t \<notin> {''ext'', ''ref''} \<and> (k = TK_PUNCT \<longrightarrow> t = ''(''))"

lemma ident_punct: "identText w \<Longrightarrow> w \<notin> set PUNCTS"
  by (auto simp: PUNCTS_def identText_def isAlpha_def)

lemma digits_punct: "\<forall>c\<in>set w. isDigit c \<Longrightarrow> w \<noteq> [] \<Longrightarrow> w \<notin> set PUNCTS"
  by (auto simp: PUNCTS_def isDigit_def)

lemma intOk_not: "intOk w \<Longrightarrow> v = [] \<or> \<not> isDigit (hd v) \<Longrightarrow> w \<noteq> v"
  by (cases w) (auto simp: intOk_def)

definition starts :: "bool \<Rightarrow> key list \<Rightarrow> bool" where
  "starts p ts \<longleftrightarrow> (\<exists>u r. ts = u # r \<and> startOk u \<and> (p \<longrightarrow> prim u))"

lemma starts_par: "starts (lev a = 12) (body a) \<Longrightarrow> starts (b \<or> lev a = 12) (par b (body a))"
  by (cases b) (auto simp: starts_def par_def pu_def prim_def startOk_def)

lemma starts_app: "starts p ts \<Longrightarrow> starts p (ts @ us)"
  by (auto simp: starts_def)

lemma starts_weak: "starts p ts \<Longrightarrow> starts False ts"
  by (auto simp: starts_def)

lemma lev_le: "okS e \<Longrightarrow> lev e \<le> 12"
  by (cases e) (auto dest: opLev_range)

lemma starts_post: "starts (lev a = 12) (body a) \<Longrightarrow> okS a \<Longrightarrow> starts True (par (lev a < 12) (body a) @ us)"
  using starts_par[of a "lev a < 12"] lev_le[of a] by (auto intro!: starts_app simp: le_less)

lemma starts_atom: "startOk (k, w, v) \<Longrightarrow> w \<notin> {''ext'', ''ref''} \<Longrightarrow> k \<noteq> TK_PUNCT \<Longrightarrow> starts True [(k, w, v)]"
  by (simp add: starts_def prim_def)

lemma starts_body: "okS e \<Longrightarrow> starts (lev e = 12) (body e)"
proof (induction e)
  case (SInt w)
  then show ?case using digits_punct[of w] intOk_not[of w "''ext''"] intOk_not[of w "''ref''"]
    by (simp add: starts_atom startOk_def intOk_def isDigit_def)
next
  case (SStr w)
  then show ?case by (simp add: starts_atom startOk_def)
next
  case (SName w)
  then show ?case using ident_punct[of w] by (auto intro!: starts_atom simp: startOk_def nameOk_def inList_def KEYWORDS_def)
next
  case (SBool b)
  then show ?case by (auto intro!: starts_atom simp: startOk_def PUNCTS_def)
next
  case SNull
  then show ?case by (auto intro!: starts_atom simp: startOk_def PUNCTS_def)
next
  case (SUn f a)
  then show ?case by (auto simp: starts_def startOk_def pu_def)
next
  case (SDeref a)
  then show ?case by (auto simp: starts_def startOk_def pu_def)
next
  case (SRef a)
  then show ?case by (auto simp: starts_def startOk_def pu_def PUNCTS_def)
next
  case (SBin f a b)
  have "lev (SBin f a b) \<noteq> 12" using opLev_range[of f] SBin.prems by simp
  then show ?case using SBin starts_par[of a "lev a < leftLev f"] by (simp add: starts_app starts_weak)
next
  case (SCoal a b)
  then show ?case using starts_par[of a "lev a < 1"] by (simp add: starts_app starts_weak)
next
  case (SCall a as)
  have "okS a" "starts (lev a = 12) (body a)" using SCall by simp_all
  moreover have "(lev a < 12 \<or> isField a) \<or> lev a = 12" using lev_le[OF calculation(1)] by linarith
  ultimately show ?case using starts_par[of a "lev a < 12 \<or> isField a"] by (simp add: starts_app)
qed (simp_all add: starts_post)

lemma first_start:
  assumes "okS e"
  obtains u r where "par b (body e) = u # r" "startOk u"
  using starts_par[OF starts_body[OF assms], of b] by (auto simp: starts_def)

lemma first_prim:
  assumes "okS e" "b \<or> lev e = 12"
  obtains u r where "par b (body e) = u # r" "prim u"
  using starts_par[OF starts_body[OF assms(1)], of b] assms(2) by (auto simp: starts_def)

lemma startOk_at:
  assumes "ks s = u # r" "startOk u" "w \<in> set PUNCTS" "w \<notin> {''('', ''!'', ''-'', ''~'', ''*''}"
  shows "\<not> at s w"
proof -
  obtain k t v where u: "u = (k, t, v)" by (cases u)
  have "lexIsPunct (Some w)" using assms(3) by (auto simp: lexIsPunct_def inList_def PUNCTS_def)
  then show ?thesis using assms ks_cur(6)[OF assms(1)[unfolded u]] by (auto simp: startOk_def u)
qed

lemma prim_at:
  assumes "ks s = u # r" "prim u" "w \<in> {''ext'', ''ref'', ''!'', ''-'', ''~'', ''*''}"
  shows "\<not> at s w"
proof -
  obtain k t v where u: "u = (k, t, v)" by (cases u)
  have "w \<in> {''ext'', ''ref''} \<or> w \<in> set PUNCTS \<and> lexIsPunct (Some w) \<and> w \<noteq> ''(''"
    using assms(3) by (auto simp: lexIsPunct_def inList_def PUNCTS_def)
  then show ?thesis using assms(2) ks_cur(6)[OF assms(1)[unfolded u]] by (auto simp: prim_def startOk_def u)
qed

section \<open>Primary expressions\<close>

lemma step_node:
  assumes "ks s = u # b # r"
  shows "\<exists>s'. mkExpr K (takeTok s) = Parsed (Expr (ps_next s) None K) s' \<and> ks s' = b # r \<and> fr s' = fr s"
  using ks_take[OF assms] by (simp add: mkExpr_def mkNodeAt_def takeTok_def ks_def fr_def)

lemmas prim_simps = parsePrimary_def Let_def

lemma parse_int:
  assumes "ks s = (TK_INT, w, v) # b # r" "intOk w"
  shows "parsePrimary n pe pb pt s = mkExpr (EX_INT v) (takeTok s)"
proof -
  have "\<not> at s ''fn''" "\<not> at s ''dyn''"
    using intOk_not[OF assms(2), of "''fn''"] intOk_not[OF assms(2), of "''dyn''"] ks_cur(6)[OF assms(1)] by (simp_all add: isDigit_def)
  then show ?thesis by (simp add: prim_simps ks_cur[OF assms(1)])
qed

lemma parse_str:
  assumes "ks s = (TK_STRING, w, v) # b # r" "w \<notin> {''fn'', ''dyn''}"
  shows "parsePrimary n pe pb pt s = mkExpr (EX_STR w) (takeTok s)"
  using assms(2) by (simp add: prim_simps ks_cur[OF assms(1)])

lemma parse_word:
  assumes "ks s = (k, w, v) # b # r" "k = TK_KEYWORD \<and> (w = ''true'' \<or> w = ''false'') \<or> k = TK_IDENT \<and> w = ''null''"
  shows "parsePrimary n pe pb pt s = mkExpr (if w = ''null'' then EX_NULL else EX_BOOL (w = ''true'')) (takeTok s)"
  using assms(2) by (auto simp: prim_simps ks_cur[OF assms(1)])

lemma noAssoc:
  assumes "ks s = (k, t, v) # r" "t \<notin> {''<'', ''::''}"
  shows "looksLikeAssoc s = 0"
proof -
  have "segsFrom m s 0 = 0" for m using assms(2) ks_cur(4)[OF assms(1)] by (cases m) auto
  then show ?thesis using assms(2) ks_cur(4)[OF assms(1)] by (simp add: looksLikeAssoc_def)
qed

lemma parse_name:
  assumes "ks s = (TK_IDENT, w, v) # (k, t, v') # r" "nameOk w" "t \<notin> {''<'', ''::'', ''{''}"
  shows "parsePrimary n pe pb pt s = mkExpr (EX_IDENT w None) (takeTok s)"
proof -
  note s = ks_cur[OF assms(1)] and s1 = ks_take[OF assms(1)]
  have w: "w \<notin> set PUNCTS" "w \<notin> set KEYWORDS" "w \<notin> set scalarNames" "w \<notin> {''null'', ''new'', ''dyn'', ''ext''}"
    using assms(2) ident_punct[of w] by (auto simp: nameOk_def inList_def BUILTIN_TYPES_def scalarNames_def)
  have "\<not> at (takeTok s) ''{''" "\<not> at (takeTok s) ''::''" using assms(3) ks_cur(6)[OF s1] by auto
  moreover have "looksLikeAssoc (takeTok s) = 0" by (rule noAssoc[OF s1]) (use assms(3) in auto)
  ultimately have "parseName n pe pt (cur s) (takeTok s) = mkExpr (EX_IDENT w None) (takeTok s)"
    using w s by (simp add: parseName_def isScalarTypeName_def)
  then show ?thesis using w s by (auto simp: prim_simps PUNCTS_def KEYWORDS_def)
qed

section \<open>Postfix operators\<close>

text \<open>A run of an expression parser that reads \<open>e\<close> and stops in front of \<open>r\<close>.\<close>

definition got :: "surf \<Rightarrow> key list \<Rightarrow> pst \<Rightarrow> expr pres \<Rightarrow> bool" where
  "got e r s p \<longleftrightarrow> (\<exists>x s'. p = Parsed x s' \<and> reads e x \<and> ks s' = r \<and> fr s' = fr s)"

definition plain :: "pst \<Rightarrow> bool" where
  "plain s \<longleftrightarrow> (\<forall>p. dynMark (ps_marks s) p = None)"

lemma plain_fr: "fr s' = fr s \<Longrightarrow> plain s' = plain s"
  by (simp add: plain_def fr_def)

lemma reads_isDyn: "reads e x \<Longrightarrow> \<not> isDyn x"
  by (cases e) (auto simp: isDyn_def split: ekind.splits)

lemma expect_key:
  assumes "ks s = pu f # b # r"
  shows "expect f s = Parsed () (takeTok s)" "ks (takeTok s) = b # r" "fr (takeTok s) = fr s"
  using ks_cur[OF assms[unfolded pu_def]] ks_take[OF assms] by (simp_all add: expect_def)

lemma at_pu: "ks s = pu f # r \<Longrightarrow> at s w \<longleftrightarrow> f = w"
  by (simp add: pu_def ks_cur(6))

text \<open>The loop over postfix operators has read \<open>e\<close> and goes on in front of \<open>r\<close>.\<close>

definition reach :: "surf \<Rightarrow> key list \<Rightarrow> pst \<Rightarrow> nat \<Rightarrow> (pst \<Rightarrow> expr pres) \<Rightarrow> expr pres \<Rightarrow> bool" where
  "reach e r s m pe p \<longleftrightarrow> (\<exists>x s'. p = postfixLoop m pe x s' \<and> reads e x \<and> ks s' = r \<and> fr s' = fr s)"

lemma reach_node:
  assumes "ks s = u # b # r" "\<And>x s1. mkExpr K (takeTok s) = Parsed x s1 \<Longrightarrow> p = postfixLoop m pe x s1"
    "\<And>q. reads e (Expr q None K)"
  shows "reach e (b # r) s m pe p"
proof -
  obtain s' where s: "mkExpr K (takeTok s) = Parsed (Expr (ps_next s) None K) s'" "ks s' = b # r" "fr s' = fr s"
    using step_node[OF assms(1)] by metis
  show ?thesis unfolding reach_def
    by (intro exI[of _ "Expr (ps_next s) None K"] exI[of _ s'] conjI assms(2,3) s)
qed

lemma reach_frame: "reach e r s1 m pe p \<Longrightarrow> fr s1 = fr s \<Longrightarrow> reach e r s m pe p"
  by (simp add: reach_def)

lemma step_sign:
  assumes "ks s = pu ''!'' # b # r" "reads a x"
  shows "reach (SSign a) (b # r) s m pe (postfixLoop (Suc m) pe x s)"
  by (rule reach_node[OF assms(1), of "EX_SIGN x"]) (simp_all add: at_pu[OF assms(1)] assms(2))

lemma step_try:
  assumes "ks s = pu ''?'' # b # r" "reads a x"
  shows "reach (STry a) (b # r) s m pe (postfixLoop (Suc m) pe x s)"
  by (rule reach_node[OF assms(1), of "EX_TRY x"]) (simp_all add: at_pu[OF assms(1)] assms(2))

lemma step_field:
  assumes "ks s = pu ''.'' # (TK_IDENT, w, v) # (k, t, v') # r" "t \<noteq> ''(''" "reads a x" "plain s"
  shows "reach (SField a w) ((k, t, v') # r) s m pe (postfixLoop (Suc m) pe x s)"
proof -
  let ?a = "takeTok s" let ?b = "takeTok ?a"
  note a = ks_take[OF assms(1)] note b = ks_take[OF a]
  have "expectIdent ''a field or method name'' ?a = Parsed (cur ?a) ?b" "t_text (cur ?a) = w"
    using ks_cur[OF a] by (simp_all add: expectIdent_def)
  moreover have "\<not> at ?b ''(''" using assms(2) ks_cur(6)[OF b] by simp
  moreover have "dynMark (ps_marks ?b) (ex_id x) = None" using assms(4) by (simp add: plain_def)
  ultimately have "postfixDot m pe x s = mkExpr (EX_FIELD x w) ?b"
    using reads_isDyn[OF assms(3)] by (simp add: postfixDot_def)
  then have "reach (SField a w) ((k, t, v') # r) ?a m pe (postfixLoop (Suc m) pe x s)"
    using assms(3) by (intro reach_node[OF a, of "EX_FIELD x w"]) (simp_all add: at_pu[OF assms(1)])
  then show ?thesis by (rule reach_frame) simp
qed

lemma step_index:
  assumes s: "ks s = pu ''['' # u # ts @ pu '']'' # b # r" and u: "startOk u" and x: "reads a x"
    and pe: "\<And>s1. ks s1 = u # ts @ pu '']'' # b # r \<Longrightarrow> fr s1 = (False, snd (fr s)) \<Longrightarrow> got i (pu '']'' # b # r) s1 (pe s1)"
  shows "reach (SIndex a i) (b # r) s m pe (postfixLoop (Suc m) pe x s)"
proof -
  let ?a = "takeTok s" let ?c = "?a\<lparr>ps_inCond := False\<rparr>"
  note a = ks_take[OF s]
  obtain k t v where uk: "u = (k, t, v)" by (cases u)
  have n: "skipNl ?a = ?a" by (rule ks_skipNl[OF a[unfolded uk]]) (use u in \<open>auto simp: startOk_def uk\<close>)
  have c: "ks ?c = u # ts @ pu '']'' # b # r" using a by simp
  have "fr ?c = (False, snd (fr s))" by (simp add: fr_def)
  from pe[OF c this] obtain y s2 where y: "pe ?c = Parsed y s2" "reads i y" "ks s2 = pu '']'' # b # r" "fr s2 = (False, snd (fr s))"
    by (auto simp: got_def fr_def)
  have d: "\<not> at ?c ''..''" by (rule startOk_at[OF c u]) (auto simp: PUNCTS_def)
  have n2: "skipNl s2 = s2" using y(3) unfolding pu_def by (rule ks_skipNl) simp
  let ?s3 = "s2\<lparr>ps_inCond := ps_inCond ?a\<rparr>"
  have "withCond False (bracketInside pe) (skipNl ?a) = Parsed (Inl y) ?s3"
    using y n n2 d at_pu[OF y(3)] by (simp add: withCond_def bracketInside_def)
  moreover have e: "ks ?s3 = pu '']'' # b # r" using y(3) by simp
  ultimately have "postfixBracket pe x s = mkExpr (EX_INDEX x y) (takeTok ?s3)"
    using expect_key[OF e] by (simp add: postfixBracket_def)
  then have "reach (SIndex a i) (b # r) ?s3 m pe (postfixLoop (Suc m) pe x s)"
    using x y(2) by (intro reach_node[OF e, of "EX_INDEX x y"]) (simp_all add: at_pu[OF s])
  then show ?thesis by (rule reach_frame) (use y(4) in \<open>simp add: fr_def\<close>)
qed

lemma skipNl_start: "ks s = u # r \<Longrightarrow> startOk u \<Longrightarrow> skipNl s = s"
  by (cases u) (auto intro: ks_skipNl simp: startOk_def)

lemma body_start:
  assumes "okS e"
  obtains u r where "body e = u # r" "startOk u"
  by (rule first_start[OF assms, of False]) (simp add: par_def that)

definition readsArg :: "(pst \<Rightarrow> expr pres) \<Rightarrow> surf \<Rightarrow> bool \<times> nat \<times> (nat \<times> nodeMark) list \<Rightarrow> bool" where
  "readsArg pe i F \<longleftrightarrow> (\<forall>s f b r. f \<in> {'','', '')''} \<longrightarrow> ks s = body i @ pu f # b # r \<longrightarrow> fr s = F \<longrightarrow> got i (pu f # b # r) s (pe s))"

lemma readsArgD:
  "readsArg pe i F \<Longrightarrow> f \<in> {'','', '')''} \<Longrightarrow> ks s = body i @ pu f # b # r \<Longrightarrow> fr s = F \<Longrightarrow> got i (pu f # b # r) s (pe s)"
  unfolding readsArg_def by blast

lemma args_got:
  assumes "ks s = commas (map body as) @ pu '')'' # b # r" "list_all okS as" "length as < m" "\<forall>i\<in>set as. readsArg pe i (fr s)"
  shows "\<exists>xs s'. untilList m '')'' pe s = Parsed xs s' \<and> list_all2 reads as xs \<and> ks s' = pu '')'' # b # r \<and> fr s' = fr s"
  using assms
proof (induction as arbitrary: s m)
  case Nil
  then show ?case by (cases m) (auto simp: at_pu)
next
  case (Cons a as)
  obtain n where m: "m = Suc n" using Cons.prems(3) by (cases m) auto
  obtain u us where u: "body a = u # us" "startOk u" using Cons.prems(2) by (auto elim: body_start)
  define f rest where f: "f = (if as = [] then '')'' else '','')"
    and rest: "rest = (if as = [] then b # r else commas (map body as) @ pu '')'' # b # r)"
  have s: "ks s = body a @ pu f # rest" using Cons.prems(1) by (cases as) (simp_all add: f rest)
  obtain b' r' where rest': "rest = b' # r'" by (cases rest) (auto simp: rest split: if_splits)
  have "\<not> at s '')''" by (rule startOk_at[OF _ u(2)]) (use s u in \<open>auto simp: PUNCTS_def\<close>)
  moreover have "got a (pu f # b' # r') s (pe s)"
    by (rule readsArgD) (use Cons.prems(4) s in \<open>auto simp: rest' f\<close>)
  then obtain x s1 where x: "pe s = Parsed x s1" "reads a x" "ks s1 = pu f # b' # r'" "fr s1 = fr s"
    by (auto simp: got_def)
  ultimately have e: "untilList m '')'' pe s = (if f = '','' then
      pBind (untilList n '')'' pe (skipNl (takeTok s1))) (\<lambda>as s2. Parsed (x # as) s2) else Parsed [x] s1)"
    by (simp add: m at_pu)
  show ?case
  proof (cases "as = []")
    case True
    then show ?thesis using e x rest' by (auto simp: f rest)
  next
    case False
    then have k: "ks (takeTok s1) = commas (map body as) @ pu '')'' # b # r" using ks_take[OF x(3)] rest' by (simp add: rest)
    obtain a' as' where as: "as = a' # as'" using False by (cases as) auto
    obtain v vs where v: "body a' = v # vs" "startOk v" using Cons.prems(2) as by (auto elim: body_start)
    have "\<exists>r'. commas (map body as) = v # r'" using v by (cases as') (simp_all add: as)
    then have n: "skipNl (takeTok s1) = takeTok s1" using k v(2) by (auto intro: skipNl_start)
    have "\<exists>xs s'. untilList n '')'' pe (takeTok s1) = Parsed xs s' \<and> list_all2 reads as xs \<and> ks s' = pu '')'' # b # r \<and>
        fr s' = fr (takeTok s1)"
      by (rule Cons.IH[OF k]) (use Cons.prems m x(4) in auto)
    then show ?thesis using e n x(2,4) False by (auto simp: f)
  qed
qed

lemma parseArgs_got:
  assumes "ks s = pu ''('' # commas (map body as) @ pu '')'' # b # r" "list_all okS as" "length as < m"
    "\<forall>i\<in>set as. readsArg pe i (False, snd (fr s))"
  shows "\<exists>xs s'. parseArgs m pe s = Parsed xs s' \<and> list_all2 reads as xs \<and> ks s' = b # r \<and> fr s' = fr s"
proof -
  obtain u us where u: "commas (map body as) @ pu '')'' # b # r = u # us" "startOk u \<or> u = pu '')''"
    using assms(2) by (cases as rule: remdups_adj.cases) (auto elim!: body_start)
  have s: "ks s = pu ''('' # u # us" using assms(1) u by simp
  note e = expect_key[OF s]
  have n: "skipNl (takeTok s) = takeTok s"
    using u(2) e(2) skipNl_start[OF e(2)] ks_skipNl[of "takeTok s" TK_PUNCT] by (auto simp: pu_def)
  let ?a = "(takeTok s)\<lparr>ps_inCond := False\<rparr>"
  have "ks ?a = commas (map body as) @ pu '')'' # b # r" "fr ?a = (False, snd (fr s))" using e(2) u by (simp_all add: fr_def)
  with args_got[of ?a as b r m pe] obtain xs s1 where x: "untilList m '')'' pe ?a = Parsed xs s1" "list_all2 reads as xs"
      "ks s1 = pu '')'' # b # r" "fr s1 = (False, snd (fr s))"
    using assms(2-4) by auto
  have n1: "skipNl s1 = s1" using x(3) unfolding pu_def by (rule ks_skipNl) simp
  let ?b = "s1\<lparr>ps_inCond := ps_inCond (takeTok s)\<rparr>"
  have b: "ks ?b = pu '')'' # b # r" using x(3) by simp
  have "parseArgs m pe s = Parsed xs (takeTok ?b)"
    using e(1) n x(1) n1 expect_key(1)[OF b] by (simp add: parseArgs_def withCond_def)
  then show ?thesis using x(2,4) expect_key(2)[OF b] by (auto simp: fr_def)
qed

lemma reach_at:
  assumes "ks s1 = r" "fr s1 = fr s" "\<And>x s2. mkExpr K s1 = Parsed x s2 \<Longrightarrow> p = postfixLoop m pe x s2"
    "\<And>q. reads e (Expr q None K)"
  shows "reach e r s m pe p"
  unfolding reach_def
  by (intro exI[of _ "Expr (ps_next s1) None K"] exI[of _ "s1\<lparr>ps_next := ps_next s1 + 1\<rparr>"] conjI assms(3,4))
    (simp_all add: mkExpr_def mkNodeAt_def assms(1,2))

lemma step_call:
  assumes "ks s = pu ''('' # commas (map body as) @ pu '')'' # b # r" "list_all okS as" "length as < m"
    "\<forall>i\<in>set as. readsArg pe i (False, snd (fr s))" "reads a x"
  shows "reach (SCall a as) (b # r) s m pe (postfixLoop (Suc m) pe x s)"
proof -
  obtain xs s1 where x: "parseArgs m pe s = Parsed xs s1" "list_all2 reads as xs" "ks s1 = b # r" "fr s1 = fr s"
    using parseArgs_got[OF assms(1-4)] by blast
  show ?thesis
    by (rule reach_at[OF x(3,4), of "EX_CALL (Some x) xs"]) (simp_all add: at_pu[OF assms(1)] x assms(5))
qed

lemma step_method:
  assumes "ks s = pu ''.'' # (TK_IDENT, w, v) # pu ''('' # commas (map body as) @ pu '')'' # b # r" "list_all okS as" "length as < m"
    "\<forall>i\<in>set as. readsArg pe i (False, snd (fr s))" "reads a x" "plain s"
  shows "reach (SMethod a w as) (b # r) s m pe (postfixLoop (Suc m) pe x s)"
proof -
  let ?a = "takeTok s" let ?b = "takeTok ?a"
  have "ks ?a = (TK_IDENT, w, v) # pu ''('' # commas (map body as) @ pu '')'' # b # r" by (rule ks_take[OF assms(1)])
  note a = this and c = ks_take[OF this]
  obtain xs s1 where x: "parseArgs m pe ?b = Parsed xs s1" "list_all2 reads as xs" "ks s1 = b # r" "fr s1 = fr s"
    using parseArgs_got[OF c assms(2,3), of pe] assms(4) unfolding fr_take by blast
  have i: "expectIdent ''a field or method name'' ?a = Parsed (cur ?a) ?b" "t_text (cur ?a) = w"
    using ks_cur[OF a] by (simp_all add: expectIdent_def)
  have n: "\<forall>p. dynMark (ps_marks s1) p = None" using assms(6) x(4) by (simp add: plain_def fr_def)
  have k: "(case ex_kind x of EX_DYN tr y \<Rightarrow> D tr y | _ \<Rightarrow> E) = E" for D and E :: "expr pres"
    using reads_isDyn[OF assms(5)] by (auto simp: isDyn_def split: ekind.splits)
  have "postfixDot m pe x s = mkExpr (EX_METHOD x w xs) s1"
    using i x(1) n by (simp add: postfixDot_def at_pu[OF c] methodNode_def k) (simp add: mkExpr_def mkNodeAt_def)
  then show ?thesis
    using x(2) assms(5) by (intro reach_at[OF x(3,4), of "EX_METHOD x w xs"]) (simp_all add: at_pu[OF assms(1)])
qed

lemma parse_paren:
  assumes s: "ks s = pu ''('' # u # ts @ pu '')'' # b # r" and u: "startOk u"
    and pe: "\<And>s1. ks s1 = u # ts @ pu '')'' # b # r \<Longrightarrow> fr s1 = (False, snd (fr s)) \<Longrightarrow> got e (pu '')'' # b # r) s1 (pe s1)"
  shows "got e (b # r) s (parsePrimary n pe pb pt s)"
proof -
  let ?a = "takeTok s" let ?c = "?a\<lparr>ps_inCond := False\<rparr>"
  note a = ks_take[OF s]
  have n: "skipNl ?a = ?a" by (rule skipNl_start[OF a u])
  have c: "ks ?c = u # ts @ pu '')'' # b # r" "fr ?c = (False, snd (fr s))" using a by (simp_all add: fr_def)
  from pe[OF this] obtain x s2 where x: "pe ?c = Parsed x s2" "reads e x" "ks s2 = pu '')'' # b # r" "fr s2 = (False, snd (fr s))"
    using c(2) by (auto simp: got_def)
  let ?s3 = "s2\<lparr>ps_inCond := ps_inCond ?a\<rparr>"
  have e: "ks ?s3 = pu '')'' # b # r" using x(3) by simp
  have n3: "skipNl ?s3 = ?s3" using e unfolding pu_def by (rule ks_skipNl) simp
  have "t_kind (cur s) = TK_PUNCT" using ks_cur(1)[OF s[unfolded pu_def]] .
  then have "parsePrimary n pe pb pt s = Parsed x (takeTok ?s3)"
    using x(1) n n3 expect_key(1)[OF e] by (simp add: prim_simps at_pu[OF s] withCond_def)
  moreover have "fr (takeTok ?s3) = fr s" using x(4) by (simp add: fr_def)
  ultimately show ?thesis using x(2) expect_key(2)[OF e] by (simp add: got_def)
qed

section \<open>Prefix operators\<close>

definition PF :: "nat \<Rightarrow> pst \<Rightarrow> expr pres" where
  "PF n = parsePostfix n (parseCoalesce n) (parseBlock n) (parseType n)"

lemma reachI: "p = postfixLoop m pe x s' \<Longrightarrow> reads e x \<Longrightarrow> ks s' = r \<Longrightarrow> fr s' = fr s \<Longrightarrow> reach e r s m pe p"
  unfolding reach_def by blast

lemma PF_got:
  assumes "got e r s (parsePrimary n (parseCoalesce n) (parseBlock n) (parseType n) s)"
  shows "reach e r s n (parseCoalesce n) (PF n s)"
proof -
  obtain x s' where x: "parsePrimary n (parseCoalesce n) (parseBlock n) (parseType n) s = Parsed x s'" "reads e x" "ks s' = r" "fr s' = fr s"
    using assms unfolding got_def by blast
  show ?thesis by (rule reachI[OF _ x(2-4)]) (simp add: PF_def parsePostfix_def x(1))
qed

lemma post_stop:
  assumes "stops 11 (ks s)"
  shows "postfixLoop (Suc m) pe x s = Parsed x s"
  using assms by (auto simp: stops_def ks_cur)

lemma wrap:
  assumes "ps_depth s + 1 \<le> 64"
    "got e r (s\<lparr>ps_depth := ps_depth s + 1\<rparr>) (parseUnaryInner (parseUnary n) (PF n) (s\<lparr>ps_depth := ps_depth s + 1\<rparr>))"
  shows "got e r s (parseUnary (Suc n) s)"
proof -
  let ?d = "s\<lparr>ps_depth := ps_depth s + 1\<rparr>"
  obtain x s1 where x: "parseUnaryInner (parseUnary n) (PF n) ?d = Parsed x s1" "reads e x" "ks s1 = r" "fr s1 = fr ?d"
    using assms(2) by (auto simp: got_def)
  have "parseUnary (Suc n) s = Parsed x (s1\<lparr>ps_depth := ps_depth s1 - 1\<rparr>)"
    using x(1) assms(1) by (simp add: deeper_def PARSE_DEPTH_LIMIT_def PF_def)
  then show ?thesis using x(2-4) by (auto simp: got_def fr_def)
qed

lemma wrap_prim:
  assumes "ks s = u # r'" "prim u" "ps_depth s + 1 \<le> 64" "stops 11 r" "1 \<le> m"
    "reach e r (s\<lparr>ps_depth := ps_depth s + 1\<rparr>) m (parseCoalesce n) (PF n (s\<lparr>ps_depth := ps_depth s + 1\<rparr>))"
  shows "got e r s (parseUnary (Suc n) s)"
proof (rule wrap[OF assms(3)])
  let ?d = "s\<lparr>ps_depth := ps_depth s + 1\<rparr>"
  have d: "ks ?d = u # r'" using assms(1) by simp
  note a = prim_at[OF d assms(2)]
  have "parseUnaryInner (parseUnary n) (PF n) ?d = PF n ?d" using a by (simp add: parseUnaryInner_def)
  then show "got e r ?d (parseUnaryInner (parseUnary n) (PF n) ?d)"
    using assms(4-6) post_stop by (cases m) (auto simp: reach_def got_def)
qed

lemma wrap_op:
  assumes "ks s = (k, f, v) # u # r'" "k = TK_PUNCT \<and> (f = ''!'' \<or> f = ''-'' \<or> f = ''~'') \<and> e = SUn f a \<or>
      k = TK_PUNCT \<and> f = ''*'' \<and> e = SDeref a \<or> k = TK_KEYWORD \<and> f = ''ref'' \<and> e = SRef a"
    "ps_depth s + 1 \<le> 64"
    "\<And>s1. ks s1 = u # r' \<Longrightarrow> fr s1 = (fst (fr s), ps_depth s + 1, ps_marks s) \<Longrightarrow> got a r s1 (parseUnary n s1)"
  shows "got e r s (parseUnary (Suc n) s)"
proof (rule wrap[OF assms(3)], unfold Suc_eq_plus1[symmetric])
  let ?d = "s\<lparr>ps_depth := Suc (ps_depth s)\<rparr>"
  have d: "ks ?d = (k, f, v) # u # r'" using assms(1) by simp
  have "got a r (takeTok ?d) (parseUnary n (takeTok ?d))" by (rule assms(4)[OF ks_take[OF d]]) (simp add: fr_def)
  then obtain x s1 where x: "parseUnary n (takeTok ?d) = Parsed x s1" "reads a x" "ks s1 = r" "fr s1 = fr ?d"
    by (auto simp: got_def)
  have at: "at ?d w \<longleftrightarrow> f = w" for w using assms(2) ks_cur(6)[OF d] by auto
  show "got e r ?d (parseUnaryInner (parseUnary n) (PF n) ?d)"
    using assms(2) x ks_cur(2)[OF d] by (elim disjE) (auto simp: parseUnaryInner_def at got_def mkExpr_def mkNodeAt_def simp del: parseUnary.simps)
qed

section \<open>Induction\<close>

lemma nd_pos: "1 \<le> nd e"
proof (induction e)
  case (SCall a as)
  have "d \<le> fold (\<lambda>x d. max d (Suc (nd x))) as d" for d by (induction as arbitrary: d) (auto intro: le_trans[OF max.cobounded1])
  then show ?case using SCall by (auto simp: up_def intro: le_trans)
next
  case (SMethod a w as)
  have "d \<le> fold (\<lambda>x d. max d (Suc (nd x))) as d" for d by (induction as arbitrary: d) (auto intro: le_trans[OF max.cobounded1])
  then show ?case using SMethod by (auto simp: up_def intro: le_trans)
qed (auto simp: up_def)

definition opd :: "nat \<Rightarrow> bool \<Rightarrow> surf \<Rightarrow> bool" where
  "opd l b e \<longleftrightarrow> (\<forall>s r n. ks s = par b (body e) @ r \<longrightarrow> stops l r \<longrightarrow> b \<or> noLt r \<longrightarrow> ps_depth s + up b (nd e) \<le> 64 \<longrightarrow>
     plain s \<longrightarrow> fb e + (if b then 6 else 3) \<le> n \<longrightarrow> got e r s (LP l n s))"

lemma opdD:
  "opd l b e \<Longrightarrow> ks s = par b (body e) @ r \<Longrightarrow> stops l r \<Longrightarrow> b \<or> noLt r \<Longrightarrow> ps_depth s + up b (nd e) \<le> 64 \<Longrightarrow>
    plain s \<Longrightarrow> fb e + 6 \<le> n \<Longrightarrow> got e r s (LP l n s)"
  unfolding opd_def by (cases b) auto

definition postOk :: "bool \<Rightarrow> surf \<Rightarrow> key list \<Rightarrow> bool" where
  "postOk b e r \<longleftrightarrow> (\<exists>k t v c r'. r = (k, t, v) # c # r' \<and> (b \<or> t \<notin> {''<'', ''::'', ''{''} \<and> (isField e \<longrightarrow> t \<noteq> ''('')))"

definition posts :: "bool \<Rightarrow> surf \<Rightarrow> bool" where
  "posts b e \<longleftrightarrow> (\<forall>s r n. ks s = par b (body e) @ r \<longrightarrow> postOk b e r \<longrightarrow> ps_depth s + up b (nd e) \<le> 65 \<longrightarrow> plain s \<longrightarrow>
     fb e + (if b then 3 else 0) \<le> n \<longrightarrow> (\<exists>m. n \<le> m + fb e \<and> reach e r s m (parseCoalesce n) (PF n s)))"

lemma postsD:
  "posts b e \<Longrightarrow> ks s = par b (body e) @ r \<Longrightarrow> postOk b e r \<Longrightarrow> ps_depth s + up b (nd e) \<le> 65 \<Longrightarrow> plain s \<Longrightarrow>
    fb e + (if b then 3 else 0) \<le> n \<Longrightarrow> \<exists>m. n \<le> m + fb e \<and> reach e r s m (parseCoalesce n) (PF n s)"
  unfolding posts_def by blast

definition spine :: "nat \<Rightarrow> surf \<Rightarrow> bool" where
  "spine k e \<longleftrightarrow> (\<forall>s r n. ks s = body e @ r \<longrightarrow> stops (Suc k) r \<longrightarrow> noLt r \<longrightarrow> ps_depth s + nd e \<le> 64 \<longrightarrow> plain s \<longrightarrow>
     fb e + 1 \<le> n \<longrightarrow> (\<exists>m x s'. n \<le> m + fb e \<and> LP k n s = loopK k n m x s' \<and> reads e x \<and> ks s' = r \<and> fr s' = fr s))"

lemma spineD:
  "spine k e \<Longrightarrow> ks s = body e @ r \<Longrightarrow> stops (Suc k) r \<Longrightarrow> noLt r \<Longrightarrow> ps_depth s + nd e \<le> 64 \<Longrightarrow> plain s \<Longrightarrow>
    fb e + 1 \<le> n \<Longrightarrow> \<exists>m x s'. n \<le> m + fb e \<and> LP k n s = loopK k n m x s' \<and> reads e x \<and> ks s' = r \<and> fr s' = fr s"
  unfolding spine_def by blast

definition parsesBack :: "surf \<Rightarrow> bool" where
  "parsesBack e \<longleftrightarrow> (lev e = 12 \<longrightarrow> posts False e) \<and> (1 \<le> lev e \<longrightarrow> lev e \<le> 10 \<longrightarrow> spine (lev e) e) \<and>
     (\<forall>l \<le> lev e. l \<le> 11 \<longrightarrow> opd l False e)"

text \<open>From the level where an expression is parsed down to the one that is asked for.\<close>

lemma lower:
  assumes "\<And>n. N \<le> n \<Longrightarrow> got e r s (LP j n s)" "1 \<le> j" "j \<le> 11" "l \<le> j" "stops l r" "1 \<le> N" "Suc N \<le> n"
  shows "got e r s (LP l n s)"
proof -
  have one: "got e r s (LP i n s)" if i: "1 \<le> i" "i \<le> j" "stops i r" and n: "N \<le> n" for i n
  proof -
    obtain x s' where x: "LP j n s = Parsed x s'" "reads e x" "ks s' = r" "fr s' = fr s"
      using assms(1)[OF n] by (auto simp: got_def)
    have "LP i n s = Parsed x s'" using i assms(3,6) n x(1,3) by (intro lift[of i j]) auto
    then show ?thesis using x(2-4) by (simp add: got_def)
  qed
  show ?thesis
  proof (cases "l = 0")
    case False
    then show ?thesis using one[of l n] assms(4,5,7) by simp
  next
    case True
    obtain m where m: "n = Suc m" "N \<le> m" using assms(7) by (cases n) auto
    have "stops 1 r" using assms(5) by (rule stops_mono) (use True in simp)
    then obtain x s' where x: "LP 1 m s = Parsed x s'" "reads e x" "ks s' = r" "fr s' = fr s"
      using one[of 1 m] assms(2) m(2) by (auto simp: got_def)
    have "LP 0 (Suc m) s = Parsed x s'" using assms(5,6) m(2) x(1,3) True by (intro lift0) auto
    then show ?thesis using x(2-4) m(1) True by (simp add: got_def)
  qed
qed

lemma stops_postOk: "stops l r \<Longrightarrow> b \<or> noLt r \<Longrightarrow> postOk b e r"
  unfolding stops_def postOk_def noLt_def by (elim exE conjE) (intro exI conjI, assumption, auto)

lemma posts_opd:
  assumes "posts b e" "okS e" "b \<or> lev e = 12" "l \<le> 11"
  shows "opd l b e"
  unfolding opd_def
proof (intro allI impI)
  fix s r n
  assume a: "ks s = par b (body e) @ r" "stops l r" "b \<or> noLt r" "ps_depth s + up b (nd e) \<le> 64" "plain s"
    "fb e + (if b then 6 else 3) \<le> n"
  obtain u r' where u: "par b (body e) = u # r'" "prim u" using first_prim[OF assms(2,3)] .
  have d: "1 \<le> up b (nd e)" using nd_pos[of e] by (simp add: up_def)
  let ?N = "fb e + (if b then 3 else 0) + 2"
  have "got e r s (LP 11 n s)" if n: "?N \<le> n" for n
  proof -
    obtain k where k: "n = Suc k" "fb e + (if b then 3 else 0) + 1 \<le> k" using n by (cases n) auto
    let ?d = "s\<lparr>ps_depth := ps_depth s + 1\<rparr>"
    obtain m where m: "k \<le> m + fb e" "reach e r ?d m (parseCoalesce k) (PF k ?d)"
      using postsD[OF assms(1), of ?d r k] a stops_postOk[OF a(2,3)] k(2) by (auto simp: plain_def)
    have "stops 11 r" using a(2) assms(4) by (rule stops_mono)
    then have "got e r s (parseUnary (Suc k) s)"
      using a(1,4) u d m k(2) by (intro wrap_prim[of s u "r' @ r" r m]) auto
    then show ?thesis by (simp add: k(1) LP_def)
  qed
  then show "got e r s (LP l n s)" using assms(4) a(2,6) by (intro lower[of ?N e r s 11 l n]) auto
qed

lemma noLt_pu: "noLt (pu f # r) \<longleftrightarrow> f \<notin> {''<'', ''::'', ''{''}"
  by (simp add: noLt_def pu_def)

lemma opd_posts:
  assumes "opd 0 False e" "okS e"
  shows "posts True e"
  unfolding posts_def
proof (intro allI impI)
  fix s r n
  assume a: "ks s = par True (body e) @ r" "postOk True e r" "ps_depth s + up True (nd e) \<le> 65" "plain s"
    "fb e + (if True then 3 else 0) \<le> n"
  obtain c c' r' where r: "r = c # c' # r'" using a(2) by (auto simp: postOk_def)
  obtain u ts where u: "body e = u # ts" "startOk u" using assms(2) by (rule body_start)
  have "got e r s (parsePrimary n (parseCoalesce n) (parseBlock n) (parseType n) s)"
    unfolding r
  proof (rule parse_paren[OF _ u(2)])
    show "ks s = pu ''('' # u # ts @ pu '')'' # c # c' # r'" using a(1) u r by (simp add: par_def)
    fix s1 assume s1: "ks s1 = u # ts @ pu '')'' # c # c' # r'" "fr s1 = (False, snd (fr s))"
    have "got e (pu '')'' # c # c' # r') s1 (LP 0 n s1)"
      using assms(1) unfolding opd_def
      by (elim allE impE) (use s1 u a stops_close in \<open>auto simp: par_def up_def noLt_pu fr_def plain_def\<close>)
    then show "got e (pu '')'' # c # c' # r') s1 (parseCoalesce n s1)" by (simp add: LP_def)
  qed
  then show "\<exists>m. n \<le> m + fb e \<and> reach e r s m (parseCoalesce n) (PF n s)" using PF_got by (intro exI[of _ n]) simp
qed

lemma back_opd: "parsesBack e \<Longrightarrow> l \<le> lev e \<Longrightarrow> l \<le> 11 \<Longrightarrow> opd l False e"
  by (simp add: parsesBack_def)

lemma back_posts: "parsesBack e \<Longrightarrow> okS e \<Longrightarrow> b \<or> lev e = 12 \<Longrightarrow> posts b e"
  using opd_posts[of e] back_opd[of e 0] by (cases b) (auto simp: parsesBack_def)

text \<open>An operand of a binary or prefix operator, with the parentheses it needs.\<close>

lemma back_operand: "parsesBack e \<Longrightarrow> okS e \<Longrightarrow> l \<le> 11 \<Longrightarrow> opd l (lev e < l) e"
  using posts_opd[OF back_posts[of e True], of l] back_opd[of e l] by (cases "lev e < l") auto

lemma back_postfix:
  assumes "posts False e" "okS e" "lev e = 12"
  shows "parsesBack e"
  unfolding parsesBack_def using assms by (auto intro: posts_opd)

text \<open>An expression with one more postfix operator.\<close>

lemma post_cont:
  assumes "parsesBack a" "okS a" "b \<or> lev a = 12" "\<not> b \<and> isField a \<longrightarrow> f \<noteq> ''(''"
    "ks s = par b (body a) @ pu f # c # r'" "f \<notin> {''<'', ''::'', ''{''}" "ps_depth s + up b (nd a) \<le> 65" "plain s"
    "fb a + 6 \<le> fb e" "fb e \<le> n"
    "\<And>x s1 m. reads a x \<Longrightarrow> ks s1 = pu f # c # r' \<Longrightarrow> fr s1 = fr s \<Longrightarrow> fb e - fb a \<le> m + 1 \<Longrightarrow>
      reach e r s1 m (parseCoalesce n) (postfixLoop (Suc m) (parseCoalesce n) x s1)"
  shows "\<exists>m. n \<le> m + fb e \<and> reach e r s m (parseCoalesce n) (PF n s)"
proof -
  have "postOk b a (pu f # c # r')" using assms(4,6) by (cases c) (auto simp: postOk_def pu_def)
  moreover have "fb a + (if b then 3 else 0) \<le> n" using assms(9,10) by simp
  ultimately obtain m x s1 where m: "n \<le> m + fb a" and x: "PF n s = postfixLoop m (parseCoalesce n) x s1" "reads a x"
      "ks s1 = pu f # c # r'" "fr s1 = fr s"
    using postsD[OF back_posts[OF assms(1-3)] assms(5) _ assms(7,8), of n] by (auto simp: reach_def)
  obtain m' where m': "m = Suc m'" using m assms(9,10) by (cases m) auto
  have "fb e - fb a \<le> m' + 1" using m m' assms(10) by simp
  then have "reach e r s1 m' (parseCoalesce n) (PF n s)" unfolding x(1) m' by (rule assms(11)[OF x(2-4)])
  moreover have "n \<le> m' + fb e" using m m' assms(9) by simp
  ultimately show ?thesis using reach_frame[OF _ x(4)] by blast
qed

subsection \<open>The cases\<close>

lemma back_atom:
  assumes "okS e" "lev e = 12" "\<not> isField e" "body e = [u]"
    "\<And>s k t v c r n. ks s = u # (k, t, v) # c # r \<Longrightarrow> t \<notin> {''<'', ''::'', ''{''} \<Longrightarrow>
      \<exists>K. parsePrimary n (parseCoalesce n) (parseBlock n) (parseType n) s = mkExpr K (takeTok s) \<and> (\<forall>q. reads e (Expr q None K))"
  shows "parsesBack e"
proof (rule back_postfix[OF _ assms(1,2)], unfold posts_def, intro allI impI)
  fix s r n
  assume a: "ks s = par False (body e) @ r" "postOk False e r"
  obtain k t v c r' where r: "r = (k, t, v) # c # r'" "t \<notin> {''<'', ''::'', ''{''}" using a(2) by (auto simp: postOk_def)
  have s: "ks s = u # (k, t, v) # c # r'" using a(1) r(1) assms(4) by (simp add: par_def)
  obtain K where K: "parsePrimary n (parseCoalesce n) (parseBlock n) (parseType n) s = mkExpr K (takeTok s)" "\<forall>q. reads e (Expr q None K)"
    using assms(5)[OF s r(2)] by blast
  have "got e r s (mkExpr K (takeTok s))"
    using step_node[OF s, of K] K(2) unfolding got_def r(1) by blast
  then show "\<exists>m. n \<le> m + fb e \<and> reach e r s m (parseCoalesce n) (PF n s)"
    using PF_got[of e r s n] K(1) by (intro exI[of _ n]) simp
qed

lemma back_post:
  assumes "parsesBack a" "okS a" "okS e" "lev e = 12" "b \<or> lev a = 12" "\<not> b \<and> isField a \<longrightarrow> f \<noteq> ''(''"
    "body e = par b (body a) @ pu f # ts" "f \<notin> {''<'', ''::'', ''{''}" "up b (nd a) \<le> nd e" "fb a + 6 \<le> fb e"
    "\<And>x s m n r. postOk False e r \<Longrightarrow> reads a x \<Longrightarrow> ks s = pu f # ts @ r \<Longrightarrow> plain s \<Longrightarrow> ps_depth s + nd e \<le> 65 \<Longrightarrow>
      fb e \<le> n \<Longrightarrow> fb e - fb a \<le> m + 1 \<Longrightarrow> reach e r s m (parseCoalesce n) (postfixLoop (Suc m) (parseCoalesce n) x s)"
  shows "parsesBack e"
proof (rule back_postfix[OF _ assms(3,4)], unfold posts_def, intro allI impI)
  fix s r n
  assume h: "ks s = par False (body e) @ r" "postOk False e r" "ps_depth s + up False (nd e) \<le> 65" "plain s"
    "fb e + (if False then 3 else 0) \<le> n"
  obtain c r' where r: "ts @ r = c # r'" using h(2) by (cases "ts @ r") (auto simp: postOk_def)
  have d: "ps_depth s + nd e \<le> 65" "fb e \<le> n" using h(3,5) by (simp_all add: up_def)
  show "\<exists>m. n \<le> m + fb e \<and> reach e r s m (parseCoalesce n) (PF n s)"
  proof (rule post_cont[OF assms(1,2,5,6) _ assms(8) _ h(4) assms(10) d(2)])
    show "ks s = par b (body a) @ pu f # c # r'" using h(1) r assms(7) by (simp add: par_def)
    show "ps_depth s + up b (nd a) \<le> 65" using d(1) assms(9) by simp
    fix x s1 m
    assume x: "reads a x" "ks s1 = pu f # c # r'" "fr s1 = fr s" "fb e - fb a \<le> m + 1"
    show "reach e r s1 m (parseCoalesce n) (postfixLoop (Suc m) (parseCoalesce n) x s1)"
      by (rule assms(11)[OF h(2) x(1)]) (use x h(4) d r in \<open>auto simp: plain_def fr_def\<close>)
  qed
qed

lemma postOk_Cons:
  assumes "postOk b e r"
  obtains c r' where "r = c # r'"
  using assms by (auto simp: postOk_def)

lemma back_sign: assumes "parsesBack a" "okS a" shows "parsesBack (SSign a)"
proof (rule back_post[OF assms, where b = "lev a < 12" and f = "''!''" and ts = "[]"])
  fix x s m n r
  assume h: "postOk False (SSign a) r" "reads a x" "ks s = pu ''!'' # [] @ r"
  obtain c r' where r: "r = c # r'" using h(1) by (rule postOk_Cons)
  show "reach (SSign a) r s m (parseCoalesce n) (postfixLoop (Suc m) (parseCoalesce n) x s)"
    unfolding r by (rule step_sign) (use h r in simp_all)
qed (use assms lev_le[of a] in auto)

lemma back_try: assumes "parsesBack a" "okS a" shows "parsesBack (STry a)"
proof (rule back_post[OF assms, where b = "lev a < 12" and f = "''?''" and ts = "[]"])
  fix x s m n r
  assume h: "postOk False (STry a) r" "reads a x" "ks s = pu ''?'' # [] @ r"
  obtain c r' where r: "r = c # r'" using h(1) by (rule postOk_Cons)
  show "reach (STry a) r s m (parseCoalesce n) (postfixLoop (Suc m) (parseCoalesce n) x s)"
    unfolding r by (rule step_try) (use h r in simp_all)
qed (use assms lev_le[of a] in auto)

lemma back_field: assumes "parsesBack a" "okS (SField a w)" shows "parsesBack (SField a w)"
proof (rule back_post[OF assms(1), where b = "lev a < 12" and f = "''.''" and ts = "[(TK_IDENT, w, 0)]"])
  fix x s m n r
  assume h: "postOk False (SField a w) r" "reads a x" "ks s = pu ''.'' # [(TK_IDENT, w, 0)] @ r" "plain s"
  obtain k t v c r' where r: "r = (k, t, v) # c # r'" "t \<noteq> ''(''" using h(1) by (auto simp: postOk_def)
  show "reach (SField a w) r s m (parseCoalesce n) (postfixLoop (Suc m) (parseCoalesce n) x s)"
    unfolding r by (rule step_field) (use h r in simp_all)
qed (use assms lev_le[of a] in auto)

lemma back_readsArg:
  assumes "parsesBack i" "okS i" "d + nd i \<le> 64" "\<forall>p. dynMark ms p = None" "fb i + 6 \<le> n" "F = (c, d, ms)"
  shows "readsArg (parseCoalesce n) i F"
  unfolding readsArg_def
proof (intro allI impI)
  fix s f b r
  assume h: "f \<in> {'','', '')''}" "ks s = body i @ pu f # b # r" "fr s = F"
  have "got i (pu f # b # r) s (LP 0 n s)"
  proof (rule opdD[OF back_opd[OF assms(1), of 0]])
    show "stops 0 (pu f # b # r)" by (rule stops_close) (use h(1) in auto)
  qed (use h assms in \<open>auto simp: par_def up_def noLt_pu plain_def fr_def\<close>)
  then show "got i (pu f # b # r) s (parseCoalesce n s)" by (simp add: LP_def)
qed

lemma back_index: assumes "parsesBack a" "parsesBack i" "okS (SIndex a i)" shows "parsesBack (SIndex a i)"
proof (rule back_post[OF assms(1), where b = "lev a < 12" and f = "''[''" and ts = "body i @ [pu '']'']"])
  fix x s m n r
  assume h: "postOk False (SIndex a i) r" "reads a x" "ks s = pu ''['' # (body i @ [pu '']'']) @ r" "plain s"
    "ps_depth s + nd (SIndex a i) \<le> 65" "fb (SIndex a i) \<le> n"
  obtain c r' where r: "r = c # r'" using h(1) by (rule postOk_Cons)
  obtain u us where u: "body i = u # us" "startOk u" using assms(3) by (auto elim: body_start)
  show "reach (SIndex a i) r s m (parseCoalesce n) (postfixLoop (Suc m) (parseCoalesce n) x s)"
    unfolding r
  proof (rule step_index[OF _ u(2) h(2)])
    show "ks s = pu ''['' # u # us @ pu '']'' # c # r'" using h(3) u(1) r by simp
    fix s1 assume s1: "ks s1 = u # us @ pu '']'' # c # r'" "fr s1 = (False, snd (fr s))"
    have "got i (pu '']'' # c # r') s1 (LP 0 n s1)"
    proof (rule opdD[OF back_opd[OF assms(2), of 0]])
      show "stops 0 (pu '']'' # c # r')" by (rule stops_close) simp
      show "fb i + 6 \<le> n" using h(6) by simp
      show "ps_depth s1 + up False (nd i) \<le> 64" using h(5) s1(2) by (simp add: up_def fr_def)
    qed (use h(4) s1 u in \<open>auto simp: par_def noLt_pu plain_def fr_def\<close>)
    then show "got i (pu '']'' # c # r') s1 (parseCoalesce n s1)" by (simp add: LP_def)
  qed
qed (use assms lev_le[of a] in auto)

lemma fold_max: "d \<le> fold (\<lambda>x d. max d (g x)) xs d" "x \<in> set xs \<Longrightarrow> g x \<le> fold (\<lambda>x d. max d (g x :: nat)) xs d"
proof -
  show a: "d \<le> fold (\<lambda>x d. max d (g x)) xs d" for d xs by (induction xs arbitrary: d) (auto intro: le_trans[OF max.cobounded1])
  show "x \<in> set xs \<Longrightarrow> g x \<le> fold (\<lambda>x d. max d (g x)) xs d"
    by (induction xs arbitrary: d) (auto intro: le_trans[OF max.cobounded2] a)
qed

lemma args_fuel: "length as \<le> sum_list (map (\<lambda>x. fb x + 6) as)" "i \<in> set as \<Longrightarrow> fb i + 6 \<le> sum_list (map (\<lambda>x. fb x + 6) as)"
  by (induction as) (auto intro: trans_le_add2)

lemma back_args:
  assumes "\<And>i. i \<in> set as \<Longrightarrow> parsesBack i" "list_all okS as" "plain s" "ps_depth s + fold (\<lambda>x d. max d (Suc (nd x))) as d \<le> 65"
    "sum_list (map (\<lambda>x. fb x + 6) as) \<le> n"
  shows "\<forall>i\<in>set as. readsArg (parseCoalesce n) i (False, snd (fr s))"
proof
  fix i assume i: "i \<in> set as"
  have "Suc (nd i) \<le> fold (\<lambda>x d. max d (Suc (nd x))) as d" by (rule fold_max(2)[OF i])
  then have "ps_depth s + nd i \<le> 64" using assms(4) by linarith
  moreover have "fb i + 6 \<le> n" using args_fuel(2)[OF i] assms(5) by linarith
  ultimately show "readsArg (parseCoalesce n) i (False, snd (fr s))"
    using assms(1-3) i by (intro back_readsArg[where c = False]) (auto simp: list_all_iff plain_def fr_def)
qed

lemma back_call: assumes "parsesBack a" "\<And>i. i \<in> set as \<Longrightarrow> parsesBack i" "okS (SCall a as)" shows "parsesBack (SCall a as)"
proof (rule back_post[OF assms(1), where b = "lev a < 12 \<or> isField a" and f = "''(''" and ts = "commas (map body as) @ [pu '')'']"])
  fix x s m n r
  assume h: "postOk False (SCall a as) r" "reads a x" "ks s = pu ''('' # (commas (map body as) @ [pu '')'']) @ r" "plain s"
    "ps_depth s + nd (SCall a as) \<le> 65" "fb (SCall a as) \<le> n" "fb (SCall a as) - fb a \<le> m + 1"
  obtain c r' where r: "r = c # r'" using h(1) by (rule postOk_Cons)
  show "reach (SCall a as) r s m (parseCoalesce n) (postfixLoop (Suc m) (parseCoalesce n) x s)"
    unfolding r
  proof (rule step_call)
    show "\<forall>i\<in>set as. readsArg (parseCoalesce n) i (False, snd (fr s))"
      by (rule back_args) (use assms(2,3) h in auto)
    show "length as < m" using h(7) args_fuel(1)[of as] by simp
  qed (use h r assms(3) in simp_all)
next
  show "up (lev a < 12 \<or> isField a) (nd a) \<le> nd (SCall a as)" by (simp add: fold_max)
qed (use assms lev_le[of a] in auto)

lemma back_method: assumes "parsesBack a" "\<And>i. i \<in> set as \<Longrightarrow> parsesBack i" "okS (SMethod a w as)" shows "parsesBack (SMethod a w as)"
proof (rule back_post[OF assms(1), where b = "lev a < 12" and f = "''.''" and
      ts = "(TK_IDENT, w, 0) # pu ''('' # commas (map body as) @ [pu '')'']"])
  fix x s m n r
  assume h: "postOk False (SMethod a w as) r" "reads a x"
    "ks s = pu ''.'' # ((TK_IDENT, w, 0) # pu ''('' # commas (map body as) @ [pu '')'']) @ r" "plain s"
    "ps_depth s + nd (SMethod a w as) \<le> 65" "fb (SMethod a w as) \<le> n" "fb (SMethod a w as) - fb a \<le> m + 1"
  obtain c r' where r: "r = c # r'" using h(1) by (rule postOk_Cons)
  show "reach (SMethod a w as) r s m (parseCoalesce n) (postfixLoop (Suc m) (parseCoalesce n) x s)"
    unfolding r
  proof (rule step_method)
    show "\<forall>i\<in>set as. readsArg (parseCoalesce n) i (False, snd (fr s))"
      by (rule back_args) (use assms(2,3) h in auto)
    show "length as < m" using h(7) args_fuel(1)[of as] by simp
  qed (use h r assms(3) in simp_all)
next
  show "up (lev a < 12) (nd a) \<le> nd (SMethod a w as)" by (simp add: fold_max)
qed (use assms lev_le[of a] in auto)

lemma back_prefix:
  assumes "parsesBack a" "okS a" "lev e = 11" "nd e = Suc (up (lev a < 11) (nd a))" "fb e = fb a + 6"
    "body e = (k, f, v) # par (lev a < 11) (body a)"
    "k = TK_PUNCT \<and> (f = ''!'' \<or> f = ''-'' \<or> f = ''~'') \<and> e = SUn f a \<or>
      k = TK_PUNCT \<and> f = ''*'' \<and> e = SDeref a \<or> k = TK_KEYWORD \<and> f = ''ref'' \<and> e = SRef a"
  shows "parsesBack e"
proof -
  have "opd l False e" if l: "l \<le> 11" for l
    unfolding opd_def
  proof (intro allI impI)
    fix s r n
    assume h: "ks s = par False (body e) @ r" "stops l r" "False \<or> noLt r" "ps_depth s + up False (nd e) \<le> 64" "plain s"
      "fb e + (if False then 6 else 3) \<le> n"
    obtain u us where u: "par (lev a < 11) (body a) = u # us" "startOk u" using assms(2) by (rule first_start)
    have "stops 11 r" using h(2) l by (rule stops_mono)
    have s: "ks s = (k, f, v) # u # us @ r" using h(1) u assms(6) by (simp add: par_def)
    have "got e r s (LP 11 n s)" if n: "fb a + 7 \<le> n" for n
    proof -
      obtain n' where n': "n = Suc n'" using n by (cases n) auto
      have "got e r s (parseUnary (Suc n') s)"
      proof (rule wrap_op[OF s assms(7)])
        show "ps_depth s + 1 \<le> 64" using h(4) assms(4) by (simp add: up_def)
        fix s1 assume s1: "ks s1 = u # us @ r" "fr s1 = (fst (fr s), ps_depth s + 1, ps_marks s)"
        have "got a r s1 (LP 11 n' s1)"
          by (rule opdD[OF back_operand[OF assms(1,2), of 11]])
            (use s1 u h(3-5) n n' assms(4) \<open>stops 11 r\<close> in \<open>auto simp: plain_def fr_def up_def\<close>)
        then show "got a r s1 (parseUnary n' s1)" by (simp add: LP_def)
      qed
      then show ?thesis by (simp add: n' LP_def)
    qed
    then show "got e r s (LP l n s)"
      by (rule lower[where N = "fb a + 7" and j = 11]) (use h(2,6) l assms(5) in auto)
  qed
  then show ?thesis using assms(3) by (simp add: parsesBack_def)
qed

lemma noLt_op: "isOp f \<Longrightarrow> leftLev f \<le> 12 \<Longrightarrow> noLt (opToks f @ r)"
  by (drule isOp_cases) (auto simp: noLt_def opToks_def pu_def leftLev_def)

lemma left_operand:
  assumes "parsesBack a" "okS a" "isOp f" "startOk v" "ks s = par (lev a < leftLev f) (body a) @ opToks f @ v # r"
    "ps_depth s + up (lev a < leftLev f) (nd a) \<le> 64" "plain s" "fb a + 6 \<le> n"
  shows "\<exists>m x s1. n \<le> m + fb a \<and> LP (opLev f) n s = loopK (opLev f) n m x s1 \<and> reads a x \<and> ks s1 = opToks f @ v # r \<and> fr s1 = fr s"
proof -
  let ?k = "opLev f" and ?b = "lev a < leftLev f"
  note k = opLev_range[OF assms(3)]
  have n: "\<not> ?b \<Longrightarrow> noLt (opToks f @ v # r)" using lev_le[OF assms(2)] by (intro noLt_op[OF assms(3)]) simp
  show ?thesis
  proof (cases "?b \<or> ?k < lev a")
    case True
    have "opd (Suc ?k) ?b a"
    proof (cases ?b)
      case b: True
      then show ?thesis using posts_opd[OF back_posts[OF assms(1,2), of True], of "Suc ?k"] assms(2) k by simp
    next
      case b: False
      then show ?thesis using back_opd[OF assms(1), of "Suc ?k"] True k by simp
    qed
    then have "got a (opToks f @ v # r) s (LP (Suc ?k) n s)"
      using stops_op[OF assms(3,4), of "Suc ?k" r] n by (intro opdD[OF _ assms(5) _ _ assms(6-8)]) auto
    then obtain x s1 where x: "LP (Suc ?k) n s = Parsed x s1" "reads a x" "ks s1 = opToks f @ v # r" "fr s1 = fr s"
      by (auto simp: got_def)
    have "LP ?k n s = loopK ?k n n x s1" using LP_step[of ?k n s] k x(1) by simp
    then show ?thesis using x(2-4) by (intro exI[of _ n] exI[of _ x] exI[of _ s1]) simp
  next
    case False
    then have b: "\<not> ?b" "lev a = ?k" using lev_le[OF assms(2)] by (auto simp: leftLev_def split: if_splits)
    then have "spine ?k a" using assms(1) k by (simp add: parsesBack_def)
    from spineD[OF this _ stops_op[OF assms(3,4)] n[OF b(1)]] show ?thesis
      using assms(5-8) b(1) by (simp add: par_def up_def)
  qed
qed

lemma spine_bin:
  assumes "parsesBack a" "parsesBack b" "okS (SBin f a b)"
  shows "spine (opLev f) (SBin f a b)"
  unfolding spine_def
proof (intro allI impI)
  let ?e = "SBin f a b" and ?k = "opLev f"
  fix s r n
  assume h: "ks s = body ?e @ r" "stops (Suc ?k) r" "noLt r" "ps_depth s + nd ?e \<le> 64" "plain s" "fb ?e + 1 \<le> n"
  have ok: "okS a" "okS b" "isOp f" using assms(3) by simp_all
  note k = opLev_range[OF ok(3)]
  obtain v vs where v: "par (lev b \<le> ?k) (body b) = v # vs" "startOk v" using ok(2) by (rule first_start)
  have "up (lev a < leftLev f) (nd a) \<le> nd ?e" by simp
  then have d: "ps_depth s + up (lev a < leftLev f) (nd a) \<le> 64" using h(4) by linarith
  obtain m x s1 where m: "n \<le> m + fb a" and x: "LP ?k n s = loopK ?k n m x s1" "reads a x" "ks s1 = opToks f @ v # vs @ r" "fr s1 = fr s"
    using left_operand[OF assms(1) ok(1,3) v(2), of s "vs @ r" n] h(1,5,6) d v(1) by auto
  obtain m' where m': "m = Suc m'" using m h(6) by (cases m) auto
  obtain s0 where s0: "ks s0 = v # vs @ r" "fr s0 = fr s1"
      "loopK ?k n (Suc m') x s1 = pBind (LP (Suc ?k) n s0) (\<lambda>y s2. pBind (mkBin f x y s2) (loopK ?k n m'))"
    using loop_go[OF ok(3) refl x(3) v(2)] by metis
  have "got b r s0 (LP (Suc ?k) n s0)"
    by (rule opdD[OF back_operand[OF assms(2) ok(2), of "Suc ?k"]])
      (use h k s0(1,2) x(4) v(1) in \<open>auto simp: plain_def fr_def less_Suc_eq_le\<close>)
  then obtain y s2 where y: "LP (Suc ?k) n s0 = Parsed y s2" "reads b y" "ks s2 = r" "fr s2 = fr s0"
    by (auto simp: got_def)
  let ?x = "Expr (ps_next s2) None (EX_BIN f x y)" and ?s = "s2\<lparr>ps_next := ps_next s2 + 1\<rparr>"
  have "LP ?k n s = loopK ?k n m' ?x ?s"
    using x(1) s0(3) y(1) by (simp add: m' mkBin_def mkExpr_def mkNodeAt_def)
  then show "\<exists>m x s'. n \<le> m + fb ?e \<and> LP ?k n s = loopK ?k n m x s' \<and> reads ?e x \<and> ks s' = r \<and> fr s' = fr s"
    using m m' x(2,4) s0(2) y(2-4) by (intro exI[of _ m'] exI[of _ ?x] exI[of _ ?s]) simp
qed

lemma back_bin:
  assumes "parsesBack a" "parsesBack b" "okS (SBin f a b)"
  shows "parsesBack (SBin f a b)"
proof -
  let ?e = "SBin f a b" and ?k = "opLev f"
  have k: "1 \<le> ?k" "?k \<le> 10" using opLev_range[of f] assms(3) by simp_all
  note S = spine_bin[OF assms]
  have "opd l False ?e" if l: "l \<le> ?k" for l
    unfolding opd_def
  proof (intro allI impI)
    fix s r n
    assume h: "ks s = par False (body ?e) @ r" "stops l r" "False \<or> noLt r" "ps_depth s + up False (nd ?e) \<le> 64" "plain s"
      "fb ?e + (if False then 6 else 3) \<le> n"
    have st: "stops (Suc ?k) r" "stops ?k r" using h(2) l by (auto elim: stops_mono)
    have "got ?e r s (LP ?k n s)" if n: "fb ?e + 1 \<le> n" for n
    proof -
      obtain m x s1 where m: "n \<le> m + fb ?e" "LP ?k n s = loopK ?k n m x s1" "reads ?e x" "ks s1 = r" "fr s1 = fr s"
        using spineD[OF S _ st(1) _ _ h(5) n] h(1,3,4) by (auto simp: par_def up_def)
      obtain m' where m': "m = Suc m'" using m(1) n by (cases m) auto
      have "LP ?k n s = Parsed x s1" unfolding m(2) m' by (rule loop_stop[OF k]) (simp add: m(4) st(2))
      then show ?thesis using m(3-5) by (simp add: got_def)
    qed
    then show "got ?e r s (LP l n s)"
      by (rule lower[where N = "fb ?e + 1" and j = ?k]) (use h(2,6) l k in auto)
  qed
  then show ?thesis using S k by (simp add: parsesBack_def)
qed

lemma back_coal:
  assumes "parsesBack a" "parsesBack b" "okS (SCoal a b)"
  shows "parsesBack (SCoal a b)"
proof -
  let ?e = "SCoal a b"
  have "opd 0 False ?e"
    unfolding opd_def
  proof (intro allI impI)
    fix s r n
    assume h: "ks s = par False (body ?e) @ r" "stops 0 r" "False \<or> noLt r" "ps_depth s + up False (nd ?e) \<le> 64" "plain s"
      "fb ?e + (if False then 6 else 3) \<le> n"
    obtain n1 where n1: "n = Suc (Suc n1)" using h(6) by (cases n; cases "n - 1") auto
    let ?n = "Suc n1"
    have ok: "okS a" "okS b" using assms(3) by simp_all
    obtain v vs where v: "body b = v # vs" "startOk v" using ok(2) by (rule body_start)
    have "got a (pu ''??'' # v # vs @ r) s (LP 1 ?n s)"
      by (rule opdD[OF back_operand[OF assms(1) ok(1), of 1]])
        (use h v n1 in \<open>auto simp: par_def up_def noLt_pu intro: stops_coal\<close>)
    then obtain x s1 where x: "LP 1 ?n s = Parsed x s1" "reads a x" "ks s1 = pu ''??'' # v # vs @ r" "fr s1 = fr s"
      by (auto simp: got_def)
    note t = ks_take[OF x(3)]
    have sk: "skipNl (takeTok s1) = takeTok s1" by (rule skipNl_start[OF t v(2)])
    have "got b r (takeTok s1) (LP 0 ?n (takeTok s1))"
      by (rule opdD[OF back_opd[OF assms(2), of 0]])
        (use h v n1 t x(4) in \<open>auto simp: par_def up_def plain_def fr_def\<close>)
    then obtain y s2 where y: "parseCoalesce ?n (takeTok s1) = Parsed y s2" "reads b y" "ks s2 = r" "fr s2 = fr s1"
      by (auto simp: got_def LP_def)
    let ?x = "Expr (ps_next s2) None (EX_COALESCE x y)" and ?s = "s2\<lparr>ps_next := ps_next s2 + 1\<rparr>"
    have r: "ks ?s = r" using y(3) by simp
    have "\<not> at ?s ''??''" using h(2) r by (auto simp: stops_def ks_cur)
    then have "coalesceLoop n1 (parseCoalesce ?n) ?x ?s = Parsed ?x ?s" using h(6) n1 by (cases n1) simp_all
    then have "coalesceLoop ?n (parseCoalesce ?n) x s1 = Parsed ?x ?s"
      using sk y(1) at_pu[OF x(3)] by (simp add: mkExpr_def mkNodeAt_def del: parseCoalesce.simps)
    then have "LP 0 n s = Parsed ?x ?s" using x(1) by (simp add: n1 LP_def parseCoalesceWith_def del: coalesceLoop.simps)
    then show "got ?e r s (LP 0 n s)" using x(2,4) y(2,4) r by (simp add: got_def)
  qed
  then show ?thesis by (simp add: parsesBack_def)
qed

lemma parses_back: "okS e \<Longrightarrow> parsesBack e"
proof (induction e)
  case (SInt w)
  show ?case by (rule back_atom[where u = "(TK_INT, w, decVal w)"]) (use SInt parse_int[of _ w] in fastforce)+
next
  case (SStr w)
  show ?case by (rule back_atom[where u = "(TK_STRING, w, 0)"]) (use SStr parse_str[of _ w] in fastforce)+
next
  case (SName w)
  show ?case by (rule back_atom[where u = "(TK_IDENT, w, 0)"]) (use SName parse_name[of _ w] in fastforce)+
next
  case (SBool b)
  show ?case
  proof (rule back_atom[where u = "(TK_KEYWORD, if b then ''true'' else ''false'', 0)"])
    fix s k t v c r n
    assume s: "ks s = (TK_KEYWORD, if b then ''true'' else ''false'', 0) # (k, t, v) # c # r"
    show "\<exists>K. parsePrimary n (parseCoalesce n) (parseBlock n) (parseType n) s = mkExpr K (takeTok s) \<and> (\<forall>q. reads (SBool b) (Expr q None K))"
      using parse_word[OF s] by (cases b) auto
  qed simp_all
next
  case SNull
  show ?case
  proof (rule back_atom[where u = "(TK_IDENT, ''null'', 0)"])
    fix s k t v c r n
    assume s: "ks s = (TK_IDENT, ''null'', 0) # (k, t, v) # c # r"
    show "\<exists>K. parsePrimary n (parseCoalesce n) (parseBlock n) (parseType n) s = mkExpr K (takeTok s) \<and> (\<forall>q. reads SNull (Expr q None K))"
      using parse_word[OF s] by auto
  qed simp_all
next
  case (SUn f a)
  show ?case by (rule back_prefix[of a _ TK_PUNCT f 0]) (use SUn in \<open>auto simp: pu_def\<close>)
next
  case (SDeref a)
  show ?case by (rule back_prefix[of a _ TK_PUNCT "''*''" 0]) (use SDeref in \<open>auto simp: pu_def\<close>)
next
  case (SRef a)
  show ?case by (rule back_prefix[of a _ TK_KEYWORD "''ref''" 0]) (use SRef in auto)
next
  case (SCall a as)
  then show ?case by (intro back_call) (auto simp: list_all_iff)
next
  case (SMethod a w as)
  then show ?case by (intro back_method) (auto simp: list_all_iff)
qed (auto intro: back_bin back_coal back_field back_index back_try back_sign)

text \<open>The tokens of a printed expression, as the lexer produces them.\<close>

lemma parse_printed:
  assumes "okS e" "nd e \<le> 64" "ks s = body e @ [(TK_NEWLINE, [NL], 0), (TK_EOF, [], 0)]" "ps_depth s = 0" "ps_marks s = []"
    "fb e + 6 \<le> n"
  shows "got e [(TK_NEWLINE, [NL], 0), (TK_EOF, [], 0)] s (parseExpr n s)"
proof -
  have "got e [(TK_NEWLINE, [NL], 0), (TK_EOF, [], 0)] s (LP 0 n s)"
  proof (rule opdD[OF back_opd[OF parses_back[OF assms(1)], of 0]])
    show "stops 0 [(TK_NEWLINE, [NL], 0), (TK_EOF, [], 0)]" by (auto simp: stops_def NL_def opsAt_def)
  qed (use assms in \<open>auto simp: par_def up_def noLt_def NL_def plain_def\<close>)
  then show ?thesis by (simp add: LP_def parseExpr_def)
qed

end
