(* ===== verification/Parser_Claims.thy ===== *)
theory Parser_Claims
  imports Parser_TotalDecl Parser_Fuel Parser_Round
begin

text \<open>Properties of the parser: it ends on every program the lexer accepts, whatever it parses it takes
  from the tokens and leaves the counters as they were, and its nesting budget is exact.\<close>

section \<open>Modules\<close>

lemma pBind_Parsed: "pBind r k = Parsed x s' \<longleftrightarrow> (\<exists>y s. r = Parsed y s \<and> k y s = Parsed x s')"
  by (cases r) auto

lemma moduleLoop_eof: "moduleLoop n td d s = Parsed m s' \<Longrightarrow> atKind s' TK_EOF"
  by (induction n arbitrary: d s) (auto simp: pBind_Parsed split: if_splits)

lemma good_moduleParser:
  assumes "4 * m \<le> n"
  shows "good 0 m (moduleLoop n (topDecl n (parseExpr n) (parseFunc n (parseBlock n) (parseType n)) (parseType n)) emptyModule)"
proof (cases m)
  case (Suc k)
  have "good 1 m (parseExpr n)" "good 1 m (parseBlock n)" "good 1 m (parseType n)"
    unfolding parseExpr_def using assms by (simp_all only: parsers_good good_parseType)
  then have "good 1 m (topDecl n (parseExpr n) (parseFunc n (parseBlock n) (parseType n)) (parseType n) a)" for a
    using assms by (intro good_topDecl good_parseFunc) auto
  then show ?thesis using assms Suc by (intro good_moduleLoop) auto
qed (simp add: good_zero)

text \<open>C18: On the tokens of any text that scans, parsing a module needs no more fuel than four units per
  character and eight more: it ends with a module or an error, the result is the same for all larger
  amounts, and a module means that everything up to the end marker has been read and that the depth
  counters and the condition mark are back where they began.\<close>

theorem module_parsed:
  assumes "lexAll src = (toks, None)" "4 * length src + 8 \<le> n"
  shows "parseModule n toks = parseModule (4 * length src + 8) toks \<and>
    (case parseModule n toks of
       Parsed m s \<Rightarrow> t_kind (cur s) = TK_EOF \<and> frame s = (False, 0, 0)
     | Failed e \<Rightarrow> True
     | Stuck \<Rightarrow> False)"
proof -
  let ?m = "length src + 2" and ?k = "4 * length src + 8"
  have w: "closedToks toks" "toksW toks \<le> ?m"
    using lexRange_weight[of src 1 1 toks] assms(1) by (simp_all add: lexAll_def)
  have f: "fits ?m (False, 0, 0) (skipJunk (newParser toks))"
    using w by (intro fits_skipJunk) (simp add: fits_def newParser_def frame_def)
  have p: "post (\<lambda>_. fits ?m (False, 0, 0)) (parseModule ?k toks)"
    unfolding parseModule_def using goodD[OF good_moduleParser[of ?m ?k] f] by simp
  then have e: "parseModule n toks = parseModule ?k toks"
    by (intro parseModule_up assms(2)) (auto simp: post_def)
  show ?thesis
    using p moduleLoop_eof unfolding e
    by (auto simp: post_def fits_def parseModule_def atKind_def split: pres.splits)
qed

lemma ex_module: "\<exists>toks m s. lexAll ''let x = 1'' = (toks, None) \<and> parseModule 44 toks = Parsed m s \<and> map pg_name (pm_globals m) = [''x'']"
proof -
  have "snd (lexAll ''let x = 1'') = None" by code_simp
  moreover have "case parseModule 44 (fst (lexAll ''let x = 1'')) of Parsed m s \<Rightarrow> map pg_name (pm_globals m) = [''x''] | _ \<Rightarrow> False"
    by code_simp
  ultimately show ?thesis by (cases "lexAll ''let x = 1''") (auto split: pres.splits)
qed

theorem module_parsed_witness:
  "\<exists>toks m s. lexAll ''let x = 1'' = (toks, None) \<and> parseModule 100 toks = Parsed m s \<and> map pg_name (pm_globals m) = [''x''] \<and>
     t_kind (cur s) = TK_EOF"
proof -
  obtain toks m s where x: "lexAll ''let x = 1'' = (toks, None)" "parseModule 44 toks = Parsed m s" "map pg_name (pm_globals m) = [''x'']"
    using ex_module by (elim exE conjE)
  have n: "4 * length ''let x = 1'' + 8 = 44" by simp
  note P = module_parsed[OF x(1), of 100, unfolded n x(2)]
  have "parseModule 100 toks = Parsed m s" using P by simp
  moreover have "t_kind (cur s) = TK_EOF" using P calculation by simp
  ultimately show ?thesis using x by (intro exI[of _ toks] exI[of _ m] exI[of _ s]) simp
qed

section \<open>Progress\<close>

text \<open>C19: Whatever the parser of statements or of expressions returns, it has taken tokens to get it (so a
  loop that calls it ends), the end marker is still the last token, and the depth counters and the
  condition mark are those it was called with, however the constructs inside nest.\<close>

theorem parsing_progress:
  assumes "closedToks (ps_toks s)" "4 * toksW (ps_toks s) \<le> n"
  shows "(case parseStmt n s of
      Parsed x s' \<Rightarrow> closedToks (ps_toks s') \<and> toksW (ps_toks s') < toksW (ps_toks s) \<and> frame s' = frame s
    | Failed e \<Rightarrow> True | Stuck \<Rightarrow> False) \<and>
    (case parseExpr n s of
      Parsed x s' \<Rightarrow> closedToks (ps_toks s') \<and> toksW (ps_toks s') < toksW (ps_toks s) \<and> frame s' = frame s
    | Failed e \<Rightarrow> True | Stuck \<Rightarrow> False)"
proof -
  let ?w = "toksW (ps_toks s)"
  have f: "fits ?w (frame s) s" using assms(1) by (simp add: fits_def)
  have "post (\<lambda>_. fits (?w - 1) (frame s)) (parseStmt n s)" "post (\<lambda>_. fits (?w - 1) (frame s)) (parseExpr n s)"
    unfolding parseExpr_def using assms(2) goodD[OF parsers_good(4)[of ?w n] f] goodD[OF parsers_good(1)[of ?w n] f] by simp_all
  then show ?thesis using fits_pos[OF f] by (auto simp: post_def fits_def split: pres.splits)
qed

definition tk :: "tokenKind \<Rightarrow> string \<Rightarrow> token" where
  "tk k txt = \<lparr>t_kind = k, t_text = txt, t_ival = 0, t_line = 1, t_col = 1\<rparr>"

theorem parsing_progress_witness:
  "\<exists>x s'. parseStmt 40 (newParser [tk TK_KEYWORD ''return'', tk TK_IDENT ''x'', tk TK_NEWLINE [NL], tk TK_EOF []]) = Parsed x s' \<and>
     toksW (ps_toks s') < 4 \<and> frame s' = (False, 0, 0)"
proof -
  let ?s = "newParser [tk TK_KEYWORD ''return'', tk TK_IDENT ''x'', tk TK_NEWLINE [NL], tk TK_EOF []]"
  have c: "closedToks (ps_toks ?s)" "toksW (ps_toks ?s) = 4" "frame ?s = (False, 0, 0)" by code_simp+
  have "case parseStmt 40 ?s of Parsed x s' \<Rightarrow> True | _ \<Rightarrow> False" by code_simp
  then show ?thesis using parsing_progress[OF c(1), of 40] c(2,3) by (auto split: pres.splits)
qed

section \<open>Printing and parsing\<close>

lemma op_tok: "isOp f \<Longrightarrow> u \<in> set (opToks f) \<Longrightarrow> \<exists>g. u = pu g \<and> g \<in> set PUNCTS"
  by (drule isOp_cases) (auto simp: opToks_def PUNCTS_def)

definition keyTok :: "key \<Rightarrow> token" where
  "keyTok u = (case u of (k, t, v) \<Rightarrow> \<lparr>t_kind = k, t_text = t, t_ival = v, t_line = 0, t_col = 0\<rparr>)"

definition keyOk :: "key \<Rightarrow> bool" where "keyOk u \<longleftrightarrow> tokOk (keyTok u)"

lemma keyOk_pu: "keyOk (pu f) \<longleftrightarrow> f \<in> set PUNCTS"
  by (simp add: keyOk_def keyTok_def pu_def tokOk_def)

lemma keyOk_kinds:
  "intOk w \<Longrightarrow> keyOk (TK_INT, w, decVal w)" "plainStr w \<Longrightarrow> keyOk (TK_STRING, w, 0)" "nameOk w \<Longrightarrow> keyOk (TK_IDENT, w, 0)"
  "fieldOk w \<Longrightarrow> keyOk (TK_IDENT, w, 0)" "w \<in> set KEYWORDS \<Longrightarrow> keyOk (TK_KEYWORD, w, 0)" "keyOk (TK_IDENT, ''null'', 0)"
  by (auto simp: keyOk_def keyTok_def tokOk_def intOk_def nameOk_def fieldOk_def inList_def identText_def isAlpha_def isAlnum_def
      KEYWORDS_def BUILTIN_TYPES_def)

lemma keyOk_par: "list_all keyOk ts \<Longrightarrow> list_all keyOk (par b ts)"
  by (simp add: par_def keyOk_pu PUNCTS_def)

lemma keyOk_commas: "(\<And>ts. ts \<in> set tss \<Longrightarrow> list_all keyOk ts) \<Longrightarrow> list_all keyOk (commas tss)"
  by (induction tss rule: commas.induct) (auto simp: keyOk_pu PUNCTS_def)

lemma keyOk_op: "isOp f \<Longrightarrow> list_all keyOk (opToks f)"
  by (auto simp: list_all_iff keyOk_pu dest: op_tok)

lemma body_keys: "okS e \<Longrightarrow> list_all keyOk (body e)"
proof (induction e)
  case (SBool b)
  then show ?case using keyOk_kinds(5)[of "''true''"] keyOk_kinds(5)[of "''false''"] by (simp add: KEYWORDS_def)
next
  case (SRef a)
  then show ?case using keyOk_kinds(5)[of "''ref''"] by (simp add: keyOk_par KEYWORDS_def)
next
  case (SCall a as)
  then have "list_all keyOk (commas (map body as))" by (intro keyOk_commas) (auto simp: list_all_iff)
  then show ?case using SCall by (simp add: keyOk_par keyOk_pu PUNCTS_def)
next
  case (SMethod a w as)
  then have "list_all keyOk (commas (map body as))" by (intro keyOk_commas) (auto simp: list_all_iff)
  then show ?case using SMethod by (simp add: keyOk_par keyOk_pu PUNCTS_def keyOk_kinds)
qed (auto simp: keyOk_par keyOk_pu keyOk_op keyOk_kinds PUNCTS_def)

text \<open>C17: Printing and parsing. An expression of names, literals, prefix, binary and postfix operators,
  calls and method calls is printed with parentheses where the levels of the operators ask for them and no
  others (two cases apart: the left operand of a less-than sign or shift, and a field that is called). When
  its nesting stays within the parser's budget, the text scans, and parsing it gives the tree of the
  expression and stops at the end of the line. So the parser's precedences are those of the printer, binary
  operators group to the left, \<open>??\<close> to the right, and every operand ends where it was meant to end.\<close>

theorem expr_roundtrip:
  assumes "okS e" "nd e \<le> 64" "4 * length (printSurf e) + 8 \<le> n"
  shows "\<exists>toks x s. lexAll (printSurf e) = (toks, None) \<and> parseExpr n (newParser toks) = Parsed x s \<and> reads e x \<and>
    map t_kind (ps_toks s) = [TK_NEWLINE, TK_EOF]"
proof -
  have "\<forall>t\<in>set (map keyTok (body e)). tokOk t" using body_keys[OF assms(1)] by (auto simp: list_all_iff keyOk_def)
  moreover have p: "printSurf e = printToks (map keyTok (body e))"
    by (simp add: printSurf_def keyTok_def fun_eq_iff cong: map_cong)
  ultimately obtain toks where t: "lexAll (printSurf e) = (toks, None)"
      "map tokKey toks = map tokKey (map keyTok (body e)) @ [(TK_NEWLINE, [NL], 0), (TK_EOF, [], 0)]"
    using scan_printed by metis
  let ?s = "newParser toks" let ?r = "[(TK_NEWLINE, [NL], 0), (TK_EOF, [], 0)]"
  have s: "ks ?s = body e @ ?r" "ps_depth ?s = 0" "ps_marks ?s = []"
    using t(2) by (auto simp: ks_def newParser_def keyTok_def tokKey_def comp_def split: prod.splits intro!: map_idI)
  obtain x s' where x: "parseExpr (max n (fb e + 6)) ?s = Parsed x s'" "reads e x" "ks s' = ?r"
    using parse_printed[OF assms(1,2) s, of "max n (fb e + 6)"] unfolding got_def by auto
  have w: "closedToks toks" "toksW toks \<le> length (printSurf e) + 2"
    using lexRange_weight[of "printSurf e" 1 1 toks] t(1) by (simp_all add: lexAll_def)
  have "fits (length (printSurf e) + 2) (frame ?s) ?s" using w by (simp add: fits_def newParser_def)
  then have "parseExpr n ?s \<noteq> Stuck"
    unfolding parseExpr_def using goodD[OF parsers_good(1)[of "length (printSurf e) + 2" n]] assms(3) by (fastforce simp: post_def)
  then have "parseExpr n ?s = Parsed x s'" using fuel_up[OF below_parseExpr, of n "max n (fb e + 6)" ?s] x(1) by simp
  moreover have "map t_kind (ps_toks s') = [TK_NEWLINE, TK_EOF]"
    using x(3) by (auto simp: ks_def tokKey_def map_eq_Cons_conv)
  ultimately show ?thesis using t(1) x(2) by (intro exI[of _ toks] exI[of _ x] exI[of _ s']) simp
qed

definition exSurf :: surf where
  "exSurf = SBin ''+'' (SName ''a'') (SBin ''*'' (SField (SName ''b'') ''n'') (SCoal (SName ''c'') (SCall (SName ''f'') [SName ''x'', SInt ''1''])))"

theorem expr_roundtrip_witness:
  "\<exists>toks x s. lexAll ''a + b . n * ( c ?? f ( x , 1 ) ) '' = (toks, None) \<and> parseExpr 200 (newParser toks) = Parsed x s \<and> reads exSurf x"
proof -
  have p: "printSurf exSurf = ''a + b . n * ( c ?? f ( x , 1 ) ) ''" "okS exSurf" "nd exSurf \<le> 64" by code_simp+
  have "4 * length (printSurf exSurf) + 8 \<le> 200" unfolding p(1) by simp
  from expr_roundtrip[OF p(2,3) this] show ?thesis unfolding p(1) by (elim exE conjE) (intro exI conjI)
qed

section \<open>The nesting budget\<close>

lemma fail_up:
  assumes "LP 11 n s = Failed e" "1 \<le> l" "l \<le> 11"
  shows "LP l n s = Failed e"
  using assms(3)
proof (induction rule: inc_induct)
  case base
  then show ?case by (rule assms(1))
next
  case (step k)
  then show ?case using LP_step[of k n s] assms(2) by simp
qed

lemma fail_expr: "parseUnary n s = Failed e \<Longrightarrow> parseExpr (Suc n) s = Failed e"
  using fail_up[of n s e 1] by (simp add: LP_def parseExpr_def parseCoalesceWith_def)

lemma unary_full: "ps_depth s = 64 \<Longrightarrow> parseUnary (Suc n) s = Failed (NestingTooDeep (cur s) ''an expression'')"
  by (simp add: deeper_def PARSE_DEPTH_LIMIT_def)

lemma paren_fails:
  assumes "ks s = pu ''('' # u # r" "startOk u" "pe ((takeTok s)\<lparr>ps_inCond := False\<rparr>) = Failed e"
  shows "parsePrimary n pe pb pt s = Failed e"
proof -
  have "skipNl (takeTok s) = takeTok s" by (rule skipNl_start[OF ks_take[OF assms(1)] assms(2)])
  moreover have "t_kind (cur s) = TK_PUNCT" using ks_cur(1)[OF assms(1)[unfolded pu_def]] .
  ultimately show ?thesis using assms(3) by (simp add: prim_simps at_pu[OF assms(1)] withCond_def)
qed

lemma unary_expr:
  assumes "got e r s (parseUnary n s)" "stops 0 r" "1 \<le> n"
  shows "got e r s (parseExpr (Suc n) s)"
proof -
  obtain x s' where x: "LP 11 n s = Parsed x s'" "reads e x" "ks s' = r" "fr s' = fr s"
    using assms(1) by (auto simp: got_def LP_def)
  have "stops 1 r" using assms(2) by (rule stops_mono) simp
  then have "LP 1 n s = Parsed x s'" using x(1,3) assms(3) by (intro lift[of 1 11]) simp_all
  then have "LP 0 (Suc n) s = Parsed x s'" using assms(2,3) x(3) by (intro lift0) simp_all
  then show ?thesis using x(2-4) by (simp add: got_def LP_def parseExpr_def)
qed

lemma nest:
  assumes "intOk w" "ks s = replicate k (pu ''('') @ (TK_INT, w, decVal w) # replicate k (pu '')'') @ b # c # r"
    "stops 0 (b # c # r)" "noLt (b # c # r)" "plain s" "ps_depth s \<le> 64" "3 * k + 12 \<le> n"
  shows "if ps_depth s + k < 64 then got (SInt w) (b # c # r) s (parseExpr n s)
    else \<exists>t. parseExpr n s = Failed (NestingTooDeep t ''an expression'')"
  using assms(2-7)
proof (induction k arbitrary: s b c r n)
  case 0
  obtain m where m: "n = Suc (Suc m)" using 0(6) by (cases n; cases "n - 1") auto
  show ?case
  proof (cases "ps_depth s < 64")
    case True
    have "got (SInt w) (b # c # r) s (LP 0 n s)"
      by (rule opdD[OF back_opd[OF parses_back, of "SInt w" 0]])
        (use 0 assms(1) True in \<open>simp_all add: par_def up_def\<close>)
    then show ?thesis using True by (simp add: LP_def parseExpr_def)
  next
    case False
    then show ?thesis using fail_expr[OF unary_full, of s m] 0(5) m by auto
  qed
next
  case (Suc k)
  obtain m where m: "n = Suc (Suc m)" using Suc.prems(6) by (cases n; cases "n - 1") auto
  show ?case
  proof (cases "ps_depth s = 64")
    case True
    then show ?thesis using fail_expr[OF unary_full, of s m] m by auto
  next
    case False
    let ?d = "s\<lparr>ps_depth := ps_depth s + 1\<rparr>"
    define ts where "ts = replicate k (pu ''('') @ (TK_INT, w, decVal w) # replicate k (pu '')'')"
    obtain u us where u: "ts = u # us" "startOk u"
      using assms(1) digits_punct[of w] by (cases k) (auto simp: ts_def startOk_def pu_def intOk_def)
    have close: "replicate (Suc k) (pu '')'') = replicate k (pu '')'') @ [pu '')'']" by (simp add: replicate_append_same)
    have d: "ks ?d = pu ''('' # u # us @ pu '')'' # b # c # r"
      using Suc.prems(1)[unfolded close] u(1) unfolding ts_def by simp
    have IH: "if ps_depth s1 + k < 64 then got (SInt w) (pu '')'' # b # c # r) s1 (parseExpr m s1)
        else \<exists>t. parseExpr m s1 = Failed (NestingTooDeep t ''an expression'')"
      if s1: "ks s1 = u # us @ pu '')'' # b # c # r" "fr s1 = (False, snd (fr ?d))" for s1
    proof (rule Suc.IH)
      show "ks s1 = replicate k (pu ''('') @ (TK_INT, w, decVal w) # replicate k (pu '')'') @ pu '')'' # b # c # r"
        using s1(1) u(1) by (simp add: ts_def)
      show "stops 0 (pu '')'' # b # c # r)" by (rule stops_close) simp
    qed (use s1 Suc.prems(4-6) False m in \<open>auto simp: noLt_pu plain_def fr_def\<close>)
    show ?thesis
    proof (cases "ps_depth s + Suc k < 64")
      case True
      have "got (SInt w) (b # c # r) ?d (parsePrimary m (parseCoalesce m) (parseBlock m) (parseType m) ?d)"
      proof (rule parse_paren[OF d u(2)])
        fix s1 assume s1: "ks s1 = u # us @ pu '')'' # b # c # r" "fr s1 = (False, snd (fr ?d))"
        have "ps_depth s1 + k < 64" using s1(2) True by (simp add: fr_def)
        then show "got (SInt w) (pu '')'' # b # c # r) s1 (parseCoalesce m s1)" using IH[OF s1] by (simp add: parseExpr_def)
      qed
      then have "reach (SInt w) (b # c # r) ?d m (parseCoalesce m) (PF m ?d)" by (rule PF_got)
      moreover have "stops 11 (b # c # r)" using Suc.prems(2) by (rule stops_mono) simp
      ultimately have "got (SInt w) (b # c # r) s (parseUnary (Suc m) s)"
        using d True Suc.prems(6) m by (intro wrap_prim[of s "pu ''(''" _ _ m]) (auto simp: prim_def startOk_def pu_def)
      then show ?thesis using unary_expr[of "SInt w" _ s "Suc m"] Suc.prems(2) m True by simp
    next
      case f: False
      let ?c = "(takeTok ?d)\<lparr>ps_inCond := False\<rparr>"
      have c: "ks ?c = u # us @ pu '')'' # b # c # r" "fr ?c = (False, snd (fr ?d))"
        using ks_take[OF d] by (simp_all add: fr_def)
      obtain t where t: "parseCoalesce m ?c = Failed (NestingTooDeep t ''an expression'')"
        using IH[OF c] f by (auto simp: parseExpr_def)
      have "PF m ?d = Failed (NestingTooDeep t ''an expression'')"
        using paren_fails[of ?d u "us @ pu '')'' # b # c # r"] d u(2) t by (simp add: PF_def parsePostfix_def)
      moreover have "parseUnaryInner (parseUnary m) (PF m) ?d = PF m ?d"
        using at_pu[OF d] by (simp add: parseUnaryInner_def)
      ultimately have "parseUnary (Suc m) s = Failed (NestingTooDeep t ''an expression'')"
        using False Suc.prems(5) by (simp add: deeper_def PARSE_DEPTH_LIMIT_def PF_def)
      then show ?thesis using fail_expr[of "Suc m" s] f m by auto
    qed
  qed
qed

text \<open>C20: The nesting budget is exact. An integer in \<open>k\<close> pairs of parentheses is parsed, wherever the
  parser stands, when the levels already open and the pairs together stay below 64; otherwise the result is
  the diagnostic that the nesting is too deep, and not a parse of something else or a run without end.\<close>

theorem nesting_limit:
  assumes "intOk w" "ks s = replicate k (pu ''('') @ (TK_INT, w, decVal w) # replicate k (pu '')'') @ [(TK_NEWLINE, [NL], 0), (TK_EOF, [], 0)]"
    "plain s" "ps_depth s \<le> PARSE_DEPTH_LIMIT" "3 * k + 12 \<le> n"
  shows "if ps_depth s + k < PARSE_DEPTH_LIMIT
    then \<exists>x s'. parseExpr n s = Parsed x s' \<and> ex_kind x = EX_INT (decVal w) \<and> map t_kind (ps_toks s') = [TK_NEWLINE, TK_EOF]
    else \<exists>t. parseExpr n s = Failed (NestingTooDeep t ''an expression'')"
proof -
  have "stops 0 [(TK_NEWLINE, [NL], 0), (TK_EOF, [], 0)]" "noLt [(TK_NEWLINE, [NL], 0), (TK_EOF, [], 0)]"
    by (auto simp: stops_def noLt_def NL_def opsAt_def)
  note N = nest[OF assms(1,2) this assms(3) assms(4)[unfolded PARSE_DEPTH_LIMIT_def] assms(5)]
  show ?thesis
  proof (cases "ps_depth s + k < 64")
    case True
    then obtain x s' where x: "parseExpr n s = Parsed x s'" "ex_kind x = EX_INT (decVal w)"
        "ks s' = [(TK_NEWLINE, [NL], 0), (TK_EOF, [], 0)]"
      using N by (auto simp: got_def)
    moreover have "map t_kind (ps_toks s') = [TK_NEWLINE, TK_EOF]" using x(3) by (auto simp: ks_def tokKey_def map_eq_Cons_conv)
    ultimately show ?thesis using True by (simp add: PARSE_DEPTH_LIMIT_def)
  qed (use N in \<open>simp add: PARSE_DEPTH_LIMIT_def\<close>)
qed

definition nested :: "nat \<Rightarrow> token list" where
  "nested k = map keyTok (replicate k (pu ''('') @ (TK_INT, ''7'', 7) # replicate k (pu '')'') @ [(TK_NEWLINE, [NL], 0), (TK_EOF, [], 0)])"

theorem nesting_limit_witness:
  "(\<exists>x s'. parseExpr 210 (newParser (nested 63)) = Parsed x s' \<and> ex_kind x = EX_INT 7) \<and>
   (\<exists>t. parseExpr 210 (newParser (nested 64)) = Failed (NestingTooDeep t ''an expression''))"
proof -
  have k: "ks (newParser (nested k)) = replicate k (pu ''('') @ (TK_INT, ''7'', decVal ''7'') # replicate k (pu '')'') @
      [(TK_NEWLINE, [NL], 0), (TK_EOF, [], 0)]" for k
    by (simp add: ks_def newParser_def nested_def keyTok_def tokKey_def pu_def decVal_def)
  have w: "intOk ''7''" by (simp add: intOk_def isDigit_def decVal_def LLONG_MAX_def)
  have p: "plain (newParser ts)" "ps_depth (newParser ts) = 0" for ts by (simp_all add: plain_def newParser_def)
  have "decVal ''7'' = 7" by (simp add: decVal_def)
  then show ?thesis
    using nesting_limit[OF w k[of 63] p(1), of 210] nesting_limit[OF w k[of 64] p(1), of 210]
    by (auto simp: p PARSE_DEPTH_LIMIT_def)
qed

section \<open>Strings that read as words\<close>

text \<open>A string literal is not always a string. The test for the current token compares its text and
  exempts string literals only when the wanted text is punctuation; so in \<open>f("ref")\<close> the literal is taken
  for the operator \<open>ref\<close>, which then misses its operand.\<close>

theorem string_taken_as_ref:
  "\<exists>toks t. lexAll (''f('' @ DQ # ''ref'' @ DQ # '')'') = (toks, None) \<and> t_kind (toks ! 2) = TK_STRING \<and>
     parseExpr 60 (newParser toks) = Failed (ExpectedExpr t) \<and> t_text t = '')''"
proof -
  let ?l = "lexAll (''f('' @ DQ # ''ref'' @ DQ # '')'')"
  have "snd ?l = None" "t_kind (fst ?l ! 2) = TK_STRING"
    "case parseExpr 60 (newParser (fst ?l)) of Failed (ExpectedExpr t) \<Rightarrow> t_text t = '')'' | _ \<Rightarrow> False"
    by code_simp+
  then show ?thesis by (cases ?l) (auto split: pres.splits parseErr.splits)
qed

end
