(* ===== verification/Spec2Isabelle.thy ===== *)
theory Spec2Isabelle
  imports Rc_Claims Rc_BarrierClaims Lexer_Claims Types_Claims Types_Widen Types_WalkClaims Ast_Walk Check_Claims
    Dataflow_Claims Results_Claims Parser_Claims
begin

text \<open>
  Verification library of the extC compiler (src/src) and of the reclamation runtime it emits.

  \<^bold>\<open>The program.\<close> extC compiles a language with checked references to C. The front end scans a source
  file (front/lexer.c) and parses it into a tree (front/parser.c, ast/ast.c); types are interned in one
  table (types/types.c, types/typelayer.c); the checker (check/) resolves names, decides what may be
  assigned to what and how long the storage behind each reference must live, and writes its answers next
  to the tree (plan/results.c); the code generator (back/codegen.c) prints C. Programs that need it are
  linked with a tracing reclaimer of regions, whose C text is back/reclaim.c.

  \<^bold>\<open>Theories and sources.\<close> Each component has a theory with its records, datatypes and one definition per
  function of the code, under the code's names, followed by theories with lemmas and one with properties.

  \<^item> Prelude: bitmaps of words, lists and maps shared by the components. Open_Addressing: the linear
    probing tables of reclaim.c and results.c with insertion, deletion by back-shift and rehash; the
    locales \<open>hash_home\<close> and \<open>probe_table\<close> hold what follows from a hash that stays inside the table and a
    correct move test, and are interpreted by the slab registry (Rc_Registry), the pins (Rc_Pins), the
    type index (Rc_TypeTab) and the node numbers (Results_Claims).
  \<^item> Rc_Layout, Rc_TypeTab, Rc_Slab, Rc_Registry, Rc_Heap, Rc_Pins, Rc_Mark, Rc_Sweep, Rc_Collect, Rc_Alloc,
    Rc_Barrier: back/reclaim.c. The state is the record \<open>heap\<close> of slabs, regions, registry, pins and
    the words of the objects; addresses are numbers, machine words are written with their widths.
    Rc_Reach, Rc_MarkSafe, Rc_MarkInv, Rc_MarkDrain, Rc_MarkTerm, Rc_CollectSafe, Rc_AllocSafe, Rc_Runs,
    Rc_EdgeCount, Rc_Interleave and Rc_MutRun hold the invariants; Rc_MutRun is the step relation of a
    round interleaved with stores of the program. Rc_Claims and Rc_BarrierClaims hold the properties.
  \<^item> Lexer, Lexer_Print, Lexer_Pos, Lexer_Claims: front/lexer.c over strings.
  \<^item> Parser (the state, the cursor, types), Parser_Expr, Parser_Stmt (f-strings, operators, statements, and
    the recursion), Parser_Decl (declarations, modules): front/parser.c. A parser maps a state to a result
    and the state after it, or to the first error. Parser_Total, Parser_TotalStmt and Parser_TotalDecl show
    that every parser takes tokens and restores its frame, Parser_Fuel that more fuel changes nothing.
    Parser_Print prints expressions with the parentheses they need, Parser_Round parses them back, and
    Parser_Claims holds the properties.
  \<^item> Types (the table and the operations on it), Types_Table (resolution, substitution), Types_Layer
    (operators and methods), Types_Wf, Types_Build, Types_Subst, Types_Views, Types_Resolve (the
    invariant of the table, and what each operation builds), Types_Widen, Types_Claims: types/types.c
    and types/typelayer.c. A type is a tree whose nodes carry the address they were allocated at, so
    that comparing pointers is comparing addresses.
  \<^item> Types_Walk, Types_WalkClaims: the walks over types of check/check_lookup.c (does a type contain a
    reference or a function, does it have a zero value).
  \<^item> Ast, Ast_Walk: the tree of ast/ast.h, the generic walk of ast/ast.c and the searches of
    check/check_top.c built on it.
  \<^item> Check_Names, Check_Scopes, Check_Assign, Check_Claims: check/check.c and the lookups of
    check/check_lookup.c over the record \<open>checker\<close>: names of the generated C, scopes, proofs that a
    nullable reference is not null, places and their permissions, implicit conversion.
  \<^item> Dataflow, Dataflow_Props, Dataflow_Shape, Dataflow_Loop, Dataflow_Claims: check/check_dataflow.c. The
    locale \<open>flow_relation\<close> derives for every statement what its simple transfers and the join respect; it
    is interpreted for the growth of the table and for its shape.
  \<^item> Results, Results_Claims: plan/results.c.

  \<^bold>\<open>What the lemmas show.\<close> Reclaimer: a collection returns and keeps exactly the reachable objects, also when
  it runs in increments and with stores in between; the registry and the pins implement maps; allocation
  hands out fresh zeroed slots. Lexer: printing and scanning are inverse, tokens carry their positions
  up to the first character literal.
  Parser: parsing ends, consumes its input and restores the depth counters, printed expressions are parsed
  back, the nesting budget is exact. Types: the table is interned,
  equality, resolution and substitution agree with those of the denoted types (\<open>resErased\<close> and \<open>substErased\<close>,
  which use none of the code's tests), a widening loses no number. Walks and searches find exactly what is
  there. Checker: C names are unique unless a source name looks like a numbered one, scopes nest, null proofs
  are dropped exactly from the first one about the binding, a place is writable exactly when its shape and
  types permit it, an accepted reference never gains permission, except that of a template type the question
  is put off to its instances. Dataflow:
  the answer of a loop is a fixed point which covers its body, or is marked unusable. Results: node numbers
  are dense and never move.

  \<^bold>\<open>Bounds and fuel.\<close> Loops that end for a reason in the code are functions with a termination proof (the
  numbering of names, the rounds of a loop, the walks over trees and types). A probing loop gets as many
  steps as the table has cells, and None is a loop that does not end; it does not occur in a table with a
  free cell. The drain loop of a collection gets fuel, and its termination theorem gives enough of it.
  The mutual recursion of the parser gets four units of fuel for every unit of token weight (an f-string
  weighs its length), and a result reached with some fuel is the result with any larger one. The
  depth limits of the code (64 levels of syntax, 96 of a type annotation, 64 of a type, 32 of an expression,
  64 rounds of a loop) are part of the definitions. Numbers of nodes are taken modulo 2^32 as in the code, and the properties ask that fewer
  have been handed out.

  \<^bold>\<open>What the model found.\<close> Some theorems show behaviour that the comments of the code deny:
  \<open>stale_mark_loses_child\<close> (with \<open>newborn_mark_outlives_sweep\<close>), \<open>char_literal_column\<close>,
  \<open>mut_dropped_under_mut\<close>, \<open>mangle_collides\<close>, \<open>plain_mut_accepted\<close>, \<open>field_callee_skipped\<close>, \<open>cname_clash\<close>,
  \<open>null_proof_returns\<close>, \<open>readonly_view_bypassed\<close>, \<open>string_taken_as_ref\<close>, \<open>erasure_too_deep\<close>,
  \<open>field_above_binding\<close>, \<open>row_hides_depth\<close>, and \<open>contains_ref\<close> for a struct with a field that is a reference.

  \<^bold>\<open>Not modelled.\<close> Static release in the reclaimer (\<open>releaseOld\<close>, \<open>releaseDead\<close>), its statistics and its use
  by several threads; the value of a float literal; the texts of diagnostics, which are values here. The
  passes of the checker over declarations, bodies and escape levels (check_top.c,
  check_stmt.c, check_expr.c, check_escape.c) are left out because they rest on most of the compiler's state
  at once; the questions they ask of types, names, assignability and dataflow are modelled. The code
  generator prints C text whose meaning would need a semantics of C.
\<close>

end
